(* ===== verification/OS_Prelude.thy ===== *)
theory OS_Prelude
  imports Main "HOL-Library.Word"
begin

unbundle bit_operations_syntax

text \<open>
  The shared vocabulary of the development: the machine's integer types, the ways in
  which a piece of kernel code can fail to return, sequencing of fallible code, and
  the facts about words, lists and little-endian fields that several components use.
\<close>

section \<open>Machine integers and faults\<close>

text \<open>The integer types of \<^verbatim>\<open>kernel/stdint.h\<close>.\<close>

type_synonym u8 = "8 word"
type_synonym u16 = "16 word"
type_synonym u32 = "32 word"
type_synonym u64 = "64 word"

text \<open>
  A fault is a way in which the modelled code does not return: \<^verbatim>\<open>Debug::panic\<close> (which
  halts the processor in a loop), a failed \<^verbatim>\<open>ASSERT\<close> (which panics), an access outside
  an array, a use of a null \<^verbatim>\<open>Shared\<close> or raw pointer, a division by zero (a processor
  exception), and a loop that never ends.
\<close>

datatype fault =
    Panic string
  | AssertFailed string
  | OutOfBounds string
  | NullDeref string
  | DivideByZero
  | Diverges

type_synonym 'a res = "fault + 'a"

text \<open>Sequencing: the second computation runs only if the first one returns.\<close>

definition rbind :: "'a res \<Rightarrow> ('a \<Rightarrow> 'b res) \<Rightarrow> 'b res" where
  "rbind m f = (case m of Inl e \<Rightarrow> Inl e | Inr x \<Rightarrow> f x)"

definition assertR :: "string \<Rightarrow> bool \<Rightarrow> 'a res \<Rightarrow> 'a res" where
  "assertR msg b k = (if b then k else Inl (AssertFailed msg))"

text \<open>The result of a loop defined by \<^theory_text>\<open>partial_function (option)\<close>: \<open>None\<close> is a loop
  that never ends.\<close>

definition returned :: "'a res option \<Rightarrow> 'a res" where
  "returned r = (case r of None \<Rightarrow> Inl Diverges | Some x \<Rightarrow> x)"

lemma rbind_simps [simp]:
  "rbind (Inl e) f = Inl e"
  "rbind (Inr x) f = f x"
  by (simp_all add: rbind_def)

lemma rbind_eq_Inr [simp]: "rbind m f = Inr y \<longleftrightarrow> (\<exists>x. m = Inr x \<and> f x = Inr y)"
  by (cases m) auto

lemma rbind_cong [fundef_cong]:
  "m = m' \<Longrightarrow> (\<And>x. m' = Inr x \<Longrightarrow> f x = g x) \<Longrightarrow> rbind m f = rbind m' g"
  by (cases m') auto

text \<open>Case analysis of a conditional result by its branches alone.\<close>

lemma if_branchE: "(if b then x else y) = z \<Longrightarrow> (x = z \<Longrightarrow> P) \<Longrightarrow> (y = z \<Longrightarrow> P) \<Longrightarrow> P"
  by (cases b) simp_all

lemma rbind_assoc: "rbind (rbind m f) g = rbind m (\<lambda>x. rbind (f x) g)"
  by (cases m) auto

lemma assertR_simps [simp]:
  "assertR msg True k = k"
  "assertR msg False k = Inl (AssertFailed msg)"
  by (simp_all add: assertR_def)

lemma assertR_eq_Inr [simp]: "assertR msg b k = Inr y \<longleftrightarrow> b \<and> k = Inr y"
  by (simp add: assertR_def)

lemma assertR_cong [fundef_cong]:
  "b = b' \<Longrightarrow> (b' \<Longrightarrow> k = k') \<Longrightarrow> assertR msg b k = assertR msg b' k'"
  by (simp add: assertR_def)

lemma returned_simps [simp]:
  "returned None = Inl Diverges"
  "returned (Some x) = x"
  by (simp_all add: returned_def)

end
