(* ===== verification/Heap_Blocks.thy ===== *)
theory Heap_Blocks
  imports OS_Prelude "HOL-Library.Multiset"
begin

text \<open>
  The layout both allocators keep in their array of ints: a row of blocks, each with
  its signed size in its first and its last word (positive when available, negative
  when taken), and a doubly linked list through the second and third words of the
  available blocks.  This theory states the layout and proves what an update of single
  words does to it.  It holds no code of the repository.
\<close>

section \<open>A row of blocks\<close>

fun tiled :: "(int \<Rightarrow> int) \<Rightarrow> int \<Rightarrow> int list \<Rightarrow> int \<Rightarrow> bool" where
  "tiled a i [] j \<longleftrightarrow> i = j"
| "tiled a i (v # vs) j \<longleftrightarrow>
     2 \<le> \<bar>v\<bar> \<and> a i = v \<and> a (i + \<bar>v\<bar> - 1) = v \<and> tiled a (i + \<bar>v\<bar>) vs j"

definition extent :: "int list \<Rightarrow> int" where
  "extent vs = (\<Sum>v\<leftarrow>vs. \<bar>v\<bar>)"

text \<open>The words that hold a size.\<close>

fun tags :: "int \<Rightarrow> int list \<Rightarrow> int set" where
  "tags i [] = {}"
| "tags i (v # vs) = insert i (insert (i + \<bar>v\<bar> - 1) (tags (i + \<bar>v\<bar>) vs))"

text \<open>The positions of the available blocks, and the positions and sizes of the taken ones.\<close>

fun frees :: "int \<Rightarrow> int list \<Rightarrow> int list" where
  "frees i [] = []"
| "frees i (v # vs) = (if v > 0 then i # frees (i + \<bar>v\<bar>) vs else frees (i + \<bar>v\<bar>) vs)"

fun takens :: "int \<Rightarrow> int list \<Rightarrow> (int \<times> int) list" where
  "takens i [] = []"
| "takens i (v # vs) =
     (if v < 0 then (i, - v) # takens (i + \<bar>v\<bar>) vs else takens (i + \<bar>v\<bar>) vs)"

lemma extent_simps [simp]:
  "extent [] = 0"
  "extent (v # vs) = \<bar>v\<bar> + extent vs"
  "extent (us @ vs) = extent us + extent vs"
  by (simp_all add: extent_def)

lemma extent_nonneg: "0 \<le> extent vs"
  by (induction vs) auto

lemma tiled_end: "tiled a i vs j \<Longrightarrow> j = i + extent vs"
  by (induction vs arbitrary: i) fastforce+

lemma tiled_append [simp]:
  "tiled a i (us @ vs) j \<longleftrightarrow> tiled a i us (i + extent us) \<and> tiled a (i + extent us) vs j"
  by (induction us arbitrary: i) (auto simp: add.assoc)

lemma tags_append [simp]: "tags i (us @ vs) = tags i us \<union> tags (i + extent us) vs"
  by (induction us arbitrary: i) (auto simp: add.assoc)

lemma frees_append [simp]: "frees i (us @ vs) = frees i us @ frees (i + extent us) vs"
  by (induction us arbitrary: i) (auto simp: algebra_simps)

lemma takens_append [simp]: "takens i (us @ vs) = takens i us @ takens (i + extent us) vs"
  by (induction us arbitrary: i) (auto simp: algebra_simps)

lemma tiled_cong:
  "(\<And>k. k \<in> tags i vs \<Longrightarrow> a k = b k) \<Longrightarrow> tiled a i vs j = tiled b i vs j"
  by (induction vs arbitrary: i) auto

lemma tags_range:
  "\<forall>v\<in>set vs. 2 \<le> \<bar>v\<bar> \<Longrightarrow> tags i vs \<subseteq> {i..<i + extent vs}"
proof (induction vs arbitrary: i)
  case (Cons v vs)
  then have "tags (i + \<bar>v\<bar>) vs \<subseteq> {i + \<bar>v\<bar>..<i + \<bar>v\<bar> + extent vs}" by simp
  moreover have "0 \<le> extent vs" by (rule extent_nonneg)
  ultimately show ?case using Cons.prems by (auto simp: subset_iff)
qed simp

lemma tiled_sizes: "tiled a i vs j \<Longrightarrow> \<forall>v\<in>set vs. 2 \<le> \<bar>v\<bar>"
  by (induction vs arbitrary: i) auto

lemma frees_range:
  "\<forall>v\<in>set vs. 2 \<le> \<bar>v\<bar> \<Longrightarrow> p \<in> set (frees i vs) \<Longrightarrow> i \<le> p \<and> p < i + extent vs"
proof (induction vs arbitrary: i)
  case (Cons v vs)
  have "0 \<le> extent vs" by (rule extent_nonneg)
  with Cons.prems Cons.IH [of "i + \<bar>v\<bar>"] show ?case by (auto split: if_splits)
qed simp

lemma distinct_frees: "\<forall>v\<in>set vs. 2 \<le> \<bar>v\<bar> \<Longrightarrow> distinct (frees i vs)"
proof (induction vs arbitrary: i)
  case (Cons v vs)
  have "i \<notin> set (frees (i + \<bar>v\<bar>) vs)"
    using frees_range [of vs i "i + \<bar>v\<bar>"] Cons.prems by auto
  then show ?case using Cons.IH [of "i + \<bar>v\<bar>"] Cons.prems by auto
qed simp

text \<open>Splitting the row at an available or a taken block.\<close>

lemma frees_split:
  "p \<in> set (frees i vs) \<Longrightarrow> \<exists>us v ws. vs = us @ v # ws \<and> 0 < v \<and> p = i + extent us"
proof (induction vs arbitrary: i)
  case (Cons v vs)
  show ?case
  proof (cases "0 < v \<and> p = i")
    case True
    then show ?thesis by (intro exI [of _ "[]"]) auto
  next
    case False
    with Cons.prems have "p \<in> set (frees (i + \<bar>v\<bar>) vs)" by (auto split: if_splits)
    from Cons.IH [OF this] obtain us w ws
      where "vs = us @ w # ws" "0 < w" "p = i + \<bar>v\<bar> + extent us" by auto
    then show ?thesis by (intro exI [of _ "v # us"]) auto
  qed
qed simp

lemma takens_split:
  "(p, s) \<in> set (takens i vs) \<Longrightarrow>
     \<exists>us ws. vs = us @ - s # ws \<and> 0 < s \<and> p = i + extent us"
proof (induction vs arbitrary: i)
  case (Cons v vs)
  show ?case
  proof (cases "v < 0 \<and> p = i \<and> s = - v")
    case True
    then show ?thesis by (intro exI [of _ "[]"] exI [of _ vs]) auto
  next
    case False
    with Cons.prems have "(p, s) \<in> set (takens (i + \<bar>v\<bar>) vs)" by (auto split: if_splits)
    from Cons.IH [OF this] obtain us ws
      where "vs = us @ - s # ws" "0 < s" "p = i + \<bar>v\<bar> + extent us" by auto
    then show ?thesis by (intro exI [of _ "v # us"] exI [of _ ws]) auto
  qed
qed simp

lemma takens_range:
  "\<forall>v\<in>set vs. 2 \<le> \<bar>v\<bar> \<Longrightarrow> (p, s) \<in> set (takens i vs) \<Longrightarrow>
     i \<le> p \<and> 0 < s \<and> p + s \<le> i + extent vs"
  using extent_nonneg by (force dest!: takens_split)

text \<open>Every position of the row belongs to one block only.\<close>

lemma takens_disjoint:
  assumes "\<forall>v\<in>set vs. 2 \<le> \<bar>v\<bar>"
    and "(p, s) \<in> set (takens i vs)" and "(q, t) \<in> set (takens i vs)"
    and "(p, s) \<noteq> (q, t)"
  shows "p + s \<le> q \<or> q + t \<le> p"
  using assms
proof (induction vs arbitrary: i)
  case (Cons v vs)
  have *: "i + \<bar>v\<bar> \<le> x" if "(x, y) \<in> set (takens (i + \<bar>v\<bar>) vs)" for x y
    using takens_range [of vs x y "i + \<bar>v\<bar>"] that Cons.prems(1) by auto
  show ?case
    using Cons.prems Cons.IH [of "i + \<bar>v\<bar>"] *
    by (auto split: if_splits dest!: *)
qed simp

lemma distinct_takens: "\<forall>v\<in>set vs. 2 \<le> \<bar>v\<bar> \<Longrightarrow> distinct (takens i vs)"
proof (induction vs arbitrary: i)
  case (Cons v vs)
  have "(i, - v) \<notin> set (takens (i + \<bar>v\<bar>) vs)"
    using takens_range [of vs i "- v" "i + \<bar>v\<bar>"] Cons.prems by auto
  then show ?case using Cons.IH [of "i + \<bar>v\<bar>"] Cons.prems by auto
qed simp

text \<open>The row of blocks can be read off the array.\<close>

function walk :: "(int \<Rightarrow> int) \<Rightarrow> int \<Rightarrow> int \<Rightarrow> int list" where
  "walk a i j = (if i < j \<and> a i \<noteq> 0 then a i # walk a (i + \<bar>a i\<bar>) j else [])"
  by pat_completeness auto
termination
  by (relation "measure (\<lambda>(a, i, j). nat (j - i))") auto

declare walk.simps [simp del]

lemma tiled_walk: "tiled a i vs j \<Longrightarrow> walk a i j = vs"
proof (induction vs arbitrary: i)
  case Nil
  then show ?case by (simp add: walk.simps)
next
  case (Cons v vs)
  from Cons.prems have "j = i + \<bar>v\<bar> + extent vs" by (auto dest: tiled_end)
  moreover have "0 \<le> extent vs" by (rule extent_nonneg)
  ultimately have "i < j" using Cons.prems by simp
  with Cons show ?case by (subst walk.simps) auto
qed

text \<open>Replacing some neighbouring blocks by others of the same total size.\<close>

lemma retile:
  assumes "tiled a i (us @ xs @ ws) j" and "extent ys = extent xs"
    and "\<And>k. k \<in> tags i us \<Longrightarrow> b k = a k"
    and "\<And>k. k \<in> tags (i + extent us + extent xs) ws \<Longrightarrow> b k = a k"
    and "tiled b (i + extent us) ys (i + extent us + extent ys)"
  shows "tiled b i (us @ ys @ ws) j"
proof -
  have "tiled b i us (i + extent us)"
    using assms(1,3) tiled_cong [of i us b a] by simp
  moreover have "tiled b (i + extent us + extent xs) ws j"
    using assms(1,4) tiled_cong [of "i + extent us + extent xs" ws b a] by simp
  ultimately show ?thesis using assms(2,5) by (simp add: add.assoc)
qed

section \<open>No two neighbours available\<close>

fun no_adj :: "int list \<Rightarrow> bool" where
  "no_adj (x # y # zs) \<longleftrightarrow> \<not> (0 < x \<and> 0 < y) \<and> no_adj (y # zs)"
| "no_adj _ \<longleftrightarrow> True"

definition headfree :: "int list \<Rightarrow> bool" where
  "headfree vs \<longleftrightarrow> (case vs of [] \<Rightarrow> False | v # _ \<Rightarrow> 0 < v)"

definition lastfree :: "int list \<Rightarrow> bool" where
  "lastfree vs \<longleftrightarrow> vs \<noteq> [] \<and> 0 < last vs"

lemma headfree_simps [simp]: "\<not> headfree []" "headfree (v # vs) \<longleftrightarrow> 0 < v"
  by (simp_all add: headfree_def)

lemma lastfree_simps [simp]:
  "\<not> lastfree []" "lastfree [v] \<longleftrightarrow> 0 < v" "lastfree (us @ [v]) \<longleftrightarrow> 0 < v"
  "lastfree (v # w # vs) \<longleftrightarrow> lastfree (w # vs)"
  by (simp_all add: lastfree_def)

lemma no_adj_Cons [simp]: "no_adj (v # vs) \<longleftrightarrow> \<not> (0 < v \<and> headfree vs) \<and> no_adj vs"
  by (cases vs) auto

lemma no_adj_append [simp]:
  "no_adj (us @ vs) \<longleftrightarrow> no_adj us \<and> no_adj vs \<and> \<not> (lastfree us \<and> headfree vs)"
proof (induction us)
  case (Cons u us)
  then show ?case by (cases us) auto
qed simp

declare no_adj.simps(1) [simp del]

lemma headfree_append: "headfree (us @ vs) \<longleftrightarrow> (if us = [] then headfree vs else headfree us)"
  by (cases us) auto

section \<open>The list of available blocks\<close>

fun dll :: "(int \<Rightarrow> int) \<Rightarrow> int \<Rightarrow> int \<Rightarrow> int list \<Rightarrow> bool" where
  "dll a pr p [] \<longleftrightarrow> p = 0"
| "dll a pr p (x # xs) \<longleftrightarrow> p = x \<and> x \<noteq> 0 \<and> a (x + 2) = pr \<and> dll a x (a (x + 1)) xs"

text \<open>A segment of the list: it starts behind \<open>pr\<close> at \<open>p\<close> and ends at \<open>q\<close>.\<close>

fun dseg :: "(int \<Rightarrow> int) \<Rightarrow> int \<Rightarrow> int \<Rightarrow> int list \<Rightarrow> int \<Rightarrow> bool" where
  "dseg a pr p [] q \<longleftrightarrow> p = q"
| "dseg a pr p (x # xs) q \<longleftrightarrow>
     p = x \<and> x \<noteq> 0 \<and> a (x + 2) = pr \<and> dseg a x (a (x + 1)) xs q"

lemma dll_append:
  "dll a pr p (xs @ ys) \<longleftrightarrow> (\<exists>q. dseg a pr p xs q \<and> dll a (last (pr # xs)) q ys)"
  by (induction xs arbitrary: pr p) auto

lemma dll_cong:
  "(\<And>x. x \<in> set xs \<Longrightarrow> a (x + 1) = b (x + 1) \<and> a (x + 2) = b (x + 2)) \<Longrightarrow>
     dll a pr p xs = dll b pr p xs"
  by (induction xs arbitrary: pr p) auto

lemma dseg_snoc:
  "dseg a pr p (xs @ [z]) q \<longleftrightarrow>
     dseg a pr p xs z \<and> z \<noteq> 0 \<and> a (z + 2) = last (pr # xs) \<and> a (z + 1) = q"
  by (induction xs arbitrary: pr p) auto

lemma dseg_cong:
  "(\<And>x. x \<in> set xs \<Longrightarrow> a (x + 1) = b (x + 1) \<and> a (x + 2) = b (x + 2)) \<Longrightarrow>
     dseg a pr p xs q = dseg b pr p xs q"
  by (induction xs arbitrary: pr p) auto

lemma dll_nonzero: "dll a pr p xs \<Longrightarrow> 0 \<notin> set xs"
  by (induction xs arbitrary: pr p) auto

text \<open>Positions far enough apart that the link words of one are not those of another.\<close>

definition spaced :: "int list \<Rightarrow> bool" where
  "spaced xs \<longleftrightarrow> distinct xs \<and> (\<forall>x\<in>set xs. \<forall>y\<in>set xs. x < y \<longrightarrow> x + 4 \<le> y)"

lemma spacedD: "spaced xs \<Longrightarrow> x \<in> set xs \<Longrightarrow> y \<in> set xs \<Longrightarrow> x \<noteq> y \<Longrightarrow>
   x + 1 \<noteq> y + 2 \<and> x + 2 \<noteq> y + 1 \<and> x + 1 \<noteq> y + 1 \<and> x + 2 \<noteq> y + 2"
  unfolding spaced_def by (cases "x < y") force+

text \<open>What taking \<open>x\<close> out of the list does to the array and to the list's head.\<close>

definition unlink_arr :: "(int \<Rightarrow> int) \<Rightarrow> int \<Rightarrow> int \<Rightarrow> int" where
  "unlink_arr a x =
     (let p = a (x + 2); n = a (x + 1);
          a1 = (if p = 0 then a else a(p + 1 := n))
      in if n = 0 then a1 else a1(n + 2 := p))"

definition unlink_head :: "(int \<Rightarrow> int) \<Rightarrow> int \<Rightarrow> int \<Rightarrow> int" where
  "unlink_head a av x = (if a (x + 2) = 0 then a (x + 1) else av)"

lemma dll_unlink:
  assumes d: "dll a 0 av (xs @ x # ys)" and s: "spaced (xs @ x # ys)"
  shows "dll (unlink_arr a x) 0 (unlink_head a av x) (xs @ ys)"
proof -
  let ?p = "a (x + 2)" and ?n = "a (x + 1)" and ?b = "unlink_arr a x"
  have nz: "0 \<notin> set (xs @ x # ys)" using d by (rule dll_nonzero)
  from d obtain xs_seg: "dseg a 0 av xs x" and px: "?p = last (0 # xs)" and dy: "dll a x ?n ys"
    by (auto simp: dll_append)
  have sp: "u + 1 \<noteq> v + 2 \<and> u + 2 \<noteq> v + 1 \<and> u + 1 \<noteq> v + 1 \<and> u + 2 \<noteq> v + 2"
    if "u \<in> set (xs @ x # ys)" "v \<in> set (xs @ x # ys)" "u \<noteq> v" for u v
    using spacedD [OF s that] .
  have dist: "distinct (xs @ x # ys)" using s by (simp add: spaced_def)
  have nys: "?n = (case ys of [] \<Rightarrow> 0 | y # _ \<Rightarrow> y)" using dy by (cases ys) auto
  have tail: "dll ?b (last (0 # xs)) ?n ys"
  proof (cases ys)
    case Nil
    then show ?thesis using dy by simp
  next
    case (Cons y zs)
    have "?n = y" using nys Cons by simp
    have p1: "?p = 0 \<or> ?p \<in> set xs" using px by (cases xs rule: rev_cases) auto
    have y0: "y \<noteq> 0" using nz Cons by auto
    have upd: "?b (u + 1) = a (u + 1) \<and> (u \<noteq> y \<longrightarrow> ?b (u + 2) = a (u + 2))" if "u \<in> set ys" for u
    proof -
      have "u \<noteq> ?p \<or> ?p = 0" using p1 dist that by auto
      then have "?p = 0 \<or> (u + 1 \<noteq> ?p + 1 \<and> u + 2 \<noteq> ?p + 1)"
        using p1 sp [of u ?p] that by auto
      moreover have "u + 1 \<noteq> y + 2" "u \<noteq> y \<longrightarrow> u + 2 \<noteq> y + 2"
        using sp [of u y] that Cons by (cases "u = y"; auto)+
      ultimately show ?thesis using \<open>?n = y\<close> y0 by (auto simp: unlink_arr_def Let_def)
    qed
    have "?b (y + 2) = last (0 # xs)" using \<open>?n = y\<close> y0 px by (simp add: unlink_arr_def Let_def)
    moreover have "dll ?b y (?b (y + 1)) zs"
    proof -
      have "?b (y + 1) = a (y + 1)" using upd [of y] Cons by simp
      moreover have "dll ?b y (a (y + 1)) zs = dll a y (a (y + 1)) zs"
        by (rule dll_cong) (use upd Cons dist in auto)
      ultimately show ?thesis using dy Cons by simp
    qed
    ultimately show ?thesis using Cons y0 \<open>?n = y\<close> by simp
  qed
  show ?thesis
  proof (cases xs rule: rev_cases)
    case Nil
    then show ?thesis using tail px by (simp add: unlink_head_def)
  next
    case (snoc us z)
    have z: "?p = z" "z \<noteq> 0" using px snoc nz by auto
    have n1: "?n = 0 \<or> ?n \<in> set ys" using nys by (cases ys) auto
    have bz: "?b (z + 1) = ?n" using z n1 sp [of z ?n] snoc dist
      by (auto simp: unlink_arr_def Let_def)
    have same: "?b (u + 2) = a (u + 2) \<and> (u \<noteq> z \<longrightarrow> ?b (u + 1) = a (u + 1))" if "u \<in> set xs" for u
    proof -
      have "u \<noteq> ?n \<or> ?n = 0" using n1 dist that by auto
      then have "?n = 0 \<or> (u + 1 \<noteq> ?n + 2 \<and> u + 2 \<noteq> ?n + 2)"
        using n1 sp [of u ?n] that by auto
      moreover have "u + 2 \<noteq> z + 1" "u \<noteq> z \<longrightarrow> u + 1 \<noteq> z + 1"
        using sp [of u z] that snoc by (cases "u = z"; auto)+
      ultimately show ?thesis using z by (auto simp: unlink_arr_def Let_def)
    qed
    have "dseg ?b 0 av us z = dseg a 0 av us z"
      by (rule dseg_cong) (use same snoc dist in auto)
    with xs_seg snoc have "dseg ?b 0 av us z" by (simp add: dseg_snoc)
    then have "dseg ?b 0 av xs ?n"
      using snoc bz z same [of z] px xs_seg by (auto simp: dseg_snoc)
    moreover have "unlink_head a av x = av" using z by (simp add: unlink_head_def)
    ultimately show ?thesis using tail by (auto simp: dll_append)
  qed
qed

lemma unlink_arr_other:
  assumes "dll a 0 av (xs @ x # ys)"
    and "\<And>u. u \<in> set xs \<Longrightarrow> k \<noteq> u + 1" and "\<And>u. u \<in> set ys \<Longrightarrow> k \<noteq> u + 2"
  shows "unlink_arr a x k = a k"
proof -
  from assms(1) have px: "a (x + 2) = last (0 # xs)" and dy: "dll a x (a (x + 1)) ys"
    by (auto simp: dll_append)
  have "a (x + 2) = 0 \<or> a (x + 2) \<in> set xs" using px by (cases xs rule: rev_cases) auto
  moreover have "a (x + 1) = 0 \<or> a (x + 1) \<in> set ys" using dy by (cases ys) auto
  ultimately show ?thesis using assms(2,3) by (auto simp: unlink_arr_def Let_def)
qed

text \<open>Putting \<open>x\<close> at the head of the list.\<close>

lemma dll_push:
  assumes "dll a 0 av xs" and "x \<noteq> 0" and "spaced (x # xs)"
    and "b (x + 1) = av" and "b (x + 2) = 0"
    and "av \<noteq> 0 \<Longrightarrow> b (av + 2) = x"
    and "\<And>u. u \<in> set xs \<Longrightarrow> b (u + 1) = a (u + 1)"
    and "\<And>u. u \<in> set xs \<Longrightarrow> u \<noteq> av \<Longrightarrow> b (u + 2) = a (u + 2)"
  shows "dll b 0 x (x # xs)"
proof (cases xs)
  case Nil
  then show ?thesis using assms by simp
next
  case (Cons y ys)
  have y: "av = y" "y \<noteq> 0" using assms(1) Cons by auto
  have "y \<notin> set ys" using assms(3) Cons by (auto simp: spaced_def)
  have "dll b y (a (y + 1)) ys = dll a y (a (y + 1)) ys"
  proof (rule dll_cong)
    fix u assume "u \<in> set ys"
    then show "b (u + 1) = a (u + 1) \<and> b (u + 2) = a (u + 2)"
      using assms(7,8) [of u] Cons y \<open>y \<notin> set ys\<close> by auto
  qed
  then show ?thesis using assms Cons y by auto
qed

section \<open>The row and the list together\<close>

text \<open>Available blocks have at least four words: size, two links, size.\<close>

lemma frees_spaced:
  assumes "\<forall>v\<in>set vs. 2 \<le> \<bar>v\<bar>" and "\<forall>v\<in>set vs. 0 < v \<longrightarrow> 4 \<le> v"
  shows "spaced (frees i vs)"
  using assms
proof (induction vs arbitrary: i)
  case (Cons v vs)
  have IH: "spaced (frees (i + \<bar>v\<bar>) vs)" using Cons by simp
  have r: "i + \<bar>v\<bar> \<le> p" if "p \<in> set (frees (i + \<bar>v\<bar>) vs)" for p
    using frees_range [of vs p "i + \<bar>v\<bar>"] that Cons.prems by auto
  show ?case
  proof (cases "0 < v")
    case True
    then have "4 \<le> v" using Cons.prems by simp
    have far: "i + 4 \<le> p" if "p \<in> set (frees (i + \<bar>v\<bar>) vs)" for p
      using r [OF that] \<open>4 \<le> v\<close> by simp
    have "i \<notin> set (frees (i + \<bar>v\<bar>) vs)" using far [of i] by auto
    then show ?thesis using True IH far by (fastforce simp: spaced_def)
  next
    case False
    then show ?thesis using IH by simp
  qed
qed (simp add: spaced_def)

lemma link_not_tag:
  assumes "\<forall>v\<in>set vs. 2 \<le> \<bar>v\<bar>" and "\<forall>v\<in>set vs. 0 < v \<longrightarrow> 4 \<le> v"
    and "p \<in> set (frees i vs)" and "k \<in> tags i vs"
  shows "k \<noteq> p + 1 \<and> k \<noteq> p + 2"
  using assms
proof (induction vs arbitrary: i)
  case (Cons v vs)
  have sz: "\<forall>v\<in>set vs. 2 \<le> \<bar>v\<bar>" using Cons.prems by simp
  have rt: "i + \<bar>v\<bar> \<le> k" if "k \<in> tags (i + \<bar>v\<bar>) vs"
    using tags_range [OF sz, of "i + \<bar>v\<bar>"] that by auto
  have rf: "i + \<bar>v\<bar> \<le> p" if "p \<in> set (frees (i + \<bar>v\<bar>) vs)"
    using frees_range [OF sz that] by auto
  have v2: "2 \<le> \<bar>v\<bar>" and v4: "0 < v \<longrightarrow> 4 \<le> v" using Cons.prems by auto
  consider (head) "0 < v" "p = i" | (tail) "p \<in> set (frees (i + \<bar>v\<bar>) vs)"
    using Cons.prems(3) by (auto split: if_splits)
  then show ?case
  proof cases
    case head
    then show ?thesis using Cons.prems(4) rt v4 by auto
  next
    case tail
    then show ?thesis using Cons.prems Cons.IH [of "i + \<bar>v\<bar>"] rf v2 by auto
  qed
qed simp

lemma taken_word_not_tag:
  assumes "\<forall>v\<in>set vs. 2 \<le> \<bar>v\<bar>" and "(p, s) \<in> set (takens i vs)" and "p < k" and "k < p + s - 1"
  shows "k \<notin> tags i vs"
  using assms
proof (induction vs arbitrary: i)
  case (Cons v vs)
  have sz: "\<forall>v\<in>set vs. 2 \<le> \<bar>v\<bar>" using Cons.prems by simp
  have rt: "i + \<bar>v\<bar> \<le> k" if "k \<in> tags (i + \<bar>v\<bar>) vs"
    using tags_range [OF sz, of "i + \<bar>v\<bar>"] that by auto
  have rp: "i + \<bar>v\<bar> \<le> p" if "(p, s) \<in> set (takens (i + \<bar>v\<bar>) vs)"
    using takens_range [OF sz that] by auto
  consider (head) "p = i" "s = - v" "v < 0" | (tail) "(p, s) \<in> set (takens (i + \<bar>v\<bar>) vs)"
    using Cons.prems(2) by (auto split: if_splits)
  then show ?case
  proof cases
    case head
    then show ?thesis using Cons.prems(3,4) rt by auto
  next
    case tail
    then show ?thesis using Cons.IH [OF sz tail] rp Cons.prems by auto
  qed
qed simp

lemma spaced_mset: "mset xs = mset ys \<Longrightarrow> spaced xs = spaced ys"
  unfolding spaced_def by (metis mset_eq_setD mset_eq_imp_distinct_iff)


lemma frees_room:
  assumes "\<forall>v\<in>set vs. 2 \<le> \<bar>v\<bar>" and "\<forall>v\<in>set vs. 0 < v \<longrightarrow> 4 \<le> v" and "p \<in> set (frees i vs)"
  shows "i \<le> p \<and> p + 4 \<le> i + extent vs"
proof -
  from frees_split [OF assms(3)] obtain us v ws
    where "vs = us @ v # ws" "0 < v" "p = i + extent us" by blast
  then show ?thesis using assms(2) extent_nonneg [of ws] extent_nonneg [of us] by auto
qed

lemma free_taken_apart:
  assumes "\<forall>v\<in>set vs. 2 \<le> \<bar>v\<bar>" and "\<forall>v\<in>set vs. 0 < v \<longrightarrow> 4 \<le> v"
    and "q \<in> set (frees i vs)" and "(p, s) \<in> set (takens i vs)"
  shows "p + s \<le> q \<or> q + 4 \<le> p"
  using assms
proof (induction vs arbitrary: i)
  case (Cons v vs)
  have sz: "\<forall>v\<in>set vs. 2 \<le> \<bar>v\<bar>" and sz4: "\<forall>v\<in>set vs. 0 < v \<longrightarrow> 4 \<le> v" using Cons.prems by auto
  have rt: "i + \<bar>v\<bar> \<le> p" if "(p, s) \<in> set (takens (i + \<bar>v\<bar>) vs)"
    using takens_range [OF sz that] by auto
  have rf: "i + \<bar>v\<bar> \<le> q" if "q \<in> set (frees (i + \<bar>v\<bar>) vs)"
    using frees_room [OF sz sz4 that] by auto
  have v4: "0 < v \<longrightarrow> 4 \<le> v" using Cons.prems by auto
  consider (free) "0 < v" | (taken) "v < 0" using Cons.prems(1) by fastforce
  then show ?case
  proof cases
    case free
    then have t: "(p, s) \<in> set (takens (i + \<bar>v\<bar>) vs)" using Cons.prems(4) by auto
    show ?thesis
    proof (cases "q = i")
      case True
      then show ?thesis using rt [OF t] free v4 by auto
    next
      case False
      then show ?thesis using Cons.IH [of "i + \<bar>v\<bar>"] Cons.prems free t sz sz4 by auto
    qed
  next
    case taken
    then have f: "q \<in> set (frees (i + \<bar>v\<bar>) vs)" using Cons.prems(3) by auto
    show ?thesis
    proof (cases "p = i \<and> s = - v")
      case True
      then show ?thesis using rf [OF f] taken by auto
    next
      case False
      then show ?thesis using Cons.IH [of "i + \<bar>v\<bar>"] Cons.prems taken f sz sz4 by auto
    qed
  qed
qed simp

text \<open>
  \<open>grel a av n vs ps\<close>: the array \<open>a\<close> of \<open>n\<close> words is the row \<open>vs\<close>, and \<open>av\<close> heads a
  list \<open>ps\<close> of some of its available blocks.
\<close>

definition grel :: "(int \<Rightarrow> int) \<Rightarrow> int \<Rightarrow> int \<Rightarrow> int list \<Rightarrow> int list \<Rightarrow> bool" where
  "grel a av n vs ps \<longleftrightarrow>
     tiled a 0 vs n \<and> (\<forall>v\<in>set vs. 0 < v \<longrightarrow> 4 \<le> v) \<and>
     dll a 0 av ps \<and> distinct ps \<and> set ps \<subseteq> set (frees 0 vs)"

lemma grel_facts:
  assumes "grel a av n vs ps"
  shows "tiled a 0 vs n" "\<forall>v\<in>set vs. 2 \<le> \<bar>v\<bar>" "\<forall>v\<in>set vs. 0 < v \<longrightarrow> 4 \<le> v"
    "dll a 0 av ps" "distinct ps" "set ps \<subseteq> set (frees 0 vs)" "spaced ps"
    "n = extent vs"
proof -
  note g = assms [unfolded grel_def]
  show "tiled a 0 vs n" "\<forall>v\<in>set vs. 0 < v \<longrightarrow> 4 \<le> v"
    "dll a 0 av ps" "distinct ps" "set ps \<subseteq> set (frees 0 vs)" using g by auto
  then show 2: "\<forall>v\<in>set vs. 2 \<le> \<bar>v\<bar>" by (blast dest: tiled_sizes)
  show "n = extent vs" using g by (auto dest: tiled_end)
  have "spaced (frees 0 vs)" using 2 g by (auto intro: frees_spaced)
  then show "spaced ps" using g unfolding spaced_def by blast
qed

text \<open>Words of taken blocks are no link words of available ones.\<close>

lemma grel_taken_not_link:
  assumes "grel a av n vs ps" and "(p, s) \<in> set (takens 0 vs)" and "p \<le> k" and "k < p + s"
    and "q \<in> set ps"
  shows "k \<noteq> q + 1 \<and> k \<noteq> q + 2"
  using free_taken_apart [of vs q 0 p s] grel_facts [OF assms(1)] assms(2-) by fastforce

lemma grel_unlink:
  assumes "grel a av n vs (xs @ x # ys)"
  shows "grel (unlink_arr a x) (unlink_head a av x) n vs (xs @ ys)"
    and "\<And>k. (\<And>q. q \<in> set (xs @ ys) \<Longrightarrow> k \<noteq> q + 1 \<and> k \<noteq> q + 2) \<Longrightarrow> unlink_arr a x k = a k"
    and "\<And>k. k \<in> tags 0 vs \<Longrightarrow> unlink_arr a x k = a k"
proof -
  note g = grel_facts [OF assms]
  show other: "unlink_arr a x k = a k"
    if "\<And>q. q \<in> set (xs @ ys) \<Longrightarrow> k \<noteq> q + 1 \<and> k \<noteq> q + 2" for k
    using unlink_arr_other [OF g(4)] that by auto
  show tag: "unlink_arr a x k = a k" if "k \<in> tags 0 vs" for k
    by (rule other) (use link_not_tag [OF g(2,3) _ that] g(6) in auto)
  have "tiled (unlink_arr a x) 0 vs n" using g(1) tag by (simp cong: tiled_cong)
  moreover have "dll (unlink_arr a x) 0 (unlink_head a av x) (xs @ ys)"
    by (rule dll_unlink [OF g(4,7)])
  ultimately show "grel (unlink_arr a x) (unlink_head a av x) n vs (xs @ ys)"
    using g by (auto simp: grel_def)
qed

lemma grel_retile:
  assumes "grel a av n (us @ xs @ ws) ps"
    and "set ps \<subseteq> set (frees 0 us) \<union> set (frees (extent us + extent xs) ws)"
    and "extent ys = extent xs" and "\<forall>v\<in>set ys. 0 < v \<longrightarrow> 4 \<le> v"
    and "\<And>k. k < extent us \<or> extent us + extent xs \<le> k \<Longrightarrow> b k = a k"
    and "tiled b (extent us) ys (extent us + extent ys)"
  shows "grel b av n (us @ ys @ ws) ps"
proof -
  note g = grel_facts [OF assms(1)]
  have sz: "\<forall>v\<in>set us. 2 \<le> \<bar>v\<bar>" "\<forall>v\<in>set ws. 2 \<le> \<bar>v\<bar>" "\<forall>v\<in>set us. 0 < v \<longrightarrow> 4 \<le> v"
    "\<forall>v\<in>set ws. 0 < v \<longrightarrow> 4 \<le> v" using g(2,3) by auto
  have "tiled b 0 (us @ ys @ ws) n"
  proof (rule retile [OF g(1) assms(3)])
    show "b k = a k" if "k \<in> tags 0 us" for k
      using tags_range [OF sz(1), of 0] that assms(5) by auto
    show "b k = a k" if "k \<in> tags (0 + extent us + extent xs) ws" for k
      using tags_range [OF sz(2), of "extent us + extent xs"] that assms(5) by auto
  qed (use assms(6) in simp)
  moreover have "dll b 0 av ps"
  proof -
    have "b (q + 1) = a (q + 1) \<and> b (q + 2) = a (q + 2)" if "q \<in> set ps" for q
    proof -
      from that assms(2) consider "q \<in> set (frees 0 us)" | "q \<in> set (frees (extent us + extent xs) ws)"
        by auto
      then show ?thesis
      proof cases
        case 1
        then have "q + 4 \<le> extent us" using frees_room [OF sz(1,3), of q 0] by simp
        then show ?thesis using assms(5) by auto
      next
        case 2
        then have "extent us + extent xs \<le> q" using frees_room [OF sz(2,4), of q] by simp
        then show ?thesis using assms(5) by auto
      qed
    qed
    then have "dll b 0 av ps = dll a 0 av ps" by (rule dll_cong)
    then show ?thesis using g(4) by simp
  qed
  ultimately show ?thesis using g assms(2,3,4) by (auto simp: grel_def)
qed

text \<open>Putting an available block of the row at the head of the list.\<close>

definition push_arr :: "(int \<Rightarrow> int) \<Rightarrow> int \<Rightarrow> int \<Rightarrow> (int \<Rightarrow> int)" where
  "push_arr a av i =
     (let a1 = a(i + 1 := av, i + 2 := 0) in if av \<noteq> 0 then a1(av + 2 := i) else a1)"

lemma push_arr_other:
  "k \<noteq> i + 1 \<Longrightarrow> k \<noteq> i + 2 \<Longrightarrow> av = 0 \<or> k \<noteq> av + 2 \<Longrightarrow> push_arr a av i k = a k"
  by (auto simp: push_arr_def Let_def)

lemma dll_head: "dll a pr p xs \<Longrightarrow> p = 0 \<or> p \<in> set xs"
  by (cases xs) auto

lemma grel_push:
  assumes "grel a av n vs ps" and "i \<in> set (frees 0 vs)" and "i \<notin> set ps" and "i \<noteq> 0"
  shows "grel (push_arr a av i) i n vs (i # ps)"
    and "\<And>k. (\<And>q. q \<in> set (i # ps) \<Longrightarrow> k \<noteq> q + 1 \<and> k \<noteq> q + 2) \<Longrightarrow> push_arr a av i k = a k"
proof -
  note g = grel_facts [OF assms(1)]
  have av: "av = 0 \<or> av \<in> set ps" using g(4) by (rule dll_head)
  show other: "push_arr a av i k = a k"
    if "\<And>q. q \<in> set (i # ps) \<Longrightarrow> k \<noteq> q + 1 \<and> k \<noteq> q + 2" for k
    by (rule push_arr_other) (use av that in auto)
  have "push_arr a av i k = a k" if "k \<in> tags 0 vs" for k
    by (rule other) (use link_not_tag [OF g(2,3) _ that] g(6) assms(2) in auto)
  then have "tiled (push_arr a av i) 0 vs n" using g(1) by (simp cong: tiled_cong)
  moreover have "spaced (i # ps)"
  proof -
    have "spaced (frees 0 vs)" using g by (auto intro: frees_spaced)
    then show ?thesis using g(5,6) assms(2,3) unfolding spaced_def by auto
  qed
  moreover have "dll (push_arr a av i) 0 i (i # ps)"
  proof (rule dll_push [OF g(4) assms(4) \<open>spaced (i # ps)\<close>])
    have far: "q \<noteq> i \<Longrightarrow> q \<in> set ps \<Longrightarrow> q + 2 \<noteq> i + 1 \<and> q + 1 \<noteq> i + 2 \<and> q + 1 \<noteq> i + 1 \<and> q + 2 \<noteq> i + 2" for q
      using spacedD [OF \<open>spaced (i # ps)\<close>, of q i] by auto
    have avi: "av \<noteq> 0 \<Longrightarrow> av \<noteq> i" using av assms(3) by auto
    show "push_arr a av i (i + 1) = av" using far [of av] av avi by (auto simp: push_arr_def Let_def)
    show "push_arr a av i (i + 2) = 0" using far [of av] av avi by (auto simp: push_arr_def Let_def)
    show "push_arr a av i (av + 2) = i" if "av \<noteq> 0" using that by (simp add: push_arr_def)
    show "push_arr a av i (u + 1) = a (u + 1)" if "u \<in> set ps" for u
    proof -
      have "u \<noteq> i" using that assms(3) by auto
      moreover have "av \<noteq> 0 \<Longrightarrow> u + 1 \<noteq> av + 2"
        using av that spacedD [OF g(7), of u av] by (cases "u = av") auto
      ultimately show ?thesis using far [of u] that by (intro push_arr_other) auto
    qed
    show "push_arr a av i (u + 2) = a (u + 2)" if "u \<in> set ps" "u \<noteq> av" for u
    proof -
      have "u \<noteq> i" using that assms(3) by auto
      then show ?thesis using far [of u] that by (intro push_arr_other) auto
    qed
  qed
  ultimately show "grel (push_arr a av i) i n vs (i # ps)"
    using g assms(2,3) by (auto simp: grel_def)
qed

end
