(* ===== verification/Heap_Spec.thy ===== *)
theory Heap_Spec
  imports OS_Prelude
begin

text \<open>
  The contract of an allocator, as an interface: what a client that allocates, frees and
  writes into its own objects may rely on.  Three parts of the program provide it: the
  kernel heap, the heap of the user library, and the physical frame allocator; each
  interprets the locale on its own model.
\<close>

section \<open>A client of an allocator\<close>

text \<open>
  A history of calls: \<open>held\<close> are the pointers the client got and did not free.  It only
  frees what it holds and only writes inside what it holds.
\<close>

inductive client_run ::
  "('r \<Rightarrow> 's \<Rightarrow> (u32 \<times> 's) res) \<Rightarrow> (u32 \<Rightarrow> 's \<Rightarrow> 's res) \<Rightarrow> ('r \<Rightarrow> bool) \<Rightarrow>
   ('s \<Rightarrow> u32 \<Rightarrow> 'k set) \<Rightarrow> ('k \<Rightarrow> 'v \<Rightarrow> 's \<Rightarrow> 's) \<Rightarrow> 's \<Rightarrow> u32 set \<Rightarrow> 's \<Rightarrow> bool"
  for alloc release valid span put s0
where
  start: "client_run alloc release valid span put s0 {} s0"
| got: "client_run alloc release valid span put s0 held s \<Longrightarrow> valid r \<Longrightarrow>
    alloc r s = Inr (p, s') \<Longrightarrow> p \<noteq> 0 \<Longrightarrow>
    client_run alloc release valid span put s0 (insert p held) s'"
| refused: "client_run alloc release valid span put s0 held s \<Longrightarrow> valid r \<Longrightarrow>
    alloc r s = Inr (0, s') \<Longrightarrow>
    client_run alloc release valid span put s0 held s'"
| freed: "client_run alloc release valid span put s0 held s \<Longrightarrow> p \<in> held \<Longrightarrow>
    release p s = Inr s' \<Longrightarrow>
    client_run alloc release valid span put s0 (held - {p}) s'"
| wrote: "client_run alloc release valid span put s0 held s \<Longrightarrow> p \<in> held \<Longrightarrow>
    k \<in> span s p \<Longrightarrow>
    client_run alloc release valid span put s0 held (put k v s)"

section \<open>The interface\<close>

locale allocator =
  fixes alloc :: "'r \<Rightarrow> 's \<Rightarrow> (u32 \<times> 's) res"
    and release :: "u32 \<Rightarrow> 's \<Rightarrow> 's res"
    and valid :: "'r \<Rightarrow> bool"
    and invar :: "'s \<Rightarrow> bool"
    and live :: "'s \<Rightarrow> u32 set"
    and span :: "'s \<Rightarrow> u32 \<Rightarrow> 'k set"
    and content :: "'s \<Rightarrow> 'k \<Rightarrow> 'v"
    and put :: "'k \<Rightarrow> 'v \<Rightarrow> 's \<Rightarrow> 's"
  assumes alloc_got: "invar s \<Longrightarrow> valid r \<Longrightarrow> alloc r s = Inr (p, s') \<Longrightarrow> p \<noteq> 0 \<Longrightarrow>
      invar s' \<and> p \<notin> live s \<and> live s' = insert p (live s)"
    and alloc_refused: "invar s \<Longrightarrow> valid r \<Longrightarrow> alloc r s = Inr (0, s') \<Longrightarrow> s' = s"
    and alloc_frame: "invar s \<Longrightarrow> valid r \<Longrightarrow> alloc r s = Inr (p, s') \<Longrightarrow> q \<in> live s \<Longrightarrow>
      span s' q = span s q \<and> (\<forall>k\<in>span s q. content s' k = content s k)"
    and release_ok: "invar s \<Longrightarrow> p \<in> live s \<Longrightarrow>
      \<exists>s'. release p s = Inr s' \<and> invar s' \<and> live s' = live s - {p}"
    and release_frame: "invar s \<Longrightarrow> p \<in> live s \<Longrightarrow> release p s = Inr s' \<Longrightarrow>
      q \<in> live s \<Longrightarrow> q \<noteq> p \<Longrightarrow>
      span s' q = span s q \<and> (\<forall>k\<in>span s q. content s' k = content s k)"
    and put_ok: "invar s \<Longrightarrow> p \<in> live s \<Longrightarrow> k \<in> span s p \<Longrightarrow>
      invar (put k v s) \<and> live (put k v s) = live s \<and> (\<forall>q. span (put k v s) q = span s q)"
    and put_content: "content (put k v s) j = (if j = k then v else content s j)"
    and spans_disjoint: "invar s \<Longrightarrow> p \<in> live s \<Longrightarrow> q \<in> live s \<Longrightarrow> p \<noteq> q \<Longrightarrow>
      span s p \<inter> span s q = {}"
    and null_not_live: "invar s \<Longrightarrow> 0 \<notin> live s"
begin

text \<open>Whatever the client did, the allocator is in order and accounts for exactly the
  pointers the client holds.\<close>

lemma run_invar:
  assumes "client_run alloc release valid span put s0 held s" and "invar s0" and "live s0 = {}"
  shows "invar s \<and> live s = held"
  using assms(1)
proof induction
  case (freed held s p s')
  then show ?case using release_ok [of s p] by auto
next
  case (got held s r p s')
  then show ?case using alloc_got [of s r p s'] by auto
next
  case (refused held s r s')
  then show ?case using alloc_refused [of s r s'] by auto
next
  case (wrote held s p k v)
  then show ?case using put_ok [of s p k v] by auto
qed (use assms in auto)

text \<open>So a held pointer can always be freed, and two held objects never overlap.\<close>

lemma run_can_free:
  assumes "client_run alloc release valid span put s0 held s" and "invar s0" and "live s0 = {}"
    and "p \<in> held"
  shows "\<exists>s'. release p s = Inr s' \<and> client_run alloc release valid span put s0 (held - {p}) s'"
proof -
  have "invar s" "p \<in> live s" using run_invar [OF assms(1-3)] assms(4) by auto
  then obtain s' where "release p s = Inr s'" using release_ok by blast
  then show ?thesis using client_run.freed [OF assms(1,4)] by auto
qed

lemma run_disjoint:
  assumes "client_run alloc release valid span put s0 held s" and "invar s0" and "live s0 = {}"
    and "p \<in> held" and "q \<in> held" and "p \<noteq> q"
  shows "span s p \<inter> span s q = {}"
  using run_invar [OF assms(1-3)] spans_disjoint [of s p q] assms(4-6) by simp

text \<open>A write through one held pointer is invisible through every other one.\<close>

lemma run_write_private:
  assumes "client_run alloc release valid span put s0 held s" and "invar s0" and "live s0 = {}"
    and "p \<in> held" and "q \<in> held" and "p \<noteq> q" and "k \<in> span s p" and "j \<in> span s q"
  shows "content (put k v s) j = content s j"
  using run_disjoint [OF assms(1-6)] assms(7,8) put_content by auto

end

end
