(* ===== verification/KHeap.thy ===== *)
theory KHeap
  imports Heap_Blocks Heap_Spec
begin

text \<open>
  The kernel heap, \<^verbatim>\<open>kernel/heap.cc\<close>: one array of ints from address \<open>hbase\<close>, of
  \<open>hlen\<close> words, holding the blocks of \<^theory_text>\<open>Heap_Blocks\<close>; \<open>avail\<close> is the index of the
  first available block.  Every function of the file is a definition here.  The
  \<^verbatim>\<open>BlockingLock\<close> that serialises \<^verbatim>\<open>malloc\<close> and \<^verbatim>\<open>free\<close> is the subject of the theory on
  semaphores; here each call runs alone, which is what that lock gives.
\<close>

section \<open>State and helper functions\<close>

record heap =
  arr :: "int \<Rightarrow> int"
  hlen :: int
  avail :: int
  hbase :: u32

definition safe_k :: int where
  "safe_k = 0"

definition abs_k :: "int \<Rightarrow> int" where
  "abs_k x = (if x < 0 then - x else x)"

definition size_k :: "heap \<Rightarrow> int \<Rightarrow> int" where
  "size_k h i = abs_k (arr h i)"

definition headerFromFooter :: "heap \<Rightarrow> int \<Rightarrow> int" where
  "headerFromFooter h i = i - size_k h i + 1"

definition footerFromHeader :: "heap \<Rightarrow> int \<Rightarrow> int" where
  "footerFromHeader h i = i + size_k h i - 1"

definition sanity :: "heap \<Rightarrow> int \<Rightarrow> int res" where
  "sanity h i =
     (if safe_k \<noteq> 0 then
        (if i = 0 then Inr 0
         else if i < 0 \<or> hlen h \<le> i then Inl (Panic ''bad header index'')
         else
           (let footer = footerFromHeader h i
            in if footer < 0 \<or> hlen h \<le> footer then Inl (Panic ''bad footer index'')
               else
                 (let hv = arr h i; fv = arr h footer
                  in if hv \<noteq> fv then Inl (Panic ''bad block'') else Inr i)))
      else Inr i)"

definition left_k :: "heap \<Rightarrow> int \<Rightarrow> int res" where
  "left_k h i = sanity h (headerFromFooter h (i - 1))"

definition right_k :: "heap \<Rightarrow> int \<Rightarrow> int res" where
  "right_k h i = sanity h (i + size_k h i)"

definition next_k :: "heap \<Rightarrow> int \<Rightarrow> int res" where
  "next_k h i = sanity h (arr h (i + 1))"

definition prev_k :: "heap \<Rightarrow> int \<Rightarrow> int res" where
  "prev_k h i = sanity h (arr h (i + 2))"

definition setNext :: "int \<Rightarrow> int \<Rightarrow> heap \<Rightarrow> heap" where
  "setNext i x h = h\<lparr>arr := (arr h)(i + 1 := x)\<rparr>"

definition setPrev :: "int \<Rightarrow> int \<Rightarrow> heap \<Rightarrow> heap" where
  "setPrev i x h = h\<lparr>arr := (arr h)(i + 2 := x)\<rparr>"

definition remove_k :: "int \<Rightarrow> heap \<Rightarrow> heap res" where
  "remove_k i h =
     rbind (prev_k h i) (\<lambda>prevIndex.
     rbind (next_k h i) (\<lambda>nextIndex.
       let h1 = (if prevIndex = 0 then h\<lparr>avail := nextIndex\<rparr>
                 else setNext prevIndex nextIndex h)
       in Inr (if nextIndex \<noteq> 0 then setPrev nextIndex prevIndex h1 else h1)))"

definition makeAvail :: "int \<Rightarrow> int \<Rightarrow> heap \<Rightarrow> heap" where
  "makeAvail i ints h =
     (let h1 = h\<lparr>arr := (arr h)(i := ints)\<rparr>;
          h2 = h1\<lparr>arr := (arr h1)(footerFromHeader h1 i := ints)\<rparr>;
          h3 = setNext i (avail h2) h2;
          h4 = setPrev i 0 h3;
          h5 = (if avail h4 \<noteq> 0 then setPrev (avail h4) i h4 else h4)
      in h5\<lparr>avail := i\<rparr>)"

definition makeTaken :: "int \<Rightarrow> int \<Rightarrow> heap \<Rightarrow> heap" where
  "makeTaken i ints h =
     (let h1 = h\<lparr>arr := (arr h)(i := - ints)\<rparr>
      in h1\<lparr>arr := (arr h1)(footerFromHeader h1 i := - ints)\<rparr>)"

definition isAvail :: "heap \<Rightarrow> int \<Rightarrow> bool" where
  "isAvail h i \<longleftrightarrow> 0 < arr h i"

definition isTaken :: "heap \<Rightarrow> int \<Rightarrow> bool" where
  "isTaken h i \<longleftrightarrow> arr h i < 0"

section \<open>malloc and free\<close>

text \<open>The address of \<^verbatim>\<open>array[i]\<close>, and the index \<^verbatim>\<open>free\<close> computes from a pointer.\<close>

definition addr_of :: "heap \<Rightarrow> int \<Rightarrow> u32" where
  "addr_of h i = hbase h + 4 * word_of_int i"

definition index_of :: "heap \<Rightarrow> u32 \<Rightarrow> int" where
  "index_of h p = sint ((p - hbase h) div 4 - 1)"

text \<open>The words a request needs: computed in \<^verbatim>\<open>size_t\<close>, so the addition wraps.\<close>

definition ints_for :: "u32 \<Rightarrow> int" where
  "ints_for bytes = (let ints = sint ((bytes + 3) div 4 + 2) in if ints < 4 then 4 else ints)"

text \<open>The search: the smallest of the first twenty blocks that fit.\<close>

partial_function (option) malloc_search ::
  "heap \<Rightarrow> int \<Rightarrow> int \<Rightarrow> int \<Rightarrow> int \<Rightarrow> int \<Rightarrow> (int \<times> int) res option" where
  "malloc_search h ints countDown p mx it =
     (if p = 0 then Some (Inr (mx, it))
      else if \<not> isAvail h p then Some (Inl (Panic ''block is not available in malloc''))
      else
        (let sz = size_k h p
         in if ints \<le> sz then
              (let mx' = (if sz < mx then sz else mx);
                   it' = (if sz < mx then p else it)
               in if countDown - 1 = 0 then Some (Inr (mx', it'))
                  else (case next_k h p of
                          Inl e \<Rightarrow> Some (Inl e)
                        | Inr q \<Rightarrow> malloc_search h ints (countDown - 1) q mx' it'))
            else (case next_k h p of
                    Inl e \<Rightarrow> Some (Inl e)
                  | Inr q \<Rightarrow> malloc_search h ints countDown q mx it)))"

definition malloc_k :: "u32 \<Rightarrow> heap \<Rightarrow> (u32 \<times> heap) res" where
  "malloc_k bytes h =
     (if bytes = 0 then Inr (hbase h, h)
      else
        (let ints = ints_for bytes
         in rbind (returned (malloc_search h ints 20 (avail h) 0x7FFFFFFF 0)) (\<lambda>(mx, it).
              if it \<noteq> 0 then
                rbind (remove_k it h) (\<lambda>h1.
                  let extra = mx - ints;
                      h2 = (if 4 \<le> extra then makeAvail (it + ints) extra (makeTaken it ints h1)
                            else makeTaken it mx h1)
                  in Inr (addr_of h2 (it + 1), h2))
              else Inr (0, h))))"

definition free_k :: "u32 \<Rightarrow> heap \<Rightarrow> heap res" where
  "free_k p h =
     (if p = 0 then Inr h
      else if p = hbase h then Inr h
      else
        (let idx = index_of h p
         in rbind (sanity h idx) (\<lambda>_.
            if \<not> isTaken h idx then Inl (Panic ''freeing free block'')
            else
              (let sz = size_k h idx
               in rbind (left_k h idx) (\<lambda>leftIndex.
                  rbind (right_k h idx) (\<lambda>rightIndex.
                  rbind (if isAvail h leftIndex then
                           rbind (remove_k leftIndex h)
                             (\<lambda>h1. Inr (leftIndex, sz + size_k h1 leftIndex, h1))
                         else Inr (idx, sz, h)) (\<lambda>(idx1, sz1, h1).
                  rbind (if isAvail h1 rightIndex then
                           rbind (remove_k rightIndex h1)
                             (\<lambda>h2. Inr (sz1 + size_k h2 rightIndex, h2))
                         else Inr (sz1, h1)) (\<lambda>(sz2, h2).
                  Inr (makeAvail idx1 sz2 h2)))))))))"

text \<open>
  \<^verbatim>\<open>heapInit\<close> lays out the two sentinels and one available block, then allocates the lock;
  \<open>lockBytes\<close> is \<^verbatim>\<open>sizeof(BlockingLock)\<close>, and \<^verbatim>\<open>operator new\<close> panics when there is no room.
\<close>

definition operator_new :: "u32 \<Rightarrow> heap \<Rightarrow> (u32 \<times> heap) res" where
  "operator_new sz h =
     rbind (malloc_k sz h) (\<lambda>(p, h'). if p = 0 then Inl (Panic ''out of memory'') else Inr (p, h'))"

definition operator_delete :: "u32 \<Rightarrow> heap \<Rightarrow> heap res" where
  "operator_delete p h = free_k p h"

definition heap_layout :: "u32 \<Rightarrow> u32 \<Rightarrow> heap \<Rightarrow> heap" where
  "heap_layout base bytes h =
     (let n = sint (bytes div 4);
          h0 = h\<lparr>hbase := base, hlen := n\<rparr>;
          h1 = makeTaken 0 2 h0;
          h2 = makeAvail 2 (n - 4) h1
      in makeTaken (n - 2) 2 h2)"

definition heapInit :: "u32 \<Rightarrow> u32 \<Rightarrow> u32 \<Rightarrow> heap \<Rightarrow> (u32 \<times> heap) res" where
  "heapInit lockBytes base bytes h = operator_new lockBytes (heap_layout base bytes h)"


section \<open>What the helpers do\<close>

lemma sanity_off [simp]: "sanity h i = Inr i"
  by (simp add: sanity_def safe_k_def)

lemma abs_k_eq [simp]: "abs_k x = \<bar>x\<bar>"
  by (simp add: abs_k_def)

lemma remove_k_eq:
  "remove_k i h = Inr (h\<lparr>arr := unlink_arr (arr h) i, avail := unlink_head (arr h) (avail h) i\<rparr>)"
  by (simp add: remove_k_def prev_k_def next_k_def setNext_def setPrev_def
      unlink_arr_def unlink_head_def Let_def)

lemma makeTaken_eq:
  "0 < s \<Longrightarrow> makeTaken i s h = h\<lparr>arr := (arr h)(i := - s, i + s - 1 := - s)\<rparr>"
  by (simp add: makeTaken_def footerFromHeader_def size_k_def Let_def)

lemma makeAvail_eq:
  "0 < s \<Longrightarrow> makeAvail i s h =
     h\<lparr>arr := push_arr ((arr h)(i := s, i + s - 1 := s)) (avail h) i, avail := i\<rparr>"
  by (simp add: makeAvail_def footerFromHeader_def size_k_def setNext_def setPrev_def
      push_arr_def Let_def)

lemma ints_for_ge: "4 \<le> ints_for bytes"
  by (simp add: ints_for_def Let_def)

section \<open>The invariant\<close>

text \<open>
  The array is a taken sentinel of two words, a row \<open>ms\<close> of blocks of at least four words
  with no two neighbours available, and a second sentinel; the list from \<open>avail\<close> holds
  exactly the available blocks; and the array lies inside the address space, not at 0.
\<close>

definition hrel :: "heap \<Rightarrow> int list \<Rightarrow> int list \<Rightarrow> bool" where
  "hrel h ms ps \<longleftrightarrow>
     grel (arr h) (avail h) (hlen h) (-2 # ms @ [-2]) ps \<and> (\<forall>m\<in>set ms. 4 \<le> \<bar>m\<bar>) \<and>
     no_adj ms \<and> set (frees 2 ms) \<subseteq> set ps \<and>
     0 < uint (hbase h) \<and> uint (hbase h) + 4 * hlen h \<le> 2 ^ 32"

definition heap_inv :: "heap \<Rightarrow> bool" where
  "heap_inv h \<longleftrightarrow> (\<exists>ms ps. hrel h ms ps)"

text \<open>The blocks can be computed from the array: all of them, and the taken ones between
  the sentinels, each as its index and its size in words.\<close>

definition heap_row :: "heap \<Rightarrow> int list" where
  "heap_row h = walk (arr h) 0 (hlen h)"

definition live_blocks :: "heap \<Rightarrow> (int \<times> int) list" where
  "live_blocks h = takens 2 (butlast (tl (heap_row h)))"

definition free_blocks :: "heap \<Rightarrow> int list" where
  "free_blocks h = frees 2 (butlast (tl (heap_row h)))"

lemma hrel_facts:
  assumes "hrel h ms ps"
  shows "grel (arr h) (avail h) (hlen h) (-2 # ms @ [-2]) ps"
    "\<forall>m\<in>set ms. 4 \<le> \<bar>m\<bar>" "\<forall>m\<in>set ms. 2 \<le> \<bar>m\<bar>" "no_adj ms" "set ps = set (frees 2 ms)"
    "0 < uint (hbase h)" "uint (hbase h) + 4 * hlen h \<le> 2 ^ 32" "hlen h = 4 + extent ms"
    "hlen h < 2 ^ 30"
proof -
  note h = assms [unfolded hrel_def]
  show g: "grel (arr h) (avail h) (hlen h) (-2 # ms @ [-2]) ps"
    and 4: "\<forall>m\<in>set ms. 4 \<le> \<bar>m\<bar>" and "no_adj ms" and "0 < uint (hbase h)"
    and top: "uint (hbase h) + 4 * hlen h \<le> 2 ^ 32" using h by auto
  show "\<forall>m\<in>set ms. 2 \<le> \<bar>m\<bar>" using 4 by force
  show "set ps = set (frees 2 ms)" using h grel_facts(6) [OF g] by auto
  show "hlen h = 4 + extent ms" using grel_facts(8) [OF g] by simp
  show "hlen h < 2 ^ 30" using top \<open>0 < uint (hbase h)\<close> by simp
qed

lemma hrel_row: "hrel h ms ps \<Longrightarrow> heap_row h = -2 # ms @ [-2]"
  unfolding heap_row_def by (rule tiled_walk) (blast dest: hrel_facts(1) grel_facts(1))

lemma hrel_live: "hrel h ms ps \<Longrightarrow> live_blocks h = takens 2 ms"
  by (simp add: live_blocks_def hrel_row)

lemma hrel_free: "hrel h ms ps \<Longrightarrow> free_blocks h = frees 2 ms"
  by (simp add: free_blocks_def hrel_row)

lemma hrel_inv: "hrel h ms ps \<Longrightarrow> heap_inv h"
  by (auto simp: heap_inv_def)

text \<open>The value at the head of a block is its signed size.\<close>

lemma hrel_at:
  assumes "hrel h (us @ v # ws) ps"
  shows "arr h (2 + extent us) = v" and "arr h (2 + extent us + \<bar>v\<bar> - 1) = v"
  using grel_facts(1) [OF hrel_facts(1) [OF assms]] by auto

text \<open>What a call leaves alone: every word of the taken blocks of a row.\<close>

definition same_taken :: "int list \<Rightarrow> (int \<Rightarrow> int) \<Rightarrow> (int \<Rightarrow> int) \<Rightarrow> bool" where
  "same_taken vs a b \<longleftrightarrow>
     (\<forall>p s k. (p, s) \<in> set (takens 0 vs) \<longrightarrow> p \<le> k \<longrightarrow> k < p + s \<longrightarrow> b k = a k)"

lemma same_takenI:
  "(\<And>p s k. (p, s) \<in> set (takens 0 vs) \<Longrightarrow> p \<le> k \<Longrightarrow> k < p + s \<Longrightarrow> b k = a k) \<Longrightarrow>
     same_taken vs a b"
  by (auto simp: same_taken_def)

lemma same_taken_trans:
  "same_taken vs a b \<Longrightarrow> same_taken vs b c \<Longrightarrow> same_taken vs a c"
  by (simp add: same_taken_def)

lemma same_taken_mono:
  "same_taken vs a b \<Longrightarrow> set (takens 0 ws) \<subseteq> set (takens 0 vs) \<Longrightarrow> same_taken ws a b"
  unfolding same_taken_def by blast

lemma unlink_same_taken:
  "grel a av n vs (xs @ x # ys) \<Longrightarrow> same_taken vs a (unlink_arr a x)"
  by (rule same_takenI, rule grel_unlink(2)) (auto dest: grel_taken_not_link)

text \<open>Words outside a range of neighbouring blocks that are all available.\<close>

lemma outside_same_taken:
  assumes "\<forall>v\<in>set (us @ xs @ ws). 2 \<le> \<bar>v\<bar>" and "takens (extent us) xs = []"
    and "\<And>k. k < extent us \<or> extent us + extent xs \<le> k \<Longrightarrow> b k = a k"
  shows "same_taken (us @ xs @ ws) a b"
proof (rule same_takenI)
  fix p s k
  assume t: "(p, s) \<in> set (takens 0 (us @ xs @ ws))" "p \<le> k" "k < p + s"
  then have "(p, s) \<in> set (takens 0 us) \<or> (p, s) \<in> set (takens (extent us + extent xs) ws)"
    using assms(2) by auto
  then show "b k = a k"
    using takens_range [of us p s 0] takens_range [of ws p s "extent us + extent xs"]
      assms(1,3) t(2,3) by auto
qed

lemma push_same_taken:
  assumes "grel a av n vs ps" and "i \<in> set (frees 0 vs)" and "i \<notin> set ps" and "i \<noteq> 0"
  shows "same_taken vs a (push_arr a av i)"
proof (rule same_takenI)
  fix p s k assume t: "(p, s) \<in> set (takens 0 vs)" "p \<le> k" "k < p + s"
  show "push_arr a av i k = a k"
  proof (rule grel_push(2) [OF assms])
    fix q assume "q \<in> set (i # ps)"
    then have "q \<in> set (frees 0 vs)" using assms(2) grel_facts(6) [OF assms(1)] by auto
    then show "k \<noteq> q + 1 \<and> k \<noteq> q + 2"
      using free_taken_apart [OF grel_facts(2,3) [OF assms(1)] _ t(1), of q] t(2,3) by fastforce
  qed
qed

section \<open>malloc\<close>

text \<open>The search returns, never meets a taken block, and finds a block that fits if there
  is one; with fewer than twenty blocks in the list, it is the smallest that fits.\<close>

lemma malloc_search_ok:
  assumes "dll (arr h) pr p ps" and "\<forall>x\<in>set ps. 0 < arr h x \<and> arr h x < 0x7FFFFFFF"
    and "0 < cd" and "it = 0 \<longrightarrow> mx = 0x7FFFFFFF" and "it \<noteq> 0 \<longrightarrow> ints \<le> mx"
  shows "\<exists>mx' it'. malloc_search h ints cd p mx it = Some (Inr (mx', it')) \<and>
     (it' = it \<and> mx' = mx \<and> (it = 0 \<longrightarrow> (\<forall>x\<in>set ps. arr h x < ints)) \<or>
      it' \<in> set ps \<and> arr h it' = mx' \<and> ints \<le> mx') \<and>
     (int (length ps) < cd \<longrightarrow> mx' \<le> mx \<and> (\<forall>x\<in>set ps. ints \<le> arr h x \<longrightarrow> mx' \<le> arr h x))"
  using assms
proof (induction ps arbitrary: pr p cd mx it)
  case Nil
  then show ?case by (simp add: malloc_search.simps)
next
  case (Cons x xs)
  let ?q = "arr h (x + 1)"
  have px: "p = x" "x \<noteq> 0" "dll (arr h) x ?q xs" and pos: "0 < arr h x" "arr h x < 0x7FFFFFFF"
    and rest: "\<forall>y\<in>set xs. 0 < arr h y \<and> arr h y < 0x7FFFFFFF"
    using Cons.prems by auto
  note step = malloc_search.simps [of h ints cd x mx it]
  show ?case
  proof (cases "ints \<le> arr h x")
    case False
    have "malloc_search h ints cd p mx it = malloc_search h ints cd ?q mx it"
      using False px pos by (simp add: step isAvail_def size_k_def next_k_def)
    with Cons.IH [OF px(3) rest Cons.prems(3-5)] False show ?thesis by auto
  next
    case True
    let ?mx = "if arr h x < mx then arr h x else mx"
    let ?it = "if arr h x < mx then x else it"
    have new: "?it = 0 \<longrightarrow> ?mx = 0x7FFFFFFF" "?it \<noteq> 0 \<longrightarrow> ints \<le> ?mx"
      using Cons.prems(4,5) True pos px by auto
    have it0: "?it \<noteq> 0" using Cons.prems(4) pos px by auto
    show ?thesis
    proof (cases "cd = 1")
      case True1: True
      have "malloc_search h ints cd p mx it = Some (Inr (?mx, ?it))"
        using True True1 px pos
        by (simp add: malloc_search.simps [of h ints 1 x mx it] isAvail_def size_k_def Let_def)
      then show ?thesis using True True1 new it0 by auto
    next
      case False
      have eq: "malloc_search h ints cd p mx it = malloc_search h ints (cd - 1) ?q ?mx ?it"
        using True False px pos by (simp add: step isAvail_def size_k_def next_k_def Let_def)
      have "0 < cd - 1" using False Cons.prems(3) by simp
      from Cons.IH [OF px(3) rest this new] it0 True show ?thesis
        unfolding eq by (elim exE) (auto split: if_splits)
    qed
  qed
qed

text \<open>What becomes of an available block of \<open>v\<close> words when \<open>ints\<close> words are taken from it.\<close>

definition carve :: "int \<Rightarrow> int \<Rightarrow> int list" where
  "carve ints v = (if 4 \<le> v - ints then [- ints, v - ints] else [- v])"


lemma carve_facts:
  assumes "4 \<le> ints" and "ints \<le> v"
  shows "extent (carve ints v) = v" "\<forall>m\<in>set (carve ints v). 4 \<le> \<bar>m\<bar>"
    "no_adj (carve ints v)" "\<not> headfree (carve ints v)"
    "carve ints v \<noteq> []" "lastfree (carve ints v) \<longrightarrow> 0 < v"
    "takens i (carve ints v) = [(i, if 4 \<le> v - ints then ints else v)]"
  using assms by (auto simp: carve_def)

text \<open>The heap after \<open>ints\<close> words were taken from the available block at \<open>i\<close>.\<close>

definition take_at :: "int \<Rightarrow> int \<Rightarrow> heap \<Rightarrow> heap" where
  "take_at i ints h =
     (let v = arr h i;
          h1 = h\<lparr>arr := unlink_arr (arr h) i, avail := unlink_head (arr h) (avail h) i\<rparr>
      in if 4 \<le> v - ints then makeAvail (i + ints) (v - ints) (makeTaken i ints h1)
         else makeTaken i v h1)"

lemma carve_shape:
  assumes "no_adj (us @ v # ws)" and "\<forall>m\<in>set (us @ v # ws). 4 \<le> \<bar>m\<bar>" and "0 < v"
    and "4 \<le> ints" and "ints \<le> v"
  shows "no_adj (us @ carve ints v @ ws)" and "\<forall>m\<in>set (us @ carve ints v @ ws). 4 \<le> \<bar>m\<bar>"
  using assms carve_facts(1-6) [OF assms(4,5)] by (auto simp: headfree_append lastfree_def)

text \<open>Unlinking the available block at the end of \<open>us\<close>: the row stays, the list loses it.\<close>

lemma detach_block:
  assumes h: "hrel h (us @ v # ws) ps" and v: "0 < v"
  defines "i \<equiv> 2 + extent us"
  obtains qs where
    "grel (unlink_arr (arr h) i) (unlink_head (arr h) (avail h) i) (hlen h)
       ((-2 # us) @ [v] @ (ws @ [-2])) qs"
    "same_taken ((-2 # us) @ [v] @ (ws @ [-2])) (arr h) (unlink_arr (arr h) i)"
    "set qs = set (frees 2 us) \<union> set (frees (2 + extent us + v) ws)" "i \<notin> set qs"
proof -
  note hf = hrel_facts [OF h]
  have "i \<in> set ps" using hf(5) v by (simp add: i_def)
  then obtain xs ys where ps: "ps = xs @ i # ys" by (meson split_list)
  have g0: "grel (arr h) (avail h) (hlen h) ((-2 # us) @ [v] @ (ws @ [-2])) (xs @ i # ys)"
    using hf(1) ps by simp
  have "i \<notin> set (xs @ ys)" using grel_facts(5) [OF g0] by auto
  moreover have "i \<notin> set (frees 2 us) \<union> set (frees (2 + extent us + v) ws)"
    using distinct_frees [OF hf(3), of 2] v by (simp add: i_def)
  moreover have "insert i (set (xs @ ys)) =
      insert i (set (frees 2 us) \<union> set (frees (2 + extent us + v) ws))"
    using hf(5) ps v by (auto simp: i_def)
  ultimately have "set (xs @ ys) = set (frees 2 us) \<union> set (frees (2 + extent us + v) ws)"
    by (metis insert_ident)
  then show thesis
    using that [OF grel_unlink(1) [OF g0] unlink_same_taken [OF g0]] \<open>i \<notin> set (xs @ ys)\<close> by simp
qed

lemma take_split_ok:
  assumes h: "hrel h (us @ v # ws) ps" and v: "0 < v" and ints: "4 \<le> ints" "4 \<le> v - ints"
  defines "i \<equiv> 2 + extent us"
  shows "\<exists>ps'. hrel (take_at i ints h) (us @ [- ints, v - ints] @ ws) ps'"
    and "same_taken (-2 # (us @ v # ws) @ [-2]) (arr h) (arr (take_at i ints h))"
    and "hbase (take_at i ints h) = hbase h \<and> hlen (take_at i ints h) = hlen h"
proof -
  let ?U = "-2 # us" and ?W = "ws @ [-2]" and ?a1 = "unlink_arr (arr h) i"
    and ?av1 = "unlink_head (arr h) (avail h) i" and ?j = "i + ints" and ?e = "v - ints"
  let ?b = "?a1(i := - ints, i + ints - 1 := - ints, ?j := ?e, ?j + ?e - 1 := ?e)"
  note hf = hrel_facts [OF h]
  obtain qs where g1: "grel ?a1 ?av1 (hlen h) (?U @ [v] @ ?W) qs"
    and st1: "same_taken (?U @ [v] @ ?W) (arr h) ?a1"
    and qs: "set qs = set (frees 2 us) \<union> set (frees (2 + extent us + v) ws)"
    using detach_block [OF h v] unfolding i_def by blast
  have eq: "take_at i ints h = h\<lparr>arr := push_arr ?b ?av1 ?j, avail := ?j\<rparr>"
    using hrel_at(1) [OF h] ints by (simp add: take_at_def i_def makeTaken_eq makeAvail_eq)
  have out: "?b k = ?a1 k" if "k < extent ?U \<or> extent ?U + extent [v] \<le> k" for k
    using that ints v by (auto simp: i_def)
  have sub: "set qs \<subseteq> set (frees 0 ?U) \<union> set (frees (extent ?U + extent [v]) ?W)"
    using qs v by auto
  have g2: "grel ?b ?av1 (hlen h) (?U @ [- ints, ?e] @ ?W) qs"
    by (rule grel_retile [OF g1 sub _ _ out]) (use ints v in \<open>auto simp: i_def\<close>)
  have st2: "same_taken (?U @ [v] @ ?W) ?a1 ?b"
    by (rule outside_same_taken [OF grel_facts(2) [OF g1] _ out]) (use v in auto)
  have jf: "?j \<in> set (frees 0 (?U @ [- ints, ?e] @ ?W))" using ints by (auto simp: i_def)
  have jn: "?j \<notin> set qs"
    using sub frees_room [of ?U ?j 0] frees_room [of ?W ?j "extent ?U + extent [v]"]
      grel_facts(2,3) [OF g1] ints by (auto simp: i_def)
  have j0: "?j \<noteq> 0" using ints extent_nonneg [of us] by (simp add: i_def)
  have st3: "same_taken (?U @ [v] @ ?W) ?b (push_arr ?b ?av1 ?j)"
    by (rule same_taken_mono [OF push_same_taken [OF g2 jf jn j0]]) (use v ints in \<open>auto simp: add.assoc\<close>)
  have c: "carve ints v = [- ints, ?e]" using ints by (simp add: carve_def)
  have fr: "set (frees 2 (us @ [- ints, ?e] @ ws)) \<subseteq> set (?j # qs)"
    using qs ints by (auto simp: i_def add.assoc)
  have sh: "no_adj (us @ [- ints, ?e] @ ws)" "\<forall>m\<in>set (us @ [- ints, ?e] @ ws). 4 \<le> \<bar>m\<bar>"
    using carve_shape [OF hf(4,2) v ints(1)] ints by (simp_all only: c) auto
  have "hrel (take_at i ints h) (us @ [- ints, ?e] @ ws) (?j # qs)"
    unfolding hrel_def eq using grel_push(1) [OF g2 jf jn j0] hf(6,7) fr sh by simp
  then show "\<exists>ps'. hrel (take_at i ints h) (us @ [- ints, v - ints] @ ws) ps'" by blast
  show "same_taken (-2 # (us @ v # ws) @ [-2]) (arr h) (arr (take_at i ints h))"
    using same_taken_trans [OF st1 same_taken_trans [OF st2 st3]] by (simp add: eq)
  show "hbase (take_at i ints h) = hbase h \<and> hlen (take_at i ints h) = hlen h" by (simp add: eq)
qed

lemma take_whole_ok:
  assumes h: "hrel h (us @ v # ws) ps" and v: "0 < v" and ints: "4 \<le> ints" "ints \<le> v" "v - ints < 4"
  defines "i \<equiv> 2 + extent us"
  shows "\<exists>ps'. hrel (take_at i ints h) (us @ [- v] @ ws) ps'"
    and "same_taken (-2 # (us @ v # ws) @ [-2]) (arr h) (arr (take_at i ints h))"
    and "hbase (take_at i ints h) = hbase h \<and> hlen (take_at i ints h) = hlen h"
proof -
  let ?U = "-2 # us" and ?W = "ws @ [-2]" and ?a1 = "unlink_arr (arr h) i"
    and ?av1 = "unlink_head (arr h) (avail h) i"
  let ?b = "?a1(i := - v, i + v - 1 := - v)"
  note hf = hrel_facts [OF h]
  obtain qs where g1: "grel ?a1 ?av1 (hlen h) (?U @ [v] @ ?W) qs"
    and st1: "same_taken (?U @ [v] @ ?W) (arr h) ?a1"
    and qs: "set qs = set (frees 2 us) \<union> set (frees (2 + extent us + v) ws)"
    using detach_block [OF h v] unfolding i_def by blast
  have eq: "take_at i ints h = h\<lparr>arr := ?b, avail := ?av1\<rparr>"
    using hrel_at(1) [OF h] ints v by (simp add: take_at_def i_def makeTaken_eq)
  have out: "?b k = ?a1 k" if "k < extent ?U \<or> extent ?U + extent [v] \<le> k" for k
    using that ints v by (auto simp: i_def)
  have sub: "set qs \<subseteq> set (frees 0 ?U) \<union> set (frees (extent ?U + extent [v]) ?W)"
    using qs v by auto
  have g2: "grel ?b ?av1 (hlen h) (?U @ [- v] @ ?W) qs"
    by (rule grel_retile [OF g1 sub _ _ out]) (use ints v in \<open>auto simp: i_def\<close>)
  have st2: "same_taken (?U @ [v] @ ?W) ?a1 ?b"
    by (rule outside_same_taken [OF grel_facts(2) [OF g1] _ out]) (use v in auto)
  have c: "carve ints v = [- v]" using ints by (simp add: carve_def)
  have fr: "set (frees 2 (us @ [- v] @ ws)) \<subseteq> set qs" using qs v by (auto simp: add.assoc)
  have "hrel (take_at i ints h) (us @ [- v] @ ws) qs"
    unfolding hrel_def eq using g2 hf(6,7) fr carve_shape [OF hf(4,2) v ints(1,2)] c by simp
  then show "\<exists>ps'. hrel (take_at i ints h) (us @ [- v] @ ws) ps'" by blast
  show "same_taken (-2 # (us @ v # ws) @ [-2]) (arr h) (arr (take_at i ints h))"
    using same_taken_trans [OF st1 st2] by (simp add: eq)
  show "hbase (take_at i ints h) = hbase h \<and> hlen (take_at i ints h) = hlen h" by (simp add: eq)
qed

lemma take_at_ok:
  assumes "hrel h (us @ v # ws) ps" and "0 < v" and "4 \<le> ints" and "ints \<le> v"
  shows "\<exists>ps'. hrel (take_at (2 + extent us) ints h) (us @ carve ints v @ ws) ps'"
    and "same_taken (-2 # (us @ v # ws) @ [-2]) (arr h) (arr (take_at (2 + extent us) ints h))"
    and "hbase (take_at (2 + extent us) ints h) = hbase h \<and>
      hlen (take_at (2 + extent us) ints h) = hlen h"
  using take_split_ok [OF assms(1-3)] take_whole_ok [OF assms] assms(4)
  by (cases "4 \<le> v - ints"; simp add: carve_def)+

text \<open>
  \<^verbatim>\<open>malloc\<close> either refuses, and then no available block is large enough and nothing
  changed, or it takes the words from one available block.
\<close>

lemma malloc_k_ok:
  assumes h: "hrel h ms ps" and "bytes \<noteq> 0"
  defines "ints \<equiv> ints_for bytes"
  obtains (refused) "malloc_k bytes h = Inr (0, h)" "\<forall>x\<in>set (frees 2 ms). arr h x < ints"
  | (taken) us v ws where "ms = us @ v # ws" "ints \<le> v" "4 \<le> ints"
      "malloc_k bytes h = Inr (addr_of h (3 + extent us), take_at (2 + extent us) ints h)"
      "length ps < 20 \<longrightarrow> (\<forall>x\<in>set (frees 2 ms). ints \<le> arr h x \<longrightarrow> v \<le> arr h x)"
proof -
  note hf = hrel_facts [OF h]
  have ints: "4 \<le> ints" by (simp add: ints_def ints_for_ge)
  have val: "\<exists>us v ws. ms = us @ v # ws \<and> 0 < v \<and> x = 2 + extent us \<and> arr h x = v \<and> v < 0x7FFFFFFF"
    if "x \<in> set (frees 2 ms)" for x
  proof -
    from frees_split [OF that] obtain us v ws
      where s: "ms = us @ v # ws" "0 < v" "x = 2 + extent us" by blast
    then have "arr h x = v" using hrel_at(1) h by blast
    moreover have "v < 0x7FFFFFFF"
      using s hf(8,9) extent_nonneg [of us] extent_nonneg [of ws] by simp
    ultimately show ?thesis using s by blast
  qed
  have pos: "\<forall>x\<in>set ps. 0 < arr h x \<and> arr h x < 0x7FFFFFFF" using val hf(5) by fastforce
  from malloc_search_ok [OF grel_facts(4) [OF hf(1)] pos, of 20 0 "0x7FFFFFFF" ints]
  obtain mx it where s: "malloc_search h ints 20 (avail h) 0x7FFFFFFF 0 = Some (Inr (mx, it))"
    and c: "it = 0 \<and> mx = 0x7FFFFFFF \<and> (\<forall>x\<in>set ps. arr h x < ints) \<or>
      it \<in> set ps \<and> arr h it = mx \<and> ints \<le> mx"
    and best: "int (length ps) < 20 \<longrightarrow> (\<forall>x\<in>set ps. ints \<le> arr h x \<longrightarrow> mx \<le> arr h x)"
    by auto
  from c consider (no) "it = 0" "\<forall>x\<in>set ps. arr h x < ints"
    | (yes) "it \<in> set ps" "arr h it = mx" "ints \<le> mx" by blast
  then show thesis
  proof cases
    case no
    then show thesis using refused s assms(2) hf(5) by (simp add: malloc_k_def ints_def)
  next
    case yes
    with val hf(5) obtain us v ws where m: "ms = us @ v # ws" "0 < v" "it = 2 + extent us" "mx = v"
      by blast
    have it0: "it \<noteq> 0" using m extent_nonneg [of us] by simp
    have eq: "malloc_k bytes h = Inr (addr_of (take_at it ints h) (it + 1), take_at it ints h)"
      using s it0 yes assms(2)
      by (simp add: malloc_k_def ints_def [symmetric] remove_k_eq take_at_def Let_def)
    have "hbase (take_at it ints h) = hbase h"
      using take_at_ok(3) [of h us v ws ps ints] h m yes ints by simp
    then have "addr_of (take_at it ints h) (it + 1) = addr_of h (3 + extent us)"
      using m by (simp add: addr_of_def)
    then show thesis using taken [OF m(1) _ ints] eq m yes best hf(5) by simp
  qed
qed


section \<open>free\<close>

text \<open>Unlinking one block of the list, seen as sets.\<close>

lemma grel_drop:
  assumes "grel a av n vs qs" and "x \<in> set qs"
  obtains qs' where "grel (unlink_arr a x) (unlink_head a av x) n vs qs'"
    "set qs' = set qs - {x}" "same_taken vs a (unlink_arr a x)"
    "\<forall>k\<in>tags 0 vs. unlink_arr a x k = a k"
proof -
  from assms(2) obtain xs ys where qs: "qs = xs @ x # ys" by (meson split_list)
  have g: "grel a av n vs (xs @ x # ys)" using assms(1) qs by simp
  have "set (xs @ ys) = set qs - {x}" using grel_facts(5) [OF g] qs by auto
  then show thesis
    using that [OF grel_unlink(1) [OF g] _ unlink_same_taken [OF g]] grel_unlink(3) [OF g] by blast
qed

text \<open>Making one available block of the neighbouring blocks \<open>xs\<close>.\<close>

lemma grel_merge:
  assumes g: "grel a av n (us @ xs @ ws) qs" and ne: "0 < extent us" and s: "4 \<le> extent xs"
    and qs: "set qs = set (frees 0 us) \<union> set (frees (extent us + extent xs) ws)"
  defines "i \<equiv> extent us" and "S \<equiv> extent xs"
  defines "b \<equiv> a(i := S, i + S - 1 := S)"
  shows "grel (push_arr b av i) i n (us @ [S] @ ws) (i # qs)"
    and "\<And>p t k. (p, t) \<in> set (takens 0 us) \<union> set (takens (i + S) ws) \<Longrightarrow> p \<le> k \<Longrightarrow>
      k < p + t \<Longrightarrow> push_arr b av i k = a k"
proof -
  have out: "b k = a k" if "k < extent us \<or> extent us + extent xs \<le> k" for k
    using that s by (auto simp: b_def i_def S_def)
  have g2: "grel b av n (us @ [S] @ ws) qs"
    by (rule grel_retile [OF g _ _ _ out]) (use qs s in \<open>auto simp: b_def i_def S_def\<close>)
  have iF: "i \<in> set (frees 0 (us @ [S] @ ws))" using s by (auto simp: i_def S_def)
  have "i \<notin> set qs"
    using qs frees_room [of us i 0] frees_room [of ws i "extent us + extent xs"]
      grel_facts(2,3) [OF g] s by (auto simp: i_def)
  note push = g2 iF this
  have i0: "i \<noteq> 0" using ne by (simp add: i_def)
  show "grel (push_arr b av i) i n (us @ [S] @ ws) (i # qs)" by (rule grel_push(1) [OF push i0])
  show "push_arr b av i k = a k"
    if t: "(p, t) \<in> set (takens 0 us) \<union> set (takens (i + S) ws)" "p \<le> k" "k < p + t" for p t k
  proof -
    have "(p, t) \<in> set (takens 0 (us @ [S] @ ws))" using t(1) s by (auto simp: i_def S_def)
    then have "push_arr b av i k = b k"
      using push_same_taken [OF push i0] t(2,3) unfolding same_taken_def by blast
    also have "b k = a k"
      using t takens_range [of us p t 0] takens_range [of ws p t "i + S"] grel_facts(2) [OF g]
      by (intro out) (auto simp: i_def S_def)
    finally show ?thesis .
  qed
qed

text \<open>The first step of \<^verbatim>\<open>free\<close>: the block to the left is unlinked if it is available.\<close>

lemma free_left:
  assumes h: "hrel h (us @ - s # ws) ps" and s: "0 < s"
  defines "i \<equiv> 2 + extent us" and "vs \<equiv> -2 # us @ - s # ws @ [-2]"
  obtains us' xl li h1 qs where
    "us = us' @ xl" "\<not> lastfree us'" "xl = [] \<or> (\<exists>l>0. xl = [l])" "left_k h i = Inr li"
    "(if isAvail h li then rbind (remove_k li h) (\<lambda>h1. Inr (li, s + size_k h1 li, h1))
      else Inr (i, s, h)) = Inr (2 + extent us', s + extent xl, h1)"
    "grel (arr h1) (avail h1) (hlen h) vs qs"
    "set qs = set (frees 2 us') \<union> set (frees (i + s) ws)"
    "same_taken vs (arr h) (arr h1)" "\<forall>k\<in>tags 0 vs. arr h1 k = arr h k"
    "hbase h1 = hbase h" "hlen h1 = hlen h"
proof -
  note hf = hrel_facts [OF h]
  have g: "grel (arr h) (avail h) (hlen h) vs ps" using hf(1) by (simp add: vs_def)
  have qs0: "set ps = set (frees 2 us) \<union> set (frees (i + s) ws)" using hf(5) s by (auto simp: i_def)
  show thesis
  proof (cases us rule: rev_cases)
    case Nil
    have "arr h 1 = -2" "arr h 0 = -2" using grel_facts(1) [OF g] Nil by (auto simp: vs_def)
    then show thesis
      using that [of "[]" "[]" 0 h ps] Nil g qs0
      by (simp add: left_k_def headerFromFooter_def size_k_def isAvail_def i_def same_taken_def)
  next
    case (snoc us' l)
    have l4: "4 \<le> \<bar>l\<bar>" using hf(2) snoc by simp
    have li: "left_k h i = Inr (2 + extent us')" and al: "arr h (2 + extent us') = l"
      using hrel_at [of h us' l "- s # ws" ps] h snoc
      by (simp_all add: left_k_def headerFromFooter_def size_k_def i_def algebra_simps)
    show thesis
    proof (cases "0 < l")
      case False
      then show thesis
        using that [of us "[]" _ h ps, OF _ _ _ li] snoc g qs0 al
        by (simp add: isAvail_def i_def same_taken_def)
    next
      case True
      let ?x = "2 + extent us'"
      have x: "?x \<in> set ps" using qs0 snoc True by auto
      from grel_drop [OF g x] obtain qs
        where q: "grel (unlink_arr (arr h) ?x) (unlink_head (arr h) (avail h) ?x) (hlen h) vs qs"
          "set qs = set ps - {?x}" "same_taken vs (arr h) (unlink_arr (arr h) ?x)"
          "\<forall>k\<in>tags 0 vs. unlink_arr (arr h) ?x k = arr h k" by blast
      have xt: "?x \<in> tags 0 vs" using snoc by (auto simp: vs_def)
      have "distinct (frees 2 (us @ - s # ws))" using distinct_frees [OF hf(3)] .
      then have "set qs = set (frees 2 us') \<union> set (frees (i + s) ws)"
        using q(2) qs0 snoc True s by (auto simp: i_def algebra_simps)
      moreover have "\<not> lastfree us'" using hf(4) snoc True by auto
      ultimately show thesis
        using that [of us' "[l]" ?x "h\<lparr>arr := unlink_arr (arr h) ?x,
          avail := unlink_head (arr h) (avail h) ?x\<rparr>" qs] snoc True q al xt li
        by (simp add: isAvail_def remove_k_eq size_k_def)
    qed
  qed
qed


text \<open>The second step: the block to the right.\<close>

lemma free_right:
  assumes g: "grel (arr h1) (avail h1) n (-2 # us @ - s # ws @ [-2]) qs" and s: "0 < s"
    and qs: "set qs = F \<union> set (frees (2 + extent us + s) ws)"
    and F: "\<And>x. x \<in> F \<Longrightarrow> x < 2 + extent us" and ws: "no_adj ws"
  defines "vs \<equiv> -2 # us @ - s # ws @ [-2]" and "j \<equiv> 2 + extent us + s"
  obtains xr ws' h2 qs2 where
    "ws = xr @ ws'" "\<not> headfree ws'" "xr = [] \<or> (\<exists>r>0. xr = [r])"
    "\<forall>z. (if isAvail h1 j then rbind (remove_k j h1) (\<lambda>h2. Inr (z + size_k h2 j, h2))
      else Inr (z, h1)) = Inr (z + extent xr, h2)"
    "grel (arr h2) (avail h2) n vs qs2"
    "set qs2 = F \<union> set (frees (j + extent xr) ws')"
    "same_taken vs (arr h1) (arr h2)" "hbase h2 = hbase h1" "hlen h2 = hlen h1"
proof (cases "headfree ws")
  case False
  have "arr h1 j = hd (ws @ [-2])"
    using grel_facts(1) [OF g] s by (cases ws) (auto simp: j_def algebra_simps)
  then have "\<not> isAvail h1 j" using False by (cases ws) (auto simp: isAvail_def)
  then show thesis
    using that [of "[]" ws h1 qs] False g qs by (simp add: j_def vs_def same_taken_def)
next
  case True
  then obtain r ws' where r: "ws = r # ws'" "0 < r" by (cases ws) auto
  have ar: "arr h1 j = r" using grel_facts(1) [OF g] s r by (auto simp: j_def algebra_simps)
  have j: "j \<in> set qs" using qs r by (auto simp: j_def)
  from grel_drop [OF g j] obtain qs2
    where q: "grel (unlink_arr (arr h1) j) (unlink_head (arr h1) (avail h1) j) n vs qs2"
      "set qs2 = set qs - {j}" "same_taken vs (arr h1) (unlink_arr (arr h1) j)"
      "\<forall>k\<in>tags 0 vs. unlink_arr (arr h1) j k = arr h1 k" unfolding vs_def by blast
  have jt: "j \<in> tags 0 vs" using r s by (auto simp: vs_def j_def algebra_simps)
  have "\<forall>v\<in>set ws. 2 \<le> \<bar>v\<bar>" using grel_facts(2) [OF g] by simp
  then have "distinct (frees j ws)" by (rule distinct_frees)
  moreover have "j \<notin> F" using F [of j] s by (auto simp: j_def)
  ultimately have "set qs2 = F \<union> set (frees (j + extent [r]) ws')"
    using q(2) qs r by (auto simp: j_def algebra_simps)
  moreover have "\<not> headfree ws'" using ws r by auto
  ultimately show thesis
    using that [of "[r]" ws' "h1\<lparr>arr := unlink_arr (arr h1) j,
      avail := unlink_head (arr h1) (avail h1) j\<rparr>" qs2] r q ar jt
    by (simp add: isAvail_def remove_k_eq size_k_def)
qed

text \<open>
  \<^verbatim>\<open>free\<close> on a taken block returns, and gives the row in which the block and its available
  neighbours, if any, became one available block; nothing else changed.
\<close>

lemma free_at_ok:
  assumes h: "hrel h (us @ - s # ws) ps" and s: "0 < s" and p: "p \<noteq> 0" "p \<noteq> hbase h"
    and idx: "index_of h p = 2 + extent us"
  obtains us' xl xr ws' h' ps' where
    "us = us' @ xl" "ws = xr @ ws'" "\<not> lastfree us'" "\<not> headfree ws'"
    "xl = [] \<or> (\<exists>l>0. xl = [l])" "xr = [] \<or> (\<exists>r>0. xr = [r])"
    "free_k p h = Inr h'" "hrel h' (us' @ (extent xl + s + extent xr) # ws') ps'"
    "hbase h' = hbase h" "hlen h' = hlen h"
    "\<And>q t k. (q, t) \<in> set (takens 0 (-2 # us')) \<union>
        set (takens (2 + extent us + s + extent xr) (ws' @ [-2])) \<Longrightarrow>
      q \<le> k \<Longrightarrow> k < q + t \<Longrightarrow> arr h' k = arr h k"
proof -
  let ?i = "2 + extent us" and ?vs = "-2 # us @ - s # ws @ [-2]"
  note hf = hrel_facts [OF h]
  obtain us' xl li h1 qs where L: "us = us' @ xl" "\<not> lastfree us'" "xl = [] \<or> (\<exists>l>0. xl = [l])"
    "left_k h ?i = Inr li"
    "(if isAvail h li then rbind (remove_k li h) (\<lambda>h1. Inr (li, s + size_k h1 li, h1))
      else Inr (?i, s, h)) = Inr (2 + extent us', s + extent xl, h1)"
    "grel (arr h1) (avail h1) (hlen h) ?vs qs"
    "set qs = set (frees 2 us') \<union> set (frees (?i + s) ws)"
    "same_taken ?vs (arr h) (arr h1)" "\<forall>k\<in>tags 0 ?vs. arr h1 k = arr h k"
    "hbase h1 = hbase h" "hlen h1 = hlen h"
    by (rule free_left [OF h s])
  have F: "x < ?i" if "x \<in> set (frees 2 us')" for x
    using frees_range [of us' x 2] hf(3) that L(1) extent_nonneg [of xl] by auto
  have "no_adj ws" using hf(4) by simp
  obtain xr ws' h2 qs2 where R: "ws = xr @ ws'" "\<not> headfree ws'" "xr = [] \<or> (\<exists>r>0. xr = [r])"
    "\<forall>z. (if isAvail h1 (?i + s) then rbind (remove_k (?i + s) h1) (\<lambda>h2. Inr (z + size_k h2 (?i + s), h2))
      else Inr (z, h1)) = Inr (z + extent xr, h2)"
    "grel (arr h2) (avail h2) (hlen h) ?vs qs2"
    "set qs2 = set (frees 2 us') \<union> set (frees (?i + s + extent xr) ws')"
    "same_taken ?vs (arr h1) (arr h2)" "hbase h2 = hbase h1" "hlen h2 = hlen h1"
    by (rule free_right [OF L(6) s L(7) F \<open>no_adj ws\<close>])
  have vi: "arr h ?i = - s" using hrel_at(1) [OF h] by simp
  have ri: "right_k h ?i = Inr (?i + s)" using vi s by (simp add: right_k_def size_k_def)
  let ?S = "extent xl + s + extent xr" and ?i' = "2 + extent us'"
  let ?h' = "makeAvail ?i' ?S h2"
  have eq: "free_k p h = Inr ?h'"
  proof -
    have sz: "size_k h ?i = s" using vi s by (simp add: size_k_def)
    have "isTaken h ?i" using vi s by (simp add: isTaken_def)
    with p idx sz L(4) ri show ?thesis
      by (simp add: free_k_def Let_def L(5) R(4) add.commute [of "extent xl" s]
          del: rbind_eq_Inr split del: if_split)
  qed
  have s4: "4 \<le> s" using hf(2) s by simp
  let ?xs = "xl @ [- s] @ xr" and ?W = "ws' @ [-2]"
  have g2: "grel (arr h2) (avail h2) (hlen h) ((-2 # us') @ ?xs @ ?W) qs2"
    using R(5) L(1) R(1) by simp
  have qs2: "set qs2 = set (frees 0 (-2 # us')) \<union> set (frees (extent (-2 # us') + extent ?xs) ?W)"
    using R(6) L(1) s by (simp add: algebra_simps)
  have "0 < extent (-2 # us')" using extent_nonneg [of us'] by simp
  moreover have "4 \<le> extent ?xs" using s4 s extent_nonneg [of xl] extent_nonneg [of xr] by simp
  ultimately have m: "grel (arr ?h') ?i' (hlen h) ((-2 # us') @ [?S] @ ?W) (?i' # qs2)"
    "\<And>q t k. (q, t) \<in> set (takens 0 (-2 # us')) \<union> set (takens (?i' + ?S) ?W) \<Longrightarrow> q \<le> k \<Longrightarrow>
      k < q + t \<Longrightarrow> arr ?h' k = arr h2 k"
    using grel_merge [OF g2 _ _ qs2] s by (simp_all add: makeAvail_eq add.assoc)
  have S4: "4 \<le> ?S" using s4 extent_nonneg [of xl] extent_nonneg [of xr] by simp
  have frees': "set (frees 2 (us' @ ?S # ws')) \<subseteq> set (?i' # qs2)"
    using R(6) L(1) S4 by (auto simp: algebra_simps)
  have nn: "no_adj (us' @ ?S # ws')" "\<forall>m\<in>set (us' @ ?S # ws'). 4 \<le> \<bar>m\<bar>"
    using hf(2,4) L(1,2) R(1,2) S4 by auto
  have hr: "hrel ?h' (us' @ ?S # ws') (?i' # qs2)"
    unfolding hrel_def using m(1) frees' nn hf(6,7) L(10,11) R(8,9) S4 by (simp add: makeAvail_eq)
  have frame: "arr ?h' k = arr h k"
    if t: "(q, t) \<in> set (takens 0 (-2 # us')) \<union> set (takens (?i + s + extent xr) ?W)"
      "q \<le> k" "k < q + t" for q t k
  proof -
    have e: "?i + s + extent xr = ?i' + ?S" using L(1) by simp
    have "arr ?h' k = arr h2 k" using m(2) [OF _ t(2,3)] t(1) unfolding e by blast
    moreover have "(q, t) \<in> set (takens 0 ?vs)" using t(1) L(1) R(1) s by (auto simp: algebra_simps)
    then have "arr h2 k = arr h k" using L(8) R(7) t(2,3) by (auto simp: same_taken_def)
    ultimately show ?thesis by simp
  qed
  show thesis
    by (rule that [OF L(1) R(1) L(2) R(2) L(3) R(3) eq hr _ _ frame])
      (use L(10,11) R(8,9) S4 in \<open>simp_all add: makeAvail_eq\<close>)
qed


section \<open>Pointers\<close>

lemma uint_addr_of:
  assumes "0 \<le> i" and "uint (hbase h) + 4 * i < 2 ^ 32"
  shows "uint (addr_of h i) = uint (hbase h) + 4 * i"
proof -
  have b: "0 \<le> uint (hbase h)" by simp
  have "4 * i \<le> uint (hbase h) + 4 * i" by simp
  then have "4 * i < 2 ^ 32" using assms(2) by (rule le_less_trans)
  then have "i < 2 ^ 32" using assms(1) by simp
  then have "i mod 2 ^ 32 = i" "4 * i mod 2 ^ 32 = 4 * i"
    using assms(1) \<open>4 * i < 2 ^ 32\<close> by simp_all
  then have "uint (4 * word_of_int i :: u32) = 4 * i"
    by (simp add: uint_word_ariths uint_word_of_int)
  then show ?thesis using assms b by (simp add: addr_of_def uint_word_ariths)
qed

lemma index_of_addr_of:
  assumes "0 \<le> i" and "0 < uint (hbase h)" and "uint (hbase h) + 4 * (i + 1) < 2 ^ 32"
  shows "index_of h (addr_of h (i + 1)) = i" and "addr_of h (i + 1) \<noteq> 0"
    and "addr_of h (i + 1) \<noteq> hbase h"
proof -
  have u: "uint (addr_of h (i + 1)) = uint (hbase h) + 4 * (i + 1)"
    using uint_addr_of [of "i + 1" h] assms by simp
  then show "addr_of h (i + 1) \<noteq> 0" and "addr_of h (i + 1) \<noteq> hbase h" using assms by auto
  have "uint (addr_of h (i + 1) - hbase h) = 4 * (i + 1)"
    using u assms by (simp add: uint_sub_if')
  then have "(addr_of h (i + 1) - hbase h) div 4 = word_of_int (4 * (i + 1) div 4)"
    by (simp only: word_div_def) simp
  then have "(addr_of h (i + 1) - hbase h) div 4 = word_of_int (i + 1)" by simp
  then have "(addr_of h (i + 1) - hbase h) div 4 - 1 = word_of_int i" by simp
  then show "index_of h (addr_of h (i + 1)) = i"
    using assms by (simp add: index_of_def sint_sbintrunc' signed_take_bit_int_eq_self)
qed

text \<open>The pointers the heap has handed out, and the words behind each.\<close>

definition live_ptrs :: "heap \<Rightarrow> u32 set" where
  "live_ptrs h = (\<lambda>(i, s). addr_of h (i + 1)) ` set (live_blocks h)"

definition payload :: "heap \<Rightarrow> u32 \<Rightarrow> int set" where
  "payload h p = \<Union> ((\<lambda>(i, s). if addr_of h (i + 1) = p then {i + 1..<i + s - 1} else {}) `
     set (live_blocks h))"

lemma live_bounds:
  assumes "hrel h ms ps" and "(i, s) \<in> set (live_blocks h)"
  shows "2 \<le> i" "4 \<le> s" "i + s + 2 \<le> hlen h" "uint (hbase h) + 4 * (i + 1) < 2 ^ 32"
    "0 < uint (hbase h)"
proof -
  note hf = hrel_facts [OF assms(1)]
  have t: "(i, s) \<in> set (takens 2 ms)" using assms hrel_live by simp
  from takens_split [OF t] show "4 \<le> s" using hf(2) by auto
  show "2 \<le> i" "i + s + 2 \<le> hlen h" using takens_range [OF hf(3) t] hf(8) by auto
  with \<open>4 \<le> s\<close> show "uint (hbase h) + 4 * (i + 1) < 2 ^ 32" using hf(7) by simp
  show "0 < uint (hbase h)" by (rule hf(6))
qed

lemma live_addr_inj:
  assumes "hrel h ms ps" and "(i, s) \<in> set (live_blocks h)" and "(j, t) \<in> set (live_blocks h)"
    and "addr_of h (i + 1) = addr_of h (j + 1)"
  shows "i = j \<and> s = t"
proof -
  have ix: "index_of h (addr_of h (x + 1)) = x" if "(x, y) \<in> set (live_blocks h)" for x y
    by (rule index_of_addr_of(1)) (use live_bounds(1,4,5) [OF assms(1) that] in auto)
  have ij: "i = j" using ix [OF assms(2)] ix [OF assms(3)] unfolding assms(4) by (rule trans [OF sym])
  have d: "(i, s) = (j, t) \<or> i + s \<le> j \<or> j + t \<le> i"
    using takens_disjoint [OF hrel_facts(3) [OF assms(1)], of i s 2 j t] assms(2,3)
    unfolding hrel_live [OF assms(1)] by blast
  then show ?thesis using ij live_bounds(2) [OF assms(1,2)] live_bounds(2) [OF assms(1,3)] by auto
qed

lemma payload_live:
  assumes "hrel h ms ps" and "(i, s) \<in> set (live_blocks h)"
  shows "payload h (addr_of h (i + 1)) = {i + 1..<i + s - 1}"
proof -
  have "j = i \<and> t = s" if "(j, t) \<in> set (live_blocks h)" "addr_of h (j + 1) = addr_of h (i + 1)" for j t
    using live_addr_inj [OF assms(1) that(1) assms(2) that(2)] .
  then have "x \<in> {i + 1..<i + s - 1}" if "x \<in> payload h (addr_of h (i + 1))" for x
    using that by (fastforce simp: payload_def split: if_splits)
  moreover have "{i + 1..<i + s - 1} \<subseteq> payload h (addr_of h (i + 1))"
    unfolding payload_def using assms(2) by (intro Union_upper) force
  ultimately show ?thesis by blast
qed

text \<open>A client's write inside one of its objects.\<close>

definition put_word :: "int \<Rightarrow> int \<Rightarrow> heap \<Rightarrow> heap" where
  "put_word k x h = h\<lparr>arr := (arr h)(k := x)\<rparr>"

lemma hrel_put:
  assumes h: "hrel h ms ps" and t: "(i, s) \<in> set (takens 2 ms)" and k: "i < k" "k < i + s - 1"
  shows "hrel (put_word k x h) ms ps"
proof -
  let ?vs = "-2 # ms @ [-2]" and ?b = "(arr h)(k := x)"
  note g = grel_facts [OF hrel_facts(1) [OF h]]
  have t0: "(i, s) \<in> set (takens 0 ?vs)" using t by simp
  have "k \<notin> tags 0 ?vs" by (rule taken_word_not_tag [OF g(2) t0 k])
  then have "tiled ?b 0 ?vs (hlen h) = tiled (arr h) 0 ?vs (hlen h)" by (intro tiled_cong) auto
  moreover have "dll ?b 0 (avail h) ps = dll (arr h) 0 (avail h) ps"
    by (rule dll_cong) (use grel_taken_not_link [OF hrel_facts(1) [OF h] t0, of k] k in force)
  ultimately have "grel ?b (avail h) (hlen h) ?vs ps" using g unfolding grel_def by blast
  then show ?thesis using h unfolding hrel_def put_word_def by simp
qed

lemma live_put [simp]:
  assumes "hrel h ms ps" and "hrel (put_word k x h) ms ps"
  shows "live_ptrs (put_word k x h) = live_ptrs h" "payload (put_word k x h) p = payload h p"
  using hrel_live [OF assms(1)] hrel_live [OF assms(2)]
  by (simp_all add: live_ptrs_def payload_def addr_of_def put_word_def)

lemma in_payload:
  assumes "hrel h ms ps" and "k \<in> payload h p"
  obtains i s where "(i, s) \<in> set (takens 2 ms)" "p = addr_of h (i + 1)" "i < k" "k < i + s - 1"
  using assms(2) hrel_live [OF assms(1)] that
  by (fastforce simp: payload_def split: if_splits)

lemma live_ptr_cases:
  assumes "hrel h ms ps" and "p \<in> live_ptrs h"
  obtains us s ws where "ms = us @ - s # ws" "0 < s" "p = addr_of h (2 + extent us + 1)"
    "(2 + extent us, s) \<in> set (live_blocks h)"
proof -
  from assms(2) obtain i s where t: "(i, s) \<in> set (live_blocks h)" "p = addr_of h (i + 1)"
    by (auto simp: live_ptrs_def)
  from takens_split [of i s 2 ms] t hrel_live [OF assms(1)] that show thesis by auto
qed

text \<open>Two heaps with the same base whose taken blocks compare.\<close>

lemma same_base:
  "hbase h' = hbase h \<Longrightarrow> addr_of h' i = addr_of h i"
  by (simp add: addr_of_def)

lemma payload_kept:
  assumes "hrel h ms ps" and "hrel h' ms' ps'" and "hbase h' = hbase h"
    and "(i, s) \<in> set (live_blocks h)" and "(i, s) \<in> set (live_blocks h')"
    and "same_taken vs (arr h) (arr h')" and "(i, s) \<in> set (takens 0 vs)"
  shows "payload h' (addr_of h (i + 1)) = payload h (addr_of h (i + 1)) \<and>
    (\<forall>k\<in>payload h (addr_of h (i + 1)). arr h' k = arr h k)"
  using payload_live [OF assms(1,4)] payload_live [OF assms(2,5)] same_base [OF assms(3)] assms(6,7)
  unfolding same_taken_def by fastforce

text \<open>What taking words from an available block does to the live blocks.\<close>

lemma take_at_live:
  assumes h: "hrel h (us @ v # ws) ps" and I: "4 \<le> I" "I \<le> v"
  defines "i \<equiv> 2 + extent us"
  obtains ms' ps' s where "hrel (take_at i I h) ms' ps'" "I \<le> s" "s < I + 4"
    "hbase (take_at i I h) = hbase h" "hlen (take_at i I h) = hlen h"
    "set (live_blocks (take_at i I h)) = insert (i, s) (set (live_blocks h))"
    "\<forall>t. (i, t) \<notin> set (live_blocks h)"
    "same_taken (-2 # (us @ v # ws) @ [-2]) (arr h) (arr (take_at i I h))"
proof -
  let ?h' = "take_at i I h"
  have v: "0 < v" using I by simp
  obtain ps' where r: "hrel ?h' (us @ carve I v @ ws) ps'"
    using take_at_ok(1) [OF h v I] unfolding i_def by auto
  let ?s = "if 4 \<le> v - I then I else v"
  have "set (live_blocks ?h') = insert (i, ?s) (set (live_blocks h))"
    using hrel_live [OF h] hrel_live [OF r] carve_facts(1,7) [OF I] v by (auto simp: add.assoc i_def)
  moreover have "(i, t) \<notin> set (live_blocks h)" for t
  proof
    assume "(i, t) \<in> set (live_blocks h)"
    then have "(i, t) \<in> set (takens 2 us) \<or> (i, t) \<in> set (takens (i + v) ws)"
      using hrel_live [OF h] v by (auto simp: i_def)
    then show False
      using takens_range [of us i t 2] takens_range [of ws i t "i + v"] hrel_facts(3) [OF h] v
      by (auto simp: i_def)
  qed
  moreover have "I \<le> ?s" "?s < I + 4" using I by auto
  ultimately show thesis using that [OF r] take_at_ok(2,3) [OF h v I] unfolding i_def by blast
qed

lemma malloc_k_live:
  assumes h: "hrel h ms ps" and "bytes \<noteq> 0" and m: "malloc_k bytes h = Inr (p, h')" and "p \<noteq> 0"
  obtains ms' ps' i s where "hrel h' ms' ps'" "ints_for bytes \<le> s" "s < ints_for bytes + 4"
    "p = addr_of h (i + 1)" "hbase h' = hbase h" "hlen h' = hlen h"
    "set (live_blocks h') = insert (i, s) (set (live_blocks h))"
    "\<forall>t. (i, t) \<notin> set (live_blocks h)"
    "same_taken (-2 # ms @ [-2]) (arr h) (arr h')"
proof (cases rule: malloc_k_ok [OF h assms(2)])
  case 1
  then show thesis using m assms(4) by simp
next
  case (2 us v ws)
  let ?I = "ints_for bytes" and ?i = "2 + extent us"
  have h': "h' = take_at ?i ?I h" and p: "p = addr_of h (?i + 1)" using 2(4) m by auto
  have hh: "hrel h (us @ v # ws) ps" using h 2(1) by simp
  show thesis
    by (rule take_at_live [OF hh 2(3,2)]) (rule that, unfold h' 2(1), use p in simp_all)
qed

text \<open>A heap that has one more live block and the same contents in the others.\<close>

lemma grown_ok:
  assumes h: "hrel h ms ps" and h': "hrel h' ms' ps'" and p: "p = addr_of h (i + 1)"
    and base: "hbase h' = hbase h"
    and live: "set (live_blocks h') = insert (i, s) (set (live_blocks h))"
    and new: "\<forall>t. (i, t) \<notin> set (live_blocks h)"
    and same: "same_taken (-2 # ms @ [-2]) (arr h) (arr h')"
  shows "heap_inv h'" "p \<notin> live_ptrs h" "live_ptrs h' = insert p (live_ptrs h)" "p \<noteq> 0"
    "payload h' p = {i + 1..<i + s - 1}"
    "\<forall>q\<in>live_ptrs h. payload h' q = payload h q \<and> (\<forall>k\<in>payload h q. arr h' k = arr h k)"
proof -
  have li: "(i, s) \<in> set (live_blocks h')" using live by simp
  have p': "p = addr_of h' (i + 1)" using p same_base [OF base] by simp
  show "heap_inv h'" by (rule hrel_inv [OF h'])
  show "live_ptrs h' = insert p (live_ptrs h)"
    using base live p by (simp add: live_ptrs_def addr_of_def)
  show "p \<noteq> 0" using index_of_addr_of(2) [of i h'] live_bounds [OF h' li] p' by simp
  show "payload h' p = {i + 1..<i + s - 1}" using payload_live [OF h' li] p' by simp
  show "p \<notin> live_ptrs h"
  proof
    assume "p \<in> live_ptrs h"
    then obtain j t where j: "(j, t) \<in> set (live_blocks h)" "p = addr_of h (j + 1)"
      by (auto simp: live_ptrs_def)
    then have "(j, t) \<in> set (live_blocks h')" using live by auto
    moreover have "addr_of h' (j + 1) = addr_of h' (i + 1)" using j(2) p' same_base [OF base] by simp
    ultimately have "j = i" using live_addr_inj [OF h' _ li] by blast
    then show False using new j by blast
  qed
  show "\<forall>q\<in>live_ptrs h. payload h' q = payload h q \<and> (\<forall>k\<in>payload h q. arr h' k = arr h k)"
  proof
    fix q assume "q \<in> live_ptrs h"
    then obtain j t where j: "(j, t) \<in> set (live_blocks h)" "q = addr_of h (j + 1)"
      by (auto simp: live_ptrs_def)
    then show "payload h' q = payload h q \<and> (\<forall>k\<in>payload h q. arr h' k = arr h k)"
      using payload_kept [OF h h' base j(1) _ same] live by (simp add: hrel_live [OF h])
  qed
qed

section \<open>The kernel heap is an allocator\<close>

text \<open>What \<^verbatim>\<open>free\<close> of a live pointer does to the live blocks.\<close>

lemma free_k_live:
  assumes h: "hrel h ms ps" and p: "(i, s) \<in> set (live_blocks h)"
  obtains ms' ps' h' where "free_k (addr_of h (i + 1)) h = Inr h'" "hrel h' ms' ps'"
    "hbase h' = hbase h" "hlen h' = hlen h" 
    "set (live_blocks h') = set (live_blocks h) - {(i, s)}"
    "\<forall>q t k. (q, t) \<in> set (live_blocks h') \<longrightarrow> q \<le> k \<longrightarrow> k < q + t \<longrightarrow> arr h' k = arr h k"
proof -
  note lb = live_bounds [OF h p]
  from takens_split [of i s 2 ms] p hrel_live [OF h]
  obtain us ws where ms: "ms = us @ - s # ws" "0 < s" "i = 2 + extent us" by auto
  have hh: "hrel h (us @ - s # ws) ps" using h ms by simp
  have ix: "index_of h (addr_of h (i + 1)) = i" "addr_of h (i + 1) \<noteq> 0" "addr_of h (i + 1) \<noteq> hbase h"
    using index_of_addr_of [of i h] lb by auto
  obtain us' xl xr ws' h' ps' where F: "us = us' @ xl" "ws = xr @ ws'"
    "xl = [] \<or> (\<exists>l>0. xl = [l])" "xr = [] \<or> (\<exists>r>0. xr = [r])"
    "free_k (addr_of h (i + 1)) h = Inr h'" "hrel h' (us' @ (extent xl + s + extent xr) # ws') ps'"
    "hbase h' = hbase h" "hlen h' = hlen h"
    "\<And>q t k. (q, t) \<in> set (takens 0 (-2 # us')) \<union>
        set (takens (2 + extent us + s + extent xr) (ws' @ [-2])) \<Longrightarrow>
      q \<le> k \<Longrightarrow> k < q + t \<Longrightarrow> arr h' k = arr h k"
    by (rule free_at_ok [OF hh ms(2) ix(2,3)]) (use ix(1) ms(3) in auto)
  let ?S = "extent xl + s + extent xr"
  have S: "0 < ?S" using ms(2) extent_nonneg [of xl] extent_nonneg [of xr] by simp
  have xs: "takens j xl = []" "takens j xr = []" for j using F(3,4) by auto
  have lv: "live_blocks h = takens 2 us' @ (i, s) # takens (i + s + extent xr) ws'"
    using hrel_live [OF hh] F(1,2) ms(2,3) xs by (simp add: add.assoc)
  have lv': "live_blocks h' = takens 2 us' @ takens (i + s + extent xr) ws'"
    using hrel_live [OF F(6)] F(1) ms(3) S by (simp add: add.assoc)
  have "distinct (live_blocks h)"
    using distinct_takens [OF hrel_facts(3) [OF h]] hrel_live [OF h] by simp
  then have "set (live_blocks h') = set (live_blocks h) - {(i, s)}" unfolding lv lv' by auto
  moreover have "\<forall>q t k. (q, t) \<in> set (live_blocks h') \<longrightarrow> q \<le> k \<longrightarrow> k < q + t \<longrightarrow> arr h' k = arr h k"
    using F(9) ms(3) unfolding lv' by auto
  ultimately show thesis using that [OF F(5,6,7,8)] by blast
qed

lemma heap_null_not_live: "heap_inv h \<Longrightarrow> 0 \<notin> live_ptrs h"
proof
  assume "heap_inv h" "0 \<in> live_ptrs h"
  then obtain ms ps i s where h: "hrel h ms ps" and t: "(i, s) \<in> set (live_blocks h)"
    and 0: "addr_of h (i + 1) = 0" by (auto simp: heap_inv_def live_ptrs_def)
  show False using index_of_addr_of(2) [of i h] live_bounds [OF h t] 0 by auto
qed

lemma heap_spans_disjoint:
  assumes "heap_inv h" "p \<in> live_ptrs h" "q \<in> live_ptrs h" "p \<noteq> q"
  shows "payload h p \<inter> payload h q = {}"
proof -
  from assms(1) obtain ms ps where h: "hrel h ms ps" by (auto simp: heap_inv_def)
  from assms(2,3) obtain i s j t where
    t: "(i, s) \<in> set (live_blocks h)" "p = addr_of h (i + 1)"
      "(j, t) \<in> set (live_blocks h)" "q = addr_of h (j + 1)" by (auto simp: live_ptrs_def)
  have "i + s \<le> j \<or> j + t \<le> i"
    using takens_disjoint [OF hrel_facts(3) [OF h], of i s 2 j t] t assms(4) hrel_live [OF h] by auto
  then show ?thesis using payload_live [OF h t(1)] payload_live [OF h t(3)] t(2,4) by auto
qed

lemma heap_release_ok:
  assumes "heap_inv h" "p \<in> live_ptrs h"
  shows "\<exists>h'. free_k p h = Inr h' \<and> heap_inv h' \<and> live_ptrs h' = live_ptrs h - {p} \<and>
    (\<forall>q\<in>live_ptrs h'. payload h' q = payload h q \<and> (\<forall>k\<in>payload h q. arr h' k = arr h k))"
proof -
  from assms obtain ms ps i s where h: "hrel h ms ps" and t: "(i, s) \<in> set (live_blocks h)"
    "p = addr_of h (i + 1)" by (auto simp: heap_inv_def live_ptrs_def)
  obtain ms' ps' h' where F: "free_k p h = Inr h'" "hrel h' ms' ps'" "hbase h' = hbase h"
    "set (live_blocks h') = set (live_blocks h) - {(i, s)}"
    "\<forall>q t k. (q, t) \<in> set (live_blocks h') \<longrightarrow> q \<le> k \<longrightarrow> k < q + t \<longrightarrow> arr h' k = arr h k"
    using free_k_live [OF h t(1)] t(2) by metis
  have ptr: "(j, u) \<in> set (live_blocks h) \<Longrightarrow> addr_of h (j + 1) = p \<Longrightarrow> j = i \<and> u = s" for j u
    using live_addr_inj [OF h _ t(1)] t(2) by blast
  have lv: "live_ptrs h' = live_ptrs h - {p}"
  proof (intro set_eqI iffI)
    fix q assume "q \<in> live_ptrs h'"
    then obtain j u where "(j, u) \<in> set (live_blocks h)" "(j, u) \<noteq> (i, s)" "q = addr_of h (j + 1)"
      using F(3,4) by (auto simp: live_ptrs_def addr_of_def)
    then show "q \<in> live_ptrs h - {p}" using ptr by (force simp: live_ptrs_def)
  next
    fix q assume "q \<in> live_ptrs h - {p}"
    then obtain j u where "(j, u) \<in> set (live_blocks h)" "q = addr_of h (j + 1)" "q \<noteq> p"
      by (auto simp: live_ptrs_def)
    then show "q \<in> live_ptrs h'" using F(3,4) t(2) by (force simp: live_ptrs_def addr_of_def)
  qed
  have "payload h' q = payload h q \<and> (\<forall>k\<in>payload h q. arr h' k = arr h k)" if q: "q \<in> live_ptrs h'" for q
  proof -
    from q obtain j u where j: "(j, u) \<in> set (live_blocks h')" "q = addr_of h' (j + 1)"
      by (auto simp: live_ptrs_def)
    moreover have "(j, u) \<in> set (live_blocks h)" using j(1) F(4) by simp
    moreover have "addr_of h' (j + 1) = addr_of h (j + 1)" by (rule same_base [OF F(3)])
    ultimately show ?thesis
      using payload_live [OF F(2) j(1)] payload_live [OF h, of j u] F(5) by fastforce
  qed
  then show ?thesis using F(1) hrel_inv [OF F(2)] lv by blast
qed

lemma heap_alloc_ok:
  assumes "heap_inv h" and "bytes \<noteq> 0" and "malloc_k bytes h = Inr (p, h')"
  shows "p \<noteq> 0 \<Longrightarrow> heap_inv h' \<and> p \<notin> live_ptrs h \<and> live_ptrs h' = insert p (live_ptrs h)"
    and "p = 0 \<Longrightarrow> h' = h \<and> (\<forall>x\<in>set (free_blocks h). arr h x < ints_for bytes)"
    and "q \<in> live_ptrs h \<Longrightarrow> payload h' q = payload h q \<and> (\<forall>k\<in>payload h q. arr h' k = arr h k)"
proof -
  from assms(1) obtain ms ps where h: "hrel h ms ps" by (auto simp: heap_inv_def)
  have z: "h' = h \<and> (\<forall>x\<in>set (free_blocks h). arr h x < ints_for bytes)" if p0: "p = 0"
  proof (cases rule: malloc_k_ok [OF h assms(2)])
    case 1
    then show ?thesis using assms(3) hrel_free [OF h] by simp
  next
    case (2 us v ws)
    have hh: "hrel h (us @ v # ws) ps" using h 2(1) by simp
    have "addr_of h (2 + extent us + 1) \<noteq> 0"
      by (rule take_at_live [OF hh 2(3,2)]) (rule grown_ok(4) [OF hh _ refl])
    then show ?thesis using 2(4) assms(3) p0 by simp
  qed
  then show "p = 0 \<Longrightarrow> h' = h \<and> (\<forall>x\<in>set (free_blocks h). arr h x < ints_for bytes)" .
  have got: "heap_inv h' \<and> p \<notin> live_ptrs h \<and> live_ptrs h' = insert p (live_ptrs h) \<and>
    (\<forall>q\<in>live_ptrs h. payload h' q = payload h q \<and> (\<forall>k\<in>payload h q. arr h' k = arr h k))"
    if "p \<noteq> 0"
  proof -
    from malloc_k_live [OF h assms(2,3) that]
    obtain ms' ps' i s where M: "hrel h' ms' ps'" "p = addr_of h (i + 1)" "hbase h' = hbase h"
      "set (live_blocks h') = insert (i, s) (set (live_blocks h))"
      "\<forall>t. (i, t) \<notin> set (live_blocks h)" "same_taken (-2 # ms @ [-2]) (arr h) (arr h')" by metis
    show ?thesis using grown_ok(1,2,3,6) [OF h M] by blast
  qed
  then show "p \<noteq> 0 \<Longrightarrow> heap_inv h' \<and> p \<notin> live_ptrs h \<and> live_ptrs h' = insert p (live_ptrs h)"
    by blast
  show "q \<in> live_ptrs h \<Longrightarrow> payload h' q = payload h q \<and> (\<forall>k\<in>payload h q. arr h' k = arr h k)"
    using got z by (cases "p = 0") auto
qed

lemma heap_put_ok:
  assumes "heap_inv h" and "k \<in> payload h p"
  shows "heap_inv (put_word k x h)" "live_ptrs (put_word k x h) = live_ptrs h"
    "payload (put_word k x h) q = payload h q"
proof -
  from assms(1) obtain ms ps where h: "hrel h ms ps" by (auto simp: heap_inv_def)
  from in_payload [OF h assms(2)] obtain i s where "(i, s) \<in> set (takens 2 ms)" "i < k" "k < i + s - 1"
    by blast
  then have h': "hrel (put_word k x h) ms ps" by (rule hrel_put [OF h])
  show "heap_inv (put_word k x h)" by (rule hrel_inv [OF h'])
  show "live_ptrs (put_word k x h) = live_ptrs h" "payload (put_word k x h) q = payload h q"
    by (rule live_put [OF h h'])+
qed

interpretation kh: allocator malloc_k free_k "\<lambda>bytes. bytes \<noteq> 0" heap_inv live_ptrs payload arr put_word
proof unfold_locales
  show "heap_inv s' \<and> p \<notin> live_ptrs s \<and> live_ptrs s' = insert p (live_ptrs s)"
    if "heap_inv s" "r \<noteq> 0" "malloc_k r s = Inr (p, s')" "p \<noteq> 0" for s r p s'
    using heap_alloc_ok(1) that .
  show "s' = s" if "heap_inv s" "r \<noteq> 0" "malloc_k r s = Inr (0, s')" for s r s'
    using heap_alloc_ok(2) [OF that] by blast
  show "payload s' q = payload s q \<and> (\<forall>k\<in>payload s q. arr s' k = arr s k)"
    if "heap_inv s" "r \<noteq> 0" "malloc_k r s = Inr (p, s')" "q \<in> live_ptrs s" for s r p s' q
    using heap_alloc_ok(3) that .
  show "\<exists>s'. free_k p s = Inr s' \<and> heap_inv s' \<and> live_ptrs s' = live_ptrs s - {p}"
    if "heap_inv s" "p \<in> live_ptrs s" for s p
    using heap_release_ok [OF that] by blast
  show "payload s' q = payload s q \<and> (\<forall>k\<in>payload s q. arr s' k = arr s k)"
    if "heap_inv s" "p \<in> live_ptrs s" "free_k p s = Inr s'" "q \<in> live_ptrs s" "q \<noteq> p" for s p s' q
    using heap_release_ok [OF that(1,2)] that(3-5) by fastforce
  show "heap_inv (put_word k v s) \<and> live_ptrs (put_word k v s) = live_ptrs s \<and>
      (\<forall>q. payload (put_word k v s) q = payload s q)"
    if "heap_inv s" "p \<in> live_ptrs s" "k \<in> payload s p" for s p k v
    using heap_put_ok [OF that(1,3)] by blast
  show "arr (put_word k v s) j = (if j = k then v else arr s j)" for k v s j
    by (simp add: put_word_def)
qed (use heap_spans_disjoint heap_null_not_live in auto)

section \<open>Initialisation and correctness\<close>

lemma heap_layout_hrel:
  assumes av: "avail h = 0" and "0 < uint base" and "32 \<le> uint bytes" and "uint base + uint bytes \<le> 2 ^ 32"
  shows "hrel (heap_layout base bytes h) [uint bytes div 4 - 4] [2]"
proof -
  define n where "n = uint bytes div 4"
  have n: "8 \<le> n" "4 * n \<le> uint bytes" using assms(3) by (simp_all add: n_def)
  have "uint (bytes div 4) = n" by (simp add: n_def uint_div)
  moreover have "n < 2 ^ 30" using n(2) uint_lt2p [of bytes] by (simp add: n_def)
  ultimately have s: "sint (bytes div 4) = n"
    using n by (simp add: sint_uint signed_take_bit_int_eq_self)
  have top: "uint base + 4 * n \<le> 2 ^ 32" using n(2) assms(4) by linarith
  have n4: "0 < n - 4" and n2: "0 < (2::int)" using n by auto
  have eq: "heap_layout base bytes h = h\<lparr>hbase := base, hlen := n, avail := 2,
     arr := (push_arr ((arr h)(0 := -2, 1 := -2, 2 := n - 4, n - 3 := n - 4)) (avail h) 2)
       (n - 2 := -2, n - 1 := -2)\<rparr>"
    using n by (simp add: heap_layout_def s Let_def makeTaken_eq makeAvail_eq)
  show ?thesis
    using n assms(2) top av unfolding hrel_def grel_def eq n_def [symmetric]
    by (simp add: push_arr_def Let_def)
qed

lemma malloc_search_none: "malloc_search h ints cd 0 mx it = Some (Inr (mx, it))"
  by (simp add: malloc_search.simps)

text \<open>How many words a request gets.\<close>

lemma ints_for_room:
  assumes "uint bytes \<le> 2 ^ 32 - 4"
  shows "uint bytes \<le> 4 * (ints_for bytes - 2)"
proof -
  have "uint (bytes + 3) = uint bytes + 3" using assms by (simp add: uint_word_ariths)
  then have d: "uint ((bytes + 3) div 4) = (uint bytes + 3) div 4" by (simp add: uint_div)
  have b: "(uint bytes + 3) div 4 \<le> 2 ^ 30" using assms by simp
  have "0 \<le> uint bytes" by (rule uint_ge_0)
  then have "0 \<le> (uint bytes + 3) div 4" by (simp only: pos_imp_zdiv_nonneg_iff)
  then have "uint ((bytes + 3) div 4 + 2) = (uint bytes + 3) div 4 + 2"
    using d b by (simp add: uint_word_ariths)
  then have "sint ((bytes + 3) div 4 + 2) = (uint bytes + 3) div 4 + 2"
    using b \<open>0 \<le> (uint bytes + 3) div 4\<close>
    by (simp add: sint_uint signed_take_bit_int_eq_self del: pos_imp_zdiv_nonneg_iff)
  moreover have "uint bytes \<le> 4 * ((uint bytes + 3) div 4)" by presburger
  ultimately show ?thesis by (auto simp add: ints_for_def Let_def)
qed

lemma ints_for_wraps:
  assumes "0xFFFFFFFD \<le> bytes"
  shows "ints_for bytes = 4"
proof -
  have "uint bytes \<ge> 0xFFFFFFFD" using assms by (simp add: word_le_def)
  then have "uint (bytes + 3) = uint bytes + 3 - 2 ^ 32"
    using uint_lt2p [of bytes] by (simp add: uint_plus_if')
  then have "uint (bytes + 3) < 4" using uint_lt2p [of bytes] by simp
  then have "(bytes + 3) div 4 = 0" by (simp add: word_div_def)
  then show ?thesis by (simp add: ints_for_def Let_def)
qed

lemma fits_after_layout:
  assumes h: "hrel h [v] [2]" and "bytes \<noteq> 0" and "ints_for bytes \<le> v"
  shows "\<exists>p h'. malloc_k bytes h = Inr (p, h') \<and> p \<noteq> 0"
proof (cases rule: malloc_k_ok [OF h assms(2)])
  case 1
  have "0 < v" using assms(3) ints_for_ge [of bytes] by simp
  moreover have "arr h 2 = v" using hrel_at(1) [of h "[]" v "[]"] h by simp
  ultimately show ?thesis using 1(2) assms(3) by simp
next
  case (2 us w ws)
  have "us = []" "w = v" using 2(1) by (auto simp: Cons_eq_append_conv)
  moreover have "addr_of h 3 \<noteq> 0"
    using index_of_addr_of(2) [of 2 h] hrel_facts(6,7,8) [OF h] 2(2,3) calculation by simp
  ultimately show ?thesis using 2(4) by simp
qed

text \<open>A heap as the loader leaves the static variables, and two small requests.\<close>

definition heap_zero :: heap where
  "heap_zero = \<lparr>arr = \<lambda>_. 0, hlen = 0, avail = 0, hbase = 0\<rparr>"

lemma heap_example_hrel: "hrel (heap_layout 0x1000 0x100 heap_zero) [60] [2]"
  using heap_layout_hrel [of heap_zero "0x1000" "0x100"] by (simp add: heap_zero_def)

lemma heap_example: "heap_inv (heap_layout 0x1000 0x100 heap_zero)"
  by (rule hrel_inv [OF heap_example_hrel])

lemma heap_example_malloc:
  obtains p h where "malloc_k 8 (heap_layout 0x1000 0x100 heap_zero) = Inr (p, h)" "p \<noteq> 0"
  using fits_after_layout [OF heap_example_hrel, of 8] by (auto simp: ints_for_def)

text \<open>\<^verbatim>\<open>heapInit\<close> sets up the heap: on a region of at least sixteen bytes more than the
  lock's block that does not wrap around the address space, it returns the lock's pointer,
  the heap is in order, and that pointer is the only live one.\<close>

theorem heapInit_establishes:
  assumes "avail h = 0" and "0 < uint base" and "uint base + uint bytes \<le> 2 ^ 32"
    and "lockBytes \<noteq> 0" and "4 * ints_for lockBytes + 16 \<le> 4 * (uint bytes div 4)"
  shows "\<exists>p h'. heapInit lockBytes base bytes h = Inr (p, h') \<and> heap_inv h' \<and> live_ptrs h' = {p}"
proof -
  let ?h = "heap_layout base bytes h" and ?v = "uint bytes div 4 - 4"
  have "32 \<le> uint bytes" using assms(5) ints_for_ge [of lockBytes] by simp
  then have h: "hrel ?h [?v] [2]" using heap_layout_hrel [OF assms(1,2)] assms(3) by simp
  then obtain p h' where m: "malloc_k lockBytes ?h = Inr (p, h')" "p \<noteq> 0"
    using fits_after_layout [OF h assms(4)] assms(5) by auto
  have "live_ptrs ?h = {}" using hrel_live [OF h] \<open>32 \<le> uint bytes\<close> by (simp add: live_ptrs_def)
  then have "heap_inv h' \<and> live_ptrs h' = {p}"
    using heap_alloc_ok(1) [OF hrel_inv [OF h] assms(4) m] by simp
  then show ?thesis using m by (simp add: heapInit_def operator_new_def)
qed

lemma heapInit_establishes_witness:
  "\<exists>p h'. heapInit 8 0x1000 0x100 heap_zero = Inr (p, h') \<and> heap_inv h' \<and> live_ptrs h' = {p}"
  by (rule heapInit_establishes) (simp_all add: heap_zero_def ints_for_def)

text \<open>C2: what \<^verbatim>\<open>malloc\<close> does on a heap in order: it returns; on \<open>NULL\<close> nothing changed and
  no available block has the words the request needs; otherwise the pointer is new, its
  object is a run of words from that address which holds all the bytes asked for (below
  the wrap-around bound), and every other object keeps its place and its contents.\<close>

theorem malloc_k_spec:
  assumes "heap_inv h" and "bytes \<noteq> 0" and "uint bytes \<le> 2 ^ 32 - 4"
  shows "\<exists>p h'. malloc_k bytes h = Inr (p, h') \<and> heap_inv h' \<and>
     (p = 0 \<longrightarrow> h' = h \<and> (\<forall>x\<in>set (free_blocks h). arr h x < ints_for bytes)) \<and>
     (p \<noteq> 0 \<longrightarrow> p \<notin> live_ptrs h \<and> live_ptrs h' = insert p (live_ptrs h) \<and>
        (\<exists>k n. p = addr_of h k \<and> payload h' p = {k..<k + n} \<and> uint bytes \<le> 4 * n)) \<and>
     (\<forall>q\<in>live_ptrs h. payload h' q = payload h q \<and> (\<forall>k\<in>payload h q. arr h' k = arr h k))"
proof -
  from assms(1) obtain ms ps where h: "hrel h ms ps" by (auto simp: heap_inv_def)
  obtain p h' where m: "malloc_k bytes h = Inr (p, h')"
    by (cases rule: malloc_k_ok [OF h assms(2)]) auto
  note ok = heap_alloc_ok [OF assms(1,2) m]
  have "\<exists>k n. p = addr_of h k \<and> payload h' p = {k..<k + n} \<and> uint bytes \<le> 4 * n" if "p \<noteq> 0"
  proof -
    from malloc_k_live [OF h assms(2) m that] obtain ms' ps' i s where M: "hrel h' ms' ps'"
      "ints_for bytes \<le> s" "p = addr_of h (i + 1)" "hbase h' = hbase h"
      "set (live_blocks h') = insert (i, s) (set (live_blocks h))" by metis
    have "payload h' p = {i + 1..<i + s - 1}"
      using payload_live [OF M(1), of i s] M(3,5) same_base [OF M(4)] by simp
    moreover have "uint bytes \<le> 4 * (s - 2)" using ints_for_room [OF assms(3)] M(2) by simp
    ultimately show ?thesis using M(3) by (intro exI [of _ "i + 1"] exI [of _ "s - 2"]) simp
  qed
  then show ?thesis using m ok assms(1) by (cases "p = 0") auto
qed

lemma malloc_k_spec_witness:
  "\<exists>p h'. malloc_k 13 (heap_layout 0x1000 0x100 heap_zero) = Inr (p, h') \<and> heap_inv h'"
  using malloc_k_spec [OF heap_example, of 13] by auto

text \<open>C3: \<^verbatim>\<open>free\<close> of a pointer that \<^verbatim>\<open>malloc\<close> returned and that was not freed since never
  panics, keeps the heap in order, gives up exactly that pointer, and leaves the place and
  the contents of every other object as they were.\<close>

theorem free_k_spec:
  assumes "heap_inv h" and "p \<in> live_ptrs h"
  shows "\<exists>h'. free_k p h = Inr h' \<and> heap_inv h' \<and> live_ptrs h' = live_ptrs h - {p} \<and>
     (\<forall>q\<in>live_ptrs h'. payload h' q = payload h q \<and> (\<forall>k\<in>payload h q. arr h' k = arr h k))"
  by (rule heap_release_ok [OF assms])

lemma free_k_spec_witness:
  "\<exists>p h h'. heapInit 8 0x1000 0x100 heap_zero = Inr (p, h) \<and> free_k p h = Inr h' \<and>
     heap_inv h' \<and> live_ptrs h' = {}"
proof -
  let ?h0 = "heap_layout 0x1000 0x100 heap_zero"
  note h0 = heap_example_hrel
  obtain p h where m: "malloc_k 8 ?h0 = Inr (p, h)" "p \<noteq> 0" by (rule heap_example_malloc)
  have "live_ptrs ?h0 = {}" using hrel_live [OF h0] by (simp add: live_ptrs_def)
  then have ok: "heap_inv h" "live_ptrs h = {p}"
    using heap_alloc_ok(1) [OF hrel_inv [OF h0] _ m] by simp_all
  from free_k_spec [OF ok(1), of p] ok(2) m show ?thesis
    by (auto simp: heapInit_def operator_new_def)
qed

text \<open>no memory is lost to fragmentation for ever: whenever no object is live, the heap
  is one available block between the two sentinels, whatever happened before.\<close>

theorem heap_coalesced:
  assumes "heap_inv h" and "live_ptrs h = {}"
  shows "heap_row h = [-2, hlen h - 4, -2] \<or> heap_row h = [-2, -2]"
proof -
  from assms(1) obtain ms ps where h: "hrel h ms ps" by (auto simp: heap_inv_def)
  have none: "takens 2 ms = []" using assms(2) hrel_live [OF h] by (simp add: live_ptrs_def)
  have neg: "m \<notin> set ms" if "m < 0" for m
  proof
    assume "m \<in> set ms"
    then obtain us ws where "ms = us @ m # ws" by (meson split_list)
    then show False using none that by simp
  qed
  have "0 < m" if "m \<in> set ms" for m
  proof -
    have "4 \<le> \<bar>m\<bar>" "\<not> m < 0" using hrel_facts(2) [OF h] neg that by blast+
    then show ?thesis by simp
  qed
  then have "ms = [] \<or> (\<exists>m>0. ms = [m])"
    using hrel_facts(4) [OF h] by (cases ms rule: remdups_adj.cases) auto
  then show ?thesis using hrel_row [OF h] hrel_facts(8) [OF h] by auto
qed

lemma heap_coalesced_witness:
  "heap_row (heap_layout 0x1000 0x100 heap_zero) = [-2, 60, -2]"
proof -
  let ?h = "heap_layout 0x1000 0x100 heap_zero"
  note h = heap_example_hrel
  have "heap_row ?h = [-2, hlen ?h - 4, -2] \<or> heap_row ?h = [-2, -2]"
    by (rule heap_coalesced [OF hrel_inv [OF h]]) (simp add: live_ptrs_def hrel_live [OF h])
  then show ?thesis using hrel_row [OF h] hrel_facts(8) [OF h] by simp
qed


text \<open>the choice of \<^verbatim>\<open>malloc\<close>: with fewer than twenty blocks available it takes, among
  those that fit, a smallest one.\<close>

theorem malloc_k_best_fit:
  assumes "heap_inv h" and "bytes \<noteq> 0" and "length (free_blocks h) < 20"
    and "malloc_k bytes h = Inr (p, h')" and "p \<noteq> 0"
  shows "\<exists>x\<in>set (free_blocks h). p = addr_of h (x + 1) \<and> ints_for bytes \<le> arr h x \<and>
     (\<forall>y\<in>set (free_blocks h). ints_for bytes \<le> arr h y \<longrightarrow> arr h x \<le> arr h y)"
proof -
  from assms(1) obtain ms ps where h: "hrel h ms ps" by (auto simp: heap_inv_def)
  note hf = hrel_facts [OF h]
  show ?thesis
  proof (cases rule: malloc_k_ok [OF h assms(2)])
    case 1
    then show ?thesis using assms(4,5) by simp
  next
    case (2 us v ws)
    have "length ps \<le> length (frees 2 ms)"
      using hf(5) distinct_card [OF grel_facts(5) [OF hf(1)]] card_length [of "frees 2 ms"] by simp
    then have "length ps < 20" using assms(3) hrel_free [OF h] by simp
    moreover have "arr h (2 + extent us) = v" using hrel_at(1) [of h us v ws ps] h 2(1) by simp
    ultimately show ?thesis
      using 2 assms(4) hrel_free [OF h] by (intro bexI [of _ "2 + extent us"]) auto
  qed
qed

lemma malloc_k_best_fit_witness:
  "\<exists>p h' h. malloc_k 8 h = Inr (p, h') \<and> p = addr_of h 3"
proof -
  let ?h = "heap_layout 0x1000 0x100 heap_zero"
  note h = heap_example_hrel
  obtain p h' where m: "malloc_k 8 ?h = Inr (p, h')" "p \<noteq> 0" by (rule heap_example_malloc)
  have "free_blocks ?h = [2]" using hrel_free [OF h] by simp
  then have "p = addr_of ?h 3"
    using malloc_k_best_fit [OF hrel_inv [OF h] _ _ m] by simp
  then show ?thesis using m by blast
qed

text \<open>C1: the history of a client of the kernel heap: start from an empty heap in order, get,
  free and write through pointers in any order; then the heap is in order, its live pointers
  are exactly those the client holds, each can be freed, and a write through one changes no
  word of another.\<close>

theorem kernel_heap_history:
  assumes "client_run malloc_k free_k (\<lambda>bytes. bytes \<noteq> 0) payload put_word h0 held h"
    and "heap_inv h0" and "live_ptrs h0 = {}"
  shows "heap_inv h \<and> live_ptrs h = held \<and> 0 \<notin> held \<and>
    (\<forall>p\<in>held. \<exists>h'. free_k p h = Inr h') \<and>
    (\<forall>p\<in>held. \<forall>q\<in>held. p \<noteq> q \<longrightarrow>
       (\<forall>k\<in>payload h p. \<forall>j\<in>payload h q. \<forall>x. arr (put_word k x h) j = arr h j))"
  using kh.run_invar [OF assms] kh.run_can_free [OF assms] kh.run_write_private [OF assms]
    kh.null_not_live [of h] by blast

lemma kernel_heap_history_witness:
  "\<exists>p h. malloc_k 8 (heap_layout 0x1000 0x100 heap_zero) = Inr (p, h) \<and> live_ptrs h = {p}"
proof -
  let ?h = "heap_layout 0x1000 0x100 heap_zero"
  note h = heap_example_hrel
  obtain p h' where m: "malloc_k 8 ?h = Inr (p, h')" "p \<noteq> 0" by (rule heap_example_malloc)
  have "client_run malloc_k free_k (\<lambda>bytes. bytes \<noteq> 0) payload put_word ?h (insert p {}) h'"
    using m by (intro client_run.got [OF client_run.start]) auto
  from kernel_heap_history [OF this hrel_inv [OF h]] m show ?thesis
    by (auto simp: live_ptrs_def hrel_live [OF h])
qed

text \<open>a request of more than 4294967292 bytes is served as if it were one of a single
  byte: the addition of 3 wraps around in \<^verbatim>\<open>size_t\<close>.\<close>

theorem malloc_k_wraps:
  assumes "0xFFFFFFFD \<le> bytes"
  shows "malloc_k bytes h = malloc_k 1 h"
proof -
  have "bytes \<noteq> 0" using assms by auto
  moreover have "ints_for bytes = ints_for 1" using ints_for_wraps [OF assms] by (simp add: ints_for_def)
  ultimately show ?thesis by (simp add: malloc_k_def)
qed

lemma malloc_k_wraps_witness: "malloc_k 0xFFFFFFFF heap_zero = malloc_k 1 heap_zero"
  by (rule malloc_k_wraps) simp

end
