(* ===== verification/UHeap.thy ===== *)
theory UHeap
  imports KHeap "HOL-Library.Signed_Division"
begin

text \<open>
  The heap of the user library, \<^verbatim>\<open>t0.dir/sbin/heap.c\<close>: the same layout as the kernel's over
  a static array of \<^verbatim>\<open>INTS\<close> words, with the panics commented out, a first-fit search, and
  \<^verbatim>\<open>realloc\<close>.  The state is the same record; the helper functions are translated from this
  file and then shown equal to the kernel's, so that the lemmas on rows of blocks apply.
\<close>

section \<open>Helper functions\<close>

definition INTS :: int where
  "INTS = 0x100000"

definition safe_u :: int where
  "safe_u = 1"

definition abs_u :: "int \<Rightarrow> int" where
  "abs_u x = (if x < 0 then - x else x)"

definition size_u :: "heap \<Rightarrow> int \<Rightarrow> int" where
  "size_u h i = abs_u (arr h i)"

definition headerFromFooter_u :: "heap \<Rightarrow> int \<Rightarrow> int" where
  "headerFromFooter_u h i = i - size_u h i + 1"

definition footerFromHeader_u :: "heap \<Rightarrow> int \<Rightarrow> int" where
  "footerFromHeader_u h i = i + size_u h i - 1"

definition sanity_u :: "heap \<Rightarrow> int \<Rightarrow> int" where
  "sanity_u h i =
     (if safe_u \<noteq> 0 then
        (if i = 0 then 0
         else if i < 0 \<or> hlen h \<le> i then i
         else
           (let footer = footerFromHeader_u h i
            in if footer < 0 \<or> hlen h \<le> footer then i
               else (let hv = arr h i; fv = arr h footer in if hv \<noteq> fv then i else i)))
      else i)"

definition left_u :: "heap \<Rightarrow> int \<Rightarrow> int" where
  "left_u h i = sanity_u h (headerFromFooter_u h (i - 1))"

definition right_u :: "heap \<Rightarrow> int \<Rightarrow> int" where
  "right_u h i = sanity_u h (i + size_u h i)"

definition next1 :: "heap \<Rightarrow> int \<Rightarrow> int" where
  "next1 h i = sanity_u h (arr h (i + 1))"

definition prev1 :: "heap \<Rightarrow> int \<Rightarrow> int" where
  "prev1 h i = sanity_u h (arr h (i + 2))"

definition next_u :: "int \<Rightarrow> int \<Rightarrow> heap \<Rightarrow> heap" where
  "next_u i x h = h\<lparr>arr := (arr h)(i + 1 := x)\<rparr>"

definition prev_u :: "int \<Rightarrow> int \<Rightarrow> heap \<Rightarrow> heap" where
  "prev_u i x h = h\<lparr>arr := (arr h)(i + 2 := x)\<rparr>"

definition remove_u :: "int \<Rightarrow> heap \<Rightarrow> heap" where
  "remove_u i h =
     (let prevIndex = prev1 h i;
          nextIndex = next1 h i;
          h1 = (if prevIndex = 0 then h\<lparr>avail := nextIndex\<rparr> else next_u prevIndex nextIndex h)
      in if nextIndex \<noteq> 0 then prev_u nextIndex prevIndex h1 else h1)"

definition makeAvail_u :: "int \<Rightarrow> int \<Rightarrow> heap \<Rightarrow> heap" where
  "makeAvail_u i ints h =
     (let h1 = h\<lparr>arr := (arr h)(i := ints)\<rparr>;
          h2 = h1\<lparr>arr := (arr h1)(footerFromHeader_u h1 i := ints)\<rparr>;
          h3 = next_u i (avail h2) h2;
          h4 = prev_u i 0 h3;
          h5 = (if avail h4 \<noteq> 0 then prev_u (avail h4) i h4 else h4)
      in h5\<lparr>avail := i\<rparr>)"

definition makeTaken_u :: "int \<Rightarrow> int \<Rightarrow> heap \<Rightarrow> heap" where
  "makeTaken_u i ints h =
     (let h1 = h\<lparr>arr := (arr h)(i := - ints)\<rparr>
      in h1\<lparr>arr := (arr h1)(footerFromHeader_u h1 i := - ints)\<rparr>)"

definition isAvail_u :: "heap \<Rightarrow> int \<Rightarrow> bool" where
  "isAvail_u h i \<longleftrightarrow> 0 < arr h i"

definition isTaken_u :: "heap \<Rightarrow> int \<Rightarrow> bool" where
  "isTaken_u h i \<longleftrightarrow> arr h i < 0"

text \<open>The static array before \<^verbatim>\<open>heap_init\<close>, at the address the linker chose, and the call.\<close>

definition static_heap :: "u32 \<Rightarrow> heap" where
  "static_heap base = \<lparr>arr = \<lambda>_. 0, hlen = INTS, avail = 0, hbase = base\<rparr>"

definition heap_init_u :: "heap \<Rightarrow> heap" where
  "heap_init_u h = makeTaken_u (hlen h - 2) 2 (makeAvail_u 2 (hlen h - 4) (makeTaken_u 0 2 h))"

section \<open>malloc, free and realloc\<close>

definition ints_for_u :: "u32 \<Rightarrow> int" where
  "ints_for_u bytes = (let ints = sint ((bytes + 3) div 4 + 2) in if ints < 4 then 4 else ints)"

partial_function (option) malloc_loop_u :: "int \<Rightarrow> int \<Rightarrow> u32 \<Rightarrow> heap \<Rightarrow> (u32 \<times> heap) option" where
  "malloc_loop_u ints p res h =
     (if p \<noteq> 0 \<and> res = 0 then
        (let sz = size_u h p
         in if ints \<le> sz then
              (let h1 = remove_u p h;
                   extra = sz - ints;
                   h2 = (if 4 \<le> extra then makeAvail_u (p + ints) extra (makeTaken_u p ints h1)
                         else makeTaken_u p sz h1)
               in malloc_loop_u ints p (addr_of h2 (p + 1)) h2)
            else malloc_loop_u ints (next1 h p) res h)
      else Some (res, h))"

definition malloc_u :: "u32 \<Rightarrow> heap \<Rightarrow> (u32 \<times> heap) res" where
  "malloc_u bytes h =
     (if bytes = 0 then Inr (hbase h, h)
      else (case malloc_loop_u (ints_for_u bytes) (avail h) 0 h of
              None \<Rightarrow> Inl Diverges
            | Some r \<Rightarrow> Inr r))"

text \<open>Here the index is computed with the signed type \<^verbatim>\<open>long\<close>.\<close>

definition index_of_u :: "heap \<Rightarrow> u32 \<Rightarrow> int" where
  "index_of_u h p = sint (p - hbase h) sdiv 4 - 1"

definition free_u :: "u32 \<Rightarrow> heap \<Rightarrow> heap res" where
  "free_u p h =
     (if p = 0 then Inr h
      else if p = hbase h then Inr h
      else
        (let idx = index_of_u h p
         in if \<not> isTaken_u h idx then Inr h
            else
              (let sz = size_u h idx;
                   leftIndex = left_u h idx;
                   rightIndex = right_u h idx;
                   (idx1, sz1, h1) =
                     (if isAvail_u h leftIndex then
                        (let h1 = remove_u leftIndex h in (leftIndex, sz + size_u h1 leftIndex, h1))
                      else (idx, sz, h));
                   (sz2, h2) =
                     (if isAvail_u h1 rightIndex then
                        (let h2 = remove_u rightIndex h1 in (sz1 + size_u h2 rightIndex, h2))
                      else (sz1, h1))
               in Inr (makeAvail_u idx1 sz2 h2))))"

text \<open>The bytes of the array, little-endian, and the copy loop of \<^verbatim>\<open>machine.S\<close>, whose counter
  is signed.\<close>

definition load_byte :: "heap \<Rightarrow> u32 \<Rightarrow> u8" where
  "load_byte h a =
     (let off = uint (a - hbase h)
      in ucast (drop_bit (8 * nat (off mod 4)) (word_of_int (arr h (off div 4)) :: u32)))"

definition store_byte :: "u32 \<Rightarrow> u8 \<Rightarrow> heap \<Rightarrow> heap" where
  "store_byte a b h =
     (let off = uint (a - hbase h);
          n = 8 * nat (off mod 4);
          w = (word_of_int (arr h (off div 4)) :: u32)
      in h\<lparr>arr := (arr h)(off div 4 :=
             sint ((w AND NOT (push_bit n 0xFF)) OR push_bit n (ucast b)))\<rparr>)"

fun memcpy_loop :: "nat \<Rightarrow> u32 \<Rightarrow> u32 \<Rightarrow> heap \<Rightarrow> heap" where
  "memcpy_loop 0 dest src h = h"
| "memcpy_loop (Suc n) dest src h =
     memcpy_loop n (dest + 1) (src + 1) (store_byte dest (load_byte h src) h)"

definition memcpy_u :: "u32 \<Rightarrow> u32 \<Rightarrow> u32 \<Rightarrow> heap \<Rightarrow> heap" where
  "memcpy_u dest src n h = memcpy_loop (nat (sint n)) dest src h"

text \<open>How many bytes \<^verbatim>\<open>realloc\<close> copies: \<open>s\<close> is the size of the old block in words, tags included.\<close>

definition copy_len :: "int \<Rightarrow> u32 \<Rightarrow> u32" where
  "copy_len s newSize =
     (if (word_of_int (s * 4) :: u32) < newSize then word_of_int (s * 4) else newSize)"

definition realloc_u :: "u32 \<Rightarrow> u32 \<Rightarrow> heap \<Rightarrow> (u32 \<times> heap) res" where
  "realloc_u p newSize h =
     (if p = 0 then malloc_u newSize h
      else if newSize = 0 then rbind (free_u p h) (\<lambda>h1. Inr (0, h1))
      else
        (let idx = index_of_u h p
         in if \<not> isTaken_u h idx then Inr (0, h)
            else
              (let m = copy_len (size_u h idx) newSize
               in rbind (malloc_u newSize h) (\<lambda>(newPtr, h1).
                    let h2 = (if newPtr \<noteq> 0 then memcpy_u newPtr p m h1 else h1)
                    in rbind (free_u p h2) (\<lambda>h3. Inr (newPtr, h3))))))"

section \<open>The helpers are the kernel's\<close>

lemma sanity_u_id [simp]: "sanity_u h i = i"
  by (simp add: sanity_u_def Let_def)

lemma size_u_eq [simp]: "size_u = size_k"
  by (simp add: fun_eq_iff size_u_def size_k_def abs_u_def abs_k_def)

lemma taken_avail_u_eq [simp]: "isAvail_u = isAvail" "isTaken_u = isTaken"
  by (simp_all add: fun_eq_iff isAvail_u_def isAvail_def isTaken_u_def isTaken_def)

lemma footer_u_eq [simp]: "footerFromHeader_u = footerFromHeader" "headerFromFooter_u = headerFromFooter"
  by (simp_all add: fun_eq_iff footerFromHeader_u_def footerFromHeader_def
      headerFromFooter_u_def headerFromFooter_def)

lemma links_u_eq [simp]: "next_u = setNext" "prev_u = setPrev"
  by (simp_all add: fun_eq_iff next_u_def setNext_def prev_u_def setPrev_def)

lemma neighbours_u_eq:
  "left_k h i = Inr (left_u h i)" "right_k h i = Inr (right_u h i)"
  "next_k h i = Inr (next1 h i)" "prev_k h i = Inr (prev1 h i)"
  by (simp_all add: left_k_def left_u_def right_k_def right_u_def next_k_def next1_def
      prev_k_def prev1_def)

lemma remove_u_eq: "remove_k i h = Inr (remove_u i h)"
  by (simp add: remove_k_def remove_u_def neighbours_u_eq Let_def)

lemma make_u_eq [simp]: "makeAvail_u = makeAvail" "makeTaken_u = makeTaken"
  by (simp_all add: fun_eq_iff makeAvail_u_def makeAvail_def makeTaken_u_def makeTaken_def Let_def)

lemma ints_for_u_eq [simp]: "ints_for_u = ints_for"
  by (simp add: fun_eq_iff ints_for_u_def ints_for_def)

lemma take_u_eq:
  assumes "0 < arr h p"
  shows "(let h1 = remove_u p h; extra = size_k h p - ints
     in if 4 \<le> extra then makeAvail (p + ints) extra (makeTaken p ints h1)
        else makeTaken p (size_k h p) h1) = take_at p ints h"
proof -
  have "remove_u p h = h\<lparr>arr := unlink_arr (arr h) p, avail := unlink_head (arr h) (avail h) p\<rparr>"
    using remove_u_eq [of p h] unfolding remove_k_eq by simp
  then show ?thesis using assms by (simp add: take_at_def size_k_def Let_def)
qed


section \<open>malloc and free\<close>

lemma take_at_base [simp]: "hbase (take_at i ints h) = hbase h"
  by (simp add: take_at_def Let_def makeAvail_def makeTaken_def setNext_def setPrev_def)

text \<open>The first block of the list that fits is taken.\<close>

lemma malloc_loop_u_ok:
  assumes "dll (arr h) pr p ps" and "\<forall>x\<in>set ps. 0 < arr h x \<and> addr_of h (x + 1) \<noteq> 0"
  shows "(\<forall>x\<in>set ps. arr h x < ints) \<and> malloc_loop_u ints p 0 h = Some (0, h) \<or>
    (\<exists>x xs ys. ps = xs @ x # ys \<and> (\<forall>y\<in>set xs. arr h y < ints) \<and> ints \<le> arr h x \<and>
       malloc_loop_u ints p 0 h = Some (addr_of h (x + 1), take_at x ints h))"
  using assms
proof (induction ps arbitrary: pr p)
  case Nil
  then show ?case by (simp add: malloc_loop_u.simps)
next
  case (Cons x xs)
  have px: "p = x" "x \<noteq> 0" "dll (arr h) x (arr h (x + 1)) xs" and pos: "0 < arr h x"
    using Cons.prems by auto
  show ?case
  proof (cases "ints \<le> arr h x")
    case True
    let ?h2 = "take_at x ints h"
    have nz: "addr_of ?h2 (x + 1) \<noteq> 0" "addr_of ?h2 (x + 1) = addr_of h (x + 1)"
      using Cons.prems(2) by (auto simp: addr_of_def)
    have "malloc_loop_u ints p 0 h = malloc_loop_u ints p (addr_of ?h2 (x + 1)) ?h2"
      using True px pos take_u_eq [OF pos, of ints]
      by (simp add: malloc_loop_u.simps [of ints x 0 h] size_k_def Let_def split: if_splits)
    also have "\<dots> = Some (addr_of h (x + 1), ?h2)"
      using nz by (simp add: malloc_loop_u.simps [of ints p "addr_of h (x + 1)" ?h2])
    finally show ?thesis using True by (intro disjI2 exI [of _ x] exI [of _ "[]"] exI [of _ xs]) simp
  next
    case False
    have eq: "malloc_loop_u ints p 0 h = malloc_loop_u ints (arr h (x + 1)) 0 h"
      using False px pos by (simp add: malloc_loop_u.simps [of ints x 0 h] size_k_def next1_def)
    have "\<forall>y\<in>set xs. 0 < arr h y \<and> addr_of h (y + 1) \<noteq> 0" using Cons.prems by simp
    from Cons.IH [OF px(3) this] show ?thesis
    proof (elim disjE exE conjE)
      fix y us vs assume "xs = us @ y # vs" "\<forall>z\<in>set us. arr h z < ints" "ints \<le> arr h y"
        "malloc_loop_u ints (arr h (x + 1)) 0 h = Some (addr_of h (y + 1), take_at y ints h)"
      then show ?thesis
        using eq False by (intro disjI2 exI [of _ y] exI [of _ "x # us"] exI [of _ vs]) auto
    qed (use eq False in auto)
  qed
qed

lemma malloc_u_ok:
  assumes h: "hrel h ms ps" and "bytes \<noteq> 0"
  defines "I \<equiv> ints_for bytes"
  obtains (refused) "malloc_u bytes h = Inr (0, h)" "\<forall>x\<in>set (frees 2 ms). arr h x < I"
  | (taken) us v ws where "ms = us @ v # ws" "I \<le> v" "4 \<le> I"
      "malloc_u bytes h = Inr (addr_of h (3 + extent us), take_at (2 + extent us) I h)"
proof -
  note hf = hrel_facts [OF h]
  have val: "\<exists>us v ws. ms = us @ v # ws \<and> 0 < v \<and> x = 2 + extent us \<and> arr h x = v \<and>
      addr_of h (x + 1) \<noteq> 0" if x: "x \<in> set ps" for x
  proof -
    from frees_split [of x 2 ms] x hf(5) obtain us v ws
      where s: "ms = us @ v # ws" "0 < v" "x = 2 + extent us" by blast
    have "arr h x = v" using hrel_at(1) h s by blast
    moreover have "addr_of h (x + 1) \<noteq> 0"
      by (rule index_of_addr_of(2))
        (use s hf(6-8) hf(2) extent_nonneg [of us] extent_nonneg [of ws] in auto)
    ultimately show ?thesis using s by blast
  qed
  have "\<forall>x\<in>set ps. 0 < arr h x \<and> addr_of h (x + 1) \<noteq> 0" using val by blast
  from malloc_loop_u_ok [OF grel_facts(4) [OF hf(1)] this, of I] show thesis
  proof (elim disjE exE conjE)
    fix x xs ys assume "ps = xs @ x # ys" "I \<le> arr h x"
      "malloc_loop_u I (avail h) 0 h = Some (addr_of h (x + 1), take_at x I h)"
    then show thesis
      using val [of x] taken assms(2) by (auto simp: malloc_u_def I_def ints_for_ge add.assoc)
  qed (use refused assms(2) hf(5) in \<open>auto simp: malloc_u_def I_def\<close>)
qed

text \<open>The signed index agrees with the kernel's on an array of at most two gigabytes.\<close>

lemma index_of_u_live:
  assumes "hrel h ms ps" and "hlen h \<le> 0x10000000" and "(i, s) \<in> set (live_blocks h)"
  shows "index_of_u h (addr_of h (i + 1)) = i"
proof -
  note lb = live_bounds [OF assms(1,3)]
  have u: "uint (addr_of h (i + 1)) = uint (hbase h) + 4 * (i + 1)"
    using uint_addr_of [of "i + 1" h] lb by simp
  then have "uint (addr_of h (i + 1) - hbase h) = 4 * (i + 1)" using lb by (simp add: uint_sub_if')
  moreover have "4 * (i + 1) < 2 ^ 31" using lb assms(2) by simp
  ultimately have "sint (addr_of h (i + 1) - hbase h) = 4 * (i + 1)"
    using lb by (simp add: sint_uint signed_take_bit_int_eq_self)
  then show ?thesis using lb by (simp add: index_of_u_def signed_divide_int_def)
qed

text \<open>On a taken block the two versions of \<^verbatim>\<open>free\<close> do the same.\<close>

lemma free_u_eq:
  assumes "index_of_u h p = index_of h p" and "isTaken h (index_of h p)"
  shows "free_k p h = free_u p h"
  using assms
  by (simp add: free_k_def free_u_def neighbours_u_eq remove_u_eq Let_def)

section \<open>The user heap is an allocator\<close>

definition uheap_inv :: "heap \<Rightarrow> bool" where
  "uheap_inv h \<longleftrightarrow> heap_inv h \<and> hlen h = INTS"

lemma malloc_u_live:
  assumes h: "hrel h ms ps" and "bytes \<noteq> 0" and m: "malloc_u bytes h = Inr (p, h')" and "p \<noteq> 0"
  obtains ms' ps' i s where "hrel h' ms' ps'" "ints_for bytes \<le> s"
    "p = addr_of h (i + 1)" "hbase h' = hbase h" "hlen h' = hlen h"
    "set (live_blocks h') = insert (i, s) (set (live_blocks h))"
    "\<forall>t. (i, t) \<notin> set (live_blocks h)"
    "same_taken (-2 # ms @ [-2]) (arr h) (arr h')"
proof (cases rule: malloc_u_ok [OF h assms(2)])
  case 1
  then show thesis using m assms(4) by simp
next
  case (2 us v ws)
  let ?I = "ints_for bytes" and ?i = "2 + extent us"
  have h': "h' = take_at ?i ?I h" and p: "p = addr_of h (?i + 1)" using 2(4) m by auto
  have hh: "hrel h (us @ v # ws) ps" using h 2(1) by simp
  show thesis
    by (rule take_at_live [OF hh 2(3,2)]) (rule that, unfold h' 2(1), use p in simp_all)
qed

lemma uheap_alloc_ok:
  assumes "uheap_inv h" and "bytes \<noteq> 0" and "malloc_u bytes h = Inr (p, h')"
  shows "p \<noteq> 0 \<Longrightarrow> uheap_inv h' \<and> p \<notin> live_ptrs h \<and> live_ptrs h' = insert p (live_ptrs h) \<and>
      (\<exists>k n. p = addr_of h k \<and> payload h' p = {k..<k + n} \<and> ints_for bytes \<le> n + 2 \<and>
         0 \<le> k \<and> k + n \<le> hlen h) \<and> hbase h' = hbase h"
    and "p = 0 \<Longrightarrow> h' = h \<and> (\<forall>x\<in>set (free_blocks h). arr h x < ints_for bytes)"
    and "q \<in> live_ptrs h \<Longrightarrow> payload h' q = payload h q \<and> (\<forall>k\<in>payload h q. arr h' k = arr h k)"
proof -
  from assms(1) obtain ms ps where h: "hrel h ms ps" and len: "hlen h = INTS"
    by (auto simp: heap_inv_def uheap_inv_def)
  have z: "h' = h \<and> (\<forall>x\<in>set (free_blocks h). arr h x < ints_for bytes)" if p0: "p = 0"
  proof (cases rule: malloc_u_ok [OF h assms(2)])
    case 1
    then show ?thesis using assms(3) hrel_free [OF h] by simp
  next
    case (2 us v ws)
    have hh: "hrel h (us @ v # ws) ps" using h 2(1) by simp
    have "addr_of h (2 + extent us + 1) \<noteq> 0"
      by (rule take_at_live [OF hh 2(3,2)]) (rule grown_ok(4) [OF hh _ refl])
    then show ?thesis using 2(4) assms(3) p0 by simp
  qed
  then show "p = 0 \<Longrightarrow> h' = h \<and> (\<forall>x\<in>set (free_blocks h). arr h x < ints_for bytes)" .
  have got: "uheap_inv h' \<and> p \<notin> live_ptrs h \<and> live_ptrs h' = insert p (live_ptrs h) \<and>
    (\<exists>k n. p = addr_of h k \<and> payload h' p = {k..<k + n} \<and> ints_for bytes \<le> n + 2 \<and>
       0 \<le> k \<and> k + n \<le> hlen h) \<and> hbase h' = hbase h \<and>
    (\<forall>q\<in>live_ptrs h. payload h' q = payload h q \<and> (\<forall>k\<in>payload h q. arr h' k = arr h k))"
    if "p \<noteq> 0"
  proof -
    from malloc_u_live [OF h assms(2,3) that]
    obtain ms' ps' i s where M: "hrel h' ms' ps'" "p = addr_of h (i + 1)" "hbase h' = hbase h"
      "set (live_blocks h') = insert (i, s) (set (live_blocks h))"
      "\<forall>t. (i, t) \<notin> set (live_blocks h)" "same_taken (-2 # ms @ [-2]) (arr h) (arr h')"
      and l: "hlen h' = hlen h" "ints_for bytes \<le> s" by metis
    have "0 \<le> i + 1 \<and> i + 1 + (s - 2) \<le> hlen h"
      using live_bounds(1-3) [OF M(1), of i s] M(4) l(1) by simp
    then have "\<exists>k n. p = addr_of h k \<and> payload h' p = {k..<k + n} \<and> ints_for bytes \<le> n + 2 \<and>
        0 \<le> k \<and> k + n \<le> hlen h"
      using grown_ok(5) [OF h M] M(2) l(2) by (intro exI [of _ "i + 1"] exI [of _ "s - 2"]) simp
    then show ?thesis using grown_ok(1,2,3,6) [OF h M] M(3) l(1) len unfolding uheap_inv_def by simp
  qed
  then show "p \<noteq> 0 \<Longrightarrow> uheap_inv h' \<and> p \<notin> live_ptrs h \<and> live_ptrs h' = insert p (live_ptrs h) \<and>
      (\<exists>k n. p = addr_of h k \<and> payload h' p = {k..<k + n} \<and> ints_for bytes \<le> n + 2 \<and>
         0 \<le> k \<and> k + n \<le> hlen h) \<and> hbase h' = hbase h"
    by blast
  show "q \<in> live_ptrs h \<Longrightarrow> payload h' q = payload h q \<and> (\<forall>k\<in>payload h q. arr h' k = arr h k)"
    using got z by (cases "p = 0") auto
qed

lemma malloc_u_total:
  assumes "uheap_inv h"
  shows "\<exists>p h'. malloc_u bytes h = Inr (p, h')"
proof (cases "bytes = 0")
  case True
  then show ?thesis by (simp add: malloc_u_def)
next
  case False
  from assms obtain ms ps where h: "hrel h ms ps" by (auto simp: heap_inv_def uheap_inv_def)
  show ?thesis by (cases rule: malloc_u_ok [OF h False]) auto
qed

lemma uheap_release_ok:
  assumes "uheap_inv h" and "p \<in> live_ptrs h"
  shows "\<exists>h'. free_u p h = Inr h' \<and> uheap_inv h' \<and> live_ptrs h' = live_ptrs h - {p} \<and>
    (\<forall>q\<in>live_ptrs h'. payload h' q = payload h q \<and> (\<forall>k\<in>payload h q. arr h' k = arr h k)) \<and>
    isTaken_u h (index_of_u h p) \<and> hbase h' = hbase h"
proof -
  from assms obtain ms ps i s where h: "hrel h ms ps" and len: "hlen h = INTS"
    and t: "(i, s) \<in> set (live_blocks h)" "p = addr_of h (i + 1)"
    by (auto simp: heap_inv_def uheap_inv_def live_ptrs_def)
  have iu: "index_of_u h p = i"
    using index_of_u_live [OF h _ t(1)] len t(2) by (simp add: INTS_def)
  have ik: "index_of h p = i"
    using index_of_addr_of(1) [of i h] live_bounds [OF h t(1)] t(2) by simp
  obtain us ws where ms: "ms = us @ - s # ws" "0 < s" "i = 2 + extent us"
    using takens_split [of i s 2 ms] t(1) hrel_live [OF h] by auto
  then have tk: "isTaken h i" using hrel_at(1) [of h us "- s" ws ps] h by (simp add: isTaken_def)
  have eq: "free_u p h = free_k p h" using free_u_eq [of h p] iu ik tk by simp
  obtain h' where "free_k p h = Inr h'" "hlen h' = hlen h" "hbase h' = hbase h"
    by (rule free_k_live [OF h t(1)]) (use that t(2) in blast)
  then show ?thesis
    using heap_release_ok [of h p] assms len eq tk iu unfolding uheap_inv_def by auto
qed

lemma uheap_put_ok:
  assumes "uheap_inv h" and "k \<in> payload h p"
  shows "uheap_inv (put_word k x h)" "live_ptrs (put_word k x h) = live_ptrs h"
    "payload (put_word k x h) q = payload h q"
  using heap_put_ok [of h k p x] assms by (simp_all add: uheap_inv_def put_word_def)

interpretation uh: allocator malloc_u free_u "\<lambda>bytes. bytes \<noteq> 0" uheap_inv live_ptrs payload arr put_word
proof unfold_locales
  show "uheap_inv s' \<and> p \<notin> live_ptrs s \<and> live_ptrs s' = insert p (live_ptrs s)"
    if "uheap_inv s" "r \<noteq> 0" "malloc_u r s = Inr (p, s')" "p \<noteq> 0" for s r p s'
    using uheap_alloc_ok(1) [OF that] by blast
  show "s' = s" if "uheap_inv s" "r \<noteq> 0" "malloc_u r s = Inr (0, s')" for s r s'
    using uheap_alloc_ok(2) [OF that] by blast
  show "payload s' q = payload s q \<and> (\<forall>k\<in>payload s q. arr s' k = arr s k)"
    if "uheap_inv s" "r \<noteq> 0" "malloc_u r s = Inr (p, s')" "q \<in> live_ptrs s" for s r p s' q
    using uheap_alloc_ok(3) that .
  show "\<exists>s'. free_u p s = Inr s' \<and> uheap_inv s' \<and> live_ptrs s' = live_ptrs s - {p}"
    if "uheap_inv s" "p \<in> live_ptrs s" for s p
    using uheap_release_ok [OF that] by blast
  show "payload s' q = payload s q \<and> (\<forall>k\<in>payload s q. arr s' k = arr s k)"
    if "uheap_inv s" "p \<in> live_ptrs s" "free_u p s = Inr s'" "q \<in> live_ptrs s" "q \<noteq> p" for s p s' q
    using uheap_release_ok [OF that(1,2)] that(3-5) by fastforce
  show "uheap_inv (put_word k v s) \<and> live_ptrs (put_word k v s) = live_ptrs s \<and>
      (\<forall>q. payload (put_word k v s) q = payload s q)"
    if "uheap_inv s" "p \<in> live_ptrs s" "k \<in> payload s p" for s p k v
    using uheap_put_ok [OF that(1,3)] by blast
  show "arr (put_word k v s) j = (if j = k then v else arr s j)" for k v s j
    by (simp add: put_word_def)
qed (use heap_spans_disjoint heap_null_not_live in \<open>auto simp: uheap_inv_def\<close>)

section \<open>realloc\<close>

lemma byte_of_store:
  fixes w :: u32 and b :: u8
  assumes "j < 4" and "j' < 4"
  shows "(ucast (drop_bit (8 * j') ((w AND NOT (push_bit (8 * j) 0xFF)) OR push_bit (8 * j) (ucast b))) :: u8) =
    (if j' = j then b else ucast (drop_bit (8 * j') w))"
proof (rule bit_word_eqI)
  fix n :: nat assume n: "n < LENGTH(8)"
  have ff: "bit (0xFF :: int) m \<longleftrightarrow> m < 8" for m
    using bit_mask_iff [of 8 m, where 'a = int] by (simp add: mask_eq_exp_minus_1)
  consider "j' = j" | "j' < j" | "j < j'" by linarith
  then show "bit (ucast (drop_bit (8 * j') ((w AND NOT (push_bit (8 * j) 0xFF)) OR push_bit (8 * j) (ucast b))) :: u8) n =
    bit (if j' = j then b else ucast (drop_bit (8 * j') w)) n"
    using n assms
    by cases (auto simp: bit_ucast_iff bit_drop_bit_eq bit_or_iff bit_and_iff bit_not_iff
        bit_push_bit_iff ff dest: bit_imp_le_length)
qed

lemma load_store_byte:
  "load_byte (store_byte a b h) a' = (if a' = a then b else load_byte h a')"
proof -
  let ?o = "\<lambda>x. uint (x - hbase h)" and ?h' = "store_byte a b h"
  have base: "hbase ?h' = hbase h" by (simp add: store_byte_def Let_def)
  have inj: "?o a' = ?o a \<longleftrightarrow> a' = a" by (simp add: word_uint_eq_iff [symmetric])
  show ?thesis
  proof (cases "?o a' div 4 = ?o a div 4")
    case False
    then have "arr ?h' (?o a' div 4) = arr h (?o a' div 4)" by (simp add: store_byte_def Let_def)
    then show ?thesis using False base by (auto simp: load_byte_def)
  next
    case True
    let ?j = "nat (?o a mod 4)" and ?j' = "nat (?o a' mod 4)"
    have jj: "?j' = ?j \<longleftrightarrow> a' = a"
    proof
      assume "?j' = ?j"
      then have "?o a' mod 4 = ?o a mod 4" by (simp add: eq_nat_nat_iff)
      with True have "?o a' = ?o a"
        using div_mult_mod_eq [of "?o a'" 4] div_mult_mod_eq [of "?o a" 4] by linarith
      then show "a' = a" using inj by simp
    qed simp
    have j: "?j < 4" "?j' < 4" by (simp_all add: nat_less_iff)
    let ?w = "word_of_int (arr h (?o a div 4)) :: u32"
    have "word_of_int (arr ?h' (?o a' div 4)) =
        (?w AND NOT (push_bit (8 * ?j) 0xFF)) OR push_bit (8 * ?j) (ucast b)"
      unfolding True by (simp add: store_byte_def Let_def)
    then have "load_byte ?h' a' = (if ?j' = ?j then b else ucast (drop_bit (8 * ?j') ?w))"
      unfolding load_byte_def base Let_def using byte_of_store [OF j, of ?w b] by simp
    moreover have "load_byte h a' = ucast (drop_bit (8 * ?j') ?w)"
      unfolding load_byte_def Let_def True ..
    ultimately show ?thesis unfolding jj by simp
  qed
qed

lemma store_byte_put:
  "\<exists>x. store_byte a b h = put_word (uint (a - hbase h) div 4) x h"
  by (auto simp: store_byte_def put_word_def Let_def)

text \<open>The copy loop: with disjoint ranges, the destination gets the source's bytes.\<close>

lemma memcpy_loop_bytes:
  assumes "\<And>i j. i < n \<Longrightarrow> j < n \<Longrightarrow> dest + of_nat i \<noteq> src + of_nat j"
    and "n < 2 ^ 32"
  shows "(\<forall>i<n. load_byte (memcpy_loop n dest src h) (dest + of_nat i) = load_byte h (src + of_nat i)) \<and>
    (\<forall>a. (\<forall>i<n. a \<noteq> dest + of_nat i) \<longrightarrow> load_byte (memcpy_loop n dest src h) a = load_byte h a)"
  using assms
proof (induction n arbitrary: dest src h)
  case (Suc n)
  let ?h1 = "store_byte dest (load_byte h src) h"
  have shift: "x + 1 + of_nat i = x + of_nat (Suc i)" for x :: u32 and i by (simp add: algebra_simps)
  have ap: "dest + 1 + of_nat i \<noteq> src + 1 + of_nat j" if "i < n" "j < n" for i j
    unfolding shift using that by (intro Suc.prems(1)) auto
  have n: "n < 2 ^ 32" using Suc.prems(2) by simp
  note IH = Suc.IH [OF ap n, of ?h1]
  have nd: "dest + 1 + of_nat i \<noteq> dest" if "i < n" for i
  proof
    assume "dest + 1 + of_nat i = dest"
    then have "(of_nat (Suc i) :: u32) = 0" by (simp add: algebra_simps)
    then have "2 ^ 32 dvd Suc i" by (simp add: word_of_nat_eq_0_iff del: of_nat_Suc)
    then show False using that Suc.prems(2) by (auto dest: dvd_imp_le)
  qed
  have s: "src + 1 + of_nat i \<noteq> dest" if "i < n" for i
    using Suc.prems(1) [of 0 "Suc i"] that by (simp add: algebra_simps)
  show ?case
  proof (intro conjI allI impI)
    fix i assume i: "i < Suc n"
    show "load_byte (memcpy_loop (Suc n) dest src h) (dest + of_nat i) = load_byte h (src + of_nat i)"
    proof (cases i)
      case 0
      have "load_byte (memcpy_loop n (dest + 1) (src + 1) ?h1) dest = load_byte ?h1 dest"
        using IH nd by (auto dest!: spec [of _ dest])
      then show ?thesis using 0 by (simp add: load_store_byte)
    next
      case (Suc k)
      then have "k < n" using i by simp
      then have "load_byte (memcpy_loop n (dest + 1) (src + 1) ?h1) (dest + 1 + of_nat k) =
          load_byte ?h1 (src + 1 + of_nat k)" using IH by blast
      then show ?thesis using Suc s [OF \<open>k < n\<close>] by (simp add: load_store_byte algebra_simps)
    qed
  next
    fix a assume a: "\<forall>i<Suc n. a \<noteq> dest + of_nat i"
    have "a \<noteq> dest + 1 + of_nat i" if "i < n" for i
      using a [rule_format, of "Suc i"] that by (simp add: algebra_simps)
    then have "load_byte (memcpy_loop n (dest + 1) (src + 1) ?h1) a = load_byte ?h1 a"
      using IH by blast
    moreover have "a \<noteq> dest" using a [rule_format, of 0] by simp
    ultimately show "load_byte (memcpy_loop (Suc n) dest src h) a = load_byte h a"
      by (simp add: load_store_byte)
  qed
qed simp

lemma off_byte:
  assumes "0 \<le> k" and "4 * k + int i < 2 ^ 32"
  shows "uint (addr_of h k + of_nat i - hbase h) = 4 * k + int i"
proof -
  have "addr_of h k + of_nat i - hbase h = word_of_int (4 * k + int i)"
    by (simp add: addr_of_def)
  then have "uint (addr_of h k + of_nat i - hbase h) = uint (word_of_int (4 * k + int i) :: u32)"
    by (rule arg_cong)
  also have "\<dots> = 4 * k + int i" using assms by (simp only: uint_word_of_int) simp
  finally show ?thesis .
qed

text \<open>Copying into the payload of a live object is a sequence of writes of its owner.\<close>

lemma memcpy_loop_put:
  assumes "uheap_inv h" and "\<forall>i<n. uint (dest + of_nat i - hbase h) div 4 \<in> payload h q"
  shows "uheap_inv (memcpy_loop n dest src h) \<and> live_ptrs (memcpy_loop n dest src h) = live_ptrs h \<and>
    (\<forall>r. payload (memcpy_loop n dest src h) r = payload h r) \<and>
    hbase (memcpy_loop n dest src h) = hbase h \<and> hlen (memcpy_loop n dest src h) = hlen h \<and>
    (\<forall>k. k \<notin> payload h q \<longrightarrow> arr (memcpy_loop n dest src h) k = arr h k)"
  using assms
proof (induction n arbitrary: dest src h)
  case (Suc n)
  let ?k = "uint (dest - hbase h) div 4" and ?h1 = "store_byte dest (load_byte h src) h"
  obtain x where x: "?h1 = put_word ?k x h" using store_byte_put by blast
  have k: "?k \<in> payload h q" using Suc.prems(2) [rule_format, of 0] by simp
  note ok = uheap_put_ok [OF Suc.prems(1) k, of x, folded x]
  have "uint (dest + 1 + of_nat i - hbase ?h1) div 4 \<in> payload ?h1 q" if "i < n" for i
    using Suc.prems(2) [rule_format, of "Suc i"] that ok(3)
    by (simp add: x put_word_def algebra_simps)
  from Suc.IH [OF ok(1)] this ok(2,3) k show ?case
    by (simp add: x put_word_def)
qed simp

lemma live_index_u:
  assumes "hrel h ms ps" and "hlen h = INTS" and "(i, s) \<in> set (live_blocks h)"
  shows "index_of_u h (addr_of h (i + 1)) = i" "isTaken_u h i" "size_u h i = s"
proof -
  show "index_of_u h (addr_of h (i + 1)) = i"
    by (rule index_of_u_live [OF assms(1) _ assms(3)]) (simp add: assms(2) INTS_def)
  obtain us ws where ms: "ms = us @ - s # ws" "0 < s" "i = 2 + extent us"
    using takens_split [of i s 2 ms] assms(3) hrel_live [OF assms(1)] by auto
  then have "arr h i = - s" using hrel_at(1) [of h us "- s" ws ps] assms(1) by simp
  then show "isTaken_u h i" "size_u h i = s" using ms(2) by (simp_all add: isTaken_def size_k_def)
qed

text \<open>The copy \<^verbatim>\<open>realloc\<close> makes: it may read the two words behind the old object (its footer
  and its neighbour's header), but it only writes inside the new one.\<close>

lemma copy_ok:
  assumes h: "hrel h ms ps" and inv: "uheap_inv h"
    and p: "(i, s) \<in> set (live_blocks h)" and q: "(j, t) \<in> set (live_blocks h)" and "i \<noteq> j"
    and m: "int m \<le> 4 * s" "int m \<le> 4 * (t - 2)"
  defines "P \<equiv> addr_of h (i + 1)" and "Q \<equiv> addr_of h (j + 1)"
  shows "uheap_inv (memcpy_loop m Q P h) \<and> live_ptrs (memcpy_loop m Q P h) = live_ptrs h"
    "\<forall>r. payload (memcpy_loop m Q P h) r = payload h r"
    "hbase (memcpy_loop m Q P h) = hbase h"
    "\<forall>k. k \<notin> payload h Q \<longrightarrow> arr (memcpy_loop m Q P h) k = arr h k"
    "\<forall>n<m. load_byte (memcpy_loop m Q P h) (Q + of_nat n) = load_byte h (P + of_nat n)"
proof -
  have len: "hlen h = INTS" using inv by (simp add: uheap_inv_def)
  note bp = live_bounds [OF h p] and bq = live_bounds [OF h q]
  have pq: "i + s \<le> j \<or> j + t \<le> i"
    using takens_disjoint [OF hrel_facts(3) [OF h], of i s 2 j t] p q assms(5) hrel_live [OF h] by auto
  have offP: "uint (P + of_nat n - hbase h) = 4 * (i + 1) + int n" if "int n < 4 * s" for n
    unfolding P_def by (rule off_byte) (use bp len that in \<open>auto simp: INTS_def\<close>)
  have offQ: "uint (Q + of_nat n - hbase h) = 4 * (j + 1) + int n" if "int n < 4 * (t - 2)" for n
    unfolding Q_def by (rule off_byte) (use bq len that in \<open>auto simp: INTS_def\<close>)
  have "\<forall>n<m. uint (Q + of_nat n - hbase h) div 4 \<in> payload h Q"
    using payload_live [OF h q] m offQ by (auto simp: Q_def)
  from memcpy_loop_put [OF inv this, of P] show "uheap_inv (memcpy_loop m Q P h) \<and> live_ptrs (memcpy_loop m Q P h) = live_ptrs h"
    "\<forall>r. payload (memcpy_loop m Q P h) r = payload h r" "hbase (memcpy_loop m Q P h) = hbase h"
    "\<forall>k. k \<notin> payload h Q \<longrightarrow> arr (memcpy_loop m Q P h) k = arr h k" by blast+
  have "Q + of_nat a \<noteq> P + of_nat b" if "a < m" "b < m" for a b
  proof
    assume "Q + of_nat a = P + of_nat b"
    then have "4 * (j + 1) + int a = 4 * (i + 1) + int b"
      using offP [of b] offQ [of a] that m by simp
    then show False using pq that m by auto
  qed
  moreover have "int m < 2 ^ 32" using m(1) bp(1,3) len by (simp add: INTS_def)
  then have "m < 2 ^ 32" by simp
  ultimately show "\<forall>n<m. load_byte (memcpy_loop m Q P h) (Q + of_nat n) = load_byte h (P + of_nat n)"
    using memcpy_loop_bytes [of m Q P h] by blast
qed


lemma load_byte_cong:
  "hbase h' = hbase h \<Longrightarrow> arr h' (uint (a - hbase h) div 4) = arr h (uint (a - hbase h) div 4) \<Longrightarrow>
     load_byte h' a = load_byte h a"
  by (simp add: load_byte_def Let_def)

text \<open>The call with its allocation refused, and with its allocation granted.\<close>

lemma realloc_refused:
  assumes "uheap_inv h" and "p \<in> live_ptrs h" and "newSize \<noteq> 0" and m: "malloc_u newSize h = Inr (0, h1)"
  shows "\<exists>h'. realloc_u p newSize h = Inr (0, h') \<and> uheap_inv h' \<and> live_ptrs h' = live_ptrs h - {p} \<and>
    (\<forall>r\<in>live_ptrs h - {p}. payload h' r = payload h r \<and> (\<forall>k\<in>payload h r. arr h' k = arr h k))"
proof -
  have h1: "h1 = h" using uheap_alloc_ok(2) [OF assms(1,3) m] by blast
  have "p \<noteq> 0" using assms(1,2) uh.null_not_live by blast
  then show ?thesis
    using uheap_release_ok [OF assms(1,2)] assms(3) m h1
    by (auto simp: realloc_u_def Let_def simp del: taken_avail_u_eq)
qed

lemma copy_count:
  assumes "0 \<le> s" and "4 * s < 2 ^ 31"
  shows "int (nat (sint (copy_len s n))) = min (uint n) (4 * s)"
proof -
  have "uint (word_of_int (s * 4) :: u32) = 4 * s"
    using assms by (simp only: uint_word_of_int) simp
  then have u: "uint (copy_len s n) = min (uint n) (4 * s)"
    unfolding copy_len_def by (auto simp: word_less_def simp del: of_int_mult)
  then have "uint (copy_len s n) < 2 ^ 31" using assms by simp
  then have "sint (copy_len s n) = uint (copy_len s n)"
    by (simp add: sint_uint signed_take_bit_int_eq_self order_trans [OF _ uint_ge_0])
  then show ?thesis using u assms by simp
qed

lemma realloc_granted:
  assumes inv: "uheap_inv h" and p: "p \<in> live_ptrs h" and "newSize \<noteq> 0"
    and room: "uint newSize \<le> 2 ^ 32 - 4"
    and m: "malloc_u newSize h = Inr (q, h1)" and q0: "q \<noteq> 0"
  shows "\<exists>h'. realloc_u p newSize h = Inr (q, h') \<and> uheap_inv h' \<and>
    q \<notin> live_ptrs h \<and> live_ptrs h' = insert q (live_ptrs h - {p}) \<and>
    (\<forall>n. int n < uint newSize \<longrightarrow> int n < 4 * int (card (payload h p)) \<longrightarrow>
       load_byte h' (q + of_nat n) = load_byte h (p + of_nat n)) \<and>
    (\<forall>r\<in>live_ptrs h - {p}. payload h' r = payload h r \<and> (\<forall>k\<in>payload h r. arr h' k = arr h k))"
proof -
  from inv obtain ms ps where h: "hrel h ms ps" and len: "hlen h = INTS"
    by (auto simp: heap_inv_def uheap_inv_def)
  from p obtain i s where P: "(i, s) \<in> set (live_blocks h)" "p = addr_of h (i + 1)"
    by (auto simp: live_ptrs_def)
  from malloc_u_live [OF h assms(3) m q0] obtain ms1 ps1 j t where
    M: "hrel h1 ms1 ps1" "q = addr_of h (j + 1)" "hbase h1 = hbase h"
      "set (live_blocks h1) = insert (j, t) (set (live_blocks h))"
      "\<forall>t. (j, t) \<notin> set (live_blocks h)" "same_taken (-2 # ms @ [-2]) (arr h) (arr h1)"
    and t: "ints_for newSize \<le> t" and len1: "hlen h1 = hlen h" by metis
  note g = grown_ok [OF h M]
  have P1: "p = addr_of h1 (i + 1)" "q = addr_of h1 (j + 1)" using P(2) M(2) same_base [OF M(3)] by simp_all
  have L1: "(i, s) \<in> set (live_blocks h1)" "(j, t) \<in> set (live_blocks h1)" using P(1) M(4) by auto
  have ij: "i \<noteq> j" using P(1) M(5) by auto
  note lb = live_bounds [OF h P(1)]
  let ?len = "nat (sint (copy_len s newSize))"
  have m4: "int ?len = min (uint newSize) (4 * s)"
    by (rule copy_count) (use lb len in \<open>simp_all add: INTS_def\<close>)
  let ?h2 = "memcpy_loop ?len q p h1"
  have ci: "int ?len \<le> 4 * s" "int ?len \<le> 4 * (t - 2)"
    using m4 ints_for_room [OF room] t by auto
  have inv1: "uheap_inv h1" using hrel_inv [OF M(1)] len len1 by (simp add: uheap_inv_def)
  note c = copy_ok [OF M(1) inv1 L1 ij ci, folded P1]
  have lp2: "live_ptrs ?h2 = insert q (live_ptrs h)" using c(1) g(3) by simp
  have inv2: "uheap_inv ?h2" using c(1) by simp
  have pin: "p \<in> live_ptrs ?h2" "q \<in> live_ptrs ?h2 - {p}" using lp2 p g(2) by auto
  from uheap_release_ok [OF inv2 pin(1)] obtain h3 where F: "free_u p ?h2 = Inr h3" "uheap_inv h3"
    "live_ptrs h3 = live_ptrs ?h2 - {p}" "hbase h3 = hbase ?h2"
    "\<forall>r\<in>live_ptrs h3. payload h3 r = payload ?h2 r \<and> (\<forall>k\<in>payload ?h2 r. arr h3 k = arr ?h2 k)"
    by blast
  note ix = live_index_u [OF h len P(1)]
  have eq: "realloc_u p newSize h = Inr (q, h3)"
  proof -
    have "p \<noteq> 0" using inv p uh.null_not_live by blast
    then show ?thesis
      using assms(3) m q0 ix P(2) F(1)
      by (simp add: realloc_u_def memcpy_u_def Let_def
          del: rbind_eq_Inr split del: if_split)
  qed
  have cpy: "load_byte h3 (q + of_nat n) = load_byte h (p + of_nat n)"
    if n: "int n < uint newSize" "int n < 4 * int (card (payload h p))" for n
  proof -
    have np: "int n < 4 * (s - 2)" using payload_live [OF h P(1)] P(2) n(2) lb by simp
    have "int n < int ?len" unfolding m4 using n np by simp
    then have "n < ?len" by (simp only: of_nat_less_iff)
    then have b2: "load_byte ?h2 (q + of_nat n) = load_byte h1 (p + of_nat n)" using c(5) by blast
    have oq: "uint (q + of_nat n - hbase ?h2) div 4 \<in> payload ?h2 q"
    proof -
      note lb1 = live_bounds [OF M(1) L1(2)]
      have "int n < 4 * (t - 2)" by (rule less_le_trans [OF \<open>int n < int ?len\<close> ci(2)])
      moreover have "uint (q + of_nat n - hbase h1) = 4 * (j + 1) + int n"
        unfolding P1(2) by (rule off_byte) (use lb1 len len1 calculation in \<open>auto simp: INTS_def\<close>)
      ultimately show ?thesis using c(2,3) payload_live [OF M(1) L1(2)] P1(2) by auto
    qed
    have b3: "load_byte h3 (q + of_nat n) = load_byte ?h2 (q + of_nat n)"
      using F(5) F(3) pin(2) oq by (intro load_byte_cong [OF F(4)]) auto
    have "uint (p + of_nat n - hbase h) = 4 * (i + 1) + int n"
      unfolding P(2) by (rule off_byte) (use lb len np in \<open>auto simp: INTS_def\<close>)
    then have "uint (p + of_nat n - hbase h) div 4 \<in> payload h p"
      using payload_live [OF h P(1)] P(2) np by auto
    then have "load_byte h1 (p + of_nat n) = load_byte h (p + of_nat n)"
      using g(6) p by (intro load_byte_cong [OF M(3)]) auto
    then show ?thesis using b2 b3 by simp
  qed
  have frame: "payload h3 r = payload h r \<and> (\<forall>k\<in>payload h r. arr h3 k = arr h k)"
    if r: "r \<in> live_ptrs h - {p}" for r
  proof -
    have r1: "r \<in> live_ptrs h1" "r \<noteq> q" "r \<in> live_ptrs h3" using r g(2,3) F(3) lp2 by auto
    have "payload h1 r \<inter> payload h1 q = {}"
      by (rule heap_spans_disjoint) (use hrel_inv [OF M(1)] r1 g(3) in auto)
    then have "\<forall>k\<in>payload h1 r. arr ?h2 k = arr h1 k" using c(4) by blast
    then show ?thesis using F(5) r1(3) c(2) g(6) r by auto
  qed
  show ?thesis using eq F(2,3) lp2 g(2) cpy frame pin p by (intro exI [of _ h3]) auto
qed


section \<open>Correctness\<close>

lemma heap_init_u_hrel:
  assumes "0 < uint base" and "uint base + 4 * INTS \<le> 2 ^ 32"
  shows "hrel (heap_init_u (static_heap base)) [INTS - 4] [2]"
    and "uheap_inv (heap_init_u (static_heap base))"
    and "live_ptrs (heap_init_u (static_heap base)) = {}"
proof -
  have "heap_init_u (static_heap base) = heap_layout base 0x400000 (static_heap base)"
    by (simp add: heap_init_u_def heap_layout_def static_heap_def INTS_def Let_def
        makeAvail_eq makeTaken_eq)
  then show h: "hrel (heap_init_u (static_heap base)) [INTS - 4] [2]"
    using heap_layout_hrel [of "static_heap base" base "0x400000"] assms
    by (simp add: static_heap_def INTS_def)
  then show "uheap_inv (heap_init_u (static_heap base))"
    using hrel_inv [OF h] hrel_facts(8) [OF h] by (simp add: uheap_inv_def INTS_def)
  show "live_ptrs (heap_init_u (static_heap base)) = {}"
    by (simp add: live_ptrs_def hrel_live [OF h] INTS_def)
qed

text \<open>While only the last block is available, a request it has room for is carved off it.\<close>

lemma malloc_u_last:
  assumes h: "hrel h (us @ [v]) ps" and "\<forall>u\<in>set us. u < 0" and "bytes \<noteq> 0"
    and room: "ints_for bytes + 4 \<le> v"
  obtains p h' ps' where "malloc_u bytes h = Inr (p, h')" "p \<noteq> 0"
    "hrel h' (us @ [- ints_for bytes, v - ints_for bytes]) ps'"
proof -
  let ?I = "ints_for bytes" and ?i = "2 + extent us"
  have v: "0 < v" using room ints_for_ge [of bytes] by simp
  have arr: "arr h ?i = v" using hrel_at(1) [of h us v "[]" ps] h by simp
  have mem: "?i \<in> set (frees 2 (us @ [v]))" using v by (simp add: frees_append)
  show thesis
  proof (cases rule: malloc_u_ok [OF h assms(3)])
    case 1
    then have False using mem arr room by fastforce
    then show thesis ..
  next
    case (2 us' w ws)
    have "0 < w" using 2(2,3) by simp
    then have eq: "us' = us" "w = v" "ws = []"
      using 2(1) assms(2) by (auto simp: append_eq_append_conv2 Cons_eq_append_conv append_eq_Cons_conv)
    have nz: "addr_of h (?i + 1) \<noteq> 0"
      using index_of_addr_of(2) [of ?i h] hrel_facts(6,7,8) [OF h] 2(2,3) eq extent_nonneg [of us]
      by simp
    obtain ps' where "hrel (take_at ?i ?I h) (us @ carve ?I v @ []) ps'"
      using take_at_ok(1) [of h us v "[]" ps ?I] h 2(2,3) eq by auto
    then show thesis using that [OF 2(4)] nz eq room by (auto simp: carve_def add.assoc)
  qed
qed

text \<open>C4: the history of a user program over its heap: from \<^verbatim>\<open>heap_init\<close> on, whatever the
  order of its calls and writes, the heap stays in order, its live pointers are those the
  program holds, every one of them can be freed, and a write through one of them changes no
  word of another.\<close>

theorem user_heap_history:
  assumes "client_run malloc_u free_u (\<lambda>bytes. bytes \<noteq> 0) payload put_word
      (heap_init_u (static_heap base)) held h"
    and "0 < uint base" and "uint base + 4 * INTS \<le> 2 ^ 32"
  shows "uheap_inv h \<and> live_ptrs h = held \<and> 0 \<notin> held \<and>
    (\<forall>p\<in>held. \<exists>h'. free_u p h = Inr h') \<and>
    (\<forall>p\<in>held. \<forall>q\<in>held. p \<noteq> q \<longrightarrow>
       (\<forall>k\<in>payload h p. \<forall>j\<in>payload h q. \<forall>x. arr (put_word k x h) j = arr h j))"
proof -
  note run = assms(1) heap_init_u_hrel(2,3) [OF assms(2,3)]
  show ?thesis
    using uh.run_invar [OF run] uh.run_can_free [OF run] uh.run_write_private [OF run]
      uh.null_not_live [of h] by blast
qed

lemma user_heap_history_witness:
  "\<exists>p q h1 h2 k h3. malloc_u 8 (heap_init_u (static_heap 0x1000)) = Inr (p, h1) \<and>
     malloc_u 100 h1 = Inr (q, h2) \<and> k \<in> payload h2 q \<and>
     free_u p (put_word k 7 h2) = Inr h3 \<and> uheap_inv h3 \<and> live_ptrs h3 = {q} \<and>
     arr h3 k = 7"
proof -
  let ?h0 = "heap_init_u (static_heap 0x1000)"
  let ?run = "client_run malloc_u free_u (\<lambda>bytes. bytes \<noteq> 0) payload put_word ?h0"
  have base: "0 < uint (0x1000 :: u32)" "uint (0x1000 :: u32) + 4 * INTS \<le> 2 ^ 32"
    by (simp_all add: INTS_def)
  note hist = user_heap_history [OF _ base]
  note h0 = heap_init_u_hrel [OF base]
  obtain p h1 ps where p: "malloc_u 8 ?h0 = Inr (p, h1)" "p \<noteq> 0" "hrel h1 ([- 4] @ [INTS - 8]) ps"
    by (rule malloc_u_last [of ?h0 "[]" "INTS - 4" "[2]" 8])
      (use h0(1) in \<open>auto simp: ints_for_def INTS_def\<close>)
  obtain q h2 where q: "malloc_u 100 h1 = Inr (q, h2)" "q \<noteq> 0"
    by (rule malloc_u_last [OF p(3)]) (auto simp: ints_for_def INTS_def)
  have r0: "?run {} ?h0" by (rule client_run.start)
  have r1: "?run {p} h1" using client_run.got [OF r0 _ p(1,2)] by simp
  have r2: "?run {q, p} h2" using client_run.got [OF r1 _ q] by simp
  have "live_ptrs h1 = {p}" "uheap_inv h1" using hist [OF r1] by simp_all
  then have pq: "p \<noteq> q" using uheap_alloc_ok(1) [OF _ _ q(1,2)] by auto
  have "\<exists>k n. payload h2 q = {k..<k + n} \<and> ints_for 100 \<le> n + 2"
    using uheap_alloc_ok(1) [OF \<open>uheap_inv h1\<close> _ q(1,2)] by auto
  then obtain k where k: "k \<in> payload h2 q" by (force simp: ints_for_def)
  let ?h2 = "put_word k 7 h2"
  have r3: "?run {q, p} ?h2" by (rule client_run.wrote [OF r2 _ k]) simp
  then obtain h3 where h3: "free_u p ?h2 = Inr h3" using hist by blast
  have "?run ({q, p} - {p}) h3" by (rule client_run.freed [OF r3 _ h3]) simp
  then have r4: "?run {q} h3" using pq by (simp add: insert_Diff_if)
  have "uheap_inv ?h2" "live_ptrs ?h2 = {q, p}" using hist [OF r3] by simp_all
  moreover have "k \<in> payload ?h2 q" using uheap_put_ok(3) [of h2 k q 7 q] hist [OF r2] k by simp
  ultimately have "arr h3 k = arr ?h2 k" using uheap_release_ok [of ?h2 p] h3 pq by auto
  then show ?thesis using p(1) q(1) k h3 hist [OF r4]
    by (intro exI [of _ p] exI [of _ q] exI [of _ h1] exI [of _ h2] exI [of _ k] exI [of _ h3])
      (simp add: put_word_def)
qed

text \<open>what the user's \<^verbatim>\<open>malloc\<close> does: it returns on every heap in order; on \<open>NULL\<close> no
  block of the list fits and nothing changed; otherwise it hands out a new object with room
  for the request, and no other object moves or changes.\<close>

theorem malloc_u_spec:
  assumes "uheap_inv h" and "bytes \<noteq> 0" and "uint bytes \<le> 2 ^ 32 - 4"
  shows "\<exists>p h'. malloc_u bytes h = Inr (p, h') \<and> uheap_inv h' \<and>
     (p = 0 \<longrightarrow> h' = h \<and> (\<forall>x\<in>set (free_blocks h). arr h x < ints_for_u bytes)) \<and>
     (p \<noteq> 0 \<longrightarrow> p \<notin> live_ptrs h \<and> live_ptrs h' = insert p (live_ptrs h) \<and>
        (\<exists>k n. p = addr_of h k \<and> payload h' p = {k..<k + n} \<and> uint bytes \<le> 4 * n)) \<and>
     (\<forall>q\<in>live_ptrs h. payload h' q = payload h q \<and> (\<forall>k\<in>payload h q. arr h' k = arr h k))"
proof -
  obtain p h' where m: "malloc_u bytes h = Inr (p, h')" using malloc_u_total [OF assms(1)] by blast
  note ok = uheap_alloc_ok [OF assms(1,2) m]
  have "uint bytes \<le> 4 * n" if "ints_for bytes \<le> n + 2" for n
    using ints_for_room [OF assms(3)] that by simp
  then have room: "p \<noteq> 0 \<Longrightarrow> \<exists>k n. p = addr_of h k \<and> payload h' p = {k..<k + n} \<and> uint bytes \<le> 4 * n"
    using ok(1) by blast
  show ?thesis
  proof (cases "p = 0")
    case True
    then show ?thesis using m ok assms(1) by auto
  next
    case False
    then show ?thesis using m ok(1,3) room by (intro exI [of _ p] exI [of _ h']) simp
  qed
qed

lemma malloc_u_spec_witness:
  "\<exists>p h'. malloc_u 13 (heap_init_u (static_heap 0x1000)) = Inr (p, h') \<and> uheap_inv h'"
  using malloc_u_spec [OF heap_init_u_hrel(2), of "0x1000" 13] by (auto simp: INTS_def)

text \<open>\<^verbatim>\<open>realloc\<close> of a live pointer to a non-zero size: if the new pointer is not \<open>NULL\<close> the
  old object is given up for a new one whose first bytes are the old object's, up to the
  smaller of the two sizes; if it is \<open>NULL\<close> the old object is given up all the same; every
  other object keeps its place and contents.\<close>

theorem realloc_u_spec:
  assumes "uheap_inv h" and "p \<in> live_ptrs h" and "newSize \<noteq> 0" and "uint newSize \<le> 2 ^ 32 - 4"
  shows "\<exists>q h'. realloc_u p newSize h = Inr (q, h') \<and> uheap_inv h' \<and>
    (q = 0 \<longrightarrow> live_ptrs h' = live_ptrs h - {p}) \<and>
    (q \<noteq> 0 \<longrightarrow> q \<notin> live_ptrs h \<and> live_ptrs h' = insert q (live_ptrs h - {p}) \<and>
      (\<forall>n. int n < uint newSize \<longrightarrow> int n < 4 * int (card (payload h p)) \<longrightarrow>
         load_byte h' (q + of_nat n) = load_byte h (p + of_nat n))) \<and>
    (\<forall>r\<in>live_ptrs h - {p}. payload h' r = payload h r \<and> (\<forall>k\<in>payload h r. arr h' k = arr h k))"
proof -
  obtain q h1 where m: "malloc_u newSize h = Inr (q, h1)" using malloc_u_total [OF assms(1)] by blast
  show ?thesis
  proof (cases "q = 0")
    case True
    then show ?thesis using realloc_refused [OF assms(1-3)] m by blast
  next
    case False
    from realloc_granted [OF assms m False] obtain h' where
      "realloc_u p newSize h = Inr (q, h')" "uheap_inv h'" "q \<notin> live_ptrs h"
      "live_ptrs h' = insert q (live_ptrs h - {p})"
      "\<forall>n. int n < uint newSize \<longrightarrow> int n < 4 * int (card (payload h p)) \<longrightarrow>
         load_byte h' (q + of_nat n) = load_byte h (p + of_nat n)"
      "\<forall>r\<in>live_ptrs h - {p}. payload h' r = payload h r \<and> (\<forall>k\<in>payload h r. arr h' k = arr h k)"
      by blast
    then show ?thesis using False by (intro exI [of _ q] exI [of _ h']) simp
  qed
qed

lemma realloc_u_spec_witness:
  "\<exists>p h q h'. malloc_u 8 (heap_init_u (static_heap 0x1000)) = Inr (p, h) \<and>
     realloc_u p 20 h = Inr (q, h') \<and> uheap_inv h'"
proof -
  let ?h0 = "heap_init_u (static_heap 0x1000)"
  have h0: "hrel ?h0 [INTS - 4] [2]" "uheap_inv ?h0" using heap_init_u_hrel [of "0x1000"] by (simp_all add: INTS_def)
  obtain p h where m: "malloc_u 8 ?h0 = Inr (p, h)" using malloc_u_total [OF h0(2)] by blast
  have "p \<noteq> 0"
  proof
    assume "p = 0"
    then have "arr ?h0 2 < ints_for 8"
      using uheap_alloc_ok(2) [OF h0(2) _ m] hrel_free [OF h0(1)] by (simp add: INTS_def)
    then show False using hrel_at(1) [of ?h0 "[]" "INTS - 4" "[]"] h0(1) by (simp add: INTS_def ints_for_def)
  qed
  then have "uheap_inv h" "p \<in> live_ptrs h" using uheap_alloc_ok(1) [OF h0(2) _ m] by simp_all
  from realloc_u_spec [OF this, of 20] m show ?thesis by auto
qed

end
