(* ===== verification/Machine_Memory.thy ===== *)
theory Machine_Memory
  imports OS_Prelude
begin

text \<open>
  Physical memory as the kernel sees it: a byte for every 32-bit address, little-endian
  words, and the two block operations of \<^verbatim>\<open>kernel/machine.S\<close>.  The kernel maps its memory to
  itself, so kernel pointers are physical addresses.
\<close>

section \<open>Bytes and words\<close>

type_synonym memory = "u32 \<Rightarrow> u8"

definition ld32 :: "memory \<Rightarrow> u32 \<Rightarrow> u32" where
  "ld32 m a = ucast (m a) OR push_bit 8 (ucast (m (a + 1))) OR
     push_bit 16 (ucast (m (a + 2))) OR push_bit 24 (ucast (m (a + 3)))"

definition st32 :: "u32 \<Rightarrow> u32 \<Rightarrow> memory \<Rightarrow> memory" where
  "st32 a v m = m(a := ucast v, a + 1 := ucast (drop_bit 8 v), a + 2 := ucast (drop_bit 16 v),
     a + 3 := ucast (drop_bit 24 v))"

text \<open>The loops count down in a register and stop when it turns negative, so a size is read
  as a signed number.\<close>

fun bzero_loop :: "nat \<Rightarrow> u32 \<Rightarrow> memory \<Rightarrow> memory" where
  "bzero_loop 0 dest m = m"
| "bzero_loop (Suc n) dest m = bzero_loop n (dest + 1) (m(dest := 0))"

definition bzero :: "u32 \<Rightarrow> u32 \<Rightarrow> memory \<Rightarrow> memory" where
  "bzero dest n m = bzero_loop (nat (sint n)) dest m"

fun memcpy_bytes :: "nat \<Rightarrow> u32 \<Rightarrow> u32 \<Rightarrow> memory \<Rightarrow> memory" where
  "memcpy_bytes 0 dest src m = m"
| "memcpy_bytes (Suc n) dest src m = memcpy_bytes n (dest + 1) (src + 1) (m(dest := m src))"

definition memcpy :: "u32 \<Rightarrow> u32 \<Rightarrow> u32 \<Rightarrow> memory \<Rightarrow> memory" where
  "memcpy dest src n m = memcpy_bytes (nat (sint n)) dest src m"

section \<open>Loads after stores\<close>

lemma le_bytes_join:
  fixes v :: u32
  shows "ucast (ucast v :: u8) OR push_bit 8 (ucast (ucast (drop_bit 8 v) :: u8)) OR
    push_bit 16 (ucast (ucast (drop_bit 16 v) :: u8)) OR
    push_bit 24 (ucast (ucast (drop_bit 24 v) :: u8)) = v" (is "?w = v")
proof (rule bit_word_eqI)
  fix n :: nat assume "n < LENGTH(32)"
  then have "n < 8 \<or> 8 \<le> n \<and> n < 16 \<or> 16 \<le> n \<and> n < 24 \<or> 24 \<le> n \<and> n < 32" by auto
  then show "bit ?w n = bit v n"
    by (elim disjE) (auto simp: bit_or_iff bit_push_bit_iff bit_ucast_iff bit_drop_bit_eq)
qed

lemma ld32_st32_same [simp]: "ld32 (st32 a v m) a = v"
  using le_bytes_join [of v] by (simp add: ld32_def st32_def)

lemma ld32_cong:
  "m' a = m a \<Longrightarrow> m' (a + 1) = m (a + 1) \<Longrightarrow> m' (a + 2) = m (a + 2) \<Longrightarrow> m' (a + 3) = m (a + 3) \<Longrightarrow>
     ld32 m' a = ld32 m a"
  by (simp add: ld32_def)

lemma uint_add_small:
  fixes a k :: u32
  assumes "uint a + uint k < 2 ^ 32"
  shows "uint (a + k) = uint a + uint k"
  using assms by (simp add: uint_plus_if')

lemma uint_word_step:
  fixes a :: u32
  assumes "uint a mod 4 = 0"
  shows "uint (a + 1) = uint a + 1" "uint (a + 2) = uint a + 2" "uint (a + 3) = uint a + 3"
proof -
  have "uint a < 2 ^ 32" using uint_lt2p [of a] by simp
  moreover have "x + 3 < 4294967296" if "x mod 4 = 0" "x < 4294967296" for x :: int
    using that by presburger
  ultimately have "uint a + 3 < 2 ^ 32" using assms by simp
  then show "uint (a + 1) = uint a + 1" "uint (a + 2) = uint a + 2" "uint (a + 3) = uint a + 3"
    using uint_add_small [of a 1] uint_add_small [of a 2] uint_add_small [of a 3] by simp_all
qed

lemma st32_other:
  assumes "uint a mod 4 = 0" and "uint b < uint a \<or> uint a + 4 \<le> uint b"
  shows "st32 a v m b = m b"
proof -
  have "b \<noteq> a" "b \<noteq> a + 1" "b \<noteq> a + 2" "b \<noteq> a + 3"
    using assms uint_word_step [OF assms(1)] by auto
  then show ?thesis by (simp add: st32_def)
qed

lemma ld32_st32_other:
  assumes "uint a mod 4 = 0" and "uint b mod 4 = 0" and "a \<noteq> b"
  shows "ld32 (st32 a v m) b = ld32 m b"
proof -
  have "uint a \<noteq> uint b" using assms(3) by (simp only: word_uint_eq_iff [symmetric] not_False_eq_True)
  then have "uint b + 4 \<le> uint a \<or> uint a + 4 \<le> uint b" using assms(1,2) by presburger
  then show ?thesis
    by (intro ld32_cong st32_other [OF assms(1)]) (auto simp: uint_word_step [OF assms(2)])
qed

section \<open>Block operations\<close>

lemma uint_diff_step:
  fixes a p :: u32
  assumes "n < 2 ^ 32 - 1"
  shows "uint (a - (p + 1)) < int n \<longleftrightarrow> a \<noteq> p \<and> uint (a - p) < int (Suc n)"
proof (cases "a = p")
  case True
  have "uint (a - (p + 1)) = 2 ^ 32 - 1" using True by (simp add: uint_word_ariths)
  then show ?thesis using assms True by simp
next
  case False
  then have x0: "uint (a - p) \<noteq> 0" by (simp add: uint_0_iff)
  have step: "uint (x - 1) = uint x - 1" if "uint x \<noteq> 0" for x :: u32
  proof -
    have "1 \<le> uint x" using that uint_ge_0 [of x] by linarith
    then show ?thesis by (simp add: uint_sub_if')
  qed
  have "uint (a - (p + 1)) = uint (a - p - 1)" by (simp add: diff_diff_eq)
  then have "uint (a - (p + 1)) = uint (a - p) - 1" using step [OF x0] by simp
  then have "uint (a - (p + 1)) < int n \<longleftrightarrow> uint (a - p) < int (Suc n)" by linarith
  then show ?thesis using False by blast
qed

lemma bzero_loop_at:
  "n < 2 ^ 32 \<Longrightarrow> bzero_loop n p m a = (if uint (a - p) < int n then 0 else m a)"
proof (induction n arbitrary: p m)
  case (Suc n)
  then show ?case using uint_diff_step [of n a p] by (auto simp: uint_0_iff)
qed simp

lemma memcpy_bytes_at:
  assumes "n < 2 ^ 32" and "\<forall>b. uint (b - dest) < int n \<longrightarrow> \<not> uint (b - src) < int n"
  shows "memcpy_bytes n dest src m a = (if uint (a - dest) < int n then m (src + (a - dest)) else m a)"
  using assms
proof (induction n arbitrary: dest src m)
  case (Suc n)
  have n: "n < 2 ^ 32 - 1" "n < 2 ^ 32" using Suc.prems(1) by simp_all
  have "\<forall>b. uint (b - (dest + 1)) < int n \<longrightarrow> \<not> uint (b - (src + 1)) < int n"
    using Suc.prems(2) uint_diff_step [OF n(1)] by blast
  from Suc.IH [OF n(2) this, of "m(dest := m src)"]
  have IH: "memcpy_bytes (Suc n) dest src m a =
    (if uint (a - (dest + 1)) < int n then (m(dest := m src)) (src + 1 + (a - (dest + 1)))
     else (m(dest := m src)) a)" by (simp only: memcpy_bytes.simps)
  show ?case
  proof (cases "a = dest")
    case True
    then have "\<not> uint (a - (dest + 1)) < int n" using uint_diff_step [OF n(1), of a dest] by blast
    then show ?thesis using IH True by simp
  next
    case False
    have "src + (a - dest) \<noteq> dest" if "uint (a - dest) < int (Suc n)"
    proof
      assume "src + (a - dest) = dest"
      then have "uint (dest - src) < int (Suc n)" using that by (metis add_diff_cancel_left')
      moreover have "uint (dest - dest) < int (Suc n)" by simp
      ultimately show False using Suc.prems(2) by blast
    qed
    moreover have "src + 1 + (a - (dest + 1)) = src + (a - dest)" by simp
    ultimately show ?thesis
      using IH False uint_diff_step [OF n(1), of a dest] by (simp del: memcpy_bytes.simps)
  qed
qed simp

end
