(* ===== verification/PhysMem.thy ===== *)
theory PhysMem
  imports Machine_Memory Heap_Spec
begin

text \<open>
  The physical frame allocator, \<^verbatim>\<open>kernel/physmem.cc\<close> and \<^verbatim>\<open>kernel/physmem.h\<close>: frames that
  were given back form a list threaded through their first words; when it is empty, frames
  come from the range \<open>pavail\<close> to \<open>plimit\<close>.  The lock around each operation is the subject of
  the theory on locks; here an operation runs alone.  The record also carries what the
  virtual memory code does to the processor: the interrupt vectors it registers and the
  translations it invalidates.
\<close>

section \<open>State and address arithmetic\<close>

record phys =
  pmem :: memory
  ffree :: u32
  pavail :: u32
  plimit :: u32
  vectors :: "(u32 \<times> string \<times> u32) list"
  flushed :: "u32 list"

definition FRAME_SIZE :: u32 where
  "FRAME_SIZE = push_bit 12 1"

definition frame_offset :: "u32 \<Rightarrow> u32" where
  "frame_offset pa = pa AND 0xFFF"

definition ppn :: "u32 \<Rightarrow> u32" where
  "ppn pa = drop_bit 12 pa"

definition framedown :: "u32 \<Rightarrow> u32" where
  "framedown pa = (pa div FRAME_SIZE) * FRAME_SIZE"

definition frameup :: "u32 \<Rightarrow> u32" where
  "frameup pa = framedown (pa + FRAME_SIZE - 1)"

section \<open>Operations\<close>

definition alloc_frame :: "phys \<Rightarrow> (u32 \<times> phys) res" where
  "alloc_frame s =
     rbind (if ffree s \<noteq> 0 then Inr (ffree s, s\<lparr>ffree := ld32 (pmem s) (ffree s)\<rparr>)
            else if pavail s = plimit s then Inl (Panic ''no more frames'')
            else Inr (pavail s, s\<lparr>pavail := pavail s + FRAME_SIZE\<rparr>))
       (\<lambda>(p, s1). assertR ''offset(p) == 0'' (frame_offset p = 0)
          (Inr (p, s1\<lparr>pmem := bzero p FRAME_SIZE (pmem s1)\<rparr>)))"

definition dealloc_frame :: "u32 \<Rightarrow> phys \<Rightarrow> phys res" where
  "dealloc_frame p s =
     assertR ''offset(p) == 0'' (frame_offset p = 0)
       (Inr (s\<lparr>pmem := st32 p (ffree s) (pmem s), ffree := p\<rparr>))"

definition pm_init :: "u32 \<Rightarrow> u32 \<Rightarrow> phys \<Rightarrow> phys res" where
  "pm_init start sz s =
     assertR ''offset(start) == 0'' (frame_offset start = 0)
    (assertR ''offset(size) == 0'' (frame_offset sz = 0)
      (Inr (s\<lparr>pavail := start, plimit := start + sz,
         vectors := vectors s @ [(14, ''pageFaultHandler_'', 3)]\<rparr>)))"

section \<open>Frames\<close>

lemma FRAME_SIZE_eq: "FRAME_SIZE = 4096"
  by (simp add: FRAME_SIZE_def push_bit_eq_mult)

lemma uint_frame_offset: "uint (frame_offset pa) = uint pa mod 4096"
proof -
  have "frame_offset pa = take_bit 12 pa"
    by (simp add: frame_offset_def take_bit_eq_mask mask_eq_exp_minus_1)
  then show ?thesis by (simp only: unsigned_take_bit_eq) (simp add: take_bit_eq_mod)
qed

definition aligned :: "u32 \<Rightarrow> bool" where
  "aligned p \<longleftrightarrow> uint p mod 4096 = 0"

lemma frame_offset_0: "frame_offset p = 0 \<longleftrightarrow> aligned p"
  by (simp add: aligned_def uint_frame_offset [symmetric] uint_0_iff)

definition frame_span :: "u32 \<Rightarrow> u32 set" where
  "frame_span p = {a. uint p \<le> uint a \<and> uint a < uint p + 4096}"

lemma alignedE:
  assumes "aligned p"
  obtains k where "uint p = 4096 * k" "0 \<le> k" "k < 1048576"
proof -
  obtain k where k: "uint p = 4096 * k" using assms by (auto simp: aligned_def mod_eq_0_iff_dvd elim: dvdE)
  have "0 \<le> uint p" "uint p < 2 ^ 32" using uint_lt2p [of p] by simp_all
  then have "0 \<le> k" "k < 1048576" unfolding k by simp_all
  then show thesis using that k by blast
qed

lemma aligned_room: "aligned p \<Longrightarrow> uint p + 4096 \<le> 2 ^ 32"
  by (auto elim!: alignedE)

lemma in_frame_span: "aligned p \<Longrightarrow> a \<in> frame_span p \<longleftrightarrow> uint (a - p) < 4096"
proof -
  assume "aligned p"
  then have "uint p \<le> 4294963200" using aligned_room [of p] by simp
  moreover have "uint a < 4294967296" using uint_lt2p [of a] by simp
  moreover have "0 \<le> uint a" by (rule uint_ge_0)
  moreover have "uint (a - p) = (if uint p \<le> uint a then uint a - uint p else uint a - uint p + 4294967296)"
    by (simp add: uint_sub_if')
  ultimately show ?thesis unfolding frame_span_def by (simp only: mem_Collect_eq split: if_split) linarith
qed

lemma frame_span_div:
  assumes "aligned p"
  shows "a \<in> frame_span p \<longleftrightarrow> uint a div 4096 = uint p div 4096"
proof -
  obtain k where k: "uint p = 4096 * k" using alignedE [OF assms] .
  have "(4096 * k \<le> x \<and> x < 4096 * k + 4096) = (x div 4096 = k)" for x :: int
  proof -
    have "x = 4096 * (x div 4096) + x mod 4096" "0 \<le> x mod 4096" "x mod 4096 < 4096" by simp_all
    then show ?thesis by linarith
  qed
  then show ?thesis by (simp add: frame_span_def k)
qed

lemma aligned_eq: "aligned p \<Longrightarrow> aligned q \<Longrightarrow> uint p div 4096 = uint q div 4096 \<Longrightarrow> p = q"
  by (auto elim!: alignedE simp: word_uint_eq_iff)

lemma frame_span_disjoint: "aligned p \<Longrightarrow> aligned q \<Longrightarrow> p \<noteq> q \<Longrightarrow> frame_span p \<inter> frame_span q = {}"
  using frame_span_div aligned_eq by (metis disjoint_iff)

lemma aligned_mod4: "aligned p \<Longrightarrow> uint p mod 4 = 0"
  by (auto elim!: alignedE)

lemma word_in_frame:
  assumes "aligned p" and "uint p \<le> uint a" and "uint a + 4 \<le> uint p + 4096" and "uint a mod 4 = 0"
  shows "a \<in> frame_span p" "a + 1 \<in> frame_span p" "a + 2 \<in> frame_span p" "a + 3 \<in> frame_span p"
  using assms uint_word_step [of a] by (auto simp: frame_span_def)

lemma ld32_frame_cong:
  assumes "aligned p" and "uint p \<le> uint a" and "uint a + 4 \<le> uint p + 4096" and "uint a mod 4 = 0"
    and "\<And>b. b \<in> frame_span p \<Longrightarrow> m' b = m b"
  shows "ld32 m' a = ld32 m a"
  by (rule ld32_cong) (use word_in_frame [OF assms(1-4)] assms(5) in auto)

lemma bzero_frame:
  assumes "aligned p"
  shows "bzero p FRAME_SIZE m = (\<lambda>a. if a \<in> frame_span p then 0 else m a)"
proof
  fix a
  have "bzero p FRAME_SIZE m a = bzero_loop 4096 p m a" by (simp add: bzero_def FRAME_SIZE_eq)
  also have "\<dots> = (if uint (a - p) < 4096 then 0 else m a)" using bzero_loop_at [of 4096] by simp
  finally show "bzero p FRAME_SIZE m a = (if a \<in> frame_span p then 0 else m a)"
    by (simp add: in_frame_span [OF assms])
qed

lemma st32_frame:
  assumes "aligned p" and "b \<notin> frame_span p"
  shows "st32 p v m b = m b"
  by (rule st32_other) (use assms aligned_mod4 in \<open>auto simp: frame_span_def\<close>)


section \<open>The invariant\<close>

text \<open>The frames that were given back, as a chain through their first words.\<close>

fun fchain :: "memory \<Rightarrow> u32 \<Rightarrow> u32 list \<Rightarrow> bool" where
  "fchain m p [] \<longleftrightarrow> p = 0"
| "fchain m p (x # xs) \<longleftrightarrow> p = x \<and> x \<noteq> 0 \<and> fchain m (ld32 m x) xs"

lemma fchain_unique: "fchain m p xs \<Longrightarrow> fchain m p ys \<Longrightarrow> xs = ys"
proof (induction xs arbitrary: p ys)
  case Nil
  then show ?case by (cases ys) auto
next
  case (Cons x xs)
  then show ?case by (cases ys) auto
qed

lemma fchain_cong:
  "(\<And>x. x \<in> set xs \<Longrightarrow> ld32 m' x = ld32 m x) \<Longrightarrow> fchain m' p xs = fchain m p xs"
  by (induction xs arbitrary: p) auto

text \<open>The allocator over the frames from \<open>start\<close>: \<open>xs\<close> were given back.\<close>

definition pm_rel :: "u32 \<Rightarrow> phys \<Rightarrow> u32 list \<Rightarrow> bool" where
  "pm_rel start s xs \<longleftrightarrow>
     aligned start \<and> aligned (pavail s) \<and> aligned (plimit s) \<and> start \<noteq> 0 \<and>
     uint start \<le> uint (pavail s) \<and> uint (pavail s) \<le> uint (plimit s) \<and>
     fchain (pmem s) (ffree s) xs \<and> distinct xs \<and>
     (\<forall>x\<in>set xs. aligned x \<and> uint start \<le> uint x \<and> uint x < uint (pavail s))"

definition pm_inv :: "u32 \<Rightarrow> phys \<Rightarrow> bool" where
  "pm_inv start s \<longleftrightarrow> (\<exists>xs. pm_rel start s xs)"

text \<open>The frames handed out and not given back.\<close>

definition pm_live :: "u32 \<Rightarrow> phys \<Rightarrow> u32 set" where
  "pm_live start s =
     {p. aligned p \<and> uint start \<le> uint p \<and> uint p < uint (pavail s) \<and>
         (\<forall>xs. fchain (pmem s) (ffree s) xs \<longrightarrow> p \<notin> set xs)}"

lemma pm_live_eq:
  "pm_rel start s xs \<Longrightarrow>
     pm_live start s = {p. aligned p \<and> uint start \<le> uint p \<and> uint p < uint (pavail s) \<and> p \<notin> set xs}"
  by (auto simp: pm_live_def pm_rel_def dest: fchain_unique)

lemma ld32_outside_frame:
  assumes "aligned p" and "aligned x" and "x \<noteq> p" and "\<And>b. b \<notin> frame_span p \<Longrightarrow> m' b = m b"
  shows "ld32 m' x = ld32 m x"
proof (rule ld32_frame_cong [OF assms(2)])
  fix b assume "b \<in> frame_span x"
  then show "m' b = m b" using frame_span_disjoint [OF assms(2,1,3)] assms(4) by blast
qed (use aligned_mod4 assms(2) in auto)

section \<open>What the operations do\<close>

lemma alloc_frame_ok:
  assumes r: "pm_rel start s xs" and a: "alloc_frame s = Inr (p, s')"
  obtains xs' where "pm_rel start s' xs'" "aligned p" "p \<noteq> 0" "p \<notin> pm_live start s"
    "pm_live start s' = insert p (pm_live start s)"
    "pmem s' = (\<lambda>a. if a \<in> frame_span p then 0 else pmem s a)"
    "uint start \<le> uint p" "plimit s' = plimit s" "flushed s' = flushed s"
    "uint (pavail s') \<le> uint (pavail s) + 4096"
proof (cases "ffree s = 0")
  case False
  then obtain ys where xs: "xs = ffree s # ys" using r by (cases xs) (auto simp: pm_rel_def)
  have al: "aligned (ffree s)" using r xs by (auto simp: pm_rel_def)
  have p: "p = ffree s" and s': "s' = s\<lparr>ffree := ld32 (pmem s) p, pmem := bzero p FRAME_SIZE (pmem s)\<rparr>"
    using a False by (auto simp: alloc_frame_def)
  have m: "pmem s' = (\<lambda>a. if a \<in> frame_span p then 0 else pmem s a)"
    using al p by (simp add: s' bzero_frame)
  have "ld32 (pmem s') x = ld32 (pmem s) x" if "x \<in> set ys" for x
    by (rule ld32_outside_frame [of p]) (use r xs that p al in \<open>auto simp: pm_rel_def m\<close>)
  then have "fchain (pmem s') (ffree s') ys = fchain (pmem s) (ffree s') ys" by (rule fchain_cong)
  moreover have "ffree s' = ld32 (pmem s) p" by (simp add: s')
  ultimately have r': "pm_rel start s' ys"
    using r xs p unfolding pm_rel_def by (simp add: s')
  have pr: "uint start \<le> uint p" "uint p < uint (pavail s)" "p \<noteq> 0" "p \<notin> set ys"
    using r xs p by (auto simp: pm_rel_def)
  have "pm_live start s' = insert p (pm_live start s)" "p \<notin> pm_live start s" "aligned p"
    unfolding pm_live_eq [OF r] pm_live_eq [OF r'] using al p pr xs by (auto simp: s')
  then show thesis using that [OF r' _ pr(3) _ _ m pr(1)] by (simp add: s')
next
  case True
  then have xs: "xs = []" using r by (cases xs) (auto simp: pm_rel_def)
  have p: "p = pavail s" and ne: "pavail s \<noteq> plimit s"
    and s': "s' = s\<lparr>pavail := p + FRAME_SIZE, pmem := bzero p FRAME_SIZE (pmem s)\<rparr>"
    using a True by (auto simp: alloc_frame_def split: if_splits)
  have al: "aligned p" "aligned (plimit s)" "aligned start" and b: "uint start \<le> uint p"
    "uint p \<le> uint (plimit s)" "start \<noteq> 0" using r p by (auto simp: pm_rel_def)
  have m: "pmem s' = (\<lambda>a. if a \<in> frame_span p then 0 else pmem s a)"
    using al by (simp add: s' bzero_frame)
  obtain k l where k: "uint p = 4096 * k" "uint (plimit s) = 4096 * l" "0 \<le> k" "l < 1048576"
    using al by (auto elim!: alignedE)
  have "k \<noteq> l" using ne p k by (auto simp: word_uint_eq_iff)
  then have kl: "k + 1 \<le> l" using b(2) k by simp
  then have up: "uint (p + FRAME_SIZE) = 4096 * (k + 1)"
    using uint_add_small [of p FRAME_SIZE] k by (simp add: FRAME_SIZE_eq)
  have r': "pm_rel start s' []"
    using r True xs b al kl k up unfolding pm_rel_def by (simp add: s' aligned_def)
  have p0: "p \<noteq> 0" using b by (auto simp: uint_0_iff)
  have xp: "x = p" if "aligned x" "uint x < 4096 * (k + 1)" "\<not> uint x < 4096 * k" for x
  proof -
    note ax = that(1)
    obtain j where "uint x = 4096 * j" by (rule alignedE [OF ax])
    then have "uint x = uint p" using that k by simp
    then show ?thesis by (simp add: word_uint_eq_iff)
  qed
  have range: "aligned x \<and> uint start \<le> uint x \<and> uint x < 4096 * (k + 1) \<longleftrightarrow>
      x = p \<or> aligned x \<and> uint start \<le> uint x \<and> uint x < uint p" for x
    using xp [of x] al(1) b(1) k(1) by (cases "uint x < 4096 * k") auto
  have "pavail s' = p + FRAME_SIZE" by (simp add: s')
  then have "pm_live start s' = {x. aligned x \<and> uint start \<le> uint x \<and> uint x < 4096 * (k + 1)}"
    unfolding pm_live_eq [OF r'] using up by simp
  also have "\<dots> = insert p (pm_live start s)"
    unfolding pm_live_eq [OF r] range xs p [symmetric] by auto
  finally have "pm_live start s' = insert p (pm_live start s)" .
  moreover have "p \<notin> pm_live start s" unfolding pm_live_eq [OF r] using p by simp
  moreover have "uint (pavail s') \<le> uint (pavail s) + 4096" using up k p by (simp add: s')
  ultimately show thesis using that [OF r' al(1) p0 _ _ m b(1)] by (simp add: s')
qed

lemma alloc_frame_returns:
  assumes "pm_rel start s xs" and "ffree s \<noteq> 0 \<or> pavail s \<noteq> plimit s"
  shows "\<exists>p s'. alloc_frame s = Inr (p, s')"
proof -
  have "aligned (ffree s)" if "ffree s \<noteq> 0"
    using assms(1) that by (cases xs) (auto simp: pm_rel_def)
  moreover have "aligned (pavail s)" using assms(1) by (simp add: pm_rel_def)
  ultimately show ?thesis using assms(2) by (auto simp: alloc_frame_def frame_offset_0)
qed

lemma dealloc_frame_ok:
  assumes r: "pm_rel start s xs" and p: "p \<in> pm_live start s"
  shows "\<exists>s'. dealloc_frame p s = Inr s' \<and> pm_rel start s' (p # xs) \<and>
    pm_live start s' = pm_live start s - {p} \<and> plimit s' = plimit s \<and> pavail s' = pavail s \<and>
    flushed s' = flushed s \<and> (\<forall>a. a \<notin> frame_span p \<longrightarrow> pmem s' a = pmem s a)"
proof -
  let ?s' = "s\<lparr>pmem := st32 p (ffree s) (pmem s), ffree := p\<rparr>"
  have al: "aligned p" and b: "uint start \<le> uint p" "uint p < uint (pavail s)" "p \<notin> set xs"
    using p by (auto simp: pm_live_eq [OF r])
  have out: "pmem ?s' a = pmem s a" if "a \<notin> frame_span p" for a
    using st32_frame [OF al that] by simp
  have "ld32 (pmem ?s') x = ld32 (pmem s) x" if "x \<in> set xs" for x
    by (rule ld32_outside_frame [of p]) (use r that al b out in \<open>auto simp: pm_rel_def\<close>)
  then have "fchain (pmem ?s') (ffree s) xs = fchain (pmem s) (ffree s) xs" by (rule fchain_cong)
  moreover have "p \<noteq> 0" using b r by (auto simp: pm_rel_def uint_0_iff)
  ultimately have r': "pm_rel start ?s' (p # xs)"
    using r al b unfolding pm_rel_def by simp
  have "pm_live start ?s' = pm_live start s - {p}"
    unfolding pm_live_eq [OF r] pm_live_eq [OF r'] by auto
  then show ?thesis
    using r' out al by (intro exI [of _ ?s']) (simp add: dealloc_frame_def frame_offset_0)
qed


section \<open>The frames are an allocator\<close>

definition put_byte :: "u32 \<Rightarrow> u8 \<Rightarrow> phys \<Rightarrow> phys" where
  "put_byte a v s = s\<lparr>pmem := (pmem s)(a := v)\<rparr>"

text \<open>A change of memory inside one live frame.\<close>

lemma frame_write_rel:
  assumes r: "pm_rel start s xs" and p: "p \<in> pm_live start s"
    and m: "\<And>b. b \<notin> frame_span p \<Longrightarrow> m' b = pmem s b"
  shows "pm_rel start (s\<lparr>pmem := m'\<rparr>) xs" "pm_live start (s\<lparr>pmem := m'\<rparr>) = pm_live start s"
proof -
  have al: "aligned p" "p \<notin> set xs" using p by (auto simp: pm_live_eq [OF r])
  have "ld32 m' x = ld32 (pmem s) x" if "x \<in> set xs" for x
    by (rule ld32_outside_frame [of p]) (use r that al m in \<open>auto simp: pm_rel_def\<close>)
  then have "fchain m' (ffree s) xs = fchain (pmem s) (ffree s) xs" by (rule fchain_cong)
  then show r': "pm_rel start (s\<lparr>pmem := m'\<rparr>) xs" using r unfolding pm_rel_def by simp
  show "pm_live start (s\<lparr>pmem := m'\<rparr>) = pm_live start s"
    unfolding pm_live_eq [OF r] pm_live_eq [OF r'] by simp
qed

lemma frame_write_inv:
  assumes "pm_inv start s" and "p \<in> pm_live start s"
    and "\<And>b. b \<notin> frame_span p \<Longrightarrow> m' b = pmem s b"
  shows "pm_inv start (s\<lparr>pmem := m'\<rparr>)" "pm_live start (s\<lparr>pmem := m'\<rparr>) = pm_live start s"
  using frame_write_rel [OF _ assms(2,3)] assms(1) unfolding pm_inv_def by blast+

lemma pm_live_aligned: "p \<in> pm_live start s \<Longrightarrow> aligned p"
  by (simp add: pm_live_def)

interpretation pm: allocator "\<lambda>_ :: unit. alloc_frame" dealloc_frame "\<lambda>_. True" "pm_inv start"
  "pm_live start" "\<lambda>_. frame_span" pmem put_byte for start
proof unfold_locales
  show "pm_inv start s' \<and> p \<notin> pm_live start s \<and> pm_live start s' = insert p (pm_live start s)"
    if "pm_inv start s" "alloc_frame s = Inr (p, s')" for s p s'
    using that unfolding pm_inv_def by (blast elim: alloc_frame_ok)
  show "s' = s" if "pm_inv start s" "alloc_frame s = Inr (0, s')" for s s'
    using that unfolding pm_inv_def by (blast elim: alloc_frame_ok)
  show "frame_span q = frame_span q \<and> (\<forall>k\<in>frame_span q. pmem s' k = pmem s k)"
    if inv: "pm_inv start s" and "alloc_frame s = Inr (p, s')" and q: "q \<in> pm_live start s" for s p s' q
  proof -
    from inv obtain xs where r: "pm_rel start s xs" by (auto simp: pm_inv_def)
    from alloc_frame_ok [OF r that(2)] have "aligned p" "p \<noteq> q"
      and m: "pmem s' = (\<lambda>a. if a \<in> frame_span p then 0 else pmem s a)" using q by metis+
    then have "frame_span p \<inter> frame_span q = {}" using frame_span_disjoint pm_live_aligned [OF q] by blast
    then show ?thesis using m by auto
  qed
  show "\<exists>s'. dealloc_frame p s = Inr s' \<and> pm_inv start s' \<and> pm_live start s' = pm_live start s - {p}"
    if "pm_inv start s" "p \<in> pm_live start s" for s p
    using that dealloc_frame_ok unfolding pm_inv_def by blast
  show "frame_span q = frame_span q \<and> (\<forall>k\<in>frame_span q. pmem s' k = pmem s k)"
    if inv: "pm_inv start s" and p: "p \<in> pm_live start s" "dealloc_frame p s = Inr s'"
      and q: "q \<in> pm_live start s" "q \<noteq> p" for s p s' q
  proof -
    from inv obtain xs where r: "pm_rel start s xs" by (auto simp: pm_inv_def)
    from dealloc_frame_ok [OF r p(1)] p(2) have "\<forall>a. a \<notin> frame_span p \<longrightarrow> pmem s' a = pmem s a" by auto
    moreover have "frame_span q \<inter> frame_span p = {}"
      using frame_span_disjoint q(2) pm_live_aligned [OF q(1)] pm_live_aligned [OF p(1)] by blast
    ultimately show ?thesis by blast
  qed
  show "pm_inv start (put_byte k v s) \<and> pm_live start (put_byte k v s) = pm_live start s \<and>
      (\<forall>q. frame_span q = frame_span q)"
    if "pm_inv start s" "p \<in> pm_live start s" "k \<in> frame_span p" for s p k v
  proof -
    have m: "((pmem s)(k := v)) b = pmem s b" if "b \<notin> frame_span p" for b
      using that \<open>k \<in> frame_span p\<close> by auto
    show ?thesis
      using frame_write_inv [where m' = "(pmem s)(k := v)", OF that(1,2) m] by (simp add: put_byte_def)
  qed
  show "pmem (put_byte k v s) j = (if j = k then v else pmem s j)" for k v s j
    by (simp add: put_byte_def)
  show "frame_span p \<inter> frame_span q = {}"
    if "pm_inv start s" "p \<in> pm_live start s" "q \<in> pm_live start s" "p \<noteq> q" for s p q
    using that frame_span_disjoint pm_live_aligned by blast
  show "0 \<notin> pm_live start s" if "pm_inv start s" for s
    using that by (auto simp: pm_inv_def pm_rel_def pm_live_def uint_0_iff)
qed

section \<open>Correctness\<close>

lemma pm_init_ok:
  assumes "aligned start" and "aligned sz" and "0 < uint start" and "uint start + uint sz < 2 ^ 32"
    and "ffree s = 0"
  shows "\<exists>s'. pm_init start sz s = Inr s' \<and> pm_rel start s' [] \<and> pm_live start s' = {} \<and>
    plimit s' = start + sz \<and> pavail s' = start \<and> ffree s' = 0"
proof -
  let ?s' = "s\<lparr>pavail := start, plimit := start + sz,
    vectors := vectors s @ [(14, ''pageFaultHandler_'', 3)]\<rparr>"
  have "uint (start + sz) = uint start + uint sz" using assms(4) by (rule uint_add_small)
  moreover have "aligned (start + sz)"
    using assms(1,2) calculation by (auto elim!: alignedE simp: aligned_def)
  ultimately have r: "pm_rel start ?s' []"
    using assms unfolding pm_rel_def by (auto simp: uint_0_iff)
  have "pm_live start ?s' = {}" unfolding pm_live_eq [OF r] by auto
  then show ?thesis
    using r assms by (intro exI [of _ ?s']) (simp add: pm_init_def frame_offset_0)
qed

text \<open>after \<^verbatim>\<open>PhysMem::init\<close> on a frame-aligned range, every history of frame allocations,
  deallocations and writes into held frames leaves the allocator in order: the frames held
  are exactly those handed out, each can be given back, two held frames never overlap, and
  a write into one is not seen in another.\<close>

theorem frame_history:
  assumes "pm_init start sz s = Inr s0" and "ffree s = 0" and "0 < uint start"
    and "uint start + uint sz < 2 ^ 32"
    and run: "client_run (\<lambda>_ :: unit. alloc_frame) dealloc_frame (\<lambda>_. True) (\<lambda>_. frame_span) put_byte
      s0 held t"
  shows "pm_inv start t \<and> pm_live start t = held \<and>
    (\<forall>p\<in>held. aligned p \<and> p \<noteq> 0 \<and> (\<exists>t'. dealloc_frame p t = Inr t')) \<and>
    (\<forall>p\<in>held. \<forall>q\<in>held. p \<noteq> q \<longrightarrow> frame_span p \<inter> frame_span q = {} \<and>
       (\<forall>a\<in>frame_span p. \<forall>b\<in>frame_span q. \<forall>v. pmem (put_byte a v t) b = pmem t b))"
proof -
  have "aligned start" "aligned sz"
    using assms(1) by (simp_all add: pm_init_def assertR_def frame_offset_0 split: if_splits)
  then have "pm_inv start s0" "pm_live start s0 = {}"
    using pm_init_ok [OF _ _ assms(3,4,2)] assms(1) by (auto simp: pm_inv_def)
  note run = run this
  have live: "pm_inv start t" "pm_live start t = held" using pm.run_invar [OF run] by auto
  moreover have "aligned p \<and> p \<noteq> 0 \<and> (\<exists>t'. dealloc_frame p t = Inr t')" if "p \<in> held" for p
    using pm.run_can_free [OF run that] live that pm.null_not_live [of start t] pm_live_aligned by blast
  ultimately show ?thesis
    using pm.run_disjoint [OF run] pm.run_write_private [OF run] by blast
qed

definition phys_zero :: phys where
  "phys_zero = \<lparr>pmem = \<lambda>_. 0, ffree = 0, pavail = 0, plimit = 0, vectors = [], flushed = []\<rparr>"

lemma frame_history_witness:
  "\<exists>t p. pm_init 0x1000 0x2000 phys_zero = Inr t \<and> pm_live 0x1000 t = {} \<and>
     (\<exists>t'. alloc_frame t = Inr (p, t') \<and> pm_live 0x1000 t' = {p})"
proof -
  obtain t where t: "pm_init 0x1000 0x2000 phys_zero = Inr t" "pm_rel 0x1000 t []"
    "plimit t = 0x3000" "pavail t = 0x1000" "ffree t = 0"
    using pm_init_ok [of "0x1000" "0x2000" phys_zero] by (auto simp: phys_zero_def aligned_def)
  obtain p t' where p: "alloc_frame t = Inr (p, t')" using alloc_frame_returns [OF t(2)] t by auto
  have "p \<noteq> 0" using alloc_frame_ok [OF t(2) p] by metis
  then have run: "client_run (\<lambda>_ :: unit. alloc_frame) dealloc_frame (\<lambda>_. True) (\<lambda>_. frame_span) put_byte
      t (insert p {}) t'"
    using p by (intro client_run.got [OF client_run.start]) auto
  have z: "ffree phys_zero = 0" by (simp add: phys_zero_def)
  from frame_history [OF t(1) z _ _ run] frame_history [OF t(1) z _ _ client_run.start] t(1) p
  show ?thesis by auto
qed

text \<open>\<^verbatim>\<open>alloc_frame\<close> returns unless no frame was given back and the range is used up, when it
  panics; the frame it returns is aligned, not 0, not in use, filled with zeros, and no
  byte outside it changed.\<close>

theorem alloc_frame_spec:
  assumes "pm_inv start s"
  shows "(if ffree s = 0 \<and> pavail s = plimit s then alloc_frame s = Inl (Panic ''no more frames'')
    else \<exists>p s'. alloc_frame s = Inr (p, s') \<and> pm_inv start s' \<and> frame_offset p = 0 \<and> p \<noteq> 0 \<and>
      p \<notin> pm_live start s \<and> pm_live start s' = insert p (pm_live start s) \<and>
      pmem s' = (\<lambda>a. if a \<in> frame_span p then 0 else pmem s a))"
proof -
  from assms obtain xs where r: "pm_rel start s xs" by (auto simp: pm_inv_def)
  show ?thesis
  proof (cases "ffree s = 0 \<and> pavail s = plimit s")
    case True
    then show ?thesis by (simp add: alloc_frame_def)
  next
    case False
    then obtain p s' where a: "alloc_frame s = Inr (p, s')" using alloc_frame_returns [OF r] by auto
    show ?thesis
      by (rule alloc_frame_ok [OF r a])
        (use False a in \<open>auto simp: pm_inv_def frame_offset_0\<close>)
  qed
qed

lemma alloc_frame_spec_witness:
  "\<exists>s p s'. pm_init 0x1000 0x2000 phys_zero = Inr s \<and> alloc_frame s = Inr (p, s') \<and> p \<noteq> 0"
proof -
  obtain t where t: "pm_init 0x1000 0x2000 phys_zero = Inr t" "pm_rel 0x1000 t []"
    "plimit t = 0x3000" "pavail t = 0x1000"
    using pm_init_ok [of "0x1000" "0x2000" phys_zero] by (auto simp: phys_zero_def aligned_def)
  then have "pm_inv 0x1000 t" by (auto simp: pm_inv_def)
  from alloc_frame_spec [OF this] t show ?thesis by auto
qed

end
