(* ===== verification/Kernel_Config.thy ===== *)
theory Kernel_Config
  imports Machine_Memory
begin

text \<open>
  The machine's configuration, \<^verbatim>\<open>kernel/config.h\<close> and \<^verbatim>\<open>kernel/config.cc\<close>: the record the
  other components read, and its discovery in the firmware's ACPI tables.
\<close>

section \<open>The configuration\<close>

record apic_info =
  processorId :: u8
  apicId :: u8
  apicFlags :: u32

record config =
  memSize :: u32
  nOtherProcs :: u32
  totalProcs :: u32
  localAPIC :: u32
  madtFlags :: u32
  ioAPIC :: u32
  apicInfo :: "apic_info list"
  oemid :: "u8 list"

end
