(* ===== verification/Config_Tables.thy ===== *)
theory Config_Tables
  imports Kernel_Config "HOL-Library.Sublist"
begin

text \<open>
  The discovery of the machine, \<^verbatim>\<open>kernel/config.cc\<close>: the amount of memory the boot code asked the firmware
  for, the search for the ACPI root pointer and for a table by its name, and the scan of the table of
  interrupt controllers, which gives the processors.
\<close>

section \<open>Memory size\<close>

record mem_info =
  mi_ax :: u16
  mi_bx :: u16
  mi_cx :: u16
  mi_dx :: u16

definition memAbove1M :: "mem_info \<Rightarrow> u32 res" where
  "memAbove1M i =
     assertR ''(memInfo.cx == 15 * 1024) || (memInfo.dx == 0)'' (mi_cx i = 15 * 1024 \<or> mi_dx i = 0)
       (Inr (push_bit 10 (ucast (mi_ax i OR mi_cx i)) + push_bit 16 (ucast (mi_bx i OR mi_dx i))))"

section \<open>Tables\<close>

text \<open>The packed structures, by the offsets of their fields: \<^verbatim>\<open>RSD\<close> (signature, OEM name at 9, root table
  at 16), \<^verbatim>\<open>SDT\<close> (signature, length at 4, 36 bytes), \<^verbatim>\<open>MADT\<close> (address at 36, flags at 40, 44 bytes), and its
  entries (type, length, and at 2 and 3 the processor and its controller, at 4 the flags or the address).\<close>

definition sizeof_SDT :: u32 where "sizeof_SDT = 36"
definition sizeof_MADT :: u32 where "sizeof_MADT = 44"

fun iseq :: "memory \<Rightarrow> u32 \<Rightarrow> u8 list \<Rightarrow> bool" where
  "iseq m a [] = True"
| "iseq m a (b # bs) = (if m a \<noteq> b then False else iseq m (a + 1) bs)"

partial_function (option) findRSDInRange :: "memory \<Rightarrow> u32 \<Rightarrow> u32 \<Rightarrow> u32 option" where
  "findRSDInRange m i end_of =
     (if i < end_of then
        (if iseq m i (map of_char ''RSD PTR '') then Some i else findRSDInRange m (i + 16) end_of)
      else Some 0)"

definition findRSD :: "memory \<Rightarrow> u32 option" where
  "findRSD m =
     (case findRSDInRange m 0x000E0000 0x00100000 of
        None \<Rightarrow> None
      | Some it \<Rightarrow>
          if it = 0 then
            (let base = push_bit 4 (ucast (m 0x40E) OR push_bit 8 (ucast (m 0x40F)))
             in findRSDInRange m base (base + push_bit 10 1))
          else Some it)"

fun findSDT_loop :: "memory \<Rightarrow> u32 \<Rightarrow> u8 list \<Rightarrow> nat \<Rightarrow> u32" where
  "findSDT_loop m others name 0 = 0"
| "findSDT_loop m others name (Suc n) =
     (let h = ld32 m others in if iseq m h name then h else findSDT_loop m (others + 4) name n)"

definition findSDT :: "memory \<Rightarrow> u32 \<Rightarrow> u8 list \<Rightarrow> u32" where
  "findSDT m rsdp name =
     (let rsdt = ld32 m (rsdp + 16); entries = (ld32 m (rsdt + 4) - sizeof_SDT) div 4
      in findSDT_loop m (rsdt + sizeof_SDT) name (nat (sint entries)))"

section \<open>Interrupt controllers\<close>

definition apic_at :: "memory \<Rightarrow> u32 \<Rightarrow> apic_info" where
  "apic_at m p = \<lparr>processorId = m (p + 2), apicId = m (p + 3), apicFlags = ld32 m (p + 4)\<rparr>"

definition madt_entry :: "memory \<Rightarrow> u32 \<Rightarrow> config \<Rightarrow> config res" where
  "madt_entry m p c =
     (if m p = 0 then
        (if m (p + 2) = 0 then Inr c
         else if length (apicInfo c) \<le> unat (nOtherProcs c) then Inl (OutOfBounds ''apicInfo'')
         else Inr (c\<lparr>apicInfo := (apicInfo c)[unat (nOtherProcs c) := apic_at m p], nOtherProcs := nOtherProcs c + 1\<rparr>))
      else if m p = 1 then Inr (c\<lparr>ioAPIC := ld32 m (p + 4)\<rparr>)
      else Inr c)"

partial_function (option) madt_loop :: "memory \<Rightarrow> u32 \<Rightarrow> u32 \<Rightarrow> config \<Rightarrow> config res option" where
  "madt_loop m entryPtr bytesForEntries c =
     (if 0 < sint bytesForEntries then
        (let len = ucast (m (entryPtr + 1)); p = entryPtr + len
         in (case madt_entry m p c of
               Inl e \<Rightarrow> Some (Inl e)
             | Inr c1 \<Rightarrow> madt_loop m p (bytesForEntries - len) c1))
      else Some (Inr c))"

definition configInit :: "mem_info \<Rightarrow> memory \<Rightarrow> config \<Rightarrow> config res" where
  "configInit i m c =
     rbind (memAbove1M i) (\<lambda>above.
       let c1 = c\<lparr>memSize := above + push_bit 20 1\<rparr>
       in (case findRSD m of
             None \<Rightarrow> Inl Diverges
           | Some rsdp \<Rightarrow>
               if rsdp = 0 then Inl (NullDeref ''rsdp->rootSDT'')
               else
                 (let c2 = c1\<lparr>oemid := map (\<lambda>k. m (rsdp + 9 + of_nat k)) [0..<6] @ [0]\<rparr>;
                      madt = findSDT m rsdp (map of_char ''APIC'')
                  in if madt = 0 then Inl (NullDeref ''madt->localAddress'')
                     else
                       (let c3 = c2\<lparr>localAPIC := ld32 m (madt + 36), madtFlags := ld32 m (madt + 40), nOtherProcs := 0\<rparr>
                        in rbind (returned (madt_loop m (madt + sizeof_MADT) (ld32 m (madt + 4) - sizeof_MADT) c3))
                             (\<lambda>c4. Inr (c4\<lparr>totalProcs := nOtherProcs c4 + 1\<rparr>))))))"

section \<open>The search for the root pointer\<close>

definition rsd_at :: "memory \<Rightarrow> u32 \<Rightarrow> bool" where
  "rsd_at m a \<longleftrightarrow> iseq m a (map of_char ''RSD PTR '')"

text \<open>The search ends and gives the first of the places 16 bytes apart.\<close>

lemma find_map: "List.find P (map f xs) = map_option f (List.find (\<lambda>k. P (f k)) xs)"
  by (induction xs) simp_all

lemma findRSDInRange_first:
  assumes "unat i + 16 * n = unat e" "unat e + 16 < 2 ^ 32"
  shows "findRSDInRange m i e =
    Some (case List.find (\<lambda>k. rsd_at m (i + 16 * of_nat k)) [0..<n] of None \<Rightarrow> 0 | Some k \<Rightarrow> i + 16 * of_nat k)"
  using assms(1)
proof (induction n arbitrary: i)
  case 0
  then show ?case by (subst findRSDInRange.simps) (simp add: word_less_nat_alt)
next
  case (Suc n)
  have u: "unat (i + 16) = unat i + 16" using Suc.prems assms(2) by (simp add: unat_word_ariths)
  have IH: "findRSDInRange m (i + 16) e =
      Some (case List.find (\<lambda>k. rsd_at m (i + 16 + 16 * of_nat k)) [0..<n] of None \<Rightarrow> 0 | Some k \<Rightarrow> i + 16 + 16 * of_nat k)"
    by (rule Suc.IH) (use Suc.prems u in simp)
  have up: "[0..<Suc n] = 0 # map Suc [0..<n]" by (simp add: upt_conv_Cons map_Suc_upt del: upt_Suc)
  have lt: "i < e" using Suc.prems by (simp add: word_less_nat_alt)
  have step: "i + 16 * of_nat (Suc k) = i + 16 + 16 * of_nat k" for k by (simp add: algebra_simps)
  have eq: "findRSDInRange m i e = (if rsd_at m i then Some i else findRSDInRange m (i + 16) e)"
    using lt by (subst findRSDInRange.simps) (simp add: rsd_at_def)
  show ?case
  proof (cases "rsd_at m i")
    case True
    then show ?thesis unfolding up by (simp add: eq)
  next
    case False
    then have "List.find (\<lambda>k. rsd_at m (i + 16 * of_nat k)) (0 # map Suc [0..<n]) =
        map_option Suc (List.find (\<lambda>k. rsd_at m (i + 16 + 16 * of_nat k)) [0..<n])"
      unfolding List.find.simps find_map step by simp
    then show ?thesis using False unfolding up eq IH
      by (cases "List.find (\<lambda>k. rsd_at m (i + 16 + 16 * of_nat k)) [0..<n]")
        (simp_all only: option.map option.case step if_False)
  qed
qed

lemma find_range:
  assumes "unat i + 16 * n = unat e" "unat e + 16 < 2 ^ 32"
  obtains a where "findRSDInRange m i e = Some a" "a = 0 \<or> rsd_at m a"
    "\<And>k. k < n \<Longrightarrow> rsd_at m (i + 16 * of_nat k) \<Longrightarrow> unat a \<le> unat i + 16 * k \<and> (a = 0 \<longrightarrow> i = 0)"
proof (cases "List.find (\<lambda>k. rsd_at m (i + 16 * of_nat k)) [0..<n]")
  case None
  then have "findRSDInRange m i e = Some 0" using findRSDInRange_first [OF assms, of m] by simp
  moreover have "\<not> rsd_at m (i + 16 * of_nat k)" if "k < n" for k using None that by (simp add: find_None_iff)
  ultimately show thesis using that [of 0] by simp
next
  case (Some j)
  have j: "j < n" "rsd_at m (i + 16 * of_nat j)" "\<And>k. k < j \<Longrightarrow> \<not> rsd_at m (i + 16 * of_nat k)"
    using Some by (auto simp: find_Some_iff)
  have u: "unat (i + 16 * of_nat j) = unat i + 16 * j"
  proof -
    have "unat i + 16 * j < 2 ^ 32" using j(1) assms by simp
    moreover have "unat (of_nat N :: u32) = N" if "N < 2 ^ 32" for N using that by (simp add: unsigned_of_nat take_bit_nat_eq_self)
    ultimately have "unat (of_nat (unat i + 16 * j) :: u32) = unat i + 16 * j" by blast
    moreover have "of_nat (unat i + 16 * j) = i + 16 * of_nat j" by simp
    ultimately show ?thesis by metis
  qed
  have "j \<le> k" if "rsd_at m (i + 16 * of_nat k)" for k using j(3) that by (meson not_le)
  moreover have "i = 0" if "i + 16 * of_nat j = 0" using u that by (simp add: unat_eq_0)
  ultimately show thesis using that [of "i + 16 * of_nat j"] findRSDInRange_first [OF assms, of m] Some j(2) u by simp
qed

lemma two_bytes_small:
  fixes x y :: u8
  shows "unat (ucast x OR push_bit 8 (ucast y) :: u32) < 2 ^ 16"
proof -
  let ?w = "ucast x OR push_bit 8 (ucast y) :: u32"
  have t: "take_bit 16 ?w = ?w"
  proof (rule bit_word_eqI)
    fix n
    have "n < 8" if "bit x n" using bit_imp_le_length [OF that] by simp
    moreover have "n < 16" if "8 \<le> n" "bit y (n - 8)" using bit_imp_le_length [OF that(2)] by simp
    ultimately show "bit (take_bit 16 ?w) n = bit ?w n"
      by (auto simp: bit_take_bit_iff bit_or_iff bit_push_bit_iff bit_ucast_iff)
  qed
  have "unat (take_bit 16 ?w) = take_bit 16 (unat ?w)" by (rule unsigned_take_bit_eq)
  moreover have "take_bit 16 (unat ?w) < 2 ^ 16" by (rule take_bit_nat_less_exp)
  ultimately show ?thesis unfolding t by metis
qed

text \<open>The search always ends; what it gives carries the signature, and it finds the first place of the BIOS area
  that does.\<close>

lemma findRSD_spec:
  obtains a where "findRSD m = Some a" "a = 0 \<or> rsd_at m a"
    "\<And>k. k < 0x2000 \<Longrightarrow> rsd_at m (0xE0000 + 16 * of_nat k) \<Longrightarrow> a \<noteq> 0 \<and> unat a \<le> 0xE0000 + 16 * k"
proof -
  obtain a where a: "findRSDInRange m 0xE0000 0x100000 = Some a" "a = 0 \<or> rsd_at m a"
    "\<And>k. k < 0x2000 \<Longrightarrow> rsd_at m (0xE0000 + 16 * of_nat k) \<Longrightarrow> unat a \<le> 0xE0000 + 16 * k \<and> (a = 0 \<longrightarrow> (0xE0000 :: u32) = 0)"
    using find_range [of "0xE0000" "0x2000" "0x100000" m] by auto
  show thesis
  proof (cases "a = 0")
    case False
    then show thesis using that [of a] a by (simp add: findRSD_def)
  next
    case True
    let ?w = "ucast (m 0x40E) OR push_bit 8 (ucast (m 0x40F)) :: u32"
    have w: "unat ?w < 2 ^ 16" by (rule two_bytes_small)
    have b: "unat (push_bit 4 ?w) = 16 * unat ?w" using w by (simp add: push_bit_eq_mult unat_word_ariths)
    have e: "unat (push_bit 4 ?w + push_bit 10 1) = 16 * unat ?w + 1024" using w b by (simp add: unat_word_ariths push_bit_eq_mult)
    obtain a2 where a2: "findRSDInRange m (push_bit 4 ?w) (push_bit 4 ?w + push_bit 10 1) = Some a2" "a2 = 0 \<or> rsd_at m a2"
      using find_range [of "push_bit 4 ?w" 64 "push_bit 4 ?w + push_bit 10 1" m] w unfolding b e by auto
    show thesis using that [of a2] a2 a True by (auto simp: findRSD_def Let_def)
  qed
qed

section \<open>The scan of the controllers\<close>

text \<open>The addresses the loop visits, for entries with the given lengths from \<open>p\<close>: it steps first and looks
  then, so the first entry is left out and the place behind the last one is looked at.\<close>

fun visited :: "u32 \<Rightarrow> u8 list \<Rightarrow> u32 list" where
  "visited p [] = []"
| "visited p (l # ls) = (p + ucast l) # visited (p + ucast l) ls"

fun entries_at :: "memory \<Rightarrow> u32 \<Rightarrow> u8 list \<Rightarrow> bool" where
  "entries_at m p [] = True"
| "entries_at m p (l # ls) = (m (p + 1) = l \<and> 0 < l \<and> entries_at m (p + ucast l) ls)"

definition total :: "u8 list \<Rightarrow> nat" where
  "total ls = sum_list (map unat ls)"

fun madt_all :: "memory \<Rightarrow> u32 list \<Rightarrow> config \<Rightarrow> config res" where
  "madt_all m [] c = Inr c"
| "madt_all m (p # ps) c = rbind (madt_entry m p c) (madt_all m ps)"

lemma madt_loop_visits:
  assumes "entries_at m p ls" "total ls < 2 ^ 31"
  shows "madt_loop m p (of_nat (total ls)) c = Some (madt_all m (visited p ls) c)"
  using assms
proof (induction ls arbitrary: p c)
  case Nil
  then show ?case by (subst madt_loop.simps) (simp add: total_def)
next
  case (Cons l ls)
  have t: "total (l # ls) = unat l + total ls" by (simp add: total_def)
  have l: "0 < unat l" using Cons.prems(1) by (simp add: word_less_nat_alt)
  have pos: "0 < sint (of_nat (total (l # ls)) :: u32)"
  proof -
    have "sint (of_nat (total (l # ls)) :: u32) = int (total (l # ls))"
      using Cons.prems(2) by (simp add: signed_of_nat signed_take_bit_int_eq_self)
    moreover have "0 < total (l # ls)" using t l by simp
    ultimately show ?thesis by simp
  qed
  have sub: "of_nat (total (l # ls)) - ucast l = (of_nat (total ls) :: u32)"
    unfolding t by (simp add: unsigned_ucast_eq)
  have "total ls < 2 ^ 31" using Cons.prems(2) t by simp
  then have IH: "madt_loop m (p + ucast l) (of_nat (total ls)) c' = Some (madt_all m (visited (p + ucast l) ls) c')" for c'
    using Cons by simp
  show ?case using pos Cons.prems(1) IH
    by (subst madt_loop.simps) (simp add: Let_def sub split: sum.split)
qed

text \<open>The entries that describe another processor.\<close>

definition other_procs :: "memory \<Rightarrow> u32 list \<Rightarrow> u32 list" where
  "other_procs m ps = filter (\<lambda>p. m p = 0 \<and> m (p + 2) \<noteq> 0) ps"

lemma madt_entry_cases:
  "m p = 0 \<Longrightarrow> m (p + 2) \<noteq> 0 \<Longrightarrow> unat (nOtherProcs c) < length (apicInfo c) \<Longrightarrow>
     madt_entry m p c = Inr (c\<lparr>apicInfo := (apicInfo c)[unat (nOtherProcs c) := apic_at m p], nOtherProcs := nOtherProcs c + 1\<rparr>)"
  "\<not> (m p = 0 \<and> m (p + 2) \<noteq> 0) \<Longrightarrow> \<exists>a. madt_entry m p c = Inr (c\<lparr>ioAPIC := a\<rparr>)"
  by (auto simp: madt_entry_def not_le intro: exI [of _ "ioAPIC c"])

lemma madt_all_spec:
  assumes "unat (nOtherProcs c) + length (other_procs m ps) \<le> length (apicInfo c)" "length (apicInfo c) \<le> 16"
  shows "\<exists>a. madt_all m ps c = Inr (c\<lparr>ioAPIC := a, nOtherProcs := nOtherProcs c + of_nat (length (other_procs m ps)),
    apicInfo := take (unat (nOtherProcs c)) (apicInfo c) @ map (apic_at m) (other_procs m ps) @
      drop (unat (nOtherProcs c) + length (other_procs m ps)) (apicInfo c)\<rparr>)"
  using assms
proof (induction ps arbitrary: c)
  case Nil
  show ?case by (intro exI [of _ "ioAPIC c"]) (simp add: other_procs_def)
next
  case (Cons p ps)
  show ?case
  proof (cases "m p = 0 \<and> m (p + 2) \<noteq> 0")
    case True
    let ?n = "unat (nOtherProcs c)"
    have o: "other_procs m (p # ps) = p # other_procs m ps" using True by (simp add: other_procs_def)
    have lt: "?n < length (apicInfo c)" using Cons.prems(1) by (simp add: o)
    let ?c = "c\<lparr>apicInfo := (apicInfo c)[?n := apic_at m p], nOtherProcs := nOtherProcs c + 1\<rparr>"
    have u: "unat (nOtherProcs c + 1) = ?n + 1" using lt Cons.prems(2) by (simp add: unat_word_ariths)
    obtain a where "madt_all m ps ?c = Inr (?c\<lparr>ioAPIC := a, nOtherProcs := nOtherProcs ?c + of_nat (length (other_procs m ps)),
        apicInfo := take (unat (nOtherProcs ?c)) (apicInfo ?c) @ map (apic_at m) (other_procs m ps) @
          drop (unat (nOtherProcs ?c) + length (other_procs m ps)) (apicInfo ?c)\<rparr>)"
      using Cons.IH [of ?c] Cons.prems u by (auto simp: o)
    moreover have "take (?n + 1) ((apicInfo c)[?n := apic_at m p]) = take ?n (apicInfo c) @ [apic_at m p]"
      using lt by (simp add: take_Suc_conv_app_nth)
    ultimately show ?thesis using madt_entry_cases(1) [of m p c] True lt u
      by (intro exI [of _ a]) (simp add: o drop_update_cancel algebra_simps)
  next
    case False
    have o: "other_procs m (p # ps) = other_procs m ps" using False by (simp add: other_procs_def)
    obtain a where a: "madt_entry m p c = Inr (c\<lparr>ioAPIC := a\<rparr>)" using madt_entry_cases(2) [OF False, of c] by blast
    show ?thesis using Cons.IH [of "c\<lparr>ioAPIC := a\<rparr>"] Cons.prems a by (simp add: o)
  qed
qed

text \<open>C33: Finding the processors.  Given the root pointer and a table of interrupt controllers whose entries all
  have a length, the discovery ends and counts the processors of the entries it looks at, in order, with at most 16
  others; and those entries are all but the first one, which is never looked at, and the bytes behind the last
  one, which are looked at as if they were an entry.\<close>

theorem config_spec:
  assumes "mi_cx i = 15 * 1024 \<or> mi_dx i = 0" "findRSD m = Some r" "r \<noteq> 0"
    and "madt = findSDT m r (map of_char ''APIC'')" "madt \<noteq> 0"
    and "ld32 m (madt + 4) = 44 + of_nat (total ls)" "entries_at m (madt + 44) ls" "total ls < 2 ^ 31"
    and "os = other_procs m (visited (madt + 44) ls)" "length os \<le> 16" "length (apicInfo c) = 16"
  shows "\<exists>c'. configInit i m c = Inr c' \<and> totalProcs c' = of_nat (length os + 1) \<and>
    take (length os) (apicInfo c') = map (apic_at m) os \<and> localAPIC c' = ld32 m (madt + 36) \<and>
    memSize c' = push_bit 10 (ucast (mi_ax i OR mi_cx i)) + push_bit 16 (ucast (mi_bx i OR mi_dx i)) + 0x100000"
proof -
  let ?c = "c\<lparr>memSize := push_bit 10 (ucast (mi_ax i OR mi_cx i)) + push_bit 16 (ucast (mi_bx i OR mi_dx i)) + push_bit 20 1,
    oemid := map (\<lambda>k. m (r + 9 + of_nat k)) [0..<6] @ [0], localAPIC := ld32 m (madt + 36), madtFlags := ld32 m (madt + 40),
    nOtherProcs := 0\<rparr>"
  obtain a where a: "madt_all m (visited (madt + 44) ls) ?c = Inr (?c\<lparr>ioAPIC := a, nOtherProcs := of_nat (length os),
      apicInfo := map (apic_at m) os @ drop (length os) (apicInfo c)\<rparr>)"
    using madt_all_spec [of ?c m "visited (madt + 44) ls"] assms(10,11) by (auto simp: assms(9) [symmetric])
  have t: "findSDT m r [65, 80, 73, 67] = madt" using assms(4) by simp
  have "madt_loop m (madt + sizeof_MADT) (ld32 m (madt + 4) - sizeof_MADT) ?c = Some (madt_all m (visited (madt + 44) ls) ?c)"
    using madt_loop_visits [OF assms(7,8)] by (simp add: assms(6) sizeof_MADT_def)
  then have "configInit i m c = Inr (?c\<lparr>ioAPIC := a, nOtherProcs := of_nat (length os),
      apicInfo := map (apic_at m) os @ drop (length os) (apicInfo c), totalProcs := of_nat (length os) + 1\<rparr>)"
    using assms(1-3,5) t a unfolding configInit_def memAbove1M_def Let_def by simp
  then show ?thesis using assms(11) by simp
qed

text \<open>A machine with two processors.\<close>

definition demo_acpi :: memory where
  "demo_acpi = (\<lambda>_. 0)(0xE0000 := 82, 0xE0001 := 83, 0xE0002 := 68, 0xE0003 := 32, 0xE0004 := 80, 0xE0005 := 84, 0xE0006 := 82,
     0xE0007 := 32, 0xE0011 := 0x10, 0x1004 := 40, 0x1025 := 0x20, 0x2000 := 65, 0x2001 := 80, 0x2002 := 73, 0x2003 := 67,
     0x2004 := 60, 0x2026 := 0xE0, 0x2027 := 0xFE, 0x202D := 8, 0x2035 := 8, 0x2036 := 1, 0x2037 := 1, 0x2038 := 1)"

definition no_config :: config where
  "no_config = \<lparr>memSize = 0, nOtherProcs = 0, totalProcs = 0, localAPIC = 0, madtFlags = 0, ioAPIC = 0,
     apicInfo = replicate 16 \<lparr>processorId = 0, apicId = 0, apicFlags = 0\<rparr>, oemid = replicate 7 0\<rparr>"

theorem config_spec_witness:
  "\<exists>c'. configInit \<lparr>mi_ax = 15360, mi_bx = 256, mi_cx = 15360, mi_dx = 256\<rparr> demo_acpi no_config = Inr c' \<and>
    totalProcs c' = 2 \<and> take 1 (apicInfo c') = [\<lparr>processorId = 1, apicId = 1, apicFlags = 1\<rparr>] \<and> localAPIC c' = 0xFEE00000 \<and>
    memSize c' = 0x2000000"
proof -
  have r: "findRSD demo_acpi = Some 0xE0000"
    by (simp add: findRSD_def findRSDInRange.simps [of _ "0xE0000"] demo_acpi_def)
  have t: "findSDT demo_acpi 0xE0000 (map of_char ''APIC'') = 0x2000"
    by (simp add: findSDT_def demo_acpi_def ld32_def sizeof_SDT_def)
  have os: "other_procs demo_acpi (visited (0x2000 + 44) [8, 8]) = [0x2034]"
    by (simp add: other_procs_def demo_acpi_def)
  show ?thesis
    using config_spec [of _ demo_acpi _ _ "[8, 8]" _ no_config, OF _ r _ t [symmetric] _ _ _ _ os [symmetric],
        of "\<lparr>mi_ax = 15360, mi_bx = 256, mi_cx = 15360, mi_dx = 256\<rparr>"]
    by (simp add: total_def no_config_def demo_acpi_def ld32_def apic_at_def)
qed

end
