(* ===== verification/VMM.thy ===== *)
theory VMM
  imports PhysMem Kernel_Config
begin

text \<open>
  Virtual memory, \<^verbatim>\<open>kernel/vmm.cc\<close>: page directories and page tables in physical frames, the
  page-fault handler that backs user addresses with zeroed frames, and the construction and
  destruction of address spaces.  \<open>translate\<close> is what the processor's page walk computes; it
  is the specification against which \<^verbatim>\<open>map\<close>, \<^verbatim>\<open>unmap\<close> and the handler are proved.
\<close>

section \<open>Page tables\<close>

definition pdi :: "u32 \<Rightarrow> u32" where
  "pdi va = drop_bit 22 va"

definition pti :: "u32 \<Rightarrow> u32" where
  "pti va = drop_bit 12 va AND 0x3FF"

definition present :: "u32 \<Rightarrow> bool" where
  "present e \<longleftrightarrow> e AND 1 \<noteq> 0"

definition frame_of :: "u32 \<Rightarrow> u32" where
  "frame_of e = e AND 0xFFFFF000"

text \<open>The first half of \<^verbatim>\<open>map\<close> finds the directory entry, and gives it a new table if it has
  none; the second half writes the table.\<close>

definition pd_entry :: "u32 \<Rightarrow> u32 \<Rightarrow> phys \<Rightarrow> (u32 \<times> phys) res" where
  "pd_entry pd va s =
     (let pde = ld32 (pmem s) (pd + 4 * pdi va)
      in if \<not> present pde then
           rbind (alloc_frame s) (\<lambda>(f, s1).
             let pde' = f OR 7
             in Inr (pde', s1\<lparr>pmem := st32 (pd + 4 * pdi va) pde' (pmem s1)\<rparr>))
         else Inr (pde, s))"

definition map_page :: "u32 \<Rightarrow> u32 \<Rightarrow> u32 \<Rightarrow> phys \<Rightarrow> phys res" where
  "map_page pd va pa s =
     rbind (pd_entry pd va s) (\<lambda>(pde, s1).
       let pt = frame_of pde
       in Inr (s1\<lparr>pmem := st32 (pt + 4 * pti va) (pa OR 7) (pmem s1)\<rparr>))"

definition unmap_page :: "u32 \<Rightarrow> u32 \<Rightarrow> phys \<Rightarrow> phys res" where
  "unmap_page pd va s =
     (let pde = ld32 (pmem s) (pd + 4 * pdi va)
      in if \<not> present pde then Inr s
         else
           (let pt = frame_of (ld32 (pmem s) (pd + 4 * pdi va));
                pte = ld32 (pmem s) (pt + 4 * pti va)
            in if \<not> present pte then Inr s
               else
                 (let pa = frame_of pte;
                      s1 = s\<lparr>pmem := st32 (pt + 4 * pti va) 0 (pmem s)\<rparr>
                  in rbind (dealloc_frame pa s1) (\<lambda>s2.
                       Inr (s2\<lparr>flushed := flushed s2 @ [va]\<rparr>)))))"

text \<open>\<open>shared\<close> is the page directory \<^verbatim>\<open>global_init\<close> builds; the constants are those of
  \<^verbatim>\<open>make_pd\<close>.\<close>

definition m4 :: u32 where
  "m4 = 4 * 1024 * 1024"

definition shared_size :: "config \<Rightarrow> u32" where
  "shared_size cfg = 4 * ((memSize cfg + m4 - 1) div m4)"

definition make_pd :: "config \<Rightarrow> u32 \<Rightarrow> phys \<Rightarrow> (u32 \<times> phys) res" where
  "make_pd cfg shared s =
     rbind (alloc_frame s) (\<lambda>(pd, s1).
     rbind (map_page pd (ioAPIC cfg) (ioAPIC cfg)
              (s1\<lparr>pmem := memcpy pd shared (shared_size cfg) (pmem s1)\<rparr>)) (\<lambda>s2.
     rbind (map_page pd (localAPIC cfg) (localAPIC cfg) s2) (\<lambda>s3.
     Inr (pd, s3))))"

fun delete_tables :: "u32 \<Rightarrow> nat \<Rightarrow> nat \<Rightarrow> phys \<Rightarrow> phys res" where
  "delete_tables pd i 0 s = Inr s"
| "delete_tables pd i (Suc n) s =
     (let pde = ld32 (pmem s) (pd + 4 * of_nat i)
      in rbind (if present pde then dealloc_frame (frame_of pde) s else Inr s)
           (delete_tables pd (Suc i) n))"

definition delete_pd :: "u32 \<Rightarrow> phys \<Rightarrow> phys res" where
  "delete_pd pd s = rbind (delete_tables pd 512 512 s) (dealloc_frame pd)"

text \<open>\<^verbatim>\<open>global_init\<close> maps the memory to itself; the loop variable is a 32-bit word, so the
  loop need not end.\<close>

partial_function (option) map_range :: "u32 \<Rightarrow> u32 \<Rightarrow> u32 \<Rightarrow> phys \<Rightarrow> phys res option" where
  "map_range pd va bound s =
     (if va < bound then
        (case map_page pd va va s of
           Inl e \<Rightarrow> Some (Inl e)
         | Inr s1 \<Rightarrow> map_range pd (va + FRAME_SIZE) bound s1)
      else Some (Inr s))"

definition global_init :: "config \<Rightarrow> phys \<Rightarrow> (u32 \<times> phys) res" where
  "global_init cfg s =
     rbind (alloc_frame s) (\<lambda>(shared, s1).
     rbind (returned (map_range shared FRAME_SIZE (memSize cfg) s1)) (\<lambda>s2. Inr (shared, s2)))"

text \<open>\<^verbatim>\<open>vmm_pageFault\<close>: the two assertions say that the running thread's page directory is the
  processor's; \<open>cr3\<close> is that register.\<close>

definition vmm_pageFault :: "u32 \<Rightarrow> u32 \<Rightarrow> u32 \<Rightarrow> u32 \<Rightarrow> phys \<Rightarrow> phys res" where
  "vmm_pageFault me_pd save_cr3 cr3 va0 s =
     assertR ''(uint32_t)me->pd == getCR3()'' (me_pd = cr3)
    (assertR ''me->saveArea.cr3 == getCR3()'' (save_cr3 = cr3)
      (let va = framedown va0
       in if 0x80000000 \<le> va then
            rbind (alloc_frame s) (\<lambda>(pa, s1). map_page me_pd va pa s1)
          else Inl (Panic ''*** can't handle page fault'')))"

text \<open>The processor's page walk.\<close>

definition translate :: "memory \<Rightarrow> u32 \<Rightarrow> u32 \<Rightarrow> u32 option" where
  "translate m pd va =
     (let pde = ld32 m (pd + 4 * pdi va)
      in if \<not> present pde then None
         else
           (let pte = ld32 m (frame_of pde + 4 * pti va)
            in if \<not> present pte then None else Some (frame_of pte OR frame_offset va)))"


section \<open>Entries and addresses\<close>

lemma high_mask: "(0xFFFFF000 :: u32) = NOT (mask 12)"
  by (simp add: mask_eq_exp_minus_1)

lemma aligned_take_bit: "aligned p \<longleftrightarrow> take_bit 12 p = 0"
proof -
  have "uint (take_bit 12 p) = uint p mod 4096"
    by (simp only: unsigned_take_bit_eq) (simp add: take_bit_eq_mod)
  then show ?thesis unfolding aligned_def by (metis uint_0_iff)
qed

lemma aligned_bit: "aligned p \<Longrightarrow> n < 12 \<Longrightarrow> \<not> bit p n"
  by (metis aligned_take_bit bit_0_eq bit_take_bit_iff bot_apply bot_bool_def)

lemma bit_7: "bit (7 :: u32) n \<longleftrightarrow> n < 3"
proof -
  have "bit (7 :: int) n \<longleftrightarrow> n < 3"
    using bit_mask_iff [of 3 n, where 'a = int] by (simp add: mask_eq_exp_minus_1)
  then show ?thesis by (auto dest: bit_imp_le_length)
qed

lemma frame_of_bit: "bit (frame_of e) n \<longleftrightarrow> bit e n \<and> 12 \<le> n"
  unfolding frame_of_def high_mask
  by (auto simp: bit_and_iff bit_not_iff bit_mask_iff dest: bit_imp_le_length)

lemma aligned_frame_of [simp]: "aligned (frame_of e)"
  unfolding aligned_take_bit by (rule bit_word_eqI) (auto simp: bit_take_bit_iff frame_of_bit)

lemma frame_of_or7:
  assumes "aligned p"
  shows "frame_of (p OR 7) = p"
proof (rule bit_word_eqI)
  fix n :: nat
  show "bit (frame_of (p OR 7)) n = bit p n"
    using aligned_bit [OF assms, of n] by (cases "n < 12") (auto simp only: frame_of_bit bit_or_iff bit_7)
qed

lemma present_or7 [simp]: "present (p OR 7)"
proof -
  have "bit ((p OR 7) AND 1) 0" by (simp add: bit_and_iff bit_or_iff bit_7 bit_1_iff)
  then show ?thesis unfolding present_def by (metis bit_0_eq bot_apply bot_bool_def)
qed

lemma not_present_0 [simp]: "\<not> present 0"
  by (simp add: present_def)

lemma uint_pdi: "uint (pdi va) = uint va div 4194304"
proof -
  have "pdi va = va div 4194304" by (simp add: pdi_def drop_bit_eq_div)
  then show ?thesis by (simp add: uint_div)
qed

lemma uint_pti: "uint (pti va) = uint va div 4096 mod 1024"
proof -
  have "(0x3FF :: u32) = mask 10" by (simp add: mask_eq_exp_minus_1)
  then have "pti va = take_bit 10 (drop_bit 12 va)" by (simp only: pti_def take_bit_eq_mask)
  then have "pti va = va div 4096 mod 1024" by (simp add: drop_bit_eq_div take_bit_eq_mod)
  then show ?thesis by (simp add: uint_div uint_mod)
qed

lemma index_bounds [simp]: "uint (pdi va) < 1024" "uint (pti va) < 1024"
proof -
  have "4194304 * (uint va div 4194304) \<le> uint va" by simp
  also have "uint va < 4294967296" using uint_lt2p [of va] by simp
  finally show "uint (pdi va) < 1024" unfolding uint_pdi by simp
  show "uint (pti va) < 1024" by (simp add: uint_pti)
qed

lemma uint_framedown: "uint (framedown va) = uint va div 4096 * 4096"
proof -
  have "uint va div 4096 * 4096 \<le> uint va" by simp
  also have "uint va < 2 ^ 32" using uint_lt2p [of va] by simp
  finally have "uint (va div FRAME_SIZE) * uint FRAME_SIZE < 2 ^ 32"
    by (simp add: FRAME_SIZE_eq uint_div)
  then have "uint (va div FRAME_SIZE * FRAME_SIZE) = uint (va div FRAME_SIZE) * uint FRAME_SIZE"
    using uint_mult_lem [of "va div FRAME_SIZE" FRAME_SIZE] by simp
  then show ?thesis by (simp add: framedown_def FRAME_SIZE_eq uint_div)
qed

lemma aligned_framedown [simp]: "aligned (framedown va)"
  by (simp add: aligned_def uint_framedown)

definition same_page :: "u32 \<Rightarrow> u32 \<Rightarrow> bool" where
  "same_page va va' \<longleftrightarrow> framedown va = framedown va'"

lemma same_page_iff: "same_page va va' \<longleftrightarrow> pdi va = pdi va' \<and> pti va = pti va'"
proof -
  have d: "x div 4194304 = x div 4096 div 1024" for x :: int
    by (simp add: zdiv_zmult2_eq [symmetric])
  have "same_page va va' \<longleftrightarrow> uint va div 4096 = uint va' div 4096"
    by (simp add: same_page_def word_uint_eq_iff uint_framedown)
  also have "\<dots> \<longleftrightarrow> uint va div 4096 div 1024 = uint va' div 4096 div 1024 \<and>
      uint va div 4096 mod 1024 = uint va' div 4096 mod 1024"
    by (metis div_mult_mod_eq)
  finally show ?thesis by (simp add: word_uint_eq_iff uint_pdi uint_pti d)
qed

lemma framedown_idem [simp]: "framedown (framedown va) = framedown va"
  by (simp add: word_uint_eq_iff uint_framedown)

section \<open>Loads and stores of entries\<close>

lemma entry_addr:
  assumes "aligned p" and "uint i < 1024"
  shows "uint (p + 4 * i) = uint p + 4 * uint i" "uint (p + 4 * i) mod 4 = 0"
    "uint p \<le> uint (p + 4 * i)" "uint (p + 4 * i) + 4 \<le> uint p + 4096"
proof -
  have "uint p + 4096 \<le> 2 ^ 32" by (rule aligned_room [OF assms(1)])
  moreover have "uint (4 * i) = 4 * uint i" using assms(2) by (simp add: uint_word_ariths)
  ultimately show u: "uint (p + 4 * i) = uint p + 4 * uint i"
    using assms(2) uint_add_small [of p "4 * i"] by simp
  have "0 \<le> uint i" by (rule uint_ge_0)
  then show "uint p \<le> uint (p + 4 * i)" "uint (p + 4 * i) + 4 \<le> uint p + 4096"
    using u assms(2) by linarith+
  obtain k where "uint p = 4096 * k" by (rule alignedE [OF assms(1)])
  then show "uint (p + 4 * i) mod 4 = 0" unfolding u by simp
qed

lemma ld32_st32_entry:
  assumes "aligned p" and "aligned q" and "uint i < 1024" and "uint j < 1024"
  shows "ld32 (st32 (p + 4 * i) v m) (q + 4 * j) = (if p = q \<and> i = j then v else ld32 m (q + 4 * j))"
proof (cases "p = q \<and> i = j")
  case False
  have "p + 4 * i \<noteq> q + 4 * j"
  proof
    assume eq: "p + 4 * i = q + 4 * j"
    have "uint p + 4 * uint i = uint q + 4 * uint j"
      using entry_addr(1) [OF assms(1,3)] entry_addr(1) [OF assms(2,4)] eq by simp
    moreover from assms(1,2) obtain k l where "uint p = 4096 * k" "uint q = 4096 * l"
      by (blast elim: alignedE)
    moreover have "0 \<le> uint i" "0 \<le> uint j" by (rule uint_ge_0)+
    ultimately have "\<not> k < l" "\<not> l < k" using assms(3,4) by linarith+
    then have "k = l" by simp
    then have "uint p = uint q" "uint i = uint j"
      using \<open>uint p = 4096 * k\<close> \<open>uint q = 4096 * l\<close> \<open>uint p + 4 * uint i = uint q + 4 * uint j\<close>
      by simp_all
    then show False using False by (simp add: word_uint_eq_iff)
  qed
  then show ?thesis
    unfolding if_not_P [OF False]
    by (rule ld32_st32_other [OF entry_addr(2) [OF assms(1,3)] entry_addr(2) [OF assms(2,4)]])
qed simp

lemma ld32_entry_cong:
  assumes "aligned p" and "uint i < 1024" and "\<And>b. b \<in> frame_span p \<Longrightarrow> m' b = m b"
  shows "ld32 m' (p + 4 * i) = ld32 m (p + 4 * i)"
  by (rule ld32_frame_cong [OF assms(1)]) (use entry_addr [OF assms(1,2)] assms(3) in auto)

lemma st32_entry_other:
  assumes "aligned p" and "uint i < 1024" and "b \<notin> frame_span p"
  shows "st32 (p + 4 * i) v m b = m b"
proof (rule st32_other)
  have "uint b < uint p \<or> uint p + 4096 \<le> uint b" using assms(3) by (auto simp: frame_span_def)
  then show "uint b < uint (p + 4 * i) \<or> uint (p + 4 * i) + 4 \<le> uint b"
    using entry_addr(3,4) [OF assms(1,2)] by linarith
qed (rule entry_addr(2) [OF assms(1,2)])


section \<open>Address spaces\<close>

text \<open>The entry of a directory for an index, and the tables it points to.\<close>

definition entry :: "memory \<Rightarrow> u32 \<Rightarrow> u32 \<Rightarrow> u32" where
  "entry m pd i = ld32 m (pd + 4 * i)"

definition tables :: "memory \<Rightarrow> u32 \<Rightarrow> u32 set" where
  "tables m pd = {frame_of (entry m pd i) | i. uint i < 1024 \<and> present (entry m pd i)}"

text \<open>A directory in order: it and its tables are live frames, all different.\<close>

definition as_inv :: "u32 \<Rightarrow> phys \<Rightarrow> u32 \<Rightarrow> bool" where
  "as_inv start s pd \<longleftrightarrow>
     pm_inv start s \<and> pd \<in> pm_live start s \<and> tables (pmem s) pd \<subseteq> pm_live start s - {pd} \<and>
     (\<forall>i j. uint i < 1024 \<longrightarrow> uint j < 1024 \<longrightarrow> present (entry (pmem s) pd i) \<longrightarrow>
        present (entry (pmem s) pd j) \<longrightarrow>
        frame_of (entry (pmem s) pd i) = frame_of (entry (pmem s) pd j) \<longrightarrow> i = j)"

text \<open>A translation reads the directory and one table.\<close>

lemma translate_entry:
  "translate m pd va =
     (if \<not> present (entry m pd (pdi va)) then None
      else if \<not> present (entry m (frame_of (entry m pd (pdi va))) (pti va)) then None
      else Some (frame_of (entry m (frame_of (entry m pd (pdi va))) (pti va)) OR frame_offset va))"
  by (simp add: translate_def entry_def Let_def)

lemma entry_cong: "aligned p \<Longrightarrow> uint i < 1024 \<Longrightarrow> (\<And>b. b \<in> frame_span p \<Longrightarrow> m' b = m b) \<Longrightarrow>
    entry m' p i = entry m p i"
  unfolding entry_def by (rule ld32_entry_cong)

lemma tables_cong:
  assumes "aligned pd" and "\<And>b. b \<in> frame_span pd \<Longrightarrow> m' b = m b"
  shows "tables m' pd = tables m pd"
  using entry_cong [OF assms(1), of _ m' m] assms(2) unfolding tables_def by (metis (no_types, lifting))

lemma translate_cong:
  assumes "aligned pd" and "\<And>f b. f \<in> insert pd (tables m pd) \<Longrightarrow> b \<in> frame_span f \<Longrightarrow> m' b = m b"
  shows "translate m' pd va = translate m pd va"
proof -
  have e: "entry m' pd (pdi va) = entry m pd (pdi va)"
    by (rule entry_cong [OF assms(1)]) (use assms(2) in auto)
  show ?thesis
  proof (cases "present (entry m pd (pdi va))")
    case True
    then have "frame_of (entry m pd (pdi va)) \<in> tables m pd" by (auto simp: tables_def)
    then have "entry m' (frame_of (entry m pd (pdi va))) (pti va) =
        entry m (frame_of (entry m pd (pdi va))) (pti va)"
      by (intro entry_cong) (use assms(2) in auto)
    then show ?thesis by (simp add: translate_entry e)
  qed (simp add: translate_entry e)
qed

lemma as_invD:
  assumes "as_inv start s pd"
  shows "pm_inv start s" "pd \<in> pm_live start s" "aligned pd" "tables (pmem s) pd \<subseteq> pm_live start s"
    "pd \<notin> tables (pmem s) pd"
  using assms pm_live_aligned unfolding as_inv_def by blast+

text \<open>A change of memory outside an address space keeps it in order.\<close>

lemma as_inv_frame:
  assumes a: "as_inv start s pd" and "pm_inv start s'" and "pm_live start s \<subseteq> pm_live start s'"
    and m: "\<And>f b. f \<in> insert pd (tables (pmem s) pd) \<Longrightarrow> b \<in> frame_span f \<Longrightarrow> pmem s' b = pmem s b"
  shows "as_inv start s' pd" "translate (pmem s') pd va = translate (pmem s) pd va"
    "tables (pmem s') pd = tables (pmem s) pd"
proof -
  note d = as_invD [OF a]
  have e: "entry (pmem s') pd i = entry (pmem s) pd i" if "uint i < 1024" for i
    by (rule entry_cong [OF d(3) that]) (use m in auto)
  show t: "tables (pmem s') pd = tables (pmem s) pd" by (rule tables_cong [OF d(3)]) (use m in auto)
  show "translate (pmem s') pd va = translate (pmem s) pd va" by (rule translate_cong [OF d(3)]) (use m in auto)
  show "as_inv start s' pd" using a assms(2,3) e t unfolding as_inv_def by auto
qed

text \<open>Writing an entry of a frame that is not on the free list.\<close>

lemma put_entry_inv:
  assumes "pm_inv start s" and "p \<in> pm_live start s" and "uint i < 1024"
  shows "pm_inv start (s\<lparr>pmem := st32 (p + 4 * i) v (pmem s)\<rparr>)"
    "pm_live start (s\<lparr>pmem := st32 (p + 4 * i) v (pmem s)\<rparr>) = pm_live start s"
  by (rule frame_write_inv [OF assms(1,2)], rule st32_entry_other [OF pm_live_aligned [OF assms(2)] assms(3)],
      assumption)+

section \<open>map\<close>

lemma entry_st32:
  "aligned p \<Longrightarrow> aligned q \<Longrightarrow> uint i < 1024 \<Longrightarrow> uint j < 1024 \<Longrightarrow>
     entry (st32 (p + 4 * i) v m) q j = (if p = q \<and> i = j then v else entry m q j)"
  unfolding entry_def by (rule ld32_st32_entry)

lemma entry_zero:
  assumes "aligned p" and "uint i < 1024" and "\<forall>b\<in>frame_span p. m b = 0"
  shows "entry m p i = 0"
proof -
  have "entry m p i = entry (\<lambda>_. 0) p i" by (rule entry_cong) (use assms in auto)
  then show ?thesis by (simp add: entry_def ld32_def)
qed

text \<open>Hanging a new zeroed table into a directory changes no translation.\<close>

lemma hang_table:
  assumes a: "as_inv start s pd" and np: "\<not> present (entry (pmem s) pd i)" and i: "uint i < 1024"
    and inv: "pm_inv start s1" and f: "aligned f" "f \<notin> pm_live start s" "pm_live start s1 = insert f (pm_live start s)"
    and m: "pmem s1 = (\<lambda>b. if b \<in> frame_span f then 0 else pmem s b)"
  defines "s2 \<equiv> s1\<lparr>pmem := st32 (pd + 4 * i) (f OR 7) (pmem s1)\<rparr>"
  shows "as_inv start s2 pd" "pm_live start s2 = insert f (pm_live start s)"
    "translate (pmem s2) pd va = translate (pmem s) pd va"
    "entry (pmem s2) pd i = f OR 7" "tables (pmem s2) pd = insert f (tables (pmem s) pd)"
    "b \<notin> frame_span pd \<Longrightarrow> b \<notin> frame_span f \<Longrightarrow> pmem s2 b = pmem s b"
    "uint j < 1024 \<Longrightarrow> j \<noteq> i \<Longrightarrow> entry (pmem s2) pd j = entry (pmem s) pd j"
proof -
  note d = as_invD [OF a]
  have fp: "f \<noteq> pd" using d(2) f(2) by auto
  have m1: "entry (pmem s1) q j = entry (pmem s) q j" if "q \<in> pm_live start s" "uint j < 1024" for q j
  proof (rule entry_cong [OF pm_live_aligned [OF that(1)] that(2)])
    fix b assume "b \<in> frame_span q"
    then show "pmem s1 b = pmem s b"
      using frame_span_disjoint [OF pm_live_aligned [OF that(1)] f(1)] that(1) f(2) m by auto
  qed
  have e2: "entry (pmem s2) pd j = (if j = i then f OR 7 else entry (pmem s) pd j)" if "uint j < 1024" for j
    using entry_st32 [OF d(3,3) i that] m1 [OF d(2) that] by (simp add: s2_def)
  show e: "entry (pmem s2) pd i = f OR 7" using e2 [OF i] by simp
  show "uint j < 1024 \<Longrightarrow> j \<noteq> i \<Longrightarrow> entry (pmem s2) pd j = entry (pmem s) pd j" for j using e2 by simp
  have eq: "entry (pmem s2) q j = entry (pmem s1) q j" if "aligned q" "q \<noteq> pd" "uint j < 1024" for q j
    using entry_st32 [OF d(3) that(1) i that(3)] that(2) by (simp add: s2_def)
  have live2: "pm_live start s2 = insert f (pm_live start s)" "pm_inv start s2"
    using put_entry_inv [OF inv _ i, of pd "f OR 7"] d(2) f(3) by (simp_all add: s2_def)
  then show "pm_live start s2 = insert f (pm_live start s)" by simp
  show t: "tables (pmem s2) pd = insert f (tables (pmem s) pd)"
  proof (intro set_eqI iffI)
    fix x assume "x \<in> tables (pmem s2) pd"
    then obtain j where "uint j < 1024" "present (entry (pmem s2) pd j)" "x = frame_of (entry (pmem s2) pd j)"
      by (auto simp: tables_def)
    then show "x \<in> insert f (tables (pmem s) pd)"
      using e2 [of j] frame_of_or7 [OF f(1)] by (cases "j = i") (auto simp: tables_def)
  next
    fix x assume "x \<in> insert f (tables (pmem s) pd)"
    then consider "x = f" | j where "uint j < 1024" "present (entry (pmem s) pd j)" "x = frame_of (entry (pmem s) pd j)"
      by (auto simp: tables_def)
    then show "x \<in> tables (pmem s2) pd"
    proof cases
      case 1
      then show ?thesis using e frame_of_or7 [OF f(1)] i unfolding tables_def by (auto intro!: exI [of _ i])
    next
      case (2 j)
      then have "j \<noteq> i" using np by auto
      then show ?thesis using 2 e2 [of j] unfolding tables_def by (auto intro!: exI [of _ j])
    qed
  qed
  show "as_inv start s2 pd"
    unfolding as_inv_def
  proof (intro conjI allI impI)
    show "pm_inv start s2" "pd \<in> pm_live start s2" using live2 d(2) by auto
    show "tables (pmem s2) pd \<subseteq> pm_live start s2 - {pd}" using t live2 d(4,5) fp by auto
    fix j k assume jk: "uint j < 1024" "uint k < 1024" "present (entry (pmem s2) pd j)"
      "present (entry (pmem s2) pd k)" "frame_of (entry (pmem s2) pd j) = frame_of (entry (pmem s2) pd k)"
    have old: "frame_of (entry (pmem s) pd l) \<noteq> f" if "uint l < 1024" "present (entry (pmem s) pd l)" for l
      using that d(4) f(2) by (auto simp: tables_def)
    show "j = k"
      using jk e2 [of j] e2 [of k] old [of j] old [of k] frame_of_or7 [OF f(1)] a unfolding as_inv_def
      by (auto split: if_splits)
  qed
  show "translate (pmem s2) pd va = translate (pmem s) pd va"
  proof (cases "pdi va = i")
    case True
    have "entry (pmem s2) f (pti va) = entry (pmem s1) f (pti va)" by (rule eq) (use f(1) fp in auto)
    also have "\<dots> = 0" by (rule entry_zero) (use f(1) m in auto)
    finally have "entry (pmem s2) f (pti va) = 0" .
    then show ?thesis using True np e frame_of_or7 [OF f(1)] by (simp add: translate_entry)
  next
    case False
    let ?e = "entry (pmem s) pd (pdi va)"
    have "entry (pmem s2) (frame_of ?e) (pti va) = entry (pmem s) (frame_of ?e) (pti va)" if "present ?e"
    proof -
      have "frame_of ?e \<in> tables (pmem s) pd" using that by (auto simp: tables_def)
      then have "frame_of ?e \<in> pm_live start s" "frame_of ?e \<noteq> pd" using d(4,5) by auto
      then show ?thesis using eq [OF aligned_frame_of _ index_bounds(2)] m1 [OF _ index_bounds(2)] by metis
    qed
    then show ?thesis using False e2 [of "pdi va"] by (simp add: translate_entry Let_def)
  qed
  show "pmem s2 b = pmem s b" if "b \<notin> frame_span pd" "b \<notin> frame_span f"
    using that st32_entry_other [OF d(3) i that(1)] by (simp add: s2_def m)
qed

text \<open>Writing an entry of one of its tables changes the translations of one page.\<close>

lemma write_table:
  assumes a: "as_inv start s pd" and p: "present (entry (pmem s) pd (pdi va))"
  defines "t \<equiv> frame_of (entry (pmem s) pd (pdi va))"
  defines "s2 v \<equiv> s\<lparr>pmem := st32 (t + 4 * pti va) v (pmem s)\<rparr>"
  shows "as_inv start (s2 v) pd" "pm_live start (s2 v) = pm_live start s"
    "translate (pmem (s2 v)) pd va' =
       (if same_page va va' then (if present v then Some (frame_of v OR frame_offset va') else None)
        else translate (pmem s) pd va')"
    "tables (pmem (s2 v)) pd = tables (pmem s) pd"
    "b \<notin> frame_span t \<Longrightarrow> pmem (s2 v) b = pmem s b"
    "uint j < 1024 \<Longrightarrow> entry (pmem (s2 v)) pd j = entry (pmem s) pd j"
proof -
  note d = as_invD [OF a]
  have tt: "t \<in> tables (pmem s) pd" using p by (auto simp: tables_def t_def)
  then have tl: "t \<in> pm_live start s" "t \<noteq> pd" using d(4,5) by auto
  have al: "aligned t" by (simp add: t_def)
  show fr: "pmem (s2 v) b = pmem s b" if "b \<notin> frame_span t" for b v
    using st32_entry_other [OF al _ that] by (simp add: s2_def)
  have e: "entry (pmem (s2 v)) q j = (if q = t \<and> j = pti va then v else entry (pmem s) q j)"
    if "aligned q" "uint j < 1024" for q j v
    using entry_st32 [OF al that(1) _ that(2), of "pti va"] by (auto simp: s2_def)
  have epd: "entry (pmem (s2 v)) pd j = entry (pmem s) pd j" if "uint j < 1024" for j v
    using e [OF d(3) that] tl(2) by simp
  then show "uint j < 1024 \<Longrightarrow> entry (pmem (s2 v)) pd j = entry (pmem s) pd j" for j .
  show tb: "tables (pmem (s2 v)) pd = tables (pmem s) pd"
    using epd unfolding tables_def by (metis (no_types, lifting))
  have inv: "pm_inv start (s2 v)" "pm_live start (s2 v) = pm_live start s"
    using put_entry_inv [OF d(1) tl(1)] by (simp_all add: s2_def)
  then show "pm_live start (s2 v) = pm_live start s" by simp
  show "as_inv start (s2 v) pd" using a epd tb inv unfolding as_inv_def by auto
  let ?e = "entry (pmem s) pd (pdi va')"
  have "frame_of ?e = t \<longleftrightarrow> pdi va' = pdi va" if "present ?e"
    using a that p unfolding as_inv_def t_def by (metis index_bounds(1))
  then show "translate (pmem (s2 v)) pd va' =
       (if same_page va va' then (if present v then Some (frame_of v OR frame_offset va') else None)
        else translate (pmem s) pd va')"
    using epd e [of "frame_of ?e" "pti va'" v] p
    by (auto simp: translate_entry same_page_iff Let_def)
qed

lemma pd_entry_ok:
  assumes a: "as_inv start s pd" and e: "pd_entry pd va s = Inr (pde, s1)"
  defines "t \<equiv> frame_of pde"
  shows "as_inv start s1 pd" "entry (pmem s1) pd (pdi va) = pde" "present pde"
    "pm_live start s1 = insert t (pm_live start s)"
    "tables (pmem s1) pd = insert t (tables (pmem s) pd)"
    "t \<in> tables (pmem s) pd \<or> t \<notin> pm_live start s"
    "translate (pmem s1) pd va' = translate (pmem s) pd va'"
    "b \<notin> frame_span pd \<Longrightarrow> b \<notin> frame_span t \<Longrightarrow> pmem s1 b = pmem s b"
    "plimit s1 = plimit s" "flushed s1 = flushed s"
    "uint (pavail s1) \<le> uint (pavail s) + (if present (entry (pmem s) pd (pdi va)) then 0 else 4096)"
    "if present (entry (pmem s) pd (pdi va)) then t = frame_of (entry (pmem s) pd (pdi va))
     else t \<notin> pm_live start s"
    "uint i < 1024 \<Longrightarrow> i \<noteq> pdi va \<Longrightarrow> entry (pmem s1) pd i = entry (pmem s) pd i"
proof -
  let ?e = "entry (pmem s) pd (pdi va)"
  note d = as_invD [OF a]
  have "as_inv start s1 pd \<and> entry (pmem s1) pd (pdi va) = pde \<and> present pde \<and>
    pm_live start s1 = insert t (pm_live start s) \<and>
    tables (pmem s1) pd = insert t (tables (pmem s) pd) \<and>
    (t \<in> tables (pmem s) pd \<or> t \<notin> pm_live start s) \<and>
    (\<forall>va'. translate (pmem s1) pd va' = translate (pmem s) pd va') \<and>
    (\<forall>b. b \<notin> frame_span pd \<longrightarrow> b \<notin> frame_span t \<longrightarrow> pmem s1 b = pmem s b) \<and>
    plimit s1 = plimit s \<and> flushed s1 = flushed s \<and>
    uint (pavail s1) \<le> uint (pavail s) + (if present ?e then 0 else 4096) \<and>
    (if present ?e then t = frame_of ?e else t \<notin> pm_live start s) \<and>
    (\<forall>i. uint i < 1024 \<longrightarrow> i \<noteq> pdi va \<longrightarrow> entry (pmem s1) pd i = entry (pmem s) pd i)"
  proof (cases "present ?e")
    case True
    then have "s1 = s" "pde = ?e" using e by (auto simp: pd_entry_def entry_def)
    moreover have "t \<in> tables (pmem s) pd" using True calculation by (auto simp: tables_def t_def)
    ultimately show ?thesis using a d(4) True by (auto simp: t_def)
  next
    case False
    then obtain f s0 where al: "alloc_frame s = Inr (f, s0)" and pde: "pde = f OR 7"
      and s1: "s1 = s0\<lparr>pmem := st32 (pd + 4 * pdi va) (f OR 7) (pmem s0)\<rparr>"
      using e by (auto simp: pd_entry_def entry_def Let_def)
    from d(1) obtain xs where r: "pm_rel start s xs" by (auto simp: pm_inv_def)
    obtain xs' where A: "pm_rel start s0 xs'" "aligned f" "f \<notin> pm_live start s"
      "pm_live start s0 = insert f (pm_live start s)"
      "pmem s0 = (\<lambda>b. if b \<in> frame_span f then 0 else pmem s b)"
      "plimit s0 = plimit s" "flushed s0 = flushed s" "uint (pavail s0) \<le> uint (pavail s) + 4096"
      by (rule alloc_frame_ok [OF r al])
    have t: "t = f" using A(2) by (simp add: t_def pde frame_of_or7)
    have inv: "pm_inv start s0" using A(1) by (auto simp: pm_inv_def)
    note H = hang_table [OF a False index_bounds(1) inv A(2-5), folded s1]
    show ?thesis
      using H(1,2,3,4,5,6,7) A(3,6-8) False by (simp add: t pde s1)
  qed
  then show "as_inv start s1 pd" "entry (pmem s1) pd (pdi va) = pde" "present pde"
    "pm_live start s1 = insert t (pm_live start s)"
    "tables (pmem s1) pd = insert t (tables (pmem s) pd)"
    "t \<in> tables (pmem s) pd \<or> t \<notin> pm_live start s"
    "translate (pmem s1) pd va' = translate (pmem s) pd va'"
    "b \<notin> frame_span pd \<Longrightarrow> b \<notin> frame_span t \<Longrightarrow> pmem s1 b = pmem s b"
    "plimit s1 = plimit s" "flushed s1 = flushed s"
    "uint (pavail s1) \<le> uint (pavail s) + (if present ?e then 0 else 4096)"
    "if present ?e then t = frame_of ?e else t \<notin> pm_live start s"
    "uint i < 1024 \<Longrightarrow> i \<noteq> pdi va \<Longrightarrow> entry (pmem s1) pd i = entry (pmem s) pd i" by blast+
qed

text \<open>\<^verbatim>\<open>map\<close>: one page is translated to the given frame, every other translation stays, and
  only the directory and one of its tables, perhaps a new one, were written.\<close>

lemma map_page_ok:
  assumes a: "as_inv start s pd" and pa: "aligned pa" and m: "map_page pd va pa s = Inr s'"
  obtains t where "as_inv start s' pd" "pm_live start s' = insert t (pm_live start s)"
    "tables (pmem s') pd = insert t (tables (pmem s) pd)"
    "t \<in> tables (pmem s) pd \<or> t \<notin> pm_live start s"
    "\<forall>va'. translate (pmem s') pd va' =
      (if same_page va va' then Some (pa OR frame_offset va') else translate (pmem s) pd va')"
    "\<forall>b. b \<notin> frame_span pd \<longrightarrow> b \<notin> frame_span t \<longrightarrow> pmem s' b = pmem s b"
    "plimit s' = plimit s" "flushed s' = flushed s"
    "uint (pavail s') \<le> uint (pavail s) + (if present (entry (pmem s) pd (pdi va)) then 0 else 4096)"
    "present (entry (pmem s') pd (pdi va))"
    "if present (entry (pmem s) pd (pdi va)) then t = frame_of (entry (pmem s) pd (pdi va))
     else t \<notin> pm_live start s"
    "\<forall>i. uint i < 1024 \<longrightarrow> i \<noteq> pdi va \<longrightarrow> entry (pmem s') pd i = entry (pmem s) pd i"
proof -
  from m obtain pde s1 where e: "pd_entry pd va s = Inr (pde, s1)"
    and s': "s' = s1\<lparr>pmem := st32 (frame_of pde + 4 * pti va) (pa OR 7) (pmem s1)\<rparr>"
    by (auto simp: map_page_def Let_def)
  note E = pd_entry_ok [OF a e]
  have p: "present (entry (pmem s1) pd (pdi va))" using E(2,3) by simp
  note W = write_table [OF E(1) p, where v = "pa OR 7", unfolded E(2), folded s']
  let ?t = "frame_of pde"
  have tr: "translate (pmem s') pd va' =
      (if same_page va va' then Some (pa OR frame_offset va') else translate (pmem s) pd va')" for va'
    using W(3) [of va'] E(7) [of va'] frame_of_or7 [OF pa] by simp
  have pd: "aligned pd" "?t \<noteq> pd" using as_invD(3,5) [OF E(1)] E(5) by auto
  have en: "entry (pmem s') pd (pdi va) = entry (pmem s1) pd (pdi va)"
    by (rule entry_cong [OF pd(1)]) (use W(5) frame_span_disjoint [OF pd(1) aligned_frame_of pd(2) [symmetric]] in auto)
  have fr: "\<forall>b. b \<notin> frame_span pd \<longrightarrow> b \<notin> frame_span ?t \<longrightarrow> pmem s' b = pmem s b"
    using W(5) E(8) by auto
  show thesis
    by (rule that [of ?t]) (use W(1,2,4,6) E(4,5,6,9,10,11,12,13) tr fr en p in \<open>auto simp: s'\<close>)
qed

lemma map_page_returns:
  assumes a: "as_inv start s pd" and "present (entry (pmem s) pd (pdi va)) \<or> pavail s \<noteq> plimit s"
  shows "\<exists>s'. map_page pd va pa s = Inr s'"
proof -
  from as_invD(1) [OF a] obtain xs where r: "pm_rel start s xs" by (auto simp: pm_inv_def)
  have "\<exists>x. pd_entry pd va s = Inr x"
  proof (cases "present (entry (pmem s) pd (pdi va))")
    case False
    then obtain f s0 where "alloc_frame s = Inr (f, s0)" using alloc_frame_returns [OF r] assms(2) by blast
    then show ?thesis by (simp add: pd_entry_def Let_def)
  qed (simp add: pd_entry_def entry_def Let_def)
  then show ?thesis by (auto simp: map_page_def Let_def split_beta)
qed

section \<open>The page-fault handler\<close>

definition out_of_frames :: fault where
  "out_of_frames = Panic ''no more frames''"

lemma alloc_frame_total:
  assumes "pm_inv start s"
  obtains p s' where "alloc_frame s = Inr (p, s')"
  | "alloc_frame s = Inl out_of_frames" "pavail s = plimit s"
proof -
  obtain xs where r: "pm_rel start s xs" using assms by (auto simp: pm_inv_def)
  show thesis
  proof (cases "ffree s \<noteq> 0 \<or> pavail s \<noteq> plimit s")
    case True
    then show thesis using alloc_frame_returns [OF r] that(1) by blast
  next
    case False
    then show thesis by (intro that(2)) (simp_all add: alloc_frame_def out_of_frames_def)
  qed
qed

lemma map_page_total:
  assumes "as_inv start s pd"
  obtains s' where "map_page pd va pa s = Inr s'" | "map_page pd va pa s = Inl out_of_frames" "pavail s = plimit s"
proof (cases "present (ld32 (pmem s) (pd + 4 * pdi va))")
  case True
  then show thesis by (intro that(1)) (simp add: map_page_def pd_entry_def Let_def)
next
  case False
  show thesis by (rule alloc_frame_total [OF as_invD(1) [OF assms]])
    (use that False in \<open>simp_all add: map_page_def pd_entry_def Let_def\<close>)
qed

lemma high_framedown: "0x80000000 \<le> va \<Longrightarrow> 0x80000000 \<le> framedown va"
proof -
  assume "0x80000000 \<le> va"
  then have "uint (0x80000000 :: u32) \<le> uint va" by (simp add: word_le_def)
  then have "524288 \<le> uint va div 4096" by simp
  then show ?thesis by (simp add: word_le_def uint_framedown)
qed

text \<open>Filling a page that is a new frame.\<close>

lemma new_frame_inv:
  assumes a: "as_inv start s pd" and al: "alloc_frame s = Inr (pa, s1)"
  shows "as_inv start s1 pd" "translate (pmem s1) pd x = translate (pmem s) pd x"
    "tables (pmem s1) pd = tables (pmem s) pd" "uint i < 1024 \<Longrightarrow> entry (pmem s1) pd i = entry (pmem s) pd i"
    "aligned pa" "pa \<notin> pm_live start s" "pm_live start s1 = insert pa (pm_live start s)"
    "pmem s1 = (\<lambda>b. if b \<in> frame_span pa then 0 else pmem s b)"
    "plimit s1 = plimit s" "uint (pavail s1) \<le> uint (pavail s) + 4096"
proof -
  from as_invD(1) [OF a] obtain xs where r: "pm_rel start s xs" by (auto simp: pm_inv_def)
  obtain xs1 where A: "pm_rel start s1 xs1" "aligned pa" "pa \<notin> pm_live start s"
      "pm_live start s1 = insert pa (pm_live start s)"
      "pmem s1 = (\<lambda>b. if b \<in> frame_span pa then 0 else pmem s b)"
      "plimit s1 = plimit s" "uint (pavail s1) \<le> uint (pavail s) + 4096"
      by (rule alloc_frame_ok [OF r al])
  have inv1: "pm_inv start s1" using A(1) by (auto simp: pm_inv_def)
  have same: "pmem s1 b = pmem s b" if "f \<in> insert pd (tables (pmem s) pd)" "b \<in> frame_span f" for f b
  proof -
    have "f \<in> pm_live start s" using that(1) as_invD(2,4) [OF a] by auto
    then have "frame_span f \<inter> frame_span pa = {}"
      using frame_span_disjoint [OF pm_live_aligned A(2)] A(3) by blast
    then show ?thesis using that(2) A(5) by auto
  qed
  have sub: "pm_live start s \<subseteq> pm_live start s1" using A(4) by blast
  show "as_inv start s1 pd" "translate (pmem s1) pd x = translate (pmem s) pd x"
    "tables (pmem s1) pd = tables (pmem s) pd"
    by (rule as_inv_frame [OF a inv1 sub]; rule same; assumption)+
  show "uint i < 1024 \<Longrightarrow> entry (pmem s1) pd i = entry (pmem s) pd i"
    by (rule entry_cong [OF as_invD(3) [OF a]]) (use same in auto)
  show "aligned pa" "pa \<notin> pm_live start s" "pm_live start s1 = insert pa (pm_live start s)"
    "pmem s1 = (\<lambda>b. if b \<in> frame_span pa then 0 else pmem s b)"
    "plimit s1 = plimit s" "uint (pavail s1) \<le> uint (pavail s) + 4096" using A by blast+
qed

lemma page_fault_effect:
  assumes a: "as_inv start s pd" and run: "vmm_pageFault pd pd pd va s = Inr s'"
  obtains pa t where "as_inv start s' pd"
    "aligned pa" "pa \<notin> pm_live start s" "pm_live start s' = {pa, t} \<union> pm_live start s"
    "t \<noteq> pa" "t \<in> tables (pmem s) pd \<or> t \<notin> pm_live start s"
    "if present (entry (pmem s) pd (pdi va)) then t = frame_of (entry (pmem s) pd (pdi va))
     else t \<notin> pm_live start s"
    "\<forall>va'. translate (pmem s') pd va' =
      (if same_page va va' then Some (pa OR frame_offset va') else translate (pmem s) pd va')"
    "\<forall>b\<in>frame_span pa. pmem s' b = 0"
    "\<forall>b. b \<notin> frame_span pd \<longrightarrow> b \<notin> frame_span t \<longrightarrow> b \<notin> frame_span pa \<longrightarrow> pmem s' b = pmem s b"
    "tables (pmem s') pd = insert t (tables (pmem s) pd)"
    "\<forall>i. uint i < 1024 \<longrightarrow> i \<noteq> pdi va \<longrightarrow> entry (pmem s') pd i = entry (pmem s) pd i"
proof -
  let ?va = "framedown va"
  from run obtain pa s1 where al: "alloc_frame s = Inr (pa, s1)" and m: "map_page pd ?va pa s1 = Inr s'"
    by (auto simp: vmm_pageFault_def Let_def split: if_splits)
  note N = new_frame_inv [OF a al]
  have pdi: "pdi ?va = pdi va" using same_page_iff [of ?va va] by (simp add: same_page_def)
  obtain t where M: "as_inv start s' pd" "pm_live start s' = insert t (pm_live start s1)"
    "tables (pmem s') pd = insert t (tables (pmem s1) pd)"
    "t \<in> tables (pmem s1) pd \<or> t \<notin> pm_live start s1"
    "\<forall>va'. translate (pmem s') pd va' =
      (if same_page ?va va' then Some (pa OR frame_offset va') else translate (pmem s1) pd va')"
    "\<forall>b. b \<notin> frame_span pd \<longrightarrow> b \<notin> frame_span t \<longrightarrow> pmem s' b = pmem s1 b"
    "if present (entry (pmem s1) pd (pdi ?va)) then t = frame_of (entry (pmem s1) pd (pdi ?va))
     else t \<notin> pm_live start s1"
    "\<forall>i. uint i < 1024 \<longrightarrow> i \<noteq> pdi ?va \<longrightarrow> entry (pmem s') pd i = entry (pmem s1) pd i"
    by (rule map_page_ok [OF N(1) N(5) m])
  have tp: "t \<noteq> pa" using M(4) N(3) as_invD(4) [OF a] N(6,7) by auto
  have papd: "pa \<noteq> pd" using N(6) as_invD(2) [OF a] by auto
  have tal: "aligned t" using M(1,3) pm_live_aligned as_invD(4) by blast
  have z: "pmem s' b = 0" if "b \<in> frame_span pa" for b
    using M(6) that frame_span_disjoint [OF N(5) as_invD(3) [OF a] papd]
      frame_span_disjoint [OF N(5) tal tp [symmetric]] N(8) by (simp add: disjoint_iff)
  show thesis
    by (rule that [OF M(1) N(5,6)])
      (use M(2,3,4,5,6,7,8) N(3,4,6,7,8) N(2) tp pdi z in \<open>auto simp: same_page_def\<close>)
qed

lemma page_fault_total:
  assumes a: "as_inv start s pd" and va: "0x80000000 \<le> va"
  obtains s' where "vmm_pageFault pd pd pd va s = Inr s'"
  | "vmm_pageFault pd pd pd va s = Inl out_of_frames" "uint (plimit s) < uint (pavail s) + 0x2000"
proof (rule alloc_frame_total [OF as_invD(1) [OF a]])
  fix pa s1 assume al: "alloc_frame s = Inr (pa, s1)"
  note N = new_frame_inv [OF a al]
  show thesis
    by (rule map_page_total [OF N(1), of "framedown va" pa])
      (use that al high_framedown [OF va] N(9,10) in \<open>simp_all add: vmm_pageFault_def Let_def\<close>)
qed (use that high_framedown [OF va] in \<open>simp_all add: vmm_pageFault_def Let_def\<close>)

lemma page_fault_ok:
  assumes a: "as_inv start s pd" and va: "0x80000000 \<le> va"
    and room: "uint (pavail s) + 0x2000 \<le> uint (plimit s)"
  obtains s' pa t where "vmm_pageFault pd pd pd va s = Inr s'" "as_inv start s' pd"
    "aligned pa" "pa \<notin> pm_live start s" "pm_live start s' = {pa, t} \<union> pm_live start s"
    "t \<noteq> pa" "t \<in> tables (pmem s) pd \<or> t \<notin> pm_live start s"
    "if present (entry (pmem s) pd (pdi va)) then t = frame_of (entry (pmem s) pd (pdi va))
     else t \<notin> pm_live start s"
    "\<forall>va'. translate (pmem s') pd va' =
      (if same_page va va' then Some (pa OR frame_offset va') else translate (pmem s) pd va')"
    "\<forall>b\<in>frame_span pa. pmem s' b = 0"
    "\<forall>b. b \<notin> frame_span pd \<longrightarrow> b \<notin> frame_span t \<longrightarrow> b \<notin> frame_span pa \<longrightarrow> pmem s' b = pmem s b"
proof (rule page_fault_total [OF a va])
  fix s' assume run: "vmm_pageFault pd pd pd va s = Inr s'"
  show thesis by (rule page_fault_effect [OF a run]) (rule that [OF run]; assumption)
qed (use room in simp)

section \<open>unmap\<close>

lemma unmap_page_ok:
  assumes a: "as_inv start s pd"
    and e: "present (entry (pmem s) pd (pdi va))"
      "present (entry (pmem s) (frame_of (entry (pmem s) pd (pdi va))) (pti va))"
  defines "pa \<equiv> frame_of (entry (pmem s) (frame_of (entry (pmem s) pd (pdi va))) (pti va))"
  assumes pa: "pa \<in> pm_live start s" "pa \<noteq> pd" "pa \<notin> tables (pmem s) pd"
  shows "\<exists>s'. unmap_page pd va s = Inr s' \<and> as_inv start s' pd \<and>
    pm_live start s' = pm_live start s - {pa} \<and> flushed s' = flushed s @ [va] \<and>
    (\<forall>va'. translate (pmem s') pd va' = (if same_page va va' then None else translate (pmem s) pd va'))"
proof -
  let ?t = "frame_of (entry (pmem s) pd (pdi va))"
  let ?s1 = "s\<lparr>pmem := st32 (?t + 4 * pti va) 0 (pmem s)\<rparr>"
  note W = write_table [OF a e(1), where v = 0]
  from as_invD(1) [OF W(1)] obtain xs where r: "pm_rel start ?s1 xs" by (auto simp: pm_inv_def)
  have p1: "pa \<in> pm_live start ?s1" using pa(1) W(2) by simp
  from dealloc_frame_ok [OF r p1] obtain s2 where D: "dealloc_frame pa ?s1 = Inr s2"
    "pm_rel start s2 (pa # xs)" "pm_live start s2 = pm_live start s - {pa}" "flushed s2 = flushed s"
    "\<forall>b. b \<notin> frame_span pa \<longrightarrow> pmem s2 b = pmem ?s1 b" using W(2) by auto
  let ?s' = "s2\<lparr>flushed := flushed s2 @ [va]\<rparr>"
  have run: "unmap_page pd va s = Inr ?s'"
    using e D(1) by (simp add: unmap_page_def entry_def pa_def Let_def)
  have r2: "pm_rel start ?s' (pa # xs)" using D(2) by (simp add: pm_rel_def)
  have live: "pm_live start ?s' = pm_live start s - {pa}" using D(3) by (simp add: pm_live_def)
  have same: "pmem ?s' b = pmem ?s1 b" if "f \<in> insert pd (tables (pmem ?s1) pd)" "b \<in> frame_span f" for f b
  proof -
    have "f \<in> pm_live start s" "f \<noteq> pa" using that(1) W(4) as_invD(2,4) [OF a] pa by auto
    then have "frame_span f \<inter> frame_span pa = {}"
      using frame_span_disjoint pm_live_aligned pm_live_aligned [OF pa(1)] by blast
    then show ?thesis using that(2) D(5) by auto
  qed
  have al: "aligned pd" by (rule as_invD(3) [OF a])
  have tr: "translate (pmem ?s') pd va' = translate (pmem ?s1) pd va'" for va'
    by (rule translate_cong [OF al]) (rule same)
  have tb: "tables (pmem ?s') pd = tables (pmem ?s1) pd"
    by (rule tables_cong [OF al]) (use same in auto)
  have en: "entry (pmem ?s') pd i = entry (pmem ?s1) pd i" if "uint i < 1024" for i
    by (rule entry_cong [OF al that]) (use same in auto)
  have inv: "as_inv start ?s' pd"
    unfolding as_inv_def
  proof (intro conjI)
    show "pm_inv start ?s'" using r2 by (auto simp: pm_inv_def)
    show "pd \<in> pm_live start ?s'" using live as_invD(2) [OF a] pa(2) by auto
    show "tables (pmem ?s') pd \<subseteq> pm_live start ?s' - {pd}"
      using live tb W(4) as_invD(4,5) [OF a] pa(3) by auto
  qed (use W(1) en in \<open>auto simp: as_inv_def\<close>)
  show ?thesis
    by (rule exI [of _ ?s']) (use run inv live D(4) W(3) tr in auto)
qed

section \<open>Correctness of mapping\<close>

text \<open>A frame just allocated is an empty address space.\<close>

lemma fresh_pd:
  assumes r: "pm_rel start s xs" and al: "alloc_frame s = Inr (pd, s1)"
  shows "as_inv start s1 pd" "tables (pmem s1) pd = {}" "translate (pmem s1) pd va = None"
proof -
  obtain xs1 where A: "pm_rel start s1 xs1" "aligned pd"
      "pm_live start s1 = insert pd (pm_live start s)"
      "pmem s1 = (\<lambda>b. if b \<in> frame_span pd then 0 else pmem s b)"
    by (rule alloc_frame_ok [OF r al])
  have z: "entry (pmem s1) pd i = 0" if "uint i < 1024" for i
    by (rule entry_zero [OF A(2) that]) (simp add: A(4))
  then show t: "tables (pmem s1) pd = {}" by (auto simp: tables_def)
  show "translate (pmem s1) pd va = None" using z by (simp add: translate_entry)
  show "as_inv start s1 pd"
    unfolding as_inv_def using A(1,3) t z by (auto simp: pm_inv_def)
qed

lemma vm_example:
  obtains s pd where "as_inv 0x1000 s pd" "\<forall>va. translate (pmem s) pd va = None"
    "tables (pmem s) pd = {}" "uint (pavail s) + 0x2000 \<le> uint (plimit s)"
proof -
  obtain s0 where I: "pm_init 0x1000 0x9000 phys_zero = Inr s0" "pm_rel 0x1000 s0 []"
    "plimit s0 = 0xA000" "pavail s0 = 0x1000"
    using pm_init_ok [of "0x1000" "0x9000" phys_zero] by (auto simp: phys_zero_def aligned_def)
  then obtain pd s where al: "alloc_frame s0 = Inr (pd, s)" using alloc_frame_returns [OF I(2)] by auto
  obtain xs where A: "plimit s = plimit s0" "uint (pavail s) \<le> uint (pavail s0) + 4096"
    by (rule alloc_frame_ok [OF I(2) al])
  show thesis
    by (rule that) (use fresh_pd [OF I(2) al] A I(3,4) in auto)
qed

text \<open>C26: \<^verbatim>\<open>map\<close> against the processor's page walk: in an address space in order, with a
  table or a frame for one at hand, it returns; then every address of the page goes to the
  given frame, every other address goes where it went, the address space stays in order,
  and frames other than the directory and one of its tables are not written.\<close>

theorem map_refines_translation:
  assumes "as_inv start s pd" and "frame_offset pa = 0"
    and "present (entry (pmem s) pd (pdi va)) \<or> pavail s \<noteq> plimit s"
  shows "\<exists>s' t. map_page pd va pa s = Inr s' \<and> as_inv start s' pd \<and>
    (\<forall>va'. translate (pmem s') pd va' =
      (if framedown va' = framedown va then Some (pa OR frame_offset va') else translate (pmem s) pd va')) \<and>
    (t \<in> tables (pmem s) pd \<or> t \<notin> pm_live start s) \<and>
    (\<forall>f\<in>pm_live start s. f \<noteq> pd \<longrightarrow> f \<noteq> t \<longrightarrow> (\<forall>b\<in>frame_span f. pmem s' b = pmem s b))"
proof -
  have pa: "aligned pa" using assms(2) by (simp add: frame_offset_0)
  from map_page_returns [OF assms(1,3)] obtain s' where m: "map_page pd va pa s = Inr s'" by blast
  obtain t where M: "as_inv start s' pd" "tables (pmem s') pd = insert t (tables (pmem s) pd)"
    "t \<in> tables (pmem s) pd \<or> t \<notin> pm_live start s"
    "\<forall>va'. translate (pmem s') pd va' =
      (if same_page va va' then Some (pa OR frame_offset va') else translate (pmem s) pd va')"
    "\<forall>b. b \<notin> frame_span pd \<longrightarrow> b \<notin> frame_span t \<longrightarrow> pmem s' b = pmem s b"
    by (rule map_page_ok [OF assms(1) pa m])
  have "aligned t" "aligned pd" using M(1,2) as_invD(3,4) pm_live_aligned by blast+
  then have "\<forall>f\<in>pm_live start s. f \<noteq> pd \<longrightarrow> f \<noteq> t \<longrightarrow> (\<forall>b\<in>frame_span f. pmem s' b = pmem s b)"
    using M(5) frame_span_disjoint pm_live_aligned by (metis disjoint_iff)
  then show ?thesis using m M(1,3,4) by (auto simp: same_page_def)
qed

lemma map_refines_translation_witness:
  "\<exists>s pd s'. map_page pd 0x80001000 0x5000 s = Inr s' \<and>
     translate (pmem s') pd 0x80001234 = Some (0x5000 OR frame_offset 0x80001234)"
proof -
  obtain s pd where a: "as_inv 0x1000 s pd" "uint (pavail s) + 0x2000 \<le> uint (plimit s)"
    by (rule vm_example)
  then have "pavail s \<noteq> plimit s" by auto
  then obtain s' where "map_page pd 0x80001000 0x5000 s = Inr s'" and
    "\<forall>va'. translate (pmem s') pd va' = (if framedown va' = framedown 0x80001000
       then Some (0x5000 OR frame_offset va') else translate (pmem s) pd va')"
    using map_refines_translation [OF a(1), of "0x5000" "0x80001000"] by (auto simp: frame_offset_def)
  moreover have "framedown 0x80001234 = framedown 0x80001000" by (simp add: framedown_def FRAME_SIZE_eq)
  ultimately show ?thesis by metis
qed

text \<open>\<^verbatim>\<open>unmap\<close> of a mapped page whose frame is not part of the address space's own tables
  removes that translation and no other, gives the frame back, and flushes the address;
  of an unmapped page it does nothing.\<close>

theorem unmap_spec:
  assumes "as_inv start s pd"
    and "translate (pmem s) pd va \<noteq> None \<Longrightarrow>
      pa = frame_of (entry (pmem s) (frame_of (entry (pmem s) pd (pdi va))) (pti va)) \<and>
      pa \<in> pm_live start s \<and> pa \<noteq> pd \<and> pa \<notin> tables (pmem s) pd"
  shows "\<exists>s'. unmap_page pd va s = Inr s' \<and> as_inv start s' pd \<and>
    (\<forall>va'. translate (pmem s') pd va' =
      (if framedown va' = framedown va then None else translate (pmem s) pd va')) \<and>
    (if translate (pmem s) pd va = None then s' = s
     else pm_live start s' = pm_live start s - {pa} \<and> flushed s' = flushed s @ [va])"
proof (cases "translate (pmem s) pd va = None")
  case True
  then have "unmap_page pd va s = Inr s"
    by (auto simp: unmap_page_def translate_def Let_def split: if_splits)
  moreover have "translate (pmem s) pd va' = None" if "framedown va' = framedown va" for va'
    using True that same_page_iff [of va' va] by (auto simp: same_page_def translate_entry split: if_splits)
  ultimately show ?thesis using True assms(1) by (intro exI [of _ s]) auto
next
  case False
  then have e: "present (entry (pmem s) pd (pdi va))"
      "present (entry (pmem s) (frame_of (entry (pmem s) pd (pdi va))) (pti va))"
    by (auto simp: translate_entry split: if_splits)
  from unmap_page_ok [OF assms(1) e] assms(2) [OF False] False show ?thesis
    by (auto simp: same_page_def eq_commute [of "framedown va"])
qed

lemma unmap_spec_witness: "\<exists>s pd. unmap_page pd 0x80001000 s = Inr s"
proof -
  obtain s pd where a: "as_inv 0x1000 s pd" "\<forall>va. translate (pmem s) pd va = None" by (rule vm_example)
  from unmap_spec [OF a(1), of "0x80001000" 0] a(2) show ?thesis by auto
qed

text \<open>C17: the page-fault handler: with the running thread's directory loaded, a fault at a user
  address (from 0x80000000) returns with that page, and only that page, newly translated,
  to a frame nobody held and that is filled with zeros; a fault below panics.\<close>

theorem page_fault_spec:
  assumes "as_inv start s pd" and "uint (pavail s) + 0x2000 \<le> uint (plimit s)"
  shows "(if va < 0x80000000 then vmm_pageFault pd pd pd va s = Inl (Panic ''*** can't handle page fault'')
    else \<exists>s' pa. vmm_pageFault pd pd pd va s = Inr s' \<and> as_inv start s' pd \<and>
      pa \<notin> pm_live start s \<and> pa \<in> pm_live start s' \<and> (\<forall>b\<in>frame_span pa. pmem s' b = 0) \<and>
      (\<forall>va'. translate (pmem s') pd va' =
        (if framedown va' = framedown va then Some (pa OR frame_offset va') else translate (pmem s) pd va')))"
proof (cases "va < 0x80000000")
  case True
  have "uint (framedown va) \<le> uint va" by (simp add: uint_framedown)
  then have "\<not> 0x80000000 \<le> framedown va" using True by (simp add: word_less_def word_le_def)
  then show ?thesis using True by (simp add: vmm_pageFault_def Let_def)
next
  case False
  then have "0x80000000 \<le> va" by simp
  from page_fault_ok [OF assms(1) this assms(2)] obtain s' pa t where
    P: "vmm_pageFault pd pd pd va s = Inr s'" "as_inv start s' pd" "pa \<notin> pm_live start s"
    "pm_live start s' = {pa, t} \<union> pm_live start s"
    "\<forall>va'. translate (pmem s') pd va' =
      (if same_page va va' then Some (pa OR frame_offset va') else translate (pmem s) pd va')"
    "\<forall>b\<in>frame_span pa. pmem s' b = 0" by metis
  show ?thesis
    unfolding if_not_P [OF False]
    by (rule exI [of _ s'], rule exI [of _ pa]) (use P in \<open>auto simp: same_page_def\<close>)
qed

lemma page_fault_spec_witness:
  "\<exists>s pd s' pa. vmm_pageFault pd pd pd 0x80001000 s = Inr s' \<and>
     translate (pmem s') pd 0x80001004 = Some (pa OR frame_offset 0x80001004)"
proof -
  obtain s pd where a: "as_inv 0x1000 s pd" "uint (pavail s) + 0x2000 \<le> uint (plimit s)"
    by (rule vm_example)
  obtain s' pa where "vmm_pageFault pd pd pd 0x80001000 s = Inr s'" and
    "\<forall>va'. translate (pmem s') pd va' = (if framedown va' = framedown 0x80001000
       then Some (pa OR frame_offset va') else translate (pmem s) pd va')"
    using page_fault_spec [OF a, of "0x80001000"] by auto
  moreover have "framedown 0x80001004 = framedown 0x80001000" by (simp add: framedown_def FRAME_SIZE_eq)
  ultimately show ?thesis by metis
qed

lemma vm_example2:
  obtains s pd pd2 where "as_inv 0x1000 s pd" "as_inv 0x1000 s pd2" "pd \<noteq> pd2"
    "tables (pmem s) pd = {}" "tables (pmem s) pd2 = {}" "uint (pavail s) + 0x2000 \<le> uint (plimit s)"
proof -
  obtain s0 where I: "pm_init 0x1000 0x9000 phys_zero = Inr s0" "pm_rel 0x1000 s0 []"
    "plimit s0 = 0xA000" "pavail s0 = 0x1000"
    using pm_init_ok [of "0x1000" "0x9000" phys_zero] by (auto simp: phys_zero_def aligned_def)
  then obtain pd s1 where al: "alloc_frame s0 = Inr (pd, s1)" using alloc_frame_returns [OF I(2)] by auto
  obtain xs where A: "pm_rel 0x1000 s1 xs" "plimit s1 = plimit s0" "uint (pavail s1) \<le> uint (pavail s0) + 4096"
    by (rule alloc_frame_ok [OF I(2) al])
  have "pavail s1 \<noteq> plimit s1" using A(2,3) I(3,4) by auto
  then obtain pd2 s2 where al2: "alloc_frame s1 = Inr (pd2, s2)" using alloc_frame_returns [OF A(1)] by blast
  obtain ys where B: "pm_rel 0x1000 s2 ys" "aligned pd2" "pd2 \<notin> pm_live 0x1000 s1"
    "pm_live 0x1000 s2 = insert pd2 (pm_live 0x1000 s1)"
    "pmem s2 = (\<lambda>a. if a \<in> frame_span pd2 then 0 else pmem s1 a)" "plimit s2 = plimit s1"
    "uint (pavail s2) \<le> uint (pavail s1) + 4096"
    by (rule alloc_frame_ok [OF A(1) al2])
  note f1 = fresh_pd [OF I(2) al] and f2 = fresh_pd [OF A(1) al2]
  have ne: "pd \<noteq> pd2" using B(3) as_invD(2) [OF f1(1)] by auto
  have same: "pmem s2 b = pmem s1 b" if "g \<in> insert pd (tables (pmem s1) pd)" "b \<in> frame_span g" for g b
    using that f1(2) frame_span_disjoint [OF as_invD(3) [OF f1(1)] B(2) ne] B(5) by auto
  have inv: "pm_inv 0x1000 s2" "pm_live 0x1000 s1 \<subseteq> pm_live 0x1000 s2" using B(1,4) by (auto simp: pm_inv_def)
  have "as_inv 0x1000 s2 pd" "tables (pmem s2) pd = {}"
    using as_inv_frame(1,3) [OF f1(1) inv] same f1(2) by metis+
  then show thesis
    by (rule that [OF _ f2(1) ne _ f2(2)]) (use A(2,3) B(6,7) I(3,4) in auto)
qed

section \<open>Building an address space\<close>

lemma uint_shared_size:
  assumes "memSize cfg \<le> 0x80000000"
  shows "uint (shared_size cfg) = 4 * ((uint (memSize cfg) + 0x3FFFFF) div 0x400000)"
    "(uint (memSize cfg) + 0x3FFFFF) div 0x400000 \<le> 512"
proof -
  let ?m = "uint (memSize cfg)"
  have m: "?m \<le> 0x80000000" using assms by (simp add: word_le_def)
  have e: "memSize cfg + m4 - 1 = memSize cfg + 0x3FFFFF" by (simp add: m4_def)
  have s: "uint (memSize cfg + 0x3FFFFF) = ?m + 0x3FFFFF"
    using uint_add_small [of "memSize cfg" "0x3FFFFF"] m by simp
  have d: "uint ((memSize cfg + m4 - 1) div m4) = (?m + 0x3FFFFF) div 0x400000"
    unfolding e uint_div s by (simp add: m4_def)
  have "(?m + 0x3FFFFF) div 0x400000 \<le> (0x80000000 + 0x3FFFFF) div 0x400000"
    by (rule zdiv_mono1) (use m in auto)
  then show k: "(?m + 0x3FFFFF) div 0x400000 \<le> 512" by simp
  have "uint ((4 :: u32) * ((memSize cfg + m4 - 1) div m4)) = 4 * ((?m + 0x3FFFFF) div 0x400000)"
    using uint_mult_lem [of "4 :: u32" "(memSize cfg + m4 - 1) div m4"] d k by simp
  then show "uint (shared_size cfg) = 4 * ((?m + 0x3FFFFF) div 0x400000)" by (simp add: shared_size_def)
qed

text \<open>How many directory entries are shared: one for every four megabytes of memory.\<close>

definition shared_entries :: "config \<Rightarrow> int" where
  "shared_entries cfg = (uint (memSize cfg) + 0x3FFFFF) div 0x400000"

lemma memcpy_entry:
  assumes al: "aligned pd" "aligned sh" "pd \<noteq> sh" and k: "k \<le> 512" and n: "uint n = 4 * k"
    and i: "uint i < 1024"
  shows "entry (memcpy pd sh n m) pd i = (if uint i < k then entry m sh i else entry m pd i)"
    and "b \<notin> frame_span pd \<Longrightarrow> memcpy pd sh n m b = m b"
proof -
  have nn: "nat (sint n) = nat (4 * k)" "0 \<le> 4 * k"
  proof -
    have "sint n = uint n"
      using n k uint_ge_0 [of n] by (simp add: sint_uint signed_take_bit_int_eq_self)
    then show "nat (sint n) = nat (4 * k)" "0 \<le> 4 * k" using n uint_ge_0 [of n] by simp_all
  qed
  have lt: "nat (4 * k) < 2 ^ 32" using k nn(2) by simp
  have at: "memcpy pd sh n m b = (if uint (b - pd) < 4 * k then m (sh + (b - pd)) else m b)" for b
    unfolding memcpy_def nn(1)
  proof (subst memcpy_bytes_at [OF lt])
    show "\<forall>c. uint (c - pd) < int (nat (4 * k)) \<longrightarrow> \<not> uint (c - sh) < int (nat (4 * k))"
    proof (intro allI impI notI)
      fix c assume "uint (c - pd) < int (nat (4 * k))" "uint (c - sh) < int (nat (4 * k))"
      then have "c \<in> frame_span pd" "c \<in> frame_span sh" using k nn(2) by (simp_all add: in_frame_span al)
      then show False using frame_span_disjoint [OF al] by blast
    qed
  qed (use nn(2) in simp)
  show "memcpy pd sh n m b = m b" if "b \<notin> frame_span pd"
    using that at [of b] k by (simp add: in_frame_span [OF al(1)])
  have word: "memcpy pd sh n m (pd + 4 * i + j) = (if uint i < k then m (sh + 4 * i + j) else m (pd + 4 * i + j))"
    if j: "uint j < 4" for j
  proof -
    have "uint (4 * i + j) = 4 * uint i + uint j"
    proof -
      have "uint (4 * i) = 4 * uint i" using i by (simp add: uint_word_ariths)
      then show ?thesis using uint_add_small [of "4 * i" j] i j by simp
    qed
    moreover have "0 \<le> uint j" by (rule uint_ge_0)
    ultimately have "uint (4 * i + j) < 4 * k \<longleftrightarrow> uint i < k" using j by linarith
    then show ?thesis using at [of "pd + 4 * i + j"] by (simp add: algebra_simps)
  qed
  show "entry (memcpy pd sh n m) pd i = (if uint i < k then entry m sh i else entry m pd i)"
    using word [of 0] word [of 1] word [of 2] word [of 3] by (simp add: entry_def ld32_def)
qed

lemma make_pd_copy:
  assumes a: "as_inv start s sh" and al: "alloc_frame s = Inr (pd, s1)"
    and mem: "memSize cfg \<le> 0x80000000"
  defines "s2 \<equiv> s1\<lparr>pmem := memcpy pd sh (shared_size cfg) (pmem s1)\<rparr>"
  shows "as_inv start s2 pd" "pm_live start s2 = insert pd (pm_live start s)" "pd \<notin> pm_live start s"
    "translate (pmem s2) pd va =
      (if uint (pdi va) < shared_entries cfg then translate (pmem s) sh va else None)"
    "b \<notin> frame_span pd \<Longrightarrow> pmem s2 b = pmem s b"
    "plimit s2 = plimit s" "uint (pavail s2) \<le> uint (pavail s) + 4096"
    "tables (pmem s2) pd \<subseteq> tables (pmem s) sh"
    "uint i < 1024 \<Longrightarrow> entry (pmem s2) pd i = (if uint i < shared_entries cfg then entry (pmem s) sh i else 0)"
proof -
  note d = as_invD [OF a]
  from d(1) obtain xs where r: "pm_rel start s xs" by (auto simp: pm_inv_def)
  obtain xs1 where A: "pm_rel start s1 xs1" "aligned pd" "pd \<notin> pm_live start s"
      "pm_live start s1 = insert pd (pm_live start s)"
      "pmem s1 = (\<lambda>b. if b \<in> frame_span pd then 0 else pmem s b)"
      "plimit s1 = plimit s" "uint (pavail s1) \<le> uint (pavail s) + 4096"
    by (rule alloc_frame_ok [OF r al])
  let ?k = "shared_entries cfg"
  have k: "?k \<le> 512" "uint (shared_size cfg) = 4 * ?k"
    using uint_shared_size [OF mem] by (simp_all add: shared_entries_def)
  have ne: "pd \<noteq> sh" using A(3) d(2) by auto
  note C = memcpy_entry [OF A(2) d(3) ne k]
  have old: "entry (pmem s1) q i = entry (pmem s) q i" if "q \<in> pm_live start s" "uint i < 1024" for q i
  proof (rule entry_cong [OF pm_live_aligned [OF that(1)] that(2)])
    fix b assume "b \<in> frame_span q"
    then show "pmem s1 b = pmem s b"
      using frame_span_disjoint [OF pm_live_aligned [OF that(1)] A(2)] that(1) A(3,5) by auto
  qed
  show e: "entry (pmem s2) pd i = (if uint i < ?k then entry (pmem s) sh i else 0)" if "uint i < 1024" for i
    using C(1) [OF that, of "pmem s1"] old [OF d(2) that] entry_zero [OF A(2) that, of "pmem s1"] A(5)
    by (simp add: s2_def)
  show fr: "pmem s2 b = pmem s b" if "b \<notin> frame_span pd" for b
    using C(2) [of 0 b "pmem s1"] that A(5) by (simp add: s2_def)
  have w: "pm_inv start s2" "pm_live start s2 = pm_live start s1"
    using frame_write_inv [where m' = "memcpy pd sh (shared_size cfg) (pmem s1)", of start s1 pd]
      A(1,4) C(2) [of 0 _ "pmem s1"] by (auto simp: s2_def pm_inv_def)
  then show "pm_live start s2 = insert pd (pm_live start s)" using A(4) by simp
  show "pd \<notin> pm_live start s" by (rule A(3))
  show tb: "tables (pmem s2) pd \<subseteq> tables (pmem s) sh"
    using e by (auto simp: tables_def split: if_splits)
  show "as_inv start s2 pd"
    unfolding as_inv_def
  proof (intro conjI allI impI)
    show "pm_inv start s2" "pd \<in> pm_live start s2" using w A(4) by auto
    show "tables (pmem s2) pd \<subseteq> pm_live start s2 - {pd}" using tb d(4) w A(3,4) by auto
    fix i j assume "uint i < 1024" "uint j < 1024" "present (entry (pmem s2) pd i)"
      "present (entry (pmem s2) pd j)" "frame_of (entry (pmem s2) pd i) = frame_of (entry (pmem s2) pd j)"
    then show "i = j" using e [of i] e [of j] a unfolding as_inv_def by (auto split: if_splits)
  qed
  show "translate (pmem s2) pd va =
      (if uint (pdi va) < ?k then translate (pmem s) sh va else None)"
  proof (cases "uint (pdi va) < ?k \<and> present (entry (pmem s) sh (pdi va))")
    case True
    let ?t = "frame_of (entry (pmem s) sh (pdi va))"
    have "?t \<in> tables (pmem s) sh" using True by (auto simp: tables_def)
    then have t: "?t \<in> pm_live start s" using d(4) by auto
    have "entry (pmem s2) ?t (pti va) = entry (pmem s) ?t (pti va)"
    proof (rule entry_cong [OF aligned_frame_of index_bounds(2)])
      fix b assume "b \<in> frame_span ?t"
      then show "pmem s2 b = pmem s b"
        using fr frame_span_disjoint [OF aligned_frame_of A(2), of "entry (pmem s) sh (pdi va)"] t A(3)
        by (auto simp: disjoint_iff)
    qed
    then show ?thesis using True e [of "pdi va"] by (simp add: translate_entry)
  qed (use e [of "pdi va"] in \<open>auto simp: translate_entry\<close>)
  show "plimit s2 = plimit s" "uint (pavail s2) \<le> uint (pavail s) + 4096" using A(6,7) by (simp_all add: s2_def)
qed


lemma make_pd_ok:
  assumes "as_inv start s shared" and "memSize cfg \<le> 0x80000000"
    and "frame_offset (ioAPIC cfg) = 0" and "frame_offset (localAPIC cfg) = 0"
    and "uint (pavail s) + 0x3000 \<le> uint (plimit s)"
  shows "\<exists>pd s'. make_pd cfg shared s = Inr (pd, s') \<and> as_inv start s' pd \<and> pd \<notin> pm_live start s \<and>
    (\<forall>va. translate (pmem s') pd va =
      (if framedown va = localAPIC cfg then Some (localAPIC cfg OR frame_offset va)
       else if framedown va = ioAPIC cfg then Some (ioAPIC cfg OR frame_offset va)
       else if uint (pdi va) < shared_entries cfg then translate (pmem s) shared va
       else None))"
proof -
  from as_invD(1) [OF assms(1)] obtain xs where r: "pm_rel start s xs" by (auto simp: pm_inv_def)
  have "pavail s \<noteq> plimit s" using assms(5) by auto
  then obtain pd s1 where al: "alloc_frame s = Inr (pd, s1)" using alloc_frame_returns [OF r] by blast
  let ?s2 = "s1\<lparr>pmem := memcpy pd shared (shared_size cfg) (pmem s1)\<rparr>"
  note C = make_pd_copy [OF assms(1) al assms(2)]
  have io: "aligned (ioAPIC cfg)" and lo: "aligned (localAPIC cfg)" using assms(3,4) by (simp_all add: frame_offset_0)
  have "pavail ?s2 \<noteq> plimit ?s2" using C(6,7) assms(5) by auto
  then obtain s3 where m3: "map_page pd (ioAPIC cfg) (ioAPIC cfg) ?s2 = Inr s3"
    using map_page_returns [OF C(1)] by blast
  obtain t where M: "as_inv start s3 pd" "\<forall>va'. translate (pmem s3) pd va' =
      (if same_page (ioAPIC cfg) va' then Some (ioAPIC cfg OR frame_offset va') else translate (pmem ?s2) pd va')"
    "plimit s3 = plimit ?s2"
    "uint (pavail s3) \<le> uint (pavail ?s2) + (if present (entry (pmem ?s2) pd (pdi (ioAPIC cfg))) then 0 else 4096)"
    by (rule map_page_ok [OF C(1) io m3])
  have "uint (pavail s3) \<le> uint (pavail s) + 8192" using M(4) C(7) by (auto split: if_splits)
  then have "pavail s3 \<noteq> plimit s3" using M(3) C(6) assms(5) by auto
  then obtain s' where m4: "map_page pd (localAPIC cfg) (localAPIC cfg) s3 = Inr s'"
    using map_page_returns [OF M(1)] by blast
  obtain t' where N: "as_inv start s' pd" "\<forall>va'. translate (pmem s') pd va' =
      (if same_page (localAPIC cfg) va' then Some (localAPIC cfg OR frame_offset va') else translate (pmem s3) pd va')"
    by (rule map_page_ok [OF M(1) lo m4])
  have fd: "framedown p = p" if "aligned p" for p
    using that by (auto elim!: alignedE simp: word_uint_eq_iff uint_framedown)
  have run: "make_pd cfg shared s = Inr (pd, s')" using al m3 m4 by (simp add: make_pd_def)
  show ?thesis
    by (rule exI [of _ pd], rule exI [of _ s'])
      (use run N M(2) C(3,4) fd [OF io] fd [OF lo] in \<open>auto simp: same_page_def eq_commute [of "framedown _"]\<close>)
qed

text \<open>\<^verbatim>\<open>make_pd\<close>: with up to two gigabytes of memory and three frames left, it returns a
  new address space in order: addresses covered by the shared entries are translated as in
  the kernel's directory, the two APIC pages are mapped to themselves, and nothing else is
  mapped.\<close>

theorem make_pd_spec:
  assumes "as_inv start s shared" and "memSize cfg \<le> 0x80000000"
    and "frame_offset (ioAPIC cfg) = 0" and "frame_offset (localAPIC cfg) = 0"
    and "uint (pavail s) + 0x3000 \<le> uint (plimit s)"
  shows "\<exists>pd s'. make_pd cfg shared s = Inr (pd, s') \<and> as_inv start s' pd \<and> pd \<notin> pm_live start s \<and>
    (\<forall>va. translate (pmem s') pd va =
      (if framedown va = localAPIC cfg then Some (localAPIC cfg OR frame_offset va)
       else if framedown va = ioAPIC cfg then Some (ioAPIC cfg OR frame_offset va)
       else if uint (pdi va) < shared_entries cfg then translate (pmem s) shared va
       else None))"
  by (rule make_pd_ok [OF assms])

definition config_zero :: config where
  "config_zero = \<lparr>memSize = 0x800000, nOtherProcs = 0, totalProcs = 1, localAPIC = 0xFEE00000,
     madtFlags = 0, ioAPIC = 0xFEC00000, apicInfo = [], oemid = []\<rparr>"

lemma make_pd_spec_witness:
  "\<exists>sh s pd s'. make_pd config_zero sh s = Inr (pd, s') \<and> translate (pmem s') pd 0xFEE00000 = Some 0xFEE00000"
proof -
  obtain s0 where I: "pm_init 0x1000 0x9000 phys_zero = Inr s0" "pm_rel 0x1000 s0 []"
    "plimit s0 = 0xA000" "pavail s0 = 0x1000"
    using pm_init_ok [of "0x1000" "0x9000" phys_zero] by (auto simp: phys_zero_def aligned_def)
  then obtain sh s where al: "alloc_frame s0 = Inr (sh, s)" using alloc_frame_returns [OF I(2)] by auto
  obtain xs where A: "plimit s = plimit s0" "uint (pavail s) \<le> uint (pavail s0) + 4096"
    by (rule alloc_frame_ok [OF I(2) al])
  have room: "uint (pavail s) + 0x3000 \<le> uint (plimit s)" using A I(3,4) by simp
  have ap: "frame_offset (ioAPIC config_zero) = 0" "frame_offset (localAPIC config_zero) = 0"
    "memSize config_zero \<le> 0x80000000" "localAPIC config_zero = 0xFEE00000"
    by (simp_all add: config_zero_def frame_offset_def)
  obtain pd s' where "make_pd config_zero sh s = Inr (pd, s')" and
    t: "\<forall>va. translate (pmem s') pd va =
      (if framedown va = localAPIC config_zero then Some (localAPIC config_zero OR frame_offset va)
       else if framedown va = ioAPIC config_zero then Some (ioAPIC config_zero OR frame_offset va)
       else if uint (pdi va) < shared_entries config_zero then translate (pmem s) sh va
       else None)"
    using make_pd_spec [OF fresh_pd(1) [OF I(2) al] ap(3,1,2) room] by blast
  moreover have "translate (pmem s') pd 0xFEE00000 = Some 0xFEE00000"
    using t [rule_format, of "0xFEE00000"] ap(4) by (simp add: framedown_def FRAME_SIZE_eq frame_offset_def)
  ultimately show ?thesis by blast
qed

section \<open>The kernel's own directory\<close>

text \<open>One turn of the loop of \<^verbatim>\<open>global_init\<close> uses a frame only when it enters a new table.\<close>

definition tables_left :: "phys \<Rightarrow> u32 \<Rightarrow> u32 \<Rightarrow> u32 \<Rightarrow> int" where
  "tables_left s pd va bound =
     uint (pdi (bound - 1)) + 1 - uint (pdi va) - (if present (entry (pmem s) pd (pdi va)) then 1 else 0)"

lemma next_table:
  "(4096 * (k + 1)) div 4194304 = (4096 * k) div (4194304 :: int) \<or>
   (4096 * (k + 1)) div 4194304 = (4096 * k) div (4194304 :: int) + 1"
proof -
  have "(4096 * k) div 4194304 = k div 1024" "(4096 * (k + 1)) div 4194304 = (k + 1) div 1024" for k :: int
    by simp_all
  moreover have "(k + 1) div 1024 = k div 1024 \<or> (k + 1) div 1024 = k div 1024 + 1"
  proof -
    have "0 \<le> k mod 1024" "k mod 1024 < 1024" by simp_all
    then have "(k mod 1024 + 1) div 1024 = 0 \<or> (k mod 1024 + 1) div 1024 = 1"
      by (cases "k mod 1024 = 1023") (simp_all add: div_pos_pos_trivial)
    then show ?thesis by (simp add: div_add1_eq [of k 1])
  qed
  ultimately show ?thesis by simp
qed

lemma page_join: "framedown x OR frame_offset x = x"
proof (rule bit_word_eqI)
  fix n :: nat
  have "framedown x = push_bit 12 (drop_bit 12 x)"
    by (simp add: framedown_def FRAME_SIZE_eq push_bit_eq_mult drop_bit_eq_div)
  moreover have "frame_offset x = take_bit 12 x"
    by (simp add: frame_offset_def take_bit_eq_mask mask_eq_exp_minus_1)
  ultimately show "bit (framedown x OR frame_offset x) n = bit x n"
    by (auto simp: bit_or_iff bit_push_bit_iff bit_drop_bit_eq bit_take_bit_iff dest: bit_imp_le_length)
qed

lemma framedown_aligned: "aligned p \<Longrightarrow> framedown p = p"
  by (auto elim!: alignedE simp: word_uint_eq_iff uint_framedown)

lemma same_page_join: "same_page va x \<Longrightarrow> aligned va \<Longrightarrow> va OR frame_offset x = x"
  using page_join [of x] by (simp add: same_page_def framedown_aligned)

lemma range_step:
  assumes "uint va = 4096 * k" and "va < bound"
  shows "uint va \<le> uint x \<and> framedown x < bound \<longleftrightarrow>
    same_page va x \<or> 4096 * (k + 1) \<le> uint x \<and> framedown x < bound"
proof -
  have fd: "framedown va = va" using assms(1) by (simp add: framedown_aligned aligned_def)
  then have sp: "same_page va x \<longleftrightarrow> uint x div 4096 = k"
    using assms(1) by (auto simp: same_page_def word_uint_eq_iff uint_framedown)
  have x: "uint x = 4096 * (uint x div 4096) + uint x mod 4096" "0 \<le> uint x mod 4096" "uint x mod 4096 < 4096"
    by simp_all
  consider "uint x div 4096 < k" | "uint x div 4096 = k" | "k + 1 \<le> uint x div 4096" by linarith
  then show ?thesis
  proof cases
    case 1
    then have a: "\<not> uint va \<le> uint x" using x assms(1) by linarith
    then have b: "\<not> 4096 * (k + 1) \<le> uint x" using assms(1) by (simp add: algebra_simps)
    show ?thesis using sp 1 a b by blast
  next
    case 2
    then have "uint va \<le> uint x" using x assms(1) by linarith
    moreover have "framedown x = va" using sp 2 fd by (simp add: same_page_def)
    ultimately show ?thesis using sp 2 assms(2) by simp
  next
    case 3
    then have "uint va \<le> uint x" "4096 * k + 4096 \<le> uint x" using x assms(1) by linarith+
    then have "uint va \<le> uint x" "4096 * (k + 1) \<le> uint x" by simp_all
    then show ?thesis using sp 3 by auto
  qed
qed

lemma map_range_ok:
  assumes "as_inv start s pd" and "aligned va" and "uint bound \<le> 0xFFFFF000" and "va < bound \<longrightarrow>
      uint (pavail s) + 4096 * tables_left s pd va bound \<le> uint (plimit s)"
    and "\<forall>i. uint (pdi va) < uint i \<longrightarrow> uint i < 1024 \<longrightarrow> \<not> present (entry (pmem s) pd i)"
  shows "\<exists>s'. map_range pd va bound s = Some (Inr s') \<and> as_inv start s' pd \<and>
    (\<forall>x. translate (pmem s') pd x =
      (if uint va \<le> uint x \<and> framedown x < bound then Some x else translate (pmem s) pd x))"
  using assms
proof (induction n \<equiv> "nat (uint bound - uint va)" arbitrary: va s rule: less_induct)
  case less
  show ?case
  proof (cases "va < bound")
    case False
    have out: "\<not> (uint va \<le> uint x \<and> framedown x < bound)" for x
    proof
      assume x: "uint va \<le> uint x \<and> framedown x < bound"
      then have "uint va \<le> uint (framedown x)"
        using less.prems(2) by (auto elim!: alignedE simp: uint_framedown)
      then show False using x False by (simp add: word_less_def)
    qed
    show ?thesis
      unfolding if_not_P [OF out] using False less.prems(1) by (simp add: map_range.simps)
  next
    case True
    have vb: "uint va < uint bound" using True by (simp add: word_less_def)
    obtain k where k: "uint va = 4096 * k" "0 \<le> k" "k < 1048576" by (rule alignedE [OF less.prems(2)])
    have next_va: "uint (va + FRAME_SIZE) = 4096 * (k + 1)"
      using uint_add_small [of va FRAME_SIZE] k vb less.prems(3) by (simp add: FRAME_SIZE_eq)
    then have al: "aligned (va + FRAME_SIZE)" by (simp add: aligned_def)
    have b1: "uint (bound - 1) = uint bound - 1"
    proof -
      have "1 \<le> uint bound" using vb uint_ge_0 [of va] by linarith
      then show ?thesis by (simp add: uint_sub_if')
    qed
    have tl: "1 \<le> uint (pdi (bound - 1)) + 1 - uint (pdi va)"
      using zdiv_mono1 [of "uint va" "uint (bound - 1)" 4194304] vb b1 by (simp add: uint_pdi)
    have room: "uint (pavail s) + 4096 * tables_left s pd va bound \<le> uint (plimit s)"
      using less.prems(4) True by blast
    have "present (entry (pmem s) pd (pdi va)) \<or> pavail s \<noteq> plimit s"
      using room tl by (auto simp: tables_left_def)
    from map_page_returns [OF less.prems(1) this] obtain s1 where m: "map_page pd va va s = Inr s1" by blast
    obtain t where M: "as_inv start s1 pd" "\<forall>x. translate (pmem s1) pd x =
        (if same_page va x then Some (va OR frame_offset x) else translate (pmem s) pd x)"
      "plimit s1 = plimit s"
      "uint (pavail s1) \<le> uint (pavail s) + (if present (entry (pmem s) pd (pdi va)) then 0 else 4096)"
      "present (entry (pmem s1) pd (pdi va))"
      "\<forall>i. uint i < 1024 \<longrightarrow> i \<noteq> pdi va \<longrightarrow> entry (pmem s1) pd i = entry (pmem s) pd i"
      by (rule map_page_ok [OF less.prems(1,2) m])
    have up: "uint (pdi (va + FRAME_SIZE)) = uint (pdi va) \<or> uint (pdi (va + FRAME_SIZE)) = uint (pdi va) + 1"
      using next_table k next_va by (simp add: uint_pdi)
    have np: "\<not> present (entry (pmem s1) pd i)" if "uint (pdi va) < uint i" "uint i < 1024" for i
      using M(6) less.prems(5) that by auto
    have room': "uint (pavail s1) + 4096 * tables_left s1 pd (va + FRAME_SIZE) bound \<le> uint (plimit s1)"
    proof (cases "uint (pdi (va + FRAME_SIZE)) = uint (pdi va)")
      case True
      then have "pdi (va + FRAME_SIZE) = pdi va" by (simp add: word_uint_eq_iff)
      then show ?thesis using room M(3,4,5) by (auto simp: tables_left_def split: if_splits)
    next
      case False
      then have "uint (pdi (va + FRAME_SIZE)) = uint (pdi va) + 1" using up by simp
      moreover have "\<not> present (entry (pmem s1) pd (pdi (va + FRAME_SIZE)))" by (rule np) (simp add: calculation, rule index_bounds(1))
      ultimately show ?thesis using room M(3,4) by (auto simp: tables_left_def split: if_splits)
    qed
    have less: "nat (uint bound - uint (va + FRAME_SIZE)) < nat (uint bound - uint va)"
      using vb next_va k by simp
    have np': "\<forall>i. uint (pdi (va + FRAME_SIZE)) < uint i \<longrightarrow> uint i < 1024 \<longrightarrow>
        \<not> present (entry (pmem s1) pd i)" using np up by auto
    from less.hyps [OF less M(1) al less.prems(3) _ np'] room' obtain s' where S:
      "map_range pd (va + FRAME_SIZE) bound s1 = Some (Inr s')" "as_inv start s' pd"
      "\<forall>x. translate (pmem s') pd x =
        (if uint (va + FRAME_SIZE) \<le> uint x \<and> framedown x < bound then Some x else translate (pmem s1) pd x)"
      by blast
    have "map_range pd va bound s = Some (Inr s')" using True m S(1) by (simp add: map_range.simps [of pd va])
    moreover have "translate (pmem s') pd x =
        (if uint va \<le> uint x \<and> framedown x < bound then Some x else translate (pmem s) pd x)" for x
      using S(3) M(2) range_step [OF k(1) True, of x] next_va less.prems(2) by (auto simp: same_page_join)
    ultimately show ?thesis using S(2) by blast
  qed
qed


text \<open>\<^verbatim>\<open>global_init\<close>: with enough frames for the tables it ends, and the directory it leaves
  maps every page from 4096 up to the end of memory to itself and nothing else; in
  particular page 0 stays unmapped, so that a null pointer faults.\<close>

theorem global_init_spec:
  assumes "pm_inv start s" and "uint (memSize cfg) \<le> 0xFFFFF000" and "0x1000 < memSize cfg"
    and "uint (pavail s) + 4096 * (uint (pdi (memSize cfg - 1)) + 2) \<le> uint (plimit s)"
  shows "\<exists>shared s'. global_init cfg s = Inr (shared, s') \<and> as_inv start s' shared \<and>
    (\<forall>va. translate (pmem s') shared va =
      (if 0x1000 \<le> uint va \<and> framedown va < memSize cfg then Some va else None))"
proof -
  from assms(1) obtain xs where r: "pm_rel start s xs" by (auto simp: pm_inv_def)
  have "0 \<le> uint (pdi (memSize cfg - 1))" by (rule uint_ge_0)
  moreover have "uint (pavail s) + 4096 * uint (pdi (memSize cfg - 1)) + 8192 \<le> uint (plimit s)"
    using assms(4) by (simp add: algebra_simps)
  ultimately have "uint (pavail s) < uint (plimit s)" by linarith
  then have "pavail s \<noteq> plimit s" by auto
  then obtain pd s1 where al: "alloc_frame s = Inr (pd, s1)" using alloc_frame_returns [OF r] by blast
  note f = fresh_pd [OF r al]
  obtain xs1 where A: "plimit s1 = plimit s" "uint (pavail s1) \<le> uint (pavail s) + 4096"
    by (rule alloc_frame_ok [OF r al])
  have none: "\<not> present (entry (pmem s1) pd i)" if "uint i < 1024" for i
    using f(2) that by (auto simp: tables_def)
  have z: "pdi FRAME_SIZE = 0" by (simp add: pdi_def FRAME_SIZE_eq drop_bit_eq_div)
  have "uint (pavail s1) + 4096 * tables_left s1 pd FRAME_SIZE (memSize cfg) \<le> uint (plimit s1)"
    using A assms(4) by (simp add: tables_left_def z)
  then have room: "FRAME_SIZE < memSize cfg \<longrightarrow>
      uint (pavail s1) + 4096 * tables_left s1 pd FRAME_SIZE (memSize cfg) \<le> uint (plimit s1)" by blast
  have np: "\<forall>i. uint (pdi FRAME_SIZE) < uint i \<longrightarrow> uint i < 1024 \<longrightarrow> \<not> present (entry (pmem s1) pd i)"
    using none by blast
  have "aligned FRAME_SIZE" by (simp add: aligned_def FRAME_SIZE_eq)
  from map_range_ok [OF f(1) this assms(2) room np] f(3) show ?thesis
    using al by (auto simp: global_init_def FRAME_SIZE_eq returned_def)
qed

lemma global_init_spec_witness:
  "\<exists>sh s s'. global_init config_zero s = Inr (sh, s') \<and> translate (pmem s') sh 0x1234 = Some 0x1234 \<and>
     translate (pmem s') sh 0 = None"
proof -
  obtain s where I: "pm_init 0x1000 0x9000 phys_zero = Inr s" "pm_rel 0x1000 s []"
    "plimit s = 0xA000" "pavail s = 0x1000"
    using pm_init_ok [of "0x1000" "0x9000" phys_zero] by (auto simp: phys_zero_def aligned_def)
  have inv: "pm_inv 0x1000 s" using I(2) by (auto simp: pm_inv_def)
  have c: "uint (memSize config_zero) \<le> 0xFFFFF000" "0x1000 < memSize config_zero"
    "uint (pdi (memSize config_zero - 1)) = 1" by (simp_all add: config_zero_def uint_pdi)
  have "uint (pavail s) + 4096 * (uint (pdi (memSize config_zero - 1)) + 2) \<le> uint (plimit s)"
    using I(3,4) c(3) by simp
  from global_init_spec [OF inv c(1,2) this] obtain sh s' where
    g: "global_init config_zero s = Inr (sh, s')" "\<forall>va. translate (pmem s') sh va =
      (if 0x1000 \<le> uint va \<and> framedown va < memSize config_zero then Some va else None)" by blast
  have "translate (pmem s') sh 0x1234 = Some 0x1234" "translate (pmem s') sh 0 = None"
    using g(2) by (simp_all add: framedown_def FRAME_SIZE_eq config_zero_def)
  then show ?thesis using g(1) by blast
qed

section \<open>Taking an address space down\<close>

lemma as_inv_inj:
  assumes "as_inv start s pd" and "uint i < 1024" and "uint j < 1024" and "present (entry (pmem s) pd i)"
    and "present (entry (pmem s) pd j)" and "frame_of (entry (pmem s) pd i) = frame_of (entry (pmem s) pd j)"
  shows "i = j"
  using assms unfolding as_inv_def by blast

lemma image_range_Suc:
  "{f j | j. i \<le> j \<and> j < i + Suc n \<and> P j} =
     (if P i then {f i} else {}) \<union> {f j | j. Suc i \<le> j \<and> j < Suc i + n \<and> P j}"
proof -
  have eq: "i \<le> j \<and> j < i + Suc n \<and> P j \<longleftrightarrow> j = i \<and> P i \<or> Suc i \<le> j \<and> j < Suc i + n \<and> P j" for j
    by (cases "j = i") auto
  have "{f j | j. i \<le> j \<and> j < i + Suc n \<and> P j} =
      {f j | j. j = i \<and> P i \<or> Suc i \<le> j \<and> j < Suc i + n \<and> P j}" by (simp only: eq)
  also have "\<dots> = (if P i then {f i} else {}) \<union> {f j | j. Suc i \<le> j \<and> j < Suc i + n \<and> P j}"
    by (rule set_eqI) (auto split: if_splits)
  finally show ?thesis .
qed

text \<open>The tables of the user half, seen from the loop.\<close>

lemma user_tables_nat:
  assumes "as_inv start s pd" and "512 \<le> j" and "j < 512 + 512" and "present (entry (pmem s) pd (of_nat j))"
  shows "frame_of (entry (pmem s) pd (of_nat j)) \<in> pm_live start s - {pd}"
proof -
  have "uint (of_nat j :: u32) < 1024"
    using assms(3) by (simp add: unsigned_of_nat take_bit_nat_eq_self)
  then have "frame_of (entry (pmem s) pd (of_nat j)) \<in> tables (pmem s) pd"
    using assms(4) unfolding tables_def by (intro CollectI exI [of _ "of_nat j"] conjI refl)
  then show ?thesis using as_invD(4,5) [OF assms(1)] by (metis DiffI singletonD subsetD)
qed

lemma delete_tables_ok:
  assumes "pm_inv start s" and "pd \<in> pm_live start s" and "i + n \<le> 1024"
    and "\<forall>j. i \<le> j \<longrightarrow> j < i + n \<longrightarrow> present (entry m pd (of_nat j)) \<longrightarrow>
      frame_of (entry m pd (of_nat j)) \<in> pm_live start s - {pd}"
    and "\<forall>j k. i \<le> j \<longrightarrow> j < i + n \<longrightarrow> i \<le> k \<longrightarrow> k < i + n \<longrightarrow> present (entry m pd (of_nat j)) \<longrightarrow>
      present (entry m pd (of_nat k)) \<longrightarrow>
      frame_of (entry m pd (of_nat j)) = frame_of (entry m pd (of_nat k)) \<longrightarrow> j = k"
    and "\<forall>b\<in>frame_span pd. pmem s b = m b"
  shows "\<exists>s'. delete_tables pd i n s = Inr s' \<and> pm_inv start s' \<and>
    pm_live start s' = pm_live start s -
      {frame_of (entry m pd (of_nat j)) | j. i \<le> j \<and> j < i + n \<and> present (entry m pd (of_nat j))}"
  using assms
proof (induction n arbitrary: i s)
  case (Suc n)
  let ?e = "entry m pd (of_nat i)"
  have al: "aligned pd" by (rule pm_live_aligned [OF Suc.prems(2)])
  have ui: "uint (of_nat i :: u32) < 1024" using Suc.prems(3) by (simp add: unsigned_of_nat take_bit_nat_eq_self)
  have e: "ld32 (pmem s) (pd + 4 * of_nat i) = ?e"
    using entry_cong [OF al ui, of "pmem s" m] Suc.prems(6) by (simp add: entry_def)
  define s1 where "s1 = (if present ?e then projr (dealloc_frame (frame_of ?e) s) else s)"
  have s1: "(if present ?e then dealloc_frame (frame_of ?e) s else Inr s) = Inr s1 \<and> pm_inv start s1 \<and>
    pm_live start s1 = pm_live start s - (if present ?e then {frame_of ?e} else {}) \<and>
    (\<forall>b\<in>frame_span pd. pmem s1 b = m b)"
  proof (cases "present ?e")
    case True
    then have f: "frame_of ?e \<in> pm_live start s" "frame_of ?e \<noteq> pd" using Suc.prems(4) by auto
    from Suc.prems(1) obtain xs where r: "pm_rel start s xs" by (auto simp: pm_inv_def)
    from dealloc_frame_ok [OF r f(1)] obtain s2 where D: "dealloc_frame (frame_of ?e) s = Inr s2"
      "pm_rel start s2 (frame_of ?e # xs)" "pm_live start s2 = pm_live start s - {frame_of ?e}"
      "\<forall>a. a \<notin> frame_span (frame_of ?e) \<longrightarrow> pmem s2 a = pmem s a" by blast
    have "\<forall>b\<in>frame_span pd. pmem s2 b = m b"
      using D(4) frame_span_disjoint [OF aligned_frame_of al f(2)] Suc.prems(6) by (auto simp: disjoint_iff)
    then show ?thesis using D True by (auto simp: s1_def pm_inv_def)
  qed (use Suc.prems in \<open>simp add: s1_def\<close>)
  have ls: "pm_live start s1 = pm_live start s - (if present ?e then {frame_of ?e} else {})" using s1 by blast
  have "present ?e \<Longrightarrow> frame_of ?e \<noteq> pd" using Suc.prems(4) by auto
  then have live: "pd \<in> pm_live start s1" unfolding ls using Suc.prems(2) by auto
  have tl: "\<forall>j. Suc i \<le> j \<longrightarrow> j < Suc i + n \<longrightarrow> present (entry m pd (of_nat j)) \<longrightarrow>
      frame_of (entry m pd (of_nat j)) \<in> pm_live start s1 - {pd}"
  proof (intro allI impI)
    fix j assume j: "Suc i \<le> j" "j < Suc i + n" "present (entry m pd (of_nat j))"
    then have "frame_of (entry m pd (of_nat j)) \<in> pm_live start s - {pd}" using Suc.prems(4) by simp
    moreover have "present ?e \<Longrightarrow> frame_of (entry m pd (of_nat j)) \<noteq> frame_of ?e"
      using Suc.prems(5) [rule_format, of i j] j by auto
    ultimately show "frame_of (entry m pd (of_nat j)) \<in> pm_live start s1 - {pd}"
      unfolding ls by simp
  qed
  have inj: "\<forall>j k. Suc i \<le> j \<longrightarrow> j < Suc i + n \<longrightarrow> Suc i \<le> k \<longrightarrow> k < Suc i + n \<longrightarrow>
      present (entry m pd (of_nat j)) \<longrightarrow> present (entry m pd (of_nat k)) \<longrightarrow>
      frame_of (entry m pd (of_nat j)) = frame_of (entry m pd (of_nat k)) \<longrightarrow> j = k"
    using Suc.prems(5) by simp
  have "Suc i + n \<le> 1024" using Suc.prems(3) by simp
  from Suc.IH [OF _ live this tl inj] conjunct1 [OF conjunct2 [OF s1]]
    conjunct2 [OF conjunct2 [OF conjunct2 [OF s1]]] obtain s' where S: "delete_tables pd (Suc i) n s1 = Inr s'"
    "pm_inv start s'" "pm_live start s' = pm_live start s1 -
      {frame_of (entry m pd (of_nat j)) | j. Suc i \<le> j \<and> j < Suc i + n \<and> present (entry m pd (of_nat j))}"
    by blast
  have "pm_live start s' = pm_live start s -
      {frame_of (entry m pd (of_nat j)) | j. i \<le> j \<and> j < i + Suc n \<and> present (entry m pd (of_nat j))}"
    unfolding S(3) ls image_range_Suc [of _ i n] by blast
  moreover have "delete_tables pd i (Suc n) s = Inr s'"
    using s1 S(1) by (simp add: e Let_def del: rbind_eq_Inr split del: if_split)
  ultimately show ?case using S(2) by blast
qed auto


text \<open>\<^verbatim>\<open>delete_pd\<close> of an address space in order gives back its directory and the tables of
  its upper half, and nothing else: the frames that were mapped there stay allocated.\<close>

theorem delete_pd_spec:
  assumes "as_inv start s pd"
  shows "\<exists>s'. delete_pd pd s = Inr s' \<and> pm_inv start s' \<and>
    pm_live start s' = pm_live start s - {pd} -
      {frame_of (entry (pmem s) pd i) | i. 512 \<le> uint i \<and> uint i < 1024 \<and> present (entry (pmem s) pd i)}"
proof -
  note d = as_invD [OF assms]
  have u: "uint (of_nat j :: u32) = int j" if "j < 1024" for j
    using that by (simp add: unsigned_of_nat take_bit_nat_eq_self)
  have nat: "j = k" if "(of_nat j :: u32) = of_nat k" "j < 1024" "k < 1024" for j k
    using u [OF that(2)] u [OF that(3)] unfolding that(1) by simp
  let ?D = "{frame_of (entry (pmem s) pd (of_nat j)) | j. 512 \<le> j \<and> j < 512 + 512 \<and> present (entry (pmem s) pd (of_nat j))}"
  have "\<exists>s'. delete_tables pd 512 512 s = Inr s' \<and> pm_inv start s' \<and> pm_live start s' = pm_live start s - ?D"
  proof (rule delete_tables_ok [OF d(1,2)])
    show "\<forall>j. 512 \<le> j \<longrightarrow> j < 512 + 512 \<longrightarrow> present (entry (pmem s) pd (of_nat j)) \<longrightarrow>
      frame_of (entry (pmem s) pd (of_nat j)) \<in> pm_live start s - {pd}"
      using user_tables_nat [OF assms] by blast
    show "\<forall>j k. 512 \<le> j \<longrightarrow> j < 512 + 512 \<longrightarrow> 512 \<le> k \<longrightarrow> k < 512 + 512 \<longrightarrow>
      present (entry (pmem s) pd (of_nat j)) \<longrightarrow> present (entry (pmem s) pd (of_nat k)) \<longrightarrow>
      frame_of (entry (pmem s) pd (of_nat j)) = frame_of (entry (pmem s) pd (of_nat k)) \<longrightarrow> j = k"
    proof (intro allI impI)
      fix j k :: nat
      assume jk: "j < 512 + 512" "k < 512 + 512" "present (entry (pmem s) pd (of_nat j))"
        "present (entry (pmem s) pd (of_nat k))"
        "frame_of (entry (pmem s) pd (of_nat j)) = frame_of (entry (pmem s) pd (of_nat k))"
      then have "uint (of_nat j :: u32) < 1024" "uint (of_nat k :: u32) < 1024" using u by simp_all
      then have "(of_nat j :: u32) = of_nat k"
        by (rule as_inv_inj [OF assms _ _ jk(3-5)])
      then show "j = k" using nat jk(1,2) by simp
    qed
  qed simp_all
  then obtain s1 where S: "delete_tables pd 512 512 s = Inr s1" "pm_inv start s1"
    "pm_live start s1 = pm_live start s - ?D" by blast
  have "pd \<notin> ?D"
  proof
    assume "pd \<in> ?D"
    then obtain j where j: "512 \<le> j" "j < 512 + 512" "present (entry (pmem s) pd (of_nat j))"
      "pd = frame_of (entry (pmem s) pd (of_nat j))" by (elim CollectE exE conjE)
    show False using user_tables_nat [OF assms j(1-3)] unfolding j(4) [symmetric] by simp
  qed
  then have "pd \<in> pm_live start s1" using S(3) d(2) by blast
  from pm.release_ok [OF S(2) this] obtain s' where "dealloc_frame pd s1 = Inr s'" "pm_inv start s'"
    "pm_live start s' = pm_live start s1 - {pd}" by blast
  moreover have "?D = {frame_of (entry (pmem s) pd i) | i. 512 \<le> uint i \<and> uint i < 1024 \<and> present (entry (pmem s) pd i)}"
    (is "_ = ?E")
  proof (intro set_eqI iffI)
    fix x assume "x \<in> ?D"
    then obtain j where "512 \<le> j" "j < 1024" "present (entry (pmem s) pd (of_nat j))"
      "x = frame_of (entry (pmem s) pd (of_nat j))" by auto
    then show "x \<in> ?E" using u [of j] by (intro CollectI exI [of _ "of_nat j"]) simp
  next
    fix x assume "x \<in> ?E"
    then obtain i where i: "512 \<le> uint i" "uint i < 1024" "present (entry (pmem s) pd i)"
      "x = frame_of (entry (pmem s) pd i)" by auto
    have e: "of_nat (unat i) = i" by simp
    have "int (unat i) = uint i" by simp
    then have b: "512 \<le> unat i" "unat i < 512 + 512" using i(1,2) by linarith+
    show "x \<in> ?D"
      by (rule CollectI, rule exI [of _ "unat i"], unfold e, intro conjI; fact)
  qed
  ultimately show ?thesis using S by (auto simp: delete_pd_def)
qed

lemma delete_pd_spec_witness: "\<exists>s pd s'. delete_pd pd s = Inr s' \<and> pm_inv 0x1000 s'"
proof -
  obtain s pd where a: "as_inv 0x1000 s pd" by (rule vm_example)
  from delete_pd_spec [OF a] show ?thesis by blast
qed

end
