(* ===== verification/User_Memory.thy ===== *)
theory User_Memory
  imports VMM
begin

text \<open>
  Memory as the kernel's code reaches it through pointers: an access goes through the running
  thread's page directory, and a page that is not there is filled by the page-fault handler
  first.  The result is that the user half of an address space is a flat array of bytes that
  starts out zero; the locale \<open>byte_memory\<close> states this interface, and the system calls rely
  on nothing else.
\<close>

section \<open>Accesses through the page directory\<close>

text \<open>The processor's access: the walk, and on a fault the handler and the walk again.  (A page
  that is missing after the handler returned would fault for ever.)\<close>

definition resolve :: "u32 \<Rightarrow> u32 \<Rightarrow> phys \<Rightarrow> (u32 \<times> phys) res" where
  "resolve pd va s =
     (case translate (pmem s) pd va of
        Some pa \<Rightarrow> Inr (pa, s)
      | None \<Rightarrow> rbind (vmm_pageFault pd pd pd va s) (\<lambda>s1.
          case translate (pmem s1) pd va of Some pa \<Rightarrow> Inr (pa, s1) | None \<Rightarrow> Inl Diverges))"

definition load8 :: "u32 \<Rightarrow> u32 \<Rightarrow> phys \<Rightarrow> (u8 \<times> phys) res" where
  "load8 pd va s = rbind (resolve pd va s) (\<lambda>(pa, s1). Inr (pmem s1 pa, s1))"

definition store8 :: "u32 \<Rightarrow> u32 \<Rightarrow> u8 \<Rightarrow> phys \<Rightarrow> phys res" where
  "store8 pd va b s = rbind (resolve pd va s) (\<lambda>(pa, s1). Inr (put_byte pa b s1))"

text \<open>Ranges, words and strings over an access function for bytes.\<close>

fun load_range :: "(u32 \<Rightarrow> 's \<Rightarrow> (u8 \<times> 's) res) \<Rightarrow> u32 \<Rightarrow> nat \<Rightarrow> 's \<Rightarrow> (u8 list \<times> 's) res" where
  "load_range ld a 0 s = Inr ([], s)"
| "load_range ld a (Suc n) s =
     rbind (ld a s) (\<lambda>(b, s1). rbind (load_range ld (a + 1) n s1) (\<lambda>(bs, s2). Inr (b # bs, s2)))"

fun store_range :: "(u32 \<Rightarrow> u8 \<Rightarrow> 's \<Rightarrow> 's res) \<Rightarrow> u32 \<Rightarrow> u8 list \<Rightarrow> 's \<Rightarrow> 's res" where
  "store_range st a [] s = Inr s"
| "store_range st a (b # bs) s = rbind (st a b s) (store_range st (a + 1) bs)"

partial_function (option) load_text :: "(u32 \<Rightarrow> 's \<Rightarrow> (u8 \<times> 's) res) \<Rightarrow> u32 \<Rightarrow> u8 list \<Rightarrow> 's \<Rightarrow> (u8 list \<times> 's) res option" where
  "load_text ld a acc s =
     (case ld a s of
        Inl e \<Rightarrow> Some (Inl e)
      | Inr r \<Rightarrow> if fst r = 0 then Some (Inr (acc, snd r)) else load_text ld (a + 1) (acc @ [fst r]) (snd r))"

definition word_of_bytes :: "u8 list \<Rightarrow> u32" where
  "word_of_bytes bs = ucast (bs ! 0) OR push_bit 8 (ucast (bs ! 1)) OR
     push_bit 16 (ucast (bs ! 2)) OR push_bit 24 (ucast (bs ! 3))"

definition bytes_of_word :: "u32 \<Rightarrow> u8 list" where
  "bytes_of_word v = [ucast v, ucast (drop_bit 8 v), ucast (drop_bit 16 v), ucast (drop_bit 24 v)]"

lemma word_bytes [simp]: "word_of_bytes (bytes_of_word v) = v"
  using le_bytes_join [of v] by (simp add: word_of_bytes_def bytes_of_word_def)

lemma length_bytes_of_word [simp]: "length (bytes_of_word v) = 4"
  by (simp add: bytes_of_word_def)

definition load_word :: "(u32 \<Rightarrow> 's \<Rightarrow> (u8 \<times> 's) res) \<Rightarrow> u32 \<Rightarrow> 's \<Rightarrow> (u32 \<times> 's) res" where
  "load_word ld a s = rbind (load_range ld a 4 s) (\<lambda>(bs, s1). Inr (word_of_bytes bs, s1))"

definition store_word :: "(u32 \<Rightarrow> u8 \<Rightarrow> 's \<Rightarrow> 's res) \<Rightarrow> u32 \<Rightarrow> u32 \<Rightarrow> 's \<Rightarrow> 's res" where
  "store_word st a v = store_range st a (bytes_of_word v)"

definition load_string :: "(u32 \<Rightarrow> 's \<Rightarrow> (u8 \<times> 's) res) \<Rightarrow> u32 \<Rightarrow> 's \<Rightarrow> (u8 list \<times> 's) res" where
  "load_string ld a s = returned (load_text ld a [] s)"

section \<open>Computations that return or run out of something\<close>

text \<open>\<open>succeeds e r P\<close>: the computation returns a result with \<open>P\<close>, or fails with the one fault \<open>e\<close>.\<close>

definition succeeds :: "fault \<Rightarrow> 'a res \<Rightarrow> ('a \<Rightarrow> bool) \<Rightarrow> bool" where
  "succeeds e r P \<longleftrightarrow> (case r of Inl f \<Rightarrow> f = e | Inr x \<Rightarrow> P x)"

lemma succeeds_simps [simp]:
  "succeeds e (Inl f) P \<longleftrightarrow> f = e"
  "succeeds e (Inr x) P \<longleftrightarrow> P x"
  by (simp_all add: succeeds_def)

lemma succeeds_rbind: "succeeds e r P \<Longrightarrow> (\<And>x. P x \<Longrightarrow> succeeds e (f x) Q) \<Longrightarrow> succeeds e (rbind r f) Q"
  by (cases r) auto

lemma succeeds_mono: "succeeds e r P \<Longrightarrow> (\<And>x. P x \<Longrightarrow> Q x) \<Longrightarrow> succeeds e r Q"
  by (cases r) auto

section \<open>The interface of a flat memory\<close>

text \<open>
  \<open>view s a\<close> is the byte at \<open>a\<close>; loads return it and change no byte, stores change that byte
  only, and the only fault is \<open>oom\<close>.
\<close>

definition span :: "u32 \<Rightarrow> nat \<Rightarrow> u32 set" where
  "span a n = {x. unat (x - a) < n}"

lemma span_0 [simp]: "span a 0 = {}"
  by (simp add: span_def)

lemma unat_pred: "x \<noteq> 0 \<Longrightarrow> unat (x - 1) = unat x - 1" for x :: u32
proof -
  assume "x \<noteq> 0"
  then have "unat x \<noteq> 0" by (simp add: unat_eq_zero)
  then have "1 \<le> x" by (simp add: word_le_nat_alt)
  then show ?thesis by (simp add: unat_sub)
qed

lemma unat_next: "x \<noteq> a \<Longrightarrow> unat (x - a) = Suc (unat (x - (a + 1)))" for x :: u32
proof -
  assume "x \<noteq> a"
  then have "x - a \<noteq> 0" by simp
  then have "unat (x - a - 1) = unat (x - a) - 1" "unat (x - a) \<noteq> 0" by (simp_all only: unat_pred unat_eq_zero simp_thms)
  then show ?thesis by (simp add: diff_diff_eq)
qed

lemma span_Suc: "span a (Suc n) = insert a (span (a + 1) n)" if "Suc n < 2 ^ 32"
proof -
  have "unat (x - a) < Suc n \<longleftrightarrow> x = a \<or> unat (x - (a + 1)) < n" for x
    using unat_next [of x a] by (cases "x = a") simp_all
  then show ?thesis by (auto simp: span_def)
qed

lemma span_self: "0 < n \<Longrightarrow> a \<in> span a n"
  by (simp add: span_def)

lemma span_head: "Suc n < 2 ^ 32 \<Longrightarrow> a \<notin> span (a + 1) n"
proof -
  assume "Suc n < 2 ^ 32"
  moreover have "unat (a - (a + 1)) = 2 ^ 32 - 1" by (simp add: unsigned_minus_1_eq_mask mask_eq_exp_minus_1)
  ultimately show ?thesis unfolding span_def by simp
qed

locale byte_memory =
  fixes load :: "u32 \<Rightarrow> 's \<Rightarrow> (u8 \<times> 's) res"
    and store :: "u32 \<Rightarrow> u8 \<Rightarrow> 's \<Rightarrow> 's res"
    and ok :: "'s \<Rightarrow> bool"
    and valid :: "u32 set"
    and view :: "'s \<Rightarrow> u32 \<Rightarrow> u8"
    and oom :: fault
  assumes load_ok: "ok s \<Longrightarrow> a \<in> valid \<Longrightarrow>
      succeeds oom (load a s) (\<lambda>(b, s'). ok s' \<and> b = view s a \<and> (\<forall>x\<in>valid. view s' x = view s x))"
    and store_ok: "ok s \<Longrightarrow> a \<in> valid \<Longrightarrow>
      succeeds oom (store a b s) (\<lambda>s'. ok s' \<and> (\<forall>x\<in>valid. view s' x = (if x = a then b else view s x)))"
begin

lemma load_range_ok:
  "ok s \<Longrightarrow> n < 2 ^ 32 \<Longrightarrow> span a n \<subseteq> valid \<Longrightarrow>
     succeeds oom (load_range load a n s)
       (\<lambda>(bs, s'). ok s' \<and> bs = map (\<lambda>i. view s (a + of_nat i)) [0..<n] \<and> (\<forall>x\<in>valid. view s' x = view s x))"
proof (induction n arbitrary: a s)
  case (Suc n)
  have a: "a \<in> valid" "span (a + 1) n \<subseteq> valid" using Suc.prems(2,3) by (simp_all add: span_Suc)
  have e: "map (\<lambda>i. view s (a + of_nat i)) [0..<Suc n] =
      view s a # map (\<lambda>i. view s (a + 1 + of_nat i)) [0..<n]"
    by (simp add: upt_conv_Cons map_Suc_upt [symmetric] comp_def add.assoc del: upt_Suc map_Suc_upt)
  have m: "view s (a + 1 + of_nat i) = view s1 (a + 1 + of_nat i)"
    if "\<forall>x\<in>valid. view s1 x = view s x" "i < n" for s1 i
  proof -
    have "unat (of_nat i :: u32) = i" using that(2) Suc.prems(2) by (simp add: unsigned_of_nat take_bit_nat_eq_self)
    then have "a + 1 + of_nat i \<in> span (a + 1) n" using that(2) by (simp add: span_def)
    then show ?thesis using that(1) a(2) by (metis subsetD)
  qed
  show ?case unfolding load_range.simps e
  proof (rule succeeds_rbind [OF load_ok [OF Suc.prems(1) a(1)]], clarify)
    fix s1 assume s1: "ok s1" "\<forall>x\<in>valid. view s1 x = view s x"
    have "n < 2 ^ 32" using Suc.prems(2) by simp
    show "succeeds oom (rbind (load_range load (a + 1) n s1) (\<lambda>(bs, s2). Inr (view s a # bs, s2)))
       (\<lambda>(bs, s'). ok s' \<and> bs = view s a # map (\<lambda>i. view s (a + 1 + of_nat i)) [0..<n] \<and>
          (\<forall>x\<in>valid. view s' x = view s x))"
      by (rule succeeds_rbind [OF Suc.IH [OF s1(1) \<open>n < 2 ^ 32\<close> a(2)]]) (use s1(2) m [OF s1(2)] in auto)
  qed
qed simp

lemma store_range_ok:
  "ok s \<Longrightarrow> length bs < 2 ^ 32 \<Longrightarrow> span a (length bs) \<subseteq> valid \<Longrightarrow>
     succeeds oom (store_range store a bs s)
       (\<lambda>s'. ok s' \<and> (\<forall>x\<in>valid. view s' x = (if x \<in> span a (length bs) then bs ! unat (x - a) else view s x)))"
proof (induction bs arbitrary: a s)
  case (Cons b bs)
  have l: "Suc (length bs) < 2 ^ 32" using Cons.prems(2) by simp
  have a: "a \<in> valid" "span (a + 1) (length bs) \<subseteq> valid" using Cons.prems(3) l by (simp_all add: span_Suc)
  have tl: "(b # bs) ! unat (x - a) = bs ! unat (x - (a + 1))" if "x \<in> span (a + 1) (length bs)" for x
  proof -
    have "x \<noteq> a" using span_head [OF l] that by auto
    then show ?thesis using unat_next [of x a] by simp
  qed
  show ?case unfolding store_range.simps
  proof (rule succeeds_rbind [OF store_ok [OF Cons.prems(1) a(1)]], clarify)
    fix s1 assume s1: "ok s1" "\<forall>x\<in>valid. view s1 x = (if x = a then b else view s x)"
    show "succeeds oom (store_range store (a + 1) bs s1)
       (\<lambda>s'. ok s' \<and> (\<forall>x\<in>valid. view s' x =
          (if x \<in> span a (length (b # bs)) then (b # bs) ! unat (x - a) else view s x)))"
      by (rule succeeds_mono [OF Cons.IH [OF s1(1) _ a(2)]])
        (use l s1(2) tl span_head [OF l, of a] in \<open>auto simp: span_Suc [OF l]\<close>)
  qed
qed simp

lemma load_word_ok:
  assumes "ok s" "span a 4 \<subseteq> valid"
  shows "succeeds oom (load_word load a s) (\<lambda>(v, s'). ok s' \<and>
     v = word_of_bytes (map (\<lambda>i. view s (a + of_nat i)) [0..<4]) \<and> (\<forall>x\<in>valid. view s' x = view s x))"
  unfolding load_word_def
  by (rule succeeds_rbind [OF load_range_ok [OF assms(1) _ assms(2)]]) auto

lemma store_word_ok:
  assumes "ok s" "span a 4 \<subseteq> valid"
  shows "succeeds oom (store_word store a v s) (\<lambda>s'. ok s' \<and>
     (\<forall>x\<in>valid. view s' x = (if x \<in> span a 4 then bytes_of_word v ! unat (x - a) else view s x)))"
  unfolding store_word_def
  using store_range_ok [OF assms(1), of "bytes_of_word v" a] assms(2) by simp

lemma load_text_ok:
  "ok s \<Longrightarrow> span a (Suc (length cs)) \<subseteq> valid \<Longrightarrow> Suc (length cs) < 2 ^ 32 \<Longrightarrow>
    map (\<lambda>i. view s (a + of_nat i)) [0..<Suc (length cs)] = cs @ [0] \<Longrightarrow> 0 \<notin> set cs \<Longrightarrow>
    succeeds oom (returned (load_text load a acc s))
      (\<lambda>(t, s'). ok s' \<and> t = acc @ cs \<and> (\<forall>x\<in>valid. view s' x = view s x))"
proof (induction cs arbitrary: a acc s)
  case Nil
  then have "a \<in> valid" "view s a = 0" using span_self [of 1 a] by auto
  with load_ok [OF Nil.prems(1) this(1)] show ?case
    by (subst load_text.simps) (auto split: sum.splits)
next
  case (Cons c cs)
  let ?n = "Suc (length cs)"
  have l: "Suc ?n < 2 ^ 32" using Cons.prems(3) by simp
  have a: "a \<in> valid" "span (a + 1) ?n \<subseteq> valid" using Cons.prems(2) span_Suc [OF l, of a] by simp_all
  have "map (\<lambda>i. view s (a + of_nat i)) [0..<Suc ?n] =
      view s a # map (\<lambda>i. view s (a + 1 + of_nat i)) [0..<?n]"
    by (simp add: upt_conv_Cons map_Suc_upt [symmetric] comp_def add.assoc del: upt_Suc map_Suc_upt)
  then have v: "view s a = c" "map (\<lambda>i. view s (a + 1 + of_nat i)) [0..<?n] = cs @ [0]"
    using Cons.prems(4) by simp_all
  have c: "c \<noteq> 0" "0 \<notin> set cs" using Cons.prems(5) by auto
  show ?case
  proof (cases "load a s")
    case (Inl e)
    then show ?thesis using load_ok [OF Cons.prems(1) a(1)] by (subst load_text.simps) simp
  next
    case (Inr r)
    then have r: "ok (snd r)" "fst r = c" "\<forall>x\<in>valid. view (snd r) x = view s x"
      using load_ok [OF Cons.prems(1) a(1)] v(1) by auto
    have m: "view (snd r) (a + 1 + of_nat i) = view s (a + 1 + of_nat i)" if "i < ?n" for i
    proof -
      have "unat (of_nat i :: u32) = i" using that l by (simp add: unsigned_of_nat take_bit_nat_eq_self)
      then have "a + 1 + of_nat i \<in> span (a + 1) ?n" using that by (simp add: span_def)
      then show ?thesis using r(3) a(2) by blast
    qed
    then have "map (\<lambda>i. view (snd r) (a + 1 + of_nat i)) [0..<?n] = cs @ [0]"
      unfolding v(2) [symmetric] by (intro map_cong) auto
    from Cons.IH [OF r(1) a(2) _ this c(2), of "acc @ [c]"] l
    have "succeeds oom (returned (load_text load (a + 1) (acc @ [c]) (snd r)))
      (\<lambda>(t, s'). ok s' \<and> t = acc @ c # cs \<and> (\<forall>x\<in>valid. view s' x = view s x))"
      using r(3) by (auto elim!: succeeds_mono)
    then show ?thesis using Inr r(2) c(1) by (subst load_text.simps) simp
  qed
qed

end

section \<open>The user half of an address space\<close>

text \<open>The pages user programs own: from \<open>0x80000000\<close>, without the two pages of device registers.\<close>

definition user_area :: "config \<Rightarrow> u32 set" where
  "user_area cfg = {va. 0x80000000 \<le> va \<and> framedown va \<noteq> framedown (ioAPIC cfg) \<and>
     framedown va \<noteq> framedown (localAPIC cfg)}"

text \<open>The frame behind a page.\<close>

definition leaf :: "memory \<Rightarrow> u32 \<Rightarrow> u32 \<Rightarrow> u32 option" where
  "leaf m pd va = map_option framedown (translate m pd va)"


text \<open>An address space in order whose user pages sit in live frames of their own, which are
  neither the directory nor tables.\<close>

definition space_inv :: "config \<Rightarrow> u32 \<Rightarrow> u32 \<Rightarrow> phys \<Rightarrow> bool" where
  "space_inv cfg start pd s \<longleftrightarrow>
     as_inv start s pd \<and>
     (\<forall>va pa. va \<in> user_area cfg \<longrightarrow> translate (pmem s) pd va = Some pa \<longrightarrow>
        framedown pa \<in> pm_live start s - insert pd (tables (pmem s) pd)) \<and>
     (\<forall>va va' pa pa'. va \<in> user_area cfg \<longrightarrow> va' \<in> user_area cfg \<longrightarrow> translate (pmem s) pd va = Some pa \<longrightarrow>
        translate (pmem s) pd va' = Some pa' \<longrightarrow> framedown pa = framedown pa' \<longrightarrow> framedown va = framedown va')"

text \<open>Its bytes: pages that are not there read as zeros.\<close>

definition ubyte :: "u32 \<Rightarrow> phys \<Rightarrow> u32 \<Rightarrow> u8" where
  "ubyte pd s va = (case translate (pmem s) pd va of None \<Rightarrow> 0 | Some pa \<Rightarrow> pmem s pa)"

lemma uint_join:
  assumes "aligned f"
  shows "uint (f OR frame_offset va) = uint f + uint va mod 4096"
proof -
  have "f AND frame_offset va = 0"
  proof (rule bit_word_eqI)
    fix n :: nat assume "n < LENGTH(32)"
    have "\<not> bit (0xFFF :: u32) n" if "12 \<le> n"
    proof -
      have "(0xFFF :: u32) = mask 12" by (simp add: mask_eq_exp_minus_1)
      then show ?thesis using that by (simp only: bit_mask_iff) simp
    qed
    then show "bit (f AND frame_offset va) n = bit 0 n"
      using aligned_bit [OF assms, of n] by (cases "n < 12") (auto simp: frame_offset_def bit_and_iff)
  qed
  then have "f OR frame_offset va = f + frame_offset va"
    using word_plus_and_or [of f "frame_offset va"] by simp
  moreover have "uint f + uint (frame_offset va) < 2 ^ 32"
    using aligned_room [OF assms] pos_mod_bound [of 4096 "uint va"] by (simp add: uint_frame_offset)
  ultimately show ?thesis using uint_add_small by (simp add: uint_frame_offset)
qed

lemma framedown_join: "aligned f \<Longrightarrow> framedown (f OR frame_offset va) = f"
proof -
  assume f: "aligned f"
  obtain k where k: "uint f = 4096 * k" by (rule alignedE [OF f])
  have "uint (framedown (f OR frame_offset va)) = uint f"
    by (simp add: uint_framedown uint_join [OF f] k)
  then show ?thesis by (simp only: word_uint_eq_iff)
qed

lemma join_in_span: "aligned f \<Longrightarrow> f OR frame_offset va \<in> frame_span f"
  by (simp add: frame_span_def uint_join)

lemma in_own_span: "x \<in> frame_span (framedown x)"
proof -
  have "uint x = 4096 * (uint x div 4096) + uint x mod 4096" "uint x mod 4096 < 4096" by simp_all
  then show ?thesis by (simp only: frame_span_def uint_framedown mem_Collect_eq) linarith
qed

lemma same_page_eq:
  assumes "framedown x = framedown y" "uint x mod 4096 = uint y mod 4096"
  shows "x = y"
proof -
  have "uint x div 4096 = uint y div 4096" using arg_cong [OF assms(1), of uint] by (simp add: uint_framedown)
  then have "uint x = uint y" using assms(2) by (metis mult_div_mod_eq)
  then show ?thesis by (simp add: word_uint_eq_iff)
qed

lemma translate_mod:
  assumes "translate m pd va = Some pa"
  shows "uint pa mod 4096 = uint va mod 4096"
proof -
  obtain e where pa: "pa = frame_of e OR frame_offset va"
    using assms by (auto simp: translate_def Let_def split: if_splits)
  obtain k where "uint (frame_of e) = 4096 * k" by (rule alignedE [OF aligned_frame_of])
  then show ?thesis by (simp add: pa uint_join)
qed

lemma area_page: "framedown va = framedown va' \<Longrightarrow> va \<in> user_area cfg \<Longrightarrow> va' \<in> user_area cfg"
proof -
  assume f: "framedown va = framedown va'" and u: "va \<in> user_area cfg"
  have "uint (0x80000000 :: u32) \<le> uint (framedown va)"
    using high_framedown [of va] u by (simp add: user_area_def word_le_def)
  then have "uint (0x80000000 :: u32) \<le> uint va'"
    unfolding f by (simp add: uint_framedown)
  then show ?thesis using f u by (simp add: user_area_def word_le_def)
qed

lemma area_high: "va \<in> user_area cfg \<Longrightarrow> 0x80000000 \<le> va"
  by (simp add: user_area_def)


lemma space_invD:
  assumes "space_inv cfg start pd s"
  shows "as_inv start s pd"
    "va \<in> user_area cfg \<Longrightarrow> translate (pmem s) pd va = Some pa \<Longrightarrow> framedown pa \<in> pm_live start s"
    "va \<in> user_area cfg \<Longrightarrow> translate (pmem s) pd va = Some pa \<Longrightarrow> framedown pa \<noteq> pd"
    "va \<in> user_area cfg \<Longrightarrow> translate (pmem s) pd va = Some pa \<Longrightarrow> framedown pa \<notin> tables (pmem s) pd"
    "va \<in> user_area cfg \<Longrightarrow> va' \<in> user_area cfg \<Longrightarrow> translate (pmem s) pd va = Some pa \<Longrightarrow>
      translate (pmem s) pd va' = Some pa' \<Longrightarrow> framedown pa = framedown pa' \<Longrightarrow> framedown va = framedown va'"
  using assms unfolding space_inv_def by blast+

text \<open>A page fault at a missing page: the space stays in order and no byte of it changes.\<close>

lemma fault_space:
  assumes S: "space_inv cfg start pd s" and va: "va \<in> user_area cfg" "translate (pmem s) pd va = None"
    and run: "vmm_pageFault pd pd pd va s = Inr s'"
  shows "space_inv cfg start pd s'" "\<exists>pa. translate (pmem s') pd va = Some pa"
    "x \<in> user_area cfg \<Longrightarrow> ubyte pd s' x = ubyte pd s x"
proof -
  obtain pa t where F: "as_inv start s' pd"
    "aligned pa" "pa \<notin> pm_live start s" "pm_live start s' = {pa, t} \<union> pm_live start s"
    "t \<noteq> pa" "t \<in> tables (pmem s) pd \<or> t \<notin> pm_live start s"
    "\<forall>va'. translate (pmem s') pd va' =
      (if same_page va va' then Some (pa OR frame_offset va') else translate (pmem s) pd va')"
    "\<forall>b\<in>frame_span pa. pmem s' b = 0"
    "\<forall>b. b \<notin> frame_span pd \<longrightarrow> b \<notin> frame_span t \<longrightarrow> b \<notin> frame_span pa \<longrightarrow> pmem s' b = pmem s b"
    "tables (pmem s') pd = insert t (tables (pmem s) pd)"
    by (rule page_fault_effect [OF space_invD(1) [OF S] run]) (rule that; assumption)
  note D = space_invD [OF S] and A = as_invD [OF space_invD(1) [OF S]]
  have old: "framedown p \<in> pm_live start s \<and> framedown p \<noteq> pd \<and> framedown p \<noteq> t \<and>
      framedown p \<noteq> pa \<and> framedown p \<notin> tables (pmem s) pd"
    if "y \<in> user_area cfg" "translate (pmem s) pd y = Some p" for y p
    using D(2-4) [OF that] F(3,6) by auto
  have new: "translate (pmem s') pd y = Some p \<Longrightarrow>
      (same_page va y \<and> framedown p = pa) \<or> (\<not> same_page va y \<and> translate (pmem s) pd y = Some p)" for y p
    using F(7) framedown_join [OF F(2)] by (cases "same_page va y") auto
  show "\<exists>pa. translate (pmem s') pd va = Some pa" using F(7) by (simp add: same_page_def)
  have papd: "pa \<noteq> pd" using F(3) A(2) by auto
  show "space_inv cfg start pd s'" unfolding space_inv_def
  proof (intro conjI allI impI)
    show "as_inv start s' pd" by (rule F(1))
  next
    fix y p assume y: "y \<in> user_area cfg" "translate (pmem s') pd y = Some p"
    show "framedown p \<in> pm_live start s' - insert pd (tables (pmem s') pd)"
      using new [OF y(2)] old [OF y(1), of p] F(3,4,5,6,10) papd A(4) by auto
  next
    fix y z p q
    assume y: "y \<in> user_area cfg" "z \<in> user_area cfg" "translate (pmem s') pd y = Some p"
      "translate (pmem s') pd z = Some q" "framedown p = framedown q"
    show "framedown y = framedown z"
      using new [OF y(3)] new [OF y(4)] old [OF y(1), of p] old [OF y(2), of q] y(5) D(5) [OF y(1,2), of p q]
      by (auto simp: same_page_def)
  qed
  show "ubyte pd s' x = ubyte pd s x" if x: "x \<in> user_area cfg"
  proof (cases "same_page va x")
    case True
    have "translate (pmem s) pd x = None"
      using va(2) True by (auto simp: translate_def same_page_iff Let_def split: if_splits)
    then show ?thesis using True F(7,8) join_in_span [OF F(2)] by (simp add: ubyte_def)
  next
    case False
    have "pmem s' p = pmem s p" if p: "translate (pmem s) pd x = Some p" for p
    proof -
      have al: "aligned t" using F(1,10) pm_live_aligned as_invD(4) by blast
      have "p \<notin> frame_span pd" "p \<notin> frame_span t" "p \<notin> frame_span pa"
        using old [OF x p] in_own_span [of p] frame_span_disjoint [OF aligned_framedown [of p]] A(3) al F(2) by blast+
      then show ?thesis using F(9) by blast
    qed
    then show ?thesis using False F(7) by (auto simp: ubyte_def split: option.splits)
  qed
qed

lemma resolve_ok:
  assumes S: "space_inv cfg start pd s" and va: "va \<in> user_area cfg"
  shows "succeeds out_of_frames (resolve pd va s) (\<lambda>(pa, s'). space_inv cfg start pd s' \<and>
    translate (pmem s') pd va = Some pa \<and> (\<forall>x\<in>user_area cfg. ubyte pd s' x = ubyte pd s x))"
proof (cases "translate (pmem s) pd va")
  case None
  show ?thesis
  proof (rule page_fault_total [OF space_invD(1) [OF S] area_high [OF va]])
    fix s' assume run: "vmm_pageFault pd pd pd va s = Inr s'"
    from fault_space [OF S va None run] show ?thesis by (auto simp: resolve_def None run)
  qed (simp add: resolve_def None)
qed (use S in \<open>simp add: resolve_def\<close>)

text \<open>Writing a byte of a page that is there.\<close>

lemma put_byte_space:
  assumes S: "space_inv cfg start pd s" and va: "va \<in> user_area cfg" "translate (pmem s) pd va = Some pa"
  shows "space_inv cfg start pd (put_byte pa b s)"
    "x \<in> user_area cfg \<Longrightarrow> ubyte pd (put_byte pa b s) x = (if x = va then b else ubyte pd s x)"
proof -
  let ?s' = "put_byte pa b s" and ?f = "framedown pa"
  note D = space_invD [OF S] and A = as_invD [OF space_invD(1) [OF S]]
  have f: "?f \<in> pm_live start s" "?f \<noteq> pd" "?f \<notin> tables (pmem s) pd" using D(2-4) [OF va] .
  have out: "pmem ?s' c = pmem s c" if "c \<notin> frame_span ?f" for c
    using that in_own_span [of pa] by (auto simp: put_byte_def)
  have inv: "pm_inv start ?s'" "pm_live start ?s' = pm_live start s"
    using frame_write_inv [OF A(1) f(1), of "(pmem s)(pa := b)"] out by (simp_all add: put_byte_def)
  have same: "pmem ?s' c = pmem s c" if "g \<in> insert pd (tables (pmem s) pd)" "c \<in> frame_span g" for g c
  proof (rule out)
    have "aligned g" "g \<noteq> ?f" using that(1) A(3,4) f pm_live_aligned by auto
    then show "c \<notin> frame_span ?f" using that(2) frame_span_disjoint [of g ?f] by auto
  qed
  have sub: "pm_live start s \<subseteq> pm_live start ?s'" by (simp only: inv(2))
  have keep: "as_inv start ?s' pd" "translate (pmem ?s') pd x = translate (pmem s) pd x"
    "tables (pmem ?s') pd = tables (pmem s) pd" for x
    by (rule as_inv_frame [OF D(1) inv(1) sub]; rule same; assumption)+
  show "space_inv cfg start pd ?s'" using S keep(1) unfolding space_inv_def keep(2,3) inv(2) by blast
  assume x: "x \<in> user_area cfg"
  have "x = va" if "translate (pmem s) pd x = Some pa"
    by (rule same_page_eq) (use D(5) [OF x va(1) that va(2)] translate_mod [OF that] translate_mod [OF va(2)] in auto)
  moreover have "ubyte pd ?s' x = (case translate (pmem s) pd x of None \<Rightarrow> 0 | Some p \<Rightarrow> ((pmem s)(pa := b)) p)"
    unfolding ubyte_def keep(2) by (simp add: put_byte_def cong: option.case_cong)
  ultimately show "ubyte pd ?s' x = (if x = va then b else ubyte pd s x)"
    using va(2) by (cases "translate (pmem s) pd x") (auto simp: ubyte_def)
qed

lemma load8_ok:
  assumes "space_inv cfg start pd s" "va \<in> user_area cfg"
  shows "succeeds out_of_frames (load8 pd va s) (\<lambda>(b, s'). space_inv cfg start pd s' \<and>
    b = ubyte pd s va \<and> (\<forall>x\<in>user_area cfg. ubyte pd s' x = ubyte pd s x))"
  unfolding load8_def
  by (rule succeeds_rbind [OF resolve_ok [OF assms]]) (use assms(2) in \<open>force simp: ubyte_def\<close>)

lemma store8_ok:
  assumes "space_inv cfg start pd s" "va \<in> user_area cfg"
  shows "succeeds out_of_frames (store8 pd va b s) (\<lambda>s'. space_inv cfg start pd s' \<and>
    (\<forall>x\<in>user_area cfg. ubyte pd s' x = (if x = va then b else ubyte pd s x)))"
  unfolding store8_def
  by (rule succeeds_rbind [OF resolve_ok [OF assms]]) (use assms(2) put_byte_space in \<open>auto simp: split_beta\<close>)

interpretation um: byte_memory "load8 pd" "store8 pd" "space_inv cfg start pd" "user_area cfg" "ubyte pd" out_of_frames
  by unfold_locales (use load8_ok store8_ok in auto)

section \<open>Two address spaces\<close>

text \<open>What an address space owns: the directory, the tables of its upper half and the frames of
  its user pages.  The tables of the lower half are shared by all of them.\<close>

definition user_frames :: "config \<Rightarrow> memory \<Rightarrow> u32 \<Rightarrow> u32 set" where
  "user_frames cfg m pd = {framedown pa | va pa. va \<in> user_area cfg \<and> translate m pd va = Some pa}"

definition owned :: "config \<Rightarrow> memory \<Rightarrow> u32 \<Rightarrow> u32 set" where
  "owned cfg m pd = insert pd ({frame_of (entry m pd i) | i. 512 \<le> uint i \<and> uint i < 1024 \<and> present (entry m pd i)} \<union>
     user_frames cfg m pd)"

definition apart :: "config \<Rightarrow> u32 \<Rightarrow> u32 \<Rightarrow> u32 \<Rightarrow> phys \<Rightarrow> bool" where
  "apart cfg start pd pd2 s \<longleftrightarrow>
     space_inv cfg start pd s \<and> space_inv cfg start pd2 s \<and>
     owned cfg (pmem s) pd \<inter> (insert pd2 (tables (pmem s) pd2) \<union> user_frames cfg (pmem s) pd2) = {} \<and>
     owned cfg (pmem s) pd2 \<inter> (insert pd (tables (pmem s) pd) \<union> user_frames cfg (pmem s) pd) = {}"

lemma owned_cong:
  assumes e: "\<And>i. uint i < 1024 \<Longrightarrow> entry m' pd i = entry m pd i" and u: "user_frames cfg m' pd = user_frames cfg m pd"
  shows "owned cfg m' pd = owned cfg m pd"
proof -
  have "(\<exists>i. x = frame_of (entry m' pd i) \<and> 512 \<le> uint i \<and> uint i < 1024 \<and> present (entry m' pd i)) =
      (\<exists>i. x = frame_of (entry m pd i) \<and> 512 \<le> uint i \<and> uint i < 1024 \<and> present (entry m pd i))" for x
    by (rule ex_cong1) (use e in auto)
  then show ?thesis unfolding owned_def u by simp
qed

lemma high_index: "0x80000000 \<le> va \<Longrightarrow> 512 \<le> uint (pdi va)"
proof -
  assume "0x80000000 \<le> va"
  then have "uint (0x80000000 :: u32) \<le> uint va" by (simp add: word_le_def)
  then show ?thesis by (simp add: uint_pdi)
qed

lemma apartD:
  assumes "apart cfg start pd pd2 s"
  shows "space_inv cfg start pd s" "space_inv cfg start pd2 s"
    "f \<in> owned cfg (pmem s) pd \<Longrightarrow> f \<noteq> pd2 \<and> f \<notin> tables (pmem s) pd2 \<and> f \<notin> user_frames cfg (pmem s) pd2"
    "f \<in> owned cfg (pmem s) pd2 \<Longrightarrow> f \<noteq> pd \<and> f \<notin> tables (pmem s) pd \<and> f \<notin> user_frames cfg (pmem s) pd"
  using assms unfolding apart_def by blast+

text \<open>Nothing an address space uses has changed: its translations, its tables and its bytes.\<close>

definition kept :: "config \<Rightarrow> u32 \<Rightarrow> phys \<Rightarrow> phys \<Rightarrow> bool" where
  "kept cfg pd s s' \<longleftrightarrow>
     (\<forall>va. translate (pmem s') pd va = translate (pmem s) pd va) \<and> tables (pmem s') pd = tables (pmem s) pd \<and>
     (\<forall>f \<in> insert pd (tables (pmem s) pd) \<union> user_frames cfg (pmem s) pd. \<forall>b \<in> frame_span f. pmem s' b = pmem s b)"

lemma kept_refl [simp]: "kept cfg pd s s"
  by (simp add: kept_def)

lemma keptD:
  assumes "kept cfg pd s s'"
  shows "translate (pmem s') pd va = translate (pmem s) pd va" "tables (pmem s') pd = tables (pmem s) pd"
    "user_frames cfg (pmem s') pd = user_frames cfg (pmem s) pd"
    "f \<in> insert pd (tables (pmem s) pd) \<union> user_frames cfg (pmem s) pd \<Longrightarrow> b \<in> frame_span f \<Longrightarrow> pmem s' b = pmem s b"
    "x \<in> user_area cfg \<Longrightarrow> ubyte pd s' x = ubyte pd s x"
proof -
  show t: "translate (pmem s') pd va = translate (pmem s) pd va" "tables (pmem s') pd = tables (pmem s) pd" for va
    using assms by (simp_all add: kept_def)
  show "user_frames cfg (pmem s') pd = user_frames cfg (pmem s) pd" unfolding user_frames_def t ..
  show m: "pmem s' b = pmem s b" if "f \<in> insert pd (tables (pmem s) pd) \<union> user_frames cfg (pmem s) pd" "b \<in> frame_span f" for f b
    using assms that unfolding kept_def by blast
  assume x: "x \<in> user_area cfg"
  have "pmem s' p = pmem s p" if "translate (pmem s) pd x = Some p" for p
    by (rule m [of "framedown p"]) (use that x in_own_span in \<open>auto simp: user_frames_def\<close>)
  then show "ubyte pd s' x = ubyte pd s x" unfolding ubyte_def t by (auto split: option.splits)
qed

lemma kept_trans:
  assumes "kept cfg pd s s1" "kept cfg pd s1 s2"
  shows "kept cfg pd s s2"
  using keptD [OF assms(1)] keptD [OF assms(2)] unfolding kept_def by metis

text \<open>A change of memory outside what the second space uses leaves it as it is.\<close>

lemma other_space:
  assumes S: "space_inv cfg start pd2 s" and inv: "pm_inv start s'" "pm_live start s \<subseteq> pm_live start s'"
    and m: "\<And>f b. f \<in> insert pd2 (tables (pmem s) pd2) \<union> user_frames cfg (pmem s) pd2 \<Longrightarrow> b \<in> frame_span f \<Longrightarrow>
      pmem s' b = pmem s b"
  shows "space_inv cfg start pd2 s'" "translate (pmem s') pd2 va = translate (pmem s) pd2 va"
    "tables (pmem s') pd2 = tables (pmem s) pd2" "uint i < 1024 \<Longrightarrow> entry (pmem s') pd2 i = entry (pmem s) pd2 i"
    "x \<in> user_area cfg \<Longrightarrow> ubyte pd2 s' x = ubyte pd2 s x"
proof -
  note D = space_invD [OF S]
  have same: "pmem s' b = pmem s b" if "f \<in> insert pd2 (tables (pmem s) pd2)" "b \<in> frame_span f" for f b
    by (rule m [OF _ that(2)]) (use that(1) in blast)
  have keep: "as_inv start s' pd2" "translate (pmem s') pd2 x = translate (pmem s) pd2 x"
    "tables (pmem s') pd2 = tables (pmem s) pd2" for x
    by (rule as_inv_frame [OF D(1) inv]; rule same; assumption)+
  then show "translate (pmem s') pd2 va = translate (pmem s) pd2 va" "tables (pmem s') pd2 = tables (pmem s) pd2"
    by blast+
  show "space_inv cfg start pd2 s'" using S keep(1) inv(2) unfolding space_inv_def keep(2,3) by blast
  show "entry (pmem s') pd2 i = entry (pmem s) pd2 i" if "uint i < 1024"
    by (rule entry_cong [OF as_invD(3) [OF D(1)] that]) (use same in blast)
  assume x: "x \<in> user_area cfg"
  have "pmem s' p = pmem s p" if "translate (pmem s) pd2 x = Some p" for p
    by (rule m [of "framedown p"]) (use that x in_own_span in \<open>auto simp: user_frames_def\<close>)
  then show "ubyte pd2 s' x = ubyte pd2 s x"
    unfolding ubyte_def keep(2) by (auto split: option.splits)
qed

lemma fault_tables:
  assumes I: "as_inv start s' pd"
    and t: "if present (entry (pmem s) pd (pdi va)) then t = frame_of (entry (pmem s) pd (pdi va)) else t \<notin> L"
    and T: "tables (pmem s') pd = insert t (tables (pmem s) pd)"
    and E: "\<forall>i. uint i < 1024 \<longrightarrow> i \<noteq> pdi va \<longrightarrow> entry (pmem s') pd i = entry (pmem s) pd i"
    and i: "uint i < 1024" "present (entry (pmem s') pd i)"
  shows "frame_of (entry (pmem s') pd i) = t \<or>
    present (entry (pmem s) pd i) \<and> frame_of (entry (pmem s') pd i) = frame_of (entry (pmem s) pd i)"
proof (cases "i = pdi va")
  case True
  have "frame_of (entry (pmem s') pd i) \<in> insert t (tables (pmem s) pd)" using T i unfolding tables_def by blast
  moreover have "frame_of (entry (pmem s') pd i) = t"
    if j: "uint j < 1024" "present (entry (pmem s) pd j)" "frame_of (entry (pmem s') pd i) = frame_of (entry (pmem s) pd j)" for j
  proof (cases "j = i")
    case False
    then have "entry (pmem s') pd j = entry (pmem s) pd j" using E j(1) True by simp
    then have "i = j" using I i j unfolding as_inv_def by metis
    then show ?thesis using False by simp
  qed (use j t True in simp)
  ultimately show ?thesis unfolding tables_def by blast
qed (use E i in simp)

lemma fault_apart:
  assumes A: "apart cfg start pd pd2 s" and va: "va \<in> user_area cfg" "translate (pmem s) pd va = None"
    and run: "vmm_pageFault pd pd pd va s = Inr s'"
  shows "apart cfg start pd pd2 s'" "kept cfg pd2 s s'"
proof -
  note S = apartD(1,2) [OF A]
  obtain pa t where F: "as_inv start s' pd"
    "aligned pa" "pa \<notin> pm_live start s" "pm_live start s' = {pa, t} \<union> pm_live start s"
    "if present (entry (pmem s) pd (pdi va)) then t = frame_of (entry (pmem s) pd (pdi va))
     else t \<notin> pm_live start s"
    "\<forall>va'. translate (pmem s') pd va' =
      (if same_page va va' then Some (pa OR frame_offset va') else translate (pmem s) pd va')"
    "\<forall>b. b \<notin> frame_span pd \<longrightarrow> b \<notin> frame_span t \<longrightarrow> b \<notin> frame_span pa \<longrightarrow> pmem s' b = pmem s b"
    "tables (pmem s') pd = insert t (tables (pmem s) pd)"
    "\<forall>i. uint i < 1024 \<longrightarrow> i \<noteq> pdi va \<longrightarrow> entry (pmem s') pd i = entry (pmem s) pd i"
    by (rule page_fault_effect [OF space_invD(1) [OF S(1)] run]) (rule that; assumption)
  have own_t: "t \<in> owned cfg (pmem s) pd \<or> t \<notin> pm_live start s"
    using F(5) high_index [OF area_high [OF va(1)]] index_bounds(1) [of va]
    unfolding owned_def by (auto split: if_splits)
  have tal: "aligned t" using F(1,8) pm_live_aligned as_invD(4) by blast
  let ?use2 = "insert pd2 (tables (pmem s) pd2) \<union> user_frames cfg (pmem s) pd2"
  have live2: "f \<in> pm_live start s" if "f \<in> ?use2" for f
    using that space_invD(1,2) [OF S(2)] as_invD(2,4) [OF space_invD(1) [OF S(2)]] by (auto simp: user_frames_def)
  have pdo: "pd \<in> owned cfg (pmem s) pd" by (simp add: owned_def)
  have sep: "f \<noteq> pd \<and> f \<noteq> t \<and> f \<noteq> pa" if "f \<in> ?use2" for f
    using live2 [OF that] that own_t F(3) apartD(3) [OF A, of f] apartD(3) [OF A, of t] apartD(3) [OF A pdo] by auto
  have m: "pmem s' b = pmem s b" if "f \<in> ?use2" "b \<in> frame_span f" for f b
  proof -
    have "b \<notin> frame_span pd" "b \<notin> frame_span t" "b \<notin> frame_span pa"
      using sep [OF that(1)] that(2) frame_span_disjoint [OF pm_live_aligned [OF live2 [OF that(1)]]]
        as_invD(3) [OF F(1)] tal F(2) by blast+
    then show ?thesis using F(7) by blast
  qed
  have sub: "pm_live start s \<subseteq> pm_live start s'" using F(4) by blast
  note inv = as_invD(1) [OF F(1)]
  have O: "space_inv cfg start pd2 s'" "translate (pmem s') pd2 y = translate (pmem s) pd2 y"
    "tables (pmem s') pd2 = tables (pmem s) pd2" "uint i < 1024 \<Longrightarrow> entry (pmem s') pd2 i = entry (pmem s) pd2 i"
    "y \<in> user_area cfg \<Longrightarrow> ubyte pd2 s' y = ubyte pd2 s y" for y i
    by (rule other_space [OF S(2) inv sub]; (rule m)?; assumption)+
  show "kept cfg pd2 s s'" unfolding kept_def using O(2,3) m by blast
  have uf: "user_frames cfg (pmem s') pd \<subseteq> insert pa (user_frames cfg (pmem s) pd)"
    using F(6) framedown_join [OF F(2)] unfolding user_frames_def by auto
  have ow: "owned cfg (pmem s') pd \<subseteq> {t, pa} \<union> owned cfg (pmem s) pd"
    using uf fault_tables [OF F(1,5,8,9)] unfolding owned_def by auto
  have uf2: "user_frames cfg (pmem s') pd2 = user_frames cfg (pmem s) pd2" unfolding user_frames_def O(2) ..
  have ow2: "owned cfg (pmem s') pd2 = owned cfg (pmem s) pd2"
    by (rule owned_cong [OF O(4) uf2])
  have own2: "owned cfg (pmem s) pd2 \<subseteq> ?use2" unfolding owned_def tables_def by auto
  have "owned cfg (pmem s') pd \<inter> ?use2 = {}" using ow sep apartD(3) [OF A] by blast
  moreover have "owned cfg (pmem s) pd2 \<inter> (insert pd (insert t (tables (pmem s) pd)) \<union>
      insert pa (user_frames cfg (pmem s) pd)) = {}"
    using own2 sep apartD(4) [OF A] by blast
  ultimately show "apart cfg start pd pd2 s'"
    using fault_space(1) [OF S(1) va run] O(1) uf unfolding apart_def ow2 uf2 O(3) F(8) by blast
qed

text \<open>A byte written or read through one directory.\<close>

lemma resolve_apart:
  assumes A: "apart cfg start pd pd2 s" and va: "va \<in> user_area cfg"
  shows "succeeds out_of_frames (resolve pd va s) (\<lambda>(pa, s'). apart cfg start pd pd2 s' \<and>
    translate (pmem s') pd va = Some pa \<and> (\<forall>x\<in>user_area cfg. ubyte pd2 s' x = ubyte pd2 s x))"
proof (cases "translate (pmem s) pd va")
  case None
  note S = apartD(1) [OF A]
  show ?thesis
  proof (rule page_fault_total [OF space_invD(1) [OF S] area_high [OF va]])
    fix s' assume run: "vmm_pageFault pd pd pd va s = Inr s'"
    from fault_apart [OF A va None run] keptD(5) [OF fault_apart(2) [OF A va None run]] fault_space(2) [OF S va None run]
    show ?thesis by (auto simp: resolve_def None run)
  qed (simp add: resolve_def None)
qed (use A in \<open>simp add: resolve_def\<close>)

lemma put_byte_apart:
  assumes A: "apart cfg start pd pd2 s" and va: "va \<in> user_area cfg" "translate (pmem s) pd va = Some pa"
  shows "apart cfg start pd pd2 (put_byte pa b s)" "kept cfg pd2 s (put_byte pa b s)"
    "translate (pmem (put_byte pa b s)) pd y = translate (pmem s) pd y"
proof -
  let ?s' = "put_byte pa b s" and ?f = "framedown pa"
  note S = apartD(1,2) [OF A]
  note D = space_invD [OF S(1)] and P = put_byte_space [OF S(1) va]
  have f: "?f \<in> pm_live start s" "?f \<noteq> pd" "?f \<notin> tables (pmem s) pd" using D(2-4) [OF va] .
  have own: "?f \<in> owned cfg (pmem s) pd" using va by (auto simp: owned_def user_frames_def)
  let ?use2 = "insert pd2 (tables (pmem s) pd2) \<union> user_frames cfg (pmem s) pd2"
  have live2: "g \<in> pm_live start s" if "g \<in> ?use2" for g
    using that space_invD(1,2) [OF S(2)] as_invD(2,4) [OF space_invD(1) [OF S(2)]] by (auto simp: user_frames_def)
  have out: "pmem ?s' c = pmem s c" if "g \<noteq> ?f" "g \<in> pm_live start s" "c \<in> frame_span g" for g c
  proof -
    have "c \<notin> frame_span ?f"
      using that frame_span_disjoint [OF pm_live_aligned [OF that(2)] aligned_framedown that(1)] by blast
    then show ?thesis using in_own_span [of pa] by (auto simp: put_byte_def)
  qed
  have m: "pmem ?s' c = pmem s c" if "g \<in> ?use2" "c \<in> frame_span g" for g c
    by (rule out [OF _ live2 [OF that(1)] that(2)]) (use that(1) apartD(3) [OF A own] in blast)
  have outf: "((pmem s)(pa := b)) c = pmem s c" if "c \<notin> frame_span ?f" for c
    using that in_own_span [of pa] by auto
  have live: "pm_inv start ?s'" "pm_live start ?s' = pm_live start s"
    unfolding put_byte_def by (rule frame_write_inv [OF as_invD(1) [OF D(1)] f(1)]; rule outf; assumption)+
  have sub: "pm_live start s \<subseteq> pm_live start ?s'" by (simp only: live(2))
  have m1: "pmem ?s' c = pmem s c" if "g \<in> insert pd (tables (pmem s) pd)" "c \<in> frame_span g" for g c
    by (rule out [OF _ _ that(2)]) (use that(1) f as_invD(2,4) [OF D(1)] in blast)+
  have O: "space_inv cfg start pd2 ?s'" "translate (pmem ?s') pd2 y = translate (pmem s) pd2 y"
    "tables (pmem ?s') pd2 = tables (pmem s) pd2" "uint i < 1024 \<Longrightarrow> entry (pmem ?s') pd2 i = entry (pmem s) pd2 i"
    "y \<in> user_area cfg \<Longrightarrow> ubyte pd2 ?s' y = ubyte pd2 s y" for y i
    by (rule other_space [OF S(2) live(1) sub]; (rule m)?; assumption)+
  show "kept cfg pd2 s ?s'" unfolding kept_def using O(2,3) m by blast
  have K: "translate (pmem ?s') pd y = translate (pmem s) pd y" "tables (pmem ?s') pd = tables (pmem s) pd" for y
    by (rule as_inv_frame(2,3) [OF D(1) live(1) sub]; rule m1; assumption)+
  then show "translate (pmem ?s') pd y = translate (pmem s) pd y" by blast
  have E: "uint i < 1024 \<Longrightarrow> entry (pmem ?s') pd i = entry (pmem s) pd i" for i
    by (rule entry_cong [OF as_invD(3) [OF D(1)]]; (rule m1)?) auto
  have u: "user_frames cfg (pmem ?s') pd = user_frames cfg (pmem s) pd"
    "user_frames cfg (pmem ?s') pd2 = user_frames cfg (pmem s) pd2" unfolding user_frames_def K O(2) by (rule refl)+
  have w: "owned cfg (pmem ?s') pd = owned cfg (pmem s) pd" "owned cfg (pmem ?s') pd2 = owned cfg (pmem s) pd2"
    by (rule owned_cong [OF E u(1)], assumption, rule owned_cong [OF O(4) u(2)], assumption)
  show "apart cfg start pd pd2 ?s'" using A P(1) O(1) unfolding apart_def u w K O(3) by blast
qed

section \<open>What user memory promises\<close>

lemma store_load_flat:
  assumes "space_inv cfg start pd s" "length bs < 2 ^ 32" "span a (length bs) \<subseteq> user_area cfg"
  shows "succeeds out_of_frames (rbind (store_range (store8 pd) a bs s) (load_range (load8 pd) a (length bs)))
    (\<lambda>(cs, s'). cs = bs \<and> space_inv cfg start pd s' \<and>
       (\<forall>x\<in>user_area cfg - span a (length bs). ubyte pd s' x = ubyte pd s x))"
proof (rule succeeds_rbind [OF um.store_range_ok [OF assms]])
  fix s1 assume s1: "space_inv cfg start pd s1 \<and> (\<forall>x\<in>user_area cfg.
    ubyte pd s1 x = (if x \<in> span a (length bs) then bs ! unat (x - a) else ubyte pd s x))"
  have "map (\<lambda>i. ubyte pd s1 (a + of_nat i)) [0..<length bs] = bs"
  proof (rule nth_equalityI)
    fix i assume "i < length (map (\<lambda>i. ubyte pd s1 (a + of_nat i)) [0..<length bs])"
    then have i: "i < length bs" by simp
    then have "unat (of_nat i :: u32) = i" using assms(2) by (simp add: unsigned_of_nat take_bit_nat_eq_self)
    then have "a + of_nat i \<in> span a (length bs)" "unat (a + of_nat i - a) = i" using i by (simp_all add: span_def)
    then have "ubyte pd s1 (a + of_nat i) = bs ! i" using s1 assms(3) by (metis subsetD)
    then show "map (\<lambda>i. ubyte pd s1 (a + of_nat i)) [0..<length bs] ! i = bs ! i" using i by simp
  qed simp
  then show "succeeds out_of_frames (load_range (load8 pd) a (length bs) s1) (\<lambda>(cs, s'). cs = bs \<and>
      space_inv cfg start pd s' \<and> (\<forall>x\<in>user_area cfg - span a (length bs). ubyte pd s' x = ubyte pd s x))"
    using s1 by (intro succeeds_mono [OF um.load_range_ok [OF _ assms(2,3)]]) auto
qed

lemma store_apart:
  "apart cfg start pd pd2 s \<Longrightarrow> length bs < 2 ^ 32 \<Longrightarrow> span a (length bs) \<subseteq> user_area cfg \<Longrightarrow>
    succeeds out_of_frames (store_range (store8 pd) a bs s)
     (\<lambda>s'. apart cfg start pd pd2 s' \<and> (\<forall>x\<in>user_area cfg. ubyte pd2 s' x = ubyte pd2 s x))"
proof (induction bs arbitrary: a s)
  case (Cons b bs)
  have l: "Suc (length bs) < 2 ^ 32" using Cons.prems(2) by simp
  have a: "a \<in> user_area cfg" "span (a + 1) (length bs) \<subseteq> user_area cfg" using Cons.prems(3) by (simp_all add: span_Suc [OF l])
  have one: "succeeds out_of_frames (store8 pd a b s)
     (\<lambda>s'. apart cfg start pd pd2 s' \<and> (\<forall>x\<in>user_area cfg. ubyte pd2 s' x = ubyte pd2 s x))"
    unfolding store8_def
    by (rule succeeds_rbind [OF resolve_apart [OF Cons.prems(1) a(1)]])
      (clarsimp, metis put_byte_apart(1,2) keptD(5) a(1))
  show ?case unfolding store_range.simps
  proof (rule succeeds_rbind [OF one])
    fix s1 assume s1: "apart cfg start pd pd2 s1 \<and> (\<forall>x\<in>user_area cfg. ubyte pd2 s1 x = ubyte pd2 s x)"
    show "succeeds out_of_frames (store_range (store8 pd) (a + 1) bs s1)
       (\<lambda>s'. apart cfg start pd pd2 s' \<and> (\<forall>x\<in>user_area cfg. ubyte pd2 s' x = ubyte pd2 s x))"
      by (rule succeeds_mono [OF Cons.IH [OF _ _ a(2)]]) (use s1 l in auto)
  qed
qed simp

lemma store8_room:
  assumes S: "space_inv cfg start pd s" and va: "va \<in> user_area cfg" and room: "uint (pavail s) + 0x2000 \<le> uint (plimit s)"
  shows "\<exists>s'. store8 pd va b s = Inr s'"
proof (cases "translate (pmem s) pd va")
  case None
  show ?thesis
  proof (rule page_fault_total [OF space_invD(1) [OF S] area_high [OF va]])
    fix s' assume run: "vmm_pageFault pd pd pd va s = Inr s'"
    from fault_space(2) [OF S va None run] show ?thesis by (auto simp: store8_def resolve_def None run)
  qed (use room in simp)
qed (simp add: store8_def resolve_def)

lemma empty_space:
  assumes a: "as_inv start s pd" and e: "\<And>va. va \<in> user_area cfg \<Longrightarrow> translate (pmem s) pd va = None"
  shows "space_inv cfg start pd s" "user_frames cfg (pmem s) pd = {}" "va \<in> user_area cfg \<Longrightarrow> ubyte pd s va = 0"
  using a e by (auto simp: space_inv_def user_frames_def ubyte_def)

lemma no_tables: "tables m pd = {} \<Longrightarrow> translate m pd va = None"
  using index_bounds(1) [of va] unfolding tables_def translate_entry by auto

lemma space_example:
  obtains s pd where "space_inv cfg 0x1000 pd s" "\<And>va. va \<in> user_area cfg \<Longrightarrow> ubyte pd s va = 0"
    "uint (pavail s) + 0x2000 \<le> uint (plimit s)"
proof -
  obtain s pd where a: "as_inv 0x1000 s pd" "\<forall>va. translate (pmem s) pd va = None"
    "uint (pavail s) + 0x2000 \<le> uint (plimit s)"
    by (rule vm_example)
  show thesis by (rule that [OF empty_space(1,3) [OF a(1)]]) (use a in auto)
qed

lemma apart_example: obtains s pd pd2 where "apart cfg 0x1000 pd pd2 s" "pd \<noteq> pd2"
proof -
  obtain s pd pd2 where a: "as_inv 0x1000 s pd" "as_inv 0x1000 s pd2" "pd \<noteq> pd2"
    "tables (pmem s) pd = {}" "tables (pmem s) pd2 = {}" by (rule vm_example2)
  have e: "space_inv cfg 0x1000 pd s" "user_frames cfg (pmem s) pd = {}"
    "space_inv cfg 0x1000 pd2 s" "user_frames cfg (pmem s) pd2 = {}"
    using empty_space(1,2) [OF a(1)] empty_space(1,2) [OF a(2)] no_tables a(4,5) by auto
  have "owned cfg (pmem s) pd = {pd}" "owned cfg (pmem s) pd2 = {pd2}"
    using a(4,5) e(2,4) unfolding owned_def tables_def by auto
  then have "apart cfg 0x1000 pd pd2 s" using e a(3-5) by (simp add: apart_def)
  then show thesis using that a(3) by blast
qed

text \<open>A new process starts with zeros.\<close>

lemma make_pd_space:
  assumes "as_inv start s shared" "memSize cfg \<le> 0x80000000" "frame_offset (ioAPIC cfg) = 0"
    "frame_offset (localAPIC cfg) = 0" "uint (pavail s) + 0x3000 \<le> uint (plimit s)"
  shows "\<exists>pd s'. make_pd cfg shared s = Inr (pd, s') \<and> space_inv cfg start pd s' \<and>
    (\<forall>va\<in>user_area cfg. ubyte pd s' va = 0)"
proof -
  obtain pd s' where P: "make_pd cfg shared s = Inr (pd, s')" "as_inv start s' pd"
    "\<forall>va. translate (pmem s') pd va =
      (if framedown va = localAPIC cfg then Some (localAPIC cfg OR frame_offset va)
       else if framedown va = ioAPIC cfg then Some (ioAPIC cfg OR frame_offset va)
       else if uint (pdi va) < shared_entries cfg then translate (pmem s) shared va
       else None)"
    using make_pd_ok [OF assms] by blast
  have fd: "framedown (ioAPIC cfg) = ioAPIC cfg" "framedown (localAPIC cfg) = localAPIC cfg"
    using assms(3,4) framedown_aligned by (simp_all add: frame_offset_0)
  have k: "shared_entries cfg \<le> 512" using uint_shared_size(2) [OF assms(2)] by (simp add: shared_entries_def)
  have "translate (pmem s') pd va = None" if "va \<in> user_area cfg" for va
    using that high_index [OF area_high [OF that]] k P(3) fd by (auto simp: user_area_def)
  from empty_space(1,3) [OF P(2) this] P(1) show ?thesis by blast
qed

text \<open>C5: user memory is a flat array that starts out zero.  Writing any bytes at any user
  addresses through the running thread's directory, over page boundaries and into pages that are
  not there yet, and reading them back gives those bytes; every other byte reads as before (zero
  if its page was never touched), and the page tables stay in order.  The only failure is the
  panic of a machine without free frames, and with two frames free for a page it does not occur.\<close>

theorem user_memory_flat:
  assumes "space_inv cfg start pd s" "length bs < 2 ^ 32" "span a (length bs) \<subseteq> user_area cfg"
  shows "succeeds out_of_frames (rbind (store_range (store8 pd) a bs s) (load_range (load8 pd) a (length bs)))
      (\<lambda>(cs, s'). cs = bs \<and> space_inv cfg start pd s' \<and>
         (\<forall>x\<in>user_area cfg - span a (length bs). ubyte pd s' x = ubyte pd s x)) \<and>
    (\<forall>va\<in>user_area cfg. uint (pavail s) + 0x2000 \<le> uint (plimit s) \<longrightarrow> (\<exists>s'. store8 pd va b s = Inr s'))"
  using store_load_flat [OF assms] store8_room [OF assms(1)] by blast

lemma area_example: "span 0x80000FFE (length [a, b, c, d :: u8]) \<subseteq> user_area config_zero"
  by (simp add: span_Suc user_area_def config_zero_def framedown_def FRAME_SIZE_eq)

lemma user_memory_flat_witness:
  "\<exists>s pd. succeeds out_of_frames
     (rbind (store_range (store8 pd) 0x80000FFE [1, 2, 3, 4] s) (load_range (load8 pd) 0x80000FFE 4))
     (\<lambda>(cs, s'). cs = [1, 2, 3, 4]) \<and> (\<exists>s'. store8 pd 0x80000FFE 5 s = Inr s')"
proof -
  obtain s pd where S: "space_inv config_zero 0x1000 pd s" "uint (pavail s) + 0x2000 \<le> uint (plimit s)"
    by (rule space_example)
  have l: "length [1, 2, 3, 4 :: u8] < 2 ^ 32" by simp
  note a = area_example [of 1 2 3 4]
  have m: "0x80000FFE \<in> user_area config_zero" using a span_self [of "length [1, 2, 3, 4 :: u8]" "0x80000FFE"] by auto
  note F = user_memory_flat [OF S(1) l a, of 5]
  have len: "length [1, 2, 3, 4 :: u8] = 4" by simp
  have "succeeds out_of_frames
     (rbind (store_range (store8 pd) 0x80000FFE [1, 2, 3, 4] s) (load_range (load8 pd) 0x80000FFE 4))
     (\<lambda>(cs, s'). cs = [1, 2, 3, 4])"
    using conjunct1 [OF F] unfolding len by (rule succeeds_mono) auto
  moreover have "\<exists>s'. store8 pd 0x80000FFE 5 s = Inr s'" using conjunct2 [OF F] S(2) m by blast
  ultimately show ?thesis by blast
qed

text \<open>C11: processes do not see each other's memory.  Whatever one process writes, page faults
  included, every byte of the other's user half stays, and the two address spaces stay apart.\<close>

theorem user_memory_isolation:
  assumes "apart cfg start pd pd2 s" "length bs < 2 ^ 32" "span a (length bs) \<subseteq> user_area cfg"
  shows "succeeds out_of_frames (store_range (store8 pd) a bs s)
     (\<lambda>s'. apart cfg start pd pd2 s' \<and> (\<forall>x\<in>user_area cfg. ubyte pd2 s' x = ubyte pd2 s x))"
  by (rule store_apart [OF assms])

lemma user_memory_isolation_witness:
  "\<exists>s pd pd2. pd \<noteq> pd2 \<and> succeeds out_of_frames (store_range (store8 pd) 0x80000FFE [1, 2, 3, 4] s)
     (\<lambda>s'. \<forall>x\<in>user_area config_zero. ubyte pd2 s' x = ubyte pd2 s x)"
proof -
  obtain s pd pd2 where A: "apart config_zero 0x1000 pd pd2 s" "pd \<noteq> pd2" by (rule apart_example)
  have l: "length [1, 2, 3, 4 :: u8] < 2 ^ 32" by simp
  note a = area_example [of 1 2 3 4]
  from user_memory_isolation [OF A(1) l a] A(2) show ?thesis
    by (intro exI [of _ s] exI [of _ pd] exI [of _ pd2] conjI) (auto elim: succeeds_mono)
qed

end
