(* ===== verification/Block_IO.thy ===== *)
theory Block_IO
  imports OS_Prelude
begin

text \<open>
  Block devices, \<^verbatim>\<open>kernel/block_io.h\<close> and \<^verbatim>\<open>kernel/block_io.cc\<close>: the class \<^verbatim>\<open>BlockIO\<close> is a
  record of its virtual functions over a state the device owns, \<open>bio_read\<close> and \<open>read_all\<close>
  are its two reading functions, and the locale \<open>block_device\<close> is its contract: what the
  class comment asks of a device, and what follows for every byte range read from it.  The
  disk and the nodes of the file system are the two devices of the kernel.
\<close>

section \<open>The class\<close>

record 's blockio =
  block_size :: u32
  size_in_bytes :: "'s \<Rightarrow> u32"
  read_block :: "u32 \<Rightarrow> 's \<Rightarrow> (u8 list \<times> 's) res"

definition size_in_blocks :: "'s blockio \<Rightarrow> 's \<Rightarrow> u32" where
  "size_in_blocks d s = (size_in_bytes d s + block_size d - 1) div block_size d"

text \<open>
  \<^verbatim>\<open>read\<close>: the count and the bytes put in the buffer.  A whole block is read in place, a part
  of one through a temporary block; a block size of 0 divides by zero.
\<close>

definition bio_read :: "'s blockio \<Rightarrow> u32 \<Rightarrow> u32 \<Rightarrow> 's \<Rightarrow> (int \<times> u8 list \<times> 's) res" where
  "bio_read d off desired_n s =
     (let sz = size_in_bytes d s
      in if sz < off then Inr (-1, [], s)
         else if off = sz then Inr (0, [], s)
         else
           (let n = min desired_n (sz - off)
            in if block_size d = 0 then Inl DivideByZero
               else
                 (let block_number = off div block_size d;
                      offset_in_block = off mod block_size d;
                      actual_n = min (block_size d - offset_in_block) n
                  in assertR ''actual_n <= n'' (actual_n \<le> n)
                    (assertR ''offset + actual_n <= sz'' (off + actual_n \<le> sz)
                      (if actual_n = block_size d then
                         assertR ''offset_in_block == 0'' (offset_in_block = 0)
                           (rbind (read_block d block_number s) (\<lambda>(buffer, s1).
                              Inr (uint actual_n, buffer, s1)))
                       else
                         assertR ''offset_in_block + actual_n <= block_size''
                             (offset_in_block + actual_n \<le> block_size d)
                           (rbind (read_block d block_number s) (\<lambda>(temp, s1).
                              Inr (uint actual_n,
                                take (nat (sint actual_n)) (drop (unat offset_in_block) temp), s1))))))))"

lemma bio_read_count:
  assumes "bio_read d off n s = Inr (cnt, bs, s')"
  shows "cnt \<le> uint n"
proof -
  let ?a = "min (block_size d - off mod block_size d) (min n (size_in_bytes d s - off))"
  have "?a \<le> n" by (meson min.cobounded1 min.cobounded2 order_trans)
  then have a: "uint ?a \<le> uint n" by (simp only: word_le_def)
  have "cnt \<le> 0 \<or> cnt = uint ?a"
  proof (cases "size_in_bytes d s < off \<or> off = size_in_bytes d s \<or> block_size d = 0")
    case True
    then show ?thesis using assms by (elim disjE) (simp_all add: bio_read_def Let_def split: if_splits)
  next
    case False
    then show ?thesis
      using assms unfolding bio_read_def Let_def
      by (simp only: de_Morgan_disj if_False split: if_split_asm) auto
  qed
  then show ?thesis
  proof
    assume "cnt \<le> 0"
    then show ?thesis using uint_ge_0 [of n] by linarith
  qed (use a in simp)
qed

text \<open>
  \<^verbatim>\<open>read_all\<close> loops until nothing is left to read; the count it adds is never more than what
  was asked, so it ends.
\<close>

function read_loop :: "'s blockio \<Rightarrow> u32 \<Rightarrow> u32 \<Rightarrow> int \<Rightarrow> u8 list \<Rightarrow> 's \<Rightarrow> (int \<times> u8 list \<times> 's) res" where
  "read_loop d off n total_count buffer s =
     (if 0 < n then
        rbind (bio_read d off n s) (\<lambda>(cnt, bytes, s1).
          if cnt < 0 then Inr (cnt, buffer @ bytes, s1)
          else if cnt = 0 then Inr (total_count, buffer, s1)
          else read_loop d (off + word_of_int cnt) (n - word_of_int cnt) (total_count + cnt) (buffer @ bytes) s1)
      else Inr (total_count, buffer, s))"
  by pat_completeness auto
termination
proof (relation "measure (\<lambda>(d, off, n, total_count, buffer, s). unat n)", simp)
  fix d :: "'s blockio" and off n :: u32 and total_count :: int and buffer bytes :: "u8 list" and s s1 :: 's
    and x y and cnt :: int
  assume "0 < n" "bio_read d off n s = Inr x" "(cnt, y) = x" "(bytes, s1) = y"
    "\<not> cnt < 0" "cnt \<noteq> 0"
  then have c: "0 < cnt" "cnt \<le> uint n" using bio_read_count [of d off n s cnt bytes s1] by auto
  then have "uint (word_of_int cnt :: u32) = cnt"
    using uint_lt2p [of n] by (simp add: uint_word_of_int)
  then have "uint (n - word_of_int cnt) = uint n - cnt" using c by (simp add: uint_sub_if')
  then show "((d, off + word_of_int cnt, n - word_of_int cnt, total_count + cnt, buffer @ bytes, s1),
      d, off, n, total_count, buffer, s) \<in> measure (\<lambda>(d, off, n, total_count, buffer, s). unat n)"
    using c by (simp add: word_less_nat_alt [symmetric] word_less_def)
qed

declare read_loop.simps [simp del]

definition read_all :: "'s blockio \<Rightarrow> u32 \<Rightarrow> u32 \<Rightarrow> 's \<Rightarrow> (int \<times> u8 list \<times> 's) res" where
  "read_all d off n s = read_loop d off n 0 [] s"

text \<open>The template that reads one object of \<open>n\<close> bytes.\<close>

definition read_thing :: "'s blockio \<Rightarrow> u32 \<Rightarrow> u32 \<Rightarrow> 's \<Rightarrow> (u8 list \<times> 's) res" where
  "read_thing d off n s =
     rbind (read_all d off n s) (\<lambda>(cnt, bytes, s1).
       assertR ''cnt == sizeof(T)'' (cnt = uint n) (Inr (bytes, s1)))"


text \<open>A device that now and then fails, and otherwise reads its blocks as another one does, reads
  byte ranges as that one does or fails the same way.\<close>

lemma bio_read_agree:
  assumes "block_size d = block_size d'" "size_in_bytes d = size_in_bytes d'"
    and "\<And>b s. read_block d b s = read_block d' b s \<or> (\<exists>f. P f \<and> read_block d b s = Inl f)"
  shows "bio_read d off n s = bio_read d' off n s \<or> (\<exists>f. P f \<and> bio_read d off n s = Inl f)"
  using assms(3) [of "off div block_size d" s] assms(1,2)
  by (auto simp: bio_read_def Let_def assertR_def)

lemma read_loop_agree:
  assumes "block_size d = block_size d'" "size_in_bytes d = size_in_bytes d'"
    and "\<And>b s. read_block d b s = read_block d' b s \<or> (\<exists>f. P f \<and> read_block d b s = Inl f)"
  shows "read_loop d off n t buf s = read_loop d' off n t buf s \<or> (\<exists>f. P f \<and> read_loop d off n t buf s = Inl f)"
  using assms
proof (induction d off n t buf s rule: read_loop.induct)
  case (1 d off n t buf s)
  note agree = bio_read_agree [where P = P, OF 1(2-4), of off n s]
  show ?case
  proof (cases "0 < n \<and> bio_read d off n s = bio_read d' off n s")
    case True
    show ?thesis
    proof (cases "bio_read d off n s")
      case (Inl f)
      then show ?thesis using True by (simp add: read_loop.simps [of _ off n])
    next
      case (Inr x)
      obtain cnt bytes s1 where x: "x = (cnt, bytes, s1)" by (cases x)
      have "0 < cnt \<Longrightarrow> read_loop d (off + word_of_int cnt) (n - word_of_int cnt) (t + cnt) (buf @ bytes) s1 =
          read_loop d' (off + word_of_int cnt) (n - word_of_int cnt) (t + cnt) (buf @ bytes) s1 \<or>
        (\<exists>f. P f \<and> read_loop d (off + word_of_int cnt) (n - word_of_int cnt) (t + cnt) (buf @ bytes) s1 = Inl f)"
        using 1(1) [OF _ Inr x [symmetric] refl] True 1(2-4) by simp
      moreover have "bio_read d off n s = Inr (cnt, bytes, s1)" "bio_read d' off n s = Inr (cnt, bytes, s1)"
        using True Inr x by simp_all
      ultimately show ?thesis using True by (simp add: read_loop.simps [of _ off n])
    qed
  next
    case False
    then show ?thesis using agree by (auto simp: read_loop.simps [of _ off n])
  qed
qed

lemma read_all_agree:
  assumes "block_size d = block_size d'" "size_in_bytes d = size_in_bytes d'"
    and "\<And>b s. read_block d b s = read_block d' b s \<or> (\<exists>f. P f \<and> read_block d b s = Inl f)"
  shows "read_all d off n s = read_all d' off n s \<or> (\<exists>f. P f \<and> read_all d off n s = Inl f)"
  unfolding read_all_def by (rule read_loop_agree [OF assms])

section \<open>The contract\<close>

text \<open>The bytes of \<open>c\<close> from an offset on.\<close>

definition bytes_at :: "(nat \<Rightarrow> u8) \<Rightarrow> nat \<Rightarrow> nat \<Rightarrow> u8 list" where
  "bytes_at c off n = map c [off..<off + n]"

lemma length_bytes_at [simp]: "length (bytes_at c off n) = n"
  by (simp add: bytes_at_def)

lemma bytes_at_0 [simp]: "bytes_at c off 0 = []"
  by (simp add: bytes_at_def)

lemma bytes_at_add: "bytes_at c off (m + n) = bytes_at c off m @ bytes_at c (off + m) n"
proof -
  have "[off..<off + (m + n)] = [off..<off + m] @ [off + m..<off + m + n]"
    using upt_add_eq_append [of off "off + m" n] by (simp add: add.assoc)
  then show ?thesis by (simp only: bytes_at_def map_append)
qed

lemma nth_bytes_at [simp]: "i < n \<Longrightarrow> bytes_at c off n ! i = c (off + i)"
  by (simp add: bytes_at_def)

text \<open>
  A device: in a state that is \<open>wf\<close> it has \<open>contents\<close>, a byte for every offset below its size,
  and reading a block in bounds returns that block's bytes and leaves the device's size and
  contents as they are.
\<close>

locale block_device =
  fixes d :: "'s blockio"
    and wf :: "'s \<Rightarrow> bool"
    and contents :: "'s \<Rightarrow> nat \<Rightarrow> u8"
  assumes block_size_pos: "wf s \<Longrightarrow> 0 < block_size d"
    and block_size_bound: "wf s \<Longrightarrow> block_size d \<le> 0x40000000"
    and read_block_ok: "wf s \<Longrightarrow> unat b * unat (block_size d) < unat (size_in_bytes d s) \<Longrightarrow>
      \<exists>blk s'. read_block d b s = Inr (blk, s') \<and> wf s' \<and> size_in_bytes d s' = size_in_bytes d s \<and>
        contents s' = contents s \<and> length blk = unat (block_size d) \<and>
        (\<forall>i<unat (block_size d). unat b * unat (block_size d) + i < unat (size_in_bytes d s) \<longrightarrow>
           blk ! i = contents s (unat b * unat (block_size d) + i))"
begin

text \<open>One \<^verbatim>\<open>read\<close> gets a positive number of the bytes at the offset, as many as are in the block
  it touches.\<close>

lemma bio_read_ok:
  assumes "wf s" and "off < size_in_bytes d s" and "0 < n"
  obtains k s' where "bio_read d off n s = Inr (int k, bytes_at (contents s) (unat off) k, s')"
    "wf s'" "size_in_bytes d s' = size_in_bytes d s" "contents s' = contents s"
    "0 < k" "k \<le> unat n" "unat off + k \<le> unat (size_in_bytes d s)"
proof -
  let ?sz = "size_in_bytes d s" and ?bs = "block_size d"
  let ?b = "off div ?bs" and ?o = "off mod ?bs" and ?n = "min n (?sz - off)"
  let ?a = "min (?bs - ?o) ?n"
  have bs: "0 < ?bs" by (rule block_size_pos [OF assms(1)])
  have ub: "unat ?b = unat off div unat ?bs" "unat ?o = unat off mod unat ?bs"
    by (simp_all add: unat_div unat_mod)
  have bs0: "0 < unat ?bs" using bs by (simp add: word_less_nat_alt)
  have diff: "unat (?sz - off) = unat ?sz - unat off"
    using assms(2) by (simp add: unat_sub word_less_nat_alt order_less_imp_le word_le_nat_alt)
  have mins: "unat (min x y) = min (unat x) (unat y)" for x y :: u32
    by (simp add: min_def word_le_nat_alt)
  have ol: "unat ?o < unat ?bs" using bs0 ub(2) by simp
  then have "?o \<le> ?bs" by (simp add: word_le_nat_alt)
  then have bo: "unat (?bs - ?o) = unat ?bs - unat ?o" by (simp add: unat_sub)
  define k where "k = min (unat ?bs - unat ?o) (min (unat n) (unat ?sz - unat off))"
  have ka: "unat ?a = k" by (simp add: mins bo diff k_def)
  have lt: "unat off < unat ?sz" "0 < unat n" using assms(2,3) by (simp_all add: word_less_nat_alt)
  have kb: "0 < k" "k \<le> unat n" "unat off + k \<le> unat ?sz" "unat ?o + k \<le> unat ?bs"
    using lt ol by (auto simp: k_def)
  have off: "unat ?b * unat ?bs + unat ?o = unat off" using ub by simp
  have "unat ?b * unat ?bs < unat ?sz" using off lt(1) by linarith
  from read_block_ok [OF assms(1) this] obtain blk s' where R: "read_block d ?b s = Inr (blk, s')" "wf s'"
    "size_in_bytes d s' = ?sz" "contents s' = contents s" "length blk = unat ?bs"
    "\<forall>i<unat ?bs. unat ?b * unat ?bs + i < unat ?sz \<longrightarrow> blk ! i = contents s (unat ?b * unat ?bs + i)"
    by blast
  have part: "take k (drop (unat ?o) blk) = bytes_at (contents s) (unat off) k"
  proof (rule nth_equalityI)
    show "length (take k (drop (unat ?o) blk)) = length (bytes_at (contents s) (unat off) k)"
      using kb(4) R(5) by simp
    fix i assume "i < length (take k (drop (unat ?o) blk))"
    then have i: "i < k" by simp
    then have "blk ! (unat ?o + i) = contents s (unat ?b * unat ?bs + (unat ?o + i))"
      using R(6) kb(3,4) off by simp
    then show "take k (drop (unat ?o) blk) ! i = bytes_at (contents s) (unat off) k ! i"
      using i kb(4) R(5) off by (simp add: add.assoc [symmetric])
  qed
  have oa: "unat (off + ?a) = unat off + k"
    using kb(3) ka unsigned_less [where ?'a = nat, of ?sz] by (subst unat_add_lem [THEN iffD1]) simp_all
  have guards: "\<not> ?sz < off" "off \<noteq> ?sz" "?bs \<noteq> 0" "off + ?a \<le> ?sz"
    using assms(2) bs oa kb(3) by (auto simp: word_le_nat_alt)
  note guards = guards min.cobounded2 [of "?bs - ?o" ?n]
  have ua: "uint ?a = int k" by (simp flip: ka)
  show thesis
  proof (cases "?a = ?bs")
    case True
    then have "unat ?o = 0" "k = unat ?bs" using ka kb(4) by simp_all
    moreover from this have "?o = 0" by (simp add: unat_eq_zero)
    ultimately have "bio_read d off n s = Inr (uint ?a, blk, s')" "blk = bytes_at (contents s) (unat off) k"
      using guards True R(1,5) part by (simp_all add: bio_read_def Let_def)
    then show thesis using that [OF _ R(2,3,4) kb(1-3)] unfolding ua by simp
  next
    case False
    have "unat (?o + ?a) = unat ?o + k"
      using kb(4) ka unsigned_less [where ?'a = nat, of ?bs] by (subst unat_add_lem [THEN iffD1]) simp_all
    then have g: "?o + ?a \<le> ?bs" using kb(4) by (simp add: word_le_nat_alt)
    have "?a \<le> ?bs" using kb(4) ka by (simp add: word_le_nat_alt)
    then have "?a \<le> 0x40000000" using block_size_bound [OF assms(1)] by simp
    then have "uint ?a \<le> 0x40000000" by (simp add: word_le_def)
    then have "sint ?a = uint ?a"
      by (simp add: sint_uint signed_take_bit_int_eq_self order_trans [OF _ uint_ge_0])
    then have "nat (sint ?a) = k" unfolding ua by simp
    then have "bio_read d off n s = Inr (uint ?a, bytes_at (contents s) (unat off) k, s')"
      using guards False g R(1) part by (simp add: bio_read_def Let_def)
    then show thesis using that [OF _ R(2,3,4) kb(1-3)] unfolding ua by simp
  qed
qed


text \<open>\<^verbatim>\<open>read_all\<close> gets exactly the bytes there are, up to the number asked for.\<close>

lemma read_loop_ok:
  assumes "wf s" and "off \<le> size_in_bytes d s"
  shows "\<exists>s'. read_loop d off n t buf s =
      Inr (t + int (min (unat n) (unat (size_in_bytes d s) - unat off)),
        buf @ bytes_at (contents s) (unat off) (min (unat n) (unat (size_in_bytes d s) - unat off)), s') \<and>
    wf s' \<and> size_in_bytes d s' = size_in_bytes d s \<and> contents s' = contents s"
  using assms
proof (induction m \<equiv> "unat n" arbitrary: off n t buf s rule: less_induct)
  case less
  let ?sz = "size_in_bytes d s"
  have le: "unat off \<le> unat ?sz" using less.prems(2) by (simp add: word_le_nat_alt)
  show ?case
  proof (cases "n = 0 \<or> off = ?sz")
    case True
    then have "read_loop d off n t buf s = Inr (t, buf, s)"
      by (subst read_loop.simps) (auto simp: bio_read_def)
    then show ?thesis using True less.prems(1) by auto
  next
    case False
    then have n: "0 < n" and off: "off < ?sz" using less.prems(2) by (simp_all add: word_neq_0_conv order_le_less)
    obtain k s1 where R: "bio_read d off n s = Inr (int k, bytes_at (contents s) (unat off) k, s1)"
      "wf s1" "size_in_bytes d s1 = ?sz" "contents s1 = contents s" "0 < k" "k \<le> unat n"
      "unat off + k \<le> unat ?sz"
      by (rule bio_read_ok [OF less.prems(1) off n])
    have lt: "k < 2 ^ 32" using R(6) unsigned_less [where ?'a = nat, of n] by simp
    then have uk: "unat (of_nat k :: u32) = k" by (simp add: unsigned_of_nat take_bit_nat_eq_self)
    have uo: "unat (off + of_nat k) = unat off + k"
      using R(7) uk unsigned_less [where ?'a = nat, of ?sz] by (subst unat_add_lem [THEN iffD1]) simp_all
    have un: "unat (n - of_nat k) = unat n - k"
      using R(6) uk by (simp add: unat_sub word_le_nat_alt)
    have "off + of_nat k \<le> size_in_bytes d s1" using uo R(3,7) by (simp add: word_le_nat_alt)
    moreover have "unat (n - of_nat k) < unat n" using un R(5,6) by simp
    ultimately obtain s' where L: "read_loop d (off + of_nat k) (n - of_nat k) (t + int k)
        (buf @ bytes_at (contents s) (unat off) k) s1 =
      Inr (t + int k + int (min (unat n - k) (unat ?sz - (unat off + k))),
        (buf @ bytes_at (contents s) (unat off) k) @
          bytes_at (contents s) (unat off + k) (min (unat n - k) (unat ?sz - (unat off + k))), s')"
      "wf s'" "size_in_bytes d s' = ?sz" "contents s' = contents s"
      using less.hyps [of "n - of_nat k" s1 "off + of_nat k" "t + int k" "buf @ bytes_at (contents s) (unat off) k"]
        R(2,3,4) uo un by auto
    let ?m = "min (unat n) (unat ?sz - unat off)"
    have m: "?m = k + min (unat n - k) (unat ?sz - (unat off + k))" using R(6,7) by auto
    have "read_loop d off n t buf s = Inr (t + int ?m, buf @ bytes_at (contents s) (unat off) ?m, s')"
      unfolding m bytes_at_add
      using n R(1,5) L(1) by (simp add: read_loop.simps [of d off n] del: rbind_eq_Inr)
    then show ?thesis using L(2-4) by blast
  qed
qed

lemma read_all_ok:
  assumes "wf s" and "off \<le> size_in_bytes d s"
  obtains k s' where "read_all d off n s = Inr (int k, bytes_at (contents s) (unat off) k, s')"
    "k = min (unat n) (unat (size_in_bytes d s) - unat off)"
    "wf s'" "size_in_bytes d s' = size_in_bytes d s" "contents s' = contents s"
  using read_loop_ok [OF assms, of n 0 "[]"] that by (auto simp: read_all_def)

text \<open>Reading an object that lies inside the device.\<close>

lemma read_thing_ok:
  assumes "wf s" and "unat off + unat n \<le> unat (size_in_bytes d s)"
  obtains s' where "read_thing d off n s = Inr (bytes_at (contents s) (unat off) (unat n), s')"
    "wf s'" "size_in_bytes d s' = size_in_bytes d s" "contents s' = contents s"
proof -
  have "off \<le> size_in_bytes d s" using assms(2) by (simp add: word_le_nat_alt)
  then obtain k s' where R: "read_all d off n s = Inr (int k, bytes_at (contents s) (unat off) k, s')"
    "k = min (unat n) (unat (size_in_bytes d s) - unat off)"
    "wf s'" "size_in_bytes d s' = size_in_bytes d s" "contents s' = contents s"
    by (rule read_all_ok [OF assms(1)])
  have "k = unat n" using assms(2) R(2) by simp
  then have "read_thing d off n s = Inr (bytes_at (contents s) (unat off) (unat n), s')"
    using R(1) by (simp add: read_thing_def)
  then show thesis using that R(3-5) by blast
qed

end

text \<open>Past its end a device of any kind reads nothing: \<open>-1\<close> if something was asked for, but 0 if
  nothing was.\<close>

lemma read_all_past_end:
  "size_in_bytes d s < off \<Longrightarrow> read_all d off n s = Inr (if 0 < n then - 1 else 0, [], s)"
  unfolding read_all_def by (cases "0 < n"; subst read_loop.simps) (simp_all add: bio_read_def)

end
