(* ===== verification/Ide.thy ===== *)
theory Ide
  imports Block_IO
begin

text \<open>
  The disk driver, \<^verbatim>\<open>kernel/ide.cc\<close>: polled reads of one sector through the ports of an ATA
  controller.  The port instructions and the controller behind them are not code of the
  repository: they are the record \<open>ata\<close> over a hardware state, and \<open>ata_laws\<close> states what
  the ATA interface documents of them for the registers the driver uses.
\<close>

section \<open>The driver\<close>

record 'h ata =
  ata_inb :: "u32 \<Rightarrow> 'h \<Rightarrow> u32 \<times> 'h"
  ata_inl :: "u32 \<Rightarrow> 'h \<Rightarrow> u32 \<times> 'h"
  ata_outb :: "u32 \<Rightarrow> u32 \<Rightarrow> 'h \<Rightarrow> 'h"

record 'h ide =
  ihw :: 'h
  nRead :: u32

definition controller :: "u32 \<Rightarrow> u32" where
  "controller drive = drop_bit 1 drive AND 1"

definition channel :: "u32 \<Rightarrow> u32" where
  "channel drive = drive AND 1"

definition ports :: "u32 list" where
  "ports = [0x1f0, 0x170]"

definition port :: "u32 \<Rightarrow> u32" where
  "port drive = ports ! unat (controller drive)"

definition getStatus :: "'h ata \<Rightarrow> u32 \<Rightarrow> 'h \<Rightarrow> u32 \<times> 'h" where
  "getStatus hw drive h = ata_inb hw (port drive + 7) h"

definition ERR :: u32 where "ERR = 0x01"
definition DRQ :: u32 where "DRQ = 0x08"
definition DF :: u32 where "DF = 0x20"
definition DRDY :: u32 where "DRDY = 0x40"
definition BSY :: u32 where "BSY = 0x80"

partial_function (option) wait_bsy :: "'h ata \<Rightarrow> u32 \<Rightarrow> 'h \<Rightarrow> 'h option" where
  "wait_bsy hw drive h =
     (case getStatus hw drive h of (status, h1) \<Rightarrow>
        if status AND BSY \<noteq> 0 then wait_bsy hw drive h1 else Some h1)"

partial_function (option) wait_drq :: "'h ata \<Rightarrow> u32 \<Rightarrow> 'h \<Rightarrow> 'h option" where
  "wait_drq hw drive h =
     (case getStatus hw drive h of (status, h1) \<Rightarrow>
        if status AND DRQ = 0 then wait_drq hw drive h1 else Some h1)"

text \<open>The status is kept in a \<^verbatim>\<open>uint8_t\<close>; the two panics come before the loop.\<close>

definition waitForDrive :: "'h ata \<Rightarrow> u32 \<Rightarrow> 'h \<Rightarrow> 'h res" where
  "waitForDrive hw drive h =
     (case getStatus hw drive h of (st, h1) \<Rightarrow>
        let status = (ucast (ucast st :: u8) :: u32)
        in if status AND (ERR OR DF) \<noteq> 0 then Inl (Panic ''drive error'')
           else if status AND DRDY = 0 then Inl (Panic ''drive is not ready'')
           else (case wait_bsy hw drive h1 of None \<Rightarrow> Inl Diverges | Some h2 \<Rightarrow> Inr h2))"

text \<open>The words come from the data port one by one; the buffer holds their bytes.\<close>

fun in_words :: "'h ata \<Rightarrow> u32 \<Rightarrow> nat \<Rightarrow> 'h \<Rightarrow> u32 list \<times> 'h" where
  "in_words hw base 0 h = ([], h)"
| "in_words hw base (Suc n) h =
     (case ata_inl hw base h of (w, h1) \<Rightarrow>
        case in_words hw base n h1 of (ws, h2) \<Rightarrow> (w # ws, h2))"

definition word_bytes :: "u32 \<Rightarrow> u8 list" where
  "word_bytes w = [ucast w, ucast (drop_bit 8 w), ucast (drop_bit 16 w), ucast (drop_bit 24 w)]"

definition words_bytes :: "u32 list \<Rightarrow> u8 list" where
  "words_bytes ws = concat (map word_bytes ws)"

definition sector_size :: u32 where
  "sector_size = 512"

definition ide_read_block :: "'h ata \<Rightarrow> u32 \<Rightarrow> u32 \<Rightarrow> 'h ide \<Rightarrow> (u8 list \<times> 'h ide) res" where
  "ide_read_block hw drive sector s =
     (let s0 = s\<lparr>nRead := nRead s + 1\<rparr>;
          base = port drive;
          ch = channel drive
      in rbind (waitForDrive hw drive (ihw s0)) (\<lambda>h1.
         let h2 = ata_outb hw (base + 2) 1 h1;
             h3 = ata_outb hw (base + 3) (drop_bit 0 sector) h2;
             h4 = ata_outb hw (base + 4) (drop_bit 8 sector) h3;
             h5 = ata_outb hw (base + 5) (drop_bit 16 sector) h4;
             h6 = ata_outb hw (base + 6) (0xE0 OR push_bit 4 ch OR (drop_bit 24 sector AND 0xf)) h5;
             h7 = ata_outb hw (base + 7) 0x20 h6
         in rbind (waitForDrive hw drive h7) (\<lambda>h8.
              case wait_drq hw drive h8 of
                None \<Rightarrow> Inl Diverges
              | Some h9 \<Rightarrow>
                  (case in_words hw base (unat (sector_size div 4)) h9 of (ws, h10) \<Rightarrow>
                     Inr (words_bytes ws, s0\<lparr>ihw := h10\<rparr>)))))"

definition ide_size_in_bytes :: "'h ide \<Rightarrow> u32" where
  "ide_size_in_bytes s = NOT 0"

definition ide_dev :: "'h ata \<Rightarrow> u32 \<Rightarrow> 'h ide blockio" where
  "ide_dev hw drive =
     \<lparr>block_size = sector_size, size_in_bytes = ide_size_in_bytes, read_block = ide_read_block hw drive\<rparr>"

section \<open>What the controller documents\<close>

text \<open>
  A view of the hardware state: whether the controller works, its registers 2 to 6, the
  words waiting in the data port, the sectors of the selected drive, and for how many more
  status reads it stays busy.
\<close>

record 'h ata_view =
  v_ok :: "'h \<Rightarrow> bool"
  v_reg :: "'h \<Rightarrow> u32 \<Rightarrow> u8"
  v_fifo :: "'h \<Rightarrow> u32 list"
  v_sec :: "'h \<Rightarrow> u32 \<Rightarrow> u32 list"
  v_delay :: "'h \<Rightarrow> nat"

definition v_lba :: "'h ata_view \<Rightarrow> 'h \<Rightarrow> u32" where
  "v_lba v h = ucast (v_reg v h 3) OR push_bit 8 (ucast (v_reg v h 4)) OR
     push_bit 16 (ucast (v_reg v h 5)) OR push_bit 24 (ucast (v_reg v h 6) AND 0xF)"

definition law_register :: "'h ata \<Rightarrow> u32 \<Rightarrow> 'h ata_view \<Rightarrow> bool" where
  "law_register hw base v \<longleftrightarrow>
     (\<forall>h k x. v_ok v h \<longrightarrow> k \<in> {2, 3, 4, 5, 6} \<longrightarrow>
        (let h' = ata_outb hw (base + k) x h
         in v_ok v h' \<and> v_reg v h' = (v_reg v h)(k := ucast x) \<and> v_sec v h' = v_sec v h))"

definition law_command :: "'h ata \<Rightarrow> u32 \<Rightarrow> u32 \<Rightarrow> 'h ata_view \<Rightarrow> bool" where
  "law_command hw base ch v \<longleftrightarrow>
     (\<forall>h. v_ok v h \<longrightarrow> v_reg v h 2 = 1 \<longrightarrow> v_reg v h 6 AND 0xF0 = 0xE0 OR push_bit 4 (ucast ch) \<longrightarrow>
        (let h' = ata_outb hw (base + 7) 0x20 h
         in v_ok v h' \<and> v_fifo v h' = v_sec v h (v_lba v h) \<and> v_sec v h' = v_sec v h))"

text \<open>A status read.  While the controller is busy only BSY means something: the other bits are whatever
  they are.  When it is not busy, a working drive is ready and reports no error, and asks for the
  words that wait.\<close>

definition law_status :: "'h ata \<Rightarrow> u32 \<Rightarrow> 'h ata_view \<Rightarrow> bool" where
  "law_status hw base v \<longleftrightarrow>
     (\<forall>h. v_ok v h \<longrightarrow>
        (case ata_inb hw (base + 7) h of (st, h') \<Rightarrow>
           v_ok v h' \<and> v_fifo v h' = v_fifo v h \<and> v_sec v h' = v_sec v h \<and>
           v_delay v h' = v_delay v h - 1 \<and>
           (st AND BSY \<noteq> 0 \<longleftrightarrow> 0 < v_delay v h) \<and>
           (v_delay v h = 0 \<longrightarrow> st AND (ERR OR DF) = 0 \<and> st AND DRDY \<noteq> 0) \<and>
           (v_delay v h = 0 \<longrightarrow> v_fifo v h \<noteq> [] \<longrightarrow> st AND DRQ \<noteq> 0)))"

definition law_data :: "'h ata \<Rightarrow> u32 \<Rightarrow> 'h ata_view \<Rightarrow> bool" where
  "law_data hw base v \<longleftrightarrow>
     (\<forall>h w ws. v_ok v h \<longrightarrow> v_fifo v h = w # ws \<longrightarrow>
        (case ata_inl hw base h of (x, h') \<Rightarrow>
           x = w \<and> v_ok v h' \<and> v_fifo v h' = ws \<and> v_sec v h' = v_sec v h))"

definition ata_laws :: "'h ata \<Rightarrow> u32 \<Rightarrow> 'h ata_view \<Rightarrow> bool" where
  "ata_laws hw drive v \<longleftrightarrow>
     law_register hw (port drive) v \<and> law_command hw (port drive) (channel drive) v \<and>
     law_status hw (port drive) v \<and> law_data hw (port drive) v \<and>
     (\<forall>h n. v_ok v h \<longrightarrow> length (v_sec v h n) = 128)"

text \<open>The driver looks at the first status it reads before it waits for BSY to clear.  So a status whose
  undefined bits look bad can stop it: such a status, and the panics that it leads to.\<close>

definition busy_glitch :: "'h ata \<Rightarrow> u32 \<Rightarrow> 'h ata_view \<Rightarrow> bool" where
  "busy_glitch hw drive v \<longleftrightarrow>
     (\<exists>h. v_ok v h \<and> 0 < v_delay v h \<and>
        (let st = fst (getStatus hw drive h) in st AND (ERR OR DF) \<noteq> 0 \<or> st AND DRDY = 0))"

definition glitch_panic :: "'h ata \<Rightarrow> u32 \<Rightarrow> 'h ata_view \<Rightarrow> fault \<Rightarrow> bool" where
  "glitch_panic hw drive v f \<longleftrightarrow>
     busy_glitch hw drive v \<and> f \<in> {Panic ''drive error'', Panic ''drive is not ready''}"

section \<open>The waits end\<close>

lemma busy_bits: "BSY = 0x80" "DRQ = 8" "ERR OR DF = 0x21" "DRDY = 0x40"
  by (simp_all add: BSY_def DRQ_def ERR_def DF_def DRDY_def)

lemma status_read:
  assumes "law_status hw (port drive) v" and "v_ok v h"
  obtains st h' where "getStatus hw drive h = (st, h')" "v_ok v h'" "v_fifo v h' = v_fifo v h"
    "v_sec v h' = v_sec v h" "v_delay v h' = v_delay v h - 1"
    "st AND BSY \<noteq> 0 \<longleftrightarrow> 0 < v_delay v h"
    "v_delay v h = 0 \<longrightarrow> st AND (ERR OR DF) = 0 \<and> st AND DRDY \<noteq> 0"
    "v_delay v h = 0 \<longrightarrow> v_fifo v h \<noteq> [] \<longrightarrow> st AND DRQ \<noteq> 0"
proof -
  obtain st h' where g: "getStatus hw drive h = (st, h')" by (cases "getStatus hw drive h") simp
  from g have "ata_inb hw (port drive + 7) h = (st, h')" by (simp only: getStatus_def)
  then have "v_ok v h' \<and> v_fifo v h' = v_fifo v h \<and> v_sec v h' = v_sec v h \<and>
           v_delay v h' = v_delay v h - 1 \<and>
           (st AND BSY \<noteq> 0 \<longleftrightarrow> 0 < v_delay v h) \<and>
           (v_delay v h = 0 \<longrightarrow> st AND (ERR OR DF) = 0 \<and> st AND DRDY \<noteq> 0) \<and>
           (v_delay v h = 0 \<longrightarrow> v_fifo v h \<noteq> [] \<longrightarrow> st AND DRQ \<noteq> 0)"
    using assms unfolding law_status_def by (auto dest!: spec [of _ h])
  then show thesis by (elim conjE) (rule that [OF g]; assumption)
qed

lemma wait_bsy_ends:
  assumes "law_status hw (port drive) v" and "v_ok v h"
  obtains h' where "wait_bsy hw drive h = Some h'" "v_ok v h'" "v_fifo v h' = v_fifo v h"
    "v_sec v h' = v_sec v h" "v_delay v h' = 0"
proof -
  have "\<exists>h'. wait_bsy hw drive h = Some h' \<and> v_ok v h' \<and> v_fifo v h' = v_fifo v h \<and>
      v_sec v h' = v_sec v h \<and> v_delay v h' = 0"
    using assms(2)
  proof (induction n \<equiv> "v_delay v h" arbitrary: h)
    case 0
    obtain st h1 where g: "getStatus hw drive h = (st, h1)" "v_ok v h1" "v_fifo v h1 = v_fifo v h"
      "v_sec v h1 = v_sec v h" "v_delay v h1 = v_delay v h - 1" "st AND BSY \<noteq> 0 \<longleftrightarrow> 0 < v_delay v h"
      by (rule status_read [OF assms(1) 0(2)]) (rule that; assumption)
    have "wait_bsy hw drive h = Some h1"
      using g(6) 0(1) by (subst wait_bsy.simps) (simp add: g(1))
    then show ?case using g(2-5) 0(1) by simp
  next
    case (Suc n)
    obtain st h1 where g: "getStatus hw drive h = (st, h1)" "v_ok v h1" "v_fifo v h1 = v_fifo v h"
      "v_sec v h1 = v_sec v h" "v_delay v h1 = v_delay v h - 1" "st AND BSY \<noteq> 0 \<longleftrightarrow> 0 < v_delay v h"
      by (rule status_read [OF assms(1) Suc(3)]) (rule that; assumption)
    have "n = v_delay v h1" using Suc(2) g(5) by simp
    from Suc(1) [OF this g(2)] obtain h' where h': "wait_bsy hw drive h1 = Some h'" "v_ok v h'"
      "v_fifo v h' = v_fifo v h1" "v_sec v h' = v_sec v h1" "v_delay v h' = 0" by blast
    have "st AND BSY \<noteq> 0" using g(6) Suc(2) by simp
    then have "wait_bsy hw drive h = wait_bsy hw drive h1"
      by (subst wait_bsy.simps) (simp add: g(1))
    then show ?case using h' g(3,4) by auto
  qed
  then show thesis using that by blast
qed

lemma wait_drq_ends:
  assumes "law_status hw (port drive) v" and "v_ok v h" and "v_delay v h = 0" and "v_fifo v h \<noteq> []"
  obtains h' where "wait_drq hw drive h = Some h'" "v_ok v h'" "v_fifo v h' = v_fifo v h"
    "v_sec v h' = v_sec v h"
proof -
  obtain st h1 where g: "getStatus hw drive h = (st, h1)" "v_ok v h1" "v_fifo v h1 = v_fifo v h"
      "v_sec v h1 = v_sec v h" "v_delay v h = 0 \<longrightarrow> v_fifo v h \<noteq> [] \<longrightarrow> st AND DRQ \<noteq> 0"
    by (rule status_read [OF assms(1,2)]) (rule that; assumption)
  have "wait_drq hw drive h = Some h1"
    by (subst wait_drq.simps) (simp add: g(1) g(5) [rule_format, OF assms(3,4)])
  then show thesis using that g(2-4) by blast
qed

lemma status_byte:
  fixes st :: u32
  shows "ucast (ucast st :: u8) AND (0x21 :: u32) = st AND 0x21"
    "ucast (ucast st :: u8) AND (0x40 :: u32) = st AND 0x40"
proof -
  have low: "ucast (ucast st :: u8) AND k = st AND k" if "k AND 0xFF = k" for k :: u32
  proof (rule bit_word_eqI)
    fix n :: nat assume n: "n < LENGTH(32)"
    have m: "bit (0xFF :: u32) n \<longleftrightarrow> n < 8"
      using bit_mask_iff [where ?'a = u32, of 8 n] n by (simp add: mask_eq_exp_minus_1)
    have "bit k n \<longleftrightarrow> bit k n \<and> n < 8" by (metis bit_and_iff m that)
    then show "bit (ucast (ucast st :: u8) AND k) n = bit (st AND k) n"
      using n by (auto simp: bit_and_iff bit_ucast_iff)
  qed
  show "ucast (ucast st :: u8) AND (0x21 :: u32) = st AND 0x21"
    "ucast (ucast st :: u8) AND (0x40 :: u32) = st AND 0x40"
    by (rule low, simp)+
qed

text \<open>\<^verbatim>\<open>waitForDrive\<close> ends with the drive idle, or with a panic over a status read while busy.\<close>

lemma waitForDrive_ends:
  assumes "law_status hw (port drive) v" and "v_ok v h"
  obtains (glitch) f where "waitForDrive hw drive h = Inl f" "glitch_panic hw drive v f"
  | (ready) h' where "waitForDrive hw drive h = Inr h'" "v_ok v h'" "v_fifo v h' = v_fifo v h"
    "v_sec v h' = v_sec v h" "v_delay v h' = 0"
proof -
  obtain st h1 where g: "getStatus hw drive h = (st, h1)" "v_ok v h1" "v_fifo v h1 = v_fifo v h"
      "v_sec v h1 = v_sec v h" "v_delay v h = 0 \<longrightarrow> st AND (ERR OR DF) = 0 \<and> st AND DRDY \<noteq> 0"
    by (rule status_read [OF assms]) (rule that; assumption)
  show thesis
  proof (cases "st AND (ERR OR DF) = 0 \<and> st AND DRDY \<noteq> 0")
    case True
    obtain h2 where w: "wait_bsy hw drive h1 = Some h2" "v_ok v h2" "v_fifo v h2 = v_fifo v h1"
      "v_sec v h2 = v_sec v h1" "v_delay v h2 = 0"
      by (rule wait_bsy_ends [OF assms(1) g(2)])
    have "waitForDrive hw drive h = Inr h2"
      unfolding waitForDrive_def g(1) using True w(1)
      by (simp only: busy_bits) (simp add: status_byte)
    then show thesis using ready w(2-5) g(3,4) by simp
  next
    case False
    have "waitForDrive hw drive h \<in> {Inl (Panic ''drive error''), Inl (Panic ''drive is not ready'')}"
      unfolding waitForDrive_def g(1) using False
      by (simp only: busy_bits) (auto simp add: status_byte)
    moreover have "0 < v_delay v h" using False g(5) by auto
    then have "busy_glitch hw drive v"
      unfolding busy_glitch_def Let_def using assms(2) g(1) False by (intro exI [of _ h]) auto
    ultimately show thesis using glitch by (auto simp: glitch_panic_def)
  qed
qed

section \<open>A sector is read\<close>

lemma in_words_ok:
  assumes "law_data hw base v"
  shows "v_ok v h \<Longrightarrow> v_fifo v h = ws @ rest \<Longrightarrow> n = length ws \<Longrightarrow>
    \<exists>h'. in_words hw base n h = (ws, h') \<and> v_ok v h' \<and> v_fifo v h' = rest \<and> v_sec v h' = v_sec v h"
proof (induction ws arbitrary: h n)
  case (Cons w ws)
  obtain x h1 where i: "ata_inl hw base h = (x, h1)" by (cases "ata_inl hw base h") simp
  have "x = w \<and> v_ok v h1 \<and> v_fifo v h1 = ws @ rest \<and> v_sec v h1 = v_sec v h"
    using assms Cons.prems(1,2) i unfolding law_data_def by (auto dest!: spec [of _ h])
  then show ?case using Cons.IH [of h1 "length ws"] Cons.prems(3) i by auto
qed simp

lemma lba_join:
  fixes sector ch :: u32
  assumes "sector < 0x10000000"
  shows "ucast (ucast (drop_bit 0 sector) :: u8) OR push_bit 8 (ucast (ucast (drop_bit 8 sector) :: u8)) OR
    push_bit 16 (ucast (ucast (drop_bit 16 sector) :: u8)) OR
    push_bit 24 (ucast (ucast (0xE0 OR push_bit 4 ch OR (drop_bit 24 sector AND 0xf)) :: u8) AND 0xF) = sector"
    (is "?w = sector")
proof (rule bit_word_eqI)
  fix n :: nat assume n: "n < LENGTH(32)"
  have F: "bit (0xF :: u32) k \<longleftrightarrow> k < 4" if "k < 32" for k
    using bit_mask_iff [where ?'a = u32, of 4 k] that by (simp add: mask_eq_exp_minus_1)
  have E: "\<not> bit (0xE0 :: u32) k" if "k < 4" for k
  proof -
    have "(0xE0 :: u32) = push_bit 4 0xE" by (simp add: push_bit_eq_mult)
    then show ?thesis using that by (simp only: bit_push_bit_iff) simp
  qed
  have hi: "\<not> bit sector k" if "28 \<le> k" for k
  proof -
    have "uint sector < 2 ^ 28" using assms by (simp add: word_less_def)
    then have "take_bit 28 (uint sector) = uint sector" by (simp add: take_bit_int_eq_self)
    then have "\<not> bit (uint sector) k" using that by (metis bit_take_bit_iff not_less)
    then show ?thesis by (metis bit_uint_iff bit_imp_le_length)
  qed
  have b0: "bit (ucast (ucast (drop_bit 0 sector) :: u8) :: u32) n \<longleftrightarrow> n < 8 \<and> bit sector n"
    using n by (auto simp: bit_ucast_iff)
  have b1: "bit (push_bit 8 (ucast (ucast (drop_bit 8 sector) :: u8)) :: u32) n \<longleftrightarrow> 8 \<le> n \<and> n < 16 \<and> bit sector n"
    using n by (auto simp: bit_push_bit_iff bit_ucast_iff bit_drop_bit_eq)
  have b2: "bit (push_bit 16 (ucast (ucast (drop_bit 16 sector) :: u8)) :: u32) n \<longleftrightarrow> 16 \<le> n \<and> n < 24 \<and> bit sector n"
    using n by (auto simp: bit_push_bit_iff bit_ucast_iff bit_drop_bit_eq)
  have b3: "bit (ucast (ucast (0xE0 OR push_bit 4 ch OR (drop_bit 24 sector AND 0xf)) :: u8) AND 0xF :: u32) k \<longleftrightarrow>
      k < 4 \<and> bit sector (24 + k)" if "k < 32" for k
  proof (cases "k < 4")
    case True
    then show ?thesis using F [OF that] E [OF True]
      by (simp only: bit_or_iff bit_and_iff bit_push_bit_iff bit_ucast_iff) (simp add: bit_drop_bit_eq add.commute)
  next
    case False
    then show ?thesis using F [OF that] by (simp only: bit_and_iff) simp
  qed
  have "bit ?w n \<longleftrightarrow> n < 28 \<and> bit sector n"
    unfolding bit_or_iff b0 b1 b2
    using b3 [of "n - 24"] n
    by (cases "24 \<le> n") (simp_all only: bit_push_bit_iff possible_bit_word le_add_diff_inverse, auto)
  then show "bit ?w n = bit sector n" using hi [of n] n by auto
qed

lemma lba_drive_bits:
  fixes sector ch :: u32
  assumes "ch = 0 \<or> ch = 1"
  shows "(ucast (0xE0 OR push_bit 4 ch OR (drop_bit 24 sector AND 0xf)) :: u8) AND 0xF0 =
    0xE0 OR push_bit 4 (ucast ch)" (is "?l = ?r")
proof (rule bit_word_eqI)
  fix n :: nat assume n: "n < LENGTH(8)"
  have F: "bit (0xF :: u32) k \<longleftrightarrow> k < 4" if "k < 32" for k
    using bit_mask_iff [where ?'a = u32, of 4 k] that by (simp add: mask_eq_exp_minus_1)
  have F8: "bit (0xF0 :: u8) k \<longleftrightarrow> 4 \<le> k" if "k < 8" for k
  proof -
    have "(0xF0 :: u8) = push_bit 4 (mask 4)" by (simp add: push_bit_eq_mult mask_eq_exp_minus_1)
    then show ?thesis using that by (simp only: bit_push_bit_iff bit_mask_iff) auto
  qed
  have E: "bit (0xE0 :: u32) k \<longleftrightarrow> 5 \<le> k" "bit (0xE0 :: u8) k \<longleftrightarrow> 5 \<le> k" if "k < 8" for k
  proof -
    have e: "(0xE0 :: u32) = push_bit 5 (mask 3)" "(0xE0 :: u8) = push_bit 5 (mask 3)"
      by (simp_all add: push_bit_eq_mult mask_eq_exp_minus_1)
    show "bit (0xE0 :: u32) k \<longleftrightarrow> 5 \<le> k" "bit (0xE0 :: u8) k \<longleftrightarrow> 5 \<le> k"
      using that unfolding e by (simp_all only: bit_push_bit_iff bit_mask_iff) auto
  qed
  show "bit ?l n = bit ?r n"
    using n assms F [of n] F8 [of n] E [of n]
    by (simp only: bit_or_iff bit_and_iff bit_push_bit_iff bit_ucast_iff possible_bit_word) auto
qed

text \<open>The bytes of a sector, as the device's contents.\<close>

definition sector_byte :: "'h ata_view \<Rightarrow> 'h \<Rightarrow> nat \<Rightarrow> u8" where
  "sector_byte v h i = words_bytes (v_sec v h (of_nat (i div 512))) ! (i mod 512)"

definition disk_ok :: "'h ata \<Rightarrow> u32 \<Rightarrow> 'h ata_view \<Rightarrow> 'h ide \<Rightarrow> bool" where
  "disk_ok hw drive v s \<longleftrightarrow> ata_laws hw drive v \<and> v_ok v (ihw s)"

lemma length_words_bytes [simp]: "length (words_bytes ws) = 4 * length ws"
  by (induction ws) (simp_all add: words_bytes_def word_bytes_def)

lemma write_register:
  assumes "law_register hw base v" and "v_ok v h" and "k \<in> {2, 3, 4, 5, 6}"
  shows "v_ok v (ata_outb hw (base + k) x h)"
    "v_reg v (ata_outb hw (base + k) x h) = (v_reg v h)(k := ucast x)"
    "v_sec v (ata_outb hw (base + k) x h) = v_sec v h"
  using assms unfolding law_register_def Let_def by blast+

lemma ide_read_block_cases:
  assumes "disk_ok hw drive v s" and "sector < 0x10000000"
  obtains (glitch) f where "ide_read_block hw drive sector s = Inl f" "glitch_panic hw drive v f"
  | (read) s' where "ide_read_block hw drive sector s = Inr (words_bytes (v_sec v (ihw s) sector), s')"
    "disk_ok hw drive v s'" "v_sec v (ihw s') = v_sec v (ihw s)" "nRead s' = nRead s + 1"
proof -
  let ?b = "port drive" and ?ch = "channel drive"
  let ?sel = "0xE0 OR push_bit 4 ?ch OR (drop_bit 24 sector AND 0xf) :: u32"
  have L: "law_register hw ?b v" "law_command hw ?b ?ch v" "law_status hw ?b v" "law_data hw ?b v"
    "\<And>h n. v_ok v h \<Longrightarrow> length (v_sec v h n) = 128" and ok: "v_ok v (ihw s)"
    using assms(1) by (auto simp: disk_ok_def ata_laws_def)
  show thesis
  proof (cases rule: waitForDrive_ends [OF L(3) ok])
    case (1 f)
    then show thesis using glitch by (simp add: ide_read_block_def Let_def)
  next
  case w1: (2 h1)
  define h2 where "h2 = ata_outb hw (?b + 2) 1 h1"
  define h3 where "h3 = ata_outb hw (?b + 3) (drop_bit 0 sector) h2"
  define h4 where "h4 = ata_outb hw (?b + 4) (drop_bit 8 sector) h3"
  define h5 where "h5 = ata_outb hw (?b + 5) (drop_bit 16 sector) h4"
  define h6 where "h6 = ata_outb hw (?b + 6) ?sel h5"
  define h7 where "h7 = ata_outb hw (?b + 7) 0x20 h6"
  note W = write_register [OF L(1)]
  have k2: "v_ok v h2" using W(1) [OF w1(2), of 2 1] by (simp add: h2_def)
  have k3: "v_ok v h3" using W(1) [OF k2, of 3] by (simp add: h3_def)
  have k4: "v_ok v h4" using W(1) [OF k3, of 4] by (simp add: h4_def)
  have k5: "v_ok v h5" using W(1) [OF k4, of 5] by (simp add: h5_def)
  have k6: "v_ok v h6" using W(1) [OF k5, of 6] by (simp add: h6_def)
  have r: "v_reg v h6 = (v_reg v h1)(2 := 1, 3 := ucast (drop_bit 0 sector), 4 := ucast (drop_bit 8 sector),
      5 := ucast (drop_bit 16 sector), 6 := ucast ?sel)"
    using W(2) [OF w1(2), of 2 1] W(2) [OF k2, of 3] W(2) [OF k3, of 4] W(2) [OF k4, of 5] W(2) [OF k5, of 6]
    by (simp add: h2_def h3_def h4_def h5_def h6_def)
  have sec: "v_sec v h6 = v_sec v (ihw s)"
    using W(3) [OF w1(2), of 2 1] W(3) [OF k2, of 3] W(3) [OF k3, of 4] W(3) [OF k4, of 5] W(3) [OF k5, of 6] w1(4)
    by (simp add: h2_def h3_def h4_def h5_def h6_def)
  have lba: "v_lba v h6 = sector"
    unfolding v_lba_def r using lba_join [OF assms(2), of ?ch] by simp
  have ch: "?ch = 0 \<or> ?ch = 1" unfolding channel_def and_one_eq by (simp add: mod_2_eq_odd)
  have c2: "v_reg v h6 2 = 1" "v_reg v h6 6 AND 0xF0 = 0xE0 OR push_bit 4 (ucast ?ch)"
    unfolding r using lba_drive_bits [OF ch, of sector] by simp_all
  have "v_ok v h7 \<and> v_fifo v h7 = v_sec v h6 (v_lba v h6) \<and> v_sec v h7 = v_sec v h6"
    using L(2) k6 c2 unfolding law_command_def Let_def h7_def by blast
  then have k7: "v_ok v h7" and f7: "v_fifo v h7 = v_sec v (ihw s) sector" and s7: "v_sec v h7 = v_sec v (ihw s)"
    using sec lba by simp_all
  show thesis
  proof (cases rule: waitForDrive_ends [OF L(3) k7])
    case (1 f)
    then have "ide_read_block hw drive sector s = Inl f"
      using w1(1) unfolding h7_def h6_def h5_def h4_def h3_def h2_def
      by (simp add: ide_read_block_def Let_def)
    then show thesis using glitch 1(2) by blast
  next
  case w8: (2 h8)
  have len: "length (v_sec v (ihw s) sector) = 128" by (rule L(5) [OF ok])
  then have "v_fifo v h8 \<noteq> []" using w8(3) f7 by auto
  then obtain h9 where w9: "wait_drq hw drive h8 = Some h9" "v_ok v h9" "v_fifo v h9 = v_fifo v h8"
    "v_sec v h9 = v_sec v h8"
    by (rule wait_drq_ends [OF L(3) w8(2,5)])
  have "v_fifo v h9 = v_sec v (ihw s) sector @ []" using w9(3) w8(3) f7 by simp
  from in_words_ok [OF L(4) w9(2) this refl] len obtain h10 where
    w10: "in_words hw ?b 128 h9 = (v_sec v (ihw s) sector, h10)" "v_ok v h10" "v_sec v h10 = v_sec v h9"
    by auto
  have "ide_read_block hw drive sector s =
      Inr (words_bytes (v_sec v (ihw s) sector), s\<lparr>nRead := nRead s + 1, ihw := h10\<rparr>)"
    using w1(1) w8(1) w9(1) w10(1) unfolding h7_def h6_def h5_def h4_def h3_def h2_def
    by (simp add: ide_read_block_def Let_def sector_size_def)
  moreover have "disk_ok hw drive v (s\<lparr>nRead := nRead s + 1, ihw := h10\<rparr>)"
    using assms(1) w10(2) by (simp add: disk_ok_def)
  ultimately show thesis using read w10(3) w9(4) w8(4) s7 by simp
  qed
  qed
qed

section \<open>The disk as a block device\<close>

text \<open>A device that reads the sectors of the drive is a block device.\<close>

lemma sector_device:
  assumes d: "block_size d = sector_size" "size_in_bytes d = ide_size_in_bytes"
    and Q: "\<And>s. Q s \<Longrightarrow> disk_ok hw drive v s"
    and R: "\<And>s b. Q s \<Longrightarrow> b < 0x10000000 \<Longrightarrow>
      \<exists>s'. read_block d b s = Inr (words_bytes (v_sec v (ihw s) b), s') \<and> Q s' \<and> v_sec v (ihw s') = v_sec v (ihw s)"
  shows "block_device d Q (\<lambda>s. sector_byte v (ihw s))"
proof
  fix s and b :: u32 assume ok: "Q s"
  show "0 < block_size d" "block_size d \<le> 0x40000000" by (simp_all add: d sector_size_def)
  have bs: "unat (block_size d) = 512" by (simp add: d sector_size_def)
  assume "unat b * unat (block_size d) < unat (size_in_bytes d s)"
  moreover have "unat (size_in_bytes d s) < 2 ^ 32"
    using unsigned_less [where ?'a = nat, of "size_in_bytes d s"] by simp
  ultimately have "unat b * 512 < 2 ^ 32" unfolding bs by (rule less_trans)
  then have b: "b < 0x10000000" by (simp add: word_less_nat_alt)
  obtain s' where r: "read_block d b s = Inr (words_bytes (v_sec v (ihw s) b), s')" "Q s'"
    "v_sec v (ihw s') = v_sec v (ihw s)"
    using R [OF ok b] by blast
  have len: "length (v_sec v (ihw s) b) = 128" using Q [OF ok] by (simp add: disk_ok_def ata_laws_def)
  have "sector_byte v (ihw s) (unat b * 512 + i) = words_bytes (v_sec v (ihw s) b) ! i" if "i < 512" for i
    using that by (simp add: sector_byte_def)
  moreover have "sector_byte v (ihw s') = sector_byte v (ihw s)"
    by (rule ext) (simp add: sector_byte_def r(3))
  moreover have "size_in_bytes d s' = size_in_bytes d s" by (simp add: d ide_size_in_bytes_def)
  moreover have "length (words_bytes (v_sec v (ihw s) b)) = 512" using len by simp
  ultimately show "\<exists>blk s'. read_block d b s = Inr (blk, s') \<and> Q s' \<and>
        size_in_bytes d s' = size_in_bytes d s \<and>
        sector_byte v (ihw s') = sector_byte v (ihw s) \<and> length blk = unat (block_size d) \<and>
        (\<forall>i<unat (block_size d). unat b * unat (block_size d) + i < unat (size_in_bytes d s) \<longrightarrow>
           blk ! i = sector_byte v (ihw s) (unat b * unat (block_size d) + i))"
    using r unfolding bs
    by - (rule exI [of _ "words_bytes (v_sec v (ihw s) b)"], rule exI [of _ s'], simp)
qed

text \<open>So the driver is one over a controller whose busy status never looks bad.\<close>

definition calm_disk :: "'h ata \<Rightarrow> u32 \<Rightarrow> 'h ata_view \<Rightarrow> 'h ide \<Rightarrow> bool" where
  "calm_disk hw drive v s \<longleftrightarrow> disk_ok hw drive v s \<and> \<not> busy_glitch hw drive v"

interpretation ide: block_device "ide_dev hw drive" "calm_disk hw drive v" "\<lambda>s. sector_byte v (ihw s)"
  for hw drive v
proof (rule sector_device [where hw = hw and drive = drive])
  fix s :: "'a ide" and b :: u32
  assume ok: "calm_disk hw drive v s" and b: "b < 0x10000000"
  then have d: "disk_ok hw drive v s" by (simp add: calm_disk_def)
  show "\<exists>s'. read_block (ide_dev hw drive) b s = Inr (words_bytes (v_sec v (ihw s) b), s') \<and>
      calm_disk hw drive v s' \<and> v_sec v (ihw s') = v_sec v (ihw s)"
  proof (cases rule: ide_read_block_cases [OF d b])
    case (1 f)
    then show ?thesis using ok by (simp add: glitch_panic_def calm_disk_def)
  next
    case (2 s')
    then show ?thesis using ok by (simp add: ide_dev_def calm_disk_def)
  qed
qed (simp_all add: ide_dev_def calm_disk_def)





text \<open>A controller that satisfies the laws: it holds the sector number, the selected words and a
  countdown of busy reads.\<close>

record sim =
  sim_reg :: "u32 \<Rightarrow> u8"
  sim_fifo :: "u32 list"
  sim_busy :: nat

definition sim_sector :: "u32 \<Rightarrow> u32 list" where
  "sim_sector n = map (\<lambda>i. n * 128 + of_nat i) [0..<128]"

definition sim_view :: "sim ata_view" where
  "sim_view = \<lparr>v_ok = \<lambda>h. True, v_reg = sim_reg, v_fifo = sim_fifo, v_sec = \<lambda>h. sim_sector, v_delay = sim_busy\<rparr>"

text \<open>While it is busy it shows the status \<open>busy\<close>.\<close>

definition sim_ata :: "u32 \<Rightarrow> sim ata" where
  "sim_ata busy =
     \<lparr>ata_inb = \<lambda>p h. (if sim_busy h = 0 then 0x48 else busy, h\<lparr>sim_busy := sim_busy h - 1\<rparr>),
      ata_inl = \<lambda>p h. (case sim_fifo h of [] \<Rightarrow> (0, h) | w # ws \<Rightarrow> (w, h\<lparr>sim_fifo := ws\<rparr>)),
      ata_outb = \<lambda>p x h. if p = 0x1f7 then h\<lparr>sim_fifo := sim_sector (v_lba sim_view h), sim_busy := 3\<rparr>
        else h\<lparr>sim_reg := (sim_reg h)(p - 0x1f0 := ucast x)\<rparr>\<rparr>"

lemma sim_laws: "busy AND BSY \<noteq> 0 \<Longrightarrow> ata_laws (sim_ata busy) 0 sim_view"
  by (auto simp: ata_laws_def law_register_def law_command_def law_status_def law_data_def
    sim_ata_def sim_view_def port_def ports_def controller_def busy_bits sim_sector_def
    split: list.splits)


definition sim_start :: "sim ide" where
  "sim_start = \<lparr>ihw = \<lparr>sim_reg = \<lambda>_. 0, sim_fifo = [], sim_busy = 2\<rparr>, nRead = 0\<rparr>"


text \<open>One that shows nothing but BSY, as it may: the first read of a sector panics, since the drive is still
  busy.\<close>

lemma busy_drive_panics:
  "ata_laws (sim_ata 0x80) 0 sim_view \<and>
   read_all (ide_dev (sim_ata 0x80) 0) 510 4 sim_start = Inl (Panic ''drive is not ready'')"
proof
  show "ata_laws (sim_ata 0x80) 0 sim_view" by (rule sim_laws) (simp add: busy_bits)
  have "waitForDrive (sim_ata 0x80) 0 (ihw sim_start) = Inl (Panic ''drive is not ready'')"
    by (simp add: waitForDrive_def getStatus_def sim_ata_def sim_start_def busy_bits)
  then have "ide_read_block (sim_ata 0x80) 0 b sim_start = Inl (Panic ''drive is not ready'')" for b
    by (simp add: ide_read_block_def Let_def)
  then show "read_all (ide_dev (sim_ata 0x80) 0) 510 4 sim_start = Inl (Panic ''drive is not ready'')"
    unfolding read_all_def
    by (subst read_loop.simps) (simp add: bio_read_def Let_def ide_dev_def sector_size_def ide_size_in_bytes_def)
qed

end
