(* ===== verification/LibK.thy ===== *)
theory LibK
  imports OS_Prelude
begin

text \<open>
  The small library of the kernel, \<^verbatim>\<open>kernel/libk.h\<close> and \<^verbatim>\<open>kernel/libk.cc\<close>.  A C string is
  the list of its bytes: the read at the end of the list gives the terminator, and a zero byte
  inside the list ends the string there.
\<close>

section \<open>Strings\<close>

type_synonym cstring = "u8 list"

fun strlen :: "cstring \<Rightarrow> int" where
  "strlen [] = 0"
| "strlen (c # cs) = (if c \<noteq> 0 then strlen cs + 1 else 0)"

fun streq :: "cstring \<Rightarrow> cstring \<Rightarrow> bool" where
  "streq [] [] = True"
| "streq [] (y # b) = (y = 0)"
| "streq (x # a) [] = (x = 0)"
| "streq (x # a) (y # b) = (if x \<noteq> y then False else if x = 0 then True else streq a b)"

definition isdigit :: "int \<Rightarrow> bool" where
  "isdigit c \<longleftrightarrow> 48 \<le> c \<and> c \<le> 57"

text \<open>The string itself.\<close>

definition cstr :: "cstring \<Rightarrow> u8 list" where
  "cstr cs = takeWhile (\<lambda>c. c \<noteq> 0) cs"

lemma cstr_simps [simp]:
  "cstr [] = []"
  "cstr (c # cs) = (if c = 0 then [] else c # cstr cs)"
  by (simp_all add: cstr_def)

lemma cstr_no_nul: "0 \<notin> set (cstr cs)"
  by (induction cs) auto

lemma cstr_id [simp]: "0 \<notin> set cs \<Longrightarrow> cstr cs = cs"
  by (induction cs) auto

lemma strlen_eq: "strlen cs = int (length (cstr cs))"
  by (induction cs) auto

lemma streq_iff: "streq a b \<longleftrightarrow> cstr a = cstr b"
  by (induction a b rule: streq.induct) auto

end
