(* ===== verification/Ext2.thy ===== *)
theory Ext2
  imports Ide LibK
begin

text \<open>
  The file system, \<^verbatim>\<open>kernel/ext2.h\<close> and \<^verbatim>\<open>kernel/ext2.cc\<close>: the on-disk structures, mounting,
  inodes as block devices of their own, directories and path lookup.  The disk is any
  \<open>blockio\<close> over a state; the kernel mounts the one of the disk driver.
\<close>

section \<open>On-disk structures\<close>

definition le16 :: "u8 list \<Rightarrow> nat \<Rightarrow> u16" where
  "le16 bs i = ucast (bs ! i) OR push_bit 8 (ucast (bs ! (i + 1)))"

definition le32 :: "u8 list \<Rightarrow> nat \<Rightarrow> u32" where
  "le32 bs i = ucast (bs ! i) OR push_bit 8 (ucast (bs ! (i + 1))) OR
     push_bit 16 (ucast (bs ! (i + 2))) OR push_bit 24 (ucast (bs ! (i + 3)))"

record super_block =
  inodes_count :: u32
  blocks_count :: u32
  reserved_blocks_count :: u32
  sb_free_blocks_count :: u32
  free_inodes_count :: u32
  first_data_block :: u32
  log_block_size :: u32
  log_frag_size :: u32
  blocks_per_group :: u32
  frags_per_group :: u32
  inodes_per_group :: u32
  sb_mtime :: u32
  wtime :: u32
  mnt_count :: u16
  max_mnt_count :: u16
  magic :: u16
  fs_state :: u16
  errors :: u16
  minor_rev_level :: u16
  lastcheck :: u32
  checkinterval :: u32
  creator_os :: u32
  rev_level :: u32
  def_resuid :: u16
  def_resgid :: u16
  first_inode :: u32
  inode_size :: u16
  block_group_nr :: u16
  feature_compat :: u32
  feature_incompat :: u32
  feature_ro_compat :: u32
  uuid :: "u8 list"
  volume_name :: "u8 list"
  algo_bitmap :: u32

definition sizeof_super :: u32 where
  "sizeof_super = 140"

definition decode_super :: "u8 list \<Rightarrow> super_block" where
  "decode_super b =
     \<lparr>inodes_count = le32 b 0, blocks_count = le32 b 4, reserved_blocks_count = le32 b 8,
      sb_free_blocks_count = le32 b 12, free_inodes_count = le32 b 16, first_data_block = le32 b 20,
      log_block_size = le32 b 24, log_frag_size = le32 b 28, blocks_per_group = le32 b 32,
      frags_per_group = le32 b 36, inodes_per_group = le32 b 40, sb_mtime = le32 b 44,
      wtime = le32 b 48, mnt_count = le16 b 52, max_mnt_count = le16 b 54, magic = le16 b 56,
      fs_state = le16 b 58, errors = le16 b 60, minor_rev_level = le16 b 62, lastcheck = le32 b 64,
      checkinterval = le32 b 68, creator_os = le32 b 72, rev_level = le32 b 76,
      def_resuid = le16 b 80, def_resgid = le16 b 82, first_inode = le32 b 84,
      inode_size = le16 b 88, block_group_nr = le16 b 90, feature_compat = le32 b 92,
      feature_incompat = le32 b 96, feature_ro_compat = le32 b 100,
      uuid = take 16 (drop 104 b), volume_name = take 16 (drop 120 b), algo_bitmap = le32 b 136\<rparr>"

record block_group =
  block_bitmap :: u32
  inode_bitmap :: u32
  inode_table :: u32
  free_blocks_count :: u16
  free_group_inodes_count :: u16
  used_dirs_count :: u16
  pad :: u16
  reserved :: "u8 list"

definition sizeof_group :: u32 where
  "sizeof_group = 32"

definition decode_group :: "u8 list \<Rightarrow> nat \<Rightarrow> block_group" where
  "decode_group b i =
     \<lparr>block_bitmap = le32 b i, inode_bitmap = le32 b (i + 4), inode_table = le32 b (i + 8),
      free_blocks_count = le16 b (i + 12), free_group_inodes_count = le16 b (i + 14),
      used_dirs_count = le16 b (i + 16), pad = le16 b (i + 18), reserved = take 12 (drop (i + 20) b)\<rparr>"

text \<open>The twelve fields \<^verbatim>\<open>direct0\<close> to \<^verbatim>\<open>direct11\<close>, which the code indexes as an array, are one
  list.\<close>

record node_data =
  mode :: u16
  uid :: u16
  size_low :: u32
  atime :: u32
  ctime :: u32
  mtime :: u32
  dtime :: u32
  gid :: u16
  n_links :: u16
  n_sectors :: u32
  node_flags :: u32
  os1 :: u32
  direct :: "u32 list"
  indirect_1 :: u32
  indirect_2 :: u32
  indirect_3 :: u32
  gen :: u32
  reserved1 :: u32
  reserved2 :: u32
  fragment :: u32
  os2 :: "u8 list"

definition sizeof_node :: u32 where
  "sizeof_node = 128"

definition decode_node :: "u8 list \<Rightarrow> node_data" where
  "decode_node b =
     \<lparr>mode = le16 b 0, uid = le16 b 2, size_low = le32 b 4, atime = le32 b 8, ctime = le32 b 12,
      mtime = le32 b 16, dtime = le32 b 20, gid = le16 b 24, n_links = le16 b 26,
      n_sectors = le32 b 28, node_flags = le32 b 32, os1 = le32 b 36,
      direct = map (\<lambda>i. le32 b (40 + 4 * i)) [0..<12], indirect_1 = le32 b 88,
      indirect_2 = le32 b 92, indirect_3 = le32 b 96, gen = le32 b 100, reserved1 = le32 b 104,
      reserved2 = le32 b 108, fragment = le32 b 112, os2 = take 12 (drop 116 b)\<rparr>"

definition get_type :: "node_data \<Rightarrow> u16" where
  "get_type nd = drop_bit 12 (mode nd)"

definition is_dir :: "node_data \<Rightarrow> bool" where
  "is_dir nd \<longleftrightarrow> get_type nd = 4"

definition is_file :: "node_data \<Rightarrow> bool" where
  "is_file nd \<longleftrightarrow> get_type nd = 8"

definition is_symlink :: "node_data \<Rightarrow> bool" where
  "is_symlink nd \<longleftrightarrow> get_type nd = 0xa"

section \<open>Nodes\<close>

record node =
  node_bs :: u32
  number :: u32
  data :: node_data

text \<open>\<^verbatim>\<open>Node::read_block\<close>: twelve direct blocks, one indirect block of references, a panic
  beyond.\<close>

definition node_read_block :: "'s blockio \<Rightarrow> node \<Rightarrow> u32 \<Rightarrow> 's \<Rightarrow> (u8 list \<times> 's) res" where
  "node_read_block dev nd index s =
     (if node_bs nd div 512 = 0 then Inl DivideByZero
      else assertR ''index < data.n_sectors / (block_size / 512)''
          (index < n_sectors (data nd) div (node_bs nd div 512))
        (let refs_per_block = node_bs nd div 4
         in rbind
              (if index < 12 then Inr (direct (data nd) ! unat index, s)
               else if index < 12 + refs_per_block then
                 rbind (read_thing dev (indirect_1 (data nd) * node_bs nd + (index - 12) * 4) 4 s)
                   (\<lambda>(b, s1). Inr (le32 b 0, s1))
               else Inl (Panic ''index''))
              (\<lambda>(block_index, s1).
                 rbind (read_all dev (block_index * node_bs nd) (node_bs nd) s1) (\<lambda>(cnt, bytes, s2).
                   assertR ''cnt == block_size'' (cnt = uint (node_bs nd)) (Inr (bytes, s2))))))"

definition node_size_in_bytes :: "node \<Rightarrow> u32" where
  "node_size_in_bytes nd = size_low (data nd)"

definition node_dev :: "'s blockio \<Rightarrow> node \<Rightarrow> 's blockio" where
  "node_dev dev nd =
     \<lparr>block_size = node_bs nd, size_in_bytes = \<lambda>s. node_size_in_bytes nd, read_block = node_read_block dev nd\<rparr>"

text \<open>The target of a symbolic link: in the block references themselves when it is short.\<close>

definition get_symbol :: "'s blockio \<Rightarrow> node \<Rightarrow> 's \<Rightarrow> (u8 list \<times> 's) res" where
  "get_symbol dev nd s =
     assertR ''is_symlink()'' (is_symlink (data nd))
       (let sz = node_size_in_bytes nd
        in if sz \<le> 60 then
             Inr (take (unat sz) (words_bytes
               (direct (data nd) @ [indirect_1 (data nd), indirect_2 (data nd), indirect_3 (data nd)])), s)
           else rbind (read_all (node_dev dev nd) 0 sz s) (\<lambda>(cnt, bytes, s1).
             assertR ''cnt == sz'' (cnt = uint sz) (Inr (bytes, s1))))"

section \<open>Directories\<close>

text \<open>The three fields in front of a name: \<^verbatim>\<open>inode\<close>, \<^verbatim>\<open>total_size\<close>, \<^verbatim>\<open>name_length\<close>.\<close>

definition read_u32 :: "'s blockio \<Rightarrow> u32 \<Rightarrow> 's \<Rightarrow> (u32 \<times> 's) res" where
  "read_u32 d off s = rbind (read_thing d off 4 s) (\<lambda>(b, s1). Inr (le32 b 0, s1))"

definition read_u16 :: "'s blockio \<Rightarrow> u32 \<Rightarrow> 's \<Rightarrow> (u16 \<times> 's) res" where
  "read_u16 d off s = rbind (read_thing d off 2 s) (\<lambda>(b, s1). Inr (le16 b 0, s1))"

definition read_u8 :: "'s blockio \<Rightarrow> u32 \<Rightarrow> 's \<Rightarrow> (u8 \<times> 's) res" where
  "read_u8 d off s = rbind (read_thing d off 1 s) (\<lambda>(b, s1). Inr (b ! 0, s1))"

definition read_name :: "'s blockio \<Rightarrow> u32 \<Rightarrow> u8 \<Rightarrow> 's \<Rightarrow> (cstring \<times> 's) res" where
  "read_name d off name_length s =
     rbind (read_all d off (ucast name_length) s) (\<lambda>(cnt, name, s1).
       assertR ''cnt == name_length'' (cnt = uint name_length) (Inr (name, s1)))"

text \<open>One round of \<^verbatim>\<open>entries\<close>, and the loop: it goes on as long as the offset is inside the
  directory, so an entry of size 0 keeps it there forever.\<close>

definition read_entry :: "'s blockio \<Rightarrow> u32 \<Rightarrow> 's \<Rightarrow> ((u32 \<times> u16 \<times> cstring) \<times> 's) res" where
  "read_entry d offset s =
     rbind (read_u32 d offset s) (\<lambda>(inode, s1).
       rbind (read_u16 d (offset + 4) s1) (\<lambda>(total_size, s2).
         rbind (read_u8 d (offset + 6) s2) (\<lambda>(name_length, s3).
           rbind (read_name d (offset + 8) name_length s3) (\<lambda>(name, s4).
             Inr ((inode, total_size, name), s4)))))"

partial_function (option) entries_loop ::
  "'s blockio \<Rightarrow> node \<Rightarrow> (u32 \<Rightarrow> cstring \<Rightarrow> 'a \<Rightarrow> 'a) \<Rightarrow> u32 \<Rightarrow> 'a \<Rightarrow> 's \<Rightarrow> ('a \<times> 's) res option" where
  "entries_loop d nd work offset acc s =
     (if offset < size_low (data nd) then
        (case read_entry d offset s of
           Inl e \<Rightarrow> Some (Inl e)
         | Inr r \<Rightarrow>
             entries_loop d nd work (offset + ucast (fst (snd (fst r))))
               (work (fst (fst r)) (snd (snd (fst r))) acc) (snd r))
      else Some (Inr (acc, s)))"

definition entries :: "'s blockio \<Rightarrow> node \<Rightarrow> (u32 \<Rightarrow> cstring \<Rightarrow> 'a \<Rightarrow> 'a) \<Rightarrow> 'a \<Rightarrow> 's \<Rightarrow> ('a \<times> 's) res" where
  "entries dev nd work acc s =
     assertR ''is_dir()'' (is_dir (data nd)) (returned (entries_loop (node_dev dev nd) nd work 0 acc s))"

definition node_find :: "'s blockio \<Rightarrow> node \<Rightarrow> cstring \<Rightarrow> 's \<Rightarrow> (u32 \<times> 's) res" where
  "node_find dev nd name s =
     entries dev nd (\<lambda>number nm out. if streq name nm then number else out) 0 s"

definition entry_count :: "'s blockio \<Rightarrow> node \<Rightarrow> 's \<Rightarrow> (u32 \<times> 's) res" where
  "entry_count dev nd s =
     assertR ''is_dir()'' (is_dir (data nd)) (entries dev nd (\<lambda>number nm count. count + 1) 0 s)"

text \<open>
  The names of a directory with a space after each, the last space overwritten by the
  terminator; the buffer is what was written to it.  In an empty directory the terminator goes
  in front of the buffer.
\<close>

partial_function (option) dir_entries_loop ::
  "'s blockio \<Rightarrow> node \<Rightarrow> u32 \<Rightarrow> u8 list \<Rightarrow> 's \<Rightarrow> (u8 list \<times> 's) res option" where
  "dir_entries_loop d nd offset buffer s =
     (if offset < size_low (data nd) then
        (case rbind (read_u16 d (offset + 4) s) (\<lambda>(total_size, s2).
                rbind (read_u8 d (offset + 6) s2) (\<lambda>(name_length, s3).
                  rbind (read_name d (offset + 8) name_length s3) (\<lambda>(name, s4).
                    Inr ((total_size, name), s4)))) of
           Inl e \<Rightarrow> Some (Inl e)
         | Inr r \<Rightarrow> dir_entries_loop d nd (offset + ucast (fst (fst r))) (buffer @ snd (fst r) @ [32]) (snd r))
      else Some (Inr (buffer, s)))"

definition get_dir_entries :: "'s blockio \<Rightarrow> node \<Rightarrow> 's \<Rightarrow> (u8 list \<times> 's) res" where
  "get_dir_entries dev nd s =
     assertR ''is_dir()'' (is_dir (data nd))
       (rbind (returned (dir_entries_loop (node_dev dev nd) nd 0 [] s)) (\<lambda>(buffer, s1).
          if buffer = [] then Inl (OutOfBounds ''buffer[nameOffset - 1]'')
          else Inr (buffer[length buffer - 1 := 0], s1)))"

partial_function (option) dir_length_loop ::
  "'s blockio \<Rightarrow> node \<Rightarrow> u32 \<Rightarrow> u32 \<Rightarrow> 's \<Rightarrow> (u32 \<times> 's) res option" where
  "dir_length_loop d nd offset namesSize s =
     (if offset < size_low (data nd) then
        (case rbind (read_u16 d (offset + 4) s) (\<lambda>(total_size, s2).
                rbind (read_u8 d (offset + 6) s2) (\<lambda>(name_length, s3).
                  Inr ((total_size, name_length), s3))) of
           Inl e \<Rightarrow> Some (Inl e)
         | Inr r \<Rightarrow> dir_length_loop d nd (offset + ucast (fst (fst r)))
                     (namesSize + (ucast (snd (fst r)) + 1)) (snd r))
      else Some (Inr (namesSize, s)))"

definition get_length_of_dir_entries :: "'s blockio \<Rightarrow> node \<Rightarrow> 's \<Rightarrow> (u32 \<times> 's) res" where
  "get_length_of_dir_entries dev nd s =
     assertR ''is_dir()'' (is_dir (data nd)) (returned (dir_length_loop (node_dev dev nd) nd 0 0 s))"

section \<open>The mounted file system\<close>

record geometry =
  blockSize :: u32
  numberOfNodes :: u32
  numberOfBlocks :: u32
  iNodeSize :: u32
  nGroups :: u32
  iNodeTables :: "u32 list"
  iNodesPerGroup :: u32

record ext2 = geometry +
  root :: node
  current :: "node option"
  cwd :: "u8 list"

definition get_node :: "'s blockio \<Rightarrow> 'e geometry_scheme \<Rightarrow> u32 \<Rightarrow> 's \<Rightarrow> (node \<times> 's) res" where
  "get_node dev fs n s =
     assertR ''number > 0'' (0 < n)
       (assertR ''number <= numberOfNodes'' (n \<le> numberOfNodes fs)
         (let index = n - 1
          in if iNodesPerGroup fs = 0 then Inl DivideByZero
             else
               (let groupIndex = index div iNodesPerGroup fs
                in assertR ''groupIndex < nGroups'' (groupIndex < nGroups fs)
                  (let indexInGroup = index mod iNodesPerGroup fs;
                       iTableBase = iNodeTables fs ! unat groupIndex
                   in assertR ''iTableBase <= numberOfBlocks'' (iTableBase \<le> numberOfBlocks fs)
                     (let nodeOffset = iTableBase * blockSize fs + indexInGroup * iNodeSize fs
                      in rbind (read_thing dev nodeOffset sizeof_node s) (\<lambda>(b, s1).
                           Inr (\<lparr>node_bs = blockSize fs, number = n, data = decode_node b\<rparr>, s1)))))))"

text \<open>
  Mounting.  The shift of \<^verbatim>\<open>uint32_t(1)\<close> uses the low five bits of its count, as the
  processor does (C leaves a count of 32 or more undefined).  The working directory is a new
  array of 100 characters with unspecified contents, \<open>fresh\<close>, of which the first is set.
\<close>

definition mount :: "'s blockio \<Rightarrow> u8 list \<Rightarrow> 's \<Rightarrow> (ext2 \<times> 's) res" where
  "mount dev fresh s =
     rbind (read_thing dev 1024 sizeof_super s) (\<lambda>(b, s1).
       let sb = decode_super b;
           bsz = push_bit (unat ((log_block_size sb + 10) AND 31)) (1 :: u32)
       in if blocks_per_group sb = 0 then Inl DivideByZero
          else
            (let groups = (blocks_count sb + blocks_per_group sb - 1) div blocks_per_group sb
             in assertR ''nGroups * sb.blocks_per_group >= sb.blocks_count''
                  (blocks_count sb \<le> groups * blocks_per_group sb)
                (let superBlockNumber = 1024 div bsz;
                     groupTableNumber = superBlockNumber + 1;
                     groupTableSize = sizeof_group * groups
                 in rbind (read_all dev (groupTableNumber * bsz) groupTableSize s1) (\<lambda>(cnt, table, s2).
                      assertR ''cnt == groupTableSize'' (cnt = uint groupTableSize)
                        (let g = \<lparr>blockSize = bsz, numberOfNodes = inodes_count sb,
                               numberOfBlocks = blocks_count sb, iNodeSize = ucast (inode_size sb),
                               nGroups = groups,
                               iNodeTables = map (\<lambda>i. inode_table (decode_group table (32 * i))) [0..<unat groups],
                               iNodesPerGroup = inodes_per_group sb\<rparr>
                         in rbind (get_node dev g 2 s2) (\<lambda>(r, s3).
                              Inr (geometry.extend g (ext2.fields r (Some r) (fresh[0 := 47])), s3)))))))"

section \<open>Path lookup\<close>

fun skip_slashes :: "cstring \<Rightarrow> cstring" where
  "skip_slashes [] = []"
| "skip_slashes (c # cs) = (if c = 47 then skip_slashes cs else c # cs)"

fun take_part :: "nat \<Rightarrow> cstring \<Rightarrow> (cstring \<times> cstring) res" where
  "take_part i [] = Inr ([], [])"
| "take_part i (c # cs) =
     (if c = 0 \<or> c = 47 then Inr ([], c # cs)
      else assertR ''i < 256'' (i < 256)
        (rbind (take_part (i + 1) cs) (\<lambda>(part, rest). Inr (c # part, rest))))"

lemma length_skip_slashes: "length (skip_slashes p) \<le> length p"
  by (induction p) auto

lemma length_take_part: "take_part i p = Inr (part, rest) \<Longrightarrow> length rest + length part = length p"
  by (induction i p arbitrary: part rule: take_part.induct) (fastforce split: if_splits)+

function ext2_find :: "'s blockio \<Rightarrow> 'e geometry_scheme \<Rightarrow> node option \<Rightarrow> cstring \<Rightarrow> 's \<Rightarrow> (node option \<times> 's) res" where
  "ext2_find dev fs cur path s =
     (let p = skip_slashes path
      in case cur of
           None \<Rightarrow> Inr (None, s)
         | Some nd \<Rightarrow>
             if p = [] \<or> hd p = 0 then Inr (Some nd, s)
             else rbind (take_part 0 p) (\<lambda>(part, rest).
               rbind (node_find dev nd part s) (\<lambda>(n, s1).
                 if n = 0 then Inr (None, s1)
                 else rbind (get_node dev fs n s1) (\<lambda>(nd', s2). ext2_find dev fs (Some nd') rest s2))))"
  by pat_completeness auto
termination
proof (relation "measure (\<lambda>(dev, fs, cur, path, s). length path)", simp)
  fix dev :: "'s blockio" and fs :: "'e geometry_scheme" and cur and path :: cstring and s s1 s2 :: 's
    and p nd x part rest y n s1' z nd' s2'
  assume p: "p = skip_slashes path" "\<not> (p = [] \<or> hd p = 0)"
    and t: "take_part 0 p = Inr x" "(part, rest) = x"
  obtain c cs where c: "p = c # cs" using p(2) by (cases p) auto
  have "skip_slashes q \<noteq> 47 # cs" for q by (induction q) auto
  then have "c \<noteq> 47" using p(1) c by metis
  then have "0 < length part" using t p(2) c by (auto split: if_splits)
  moreover have "length rest + length part = length p" using length_take_part t by metis
  ultimately show "((dev, fs, Some nd', rest, s2), dev, fs, cur, path, s)
      \<in> measure (\<lambda>(dev, fs, cur, path, s). length path)"
    using length_skip_slashes [of path] p(1) by (simp del: length_greater_0_conv)
qed

declare ext2_find.simps [simp del]

section \<open>A node is a block device\<close>

text \<open>The fields of a word list decode as the bytes there.\<close>

lemma le32_at:
  assumes "length bs = 4"
  shows "le32 (bs @ rest) 0 = le32 bs 0"
  using assms by (simp add: le32_def nth_append)

text \<open>The block a node's block \<open>i\<close> is stored in, and the condition under which all blocks of the
  node can be read from a device of \<open>D\<close> bytes: geometry, block references and the reference
  block inside the device.\<close>

definition node_block :: "(nat \<Rightarrow> u8) \<Rightarrow> node \<Rightarrow> u32 \<Rightarrow> u32" where
  "node_block c nd i =
     (if i < 12 then direct (data nd) ! unat i
      else le32 (bytes_at c (unat (indirect_1 (data nd)) * unat (node_bs nd) + (unat i - 12) * 4) 4) 0)"

definition node_fits :: "(nat \<Rightarrow> u8) \<Rightarrow> nat \<Rightarrow> node \<Rightarrow> bool" where
  "node_fits c D nd \<longleftrightarrow>
     512 \<le> node_bs nd \<and> node_bs nd \<le> 0x40000000 \<and>
     (\<forall>i. unat i * unat (node_bs nd) < unat (size_low (data nd)) \<longrightarrow>
        i < n_sectors (data nd) div (node_bs nd div 512) \<and> i < 12 + node_bs nd div 4 \<and>
        (12 \<le> i \<longrightarrow> unat (indirect_1 (data nd)) * unat (node_bs nd) + (unat i - 12) * 4 + 4 \<le> D) \<and>
        unat (node_block c nd i) * unat (node_bs nd) + unat (node_bs nd) \<le> D)"

text \<open>The device is in a good state, with contents \<open>c\<close> and \<open>D\<close> bytes.\<close>

definition disk_is :: "'s blockio \<Rightarrow> ('s \<Rightarrow> bool) \<Rightarrow> ('s \<Rightarrow> nat \<Rightarrow> u8) \<Rightarrow> (nat \<Rightarrow> u8) \<Rightarrow> nat \<Rightarrow> 's \<Rightarrow> bool" where
  "disk_is dev W C c D s \<longleftrightarrow>
     block_device dev W C \<and> W s \<and> C s = c \<and> unat (size_in_bytes dev s) = D"

text \<open>The byte at an offset of the node.\<close>

definition node_byte :: "(nat \<Rightarrow> u8) \<Rightarrow> node \<Rightarrow> nat \<Rightarrow> u8" where
  "node_byte c nd i =
     c (unat (node_block c nd (of_nat (i div unat (node_bs nd)))) * unat (node_bs nd) + i mod unat (node_bs nd))"

lemma unat_mult_small: "unat x * unat y < 2 ^ 32 \<Longrightarrow> unat (x * y) = unat x * unat y" for x y :: u32
  by (subst unat_mult_lem [THEN iffD1]) simp_all

lemma unat_plus_small: "unat x + unat y < 2 ^ 32 \<Longrightarrow> unat (x + y) = unat x + unat y" for x y :: u32
  by (subst unat_add_lem [THEN iffD1]) simp_all

lemma unat_lt32: "unat x < 2 ^ 32" for x :: u32
  using unsigned_less [where ?'a = nat, of x] by simp

lemma disk_is_size: "disk_is dev W C c D s \<Longrightarrow> D < 2 ^ 32"
  using unat_lt32 by (auto simp: disk_is_def)

lemma disk_read_all:
  assumes "disk_is dev W C c D s" and "unat off \<le> D"
  obtains k s' where "read_all dev off n s = Inr (int k, bytes_at c (unat off) k, s')"
    "k = min (unat n) (D - unat off)" "disk_is dev W C c D s'"
proof -
  have bd: "block_device dev W C" and w: "W s" and le: "off \<le> size_in_bytes dev s"
    using assms by (auto simp: disk_is_def word_le_nat_alt)
  obtain k s' where R: "read_all dev off n s = Inr (int k, bytes_at (C s) (unat off) k, s')"
    "k = min (unat n) (unat (size_in_bytes dev s) - unat off)"
    "W s'" "size_in_bytes dev s' = size_in_bytes dev s" "C s' = C s"
    by (rule block_device.read_all_ok [OF bd w le])
  then show thesis using that assms(1) by (simp add: disk_is_def)
qed

lemma disk_read_thing:
  assumes "disk_is dev W C c D s" and "unat off + unat n \<le> D"
  obtains s' where "read_thing dev off n s = Inr (bytes_at c (unat off) (unat n), s')"
    "disk_is dev W C c D s'"
proof -
  have bd: "block_device dev W C" and w: "W s" and le: "unat off + unat n \<le> unat (size_in_bytes dev s)"
    using assms by (auto simp: disk_is_def)
  obtain s' where R: "read_thing dev off n s = Inr (bytes_at (C s) (unat off) (unat n), s')"
    "W s'" "size_in_bytes dev s' = size_in_bytes dev s" "C s' = C s"
    by (rule block_device.read_thing_ok [OF bd w le])
  then show thesis using that assms(1) by (simp add: disk_is_def)
qed

lemma node_block_read:
  assumes disk: "disk_is dev W C c D s" and fits: "node_fits c D nd"
    and i: "unat index * unat (node_bs nd) < unat (size_low (data nd))"
  obtains s' where
    "(if index < 12 then Inr (direct (data nd) ! unat index, s)
       else if index < 12 + node_bs nd div 4 then
         rbind (read_thing dev (indirect_1 (data nd) * node_bs nd + (index - 12) * 4) 4 s)
           (\<lambda>(b, s1). Inr (le32 b 0, s1))
       else Inl (Panic ''index'')) = Inr (node_block c nd index, s')"
    "disk_is dev W C c D s'"
proof (cases "index < 12")
  case True
  then show thesis using that [of s] disk by (simp add: node_block_def)
next
  case False
  let ?off = "indirect_1 (data nd) * node_bs nd + (index - 12) * 4"
  have lt: "index < 12 + node_bs nd div 4"
    and sz: "unat (indirect_1 (data nd)) * unat (node_bs nd) + (unat index - 12) * 4 + 4 \<le> D"
    using fits i False by (auto simp: node_fits_def not_less)
  note D = disk_is_size [OF disk]
  have u12: "unat (index - 12) = unat index - 12" using False by (simp add: unat_sub not_less word_le_nat_alt)
  have m1: "unat (indirect_1 (data nd) * node_bs nd) = unat (indirect_1 (data nd)) * unat (node_bs nd)"
    using sz D by (intro unat_mult_small) linarith
  have m2: "unat ((index - 12) * 4) = (unat index - 12) * 4"
    using sz D u12 unat_mult_small [of "index - 12" 4] by simp
  have off: "unat ?off = unat (indirect_1 (data nd)) * unat (node_bs nd) + (unat index - 12) * 4"
    using sz D m1 m2 unat_plus_small [of "indirect_1 (data nd) * node_bs nd" "(index - 12) * 4"] by simp
  then have "unat ?off + unat (4 :: u32) \<le> D" using sz by simp
  then obtain s' where R: "read_thing dev ?off 4 s = Inr (bytes_at c (unat ?off) (unat (4 :: u32)), s')"
    "disk_is dev W C c D s'"
    by (rule disk_read_thing [OF disk])
  show thesis
    using R(1) False lt by (intro that [OF _ R(2)]) (simp only: node_block_def off if_False if_True, simp)
qed

lemma node_read_block_ok:
  assumes disk: "disk_is dev W C c D s" and fits: "node_fits c D nd"
    and i: "unat index * unat (node_bs nd) < unat (size_low (data nd))"
  obtains blk s' where "node_read_block dev nd index s = Inr (blk, s')" "disk_is dev W C c D s'"
    "blk = bytes_at c (unat (node_block c nd index) * unat (node_bs nd)) (unat (node_bs nd))"
proof -
  let ?b = "node_block c nd index"
  obtain s1 where R1:
    "(if index < 12 then Inr (direct (data nd) ! unat index, s)
       else if index < 12 + node_bs nd div 4 then
         rbind (read_thing dev (indirect_1 (data nd) * node_bs nd + (index - 12) * 4) 4 s)
           (\<lambda>(b, s1). Inr (le32 b 0, s1))
       else Inl (Panic ''index'')) = Inr (?b, s1)" "disk_is dev W C c D s1"
    by (rule node_block_read [OF disk fits i])
  have bs: "512 \<le> node_bs nd"
    and sect: "index < n_sectors (data nd) div (node_bs nd div 512)"
    and sz: "unat ?b * unat (node_bs nd) + unat (node_bs nd) \<le> D"
    using fits i by (auto simp: node_fits_def)
  have div0: "node_bs nd div 512 \<noteq> 0"
  proof
    assume "node_bs nd div 512 = 0"
    then have "unat (node_bs nd div 512) = 0" by simp
    then have "unat (node_bs nd) div 512 = 0" by (simp only: unat_div) simp
    then show False using bs by (simp add: word_le_nat_alt)
  qed
  have m: "unat (?b * node_bs nd) = unat ?b * unat (node_bs nd)"
    using sz disk_is_size [OF disk] by (intro unat_mult_small) linarith
  have "unat (?b * node_bs nd) \<le> D" using sz m by simp
  then obtain k s2 where R2: "read_all dev (?b * node_bs nd) (node_bs nd) s1 =
      Inr (int k, bytes_at c (unat (?b * node_bs nd)) k, s2)"
    "k = min (unat (node_bs nd)) (D - unat (?b * node_bs nd))" "disk_is dev W C c D s2"
    by (rule disk_read_all [OF R1(2)])
  have k: "k = unat (node_bs nd)" using R2(2) sz m by simp
  have "node_read_block dev nd index s =
      Inr (bytes_at c (unat ?b * unat (node_bs nd)) (unat (node_bs nd)), s2)"
    unfolding node_read_block_def Let_def
    using R1(1) div0 sect R2(1) k m by simp
  then show thesis using that R2(3) by simp
qed

interpretation nd: block_device "node_dev dev nd" "\<lambda>s. disk_is dev W C c D s \<and> node_fits c D nd"
    "\<lambda>s. node_byte c nd"
  for dev W C c D nd
proof
  fix s and b :: u32
  assume ok: "disk_is dev W C c D s \<and> node_fits c D nd"
  show "0 < block_size (node_dev dev nd)" "block_size (node_dev dev nd) \<le> 0x40000000"
    using ok by (auto simp: node_dev_def node_fits_def intro: less_le_trans [of _ 512])
  have bs: "0 < unat (node_bs nd)"
    using ok by (auto simp: node_fits_def word_le_nat_alt)
  assume "unat b * unat (block_size (node_dev dev nd)) < unat (size_in_bytes (node_dev dev nd) s)"
  then have b: "unat b * unat (node_bs nd) < unat (size_low (data nd))"
    by (simp add: node_dev_def node_size_in_bytes_def)
  obtain blk s' where R: "node_read_block dev nd b s = Inr (blk, s')" "disk_is dev W C c D s'"
    "blk = bytes_at c (unat (node_block c nd b) * unat (node_bs nd)) (unat (node_bs nd))"
    by (rule node_read_block_ok [OF conjunct1 [OF ok] conjunct2 [OF ok] b])
  have "blk ! i = node_byte c nd (unat b * unat (node_bs nd) + i)" if "i < unat (node_bs nd)" for i
    using that bs unfolding R(3) by (simp add: node_byte_def)
  then show "\<exists>blk s'. read_block (node_dev dev nd) b s = Inr (blk, s') \<and>
     (disk_is dev W C c D s' \<and> node_fits c D nd) \<and>
     size_in_bytes (node_dev dev nd) s' = size_in_bytes (node_dev dev nd) s \<and>
     node_byte c nd = node_byte c nd \<and> length blk = unat (block_size (node_dev dev nd)) \<and>
     (\<forall>i<unat (block_size (node_dev dev nd)). unat b * unat (block_size (node_dev dev nd)) + i
        < unat (size_in_bytes (node_dev dev nd) s) \<longrightarrow>
        blk ! i = node_byte c nd (unat b * unat (block_size (node_dev dev nd)) + i))"
    using R ok by - (rule exI [of _ blk], rule exI [of _ s'], simp add: node_dev_def node_size_in_bytes_def)
qed

text \<open>Reading a node, in the terms of the node.\<close>

lemma node_read_all:
  assumes "disk_is dev W C c D s" and "node_fits c D nd" and "unat off \<le> unat (size_low (data nd))"
  obtains k s' where "read_all (node_dev dev nd) off n s = Inr (int k, bytes_at (node_byte c nd) (unat off) k, s')"
    "k = min (unat n) (unat (size_low (data nd)) - unat off)" "disk_is dev W C c D s'"
proof -
  have ok: "disk_is dev W C c D s \<and> node_fits c D nd" using assms by simp
  have le: "off \<le> size_in_bytes (node_dev dev nd) s"
    using assms(3) by (simp add: node_dev_def node_size_in_bytes_def word_le_nat_alt)
  obtain k s' where "read_all (node_dev dev nd) off n s = Inr (int k, bytes_at (node_byte c nd) (unat off) k, s')"
    "k = min (unat n) (unat (size_in_bytes (node_dev dev nd) s) - unat off)"
    "disk_is dev W C c D s' \<and> node_fits c D nd"
    by (rule nd.read_all_ok [OF ok le])
  then show thesis using that by (simp add: node_dev_def node_size_in_bytes_def)
qed

lemma node_read_thing:
  assumes "disk_is dev W C c D s" and "node_fits c D nd" and "unat off + unat n \<le> unat (size_low (data nd))"
  obtains s' where "read_thing (node_dev dev nd) off n s = Inr (bytes_at (node_byte c nd) (unat off) (unat n), s')"
    "disk_is dev W C c D s'"
proof -
  have ok: "disk_is dev W C c D s \<and> node_fits c D nd" using assms by simp
  have le: "unat off + unat n \<le> unat (size_in_bytes (node_dev dev nd) s)"
    using assms(3) by (simp add: node_dev_def node_size_in_bytes_def)
  obtain s' where "read_thing (node_dev dev nd) off n s = Inr (bytes_at (node_byte c nd) (unat off) (unat n), s')"
    "disk_is dev W C c D s' \<and> node_fits c D nd"
    by (rule nd.read_thing_ok [OF ok le])
  then show thesis using that by simp
qed

section \<open>Directories\<close>

text \<open>
  A directory's bytes hold a list of entries from an offset on: each gives an inode number, the
  distance to the next entry and a name, and the last one reaches the end of the directory.
\<close>

type_synonym dirent = "u32 \<times> u16 \<times> cstring"

definition entry_at :: "(nat \<Rightarrow> u8) \<Rightarrow> nat \<Rightarrow> nat \<Rightarrow> dirent \<Rightarrow> bool" where
  "entry_at c sz off e \<longleftrightarrow>
     (case e of (ino, total_size, name) \<Rightarrow>
        off + 8 + length name \<le> sz \<and> length name < 256 \<and>
        le32 (bytes_at c off 4) 0 = ino \<and> le16 (bytes_at c (off + 4) 2) 0 = total_size \<and>
        c (off + 6) = of_nat (length name) \<and> bytes_at c (off + 8) (length name) = name)"

fun dir_at :: "(nat \<Rightarrow> u8) \<Rightarrow> nat \<Rightarrow> nat \<Rightarrow> dirent list \<Rightarrow> bool" where
  "dir_at c sz off [] \<longleftrightarrow> sz \<le> off"
| "dir_at c sz off (e # es) \<longleftrightarrow>
     off < sz \<and> entry_at c sz off e \<and> off + unat (fst (snd e)) < 2 ^ 32 \<and>
     dir_at c sz (off + unat (fst (snd e))) es"

definition dir_ok :: "(nat \<Rightarrow> u8) \<Rightarrow> nat \<Rightarrow> node \<Rightarrow> dirent list \<Rightarrow> bool" where
  "dir_ok c D nd es \<longleftrightarrow>
     is_dir (data nd) \<and> node_fits c D nd \<and> dir_at (node_byte c nd) (unat (size_low (data nd))) 0 es"

lemma read_u32_ok:
  assumes "disk_is dev W C c D s" "node_fits c D nd" "unat off + 4 \<le> unat (size_low (data nd))"
  obtains s' where "read_u32 (node_dev dev nd) off s = Inr (le32 (bytes_at (node_byte c nd) (unat off) 4) 0, s')"
    "disk_is dev W C c D s'"
proof -
  have "unat off + unat (4 :: u32) \<le> unat (size_low (data nd))" using assms(3) by simp
  then obtain s' where "read_thing (node_dev dev nd) off 4 s =
      Inr (bytes_at (node_byte c nd) (unat off) (unat (4 :: u32)), s')" "disk_is dev W C c D s'"
    by (rule node_read_thing [OF assms(1,2)])
  then show thesis using that by (simp add: read_u32_def)
qed

lemma read_u16_ok:
  assumes "disk_is dev W C c D s" "node_fits c D nd" "unat off + 2 \<le> unat (size_low (data nd))"
  obtains s' where "read_u16 (node_dev dev nd) off s = Inr (le16 (bytes_at (node_byte c nd) (unat off) 2) 0, s')"
    "disk_is dev W C c D s'"
proof -
  have "unat off + unat (2 :: u32) \<le> unat (size_low (data nd))" using assms(3) by simp
  then obtain s' where "read_thing (node_dev dev nd) off 2 s =
      Inr (bytes_at (node_byte c nd) (unat off) (unat (2 :: u32)), s')" "disk_is dev W C c D s'"
    by (rule node_read_thing [OF assms(1,2)])
  then show thesis using that by (simp add: read_u16_def)
qed

lemma read_u8_ok:
  assumes "disk_is dev W C c D s" "node_fits c D nd" "unat off + 1 \<le> unat (size_low (data nd))"
  obtains s' where "read_u8 (node_dev dev nd) off s = Inr (node_byte c nd (unat off), s')"
    "disk_is dev W C c D s'"
proof -
  have "unat off + unat (1 :: u32) \<le> unat (size_low (data nd))" using assms(3) by simp
  then obtain s' where "read_thing (node_dev dev nd) off 1 s =
      Inr (bytes_at (node_byte c nd) (unat off) (unat (1 :: u32)), s')" "disk_is dev W C c D s'"
    by (rule node_read_thing [OF assms(1,2)])
  then show thesis using that by (simp add: read_u8_def)
qed

lemma read_name_ok:
  assumes "disk_is dev W C c D s" "node_fits c D nd" "unat off + unat n \<le> unat (size_low (data nd))"
  obtains s' where "read_name (node_dev dev nd) off n s = Inr (bytes_at (node_byte c nd) (unat off) (unat n), s')"
    "disk_is dev W C c D s'"
proof -
  have u: "unat (ucast n :: u32) = unat n"
    using unsigned_less [where ?'a = nat, of n] by (simp add: unsigned_ucast_eq take_bit_nat_eq_self)
  have "unat off \<le> unat (size_low (data nd))" using assms(3) by simp
  then obtain k s' where R: "read_all (node_dev dev nd) off (ucast n) s =
      Inr (int k, bytes_at (node_byte c nd) (unat off) k, s')"
    "k = min (unat (ucast n :: u32)) (unat (size_low (data nd)) - unat off)" "disk_is dev W C c D s'"
    by (rule node_read_all [OF assms(1,2)])
  have "k = unat n" using R(2) u assms(3) by simp
  then show thesis using that R by (simp add: read_name_def)
qed

lemma offset_plus:
  fixes off k :: u32
  assumes "unat off + unat k \<le> unat (z :: u32)"
  shows "unat (off + k) = unat off + unat k"
  using assms unat_lt32 [of z] by (intro unat_plus_small) linarith

text \<open>What a round of the directory loops reads of an entry.\<close>

lemma entry_fields_ok:
  assumes fits: "node_fits c D nd"
    and e: "entry_at (node_byte c nd) (unat (size_low (data nd))) (unat off) (ino, total_size, name)"
    and disk: "disk_is dev W C c D s"
  shows "\<exists>s1. read_u32 (node_dev dev nd) off s = Inr (ino, s1) \<and> disk_is dev W C c D s1"
    "\<exists>s1. read_u16 (node_dev dev nd) (off + 4) s = Inr (total_size, s1) \<and> disk_is dev W C c D s1"
    "\<exists>s1. read_u8 (node_dev dev nd) (off + 6) s = Inr (of_nat (length name), s1) \<and> disk_is dev W C c D s1"
    "\<exists>s1. read_name (node_dev dev nd) (off + 8) (of_nat (length name)) s = Inr (name, s1) \<and>
       disk_is dev W C c D s1"
proof -
  let ?z = "unat (size_low (data nd))" and ?c = "node_byte c nd"
  have f: "unat off + 8 + length name \<le> ?z" "length name < 256" "le32 (bytes_at ?c (unat off) 4) 0 = ino"
    "le16 (bytes_at ?c (unat off + 4) 2) 0 = total_size" "?c (unat off + 6) = of_nat (length name)"
    "bytes_at ?c (unat off + 8) (length name) = name"
    using e by (auto simp: entry_at_def)
  have o4: "unat (off + 4) = unat off + 4" using f(1) offset_plus [of off 4 "size_low (data nd)"] by simp
  have o6: "unat (off + 6) = unat off + 6" using f(1) offset_plus [of off 6 "size_low (data nd)"] by simp
  have o8: "unat (off + 8) = unat off + 8" using f(1) offset_plus [of off 8 "size_low (data nd)"] by simp
  have n: "unat (of_nat (length name) :: u8) = length name"
    using f(2) by (simp add: unsigned_of_nat take_bit_nat_eq_self)
  show "\<exists>s1. read_u32 (node_dev dev nd) off s = Inr (ino, s1) \<and> disk_is dev W C c D s1"
    by (rule read_u32_ok [OF disk fits, of off]) (use f in auto)
  show "\<exists>s1. read_u16 (node_dev dev nd) (off + 4) s = Inr (total_size, s1) \<and> disk_is dev W C c D s1"
    by (rule read_u16_ok [OF disk fits, of "off + 4"]) (use f o4 in auto)
  show "\<exists>s1. read_u8 (node_dev dev nd) (off + 6) s = Inr (of_nat (length name), s1) \<and> disk_is dev W C c D s1"
    by (rule read_u8_ok [OF disk fits, of "off + 6"]) (use f o6 in auto)
  show "\<exists>s1. read_name (node_dev dev nd) (off + 8) (of_nat (length name)) s = Inr (name, s1) \<and>
       disk_is dev W C c D s1"
    by (rule read_name_ok [OF disk fits, of "off + 8" "of_nat (length name)"]) (use f o8 n in auto)
qed

lemma read_entry_ok:
  assumes fits: "node_fits c D nd"
    and e: "entry_at (node_byte c nd) (unat (size_low (data nd))) (unat off) (ino, total_size, name)"
    and disk: "disk_is dev W C c D s"
  obtains s' where "read_entry (node_dev dev nd) off s = Inr ((ino, total_size, name), s')" "disk_is dev W C c D s'"
proof -
  note F = entry_fields_ok [OF fits e]
  obtain s1 where 1: "read_u32 (node_dev dev nd) off s = Inr (ino, s1)" "disk_is dev W C c D s1"
    using F(1) [OF disk] by blast
  obtain s2 where 2: "read_u16 (node_dev dev nd) (off + 4) s1 = Inr (total_size, s2)" "disk_is dev W C c D s2"
    using F(2) [OF 1(2)] by blast
  obtain s3 where 3: "read_u8 (node_dev dev nd) (off + 6) s2 = Inr (of_nat (length name), s3)" "disk_is dev W C c D s3"
    using F(3) [OF 2(2)] by blast
  obtain s4 where 4: "read_name (node_dev dev nd) (off + 8) (of_nat (length name)) s3 = Inr (name, s4)"
    "disk_is dev W C c D s4"
    using F(4) [OF 3(2)] by blast
  show thesis using that [OF _ 4(2)] 1(1) 2(1) 3(1) 4(1) by (simp add: read_entry_def)
qed

lemma unat_ucast_16 [simp]: "unat (ucast x :: u32) = unat x" for x :: u16
  using unsigned_less [where ?'a = nat, of x] by (simp add: unsigned_ucast_eq take_bit_nat_eq_self)

text \<open>The loop visits the entries in order and ends.\<close>

lemma entries_loop_ok:
  assumes fits: "node_fits c D nd"
  shows "disk_is dev W C c D s \<Longrightarrow> dir_at (node_byte c nd) (unat (size_low (data nd))) (unat off) es \<Longrightarrow>
    \<exists>s'. entries_loop (node_dev dev nd) nd work off acc s =
        Some (Inr (fold (\<lambda>(ino, total_size, name). work ino name) es acc, s')) \<and> disk_is dev W C c D s'"
proof (induction es arbitrary: off acc s)
  case Nil
  then have "\<not> off < size_low (data nd)" by (simp add: word_less_nat_alt)
  then show ?case using Nil(1) by (subst entries_loop.simps) simp
next
  case (Cons e es)
  obtain ino total_size name where e: "e = (ino, total_size, name)" by (cases e)
  have lt: "off < size_low (data nd)" using Cons.prems(2) by (simp add: word_less_nat_alt)
  have "entry_at (node_byte c nd) (unat (size_low (data nd))) (unat off) (ino, total_size, name)"
    using Cons.prems(2) e by simp
  from read_entry_ok [OF fits this Cons.prems(1)] obtain s1 where
    R: "read_entry (node_dev dev nd) off s = Inr ((ino, total_size, name), s1)" "disk_is dev W C c D s1" .
  have "unat (off + ucast total_size) = unat off + unat total_size"
    using Cons.prems(2) e by (subst unat_plus_small) simp_all
  then have "dir_at (node_byte c nd) (unat (size_low (data nd))) (unat (off + ucast total_size)) es"
    using Cons.prems(2) e by simp
  from Cons.IH [OF R(2) this, of "work ino name acc"]
  show ?case using lt R(1) e by (subst entries_loop.simps) simp
qed

lemma entries_ok:
  assumes "disk_is dev W C c D s" and "dir_ok c D nd es"
  obtains s' where "entries dev nd work acc s = Inr (fold (\<lambda>(ino, total_size, name). work ino name) es acc, s')"
    "disk_is dev W C c D s'"
proof -
  have fits: "node_fits c D nd" and dir: "is_dir (data nd)"
    and at: "dir_at (node_byte c nd) (unat (size_low (data nd))) (unat (0 :: u32)) es"
    using assms(2) by (simp_all add: dir_ok_def)
  from entries_loop_ok [OF fits assms(1) at, of work acc] show thesis
    by (elim exE conjE) (rule that, simp_all add: entries_def dir)
qed

text \<open>Looking a name up: the last entry with that name wins, and 0 is the answer for a name that
  is not there.\<close>

definition lookup :: "dirent list \<Rightarrow> cstring \<Rightarrow> u32" where
  "lookup es name =
     (case map_of (rev (map (\<lambda>(ino, total_size, nm). (cstr nm, ino)) es)) (cstr name) of
        None \<Rightarrow> 0 | Some ino \<Rightarrow> ino)"

lemma fold_lookup:
  "fold (\<lambda>(ino, total_size, nm) out. if streq name nm then ino else out) es out =
     (case map_of (rev (map (\<lambda>(ino, total_size, nm). (cstr nm, ino)) es)) (cstr name) of
        None \<Rightarrow> out | Some ino \<Rightarrow> ino)"
  by (induction es arbitrary: out) (auto simp: streq_iff map_add_def split: option.splits)

lemma node_find_ok:
  assumes "disk_is dev W C c D s" and "dir_ok c D nd es"
  obtains s' where "node_find dev nd name s = Inr (lookup es name, s')" "disk_is dev W C c D s'"
proof -
  obtain s' where "entries dev nd (\<lambda>number nm out. if streq name nm then number else out) 0 s =
      Inr (fold (\<lambda>(ino, total_size, nm). (\<lambda>out. if streq name nm then ino else out)) es 0, s')"
    "disk_is dev W C c D s'"
    by (rule entries_ok [OF assms])
  then show thesis using that fold_lookup [of name es 0] by (simp add: node_find_def lookup_def)
qed

text \<open>An entry of size 0 is never left: the loop reads it again and again.\<close>

lemma entries_loop_stuck:
  assumes fits: "node_fits c D nd"
    and off: "unat off < unat (size_low (data nd))"
    and e: "entry_at (node_byte c nd) (unat (size_low (data nd))) (unat off) (ino, 0, name)"
    and disk: "disk_is dev W C c D s"
  shows "entries_loop (node_dev dev nd) nd work off acc s = None"
proof -
  let ?P = "\<lambda>d nd' (work' :: u32 \<Rightarrow> cstring \<Rightarrow> 'b \<Rightarrow> 'b) off' (acc' :: 'b) s' (r :: ('b \<times> 'a) res).
    \<not> (d = node_dev dev nd \<and> nd' = nd \<and> off' = off \<and> disk_is dev W C c D s')"
  have "?P d nd' work' off' acc' s' r" if "entries_loop d nd' work' off' acc' s' = Some r" for d nd' work' off' acc' s' r
  proof (rule entries_loop.raw_induct [where P = ?P, OF _ that])
    fix loop d nd' s' and work' :: "u32 \<Rightarrow> cstring \<Rightarrow> 'b \<Rightarrow> 'b" and off' and acc' :: 'b and r :: "('b \<times> 'a) res"
    assume IH: "\<And>d nd' work' off' acc' s' r. loop d nd' work' off' acc' s' = Some r \<Longrightarrow> ?P d nd' work' off' acc' s' r"
      and body: "(if off' < size_low (data nd') then
        (case read_entry d off' s' of
           Inl e \<Rightarrow> Some (Inl e)
         | Inr r \<Rightarrow>
             loop d nd' work' (off' + ucast (fst (snd (fst r))))
               (work' (fst (fst r)) (snd (snd (fst r))) acc') (snd r))
      else Some (Inr (acc', s'))) = Some r"
    show "?P d nd' work' off' acc' s' r"
    proof
      assume a: "d = node_dev dev nd \<and> nd' = nd \<and> off' = off \<and> disk_is dev W C c D s'"
      then obtain s1 where s1: "read_entry (node_dev dev nd) off s' = Inr ((ino, 0, name), s1)"
        "disk_is dev W C c D s1"
        using read_entry_ok [OF fits e] by metis
      have "loop (node_dev dev nd) nd work' off (work' ino name acc') s1 = Some r"
        using body a off s1(1) by (simp add: word_less_nat_alt)
      from IH [OF this] show False using s1(2) by simp
    qed
  qed
  from this [of "node_dev dev nd" nd work off acc s] disk show ?thesis
    by (cases "entries_loop (node_dev dev nd) nd work off acc s") auto
qed

text \<open>The text of a directory: its names with a space after each.\<close>

definition dir_text :: "dirent list \<Rightarrow> u8 list" where
  "dir_text es = concat (map (\<lambda>(ino, total_size, name). name @ [32]) es)"

lemma dir_entries_loop_ok:
  assumes fits: "node_fits c D nd"
  shows "disk_is dev W C c D s \<Longrightarrow> dir_at (node_byte c nd) (unat (size_low (data nd))) (unat off) es \<Longrightarrow>
    \<exists>s'. dir_entries_loop (node_dev dev nd) nd off buf s = Some (Inr (buf @ dir_text es, s')) \<and>
      disk_is dev W C c D s'"
proof (induction es arbitrary: off buf s)
  case Nil
  then have "\<not> off < size_low (data nd)" by (simp add: word_less_nat_alt)
  then show ?case using Nil(1) by (subst dir_entries_loop.simps) (simp add: dir_text_def)
next
  case (Cons e es)
  obtain ino total_size name where e: "e = (ino, total_size, name)" by (cases e)
  have lt: "off < size_low (data nd)" using Cons.prems(2) by (simp add: word_less_nat_alt)
  have "entry_at (node_byte c nd) (unat (size_low (data nd))) (unat off) (ino, total_size, name)"
    using Cons.prems(2) e by simp
  note F = entry_fields_ok [OF fits this]
  obtain s2 where 2: "read_u16 (node_dev dev nd) (off + 4) s = Inr (total_size, s2)" "disk_is dev W C c D s2"
    using F(2) [OF Cons.prems(1)] by blast
  obtain s3 where 3: "read_u8 (node_dev dev nd) (off + 6) s2 = Inr (of_nat (length name), s3)" "disk_is dev W C c D s3"
    using F(3) [OF 2(2)] by blast
  obtain s4 where 4: "read_name (node_dev dev nd) (off + 8) (of_nat (length name)) s3 = Inr (name, s4)"
    "disk_is dev W C c D s4"
    using F(4) [OF 3(2)] by blast
  have "unat (off + ucast total_size) = unat off + unat total_size"
    using Cons.prems(2) e by (subst unat_plus_small) simp_all
  then have "dir_at (node_byte c nd) (unat (size_low (data nd))) (unat (off + ucast total_size)) es"
    using Cons.prems(2) e by simp
  from Cons.IH [OF 4(2) this, of "buf @ name @ [32]"]
  show ?case using lt 2(1) 3(1) 4(1) e by (subst dir_entries_loop.simps) (simp add: dir_text_def)
qed

lemma dir_length_loop_ok:
  assumes fits: "node_fits c D nd"
  shows "disk_is dev W C c D s \<Longrightarrow> dir_at (node_byte c nd) (unat (size_low (data nd))) (unat off) es \<Longrightarrow>
    \<exists>s'. dir_length_loop (node_dev dev nd) nd off n s = Some (Inr (n + of_nat (length (dir_text es)), s')) \<and>
      disk_is dev W C c D s'"
proof (induction es arbitrary: off n s)
  case Nil
  then have "\<not> off < size_low (data nd)" by (simp add: word_less_nat_alt)
  then show ?case using Nil(1) by (subst dir_length_loop.simps) (simp add: dir_text_def)
next
  case (Cons e es)
  obtain ino total_size name where e: "e = (ino, total_size, name)" by (cases e)
  have lt: "off < size_low (data nd)" using Cons.prems(2) by (simp add: word_less_nat_alt)
  have at: "entry_at (node_byte c nd) (unat (size_low (data nd))) (unat off) (ino, total_size, name)"
    using Cons.prems(2) e by simp
  note F = entry_fields_ok [OF fits at]
  obtain s2 where 2: "read_u16 (node_dev dev nd) (off + 4) s = Inr (total_size, s2)" "disk_is dev W C c D s2"
    using F(2) [OF Cons.prems(1)] by blast
  obtain s3 where 3: "read_u8 (node_dev dev nd) (off + 6) s2 = Inr (of_nat (length name), s3)" "disk_is dev W C c D s3"
    using F(3) [OF 2(2)] by blast
  have "unat (off + ucast total_size) = unat off + unat total_size"
    using Cons.prems(2) e by (subst unat_plus_small) simp_all
  then have "dir_at (node_byte c nd) (unat (size_low (data nd))) (unat (off + ucast total_size)) es"
    using Cons.prems(2) e by simp
  note IH = Cons.IH [OF 3(2) this]
  have "length name < 256" using at by (simp add: entry_at_def)
  then have "(ucast (of_nat (length name) :: u8) :: u32) = of_nat (length name)"
    by (simp add: word_unat_eq_iff unsigned_ucast_eq unsigned_of_nat take_bit_nat_eq_self)
  then show ?case using lt 2(1) 3(1) IH [of "n + (of_nat (length name) + 1)"] e
    by (subst dir_length_loop.simps) (simp add: dir_text_def algebra_simps)
qed

section \<open>Inodes by number\<close>

definition inode_slot :: "'e geometry_scheme \<Rightarrow> u32 \<Rightarrow> nat" where
  "inode_slot g n =
     unat (iNodeTables g ! ((unat n - 1) div unat (iNodesPerGroup g))) * unat (blockSize g) +
     (unat n - 1) mod unat (iNodesPerGroup g) * unat (iNodeSize g)"

definition slot_ok :: "nat \<Rightarrow> 'e geometry_scheme \<Rightarrow> u32 \<Rightarrow> bool" where
  "slot_ok D g n \<longleftrightarrow>
     0 < n \<and> n \<le> numberOfNodes g \<and> 0 < iNodesPerGroup g \<and>
     (unat n - 1) div unat (iNodesPerGroup g) < unat (nGroups g) \<and>
     iNodeTables g ! ((unat n - 1) div unat (iNodesPerGroup g)) \<le> numberOfBlocks g \<and>
     inode_slot g n + 128 \<le> D"

definition the_node :: "(nat \<Rightarrow> u8) \<Rightarrow> 'e geometry_scheme \<Rightarrow> u32 \<Rightarrow> node" where
  "the_node c g n =
     \<lparr>node_bs = blockSize g, number = n, data = decode_node (bytes_at c (inode_slot g n) 128)\<rparr>"

lemma get_node_ok:
  assumes disk: "disk_is dev W C c D s" and n: "slot_ok D g n"
  obtains s' where "get_node dev g n s = Inr (the_node c g n, s')" "disk_is dev W C c D s'"
proof -
  let ?ipg = "iNodesPerGroup g" and ?t = "iNodeTables g ! unat ((n - 1) div iNodesPerGroup g)"
  let ?off = "?t * blockSize g + ((n - 1) mod ?ipg) * iNodeSize g"
  have n0: "0 < n" "n \<le> numberOfNodes g" "0 < ?ipg" using n by (simp_all add: slot_ok_def)
  have "1 \<le> n" using n0(1) by (simp add: word_le_nat_alt word_less_nat_alt)
  then have n1: "unat (n - 1) = unat n - 1" by (simp add: unat_sub)
  have d: "unat ((n - 1) div ?ipg) = (unat n - 1) div unat ?ipg" by (simp add: unat_div n1)
  have m: "unat ((n - 1) mod ?ipg) = (unat n - 1) mod unat ?ipg" by (simp add: unat_mod n1)
  have s: "unat ?t * unat (blockSize g) + unat ((n - 1) mod ?ipg) * unat (iNodeSize g) + 128 \<le> D"
    using n by (simp add: slot_ok_def inode_slot_def d m)
  note lt = disk_is_size [OF disk]
  have "unat (?t * blockSize g) = unat ?t * unat (blockSize g)"
    using s lt by (intro unat_mult_small) linarith
  moreover have "unat (((n - 1) mod ?ipg) * iNodeSize g) = unat ((n - 1) mod ?ipg) * unat (iNodeSize g)"
    using s lt by (intro unat_mult_small) linarith
  ultimately have off: "unat ?off = inode_slot g n"
    using s lt unat_plus_small [of "?t * blockSize g" "((n - 1) mod ?ipg) * iNodeSize g"]
    by (simp add: inode_slot_def d m)
  have sz: "unat sizeof_node = 128" by (simp add: sizeof_node_def)
  have "unat ?off + unat sizeof_node \<le> D" using n unfolding off sz by (simp add: slot_ok_def)
  then obtain s' where R: "read_thing dev ?off sizeof_node s = Inr (bytes_at c (unat ?off) (unat sizeof_node), s')"
    "disk_is dev W C c D s'"
    by (rule disk_read_thing [OF disk])
  have g: "(n - 1) div ?ipg < nGroups g" "?t \<le> numberOfBlocks g"
    using n d by (simp_all add: slot_ok_def word_less_nat_alt)
  have "get_node dev g n s = Inr (the_node c g n, s')"
    unfolding get_node_def Let_def using n0 g R(1) unfolding off sz
    by (simp add: the_node_def)
  then show thesis using that R(2) by blast
qed

section \<open>Paths\<close>

text \<open>The parts of a path: what is between its slashes, up to the terminator.\<close>

fun splits :: "cstring \<Rightarrow> cstring list" where
  "splits [] = [[]]"
| "splits (c # cs) =
     (if c = 47 then [] # splits cs else (c # hd (splits cs)) # tl (splits cs))"

definition path_parts :: "cstring \<Rightarrow> cstring list" where
  "path_parts path = filter (\<lambda>p. p \<noteq> []) (splits (cstr path))"

lemma splits_not_Nil [simp]: "splits p \<noteq> []"
  by (cases p) auto

lemma path_parts_skip: "path_parts (skip_slashes p) = path_parts p"
  by (induction p) (auto simp: path_parts_def)

lemma path_parts_Nil: "p = [] \<or> hd p = 0 \<Longrightarrow> path_parts p = []"
  by (cases p) (auto simp: path_parts_def)

abbreviation part_char :: "u8 \<Rightarrow> bool" where
  "part_char c \<equiv> c \<noteq> 0 \<and> c \<noteq> 47"

lemma take_part_eq:
  "i \<le> 256 \<Longrightarrow> take_part i p =
     (if length (takeWhile part_char p) + i \<le> 256 then Inr (takeWhile part_char p, dropWhile part_char p)
      else Inl (AssertFailed ''i < 256''))"
  by (induction p arbitrary: i) (auto simp: assertR_def not_less)

lemma splits_part:
  "splits (cstr p) = takeWhile part_char p #
     (case dropWhile part_char p of [] \<Rightarrow> [] | c # cs \<Rightarrow> if c = 0 then [] else splits (cstr cs))"
  by (induction p) (auto split: list.splits)

lemma path_parts_Cons:
  assumes "p \<noteq> []" "part_char (hd p)"
  shows "path_parts p = takeWhile part_char p # path_parts (dropWhile part_char p)"
proof -
  have part: "takeWhile part_char p \<noteq> []" using assms by (cases p) auto
  have sep: "c = 47" if "dropWhile part_char p = c # cs" "c \<noteq> 0" for c cs
  proof -
    have "\<not> part_char c" using that(1) unfolding dropWhile_eq_Cons_conv by blast
    then show ?thesis using that(2) by blast
  qed
  have split: "path_parts p = filter (\<lambda>q. q \<noteq> []) (takeWhile part_char p #
      (case dropWhile part_char p of [] \<Rightarrow> [] | c # cs \<Rightarrow> if c = 0 then [] else splits (cstr cs)))"
    unfolding path_parts_def by (subst splits_part) (rule refl)
  show ?thesis
  proof (cases "dropWhile part_char p")
    case Nil
    have "path_parts p = [takeWhile part_char p]" using split part unfolding Nil by simp
    then show ?thesis unfolding Nil by (simp add: path_parts_def)
  next
    case (Cons c cs)
    have "path_parts p = filter (\<lambda>q. q \<noteq> []) (takeWhile part_char p # (if c = 0 then [] else splits (cstr cs)))"
      using split unfolding Cons by simp
    then have "path_parts p = takeWhile part_char p # path_parts (c # cs)"
      using part sep [OF Cons] by (cases "c = 0") (simp_all add: path_parts_def)
    then show ?thesis unfolding Cons .
  qed
qed

text \<open>
  A directory tree: the entries of the directories by inode number, each entry leading to an
  inode in bounds, and every inode that is a directory being one of the tree.
\<close>

definition in_tree :: "(nat \<Rightarrow> u8) \<Rightarrow> nat \<Rightarrow> 'e geometry_scheme \<Rightarrow> (u32 \<rightharpoonup> dirent list) \<Rightarrow> u32 \<Rightarrow> bool" where
  "in_tree c D g T n \<longleftrightarrow> slot_ok D g n \<and> (T n = None \<longrightarrow> \<not> is_dir (data (the_node c g n)))"

definition tree_ok :: "(nat \<Rightarrow> u8) \<Rightarrow> nat \<Rightarrow> 'e geometry_scheme \<Rightarrow> (u32 \<rightharpoonup> dirent list) \<Rightarrow> bool" where
  "tree_ok c D g T \<longleftrightarrow>
     (\<forall>n es. T n = Some es \<longrightarrow> dir_ok c D (the_node c g n) es \<and>
        (\<forall>(ino, total_size, name) \<in> set es. ino \<noteq> 0 \<longrightarrow> in_tree c D g T ino))"

fun walk :: "(u32 \<rightharpoonup> dirent list) \<Rightarrow> u32 \<Rightarrow> cstring list \<Rightarrow> u32 res" where
  "walk T n [] = Inr n"
| "walk T n (p # ps) =
     (if 256 < length p then Inl (AssertFailed ''i < 256'')
      else case T n of
          None \<Rightarrow> Inl (AssertFailed ''is_dir()'')
        | Some es \<Rightarrow> if lookup es p = 0 then Inr 0 else walk T (lookup es p) ps)"

lemma lookup_in:
  assumes "lookup es name \<noteq> 0"
  obtains total_size nm where "(lookup es name, total_size, nm) \<in> set es" "cstr nm = cstr name"
proof -
  obtain ino where "map_of (rev (map (\<lambda>(ino, total_size, nm). (cstr nm, ino)) es)) (cstr name) = Some ino"
    "lookup es name = ino"
    using assms by (auto simp: lookup_def split: option.splits)
  then show thesis using that map_of_SomeD by fastforce
qed

lemma ext2_find_ok:
  assumes tree: "tree_ok c D g T"
  shows "disk_is dev W C c D s \<Longrightarrow> in_tree c D g T n \<Longrightarrow>
    (case walk T n (path_parts path) of
       Inl e \<Rightarrow> ext2_find dev g (Some (the_node c g n)) path s = Inl e
     | Inr m \<Rightarrow> \<exists>s'. ext2_find dev g (Some (the_node c g n)) path s =
         Inr (if m = 0 then None else Some (the_node c g m), s') \<and> disk_is dev W C c D s' \<and>
         (m = 0 \<or> in_tree c D g T m))"
proof (induction k \<equiv> "length path" arbitrary: path n s rule: less_induct)
  case less
  let ?p = "skip_slashes path"
  have n0: "n \<noteq> 0" using less.prems(2) by (auto simp: in_tree_def slot_ok_def)
  show ?case
  proof (cases "?p = [] \<or> hd ?p = 0")
    case True
    then have "path_parts path = []" using path_parts_Nil path_parts_skip by metis
    then show ?thesis using True less.prems n0
      by (subst ext2_find.simps) simp
  next
    case False
    have "hd ?p \<noteq> 47 \<or> ?p = []" by (induction path) auto
    then have pc: "?p \<noteq> []" "part_char (hd ?p)" using False by auto
    let ?part = "takeWhile part_char ?p" and ?rest = "dropWhile part_char ?p"
    have parts: "path_parts path = ?part # path_parts ?rest"
      using path_parts_Cons [OF pc] by (simp only: path_parts_skip)
    have shorter: "length ?rest < length path"
    proof -
      have "?part \<noteq> []" using pc by (cases ?p) auto
      moreover have "length ?part + length ?rest = length ?p"
        by (metis length_append takeWhile_dropWhile_id)
      ultimately show ?thesis using length_skip_slashes [of path]
        by (cases ?part) simp_all
    qed
    have part: "take_part 0 ?p =
        (if length ?part \<le> 256 then Inr (?part, ?rest) else Inl (AssertFailed ''i < 256''))"
      using take_part_eq [of 0 ?p] by simp
    have find: "ext2_find dev g (Some (the_node c g n)) path s =
      rbind (take_part 0 ?p) (\<lambda>(part, rest).
        rbind (node_find dev (the_node c g n) part s) (\<lambda>(m, s1).
          if m = 0 then Inr (None, s1)
          else rbind (get_node dev g m s1) (\<lambda>(nd', s2). ext2_find dev g (Some nd') rest s2)))"
      using False by (subst ext2_find.simps) simp
    show ?thesis
    proof (cases "256 < length ?part")
      case True
      then show ?thesis by (simp add: parts find part)
    next
      case short: False
      show ?thesis
      proof (cases "T n")
        case None
        then have "\<not> is_dir (data (the_node c g n))" using less.prems(2) by (simp add: in_tree_def)
        then show ?thesis using short None by (simp add: parts find part node_find_def entries_def)
      next
        case (Some es)
        have dir: "dir_ok c D (the_node c g n) es" using tree Some by (simp add: tree_ok_def)
        obtain s1 where R1: "node_find dev (the_node c g n) ?part s = Inr (lookup es ?part, s1)"
          "disk_is dev W C c D s1"
          by (rule node_find_ok [OF less.prems(1) dir])
        show ?thesis
        proof (cases "lookup es ?part = 0")
          case True
          then show ?thesis using short Some R1 by (simp add: parts find part)
        next
          case found: False
          obtain ts nm where "(lookup es ?part, ts, nm) \<in> set es" "cstr nm = cstr ?part"
            by (rule lookup_in [OF found])
          moreover have "\<forall>(ino, total_size, name) \<in> set es. ino \<noteq> 0 \<longrightarrow> in_tree c D g T ino"
            using tree Some by (simp add: tree_ok_def)
          ultimately have m: "in_tree c D g T (lookup es ?part)"
            using found by (auto dest!: bspec)
          then have "slot_ok D g (lookup es ?part)" by (simp add: in_tree_def)
          then obtain s2 where R2: "get_node dev g (lookup es ?part) s1 = Inr (the_node c g (lookup es ?part), s2)"
            "disk_is dev W C c D s2"
            by (rule get_node_ok [OF R1(2)])
          have eq: "ext2_find dev g (Some (the_node c g n)) path s =
              ext2_find dev g (Some (the_node c g (lookup es ?part))) ?rest s2"
            using short R1(1) R2(1) found by (simp add: find part)
          have "walk T n (path_parts path) = walk T (lookup es ?part) (path_parts ?rest)"
            using short Some found by (simp add: parts)
          then show ?thesis unfolding eq using less.hyps [OF shorter R2(2) m] by (simp only:)
        qed
      qed
    qed
  qed
qed

section \<open>Mounting\<close>

text \<open>What the superblock and the group descriptors of a disk say.\<close>

definition disk_super :: "(nat \<Rightarrow> u8) \<Rightarrow> super_block" where
  "disk_super c = decode_super (bytes_at c 1024 140)"

definition disk_block_size :: "(nat \<Rightarrow> u8) \<Rightarrow> u32" where
  "disk_block_size c = push_bit (unat ((log_block_size (disk_super c) + 10) AND 31)) 1"

definition disk_groups :: "(nat \<Rightarrow> u8) \<Rightarrow> u32" where
  "disk_groups c =
     (blocks_count (disk_super c) + blocks_per_group (disk_super c) - 1) div blocks_per_group (disk_super c)"

definition disk_table :: "(nat \<Rightarrow> u8) \<Rightarrow> nat" where
  "disk_table c = (1024 div unat (disk_block_size c) + 1) * unat (disk_block_size c)"

definition disk_geometry :: "(nat \<Rightarrow> u8) \<Rightarrow> geometry" where
  "disk_geometry c =
     \<lparr>blockSize = disk_block_size c, numberOfNodes = inodes_count (disk_super c),
      numberOfBlocks = blocks_count (disk_super c), iNodeSize = ucast (inode_size (disk_super c)),
      nGroups = disk_groups c,
      iNodeTables = map (\<lambda>i. inode_table (decode_group (bytes_at c (disk_table c + 32 * i) 32) 0))
        [0..<unat (disk_groups c)],
      iNodesPerGroup = inodes_per_group (disk_super c)\<rparr>"

definition disk_mountable :: "(nat \<Rightarrow> u8) \<Rightarrow> nat \<Rightarrow> bool" where
  "disk_mountable c D \<longleftrightarrow>
     1164 \<le> D \<and> blocks_per_group (disk_super c) \<noteq> 0 \<and>
     blocks_count (disk_super c) \<le> disk_groups c * blocks_per_group (disk_super c) \<and>
     disk_table c + 32 * unat (disk_groups c) \<le> D \<and> slot_ok D (disk_geometry c) 2"

lemma le32_sub: "off + 4 \<le> k \<Longrightarrow> le32 (bytes_at c (a + off) 4) 0 = le32 (bytes_at c a k) off"
  by (simp add: le32_def add.assoc)

lemma group_table:
  assumes "32 * i + 32 \<le> k"
  shows "inode_table (decode_group (bytes_at c a k) (32 * i)) =
    inode_table (decode_group (bytes_at c (a + 32 * i) 32) 0)"
  using assms by (simp add: decode_group_def le32_def ac_simps)

lemma mount_ok:
  assumes disk: "disk_is dev W C c D s" and m: "disk_mountable c D"
  obtains s' where "mount dev fresh s =
      Inr (geometry.extend (disk_geometry c)
        (ext2.fields (the_node c (disk_geometry c) 2) (Some (the_node c (disk_geometry c) 2)) (fresh[0 := 47])), s')"
    "disk_is dev W C c D s'"
proof -
  let ?g = "disk_geometry c" and ?bs = "disk_block_size c" and ?n = "disk_groups c"
  have M: "1164 \<le> D" "blocks_per_group (disk_super c) \<noteq> 0"
    "blocks_count (disk_super c) \<le> ?n * blocks_per_group (disk_super c)"
    "disk_table c + 32 * unat ?n \<le> D" "slot_ok D ?g 2"
    using m by (simp_all add: disk_mountable_def)
  note lt = disk_is_size [OF disk]
  have "unat (1024 :: u32) + unat sizeof_super \<le> D" using M(1) by (simp add: sizeof_super_def)
  then obtain s1 where R1: "read_thing dev 1024 sizeof_super s =
      Inr (bytes_at c (unat (1024 :: u32)) (unat sizeof_super), s1)" "disk_is dev W C c D s1"
    by (rule disk_read_thing [OF disk])
  have R1': "read_thing dev 1024 sizeof_super s = Inr (bytes_at c 1024 140, s1)"
    using R1(1) by (simp add: sizeof_super_def)
  have "unat (1024 div ?bs + 1) = 1024 div unat ?bs + 1"
  proof -
    have "1024 div unat ?bs < 4294967295"
      using div_le_dividend [of 1024 "unat ?bs"] by (rule le_less_trans) simp
    then show ?thesis
      by (subst unat_plus_small) (simp_all add: unat_div)
  qed
  then have tab: "unat ((1024 div ?bs + 1) * ?bs) = disk_table c"
    using M(4) lt by (subst unat_mult_small) (simp_all add: disk_table_def)
  have sz: "unat (sizeof_group * ?n) = 32 * unat ?n"
    using M(4) lt unat_mult_small [of 32 ?n] by (simp add: sizeof_group_def)
  have "unat ((1024 div ?bs + 1) * ?bs) \<le> D" using tab M(4) by simp
  then obtain k s2 where R2: "read_all dev ((1024 div ?bs + 1) * ?bs) (sizeof_group * ?n) s1 =
      Inr (int k, bytes_at c (unat ((1024 div ?bs + 1) * ?bs)) k, s2)"
    "k = min (unat (sizeof_group * ?n)) (D - unat ((1024 div ?bs + 1) * ?bs))" "disk_is dev W C c D s2"
    by (rule disk_read_all [OF R1(2)])
  have k: "k = 32 * unat ?n" using R2(2) tab sz M(4) by simp
  have cnt: "int k = uint (sizeof_group * ?n)" using k sz by (metis uint_nat)
  have tables: "map (\<lambda>i. inode_table (decode_group (bytes_at c (disk_table c) k) (32 * i))) [0..<unat ?n] =
      iNodeTables ?g"
    unfolding k by (auto simp: disk_geometry_def group_table)
  obtain s3 where R3: "get_node dev ?g 2 s2 = Inr (the_node c ?g 2, s3)" "disk_is dev W C c D s3"
    by (rule get_node_ok [OF R2(3) M(5)])
  have geo: "\<lparr>blockSize = ?bs, numberOfNodes = inodes_count (disk_super c),
      numberOfBlocks = blocks_count (disk_super c), iNodeSize = ucast (inode_size (disk_super c)),
      nGroups = ?n, iNodeTables = iNodeTables ?g, iNodesPerGroup = inodes_per_group (disk_super c)\<rparr> = ?g"
    by (simp add: disk_geometry_def)
  have "mount dev fresh s = Inr (geometry.extend ?g
      (ext2.fields (the_node c ?g 2) (Some (the_node c ?g 2)) (fresh[0 := 47])), s3)"
    unfolding mount_def R1' rbind_simps prod.case Let_def disk_super_def [symmetric]
      disk_block_size_def [symmetric] disk_groups_def [symmetric] R2(1) tab
    using M(2,3) cnt R3(1) by (simp add: tables geo)
  then show thesis using that R3(2) by blast
qed

section \<open>What the file system promises\<close>

text \<open>C29: Path lookup.  On a disk that holds a directory tree, \<^verbatim>\<open>Ext2::find\<close> always returns and
  gives what walking the tree by the parts of the path gives, started at any inode of the tree:
  the node the path leads to, no node when a part is missing, and a failed assertion (a kernel
  panic) exactly when a part is longer than 256 characters or a part is looked up in something
  that is not a directory.  The disk keeps its contents.\<close>

theorem ext2_find_spec:
  assumes "disk_is dev W C c D s" and "tree_ok c D g T" and "in_tree c D g T n"
  shows "case walk T n (path_parts path) of
       Inl e \<Rightarrow> ext2_find dev g (Some (the_node c g n)) path s = Inl e
     | Inr m \<Rightarrow> \<exists>s'. ext2_find dev g (Some (the_node c g n)) path s =
         Inr (if m = 0 then None else Some (the_node c g m), s') \<and> disk_is dev W C c D s'"
proof -
  note F = ext2_find_ok [OF assms(2,1,3), of path]
  show ?thesis
  proof (cases "walk T n (path_parts path)")
    case (Inl e)
    then show ?thesis using F by simp
  next
    case (Inr m)
    then show ?thesis using F by auto
  qed
qed

text \<open>Reading a node.  For a node whose blocks lie inside the disk, reading any range of it
  through the direct blocks and the indirect block returns exactly the node's bytes at that
  offset, as many as asked for up to its size, and always returns.\<close>

theorem node_read_spec:
  assumes "disk_is dev W C c D s" and "node_fits c D nd" and "unat off \<le> unat (size_low (data nd))"
  shows "\<exists>s' k. k = min (unat n) (unat (size_low (data nd)) - unat off) \<and>
    read_all (node_dev dev nd) off n s = Inr (int k, bytes_at (node_byte c nd) (unat off) k, s') \<and>
    disk_is dev W C c D s'"
  by (rule node_read_all [OF assms, of n]) blast

text \<open>Listing a directory.  The text written for a directory is its names with a space
  between two and the terminator after the last, and the length computed beforehand is exactly
  the size of that text, so the caller's buffer is large enough; a directory without entries
  writes in front of its buffer.\<close>

theorem dir_listing_spec:
  assumes "disk_is dev W C c D s" and "dir_ok c D nd es"
  shows "\<exists>s1 s2.
    get_dir_entries dev nd s =
      (if es = [] then Inl (OutOfBounds ''buffer[nameOffset - 1]'') else Inr (butlast (dir_text es) @ [0], s1)) \<and>
    get_length_of_dir_entries dev nd s = Inr (of_nat (length (dir_text es)), s2) \<and>
    disk_is dev W C c D s1 \<and> disk_is dev W C c D s2"
proof -
  have fits: "node_fits c D nd" and dir: "is_dir (data nd)"
    and at: "dir_at (node_byte c nd) (unat (size_low (data nd))) (unat (0 :: u32)) es"
    using assms(2) by (simp_all add: dir_ok_def)
  obtain s1 where 1: "dir_entries_loop (node_dev dev nd) nd 0 [] s = Some (Inr (dir_text es, s1))"
    "disk_is dev W C c D s1"
    using dir_entries_loop_ok [OF fits assms(1) at, of "[]"] by auto
  obtain s2 where 2: "dir_length_loop (node_dev dev nd) nd 0 0 s = Some (Inr (of_nat (length (dir_text es)), s2))"
    "disk_is dev W C c D s2"
    using dir_length_loop_ok [OF fits assms(1) at, of 0] by auto
  have "dir_text es = [] \<longleftrightarrow> es = []" by (cases es) (auto simp: dir_text_def)
  moreover have "xs[length xs - 1 := 0] = butlast xs @ [0]" if "xs \<noteq> []" for xs :: "u8 list"
    using that by (cases xs rule: rev_cases) simp_all
  ultimately show ?thesis
    using 1 2 dir by (auto simp: get_dir_entries_def get_length_of_dir_entries_def)
qed

text \<open>An entry of size 0.  A lookup in a directory whose first entry has the size 0 never
  returns, whatever the name.\<close>

theorem node_find_stuck:
  assumes "disk_is dev W C c D s" and "node_fits c D nd" and "is_dir (data nd)"
    and "0 < size_low (data nd)" and "entry_at (node_byte c nd) (unat (size_low (data nd))) 0 (ino, 0, nm)"
  shows "node_find dev nd name s = Inl Diverges"
proof -
  have "unat (0 :: u32) < unat (size_low (data nd))" using assms(4) by (simp add: word_less_nat_alt)
  then have "entries_loop (node_dev dev nd) nd work 0 acc s = None" for work :: "u32 \<Rightarrow> cstring \<Rightarrow> u32 \<Rightarrow> u32" and acc
    using entries_loop_stuck [OF assms(2) _ _ assms(1), of 0 ino nm work acc] assms(5) by simp
  then show ?thesis using assms(3) by (simp add: node_find_def entries_def)
qed

text \<open>Mounting.  On a disk whose superblock and group descriptors are consistent, mounting
  returns the geometry those structures describe, with inode 2 as the root and the current
  directory, and the working directory's first character set to a slash.\<close>

theorem mount_spec:
  assumes "disk_is dev W C c D s" and "disk_mountable c D"
  shows "\<exists>s' fs. mount dev fresh s = Inr (fs, s') \<and> disk_is dev W C c D s' \<and>
    geometry.truncate fs = disk_geometry c \<and> root fs = the_node c (disk_geometry c) 2 \<and>
    current fs = Some (root fs) \<and> cwd fs = fresh[0 := 47]"
  by (rule mount_ok [OF assms, of fresh])
    (simp add: geometry.defs ext2.defs)

section \<open>A small disk\<close>

text \<open>A memory disk, and an image on it: a root directory with the entries \<open>.\<close> and \<open>hi\<close>, the
  latter a file of five bytes.\<close>

definition img_dev :: "(nat \<Rightarrow> u8) \<Rightarrow> u32 \<Rightarrow> unit blockio" where
  "img_dev img D = \<lparr>block_size = 512, size_in_bytes = \<lambda>s. D,
     read_block = \<lambda>b s. Inr (bytes_at img (unat b * 512) 512, s)\<rparr>"

interpretation img: block_device "img_dev img D" "\<lambda>s. True" "\<lambda>s. img" for img D
  by unfold_locales (auto simp: img_dev_def)

lemma img_disk: "disk_is (img_dev img D) (\<lambda>s. True) (\<lambda>s. img) img (unat D) ()"
  using img.block_device_axioms by (simp add: disk_is_def) (simp add: img_dev_def)

definition small_disk :: "nat \<Rightarrow> u8" where
  "small_disk i = (case map_of
     [(1024, 3), (1028, 6), (1056, 8), (1064, 3), (1112, 128), (2056, 3),
      (3201, 0x40), (3205, 4), (3228, 2), (3240, 4),
      (3329, 0x80), (3332, 5), (3356, 2), (3368, 5),
      (4096, 2), (4100, 12), (4102, 1), (4104, 46),
      (4108, 3), (4112, 0xF4), (4113, 3), (4114, 2), (4116, 104), (4117, 105),
      (5120, 72), (5121, 101), (5122, 108), (5123, 108), (5124, 111)] i of
     None \<Rightarrow> 0 | Some b \<Rightarrow> b)"

lemma decoded_fields:
  "log_block_size (decode_super b) = le32 b 24" "blocks_count (decode_super b) = le32 b 4"
  "blocks_per_group (decode_super b) = le32 b 32" "inodes_count (decode_super b) = le32 b 0"
  "inode_size (decode_super b) = le16 b 88" "inodes_per_group (decode_super b) = le32 b 40"
  "inode_table (decode_group b i) = le32 b (i + 8)"
  "size_low (decode_node b) = le32 b 4" "n_sectors (decode_node b) = le32 b 28"
  "direct (decode_node b) ! 0 = le32 b 40" "mode (decode_node b) = le16 b 0"
  by (simp_all add: decode_super_def decode_group_def decode_node_def)

lemmas small_decode = decoded_fields le32_def le16_def small_disk_def

lemma small_fields:
  "log_block_size (disk_super small_disk) = 0" "blocks_count (disk_super small_disk) = 6"
  "blocks_per_group (disk_super small_disk) = 8" "inodes_count (disk_super small_disk) = 3"
  "inode_size (disk_super small_disk) = 128" "inodes_per_group (disk_super small_disk) = 3"
  by (simp_all add: disk_super_def small_decode)

lemma small_block_size: "disk_block_size small_disk = 1024"
  by (simp add: disk_block_size_def small_fields)

lemma small_groups: "disk_groups small_disk = 1"
  by (simp add: disk_groups_def small_fields)

lemma small_table: "disk_table small_disk = 2048"
  by (simp add: disk_table_def small_block_size)

lemma small_geometry: "disk_geometry small_disk =
    \<lparr>blockSize = 1024, numberOfNodes = 3, numberOfBlocks = 6, iNodeSize = 128, nGroups = 1,
     iNodeTables = [3], iNodesPerGroup = 3\<rparr>"
  by (simp add: disk_geometry_def small_fields small_block_size small_groups small_table)
    (simp add: small_decode)

lemma small_slots: "slot_ok 6144 (disk_geometry small_disk) 2" "slot_ok 6144 (disk_geometry small_disk) 3"
  by (simp_all add: slot_ok_def inode_slot_def small_geometry)

lemma small_mountable: "disk_mountable small_disk 6144"
  by (simp add: disk_mountable_def small_fields small_groups small_table small_slots)

lemma small_is: "disk_is (img_dev small_disk 6144) (\<lambda>s. True) (\<lambda>s. small_disk) small_disk 6144 ()"
  using img_disk [of small_disk 6144] by simp

definition small_root :: node where
  "small_root = the_node small_disk (disk_geometry small_disk) 2"

definition small_file :: node where
  "small_file = the_node small_disk (disk_geometry small_disk) 3"

lemma small_root_fields:
  "node_bs small_root = 1024" "size_low (data small_root) = 1024" "n_sectors (data small_root) = 2"
  "direct (data small_root) ! 0 = 4" "mode (data small_root) = 0x4000"
  by (simp_all add: small_root_def the_node_def inode_slot_def small_geometry)
    (simp_all add: small_decode)

lemma small_file_fields:
  "node_bs small_file = 1024" "size_low (data small_file) = 5" "n_sectors (data small_file) = 2"
  "direct (data small_file) ! 0 = 5" "mode (data small_file) = 0x8000"
  by (simp_all add: small_file_def the_node_def inode_slot_def small_geometry)
    (simp_all add: small_decode)

lemma one_block_fits:
  assumes "node_bs nd = 1024" "size_low (data nd) \<le> 1024" "n_sectors (data nd) = 2"
    "unat (direct (data nd) ! 0) * 1024 + 1024 \<le> D"
  shows "node_fits c D nd"
proof -
  have "i = 0" if "unat i * unat (1024 :: u32) < unat (size_low (data nd))" for i :: u32
  proof -
    have "unat (size_low (data nd)) \<le> 1024" using assms(2) by (simp add: word_le_nat_alt)
    then have "unat i < 1" using that by simp
    then show ?thesis by (simp add: unat_eq_zero)
  qed
  then have zero: "i = 0" if "unat i * unat (node_bs nd) < unat (size_low (data nd))" for i :: u32
    using that assms(1) by simp
  have "i < n_sectors (data nd) div (node_bs nd div 512) \<and> i < 12 + node_bs nd div 4 \<and>
        (12 \<le> i \<longrightarrow> unat (indirect_1 (data nd)) * unat (node_bs nd) + (unat i - 12) * 4 + 4 \<le> D) \<and>
        unat (node_block c nd i) * unat (node_bs nd) + unat (node_bs nd) \<le> D"
    if "unat i * unat (node_bs nd) < unat (size_low (data nd))" for i :: u32
    unfolding zero [OF that] using assms(1,3,4) by (simp add: node_block_def)
  then show ?thesis using assms(1) by (simp add: node_fits_def)
qed

lemma small_fits: "node_fits small_disk 6144 small_root" "node_fits small_disk 6144 small_file"
  by (rule one_block_fits; simp add: small_root_fields small_file_fields)+

lemma one_block_byte:
  assumes "node_bs nd = 1024" "i < 1024"
  shows "node_byte c nd i = c (unat (direct (data nd) ! 0) * 1024 + i)"
  using assms by (simp add: node_byte_def node_block_def)

definition small_entries :: "dirent list" where
  "small_entries = [(2, 12, [46]), (3, 1012, [104, 105])]"

lemma small_dir: "dir_ok small_disk 6144 small_root small_entries"
proof -
  let ?c = "node_byte small_disk small_root"
  have c: "?c i = small_disk (4096 + i)" if "i < 1024" for i
    using that by (simp add: one_block_byte small_root_fields)
  have "entry_at ?c 1024 0 (2, 12, [46])" "entry_at ?c 1024 12 (3, 1012, [104, 105])"
    by (simp_all add: entry_at_def le32_def le16_def c bytes_at_def upt_rec small_disk_def)
  then show ?thesis
    by (simp add: dir_ok_def small_fits is_dir_def get_type_def small_root_fields small_entries_def)
qed

lemma small_tree: "tree_ok small_disk 6144 (disk_geometry small_disk) [2 \<mapsto> small_entries]"
proof -
  have "\<not> is_dir (data small_file)" by (simp add: is_dir_def get_type_def small_file_fields)
  then have "in_tree small_disk 6144 (disk_geometry small_disk) [2 \<mapsto> small_entries] n" if "n = 2 \<or> n = 3" for n
    using that small_slots by (auto simp: in_tree_def small_file_def)
  then show ?thesis
    using small_dir by (auto simp: tree_ok_def small_entries_def small_root_def split: if_splits)
qed

lemma ext2_find_spec_witness:
  "\<exists>s'. ext2_find (img_dev small_disk 6144) (disk_geometry small_disk) (Some small_root) [47, 104, 105] () =
     Inr (Some small_file, s')"
proof -
  have t: "in_tree small_disk 6144 (disk_geometry small_disk) [2 \<mapsto> small_entries] 2"
    using small_slots by (simp add: in_tree_def)
  have "walk [2 \<mapsto> small_entries] 2 (path_parts [47, 104, 105]) = Inr 3"
    by (simp add: path_parts_def lookup_def small_entries_def)
  then show ?thesis
    using ext2_find_spec [OF small_is small_tree t, of "[47, 104, 105]"]
    by (auto simp: small_root_def small_file_def)
qed

lemma node_read_spec_witness:
  "\<exists>s'. read_all (node_dev (img_dev small_disk 6144) small_file) 1 100 () = Inr (4, [101, 108, 108, 111], s')"
proof -
  have "unat (1 :: u32) \<le> unat (size_low (data small_file))" by (simp add: small_file_fields)
  note R = node_read_spec [OF small_is small_fits(2) this, of 100]
  have "bytes_at (node_byte small_disk small_file) 1 4 = [101, 108, 108, 111]"
    by (simp add: bytes_at_def upt_rec one_block_byte small_file_fields small_disk_def)
  then show ?thesis using R by (auto simp: small_file_fields)
qed

lemma dir_listing_spec_witness:
  "\<exists>s'. get_dir_entries (img_dev small_disk 6144) small_root () = Inr ([46, 32, 104, 105, 0], s')"
  using dir_listing_spec [OF small_is small_dir] by (auto simp: small_entries_def dir_text_def)

lemma mount_spec_witness:
  "\<exists>s' fs. mount (img_dev small_disk 6144) (replicate 100 0) () = Inr (fs, s') \<and> root fs = small_root"
  using mount_spec [OF small_is small_mountable, of "replicate 100 0"] by (auto simp: small_root_def)

text \<open>The same disk with the size of the first entry cleared.\<close>

definition stuck_disk :: "nat \<Rightarrow> u8" where
  "stuck_disk = small_disk(4100 := 0)"

lemma stuck_is: "disk_is (img_dev stuck_disk 6144) (\<lambda>s. True) (\<lambda>s. stuck_disk) stuck_disk 6144 ()"
  using img_disk [of stuck_disk 6144] by simp

lemma node_find_stuck_witness:
  "node_find (img_dev stuck_disk 6144) small_root [104, 105] () = Inl Diverges"
proof (rule node_find_stuck [OF stuck_is])
  show "node_fits stuck_disk 6144 small_root"
    by (rule one_block_fits; simp add: small_root_fields)
  show "is_dir (data small_root)" by (simp add: is_dir_def get_type_def small_root_fields)
  show "0 < size_low (data small_root)" by (simp add: small_root_fields)
  have c: "node_byte stuck_disk small_root i = stuck_disk (4096 + i)" if "i < 1024" for i
    using that by (simp add: one_block_byte small_root_fields)
  show "entry_at (node_byte stuck_disk small_root) (unat (size_low (data small_root))) 0 (2, 0, [46])"
    by (simp add: entry_at_def small_root_fields le32_def le16_def c bytes_at_def upt_rec)
      (simp add: stuck_disk_def small_disk_def)
qed

end
