(* ===== verification/Printf.thy ===== *)
theory Printf
  imports LibK
begin

text \<open>
  Formatted output in the kernel, \<^verbatim>\<open>kernel/snprintf.cc\<close>: a state machine over the format that
  puts characters into an \<^verbatim>\<open>OutputStream\<close>.  The stream is its function \<open>out\<close> on a state, the
  arguments are the words on the stack, and \<open>str_at\<close> gives the string at an address.  Signed
  arithmetic is on integers, its overflow being undefined in the source.
\<close>

section \<open>State\<close>

text \<open>The output so far (a state of the stream it goes to), the characters counted, and the
  stores made by the conversion \<^verbatim>\<open>n\<close> (address, size in bytes, value).\<close>

record 's pr =
  sink :: 's
  currlen :: int
  stores :: "(u32 \<times> nat \<times> int) list"

definition dopr_outch :: "(u8 \<Rightarrow> 's \<Rightarrow> 's) \<Rightarrow> u8 \<Rightarrow> 's pr \<Rightarrow> 's pr" where
  "dopr_outch out c s = s\<lparr>currlen := currlen s + 1, sink := out c (sink s)\<rparr>"

definition DP_F_MINUS :: u32 where "DP_F_MINUS = push_bit 0 1"
definition DP_F_PLUS :: u32 where "DP_F_PLUS = push_bit 1 1"
definition DP_F_SPACE :: u32 where "DP_F_SPACE = push_bit 2 1"
definition DP_F_NUM :: u32 where "DP_F_NUM = push_bit 3 1"
definition DP_F_ZERO :: u32 where "DP_F_ZERO = push_bit 4 1"
definition DP_F_UP :: u32 where "DP_F_UP = push_bit 5 1"
definition DP_F_UNSIGNED :: u32 where "DP_F_UNSIGNED = push_bit 6 1"

definition flag :: "u32 \<Rightarrow> u32 \<Rightarrow> bool" where
  "flag flags f \<longleftrightarrow> flags AND f \<noteq> 0"

text \<open>A loop that puts one character and counts down to 0.\<close>

fun pad_with :: "(u8 \<Rightarrow> 's \<Rightarrow> 's) \<Rightarrow> nat \<Rightarrow> u8 \<Rightarrow> 's pr \<Rightarrow> 's pr" where
  "pad_with out 0 c s = s"
| "pad_with out (Suc n) c s = pad_with out n c (dopr_outch out c s)"

fun put_all :: "(u8 \<Rightarrow> 's \<Rightarrow> 's) \<Rightarrow> u8 list \<Rightarrow> 's pr \<Rightarrow> 's pr" where
  "put_all out [] s = s"
| "put_all out (c # cs) s = put_all out cs (dopr_outch out c s)"

section \<open>Strings\<close>

text \<open>The three loops of \<^verbatim>\<open>fmtstr\<close>, all bounded by \<open>max\<close>.\<close>

function lead_loop :: "(u8 \<Rightarrow> 's \<Rightarrow> 's) \<Rightarrow> int \<Rightarrow> int \<Rightarrow> int \<Rightarrow> 's pr \<Rightarrow> int \<times> int \<times> 's pr" where
  "lead_loop out padlen cnt mx s =
     (if 0 < padlen \<and> cnt < mx then lead_loop out (padlen - 1) (cnt + 1) mx (dopr_outch out 32 s)
      else (padlen, cnt, s))"
  by pat_completeness auto
termination by (relation "measure (\<lambda>(out, padlen, cnt, mx, s). nat padlen)") auto

fun body_loop :: "(u8 \<Rightarrow> 's \<Rightarrow> 's) \<Rightarrow> cstring \<Rightarrow> int \<Rightarrow> int \<Rightarrow> 's pr \<Rightarrow> int \<times> 's pr" where
  "body_loop out [] cnt mx s = (cnt, s)"
| "body_loop out (c # cs) cnt mx s =
     (if c \<noteq> 0 \<and> cnt < mx then body_loop out cs (cnt + 1) mx (dopr_outch out c s) else (cnt, s))"

function tail_loop :: "(u8 \<Rightarrow> 's \<Rightarrow> 's) \<Rightarrow> int \<Rightarrow> int \<Rightarrow> int \<Rightarrow> 's pr \<Rightarrow> 's pr" where
  "tail_loop out padlen cnt mx s =
     (if padlen < 0 \<and> cnt < mx then tail_loop out (padlen + 1) (cnt + 1) mx (dopr_outch out 32 s)
      else s)"
  by pat_completeness auto
termination by (relation "measure (\<lambda>(out, padlen, cnt, mx, s). nat (- padlen))") auto

declare lead_loop.simps [simp del] tail_loop.simps [simp del]

definition null_string :: cstring where
  "null_string = [60, 78, 85, 76, 76, 62]"

text \<open>\<open>None\<close> is the null pointer.\<close>

definition fmtstr :: "(u8 \<Rightarrow> 's \<Rightarrow> 's) \<Rightarrow> cstring option \<Rightarrow> u32 \<Rightarrow> int \<Rightarrow> int \<Rightarrow> 's pr \<Rightarrow> 's pr" where
  "fmtstr out value flags mn mx s =
     (let value = (case value of None \<Rightarrow> null_string | Some v \<Rightarrow> v);
          strln = strlen value;
          padlen = mn - strln;
          padlen = (if padlen < 0 then 0 else padlen);
          padlen = (if flag flags DP_F_MINUS then - padlen else padlen)
      in case lead_loop out padlen 0 mx s of (padlen1, cnt1, s1) \<Rightarrow>
         case body_loop out value cnt1 mx s1 of (cnt2, s2) \<Rightarrow>
           tail_loop out padlen1 cnt2 mx s2)"

section \<open>Integers\<close>

definition digit_char :: "bool \<Rightarrow> u32 \<Rightarrow> u8" where
  "digit_char caps d =
     ((if caps then [48, 49, 50, 51, 52, 53, 54, 55, 56, 57, 65, 66, 67, 68, 69, 70]
       else [48, 49, 50, 51, 52, 53, 54, 55, 56, 57, 97, 98, 99, 100, 101, 102]) ! unat d)"

text \<open>The array \<^verbatim>\<open>convert\<close>, filled from the lowest digit on.\<close>

function conv_loop :: "bool \<Rightarrow> u32 \<Rightarrow> u32 \<Rightarrow> nat \<Rightarrow> u8 list" where
  "conv_loop caps bs uvalue place =
     digit_char caps (uvalue mod bs) #
       (if uvalue div bs \<noteq> 0 \<and> place + 1 < 20 then conv_loop caps bs (uvalue div bs) (place + 1) else [])"
  by pat_completeness auto
termination by (relation "measure (\<lambda>(caps, bs, uvalue, place). 20 - place)") auto

declare conv_loop.simps [simp del]

definition fmtint :: "(u8 \<Rightarrow> 's \<Rightarrow> 's) \<Rightarrow> int \<Rightarrow> u32 \<Rightarrow> int \<Rightarrow> int \<Rightarrow> u32 \<Rightarrow> 's pr \<Rightarrow> 's pr" where
  "fmtint out value bs mn mx flags s =
     (let mx = (if mx < 0 then 0 else mx);
          uns = flag flags DP_F_UNSIGNED;
          signvalue = (if uns then 0 else if value < 0 then 45
            else if flag flags DP_F_PLUS then 43 else if flag flags DP_F_SPACE then 32 else 0);
          uvalue = (if \<not> uns \<and> value < 0 then word_of_int (- value) else word_of_int value);
          caps = flag flags DP_F_UP;
          convert = conv_loop caps bs uvalue 0;
          place = (if length convert = 20 then 19 else length convert);
          zpadlen = mx - int place;
          spadlen = mn - (if mx \<ge> int place then mx else int place) - (if signvalue \<noteq> 0 then 1 else 0);
          zpadlen = (if zpadlen < 0 then 0 else zpadlen);
          spadlen = (if spadlen < 0 then 0 else spadlen);
          zpadlen = (if flag flags DP_F_ZERO then (if zpadlen \<ge> spadlen then zpadlen else spadlen) else zpadlen);
          spadlen = (if flag flags DP_F_ZERO then 0 else spadlen);
          spadlen = (if flag flags DP_F_MINUS then - spadlen else spadlen);
          s1 = pad_with out (nat spadlen) 32 s;
          s2 = (if signvalue \<noteq> 0 then dopr_outch out signvalue s1 else s1);
          s3 = pad_with out (nat zpadlen) 48 s2;
          s4 = put_all out (rev (take place convert)) s3
      in pad_with out (nat (- spadlen)) 32 s4)"

section \<open>Floating point\<close>

text \<open>The arithmetic of \<^verbatim>\<open>long double\<close> is the processor's and a parameter: conversions from and
  to \<^verbatim>\<open>long\<close>, negation, product, difference, comparison, and the value of an argument's words.\<close>

record 'f fpu =
  fp_arg :: "u32 list \<Rightarrow> 'f"
  fp_of_long :: "int \<Rightarrow> 'f"
  fp_trunc :: "'f \<Rightarrow> int"
  fp_minus :: "'f \<Rightarrow> 'f"
  fp_mul :: "'f \<Rightarrow> 'f \<Rightarrow> 'f"
  fp_sub :: "'f \<Rightarrow> 'f \<Rightarrow> 'f"
  fp_less :: "'f \<Rightarrow> 'f \<Rightarrow> bool"
  fp_half :: 'f

definition abs_val :: "'f fpu \<Rightarrow> 'f \<Rightarrow> 'f" where
  "abs_val fp value = (if fp_less fp value (fp_of_long fp 0) then fp_minus fp value else value)"

fun pow10_loop :: "'f fpu \<Rightarrow> nat \<Rightarrow> 'f \<Rightarrow> 'f" where
  "pow10_loop fp 0 result = result"
| "pow10_loop fp (Suc e) result = pow10_loop fp e (fp_mul fp result (fp_of_long fp 10))"

definition pow10 :: "'f fpu \<Rightarrow> nat \<Rightarrow> 'f" where
  "pow10 fp e = pow10_loop fp e (fp_of_long fp 1)"

definition xround :: "'f fpu \<Rightarrow> 'f \<Rightarrow> int" where
  "xround fp value =
     (let intpart = fp_trunc fp value;
          value = fp_sub fp value (fp_of_long fp intpart)
      in if \<not> fp_less fp value (fp_half fp) then intpart + 1 else intpart)"

text \<open>The digits of a part; a negative part indexes in front of the digit table.\<close>

function dec_loop :: "int \<Rightarrow> nat \<Rightarrow> u8 list res" where
  "dec_loop part place =
     (if part < 0 then Inl (OutOfBounds ''intpart % 10'')
      else if part div 10 \<noteq> 0 \<and> place + 1 < 20 then
        rbind (dec_loop (part div 10) (place + 1)) (\<lambda>ds. Inr (word_of_int (48 + part mod 10) # ds))
      else Inr [word_of_int (48 + part mod 10)])"
  by pat_completeness auto
termination by (relation "measure (\<lambda>(part, place). 20 - place)") auto

declare dec_loop.simps [simp del]

definition fmtfp :: "(u8 \<Rightarrow> 's \<Rightarrow> 's) \<Rightarrow> 'f fpu \<Rightarrow> 'f \<Rightarrow> int \<Rightarrow> int \<Rightarrow> u32 \<Rightarrow> 's pr \<Rightarrow> 's pr res" where
  "fmtfp out fp fvalue mn mx flags s =
     (let mx = (if mx < 0 then 6 else mx);
          ufvalue = abs_val fp fvalue;
          signvalue = (if fp_less fp fvalue (fp_of_long fp 0) then 45
            else if flag flags DP_F_PLUS then 43 else if flag flags DP_F_SPACE then 32 else 0);
          intpart = fp_trunc fp ufvalue;
          mx = (if mx > 9 then 9 else mx);
          p = pow10 fp (nat mx);
          fracpart = xround fp (fp_mul fp p (fp_sub fp ufvalue (fp_of_long fp intpart)));
          carry = (\<not> fp_less fp (fp_of_long fp fracpart) p);
          intpart = (if carry then intpart + 1 else intpart);
          fracpart = (if carry then fp_trunc fp (fp_sub fp (fp_of_long fp fracpart) p) else fracpart)
      in rbind (dec_loop intpart 0) (\<lambda>iconvert.
         rbind (dec_loop fracpart 0) (\<lambda>fconvert.
           let iplace = (if length iconvert = 20 then 19 else length iconvert);
               fplace = (if length fconvert = 20 then 19 else length fconvert);
               padlen = mn - int iplace - mx - 1 - (if signvalue \<noteq> 0 then 1 else 0);
               zpadlen = mx - int fplace;
               zpadlen = (if zpadlen < 0 then 0 else zpadlen);
               padlen = (if padlen < 0 then 0 else padlen);
               padlen = (if flag flags DP_F_MINUS then - padlen else padlen);
               zero = (flag flags DP_F_ZERO \<and> 0 < padlen);
               s1 = (if zero \<and> signvalue \<noteq> 0 then dopr_outch out signvalue s else s);
               padlen = (if zero \<and> signvalue \<noteq> 0 then padlen - 1 else padlen);
               signvalue = (if zero \<and> signvalue \<noteq> 0 then 0 else signvalue);
               s2 = (if zero then pad_with out (nat padlen) 48 s1 else s1);
               padlen = (if zero then 0 else padlen);
               s3 = pad_with out (nat padlen) 32 s2;
               s4 = (if signvalue \<noteq> 0 then dopr_outch out signvalue s3 else s3);
               s5 = put_all out (rev (take iplace iconvert)) s4;
               s6 = (if 0 < mx then put_all out (rev (take fplace fconvert)) (dopr_outch out 46 s5) else s5);
               s7 = pad_with out (nat zpadlen) 48 s6
           in Inr (pad_with out (nat (- padlen)) 32 s7))))"

section \<open>The format\<close>

datatype dstate =
    DP_S_DEFAULT
  | DP_S_FLAGS
  | DP_S_MIN
  | DP_S_DOT
  | DP_S_MAX
  | DP_S_MOD
  | DP_S_CONV
  | DP_S_DONE

datatype dcflag = DP_C_NONE | DP_C_SHORT | DP_C_LONG | DP_C_LDOUBLE

text \<open>
  The variables of \<^verbatim>\<open>dopr\<close>: the character in hand, the rest of the format with its terminator,
  the words of the arguments not yet taken, and the state machine's fields.
\<close>

record 's dp =
  dp_state :: dstate
  dp_ch :: u8
  dp_format :: cstring
  dp_args :: "u32 list"
  dp_min :: int
  dp_max :: int
  dp_flags :: u32
  dp_cflags :: dcflag
  dp_pr :: "'s pr"

definition next_ch :: "'s dp \<Rightarrow> 's dp res" where
  "next_ch d = (case dp_format d of [] \<Rightarrow> Inl (OutOfBounds ''format'')
     | c # cs \<Rightarrow> Inr (d\<lparr>dp_ch := c, dp_format := cs\<rparr>))"

text \<open>\<^verbatim>\<open>va_arg\<close> takes as many words as its type has: one for integers and pointers, two for a
  \<^verbatim>\<open>double\<close>, three for a \<^verbatim>\<open>long double\<close>.\<close>

definition va_arg :: "nat \<Rightarrow> 's dp \<Rightarrow> (u32 list \<times> 's dp) res" where
  "va_arg n d = (if length (dp_args d) < n then Inl (OutOfBounds ''va_arg'')
     else Inr (take n (dp_args d), d\<lparr>dp_args := drop n (dp_args d)\<rparr>))"

definition put_int :: "(u8 \<Rightarrow> 's \<Rightarrow> 's) \<Rightarrow> u32 \<Rightarrow> u32 \<Rightarrow> 's dp \<Rightarrow> 's dp res" where
  "put_int out bs f d =
     rbind (va_arg 1 d) (\<lambda>(ws, d1).
       let fl = dp_flags d1 OR f
       in Inr (d1\<lparr>dp_flags := fl, dp_pr := fmtint out (sint (hd ws)) bs (dp_min d1) (dp_max d1) fl (dp_pr d1)\<rparr>))"

definition take_float :: "'f fpu \<Rightarrow> 's dp \<Rightarrow> ('f \<times> 's dp) res" where
  "take_float fp d =
     rbind (va_arg (if dp_cflags d = DP_C_LDOUBLE then 3 else 2) d) (\<lambda>(ws, d1). Inr (fp_arg fp ws, d1))"

text \<open>
  The conversions.  On this processor \<^verbatim>\<open>int\<close>, \<^verbatim>\<open>long\<close> and pointers are one word, so the branches
  on the length flag of an integer conversion take the same argument.
\<close>

definition dopr_conv :: "(u8 \<Rightarrow> 's \<Rightarrow> 's) \<Rightarrow> 'f fpu \<Rightarrow> (u32 \<Rightarrow> cstring) \<Rightarrow> int \<Rightarrow> 's dp \<Rightarrow> 's dp res" where
  "dopr_conv out fp str_at maxlen d =
     (if dp_ch d = 100 \<or> dp_ch d = 105 \<comment> \<open>d, i\<close> then put_int out 10 0 d
      else if dp_ch d = 111 \<comment> \<open>o\<close> then put_int out 8 DP_F_UNSIGNED d
      else if dp_ch d = 117 \<comment> \<open>u\<close> then put_int out 10 DP_F_UNSIGNED d
      else if dp_ch d = 88 \<comment> \<open>X\<close> then put_int out 16 (DP_F_UP OR DP_F_UNSIGNED) d
      else if dp_ch d = 120 \<comment> \<open>x\<close> then put_int out 16 DP_F_UNSIGNED d
      else if dp_ch d = 102 \<comment> \<open>f\<close> then
        rbind (take_float fp d) (\<lambda>(fvalue, d1).
          rbind (fmtfp out fp fvalue (dp_min d1) (dp_max d1) (dp_flags d1) (dp_pr d1)) (\<lambda>s1.
            Inr (d1\<lparr>dp_pr := s1\<rparr>)))
      else if dp_ch d = 69 \<or> dp_ch d = 71 \<comment> \<open>E, G\<close> then
        rbind (take_float fp (d\<lparr>dp_flags := dp_flags d OR DP_F_UP\<rparr>)) (\<lambda>(fvalue, d1). Inr d1)
      else if dp_ch d = 101 \<or> dp_ch d = 103 \<comment> \<open>e, g\<close> then
        rbind (take_float fp d) (\<lambda>(fvalue, d1). Inr d1)
      else if dp_ch d = 99 \<comment> \<open>c\<close> then
        rbind (va_arg 1 d) (\<lambda>(ws, d1). Inr (d1\<lparr>dp_pr := dopr_outch out (ucast (hd ws)) (dp_pr d1)\<rparr>))
      else if dp_ch d = 115 \<comment> \<open>s\<close> then
        rbind (va_arg 1 d) (\<lambda>(ws, d1).
          let mx = (if dp_max d1 < 0 then maxlen else dp_max d1);
              value = (if hd ws = 0 then None else Some (str_at (hd ws)))
          in Inr (d1\<lparr>dp_max := mx, dp_pr := fmtstr out value (dp_flags d1) (dp_min d1) mx (dp_pr d1)\<rparr>))
      else if dp_ch d = 112 \<comment> \<open>p\<close> then put_int out 16 0 d
      else if dp_ch d = 110 \<comment> \<open>n\<close> then
        rbind (va_arg 1 d) (\<lambda>(ws, d1).
          let sz = (if dp_cflags d1 = DP_C_SHORT then 2 else 4)
          in Inr (d1\<lparr>dp_pr := (dp_pr d1)\<lparr>stores := stores (dp_pr d1) @ [(hd ws, sz, currlen (dp_pr d1))]\<rparr>\<rparr>))
      else if dp_ch d = 37 \<comment> \<open>percent\<close> then Inr (d\<lparr>dp_pr := dopr_outch out (dp_ch d) (dp_pr d)\<rparr>)
      else if dp_ch d = 119 \<comment> \<open>w\<close> then next_ch d
      else Inr d)"

text \<open>One round of the loop of \<^verbatim>\<open>dopr\<close>, after the test for its end.\<close>

definition dopr_step :: "(u8 \<Rightarrow> 's \<Rightarrow> 's) \<Rightarrow> 'f fpu \<Rightarrow> (u32 \<Rightarrow> cstring) \<Rightarrow> int \<Rightarrow> 's dp \<Rightarrow> 's dp res" where
  "dopr_step out fp str_at maxlen d =
     (case dp_state d of
        DP_S_DEFAULT \<Rightarrow>
          (if dp_ch d = 37 then next_ch (d\<lparr>dp_state := DP_S_FLAGS\<rparr>)
           else next_ch (d\<lparr>dp_pr := dopr_outch out (dp_ch d) (dp_pr d)\<rparr>))
      | DP_S_FLAGS \<Rightarrow>
          (if dp_ch d = 45 \<comment> \<open>minus\<close> then next_ch (d\<lparr>dp_flags := dp_flags d OR DP_F_MINUS\<rparr>)
           else if dp_ch d = 43 \<comment> \<open>plus\<close> then next_ch (d\<lparr>dp_flags := dp_flags d OR DP_F_PLUS\<rparr>)
           else if dp_ch d = 32 \<comment> \<open>space\<close> then next_ch (d\<lparr>dp_flags := dp_flags d OR DP_F_SPACE\<rparr>)
           else if dp_ch d = 35 \<comment> \<open>hash\<close> then next_ch (d\<lparr>dp_flags := dp_flags d OR DP_F_NUM\<rparr>)
           else if dp_ch d = 48 \<comment> \<open>zero\<close> then next_ch (d\<lparr>dp_flags := dp_flags d OR DP_F_ZERO\<rparr>)
           else Inr (d\<lparr>dp_state := DP_S_MIN\<rparr>))
      | DP_S_MIN \<Rightarrow>
          (if isdigit (sint (dp_ch d)) then next_ch (d\<lparr>dp_min := 10 * dp_min d + (sint (dp_ch d) - 48)\<rparr>)
           else if dp_ch d = 42 \<comment> \<open>star\<close> then
             rbind (va_arg 1 d) (\<lambda>(ws, d1).
               rbind (next_ch (d1\<lparr>dp_min := sint (hd ws)\<rparr>)) (\<lambda>d2. Inr (d2\<lparr>dp_state := DP_S_DOT\<rparr>)))
           else Inr (d\<lparr>dp_state := DP_S_DOT\<rparr>))
      | DP_S_DOT \<Rightarrow>
          (if dp_ch d = 46 \<comment> \<open>dot\<close> then next_ch (d\<lparr>dp_state := DP_S_MAX\<rparr>)
           else Inr (d\<lparr>dp_state := DP_S_MOD\<rparr>))
      | DP_S_MAX \<Rightarrow>
          (if isdigit (sint (dp_ch d)) then
             next_ch (d\<lparr>dp_max := 10 * (if dp_max d < 0 then 0 else dp_max d) + (sint (dp_ch d) - 48)\<rparr>)
           else if dp_ch d = 42 \<comment> \<open>star\<close> then
             rbind (va_arg 1 d) (\<lambda>(ws, d1).
               rbind (next_ch (d1\<lparr>dp_max := sint (hd ws)\<rparr>)) (\<lambda>d2. Inr (d2\<lparr>dp_state := DP_S_MOD\<rparr>)))
           else Inr (d\<lparr>dp_state := DP_S_MOD\<rparr>))
      | DP_S_MOD \<Rightarrow>
          rbind (if dp_ch d = 104 \<comment> \<open>h\<close> then next_ch (d\<lparr>dp_cflags := DP_C_SHORT\<rparr>)
                 else if dp_ch d = 108 \<comment> \<open>l\<close> then next_ch (d\<lparr>dp_cflags := DP_C_LONG\<rparr>)
                 else if dp_ch d = 76 \<comment> \<open>L\<close> then next_ch (d\<lparr>dp_cflags := DP_C_LDOUBLE\<rparr>)
                 else Inr d)
            (\<lambda>d1. Inr (d1\<lparr>dp_state := DP_S_CONV\<rparr>))
      | DP_S_CONV \<Rightarrow>
          rbind (dopr_conv out fp str_at maxlen d) (\<lambda>d1.
            rbind (next_ch d1) (\<lambda>d2.
              Inr (d2\<lparr>dp_state := DP_S_DEFAULT, dp_flags := 0, dp_cflags := DP_C_NONE, dp_min := 0, dp_max := - 1\<rparr>)))
      | DP_S_DONE \<Rightarrow> Inr d)"

definition dopr_end :: "int \<Rightarrow> 's dp \<Rightarrow> bool" where
  "dopr_end maxlen d \<longleftrightarrow> dp_ch d = 0 \<or> currlen (dp_pr d) \<ge> maxlen"

text \<open>
  The loop.  Every round takes a character of the format or moves the state machine on, so it
  ends; a round that takes a character beyond the terminator is an access out of bounds.
\<close>

fun dp_rank :: "dstate \<Rightarrow> nat" where
  "dp_rank DP_S_DEFAULT = 7"
| "dp_rank DP_S_FLAGS = 6"
| "dp_rank DP_S_MIN = 5"
| "dp_rank DP_S_DOT = 4"
| "dp_rank DP_S_MAX = 3"
| "dp_rank DP_S_MOD = 2"
| "dp_rank DP_S_CONV = 1"
| "dp_rank DP_S_DONE = 0"

definition dp_left :: "'s dp \<Rightarrow> nat" where
  "dp_left d = 8 * length (dp_format d) + dp_rank (dp_state d)"

lemma next_ch_left: "next_ch d = Inr d' \<Longrightarrow>
    Suc (length (dp_format d')) = length (dp_format d) \<and> dp_state d' = dp_state d"
  by (auto simp: next_ch_def split: list.splits)

lemma va_arg_left: "va_arg n d = Inr (ws, d') \<Longrightarrow> dp_format d' = dp_format d \<and> dp_state d' = dp_state d"
  by (auto simp: va_arg_def split: if_splits)

lemma put_int_left: "put_int out bs f d = Inr d' \<Longrightarrow> dp_format d' = dp_format d \<and> dp_state d' = dp_state d"
  by (auto simp: put_int_def Let_def dest!: va_arg_left)

lemma take_float_left: "take_float fp d = Inr (x, d') \<Longrightarrow> dp_format d' = dp_format d \<and> dp_state d' = dp_state d"
  by (auto simp: take_float_def dest!: va_arg_left)

lemma dopr_conv_left:
  assumes "dopr_conv out fp str_at maxlen d = Inr d'"
  shows "length (dp_format d') \<le> length (dp_format d)"
  using assms unfolding dopr_conv_def Let_def
  by (elim if_branchE) (auto dest!: put_int_left take_float_left va_arg_left next_ch_left)

lemma dopr_step_left:
  assumes "dopr_step out fp str_at maxlen d = Inr d'" and "dp_state d \<noteq> DP_S_DONE"
  shows "dp_left d' < dp_left d"
proof (cases "dp_state d")
  case DP_S_CONV
  then obtain d1 d2 where s: "dopr_conv out fp str_at maxlen d = Inr d1" "next_ch d1 = Inr d2"
    "d' = d2\<lparr>dp_state := DP_S_DEFAULT, dp_flags := 0, dp_cflags := DP_C_NONE, dp_min := 0, dp_max := - 1\<rparr>"
    using assms by (auto simp: dopr_step_def)
  then show ?thesis
    using dopr_conv_left [OF s(1)] next_ch_left [OF s(2)] DP_S_CONV by (simp add: dp_left_def)
qed (use assms in \<open>auto simp: dopr_step_def dp_left_def split: if_splits dest!: next_ch_left va_arg_left\<close>)

function dopr_loop :: "(u8 \<Rightarrow> 's \<Rightarrow> 's) \<Rightarrow> 'f fpu \<Rightarrow> (u32 \<Rightarrow> cstring) \<Rightarrow> int \<Rightarrow> 's dp \<Rightarrow> 's dp res" where
  "dopr_loop out fp str_at maxlen d =
     (if dp_state d = DP_S_DONE then Inr d
      else if dopr_end maxlen d then Inr (d\<lparr>dp_state := DP_S_DONE\<rparr>)
      else rbind (dopr_step out fp str_at maxlen d) (dopr_loop out fp str_at maxlen))"
  by pat_completeness auto
termination
  by (relation "measure (\<lambda>(out, fp, str_at, maxlen, d). dp_left d)") (auto dest: dopr_step_left)

declare dopr_loop.simps [simp del]

definition dopr :: "(u8 \<Rightarrow> 's \<Rightarrow> 's) \<Rightarrow> 'f fpu \<Rightarrow> (u32 \<Rightarrow> cstring) \<Rightarrow> int \<Rightarrow> cstring \<Rightarrow> u32 list \<Rightarrow> 's \<Rightarrow> 's pr res" where
  "dopr out fp str_at maxlen fmt va s =
     rbind (next_ch \<lparr>dp_state = DP_S_DEFAULT, dp_ch = 0, dp_format = cstr fmt @ [0], dp_args = va,
         dp_min = 0, dp_max = - 1, dp_flags = 0, dp_cflags = DP_C_NONE,
         dp_pr = \<lparr>sink = s, currlen = 0, stores = []\<rparr>\<rparr>) (\<lambda>d.
       rbind (dopr_loop out fp str_at maxlen d) (\<lambda>d1. Inr (dp_pr d1)))"

definition vsnprintf :: "(u8 \<Rightarrow> 's \<Rightarrow> 's) \<Rightarrow> 'f fpu \<Rightarrow> (u32 \<Rightarrow> cstring) \<Rightarrow> int \<Rightarrow> cstring \<Rightarrow> u32 list \<Rightarrow> 's \<Rightarrow> 's pr res" where
  "vsnprintf out fp str_at maxlen fmt va s = dopr out fp str_at maxlen fmt va s"

definition snprintf :: "(u8 \<Rightarrow> 's \<Rightarrow> 's) \<Rightarrow> 'f fpu \<Rightarrow> (u32 \<Rightarrow> cstring) \<Rightarrow> int \<Rightarrow> cstring \<Rightarrow> u32 list \<Rightarrow> 's \<Rightarrow> 's pr res" where
  "snprintf out fp str_at maxlen fmt va s = vsnprintf out fp str_at maxlen fmt va s"

section \<open>What is put out\<close>

lemma put_all_append: "put_all out (xs @ ys) s = put_all out ys (put_all out xs s)"
  by (induction xs arbitrary: s) simp_all

lemma pad_with_eq: "pad_with out n c s = put_all out (replicate n c) s"
  by (induction n arbitrary: s) simp_all

lemma dopr_outch_eq: "dopr_outch out c s = put_all out [c] s"
  by simp

lemma put_all_fields [simp]:
  "currlen (put_all out xs s) = currlen s + int (length xs)"
  "sink (put_all out xs s) = fold out xs (sink s)"
  "stores (put_all out xs s) = stores s"
  by (induction xs arbitrary: s) (simp_all add: dopr_outch_def)

subsection \<open>Strings\<close>

lemma lead_loop_eq:
  "lead_loop out padlen cnt mx s =
     (let n = min (nat padlen) (nat (mx - cnt))
      in (padlen - int n, cnt + int n, put_all out (replicate n 32) s))"
proof (induction out padlen cnt mx s rule: lead_loop.induct)
  case (1 out padlen cnt mx s)
  show ?case
  proof (cases "0 < padlen \<and> cnt < mx")
    case True
    let ?n = "min (nat (padlen - 1)) (nat (mx - (cnt + 1)))"
    have n: "min (nat padlen) (nat (mx - cnt)) = Suc ?n" using True by auto
    have "lead_loop out padlen cnt mx s = lead_loop out (padlen - 1) (cnt + 1) mx (dopr_outch out 32 s)"
      using True by (subst lead_loop.simps) simp
    also have "\<dots> = (padlen - 1 - int ?n, cnt + 1 + int ?n, put_all out (replicate ?n 32) (dopr_outch out 32 s))"
      using "1.IH" [OF True] by (simp add: Let_def)
    finally show ?thesis unfolding n Let_def by simp
  next
    case False
    then have "min (nat padlen) (nat (mx - cnt)) = 0" by auto
    then show ?thesis using False by (subst lead_loop.simps) (auto simp: Let_def)
  qed
qed

lemma tail_loop_eq:
  "tail_loop out padlen cnt mx s =
     put_all out (replicate (min (nat (- padlen)) (nat (mx - cnt))) 32) s"
proof (induction out padlen cnt mx s rule: tail_loop.induct)
  case (1 out padlen cnt mx s)
  show ?case
  proof (cases "padlen < 0 \<and> cnt < mx")
    case True
    have n: "min (nat (- padlen)) (nat (mx - cnt)) = Suc (min (nat (- (padlen + 1))) (nat (mx - (cnt + 1))))"
      using True by auto
    have "tail_loop out padlen cnt mx s = tail_loop out (padlen + 1) (cnt + 1) mx (dopr_outch out 32 s)"
      using True by (subst tail_loop.simps) simp
    then show ?thesis using "1.IH" [OF True] unfolding n by simp
  next
    case False
    then have n: "min (nat (- padlen)) (nat (mx - cnt)) = 0" by auto
    show ?thesis unfolding n using False by (subst tail_loop.simps) auto
  qed
qed

lemma body_loop_eq:
  "body_loop out v cnt mx s =
     (let n = min (length (cstr v)) (nat (mx - cnt)) in (cnt + int n, put_all out (take n (cstr v)) s))"
proof (induction out v cnt mx s rule: body_loop.induct)
  case (2 out c cs cnt mx s)
  show ?case
  proof (cases "c \<noteq> 0 \<and> cnt < mx")
    case True
    have "nat (mx - cnt) = Suc (nat (mx - (cnt + 1)))" using True by auto
    then show ?thesis using "2.IH" [OF True] True by (simp add: Let_def)
  qed (auto simp: Let_def)
qed (simp add: Let_def)

text \<open>The text of a string: padded to the width on one side, cut at the precision.\<close>

definition str_text :: "cstring option \<Rightarrow> u32 \<Rightarrow> int \<Rightarrow> int \<Rightarrow> u8 list" where
  "str_text value flags mn mx =
     (let v = cstr (case value of None \<Rightarrow> null_string | Some v \<Rightarrow> v);
          padding = replicate (nat (mn - int (length v))) 32
      in take (nat mx) (if flag flags DP_F_MINUS then v @ padding else padding @ v))"

lemma fmtstr_eq: "fmtstr out value flags mn mx s = put_all out (str_text value flags mn mx) s"
proof -
  define v where "v = (case value of None \<Rightarrow> null_string | Some v \<Rightarrow> v)"
  let ?v = "cstr v"
  define p where "p = nat (mn - int (length ?v))"
  have p: "(if mn - strlen v < 0 then 0 else mn - strlen v) = int p" by (simp add: p_def strlen_eq)
  have cut: "min a (nat (mx - int b)) = min a (nat mx - b)" for a b by auto
  show ?thesis
  proof (cases "flag flags DP_F_MINUS")
    case True
    have "fmtstr out value flags mn mx s =
        put_all out (replicate (min p (nat mx - min (length ?v) (nat mx))) 32)
          (put_all out (take (min (length ?v) (nat mx)) ?v) s)"
      unfolding fmtstr_def Let_def v_def [symmetric] p lead_loop_eq body_loop_eq tail_loop_eq
      using True by (simp add: cut)
    also have "\<dots> = put_all out (take (nat mx) (?v @ replicate p 32)) s"
    proof -
      have "take (min (length ?v) (nat mx)) ?v = take (nat mx) ?v"
        "nat mx - min (length ?v) (nat mx) = nat mx - length ?v" by (simp_all add: min_def)
      then show ?thesis by (simp add: put_all_append [symmetric] take_replicate min.commute)
    qed
    finally show ?thesis using True by (simp add: str_text_def Let_def v_def [symmetric] p_def)
  next
    case False
    have "fmtstr out value flags mn mx s =
        put_all out (take (min (length ?v) (nat mx - min p (nat mx))) ?v)
          (put_all out (replicate (min p (nat mx)) 32) s)"
      unfolding fmtstr_def Let_def v_def [symmetric] p lead_loop_eq body_loop_eq tail_loop_eq
      using False by (simp add: cut)
    also have "\<dots> = put_all out (take (nat mx) (replicate p 32 @ ?v)) s"
    proof -
      have a: "nat mx - min p (nat mx) = nat mx - p" by simp
      have b: "take (min (length ?v) k) ?v = take k ?v" for k by (simp add: min_def)
      have c: "take (nat mx) (replicate p 32 @ ?v) = replicate (min p (nat mx)) 32 @ take (nat mx - p) ?v"
        by (simp add: take_replicate min.commute)
      show ?thesis by (simp only: put_all_append [symmetric] a b c)
    qed
    finally show ?thesis using False by (simp add: str_text_def Let_def v_def [symmetric] p_def)
  qed
qed

subsection \<open>Integers\<close>

text \<open>The value of a digit, and of a list of digits with the lowest first.\<close>

definition dval :: "u8 \<Rightarrow> nat" where
  "dval c = (if 97 \<le> c then unat c - 87 else if 65 \<le> c then unat c - 55 else unat c - 48)"

fun low_value :: "nat \<Rightarrow> u8 list \<Rightarrow> nat" where
  "low_value bs [] = 0"
| "low_value bs (c # cs) = dval c + bs * low_value bs cs"

lemma digit_char_value:
  assumes "unat d < 16"
  shows "dval (digit_char caps d) = unat d" "digit_char caps d = 48 \<longleftrightarrow> d = 0"
    "48 \<le> digit_char caps d"
proof -
  have "unat d \<in> {0, 1, 2, 3, 4, 5, 6, 7, 8, 9, 10, 11, 12, 13, 14, 15}" using assms
    by (simp only: insert_iff empty_iff) presburger
  moreover have "d = 0 \<longleftrightarrow> unat d = 0" by (simp add: unat_eq_zero)
  ultimately show "dval (digit_char caps d) = unat d" "digit_char caps d = 48 \<longleftrightarrow> d = 0"
    "48 \<le> digit_char caps d"
    by (auto simp: digit_char_def dval_def)
qed

lemma conv_loop_value:
  assumes bs: "2 \<le> unat bs" "unat bs \<le> 16"
  shows "0 < k \<Longrightarrow> k + place \<le> 20 \<Longrightarrow> unat u < unat bs ^ k \<Longrightarrow>
    low_value (unat bs) (conv_loop caps bs u place) = unat u \<and>
    0 < length (conv_loop caps bs u place) \<and> length (conv_loop caps bs u place) \<le> k \<and>
    (last (conv_loop caps bs u place) = 48 \<longrightarrow> u = 0 \<and> conv_loop caps bs u place = [48])"
proof (induction k arbitrary: u place)
  case (Suc k)
  let ?d = "u mod bs" and ?q = "u div bs"
  have d: "unat ?d = unat u mod unat bs" "unat ?q = unat u div unat bs" by (simp_all add: unat_mod unat_div)
  have "unat ?d < unat bs" using bs(1) d(1) by simp
  then have lt: "unat ?d < 16" using bs(2) by linarith
  note D = digit_char_value [OF lt]
  show ?case
  proof (cases "?q = 0")
    case True
    then have "unat u div unat bs = 0" using d(2) by simp
    then have u: "unat u < unat bs" using bs(1) by (simp add: div_eq_0_iff)
    have c: "conv_loop caps bs u place = [digit_char caps ?d]"
      using True by (subst conv_loop.simps) simp
    have "?d = 0 \<longleftrightarrow> u = 0" using d(1) u by (simp add: unat_eq_zero [symmetric])
    then show ?thesis unfolding c using D(1,2) [of caps] u d(1) by auto
  next
    case False
    then have q: "0 < unat ?q" by (simp add: unat_gt_0)
    have "unat bs \<le> unat u" using q d(2) by (simp add: div_greater_zero_iff)
    have k: "0 < k"
    proof (rule ccontr)
      assume "\<not> 0 < k"
      then show False using Suc.prems(3) \<open>unat bs \<le> unat u\<close> by simp
    qed
    have "unat ?q < unat bs ^ k"
      using Suc.prems(3) unfolding d(2) by (simp add: less_mult_imp_div_less mult.commute)
    then have IH: "low_value (unat bs) (conv_loop caps bs ?q (place + 1)) = unat ?q \<and>
        0 < length (conv_loop caps bs ?q (place + 1)) \<and> length (conv_loop caps bs ?q (place + 1)) \<le> k \<and>
        (last (conv_loop caps bs ?q (place + 1)) = 48 \<longrightarrow> ?q = 0 \<and> conv_loop caps bs ?q (place + 1) = [48])"
      using Suc.IH [of "place + 1" ?q] k Suc.prems(2) by simp
    have c: "conv_loop caps bs u place = digit_char caps ?d # conv_loop caps bs ?q (place + 1)"
      using False k Suc.prems(2) by (subst conv_loop.simps) simp
    show ?thesis unfolding c using IH False D(1) d by auto
  qed
qed simp

text \<open>The digits of a number, highest first, and the text of an integer: sign, zeros up to the
  precision, digits, and spaces up to the width; the flag for zeros turns the spaces into zeros.\<close>

definition number_text :: "bool \<Rightarrow> u32 \<Rightarrow> u32 \<Rightarrow> u8 list" where
  "number_text caps bs u = rev (conv_loop caps bs u 0)"

definition sign_text :: "int \<Rightarrow> u32 \<Rightarrow> u8 list" where
  "sign_text value flags =
     (if flag flags DP_F_UNSIGNED then [] else if value < 0 then [45]
      else if flag flags DP_F_PLUS then [43] else if flag flags DP_F_SPACE then [32] else [])"

definition magnitude :: "int \<Rightarrow> u32 \<Rightarrow> u32" where
  "magnitude value flags =
     (if \<not> flag flags DP_F_UNSIGNED \<and> value < 0 then word_of_int (- value) else word_of_int value)"

definition int_text :: "int \<Rightarrow> u32 \<Rightarrow> int \<Rightarrow> int \<Rightarrow> u32 \<Rightarrow> u8 list" where
  "int_text value bs mn mx flags =
     (let sign = sign_text value flags;
          digits = number_text (flag flags DP_F_UP) bs (magnitude value flags);
          zeros = nat mx - length digits;
          fill = nat (mn - int (max (nat mx) (length digits)) - int (length sign))
      in if flag flags DP_F_ZERO then sign @ replicate (max zeros fill) 48 @ digits
         else if flag flags DP_F_MINUS then sign @ replicate zeros 48 @ digits @ replicate fill 32
         else replicate fill 32 @ sign @ replicate zeros 48 @ digits)"

definition good_base :: "u32 \<Rightarrow> bool" where
  "good_base bs \<longleftrightarrow> bs = 8 \<or> bs = 10 \<or> bs = 16"

lemma number_text_value:
  assumes "good_base bs"
  shows "low_value (unat bs) (rev (number_text caps bs u)) = unat u"
    "0 < length (number_text caps bs u)" "length (number_text caps bs u) \<le> 11"
    "hd (number_text caps bs u) = 48 \<longrightarrow> u = 0 \<and> number_text caps bs u = [48]"
proof -
  have bs: "2 \<le> unat bs" "unat bs \<le> 16" "8 \<le> unat bs" using assms by (auto simp: good_base_def)
  have "unat u < 2 ^ 32" using unsigned_less [where ?'a = nat, of u] by simp
  also have "(2 :: nat) ^ 32 < 8 ^ 11" by simp
  also have "(8 :: nat) ^ 11 \<le> unat bs ^ 11" using bs(3) by (rule power_mono) simp
  finally have u: "unat u < unat bs ^ 11" .
  note C = conv_loop_value [OF bs(1,2) _ _ u, of 0 caps]
  show "low_value (unat bs) (rev (number_text caps bs u)) = unat u"
    "0 < length (number_text caps bs u)" "length (number_text caps bs u) \<le> 11"
    "hd (number_text caps bs u) = 48 \<longrightarrow> u = 0 \<and> number_text caps bs u = [48]"
    using C by (auto simp: number_text_def hd_rev)
qed

lemma fmtint_eq:
  assumes "good_base bs"
  shows "fmtint out value bs mn mx flags s = put_all out (int_text value bs mn mx flags) s"
proof -
  define caps where "caps = flag flags DP_F_UP"
  define u where "u = magnitude value flags"
  define c where "c = conv_loop caps bs u 0"
  define ds where "ds = number_text caps bs u"
  have len: "length c = length ds" "ds = rev c" "length c < 20" "0 < length ds"
    using number_text_value [OF assms, of caps u] by (simp_all add: c_def ds_def number_text_def)
  define sg where "sg = sign_text value flags"
  define sv where "sv = (if flag flags DP_F_UNSIGNED then 0 else if value < 0 then 45
            else if flag flags DP_F_PLUS then 43 else if flag flags DP_F_SPACE then 32 else 0 :: u8)"
  have sg: "sg = (if sv \<noteq> 0 then [sv] else [])" by (simp add: sg_def sv_def sign_text_def)
  have sgl: "(if sv \<noteq> 0 then 1 else 0) = int (length sg)" unfolding sg by simp
  define m where "m = (if mx < 0 then 0 else mx)"
  have m: "nat mx = nat m" "0 \<le> m" by (simp_all add: m_def)
  define zs where "zs = nat mx - length ds"
  define fill where "fill = nat (mn - int (max (nat mx) (length ds)) - int (length sg))"
  have z: "(if m - int (length c) < 0 then 0 else m - int (length c)) = int zs"
    using m by (simp add: zs_def len(1))
  have f: "(if mn - (if m \<ge> int (length c) then m else int (length c)) - int (length sg) < 0 then 0
     else mn - (if m \<ge> int (length c) then m else int (length c)) - int (length sg)) = int fill"
    using m by (auto simp: fill_def len(1) max_def)
  have itext: "int_text value bs mn mx flags =
      (if flag flags DP_F_ZERO then sg @ replicate (max zs fill) 48 @ ds
         else if flag flags DP_F_MINUS then sg @ replicate zs 48 @ ds @ replicate fill 32
         else replicate fill 32 @ sg @ replicate zs 48 @ ds)"
    by (simp add: int_text_def Let_def sg_def ds_def caps_def u_def zs_def fill_def)
  have put_sign: "(if sv \<noteq> 0 then dopr_outch out sv t else t) = put_all out sg t" for t
    unfolding sg by simp
  have place: "(if length c = 20 then 19 else length c) = length c" using len(3) by simp
  show ?thesis
    unfolding fmtint_def Let_def itext
    unfolding caps_def [symmetric] sv_def [symmetric] m_def [symmetric]
      magnitude_def [symmetric] u_def [symmetric] c_def [symmetric] place sgl z f put_sign
    by (auto simp: pad_with_eq put_all_append len(2) max_def nat_minus_as_int)
qed

subsection \<open>Reading a number back\<close>

definition parse_number :: "u32 \<Rightarrow> u8 list \<Rightarrow> int" where
  "parse_number bs cs =
     (let t = dropWhile (\<lambda>c. c = 32) cs;
          ds = (if t \<noteq> [] \<and> (hd t = 45 \<or> hd t = 43) then tl t else t);
          v = int (low_value (unat bs) (rev (takeWhile (\<lambda>c. c \<noteq> 32) ds)))
      in if t \<noteq> [] \<and> hd t = 45 then - v else v)"

lemma digit_char_ge: "unat d < 16 \<Longrightarrow> 48 \<le> digit_char caps d"
  by (rule digit_char_value(3))

lemma conv_loop_digits:
  assumes bs: "2 \<le> unat bs" "unat bs \<le> 16"
  shows "c \<in> set (conv_loop caps bs u place) \<Longrightarrow> 48 \<le> c"
proof (induction n \<equiv> "20 - place" arbitrary: u place rule: less_induct)
  case less
  have "unat (u mod bs) < 16" using bs by (simp add: unat_mod less_le_trans [OF mod_less_divisor])
  then have d: "48 \<le> digit_char caps (u mod bs)" by (rule digit_char_ge)
  have "c = digit_char caps (u mod bs) \<or>
      u div bs \<noteq> 0 \<and> place + 1 < 20 \<and> c \<in> set (conv_loop caps bs (u div bs) (place + 1))"
    using less.prems by (subst (asm) conv_loop.simps) (auto split: if_splits)
  then show ?case
  proof (elim disjE conjE)
    assume p: "place + 1 < 20" and c: "c \<in> set (conv_loop caps bs (u div bs) (place + 1))"
    have "20 - (place + 1) < 20 - place" using p by simp
    from less.hyps [OF this c] show ?thesis .
  qed (use d in simp)
qed

lemma low_value_zeros: "low_value bs (ds @ replicate n 48) = low_value bs ds"
  by (induction ds) (simp_all, induction n, simp_all add: dval_def)

text \<open>A number with zeros in front parses to itself, whatever is put before and after.\<close>

lemma parse_padded:
  assumes bs: "good_base bs" and ds: "ds = number_text caps bs u"
    and sg: "sg \<in> {[], [45], [43], [32]}"
  shows "parse_number bs (replicate a 32 @ sg @ replicate z 48 @ ds @ replicate b 32) =
    (if sg = [45] then - int (unat u) else int (unat u))"
proof -
  have b: "2 \<le> unat bs" "unat bs \<le> 16" using bs by (auto simp: good_base_def)
  let ?n = "replicate z 48 @ ds"
  have ne: "?n \<noteq> []" using number_text_value(2) [OF bs, of caps u] ds by auto
  have ge: "48 \<le> c" if "c \<in> set ?n" for c
    using that conv_loop_digits [OF b] by (auto simp: ds number_text_def split: if_splits)
  have sp: "c \<noteq> 32" "c \<noteq> 45" "c \<noteq> 43" if "c \<in> set ?n" for c
    using ge [OF that] by auto
  obtain x xs where n: "?n = x # xs" using ne by (cases ?n) auto
  have x: "x \<noteq> 32" "x \<noteq> 45" "x \<noteq> 43" using sp [of x] n by auto
  have skip: "dropWhile (\<lambda>c. c = 32) (replicate a 32 @ t) = dropWhile (\<lambda>c. c = 32) t" for a and t :: "u8 list"
    by (induction a) simp_all
  have tk: "takeWhile (\<lambda>c. c \<noteq> 32) (?n @ replicate b 32) = ?n"
    using sp(1) by (subst takeWhile_append2) (auto simp: takeWhile_replicate)
  have v: "low_value (unat bs) (rev ?n) = unat u"
    using number_text_value(1) [OF bs, of caps u] ds by (simp add: low_value_zeros)
  have t: "dropWhile (\<lambda>c. c = 32) (sg @ ?n @ replicate b 32) = (if sg = [32] then [] else sg) @ ?n @ replicate b 32"
    using sg x(1) unfolding n by auto
  have "parse_number bs (replicate a 32 @ sg @ ?n @ replicate b 32) =
      (if sg = [45] then - int (low_value (unat bs) (rev ?n)) else int (low_value (unat bs) (rev ?n)))"
  proof (cases "sg = [] \<or> sg = [32]")
    case True
    have "dropWhile (\<lambda>c. c = 32) (replicate a 32 @ sg @ ?n @ replicate b 32) = ?n @ replicate b 32"
      unfolding skip t using True by auto
    moreover have "hd (?n @ replicate b 32) = x" unfolding n by simp
    ultimately show ?thesis using True x ne tk unfolding parse_number_def Let_def by auto
  next
    case False
    then have s: "sg = [45] \<or> sg = [43]" using sg by auto
    have "dropWhile (\<lambda>c. c = 32) (replicate a 32 @ sg @ ?n @ replicate b 32) = sg @ ?n @ replicate b 32"
      unfolding skip t using s by auto
    then show ?thesis using s tk unfolding parse_number_def Let_def by auto
  qed
  then show ?thesis unfolding v by simp
qed

text \<open>C38: Printing an integer and reading it back.  Whatever the flags, the field width and the
  precision, the text \<^verbatim>\<open>fmtint\<close> puts out in base 8, 10 or 16 reads back as the value: as the
  signed value without the flag for unsigned conversions, and modulo \<open>2 ^ 32\<close> with it.  The
  smallest integer, whose negation overflows, is included.\<close>

theorem fmtint_roundtrip:
  assumes "bs = 8 \<or> bs = 10 \<or> bs = 16" and "- (2 ^ 31) \<le> value" and "value < 2 ^ 31"
  shows "parse_number bs (sink (fmtint (\<lambda>c cs. cs @ [c]) value bs mn mx flags
      \<lparr>sink = [], currlen = 0, stores = []\<rparr>)) =
    (if flag flags DP_F_UNSIGNED then value mod 2 ^ 32 else value)"
proof -
  have bs: "good_base bs" using assms(1) by (simp add: good_base_def)
  have app: "fold (\<lambda>c cs. cs @ [c]) t [] = t" for t :: "u8 list"
    by (induction t rule: rev_induct) simp_all
  define ds where "ds = number_text (flag flags DP_F_UP) bs (magnitude value flags)"
  have sg: "sign_text value flags \<in> {[], [45], [43], [32]}" by (simp add: sign_text_def)
  obtain a z b where "int_text value bs mn mx flags =
      replicate a 32 @ sign_text value flags @ replicate z 48 @ ds @ replicate b 32"
  proof -
    have "\<exists>a z b. int_text value bs mn mx flags =
        replicate a 32 @ sign_text value flags @ replicate z 48 @ ds @ replicate b 32"
      unfolding int_text_def Let_def ds_def [symmetric]
      by (metis append_Nil append_Nil2 replicate_0)
    then show thesis using that by blast
  qed
  then have "parse_number bs (int_text value bs mn mx flags) =
      (if sign_text value flags = [45] then - int (unat (magnitude value flags)) else int (unat (magnitude value flags)))"
    using parse_padded [OF bs ds_def sg] by simp
  moreover have "int (unat (magnitude value flags)) =
      (if flag flags DP_F_UNSIGNED then value mod 2 ^ 32 else \<bar>value\<bar>)"
  proof -
    have "uint (word_of_int (- value) :: u32) = (- value) mod 2 ^ 32" by (subst uint_word_of_int) simp
    then have "value < 0 \<Longrightarrow> uint (word_of_int (- value) :: u32) = - value"
      using assms(2) by (simp del: of_int_minus)
    then show ?thesis using assms(2,3) by (auto simp: magnitude_def uint_word_of_int simp del: of_int_minus)
  qed
  moreover have "sign_text value flags = [45] \<longleftrightarrow> \<not> flag flags DP_F_UNSIGNED \<and> value < 0"
    by (simp add: sign_text_def)
  ultimately show ?thesis by (simp add: fmtint_eq [OF bs] app)
qed

lemma fmtint_roundtrip_witness:
  "parse_number 16 (sink (fmtint (\<lambda>c cs. cs @ [c]) (- 255) 16 8 4 0 \<lparr>sink = [], currlen = 0, stores = []\<rparr>)) = - 255"
  using fmtint_roundtrip [of 16 "- 255" 8 4 0] by (simp add: flag_def)

section \<open>Whole formats\<close>

text \<open>
  A format as a sequence of pieces: plain characters, the percent sign, and conversions with
  flags, width digits, precision digits, a length letter and the argument word.
\<close>

datatype conv_kind = CDec | COct | CUns | CHex | CHEX | CPtr | CChr | CStr

datatype piece =
    Lit u8
  | Percent
  | Conv "u8 list" "u8 list" "u8 list option" "u8 list" conv_kind u32

fun kind_char :: "conv_kind \<Rightarrow> u8" where
  "kind_char CDec = 100"
| "kind_char COct = 111"
| "kind_char CUns = 117"
| "kind_char CHex = 120"
| "kind_char CHEX = 88"
| "kind_char CPtr = 112"
| "kind_char CChr = 99"
| "kind_char CStr = 115"

fun encode_piece :: "piece \<Rightarrow> cstring" where
  "encode_piece (Lit c) = [c]"
| "encode_piece Percent = [37, 37]"
| "encode_piece (Conv fl w p md k x) =
     37 # fl @ w @ (case p of None \<Rightarrow> [] | Some ds \<Rightarrow> 46 # ds) @ md @ [kind_char k]"

definition digit :: "u8 \<Rightarrow> bool" where
  "digit c \<longleftrightarrow> isdigit (sint c)"

fun piece_ok :: "piece \<Rightarrow> bool" where
  "piece_ok (Lit c) \<longleftrightarrow> c \<noteq> 0 \<and> c \<noteq> 37"
| "piece_ok Percent \<longleftrightarrow> True"
| "piece_ok (Conv fl w p md k x) \<longleftrightarrow>
     set fl \<subseteq> {45, 43, 32, 35, 48} \<and> list_all digit w \<and> (w = [] \<or> hd w \<noteq> 48) \<and>
     (case p of None \<Rightarrow> True | Some ds \<Rightarrow> list_all digit ds) \<and> md \<in> {[], [104], [108], [76]}"

fun piece_args :: "piece \<Rightarrow> u32 list" where
  "piece_args (Conv fl w p md k x) = [x]"
| "piece_args q = []"

definition flag_bit :: "u8 \<Rightarrow> u32" where
  "flag_bit c = (if c = 45 then DP_F_MINUS else if c = 43 then DP_F_PLUS else if c = 32 then DP_F_SPACE
     else if c = 35 then DP_F_NUM else DP_F_ZERO)"

definition flag_bits :: "u32 \<Rightarrow> u8 list \<Rightarrow> u32" where
  "flag_bits f fl = fold (\<lambda>c f. f OR flag_bit c) fl f"

definition digits_value :: "int \<Rightarrow> u8 list \<Rightarrow> int" where
  "digits_value n ds = foldl (\<lambda>n c. 10 * n + (sint c - 48)) n ds"

definition precision :: "u8 list option \<Rightarrow> int" where
  "precision p = (case p of None \<Rightarrow> - 1 | Some ds \<Rightarrow> if ds = [] then - 1 else digits_value 0 ds)"

fun conv_text :: "(u32 \<Rightarrow> cstring) \<Rightarrow> int \<Rightarrow> conv_kind \<Rightarrow> u32 \<Rightarrow> int \<Rightarrow> int \<Rightarrow> u32 \<Rightarrow> u8 list" where
  "conv_text str_at maxlen CDec x mn mx f = int_text (sint x) 10 mn mx f"
| "conv_text str_at maxlen COct x mn mx f = int_text (sint x) 8 mn mx (f OR DP_F_UNSIGNED)"
| "conv_text str_at maxlen CUns x mn mx f = int_text (sint x) 10 mn mx (f OR DP_F_UNSIGNED)"
| "conv_text str_at maxlen CHex x mn mx f = int_text (sint x) 16 mn mx (f OR DP_F_UNSIGNED)"
| "conv_text str_at maxlen CHEX x mn mx f = int_text (sint x) 16 mn mx (f OR (DP_F_UP OR DP_F_UNSIGNED))"
| "conv_text str_at maxlen CPtr x mn mx f = int_text (sint x) 16 mn mx f"
| "conv_text str_at maxlen CChr x mn mx f = [ucast x]"
| "conv_text str_at maxlen CStr x mn mx f =
     str_text (if x = 0 then None else Some (str_at x)) f mn (if mx < 0 then maxlen else mx)"

fun piece_text :: "(u32 \<Rightarrow> cstring) \<Rightarrow> int \<Rightarrow> piece \<Rightarrow> u8 list" where
  "piece_text str_at maxlen (Lit c) = [c]"
| "piece_text str_at maxlen Percent = [37]"
| "piece_text str_at maxlen (Conv fl w p md k x) =
     conv_text str_at maxlen k x (digits_value 0 w) (precision p) (flag_bits 0 fl)"

text \<open>The state with a given input still to be read.\<close>

definition dp_at :: "dstate \<Rightarrow> cstring \<Rightarrow> u32 list \<Rightarrow> int \<Rightarrow> int \<Rightarrow> u32 \<Rightarrow> dcflag \<Rightarrow> 's pr \<Rightarrow> 's dp" where
  "dp_at st inp va mn mx f cf s =
     \<lparr>dp_state = st, dp_ch = hd inp, dp_format = tl inp, dp_args = va, dp_min = mn, dp_max = mx,
      dp_flags = f, dp_cflags = cf, dp_pr = s\<rparr>"

lemma dp_at_simps [simp]:
  "dp_state (dp_at st inp va mn mx f cf s) = st" "dp_ch (dp_at st inp va mn mx f cf s) = hd inp"
  "dp_format (dp_at st inp va mn mx f cf s) = tl inp" "dp_args (dp_at st inp va mn mx f cf s) = va"
  "dp_min (dp_at st inp va mn mx f cf s) = mn" "dp_max (dp_at st inp va mn mx f cf s) = mx"
  "dp_flags (dp_at st inp va mn mx f cf s) = f" "dp_cflags (dp_at st inp va mn mx f cf s) = cf"
  "dp_pr (dp_at st inp va mn mx f cf s) = s"
  "(dp_at st inp va mn mx f cf s)\<lparr>dp_state := st'\<rparr> = dp_at st' inp va mn mx f cf s"
  "(dp_at st inp va mn mx f cf s)\<lparr>dp_args := va'\<rparr> = dp_at st inp va' mn mx f cf s"
  "(dp_at st inp va mn mx f cf s)\<lparr>dp_min := mn'\<rparr> = dp_at st inp va mn' mx f cf s"
  "(dp_at st inp va mn mx f cf s)\<lparr>dp_max := mx'\<rparr> = dp_at st inp va mn mx' f cf s"
  "(dp_at st inp va mn mx f cf s)\<lparr>dp_flags := f'\<rparr> = dp_at st inp va mn mx f' cf s"
  "(dp_at st inp va mn mx f cf s)\<lparr>dp_cflags := cf'\<rparr> = dp_at st inp va mn mx f cf' s"
  "(dp_at st inp va mn mx f cf s)\<lparr>dp_pr := s'\<rparr> = dp_at st inp va mn mx f cf s'"
  by (simp_all add: dp_at_def)

lemma next_ch_at [simp]: "next_ch (dp_at st (c # c' # r) va mn mx f cf s) = Inr (dp_at st (c' # r) va mn mx f cf s)"
  by (simp add: next_ch_def dp_at_def)

lemma next_ch_at': "r \<noteq> [] \<Longrightarrow> next_ch (dp_at st (c # r) va mn mx f cf s) = Inr (dp_at st r va mn mx f cf s)"
  by (cases r) simp_all

lemma dopr_loop_step:
  assumes "dopr_step out fp str_at maxlen (dp_at st inp va mn mx f cf s) = Inr d'"
    and "st \<noteq> DP_S_DONE" and "hd inp \<noteq> 0" and "currlen s < maxlen"
  shows "dopr_loop out fp str_at maxlen (dp_at st inp va mn mx f cf s) = dopr_loop out fp str_at maxlen d'"
  using assms by (subst dopr_loop.simps) (simp add: dopr_end_def)

lemma run_flags:
  assumes "currlen s < maxlen" and "r \<noteq> []"
  shows "set fl \<subseteq> {45, 43, 32, 35, 48} \<Longrightarrow>
    dopr_loop out fp str_at maxlen (dp_at DP_S_FLAGS (fl @ r) va mn mx f cf s) =
    dopr_loop out fp str_at maxlen (dp_at DP_S_FLAGS r va mn mx (flag_bits f fl) cf s)"
proof (induction fl arbitrary: f)
  case (Cons c fl)
  have ne: "fl @ r \<noteq> []" using assms(2) by simp
  have c: "c = 45 \<or> c = 43 \<or> c = 32 \<or> c = 35 \<or> c = 48" using Cons.prems by simp
  then have "dopr_step out fp str_at maxlen (dp_at DP_S_FLAGS (c # fl @ r) va mn mx f cf s) =
      Inr (dp_at DP_S_FLAGS (fl @ r) va mn mx (f OR flag_bit c) cf s)"
    by (elim disjE) (simp_all add: dopr_step_def next_ch_at' [OF ne] flag_bit_def)
  from dopr_loop_step [OF this] assms(1) c
  have "dopr_loop out fp str_at maxlen (dp_at DP_S_FLAGS (c # fl @ r) va mn mx f cf s) =
      dopr_loop out fp str_at maxlen (dp_at DP_S_FLAGS (fl @ r) va mn mx (f OR flag_bit c) cf s)" by auto
  then show ?case using Cons by (simp add: flag_bits_def)
qed (simp add: flag_bits_def)

lemma run_min:
  assumes "currlen s < maxlen" and "r \<noteq> []"
  shows "list_all digit w \<Longrightarrow>
    dopr_loop out fp str_at maxlen (dp_at DP_S_MIN (w @ r) va mn mx f cf s) =
    dopr_loop out fp str_at maxlen (dp_at DP_S_MIN r va (digits_value mn w) mx f cf s)"
proof (induction w arbitrary: mn)
  case (Cons c w)
  have ne: "w @ r \<noteq> []" using assms(2) by simp
  have c: "isdigit (sint c)" "c \<noteq> 0" using Cons.prems by (auto simp: digit_def isdigit_def)
  then have "dopr_step out fp str_at maxlen (dp_at DP_S_MIN (c # w @ r) va mn mx f cf s) =
      Inr (dp_at DP_S_MIN (w @ r) va (10 * mn + (sint c - 48)) mx f cf s)"
    by (simp add: dopr_step_def next_ch_at' [OF ne])
  from dopr_loop_step [OF this] assms(1) c(2)
  have "dopr_loop out fp str_at maxlen (dp_at DP_S_MIN (c # w @ r) va mn mx f cf s) =
      dopr_loop out fp str_at maxlen (dp_at DP_S_MIN (w @ r) va (10 * mn + (sint c - 48)) mx f cf s)" by simp
  then show ?case using Cons by (simp add: digits_value_def)
qed (simp add: digits_value_def)

lemma run_max:
  assumes "currlen s < maxlen" and "r \<noteq> []"
  shows "list_all digit w \<Longrightarrow> 0 \<le> mx \<or> w \<noteq> [] \<Longrightarrow>
    dopr_loop out fp str_at maxlen (dp_at DP_S_MAX (w @ r) va mn mx f cf s) =
    dopr_loop out fp str_at maxlen (dp_at DP_S_MAX r va mn (digits_value (if mx < 0 then 0 else mx) w) f cf s)"
proof (induction w arbitrary: mx)
  case (Cons c w)
  let ?m = "if mx < 0 then 0 else mx"
  have ne: "w @ r \<noteq> []" using assms(2) by simp
  have c: "isdigit (sint c)" "c \<noteq> 0" "48 \<le> sint c" using Cons.prems by (auto simp: digit_def isdigit_def)
  then have "dopr_step out fp str_at maxlen (dp_at DP_S_MAX (c # w @ r) va mn mx f cf s) =
      Inr (dp_at DP_S_MAX (w @ r) va mn (10 * ?m + (sint c - 48)) f cf s)"
    by (simp add: dopr_step_def next_ch_at' [OF ne])
  from dopr_loop_step [OF this] assms(1) c(2)
  have s: "dopr_loop out fp str_at maxlen (dp_at DP_S_MAX (c # w @ r) va mn mx f cf s) =
      dopr_loop out fp str_at maxlen (dp_at DP_S_MAX (w @ r) va mn (10 * ?m + (sint c - 48)) f cf s)" by simp
  have "0 \<le> 10 * ?m + (sint c - 48)" using c(3) by simp
  then show ?case using Cons s by (auto simp: digits_value_def)
qed (simp add: digits_value_def)

lemma step_conv:
  assumes "rest \<noteq> []"
  shows "dopr_step out fp str_at maxlen (dp_at DP_S_CONV (kind_char k # rest) (x # va) mn mx f cf s) =
    Inr (dp_at DP_S_DEFAULT rest va 0 (- 1) 0 DP_C_NONE (put_all out (conv_text str_at maxlen k x mn mx f) s))"
proof -
  have fmt: "fmtint out v bs mn mx f s = put_all out (int_text v bs mn mx f) s" if "bs = 8 \<or> bs = 10 \<or> bs = 16" for v bs f
    using that by (intro fmtint_eq) (simp add: good_base_def)
  show ?thesis
    by (cases k) (simp_all add: dopr_step_def dopr_conv_def put_int_def va_arg_def Let_def fmt fmtstr_eq
      next_ch_at' [OF assms])
qed

lemma conv_head:
  assumes "md \<in> {[], [104], [108], [76]}"
  obtains c t where "md @ kind_char k # rest = c # t"
    "c \<in> {104, 108, 76, 100, 111, 117, 120, 88, 112, 99, 115}"
proof -
  have "kind_char k \<in> {100, 111, 117, 120, 88, 112, 99, 115}" by (cases k) simp_all
  then show thesis using assms that by auto
qed

lemma conv_head_facts:
  assumes "c \<in> {104, 108, 76, 100, 111, 117, 120, 88, 112, 99, 115 :: u8}"
  shows "c \<noteq> 0" "c \<noteq> 42" "c \<noteq> 46" "\<not> isdigit (sint c)" "c \<notin> {45, 43, 32, 35, 48}"
  using assms by (auto simp: isdigit_def)

lemma run_mod:
  assumes md: "md \<in> {[], [104], [108], [76]}" and lt: "currlen s < maxlen" and rest: "rest \<noteq> []"
  shows "dopr_loop out fp str_at maxlen (dp_at DP_S_MOD (md @ kind_char k # rest) (x # va) mn mx f DP_C_NONE s) =
    dopr_loop out fp str_at maxlen (dp_at DP_S_DEFAULT rest va 0 (- 1) 0 DP_C_NONE
      (put_all out (conv_text str_at maxlen k x mn mx f) s))"
proof -
  have k: "kind_char k \<noteq> 0" "kind_char k \<notin> {104, 108, 76}" by (cases k; simp)+
  have "\<exists>cf. dopr_step out fp str_at maxlen (dp_at DP_S_MOD (md @ kind_char k # rest) (x # va) mn mx f DP_C_NONE s) =
      Inr (dp_at DP_S_CONV (kind_char k # rest) (x # va) mn mx f cf s)"
    using md k(2) by (elim insertE emptyE) (simp_all add: dopr_step_def, (rule exI, rule refl)+)
  then obtain cf where
    "dopr_step out fp str_at maxlen (dp_at DP_S_MOD (md @ kind_char k # rest) (x # va) mn mx f DP_C_NONE s) =
      Inr (dp_at DP_S_CONV (kind_char k # rest) (x # va) mn mx f cf s)" ..
  moreover have "hd (md @ kind_char k # rest) \<noteq> 0" using md k(1) by auto
  ultimately have "dopr_loop out fp str_at maxlen (dp_at DP_S_MOD (md @ kind_char k # rest) (x # va) mn mx f DP_C_NONE s) =
      dopr_loop out fp str_at maxlen (dp_at DP_S_CONV (kind_char k # rest) (x # va) mn mx f cf s)"
    using lt by (intro dopr_loop_step) simp_all
  also have "\<dots> = dopr_loop out fp str_at maxlen (dp_at DP_S_DEFAULT rest va 0 (- 1) 0 DP_C_NONE
      (put_all out (conv_text str_at maxlen k x mn mx f) s))"
    using k(1) lt by (intro dopr_loop_step step_conv [OF rest]) simp_all
  finally show ?thesis .
qed

lemma run_dot:
  assumes md: "md \<in> {[], [104], [108], [76]}" and lt: "currlen s < maxlen" and rest: "rest \<noteq> []"
    and p: "case p of None \<Rightarrow> True | Some ds \<Rightarrow> list_all digit ds"
  shows "dopr_loop out fp str_at maxlen (dp_at DP_S_DOT
      ((case p of None \<Rightarrow> [] | Some ds \<Rightarrow> 46 # ds) @ md @ kind_char k # rest) (x # va) mn (- 1) f DP_C_NONE s) =
    dopr_loop out fp str_at maxlen (dp_at DP_S_DEFAULT rest va 0 (- 1) 0 DP_C_NONE
      (put_all out (conv_text str_at maxlen k x mn (precision p) f) s))"
proof -
  let ?t = "md @ kind_char k # rest"
  obtain c t where h: "?t = c # t" "c \<in> {104, 108, 76, 100, 111, 117, 120, 88, 112, 99, 115}"
    by (rule conv_head [OF md])
  note H = conv_head_facts [OF h(2)]
  note M = run_mod [OF md lt rest]
  show ?thesis
  proof (cases p)
    case None
    have "dopr_step out fp str_at maxlen (dp_at DP_S_DOT ?t (x # va) mn (- 1) f DP_C_NONE s) =
        Inr (dp_at DP_S_MOD ?t (x # va) mn (- 1) f DP_C_NONE s)"
      unfolding h(1) using H(3) by (simp add: dopr_step_def)
    from dopr_loop_step [OF this] have "dopr_loop out fp str_at maxlen (dp_at DP_S_DOT ?t (x # va) mn (- 1) f DP_C_NONE s) =
        dopr_loop out fp str_at maxlen (dp_at DP_S_MOD ?t (x # va) mn (- 1) f DP_C_NONE s)"
      using lt H(1) unfolding h(1) by simp
    then show ?thesis using None M [of out fp str_at k x va mn "- 1" f] by (simp add: precision_def)
  next
    case (Some ds)
    have ne: "ds @ ?t \<noteq> []" by simp
    have "dopr_step out fp str_at maxlen (dp_at DP_S_DOT (46 # ds @ ?t) (x # va) mn (- 1) f DP_C_NONE s) =
        Inr (dp_at DP_S_MAX (ds @ ?t) (x # va) mn (- 1) f DP_C_NONE s)"
      by (simp add: dopr_step_def next_ch_at' [OF ne])
    from dopr_loop_step [OF this] have 1: "dopr_loop out fp str_at maxlen (dp_at DP_S_DOT (46 # ds @ ?t) (x # va) mn (- 1) f DP_C_NONE s) =
        dopr_loop out fp str_at maxlen (dp_at DP_S_MAX (ds @ ?t) (x # va) mn (- 1) f DP_C_NONE s)"
      using lt by simp
    have 2: "dopr_loop out fp str_at maxlen (dp_at DP_S_MAX (ds @ ?t) (x # va) mn (- 1) f DP_C_NONE s) =
        dopr_loop out fp str_at maxlen (dp_at DP_S_MAX ?t (x # va) mn (precision p) f DP_C_NONE s)"
    proof (cases "ds = []")
      case False
      have "list_all digit ds" using p Some by simp
      from run_max [OF lt _ this, of ?t "- 1" out fp str_at "x # va" mn f DP_C_NONE] False
      show ?thesis by (simp add: precision_def Some)
    qed (simp add: precision_def Some)
    have "dopr_step out fp str_at maxlen (dp_at DP_S_MAX ?t (x # va) mn (precision p) f DP_C_NONE s) =
        Inr (dp_at DP_S_MOD ?t (x # va) mn (precision p) f DP_C_NONE s)"
      unfolding h(1) using H(2,4) by (simp add: dopr_step_def)
    from dopr_loop_step [OF this] have 3: "dopr_loop out fp str_at maxlen (dp_at DP_S_MAX ?t (x # va) mn (precision p) f DP_C_NONE s) =
        dopr_loop out fp str_at maxlen (dp_at DP_S_MOD ?t (x # va) mn (precision p) f DP_C_NONE s)"
      using lt H(1) unfolding h(1) by simp
    show ?thesis using 1 2 3 M [of out fp str_at k x va mn "precision p" f] by (simp add: Some)
  qed
qed

text \<open>The character after the flags and after the width starts the next part.\<close>

lemma tail_head:
  assumes md: "md \<in> {[], [104], [108], [76]}"
  obtains c t where "(case p of None \<Rightarrow> [] | Some ds \<Rightarrow> 46 # ds) @ md @ kind_char k # rest = c # t"
    "c \<noteq> 0" "c \<noteq> 42" "\<not> isdigit (sint c)" "c \<notin> {45, 43, 32, 35, 48}"
proof (cases p)
  case None
  obtain c t where h: "md @ kind_char k # rest = c # t" "c \<in> {104, 108, 76, 100, 111, 117, 120, 88, 112, 99, 115}"
    by (rule conv_head [OF md])
  then show thesis using that [of c t] None conv_head_facts [OF h(2)] by simp
next
  case (Some ds)
  then show thesis using that [of 46] by (simp add: isdigit_def)
qed

lemma run_conv:
  assumes ok: "piece_ok (Conv fl w p md k x)" and lt: "currlen s < maxlen" and rest: "rest \<noteq> []"
  shows "dopr_loop out fp str_at maxlen
      (dp_at DP_S_DEFAULT (encode_piece (Conv fl w p md k x) @ rest) (x # va) 0 (- 1) 0 DP_C_NONE s) =
    dopr_loop out fp str_at maxlen (dp_at DP_S_DEFAULT rest va 0 (- 1) 0 DP_C_NONE
      (put_all out (piece_text str_at maxlen (Conv fl w p md k x)) s))"
proof -
  let ?t = "(case p of None \<Rightarrow> [] | Some ds \<Rightarrow> 46 # ds) @ md @ kind_char k # rest"
  let ?f = "flag_bits 0 fl" and ?m = "digits_value 0 w"
  have md: "md \<in> {[], [104], [108], [76]}" and fl: "set fl \<subseteq> {45, 43, 32, 35, 48}"
    and w: "list_all digit w" "w = [] \<or> hd w \<noteq> 48" and p: "case p of None \<Rightarrow> True | Some ds \<Rightarrow> list_all digit ds"
    using ok by simp_all
  obtain c t where h: "?t = c # t" "c \<noteq> 0" "c \<noteq> 42" "\<not> isdigit (sint c)" "c \<notin> {45, 43, 32, 35, 48}"
    by (rule tail_head [OF md])
  have ne: "fl @ w @ ?t \<noteq> []" unfolding h(1) by simp
  have 1: "dopr_loop out fp str_at maxlen (dp_at DP_S_DEFAULT (37 # fl @ w @ ?t) (x # va) 0 (- 1) 0 DP_C_NONE s) =
      dopr_loop out fp str_at maxlen (dp_at DP_S_FLAGS (fl @ w @ ?t) (x # va) 0 (- 1) 0 DP_C_NONE s)"
    using lt by (intro dopr_loop_step) (simp_all add: dopr_step_def next_ch_at' [OF ne])
  have 2: "dopr_loop out fp str_at maxlen (dp_at DP_S_FLAGS (fl @ w @ ?t) (x # va) 0 (- 1) 0 DP_C_NONE s) =
      dopr_loop out fp str_at maxlen (dp_at DP_S_FLAGS (w @ ?t) (x # va) 0 (- 1) ?f DP_C_NONE s)"
    using ne by (intro run_flags [OF lt _ fl]) (simp add: h(1))
  obtain c' t' where h': "w @ ?t = c' # t'" "c' \<noteq> 0" "c' \<notin> {45, 43, 32, 35, 48}"
  proof (cases w)
    case (Cons a as)
    then have "digit a" "a \<noteq> 48" using w by simp_all
    then have "a \<noteq> 0" "a \<notin> {45, 43, 32, 35, 48}" by (auto simp: digit_def isdigit_def)
    then show thesis using that [of a "as @ ?t"] Cons by simp
  qed (use h that in simp)
  have "dopr_step out fp str_at maxlen (dp_at DP_S_FLAGS (w @ ?t) (x # va) 0 (- 1) ?f DP_C_NONE s) =
      Inr (dp_at DP_S_MIN (w @ ?t) (x # va) 0 (- 1) ?f DP_C_NONE s)"
    unfolding h'(1) using h'(3) by (simp add: dopr_step_def)
  then have 3: "dopr_loop out fp str_at maxlen (dp_at DP_S_FLAGS (w @ ?t) (x # va) 0 (- 1) ?f DP_C_NONE s) =
      dopr_loop out fp str_at maxlen (dp_at DP_S_MIN (w @ ?t) (x # va) 0 (- 1) ?f DP_C_NONE s)"
    using lt h'(2) unfolding h'(1) by (intro dopr_loop_step) simp_all
  have 4: "dopr_loop out fp str_at maxlen (dp_at DP_S_MIN (w @ ?t) (x # va) 0 (- 1) ?f DP_C_NONE s) =
      dopr_loop out fp str_at maxlen (dp_at DP_S_MIN ?t (x # va) ?m (- 1) ?f DP_C_NONE s)"
    by (intro run_min [OF lt _ w(1)]) (simp add: h(1))
  have "dopr_step out fp str_at maxlen (dp_at DP_S_MIN ?t (x # va) ?m (- 1) ?f DP_C_NONE s) =
      Inr (dp_at DP_S_DOT ?t (x # va) ?m (- 1) ?f DP_C_NONE s)"
    unfolding h(1) using h(3,4) by (simp add: dopr_step_def)
  then have 5: "dopr_loop out fp str_at maxlen (dp_at DP_S_MIN ?t (x # va) ?m (- 1) ?f DP_C_NONE s) =
      dopr_loop out fp str_at maxlen (dp_at DP_S_DOT ?t (x # va) ?m (- 1) ?f DP_C_NONE s)"
    using lt h(2) unfolding h(1) by (intro dopr_loop_step) simp_all
  show ?thesis
    using 1 2 3 4 5 run_dot [OF md lt rest p, of out fp str_at k x va ?m ?f] by simp
qed

lemma run_piece:
  assumes ok: "piece_ok q" and lt: "currlen s < maxlen" and rest: "rest \<noteq> []"
  shows "dopr_loop out fp str_at maxlen
      (dp_at DP_S_DEFAULT (encode_piece q @ rest) (piece_args q @ va) 0 (- 1) 0 DP_C_NONE s) =
    dopr_loop out fp str_at maxlen (dp_at DP_S_DEFAULT rest va 0 (- 1) 0 DP_C_NONE
      (put_all out (piece_text str_at maxlen q) s))"
proof (cases q)
  case (Lit c)
  have "dopr_step out fp str_at maxlen (dp_at DP_S_DEFAULT (c # rest) va 0 (- 1) 0 DP_C_NONE s) =
      Inr (dp_at DP_S_DEFAULT rest va 0 (- 1) 0 DP_C_NONE (dopr_outch out c s))"
    using ok Lit by (simp add: dopr_step_def next_ch_at' [OF rest])
  from dopr_loop_step [OF this] show ?thesis using ok lt Lit by simp
next
  case Percent
  have s: "dopr_loop out fp str_at maxlen (dp_at st (37 # r) va 0 (- 1) 0 DP_C_NONE s) = dopr_loop out fp str_at maxlen d'"
    if "dopr_step out fp str_at maxlen (dp_at st (37 # r) va 0 (- 1) 0 DP_C_NONE s) = Inr d'" "st \<noteq> DP_S_DONE" for st r d'
    using lt by (intro dopr_loop_step [OF that]) simp_all
  obtain a t where rest': "rest = a # t" using rest by (cases rest) auto
  have 1: "dopr_loop out fp str_at maxlen (dp_at DP_S_DEFAULT (37 # 37 # rest) va 0 (- 1) 0 DP_C_NONE s) =
      dopr_loop out fp str_at maxlen (dp_at DP_S_FLAGS (37 # rest) va 0 (- 1) 0 DP_C_NONE s)"
    by (rule s) (simp_all add: dopr_step_def)
  have 2: "dopr_loop out fp str_at maxlen (dp_at DP_S_FLAGS (37 # rest) va 0 (- 1) 0 DP_C_NONE s) =
      dopr_loop out fp str_at maxlen (dp_at DP_S_MIN (37 # rest) va 0 (- 1) 0 DP_C_NONE s)"
    by (rule s) (simp_all add: dopr_step_def)
  have 3: "dopr_loop out fp str_at maxlen (dp_at DP_S_MIN (37 # rest) va 0 (- 1) 0 DP_C_NONE s) =
      dopr_loop out fp str_at maxlen (dp_at DP_S_DOT (37 # rest) va 0 (- 1) 0 DP_C_NONE s)"
    by (rule s) (simp_all add: dopr_step_def isdigit_def)
  have 4: "dopr_loop out fp str_at maxlen (dp_at DP_S_DOT (37 # rest) va 0 (- 1) 0 DP_C_NONE s) =
      dopr_loop out fp str_at maxlen (dp_at DP_S_MOD (37 # rest) va 0 (- 1) 0 DP_C_NONE s)"
    by (rule s) (simp_all add: dopr_step_def)
  have 5: "dopr_loop out fp str_at maxlen (dp_at DP_S_MOD (37 # rest) va 0 (- 1) 0 DP_C_NONE s) =
      dopr_loop out fp str_at maxlen (dp_at DP_S_CONV (37 # rest) va 0 (- 1) 0 DP_C_NONE s)"
    by (rule s) (simp_all add: dopr_step_def)
  have 6: "dopr_loop out fp str_at maxlen (dp_at DP_S_CONV (37 # rest) va 0 (- 1) 0 DP_C_NONE s) =
      dopr_loop out fp str_at maxlen (dp_at DP_S_DEFAULT rest va 0 (- 1) 0 DP_C_NONE (dopr_outch out 37 s))"
    by (rule s) (simp_all add: dopr_step_def dopr_conv_def next_ch_at' [OF rest])
  show ?thesis using 1 2 3 4 5 6 Percent by simp
next
  case (Conv fl w p md k x)
  then show ?thesis using run_conv [of fl w p md k x s maxlen rest out fp str_at va] ok lt rest by simp
qed

lemma encode_no_nul: "piece_ok q \<Longrightarrow> 0 \<notin> set (encode_piece q)"
proof (cases q)
  case (Conv fl w p md k x)
  assume ok: "piece_ok q"
  have "\<not> digit 0" by (simp add: digit_def isdigit_def)
  then have d: "0 \<notin> set ds" if "list_all digit ds" for ds
    using that by (auto simp: list_all_iff)
  have "kind_char k \<noteq> 0" by (cases k) simp_all
  then show ?thesis using ok d Conv by (auto split: option.splits)
qed simp_all

lemma dopr_loop_pieces:
  assumes "list_all piece_ok qs"
    and "currlen s + int (length (concat (map (piece_text str_at maxlen) qs))) < maxlen"
  shows "\<exists>d. dopr_loop out fp str_at maxlen
      (dp_at DP_S_DEFAULT (concat (map encode_piece qs) @ [0]) (concat (map piece_args qs) @ va) 0 (- 1) 0 DP_C_NONE s) =
    Inr d \<and> dp_pr d = put_all out (concat (map (piece_text str_at maxlen) qs)) s"
  using assms
proof (induction qs arbitrary: s)
  case Nil
  show ?case by (subst dopr_loop.simps) (simp add: dopr_end_def)
next
  case (Cons q qs)
  have lt: "currlen s < maxlen" using Cons.prems(2) by simp
  have "dopr_loop out fp str_at maxlen
      (dp_at DP_S_DEFAULT (encode_piece q @ concat (map encode_piece qs) @ [0])
        (piece_args q @ concat (map piece_args qs) @ va) 0 (- 1) 0 DP_C_NONE s) =
    dopr_loop out fp str_at maxlen (dp_at DP_S_DEFAULT (concat (map encode_piece qs) @ [0])
        (concat (map piece_args qs) @ va) 0 (- 1) 0 DP_C_NONE (put_all out (piece_text str_at maxlen q) s))"
    using Cons.prems(1) by (intro run_piece lt) simp_all
  moreover have "currlen (put_all out (piece_text str_at maxlen q) s) +
      int (length (concat (map (piece_text str_at maxlen) qs))) < maxlen"
    using Cons.prems(2) by simp
  ultimately show ?case
    using Cons.IH [of "put_all out (piece_text str_at maxlen q) s"] Cons.prems(1) by (simp add: put_all_append)
qed

lemma dopr_text:
  assumes "list_all piece_ok qs"
    and "int (length (concat (map (piece_text str_at maxlen) qs))) < maxlen"
  shows "dopr out fp str_at maxlen (concat (map encode_piece qs)) (concat (map piece_args qs)) s =
    Inr \<lparr>sink = fold out (concat (map (piece_text str_at maxlen) qs)) s,
      currlen = int (length (concat (map (piece_text str_at maxlen) qs))), stores = []\<rparr>"
proof -
  let ?s = "\<lparr>sink = s, currlen = 0, stores = []\<rparr> :: 'a pr" and ?e = "concat (map encode_piece qs)"
  have "0 \<notin> set ?e" using assms(1) encode_no_nul by (auto simp: list_all_iff)
  then have c: "cstr ?e = ?e" by simp
  have "currlen ?s + int (length (concat (map (piece_text str_at maxlen) qs))) < maxlen"
    using assms(2) by simp
  from dopr_loop_pieces [OF assms(1) this, of out fp "[]"] obtain d where d:
    "dopr_loop out fp str_at maxlen (dp_at DP_S_DEFAULT (?e @ [0]) (concat (map piece_args qs)) 0 (- 1) 0 DP_C_NONE ?s) = Inr d"
    "dp_pr d = put_all out (concat (map (piece_text str_at maxlen) qs)) ?s" by auto
  have n: "next_ch \<lparr>dp_state = DP_S_DEFAULT, dp_ch = 0, dp_format = ?e @ [0], dp_args = va, dp_min = 0,
      dp_max = - 1, dp_flags = 0, dp_cflags = DP_C_NONE, dp_pr = ?s\<rparr> =
    Inr (dp_at DP_S_DEFAULT (?e @ [0]) va 0 (- 1) 0 DP_C_NONE ?s)" for va
    by (cases "?e @ [0]") (auto simp: next_ch_def dp_at_def)
  have "dopr out fp str_at maxlen ?e (concat (map piece_args qs)) s = Inr (dp_pr d)"
    unfolding dopr_def c n rbind_simps d(1) by simp
  also have "dp_pr d = \<lparr>sink = fold out (concat (map (piece_text str_at maxlen) qs)) s,
      currlen = int (length (concat (map (piece_text str_at maxlen) qs))), stores = []\<rparr>"
    by (rule pr.equality) (simp_all add: d(2))
  finally show ?thesis .
qed

text \<open>C37: Whole formats.  For a format made of plain characters, percent signs and conversions
  with any flags, width, precision and length letter, with an argument word for each conversion,
  \<^verbatim>\<open>vsnprintf\<close> puts out, in order, exactly the texts of its pieces: a character for itself, and
  for a conversion its argument in the field the flags, width and precision describe; it counts
  the characters and ends after the last piece.  The only condition is that the whole text is
  shorter than \<open>maxlen\<close>.\<close>

theorem vsnprintf_spec:
  assumes "list_all piece_ok qs"
    and "int (length (concat (map (piece_text str_at maxlen) qs))) < maxlen"
  shows "vsnprintf out fp str_at maxlen (concat (map encode_piece qs)) (concat (map piece_args qs)) s =
    Inr \<lparr>sink = fold out (concat (map (piece_text str_at maxlen) qs)) s,
      currlen = int (length (concat (map (piece_text str_at maxlen) qs))), stores = []\<rparr>"
  unfolding vsnprintf_def using assms by (rule dopr_text)

lemma replicate_two: "replicate 2 x = [x, x]"
  by (simp add: numeral_2_eq_2)

lemma num_7: "number_text False 10 7 = [55]"
  by (simp add: number_text_def conv_loop.simps [of False 10 7] digit_char_def)

text \<open>Floating-point arithmetic by whole numbers, for formats that use none of it.\<close>

definition whole_fpu :: "int fpu" where
  "whole_fpu = \<lparr>fp_arg = (\<lambda>ws. 0), fp_of_long = id, fp_trunc = id, fp_minus = uminus, fp_mul = (*),
     fp_sub = (-), fp_less = (<), fp_half = 0\<rparr>"

lemma vsnprintf_spec_witness:
  "vsnprintf (\<lambda>c cs. cs @ [c]) whole_fpu (\<lambda>a. [104, 105, 0]) 100
     [120, 61, 37, 51, 100, 37, 37, 37, 115] [7, 4096] [] =
   Inr \<lparr>sink = [120, 61, 32, 32, 55, 37, 104, 105], currlen = 8, stores = []\<rparr>"
proof -
  let ?qs = "[Lit 120, Lit 61, Conv [] [51] None [] CDec 7, Percent, Conv [] [] None [] CStr 4096]"
  have "list_all piece_ok ?qs" by (simp add: digit_def isdigit_def)
  moreover have t: "concat (map (piece_text (\<lambda>a. [104, 105, 0]) 100) ?qs) = [120, 61, 32, 32, 55, 37, 104, 105]"
    by (simp add: int_text_def str_text_def Let_def magnitude_def sign_text_def num_7 flag_def flag_bits_def
      digits_value_def precision_def replicate_two)
  ultimately show ?thesis
    using vsnprintf_spec [of ?qs "\<lambda>a. [104, 105, 0]" 100 "\<lambda>c cs. cs @ [c]" whole_fpu "[]"] unfolding t by simp
qed

text \<open>The conversion for pointers prints a negative number for the upper half of the addresses,
  which is where user memory is.\<close>

lemma pointer_negative: "int_text (sint (0xF0000000 :: u32)) 16 0 (- 1) 0 = 45 # number_text False 16 0x10000000"
  by (simp add: int_text_def sign_text_def flag_def magnitude_def Let_def)

end
