(* ===== verification/User_Lib.thy ===== *)
theory User_Lib
  imports LibK
begin

text \<open>
  The library of the user programs, \<^verbatim>\<open>t0.dir/sbin/libc.c\<close>, over the system calls it makes.  The
  calls are a record of functions on a state: what the kernel does behind them is the subject of
  the system-call theory.
\<close>

section \<open>System calls of a user program\<close>

record 's usys =
  sys_read :: "int \<Rightarrow> nat \<Rightarrow> 's \<Rightarrow> (int \<times> u8 list) \<times> 's"
  sys_write :: "int \<Rightarrow> u8 list \<Rightarrow> 's \<Rightarrow> int \<times> 's"
  sys_sem :: "u32 \<Rightarrow> 's \<Rightarrow> int \<times> 's"
  sys_up :: "int \<Rightarrow> 's \<Rightarrow> int \<times> 's"
  sys_down :: "int \<Rightarrow> 's \<Rightarrow> int \<times> 's"

definition putchar :: "'s usys \<Rightarrow> u8 \<Rightarrow> 's \<Rightarrow> int \<times> 's" where
  "putchar sys c s = sys_write sys 1 [c] s"

definition u_putchar :: "'s usys \<Rightarrow> u8 \<Rightarrow> 's \<Rightarrow> 's" where
  "u_putchar sys c s = snd (putchar sys c s)"

end
