(* ===== verification/User_Printf.thy ===== *)
theory User_Printf
  imports Printf User_Lib
begin

text \<open>
  Formatted output in user programs, \<^verbatim>\<open>t0.dir/sbin/printf.c\<close>: the code of the kernel's
  \<^verbatim>\<open>snprintf.cc\<close> with each character written by a system call, under a semaphore.
\<close>

section \<open>State\<close>

text \<open>The output so far (a state of the stream it goes to), the characters counted, and the
  stores made by the conversion \<^verbatim>\<open>n\<close> (address, size in bytes, value).\<close>

record 's u_pr =
  u_sink :: 's
  u_currlen :: int
  u_stores :: "(u32 \<times> nat \<times> int) list"

definition u_dopr_outch :: "'s usys \<Rightarrow> u8 \<Rightarrow> 's u_pr \<Rightarrow> 's u_pr" where
  "u_dopr_outch sys c s = s\<lparr>u_currlen := u_currlen s + 1, u_sink := u_putchar sys c (u_sink s)\<rparr>"

definition u_DP_F_MINUS :: u32 where "u_DP_F_MINUS = push_bit 0 1"
definition u_DP_F_PLUS :: u32 where "u_DP_F_PLUS = push_bit 1 1"
definition u_DP_F_SPACE :: u32 where "u_DP_F_SPACE = push_bit 2 1"
definition u_DP_F_NUM :: u32 where "u_DP_F_NUM = push_bit 3 1"
definition u_DP_F_ZERO :: u32 where "u_DP_F_ZERO = push_bit 4 1"
definition u_DP_F_UP :: u32 where "u_DP_F_UP = push_bit 5 1"
definition u_DP_F_UNSIGNED :: u32 where "u_DP_F_UNSIGNED = push_bit 6 1"

definition u_flag :: "u32 \<Rightarrow> u32 \<Rightarrow> bool" where
  "u_flag flags f \<longleftrightarrow> flags AND f \<noteq> 0"

text \<open>A loop that puts one character and counts down to 0.\<close>

fun u_pad_with :: "'s usys \<Rightarrow> nat \<Rightarrow> u8 \<Rightarrow> 's u_pr \<Rightarrow> 's u_pr" where
  "u_pad_with sys 0 c s = s"
| "u_pad_with sys (Suc n) c s = u_pad_with sys n c (u_dopr_outch sys c s)"

fun u_put_all :: "'s usys \<Rightarrow> u8 list \<Rightarrow> 's u_pr \<Rightarrow> 's u_pr" where
  "u_put_all sys [] s = s"
| "u_put_all sys (c # cs) s = u_put_all sys cs (u_dopr_outch sys c s)"

section \<open>Strings\<close>

text \<open>The three loops of \<^verbatim>\<open>fmtstr\<close>, all bounded by \<open>max\<close>.\<close>

function u_lead_loop :: "'s usys \<Rightarrow> int \<Rightarrow> int \<Rightarrow> int \<Rightarrow> 's u_pr \<Rightarrow> int \<times> int \<times> 's u_pr" where
  "u_lead_loop sys padlen cnt mx s =
     (if 0 < padlen \<and> cnt < mx then u_lead_loop sys (padlen - 1) (cnt + 1) mx (u_dopr_outch sys 32 s)
      else (padlen, cnt, s))"
  by pat_completeness auto
termination by (relation "measure (\<lambda>(sys, padlen, cnt, mx, s). nat padlen)") auto

fun u_body_loop :: "'s usys \<Rightarrow> cstring \<Rightarrow> int \<Rightarrow> int \<Rightarrow> 's u_pr \<Rightarrow> int \<times> 's u_pr" where
  "u_body_loop sys [] cnt mx s = (cnt, s)"
| "u_body_loop sys (c # cs) cnt mx s =
     (if c \<noteq> 0 \<and> cnt < mx then u_body_loop sys cs (cnt + 1) mx (u_dopr_outch sys c s) else (cnt, s))"

function u_tail_loop :: "'s usys \<Rightarrow> int \<Rightarrow> int \<Rightarrow> int \<Rightarrow> 's u_pr \<Rightarrow> 's u_pr" where
  "u_tail_loop sys padlen cnt mx s =
     (if padlen < 0 \<and> cnt < mx then u_tail_loop sys (padlen + 1) (cnt + 1) mx (u_dopr_outch sys 32 s)
      else s)"
  by pat_completeness auto
termination by (relation "measure (\<lambda>(sys, padlen, cnt, mx, s). nat (- padlen))") auto

declare u_lead_loop.simps [simp del] u_tail_loop.simps [simp del]

definition u_null_string :: cstring where
  "u_null_string = [60, 78, 85, 76, 76, 62]"

text \<open>\<open>None\<close> is the null pointer.\<close>

definition u_fmtstr :: "'s usys \<Rightarrow> cstring option \<Rightarrow> u32 \<Rightarrow> int \<Rightarrow> int \<Rightarrow> 's u_pr \<Rightarrow> 's u_pr" where
  "u_fmtstr sys value flags mn mx s =
     (let value = (case value of None \<Rightarrow> u_null_string | Some v \<Rightarrow> v);
          strln = strlen value;
          padlen = mn - strln;
          padlen = (if padlen < 0 then 0 else padlen);
          padlen = (if u_flag flags u_DP_F_MINUS then - padlen else padlen)
      in case u_lead_loop sys padlen 0 mx s of (padlen1, cnt1, s1) \<Rightarrow>
         case u_body_loop sys value cnt1 mx s1 of (cnt2, s2) \<Rightarrow>
           u_tail_loop sys padlen1 cnt2 mx s2)"

section \<open>Integers\<close>

definition u_digit_char :: "bool \<Rightarrow> u32 \<Rightarrow> u8" where
  "u_digit_char caps d =
     ((if caps then [48, 49, 50, 51, 52, 53, 54, 55, 56, 57, 65, 66, 67, 68, 69, 70]
       else [48, 49, 50, 51, 52, 53, 54, 55, 56, 57, 97, 98, 99, 100, 101, 102]) ! unat d)"

text \<open>The array \<^verbatim>\<open>convert\<close>, filled from the lowest digit on.\<close>

function u_conv_loop :: "bool \<Rightarrow> u32 \<Rightarrow> u32 \<Rightarrow> nat \<Rightarrow> u8 list" where
  "u_conv_loop caps bs uvalue place =
     u_digit_char caps (uvalue mod bs) #
       (if uvalue div bs \<noteq> 0 \<and> place + 1 < 20 then u_conv_loop caps bs (uvalue div bs) (place + 1) else [])"
  by pat_completeness auto
termination by (relation "measure (\<lambda>(caps, bs, uvalue, place). 20 - place)") auto

declare u_conv_loop.simps [simp del]

definition u_fmtint :: "'s usys \<Rightarrow> int \<Rightarrow> u32 \<Rightarrow> int \<Rightarrow> int \<Rightarrow> u32 \<Rightarrow> 's u_pr \<Rightarrow> 's u_pr" where
  "u_fmtint sys value bs mn mx flags s =
     (let mx = (if mx < 0 then 0 else mx);
          uns = u_flag flags u_DP_F_UNSIGNED;
          signvalue = (if uns then 0 else if value < 0 then 45
            else if u_flag flags u_DP_F_PLUS then 43 else if u_flag flags u_DP_F_SPACE then 32 else 0);
          uvalue = (if \<not> uns \<and> value < 0 then word_of_int (- value) else word_of_int value);
          caps = u_flag flags u_DP_F_UP;
          convert = u_conv_loop caps bs uvalue 0;
          place = (if length convert = 20 then 19 else length convert);
          zpadlen = mx - int place;
          spadlen = mn - (if mx \<ge> int place then mx else int place) - (if signvalue \<noteq> 0 then 1 else 0);
          zpadlen = (if zpadlen < 0 then 0 else zpadlen);
          spadlen = (if spadlen < 0 then 0 else spadlen);
          zpadlen = (if u_flag flags u_DP_F_ZERO then (if zpadlen \<ge> spadlen then zpadlen else spadlen) else zpadlen);
          spadlen = (if u_flag flags u_DP_F_ZERO then 0 else spadlen);
          spadlen = (if u_flag flags u_DP_F_MINUS then - spadlen else spadlen);
          s1 = u_pad_with sys (nat spadlen) 32 s;
          s2 = (if signvalue \<noteq> 0 then u_dopr_outch sys signvalue s1 else s1);
          s3 = u_pad_with sys (nat zpadlen) 48 s2;
          s4 = u_put_all sys (rev (take place convert)) s3
      in u_pad_with sys (nat (- spadlen)) 32 s4)"

section \<open>Floating point\<close>

text \<open>The arithmetic of \<^verbatim>\<open>long double\<close> is the processor's and a parameter: conversions from and
  to \<^verbatim>\<open>long\<close>, negation, product, difference, comparison, and the value of an argument's words.\<close>

record 'f u_fpu =
  u_fp_arg :: "u32 list \<Rightarrow> 'f"
  u_fp_of_long :: "int \<Rightarrow> 'f"
  u_fp_trunc :: "'f \<Rightarrow> int"
  u_fp_minus :: "'f \<Rightarrow> 'f"
  u_fp_mul :: "'f \<Rightarrow> 'f \<Rightarrow> 'f"
  u_fp_sub :: "'f \<Rightarrow> 'f \<Rightarrow> 'f"
  u_fp_less :: "'f \<Rightarrow> 'f \<Rightarrow> bool"
  u_fp_half :: 'f

definition u_abs_val :: "'f u_fpu \<Rightarrow> 'f \<Rightarrow> 'f" where
  "u_abs_val fp value = (if u_fp_less fp value (u_fp_of_long fp 0) then u_fp_minus fp value else value)"

fun u_pow10_loop :: "'f u_fpu \<Rightarrow> nat \<Rightarrow> 'f \<Rightarrow> 'f" where
  "u_pow10_loop fp 0 result = result"
| "u_pow10_loop fp (Suc e) result = u_pow10_loop fp e (u_fp_mul fp result (u_fp_of_long fp 10))"

definition u_pow10 :: "'f u_fpu \<Rightarrow> nat \<Rightarrow> 'f" where
  "u_pow10 fp e = u_pow10_loop fp e (u_fp_of_long fp 1)"

definition u_xround :: "'f u_fpu \<Rightarrow> 'f \<Rightarrow> int" where
  "u_xround fp value =
     (let intpart = u_fp_trunc fp value;
          value = u_fp_sub fp value (u_fp_of_long fp intpart)
      in if \<not> u_fp_less fp value (u_fp_half fp) then intpart + 1 else intpart)"

text \<open>The digits of a part; a negative part indexes in front of the digit table.\<close>

function u_dec_loop :: "int \<Rightarrow> nat \<Rightarrow> u8 list res" where
  "u_dec_loop part place =
     (if part < 0 then Inl (OutOfBounds ''intpart % 10'')
      else if part div 10 \<noteq> 0 \<and> place + 1 < 20 then
        rbind (u_dec_loop (part div 10) (place + 1)) (\<lambda>ds. Inr (word_of_int (48 + part mod 10) # ds))
      else Inr [word_of_int (48 + part mod 10)])"
  by pat_completeness auto
termination by (relation "measure (\<lambda>(part, place). 20 - place)") auto

declare u_dec_loop.simps [simp del]

definition u_fmtfp :: "'s usys \<Rightarrow> 'f u_fpu \<Rightarrow> 'f \<Rightarrow> int \<Rightarrow> int \<Rightarrow> u32 \<Rightarrow> 's u_pr \<Rightarrow> 's u_pr res" where
  "u_fmtfp sys fp fvalue mn mx flags s =
     (let mx = (if mx < 0 then 6 else mx);
          ufvalue = u_abs_val fp fvalue;
          signvalue = (if u_fp_less fp fvalue (u_fp_of_long fp 0) then 45
            else if u_flag flags u_DP_F_PLUS then 43 else if u_flag flags u_DP_F_SPACE then 32 else 0);
          intpart = u_fp_trunc fp ufvalue;
          mx = (if mx > 9 then 9 else mx);
          p = u_pow10 fp (nat mx);
          fracpart = u_xround fp (u_fp_mul fp p (u_fp_sub fp ufvalue (u_fp_of_long fp intpart)));
          carry = (\<not> u_fp_less fp (u_fp_of_long fp fracpart) p);
          intpart = (if carry then intpart + 1 else intpart);
          fracpart = (if carry then u_fp_trunc fp (u_fp_sub fp (u_fp_of_long fp fracpart) p) else fracpart)
      in rbind (u_dec_loop intpart 0) (\<lambda>iconvert.
         rbind (u_dec_loop fracpart 0) (\<lambda>fconvert.
           let iplace = (if length iconvert = 20 then 19 else length iconvert);
               fplace = (if length fconvert = 20 then 19 else length fconvert);
               padlen = mn - int iplace - mx - 1 - (if signvalue \<noteq> 0 then 1 else 0);
               zpadlen = mx - int fplace;
               zpadlen = (if zpadlen < 0 then 0 else zpadlen);
               padlen = (if padlen < 0 then 0 else padlen);
               padlen = (if u_flag flags u_DP_F_MINUS then - padlen else padlen);
               zero = (u_flag flags u_DP_F_ZERO \<and> 0 < padlen);
               s1 = (if zero \<and> signvalue \<noteq> 0 then u_dopr_outch sys signvalue s else s);
               padlen = (if zero \<and> signvalue \<noteq> 0 then padlen - 1 else padlen);
               signvalue = (if zero \<and> signvalue \<noteq> 0 then 0 else signvalue);
               s2 = (if zero then u_pad_with sys (nat padlen) 48 s1 else s1);
               padlen = (if zero then 0 else padlen);
               s3 = u_pad_with sys (nat padlen) 32 s2;
               s4 = (if signvalue \<noteq> 0 then u_dopr_outch sys signvalue s3 else s3);
               s5 = u_put_all sys (rev (take iplace iconvert)) s4;
               s6 = (if 0 < mx then u_put_all sys (rev (take fplace fconvert)) (u_dopr_outch sys 46 s5) else s5);
               s7 = u_pad_with sys (nat zpadlen) 48 s6
           in Inr (u_pad_with sys (nat (- padlen)) 32 s7))))"

section \<open>The format\<close>

datatype u_dstate =
    u_DP_S_DEFAULT
  | u_DP_S_FLAGS
  | u_DP_S_MIN
  | u_DP_S_DOT
  | u_DP_S_MAX
  | u_DP_S_MOD
  | u_DP_S_CONV
  | u_DP_S_DONE

datatype u_dcflag = u_DP_C_NONE | u_DP_C_SHORT | u_DP_C_LONG | u_DP_C_LDOUBLE

text \<open>
  The variables of \<^verbatim>\<open>dopr\<close>: the character in hand, the rest of the format with its terminator,
  the words of the arguments not yet taken, and the state machine's fields.
\<close>

record 's u_dp =
  u_dp_state :: u_dstate
  u_dp_ch :: u8
  u_dp_format :: cstring
  u_dp_args :: "u32 list"
  u_dp_min :: int
  u_dp_max :: int
  u_dp_flags :: u32
  u_dp_cflags :: u_dcflag
  u_dp_pr :: "'s u_pr"

definition u_next_ch :: "'s u_dp \<Rightarrow> 's u_dp res" where
  "u_next_ch d = (case u_dp_format d of [] \<Rightarrow> Inl (OutOfBounds ''format'')
     | c # cs \<Rightarrow> Inr (d\<lparr>u_dp_ch := c, u_dp_format := cs\<rparr>))"

text \<open>\<^verbatim>\<open>va_arg\<close> takes as many words as its type has: one for integers and pointers, two for a
  \<^verbatim>\<open>double\<close>, three for a \<^verbatim>\<open>long double\<close>.\<close>

definition u_va_arg :: "nat \<Rightarrow> 's u_dp \<Rightarrow> (u32 list \<times> 's u_dp) res" where
  "u_va_arg n d = (if length (u_dp_args d) < n then Inl (OutOfBounds ''va_arg'')
     else Inr (take n (u_dp_args d), d\<lparr>u_dp_args := drop n (u_dp_args d)\<rparr>))"

definition u_put_int :: "'s usys \<Rightarrow> u32 \<Rightarrow> u32 \<Rightarrow> 's u_dp \<Rightarrow> 's u_dp res" where
  "u_put_int sys bs f d =
     rbind (u_va_arg 1 d) (\<lambda>(ws, d1).
       let fl = u_dp_flags d1 OR f
       in Inr (d1\<lparr>u_dp_flags := fl, u_dp_pr := u_fmtint sys (sint (hd ws)) bs (u_dp_min d1) (u_dp_max d1) fl (u_dp_pr d1)\<rparr>))"

definition u_take_float :: "'f u_fpu \<Rightarrow> 's u_dp \<Rightarrow> ('f \<times> 's u_dp) res" where
  "u_take_float fp d =
     rbind (u_va_arg (if u_dp_cflags d = u_DP_C_LDOUBLE then 3 else 2) d) (\<lambda>(ws, d1). Inr (u_fp_arg fp ws, d1))"

text \<open>
  The conversions.  On this processor \<^verbatim>\<open>int\<close>, \<^verbatim>\<open>long\<close> and pointers are one word, so the branches
  on the length flag of an integer conversion take the same argument.
\<close>

definition u_dopr_conv :: "'s usys \<Rightarrow> 'f u_fpu \<Rightarrow> (u32 \<Rightarrow> cstring) \<Rightarrow> int \<Rightarrow> 's u_dp \<Rightarrow> 's u_dp res" where
  "u_dopr_conv sys fp str_at maxlen d =
     (if u_dp_ch d = 100 \<or> u_dp_ch d = 105 \<comment> \<open>d, i\<close> then u_put_int sys 10 0 d
      else if u_dp_ch d = 111 \<comment> \<open>o\<close> then u_put_int sys 8 u_DP_F_UNSIGNED d
      else if u_dp_ch d = 117 \<comment> \<open>u\<close> then u_put_int sys 10 u_DP_F_UNSIGNED d
      else if u_dp_ch d = 88 \<comment> \<open>X\<close> then u_put_int sys 16 (u_DP_F_UP OR u_DP_F_UNSIGNED) d
      else if u_dp_ch d = 120 \<comment> \<open>x\<close> then u_put_int sys 16 u_DP_F_UNSIGNED d
      else if u_dp_ch d = 102 \<comment> \<open>f\<close> then
        rbind (u_take_float fp d) (\<lambda>(fvalue, d1).
          rbind (u_fmtfp sys fp fvalue (u_dp_min d1) (u_dp_max d1) (u_dp_flags d1) (u_dp_pr d1)) (\<lambda>s1.
            Inr (d1\<lparr>u_dp_pr := s1\<rparr>)))
      else if u_dp_ch d = 69 \<or> u_dp_ch d = 71 \<comment> \<open>E, G\<close> then
        rbind (u_take_float fp (d\<lparr>u_dp_flags := u_dp_flags d OR u_DP_F_UP\<rparr>)) (\<lambda>(fvalue, d1). Inr d1)
      else if u_dp_ch d = 101 \<or> u_dp_ch d = 103 \<comment> \<open>e, g\<close> then
        rbind (u_take_float fp d) (\<lambda>(fvalue, d1). Inr d1)
      else if u_dp_ch d = 99 \<comment> \<open>c\<close> then
        rbind (u_va_arg 1 d) (\<lambda>(ws, d1). Inr (d1\<lparr>u_dp_pr := u_dopr_outch sys (ucast (hd ws)) (u_dp_pr d1)\<rparr>))
      else if u_dp_ch d = 115 \<comment> \<open>s\<close> then
        rbind (u_va_arg 1 d) (\<lambda>(ws, d1).
          let mx = (if u_dp_max d1 < 0 then maxlen else u_dp_max d1);
              value = (if hd ws = 0 then None else Some (str_at (hd ws)))
          in Inr (d1\<lparr>u_dp_max := mx, u_dp_pr := u_fmtstr sys value (u_dp_flags d1) (u_dp_min d1) mx (u_dp_pr d1)\<rparr>))
      else if u_dp_ch d = 112 \<comment> \<open>p\<close> then u_put_int sys 16 0 d
      else if u_dp_ch d = 110 \<comment> \<open>n\<close> then
        rbind (u_va_arg 1 d) (\<lambda>(ws, d1).
          let sz = (if u_dp_cflags d1 = u_DP_C_SHORT then 2 else 4)
          in Inr (d1\<lparr>u_dp_pr := (u_dp_pr d1)\<lparr>u_stores := u_stores (u_dp_pr d1) @ [(hd ws, sz, u_currlen (u_dp_pr d1))]\<rparr>\<rparr>))
      else if u_dp_ch d = 37 \<comment> \<open>percent\<close> then Inr (d\<lparr>u_dp_pr := u_dopr_outch sys (u_dp_ch d) (u_dp_pr d)\<rparr>)
      else if u_dp_ch d = 119 \<comment> \<open>w\<close> then u_next_ch d
      else Inr d)"

text \<open>One round of the loop of \<^verbatim>\<open>dopr\<close>, after the test for its end.\<close>

definition u_dopr_step :: "'s usys \<Rightarrow> 'f u_fpu \<Rightarrow> (u32 \<Rightarrow> cstring) \<Rightarrow> int \<Rightarrow> 's u_dp \<Rightarrow> 's u_dp res" where
  "u_dopr_step sys fp str_at maxlen d =
     (case u_dp_state d of
        u_DP_S_DEFAULT \<Rightarrow>
          (if u_dp_ch d = 37 then u_next_ch (d\<lparr>u_dp_state := u_DP_S_FLAGS\<rparr>)
           else u_next_ch (d\<lparr>u_dp_pr := u_dopr_outch sys (u_dp_ch d) (u_dp_pr d)\<rparr>))
      | u_DP_S_FLAGS \<Rightarrow>
          (if u_dp_ch d = 45 \<comment> \<open>minus\<close> then u_next_ch (d\<lparr>u_dp_flags := u_dp_flags d OR u_DP_F_MINUS\<rparr>)
           else if u_dp_ch d = 43 \<comment> \<open>plus\<close> then u_next_ch (d\<lparr>u_dp_flags := u_dp_flags d OR u_DP_F_PLUS\<rparr>)
           else if u_dp_ch d = 32 \<comment> \<open>space\<close> then u_next_ch (d\<lparr>u_dp_flags := u_dp_flags d OR u_DP_F_SPACE\<rparr>)
           else if u_dp_ch d = 35 \<comment> \<open>hash\<close> then u_next_ch (d\<lparr>u_dp_flags := u_dp_flags d OR u_DP_F_NUM\<rparr>)
           else if u_dp_ch d = 48 \<comment> \<open>zero\<close> then u_next_ch (d\<lparr>u_dp_flags := u_dp_flags d OR u_DP_F_ZERO\<rparr>)
           else Inr (d\<lparr>u_dp_state := u_DP_S_MIN\<rparr>))
      | u_DP_S_MIN \<Rightarrow>
          (if isdigit (sint (u_dp_ch d)) then u_next_ch (d\<lparr>u_dp_min := 10 * u_dp_min d + (sint (u_dp_ch d) - 48)\<rparr>)
           else if u_dp_ch d = 42 \<comment> \<open>star\<close> then
             rbind (u_va_arg 1 d) (\<lambda>(ws, d1).
               rbind (u_next_ch (d1\<lparr>u_dp_min := sint (hd ws)\<rparr>)) (\<lambda>d2. Inr (d2\<lparr>u_dp_state := u_DP_S_DOT\<rparr>)))
           else Inr (d\<lparr>u_dp_state := u_DP_S_DOT\<rparr>))
      | u_DP_S_DOT \<Rightarrow>
          (if u_dp_ch d = 46 \<comment> \<open>dot\<close> then u_next_ch (d\<lparr>u_dp_state := u_DP_S_MAX\<rparr>)
           else Inr (d\<lparr>u_dp_state := u_DP_S_MOD\<rparr>))
      | u_DP_S_MAX \<Rightarrow>
          (if isdigit (sint (u_dp_ch d)) then
             u_next_ch (d\<lparr>u_dp_max := 10 * (if u_dp_max d < 0 then 0 else u_dp_max d) + (sint (u_dp_ch d) - 48)\<rparr>)
           else if u_dp_ch d = 42 \<comment> \<open>star\<close> then
             rbind (u_va_arg 1 d) (\<lambda>(ws, d1).
               rbind (u_next_ch (d1\<lparr>u_dp_max := sint (hd ws)\<rparr>)) (\<lambda>d2. Inr (d2\<lparr>u_dp_state := u_DP_S_MOD\<rparr>)))
           else Inr (d\<lparr>u_dp_state := u_DP_S_MOD\<rparr>))
      | u_DP_S_MOD \<Rightarrow>
          rbind (if u_dp_ch d = 104 \<comment> \<open>h\<close> then u_next_ch (d\<lparr>u_dp_cflags := u_DP_C_SHORT\<rparr>)
                 else if u_dp_ch d = 108 \<comment> \<open>l\<close> then u_next_ch (d\<lparr>u_dp_cflags := u_DP_C_LONG\<rparr>)
                 else if u_dp_ch d = 76 \<comment> \<open>L\<close> then u_next_ch (d\<lparr>u_dp_cflags := u_DP_C_LDOUBLE\<rparr>)
                 else Inr d)
            (\<lambda>d1. Inr (d1\<lparr>u_dp_state := u_DP_S_CONV\<rparr>))
      | u_DP_S_CONV \<Rightarrow>
          rbind (u_dopr_conv sys fp str_at maxlen d) (\<lambda>d1.
            rbind (u_next_ch d1) (\<lambda>d2.
              Inr (d2\<lparr>u_dp_state := u_DP_S_DEFAULT, u_dp_flags := 0, u_dp_cflags := u_DP_C_NONE, u_dp_min := 0, u_dp_max := - 1\<rparr>)))
      | u_DP_S_DONE \<Rightarrow> Inr d)"

definition u_dopr_end :: "int \<Rightarrow> 's u_dp \<Rightarrow> bool" where
  "u_dopr_end maxlen d \<longleftrightarrow> u_dp_ch d = 0 \<or> u_currlen (u_dp_pr d) \<ge> maxlen"

text \<open>
  The loop.  Every round takes a character of the format or moves the state machine on, so it
  ends; a round that takes a character beyond the terminator is an access out of bounds.
\<close>

fun u_dp_rank :: "u_dstate \<Rightarrow> nat" where
  "u_dp_rank u_DP_S_DEFAULT = 7"
| "u_dp_rank u_DP_S_FLAGS = 6"
| "u_dp_rank u_DP_S_MIN = 5"
| "u_dp_rank u_DP_S_DOT = 4"
| "u_dp_rank u_DP_S_MAX = 3"
| "u_dp_rank u_DP_S_MOD = 2"
| "u_dp_rank u_DP_S_CONV = 1"
| "u_dp_rank u_DP_S_DONE = 0"

definition u_dp_left :: "'s u_dp \<Rightarrow> nat" where
  "u_dp_left d = 8 * length (u_dp_format d) + u_dp_rank (u_dp_state d)"

lemma u_next_ch_left: "u_next_ch d = Inr d' \<Longrightarrow>
    Suc (length (u_dp_format d')) = length (u_dp_format d) \<and> u_dp_state d' = u_dp_state d"
  by (auto simp: u_next_ch_def split: list.splits)

lemma u_va_arg_left: "u_va_arg n d = Inr (ws, d') \<Longrightarrow> u_dp_format d' = u_dp_format d \<and> u_dp_state d' = u_dp_state d"
  by (auto simp: u_va_arg_def split: if_splits)

lemma u_put_int_left: "u_put_int sys bs f d = Inr d' \<Longrightarrow> u_dp_format d' = u_dp_format d \<and> u_dp_state d' = u_dp_state d"
  by (auto simp: u_put_int_def Let_def dest!: u_va_arg_left)

lemma u_take_float_left: "u_take_float fp d = Inr (x, d') \<Longrightarrow> u_dp_format d' = u_dp_format d \<and> u_dp_state d' = u_dp_state d"
  by (auto simp: u_take_float_def dest!: u_va_arg_left)

lemma u_dopr_conv_left:
  assumes "u_dopr_conv sys fp str_at maxlen d = Inr d'"
  shows "length (u_dp_format d') \<le> length (u_dp_format d)"
  using assms unfolding u_dopr_conv_def Let_def
  by (elim if_branchE) (auto dest!: u_put_int_left u_take_float_left u_va_arg_left u_next_ch_left)

lemma u_dopr_step_left:
  assumes "u_dopr_step sys fp str_at maxlen d = Inr d'" and "u_dp_state d \<noteq> u_DP_S_DONE"
  shows "u_dp_left d' < u_dp_left d"
proof (cases "u_dp_state d")
  case u_DP_S_CONV
  then obtain d1 d2 where s: "u_dopr_conv sys fp str_at maxlen d = Inr d1" "u_next_ch d1 = Inr d2"
    "d' = d2\<lparr>u_dp_state := u_DP_S_DEFAULT, u_dp_flags := 0, u_dp_cflags := u_DP_C_NONE, u_dp_min := 0, u_dp_max := - 1\<rparr>"
    using assms by (auto simp: u_dopr_step_def)
  then show ?thesis
    using u_dopr_conv_left [OF s(1)] u_next_ch_left [OF s(2)] u_DP_S_CONV by (simp add: u_dp_left_def)
qed (use assms in \<open>auto simp: u_dopr_step_def u_dp_left_def split: if_splits dest!: u_next_ch_left u_va_arg_left\<close>)

function u_dopr_loop :: "'s usys \<Rightarrow> 'f u_fpu \<Rightarrow> (u32 \<Rightarrow> cstring) \<Rightarrow> int \<Rightarrow> 's u_dp \<Rightarrow> 's u_dp res" where
  "u_dopr_loop sys fp str_at maxlen d =
     (if u_dp_state d = u_DP_S_DONE then Inr d
      else if u_dopr_end maxlen d then Inr (d\<lparr>u_dp_state := u_DP_S_DONE\<rparr>)
      else rbind (u_dopr_step sys fp str_at maxlen d) (u_dopr_loop sys fp str_at maxlen))"
  by pat_completeness auto
termination
  by (relation "measure (\<lambda>(sys, fp, str_at, maxlen, d). u_dp_left d)") (auto dest: u_dopr_step_left)

declare u_dopr_loop.simps [simp del]

definition u_dopr :: "'s usys \<Rightarrow> 'f u_fpu \<Rightarrow> (u32 \<Rightarrow> cstring) \<Rightarrow> int \<Rightarrow> cstring \<Rightarrow> u32 list \<Rightarrow> 's \<Rightarrow> 's u_pr res" where
  "u_dopr sys fp str_at maxlen fmt va s =
     rbind (u_next_ch \<lparr>u_dp_state = u_DP_S_DEFAULT, u_dp_ch = 0, u_dp_format = cstr fmt @ [0], u_dp_args = va,
         u_dp_min = 0, u_dp_max = - 1, u_dp_flags = 0, u_dp_cflags = u_DP_C_NONE,
         u_dp_pr = \<lparr>u_sink = s, u_currlen = 0, u_stores = []\<rparr>\<rparr>) (\<lambda>d.
       rbind (u_dopr_loop sys fp str_at maxlen d) (\<lambda>d1. Inr (u_dp_pr d1)))"

text \<open>The semaphore's number is the global \<^verbatim>\<open>printf_sem\<close>, set by \<^verbatim>\<open>printf_init\<close>.\<close>

definition u_vprintf :: "'s usys \<Rightarrow> 'f u_fpu \<Rightarrow> (u32 \<Rightarrow> cstring) \<Rightarrow> int \<Rightarrow> cstring \<Rightarrow> u32 list \<Rightarrow> 's \<Rightarrow> (int \<times> 's) res" where
  "u_vprintf sys fp str_at printf_sem fmt va s =
     (let s1 = snd (sys_down sys printf_sem s)
      in rbind (u_dopr sys fp str_at 1000 fmt va s1) (\<lambda>p.
           Inr (1, snd (sys_up sys printf_sem (u_sink p)))))"

definition u_printf :: "'s usys \<Rightarrow> 'f u_fpu \<Rightarrow> (u32 \<Rightarrow> cstring) \<Rightarrow> int \<Rightarrow> cstring \<Rightarrow> u32 list \<Rightarrow> 's \<Rightarrow> (int \<times> 's) res" where
  "u_printf sys fp str_at printf_sem fmt va s = u_vprintf sys fp str_at printf_sem fmt va s"

definition printf_init :: "'s usys \<Rightarrow> 's \<Rightarrow> int \<times> 's" where
  "printf_init sys s = sys_sem sys 1 s"

section \<open>The same as the kernel's\<close>

text \<open>The kernel's view of the states.\<close>

definition kpr :: "'s u_pr \<Rightarrow> 's pr" where
  "kpr s = \<lparr>sink = u_sink s, currlen = u_currlen s, stores = u_stores s\<rparr>"

definition kfp :: "'f u_fpu \<Rightarrow> 'f fpu" where
  "kfp fp = \<lparr>fp_arg = u_fp_arg fp, fp_of_long = u_fp_of_long fp, fp_trunc = u_fp_trunc fp,
     fp_minus = u_fp_minus fp, fp_mul = u_fp_mul fp, fp_sub = u_fp_sub fp, fp_less = u_fp_less fp,
     fp_half = u_fp_half fp\<rparr>"

fun kst :: "u_dstate \<Rightarrow> dstate" where
  "kst u_DP_S_DEFAULT = DP_S_DEFAULT"
| "kst u_DP_S_FLAGS = DP_S_FLAGS"
| "kst u_DP_S_MIN = DP_S_MIN"
| "kst u_DP_S_DOT = DP_S_DOT"
| "kst u_DP_S_MAX = DP_S_MAX"
| "kst u_DP_S_MOD = DP_S_MOD"
| "kst u_DP_S_CONV = DP_S_CONV"
| "kst u_DP_S_DONE = DP_S_DONE"

fun kcf :: "u_dcflag \<Rightarrow> dcflag" where
  "kcf u_DP_C_NONE = DP_C_NONE"
| "kcf u_DP_C_SHORT = DP_C_SHORT"
| "kcf u_DP_C_LONG = DP_C_LONG"
| "kcf u_DP_C_LDOUBLE = DP_C_LDOUBLE"

definition kdp :: "'s u_dp \<Rightarrow> 's dp" where
  "kdp d = \<lparr>dp_state = kst (u_dp_state d), dp_ch = u_dp_ch d, dp_format = u_dp_format d,
     dp_args = u_dp_args d, dp_min = u_dp_min d, dp_max = u_dp_max d, dp_flags = u_dp_flags d,
     dp_cflags = kcf (u_dp_cflags d), dp_pr = kpr (u_dp_pr d)\<rparr>"

named_theorems same

lemma map_rbind: "map_sum id f (rbind m g) = rbind m (\<lambda>x. map_sum id f (g x))"
  by (cases m) simp_all

lemma rbind_map: "rbind (map_sum id f m) g = rbind m (\<lambda>x. g (f x))"
  by (cases m) simp_all

lemma flags_same [same]:
  "u_DP_F_MINUS = DP_F_MINUS" "u_DP_F_PLUS = DP_F_PLUS" "u_DP_F_SPACE = DP_F_SPACE"
  "u_DP_F_NUM = DP_F_NUM" "u_DP_F_ZERO = DP_F_ZERO" "u_DP_F_UP = DP_F_UP"
  "u_DP_F_UNSIGNED = DP_F_UNSIGNED" "u_flag = flag" "u_null_string = null_string"
  "u_digit_char = digit_char"
  by (simp_all add: u_DP_F_MINUS_def u_DP_F_PLUS_def u_DP_F_SPACE_def u_DP_F_NUM_def u_DP_F_ZERO_def
    u_DP_F_UP_def u_DP_F_UNSIGNED_def DP_F_MINUS_def DP_F_PLUS_def DP_F_SPACE_def DP_F_NUM_def
    DP_F_ZERO_def DP_F_UP_def DP_F_UNSIGNED_def u_null_string_def null_string_def fun_eq_iff
    u_flag_def flag_def u_digit_char_def digit_char_def)

lemma outch_same [same]: "kpr (u_dopr_outch sys c s) = dopr_outch (u_putchar sys) c (kpr s)"
  by (simp add: kpr_def u_dopr_outch_def dopr_outch_def)

lemma pad_same [same]: "kpr (u_pad_with sys n c s) = pad_with (u_putchar sys) n c (kpr s)"
  by (induction n arbitrary: s) (simp_all add: same)

lemma put_same [same]: "kpr (u_put_all sys cs s) = put_all (u_putchar sys) cs (kpr s)"
  by (induction cs arbitrary: s) (simp_all add: same)

lemma lead_same: "lead_loop (u_putchar sys) padlen cnt mx (kpr s) =
    (case u_lead_loop sys padlen cnt mx s of (p, n, t) \<Rightarrow> (p, n, kpr t))"
proof (induction sys padlen cnt mx s rule: u_lead_loop.induct)
  case (1 sys padlen cnt mx s)
  show ?case
  proof (cases "0 < padlen \<and> cnt < mx")
    case True
    show ?thesis
      using "1.IH" [OF True] True by (subst lead_loop.simps, subst u_lead_loop.simps) (simp add: same)
  next
    case False
    then show ?thesis by (subst lead_loop.simps, subst u_lead_loop.simps) auto
  qed
qed

lemma body_same: "body_loop (u_putchar sys) v cnt mx (kpr s) =
    (case u_body_loop sys v cnt mx s of (n, t) \<Rightarrow> (n, kpr t))"
  by (induction sys v cnt mx s rule: u_body_loop.induct) (simp_all add: same [symmetric])

lemma tail_same [same]: "kpr (u_tail_loop sys padlen cnt mx s) = tail_loop (u_putchar sys) padlen cnt mx (kpr s)"
proof (induction sys padlen cnt mx s rule: u_tail_loop.induct)
  case (1 sys padlen cnt mx s)
  then show ?case
    by (subst tail_loop.simps, subst u_tail_loop.simps) (simp add: same)
qed

lemma fmtstr_same [same]: "kpr (u_fmtstr sys value flags mn mx s) = fmtstr (u_putchar sys) value flags mn mx (kpr s)"
proof -
  have body: "(case body_loop (u_putchar sys) v cnt mx (kpr t) of (n, t) \<Rightarrow> f n t) =
      (case u_body_loop sys v cnt mx t of (n, t) \<Rightarrow> f n (kpr t))" for v cnt t f
    by (simp add: body_same split: prod.split)
  have lead: "(case lead_loop (u_putchar sys) p cnt mx (kpr s) of (p, n, t) \<Rightarrow> f p n t) =
      (case u_lead_loop sys p cnt mx s of (p, n, t) \<Rightarrow> f p n (kpr t))" for p cnt f
    by (simp add: lead_same split: prod.split)
  show ?thesis
    unfolding u_fmtstr_def fmtstr_def Let_def lead body same prod.case_distrib [of kpr] by (rule refl)
qed

lemma conv_same [same]: "u_conv_loop caps bs u place = conv_loop caps bs u place"
proof (induction caps bs u place rule: u_conv_loop.induct)
  case (1 caps bs u place)
  then show ?case by (subst conv_loop.simps, subst u_conv_loop.simps) (simp add: same)
qed

lemma fmtint_same [same]: "kpr (u_fmtint sys value bs mn mx flags s) = fmtint (u_putchar sys) value bs mn mx flags (kpr s)"
  unfolding u_fmtint_def fmtint_def Let_def same if_distrib [of kpr] by (rule refl)

lemma fpu_same [same]:
  "fp_arg (kfp fp) = u_fp_arg fp" "fp_of_long (kfp fp) = u_fp_of_long fp" "fp_trunc (kfp fp) = u_fp_trunc fp"
  "fp_minus (kfp fp) = u_fp_minus fp" "fp_mul (kfp fp) = u_fp_mul fp" "fp_sub (kfp fp) = u_fp_sub fp"
  "fp_less (kfp fp) = u_fp_less fp" "fp_half (kfp fp) = u_fp_half fp"
  by (simp_all add: kfp_def)

lemma pow10_loop_same: "u_pow10_loop fp n r = pow10_loop (kfp fp) n r"
  by (induction n arbitrary: r) (simp_all add: same)

lemma fp_functions_same [same]:
  "u_abs_val fp x = abs_val (kfp fp) x" "u_pow10 fp n = pow10 (kfp fp) n" "u_xround fp x = xround (kfp fp) x"
  by (simp_all add: u_abs_val_def abs_val_def u_pow10_def pow10_def pow10_loop_same u_xround_def xround_def same Let_def)

lemma dec_same [same]: "u_dec_loop part place = dec_loop part place"
proof (induction part place rule: u_dec_loop.induct)
  case (1 part place)
  then show ?case
    by (subst dec_loop.simps, subst u_dec_loop.simps) (auto intro: rbind_cong)
qed

lemma fmtfp_same:
  "map_sum id kpr (u_fmtfp sys fp x mn mx flags s) = fmtfp (u_putchar sys) (kfp fp) x mn mx flags (kpr s)"
  unfolding u_fmtfp_def fmtfp_def Let_def map_rbind
  unfolding same if_distrib [of kpr] map_sum.simps id_apply by (rule refl)

lemma kst_eq [same]:
  "kst st = DP_S_DONE \<longleftrightarrow> st = u_DP_S_DONE" "kcf cf = DP_C_LDOUBLE \<longleftrightarrow> cf = u_DP_C_LDOUBLE"
  "kcf cf = DP_C_SHORT \<longleftrightarrow> cf = u_DP_C_SHORT"
  by (cases st; simp) (cases cf; simp)+

lemma kdp_simps [same]:
  "dp_state (kdp d) = kst (u_dp_state d)" "dp_ch (kdp d) = u_dp_ch d" "dp_format (kdp d) = u_dp_format d"
  "dp_args (kdp d) = u_dp_args d" "dp_min (kdp d) = u_dp_min d" "dp_max (kdp d) = u_dp_max d"
  "dp_flags (kdp d) = u_dp_flags d" "dp_cflags (kdp d) = kcf (u_dp_cflags d)" "dp_pr (kdp d) = kpr (u_dp_pr d)"
  by (simp_all add: kdp_def)

lemma kdp_updates [same]:
  "kdp (d\<lparr>u_dp_state := st\<rparr>) = (kdp d)\<lparr>dp_state := kst st\<rparr>"
  "kdp (d\<lparr>u_dp_ch := c\<rparr>) = (kdp d)\<lparr>dp_ch := c\<rparr>"
  "kdp (d\<lparr>u_dp_format := cs\<rparr>) = (kdp d)\<lparr>dp_format := cs\<rparr>"
  "kdp (d\<lparr>u_dp_args := va\<rparr>) = (kdp d)\<lparr>dp_args := va\<rparr>"
  "kdp (d\<lparr>u_dp_min := i\<rparr>) = (kdp d)\<lparr>dp_min := i\<rparr>"
  "kdp (d\<lparr>u_dp_max := i\<rparr>) = (kdp d)\<lparr>dp_max := i\<rparr>"
  "kdp (d\<lparr>u_dp_flags := f\<rparr>) = (kdp d)\<lparr>dp_flags := f\<rparr>"
  "kdp (d\<lparr>u_dp_cflags := cf\<rparr>) = (kdp d)\<lparr>dp_cflags := kcf cf\<rparr>"
  "kdp (d\<lparr>u_dp_pr := s\<rparr>) = (kdp d)\<lparr>dp_pr := kpr s\<rparr>"
  by (simp_all add: kdp_def)

lemma kpr_stores [same]:
  "kpr (s\<lparr>u_stores := t\<rparr>) = (kpr s)\<lparr>stores := t\<rparr>" "stores (kpr s) = u_stores s"
  "currlen (kpr s) = u_currlen s" "sink (kpr s) = u_sink s"
  by (simp_all add: kpr_def)

lemma next_ch_same: "next_ch (kdp d) = map_sum id kdp (u_next_ch d)"
  by (simp add: next_ch_def u_next_ch_def same split: list.splits)

lemma va_arg_same: "va_arg n (kdp d) = map_sum id (map_prod id kdp) (u_va_arg n d)"
  by (simp add: va_arg_def u_va_arg_def same)

lemma put_int_same: "put_int (u_putchar sys) bs f (kdp d) = map_sum id kdp (u_put_int sys bs f d)"
  by (simp add: put_int_def u_put_int_def va_arg_same rbind_map map_rbind Let_def case_prod_unfold same)

lemma take_float_same: "take_float (kfp fp) (kdp d) = map_sum id (map_prod id kdp) (u_take_float fp d)"
  by (simp add: take_float_def u_take_float_def va_arg_same rbind_map map_rbind case_prod_unfold same)

lemma dopr_conv_same:
  "dopr_conv (u_putchar sys) (kfp fp) str_at maxlen (kdp d) = map_sum id kdp (u_dopr_conv sys fp str_at maxlen d)"
proof -
  have fl: "take_float (kfp fp) ((kdp d)\<lparr>dp_flags := f\<rparr>) =
      map_sum id (map_prod id kdp) (u_take_float fp (d\<lparr>u_dp_flags := f\<rparr>))" for f
    unfolding kdp_updates(7) [symmetric] by (rule take_float_same)
  show ?thesis
    unfolding dopr_conv_def u_dopr_conv_def if_distrib [of "map_sum id kdp"]
    by (intro if_cong refl) (simp_all add: put_int_same take_float_same fl va_arg_same next_ch_same
      fmtfp_same [symmetric] rbind_map map_rbind Let_def case_prod_unfold same cong: if_cong)
qed

lemma dopr_step_same:
  "dopr_step (u_putchar sys) (kfp fp) str_at maxlen (kdp d) = map_sum id kdp (u_dopr_step sys fp str_at maxlen d)"
proof -
  have n1: "next_ch ((kdp d)\<lparr>dp_state := DP_S_FLAGS\<rparr>) = map_sum id kdp (u_next_ch (d\<lparr>u_dp_state := u_DP_S_FLAGS\<rparr>))"
    using next_ch_same [of "d\<lparr>u_dp_state := u_DP_S_FLAGS\<rparr>"] by (simp add: same)
  have n2: "next_ch ((kdp d)\<lparr>dp_state := DP_S_MAX\<rparr>) = map_sum id kdp (u_next_ch (d\<lparr>u_dp_state := u_DP_S_MAX\<rparr>))"
    using next_ch_same [of "d\<lparr>u_dp_state := u_DP_S_MAX\<rparr>"] by (simp add: same)
  have n3: "next_ch ((kdp d)\<lparr>dp_pr := dopr_outch (u_putchar sys) c (kpr s)\<rparr>) =
      map_sum id kdp (u_next_ch (d\<lparr>u_dp_pr := u_dopr_outch sys c s\<rparr>))" for c s
    using next_ch_same [of "d\<lparr>u_dp_pr := u_dopr_outch sys c s\<rparr>"] by (simp add: same)
  have n4: "next_ch ((kdp d)\<lparr>dp_flags := f\<rparr>) = map_sum id kdp (u_next_ch (d\<lparr>u_dp_flags := f\<rparr>))" for f
    using next_ch_same [of "d\<lparr>u_dp_flags := f\<rparr>"] by (simp add: same)
  have n5: "next_ch ((kdp d)\<lparr>dp_min := i\<rparr>) = map_sum id kdp (u_next_ch (d\<lparr>u_dp_min := i\<rparr>))" for d :: "'a u_dp" and i
    using next_ch_same [of "d\<lparr>u_dp_min := i\<rparr>"] by (simp add: same)
  have n6: "next_ch ((kdp d)\<lparr>dp_max := i\<rparr>) = map_sum id kdp (u_next_ch (d\<lparr>u_dp_max := i\<rparr>))" for d :: "'a u_dp" and i
    using next_ch_same [of "d\<lparr>u_dp_max := i\<rparr>"] by (simp add: same)
  have n7: "next_ch ((kdp d)\<lparr>dp_cflags := DP_C_SHORT\<rparr>) = map_sum id kdp (u_next_ch (d\<lparr>u_dp_cflags := u_DP_C_SHORT\<rparr>))"
    "next_ch ((kdp d)\<lparr>dp_cflags := DP_C_LONG\<rparr>) = map_sum id kdp (u_next_ch (d\<lparr>u_dp_cflags := u_DP_C_LONG\<rparr>))"
    "next_ch ((kdp d)\<lparr>dp_cflags := DP_C_LDOUBLE\<rparr>) = map_sum id kdp (u_next_ch (d\<lparr>u_dp_cflags := u_DP_C_LDOUBLE\<rparr>))"
    using next_ch_same [of "d\<lparr>u_dp_cflags := u_DP_C_SHORT\<rparr>"] next_ch_same [of "d\<lparr>u_dp_cflags := u_DP_C_LONG\<rparr>"]
      next_ch_same [of "d\<lparr>u_dp_cflags := u_DP_C_LDOUBLE\<rparr>"] by (simp_all add: same)
  show ?thesis
    by (cases "u_dp_state d")
      (simp_all add: dopr_step_def u_dopr_step_def dopr_conv_same next_ch_same n1 n2 n3 n4 n5 n6 n7 va_arg_same
        rbind_map map_rbind case_prod_unfold if_distrib [of "map_sum id kdp"] same cong: if_cong)
qed

lemma dopr_loop_same:
  "dopr_loop (u_putchar sys) (kfp fp) str_at maxlen (kdp d) = map_sum id kdp (u_dopr_loop sys fp str_at maxlen d)"
proof (induction sys fp str_at maxlen d rule: u_dopr_loop.induct)
  case (1 sys fp str_at maxlen d)
  show ?case
  proof (cases "u_dp_state d = u_DP_S_DONE \<or> u_dopr_end maxlen d")
    case True
    then show ?thesis
      by (subst dopr_loop.simps, subst u_dopr_loop.simps) (auto simp: same dopr_end_def u_dopr_end_def)
  next
    case False
    then have "\<not> dopr_end maxlen (kdp d)" by (simp add: same dopr_end_def u_dopr_end_def)
    moreover have "u_dp_state d \<noteq> u_DP_S_DONE" "\<not> u_dopr_end maxlen d" using False by simp_all
    ultimately show ?thesis using "1.IH"
      by (subst dopr_loop.simps, subst u_dopr_loop.simps, cases "u_dopr_step sys fp str_at maxlen d")
        (simp_all add: same dopr_step_same, simp add: id_def)
  qed
qed

lemma dopr_same:
  "map_sum id kpr (u_dopr sys fp str_at maxlen fmt va s) =
     dopr (u_putchar sys) (kfp fp) str_at maxlen fmt va s"
proof -
  let ?d = "\<lparr>u_dp_state = u_DP_S_DEFAULT, u_dp_ch = 0, u_dp_format = cstr fmt @ [0], u_dp_args = va,
         u_dp_min = 0, u_dp_max = - 1, u_dp_flags = 0, u_dp_cflags = u_DP_C_NONE,
         u_dp_pr = \<lparr>u_sink = s, u_currlen = 0, u_stores = []\<rparr>\<rparr> :: 'a u_dp"
  have d: "kdp ?d = \<lparr>dp_state = DP_S_DEFAULT, dp_ch = 0, dp_format = cstr fmt @ [0], dp_args = va,
         dp_min = 0, dp_max = - 1, dp_flags = 0, dp_cflags = DP_C_NONE,
         dp_pr = \<lparr>sink = s, currlen = 0, stores = []\<rparr>\<rparr>"
    by (simp add: kdp_def kpr_def)
  show ?thesis
    unfolding u_dopr_def dopr_def d [symmetric] next_ch_same rbind_map map_rbind dopr_loop_same
    by (simp add: same)
qed

text \<open>C40: The two formatted-output libraries agree.  For every format, arguments and state, the
  user programs' \<^verbatim>\<open>dopr\<close> does exactly what the kernel's does with \<^verbatim>\<open>putchar\<close> as the stream:
  the same characters in the same order, the same count and stores, the same failures.\<close>

theorem u_dopr_equiv:
  "map_sum id kpr (u_dopr sys fp str_at maxlen fmt va s) =
     dopr (u_putchar sys) (kfp fp) str_at maxlen fmt va s"
  by (rule dopr_same)

text \<open>\<^verbatim>\<open>printf\<close> of a user program.  For a format made of plain characters, percent signs
  and conversions whose text is shorter than 1000 characters, \<^verbatim>\<open>printf\<close> takes the semaphore,
  writes the characters of the text one by one and in order to descriptor 1, gives the semaphore
  back and returns 1 (not the number of characters).\<close>

theorem printf_spec:
  assumes "list_all piece_ok qs" and "length (concat (map (piece_text str_at 1000) qs)) < 1000"
  shows "u_printf sys fp str_at printf_sem (concat (map encode_piece qs)) (concat (map piece_args qs)) s =
    Inr (1, snd (sys_up sys printf_sem
      (fold (\<lambda>c s. snd (sys_write sys 1 [c] s)) (concat (map (piece_text str_at 1000) qs))
        (snd (sys_down sys printf_sem s)))))"
proof -
  let ?s = "snd (sys_down sys printf_sem s)" and ?t = "concat (map (piece_text str_at 1000) qs)"
  have "map_sum id kpr (u_dopr sys fp str_at 1000 (concat (map encode_piece qs)) (concat (map piece_args qs)) ?s) =
      Inr \<lparr>sink = fold (u_putchar sys) ?t ?s, currlen = int (length ?t), stores = []\<rparr>"
    using assms by (simp add: dopr_same dopr_text)
  then obtain p where "u_dopr sys fp str_at 1000 (concat (map encode_piece qs)) (concat (map piece_args qs)) ?s = Inr p"
    "u_sink p = fold (u_putchar sys) ?t ?s"
    by (cases "u_dopr sys fp str_at 1000 (concat (map encode_piece qs)) (concat (map piece_args qs)) ?s")
      (auto simp: kpr_def)
  moreover have "u_putchar sys = (\<lambda>c s. snd (sys_write sys 1 [c] s))"
    by (simp add: fun_eq_iff u_putchar_def putchar_def)
  ultimately show ?thesis by (simp add: u_printf_def u_vprintf_def Let_def)
qed

text \<open>System calls that record what they are asked for.\<close>

definition log_sys :: "(string \<times> u8 list) list usys" where
  "log_sys = \<lparr>sys_read = \<lambda>fd n s. ((0, []), s), sys_write = \<lambda>fd bs s. (int (length bs), s @ [(''write'', bs)]),
     sys_sem = \<lambda>n s. (10, s), sys_up = \<lambda>i s. (0, s @ [(''up'', [])]), sys_down = \<lambda>i s. (0, s @ [(''down'', [])])\<rparr>"

text \<open>Floating-point arithmetic by whole numbers, for formats that use none of it.\<close>

definition u_whole_fpu :: "int u_fpu" where
  "u_whole_fpu = \<lparr>u_fp_arg = (\<lambda>ws. 0), u_fp_of_long = id, u_fp_trunc = id, u_fp_minus = uminus, u_fp_mul = (*),
     u_fp_sub = (-), u_fp_less = (<), u_fp_half = 0\<rparr>"

lemma printf_spec_witness:
  "u_printf log_sys u_whole_fpu (\<lambda>a. []) 10 [72, 37, 99, 37, 37] [105] [] =
   Inr (1, [(''down'', []), (''write'', [72]), (''write'', [105]), (''write'', [37]), (''up'', [])])"
  using printf_spec [of "[Lit 72, Conv [] [] None [] CChr 105, Percent]" "\<lambda>a. []" log_sys u_whole_fpu 10 "[]"]
  by (simp add: log_sys_def)

end
