(* ===== verification/Queue.thy ===== *)
theory Queue
  imports OS_Prelude
begin

text \<open>
  The intrusive queue of \<^verbatim>\<open>kernel/queue.h\<close>: the elements are linked through their own field
  \<^verbatim>\<open>next\<close>, so a thread control block is in one queue at a time.  The locale \<open>fifo_queue\<close> is what
  its clients (the ready queue, the zombies, the waiters of a semaphore or a condition) rely on.
\<close>

section \<open>The queue\<close>

text \<open>An element is known by its address; 0 is the null pointer.  The field \<^verbatim>\<open>next\<close> of all
  elements is one store, shared by all queues.\<close>

type_synonym tcb = u32
type_synonym links = "tcb \<Rightarrow> tcb"

record queue =
  first :: tcb
  last :: tcb

definition empty_queue :: queue where
  "empty_queue = \<lparr>first = 0, last = 0\<rparr>"

definition q_add :: "tcb \<Rightarrow> links \<times> queue \<Rightarrow> links \<times> queue" where
  "q_add t = (\<lambda>(l, q).
     let l1 = l(t := 0)
     in if first q = 0 then (l1, q\<lparr>first := t, last := t\<rparr>)
        else (l1(last q := t), q\<lparr>last := t\<rparr>))"

definition q_remove :: "links \<times> queue \<Rightarrow> tcb option \<times> links \<times> queue" where
  "q_remove = (\<lambda>(l, q).
     if first q = 0 then (None, l, q)
     else
       (let it = first q;
            f = l it
        in (Some it, l, if f = 0 then q\<lparr>first := f, last := 0\<rparr> else q\<lparr>first := f\<rparr>)))"

definition q_remove_all :: "links \<times> queue \<Rightarrow> tcb \<times> links \<times> queue" where
  "q_remove_all = (\<lambda>(l, q). (first q, l, q\<lparr>first := 0, last := 0\<rparr>))"

section \<open>The contract of a queue\<close>

text \<open>
  \<open>holds s xs\<close>: the queue holds \<open>xs\<close>, oldest first.  Adding asks for an element that is not in
  the queue.
\<close>

locale fifo_queue =
  fixes holds :: "'s \<Rightarrow> 'a list \<Rightarrow> bool"
    and elem :: "'a \<Rightarrow> bool"
    and enq :: "'a \<Rightarrow> 's \<Rightarrow> 's"
    and deq :: "'s \<Rightarrow> 'a option \<times> 's"
  assumes enq_ok: "holds s xs \<Longrightarrow> elem x \<Longrightarrow> x \<notin> set xs \<Longrightarrow> holds (enq x s) (xs @ [x])"
    and deq_empty: "holds s [] \<Longrightarrow> fst (deq s) = None \<and> holds (snd (deq s)) []"
    and deq_ok: "holds s (x # xs) \<Longrightarrow> fst (deq s) = Some x \<and> holds (snd (deq s)) xs"

text \<open>A client's history: elements added, removals, and what the removals returned.\<close>

datatype 'a q_op = Add 'a | Remove

primrec q_run :: "('a \<Rightarrow> 's \<Rightarrow> 's) \<Rightarrow> ('s \<Rightarrow> 'a option \<times> 's) \<Rightarrow> 'a q_op list \<Rightarrow> 's \<Rightarrow> 'a option list \<times> 's" where
  "q_run enq deq [] s = ([], s)"
| "q_run enq deq (op # ops) s =
     (case op of
        Add x \<Rightarrow> q_run enq deq ops (enq x s)
      | Remove \<Rightarrow> (case deq s of (r, s1) \<Rightarrow> case q_run enq deq ops s1 of (rs, s2) \<Rightarrow> (r # rs, s2)))"

text \<open>The same history on a list.\<close>

primrec list_run :: "'a q_op list \<Rightarrow> 'a list \<Rightarrow> 'a option list \<times> 'a list" where
  "list_run [] xs = ([], xs)"
| "list_run (op # ops) xs =
     (case op of
        Add x \<Rightarrow> list_run ops (xs @ [x])
      | Remove \<Rightarrow> (case list_run ops (tl xs) of (rs, ys) \<Rightarrow>
          ((case xs of [] \<Rightarrow> None | x # _ \<Rightarrow> Some x) # rs, ys)))"

primrec adds_fresh :: "('a \<Rightarrow> bool) \<Rightarrow> 'a q_op list \<Rightarrow> 'a list \<Rightarrow> bool" where
  "adds_fresh ok [] xs = True"
| "adds_fresh ok (op # ops) xs =
     (case op of Add x \<Rightarrow> ok x \<and> x \<notin> set xs \<and> adds_fresh ok ops (xs @ [x]) | Remove \<Rightarrow> adds_fresh ok ops (tl xs))"

context fifo_queue
begin

lemma run_ok:
  "holds s xs \<Longrightarrow> adds_fresh elem ops xs \<Longrightarrow>
     fst (q_run enq deq ops s) = fst (list_run ops xs) \<and> holds (snd (q_run enq deq ops s)) (snd (list_run ops xs))"
proof (induction ops arbitrary: s xs)
  case (Cons op ops)
  show ?case
  proof (cases op)
    case (Add x)
    then show ?thesis using Cons.IH [of "enq x s" "xs @ [x]"] Cons.prems enq_ok by simp
  next
    case Remove
    obtain r s1 where d: "deq s = (r, s1)" by (cases "deq s")
    have "r = (case xs of [] \<Rightarrow> None | x # _ \<Rightarrow> Some x) \<and> holds s1 (tl xs)"
      using deq_empty [of s] deq_ok [of s "hd xs" "tl xs"] Cons.prems(1) d by (cases xs) auto
    then show ?thesis using Cons.IH [of s1 "tl xs"] Cons.prems(2) Remove d
      by (auto split: prod.splits)
  qed
qed simp

end

section \<open>The queue keeps the contract\<close>

fun links_list :: "links \<Rightarrow> tcb \<Rightarrow> tcb list \<Rightarrow> bool" where
  "links_list l a [] \<longleftrightarrow> a = 0"
| "links_list l a (x # xs) \<longleftrightarrow> a = x \<and> x \<noteq> 0 \<and> links_list l (l x) xs"

definition q_holds :: "links \<times> queue \<Rightarrow> tcb list \<Rightarrow> bool" where
  "q_holds = (\<lambda>(l, q) xs. links_list l (first q) xs \<and> distinct xs \<and> (xs \<noteq> [] \<longrightarrow> last q = List.last xs))"

lemma links_list_nonzero: "links_list l a xs \<Longrightarrow> 0 \<notin> set xs"
  by (induction xs arbitrary: a) auto

lemma links_list_other: "b \<notin> set xs \<Longrightarrow> links_list (l(b := c)) a xs = links_list l a xs"
  by (induction xs arbitrary: a) auto

lemma links_list_snoc:
  "links_list l a xs \<Longrightarrow> xs \<noteq> [] \<Longrightarrow> distinct xs \<Longrightarrow> t \<notin> set xs \<Longrightarrow> t \<noteq> 0 \<Longrightarrow> l t = 0 \<Longrightarrow>
     links_list (l(List.last xs := t)) a (xs @ [t])"
proof (induction xs arbitrary: a)
  case (Cons x xs)
  show ?case
  proof (cases "xs = []")
    case False
    then have "List.last xs \<noteq> x" using Cons.prems(3) by auto
    then show ?thesis using Cons False by auto
  qed (use Cons.prems in auto)
qed simp

lemma q_add_holds: "q_holds s xs \<Longrightarrow> t \<noteq> 0 \<Longrightarrow> t \<notin> set xs \<Longrightarrow> q_holds (q_add t s) (xs @ [t])"
proof (cases s)
  fix l q assume s: "s = (l, q)" and h: "q_holds s xs" and t: "t \<noteq> 0" "t \<notin> set xs"
  show ?thesis
  proof (cases "xs = []")
    case True
    then show ?thesis using h t s by (simp add: q_holds_def q_add_def)
  next
    case False
    then have "first q \<noteq> 0" using h s by (cases xs) (auto simp: q_holds_def)
    moreover have "links_list (l(t := 0)) (first q) xs" "distinct xs" "last q = List.last xs"
      using h s t False by (auto simp: q_holds_def links_list_other)
    ultimately show ?thesis
      using links_list_snoc [of "l(t := 0)" "first q" xs t] s t False by (simp add: q_holds_def q_add_def Let_def)
  qed
qed

lemma q_remove_empty: "q_holds s [] \<Longrightarrow> fst (q_remove s) = None \<and> q_holds (snd (q_remove s)) []"
  by (cases s) (simp add: q_holds_def q_remove_def)

lemma q_remove_holds: "q_holds s (x # xs) \<Longrightarrow> fst (q_remove s) = Some x \<and> q_holds (snd (q_remove s)) xs"
  by (cases s, cases xs) (auto simp: q_holds_def q_remove_def Let_def)

interpretation q: fifo_queue q_holds "\<lambda>t. t \<noteq> 0" q_add q_remove
  by unfold_locales (simp_all add: q_add_holds q_remove_empty q_remove_holds)

text \<open>First in, first out.  For every history of additions and removals in which no element
  is added while it is in the queue, the removals on the linked structure return what they
  return on a list: the elements in the order they were added, and nothing exactly when the
  queue is empty; at the end the structure holds the list's elements.\<close>

theorem queue_fifo:
  assumes "adds_fresh (\<lambda>t. t \<noteq> 0) ops []"
  shows "fst (q_run q_add q_remove ops (l, empty_queue)) = fst (list_run ops []) \<and>
    q_holds (snd (q_run q_add q_remove ops (l, empty_queue))) (snd (list_run ops []))"
proof -
  have "q_holds (l, empty_queue) []" by (simp add: q_holds_def empty_queue_def)
  from q.run_ok [OF this assms] show ?thesis .
qed

lemma queue_fifo_witness:
  "fst (q_run q_add q_remove [Add 4, Add 8, Remove, Add 4, Remove, Remove] (\<lambda>t. 0, empty_queue)) = [Some 4, Some 8, Some 4]"
  using queue_fifo [of "[Add 4, Add 8, Remove, Add 4, Remove, Remove]" "\<lambda>t. 0"] by simp

text \<open>A queue is not disturbed by what happens to another whose elements are different.\<close>

lemma q_add_frame:
  assumes "q_holds (l, q) xs" and "q_holds (l, q') ys" and "set xs \<inter> set ys = {}" and "t \<notin> set ys"
  shows "q_holds (fst (q_add t (l, q)), q') ys"
proof -
  have "last q \<notin> set ys" if "first q \<noteq> 0"
  proof -
    have "xs \<noteq> []" using assms(1) that by (auto simp: q_holds_def)
    then have "last q \<in> set xs" using assms(1) by (simp add: q_holds_def)
    then show ?thesis using assms(3) by auto
  qed
  then show ?thesis using assms(2,4)
    by (auto simp: q_holds_def q_add_def Let_def links_list_other)
qed

lemma q_remove_frame: "fst (snd (q_remove (l, q))) = l"
  by (simp add: q_remove_def Let_def)

text \<open>\<^verbatim>\<open>remove_all\<close> hands out the whole chain.\<close>

lemma q_remove_all_holds:
  "q_holds (l, q) xs \<Longrightarrow>
     (case q_remove_all (l, q) of (a, l', q') \<Rightarrow> links_list l' a xs \<and> q_holds (l', q') [])"
  by (simp add: q_holds_def q_remove_all_def)

end
