(* ===== verification/Counting.thy ===== *)
theory Counting
  imports OS_Prelude
begin

text \<open>
  Counting the elements of a list that satisfy a predicate, as the invariants of the lock and of the
  bounded buffer count the threads at a program point.  It holds no code of the repository.
\<close>

definition num :: "('a \<Rightarrow> bool) \<Rightarrow> 'a list \<Rightarrow> nat" where
  "num P xs = length (filter P xs)"

lemma num_update:
  "i < length xs \<Longrightarrow> num P (xs[i := y]) + (if P (xs ! i) then 1 else 0) = num P xs + (if P y then 1 else 0)"
proof (induction xs arbitrary: i)
  case (Cons x xs)
  then show ?case by (cases i) (auto simp: num_def)
qed simp

lemma num_pos: "i < length xs \<Longrightarrow> P (xs ! i) \<Longrightarrow> 0 < num P xs"
  using nth_mem [of i xs] by (auto simp: num_def filter_empty_conv)

lemma num_zero: "num P xs = 0 \<longleftrightarrow> (\<forall>i < length xs. \<not> P (xs ! i))"
  by (simp add: num_def filter_empty_conv all_set_conv_all_nth)

text \<open>Only one thread satisfies a predicate that counts to one.\<close>

lemma num_unique:
  assumes "num P xs \<le> 1" "i < length xs" "j < length xs" "P (xs ! i)" "P (xs ! j)"
  shows "i = j"
proof (rule ccontr)
  assume ne: "i \<noteq> j"
  have "card {k. k < length xs \<and> P (xs ! k)} = num P xs" by (simp add: num_def length_filter_conv_card)
  moreover have "{i, j} \<subseteq> {k. k < length xs \<and> P (xs ! k)}" using assms by simp
  ultimately have "card {i, j} \<le> 1" using assms(1) card_mono [of "{k. k < length xs \<and> P (xs ! k)}" "{i, j}"] by simp
  then show False using ne by simp
qed

end
