(* ===== verification/Locks.thy ===== *)
theory Locks
  imports Counting
begin

text \<open>
  The interrupt-safe locks of \<^verbatim>\<open>kernel/atomic.h\<close>: \<^verbatim>\<open>InterruptSafeLock\<close>, which keeps the interrupt flag of
  its owner in the lock, and \<^verbatim>\<open>ISL\<close>, which gives it to the caller.  Any number of cores take and
  release one lock, instruction by instruction; a core whose interrupts are enabled can be interrupted
  anywhere, and the handler uses the same lock.
\<close>

section \<open>Cores\<close>

text \<open>Where a context is in \<^verbatim>\<open>lock\<close> and \<^verbatim>\<open>unlock\<close>, with the value of the local variable \<^verbatim>\<open>wasDisabled\<close>.
  \<open>Inside\<close> is the critical section, where the caller of an \<^verbatim>\<open>ISL\<close> holds what \<^verbatim>\<open>lock\<close> returned.\<close>

datatype lpc = Out | Flags | Cli | Xchg bool | Keep bool | Restore bool | Spin | Inside "bool option" | Clear bool | Back bool

text \<open>A core's interrupt flag, and its contexts: the running one first, those it interrupted behind it.\<close>

record core =
  ieflag :: bool
  contexts :: "lpc list"

record ilock =
  isISL :: bool
  taken :: bool
  was :: bool
  cores :: "core list"

definition fresh_lock :: "bool \<Rightarrow> bool list \<Rightarrow> ilock" where
  "fresh_lock kind fs = \<lparr>isISL = kind, taken = False, was = False, cores = map (\<lambda>f. \<lparr>ieflag = f, contexts = [Out]\<rparr>) fs\<rparr>"

text \<open>\<^verbatim>\<open>Interrupts::isDisabled\<close>, \<^verbatim>\<open>disable\<close> and \<^verbatim>\<open>restore\<close> on a core's flag.\<close>

definition isDisabled :: "core \<Rightarrow> bool" where
  "isDisabled c = (\<not> ieflag c)"

definition cli :: "core \<Rightarrow> core" where "cli c = c\<lparr>ieflag := False\<rparr>"
definition sti :: "core \<Rightarrow> core" where "sti c = c\<lparr>ieflag := True\<rparr>"

definition restore :: "bool \<Rightarrow> core \<Rightarrow> core" where
  "restore wasDisabled c = (if \<not> wasDisabled then sti c else c)"

definition goto :: "lpc \<Rightarrow> core \<Rightarrow> core" where
  "goto p c = c\<lparr>contexts := p # tl (contexts c)\<rparr>"

definition with_core :: "nat \<Rightarrow> core \<Rightarrow> ilock \<Rightarrow> ilock" where
  "with_core i c s = s\<lparr>cores := (cores s)[i := c]\<rparr>"

text \<open>The next instruction of the running context of core \<open>i\<close>.\<close>

definition lock_move :: "nat \<Rightarrow> ilock \<Rightarrow> ilock option" where
  "lock_move i s =
     (let c = cores s ! i in
      case hd (contexts c) of
        Out \<Rightarrow> None
      | Flags \<Rightarrow> Some (with_core i (goto (if isDisabled c then Xchg True else Cli) c) s)
      | Cli \<Rightarrow> Some (with_core i (goto (Xchg False) (cli c)) s)
      | Xchg w \<Rightarrow>
          if taken s then Some (with_core i (goto (Restore w) c) s)
          else Some (with_core i (goto (if isISL s then Inside (Some w) else Keep w) c) (s\<lparr>taken := True\<rparr>))
      | Keep w \<Rightarrow> Some (with_core i (goto (Inside None) c) (s\<lparr>was := w\<rparr>))
      | Restore w \<Rightarrow> Some (with_core i (goto Spin (restore w c)) s)
      | Spin \<Rightarrow> Some (with_core i (goto Flags c) s)
      | Inside r \<Rightarrow> Some (with_core i (goto (Clear (case r of Some w \<Rightarrow> w | None \<Rightarrow> was s)) c) s)
      | Clear w \<Rightarrow> Some (with_core i (goto (Back w) c) (s\<lparr>taken := False\<rparr>))
      | Back w \<Rightarrow> Some (with_core i (goto Out (if isISL s then (if w then cli c else sti c) else restore w c)) s))"

inductive lock_step :: "ilock \<Rightarrow> ilock \<Rightarrow> bool" where
  enter: "i < length (cores s) \<Longrightarrow> hd (contexts (cores s ! i)) = Out \<Longrightarrow> lock_step s (with_core i (goto Flags (cores s ! i)) s)"
| move: "i < length (cores s) \<Longrightarrow> lock_move i s = Some s' \<Longrightarrow> lock_step s s'"
| interrupt: "i < length (cores s) \<Longrightarrow> c = cores s ! i \<Longrightarrow> ieflag c \<Longrightarrow>
    lock_step s (with_core i (c\<lparr>contexts := Out # contexts c, ieflag := False\<rparr>) s)"
| iret: "i < length (cores s) \<Longrightarrow> c = cores s ! i \<Longrightarrow> contexts c = Out # p # ps \<Longrightarrow>
    lock_step s (with_core i (c\<lparr>contexts := p # ps, ieflag := True\<rparr>) s)"

section \<open>The invariant\<close>

fun owns :: "lpc \<Rightarrow> bool" where
  "owns (Keep w) = True" | "owns (Inside r) = True" | "owns (Clear w) = True" | "owns _ = False"

text \<open>What a running context knows, when its code was entered with the flag \<open>e\<close>.\<close>

fun knows :: "bool \<Rightarrow> bool \<Rightarrow> bool \<Rightarrow> bool \<Rightarrow> lpc \<Rightarrow> bool" where
  "knows kind w0 e f Out = (f = e)"
| "knows kind w0 e f Flags = (f = e)"
| "knows kind w0 e f Spin = (f = e)"
| "knows kind w0 e f Cli = (f \<and> e)"
| "knows kind w0 e f (Xchg w) = (\<not> f \<and> w = (\<not> e))"
| "knows kind w0 e f (Keep w) = (\<not> f \<and> w = (\<not> e) \<and> \<not> kind)"
| "knows kind w0 e f (Restore w) = (\<not> f \<and> w = (\<not> e))"
| "knows kind w0 e f (Inside None) = (\<not> f \<and> w0 = (\<not> e) \<and> \<not> kind)"
| "knows kind w0 e f (Inside (Some w)) = (\<not> f \<and> w = (\<not> e) \<and> kind)"
| "knows kind w0 e f (Clear w) = (\<not> f \<and> w = (\<not> e))"
| "knows kind w0 e f (Back w) = (\<not> f \<and> w = (\<not> e))"

definition core_ok :: "bool \<Rightarrow> bool \<Rightarrow> bool \<Rightarrow> core \<Rightarrow> bool" where
  "core_ok kind w0 b c \<longleftrightarrow>
     (\<exists>p. contexts c = [p] \<and> knows kind w0 b (ieflag c) p) \<or>
     (\<exists>p q. contexts c = [p, q] \<and> b \<and> knows kind w0 False (ieflag c) p \<and> q \<in> {Out, Flags, Cli, Spin})"

definition lock_inv :: "bool list \<Rightarrow> ilock \<Rightarrow> bool" where
  "lock_inv fs s \<longleftrightarrow>
     length (cores s) = length fs \<and> (\<forall>i < length fs. core_ok (isISL s) (was s) (fs ! i) (cores s ! i)) \<and>
     num (\<lambda>c. owns (hd (contexts c))) (cores s) = (if taken s then 1 else 0)"

lemma fresh_lock_inv: "lock_inv fs (fresh_lock kind fs)"
proof -
  have "num (\<lambda>c. owns (hd (contexts c))) (map (\<lambda>f. \<lparr>ieflag = f, contexts = [Out]\<rparr>) fs) = 0" by (simp add: num_def filter_map comp_def)
  then show ?thesis by (simp add: lock_inv_def fresh_lock_def core_ok_def)
qed

text \<open>A step of one core keeps the invariant when it keeps that core's part and the count.\<close>

lemma lock_inv_on:
  assumes I: "lock_inv fs s" and i: "i < length (cores s)" and ok: "core_ok (isISL s) w' (fs ! i) c"
    and n: "(if owns (hd (contexts c)) then 1 else 0) + (if taken s then 1 else (0 :: nat)) =
      (if owns (hd (contexts (cores s ! i))) then 1 else 0) + (if t then 1 else 0)"
    and w: "w' = was s \<or> owns (hd (contexts (cores s ! i)))"
  shows "lock_inv fs (with_core i c (s\<lparr>taken := t, was := w'\<rparr>))"
proof -
  let ?P = "\<lambda>c. owns (hd (contexts c))"
  have C: "core_ok (isISL s) (was s) (fs ! j) (cores s ! j)" "num ?P (cores s) = (if taken s then 1 else 0)"
    "length (cores s) = length fs" if "j < length fs" for j using I that by (auto simp: lock_inv_def)
  have L: "length (cores s) = length fs" using I by (simp add: lock_inv_def)
  have cnt: "num ?P ((cores s)[i := c]) = (if t then 1 else 0)"
    using num_update [OF i, of ?P c] C(2) [of i] n i L by (auto split: if_splits)
  have rest: "core_ok (isISL s) w' (fs ! j) (cores s ! j)" if j: "j < length fs" "j \<noteq> i" for j
  proof (cases "w' = was s")
    case False
    then have o: "?P (cores s ! i)" using w by simp
    have "\<not> ?P (cores s ! j)"
      using num_unique [of ?P "cores s" i j, OF _ i] C(2) [OF j(1)] o j L by (auto split: if_splits)
    then show ?thesis using C(1) [OF j(1)] unfolding core_ok_def
      by (auto elim!: knows.elims)
  qed (use C [OF j(1)] in simp)
  have "core_ok (isISL s) w' (fs ! j) ((cores s)[i := c] ! j)" if "j < length fs" for j
    using ok rest i that by (cases "j = i") simp_all
  then show ?thesis using L cnt by (simp add: lock_inv_def with_core_def)
qed

lemma with_core_same [simp]: "s\<lparr>taken := taken s, was := was s\<rparr> = s"
  by simp

lemma with_core_twice [simp]:
  "with_core i c (s\<lparr>taken := t, was := was s\<rparr>) = with_core i c (s\<lparr>taken := t\<rparr>)"
  "with_core i c (s\<lparr>taken := taken s, was := w\<rparr>) = with_core i c (s\<lparr>was := w\<rparr>)"
  by (simp_all add: with_core_def)

lemma goto_hd [simp]: "hd (contexts (goto p c)) = p"
  by (simp add: goto_def)

lemma flag_simps [simp]:
  "contexts (cli c) = contexts c" "ieflag (cli c) = False" "contexts (restore w c) = contexts c"
  "ieflag (restore w c) = (ieflag c \<or> \<not> w)" "contexts (sti c) = contexts c" "ieflag (sti c) = True"
  by (simp_all add: cli_def sti_def restore_def)

lemma core_ok_goto:
  assumes "core_ok kind w0 b c" "\<And>e. knows kind w0 e (ieflag c) (hd (contexts c)) \<Longrightarrow> (e \<longrightarrow> b) \<Longrightarrow> knows kind w' e (ieflag c') p"
    "contexts c' = contexts c"
  shows "core_ok kind w' b (goto p c')"
  using assms by (auto simp: core_ok_def goto_def)

lemma lock_move_inv:
  assumes I: "lock_inv fs s" and i: "i < length (cores s)" and m: "lock_move i s = Some s'"
  shows "lock_inv fs s'"
proof -
  let ?c = "cores s ! i"
  have ok: "core_ok (isISL s) (was s) (fs ! i) ?c" and L: "length (cores s) = length fs" using I i by (auto simp: lock_inv_def)
  note K = core_ok_goto [OF ok]
  note go = lock_inv_on [OF I i, where w' = "was s" and t = "taken s", simplified with_core_same]
  note go_taken = lock_inv_on [OF I i, where w' = "was s", unfolded with_core_twice]
  note go_was = lock_inv_on [OF I i, where t = "taken s", unfolded with_core_twice]
  show ?thesis
  proof (cases "hd (contexts ?c)")
    case Out
    then show ?thesis using m by (simp add: lock_move_def Let_def)
  next
    case Flags
    have "s' = with_core i (goto (if isDisabled ?c then Xchg True else Cli) ?c) s" using m Flags by (simp add: lock_move_def Let_def)
    then show ?thesis using Flags by (auto intro!: go K simp: isDisabled_def)
  next
    case Cli
    have "s' = with_core i (goto (Xchg False) (cli ?c)) s" using m Cli by (simp add: lock_move_def Let_def)
    then show ?thesis using Cli by (auto intro!: go K )
  next
    case (Xchg w)
    show ?thesis
    proof (cases "taken s")
      case True
      then have "s' = with_core i (goto (Restore w) ?c) s" using m Xchg by (simp add: lock_move_def Let_def)
      then show ?thesis using Xchg by (auto intro!: go K)
    next
      case False
      let ?p = "if isISL s then Inside (Some w) else Keep w"
      have "s' = with_core i (goto ?p ?c) (s\<lparr>taken := True\<rparr>)" using m Xchg False by (simp add: lock_move_def Let_def)
      then show ?thesis using Xchg False by (auto intro!: go_taken K)
    qed
  next
    case (Keep w)
    have "s' = with_core i (goto (Inside None) ?c) (s\<lparr>was := w\<rparr>)" using m Keep by (simp add: lock_move_def Let_def)
    then show ?thesis using Keep by (auto intro!: go_was K)
  next
    case (Restore w)
    have "s' = with_core i (goto Spin (restore w ?c)) s" using m Restore by (simp add: lock_move_def Let_def)
    then show ?thesis using Restore by (auto intro!: go K)
  next
    case Spin
    have "s' = with_core i (goto Flags ?c) s" using m Spin by (simp add: lock_move_def Let_def)
    then show ?thesis using Spin by (auto intro!: go K)
  next
    case (Inside r)
    have "s' = with_core i (goto (Clear (case r of Some w \<Rightarrow> w | None \<Rightarrow> was s)) ?c) s"
      using m Inside by (simp add: lock_move_def Let_def)
    then show ?thesis using Inside by (cases r) (auto intro!: go K)
  next
    case (Clear w)
    have "s' = with_core i (goto (Back w) ?c) (s\<lparr>taken := False\<rparr>)" using m Clear by (simp add: lock_move_def Let_def)
    moreover have "taken s" using I num_pos [of i "cores s" "\<lambda>c. owns (hd (contexts c))"] i Clear
      by (auto simp: lock_inv_def split: if_splits)
    ultimately show ?thesis using Clear by (auto intro!: go_taken K)
  next
    case (Back w)
    have "s' = with_core i (goto Out (if isISL s then (if w then cli ?c else sti ?c) else restore w ?c)) s"
      using m Back by (simp add: lock_move_def Let_def)
    then show ?thesis using Back by (auto intro!: go K split: if_splits)
  qed
qed

lemma lock_step_inv: "lock_step s s' \<Longrightarrow> lock_inv fs s \<Longrightarrow> lock_inv fs s'"
proof (induction rule: lock_step.induct)
  case (enter i s)
  have "core_ok (isISL s) (was s) (fs ! i) (cores s ! i)" using enter by (auto simp: lock_inv_def)
  then have "core_ok (isISL s) (was s) (fs ! i) (goto Flags (cores s ! i))" by (rule core_ok_goto) (use enter in auto)
  then show ?case using lock_inv_on [OF enter(3,1), where w' = "was s" and t = "taken s"] enter(2) by simp
next
  case (move i s s')
  then show ?case by (blast intro: lock_move_inv)
next
  case (interrupt i s c)
  have ok: "core_ok (isISL s) (was s) (fs ! i) c" using interrupt by (auto simp: lock_inv_def)
  have "core_ok (isISL s) (was s) (fs ! i) (c\<lparr>contexts := Out # contexts c, ieflag := False\<rparr>) \<and> \<not> owns (hd (contexts c))"
    using ok interrupt(3) by (auto simp: core_ok_def elim!: knows.elims)
  then show ?case using lock_inv_on [OF interrupt(4,1), where w' = "was s" and t = "taken s"] interrupt(2) by simp
next
  case (iret i s c p ps)
  have ok: "core_ok (isISL s) (was s) (fs ! i) c" using iret by (auto simp: lock_inv_def)
  have "core_ok (isISL s) (was s) (fs ! i) (c\<lparr>contexts := p # ps, ieflag := True\<rparr>) \<and> \<not> owns p"
    using ok iret(3) by (auto simp: core_ok_def)
  then show ?case using lock_inv_on [OF iret(4,1), where w' = "was s" and t = "taken s"] iret(2,3) by simp
qed

lemma lock_steps_inv: "lock_step\<^sup>*\<^sup>* (fresh_lock kind fs) s \<Longrightarrow> lock_inv fs s"
proof (induction rule: rtranclp_induct)
  case base
  show ?case by (rule fresh_lock_inv)
next
  case (step s s')
  then show ?case using lock_step_inv by blast
qed

section \<open>What the locks promise\<close>

lemma core_ok_owner:
  assumes "core_ok kind w b c" "k < length (contexts c)" "owns (contexts c ! k)"
  shows "k = 0 \<and> \<not> ieflag c"
  using assms by (auto simp: core_ok_def less_Suc_eq elim!: knows.elims)

lemma core_ok_out: "core_ok kind w b c \<Longrightarrow> hd (contexts c) = Out \<Longrightarrow> ieflag c = (b \<and> length (contexts c) = 1)"
  by (auto simp: core_ok_def)

lemma owner_moves: "owns (hd (contexts (cores s ! i))) \<Longrightarrow> lock_move i s \<noteq> None"
  by (cases "hd (contexts (cores s ! i))") (auto simp: lock_move_def Let_def)

text \<open>Orders that make a core step, to run the relation on concrete states.\<close>

datatype lock_order = Enter nat | Move nat | Irq nat | Iret nat

fun lock_follow :: "lock_order \<Rightarrow> ilock \<Rightarrow> ilock option" where
  "lock_follow (Enter i) s =
     (if i < length (cores s) \<and> hd (contexts (cores s ! i)) = Out then Some (with_core i (goto Flags (cores s ! i)) s) else None)"
| "lock_follow (Move i) s = (if i < length (cores s) then lock_move i s else None)"
| "lock_follow (Irq i) s =
     (let c = cores s ! i in
      if i < length (cores s) \<and> ieflag c then Some (with_core i (c\<lparr>contexts := Out # contexts c, ieflag := False\<rparr>) s) else None)"
| "lock_follow (Iret i) s =
     (let c = cores s ! i in
      case contexts c of
        x # p # ps \<Rightarrow> if i < length (cores s) \<and> x = Out then Some (with_core i (c\<lparr>contexts := p # ps, ieflag := True\<rparr>) s) else None
      | _ \<Rightarrow> None)"

fun lock_follows :: "lock_order list \<Rightarrow> ilock \<Rightarrow> ilock option" where
  "lock_follows [] s = Some s"
| "lock_follows (x # xs) s = Option.bind (lock_follow x s) (lock_follows xs)"

lemma lock_follow_step: "lock_follow x s = Some s' \<Longrightarrow> lock_step s s'"
proof (cases x)
  case (Iret i)
  then show "lock_follow x s = Some s' \<Longrightarrow> lock_step s s'"
    using lock_step.iret [of i s "cores s ! i"] by (auto simp: Let_def split: list.splits if_splits)
qed (auto simp: Let_def split: if_splits intro: lock_step.intros)

lemma lock_follows_steps: "lock_follows xs s = Some s' \<Longrightarrow> lock_step\<^sup>*\<^sup>* s s'"
proof (induction xs arbitrary: s)
  case (Cons x xs)
  then obtain t where "lock_follow x s = Some t" "lock_follows xs t = Some s'" by (auto simp: bind_eq_Some_conv)
  then show ?case using Cons.IH lock_follow_step converse_rtranclp_into_rtranclp by metis
qed simp

text \<open>C14: Whatever the interleaving of any number of cores, and wherever their interrupts arrive, both locks
  are safe: only one context at a time is between taking and releasing the lock; it is the running context of its
  core and that core's interrupts are disabled, so no handler can wait for a lock its own core holds; outside the
  lock's code every context runs with the interrupt flag it was entered with; and while the lock is taken its owner
  can move.\<close>

theorem interrupt_safe_lock:
  assumes "lock_step\<^sup>*\<^sup>* (fresh_lock kind fs) s"
  shows "(\<forall>i j k l. i < length fs \<and> j < length fs \<and> k < length (contexts (cores s ! i)) \<and> l < length (contexts (cores s ! j)) \<and>
        owns (contexts (cores s ! i) ! k) \<and> owns (contexts (cores s ! j) ! l) \<longrightarrow>
        i = j \<and> k = 0 \<and> l = 0 \<and> \<not> ieflag (cores s ! i)) \<and>
    (\<forall>i < length fs. hd (contexts (cores s ! i)) = Out \<longrightarrow>
        ieflag (cores s ! i) = (fs ! i \<and> length (contexts (cores s ! i)) = 1)) \<and>
    (taken s \<longrightarrow> (\<exists>i < length fs. owns (hd (contexts (cores s ! i))) \<and> lock_move i s \<noteq> None))"
proof (intro conjI)
  have I: "lock_inv fs s" using lock_steps_inv [OF assms] .
  have C: "core_ok (isISL s) (was s) (fs ! i) (cores s ! i)" if "i < length fs" for i using I that by (simp add: lock_inv_def)
  have L: "length (cores s) = length fs" "num (\<lambda>c. owns (hd (contexts c))) (cores s) = (if taken s then 1 else 0)"
    using I by (auto simp: lock_inv_def)
  have h: "owns (hd (contexts (cores s ! i)))" if "i < length fs" "k < length (contexts (cores s ! i))" "owns (contexts (cores s ! i) ! k)" for i k
    using core_ok_owner [OF C [OF that(1)] that(2,3)] that by (cases "contexts (cores s ! i)") auto
  show "\<forall>i j k l. i < length fs \<and> j < length fs \<and> k < length (contexts (cores s ! i)) \<and> l < length (contexts (cores s ! j)) \<and>
        owns (contexts (cores s ! i) ! k) \<and> owns (contexts (cores s ! j) ! l) \<longrightarrow>
        i = j \<and> k = 0 \<and> l = 0 \<and> \<not> ieflag (cores s ! i)"
    using num_unique [of "\<lambda>c. owns (hd (contexts c))" "cores s"] L h core_ok_owner [OF C] by (metis order_refl zero_le_one)
  show "\<forall>i < length fs. hd (contexts (cores s ! i)) = Out \<longrightarrow>
      ieflag (cores s ! i) = (fs ! i \<and> length (contexts (cores s ! i)) = 1)" using core_ok_out [OF C] by blast
  show "taken s \<longrightarrow> (\<exists>i < length fs. owns (hd (contexts (cores s ! i))) \<and> lock_move i s \<noteq> None)"
    using L num_zero [of "\<lambda>c. owns (hd (contexts c))" "cores s"] owner_moves by (metis one_neq_zero)
qed

text \<open>Two cores want the lock; the first is interrupted before it has disabled interrupts, and its handler gets it.\<close>

definition demo_lock :: "lock_order list" where
  "demo_lock = [Enter 0, Move 0, Irq 0, Enter 0, Enter 1, Move 0, Move 0, Move 0, Move 1, Move 1, Move 1]"

lemma demo_lock_run:
  "lock_follows demo_lock (fresh_lock False [True, True]) =
     Some \<lparr>isISL = False, taken = True, was = True,
       cores = [\<lparr>ieflag = False, contexts = [Inside None, Cli]\<rparr>, \<lparr>ieflag = False, contexts = [Restore False]\<rparr>]\<rparr>"
  by code_simp

theorem interrupt_safe_lock_witness:
  "\<exists>i < 2. owns (hd (contexts (cores (the (lock_follows demo_lock (fresh_lock False [True, True]))) ! i)))"
  using interrupt_safe_lock [OF lock_follows_steps [OF demo_lock_run]] demo_lock_run
  by (simp add: numeral_2_eq_2) blast

end
