(* ===== verification/Shared_Refs.thy ===== *)
theory Shared_Refs
  imports OS_Prelude "HOL-Library.AList"
begin

text \<open>
  Reference counting, \<^verbatim>\<open>kernel/shared.h\<close>: \<^verbatim>\<open>Shared\<close> variables that point to objects with a count.  An object
  may have \<^verbatim>\<open>Shared\<close> fields, which are variables too and are destroyed with it, so that one drop can delete a
  whole structure.  A use of a deleted object or of a variable that is not there is an error value.
\<close>

section \<open>Objects and variables\<close>

record object =
  ref_count :: u32
  members :: "nat list"

text \<open>The live objects by address, and the live \<^verbatim>\<open>Shared\<close> variables with their pointers (0 is null).\<close>

record store =
  objects :: "u32 \<rightharpoonup> object"
  vars :: "(nat \<times> u32) list"

definition ptr_of :: "nat \<Rightarrow> store \<Rightarrow> u32 res" where
  "ptr_of v s = (case map_of (vars s) v of None \<Rightarrow> Inl (OutOfBounds ''Shared'') | Some p \<Rightarrow> Inr p)"

definition put_ptr :: "nat \<Rightarrow> u32 \<Rightarrow> store \<Rightarrow> store res" where
  "put_ptr v p s =
     (case map_of (vars s) v of
        None \<Rightarrow> Inl (OutOfBounds ''Shared'')
      | Some _ \<Rightarrow> Inr (s\<lparr>vars := AList.update v p (vars s)\<rparr>))"

definition new_var :: "nat \<Rightarrow> u32 \<Rightarrow> store \<Rightarrow> store" where
  "new_var v p s = s\<lparr>vars := AList.update v p (vars s)\<rparr>"

definition add_ref :: "u32 \<Rightarrow> u32 \<Rightarrow> store \<Rightarrow> (u32 \<times> store) res" where
  "add_ref p inc s =
     (case objects s p of
        None \<Rightarrow> Inl (NullDeref ''ref_count'')
      | Some ob \<Rightarrow> Inr (ref_count ob + inc, s\<lparr>objects := (objects s)(p \<mapsto> ob\<lparr>ref_count := ref_count ob + inc\<rparr>)\<rparr>))"

definition add_to :: "nat \<Rightarrow> store \<Rightarrow> store res" where
  "add_to v s = rbind (ptr_of v s) (\<lambda>p. if p \<noteq> 0 then rbind (add_ref p 1 s) (\<lambda>(c, s1). Inr s1) else Inr s)"

lemma delete_shorter: "map_of xs v = Some p \<Longrightarrow> length (AList.delete v xs) < length xs"
  by (induction xs) (auto simp: less_Suc_eq_le length_delete_le)

text \<open>The destructors of variables that go: an object whose count reaches 0 is deleted, which
  destroys its fields before anything else goes on.\<close>

function destroy :: "nat list \<Rightarrow> store \<Rightarrow> store res" where
  "destroy [] s = Inr s"
| "destroy (v # vs) s =
     (case map_of (vars s) v of
        None \<Rightarrow> Inl (OutOfBounds ''Shared'')
      | Some p \<Rightarrow>
          if p = 0 then destroy vs (s\<lparr>vars := AList.delete v (vars s)\<rparr>)
          else
            (case objects s p of
               None \<Rightarrow> Inl (NullDeref ''ref_count'')
             | Some ob \<Rightarrow>
                 if ref_count ob - 1 = 0 then
                   destroy (members ob @ vs) (s\<lparr>vars := AList.delete v (vars s), objects := (objects s)(p := None)\<rparr>)
                 else
                   destroy vs (s\<lparr>vars := AList.delete v (vars s),
                     objects := (objects s)(p \<mapsto> ob\<lparr>ref_count := ref_count ob - 1\<rparr>)\<rparr>)))"
  by pat_completeness auto

termination
  by (relation "measures [\<lambda>(vs, s). length (vars s), \<lambda>(vs, s). length vs]") (auto simp: delete_shorter)

definition delete_object :: "u32 \<Rightarrow> store \<Rightarrow> store res" where
  "delete_object p s =
     (case objects s p of
        None \<Rightarrow> Inl (NullDeref ''delete'')
      | Some ob \<Rightarrow> destroy (members ob) (s\<lparr>objects := (objects s)(p := None)\<rparr>))"

definition drop_ref :: "nat \<Rightarrow> store \<Rightarrow> store res" where
  "drop_ref v s =
     rbind (ptr_of v s) (\<lambda>p.
       if p \<noteq> 0 then
         rbind (add_ref p (- 1) s) (\<lambda>(c, s1).
           if c = 0 then rbind (delete_object p s1) (put_ptr v 0) else Inr s1)
       else Inr s)"

section \<open>The members of \<^verbatim>\<open>Shared\<close>\<close>

text \<open>\<^verbatim>\<open>make\<close>, for a new object at a free address with null fields.\<close>

definition shared_raw :: "nat \<Rightarrow> u32 \<Rightarrow> store \<Rightarrow> store res" where
  "shared_raw v p s = add_to v (new_var v p s)"

definition shared_make :: "nat \<Rightarrow> u32 \<Rightarrow> nat list \<Rightarrow> store \<Rightarrow> store res" where
  "shared_make v p ms s =
     shared_raw v p (fold (\<lambda>m. new_var m 0) ms (s\<lparr>objects := (objects s)(p \<mapsto> \<lparr>ref_count = 0, members = ms\<rparr>)\<rparr>))"

definition shared_null :: "nat \<Rightarrow> store \<Rightarrow> store res" where
  "shared_null v s = Inr (new_var v 0 s)"

definition shared_copy :: "nat \<Rightarrow> nat \<Rightarrow> store \<Rightarrow> store res" where
  "shared_copy v w s = rbind (ptr_of w s) (\<lambda>p. add_to v (new_var v p s))"

definition shared_move :: "nat \<Rightarrow> nat \<Rightarrow> store \<Rightarrow> store res" where
  "shared_move v w s = rbind (ptr_of w s) (\<lambda>p. put_ptr w 0 (new_var v p s))"

definition shared_delete :: "nat \<Rightarrow> store \<Rightarrow> store res" where
  "shared_delete v s = destroy [v] s"

definition assign_raw :: "nat \<Rightarrow> u32 \<Rightarrow> store \<Rightarrow> store res" where
  "assign_raw v rhs s =
     rbind (ptr_of v s) (\<lambda>p.
       if p \<noteq> rhs then rbind (drop_ref v s) (\<lambda>s1. rbind (put_ptr v rhs s1) (add_to v)) else Inr s)"

definition assign_copy :: "nat \<Rightarrow> nat \<Rightarrow> store \<Rightarrow> store res" where
  "assign_copy v w s =
     rbind (ptr_of w s) (\<lambda>other_ptr. rbind (ptr_of v s) (\<lambda>p.
       if p \<noteq> other_ptr then rbind (drop_ref v s) (\<lambda>s1. rbind (put_ptr v other_ptr s1) (add_to v)) else Inr s))"

definition assign_move :: "nat \<Rightarrow> nat \<Rightarrow> store \<Rightarrow> store res" where
  "assign_move v w s =
     rbind (drop_ref v s) (\<lambda>s1. rbind (ptr_of w s1) (\<lambda>p. rbind (put_ptr v p s1) (put_ptr w 0)))"

section \<open>The invariant\<close>

text \<open>The variables that point to \<open>p\<close>, without the one that is being assigned.\<close>

definition refs :: "nat option \<Rightarrow> u32 \<Rightarrow> (nat \<rightharpoonup> u32) \<Rightarrow> nat set" where
  "refs x p V = {w. V w = Some p \<and> Some w \<noteq> x}"

definition count_ok :: "nat set \<Rightarrow> object option \<Rightarrow> bool" where
  "count_ok R r \<longleftrightarrow> (case r of None \<Rightarrow> R = {} | Some ob \<Rightarrow> R \<noteq> {} \<and> unat (ref_count ob) = card R)"

definition counted :: "nat option \<Rightarrow> (nat \<rightharpoonup> u32) \<Rightarrow> (u32 \<rightharpoonup> object) \<Rightarrow> bool" where
  "counted x V O' \<longleftrightarrow>
     finite (dom V) \<and> card (dom V) < 2 ^ 32 \<and> O' 0 = None \<and>
     (\<forall>p. p \<noteq> 0 \<longrightarrow> count_ok (refs x p V) (O' p))"

text \<open>Every field belongs to one live object, and \<open>ds\<close> are to be destroyed.\<close>

definition owned :: "nat list \<Rightarrow> (nat \<rightharpoonup> u32) \<Rightarrow> (u32 \<rightharpoonup> object) \<Rightarrow> bool" where
  "owned ds V O' \<longleftrightarrow>
     distinct ds \<and> set ds \<subseteq> dom V \<and>
     (\<forall>p ob. O' p = Some ob \<longrightarrow> distinct (members ob) \<and> set (members ob) \<subseteq> dom V \<and> set (members ob) \<inter> set ds = {}) \<and>
     (\<forall>p q ob oc. O' p = Some ob \<and> O' q = Some oc \<and> p \<noteq> q \<longrightarrow> set (members ob) \<inter> set (members oc) = {})"

text \<open>A variable that is no object's field.\<close>

definition alone :: "nat \<Rightarrow> (u32 \<rightharpoonup> object) \<Rightarrow> bool" where
  "alone w O' \<longleftrightarrow> (\<forall>p ob. O' p = Some ob \<longrightarrow> w \<notin> set (members ob))"

definition store_ok :: "store \<Rightarrow> bool" where
  "store_ok s \<longleftrightarrow> counted None (map_of (vars s)) (objects s) \<and> owned [] (map_of (vars s)) (objects s)"

lemma refs_finite: "finite (dom V) \<Longrightarrow> finite (refs x p V)"
  by (rule finite_subset [of _ "dom V"]) (auto simp: refs_def)

lemma refs_card: "finite (dom V) \<Longrightarrow> card (refs x p V) \<le> card (dom V)"
  by (rule card_mono) (auto simp: refs_def)

lemma refs_gone: "refs x p (V(v := None)) = refs x p V - {v}"
  by (auto simp: refs_def)

lemma count_ok_simps [simp]:
  "count_ok R None \<longleftrightarrow> R = {}"
  "count_ok R (Some ob) \<longleftrightarrow> R \<noteq> {} \<and> unat (ref_count ob) = card R"
  by (simp_all add: count_ok_def)

lemma countedD:
  assumes "counted x V O'" "p \<noteq> 0" "v \<in> refs x p V"
  obtains ob where "O' p = Some ob" "unat (ref_count ob) = card (refs x p V)"
  using assms by (cases "O' p") (auto simp: counted_def dest!: spec [of _ p])

text \<open>Changing the variables and one object keeps the counts when that object's count fits.\<close>

lemma counted_change:
  assumes "counted x V O'" "finite (dom V')" "card (dom V') < 2 ^ 32"
    and "\<And>q. q \<noteq> 0 \<Longrightarrow> q \<noteq> p \<Longrightarrow> refs x' q V' = refs x q V"
    and "p \<noteq> 0 \<Longrightarrow> count_ok (refs x' p V') r" "p = 0 \<Longrightarrow> r = None"
  shows "counted x' V' (O'(p := r))"
  using assms by (simp add: counted_def)

lemma counted_gone:
  assumes c: "counted x V O'" and v: "V v = Some p" "x \<noteq> Some v"
  shows "p = 0 \<Longrightarrow> counted x (V(v := None)) O'"
    and "p \<noteq> 0 \<Longrightarrow> O' p = Some ob \<Longrightarrow> ref_count ob - 1 = 0 \<Longrightarrow> counted x (V(v := None)) (O'(p := None))"
    and "p \<noteq> 0 \<Longrightarrow> O' p = Some ob \<Longrightarrow> ref_count ob - 1 \<noteq> 0 \<Longrightarrow>
      counted x (V(v := None)) (O'(p \<mapsto> ob\<lparr>ref_count := ref_count ob - 1\<rparr>))"
proof -
  have "finite (dom V)" "card (dom V) < 2 ^ 32" using c by (simp_all add: counted_def)
  moreover then have "card (dom (V(v := None))) \<le> card (dom V)" by (intro card_mono) auto
  ultimately have fin: "finite (dom (V(v := None)))" "card (dom (V(v := None))) < 2 ^ 32" by simp_all
  have same: "refs x q (V(v := None)) = refs x q V" if "q \<noteq> p" for q using that v by (auto simp: refs_def)
  have mem: "v \<in> refs x p V" using v by (auto simp: refs_def)
  have f: "finite (refs x p V)" using c refs_finite by (auto simp: counted_def)
  note ch = counted_change [OF c fin same]
  have z: "O' 0 = None" using c by (simp add: counted_def)
  show "counted x (V(v := None)) O'" if p: "p = 0"
    using ch [of 0 None] p z by (simp add: fun_upd_idem)
  show "counted x (V(v := None)) (O'(p := None))" if p: "p \<noteq> 0" "O' p = Some ob" "ref_count ob - 1 = 0"
  proof -
    have "count_ok (refs x p V) (Some ob)" using c p(1,2) unfolding counted_def by metis
    then have "card (refs x p V) = 1" using p(3) by simp
    then have "refs x p (V(v := None)) = {}" using mem by (auto simp: refs_gone card_1_singleton_iff)
    then show ?thesis using ch [of p None] p(1) by simp
  qed
  show "counted x (V(v := None)) (O'(p \<mapsto> ob\<lparr>ref_count := ref_count ob - 1\<rparr>))"
    if p: "p \<noteq> 0" "O' p = Some ob" "ref_count ob - 1 \<noteq> 0"
  proof -
    have "count_ok (refs x p V) (Some ob)" using c p(1,2) unfolding counted_def by metis
    then have u: "unat (ref_count ob) = card (refs x p V)" by simp
    have ne: "ref_count ob \<noteq> 0" using u mem f by auto
    have u1: "unat (ref_count ob - 1) = card (refs x p V) - 1" using unat_minus_one [OF ne] u by simp
    have k: "card (refs x p (V(v := None))) = card (refs x p V) - 1" using mem f by (simp add: refs_gone)
    have "refs x p (V(v := None)) \<noteq> {}" using k u1 p(3) by (metis card.empty unat_eq_0)
    then show ?thesis using ch [of p "Some (ob\<lparr>ref_count := ref_count ob - 1\<rparr>)"] p(1) u1 k by simp
  qed
qed

lemma ownedD:
  assumes "owned ds V O'"
  shows "distinct ds" "set ds \<subseteq> dom V"
    "O' p = Some ob \<Longrightarrow> distinct (members ob)" "O' p = Some ob \<Longrightarrow> set (members ob) \<subseteq> dom V"
    "O' p = Some ob \<Longrightarrow> set (members ob) \<inter> set ds = {}"
    "O' p = Some ob \<Longrightarrow> O' q = Some oc \<Longrightarrow> p \<noteq> q \<Longrightarrow> set (members ob) \<inter> set (members oc) = {}"
  using assms unfolding owned_def by blast+

lemma ownedI:
  assumes "distinct ds" "set ds \<subseteq> dom V"
    and "\<And>p ob. O' p = Some ob \<Longrightarrow> distinct (members ob) \<and> set (members ob) \<subseteq> dom V \<and> set (members ob) \<inter> set ds = {}"
    and "\<And>p q ob oc. O' p = Some ob \<Longrightarrow> O' q = Some oc \<Longrightarrow> p \<noteq> q \<Longrightarrow> set (members ob) \<inter> set (members oc) = {}"
  shows "owned ds V O'"
  using assms unfolding owned_def by blast

lemma owned_same_members:
  assumes "owned ds V O'" "\<And>q oc. O'' q = Some oc \<Longrightarrow> \<exists>ob. O' q = Some ob \<and> members oc = members ob"
  shows "owned ds V O''"
proof (rule ownedI)
  show "distinct ds" "set ds \<subseteq> dom V" using ownedD [OF assms(1)] by blast+
next
  fix q oc
  assume "O'' q = Some oc"
  then obtain ob where "O' q = Some ob" "members oc = members ob" using assms(2) by blast
  then show "distinct (members oc) \<and> set (members oc) \<subseteq> dom V \<and> set (members oc) \<inter> set ds = {}"
    using ownedD(3-5) [OF assms(1)] by metis
next
  fix q r ob oc
  assume "O'' q = Some ob" "O'' r = Some oc" "q \<noteq> r"
  moreover then obtain ob' oc' where "O' q = Some ob'" "members ob = members ob'" "O' r = Some oc'" "members oc = members oc'"
    using assms(2) by metis
  ultimately show "set (members ob) \<inter> set (members oc) = {}" using ownedD(6) [OF assms(1), of q ob' r oc'] by simp
qed

lemma owned_gone:
  assumes o: "owned (v # vs) V O'"
  shows "owned vs (V(v := None)) O'"
    and "O' p = Some ob \<Longrightarrow> owned (members ob @ vs) (V(v := None)) (O'(p := None))"
    and "O' p = Some ob \<Longrightarrow> members oc = members ob \<Longrightarrow> owned vs (V(v := None)) (O'(p \<mapsto> oc))"
proof -
  note D = ownedD [OF o]
  have v: "v \<notin> set vs" using D(1) by simp
  have w: "v \<notin> set (members oc)" "set (members oc) \<inter> set vs = {}" if "O' q = Some oc" for q oc using D(5) [OF that] by auto
  have m: "set (members oc) \<subseteq> dom (V(v := None))" if "O' q = Some oc" for q oc using D(4) [OF that] w(1) [OF that] by auto
  have vs: "set vs \<subseteq> dom (V(v := None))" using D(2) v by auto
  show 1: "owned vs (V(v := None)) O'"
    by (rule ownedI) (use D(1) vs D(3) m w(2) in \<open>simp_all add: D(6)\<close>)
  show "owned (members ob @ vs) (V(v := None)) (O'(p := None))" if p: "O' p = Some ob"
  proof (rule ownedI)
    show "distinct (members ob @ vs)" using D(3) [OF p] D(1) w(2) [OF p] by auto
    show "set (members ob @ vs) \<subseteq> dom (V(v := None))" using m [OF p] vs by simp
  next
    fix q oc
    assume q: "(O'(p := None)) q = Some oc"
    show "distinct (members oc) \<and> set (members oc) \<subseteq> dom (V(v := None)) \<and> set (members oc) \<inter> set (members ob @ vs) = {}"
      using q D(6) [OF _ p, of q oc] w(2) [of q oc] D(3) m by (auto simp: Int_Un_distrib split: if_splits)
  next
    fix q r ob' oc'
    assume "(O'(p := None)) q = Some ob'" "(O'(p := None)) r = Some oc'" "q \<noteq> r"
    then show "set (members ob') \<inter> set (members oc') = {}" using D(6) [of q ob' r oc'] by (simp split: if_splits)
  qed
  show "owned vs (V(v := None)) (O'(p \<mapsto> oc))" if p: "O' p = Some ob" "members oc = members ob"
    using 1 by (rule owned_same_members) (use p in \<open>auto split: if_splits\<close>)
qed

lemma destroy_ok:
  assumes "counted x (map_of (vars s)) (objects s)" "owned ds (map_of (vars s)) (objects s)"
    and "\<And>w. x = Some w \<Longrightarrow> w \<notin> set ds \<and> alone w (objects s)"
  shows "\<exists>s'. destroy ds s = Inr s' \<and> counted x (map_of (vars s')) (objects s') \<and> owned [] (map_of (vars s')) (objects s') \<and>
    (\<forall>w. w \<notin> set ds \<and> alone w (objects s) \<longrightarrow> map_of (vars s') w = map_of (vars s) w \<and> alone w (objects s'))"
  using assms
proof (induction ds s rule: destroy.induct)
  case (2 v vs s)
  let ?V = "map_of (vars s)"
  obtain p where p: "?V v = Some p" using 2(5) by (auto simp: owned_def)
  have x: "x \<noteq> Some v" using 2(6) by fastforce
  note C = counted_gone [OF 2(4) p x] and D = owned_gone [OF 2(5)]
  show ?case
  proof (cases "p = 0")
    case True
    have "\<exists>s'. destroy vs (s\<lparr>vars := AList.delete v (vars s)\<rparr>) = Inr s' \<and> counted x (map_of (vars s')) (objects s') \<and>
        owned [] (map_of (vars s')) (objects s') \<and> (\<forall>w. w \<notin> set vs \<and> alone w (objects s) \<longrightarrow>
          map_of (vars s') w = (?V(v := None)) w \<and> alone w (objects s'))"
      using 2(1) [OF p True] C(1) [OF True] D(1) 2(6) by (simp add: delete_conv' del: fun_upd_apply)
    then show ?thesis using p True by force
  next
    case nz: False
    obtain ob where ob: "objects s p = Some ob" using countedD [OF 2(4) nz, of v] p x by (auto simp: refs_def)
    have un: "w \<notin> set (members ob)" if "alone w (objects s)" for w using that ob by (auto simp: alone_def)
    have al: "alone w ((objects s)(p := None))" "alone w ((objects s)(p \<mapsto> ob\<lparr>ref_count := c\<rparr>))" if "alone w (objects s)" for w c
      using that ob by (auto simp: alone_def)
    show ?thesis
    proof (cases "ref_count ob - 1 = 0")
      case True
      let ?s = "s\<lparr>vars := AList.delete v (vars s), objects := (objects s)(p := None)\<rparr>"
      have "\<exists>s'. destroy (members ob @ vs) ?s = Inr s' \<and> counted x (map_of (vars s')) (objects s') \<and>
          owned [] (map_of (vars s')) (objects s') \<and> (\<forall>w. w \<notin> set (members ob @ vs) \<and> alone w ((objects s)(p := None)) \<longrightarrow>
            map_of (vars s') w = (?V(v := None)) w \<and> alone w (objects s'))"
        using 2(2) [OF p nz ob True] C(2) [OF nz ob True] D(2) [OF ob] 2(6) un al(1) by (simp add: delete_conv' del: fun_upd_apply)
      then show ?thesis using p nz ob True un al(1) by force
    next
      case False
      let ?s = "s\<lparr>vars := AList.delete v (vars s), objects := (objects s)(p \<mapsto> ob\<lparr>ref_count := ref_count ob - 1\<rparr>)\<rparr>"
      have "\<exists>s'. destroy vs ?s = Inr s' \<and> counted x (map_of (vars s')) (objects s') \<and>
          owned [] (map_of (vars s')) (objects s') \<and>
          (\<forall>w. w \<notin> set vs \<and> alone w ((objects s)(p \<mapsto> ob\<lparr>ref_count := ref_count ob - 1\<rparr>)) \<longrightarrow>
            map_of (vars s') w = (?V(v := None)) w \<and> alone w (objects s'))"
        using 2(3) [OF p nz ob False] C(3) [OF nz ob False] D(3) [OF ob] 2(6) al(2) by (simp add: delete_conv' del: fun_upd_apply)
      then show ?thesis using p nz ob False al(2) by force
    qed
  qed
qed simp

section \<open>What each operation does to the counts\<close>

lemma refs_without: "refs (Some v) p V = refs None p (V(v := None))"
  by (auto simp: refs_def)

lemma card_gone: "finite (dom V) \<Longrightarrow> card (dom (V(v := None))) \<le> card (dom V)"
  by (rule card_mono) auto

lemma counted_without:
  "finite (dom V) \<Longrightarrow> card (dom V) < 2 ^ 32 \<Longrightarrow> counted (Some v) V O' \<longleftrightarrow> counted None (V(v := None)) O'"
  using card_gone [of V v] by (auto simp: counted_def refs_without)

lemma update_map_of: "map_of (AList.update v q xs) = (map_of xs)(v \<mapsto> q)"
  by (rule update_conv')

lemma owned_more:
  assumes "owned ds V O'" "dom V \<subseteq> dom V'"
  shows "owned ds V' O'"
  using assms unfolding owned_def by blast

text \<open>The drop of an assignment: the variable's old object is one pointer poorer, or gone.\<close>

definition droppable :: "nat \<Rightarrow> u32 \<Rightarrow> (nat \<rightharpoonup> u32) \<Rightarrow> (u32 \<rightharpoonup> object) \<Rightarrow> bool" where
  "droppable v p V O' \<longleftrightarrow> alone v O' \<or> p = 0 \<or> 1 < card (refs None p V)"

lemma drop_ok:
  assumes c: "counted None (map_of (vars s)) (objects s)" and o: "owned [] (map_of (vars s)) (objects s)"
    and p: "map_of (vars s) v = Some p" and d: "droppable v p (map_of (vars s)) (objects s)"
  obtains s' where "drop_ref v s = Inr s'" "counted (Some v) (map_of (vars s')) (objects s')"
    "owned [] (map_of (vars s')) (objects s')" "v \<in> dom (map_of (vars s'))"
    "\<And>w. w \<noteq> v \<Longrightarrow> alone w (objects s) \<or> p = 0 \<or> 1 < card (refs None p (map_of (vars s))) \<Longrightarrow>
      map_of (vars s') w = map_of (vars s) w"
    "\<And>w. alone w (objects s) \<Longrightarrow> alone w (objects s')"
proof (cases "p = 0")
  case True
  have "counted (Some v) (map_of (vars s)) (objects s)"
    using counted_gone(1) [OF c p _ True] c counted_without [of "map_of (vars s)" v "objects s"] by (simp add: counted_def)
  then show thesis using that [of s] o p True by (auto simp: drop_ref_def ptr_of_def)
next
  case nz: False
  let ?V = "map_of (vars s)"
  obtain ob where ob: "objects s p = Some ob" "unat (ref_count ob) = card (refs None p ?V)"
    using countedD [OF c nz, of v] p by (auto simp: refs_def)
  have fin: "finite (dom ?V)" "card (dom ?V) < 2 ^ 32" using c by (simp_all add: counted_def)
  have mem: "v \<in> refs None p ?V" using p by (simp add: refs_def)
  have ne: "ref_count ob \<noteq> 0" using ob(2) mem refs_finite [OF fin(1)] by auto
  have u1: "unat (ref_count ob - 1) = card (refs None p ?V) - 1" using unat_minus_one [OF ne] ob(2) by simp
  let ?s1 = "s\<lparr>objects := (objects s)(p \<mapsto> ob\<lparr>ref_count := ref_count ob - 1\<rparr>)\<rparr>"
  have ad: "add_ref p (- 1) s = Inr (ref_count ob - 1, ?s1)" using ob(1) by (simp add: add_ref_def)
  show thesis
  proof (cases "ref_count ob - 1 = 0")
    case False
    have "counted (Some v) ?V (objects ?s1)"
      using counted_gone(3) [OF c p _ nz ob(1) False] counted_without [OF fin] by simp
    moreover have "owned [] ?V (objects ?s1)" by (rule owned_same_members [OF o]) (use ob(1) in \<open>auto split: if_splits\<close>)
    moreover have "drop_ref v s = Inr ?s1" using p nz ad False by (simp add: drop_ref_def ptr_of_def)
    moreover have "alone w (objects ?s1)" if "alone w (objects s)" for w using that ob(1) by (auto simp: alone_def)
    ultimately show thesis using that [of ?s1] p by auto
  next
    case True
    let ?s2 = "s\<lparr>objects := (objects s)(p := None)\<rparr>"
    have one: "\<not> 1 < card (refs None p ?V)" using u1 True by simp
    then have al: "alone v (objects s)" using d nz by (simp add: droppable_def)
    have c2: "counted (Some v) ?V (objects ?s2)"
      using counted_gone(2) [OF c p _ nz ob(1) True] counted_without [OF fin] by simp
    have o2: "owned (members ob) ?V (objects ?s2)"
    proof (rule ownedI)
      show "distinct (members ob)" "set (members ob) \<subseteq> dom ?V" using ownedD(3,4) [OF o ob(1)] by blast+
      show "distinct (members oc) \<and> set (members oc) \<subseteq> dom ?V \<and> set (members oc) \<inter> set (members ob) = {}"
        if "objects ?s2 q = Some oc" for q oc
        using that ownedD(3,4) [OF o, of q oc] ownedD(6) [OF o, of q oc p ob] ob(1) by (simp split: if_splits)
      show "set (members oa) \<inter> set (members oc) = {}" if "objects ?s2 q = Some oa" "objects ?s2 r = Some oc" "q \<noteq> r" for q r oa oc
        using that ownedD(6) [OF o, of q oa r oc] by (simp split: if_splits)
    qed
    have un: "w \<notin> set (members ob) \<and> alone w (objects ?s2)" if "alone w (objects s)" for w
      using that ob(1) by (auto simp: alone_def)
    obtain s3 where s3: "destroy (members ob) ?s2 = Inr s3" "counted (Some v) (map_of (vars s3)) (objects s3)"
      "owned [] (map_of (vars s3)) (objects s3)"
      and kept: "\<And>w. alone w (objects s) \<Longrightarrow> map_of (vars s3) w = ?V w \<and> alone w (objects s3)"
      using destroy_ok [of "Some v" ?s2 "members ob"] c2 o2 un al by (auto simp del: fun_upd_apply)
    let ?s4 = "s3\<lparr>vars := AList.update v 0 (vars s3)\<rparr>"
    have v3: "map_of (vars s3) v = Some p" using kept [OF al] p by simp
    have "drop_ref v s = Inr ?s4" using p nz ad True s3(1) v3
      by (simp add: drop_ref_def ptr_of_def delete_object_def put_ptr_def)
    moreover have "counted (Some v) (map_of (vars ?s4)) (objects ?s4)"
    proof -
      have "dom (map_of (vars ?s4)) = dom (map_of (vars s3))" using v3 by (auto simp: update_map_of)
      then show ?thesis using s3(2) by (simp add: counted_def refs_without update_map_of del: fun_upd_apply)
    qed
    moreover have "owned [] (map_of (vars ?s4)) (objects ?s4)"
      using owned_more [OF s3(3), of "map_of (vars ?s4)"] by (auto simp: update_map_of)
    ultimately show thesis
      using that [of ?s4] kept one nz by (auto simp: update_map_of)
  qed
qed

text \<open>Counting a variable that now points somewhere.\<close>

lemma add_ok:
  assumes c: "counted (Some v) (map_of (vars s)) (objects s)" and o: "owned [] (map_of (vars s)) (objects s)"
    and v: "map_of (vars s) v = Some q" "q = 0 \<or> objects s q \<noteq> None"
  obtains s' where "add_to v s = Inr s'" "store_ok s'" "vars s' = vars s"
proof (cases "q = 0")
  case True
  have "refs None r (map_of (vars s)) = refs (Some v) r (map_of (vars s))" if "r \<noteq> 0" for r
    using v(1) True that by (auto simp: refs_def)
  then have "store_ok s" using c o by (auto simp: store_ok_def counted_def)
  then show thesis using that [of s] v(1) True by (simp add: add_to_def ptr_of_def)
next
  case nz: False
  let ?V = "map_of (vars s)"
  obtain ob where ob: "objects s q = Some ob" using v(2) nz by auto
  let ?s = "s\<lparr>objects := (objects s)(q \<mapsto> ob\<lparr>ref_count := ref_count ob + 1\<rparr>)\<rparr>"
  have fin: "finite (dom ?V)" "card (dom ?V) < 2 ^ 32" using c by (simp_all add: counted_def)
  have r: "refs None q ?V = insert v (refs (Some v) q ?V)" "v \<notin> refs (Some v) q ?V" using v(1) by (auto simp: refs_def)
  have k: "card (refs None q ?V) = card (refs (Some v) q ?V) + 1" using r refs_finite [OF fin(1)] by simp
  have "count_ok (refs (Some v) q ?V) (Some ob)" using c ob nz unfolding counted_def by metis
  then have u: "unat (ref_count ob) = card (refs (Some v) q ?V)" by simp
  have "unat (ref_count ob) + 1 < 2 ^ 32" using u k refs_card [OF fin(1), of None q] fin(2) by simp
  then have u1: "unat (ref_count ob + 1) = card (refs None q ?V)" using u k by (simp add: unat_word_ariths)
  have "counted None ?V ((objects s)(q \<mapsto> ob\<lparr>ref_count := ref_count ob + 1\<rparr>))"
    by (rule counted_change [OF c fin]) (use v(1) u1 r nz in \<open>auto simp: refs_def\<close>)
  moreover have "owned [] ?V (objects ?s)" by (rule owned_same_members [OF o]) (use ob in \<open>auto split: if_splits\<close>)
  ultimately have "store_ok ?s" by (simp add: store_ok_def)
  moreover have "add_to v s = Inr ?s" using v(1) nz ob by (simp add: add_to_def ptr_of_def add_ref_def)
  ultimately show thesis using that [of ?s] by simp
qed

text \<open>A variable that is not counted yet: a new one, or one that has dropped its object.\<close>

lemma point_ok:
  assumes "counted (Some v) V O'" "finite (dom (V(v \<mapsto> q)))" "card (dom (V(v \<mapsto> q))) < 2 ^ 32"
  shows "counted (Some v) (V(v \<mapsto> q)) O'"
  using assms by (simp add: counted_def refs_without del: fun_upd_apply)

lemma put_add_ok:
  assumes c: "counted (Some v) (map_of (vars s)) (objects s)" and o: "owned [] (map_of (vars s)) (objects s)"
    and v: "v \<in> dom (map_of (vars s))" "q = 0 \<or> objects s q \<noteq> None"
  shows "\<exists>s'. rbind (put_ptr v q s) (add_to v) = Inr s' \<and> store_ok s'"
proof -
  let ?s = "s\<lparr>vars := AList.update v q (vars s)\<rparr>"
  have "dom ((map_of (vars s))(v \<mapsto> q)) = dom (map_of (vars s))" using v(1) by auto
  then have "counted (Some v) (map_of (vars ?s)) (objects ?s)"
    using point_ok [OF c] c by (simp add: update_map_of counted_def del: fun_upd_apply)
  moreover have "owned [] (map_of (vars ?s)) (objects ?s)"
    using owned_more [OF o, of "map_of (vars ?s)"] by (auto simp: update_map_of)
  ultimately obtain s' where "add_to v ?s = Inr s'" "store_ok s'"
    using add_ok [of v ?s q] v(2) by (auto simp: update_map_of)
  then show ?thesis using v(1) by (auto simp: put_ptr_def)
qed

definition fresh_var :: "nat \<Rightarrow> store \<Rightarrow> bool" where
  "fresh_var v s \<longleftrightarrow> map_of (vars s) v = None \<and> card (dom (map_of (vars s))) + 1 < 2 ^ 32"

lemma new_add_ok:
  assumes s: "store_ok s" and v: "fresh_var v s" "q = 0 \<or> objects s q \<noteq> None"
  shows "\<exists>s'. add_to v (new_var v q s) = Inr s' \<and> store_ok s'"
proof -
  let ?V = "map_of (vars s)"
  have c: "counted None ?V (objects s)" "owned [] ?V (objects s)" using s by (simp_all add: store_ok_def)
  have "?V(v := None) = ?V" using v(1) by (auto simp: fresh_var_def)
  then have "counted (Some v) ?V (objects s)" using c(1) counted_without [of ?V v "objects s"] by (simp add: counted_def)
  moreover have "finite (dom (?V(v \<mapsto> q)))" "card (dom (?V(v \<mapsto> q))) < 2 ^ 32"
    using c(1) v(1) by (auto simp: counted_def fresh_var_def domIff)
  ultimately have "counted (Some v) (map_of (vars (new_var v q s))) (objects (new_var v q s))"
    using point_ok by (simp add: new_var_def update_map_of del: fun_upd_apply)
  moreover have "owned [] (map_of (vars (new_var v q s))) (objects (new_var v q s))"
    using owned_more [OF c(2), of "map_of (vars (new_var v q s))"] by (auto simp: update_map_of new_var_def)
  ultimately show ?thesis using add_ok [of v "new_var v q s" q] v(2) by (auto simp: new_var_def update_map_of)
qed

text \<open>What a variable points to is live.\<close>

lemma points_live: "store_ok s \<Longrightarrow> map_of (vars s) w = Some q \<Longrightarrow> q = 0 \<or> objects s q \<noteq> None"
  using countedD [of None "map_of (vars s)" "objects s" q w] by (auto simp: store_ok_def refs_def)

lemma assign_ok:
  assumes s: "store_ok s" and v: "map_of (vars s) v = Some p" "droppable v p (map_of (vars s)) (objects s)"
    and w: "w \<noteq> v" "map_of (vars s) w = Some q"
      "alone w (objects s) \<or> p = 0 \<or> 1 < card (refs None p (map_of (vars s)))"
  shows "\<exists>s'. rbind (drop_ref v s) (\<lambda>s1. rbind (put_ptr v q s1) (add_to v)) = Inr s' \<and> store_ok s'"
proof -
  have c: "counted None (map_of (vars s)) (objects s)" "owned [] (map_of (vars s)) (objects s)" using s by (simp_all add: store_ok_def)
  obtain s1 where s1: "drop_ref v s = Inr s1" "counted (Some v) (map_of (vars s1)) (objects s1)"
    "owned [] (map_of (vars s1)) (objects s1)" "v \<in> dom (map_of (vars s1))" "map_of (vars s1) w = Some q"
    using drop_ok [OF c v] w by metis
  have "q = 0 \<or> objects s1 q \<noteq> None"
    using countedD [OF s1(2), of q w] s1(5) w(1) by (auto simp: refs_def)
  then show ?thesis using put_add_ok [OF s1(2-4), of q] s1(1) by simp
qed

lemma moves_ok:
  assumes c: "counted (Some v) (map_of (vars s)) (objects s)" and o: "owned [] (map_of (vars s)) (objects s)"
    and v: "finite (dom ((map_of (vars s))(v \<mapsto> q)))" "card (dom ((map_of (vars s))(v \<mapsto> q))) < 2 ^ 32"
    and w: "w \<noteq> v" "map_of (vars s) w = Some q"
  shows "\<exists>s'. put_ptr w 0 (new_var v q s) = Inr s' \<and> store_ok s'"
proof -
  let ?V = "map_of (vars s)" and ?V' = "(map_of (vars s))(v \<mapsto> q, w \<mapsto> 0)"
  have d: "dom ?V' = dom (?V(v \<mapsto> q))" using w by auto
  have r: "refs None q ?V' = insert v (refs (Some v) q ?V - {w})" if "q \<noteq> 0" using w that by (auto simp: refs_def)
  have "refs None r ?V' = refs (Some v) r ?V" if "r \<noteq> 0" "r \<noteq> q" for r using w that by (auto simp: refs_def)
  moreover have "count_ok (refs None q ?V') (objects s q)" if nz: "q \<noteq> 0"
  proof -
    have "count_ok (refs (Some v) q ?V) (objects s q)" using c nz by (simp add: counted_def)
    moreover have "w \<in> refs (Some v) q ?V" "v \<notin> refs (Some v) q ?V" using w by (auto simp: refs_def)
    moreover have "finite (refs (Some v) q ?V)" using c refs_finite by (simp add: counted_def)
    moreover from calculation have "card (insert v (refs (Some v) q ?V - {w})) = card (refs (Some v) q ?V)"
      by (simp add: card_Suc_Diff1 del: card_Diff_insert)
    ultimately show ?thesis using r [OF nz] by (cases "objects s q") auto
  qed
  ultimately have "counted None ?V' ((objects s)(q := objects s q))"
    by (intro counted_change [OF c]) (use v d c in \<open>auto simp: counted_def\<close>)
  moreover have "owned [] ?V' (objects s)" using owned_more [OF o, of ?V'] by auto
  ultimately show ?thesis using w by (auto simp: put_ptr_def new_var_def update_map_of store_ok_def fun_upd_twist)
qed

section \<open>Histories\<close>

datatype shared_op = Make nat u32 "nat list" | Raw nat u32 | Null nat | Copy nat nat | Move nat nat | Destroy nat
  | Assign_raw nat u32 | Assign nat nat | Assign_move nat nat

fun shared_run :: "shared_op \<Rightarrow> store \<Rightarrow> store res" where
  "shared_run (Make v p ms) s = shared_make v p ms s"
| "shared_run (Raw v p) s = shared_raw v p s"
| "shared_run (Null v) s = shared_null v s"
| "shared_run (Copy v w) s = shared_copy v w s"
| "shared_run (Move v w) s = shared_move v w s"
| "shared_run (Destroy v) s = shared_delete v s"
| "shared_run (Assign_raw v p) s = assign_raw v p s"
| "shared_run (Assign v w) s = assign_copy v w s"
| "shared_run (Assign_move v w) s = assign_move v w s"

text \<open>What a caller owes: variables that exist, addresses of live objects, and for an assignment that drops the
  last pointer to an object, variables that are no fields (for they might go with it).\<close>

definition assignable :: "nat \<Rightarrow> nat \<Rightarrow> store \<Rightarrow> bool" where
  "assignable v w s \<longleftrightarrow>
     (\<exists>p. map_of (vars s) v = Some p \<and>
       ((alone v (objects s) \<and> alone w (objects s)) \<or> p = 0 \<or> 1 < card (refs None p (map_of (vars s))))) \<and>
     v \<noteq> w \<and> w \<in> dom (map_of (vars s))"

fun allowed :: "shared_op \<Rightarrow> store \<Rightarrow> bool" where
  "allowed (Make v p ms) s \<longleftrightarrow>
     p \<noteq> 0 \<and> objects s p = None \<and> distinct (v # ms) \<and> set (v # ms) \<inter> dom (map_of (vars s)) = {} \<and>
     card (dom (map_of (vars s))) + length (v # ms) < 2 ^ 32"
| "allowed (Raw v p) s \<longleftrightarrow> fresh_var v s \<and> (p = 0 \<or> objects s p \<noteq> None)"
| "allowed (Null v) s \<longleftrightarrow> fresh_var v s"
| "allowed (Copy v w) s \<longleftrightarrow> fresh_var v s \<and> w \<in> dom (map_of (vars s))"
| "allowed (Move v w) s \<longleftrightarrow> fresh_var v s \<and> w \<in> dom (map_of (vars s))"
| "allowed (Destroy v) s \<longleftrightarrow> v \<in> dom (map_of (vars s)) \<and> alone v (objects s)"
| "allowed (Assign_raw v q) s \<longleftrightarrow> (q = 0 \<and> v \<in> dom (map_of (vars s)) \<and> alone v (objects s)) \<or> (\<exists>w. assignable v w s \<and> map_of (vars s) w = Some q)"
| "allowed (Assign v w) s \<longleftrightarrow> assignable v w s"
| "allowed (Assign_move v w) s \<longleftrightarrow> assignable v w s"

fun shared_runs :: "shared_op list \<Rightarrow> store \<Rightarrow> store res" where
  "shared_runs [] s = Inr s"
| "shared_runs (x # xs) s = rbind (shared_run x s) (shared_runs xs)"

text \<open>Every operation of a history is allowed in the state it meets.\<close>

fun all_allowed :: "shared_op list \<Rightarrow> store \<Rightarrow> bool" where
  "all_allowed [] s = True"
| "all_allowed (x # xs) s = (allowed x s \<and> (case shared_run x s of Inl _ \<Rightarrow> True | Inr s1 \<Rightarrow> all_allowed xs s1))"

definition no_objects :: store where
  "no_objects = \<lparr>objects = Map.empty, vars = []\<rparr>"

lemma new_vars_map:
  assumes "map_of (vars s) = V"
  shows "map_of (vars (fold (\<lambda>m. new_var m 0) ms s)) = (\<lambda>w. if w \<in> set ms then Some 0 else V w)"
proof -
  have "map_of (vars (fold (\<lambda>m. new_var m 0) ms s)) = (\<lambda>w. if w \<in> set ms then Some 0 else map_of (vars s) w)"
    by (induction ms arbitrary: s) (auto simp: new_var_def update_map_of fun_eq_iff)
  then show ?thesis unfolding assms .
qed

lemma new_vars_objects: "objects (fold (\<lambda>m. new_var m 0) ms s) = objects s"
  by (induction ms arbitrary: s) (auto simp: new_var_def)

lemma make_ok:
  assumes s: "store_ok s" and a: "allowed (Make v p ms) s"
  shows "\<exists>s'. shared_make v p ms s = Inr s' \<and> store_ok s'"
proof -
  let ?V = "map_of (vars s)"
  let ?V' = "(\<lambda>w. if w \<in> set ms then Some 0 else ?V w)(v \<mapsto> p)"
  have c: "counted None ?V (objects s)" and o: "owned [] ?V (objects s)" using s by (simp_all add: store_ok_def)
  have fr: "v \<notin> set ms" "w \<in> set ms \<Longrightarrow> ?V w = None" "?V v = None" for w using a by (auto simp: domIff)
  have dom: "dom ?V' = insert v (set ms) \<union> dom ?V" by (auto simp: domIff split: if_splits)
  have "finite (dom ?V')" "card (dom ?V') \<le> card (set (v # ms)) + card (dom ?V)"
    unfolding dom using c card_Un_le [of "insert v (set ms)" "dom ?V"] by (auto simp: counted_def)
  moreover have "card (set (v # ms)) \<le> length (v # ms)" by (rule card_length)
  ultimately have fin: "finite (dom ?V')" "card (dom ?V') < 2 ^ 32" using a by auto
  have "refs None p ?V = {}" using c a by (auto simp: counted_def dest: spec [of _ p])
  then have one: "refs None p ?V' = {v}" using a fr by (auto simp: refs_def split: if_splits)
  have "counted None ?V' ((objects s)(p \<mapsto> \<lparr>ref_count = 1, members = ms\<rparr>))"
    by (rule counted_change [OF c fin]) (use a fr one in \<open>auto simp: refs_def split: if_splits\<close>)
  moreover have "owned [] ?V' ((objects s)(p \<mapsto> \<lparr>ref_count = 1, members = ms\<rparr>))"
  proof (rule ownedI)
    fix q ob
    assume q: "((objects s)(p \<mapsto> \<lparr>ref_count = 1, members = ms\<rparr>)) q = Some ob"
    then show "distinct (members ob) \<and> set (members ob) \<subseteq> dom ?V' \<and> set (members ob) \<inter> set [] = {}"
      using ownedD(3,4) [OF o, of q ob] a dom by (auto split: if_splits)
  next
    fix q r ob oc
    have new: "set (members oa) \<inter> set ms = {}" if "objects s q = Some oa" for q oa
      using ownedD(4) [OF o that] a by auto
    assume "((objects s)(p \<mapsto> \<lparr>ref_count = 1, members = ms\<rparr>)) q = Some ob"
      "((objects s)(p \<mapsto> \<lparr>ref_count = 1, members = ms\<rparr>)) r = Some oc" "q \<noteq> r"
    then show "set (members ob) \<inter> set (members oc) = {}"
      using ownedD(6) [OF o, of q ob r oc] new [of q ob] new [of r oc] by (auto simp: Int_commute split: if_splits)
  qed simp_all
  ultimately show ?thesis using a fr
    by (auto simp: shared_make_def shared_raw_def add_to_def ptr_of_def add_ref_def new_var_def update_map_of new_vars_map
        new_vars_objects store_ok_def)
qed

text \<open>What a caller owes is enough for the drop of an assignment.\<close>

lemma assignableD:
  assumes "assignable v w s"
  obtains p q where "map_of (vars s) v = Some p" "droppable v p (map_of (vars s)) (objects s)" "w \<noteq> v" "map_of (vars s) w = Some q"
    "alone w (objects s) \<or> p = 0 \<or> 1 < card (refs None p (map_of (vars s)))"
  using assms unfolding assignable_def droppable_def by blast

lemma shared_run_ok:
  assumes s: "store_ok s" and a: "allowed x s"
  shows "\<exists>s'. shared_run x s = Inr s' \<and> store_ok s'"
proof -
  have c: "counted None (map_of (vars s)) (objects s)" and o: "owned [] (map_of (vars s)) (objects s)"
    using s by (simp_all add: store_ok_def)
  show ?thesis
  proof (cases x)
    case (Make v p ms)
    then show ?thesis using make_ok [OF s] a by simp
  next
    case (Raw v p)
    then show ?thesis using new_add_ok [OF s] a by (simp add: shared_raw_def)
  next
    case (Null v)
    have "\<exists>s'. add_to v (new_var v 0 s) = Inr s' \<and> store_ok s'" using new_add_ok [OF s] a Null by simp
    then show ?thesis using Null by (auto simp: shared_null_def add_to_def ptr_of_def new_var_def update_map_of)
  next
    case (Copy v w)
    then obtain q where q: "map_of (vars s) w = Some q" using a by auto
    show ?thesis using new_add_ok [OF s _ points_live [OF s q]] a q Copy by (simp add: shared_copy_def ptr_of_def)
  next
    case (Destroy v)
    then have "owned [v] (map_of (vars s)) (objects s)" using o a by (auto simp: owned_def alone_def)
    then show ?thesis using destroy_ok [OF c, of "[v]"] Destroy by (auto simp: shared_delete_def store_ok_def simp del: destroy.simps)
  next
    case (Move v w)
    then obtain q where q: "map_of (vars s) w = Some q" using a by auto
    have fr: "map_of (vars s) v = None" "card (dom (map_of (vars s))) + 1 < 2 ^ 32" using a Move by (simp_all add: fresh_var_def)
    have "(map_of (vars s))(v := None) = map_of (vars s)" using fr by auto
    then have cv: "counted (Some v) (map_of (vars s)) (objects s)"
      using c counted_without [of "map_of (vars s)" v "objects s"] by (simp add: counted_def)
    have "\<exists>s'. put_ptr w 0 (new_var v q s) = Inr s' \<and> store_ok s'"
      by (rule moves_ok [OF cv o _ _ _ q]) (use c fr q in \<open>auto simp: counted_def domIff\<close>)
    then show ?thesis using q Move by (simp add: shared_move_def ptr_of_def)
  next
    case (Assign_raw v q)
    then consider "q = 0" "v \<in> dom (map_of (vars s))" "alone v (objects s)" | w where "assignable v w s" "map_of (vars s) w = Some q"
      using a by auto
    then show ?thesis
    proof cases
      case 1
      then obtain p where p: "map_of (vars s) v = Some p" by auto
      have d: "droppable v p (map_of (vars s)) (objects s)" using 1(3) by (simp add: droppable_def)
      obtain s1 where s1: "drop_ref v s = Inr s1" "counted (Some v) (map_of (vars s1)) (objects s1)"
        "owned [] (map_of (vars s1)) (objects s1)" "v \<in> dom (map_of (vars s1))" using drop_ok [OF c o p d] by metis
      show ?thesis using put_add_ok [OF s1(2-4), of 0] s1(1) s p 1(1) Assign_raw by (auto simp: assign_raw_def ptr_of_def)
    next
      case 2
      obtain p q' where w: "map_of (vars s) v = Some p" "droppable v p (map_of (vars s)) (objects s)" "w \<noteq> v"
        "map_of (vars s) w = Some q'" "alone w (objects s) \<or> p = 0 \<or> 1 < card (refs None p (map_of (vars s)))"
        using assignableD [OF 2(1)] by metis
      then show ?thesis using assign_ok [OF s w] s 2(2) Assign_raw by (auto simp: assign_raw_def ptr_of_def)
    qed
  next
    case (Assign v w)
    then obtain p q where w: "map_of (vars s) v = Some p" "droppable v p (map_of (vars s)) (objects s)" "w \<noteq> v"
        "map_of (vars s) w = Some q" "alone w (objects s) \<or> p = 0 \<or> 1 < card (refs None p (map_of (vars s)))"
      using a assignableD [of v w s] by (metis allowed.simps(8))
    then show ?thesis using assign_ok [OF s w] s Assign by (auto simp: assign_copy_def ptr_of_def)
  next
    case (Assign_move v w)
    then obtain p q where w: "map_of (vars s) v = Some p" "droppable v p (map_of (vars s)) (objects s)" "w \<noteq> v"
        "map_of (vars s) w = Some q" "alone w (objects s) \<or> p = 0 \<or> 1 < card (refs None p (map_of (vars s)))"
      using a assignableD [of v w s] by (metis allowed.simps(9))
    obtain s1 where s1: "drop_ref v s = Inr s1" "counted (Some v) (map_of (vars s1)) (objects s1)"
      "owned [] (map_of (vars s1)) (objects s1)" "v \<in> dom (map_of (vars s1))" "map_of (vars s1) w = Some q"
      using drop_ok [OF c o w(1,2)] w(3-5) by metis
    have d: "dom ((map_of (vars s1))(v \<mapsto> q)) = dom (map_of (vars s1))" using s1(4) by auto
    have "\<exists>s'. put_ptr w 0 (new_var v q s1) = Inr s' \<and> store_ok s'"
      by (rule moves_ok [OF s1(2,3) _ _ w(3) s1(5)]) (use s1(2) d in \<open>simp_all add: counted_def\<close>)
    then show ?thesis using s1 Assign_move by (auto simp: assign_move_def ptr_of_def put_ptr_def new_var_def)
  qed
qed

lemma shared_runs_ok: "store_ok s \<Longrightarrow> all_allowed xs s \<Longrightarrow> \<exists>s'. shared_runs xs s = Inr s' \<and> store_ok s'"
proof (induction xs arbitrary: s)
  case (Cons x xs)
  obtain s1 where "shared_run x s = Inr s1" "store_ok s1" using shared_run_ok [of s x] Cons.prems by auto
  then show ?case using Cons.IH [of s1] Cons.prems by simp
qed simp

lemma no_objects_ok: "store_ok no_objects"
  by (simp add: store_ok_def counted_def owned_def no_objects_def refs_def)

text \<open>C23: Reference counting is safe: every history of the operations of \<^verbatim>\<open>Shared\<close> that starts with no objects
  runs to its end without using a deleted object, provided that an assignment that drops the last pointer to an
  object is between variables that are no fields; and then an object is live exactly when some variable or field
  points to it, and its count is the number of those pointers.\<close>

theorem shared_history:
  assumes "all_allowed xs no_objects"
  shows "\<exists>s. shared_runs xs no_objects = Inr s \<and>
    (\<forall>p. p \<noteq> 0 \<longrightarrow> (objects s p \<noteq> None \<longleftrightarrow> (\<exists>v. map_of (vars s) v = Some p)) \<and>
      (\<forall>ob. objects s p = Some ob \<longrightarrow> unat (ref_count ob) = card {v. map_of (vars s) v = Some p}))"
proof -
  obtain s where s: "shared_runs xs no_objects = Inr s" "store_ok s" using shared_runs_ok [OF no_objects_ok assms] by blast
  have "count_ok {v. map_of (vars s) v = Some p} (objects s p)" if "p \<noteq> 0" for p
    using s(2) that by (simp add: store_ok_def counted_def refs_def)
  then have "(objects s p \<noteq> None \<longleftrightarrow> (\<exists>v. map_of (vars s) v = Some p)) \<and>
      (\<forall>ob. objects s p = Some ob \<longrightarrow> unat (ref_count ob) = card {v. map_of (vars s) v = Some p})" if "p \<noteq> 0" for p
    using that by (cases "objects s p") fastforce+
  then show ?thesis using s(1) by blast
qed

text \<open>A list of two nodes; the second is taken off and the list is dropped, which deletes both.\<close>

definition demo_list :: "shared_op list" where
  "demo_list = [Make 1 0x1000 [10], Make 2 0x2000 [20], Assign 10 2, Destroy 2, Copy 3 10, Destroy 1]"

theorem shared_history_witness:
  "\<exists>s. shared_runs demo_list no_objects = Inr s \<and> objects s 0x1000 = None \<and> objects s 0x2000 \<noteq> None"
proof -
  note defs = shared_make_def shared_raw_def add_to_def ptr_of_def add_ref_def new_var_def assign_copy_def drop_ref_def put_ptr_def
    shared_delete_def shared_copy_def no_objects_def
  note dom_map_of_conv_image_fst [simp]
  have "all_allowed demo_list no_objects"
    by (simp add: demo_list_def defs alone_def assignable_def fresh_var_def)
  then show ?thesis
    using shared_history [of demo_list] by (simp add: demo_list_def defs)
qed

text \<open>What the proviso excludes: \<^verbatim>\<open>list = list->next\<close>, with \<open>list\<close> the only pointer to its first node, deletes the
  second node before it is counted.\<close>

lemma assign_next_fails:
  "shared_runs [Make 1 0x1000 [10], Make 2 0x2000 [20], Assign 10 2, Destroy 2, Assign 1 10] no_objects =
    Inl (NullDeref ''ref_count'')"
  by code_simp

end
