(* ===== verification/Sync.thy ===== *)
theory Sync
  imports Queue
begin

text \<open>
  Threads waiting for each other: the ready queue of \<^verbatim>\<open>kernel/threads.cc\<close>, semaphores
  (\<^verbatim>\<open>kernel/semaphore.h\<close>), the blocking lock, futures, barriers, condition variables and
  bounded buffers built on them.  The operations are first given as what they do when they run
  alone, which is how the code runs them (each holds the semaphore's spin lock with interrupts
  off); the interleavings of several threads are a step relation below.
\<close>

section \<open>Scheduling\<close>

record threads =
  tlinks :: links
  readyQ :: queue
  zombies :: queue
  isIdle :: "tcb \<Rightarrow> bool"

definition schedule :: "tcb \<Rightarrow> threads \<Rightarrow> threads" where
  "schedule t th =
     (if \<not> isIdle th t then
        (case q_add t (tlinks th, readyQ th) of (l, q) \<Rightarrow> th\<lparr>tlinks := l, readyQ := q\<rparr>)
      else th)"

definition ready_remove :: "threads \<Rightarrow> tcb option \<times> threads" where
  "ready_remove th =
     (case q_remove (tlinks th, readyQ th) of (r, l, q) \<Rightarrow> (r, th\<lparr>tlinks := l, readyQ := q\<rparr>))"

section \<open>Semaphores\<close>

record semaphore =
  count :: u64
  waiting :: queue

definition new_semaphore :: "u32 \<Rightarrow> semaphore" where
  "new_semaphore n = \<lparr>count = ucast n, waiting = empty_queue\<rparr>"

datatype down_result = Granted | Blocked

definition sem_down :: "tcb \<Rightarrow> threads \<times> semaphore \<Rightarrow> (down_result \<times> threads \<times> semaphore) res" where
  "sem_down me = (\<lambda>(th, sm).
     if 0 < count sm then Inr (Granted, th, sm\<lparr>count := count sm - 1\<rparr>)
     else assertR ''!me->isIdle'' (\<not> isIdle th me)
       (case q_add me (tlinks th, waiting sm) of (l, q) \<Rightarrow>
          Inr (Blocked, th\<lparr>tlinks := l\<rparr>, sm\<lparr>waiting := q\<rparr>)))"

definition sem_up :: "threads \<times> semaphore \<Rightarrow> threads \<times> semaphore" where
  "sem_up = (\<lambda>(th, sm).
     case q_remove (tlinks th, waiting sm) of (nxt, l, q) \<Rightarrow>
       let th1 = th\<lparr>tlinks := l\<rparr>; sm1 = sm\<lparr>waiting := q\<rparr>
       in case nxt of
            None \<Rightarrow> (th1, sm1\<lparr>count := count sm1 + 1\<rparr>)
          | Some t \<Rightarrow> (schedule t th1, sm1))"

section \<open>Futures\<close>

record 'a fut =
  go :: semaphore
  isReady :: bool
  fut_t :: 'a

definition new_future :: "'a \<Rightarrow> 'a fut" where
  "new_future d = \<lparr>go = new_semaphore 0, isReady = False, fut_t = d\<rparr>"

definition fut_set :: "'a \<Rightarrow> threads \<times> 'a fut \<Rightarrow> (threads \<times> 'a fut) res" where
  "fut_set v = (\<lambda>(th, f).
     assertR ''!isReady'' (\<not> isReady f)
       (case sem_up (th, go f) of (th1, g) \<Rightarrow> Inr (th1, f\<lparr>fut_t := v, isReady := True, go := g\<rparr>)))"

text \<open>\<^verbatim>\<open>get\<close> in two parts, before and after it may block: \<open>None\<close> is a thread that waits.\<close>

definition fut_get_start :: "tcb \<Rightarrow> threads \<times> 'a fut \<Rightarrow> ('a option \<times> threads \<times> 'a fut) res" where
  "fut_get_start me = (\<lambda>(th, f).
     if isReady f then Inr (Some (fut_t f), th, f)
     else rbind (sem_down me (th, go f)) (\<lambda>(r, th1, g).
       case r of
         Granted \<Rightarrow> (case sem_up (th1, g) of (th2, g2) \<Rightarrow> Inr (Some (fut_t f), th2, f\<lparr>go := g2\<rparr>))
       | Blocked \<Rightarrow> Inr (None, th1, f\<lparr>go := g\<rparr>)))"

definition fut_get_resume :: "threads \<times> 'a fut \<Rightarrow> 'a \<times> threads \<times> 'a fut" where
  "fut_get_resume = (\<lambda>(th, f).
     case sem_up (th, go f) of (th1, g) \<Rightarrow> (fut_t f, th1, f\<lparr>go := g\<rparr>))"

section \<open>What the operations do to the queues\<close>

definition sem_holds :: "threads \<Rightarrow> semaphore \<Rightarrow> tcb list \<Rightarrow> tcb list \<Rightarrow> bool" where
  "sem_holds th sm ws rs \<longleftrightarrow>
     q_holds (tlinks th, waiting sm) ws \<and> q_holds (tlinks th, readyQ th) rs \<and> set ws \<inter> set rs = {}"

lemma schedule_holds:
  assumes "sem_holds th sm ws rs" "t \<noteq> 0" "t \<notin> set ws" "t \<notin> set rs" "\<not> isIdle th t"
  shows "sem_holds (schedule t th) sm ws (rs @ [t])" "isIdle (schedule t th) = isIdle th"
proof -
  obtain l q where a: "q_add t (tlinks th, readyQ th) = (l, q)" by (cases "q_add t (tlinks th, readyQ th)")
  have "q_holds (l, q) (rs @ [t])" using q_add_holds [of "(tlinks th, readyQ th)" rs t] assms a by (simp add: sem_holds_def)
  moreover have "q_holds (l, waiting sm) ws"
    using q_add_frame [of "tlinks th" "readyQ th" rs "waiting sm" ws t] assms a by (auto simp: sem_holds_def)
  ultimately show "sem_holds (schedule t th) sm ws (rs @ [t])" "isIdle (schedule t th) = isIdle th"
    using assms a by (auto simp: sem_holds_def schedule_def)
qed

lemma ready_remove_holds:
  assumes "sem_holds th sm ws (t # rs)"
  obtains th' where "ready_remove th = (Some t, th')" "sem_holds th' sm ws rs" "isIdle th' = isIdle th"
proof -
  obtain r l q where a: "q_remove (tlinks th, readyQ th) = (r, l, q)" by (cases "q_remove (tlinks th, readyQ th)")
  have "l = tlinks th" using q_remove_frame [of "tlinks th" "readyQ th"] a by simp
  moreover have "r = Some t \<and> q_holds (l, q) rs"
    using q_remove_holds [of "(tlinks th, readyQ th)" t rs] assms a by (simp add: sem_holds_def)
  ultimately show thesis using that [of "th\<lparr>tlinks := l, readyQ := q\<rparr>"] assms a
    by (auto simp: sem_holds_def ready_remove_def)
qed

lemma sem_add_holds:
  assumes "sem_holds th sm ws rs" "t \<noteq> 0" "t \<notin> set ws" "t \<notin> set rs" "q_add t (tlinks th, waiting sm) = (l, q)"
  shows "sem_holds (th\<lparr>tlinks := l\<rparr>) (sm\<lparr>waiting := q\<rparr>) (ws @ [t]) rs"
proof -
  have "q_holds (l, q) (ws @ [t])" using q_add_holds [of "(tlinks th, waiting sm)" ws t] assms by (simp add: sem_holds_def)
  moreover have "q_holds (l, readyQ th) rs"
    using q_add_frame [of "tlinks th" "waiting sm" ws "readyQ th" rs t] assms by (auto simp: sem_holds_def)
  ultimately show ?thesis using assms by (auto simp: sem_holds_def)
qed

lemma sem_remove_holds:
  assumes "sem_holds th sm ws rs" "q_remove (tlinks th, waiting sm) = (r, l, q)"
  shows "sem_holds (th\<lparr>tlinks := l\<rparr>) (sm\<lparr>waiting := q\<rparr>) (tl ws) rs"
    "r = (case ws of [] \<Rightarrow> None | t # _ \<Rightarrow> Some t)"
proof -
  have l: "l = tlinks th" using q_remove_frame [of "tlinks th" "waiting sm"] assms(2) by simp
  have h: "q_holds (tlinks th, waiting sm) ws" using assms(1) by (simp add: sem_holds_def)
  have "r = (case ws of [] \<Rightarrow> None | t # _ \<Rightarrow> Some t) \<and> q_holds (l, q) (tl ws)"
    using q_remove_empty [of "(tlinks th, waiting sm)"] q_remove_holds [of "(tlinks th, waiting sm)" "hd ws" "tl ws"]
      h assms(2) by (cases ws) auto
  then show "r = (case ws of [] \<Rightarrow> None | t # _ \<Rightarrow> Some t)"
    and "sem_holds (th\<lparr>tlinks := l\<rparr>) (sm\<lparr>waiting := q\<rparr>) (tl ws) rs"
    using assms(1) l by (simp, cases ws, auto simp: sem_holds_def)
qed

lemma sem_holds_count [simp]: "sem_holds th (sm\<lparr>count := n\<rparr>) ws rs = sem_holds th sm ws rs"
  by (simp add: sem_holds_def)

section \<open>The blocking lock under interleaving\<close>

text \<open>
  Threads that lock, work and unlock forever, interleaved at every point where the code can be:
  \<^verbatim>\<open>down\<close> and \<^verbatim>\<open>up\<close> first spin on the semaphore's lock \<open>taken\<close>; a thread that finds the count 0
  goes to sleep with that lock still held and another stack releases it; a thread that is
  handed the semaphore is first scheduled and then dispatched.
\<close>

datatype pc =
    Outside
  | DLock
  | DHold
  | DBlock
  | Asleep
  | Critical
  | ULock
  | UHold
  | USched tcb

record mutex =
  mth :: threads
  msem :: semaphore
  taken :: bool
  pcs :: "tcb \<Rightarrow> pc"

definition go_to :: "tcb \<Rightarrow> pc \<Rightarrow> mutex \<Rightarrow> mutex" where
  "go_to t p m = m\<lparr>pcs := (pcs m)(t := p)\<rparr>"

inductive mstep :: "mutex \<Rightarrow> mutex \<Rightarrow> bool" where
  want: "t \<noteq> 0 \<Longrightarrow> \<not> isIdle (mth m) t \<Longrightarrow> pcs m t = Outside \<Longrightarrow> mstep m (go_to t DLock m)"
| dlock: "pcs m t = DLock \<Longrightarrow> \<not> taken m \<Longrightarrow> mstep m (go_to t DHold (m\<lparr>taken := True\<rparr>))"
| dgrant: "pcs m t = DHold \<Longrightarrow> 0 < count (msem m) \<Longrightarrow>
     mstep m (go_to t Critical (m\<lparr>msem := (msem m)\<lparr>count := count (msem m) - 1\<rparr>, taken := False\<rparr>))"
| dblock: "pcs m t = DHold \<Longrightarrow> count (msem m) = 0 \<Longrightarrow> mstep m (go_to t DBlock m)"
| dsleep: "pcs m t = DBlock \<Longrightarrow> q_add t (tlinks (mth m), waiting (msem m)) = (l, q) \<Longrightarrow>
     mstep m (go_to t Asleep (m\<lparr>mth := (mth m)\<lparr>tlinks := l\<rparr>, msem := (msem m)\<lparr>waiting := q\<rparr>, taken := False\<rparr>))"
| leave: "pcs m t = Critical \<Longrightarrow> mstep m (go_to t ULock m)"
| ulock: "pcs m t = ULock \<Longrightarrow> \<not> taken m \<Longrightarrow> mstep m (go_to t UHold (m\<lparr>taken := True\<rparr>))"
| utake: "pcs m t = UHold \<Longrightarrow> q_remove (tlinks (mth m), waiting (msem m)) = (nxt, l, q) \<Longrightarrow>
     mstep m (go_to t (case nxt of None \<Rightarrow> Outside | Some u \<Rightarrow> USched u)
       (m\<lparr>mth := (mth m)\<lparr>tlinks := l\<rparr>,
          msem := (msem m)\<lparr>waiting := q, count := (if nxt = None then count (msem m) + 1 else count (msem m))\<rparr>,
          taken := False\<rparr>))"
| usched: "pcs m t = USched u \<Longrightarrow> mstep m (go_to t Outside (m\<lparr>mth := schedule u (mth m)\<rparr>))"
| dispatch: "ready_remove (mth m) = (Some u, th) \<Longrightarrow> pcs m u = Asleep \<Longrightarrow>
     mstep m (go_to u Critical (m\<lparr>mth := th\<rparr>))"

inductive_cases mstepE: "mstep m m'"

definition mutex_start :: "(tcb \<Rightarrow> bool) \<Rightarrow> links \<Rightarrow> mutex \<Rightarrow> bool" where
  "mutex_start idle l m \<longleftrightarrow>
     m = \<lparr>mth = \<lparr>tlinks = l, readyQ = empty_queue, zombies = empty_queue, isIdle = idle\<rparr>,
          msem = new_semaphore 1, taken = False, pcs = \<lambda>t. Outside\<rparr>"

inductive mreach :: "mutex \<Rightarrow> bool" where
  start: "mutex_start idle l m \<Longrightarrow> mreach m"
| step: "mreach m \<Longrightarrow> mstep m m' \<Longrightarrow> mreach m'"

text \<open>Who has the semaphore: nobody, a thread in the critical section or on its way out, a thread
  \<open>u\<close> that \<open>t\<close> handed it to and is about to schedule, or a scheduled thread that has not run yet.\<close>

datatype owner = Free | Inside tcb | Handed tcb tcb | Ready tcb

definition inside :: "pc \<Rightarrow> bool" where
  "inside p \<longleftrightarrow> p = Critical \<or> p = ULock \<or> p = UHold"

definition holding :: "pc \<Rightarrow> bool" where
  "holding p \<longleftrightarrow> p = DHold \<or> p = DBlock \<or> p = UHold"

definition woken :: "owner \<Rightarrow> tcb \<Rightarrow> bool" where
  "woken ow t \<longleftrightarrow> (\<exists>s. ow = Handed s t) \<or> ow = Ready t"

text \<open>The invariant, for an owner \<open>ow\<close> of the semaphore and a holder \<open>h\<close> of its spin lock.\<close>

definition pinv :: "(tcb \<Rightarrow> pc) \<Rightarrow> tcb list \<Rightarrow> tcb list \<Rightarrow> bool \<Rightarrow> u64 \<Rightarrow> owner \<Rightarrow> tcb option \<Rightarrow> bool" where
  "pinv p ws rs tk n ow h \<longleftrightarrow>
     (\<forall>t. inside (p t) \<longleftrightarrow> ow = Inside t) \<and>
     (\<forall>t u. p t = USched u \<longleftrightarrow> ow = Handed t u) \<and>
     rs = (case ow of Ready u \<Rightarrow> [u] | _ \<Rightarrow> []) \<and>
     (\<forall>t. p t = Asleep \<longleftrightarrow> t \<in> set ws \<or> woken ow t) \<and>
     (\<forall>t \<in> set ws. \<not> woken ow t) \<and>
     (\<forall>t. holding (p t) \<longleftrightarrow> h = Some t) \<and>
     (tk \<longleftrightarrow> h \<noteq> None) \<and>
     n = (if ow = Free then 1 else 0) \<and>
     (ow = Free \<longrightarrow> ws = [] \<and> (\<forall>t. p t \<noteq> DBlock)) \<and> distinct ws"

lemma pinvI:
  assumes "\<And>t. inside (p t) \<longleftrightarrow> ow = Inside t" "\<And>t u. p t = USched u \<longleftrightarrow> ow = Handed t u"
    "rs = (case ow of Ready u \<Rightarrow> [u] | _ \<Rightarrow> [])" "\<And>t. p t = Asleep \<longleftrightarrow> t \<in> set ws \<or> woken ow t"
    "\<And>t. t \<in> set ws \<Longrightarrow> \<not> woken ow t" "\<And>t. holding (p t) \<longleftrightarrow> h = Some t" "tk \<longleftrightarrow> h \<noteq> None"
    "n = (if ow = Free then 1 else 0)" "\<And>t. ow = Free \<Longrightarrow> p t \<noteq> DBlock" "ow = Free \<Longrightarrow> ws = []" "distinct ws"
  shows "pinv p ws rs tk n ow h"
  using assms unfolding pinv_def by blast

lemma pinvD:
  assumes "pinv p ws rs tk n ow h"
  shows "inside (p t) \<longleftrightarrow> ow = Inside t" "p t = USched u \<longleftrightarrow> ow = Handed t u"
    "rs = (case ow of Ready u \<Rightarrow> [u] | _ \<Rightarrow> [])" "p t = Asleep \<longleftrightarrow> t \<in> set ws \<or> woken ow t"
    "t \<in> set ws \<Longrightarrow> \<not> woken ow t" "holding (p t) \<longleftrightarrow> h = Some t" "tk \<longleftrightarrow> h \<noteq> None"
    "n = (if ow = Free then 1 else 0)" "ow = Free \<Longrightarrow> p t \<noteq> DBlock" "ow = Free \<Longrightarrow> ws = []" "distinct ws"
  using assms unfolding pinv_def by blast+

lemma pc_simps [simp]:
  "inside Critical" "inside ULock" "inside UHold" "\<not> inside Outside" "\<not> inside DLock" "\<not> inside DHold"
  "\<not> inside DBlock" "\<not> inside Asleep" "\<not> inside (USched u)"
  "holding DHold" "holding DBlock" "holding UHold" "\<not> holding Outside" "\<not> holding DLock" "\<not> holding Asleep"
  "\<not> holding Critical" "\<not> holding ULock" "\<not> holding (USched u)"
  "\<not> woken Free t" "\<not> woken (Inside s) t" "woken (Handed s u) t \<longleftrightarrow> u = t" "woken (Ready u) t \<longleftrightarrow> u = t"
  by (auto simp: inside_def holding_def woken_def)

text \<open>One step of the interleaving on the view of the invariant.\<close>

lemma pinv_want:
  assumes P: "pinv p ws rs tk n ow h" and t: "p t = Outside"
  shows "pinv (p(t := DLock)) ws rs tk n ow h"
proof (rule pinvI, goal_cases)
  case (1 s) show ?case using pinvD(1) [OF P, of s] pinvD(1) [OF P, of t] t by (cases "s = t") auto
next
  case (2 s u) show ?case using pinvD(2) [OF P, of s u] pinvD(2) [OF P, of t u] t by (cases "s = t") auto
next
  case 3 show ?case using pinvD(3) [OF P] t by auto
next
  case (4 s) show ?case using pinvD(4) [OF P, of s] pinvD(4) [OF P, of t] t by (cases "s = t") auto
next
  case (5 s) then show ?case using pinvD(5) [OF P, of s] pinvD(5) [OF P, of t] t by (cases "s = t") auto
next
  case (6 s) show ?case using pinvD(6) [OF P, of s] pinvD(6) [OF P, of t] t by (cases "s = t") auto
next
  case 7 show ?case using pinvD(7) [OF P] t by auto
next
  case 8 show ?case using pinvD(8) [OF P] t by auto
next
  case (9 s) then show ?case using pinvD(9) [OF P, of s] pinvD(9) [OF P, of t] t by (cases "s = t") auto
next
  case 10 then show ?case using pinvD(10) [OF P] t by auto
next
  case 11 show ?case using pinvD(11) [OF P] t by auto
qed

lemma pinv_dlock:
  assumes P: "pinv p ws rs tk n ow h" and t: "p t = DLock" "\<not> tk"
  shows "pinv (p(t := DHold)) ws rs True n ow (Some t)"
proof (rule pinvI, goal_cases)
  case (1 s) show ?case using pinvD(1) [OF P, of s] pinvD(1) [OF P, of t] t by (cases "s = t") auto
next
  case (2 s u) show ?case using pinvD(2) [OF P, of s u] pinvD(2) [OF P, of t u] t by (cases "s = t") auto
next
  case 3 show ?case using pinvD(3) [OF P] t by auto
next
  case (4 s) show ?case using pinvD(4) [OF P, of s] pinvD(4) [OF P, of t] t by (cases "s = t") auto
next
  case (5 s) then show ?case using pinvD(5) [OF P, of s] pinvD(5) [OF P, of t] t by (cases "s = t") auto
next
  case (6 s) show ?case using pinvD(6) [OF P, of s] pinvD(7) [OF P] t by (cases "s = t") auto
next
  case 7 show ?case by simp
next
  case 8 show ?case using pinvD(8) [OF P] t by auto
next
  case (9 s) then show ?case using pinvD(9) [OF P, of s] pinvD(9) [OF P, of t] t by (cases "s = t") auto
next
  case 10 then show ?case using pinvD(10) [OF P] t by auto
next
  case 11 show ?case using pinvD(11) [OF P] t by auto
qed

lemma pinv_dgrant:
  assumes P: "pinv p ws rs tk n ow h" and t: "p t = DHold" "0 < n"
  shows "pinv (p(t := Critical)) ws rs False (n - 1) (Inside t) None"
proof (rule pinvI, goal_cases)
  case (1 s) show ?case using pinvD(1) [OF P, of s] pinvD(8) [OF P] t by (cases "s = t") (auto split: if_splits)
next
  case (2 s u) show ?case using pinvD(2) [OF P, of s u] pinvD(8) [OF P] t by (cases "s = t") (auto split: if_splits)
next
  case 3 show ?case using pinvD(3) [OF P] pinvD(8) [OF P] t by (auto split: if_splits)
next
  case (4 s) show ?case using pinvD(4) [OF P, of s] pinvD(4) [OF P, of t] pinvD(8) [OF P] pinvD(10) [OF P] t by (cases "s = t") (auto split: if_splits)
next
  case (5 s) show ?case using pinvD(8) [OF P] pinvD(10) [OF P] t by (auto split: if_splits)
next
  case (6 s) show ?case using pinvD(6) [OF P, of s] pinvD(6) [OF P, of t] t by (cases "s = t") auto
next
  case 7 show ?case by simp
next
  case 8 show ?case using pinvD(8) [OF P] t by (auto split: if_splits)
next
  case (9 s) then show ?case by simp
next
  case 10 then show ?case by simp
next
  case 11 show ?case using pinvD(11) [OF P] t by auto
qed

lemma pinv_dblock:
  assumes P: "pinv p ws rs tk n ow h" and t: "p t = DHold" "n = 0"
  shows "pinv (p(t := DBlock)) ws rs tk n ow h"
proof (rule pinvI, goal_cases)
  case (1 s) show ?case using pinvD(1) [OF P, of s] pinvD(1) [OF P, of t] t by (cases "s = t") auto
next
  case (2 s u) show ?case using pinvD(2) [OF P, of s u] pinvD(2) [OF P, of t u] t by (cases "s = t") auto
next
  case 3 show ?case using pinvD(3) [OF P] t by auto
next
  case (4 s) show ?case using pinvD(4) [OF P, of s] pinvD(4) [OF P, of t] t by (cases "s = t") auto
next
  case (5 s) then show ?case using pinvD(5) [OF P, of s] pinvD(5) [OF P, of t] t by (cases "s = t") auto
next
  case (6 s) show ?case using pinvD(6) [OF P, of s] pinvD(6) [OF P, of t] t by (cases "s = t") auto
next
  case 7 show ?case using pinvD(7) [OF P] t by auto
next
  case 8 show ?case using pinvD(8) [OF P] t by auto
next
  case (9 s) then show ?case using pinvD(8) [OF P] t by (auto split: if_splits)
next
  case 10 then show ?case using pinvD(8) [OF P] t by (auto split: if_splits)
next
  case 11 show ?case using pinvD(11) [OF P] t by auto
qed

lemma pinv_dsleep:
  assumes P: "pinv p ws rs tk n ow h" and t: "p t = DBlock"
  shows "pinv (p(t := Asleep)) (ws @ [t]) rs False n ow None"
proof (rule pinvI, goal_cases)
  case (1 s) show ?case using pinvD(1) [OF P, of s] pinvD(1) [OF P, of t] t by (cases "s = t") auto
next
  case (2 s u) show ?case using pinvD(2) [OF P, of s u] pinvD(2) [OF P, of t u] t by (cases "s = t") auto
next
  case 3 show ?case using pinvD(3) [OF P] t by auto
next
  case (4 s) show ?case using pinvD(4) [OF P, of s] pinvD(4) [OF P, of t] t by (cases "s = t") auto
next
  case (5 s) then show ?case using pinvD(5) [OF P, of s] pinvD(4) [OF P, of t] t by (cases "s = t") auto
next
  case (6 s) show ?case using pinvD(6) [OF P, of s] pinvD(6) [OF P, of t] t by (cases "s = t") auto
next
  case 7 show ?case by simp
next
  case 8 show ?case using pinvD(8) [OF P] t by auto
next
  case (9 s) then show ?case using pinvD(9) [OF P, of s] pinvD(9) [OF P, of t] t by (cases "s = t") auto
next
  case 10 then show ?case using pinvD(9) [OF P, of t] t by auto
next
  case 11 show ?case using pinvD(11) [OF P] pinvD(4) [OF P, of t] t by auto
qed

lemma pinv_leave:
  assumes P: "pinv p ws rs tk n ow h" and t: "p t = Critical"
  shows "pinv (p(t := ULock)) ws rs tk n ow h"
proof (rule pinvI, goal_cases)
  case (1 s) show ?case using pinvD(1) [OF P, of s] pinvD(1) [OF P, of t] t by (cases "s = t") auto
next
  case (2 s u) show ?case using pinvD(2) [OF P, of s u] pinvD(2) [OF P, of t u] t by (cases "s = t") auto
next
  case 3 show ?case using pinvD(3) [OF P] t by auto
next
  case (4 s) show ?case using pinvD(4) [OF P, of s] pinvD(4) [OF P, of t] t by (cases "s = t") auto
next
  case (5 s) then show ?case using pinvD(5) [OF P, of s] pinvD(5) [OF P, of t] t by (cases "s = t") auto
next
  case (6 s) show ?case using pinvD(6) [OF P, of s] pinvD(6) [OF P, of t] t by (cases "s = t") auto
next
  case 7 show ?case using pinvD(7) [OF P] t by auto
next
  case 8 show ?case using pinvD(8) [OF P] t by auto
next
  case (9 s) then show ?case using pinvD(9) [OF P, of s] pinvD(9) [OF P, of t] t by (cases "s = t") auto
next
  case 10 then show ?case using pinvD(10) [OF P] t by auto
next
  case 11 show ?case using pinvD(11) [OF P] t by auto
qed

lemma pinv_ulock:
  assumes P: "pinv p ws rs tk n ow h" and t: "p t = ULock" "\<not> tk"
  shows "pinv (p(t := UHold)) ws rs True n ow (Some t)"
proof (rule pinvI, goal_cases)
  case (1 s) show ?case using pinvD(1) [OF P, of s] pinvD(1) [OF P, of t] t by (cases "s = t") auto
next
  case (2 s u) show ?case using pinvD(2) [OF P, of s u] pinvD(2) [OF P, of t u] t by (cases "s = t") auto
next
  case 3 show ?case using pinvD(3) [OF P] t by auto
next
  case (4 s) show ?case using pinvD(4) [OF P, of s] pinvD(4) [OF P, of t] t by (cases "s = t") auto
next
  case (5 s) then show ?case using pinvD(5) [OF P, of s] pinvD(5) [OF P, of t] t by (cases "s = t") auto
next
  case (6 s) show ?case using pinvD(6) [OF P, of s] pinvD(7) [OF P] t by (cases "s = t") auto
next
  case 7 show ?case by simp
next
  case 8 show ?case using pinvD(8) [OF P] t by auto
next
  case (9 s) then show ?case using pinvD(9) [OF P, of s] pinvD(9) [OF P, of t] t by (cases "s = t") auto
next
  case 10 then show ?case using pinvD(10) [OF P] t by auto
next
  case 11 show ?case using pinvD(11) [OF P] t by auto
qed

lemma pinv_release:
  assumes P: "pinv p [] rs tk n ow h" and t: "p t = UHold"
  shows "pinv (p(t := Outside)) [] rs False (n + 1) Free None"
proof (rule pinvI, goal_cases)
  case (1 s) show ?case using pinvD(1) [OF P, of s] pinvD(1) [OF P, of t] t by (cases "s = t") auto
next
  case (2 s u) show ?case using pinvD(2) [OF P, of s u] pinvD(1) [OF P, of t] t by (cases "s = t") auto
next
  case 3 show ?case using pinvD(3) [OF P] pinvD(1) [OF P, of t] t by auto
next
  case (4 s) show ?case using pinvD(4) [OF P, of s] pinvD(1) [OF P, of t] t by (cases "s = t") auto
next
  case (5 s) then show ?case by simp
next
  case (6 s) show ?case using pinvD(6) [OF P, of s] pinvD(6) [OF P, of t] t by (cases "s = t") auto
next
  case 7 show ?case by simp
next
  case 8 show ?case using pinvD(8) [OF P] pinvD(1) [OF P, of t] t by auto
next
  case (9 s) show ?case using pinvD(6) [OF P, of s] pinvD(6) [OF P, of t] t by (cases "s = t") auto
next
  case 10 show ?case by simp
next
  case 11 show ?case by simp
qed

lemma pinv_handed:
  assumes P: "pinv p (u # ws) rs tk n ow h" and t: "p t = UHold"
  shows "pinv (p(t := USched u)) ws rs False n (Handed t u) None"
proof (rule pinvI, goal_cases)
  case (1 s) show ?case using pinvD(1) [OF P, of s] pinvD(1) [OF P, of t] t by (cases "s = t") auto
next
  case (2 s v) show ?case using pinvD(2) [OF P, of s v] pinvD(1) [OF P, of t] t by (cases "s = t") auto
next
  case 3 show ?case using pinvD(3) [OF P] pinvD(1) [OF P, of t] t by auto
next
  case (4 s) show ?case using pinvD(4) [OF P, of s] pinvD(1) [OF P, of t] pinvD(4) [OF P, of t] t by (cases "s = t") auto
next
  case (5 s) then show ?case using pinvD(11) [OF P] t by auto
next
  case (6 s) show ?case using pinvD(6) [OF P, of s] pinvD(6) [OF P, of t] t by (cases "s = t") auto
next
  case 7 show ?case by simp
next
  case 8 show ?case using pinvD(8) [OF P] pinvD(1) [OF P, of t] t by auto
next
  case (9 s) then show ?case by simp
next
  case 10 then show ?case by simp
next
  case 11 show ?case using pinvD(11) [OF P] t by auto
qed

lemma pinv_usched:
  assumes P: "pinv p ws rs tk n ow h" and t: "p t = USched u"
  shows "pinv (p(t := Outside)) ws (rs @ [u]) tk n (Ready u) h"
proof (rule pinvI, goal_cases)
  case (1 s) show ?case using pinvD(1) [OF P, of s] pinvD(2) [OF P, of t u] t by (cases "s = t") auto
next
  case (2 s v) show ?case using pinvD(2) [OF P, of s v] pinvD(2) [OF P, of t u] t by (cases "s = t") auto
next
  case 3 show ?case using pinvD(3) [OF P] pinvD(2) [OF P, of t u] t by auto
next
  case (4 s) show ?case using pinvD(4) [OF P, of s] pinvD(2) [OF P, of t u] pinvD(4) [OF P, of t] t by (cases "s = t") auto
next
  case (5 s) then show ?case using pinvD(5) [OF P, of s] pinvD(2) [OF P, of t u] t by auto
next
  case (6 s) show ?case using pinvD(6) [OF P, of s] pinvD(6) [OF P, of t] t by (cases "s = t") auto
next
  case 7 show ?case using pinvD(7) [OF P] t by auto
next
  case 8 show ?case using pinvD(8) [OF P] pinvD(2) [OF P, of t u] t by auto
next
  case (9 s) then show ?case by simp
next
  case 10 then show ?case by simp
next
  case 11 show ?case using pinvD(11) [OF P] t by auto
qed

lemma pinv_dispatch:
  assumes P: "pinv p ws (t # rs) tk n ow h" and t: "p t = Asleep"
  shows "pinv (p(t := Critical)) ws rs tk n (Inside t) h"
proof (rule pinvI, goal_cases)
  case (1 s) show ?case using pinvD(1) [OF P, of s] pinvD(3) [OF P] t by (cases "s = t") (auto split: owner.splits)
next
  case (2 s v) show ?case using pinvD(2) [OF P, of s v] pinvD(3) [OF P] t by (cases "s = t") (auto split: owner.splits)
next
  case 3 show ?case using pinvD(3) [OF P] t by (auto split: owner.splits)
next
  case (4 s) show ?case using pinvD(4) [OF P, of s] pinvD(3) [OF P] pinvD(5) [OF P, of t] t by (cases "s = t") (auto split: owner.splits)
next
  case (5 s) then show ?case by simp
next
  case (6 s) show ?case using pinvD(6) [OF P, of s] pinvD(6) [OF P, of t] t by (cases "s = t") auto
next
  case 7 show ?case using pinvD(7) [OF P] t by auto
next
  case 8 show ?case using pinvD(8) [OF P] pinvD(3) [OF P] t by (auto split: owner.splits)
next
  case (9 s) then show ?case by simp
next
  case 10 then show ?case by simp
next
  case 11 show ?case using pinvD(11) [OF P] t by auto
qed

definition minv :: "mutex \<Rightarrow> tcb list \<Rightarrow> tcb list \<Rightarrow> owner \<Rightarrow> tcb option \<Rightarrow> bool" where
  "minv m ws rs ow h \<longleftrightarrow>
     sem_holds (mth m) (msem m) ws rs \<and>
     (\<forall>t. pcs m t \<noteq> Outside \<longrightarrow> t \<noteq> 0 \<and> \<not> isIdle (mth m) t) \<and>
     pinv (pcs m) ws rs (taken m) (count (msem m)) ow h"

lemma ready_remove_some:
  assumes "sem_holds th sm ws rs" "ready_remove th = (Some u, th')"
  obtains rs' where "rs = u # rs'" "sem_holds th' sm ws rs'" "isIdle th' = isIdle th"
proof (cases rs)
  case Nil
  then have "fst (q_remove (tlinks th, readyQ th)) = None"
    using assms(1) q_remove_empty [of "(tlinks th, readyQ th)"] by (simp add: sem_holds_def)
  then show ?thesis using assms(2) by (auto simp: ready_remove_def split: prod.splits)
next
  case (Cons v rs')
  then obtain th2 where "ready_remove th = (Some v, th2)" "sem_holds th2 sm ws rs'" "isIdle th2 = isIdle th"
    using ready_remove_holds [of th sm ws v rs'] assms(1) by blast
  then show ?thesis using that [of rs'] assms(2) Cons by simp
qed

lemma go_to_simps [simp]:
  "pcs (go_to t p m) = (pcs m)(t := p)" "mth (go_to t p m) = mth m" "msem (go_to t p m) = msem m"
  "taken (go_to t p m) = taken m"
  by (simp_all add: go_to_def)

lemma minv_parts:
  assumes "minv m ws rs ow h"
  shows "sem_holds (mth m) (msem m) ws rs" "\<And>t. pcs m t \<noteq> Outside \<Longrightarrow> t \<noteq> 0 \<and> \<not> isIdle (mth m) t"
    "pinv (pcs m) ws rs (taken m) (count (msem m)) ow h"
  using assms unfolding minv_def by blast+

lemma minv_step:
  assumes M: "minv m ws rs ow h" and S: "mstep m m'"
  shows "\<exists>ws rs ow h. minv m' ws rs ow h"
  using S
proof (cases rule: mstep.cases)
  case (want t)
  then have "minv m' ws rs ow h" using minv_parts [OF M] pinv_want [of "pcs m"] by (simp add: minv_def)
  then show ?thesis by blast
next
  case (dlock t)
  then have "minv m' ws rs ow (Some t)"
    using minv_parts [OF M] minv_parts(2) [OF M, of t] pinv_dlock [of "pcs m"] by (simp add: minv_def)
  then show ?thesis by blast
next
  case (dgrant t)
  then have "minv m' ws rs (Inside t) None"
    using minv_parts [OF M] minv_parts(2) [OF M, of t] pinv_dgrant [of "pcs m"] by (simp add: minv_def)
  then show ?thesis by blast
next
  case (dblock t)
  then have "minv m' ws rs ow h"
    using minv_parts [OF M] minv_parts(2) [OF M, of t] pinv_dblock [of "pcs m" ws rs "taken m" "count (msem m)"]
    by (simp add: minv_def)
  then show ?thesis by blast
next
  case (dsleep t l q)
  have D: "pinv (pcs m) ws rs (taken m) (count (msem m)) ow h" by (rule minv_parts(3) [OF M])
  have "t \<notin> set ws" using pinvD(4) [OF D, of t] dsleep by auto
  moreover have "t \<notin> set rs"
    using pinvD(4) [OF D, of t] pinvD(3) [OF D] dsleep by (auto split: owner.splits)
  ultimately have "sem_holds ((mth m)\<lparr>tlinks := l\<rparr>) ((msem m)\<lparr>waiting := q\<rparr>) (ws @ [t]) rs"
    using sem_add_holds [OF minv_parts(1) [OF M], of t l q] minv_parts(2) [OF M, of t] dsleep by simp
  then have "minv m' (ws @ [t]) rs ow None"
    using minv_parts(2) [OF M] minv_parts(2) [OF M, of t] pinv_dsleep [OF D, of t] dsleep by (simp add: minv_def)
  then show ?thesis by blast
next
  case (leave t)
  then have "minv m' ws rs ow h"
    using minv_parts [OF M] minv_parts(2) [OF M, of t] pinv_leave [of "pcs m"] by (simp add: minv_def)
  then show ?thesis by blast
next
  case (ulock t)
  then have "minv m' ws rs ow (Some t)"
    using minv_parts [OF M] minv_parts(2) [OF M, of t] pinv_ulock [of "pcs m"] by (simp add: minv_def)
  then show ?thesis by blast
next
  case (utake t nxt l q)
  have D: "pinv (pcs m) ws rs (taken m) (count (msem m)) ow h" by (rule minv_parts(3) [OF M])
  have R: "sem_holds ((mth m)\<lparr>tlinks := l\<rparr>) ((msem m)\<lparr>waiting := q\<rparr>) (tl ws) rs"
    "nxt = (case ws of [] \<Rightarrow> None | t # _ \<Rightarrow> Some t)"
    using sem_remove_holds [OF minv_parts(1) [OF M]] utake by blast+
  show ?thesis
  proof (cases ws)
    case Nil
    then have "minv m' [] rs Free None"
      using R minv_parts(2) [OF M] minv_parts(2) [OF M, of t] pinv_release [of "pcs m" rs] D utake
      by (simp add: minv_def)
    then show ?thesis by blast
  next
    case (Cons u ws')
    then have "minv m' ws' rs (Handed t u) None"
      using R minv_parts(2) [OF M] minv_parts(2) [OF M, of t] pinv_handed [of "pcs m" u ws'] D utake
      by (simp add: minv_def)
    then show ?thesis by blast
  qed
next
  case (usched t u)
  have D: "pinv (pcs m) ws rs (taken m) (count (msem m)) ow h" by (rule minv_parts(3) [OF M])
  have ow: "ow = Handed t u" using pinvD(2) [OF D, of t u] usched by simp
  have u: "pcs m u = Asleep" "u \<notin> set ws" "u \<notin> set rs"
    using pinvD(4) [OF D, of u] pinvD(5) [OF D, of u] pinvD(3) [OF D] ow by auto
  have S: "sem_holds (schedule u (mth m)) (msem m) ws (rs @ [u])" "isIdle (schedule u (mth m)) = isIdle (mth m)"
    using schedule_holds [OF minv_parts(1) [OF M], of u] minv_parts(2) [OF M, of u] u by simp_all
  have "minv m' ws (rs @ [u]) (Ready u) h"
    using S minv_parts(2) [OF M] pinv_usched [OF D, of t u] usched by (simp add: minv_def)
  then show ?thesis by blast
next
  case (dispatch u th)
  obtain rs' where r: "rs = u # rs'" "sem_holds th (msem m) ws rs'" "isIdle th = isIdle (mth m)"
    by (rule ready_remove_some [OF minv_parts(1) [OF M] dispatch(2)])
  have "minv m' ws rs' (Inside u) h"
    using r minv_parts(2,3) [OF M] minv_parts(2) [OF M, of u] pinv_dispatch [of "pcs m" ws u rs'] dispatch
    by (simp add: minv_def)
  then show ?thesis by blast
qed

lemma minv_start:
  assumes "mutex_start idle l m"
  shows "minv m [] [] Free None"
  using assms by (auto simp: mutex_start_def minv_def sem_holds_def q_holds_def new_semaphore_def empty_queue_def pinv_def)

lemma minv_reach: "mreach m \<Longrightarrow> \<exists>ws rs ow h. minv m ws rs ow h"
proof (induction rule: mreach.induct)
  case (start idle l m)
  then show ?case using minv_start by blast
next
  case (step m m')
  then show ?case using minv_step by blast
qed

text \<open>What the owner of the semaphore does next.\<close>

lemma owner_steps:
  assumes M: "minv m ws rs ow None" and ow: "ow \<noteq> Free"
  shows "\<exists>m' x. mstep m m' \<and> pcs m x \<noteq> Outside \<and> pcs m' x \<noteq> pcs m x"
proof -
  have D: "pinv (pcs m) ws rs (taken m) (count (msem m)) ow None" by (rule minv_parts(3) [OF M])
  have nt: "\<not> taken m" using pinvD(7) [OF D] by simp
  show ?thesis
  proof (cases ow)
    case (Inside s)
    then consider "pcs m s = Critical" | "pcs m s = ULock"
      using pinvD(1) [OF D, of s] pinvD(6) [OF D, of s] by (auto simp: inside_def)
    then show ?thesis by cases (use mstep.leave [of m s] mstep.ulock [of m s] nt in force)+
  next
    case (Handed s u)
    then have "pcs m s = USched u" using pinvD(2) [OF D, of s u] by simp
    then show ?thesis using mstep.usched [of m s u] by force
  next
    case (Ready u)
    then have u: "rs = [u]" "pcs m u = Asleep" using pinvD(3) [OF D] pinvD(4) [OF D, of u] by simp_all
    obtain th where "ready_remove (mth m) = (Some u, th)"
      using ready_remove_holds [of "mth m" "msem m" ws u "[]"] minv_parts(1) [OF M] u by auto
    then show ?thesis using mstep.dispatch [of m u th] u by force
  qed (use ow in simp)
qed

lemma holder_steps:
  assumes "holding (pcs m x)"
  shows "\<exists>m' x. mstep m m' \<and> pcs m x \<noteq> Outside \<and> pcs m' x \<noteq> pcs m x"
proof -
  consider "pcs m x = DHold" | "pcs m x = DBlock" | "pcs m x = UHold" using assms by (auto simp: holding_def)
  then show ?thesis
  proof cases
    case 1
    then show ?thesis using mstep.dgrant [of m x] mstep.dblock [of m x] by (cases "count (msem m) = 0") (force simp: word_neq_0_conv)+
  next
    case 2
    obtain l q where "q_add x (tlinks (mth m), waiting (msem m)) = (l, q)" by fastforce
    then show ?thesis using 2 mstep.dsleep [of m x l q] by force
  next
    case 3
    obtain n l q where "q_remove (tlinks (mth m), waiting (msem m)) = (n, l, q)" by (rule prod_cases3)
    then show ?thesis using 3 mstep.utake [of m x n l q] by (cases n) force+
  qed
qed

lemma mutex_moves:
  assumes R: "mreach m" and t: "pcs m t \<noteq> Outside"
  shows "\<exists>m' x. mstep m m' \<and> pcs m x \<noteq> Outside \<and> pcs m' x \<noteq> pcs m x"
proof -
  obtain ws rs ow h where M: "minv m ws rs ow h" using minv_reach [OF R] by blast
  have D: "pinv (pcs m) ws rs (taken m) (count (msem m)) ow h" by (rule minv_parts(3) [OF M])
  show ?thesis
  proof (cases h)
    case (Some x)
    then show ?thesis using holder_steps [of m x] pinvD(6) [OF D, of x] by simp
  next
    case None
    show ?thesis
    proof (cases "ow = Free")
      case True
      then have "\<not> taken m" "ws = []" using pinvD(7,10) [OF D] None by simp_all
      moreover have "pcs m t = DLock"
        using True t pinvD(1) [OF D, of t] pinvD(2) [OF D, of t] pinvD(4) [OF D, of t] pinvD(6) [OF D, of t] None \<open>ws = []\<close>
        by (cases "pcs m t") auto
      ultimately show ?thesis using mstep.dlock [of m t] by force
    next
      case False
      then show ?thesis using owner_steps M None by blast
    qed
  qed
qed

text \<open>C12: mutual exclusion of \<^verbatim>\<open>BlockingLock\<close>.  Whatever the interleaving of threads that lock, work and
  unlock (with \<^verbatim>\<open>down\<close> releasing its spin lock only once the sleeping thread is queued, and \<^verbatim>\<open>up\<close>
  handing the semaphore to the first sleeper), at most one thread is ever between \<^verbatim>\<open>lock\<close> and
  \<^verbatim>\<open>unlock\<close>, and when one is, the semaphore's count is 0.\<close>

theorem blocking_lock_mutex:
  assumes "mreach m" "inside (pcs m t)"
  shows "(inside (pcs m u) \<longrightarrow> t = u) \<and> count (msem m) = 0"
proof -
  obtain ws rs ow h where M: "minv m ws rs ow h" using minv_reach [OF assms(1)] by blast
  note D = minv_parts(3) [OF M]
  show ?thesis using pinvD(1) [OF D, of t] pinvD(1) [OF D, of u] pinvD(8) [OF D] assms(2) by auto
qed

text \<open>C18: the lock never wedges.  In every reachable state in which some thread is locking,
  sleeping, inside or unlocking, one of those threads can move: a sleeper is never left
  without an owner that will wake it, and the spin lock is never left taken.\<close>

theorem blocking_lock_moves:
  assumes "mreach m" "pcs m t \<noteq> Outside"
  shows "\<exists>m' x. mstep m m' \<and> pcs m x \<noteq> Outside \<and> pcs m' x \<noteq> pcs m x"
  by (rule mutex_moves [OF assms])

text \<open>Thread \<open>t\<close> takes the free lock.\<close>

definition mutex_zero :: mutex where
  "mutex_zero = \<lparr>mth = \<lparr>tlinks = (\<lambda>t. 0), readyQ = empty_queue, zombies = empty_queue, isIdle = (\<lambda>t. False)\<rparr>,
     msem = new_semaphore 1, taken = False, pcs = \<lambda>t. Outside\<rparr>"

lemma mutex_taken:
  assumes "t \<noteq> 0"
  obtains m where "mreach m" "pcs m t = Critical"
proof -
  let ?m0 = mutex_zero
  let ?m1 = "go_to t DLock ?m0"
  let ?m2 = "go_to t DHold (?m1\<lparr>taken := True\<rparr>)"
  let ?m3 = "go_to t Critical (?m2\<lparr>msem := (msem ?m2)\<lparr>count := count (msem ?m2) - 1\<rparr>, taken := False\<rparr>)"
  have "mreach ?m0" by (rule mreach.start) (simp add: mutex_start_def mutex_zero_def)
  moreover have "mstep ?m0 ?m1" using assms by (intro mstep.want) (simp_all add: mutex_zero_def)
  moreover have "mstep ?m1 ?m2" by (intro mstep.dlock) (simp_all add: mutex_zero_def go_to_def)
  moreover have "mstep ?m2 ?m3" by (intro mstep.dgrant) (simp_all add: mutex_zero_def go_to_def new_semaphore_def)
  ultimately have "mreach ?m3" by (blast intro: mreach.step)
  then show thesis using that by simp
qed

lemma blocking_lock_mutex_witness: "\<exists>m. mreach m \<and> pcs m 0x100 = Critical \<and> count (msem m) = 0"
proof -
  obtain m where m: "mreach m" "pcs m 0x100 = Critical" by (rule mutex_taken [of "0x100"]) simp
  then show ?thesis using blocking_lock_mutex [of m "0x100"] by auto
qed

lemma blocking_lock_moves_witness: "\<exists>m m' x. mreach m \<and> mstep m m' \<and> pcs m' x \<noteq> pcs m x"
proof -
  obtain m where m: "mreach m" "pcs m 0x100 = Critical" by (rule mutex_taken [of "0x100"]) simp
  then show ?thesis using blocking_lock_moves [of m "0x100"] by force
qed

end
