(* ===== verification/Scheduler.thy ===== *)
theory Scheduler
  imports Sync
begin

text \<open>
  Scheduling on several cores: \<^verbatim>\<open>block\<close>, \<^verbatim>\<open>yield\<close>, \<^verbatim>\<open>stop\<close>, \<^verbatim>\<open>entry\<close> and the creation of threads of
  \<^verbatim>\<open>kernel/threads.h\<close> and \<^verbatim>\<open>kernel/threads.cc\<close>, \<^verbatim>\<open>gheith_contextSwitch\<close> of \<^verbatim>\<open>kernel/context.s\<close> and the timer
  handler of \<^verbatim>\<open>kernel/pit.cc\<close>.  Every core executes the stack of the thread its stack pointer is in, one
  statement at a time, in any interleaving with the others and with timer interrupts; the queues are the
  linked ones of \<^verbatim>\<open>kernel/queue.h\<close>.
\<close>

section \<open>Threads, stacks and cores\<close>

datatype block_option = MustBlock | CanReturn

text \<open>The lambdas that are passed to \<^verbatim>\<open>block\<close>: of \<^verbatim>\<open>yield\<close>, of \<^verbatim>\<open>stop\<close>, and of a thread that waits in
  a queue, as \<^verbatim>\<open>Semaphore::down\<close> does.\<close>

datatype action = AYield | AStop | AWait nat

text \<open>
  A thread's stack is the list of its active calls, the innermost first, each with the point it is at
  and its local variables.  \<open>Run\<close> is the thread's own code.  The calls of \<^verbatim>\<open>entry\<close>, \<^verbatim>\<open>stop\<close>, the timer handler,
  \<^verbatim>\<open>delete_zombies\<close> and \<^verbatim>\<open>thread\<close> come first; the points of \<^verbatim>\<open>block\<close> hold \<^verbatim>\<open>core_id\<close>, \<^verbatim>\<open>me\<close> and
  \<^verbatim>\<open>next_tcb\<close>; the points of \<^verbatim>\<open>gheith_contextSwitch\<close> hold the flags it pushed.
\<close>

datatype frame =
    Run
  | Entry | EntrySti | EntryStop
  | StopLoop | StopCheck
  | Apit | ApitBack
  | Reap | Del tcb
  | New | Sched tcb
  | BProtect block_option action
  | BAgain block_option action nat tcb
  | BNext action nat tcb tcb
  | BMarked action nat tcb tcb
  | BActive action nat tcb tcb
  | SPush action tcb tcb
  | SCli bool action tcb tcb
  | SClear bool action tcb tcb
  | SClearN bool action tcb tcb
  | SLoad bool action tcb tcb
  | SParked bool

text \<open>
  A core: the thread its stack pointer is in, its interrupt flag, its page directory, and the call of the
  lambda that \<^verbatim>\<open>gheith_contextSwitch\<close> is about to make on the new stack.
\<close>

record cpu =
  esp :: tcb
  ie :: bool
  cr3 :: u32
  pend :: "(action \<times> tcb) option"

text \<open>\<open>save_esp t\<close> is the thread in whose stack the saved stack pointer of \<open>t\<close> is; \<open>esp0\<close> is the thread
  whose kernel stack the core's task state segment names.\<close>

record sched =
  ths :: threads
  waitQ :: "nat \<Rightarrow> queue"
  live :: "tcb \<Rightarrow> bool"
  save_cr3 :: "tcb \<Rightarrow> u32"
  save_esp :: "tcb \<Rightarrow> tcb"
  no_preempt :: "tcb \<Rightarrow> bool"
  stacks :: "tcb \<Rightarrow> frame list"
  totalProcs :: nat
  cpus :: "nat \<Rightarrow> cpu"
  activeThreads :: "nat \<Rightarrow> tcb"
  idleThreads :: "nat \<Rightarrow> tcb"
  esp0 :: "nat \<Rightarrow> tcb"

definition set_cpu :: "nat \<Rightarrow> cpu \<Rightarrow> sched \<Rightarrow> sched" where
  "set_cpu c u s = s\<lparr>cpus := (cpus s)(c := u)\<rparr>"

definition set_stack :: "tcb \<Rightarrow> frame list \<Rightarrow> sched \<Rightarrow> sched" where
  "set_stack t fs s = s\<lparr>stacks := (stacks s)(t := fs)\<rparr>"

definition set_np :: "tcb \<Rightarrow> bool \<Rightarrow> sched \<Rightarrow> sched" where
  "set_np t b s = s\<lparr>no_preempt := (no_preempt s)(t := b)\<rparr>"

definition s_current :: "nat \<Rightarrow> sched \<Rightarrow> tcb" where
  "s_current c s = activeThreads s c"

definition set_ie :: "nat \<Rightarrow> bool \<Rightarrow> sched \<Rightarrow> sched" where
  "set_ie c b s = set_cpu c ((cpus s c)\<lparr>ie := b\<rparr>) s"

section \<open>The queues\<close>

definition s_schedule :: "tcb \<Rightarrow> sched \<Rightarrow> sched" where
  "s_schedule t s = s\<lparr>ths := schedule t (ths s)\<rparr>"

definition s_zombie_add :: "tcb \<Rightarrow> sched \<Rightarrow> sched" where
  "s_zombie_add t s =
     (case q_add t (tlinks (ths s), zombies (ths s)) of (l, q) \<Rightarrow> s\<lparr>ths := (ths s)\<lparr>tlinks := l, zombies := q\<rparr>\<rparr>)"

definition s_zombie_remove :: "sched \<Rightarrow> tcb option \<times> sched" where
  "s_zombie_remove s =
     (case q_remove (tlinks (ths s), zombies (ths s)) of (r, l, q) \<Rightarrow> (r, s\<lparr>ths := (ths s)\<lparr>tlinks := l, zombies := q\<rparr>\<rparr>))"

definition s_wait_add :: "nat \<Rightarrow> tcb \<Rightarrow> sched \<Rightarrow> sched" where
  "s_wait_add n t s =
     (case q_add t (tlinks (ths s), waitQ s n) of (l, q) \<Rightarrow>
        s\<lparr>ths := (ths s)\<lparr>tlinks := l\<rparr>, waitQ := (waitQ s)(n := q)\<rparr>)"

definition s_wait_remove :: "nat \<Rightarrow> sched \<Rightarrow> tcb option \<times> sched" where
  "s_wait_remove n s =
     (case q_remove (tlinks (ths s), waitQ s n) of (r, l, q) \<Rightarrow>
        (r, s\<lparr>ths := (ths s)\<lparr>tlinks := l\<rparr>, waitQ := (waitQ s)(n := q)\<rparr>))"

section \<open>What a core does next\<close>

text \<open>\<^verbatim>\<open>TCB::TCB\<close> and \<^verbatim>\<open>TCBWithStack\<close>: the new stack holds the flags with interrupts enabled and the
  address of \<^verbatim>\<open>entry\<close>, as if the thread had called \<^verbatim>\<open>gheith_contextSwitch\<close> there.  The page directory
  comes from \<^verbatim>\<open>make_pd\<close>.\<close>

definition s_new_tcb :: "tcb \<Rightarrow> u32 \<Rightarrow> sched \<Rightarrow> sched" where
  "s_new_tcb t pd s =
     s\<lparr>ths := (ths s)\<lparr>isIdle := (isIdle (ths s))(t := False)\<rparr>,
       live := (live s)(t := True),
       save_cr3 := (save_cr3 s)(t := pd),
       save_esp := (save_esp s)(t := t),
       no_preempt := (no_preempt s)(t := False),
       stacks := (stacks s)(t := [SParked True, Entry])\<rparr>"

text \<open>\<^verbatim>\<open>delete it\<close>: the block control and its stack are gone.\<close>

definition s_delete :: "tcb \<Rightarrow> sched \<Rightarrow> sched" where
  "s_delete t s = s\<lparr>live := (live s)(t := False), stacks := (stacks s)(t := [])\<rparr>"

text \<open>The lambda of a \<^verbatim>\<open>block\<close>, applied to the thread that was left.\<close>

fun do_action :: "action \<Rightarrow> tcb \<Rightarrow> sched \<Rightarrow> sched res" where
  "do_action AYield me s = Inr (s_schedule me s)"
| "do_action AStop me s = Inr (if \<not> isIdle (ths s) me then s_zombie_add me s else s)"
| "do_action (AWait n) me s = assertR ''!me->isIdle'' (\<not> isIdle (ths s) me) (Inr (s_wait_add n me s))"

text \<open>The statements, each for the thread \<open>t\<close> that runs on core \<open>c\<close>, with the calls \<open>r\<close> around the one
  that executes it.  \<^verbatim>\<open>entry\<close>: the page directory, interrupts, the thread's work, and \<^verbatim>\<open>stop\<close>.\<close>

definition entry_vmm_on :: "nat \<Rightarrow> tcb \<Rightarrow> frame list \<Rightarrow> sched \<Rightarrow> sched" where [simp]:
  "entry_vmm_on c t r s = set_stack t (EntrySti # r) (set_cpu c ((cpus s c)\<lparr>cr3 := save_cr3 s (s_current c s)\<rparr>) s)"

definition entry_work :: "nat \<Rightarrow> tcb \<Rightarrow> frame list \<Rightarrow> sched \<Rightarrow> sched" where [simp]:
  "entry_work c t r s = set_stack t (Run # EntryStop # r) (set_ie c True s)"

definition entry_stop :: "nat \<Rightarrow> tcb \<Rightarrow> frame list \<Rightarrow> sched \<Rightarrow> sched" where [simp]:
  "entry_stop c t r s = set_stack t (StopLoop # r) s"

text \<open>\<^verbatim>\<open>stop\<close>: block for ever, and check that only an idle thread comes back.\<close>

definition stop_block :: "nat \<Rightarrow> tcb \<Rightarrow> frame list \<Rightarrow> sched \<Rightarrow> sched" where [simp]:
  "stop_block c t r s = set_stack t (BProtect MustBlock AStop # StopCheck # r) s"

definition stop_check :: "nat \<Rightarrow> tcb \<Rightarrow> frame list \<Rightarrow> sched \<Rightarrow> sched res" where [simp]:
  "stop_check c t r s =
     assertR ''current()->isIdle'' (isIdle (ths s) (s_current c s)) (Inr (set_stack t (StopLoop # r) s))"

text \<open>The timer handler; the count of ticks and the acknowledgement to the controller are not part of the state.\<close>

definition apitHandler :: "nat \<Rightarrow> tcb \<Rightarrow> frame list \<Rightarrow> sched \<Rightarrow> sched" where [simp]:
  "apitHandler c t r s =
     (let me = activeThreads s c
      in if me = 0 \<or> isIdle (ths s) me \<or> no_preempt s me then set_stack t r (set_ie c True s)
         else set_stack t (BProtect CanReturn AYield # ApitBack # r) s)"

text \<open>\<^verbatim>\<open>delete_zombies\<close>.\<close>

definition reap :: "nat \<Rightarrow> tcb \<Rightarrow> frame list \<Rightarrow> sched \<Rightarrow> sched" where [simp]:
  "reap c t r s =
     (case s_zombie_remove s of
        (None, s1) \<Rightarrow> set_stack t r s1
      | (Some z, s1) \<Rightarrow> set_stack t (Del z # Reap # r) s1)"

text \<open>\<^verbatim>\<open>block\<close>: fix the core, choose the next thread, mark it, make it the active one, and name its stack
  in the task state segment.\<close>

definition block_protect :: "nat \<Rightarrow> tcb \<Rightarrow> block_option \<Rightarrow> action \<Rightarrow> frame list \<Rightarrow> sched \<Rightarrow> sched" where [simp]:
  "block_protect c t m a r s =
     (let me = activeThreads s c in set_stack t (BAgain m a c me # r) (set_np me True s))"

definition block_choose :: "nat \<Rightarrow> tcb \<Rightarrow> block_option \<Rightarrow> action \<Rightarrow> nat \<Rightarrow> tcb \<Rightarrow> frame list \<Rightarrow> sched \<Rightarrow> sched res" where [simp]:
  "block_choose c t m a core_id me r s =
     (case ready_remove (ths s) of
        (Some n, th) \<Rightarrow> Inr (set_stack t (BNext a core_id me n # r) (s\<lparr>ths := th\<rparr>))
      | (None, th) \<Rightarrow>
          if m = CanReturn then Inr (set_stack t r s)
          else if isIdle (ths s) me then
            assertR ''core_id == SMP::me()'' (core_id = c)
             (assertR ''!Interrupts::isDisabled()'' (ie (cpus s c))
             (assertR ''me == idleThreads[core_id]'' (me = idleThreads s core_id)
             (assertR ''me == activeThreads[core_id]'' (me = activeThreads s core_id) (Inr s))))
          else Inr (set_stack t (BNext a core_id me (idleThreads s core_id) # r) s))"

definition block_mark :: "nat \<Rightarrow> tcb \<Rightarrow> action \<Rightarrow> nat \<Rightarrow> tcb \<Rightarrow> tcb \<Rightarrow> frame list \<Rightarrow> sched \<Rightarrow> sched" where [simp]:
  "block_mark c t a core_id me n r s = set_stack t (BMarked a core_id me n # r) (set_np n True s)"

definition block_activate :: "nat \<Rightarrow> tcb \<Rightarrow> action \<Rightarrow> nat \<Rightarrow> tcb \<Rightarrow> tcb \<Rightarrow> frame list \<Rightarrow> sched \<Rightarrow> sched" where [simp]:
  "block_activate c t a core_id me n r s =
     set_stack t (BActive a core_id me n # r) (s\<lparr>activeThreads := (activeThreads s)(core_id := n)\<rparr>)"

definition block_tss :: "nat \<Rightarrow> tcb \<Rightarrow> action \<Rightarrow> nat \<Rightarrow> tcb \<Rightarrow> tcb \<Rightarrow> frame list \<Rightarrow> sched \<Rightarrow> sched" where [simp]:
  "block_tss c t a core_id me n r s = set_stack t (SPush a me n # r) (s\<lparr>esp0 := (esp0 s)(core_id := n)\<rparr>)"

text \<open>\<^verbatim>\<open>gheith_contextSwitch\<close>: push the flags and save the stack pointer, disable interrupts, clear both
  \<^verbatim>\<open>no_preempt\<close> flags, load the next thread's page directory and stack pointer with the call of the lambda
  next, and restore the flags and return.\<close>

definition switch_save :: "nat \<Rightarrow> tcb \<Rightarrow> action \<Rightarrow> tcb \<Rightarrow> tcb \<Rightarrow> frame list \<Rightarrow> sched \<Rightarrow> sched" where [simp]:
  "switch_save c t a me n r s =
     set_stack t (SCli (ie (cpus s c)) a me n # r) (s\<lparr>save_esp := (save_esp s)(me := t)\<rparr>)"

definition switch_cli :: "nat \<Rightarrow> tcb \<Rightarrow> bool \<Rightarrow> action \<Rightarrow> tcb \<Rightarrow> tcb \<Rightarrow> frame list \<Rightarrow> sched \<Rightarrow> sched" where [simp]:
  "switch_cli c t f a me n r s = set_stack t (SClear f a me n # r) (set_ie c False s)"

definition switch_clear_me :: "nat \<Rightarrow> tcb \<Rightarrow> bool \<Rightarrow> action \<Rightarrow> tcb \<Rightarrow> tcb \<Rightarrow> frame list \<Rightarrow> sched \<Rightarrow> sched" where [simp]:
  "switch_clear_me c t f a me n r s = set_stack t (SClearN f a me n # r) (set_np me False s)"

definition switch_clear_next :: "nat \<Rightarrow> tcb \<Rightarrow> bool \<Rightarrow> action \<Rightarrow> tcb \<Rightarrow> tcb \<Rightarrow> frame list \<Rightarrow> sched \<Rightarrow> sched" where [simp]:
  "switch_clear_next c t f a me n r s = set_stack t (SLoad f a me n # r) (set_np n False s)"

definition switch_load :: "nat \<Rightarrow> tcb \<Rightarrow> bool \<Rightarrow> action \<Rightarrow> tcb \<Rightarrow> tcb \<Rightarrow> frame list \<Rightarrow> sched \<Rightarrow> sched" where [simp]:
  "switch_load c t f a me n r s =
     set_stack t (SParked f # r)
       (set_cpu c ((cpus s c)\<lparr>cr3 := save_cr3 s n, esp := save_esp s n, pend := Some (a, me)\<rparr>) s)"

definition switch_return :: "nat \<Rightarrow> tcb \<Rightarrow> bool \<Rightarrow> frame list \<Rightarrow> sched \<Rightarrow> sched" where [simp]:
  "switch_return c t f r s = set_stack t r (set_ie c f s)"

text \<open>The statement at the point the innermost call of the running thread is at.  \<open>None\<close> where the thread's
  own code decides.\<close>

fun exec :: "nat \<Rightarrow> tcb \<Rightarrow> frame \<Rightarrow> frame list \<Rightarrow> sched \<Rightarrow> sched res option" where
  "exec c t Run r s = None"
| "exec c t New r s = None"
| "exec c t Entry r s = Some (Inr (entry_vmm_on c t r s))"
| "exec c t EntrySti r s = Some (Inr (entry_work c t r s))"
| "exec c t EntryStop r s = Some (Inr (entry_stop c t r s))"
| "exec c t StopLoop r s = Some (Inr (stop_block c t r s))"
| "exec c t StopCheck r s = Some (stop_check c t r s)"
| "exec c t Apit r s = Some (Inr (apitHandler c t r s))"
| "exec c t ApitBack r s = Some (Inr (set_stack t r (set_ie c True s)))"
| "exec c t Reap r s = Some (Inr (reap c t r s))"
| "exec c t (Del z) r s = Some (Inr (set_stack t r (s_delete z s)))"
| "exec c t (Sched u) r s = Some (Inr (set_stack t r (s_schedule u s)))"
| "exec c t (BProtect m a) r s = Some (Inr (block_protect c t m a r s))"
| "exec c t (BAgain m a k me) r s = Some (block_choose c t m a k me r s)"
| "exec c t (BNext a k me n) r s = Some (Inr (block_mark c t a k me n r s))"
| "exec c t (BMarked a k me n) r s = Some (Inr (block_activate c t a k me n r s))"
| "exec c t (BActive a k me n) r s = Some (Inr (block_tss c t a k me n r s))"
| "exec c t (SPush a me n) r s = Some (Inr (switch_save c t a me n r s))"
| "exec c t (SCli f a me n) r s = Some (Inr (switch_cli c t f a me n r s))"
| "exec c t (SClear f a me n) r s = Some (Inr (switch_clear_me c t f a me n r s))"
| "exec c t (SClearN f a me n) r s = Some (Inr (switch_clear_next c t f a me n r s))"
| "exec c t (SLoad f a me n) r s = Some (Inr (switch_load c t f a me n r s))"
| "exec c t (SParked f) r s = Some (Inr (switch_return c t f r s))"

text \<open>What can happen on a core: it goes on, the timer interrupts it, or the thread's own code yields,
  stops, returns, waits in a queue, wakes the first thread of one, creates a thread, or begins a round of
  the reaper, which is to check that interrupts are enabled and to call \<^verbatim>\<open>delete_zombies\<close> (and then to
  yield).\<close>

datatype event = Go | Tick | Yield | Stop | Return | Wait nat | Wake nat | Create | Alloc tcb u32 | Round

text \<open>The places where the thread's own code, or a destructor it calls, can wait and wake.\<close>

fun is_code :: "frame \<Rightarrow> bool" where
  "is_code Run = True"
| "is_code Reap = True"
| "is_code (Del z) = True"
| "is_code f = False"

definition core_step :: "nat \<Rightarrow> event \<Rightarrow> sched \<Rightarrow> sched res option" where
  "core_step c ev s =
     (let t = esp (cpus s c) in
      case (pend (cpus s c), stacks s t) of
        (Some (a, me), fs) \<Rightarrow>
          (if ev = Go then Some (do_action a me (set_cpu c ((cpus s c)\<lparr>pend := None\<rparr>) s)) else None)
      | (None, []) \<Rightarrow> None
      | (None, f # r) \<Rightarrow>
          (case ev of
             Go \<Rightarrow> exec c t f r s
           | Tick \<Rightarrow> if ie (cpus s c) then Some (Inr (set_stack t (Apit # f # r) (set_ie c False s))) else None
           | Yield \<Rightarrow> if is_code f then Some (Inr (set_stack t (BProtect CanReturn AYield # f # r) s)) else None
           | Stop \<Rightarrow> if f = Run then Some (Inr (set_stack t (StopLoop # f # r) s)) else None
           | Return \<Rightarrow> if f = Run then Some (Inr (set_stack t r s)) else None
           | Wait n \<Rightarrow> if is_code f then Some (Inr (set_stack t (BProtect MustBlock (AWait n) # f # r) s)) else None
           | Wake n \<Rightarrow>
               if is_code f then
                 (case s_wait_remove n s of
                    (None, s1) \<Rightarrow> Some (Inr s1)
                  | (Some u, s1) \<Rightarrow> Some (Inr (set_stack t (Sched u # f # r) s1)))
               else None
           | Create \<Rightarrow> if f = Run then Some (Inr (set_stack t (Reap # New # f # r) s)) else None
           | Round \<Rightarrow>
               if f = Run then
                 Some (assertR ''!Interrupts::isDisabled()'' (ie (cpus s c)) (Inr (set_stack t (Reap # f # r) s)))
               else None
           | Alloc u pd \<Rightarrow>
               if f = New \<and> u \<noteq> 0 \<and> \<not> live s u then Some (Inr (set_stack t (Sched u # r) (s_new_tcb u pd s)))
               else None))"

text \<open>\<^verbatim>\<open>threadsInit\<close> and the end of \<^verbatim>\<open>kernelInit\<close>: each core runs its idle thread, which calls \<^verbatim>\<open>stop\<close>; the
  threads of \<open>fresh\<close> (the reaper and the one that runs \<^verbatim>\<open>kernelMain\<close>) are ready.\<close>

definition s_threadsInit :: "nat \<Rightarrow> (nat \<Rightarrow> tcb) \<Rightarrow> (tcb \<Rightarrow> u32) \<Rightarrow> sched" where
  "s_threadsInit n idle pds =
     \<lparr>ths = \<lparr>tlinks = \<lambda>t. 0, readyQ = empty_queue, zombies = empty_queue, isIdle = \<lambda>t. t \<in> idle ` {..<n}\<rparr>,
      waitQ = \<lambda>k. empty_queue,
      live = \<lambda>t. t \<in> idle ` {..<n},
      save_cr3 = pds,
      save_esp = id,
      no_preempt = \<lambda>t. False,
      stacks = \<lambda>t. if t \<in> idle ` {..<n} then [StopLoop] else [],
      totalProcs = n,
      cpus = \<lambda>c. \<lparr>esp = idle c, ie = True, cr3 = pds (idle c), pend = None\<rparr>,
      activeThreads = idle,
      idleThreads = idle,
      esp0 = \<lambda>c. 0\<rparr>"

definition s_start :: "nat \<Rightarrow> (nat \<Rightarrow> tcb) \<Rightarrow> (tcb \<Rightarrow> u32) \<Rightarrow> tcb list \<Rightarrow> sched" where
  "s_start n idle pds fresh = fold (\<lambda>t s. s_schedule t (s_new_tcb t (pds t) s)) fresh (s_threadsInit n idle pds)"

definition start_ok :: "nat \<Rightarrow> (nat \<Rightarrow> tcb) \<Rightarrow> tcb list \<Rightarrow> bool" where
  "start_ok n idle fresh \<longleftrightarrow> distinct (map idle [0..<n] @ fresh) \<and> 0 \<notin> set (map idle [0..<n] @ fresh)"

inductive s_reach :: "sched \<Rightarrow> bool" where
  start: "start_ok n idle fresh \<Longrightarrow> s_reach (s_start n idle pds fresh)"
| step: "s_reach s \<Longrightarrow> c < totalProcs s \<Longrightarrow> core_step c ev s = Some (Inr s') \<Longrightarrow> s_reach s'"

end
