(* ===== verification/Sched_Inv.thy ===== *)
theory Sched_Inv
  imports Scheduler
begin

text \<open>
  The invariant of the scheduler: every thread is in one place, the queues and the local variables that hold
  threads agree with the places, and what each core knows at each point of \<^verbatim>\<open>block\<close> and of the context
  switch.  The steps that stay on one core keep it; the steps that move a thread are in \<open>Sched_Safe\<close>.
\<close>

section \<open>The invariant\<close>

text \<open>Where a thread is: not allocated, in a queue, in a local variable of another thread that will
  schedule or delete it, running on a core, chosen by a core to run next, left by a core that has not yet
  called the lambda, or (an idle thread) waiting for its core.\<close>

datatype place =
    Nowhere | Ready | Zombie | Waiting nat | Woken tcb | Dying tcb | Core nat | Picked nat | Leaving nat | Rest

abbreviation idle_of :: "sched \<Rightarrow> tcb \<Rightarrow> bool" where
  "idle_of s \<equiv> isIdle (ths s)"

text \<open>The points at which a thread can be interrupted and leave the core.\<close>

fun calm :: "frame \<Rightarrow> bool" where
  "calm Apit = False"
| "calm (BAgain m a k me) = False"
| "calm (BNext a k me n) = False"
| "calm (BMarked a k me n) = False"
| "calm (BActive a k me n) = False"
| "calm (SPush a me n) = False"
| "calm (SCli f a me n) = False"
| "calm (SClear f a me n) = False"
| "calm (SClearN f a me n) = False"
| "calm (SLoad f a me n) = False"
| "calm (SParked f) = False"
| "calm f = True"

definition nohold :: "frame list \<Rightarrow> bool" where
  "nohold fs \<longleftrightarrow> (\<forall>u. Sched u \<notin> set fs \<and> Del u \<notin> set fs)"

definition bottom :: "frame \<Rightarrow> bool" where
  "bottom f \<longleftrightarrow> f \<in> {Entry, EntrySti, EntryStop, StopLoop, StopCheck}"

definition base :: "frame \<Rightarrow> bool" where
  "base f \<longleftrightarrow> f \<in> {Run, Entry, EntrySti, EntryStop, StopLoop, StopCheck}"

text \<open>A thread that is not an idle one never returns to \<^verbatim>\<open>stop\<close>.\<close>

definition stops :: "frame list \<Rightarrow> bool" where
  "stops r \<longleftrightarrow> (\<exists>r'. r = StopCheck # r')"

lemma stops_simps [simp]: "\<not> stops []" "stops (f # r) \<longleftrightarrow> f = StopCheck"
  by (auto simp: stops_def)

text \<open>A list of calls that are all at such points; a thread that holds another in a local variable does so
  inside its own code.\<close>

fun good :: "frame list \<Rightarrow> bool" where
  "good [] = True"
| "good (f # r) =
     (calm f \<and> (bottom f \<or> r \<noteq> []) \<and> (base f \<longrightarrow> nohold r) \<and> f \<noteq> BProtect CanReturn AStop \<and> (stops r \<longleftrightarrow> f = BProtect MustBlock AStop) \<and> good r)"

definition parked_stack :: "sched \<Rightarrow> tcb \<Rightarrow> bool" where
  "parked_stack s t \<longleftrightarrow>
     (\<exists>f r. stacks s t = SParked f # r \<and> good r \<and> r \<noteq> [] \<and> (idle_of s t \<longrightarrow> f \<and> r = [StopCheck]))"

definition resumes :: "sched \<Rightarrow> tcb \<Rightarrow> bool" where
  "resumes s t \<longleftrightarrow> (idle_of s t \<or> \<not> stops (tl (stacks s t)))"

definition parked :: "sched \<Rightarrow> tcb \<Rightarrow> bool" where
  "parked s t \<longleftrightarrow> live s t \<and> t \<noteq> 0 \<and> save_esp s t = t \<and> parked_stack s t"

fun strip :: "frame list \<Rightarrow> frame list" where
  "strip (Apit # fs) = fs"
| "strip fs = fs"

fun pick :: "frame list \<Rightarrow> tcb option" where
  "pick (BNext a k me n # r) = Some n"
| "pick (BMarked a k me n # r) = Some n"
| "pick (BActive a k me n # r) = Some n"
| "pick (SPush a me n # r) = Some n"
| "pick (SCli f a me n # r) = Some n"
| "pick (SClear f a me n # r) = Some n"
| "pick (SClearN f a me n # r) = Some n"
| "pick (SLoad f a me n # r) = Some n"
| "pick fs = None"

definition picks :: "sched \<Rightarrow> nat \<Rightarrow> tcb option" where
  "picks s c = (if pend (cpus s c) = None then pick (strip (stacks s (esp (cpus s c)))) else None)"

definition leaves :: "sched \<Rightarrow> nat \<Rightarrow> tcb option" where
  "leaves s c = map_option snd (pend (cpus s c))"

text \<open>What the place of a thread says about it.\<close>

fun at_place :: "sched \<Rightarrow> tcb \<Rightarrow> place \<Rightarrow> bool" where
  "at_place s t Nowhere = (\<not> live s t \<and> stacks s t = [] \<and> \<not> idle_of s t)"
| "at_place s t (Core c) = (live s t \<and> t \<noteq> 0 \<and> c < totalProcs s \<and> esp (cpus s c) = t \<and> (idle_of s t \<longrightarrow> t = idleThreads s c))"
| "at_place s t (Picked c) = (parked s t \<and> resumes s t \<and> c < totalProcs s \<and> picks s c = Some t \<and> (idle_of s t \<longrightarrow> t = idleThreads s c))"
| "at_place s t (Leaving c) = (parked s t \<and> c < totalProcs s \<and> leaves s c = Some t \<and> (idle_of s t \<longrightarrow> t = idleThreads s c))"
| "at_place s t Rest = (parked s t \<and> idle_of s t \<and> (\<exists>c < totalProcs s. t = idleThreads s c))"
| "at_place s t Zombie = (parked s t \<and> \<not> idle_of s t \<and> nohold (stacks s t))"
| "at_place s t (Dying w) = (parked s t \<and> \<not> idle_of s t \<and> nohold (stacks s t))"
| "at_place s t Ready = (parked s t \<and> resumes s t \<and> \<not> idle_of s t)"
| "at_place s t (Waiting n) = (parked s t \<and> resumes s t \<and> \<not> idle_of s t)"
| "at_place s t (Woken w) = (parked s t \<and> resumes s t \<and> \<not> idle_of s t)"

definition held_ok :: "sched \<Rightarrow> (tcb \<Rightarrow> place) \<Rightarrow> bool" where
  "held_ok s pl \<longleftrightarrow> (\<forall>w u. count_list (stacks s w) (Sched u) = (if pl u = Woken w then 1 else 0) \<and>
     count_list (stacks s w) (Del u) = (if pl u = Dying w then 1 else 0))"

text \<open>The calls in which \<^verbatim>\<open>stop\<close> blocks: the only ones of an idle thread, which runs with interrupts on.\<close>

definition blk :: "bool \<Rightarrow> action \<Rightarrow> bool \<Rightarrow> frame list \<Rightarrow> bool" where
  "blk idle a i r \<longleftrightarrow> good r \<and> r \<noteq> [] \<and> (a = AStop \<longleftrightarrow> stops r) \<and>
     (idle \<longrightarrow> a = AStop \<and> i \<and> r = [StopCheck])"

text \<open>What holds on a core \<open>c\<close> whose thread \<open>t\<close> is at a point; \<open>i\<close> is the interrupt flag there.\<close>

fun at_point :: "sched \<Rightarrow> (tcb \<Rightarrow> place) \<Rightarrow> nat \<Rightarrow> tcb \<Rightarrow> bool \<Rightarrow> frame \<Rightarrow> frame list \<Rightarrow> bool" where
  "at_point s pl c t i (BAgain m a k me) r \<longleftrightarrow>
     k = c \<and> me = t \<and> activeThreads s c = t \<and> (\<not> idle_of s t \<longrightarrow> esp0 s c = t) \<and> no_preempt s t \<and> blk (idle_of s t) a i r \<and>
     (a = AStop \<longrightarrow> m = MustBlock)"
| "at_point s pl c t i (BNext a k me n) r \<longleftrightarrow>
     k = c \<and> me = t \<and> activeThreads s c = t \<and> (\<not> idle_of s t \<longrightarrow> esp0 s c = t) \<and> no_preempt s t \<and> blk (idle_of s t) a i r \<and> pl n = Picked c"
| "at_point s pl c t i (BMarked a k me n) r \<longleftrightarrow>
     k = c \<and> me = t \<and> activeThreads s c = t \<and> (\<not> idle_of s t \<longrightarrow> esp0 s c = t) \<and> no_preempt s t \<and> blk (idle_of s t) a i r \<and> pl n = Picked c \<and> no_preempt s n"
| "at_point s pl c t i (BActive a k me n) r \<longleftrightarrow>
     k = c \<and> me = t \<and> activeThreads s c = n \<and> blk (idle_of s t) a i r \<and> pl n = Picked c \<and> no_preempt s n"
| "at_point s pl c t i (SPush a me n) r \<longleftrightarrow>
     me = t \<and> activeThreads s c = n \<and> esp0 s c = n \<and> blk (idle_of s t) a i r \<and> pl n = Picked c \<and> no_preempt s n"
| "at_point s pl c t i (SCli f a me n) r \<longleftrightarrow>
     me = t \<and> activeThreads s c = n \<and> esp0 s c = n \<and> blk (idle_of s t) a f r \<and> pl n = Picked c \<and> no_preempt s n \<and> save_esp s t = t"
| "at_point s pl c t i (SClear f a me n) r \<longleftrightarrow>
     me = t \<and> activeThreads s c = n \<and> esp0 s c = n \<and> blk (idle_of s t) a f r \<and> pl n = Picked c \<and> \<not> i \<and> save_esp s t = t"
| "at_point s pl c t i (SClearN f a me n) r \<longleftrightarrow>
     me = t \<and> activeThreads s c = n \<and> esp0 s c = n \<and> blk (idle_of s t) a f r \<and> pl n = Picked c \<and> \<not> i \<and> save_esp s t = t"
| "at_point s pl c t i (SLoad f a me n) r \<longleftrightarrow>
     me = t \<and> activeThreads s c = n \<and> esp0 s c = n \<and> blk (idle_of s t) a f r \<and> pl n = Picked c \<and> \<not> i \<and> save_esp s t = t"
| "at_point s pl c t i (SParked f) r \<longleftrightarrow>
     activeThreads s c = t \<and> esp0 s c = t \<and> \<not> i \<and> good r \<and> r \<noteq> [] \<and> (idle_of s t \<longrightarrow> f \<and> r = [StopCheck]) \<and> (idle_of s t \<or> \<not> stops r)"
| "at_point s pl c t i Apit r \<longleftrightarrow> False"
| "at_point s pl c t i f r \<longleftrightarrow>
     good (f # r) \<and> activeThreads s c = t \<and> (f = StopCheck \<longrightarrow> idle_of s t) \<and> (\<not> idle_of s t \<longrightarrow> esp0 s c = t) \<and>
     (idle_of s t \<longrightarrow> i \<and> (r = [] \<and> f \<in> {StopLoop, StopCheck} \<or> r = [StopCheck] \<and> f = BProtect MustBlock AStop))"

fun running :: "sched \<Rightarrow> (tcb \<Rightarrow> place) \<Rightarrow> nat \<Rightarrow> tcb \<Rightarrow> bool \<Rightarrow> frame list \<Rightarrow> bool" where
  "running s pl c t i [] \<longleftrightarrow> False"
| "running s pl c t i [f] \<longleftrightarrow> at_point s pl c t i f []"
| "running s pl c t i (f # g # r) \<longleftrightarrow> (if f = Apit then \<not> i \<and> at_point s pl c t True g r else at_point s pl c t i f (g # r))"

definition cpu_ok :: "sched \<Rightarrow> (tcb \<Rightarrow> place) \<Rightarrow> nat \<Rightarrow> bool" where
  "cpu_ok s pl c \<longleftrightarrow>
     (let k = cpus s c; t = esp k
      in pl t = Core c \<and> cr3 k = save_cr3 s t \<and>
         (case pend k of
            None \<Rightarrow> running s pl c t (ie k) (stacks s t)
          | Some (a, me) \<Rightarrow>
              pl me = Leaving c \<and> \<not> ie k \<and> activeThreads s c = t \<and> esp0 s c = t \<and> parked_stack s t \<and> resumes s t \<and>
              (a = AStop \<longrightarrow> nohold (stacks s me)) \<and> (a \<noteq> AStop \<longrightarrow> resumes s me) \<and> (idle_of s me \<longrightarrow> a = AStop)))"

definition idles_ok :: "sched \<Rightarrow> bool" where
  "idles_ok s \<longleftrightarrow> inj_on (idleThreads s) {..<totalProcs s} \<and> (\<forall>c < totalProcs s. idle_of s (idleThreads s c))"

definition body_ok :: "sched \<Rightarrow> (tcb \<Rightarrow> place) \<Rightarrow> bool" where
  "body_ok s pl \<longleftrightarrow> (\<forall>c < totalProcs s. cpu_ok s pl c) \<and> (\<forall>t. at_place s t (pl t)) \<and> held_ok s pl \<and> idles_ok s"

text \<open>The queues hold exactly the threads whose place says so.\<close>

definition queues_ok :: "threads \<Rightarrow> (nat \<Rightarrow> queue) \<Rightarrow> (tcb \<Rightarrow> place) \<Rightarrow> bool" where
  "queues_ok th wq pl \<longleftrightarrow> (\<exists>rs zs ws.
     q_holds (tlinks th, readyQ th) rs \<and> q_holds (tlinks th, zombies th) zs \<and> (\<forall>n. q_holds (tlinks th, wq n) (ws n)) \<and>
     (\<forall>t. t \<in> set rs \<longleftrightarrow> pl t = Ready) \<and> (\<forall>t. t \<in> set zs \<longleftrightarrow> pl t = Zombie) \<and> (\<forall>n t. t \<in> set (ws n) \<longleftrightarrow> pl t = Waiting n))"

definition sched_inv :: "sched \<Rightarrow> (tcb \<Rightarrow> place) \<Rightarrow> bool" where
  "sched_inv s pl \<longleftrightarrow> body_ok s pl \<and> queues_ok (ths s) (waitQ s) pl"

section \<open>What the queue operations do to the invariant\<close>

definition queued :: "place \<Rightarrow> bool" where
  "queued p \<longleftrightarrow> p = Ready \<or> p = Zombie \<or> (\<exists>n. p = Waiting n)"

lemma queued_simps [simp]:
  "\<not> queued Nowhere" "queued Ready" "queued Zombie" "queued (Waiting n)" "\<not> queued (Woken w)" "\<not> queued (Dying w)"
  "\<not> queued (Core c)" "\<not> queued (Picked c)" "\<not> queued (Leaving c)" "\<not> queued Rest"
  by (simp_all add: queued_def)

lemma queues_ok_move:
  assumes "queues_ok th wq pl" "\<not> queued (pl t)" "\<not> queued p"
  shows "queues_ok th wq (pl(t := p))"
proof -
  have "(if x = t then p else pl x) = q \<longleftrightarrow> pl x = q" if "queued q" for x q
    using assms(2,3) that by auto
  then show ?thesis using assms(1) by (simp add: queues_ok_def)
qed

lemma queues_okI:
  assumes "q_holds (tlinks th, readyQ th) rs" "q_holds (tlinks th, zombies th) zs" "\<And>n. q_holds (tlinks th, wq n) (ws n)"
    "\<And>t. t \<in> set rs \<longleftrightarrow> pl t = Ready" "\<And>t. t \<in> set zs \<longleftrightarrow> pl t = Zombie" "\<And>n t. t \<in> set (ws n) \<longleftrightarrow> pl t = Waiting n"
  shows "queues_ok th wq pl"
  using assms unfolding queues_ok_def by blast

lemma queues_okE:
  assumes "queues_ok th wq pl"
  obtains rs zs ws where "q_holds (tlinks th, readyQ th) rs" "q_holds (tlinks th, zombies th) zs" "\<And>n. q_holds (tlinks th, wq n) (ws n)"
    "\<And>t. t \<in> set rs \<longleftrightarrow> pl t = Ready" "\<And>t. t \<in> set zs \<longleftrightarrow> pl t = Zombie" "\<And>n t. t \<in> set (ws n) \<longleftrightarrow> pl t = Waiting n"
  using assms unfolding queues_ok_def by blast

lemma q_add_to:
  assumes "q_holds (l, q) xs" "t \<noteq> 0" "t \<notin> set xs" "q_add t (l, q) = (l', q')"
  shows "q_holds (l', q') (xs @ [t])"
    "q_holds (l, q2) ys \<Longrightarrow> set xs \<inter> set ys = {} \<Longrightarrow> t \<notin> set ys \<Longrightarrow> q_holds (l', q2) ys"
  using q_add_holds [of "(l, q)" xs t] q_add_frame [of l q xs q2 ys t] assms by simp_all

lemma queues_schedule:
  assumes Q: "queues_ok (ths s) (waitQ s) pl" and t: "\<not> queued (pl t)" "t \<noteq> 0" "\<not> idle_of s t"
  shows "queues_ok (ths (s_schedule t s)) (waitQ s) (pl(t := Ready))"
proof -
  obtain rs zs ws where H: "q_holds (tlinks (ths s), readyQ (ths s)) rs" "q_holds (tlinks (ths s), zombies (ths s)) zs"
    "\<And>n. q_holds (tlinks (ths s), waitQ s n) (ws n)"
    and P: "\<And>t. t \<in> set rs \<longleftrightarrow> pl t = Ready" "\<And>t. t \<in> set zs \<longleftrightarrow> pl t = Zombie" "\<And>n t. t \<in> set (ws n) \<longleftrightarrow> pl t = Waiting n"
    using Q by (elim queues_okE) blast
  obtain l q where a: "q_add t (tlinks (ths s), readyQ (ths s)) = (l, q)" by (cases "q_add t (tlinks (ths s), readyQ (ths s))")
  have n: "t \<notin> set rs" "t \<notin> set zs" "\<And>n. t \<notin> set (ws n)" using t(1) by (auto simp: P)
  note A = q_add_to [OF H(1) t(2) n(1) a]
  have d: "set rs \<inter> set zs = {}" "\<And>n. set rs \<inter> set (ws n) = {}" by (auto simp: P)
  have e: "ths (s_schedule t s) = (ths s)\<lparr>tlinks := l, readyQ := q\<rparr>"
    using a t(3) by (simp add: s_schedule_def schedule_def)
  show ?thesis
    by (rule queues_okI [where rs = "rs @ [t]" and zs = zs and ws = ws])
      (use A(1) A(2) [OF H(2) d(1) n(2)] A(2) [OF H(3) d(2) n(3)] n in \<open>auto simp: e P\<close>)
qed

lemma queues_zombie_add:
  assumes Q: "queues_ok (ths s) (waitQ s) pl" and t: "\<not> queued (pl t)" "t \<noteq> 0"
  shows "queues_ok (ths (s_zombie_add t s)) (waitQ (s_zombie_add t s)) (pl(t := Zombie))"
proof -
  obtain rs zs ws where H: "q_holds (tlinks (ths s), readyQ (ths s)) rs" "q_holds (tlinks (ths s), zombies (ths s)) zs"
    "\<And>n. q_holds (tlinks (ths s), waitQ s n) (ws n)"
    and P: "\<And>t. t \<in> set rs \<longleftrightarrow> pl t = Ready" "\<And>t. t \<in> set zs \<longleftrightarrow> pl t = Zombie" "\<And>n t. t \<in> set (ws n) \<longleftrightarrow> pl t = Waiting n"
    using Q by (elim queues_okE) blast
  obtain l q where a: "q_add t (tlinks (ths s), zombies (ths s)) = (l, q)" by (cases "q_add t (tlinks (ths s), zombies (ths s))")
  have n: "t \<notin> set rs" "t \<notin> set zs" "\<And>n. t \<notin> set (ws n)" using t(1) by (auto simp: P)
  note A = q_add_to [OF H(2) t(2) n(2) a]
  have d: "set zs \<inter> set rs = {}" "\<And>n. set zs \<inter> set (ws n) = {}" by (auto simp: P)
  have e: "ths (s_zombie_add t s) = (ths s)\<lparr>tlinks := l, zombies := q\<rparr>" "waitQ (s_zombie_add t s) = waitQ s"
    using a by (simp_all add: s_zombie_add_def)
  show ?thesis
    by (rule queues_okI [where rs = rs and zs = "zs @ [t]" and ws = ws])
      (use A(1) A(2) [OF H(1) d(1) n(1)] A(2) [OF H(3) d(2) n(3)] n in \<open>auto simp: e P\<close>)
qed

lemma queues_wait_add:
  assumes Q: "queues_ok (ths s) (waitQ s) pl" and t: "\<not> queued (pl t)" "t \<noteq> 0"
  shows "queues_ok (ths (s_wait_add k t s)) (waitQ (s_wait_add k t s)) (pl(t := Waiting k))"
proof -
  obtain rs zs ws where H: "q_holds (tlinks (ths s), readyQ (ths s)) rs" "q_holds (tlinks (ths s), zombies (ths s)) zs"
    "\<And>n. q_holds (tlinks (ths s), waitQ s n) (ws n)"
    and P: "\<And>t. t \<in> set rs \<longleftrightarrow> pl t = Ready" "\<And>t. t \<in> set zs \<longleftrightarrow> pl t = Zombie" "\<And>n t. t \<in> set (ws n) \<longleftrightarrow> pl t = Waiting n"
    using Q by (elim queues_okE) blast
  obtain l q where a: "q_add t (tlinks (ths s), waitQ s k) = (l, q)" by (cases "q_add t (tlinks (ths s), waitQ s k)")
  have n: "t \<notin> set rs" "t \<notin> set zs" "\<And>n. t \<notin> set (ws n)" using t(1) by (auto simp: P)
  note A = q_add_to [OF H(3) t(2) n(3) a]
  have d: "set (ws k) \<inter> set rs = {}" "set (ws k) \<inter> set zs = {}" "\<And>n. n \<noteq> k \<Longrightarrow> set (ws k) \<inter> set (ws n) = {}" by (auto simp: P)
  have e: "ths (s_wait_add k t s) = (ths s)\<lparr>tlinks := l\<rparr>" "waitQ (s_wait_add k t s) = (waitQ s)(k := q)"
    using a by (simp_all add: s_wait_add_def)
  show ?thesis
    by (rule queues_okI [where rs = rs and zs = zs and ws = "ws(k := ws k @ [t])"])
      (use A(1) A(2) [OF H(1) d(1) n(1)] A(2) [OF H(2) d(2) n(2)] A(2) [OF H(3) d(3) n(3)] n in \<open>auto simp: e P\<close>)
qed

lemma q_take_from:
  assumes "q_holds (l, q) xs" "q_remove (l, q) = (r, l', q')"
  shows "l' = l" "r = (case xs of [] \<Rightarrow> None | x # _ \<Rightarrow> Some x)" "q_holds (l, q') (tl xs)"
proof -
  show l: "l' = l" using q_remove_frame [of l q] assms(2) by simp
  show "r = (case xs of [] \<Rightarrow> None | x # _ \<Rightarrow> Some x)" and "q_holds (l, q') (tl xs)"
    using q_remove_empty [of "(l, q)"] q_remove_holds [of "(l, q)" "hd xs" "tl xs"] assms l
    by (cases xs; simp)+
qed

lemma taken_from:
  assumes "distinct xs" "\<And>t. t \<in> set xs \<longleftrightarrow> pl t = Q" "xs = n # ys"
  shows "pl n = Q" "t \<in> set ys \<longleftrightarrow> t \<noteq> n \<and> pl t = Q"
proof -
  show "pl n = Q" using assms(2) [of n] assms(3) by simp
  show "t \<in> set ys \<longleftrightarrow> t \<noteq> n \<and> pl t = Q" using assms(1) assms(2) [of t] assms(3) by auto
qed

lemma queues_ready_remove:
  assumes Q: "queues_ok (ths s) wq pl" and r: "ready_remove (ths s) = (Some n, th)"
  shows "pl n = Ready" "\<not> queued p \<Longrightarrow> queues_ok th wq (pl(n := p))" "isIdle th = idle_of s"
proof -
  obtain rs zs ws where H: "q_holds (tlinks (ths s), readyQ (ths s)) rs" "q_holds (tlinks (ths s), zombies (ths s)) zs"
    "\<And>n. q_holds (tlinks (ths s), wq n) (ws n)"
    and P: "\<And>t. t \<in> set rs \<longleftrightarrow> pl t = Ready" "\<And>t. t \<in> set zs \<longleftrightarrow> pl t = Zombie" "\<And>n t. t \<in> set (ws n) \<longleftrightarrow> pl t = Waiting n"
    using Q by (elim queues_okE) blast
  obtain l q where a: "q_remove (tlinks (ths s), readyQ (ths s)) = (Some n, l, q)" and th: "th = (ths s)\<lparr>tlinks := l, readyQ := q\<rparr>"
    using r by (auto simp: ready_remove_def split: prod.splits)
  note T = q_take_from [OF H(1) a]
  obtain ys where rs: "rs = n # ys" using T(2) by (cases rs) auto
  have d: "distinct rs" using H(1) by (simp add: q_holds_def)
  note F = taken_from [OF d P(1) rs]
  show "pl n = Ready" by (rule F(1))
  show "isIdle th = idle_of s" using th by simp
  show "queues_ok th wq (pl(n := p))" if p: "\<not> queued p"
    by (rule queues_okI [where rs = ys and zs = zs and ws = ws])
      (use T H rs F p in \<open>auto simp: th P(2,3)\<close>)
qed

lemma queues_zombie_remove:
  assumes Q: "queues_ok (ths s) (waitQ s) pl" and r: "s_zombie_remove s = (Some n, s1)"
  shows "pl n = Zombie" "\<not> queued p \<Longrightarrow> queues_ok (ths s1) (waitQ s1) (pl(n := p))"
proof -
  obtain rs zs ws where H: "q_holds (tlinks (ths s), readyQ (ths s)) rs" "q_holds (tlinks (ths s), zombies (ths s)) zs"
    "\<And>n. q_holds (tlinks (ths s), waitQ s n) (ws n)"
    and P: "\<And>t. t \<in> set rs \<longleftrightarrow> pl t = Ready" "\<And>t. t \<in> set zs \<longleftrightarrow> pl t = Zombie" "\<And>n t. t \<in> set (ws n) \<longleftrightarrow> pl t = Waiting n"
    using Q by (elim queues_okE) blast
  obtain l q where a: "q_remove (tlinks (ths s), zombies (ths s)) = (Some n, l, q)" and e: "s1 = s\<lparr>ths := (ths s)\<lparr>tlinks := l, zombies := q\<rparr>\<rparr>"
    using r by (auto simp: s_zombie_remove_def split: prod.splits)
  note T = q_take_from [OF H(2) a]
  obtain ys where zs: "zs = n # ys" using T(2) by (cases zs) auto
  have d: "distinct zs" using H(2) by (simp add: q_holds_def)
  note F = taken_from [OF d P(2) zs]
  show "pl n = Zombie" by (rule F(1))
  show "queues_ok (ths s1) (waitQ s1) (pl(n := p))" if p: "\<not> queued p"
    by (rule queues_okI [where rs = rs and zs = ys and ws = ws])
      (use T H zs F p in \<open>auto simp: e P(1,3)\<close>)
qed

lemma queues_wait_remove:
  assumes Q: "queues_ok (ths s) (waitQ s) pl" and r: "s_wait_remove k s = (Some n, s1)"
  shows "pl n = Waiting k" "\<not> queued p \<Longrightarrow> queues_ok (ths s1) (waitQ s1) (pl(n := p))"
proof -
  obtain rs zs ws where H: "q_holds (tlinks (ths s), readyQ (ths s)) rs" "q_holds (tlinks (ths s), zombies (ths s)) zs"
    "\<And>n. q_holds (tlinks (ths s), waitQ s n) (ws n)"
    and P: "\<And>t. t \<in> set rs \<longleftrightarrow> pl t = Ready" "\<And>t. t \<in> set zs \<longleftrightarrow> pl t = Zombie" "\<And>n t. t \<in> set (ws n) \<longleftrightarrow> pl t = Waiting n"
    using Q by (elim queues_okE) blast
  obtain l q where a: "q_remove (tlinks (ths s), waitQ s k) = (Some n, l, q)"
    and e: "s1 = s\<lparr>ths := (ths s)\<lparr>tlinks := l\<rparr>, waitQ := (waitQ s)(k := q)\<rparr>"
    using r by (auto simp: s_wait_remove_def split: prod.splits)
  note T = q_take_from [OF H(3) a]
  obtain ys where w: "ws k = n # ys" using T(2) by (cases "ws k") auto
  have d: "distinct (ws k)" using H(3) [of k] by (simp add: q_holds_def)
  note F = taken_from [OF d P(3) w]
  show "pl n = Waiting k" by (rule F(1))
  show "queues_ok (ths s1) (waitQ s1) (pl(n := p))" if p: "\<not> queued p"
    by (rule queues_okI [where rs = rs and zs = zs and ws = "ws(k := ys)"])
      (use T H w F p in \<open>auto simp: e P\<close>)
qed

text \<open>An empty queue is left as it is.\<close>

lemma nothing_removed:
  "s_zombie_remove s = (None, s1) \<Longrightarrow> s1 = s" "s_wait_remove k s = (None, s1) \<Longrightarrow> s1 = s"
  by (auto simp: s_zombie_remove_def s_wait_remove_def q_remove_def Let_def fun_upd_idem split: if_splits prod.splits)

text \<open>The queue operations change nothing else.\<close>

lemma queue_frame [simp]:
  "idle_of (s_schedule t s) = idle_of s" "live (s_schedule t s) = live s" "stacks (s_schedule t s) = stacks s"
  "no_preempt (s_schedule t s) = no_preempt s" "save_esp (s_schedule t s) = save_esp s" "save_cr3 (s_schedule t s) = save_cr3 s"
  "cpus (s_schedule t s) = cpus s" "activeThreads (s_schedule t s) = activeThreads s" "idleThreads (s_schedule t s) = idleThreads s"
  "esp0 (s_schedule t s) = esp0 s" "totalProcs (s_schedule t s) = totalProcs s" "waitQ (s_schedule t s) = waitQ s"
  by (simp_all add: s_schedule_def schedule_def split: prod.splits)

text \<open>States that differ in the queues only.\<close>

definition same_but_queues :: "sched \<Rightarrow> sched \<Rightarrow> bool" where
  "same_but_queues s s1 \<longleftrightarrow> (\<exists>th wq. s1 = s\<lparr>ths := th, waitQ := wq\<rparr> \<and> isIdle th = idle_of s)"

lemma same_but_queuesI [intro]:
  "same_but_queues s (s_schedule t s)" "same_but_queues s (s_zombie_add t s)" "same_but_queues s (s_wait_add k t s)"
  "s_zombie_remove s = (r, s1) \<Longrightarrow> same_but_queues s s1" "s_wait_remove k s = (r, s1) \<Longrightarrow> same_but_queues s s1"
  "isIdle th = idle_of s \<Longrightarrow> same_but_queues s (s\<lparr>ths := th\<rparr>)" "same_but_queues s s"
proof -
  show "same_but_queues s (s_schedule t s)"
    unfolding same_but_queues_def by (rule exI [of _ "ths (s_schedule t s)"], rule exI [of _ "waitQ s"]) (simp add: s_schedule_def schedule_def split: prod.splits)
  show "same_but_queues s (s_zombie_add t s)"
    unfolding same_but_queues_def by (rule exI [of _ "ths (s_zombie_add t s)"], rule exI [of _ "waitQ s"]) (simp add: s_zombie_add_def split: prod.splits)
  show "same_but_queues s (s_wait_add k t s)"
    unfolding same_but_queues_def by (rule exI [of _ "ths (s_wait_add k t s)"], rule exI [of _ "waitQ (s_wait_add k t s)"]) (simp add: s_wait_add_def split: prod.splits)
  show "same_but_queues s s1" if "s_zombie_remove s = (r, s1)"
    unfolding same_but_queues_def by (rule exI [of _ "ths s1"], rule exI [of _ "waitQ s"]) (use that in \<open>auto simp: s_zombie_remove_def split: prod.splits\<close>)
  show "same_but_queues s s1" if "s_wait_remove k s = (r, s1)"
    unfolding same_but_queues_def by (rule exI [of _ "ths s1"], rule exI [of _ "waitQ s1"]) (use that in \<open>auto simp: s_wait_remove_def split: prod.splits\<close>)
  show "same_but_queues s (s\<lparr>ths := th\<rparr>)" if "isIdle th = idle_of s"
    unfolding same_but_queues_def by (rule exI [of _ th], rule exI [of _ "waitQ s"]) (use that in simp)
  show "same_but_queues s s"
    unfolding same_but_queues_def by (rule exI [of _ "ths s"], rule exI [of _ "waitQ s"]) simp
qed

section \<open>A step of one core\<close>

text \<open>
  A step on core \<open>c\<close> changes only threads of a set \<open>M\<close> that no other core runs, has picked or is leaving.
\<close>

definition step_frame :: "nat \<Rightarrow> tcb set \<Rightarrow> sched \<Rightarrow> (tcb \<Rightarrow> place) \<Rightarrow> sched \<Rightarrow> (tcb \<Rightarrow> place) \<Rightarrow> bool" where
  "step_frame c M s pl s' pl' \<longleftrightarrow>
     totalProcs s' = totalProcs s \<and> idleThreads s' = idleThreads s \<and> idle_of s' = idle_of s \<and>
     (\<forall>d. d \<noteq> c \<longrightarrow> cpus s' d = cpus s d \<and> activeThreads s' d = activeThreads s d \<and> esp0 s' d = esp0 s d) \<and>
     (\<forall>x. x \<notin> M \<longrightarrow> stacks s' x = stacks s x \<and> no_preempt s' x = no_preempt s x \<and> save_esp s' x = save_esp s x \<and>
        save_cr3 s' x = save_cr3 s x \<and> live s' x = live s x \<and> pl' x = pl x) \<and>
     (\<forall>x \<in> M. \<forall>d. d \<noteq> c \<longrightarrow> pl x \<noteq> Core d \<and> pl x \<noteq> Picked d \<and> pl x \<noteq> Leaving d)"

lemma running_mono:
  assumes "running s pl c t i fs" "\<And>i f r. at_point s pl c t i f r \<Longrightarrow> at_point s' pl' c t i f r"
  shows "running s' pl' c t i fs"
proof (cases fs)
  case (Cons f r)
  then show ?thesis using assms by (cases r) (simp_all split: if_splits)
qed (use assms(1) in simp)

lemma cpu_ok_other:
  assumes F: "step_frame c M s pl s' pl'" and d: "d \<noteq> c" and ok: "cpu_ok s pl d"
  shows "cpu_ok s' pl' d"
proof -
  have same: "x \<notin> M \<and> stacks s' x = stacks s x \<and> no_preempt s' x = no_preempt s x \<and> save_esp s' x = save_esp s x \<and>
      save_cr3 s' x = save_cr3 s x \<and> live s' x = live s x \<and> pl' x = pl x"
    if "pl x = Core d \<or> pl x = Picked d \<or> pl x = Leaving d" for x
    using F d that unfolding step_frame_def by blast
  have st: "cpus s' d = cpus s d" "activeThreads s' d = activeThreads s d" "esp0 s' d = esp0 s d" "idle_of s' = idle_of s"
    using F d by (auto simp: step_frame_def)
  let ?t = "esp (cpus s d)"
  have t: "pl ?t = Core d" using ok by (simp add: cpu_ok_def Let_def)
  note S = same [of ?t] t
  have P: "at_point s' pl' d ?t i f r" if "at_point s pl d ?t i f r" for i f r
    using that st S same by (cases f) (auto simp: blk_def)
  have R: "running s' pl' d ?t i fs" if "running s pl d ?t i fs" for i fs
    using that P by (rule running_mono)
  show ?thesis
  proof (cases "pend (cpus s d)")
    case None
    then show ?thesis using ok st S R by (simp add: cpu_ok_def Let_def)
  next
    case (Some p)
    then obtain a me where "pend (cpus s d) = Some (a, me)" by (cases p) auto
    then show ?thesis using ok st S same [of me] by (simp add: cpu_ok_def Let_def parked_stack_def resumes_def)
  qed
qed

lemma at_place_other:
  assumes F: "step_frame c M s pl s' pl'" and x: "x \<notin> M" and ok: "at_place s x (pl x)"
    and C: "\<And>d. d < totalProcs s \<Longrightarrow> cpu_ok s pl d"
    and here: "pl x = Core c \<Longrightarrow> esp (cpus s' c) = x" "pl x = Picked c \<Longrightarrow> picks s' c = Some x" "pl x = Leaving c \<Longrightarrow> leaves s' c = Some x"
  shows "at_place s' x (pl' x)"
proof -
  have S: "stacks s' x = stacks s x" "no_preempt s' x = no_preempt s x" "save_esp s' x = save_esp s x" "live s' x = live s x"
    "pl' x = pl x" "totalProcs s' = totalProcs s" "idleThreads s' = idleThreads s" "idle_of s' = idle_of s"
    using F x by (auto simp: step_frame_def)
  have st: "cpus s' d = cpus s d" if "d \<noteq> c" for d using F that by (auto simp: step_frame_def)
  have pk: "picks s' d = picks s d" "leaves s' d = leaves s d" if "d \<noteq> c" "d < totalProcs s" for d
  proof -
    have "pl (esp (cpus s d)) = Core d" using C [OF that(2)] by (simp add: cpu_ok_def Let_def)
    then have "esp (cpus s d) \<notin> M" using F that(1) by (auto simp: step_frame_def)
    then have "stacks s' (esp (cpus s d)) = stacks s (esp (cpus s d))" using F by (auto simp: step_frame_def)
    then show "picks s' d = picks s d" "leaves s' d = leaves s d" using st [OF that(1)] by (simp_all add: picks_def leaves_def)
  qed
  have pa: "parked s' x = parked s x" "resumes s' x = resumes s x" using S by (simp_all add: parked_def parked_stack_def resumes_def)
  show ?thesis
  proof (cases "pl x")
    case (Core d)
    then show ?thesis using ok S here(1) st by (cases "d = c") auto
  next
    case (Picked d)
    then show ?thesis using ok S here(2) pk pa by (cases "d = c") auto
  next
    case (Leaving d)
    then show ?thesis using ok S here(3) pk pa by (cases "d = c") auto
  qed (use ok S pa in auto)
qed

lemma body_ok_step:
  assumes B: "body_ok s pl" and c: "c < totalProcs s" and F: "step_frame c M s pl s' pl'"
    and core: "cpu_ok s' pl' c" and M: "\<And>x. x \<in> M \<Longrightarrow> at_place s' x (pl' x)" and held: "held_ok s' pl'"
    and here: "\<And>x. x \<notin> M \<Longrightarrow> pl x = Core c \<Longrightarrow> esp (cpus s' c) = x" "\<And>x. x \<notin> M \<Longrightarrow> pl x = Picked c \<Longrightarrow> picks s' c = Some x"
      "\<And>x. x \<notin> M \<Longrightarrow> pl x = Leaving c \<Longrightarrow> leaves s' c = Some x"
  shows "body_ok s' pl'"
proof -
  have C: "cpu_ok s pl d" if "d < totalProcs s" for d using B that by (simp add: body_ok_def)
  have n: "totalProcs s' = totalProcs s" using F by (simp add: step_frame_def)
  have "cpu_ok s' pl' d" if "d < totalProcs s" for d
    using core cpu_ok_other [OF F _ C [OF that]] by (cases "d = c") auto
  moreover have "at_place s' x (pl' x)" for x
    using M at_place_other [OF F _ _ C here, of x] B by (cases "x \<in> M") (auto simp: body_ok_def)
  moreover have "idles_ok s'" using B F by (simp add: body_ok_def idles_ok_def step_frame_def)
  ultimately show ?thesis using held n by (simp add: body_ok_def)
qed

text \<open>A step that changes the running thread \<open>t\<close>, the threads of \<open>U\<close>, and the flag \<^verbatim>\<open>no_preempt\<close> of a picked one.\<close>

definition own_change :: "nat \<Rightarrow> tcb \<Rightarrow> tcb set \<Rightarrow> sched \<Rightarrow> (tcb \<Rightarrow> place) \<Rightarrow> sched \<Rightarrow> (tcb \<Rightarrow> place) \<Rightarrow> bool" where
  "own_change c t U s pl s' pl' \<longleftrightarrow>
     totalProcs s' = totalProcs s \<and> idleThreads s' = idleThreads s \<and> idle_of s' = idle_of s \<and>
     (\<forall>d. d \<noteq> c \<longrightarrow> cpus s' d = cpus s d \<and> activeThreads s' d = activeThreads s d \<and> esp0 s' d = esp0 s d) \<and>
     (\<forall>x. x \<notin> U \<longrightarrow> save_cr3 s' x = save_cr3 s x \<and> live s' x = live s x \<and> pl' x = pl x \<and>
        (x \<noteq> t \<longrightarrow> stacks s' x = stacks s x \<and> save_esp s' x = save_esp s x) \<and>
        (x \<noteq> t \<and> pl x \<noteq> Picked c \<longrightarrow> no_preempt s' x = no_preempt s x))"

lemma own_step:
  assumes B: "body_ok s pl" and c: "c < totalProcs s" and t: "t = esp (cpus s c)" and p: "pend (cpus s c) = None"
    and ch: "own_change c t U s pl s' pl'" and U: "\<And>u d. u \<in> U \<Longrightarrow> pl u \<noteq> Core d \<and> pl u \<noteq> Picked d \<and> pl u \<noteq> Leaving d"
    and at: "\<And>u. u \<in> U \<Longrightarrow> at_place s' u (pl' u)" and picks: "pick (strip (stacks s t)) = None \<or> picks s' c = picks s c"
    and cpu: "esp (cpus s' c) = t" "pend (cpus s' c) = None" "cr3 (cpus s' c) = save_cr3 s t"
    and run: "running s' pl' c t (ie (cpus s' c)) (stacks s' t)" and held: "held_ok s' pl'"
  shows "body_ok s' pl'"
proof -
  let ?M = "{t} \<union> U \<union> {x. pl x = Picked c}"
  have core: "cpu_ok s pl c" using B c by (simp add: body_ok_def)
  have plt: "pl t = Core c" using core t by (simp add: cpu_ok_def Let_def)
  have tU: "t \<notin> U" using U [of t c] plt by auto
  have at0: "at_place s x (pl x)" for x using B by (simp add: body_ok_def)
  have n: "totalProcs s' = totalProcs s" "idleThreads s' = idleThreads s" "idle_of s' = idle_of s"
    using ch by (simp_all add: own_change_def)
  have F: "step_frame c ?M s pl s' pl'" using ch U plt by (auto simp: own_change_def step_frame_def)
  have pl't: "pl' t = Core c" "live s' t = live s t" using ch tU plt by (auto simp: own_change_def)
  have P: "picks s' c = Some x" if "pl x = Picked c" for x
    using at0 [of x] that picks p t by (auto simp: picks_def)
  have "save_cr3 s' t = save_cr3 s t" using ch tU by (simp add: own_change_def)
  then have core': "cpu_ok s' pl' c" using run cpu pl't by (simp add: cpu_ok_def Let_def)
  have there: "at_place s' x (pl' x)" if x: "x \<in> ?M" for x
  proof -
    consider "x \<in> U" | "x = t" | "x \<notin> U" "x \<noteq> t" "pl x = Picked c" using x by blast
    then show ?thesis
    proof cases
      case 2
      then show ?thesis using at0 [of t] plt pl't cpu n by simp
    next
      case 3
      then have "pl' x = Picked c" "stacks s' x = stacks s x" "save_esp s' x = save_esp s x" "live s' x = live s x"
        using ch by (auto simp: own_change_def)
      then show ?thesis using at0 [of x] 3 n P [of x] by (simp add: parked_def parked_stack_def resumes_def)
    qed (rule at)
  qed
  have "x = t" if "pl x = Core c" for x using at0 [of x] that t by simp
  moreover have "pl x \<noteq> Leaving c" for x using at0 [of x] p by (auto simp: leaves_def)
  ultimately show ?thesis
    by (intro body_ok_step [OF B c F core' there held]) (use P in auto)
qed

lemma held_same:
  assumes "held_ok s pl" "stacks s' = (stacks s)(t := fs)"
    "\<And>u. count_list fs (Sched u) = count_list (stacks s t) (Sched u) \<and> count_list fs (Del u) = count_list (stacks s t) (Del u)"
  shows "held_ok s' pl"
  using assms by (auto simp: held_ok_def)

lemma at_point_calm:
  "calm f \<Longrightarrow> at_point s pl c t i f r \<longleftrightarrow>
     good (f # r) \<and> activeThreads s c = t \<and> (f = StopCheck \<longrightarrow> idle_of s t) \<and> (\<not> idle_of s t \<longrightarrow> esp0 s c = t) \<and>
     (idle_of s t \<longrightarrow> i \<and> (r = [] \<and> f \<in> {StopLoop, StopCheck} \<or> r = [StopCheck] \<and> f = BProtect MustBlock AStop))"
  by (cases f) auto

lemma running_Cons: "f \<noteq> Apit \<Longrightarrow> running s pl c t i (f # r) = at_point s pl c t i f r"
  by (cases r) auto

lemma running_good:
  "good fs \<Longrightarrow> fs \<noteq> [] \<Longrightarrow> \<not> stops fs \<Longrightarrow> activeThreads s c = t \<Longrightarrow> esp0 s c = t \<Longrightarrow> \<not> idle_of s t \<Longrightarrow> running s pl c t i fs"
proof (cases fs)
  case (Cons f r)
  assume g: "good fs" "activeThreads s c = t" "esp0 s c = t" "\<not> idle_of s t" and n: "\<not> stops fs"
  then have "calm f" "f \<noteq> Apit" using Cons by auto
  then show ?thesis using g n Cons by (simp add: running_Cons at_point_calm)
qed simp

lemma strip_good [simp]: "good fs \<Longrightarrow> strip fs = fs"
  by (cases fs rule: strip.cases) auto

lemma pick_calm [simp]: "calm f \<Longrightarrow> pick (f # r) = None" "calm f \<Longrightarrow> strip (f # r) = f # r"
  by (cases f; simp)+

lemma pick_good [simp]: "good fs \<Longrightarrow> pick fs = None"
  by (cases fs) auto

text \<open>The usual step: the innermost call moves on, nothing is picked, held or released.\<close>

lemma plain_step:
  assumes B: "body_ok s pl" and c: "c < totalProcs s" and t: "t = esp (cpus s c)" and p: "pend (cpus s c) = None"
    and ch: "own_change c t {} s pl s' pl" and st: "stacks s' = (stacks s)(t := fs)"
    and cnt: "\<And>u. count_list fs (Sched u) = count_list (stacks s t) (Sched u) \<and> count_list fs (Del u) = count_list (stacks s t) (Del u)"
    and picks: "pick (strip (stacks s t)) = None \<or> pick (strip fs) = pick (strip (stacks s t))"
    and cpu: "esp (cpus s' c) = t" "pend (cpus s' c) = None" "cr3 (cpus s' c) = save_cr3 s t"
    and run: "running s' pl c t (ie (cpus s' c)) fs"
  shows "body_ok s' pl"
proof (rule own_step [OF B c t p ch _ _ _ cpu])
  show "held_ok s' pl" using held_same [OF _ st cnt] B by (simp add: body_ok_def)
  show "running s' pl c t (ie (cpus s' c)) (stacks s' t)" using run st by simp
  show "pick (strip (stacks s t)) = None \<or> picks s' c = picks s c" using picks st cpu p t by (auto simp: picks_def)
qed simp_all

lemmas step_simps = set_stack_def set_cpu_def set_np_def set_ie_def s_current_def own_change_def Let_def

definition at_core :: "sched \<Rightarrow> (tcb \<Rightarrow> place) \<Rightarrow> nat \<Rightarrow> tcb \<Rightarrow> frame \<Rightarrow> frame list \<Rightarrow> bool" where
  "at_core s pl c t f r \<longleftrightarrow>
     sched_inv s pl \<and> c < totalProcs s \<and> t = esp (cpus s c) \<and> pend (cpus s c) = None \<and> stacks s t = f # r"

lemma at_coreD:
  assumes "at_core s pl c t f r"
  shows "body_ok s pl" "queues_ok (ths s) (waitQ s) pl" "c < totalProcs s" "t = esp (cpus s c)" "pend (cpus s c) = None" "stacks s t = f # r"
    "pl t = Core c" "cr3 (cpus s c) = save_cr3 s t" "live s t" "t \<noteq> 0" "held_ok s pl" "f \<noteq> Apit \<Longrightarrow> at_point s pl c t (ie (cpus s c)) f r"
proof -
  have b: "body_ok s pl" "c < totalProcs s" "t = esp (cpus s c)" "pend (cpus s c) = None" "stacks s t = f # r"
    and q: "queues_ok (ths s) (waitQ s) pl"
    using assms unfolding at_core_def sched_inv_def by blast+
  from b(1-3) have core: "cpu_ok s pl c" "at_place s t (pl t)" by (simp_all add: body_ok_def)
  from core show "pl t = Core c" "cr3 (cpus s c) = save_cr3 s t" using b by (simp_all add: cpu_ok_def Let_def)
  then show "live s t" "t \<noteq> 0" using core by simp_all
  show "at_point s pl c t (ie (cpus s c)) f r" if "f \<noteq> Apit"
    using core(1) b(3-5) that by (simp add: cpu_ok_def Let_def running_Cons)
  show "held_ok s pl" using b(1) by (simp add: body_ok_def)
  show "body_ok s pl" "c < totalProcs s" "t = esp (cpus s c)" "pend (cpus s c) = None" "stacks s t = f # r"
    "queues_ok (ths s) (waitQ s) pl" by (fact b q)+
qed

lemma plain_step':
  assumes A: "at_core s pl c t f r"
    and s': "ths s' = ths s" "waitQ s' = waitQ s" "totalProcs s' = totalProcs s" "idleThreads s' = idleThreads s"
      "save_cr3 s' = save_cr3 s" "live s' = live s" "stacks s' = (stacks s)(t := fs)"
      "\<And>d. d \<noteq> c \<Longrightarrow> cpus s' d = cpus s d \<and> activeThreads s' d = activeThreads s d \<and> esp0 s' d = esp0 s d"
      "\<And>x. x \<noteq> t \<Longrightarrow> save_esp s' x = save_esp s x" "\<And>x. x \<noteq> t \<Longrightarrow> pl x \<noteq> Picked c \<Longrightarrow> no_preempt s' x = no_preempt s x"
    and cnt: "\<And>u. count_list fs (Sched u) = count_list (f # r) (Sched u) \<and> count_list fs (Del u) = count_list (f # r) (Del u)"
    and picks: "pick (strip (f # r)) = None \<or> pick (strip fs) = pick (strip (f # r))"
    and cpu: "esp (cpus s' c) = t" "pend (cpus s' c) = None" "cr3 (cpus s' c) = cr3 (cpus s c)"
    and run: "running s' pl c t (ie (cpus s' c)) fs"
  shows "sched_inv s' pl"
proof -
  note D = at_coreD [OF A]
  have "own_change c t {} s pl s' pl" using s' by (auto simp: own_change_def)
  from plain_step [OF D(1,3,4,5) this s'(7) _ _ cpu(1,2) _ run] cnt picks cpu(3) D(6,8)
  have "body_ok s' pl" by simp
  then show ?thesis using D(2) s'(1,2) by (simp add: sched_inv_def)
qed

text \<open>The points of a call that has not left its own core.\<close>

lemma own_moves:
  assumes A: "at_core s pl c t f r" and e: "exec c t f r s = Some (Inr s')" and P: "at_point s pl c t (ie (cpus s c)) f r"
  shows "f = Entry \<Longrightarrow> sched_inv s' pl" "f = EntrySti \<Longrightarrow> sched_inv s' pl" "f = EntryStop \<Longrightarrow> sched_inv s' pl"
    "f = StopLoop \<Longrightarrow> sched_inv s' pl" "f = StopCheck \<Longrightarrow> sched_inv s' pl" "f = ApitBack \<Longrightarrow> sched_inv s' pl"
proof -
  note D = at_coreD [OF A]
  note go = plain_step' [OF A]
  note E = D(4) [symmetric] D(5,6,8)
  show "sched_inv s' pl" if "f = Entry"
    by (rule go [of _ "EntrySti # r"]) (use that P E e in \<open>auto simp: step_simps running_Cons bottom_def base_def\<close>)
  show "sched_inv s' pl" if "f = EntrySti"
    by (rule go [of _ "Run # EntryStop # r"]) (use that P E e in \<open>auto simp: step_simps running_Cons bottom_def base_def nohold_def\<close>)
  show "sched_inv s' pl" if "f = EntryStop"
    by (rule go [of _ "StopLoop # r"]) (use that P E e in \<open>auto simp: step_simps running_Cons bottom_def base_def\<close>)
  show "sched_inv s' pl" if "f = StopLoop"
    by (rule go [of _ "BProtect MustBlock AStop # StopCheck # r"]) (use that P E e in \<open>auto simp: step_simps running_Cons bottom_def base_def\<close>)
  show "sched_inv s' pl" if "f = StopCheck"
    by (rule go [of _ "StopLoop # r"]) (use that P E e in \<open>auto simp: step_simps running_Cons bottom_def base_def\<close>)
  show "sched_inv s' pl" if "f = ApitBack"
    by (rule go [of _ r]) (use that P E e running_good [of r] in \<open>auto simp: step_simps bottom_def\<close>)
qed

text \<open>\<^verbatim>\<open>block\<close> and \<^verbatim>\<open>gheith_contextSwitch\<close> up to the load of the new stack pointer.\<close>

lemma block_moves:
  assumes A: "at_core s pl c t f r" and e: "exec c t f r s = Some (Inr s')" and P: "at_point s pl c t (ie (cpus s c)) f r"
  shows "f = BProtect m a \<Longrightarrow> sched_inv s' pl" "f = BNext a k me n \<Longrightarrow> sched_inv s' pl" "f = BMarked a k me n \<Longrightarrow> sched_inv s' pl"
    "f = BActive a k me n \<Longrightarrow> sched_inv s' pl" "f = SPush a me n \<Longrightarrow> sched_inv s' pl" "f = SCli b a me n \<Longrightarrow> sched_inv s' pl"
    "f = SClear b a me n \<Longrightarrow> sched_inv s' pl" "f = SClearN b a me n \<Longrightarrow> sched_inv s' pl" "f = SParked b \<Longrightarrow> sched_inv s' pl"
proof -
  note D = at_coreD [OF A]
  note go = plain_step' [OF A]
  note E = D(4) [symmetric] D(5,6)
  have n: "n \<noteq> t" if "pl n = Picked c" using that D(7) by auto
  show "sched_inv s' pl" if "f = BProtect m a"
    by (rule go [of _ "BAgain m a c t # r"]) (use that P E e block_option.nchotomy [rule_format, of m] in \<open>auto simp: step_simps running_Cons blk_def bottom_def\<close>)
  show "sched_inv s' pl" if "f = BNext a k me n"
    by (rule go [of _ "BMarked a k me n # r"]) (use that P E e n in \<open>auto simp: step_simps running_Cons split: if_splits\<close>)
  show "sched_inv s' pl" if "f = BMarked a k me n"
    by (rule go [of _ "BActive a k me n # r"]) (use that P E e n in \<open>auto simp: step_simps running_Cons split: if_splits\<close>)
  show "sched_inv s' pl" if "f = BActive a k me n"
    by (rule go [of _ "SPush a me n # r"]) (use that P E e n in \<open>auto simp: step_simps running_Cons split: if_splits\<close>)
  show "sched_inv s' pl" if "f = SPush a me n"
    by (rule go [of _ "SCli (ie (cpus s c)) a me n # r"]) (use that P E e n in \<open>auto simp: step_simps running_Cons split: if_splits\<close>)
  show "sched_inv s' pl" if "f = SCli b a me n"
    by (rule go [of _ "SClear b a me n # r"]) (use that P E e n in \<open>auto simp: step_simps running_Cons split: if_splits\<close>)
  show "sched_inv s' pl" if "f = SClear b a me n"
    by (rule go [of _ "SClearN b a me n # r"]) (use that P E e n in \<open>auto simp: step_simps running_Cons split: if_splits\<close>)
  show "sched_inv s' pl" if "f = SClearN b a me n"
    by (rule go [of _ "SLoad b a me n # r"]) (use that P E e n in \<open>auto simp: step_simps running_Cons split: if_splits\<close>)
  show "sched_inv s' pl" if f: "f = SParked b"
  proof (rule go [of _ r])
    have "running s' pl c t (ie (cpus s' c)) r"
    proof (cases "idle_of s t")
      case True
      then show ?thesis using f P e by (auto simp: step_simps running_Cons)
    next
      case False
      then show ?thesis using f P e by (intro running_good) (auto simp: step_simps)
    qed
    then show "running s' pl c t (ie (cpus s' c)) r" .
  qed (use f P E e in \<open>auto simp: step_simps\<close>)
qed

text \<open>The timer handler: it leaves the core only from a point where the thread can be left.\<close>

lemma apit_moves:
  assumes A: "at_core s pl c t Apit r" and e: "exec c t Apit r s = Some (Inr s')"
  shows "sched_inv s' pl"
proof -
  note D = at_coreD [OF A]
  have "cpu_ok s pl c" using D(1,3) by (simp add: body_ok_def)
  then have "running s pl c t (ie (cpus s c)) (Apit # r)" using D(4-6) by (simp add: cpu_ok_def Let_def)
  then obtain g r' where r: "r = g # r'" and i: "\<not> ie (cpus s c)" and P: "at_point s pl c t True g r'" by (cases r) auto
  have g: "g \<noteq> Apit" "\<forall>b. g \<noteq> SParked b" using P by auto
  let ?me = "activeThreads s c"
  show ?thesis
  proof (cases "?me = 0 \<or> idle_of s ?me \<or> no_preempt s ?me")
    case True
    then have s': "s' = set_stack t r (set_ie c True s)" using e by (simp add: Let_def)
    have "at_point s' pl c t True g r'" using P unfolding s' by (cases g) (auto simp: step_simps blk_def)
    moreover have "pick (strip (Apit # r)) = pick (strip r)" using r g by (cases g) auto
    ultimately show ?thesis
      by (intro plain_step' [OF A, of _ r]) (use r g D in \<open>simp_all add: s' step_simps running_Cons\<close>)
  next
    case False
    then have s': "s' = set_stack t (BProtect CanReturn AYield # ApitBack # r) s" using e by (simp add: Let_def)
    have cg: "calm g"
    proof (rule ccontr)
      assume "\<not> calm g"
      then have "no_preempt s ?me" using P g by (cases g) auto
      then show False using False by simp
    qed
    then have G: "good r" "?me = t" "esp0 s c = t" "\<not> idle_of s t" "g \<noteq> StopCheck" using P False r by (auto simp: at_point_calm)
    then show ?thesis
      by (intro plain_step' [OF A, of _ "BProtect CanReturn AYield # ApitBack # r"])
        (use r cg D in \<open>auto simp: s' step_simps running_Cons bottom_def base_def\<close>)
  qed
qed

lemma counts:
  assumes "at_core s pl c t f r"
  shows "count_list (f # r) (Sched x) = (if pl x = Woken t then 1 else 0)" "count_list (f # r) (Del x) = (if pl x = Dying t then 1 else 0)"
  using at_coreD(6,11) [OF assms] by (metis held_ok_def)+

end
