(* ===== verification/Sched_Flags.thy ===== *)
theory Sched_Flags
  imports Sched_Inv
begin

text \<open>
  The interrupt flag: what the calls of a thread say about it.  It is the part of the invariant that the
  assertion of the reaper needs, that interrupts are enabled in a thread's own code.
\<close>

text \<open>Are interrupts enabled in a thread with these calls?  The calls of \<^verbatim>\<open>block\<close> up to the context switch
  leave the flag as it was; the timer handler and what is behind the \<^verbatim>\<open>cli\<close> of the switch run with
  interrupts disabled.\<close>

fun ion :: "frame list \<Rightarrow> bool" where
  "ion (Apit # r) = False"
| "ion (ApitBack # r) = False"
| "ion (BProtect m a # r) = ion r"
| "ion (BAgain m a k me # r) = ion r"
| "ion (BNext a k me n # r) = ion r"
| "ion (BMarked a k me n # r) = ion r"
| "ion (BActive a k me n # r) = ion r"
| "ion (SPush a me n # r) = ion r"
| "ion (SCli f a me n # r) = f"
| "ion (SClear f a me n # r) = False"
| "ion (SClearN f a me n # r) = False"
| "ion (SLoad f a me n # r) = False"
| "ion (SParked f # r) = False"
| "ion r = True"

text \<open>The flags that the context switch pushed are those of the calls below; all other calls but those of
  \<^verbatim>\<open>block\<close> were made with interrupts enabled.\<close>

fun flag_ok :: "frame \<Rightarrow> frame list \<Rightarrow> bool" where
  "flag_ok (SCli f a me n) r = (f = ion r)"
| "flag_ok (SClear f a me n) r = (f = ion r)"
| "flag_ok (SClearN f a me n) r = (f = ion r)"
| "flag_ok (SLoad f a me n) r = (f = ion r)"
| "flag_ok (SParked f) r = (f = ion r)"
| "flag_ok (BProtect m a) r = True"
| "flag_ok (BAgain m a k me) r = True"
| "flag_ok (BNext a k me n) r = True"
| "flag_ok (BMarked a k me n) r = True"
| "flag_ok (BActive a k me n) r = True"
| "flag_ok (SPush a me n) r = True"
| "flag_ok f r = ion r"

fun stack_flags :: "frame list \<Rightarrow> bool" where
  "stack_flags [] = True"
| "stack_flags (f # r) = (flag_ok f r \<and> stack_flags r)"

definition core_flag :: "sched \<Rightarrow> nat \<Rightarrow> bool" where
  "core_flag s c \<longleftrightarrow> ie (cpus s c) = (pend (cpus s c) = None \<and> ion (stacks s (esp (cpus s c))))"

definition sched_flags_ok :: "sched \<Rightarrow> bool" where
  "sched_flags_ok s \<longleftrightarrow> (\<forall>t. stack_flags (stacks s t)) \<and> (\<forall>c < totalProcs s. core_flag s c)"

lemma flagsD:
  assumes "sched_flags_ok s" "c < totalProcs s"
  shows "stack_flags (stacks s t)" "pend (cpus s c) = None \<Longrightarrow> ie (cpus s c) = ion (stacks s (esp (cpus s c)))"
    "pend (cpus s c) \<noteq> None \<Longrightarrow> \<not> ie (cpus s c)"
  using assms by (auto simp: sched_flags_ok_def core_flag_def)

text \<open>A step of one core that changes the stacks of threads on no other core.\<close>

lemma flags_change:
  assumes F: "sched_flags_ok s" and c: "c < totalProcs s"
    and s': "totalProcs s' = totalProcs s" "\<And>d. d \<noteq> c \<Longrightarrow> cpus s' d = cpus s d" "\<And>x. x \<notin> M \<Longrightarrow> stacks s' x = stacks s x"
    and M: "\<And>d. d < totalProcs s \<Longrightarrow> d \<noteq> c \<Longrightarrow> esp (cpus s d) \<notin> M"
    and new: "\<And>x. x \<in> M \<Longrightarrow> stack_flags (stacks s' x)" "core_flag s' c"
  shows "sched_flags_ok s'"
proof -
  have "stack_flags (stacks s' t)" for t using F s'(3) new(1) by (cases "t \<in> M") (auto simp: sched_flags_ok_def)
  moreover have "core_flag s' d" if "d < totalProcs s" for d
  proof (cases "d = c")
    case False
    then show ?thesis using F that s'(2) s'(3) M by (simp add: sched_flags_ok_def core_flag_def)
  qed (use new in simp)
  ultimately show ?thesis using s'(1) by (simp add: sched_flags_ok_def)
qed

lemma on_own_core:
  assumes "sched_inv s pl" "d < totalProcs s"
  shows "pl (esp (cpus s d)) = Core d"
  using assms by (auto simp: sched_inv_def body_ok_def cpu_ok_def Let_def)

text \<open>The usual step: the running thread gets other calls and the core its flag.\<close>

lemma flags_own:
  assumes I: "sched_inv s pl" and F: "sched_flags_ok s" and c: "c < totalProcs s" and t: "t = esp (cpus s c)"
    and s': "totalProcs s' = totalProcs s" "\<And>d. d \<noteq> c \<Longrightarrow> cpus s' d = cpus s d" "stacks s' = (stacks s)(t := fs)"
      "esp (cpus s' c) = t" "pend (cpus s' c) = None" "ie (cpus s' c) = ion fs" "stack_flags fs"
  shows "sched_flags_ok s'"
proof (rule flags_change [OF F c s'(1,2), where M = "{t}"])
  show "esp (cpus s d) \<notin> {t}" if "d < totalProcs s" "d \<noteq> c" for d
    using on_own_core [OF I that(1)] on_own_core [OF I c] that(2) t by auto
qed (use s' in \<open>simp_all add: core_flag_def\<close>)

lemmas flag_simps = step_simps set_stack_def set_cpu_def set_ie_def set_np_def

lemma flags_queues:
  assumes "sched_flags_ok s" "same_but_queues s s1"
  shows "sched_flags_ok s1"
  using assms by (auto simp: same_but_queues_def sched_flags_ok_def core_flag_def)

lemma calls_on: "flag_ok f r \<Longrightarrow> is_code f \<or> f = New \<or> (\<exists>u. f = Sched u) \<Longrightarrow> ion r \<and> ion (f # r)"
  by (cases f) auto

text \<open>The calls that only the running thread's own statements change.\<close>

lemma flags_own_exec:
  assumes I: "sched_inv s pl" and F: "sched_flags_ok s" and c: "c < totalProcs s" and t: "t = esp (cpus s c)"
    and p: "pend (cpus s c) = None" and S: "stack_flags (f # r)" "ie (cpus s c) = ion (f # r)"
    and e: "exec c t f r s = Some (Inr s')"
    and f: "f \<notin> {Reap, Apit}" "\<forall>z. f \<noteq> Del z \<and> f \<noteq> Sched z" "\<forall>m a k me. f \<noteq> BAgain m a k me" "\<forall>b a me n. f \<noteq> SLoad b a me n"
  shows "sched_flags_ok s'"
proof -
  note own = flags_own [OF I F c t]
  have D: "totalProcs s' = totalProcs s \<and> (\<forall>d. d \<noteq> c \<longrightarrow> cpus s' d = cpus s d) \<and> (\<exists>fs. stacks s' = (stacks s)(t := fs) \<and>
      esp (cpus s' c) = t \<and> pend (cpus s' c) = None \<and> ie (cpus s' c) = ion fs \<and> stack_flags fs)"
    using S e f p t by (cases f) (auto simp: flag_simps assertR_def split: if_splits)
  then show ?thesis using own by blast
qed

text \<open>The running thread gets other calls after the queues changed.\<close>

lemma flags_queued:
  assumes I: "sched_inv s pl" and F: "sched_flags_ok s" and c: "c < totalProcs s" and t: "t = esp (cpus s c)"
    and p: "pend (cpus s c) = None" and q: "same_but_queues s s1" and i: "ie (cpus s c) = ion fs" and fs: "stack_flags fs"
  shows "sched_flags_ok (set_stack t fs s1)"
  by (rule flags_own [OF I F c t]) (use q p i fs t in \<open>auto simp: same_but_queues_def flag_simps\<close>)

text \<open>The running thread gets other calls and the stack of a thread on no core is made or deleted.\<close>

lemma flags_other:
  assumes I: "sched_inv s pl" and F: "sched_flags_ok s" and c: "c < totalProcs s" and t: "t = esp (cpus s c)"
    and p: "pend (cpus s c) = None" and z: "\<forall>d. pl z \<noteq> Core d" and i: "ie (cpus s c) = ion fs" and fs: "stack_flags fs"
    and s1: "totalProcs s1 = totalProcs s" "cpus s1 = cpus s" "stacks s1 = (stacks s)(z := zs)" and zs: "stack_flags zs"
  shows "sched_flags_ok (set_stack t fs s1)"
proof (rule flags_change [OF F c, where M = "{t, z}"])
  show "esp (cpus s d) \<notin> {t, z}" if "d < totalProcs s" "d \<noteq> c" for d
    using on_own_core [OF I that(1)] on_own_core [OF I c] that(2) t z by auto
qed (use assms in \<open>auto simp: flag_simps core_flag_def\<close>)

lemma flags_exec:
  assumes A: "at_core s pl c t f r" and F: "sched_flags_ok s" and e: "exec c t f r s = Some (Inr s')"
  shows "sched_flags_ok s'"
proof -
  note D = at_coreD [OF A]
  have I: "sched_inv s pl" using A by (simp add: at_core_def)
  have S: "stack_flags (f # r)" "ie (cpus s c) = ion (f # r)"
    using flagsD [OF F D(3)] D(4-6) by metis+
  note own = flags_own [OF I F D(3,4)] and queued = flags_queued [OF I F D(3-5)] and other = flags_other [OF I F D(3-5)]
  have on: "ie (cpus s c) = ion r" if "is_code f \<or> f = New \<or> (\<exists>u. f = Sched u)"
    using calls_on [OF _ that] S by simp
  have r: "stack_flags r" using S(1) by simp
  show ?thesis
  proof (cases "f \<in> {Reap, Apit} \<or> (\<exists>z. f = Del z \<or> f = Sched z) \<or> (\<exists>m a k me. f = BAgain m a k me) \<or> (\<exists>b a me n. f = SLoad b a me n)")
    case False
    then show ?thesis by (intro flags_own_exec [OF I F D(3-5) S e]) auto
  next
    case True
    then consider "f = Reap" | "f = Apit" | z where "f = Del z" | u where "f = Sched u" | m a k me where "f = BAgain m a k me"
      | b a me n where "f = SLoad b a me n" by blast
    then show ?thesis
    proof cases
      case 1
      obtain z s1 where z: "s_zombie_remove s = (z, s1)" by (cases "s_zombie_remove s")
      note q = same_but_queuesI(4) [OF z]
      have "sched_flags_ok (set_stack t r s1)" by (rule queued [OF q]) (use on r 1 in simp_all)
      moreover have "sched_flags_ok (set_stack t (Del u # Reap # r) s1)" for u
        by (rule queued [OF q]) (use on r S 1 in simp_all)
      ultimately show ?thesis using e z 1 by (cases z) auto
    next
      case 2
      have "s' = set_stack t r (set_ie c True s) \<or> s' = set_stack t (BProtect CanReturn AYield # ApitBack # r) s"
        using e 2 by (auto simp: Let_def split: if_splits)
      then show ?thesis
      proof
        assume s': "s' = set_stack t r (set_ie c True s)"
        show ?thesis by (rule own [of _ r]) (use S 2 D(4,5) in \<open>auto simp: s' flag_simps\<close>)
      next
        assume s': "s' = set_stack t (BProtect CanReturn AYield # ApitBack # r) s"
        show ?thesis by (rule own [of _ "BProtect CanReturn AYield # ApitBack # r"]) (use S 2 D(4,5) in \<open>auto simp: s' flag_simps\<close>)
      qed
    next
      case (3 z)
      have "pl z = Dying t" using counts(2) [OF A, of z] 3 by (auto split: if_splits)
      then have "sched_flags_ok (set_stack t r (s_delete z s))"
        using on 3 r by (intro other [of z r _ "[]"]) (auto simp: s_delete_def)
      then show ?thesis using e 3 by simp
    next
      case (4 u)
      have "sched_flags_ok (set_stack t r (s_schedule u s))" by (rule queued [OF same_but_queuesI(1)]) (use on r 4 in simp_all)
      then show ?thesis using e 4 by simp
    next
      case (5 m a k me)
      have E: "ion r = ie (cpus s c)" using S 5 by simp
      obtain n th where n: "ready_remove (ths s) = (n, th)" by (cases "ready_remove (ths s)")
      have "isIdle th = idle_of s" using n by (auto simp: ready_remove_def split: prod.splits)
      then have q: "same_but_queues s (s\<lparr>ths := th\<rparr>)" by (rule same_but_queuesI(6))
      have "sched_flags_ok (set_stack t (BNext a k me u # r) (s\<lparr>ths := th\<rparr>))" for u
        by (rule queued [OF q]) (use E r in simp_all)
      moreover have "sched_flags_ok (set_stack t (BNext a k me u # r) s)" for u
        by (rule queued [OF same_but_queuesI(7)]) (use E r in simp_all)
      moreover have "sched_flags_ok (set_stack t r s)" by (rule queued [OF same_but_queuesI(7)]) (use E r in simp_all)
      ultimately show ?thesis using e 5 n F by (cases n) (auto simp: assertR_def split: if_splits)
    next
      case (6 b a me n)
      have M: "esp (cpus s d) \<notin> {t}" if "d < totalProcs s" "d \<noteq> c" for d
        using on_own_core [OF I that(1)] on_own_core [OF I D(3)] that(2) D(4) by auto
      show ?thesis
        by (rule flags_change [OF F D(3) _ _ _ M]) (use e 6 S in \<open>auto simp: flag_simps core_flag_def\<close>)
    qed
  qed
qed

text \<open>The events of a thread's own code.\<close>

lemma flags_event:
  assumes A: "at_core s pl c t f r" and F: "sched_flags_ok s" and e: "core_step c ev s = Some (Inr s')" and ev: "ev \<noteq> Go"
  shows "sched_flags_ok s'"
proof -
  note D = at_coreD [OF A]
  have I: "sched_inv s pl" using A by (simp add: at_core_def)
  have S: "stack_flags (f # r)" "ie (cpus s c) = ion (f # r)"
    using flagsD [OF F D(3)] D(4-6) by metis+
  note own = flags_own [OF I F D(3,4)] and queued = flags_queued [OF I F D(3-5)] and other = flags_other [OF I F D(3-5)]
  note E = D(4) [symmetric] D(5,6)
  have on: "ion r \<and> ion (f # r)" if "is_code f \<or> f = New" using calls_on [of f r] S that by auto
  have same: "sched_flags_ok (set_stack t fs s)" if "ion fs = ion (f # r)" "stack_flags fs" for fs
    by (rule queued [OF same_but_queuesI(7)]) (use that S in simp_all)
  show ?thesis
  proof (cases ev)
    case Tick
    then have i: "ie (cpus s c)" and s': "s' = set_stack t (Apit # f # r) (set_ie c False s)"
      using e E by (auto simp: core_step_def Let_def split: if_splits)
    show ?thesis by (rule own [of _ "Apit # f # r"]) (use S i E in \<open>auto simp: s' flag_simps\<close>)
  next
    case (Wake k)
    obtain u s1 where u: "s_wait_remove k s = (u, s1)" by (cases "s_wait_remove k s")
    note q = same_but_queuesI(5) [OF u]
    have f: "is_code f" using e E Wake by (simp add: core_step_def Let_def split: if_splits)
    have "sched_flags_ok (set_stack t (Sched v # f # r) s1)" for v
      by (rule queued [OF q]) (use on f S in simp_all)
    then show ?thesis using e E Wake u f flags_queues [OF F q] by (cases u) (auto simp: core_step_def Let_def)
  next
    case (Alloc u pd)
    then have f: "f = New" "\<not> live s u" "s' = set_stack t (Sched u # r) (s_new_tcb u pd s)"
      using e E by (auto simp: core_step_def Let_def split: if_splits)
    have "at_place s u (pl u)" using D(1) by (simp add: body_ok_def)
    then have "\<forall>d. pl u \<noteq> Core d" using f(2) by auto
    then show ?thesis unfolding f(3)
      by (rule other [where zs = "[SParked True, Entry]"]) (use on f(1) S in \<open>auto simp: s_new_tcb_def\<close>)
  qed (use ev e E on S same in \<open>auto simp: core_step_def Let_def assertR_def split: if_splits\<close>)
qed

lemma flags_step:
  assumes I: "sched_inv s pl" and F: "sched_flags_ok s" and c: "c < totalProcs s" and e: "core_step c ev s = Some (Inr s')"
  shows "sched_flags_ok s'"
proof (cases "pend (cpus s c)")
  case None
  define t where "t = esp (cpus s c)"
  obtain f r where st: "stacks s t = f # r" using e None by (cases "stacks s t") (auto simp: core_step_def t_def Let_def)
  have A: "at_core s pl c t f r" using I c None st by (simp add: at_core_def t_def)
  show ?thesis
  proof (cases "ev = Go")
    case True
    then have "exec c t f r s = Some (Inr s')" using e None st by (simp add: core_step_def Let_def t_def)
    then show ?thesis by (rule flags_exec [OF A F])
  qed (use flags_event [OF A F e] in blast)
next
  case (Some p)
  then obtain a me where p: "pend (cpus s c) = Some (a, me)" by (cases p) auto
  let ?s0 = "set_cpu c ((cpus s c)\<lparr>pend := None\<rparr>) s"
  have x: "do_action a me ?s0 = Inr s'" using e p by (simp add: core_step_def Let_def split: if_splits)
  have "cpu_ok s pl c" using I c by (simp add: sched_inv_def body_ok_def)
  then have "\<not> ie (cpus s c)" "parked_stack s (esp (cpus s c))" using p by (simp_all add: cpu_ok_def Let_def)
  then have "sched_flags_ok ?s0"
    using F by (auto simp: sched_flags_ok_def core_flag_def set_cpu_def parked_stack_def)
  moreover have "same_but_queues ?s0 s'"
    using x by (cases a) (auto simp: assertR_def split: if_splits)
  ultimately show ?thesis by (rule flags_queues)
qed

end
