(* ===== verification/Sched_Safe.thy ===== *)
theory Sched_Safe
  imports Sched_Flags
begin

text \<open>
  The steps of the scheduler that move a thread from one place to another, and what follows for every
  interleaving: no thread runs on two cores or is deleted while it is in use, no assertion fails, and a
  thread's own code runs in its own address space.
\<close>

section \<open>Calls of the thread's own code\<close>

lemma code_point:
  "at_point s pl c t i f r \<Longrightarrow> is_code f \<or> f = New \<or> (\<exists>u. f = Sched u) \<Longrightarrow>
     good (f # r) \<and> activeThreads s c = t \<and> esp0 s c = t \<and> \<not> idle_of s t"
  by (cases f) auto

lemma event_stays:
  assumes A: "at_core s pl c t f r" and e: "core_step c ev s = Some (Inr s')"
  shows "ev = Tick \<Longrightarrow> sched_inv s' pl" "ev = Yield \<Longrightarrow> sched_inv s' pl" "ev = Stop \<Longrightarrow> sched_inv s' pl"
    "ev = Return \<Longrightarrow> sched_inv s' pl" "ev = Wait k \<Longrightarrow> sched_inv s' pl" "ev = Create \<Longrightarrow> sched_inv s' pl"
    "ev = Round \<Longrightarrow> sched_inv s' pl"
proof -
  note D = at_coreD [OF A]
  note E = D(4) [symmetric] D(5,6)
  note go = plain_step' [OF A]
  have P: "at_point s pl c t (ie (cpus s c)) f r" if "is_code f" using D(12) that by (cases f) auto
  note G = code_point [OF P]
  show "sched_inv s' pl" if ev: "ev = Tick"
  proof -
    have i: "ie (cpus s c)" and s': "s' = set_stack t (Apit # f # r) (set_ie c False s)"
      using e ev E by (auto simp: core_step_def Let_def split: if_splits)
    have f: "f \<noteq> Apit"
    proof
      assume f: "f = Apit"
      have "cpu_ok s pl c" using D(1,3) by (simp add: body_ok_def)
      then show False using f i E by (cases r) (auto simp: cpu_ok_def Let_def)
    qed
    then have "at_point s pl c t True f r" using D(12) i by simp
    then have "at_point s' pl c t True f r" unfolding s' by (cases f) (auto simp: step_simps)
    moreover have "pick (strip (f # r)) = pick (f # r)" using f by (cases f) auto
    ultimately show ?thesis
      by (intro go [of _ "Apit # f # r"]) (use E in \<open>simp_all add: s' step_simps\<close>)
  qed
  show "sched_inv s' pl" if ev: "ev = Yield"
  proof -
    have f: "is_code f" and s': "s' = set_stack t (BProtect CanReturn AYield # f # r) s" using e ev E by (auto simp: core_step_def Let_def split: if_splits)
    then have g: "good (f # r) \<and> activeThreads s c = t \<and> esp0 s c = t \<and> \<not> idle_of s t" using G by simp
    then have "good (BProtect CanReturn AYield # f # r)" using f by (auto simp: bottom_def base_def nohold_def)
    then have "running s' pl c t (ie (cpus s' c)) (BProtect CanReturn AYield # f # r)" using g by (intro running_good) (auto simp: s' step_simps)
    then show ?thesis
      by (intro go [of _ "BProtect CanReturn AYield # f # r"]) (use E g in \<open>simp_all add: s' step_simps\<close>)
  qed
  show "sched_inv s' pl" if ev: "ev = Round"
  proof -
    have f: "f = Run" and s': "s' = set_stack t (Reap # f # r) s" using e ev E by (auto simp: core_step_def Let_def split: if_splits)
    then have g: "good (f # r) \<and> activeThreads s c = t \<and> esp0 s c = t \<and> \<not> idle_of s t" using G by simp
    then have "good (Reap # f # r)" using f by (auto simp: bottom_def base_def nohold_def)
    then have "running s' pl c t (ie (cpus s' c)) (Reap # f # r)" using g by (intro running_good) (auto simp: s' step_simps)
    then show ?thesis
      by (intro go [of _ "Reap # f # r"]) (use E g in \<open>simp_all add: s' step_simps\<close>)
  qed
  show "sched_inv s' pl" if ev: "ev = Stop"
  proof -
    have f: "f = Run" and s': "s' = set_stack t (StopLoop # f # r) s" using e ev E by (auto simp: core_step_def Let_def split: if_splits)
    then have g: "good (f # r) \<and> activeThreads s c = t \<and> esp0 s c = t \<and> \<not> idle_of s t" using G by simp
    then have "good (StopLoop # f # r)" using f by (auto simp: bottom_def base_def nohold_def)
    then have "running s' pl c t (ie (cpus s' c)) (StopLoop # f # r)" using g by (intro running_good) (auto simp: s' step_simps)
    then show ?thesis
      by (intro go [of _ "StopLoop # f # r"]) (use E g in \<open>simp_all add: s' step_simps\<close>)
  qed
  show "sched_inv s' pl" if ev: "ev = Wait k"
  proof -
    have f: "is_code f" and s': "s' = set_stack t (BProtect MustBlock (AWait k) # f # r) s" using e ev E by (auto simp: core_step_def Let_def split: if_splits)
    then have g: "good (f # r) \<and> activeThreads s c = t \<and> esp0 s c = t \<and> \<not> idle_of s t" using G by simp
    then have "good (BProtect MustBlock (AWait k) # f # r)" using f by (auto simp: bottom_def base_def nohold_def)
    then have "running s' pl c t (ie (cpus s' c)) (BProtect MustBlock (AWait k) # f # r)" using g by (intro running_good) (auto simp: s' step_simps)
    then show ?thesis
      by (intro go [of _ "BProtect MustBlock (AWait k) # f # r"]) (use E g in \<open>simp_all add: s' step_simps\<close>)
  qed
  show "sched_inv s' pl" if ev: "ev = Create"
  proof -
    have f: "f = Run" and s': "s' = set_stack t (Reap # New # f # r) s" using e ev E by (auto simp: core_step_def Let_def split: if_splits)
    then have g: "good (f # r) \<and> activeThreads s c = t \<and> esp0 s c = t \<and> \<not> idle_of s t" using G by simp
    then have "good (Reap # New # f # r)" using f by (auto simp: bottom_def base_def nohold_def)
    then have "running s' pl c t (ie (cpus s' c)) (Reap # New # f # r)" using g by (intro running_good) (auto simp: s' step_simps)
    then show ?thesis
      by (intro go [of _ "Reap # New # f # r"]) (use E g in \<open>simp_all add: s' step_simps\<close>)
  qed
  show "sched_inv s' pl" if ev: "ev = Return"
  proof -
    have f: "f = Run" and s': "s' = set_stack t r s" using e ev E by (auto simp: core_step_def Let_def split: if_splits)
    then have "running s' pl c t (ie (cpus s' c)) r"
      using G by (intro running_good) (auto simp: step_simps bottom_def)
    then show ?thesis
      by (intro go [of _ r]) (use E f in \<open>simp_all add: s' step_simps\<close>)
  qed
qed

section \<open>Calls that move another thread\<close>

lemma held_move:
  assumes "held_ok s pl" and "\<And>w x. w \<noteq> t \<Longrightarrow> count_list (stacks s' w) (Sched x) = count_list (stacks s w) (Sched x) \<and>
      count_list (stacks s' w) (Del x) = count_list (stacks s w) (Del x)"
    and "\<And>x. x \<noteq> u \<Longrightarrow> count_list (stacks s' t) (Sched x) = count_list (stacks s t) (Sched x) \<and>
      count_list (stacks s' t) (Del x) = count_list (stacks s t) (Del x)"
    and "count_list (stacks s' t) (Sched u) = (if p = Woken t then 1 else 0)" "count_list (stacks s' t) (Del u) = (if p = Dying t then 1 else 0)"
    and "\<And>w. w \<noteq> t \<Longrightarrow> pl u \<noteq> Woken w \<and> pl u \<noteq> Dying w \<and> p \<noteq> Woken w \<and> p \<noteq> Dying w"
  shows "held_ok s' (pl(u := p))"
proof -
  have H: "count_list (stacks s w) (Sched x) = (if pl x = Woken w then 1 else 0)"
    "count_list (stacks s w) (Del x) = (if pl x = Dying w then 1 else 0)" for w x using assms(1) by (simp_all add: held_ok_def)
  have "count_list (stacks s' w) (Sched x) = (if (pl(u := p)) x = Woken w then 1 else 0) \<and>
    count_list (stacks s' w) (Del x) = (if (pl(u := p)) x = Dying w then 1 else 0)" for w x
    using assms(2) [of w x] assms(3) [of x] assms(4,5) assms(6) [of w] H [of w x]
    by (cases "w = t"; cases "x = u") simp_all
  then show ?thesis by (simp add: held_ok_def)
qed

definition move_change :: "nat \<Rightarrow> tcb \<Rightarrow> tcb \<Rightarrow> sched \<Rightarrow> sched \<Rightarrow> bool" where
  "move_change c t u s s' \<longleftrightarrow>
     totalProcs s' = totalProcs s \<and> idleThreads s' = idleThreads s \<and> idle_of s' = idle_of s \<and> cpus s' = cpus s \<and>
     activeThreads s' = activeThreads s \<and> esp0 s' = esp0 s \<and>
     (\<forall>x. x \<noteq> u \<longrightarrow> save_cr3 s' x = save_cr3 s x \<and> live s' x = live s x \<and> save_esp s' x = save_esp s x \<and>
        no_preempt s' x = no_preempt s x \<and> (x \<noteq> t \<longrightarrow> stacks s' x = stacks s x))"

lemma move_step:
  assumes A: "at_core s pl c t f r" and ch: "move_change c t u s s'"
    and u: "\<And>d. pl u \<noteq> Core d \<and> pl u \<noteq> Picked d \<and> pl u \<noteq> Leaving d" and at: "at_place s' u p"
    and picks: "pick (strip (f # r)) = None" and held: "held_ok s' (pl(u := p))"
    and run: "running s' (pl(u := p)) c t (ie (cpus s c)) (stacks s' t)"
  shows "body_ok s' (pl(u := p))"
proof -
  note D = at_coreD [OF A]
  have ch': "own_change c t {u} s pl s' (pl(u := p))" using ch by (auto simp: own_change_def move_change_def)
  have S: "cpus s' = cpus s" using ch by (simp add: move_change_def)
  show ?thesis
  proof (rule own_step [OF D(1,3,4,5) ch'])
    show "running s' (pl(u := p)) c t (ie (cpus s' c)) (stacks s' t)" using run S by simp
  qed (use u at picks held D S in auto)
qed

lemma queue_move:
  assumes A: "at_core s pl c t f r" and q: "same_but_queues s s1" and Q: "queues_ok (ths s1) (waitQ s1) (pl(u := p))"
    and u: "pl u \<noteq> Nowhere \<and> (\<forall>d. pl u \<noteq> Core d \<and> pl u \<noteq> Picked d \<and> pl u \<noteq> Leaving d)"
    and p: "p = Ready \<or> p = Woken t \<or> p = Dying t \<and> nohold (stacks s u) \<or> p = Picked c \<and> pick fs = Some u"
      "idle_of s u \<longrightarrow> p = Picked c \<and> u = idleThreads s c" "p = Dying t \<or> resumes s u"
    and w: "\<And>w. w \<noteq> t \<Longrightarrow> pl u \<noteq> Woken w \<and> pl u \<noteq> Dying w" and picks: "pick (strip (f # r)) = None" "strip fs = fs"
    and run: "running (set_stack t fs s1) (pl(u := p)) c t (ie (cpus s c)) fs"
    and cnt: "\<And>x. x \<noteq> u \<Longrightarrow> count_list fs (Sched x) = count_list (f # r) (Sched x) \<and> count_list fs (Del x) = count_list (f # r) (Del x)"
      "count_list fs (Sched u) = (if p = Woken t then 1 else 0)" "count_list fs (Del u) = (if p = Dying t then 1 else 0)"
  shows "sched_inv (set_stack t fs s1) (pl(u := p))"
proof -
  note D = at_coreD [OF A]
  obtain th wq where s1: "s1 = s\<lparr>ths := th, waitQ := wq\<rparr>" and th: "isIdle th = idle_of s"
    using q unfolding same_but_queues_def by blast
  let ?s = "set_stack t fs s1"
  have ut: "u \<noteq> t" using u D(7) by auto
  have at: "at_place s u (pl u)" using D(1) by (simp add: body_ok_def)
  then have "parked s u" using u by (cases "pl u") auto
  then have pk: "parked ?s u" "resumes ?s u = resumes s u" using ut th by (simp_all add: parked_def parked_stack_def resumes_def s1 set_stack_def)
  have "at_place ?s u p"
    using p pk th ut D(3) D(5) picks(2) by (auto simp: s1 set_stack_def picks_def D(4) [symmetric])
  moreover have "move_change c t u s ?s" using th by (auto simp: move_change_def s1 set_stack_def)
  moreover have "held_ok ?s (pl(u := p))"
    by (rule held_move [OF D(11), where t = t]) (use cnt D(6) p(1) w in \<open>auto simp: s1 set_stack_def\<close>)
  ultimately have "body_ok ?s (pl(u := p))"
    using move_step [OF A _ _ _ picks(1)] u run by (simp add: s1 set_stack_def)
  then show ?thesis using Q by (simp add: sched_inv_def set_stack_def)
qed

lemma at_placeD: "body_ok s pl \<Longrightarrow> at_place s t (pl t)"
  by (simp add: body_ok_def)

lemma running_queues:
  assumes "same_but_queues s s1"
  shows "\<And>i g r. at_point (set_stack t fs s1) pl c x i g r = at_point s pl c x i g r"
proof -
  obtain th wq where s1: "s1 = s\<lparr>ths := th, waitQ := wq\<rparr>" and th: "isIdle th = idle_of s"
    using assms unfolding same_but_queues_def by blast
  show "at_point (set_stack t fs s1) pl c x i g r = at_point s pl c x i g r" for i g r
    by (cases g) (simp_all add: s1 set_stack_def th)
qed

lemma moves_again:
  assumes A: "at_core s pl c t (BAgain m a k me) r" and e: "exec c t (BAgain m a k me) r s = Some x"
  shows "\<exists>s' pl'. x = Inr s' \<and> sched_inv s' pl'"
proof -
  note D = at_coreD [OF A]
  note E = D(4) [symmetric] D(5,6)
  have P: "at_point s pl c t (ie (cpus s c)) (BAgain m a k me) r" using D(12) by simp
  then have km: "k = c" "me = t" by simp_all
  obtain n th where r: "ready_remove (ths s) = (n, th)" by (cases "ready_remove (ths s)")
  have cnt0: "count_list r (Sched u) = 0 \<and> count_list r (Del u) = 0" if "\<And>w. pl u \<noteq> Woken w \<and> pl u \<noteq> Dying w" for u
    using counts [OF A, of u] that by simp
  have picked: "\<exists>pl'. sched_inv (set_stack t (BNext a k me u # r) s1) pl'"
    if u: "pl u = Ready \<or> pl u = Rest" and q: "same_but_queues s s1" and Q: "queues_ok (ths s1) (waitQ s1) (pl(u := Picked c))"
      and i: "idle_of s u \<longrightarrow> u = idleThreads s c" for u s1
  proof -
    have at: "at_place s u (pl u)" and w: "\<And>w. pl u \<noteq> Woken w \<and> pl u \<noteq> Dying w" using at_placeD [OF D(1)] u by auto
    have rs: "resumes s u" using at u by (auto simp: resumes_def)
    have "running (set_stack t (BNext a k me u # r) s1) (pl(u := Picked c)) c t (ie (cpus s c)) (BNext a k me u # r)"
      using P q D(7) u by (auto simp: running_Cons same_but_queues_def set_stack_def)
    then have "sched_inv (set_stack t (BNext a k me u # r) s1) (pl(u := Picked c))"
      by (intro queue_move [OF A q Q]) (use u i cnt0 [OF w] w rs in auto)
    then show ?thesis by blast
  qed
  show ?thesis
  proof (cases n)
    case (Some u)
    note R = queues_ready_remove [OF D(2) r [unfolded Some]]
    have "idle_of s u \<longrightarrow> u = idleThreads s c" using at_placeD [OF D(1), of u] R(1) by simp
    then obtain pl' where "sched_inv (set_stack t (BNext a k me u # r) (s\<lparr>ths := th\<rparr>)) pl'"
      using picked [of u "s\<lparr>ths := th\<rparr>"] R by auto
    then show ?thesis using e r Some by auto
  next
    case None
    consider "m = CanReturn" | "m \<noteq> CanReturn" "idle_of s t" | "m \<noteq> CanReturn" "\<not> idle_of s t" by blast
    then show ?thesis
    proof cases
      case 1
      then have "running s pl c t (ie (cpus s c)) r" using P by (intro running_good) (auto simp: blk_def)
      then have R: "running (set_stack t r s) pl c t (ie (cpus s c)) r"
        by (rule running_mono) (simp add: running_queues [OF same_but_queuesI(7)])
      have x: "x = Inr (set_stack t r s)" using e r None 1 by simp
      have "sched_inv (set_stack t r s) pl"
        by (rule plain_step' [OF A, of _ r]) (use R E in \<open>simp_all add: step_simps\<close>)
      then show ?thesis using x by blast
    next
      case 2
      have "t = idleThreads s c" using at_placeD [OF D(1), of t] D(7) 2 by simp
      then have "x = Inr s" using e r None 2 P km by (auto simp: blk_def)
      then show ?thesis using A by (auto simp: at_core_def)
    next
      case 3
      let ?i = "idleThreads s c"
      have I: "idles_ok s" using D(1) by (simp add: body_ok_def)
      then have idle: "idle_of s ?i" using D(3) by (simp add: idles_ok_def)
      have uniq: "d = c" if "?i = idleThreads s d" "d < totalProcs s" for d
        using I that D(3) by (auto simp: idles_ok_def inj_on_def)
      have "pl ?i = Rest"
        using at_placeD [OF D(1), of ?i] idle 3(2) E uniq
        by (cases "pl ?i") (auto simp: picks_def leaves_def)
      then obtain pl' where "sched_inv (set_stack t (BNext a k me ?i # r) s) pl'"
        using picked [of ?i s] queues_ok_move [OF D(2), of ?i "Picked c"] by auto
      then show ?thesis using e r None 3 km by auto
    qed
  qed
qed

lemma parked_calm: "good (f # r) \<Longrightarrow> strip (f # r) = f # r \<and> pick (f # r) = None"
  by (cases f) auto

text \<open>A thread's own code puts another thread into a local variable, or takes it out of one.\<close>

lemma code_takes:
  assumes A: "at_core s pl c t f r" and f: "is_code f" and q: "same_but_queues s s1"
    and Q: "queues_ok (ths s1) (waitQ s1) (pl(u := p))"
    and g: "g = Sched u \<and> p = Woken t \<and> (\<exists>k. pl u = Waiting k) \<or> g = Del u \<and> p = Dying t \<and> pl u = Zombie"
  shows "sched_inv (set_stack t (g # f # r) s1) (pl(u := p))"
proof -
  note D = at_coreD [OF A]
  have P: "at_point s pl c t (ie (cpus s c)) f r" using D(12) f by (cases f) auto
  have G: "good (f # r)" "activeThreads s c = t" "esp0 s c = t" "\<not> idle_of s t" using code_point [OF P] f by auto
  have at: "at_place s u (pl u)" by (rule at_placeD [OF D(1)])
  have fs: "f \<noteq> StopCheck" using f by auto
  have "g = Sched u \<or> g = Del u" using g by blast
  then have g1: "good (g # f # r)" "\<not> stops (g # f # r)"
    using G(1) fs by (auto simp: base_def simp del: good.simps(2) simp: good.simps(2) [of g])
  then have R: "running s (pl(u := p)) c t (ie (cpus s c)) (g # f # r)" using G by (intro running_good) simp_all
  then have R1: "running (set_stack t (g # f # r) s1) (pl(u := p)) c t (ie (cpus s c)) (g # f # r)"
    by (rule running_mono) (simp add: running_queues [OF q])
  have z: "count_list (f # r) (Sched u) = 0" "count_list (f # r) (Del u) = 0" using counts [OF A, of u] g by auto
  show ?thesis
  proof (rule queue_move [OF A q Q _ _ _ _ _ _ _ R1])
    show "p = Ready \<or> p = Woken t \<or> p = Dying t \<and> nohold (stacks s u) \<or> p = Picked c \<and> pick (g # f # r) = Some u"
      using g at by auto
    show "idle_of s u \<longrightarrow> p = Picked c \<and> u = idleThreads s c" using g at by auto
    show "p = Dying t \<or> resumes s u" using g at by auto
  qed (use g z G(1) g1 in \<open>auto simp: parked_calm simp del: good.simps\<close>)
qed

lemma moves_sched:
  assumes A: "at_core s pl c t (Sched u) r"
  shows "sched_inv (set_stack t r (s_schedule u s)) (pl(u := Ready))"
proof -
  note D = at_coreD [OF A]
  have P: "at_point s pl c t (ie (cpus s c)) (Sched u) r" using D(12) by simp
  have G: "good (Sched u # r)" "activeThreads s c = t" "esp0 s c = t" "\<not> idle_of s t" using code_point [OF P] by auto
  have w: "pl u = Woken t" using counts(1) [OF A, of u] by (auto split: if_splits)
  have at: "at_place s u (Woken t)" using at_placeD [OF D(1), of u] w by simp
  then have u: "\<not> idle_of s u" "u \<noteq> 0" "resumes s u" by (auto simp: parked_def)
  have "running s (pl(u := Ready)) c t (ie (cpus s c)) r" using G by (intro running_good) (auto simp: bottom_def)
  then have R: "running (set_stack t r (s_schedule u s)) (pl(u := Ready)) c t (ie (cpus s c)) r"
    by (rule running_mono) (simp add: running_queues [OF same_but_queuesI(1)])
  have Q: "queues_ok (ths (s_schedule u s)) (waitQ (s_schedule u s)) (pl(u := Ready))"
    using queues_schedule [OF D(2), of u] w u by simp
  show ?thesis
    by (rule queue_move [OF A same_but_queuesI(1) Q _ _ _ _ _ _ _ R])
      (use w u G(1) counts [OF A, of u] in \<open>auto split: if_splits\<close>)
qed

lemma moves_del:
  assumes A: "at_core s pl c t (Del z) r"
  shows "sched_inv (set_stack t r (s_delete z s)) (pl(z := Nowhere))"
proof -
  note D = at_coreD [OF A]
  let ?s = "set_stack t r (s_delete z s)"
  have P: "at_point s pl c t (ie (cpus s c)) (Del z) r" using D(12) by simp
  have G: "good (Del z # r)" "activeThreads s c = t" "esp0 s c = t" "\<not> idle_of s t" using code_point [OF P] by auto
  have w: "pl z = Dying t" using counts(2) [OF A, of z] by (auto split: if_splits)
  have at: "at_place s z (Dying t)" using at_placeD [OF D(1), of z] w by simp
  have zt: "z \<noteq> t" using w D(7) by auto
  have nz: "count_list (stacks s z) (Sched x) = 0 \<and> count_list (stacks s z) (Del x) = 0" for x
    using at by (simp add: nohold_def count_list_0_iff)
  have h: "held_ok ?s (pl(z := Nowhere))"
    by (rule held_move [OF D(11), where t = t])
      (use w D(6) zt nz counts [OF A] counts(2) [OF A, of z] in \<open>auto simp: set_stack_def s_delete_def\<close>)
  have R: "running ?s (pl(z := Nowhere)) c t (ie (cpus s c)) (stacks ?s t)"
    using G zt by (simp, intro running_good) (auto simp: set_stack_def s_delete_def bottom_def)
  have "body_ok ?s (pl(z := Nowhere))"
    by (rule move_step [OF A _ _ _ _ h R]) (use w at zt in \<open>auto simp: move_change_def set_stack_def s_delete_def\<close>)
  moreover have "queues_ok (ths ?s) (waitQ ?s) (pl(z := Nowhere))"
    using queues_ok_move [OF D(2), of z Nowhere] w by (simp add: set_stack_def s_delete_def)
  ultimately show ?thesis by (simp add: sched_inv_def)
qed

lemma moves_alloc:
  assumes A: "at_core s pl c t New r" and u: "u \<noteq> 0" "\<not> live s u"
  shows "sched_inv (set_stack t (Sched u # r) (s_new_tcb u pd s)) (pl(u := Woken t))"
proof -
  note D = at_coreD [OF A]
  let ?s = "set_stack t (Sched u # r) (s_new_tcb u pd s)"
  have P: "at_point s pl c t (ie (cpus s c)) New r" using D(12) by simp
  have G: "good (New # r)" "activeThreads s c = t" "esp0 s c = t" "\<not> idle_of s t" using code_point [OF P] by auto
  have w: "pl u = Nowhere" and st: "stacks s u = []" and i: "\<not> idle_of s u"
    using at_placeD [OF D(1), of u] u(2) by (cases "pl u"; auto simp: parked_def)+
  have ut: "u \<noteq> t" using w D(7) by auto
  have idle: "idle_of ?s = idle_of s" using i by (simp add: set_stack_def s_new_tcb_def fun_upd_idem)
  have h: "held_ok ?s (pl(u := Woken t))"
    by (rule held_move [OF D(11), where t = t])
      (use w D(6) ut st counts [OF A] in \<open>auto simp: set_stack_def s_new_tcb_def\<close>)
  have R: "running ?s (pl(u := Woken t)) c t (ie (cpus s c)) (stacks ?s t)"
    using G ut idle by (simp add: set_stack_def, intro running_good) (auto simp: set_stack_def s_new_tcb_def base_def bottom_def)
  have "at_place ?s u (Woken t)"
    using u ut by (auto simp: parked_def parked_stack_def resumes_def set_stack_def s_new_tcb_def bottom_def base_def nohold_def)
  then have "body_ok ?s (pl(u := Woken t))"
    by (intro move_step [OF A _ _ _ _ h R]) (use w ut idle i in \<open>auto simp: move_change_def set_stack_def s_new_tcb_def\<close>)
  moreover have "queues_ok (ths ?s) (waitQ ?s) (pl(u := Woken t))"
    using queues_ok_move [OF D(2), of u "Woken t"] w by (simp add: set_stack_def s_new_tcb_def queues_ok_def)
  ultimately show ?thesis by (simp add: sched_inv_def)
qed

section \<open>The switch to another stack\<close>

lemma moves_load:
  assumes A: "at_core s pl c t (SLoad b a me n) r" and e: "exec c t (SLoad b a me n) r s = Some (Inr s')"
  shows "sched_inv s' (pl(t := Leaving c, n := Core c))"
proof -
  note D = at_coreD [OF A]
  have P: "at_point s pl c t (ie (cpus s c)) (SLoad b a me n) r" using D(12) by simp
  then have n: "pl n = Picked c" and bk: "blk (idle_of s t) a b r" and i: "\<not> ie (cpus s c)" and me: "me = t" and sv: "save_esp s t = t"
    and ac: "activeThreads s c = n" "esp0 s c = n" by auto
  let ?pl = "pl(t := Leaving c, n := Core c)"
  have nt: "n \<noteq> t" using n D(7) by auto
  have an: "at_place s n (Picked c)" and at: "at_place s t (Core c)" using at_placeD [OF D(1)] n D(7) by metis+
  then have pn: "parked s n" "save_esp s n = n" "resumes s n" by (simp_all add: parked_def)
  have s': "s' = set_stack t (SParked b # r) (set_cpu c ((cpus s c)\<lparr>cr3 := save_cr3 s n, esp := n, pend := Some (a, t)\<rparr>) s)"
    using e me pn(2) by simp
  have st: "stacks s' = (stacks s)(t := SParked b # r)" "ths s' = ths s" "waitQ s' = waitQ s"
    "totalProcs s' = totalProcs s" "idleThreads s' = idleThreads s" by (simp_all add: s' set_stack_def set_cpu_def)
  have nh: "nohold (SParked b # r)" if "a = AStop"
  proof -
    obtain r' where "r = StopCheck # r'" using bk \<open>a = AStop\<close> by (auto simp: blk_def stops_def)
    then show ?thesis using bk by (auto simp: blk_def nohold_def base_def)
  qed
  have body: "body_ok s' ?pl"
  proof (rule body_ok_step [OF D(1,3), where M = "{t, n}"])
    show "step_frame c {t, n} s pl s' ?pl"
      using n D(7) by (auto simp: step_frame_def s' set_stack_def set_cpu_def)
    show "cpu_ok s' ?pl c"
      using pn(1,3) nt i ac nh bk by (auto simp: cpu_ok_def Let_def s' set_stack_def set_cpu_def parked_def parked_stack_def blk_def resumes_def)
    have ph: "parked s' n" using pn(1) nt by (simp add: parked_def parked_stack_def s' set_stack_def set_cpu_def)
    have "parked s' t"
      using bk at sv by (auto simp: parked_def parked_stack_def s' set_stack_def set_cpu_def blk_def)
    then show "at_place s' x (?pl x)" if "x \<in> {t, n}" for x
      using that at an nt ph by (auto simp: s' set_stack_def set_cpu_def leaves_def parked_def)
    have "held_ok s' pl" by (rule held_same [OF D(11) st(1)]) (use D(6) in simp)
    then show "held_ok s' ?pl" using n D(7) by (auto simp: held_ok_def)
    show "esp (cpus s' c) = x" if "x \<notin> {t, n}" "pl x = Core c" for x
      using at_placeD [OF D(1), of x] that D(4) by simp
    show "picks s' c = Some x" if "x \<notin> {t, n}" "pl x = Picked c" for x
      using at_placeD [OF D(1), of x] an that by simp
    show "leaves s' c = Some x" if "x \<notin> {t, n}" "pl x = Leaving c" for x
      using at_placeD [OF D(1), of x] that D(5) by (simp add: leaves_def)
  qed
  have "queues_ok (ths s) (waitQ s) ?pl"
    using queues_ok_move [OF queues_ok_move [OF D(2), of t "Leaving c"], of n "Core c"] n D(7) by simp
  then show ?thesis using body st(2,3) by (simp add: sched_inv_def)
qed

text \<open>The lambda, called on the new stack, puts the thread that was left into its queue.\<close>

lemma moves_action:
  assumes I: "sched_inv s pl" and c: "c < totalProcs s" and p: "pend (cpus s c) = Some (a, me)"
    and e: "do_action a me (set_cpu c ((cpus s c)\<lparr>pend := None\<rparr>) s) = x"
  shows "\<exists>s' pl'. x = Inr s' \<and> sched_inv s' pl'"
proof -
  let ?s0 = "set_cpu c ((cpus s c)\<lparr>pend := None\<rparr>) s"
  let ?t = "esp (cpus s c)"
  have B: "body_ok s pl" and Q: "queues_ok (ths s) (waitQ s) pl" using I by (simp_all add: sched_inv_def)
  have "cpu_ok s pl c" using B c by (simp add: body_ok_def)
  then have K: "pl ?t = Core c" "cr3 (cpus s c) = save_cr3 s ?t" "pl me = Leaving c" "\<not> ie (cpus s c)" "activeThreads s c = ?t" "esp0 s c = ?t"
    "parked_stack s ?t" "a = AStop \<Longrightarrow> nohold (stacks s me)" "idle_of s me \<Longrightarrow> a = AStop" "resumes s ?t" "a \<noteq> AStop \<Longrightarrow> resumes s me"
    using p by (simp_all add: cpu_ok_def Let_def)
  have am: "at_place s me (Leaving c)" using at_placeD [OF B, of me] K(3) by simp
  then have me: "parked s me" "me \<noteq> 0" by (simp_all add: parked_def)
  have nt: "me \<noteq> ?t" using K(1,3) by auto
  define q where "q = (case a of AYield \<Rightarrow> Ready | AWait k \<Rightarrow> Waiting k | AStop \<Rightarrow> if idle_of s me then Rest else Zombie)"
  have th0: "ths ?s0 = ths s" "waitQ ?s0 = waitQ s" by (simp_all add: set_cpu_def)
  note Q0 = Q [folded th0]
  obtain s' where s': "x = Inr s'" "same_but_queues ?s0 s'" "queues_ok (ths s') (waitQ s') (pl(me := q))"
  proof (cases a)
    case AYield
    then show thesis
      using that [of "s_schedule me ?s0"] e K(3,9) me(2) queues_schedule [OF Q0, of me] th0 by (auto simp: q_def)
  next
    case AStop
    then show thesis
      using that [of "if idle_of s me then ?s0 else s_zombie_add me ?s0"] e K(3) me(2) queues_zombie_add [OF Q0, of me] th0
        queues_ok_move [OF Q, of me Rest] by (cases "idle_of s me") (auto simp: q_def)
  next
    case (AWait k)
    then show thesis
      using that [of "s_wait_add k me ?s0"] e K(3,9) me(2) queues_wait_add [OF Q0, of me k] th0
      by (cases "idle_of s me") (auto simp: q_def)
  qed
  obtain th wq where s1: "s' = ?s0\<lparr>ths := th, waitQ := wq\<rparr>" and th: "isIdle th = idle_of s"
    using s'(2) unfolding same_but_queues_def by (auto simp: set_cpu_def)
  have S: "stacks s' = stacks s" "cpus s' = (cpus s)(c := (cpus s c)\<lparr>pend := None\<rparr>)" by (simp_all add: s1 set_cpu_def)
  have body: "body_ok s' (pl(me := q))"
  proof (rule body_ok_step [OF B c, where M = "{me}"])
    show "step_frame c {me} s pl s' (pl(me := q))"
      using K(3) th by (auto simp: step_frame_def s1 set_cpu_def)
    obtain f r where fr: "stacks s ?t = SParked f # r" "good r" "r \<noteq> []" "idle_of s ?t \<longrightarrow> f \<and> r = [StopCheck]"
      using K(7) by (auto simp: parked_stack_def)
    then have "running s' (pl(me := q)) c ?t False (SParked f # r)"
      using K(5,6,10) th by (simp add: running_Cons s1 set_cpu_def resumes_def)
    then show "cpu_ok s' (pl(me := q)) c"
      using K(1-4) nt fr(1) S by (auto simp: cpu_ok_def Let_def s1 set_cpu_def)
    have "parked s' me" using me(1) th by (simp add: parked_def parked_stack_def s1 set_cpu_def)
    then show "at_place s' y ((pl(me := q)) y)" if "y \<in> {me}" for y
      using that K(8,9,11) am th c by (auto simp: q_def s1 set_cpu_def resumes_def split: action.splits)
    have "held_ok s' pl" using B by (simp add: body_ok_def held_ok_def S)
    then show "held_ok s' (pl(me := q))" using K(3) by (auto simp: held_ok_def q_def split: action.splits)
    show "esp (cpus s' c) = y" if "y \<notin> {me}" "pl y = Core c" for y
      using at_placeD [OF B, of y] that S by simp
    show "picks s' c = Some y" if "y \<notin> {me}" "pl y = Picked c" for y
      using at_placeD [OF B, of y] that p by (simp add: picks_def)
    show "leaves s' c = Some y" if "y \<notin> {me}" "pl y = Leaving c" for y
      using at_placeD [OF B, of y] that p by (simp add: leaves_def)
  qed
  then show ?thesis using s'(1,3) by (auto simp: sched_inv_def)
qed

section \<open>Every step\<close>

lemma exec_inv:
  assumes A: "at_core s pl c t f r" and e: "exec c t f r s = Some x"
  shows "\<exists>s' pl'. x = Inr s' \<and> sched_inv s' pl'"
proof -
  note D = at_coreD [OF A]
  have ok: "\<exists>s' pl'. x = Inr s' \<and> sched_inv s' pl'" if "x = Inr s1" "sched_inv s1 pl1" for s1 pl1
    using that by blast
  have P: "f \<noteq> Apit \<Longrightarrow> at_point s pl c t (ie (cpus s c)) f r" by (rule D(12))
  note own = own_moves [OF A _ P] and block = block_moves [OF A _ P]
  show ?thesis
  proof (cases f)
    case StopCheck
    then have "idle_of s (s_current c s)" using P by (simp add: s_current_def)
    then have "x = Inr (set_stack t (StopLoop # r) s)" using e StopCheck by simp
    then show ?thesis using ok own(5) e StopCheck by blast
  next
    case Apit
    then obtain s1 where "x = Inr s1" using e by (auto simp: Let_def split: if_splits)
    then show ?thesis using ok apit_moves A e Apit by blast
  next
    case Reap
    obtain z s1 where z: "s_zombie_remove s = (z, s1)" by (cases "s_zombie_remove s")
    show ?thesis
    proof (cases z)
      case None
      have G: "good (Reap # r)" "activeThreads s c = t" "esp0 s c = t" "\<not> idle_of s t" using code_point [OF P] Reap by auto
      then have "running s pl c t (ie (cpus s c)) r" by (intro running_good) (auto simp: bottom_def)
      then have R: "running (set_stack t r s) pl c t (ie (cpus s c)) r"
        by (rule running_mono) (simp add: running_queues [OF same_but_queuesI(7)])
      have "sched_inv (set_stack t r s) pl"
        by (rule plain_step' [OF A, of _ r]) (use R G Reap D(4) [symmetric] D(5,6) in \<open>simp_all add: step_simps\<close>)
      moreover have "x = Inr (set_stack t r s)" using e z None Reap nothing_removed(1) [of s s1] by simp
      ultimately show ?thesis using ok by blast
    next
      case (Some u)
      note Z = queues_zombie_remove [OF D(2) z [unfolded Some]]
      have "sched_inv (set_stack t (Del u # f # r) s1) (pl(u := Dying t))"
        using code_takes [OF A _ _ Z(2)] same_but_queuesI(4) [OF z] Reap Z(1) by simp
      moreover have "x = Inr (set_stack t (Del u # f # r) s1)" using e z Some Reap by simp
      ultimately show ?thesis using ok by blast
    qed
  next
    case (Del z)
    then have "x = Inr (set_stack t r (s_delete z s))" using e by simp
    then show ?thesis using ok moves_del A Del by blast
  next
    case (Sched u)
    then have "x = Inr (set_stack t r (s_schedule u s))" using e by simp
    then show ?thesis using ok moves_sched A Sched by blast
  next
    case (BAgain m a k me)
    then show ?thesis using moves_again A e by blast
  next
    case (SLoad b a me n)
    then have "\<exists>s1. x = Inr s1" using e by auto
    then show ?thesis using ok moves_load A e SLoad by blast
  qed (use e own block ok in \<open>auto simp: Let_def\<close>)
qed

lemma core_step_inv:
  assumes I: "sched_inv s pl" and i: "sched_flags_ok s" and c: "c < totalProcs s" and e: "core_step c ev s = Some x"
  shows "\<exists>s' pl'. x = Inr s' \<and> sched_inv s' pl'"
proof (cases "pend (cpus s c)")
  case (Some p)
  then obtain a me where p: "pend (cpus s c) = Some (a, me)" by (cases p) auto
  then have "x = do_action a me (set_cpu c ((cpus s c)\<lparr>pend := None\<rparr>) s)"
    using e by (simp add: core_step_def Let_def split: if_splits)
  then show ?thesis using moves_action [OF I c p] by simp
next
  case None
  define t where "t = esp (cpus s c)"
  obtain f r where st: "stacks s t = f # r" using e None by (cases "stacks s t") (auto simp: core_step_def t_def Let_def)
  have A: "at_core s pl c t f r" using I c None st by (simp add: at_core_def t_def)
  note D = at_coreD [OF A]
  note E = D(4) [symmetric] D(5,6)
  have ok: "\<exists>s' pl'. x = Inr s' \<and> sched_inv s' pl'" if "x = Inr s1" "sched_inv s1 pl1" for s1 pl1
    using that by blast
  have stays: "\<exists>s' pl'. x = Inr s' \<and> sched_inv s' pl'" if ev: "ev \<in> {Tick, Yield, Stop, Return, Create, Round} \<or> (\<exists>k. ev = Wait k)"
  proof -
    have "f = Run \<Longrightarrow> ie (cpus s c)" using flagsD [OF i c] D(4-6) by simp
    then have "\<exists>s1. x = Inr s1" using e E ev by (auto simp: core_step_def Let_def split: if_splits)
    then obtain s1 where x: "x = Inr s1" by blast
    show ?thesis using event_stays [OF A e [unfolded x]] ev x by blast
  qed
  show ?thesis
  proof (cases ev)
    case Go
    then show ?thesis using exec_inv [OF A] e E by (simp add: core_step_def Let_def)
  next
    case (Wake k)
    obtain u s1 where u: "s_wait_remove k s = (u, s1)" by (cases "s_wait_remove k s")
    have f: "is_code f" using e E Wake by (simp add: core_step_def Let_def split: if_splits)
    show ?thesis
    proof (cases u)
      case None
      then have "x = Inr s" using e E Wake u f nothing_removed(2) [of k s s1] by (simp add: core_step_def Let_def)
      then show ?thesis using ok I by blast
    next
      case (Some v)
      note W = queues_wait_remove [OF D(2) u [unfolded Some]]
      have "sched_inv (set_stack t (Sched v # f # r) s1) (pl(v := Woken t))"
        using code_takes [OF A f same_but_queuesI(5) [OF u] W(2)] W(1) by simp
      moreover have "x = Inr (set_stack t (Sched v # f # r) s1)" using e E Wake u Some f by (simp add: core_step_def Let_def)
      ultimately show ?thesis using ok by blast
    qed
  next
    case (Alloc u pd)
    then have f: "f = New" "u \<noteq> 0" "\<not> live s u" "x = Inr (set_stack t (Sched u # r) (s_new_tcb u pd s))"
      using e E by (auto simp: core_step_def Let_def split: if_splits)
    then show ?thesis using ok moves_alloc [of s pl c t r u pd] A by blast
  qed (use stays in blast)+
qed

section \<open>The start\<close>

lemma fresh_inv:
  assumes I: "sched_inv s pl" and u: "u \<noteq> 0" "\<not> live s u"
  shows "sched_inv (s_schedule u (s_new_tcb u pd s)) (pl(u := Ready))"
proof -
  let ?n = "s_new_tcb u pd s"
  let ?s = "s_schedule u ?n"
  have B: "body_ok s pl" and Q: "queues_ok (ths s) (waitQ s) pl" using I by (simp_all add: sched_inv_def)
  have w: "pl u = Nowhere" and st: "stacks s u = []" and i: "\<not> idle_of s u"
    using at_placeD [OF B, of u] u(2) by (cases "pl u"; auto simp: parked_def)+
  have idle: "idle_of ?s = idle_of s" "idle_of ?n = idle_of s" using i by (simp_all add: s_new_tcb_def fun_upd_idem)
  have F: "step_frame (totalProcs s) {u} s pl ?s (pl(u := Ready))"
    using w idle by (auto simp: step_frame_def s_new_tcb_def)
  have C: "cpu_ok s pl d" if "d < totalProcs s" for d using B that by (simp add: body_ok_def)
  have "cpu_ok ?s (pl(u := Ready)) d" if "d < totalProcs s" for d
    using cpu_ok_other [OF F _ C [OF that]] that by simp
  moreover have "at_place ?s x ((pl(u := Ready)) x)" for x
  proof (cases "x = u")
    case True
    then show ?thesis using u i idle
      by (simp add: parked_def parked_stack_def resumes_def, auto simp: s_new_tcb_def bottom_def base_def nohold_def)
  next
    case False
    have "pl x \<noteq> Core (totalProcs s) \<and> pl x \<noteq> Picked (totalProcs s) \<and> pl x \<noteq> Leaving (totalProcs s)"
      using at_placeD [OF B, of x] by auto
    then show ?thesis using at_place_other [OF F _ at_placeD [OF B] C, of x] False by simp
  qed
  moreover have "pl x \<noteq> Woken u \<and> pl x \<noteq> Dying u" for x
    using B st by (metis body_ok_def held_ok_def count_list.simps(1) zero_neq_one)
  then have "held_ok ?s (pl(u := Ready))"
    using B w by (auto simp: body_ok_def held_ok_def s_new_tcb_def)
  moreover have "idles_ok ?s" using B idle by (simp add: body_ok_def idles_ok_def s_new_tcb_def)
  moreover have "totalProcs ?n = totalProcs s" by (simp add: s_new_tcb_def)
  ultimately have "body_ok ?s (pl(u := Ready))" by (simp add: body_ok_def)
  moreover have "queues_ok (ths ?n) (waitQ ?n) pl" using Q by (simp add: s_new_tcb_def queues_ok_def)
  then have "queues_ok (ths ?s) (waitQ ?s) (pl(u := Ready))"
    using queues_schedule [of ?n pl u] w u(1) i idle by simp
  ultimately show ?thesis by (simp add: sched_inv_def)
qed

lemma fresh_fold_inv:
  "sched_inv s pl \<Longrightarrow> distinct fresh \<Longrightarrow> 0 \<notin> set fresh \<Longrightarrow> (\<forall>t \<in> set fresh. \<not> live s t) \<Longrightarrow>
     \<exists>pl'. sched_inv (fold (\<lambda>t s. s_schedule t (s_new_tcb t (pds t) s)) fresh s) pl'"
proof (induction fresh arbitrary: s pl)
  case (Cons u fresh)
  let ?s = "s_schedule u (s_new_tcb u (pds u) s)"
  have I: "sched_inv ?s (pl(u := Ready))" using fresh_inv [OF Cons.prems(1), of u "pds u"] Cons.prems by auto
  have "live ?s = (live s)(u := True)" by (simp add: s_new_tcb_def)
  then have "\<forall>t \<in> set fresh. \<not> live ?s t" using Cons.prems(2,4) by auto
  then show ?case using Cons.IH [OF I] Cons.prems(2,3) by simp
qed auto

lemma s_threadsInit_inv:
  assumes "inj_on idle {..<n}" "\<And>c. c < n \<Longrightarrow> idle c \<noteq> 0"
  shows "\<exists>pl. sched_inv (s_threadsInit n idle pds) pl"
proof -
  define pl where "pl = (\<lambda>t. if t \<in> idle ` {..<n} then Core (inv_into {..<n} idle t) else Nowhere)"
  let ?s = "s_threadsInit n idle pds"
  have inv: "inv_into {..<n} idle (idle c) = c" if "c < n" for c using assms(1) that by (simp add: inv_into_f_f)
  have "cpu_ok ?s pl c" if "c < n" for c
    using that inv [OF that] by (simp add: cpu_ok_def s_threadsInit_def pl_def bottom_def nohold_def)
  moreover have "at_place ?s t (pl t)" for t
    using assms(2) inv by (auto simp: pl_def s_threadsInit_def)
  moreover have "held_ok ?s pl" by (auto simp: held_ok_def s_threadsInit_def pl_def)
  moreover have "idles_ok ?s" using assms(1) by (simp add: idles_ok_def s_threadsInit_def)
  ultimately have "body_ok ?s pl" by (simp add: body_ok_def s_threadsInit_def)
  moreover have "queues_ok (ths ?s) (waitQ ?s) pl"
    by (rule queues_okI [where rs = "[]" and zs = "[]" and ws = "\<lambda>k. []"])
      (auto simp: s_threadsInit_def q_holds_def empty_queue_def pl_def)
  ultimately show ?thesis by (auto simp: sched_inv_def)
qed

lemma s_start_inv:
  assumes ok: "start_ok n idle fresh"
  shows "\<exists>pl. sched_inv (s_start n idle pds fresh) pl"
proof -
  have i: "inj_on idle {..<n}" "\<And>c. c < n \<Longrightarrow> idle c \<noteq> 0" and f: "distinct fresh" "0 \<notin> set fresh" "set fresh \<inter> idle ` {..<n} = {}"
    using ok by (auto simp: start_ok_def distinct_map atLeast0LessThan)
  obtain pl where I: "sched_inv (s_threadsInit n idle pds) pl" using s_threadsInit_inv [OF i] by blast
  have "\<forall>t \<in> set fresh. \<not> live (s_threadsInit n idle pds) t" using f(3) by (auto simp: s_threadsInit_def)
  then show ?thesis using fresh_fold_inv [OF I f(1,2)] unfolding s_start_def by blast
qed

lemma fresh_flags:
  assumes "sched_flags_ok s" "\<And>c. c < totalProcs s \<Longrightarrow> esp (cpus s c) \<notin> set fresh"
  shows "sched_flags_ok (fold (\<lambda>t s. s_schedule t (s_new_tcb t (pds t) s)) fresh s)"
  using assms
proof (induction fresh arbitrary: s)
  case (Cons u fresh)
  let ?s = "s_schedule u (s_new_tcb u (pds u) s)"
  have F: "sched_flags_ok ?s"
    using Cons.prems by (auto simp: sched_flags_ok_def core_flag_def s_new_tcb_def)
  have "totalProcs ?s = totalProcs s" "cpus ?s = cpus s" by (simp_all add: s_new_tcb_def)
  then show ?case using Cons.IH [OF F] Cons.prems(2) by simp
qed simp

lemma s_start_flags:
  assumes "start_ok n idle fresh"
  shows "sched_flags_ok (s_start n idle pds fresh)"
proof -
  have "sched_flags_ok (s_threadsInit n idle pds)" by (auto simp: sched_flags_ok_def core_flag_def s_threadsInit_def)
  then show ?thesis
    unfolding s_start_def
    by (rule fresh_flags) (use assms in \<open>fastforce simp: start_ok_def s_threadsInit_def\<close>)
qed

lemma s_reach_all: "s_reach s \<Longrightarrow> (\<exists>pl. sched_inv s pl) \<and> sched_flags_ok s"
proof (induction rule: s_reach.induct)
  case (start n idle fresh pds)
  then show ?case using s_start_inv s_start_flags by blast
next
  case (step s c ev s')
  then obtain pl where I: "sched_inv s pl" and F: "sched_flags_ok s" by blast
  from core_step_inv [OF I F step.hyps(2,3)] flags_step [OF I F step.hyps(2,3)] show ?case by auto
qed

lemmas s_reach_inv = conjunct1 [OF s_reach_all]
lemmas s_reach_flags = conjunct2 [OF s_reach_all]

end
