(* ===== verification/Sched_Spec.thy ===== *)
theory Sched_Spec
  imports Sched_Safe
begin

text \<open>
  What the scheduler promises, for every reachable state.
\<close>

section \<open>Runs of one core\<close>

primrec core_run :: "nat \<Rightarrow> event list \<Rightarrow> sched \<Rightarrow> sched option" where
  "core_run c [] s = Some s"
| "core_run c (ev # evs) s = (case core_step c ev s of Some (Inr s') \<Rightarrow> core_run c evs s' | _ \<Rightarrow> None)"

lemma queue_procs [simp]:
  "totalProcs (s_zombie_add t s) = totalProcs s" "totalProcs (s_wait_add k t s) = totalProcs s"
  "s_zombie_remove s = (x, s1) \<Longrightarrow> totalProcs s1 = totalProcs s" "s_wait_remove k s = (x, s1) \<Longrightarrow> totalProcs s1 = totalProcs s"
  by (auto simp: s_zombie_add_def s_wait_add_def s_zombie_remove_def s_wait_remove_def split: prod.splits)

lemma set_procs [simp]:
  "totalProcs (set_stack t fs s) = totalProcs s" "totalProcs (set_cpu c u s) = totalProcs s" "totalProcs (set_ie c b s) = totalProcs s"
  "totalProcs (set_np t b s) = totalProcs s" "totalProcs (s_delete t s) = totalProcs s" "totalProcs (s_new_tcb t pd s) = totalProcs s"
  by (simp_all add: set_stack_def set_cpu_def set_ie_def set_np_def s_delete_def s_new_tcb_def)

lemma exec_procs: "exec c t f r s = Some (Inr s') \<Longrightarrow> totalProcs s' = totalProcs s"
  by (cases f) (auto simp: Let_def split: prod.splits option.splits if_splits)

lemma core_step_procs: "core_step c ev s = Some (Inr s') \<Longrightarrow> totalProcs s' = totalProcs s"
proof (cases "pend (cpus s c)")
  case (Some p)
  assume "core_step c ev s = Some (Inr s')"
  then show ?thesis using Some by (cases p; cases "fst p") (auto simp: core_step_def Let_def split: if_splits)
next
  case None
  assume "core_step c ev s = Some (Inr s')"
  then show ?thesis using None
    by (auto simp: core_step_def Let_def exec_procs split: list.splits event.splits if_splits prod.splits option.splits)
qed

lemma reach_run: "s_reach s \<Longrightarrow> c < totalProcs s \<Longrightarrow> core_run c evs s = Some s' \<Longrightarrow> s_reach s'"
proof (induction evs arbitrary: s)
  case (Cons ev evs)
  then obtain s1 where e: "core_step c ev s = Some (Inr s1)" "core_run c evs s1 = Some s'"
    by (auto split: option.splits sum.splits)
  show ?case using Cons.IH [OF s_reach.step [OF Cons.prems(1,2) e(1)] _ e(2)] core_step_procs [OF e(1)] Cons.prems(2) by simp
qed simp

text \<open>A machine with \<open>n\<close> cores and two threads that are ready, after core 0 has made some steps.\<close>

definition demo_start :: "nat \<Rightarrow> sched" where
  "demo_start n = s_start n (\<lambda>c. of_nat (4 * c + 4)) (\<lambda>t. t + 0x1000) [1000, 1004]"

definition demo :: "nat \<Rightarrow> event list \<Rightarrow> sched" where
  "demo n evs = the (core_run 0 evs (demo_start n))"

lemma demo_reach:
  assumes "start_ok n (\<lambda>c. of_nat (4 * c + 4)) [1000, 1004]" "0 < totalProcs (demo_start n)" "core_run 0 evs (demo_start n) \<noteq> None"
  shows "s_reach (demo n evs)"
proof -
  obtain s' where s': "core_run 0 evs (demo_start n) = Some s'" using assms(3) by blast
  have "s_reach (demo_start n)" unfolding demo_start_def by (rule s_reach.start [OF assms(1)])
  then have "s_reach s'" using assms(2) s' by (rule reach_run)
  then show ?thesis using s' by (simp add: demo_def)
qed

lemma parkedD: "parked s t \<Longrightarrow> live s t \<and> (\<exists>f r. stacks s t = SParked f # r)"
  unfolding parked_def parked_stack_def by blast

section \<open>Safety\<close>

text \<open>C6: Scheduling is safe.  Whatever the cores and the timer do and in whatever order, no assertion of
  \<^verbatim>\<open>block\<close>, of \<^verbatim>\<open>stop\<close>, of the reaper or of a waiting thread fails, no two cores are ever in the same stack, and the stack a
  core is in belongs to a thread that has not been deleted.\<close>

theorem scheduler_safe:
  assumes "s_reach s" and "c < totalProcs s"
  shows "(\<forall>ev e. core_step c ev s \<noteq> Some (Inl e)) \<and>
    live s (esp (cpus s c)) \<and> stacks s (esp (cpus s c)) \<noteq> [] \<and>
    (\<forall>d < totalProcs s. d \<noteq> c \<longrightarrow> esp (cpus s d) \<noteq> esp (cpus s c))"
proof -
  obtain pl where I: "sched_inv s pl" using s_reach_inv [OF assms(1)] by blast
  then have B: "body_ok s pl" by (simp add: sched_inv_def)
  have P: "pl (esp (cpus s d)) = Core d" if "d < totalProcs s" for d
    using B that by (simp add: body_ok_def cpu_ok_def Let_def)
  have "core_step c ev s \<noteq> Some (Inl e)" for ev e
    using core_step_inv [OF I s_reach_flags [OF assms(1)] assms(2), of ev "Inl e"] by auto
  moreover have "live s (esp (cpus s c))" using at_placeD [OF B, of "esp (cpus s c)"] P [OF assms(2)] by simp
  moreover have "stacks s (esp (cpus s c)) \<noteq> []"
    using B assms(2) by (auto simp: body_ok_def cpu_ok_def Let_def parked_stack_def split: option.splits)
  moreover have "esp (cpus s d) \<noteq> esp (cpus s c)" if "d < totalProcs s" "d \<noteq> c" for d
    using P [OF that(1)] P [OF assms(2)] that(2) by auto
  ultimately show ?thesis by blast
qed

lemma scheduler_safe_witness:
  "esp (cpus (demo 2 (replicate 15 Go)) 0) = 1000 \<and> esp (cpus (demo 2 (replicate 15 Go)) 1) \<noteq> 1000"
proof -
  have "s_reach (demo 2 (replicate 15 Go))" by (rule demo_reach) (code_simp)+
  moreover have e: "totalProcs (demo 2 (replicate 15 Go)) = 2" "esp (cpus (demo 2 (replicate 15 Go)) 0) = 1000" by code_simp+
  ultimately show ?thesis using scheduler_safe [of "demo 2 (replicate 15 Go)" 0] by (metis one_less_numeral_iff semiring_norm(76) zero_less_numeral zero_neq_one)
qed

text \<open>C7: The queues are apart.  In every reachable state the linked ready queue, the zombies and each
  queue of waiting threads are in order, a thread is in one of them at most, and the threads in them are not
  deleted, run on no core and are stopped inside \<^verbatim>\<open>gheith_contextSwitch\<close>; so every \<^verbatim>\<open>add\<close> finds an element that is in
  no queue.\<close>

theorem queues_apart:
  assumes "s_reach s"
  shows "\<exists>rs zs ws. q_holds (tlinks (ths s), readyQ (ths s)) rs \<and> q_holds (tlinks (ths s), zombies (ths s)) zs \<and>
    (\<forall>n. q_holds (tlinks (ths s), waitQ s n) (ws n)) \<and> set rs \<inter> set zs = {} \<and>
    (\<forall>n. set (ws n) \<inter> (set rs \<union> set zs) = {} \<and> (\<forall>m. m \<noteq> n \<longrightarrow> set (ws n) \<inter> set (ws m) = {})) \<and>
    (\<forall>t \<in> set rs \<union> set zs \<union> (\<Union>n. set (ws n)). live s t \<and> (\<exists>f r. stacks s t = SParked f # r) \<and>
       (\<forall>c < totalProcs s. esp (cpus s c) \<noteq> t))"
proof -
  obtain pl where I: "sched_inv s pl" using s_reach_inv [OF assms(1)] by blast
  then have B: "body_ok s pl" and Q: "queues_ok (ths s) (waitQ s) pl" by (simp_all add: sched_inv_def)
  obtain rs zs ws where H: "q_holds (tlinks (ths s), readyQ (ths s)) rs" "q_holds (tlinks (ths s), zombies (ths s)) zs"
    "\<And>n. q_holds (tlinks (ths s), waitQ s n) (ws n)"
    and P: "\<And>t. t \<in> set rs \<longleftrightarrow> pl t = Ready" "\<And>t. t \<in> set zs \<longleftrightarrow> pl t = Zombie" "\<And>n t. t \<in> set (ws n) \<longleftrightarrow> pl t = Waiting n"
    using Q by (elim queues_okE) blast
  have C: "pl (esp (cpus s d)) = Core d" if "d < totalProcs s" for d
    using B that by (simp add: body_ok_def cpu_ok_def Let_def)
  have R: "live s t \<and> (\<exists>f r. stacks s t = SParked f # r) \<and> (\<forall>c < totalProcs s. esp (cpus s c) \<noteq> t)" if "queued (pl t)" for t
    using at_placeD [OF B, of t] C that parkedD [of s t] by (auto simp: queued_def)
  have M: "live s t \<and> (\<exists>f r. stacks s t = SParked f # r) \<and> (\<forall>c < totalProcs s. esp (cpus s c) \<noteq> t)"
    if "t \<in> set rs \<union> set zs \<union> (\<Union>n. set (ws n))" for t
  proof -
    have "queued (pl t)" using that by (auto simp: P)
    then show ?thesis by (rule R)
  qed
  have apart: "set rs \<inter> set zs = {}" "\<And>n. set (ws n) \<inter> (set rs \<union> set zs) = {}" "\<And>n m. m \<noteq> n \<Longrightarrow> set (ws n) \<inter> set (ws m) = {}"
    by (auto simp: P)
  have all: "\<forall>t \<in> set rs \<union> set zs \<union> (\<Union>n. set (ws n)). live s t \<and> (\<exists>f r. stacks s t = SParked f # r) \<and>
      (\<forall>c < totalProcs s. esp (cpus s c) \<noteq> t)" by (rule ballI) (rule M)
  show ?thesis
    by (rule exI [of _ rs], rule exI [of _ zs], rule exI [of _ ws], intro conjI allI impI) (rule H apart all; assumption?)+
qed

lemma queues_apart_witness:
  "\<exists>rs. q_holds (tlinks (ths (demo 2 (replicate 15 Go))), readyQ (ths (demo 2 (replicate 15 Go)))) rs"
proof -
  have "s_reach (demo 2 (replicate 15 Go))" by (rule demo_reach) (code_simp)+
  from queues_apart [OF this] show ?thesis by blast
qed

text \<open>C8: A thread runs as itself.  While a core is in a thread's own code, \<^verbatim>\<open>current()\<close> is that thread, the
  core's page directory is the one of its control block, a trap from user mode enters its own kernel stack,
  and it is not an idle thread.\<close>

theorem thread_runs_as_itself:
  assumes "s_reach s" and "c < totalProcs s" and "pend (cpus s c) = None"
    and "stacks s (esp (cpus s c)) = f # r" and "is_code f"
  shows "s_current c s = esp (cpus s c) \<and> cr3 (cpus s c) = save_cr3 s (esp (cpus s c)) \<and>
    esp0 s c = esp (cpus s c) \<and> \<not> isIdle (ths s) (esp (cpus s c))"
proof -
  obtain pl where I: "sched_inv s pl" using s_reach_inv [OF assms(1)] by blast
  then have A: "at_core s pl c (esp (cpus s c)) f r" using assms by (simp add: at_core_def)
  have "f \<noteq> Apit" using assms(5) by auto
  from code_point [OF at_coreD(12) [OF A this]] at_coreD(8) [OF A] assms(5) show ?thesis
    by (simp add: s_current_def)
qed

lemma thread_runs_as_itself_witness:
  "cr3 (cpus (demo 2 (replicate 15 Go)) 0) = 1000 + 0x1000"
proof -
  let ?s = "demo 2 (replicate 15 Go)"
  have r: "s_reach ?s" by (rule demo_reach) (code_simp)+
  have "0 < totalProcs ?s" "pend (cpus ?s 0) = None" "stacks ?s (esp (cpus ?s 0)) = Run # [EntryStop]" by code_simp+
  from thread_runs_as_itself [OF r this] have "cr3 (cpus ?s 0) = save_cr3 ?s (esp (cpus ?s 0))" by simp
  moreover have "save_cr3 ?s (esp (cpus ?s 0)) = 1000 + 0x1000" by code_simp
  ultimately show ?thesis by simp
qed

section \<open>What a yield does\<close>

lemma links_list_unique: "links_list l a xs \<Longrightarrow> links_list l a ys \<Longrightarrow> xs = ys"
proof (induction xs arbitrary: a ys)
  case Nil
  then show ?case by (cases ys) auto
next
  case (Cons x xs)
  then show ?case by (cases ys) auto
qed

lemma q_holds_unique: "q_holds s xs \<Longrightarrow> q_holds s ys \<Longrightarrow> xs = ys"
  using links_list_unique by (fastforce simp: q_holds_def split: prod.splits)

text \<open>C34: A yield that finds no other thread leaves the thread unpreemptable.  When the ready queue is empty
  \<^verbatim>\<open>block\<close> returns with \<^verbatim>\<open>no_preempt\<close> still set; from then on, until the thread leaves the core by itself, a
  timer interrupt returns to it at once and changes nothing, whatever threads have become ready.\<close>

theorem lone_yield_blocks_timer:
  assumes "s_reach s" and "c < totalProcs s" and "pend (cpus s c) = None"
    and "stacks s (esp (cpus s c)) = BAgain CanReturn a k me # r" and "fst (ready_remove (ths s)) = None"
  shows "\<exists>s1. core_step c Go s = Some (Inr s1) \<and> stacks s1 (esp (cpus s c)) = r \<and> no_preempt s1 (activeThreads s1 c) \<and>
    (\<forall>s2. no_preempt s2 (activeThreads s2 c) \<and> pend (cpus s2 c) = None \<and> ie (cpus s2 c) \<and>
       stacks s2 (esp (cpus s2 c)) \<noteq> [] \<longrightarrow> core_run c [Tick, Go] s2 = Some s2)"
proof -
  obtain pl where I: "sched_inv s pl" using s_reach_inv [OF assms(1)] by blast
  let ?t = "esp (cpus s c)"
  have A: "at_core s pl c ?t (BAgain CanReturn a k me) r" using I assms by (simp add: at_core_def)
  have P: "activeThreads s c = ?t" "no_preempt s ?t" using at_coreD(12) [OF A] by simp_all
  have "core_step c Go s = Some (Inr (set_stack ?t r s))"
    using assms(3-5) by (cases "ready_remove (ths s)") (simp add: core_step_def Let_def)
  moreover have "core_run c [Tick, Go] s2 = Some s2"
    if "no_preempt s2 (activeThreads s2 c)" "pend (cpus s2 c) = None" "ie (cpus s2 c)" "stacks s2 (esp (cpus s2 c)) \<noteq> []" for s2
    using that by (cases "stacks s2 (esp (cpus s2 c))")
      (simp_all add: core_step_def set_stack_def set_ie_def set_cpu_def Let_def fun_upd_idem)
  ultimately show ?thesis using P by (auto simp: set_stack_def)
qed

lemma lone_yield_blocks_timer_witness:
  "\<exists>s1. core_step 0 Go (demo 1 (replicate 15 Go @ [Wait 0] @ replicate 14 Go @ [Yield, Go])) = Some (Inr s1) \<and>
     no_preempt s1 (activeThreads s1 0)"
proof -
  let ?s = "demo 1 (replicate 15 Go @ [Wait 0] @ replicate 14 Go @ [Yield, Go])"
  have r: "s_reach ?s" by (rule demo_reach) (code_simp)+
  have "0 < totalProcs ?s" "pend (cpus ?s 0) = None"
    "stacks ?s (esp (cpus ?s 0)) = BAgain CanReturn AYield 0 1004 # [Run, EntryStop]" "fst (ready_remove (ths ?s)) = None" by code_simp+
  from lone_yield_blocks_timer [OF r this] show ?thesis by blast
qed

text \<open>C31: A yield is round robin.  A thread that yields while others are ready goes to the end of the ready queue,
  its stack kept at the point of the call, and the core runs the thread that was first, in that thread's address
  space, at the point where it had left its core and with the interrupt flag it had there; both can be
  preempted again.\<close>

theorem yield_round_robin:
  assumes "s_reach s" and "c < totalProcs s" and "pend (cpus s c) = None"
    and "esp (cpus s c) = t" and "stacks s t = f # r" and "is_code f" and "q_holds (tlinks (ths s), readyQ (ths s)) (n # rs)"
  shows "\<exists>s' b. core_run c (Yield # replicate 12 Go) s = Some s' \<and> esp (cpus s' c) = n \<and> s_current c s' = n \<and> cr3 (cpus s' c) = save_cr3 s n \<and>
    q_holds (tlinks (ths s'), readyQ (ths s')) (rs @ [t]) \<and> stacks s n = SParked b # stacks s' n \<and> ie (cpus s' c) = b \<and>
    stacks s' t = SParked (ie (cpus s c)) # f # r \<and> \<not> no_preempt s' n \<and> \<not> no_preempt s' t"
proof -
  obtain pl where I: "sched_inv s pl" using s_reach_inv [OF assms(1)] by blast
  have A: "at_core s pl c t f r" using I assms by (simp add: at_core_def)
  note D = at_coreD [OF A]
  have f: "f \<noteq> Apit" using assms(6) by auto
  have G: "activeThreads s c = t" "\<not> idle_of s t" using code_point [OF D(12) [OF f]] assms(6) by auto
  obtain l q where a: "q_remove (tlinks (ths s), readyQ (ths s)) = (Some n, l, q)"
    using q_remove_holds [OF assms(7)] by (cases "q_remove (tlinks (ths s), readyQ (ths s))") auto
  then have rr: "ready_remove (ths s) = (Some n, (ths s)\<lparr>tlinks := l, readyQ := q\<rparr>)" by (simp add: ready_remove_def)
  have q: "q_holds (l, q) rs" using q_remove_holds [OF assms(7)] a by simp
  have "pl n = Ready" using queues_ready_remove(1) [OF D(2) rr] .
  then have pn: "parked s n" "n \<noteq> t" using at_placeD [OF D(1), of n] D(7) by auto
  obtain b r' where n: "stacks s n = SParked b # r'" using parkedD [OF pn(1)] by blast
  have sv: "save_esp s n = n" using pn(1) by (simp add: parked_def)
  obtain rs' where "q_holds (tlinks (ths s), readyQ (ths s)) rs'" "\<And>x. x \<in> set rs' \<longleftrightarrow> pl x = Ready"
    using D(2) by (elim queues_okE) blast
  then have "t \<notin> set (n # rs)" using q_holds_unique [OF assms(7)] D(7) by fastforce
  moreover obtain l' q' where b: "q_add t (l, q) = (l', q')" by (cases "q_add t (l, q)")
  ultimately have q': "q_holds (l', q') (rs @ [t])" using q_add_holds [OF q D(10)] by simp
  have code: "is_code f" "f \<noteq> Apit" by (fact assms(6) f)+
  have rep: "replicate 12 Go = [Go, Go, Go, Go, Go, Go, Go, Go, Go, Go, Go, Go]" by (simp add: eval_nat_numeral)
  show ?thesis
    unfolding rep
    by (simp add: core_step_def step_simps assms(3-6) G rr n sv pn(2) pn(2) [symmetric] s_schedule_def schedule_def b q')
qed

lemma yield_round_robin_witness:
  "\<exists>s'. core_run 0 (Yield # replicate 12 Go) (demo 1 (replicate 15 Go)) = Some s' \<and> esp (cpus s' 0) = 1004"
proof -
  let ?s = "demo 1 (replicate 15 Go)"
  have r: "s_reach ?s" by (rule demo_reach) (code_simp)+
  have s: "0 < totalProcs ?s" "pend (cpus ?s 0) = None" "esp (cpus ?s 0) = 1000" "stacks ?s 1000 = Run # [EntryStop]" "is_code Run"
    by code_simp+
  have "q_holds (tlinks (ths ?s), readyQ (ths ?s)) (1004 # [])" by code_simp
  from yield_round_robin [OF r s this] show ?thesis by blast
qed

end
