(* ===== verification/Bounded_Buffer.thy ===== *)
theory Bounded_Buffer
  imports Sync Counting
begin

text \<open>
  The bounded buffer of \<^verbatim>\<open>kernel/bb.h\<close>, under every interleaving of any number of threads that put
  and get.  A semaphore is its count here: \<^verbatim>\<open>down\<close> takes one when there is one, a thread that waits is
  one that cannot move, and an \<^verbatim>\<open>up\<close> that hands over to a waiting thread is the \<^verbatim>\<open>up\<close> followed by
  that thread's move.  The counts and contents are what the three semaphores of the buffer protect.
\<close>

section \<open>The buffer and its threads\<close>

text \<open>Where a thread is in \<^verbatim>\<open>put\<close> or \<^verbatim>\<open>get\<close>: before each of their statements.\<close>

datatype 'v bpc = Idle
  | P_down 'v | P_lock 'v | P_store 'v | P_inc 'v | P_unlock | P_up
  | G_down | G_lock | G_load | G_head 'v | G_dec 'v | G_unlock 'v | G_up 'v

text \<open>\<open>ins\<close> and \<open>outs\<close> record the values stored and loaded, in order.\<close>

record 'v bbuf =
  bhead :: u32
  bn :: u32
  bN :: u32
  bdata :: "'v list"
  nEmpty :: nat
  nFull :: nat
  block :: nat
  pcs :: "'v bpc list"
  ins :: "'v list"
  outs :: "'v list"

definition new_buffer :: "u32 \<Rightarrow> 'v list \<Rightarrow> nat \<Rightarrow> 'v bbuf" where
  "new_buffer capacity store threads = \<lparr>bhead = 0, bn = 0, bN = capacity, bdata = store, nEmpty = unat capacity, nFull = 0,
     block = 1, pcs = replicate threads Idle, ins = [], outs = []\<rparr>"

definition goes :: "nat \<Rightarrow> 'v bpc \<Rightarrow> 'v bbuf \<Rightarrow> 'v bbuf" where
  "goes i p s = s\<lparr>pcs := (pcs s)[i := p]\<rparr>"

text \<open>The next statement of a thread, when it can be executed.\<close>

definition bmove :: "nat \<Rightarrow> 'v bbuf \<Rightarrow> 'v bbuf option" where
  "bmove i s =
     (case pcs s ! i of
        Idle \<Rightarrow> None
      | P_down v \<Rightarrow> if nEmpty s = 0 then None else Some (goes i (P_lock v) (s\<lparr>nEmpty := nEmpty s - 1\<rparr>))
      | P_lock v \<Rightarrow> if block s = 0 then None else Some (goes i (P_store v) (s\<lparr>block := block s - 1\<rparr>))
      | P_store v \<Rightarrow> Some (goes i (P_inc v)
          (s\<lparr>bdata := (bdata s)[unat ((bhead s + bn s) mod bN s) := v], ins := ins s @ [v]\<rparr>))
      | P_inc v \<Rightarrow> Some (goes i P_unlock (s\<lparr>bn := bn s + 1\<rparr>))
      | P_unlock \<Rightarrow> Some (goes i P_up (s\<lparr>block := block s + 1\<rparr>))
      | P_up \<Rightarrow> Some (goes i Idle (s\<lparr>nFull := nFull s + 1\<rparr>))
      | G_down \<Rightarrow> if nFull s = 0 then None else Some (goes i G_lock (s\<lparr>nFull := nFull s - 1\<rparr>))
      | G_lock \<Rightarrow> if block s = 0 then None else Some (goes i G_load (s\<lparr>block := block s - 1\<rparr>))
      | G_load \<Rightarrow> (let v = bdata s ! unat (bhead s) in Some (goes i (G_head v) (s\<lparr>outs := outs s @ [v]\<rparr>)))
      | G_head v \<Rightarrow> Some (goes i (G_dec v) (s\<lparr>bhead := (bhead s + 1) mod bN s\<rparr>))
      | G_dec v \<Rightarrow> Some (goes i (G_unlock v) (s\<lparr>bn := bn s - 1\<rparr>))
      | G_unlock v \<Rightarrow> Some (goes i (G_up v) (s\<lparr>block := block s + 1\<rparr>))
      | G_up v \<Rightarrow> Some (goes i Idle (s\<lparr>nEmpty := nEmpty s + 1\<rparr>)))"

inductive bstep :: "'v bbuf \<Rightarrow> 'v bbuf \<Rightarrow> bool" where
  put: "i < length (pcs s) \<Longrightarrow> pcs s ! i = Idle \<Longrightarrow> bstep s (goes i (P_down v) s)"
| get: "i < length (pcs s) \<Longrightarrow> pcs s ! i = Idle \<Longrightarrow> bstep s (goes i G_down s)"
| move: "i < length (pcs s) \<Longrightarrow> bmove i s = Some s' \<Longrightarrow> bstep s s'"

section \<open>The invariant\<close>

text \<open>Who has taken a place and not yet filled it, has emptied a place and not yet said so, has filled one
  and not yet said so, has been promised a value and not yet taken it, and who is inside the lock.\<close>

fun filling :: "'v bpc \<Rightarrow> bool" where
  "filling (P_lock v) = True" | "filling (P_store v) = True" | "filling (P_inc v) = True" | "filling _ = False"

fun emptied :: "'v bpc \<Rightarrow> bool" where
  "emptied (G_unlock v) = True" | "emptied (G_up v) = True" | "emptied _ = False"

fun filled :: "'v bpc \<Rightarrow> bool" where
  "filled P_unlock = True" | "filled P_up = True" | "filled _ = False"

fun taking :: "'v bpc \<Rightarrow> bool" where
  "taking G_lock = True" | "taking G_load = True" | "taking (G_head v) = True" | "taking (G_dec v) = True" | "taking _ = False"

fun inside :: "'v bpc \<Rightarrow> bool" where
  "inside (P_store v) = True" | "inside (P_inc v) = True" | "inside P_unlock = True" | "inside G_load = True"
| "inside (G_head v) = True" | "inside (G_dec v) = True" | "inside (G_unlock v) = True" | "inside _ = False"

text \<open>The values in the buffer, oldest first.\<close>

definition slot_at :: "u32 \<Rightarrow> u32 \<Rightarrow> nat \<Rightarrow> nat" where
  "slot_at h m i = (unat h + i) mod unat m"

definition ring :: "u32 \<Rightarrow> u32 \<Rightarrow> 'v list \<Rightarrow> nat \<Rightarrow> 'v list" where
  "ring h m d n = map (\<lambda>i. d ! slot_at h m i) [0..<n]"

abbreviation contents :: "'v bbuf \<Rightarrow> nat \<Rightarrow> 'v list" where
  "contents s \<equiv> ring (bhead s) (bN s) (bdata s)"

text \<open>What is still to come out, by what the thread inside the lock has done so far.\<close>

definition pending :: "'v bbuf \<Rightarrow> 'v bpc \<Rightarrow> 'v list" where
  "pending s p =
     (case p of
        P_inc v \<Rightarrow> contents s (unat (bn s) + 1)
      | G_head v \<Rightarrow> tl (contents s (unat (bn s)))
      | G_dec v \<Rightarrow> contents s (unat (bn s) - 1)
      | _ \<Rightarrow> contents s (unat (bn s)))"

definition binv :: "'v bbuf \<Rightarrow> bool" where
  "binv s \<longleftrightarrow>
     0 < bN s \<and> bN s \<le> 0x80000000 \<and> length (bdata s) = unat (bN s) \<and> bhead s < bN s \<and>
     nEmpty s + num filling (pcs s) + unat (bn s) + num emptied (pcs s) = unat (bN s) \<and>
     nFull s + num taking (pcs s) + num filled (pcs s) = unat (bn s) \<and>
     block s + num inside (pcs s) = 1 \<and>
     (\<forall>i < length (pcs s). inside (pcs s ! i) \<longrightarrow> ins s = outs s @ pending s (pcs s ! i)) \<and>
     (num inside (pcs s) = 0 \<longrightarrow> ins s = outs s @ contents s (unat (bn s)))"

lemma goes_simps [simp]:
  "bhead (goes i p s) = bhead s" "bn (goes i p s) = bn s" "bN (goes i p s) = bN s" "bdata (goes i p s) = bdata s"
  "nEmpty (goes i p s) = nEmpty s" "nFull (goes i p s) = nFull s" "block (goes i p s) = block s"
  "pcs (goes i p s) = (pcs s)[i := p]" "ins (goes i p s) = ins s" "outs (goes i p s) = outs s"
  by (simp_all add: goes_def)

lemma slot_inj:
  assumes "slot_at h m i = slot_at h m j" "i \<le> j" "j < unat m"
  shows "i = j"
proof -
  have "((unat h + j) - (unat h + i)) mod unat m = 0"
    by (rule mod_eq_dvd_iff_nat [THEN iffD1, THEN dvd_imp_mod_0]) (use assms in \<open>simp_all add: slot_at_def\<close>)
  then show ?thesis using assms by simp
qed

text \<open>Storing behind the contents.\<close>

lemma ring_store:
  assumes "n < unat m" "length d = unat m"
  shows "ring h m (d[slot_at h m n := v]) (Suc n) = ring h m d n @ [v]"
proof -
  have "slot_at h m n < length d" using assms by (simp add: slot_at_def)
  moreover have "slot_at h m n \<noteq> slot_at h m i" if "i < n" for i
    using slot_inj [of h m i n] that assms(1) by auto
  ultimately show ?thesis by (auto simp: ring_def nth_list_update)
qed

text \<open>Moving the head.\<close>

lemma ring_head:
  assumes "h < m" "m \<le> 0x80000000" "0 < n"
  shows "ring ((h + 1) mod m) m d (n - 1) = tl (ring h m d n)"
proof -
  have "unat h + 1 < 2 ^ 32" using assms by (simp add: word_less_nat_alt word_le_nat_alt)
  then have "unat (h + 1) = unat h + 1" by (simp add: unat_word_ariths)
  then have "slot_at ((h + 1) mod m) m i = slot_at h m (Suc i)" for i
    by (simp add: slot_at_def unat_mod mod_add_left_eq)
  moreover have "[0..<n] = 0 # map Suc [0..<n - 1]" using assms(3) by (cases n) (simp_all add: upt_conv_Cons map_Suc_upt)
  ultimately show ?thesis by (simp add: ring_def comp_def)
qed

lemma ring_hd: "h < m \<Longrightarrow> 0 < n \<Longrightarrow> d ! unat h # tl (ring h m d n) = ring h m d n"
  by (simp add: ring_def upt_conv_Cons slot_at_def word_less_nat_alt)

lemma put_index:
  assumes "h < m" "m \<le> 0x80000000" "unat n < unat m"
  shows "unat ((h + n) mod m) = slot_at h m (unat n)"
proof -
  have "unat h + unat n < 2 ^ 32" using assms by (simp add: word_less_nat_alt word_le_nat_alt)
  then have "unat (h + n) = unat h + unat n" by (simp add: unat_word_ariths)
  then show ?thesis by (simp add: slot_at_def unat_mod)
qed

text \<open>What the counts say of a thread's place.\<close>

lemma binvD:
  assumes "binv s"
  shows "0 < unat (bN s)" "bN s \<le> 0x80000000" "length (bdata s) = unat (bN s)" "bhead s < bN s" "unat (bn s) \<le> unat (bN s)"
    "i < length (pcs s) \<Longrightarrow> filling (pcs s ! i) \<Longrightarrow> unat (bn s) < unat (bN s)"
    "i < length (pcs s) \<Longrightarrow> taking (pcs s ! i) \<Longrightarrow> 0 < unat (bn s)"
    "i < length (pcs s) \<Longrightarrow> inside (pcs s ! i) \<Longrightarrow> ins s = outs s @ pending s (pcs s ! i)"
    "num inside (pcs s) = 0 \<Longrightarrow> ins s = outs s @ contents s (unat (bn s))"
    "i < length (pcs s) \<Longrightarrow> j < length (pcs s) \<Longrightarrow> inside (pcs s ! i) \<Longrightarrow> inside (pcs s ! j) \<Longrightarrow> j = i"
proof -
  note I = assms [unfolded binv_def]
  show "0 < unat (bN s)" using I by (simp add: word_less_nat_alt)
  show "bN s \<le> 0x80000000" "length (bdata s) = unat (bN s)" "bhead s < bN s" "unat (bn s) \<le> unat (bN s)" using I by simp_all
  show "unat (bn s) < unat (bN s)" if "i < length (pcs s)" "filling (pcs s ! i)" using num_pos [of i "pcs s" filling, OF that] I by linarith
  show "0 < unat (bn s)" if "i < length (pcs s)" "taking (pcs s ! i)" using num_pos [of i "pcs s" taking, OF that] I by linarith
  show "ins s = outs s @ pending s (pcs s ! i)" if "i < length (pcs s)" "inside (pcs s ! i)" using that I by blast
  show "ins s = outs s @ contents s (unat (bn s))" if "num inside (pcs s) = 0" using that I by blast
  show "j = i" if "i < length (pcs s)" "j < length (pcs s)" "inside (pcs s ! i)" "inside (pcs s ! j)"
    by (rule num_unique [OF _ that(2,1,4,3)]) (use I in linarith)
qed

text \<open>A move of thread \<open>i\<close> keeps the invariant when the counts still fit and the log does.\<close>

lemma binv_goes:
  assumes I: "binv s" and i: "i < length (pcs s)"
    and N: "bN s' = bN s" "length (bdata s') = length (bdata s)" "bhead s' < bN s'" "pcs s' = (pcs s)[i := p]"
    and e: "nEmpty s' + (if filling p then 1 else 0) + unat (bn s') + (if emptied p then 1 else 0) =
      nEmpty s + (if filling (pcs s ! i) then 1 else 0) + unat (bn s) + (if emptied (pcs s ! i) then 1 else 0)"
    and f: "nFull s' + (if taking p then 1 else 0) + (if filled p then 1 else 0) + unat (bn s) =
      nFull s + (if taking (pcs s ! i) then 1 else 0) + (if filled (pcs s ! i) then 1 else 0) + unat (bn s')"
    and b: "block s' + (if inside p then 1 else 0) = block s + (if inside (pcs s ! i) then 1 else 0)"
    and c: "inside p \<Longrightarrow> ins s' = outs s' @ pending s' p"
    and d: "\<not> inside p \<Longrightarrow> inside (pcs s ! i) \<Longrightarrow> ins s' = outs s' @ contents s' (unat (bn s'))"
    and o: "\<not> inside p \<Longrightarrow> \<not> inside (pcs s ! i) \<Longrightarrow> ins s' = ins s \<and> outs s' = outs s \<and> bhead s' = bhead s \<and> bn s' = bn s \<and> bdata s' = bdata s"
  shows "binv s'"
proof -
  note U = num_update [OF i, where y = p]
  have b1: "block s + num inside (pcs s) = 1" and e1: "nEmpty s + num filling (pcs s) + unat (bn s) + num emptied (pcs s) = unat (bN s)"
    and f1: "nFull s + num taking (pcs s) + num filled (pcs s) = unat (bn s)" using I by (auto simp: binv_def)
  have same: "pending s' q = pending s q" if "\<not> inside p" "\<not> inside (pcs s ! i)" for q
    using o [OF that] N(1) by (simp add: pending_def ring_def split: bpc.splits)
  have n0: "num inside (pcs s) = 0" if "inside p" "\<not> inside (pcs s ! i)" using b b1 that by simp
  have log: "ins s' = outs s' @ pending s' (pcs s' ! j)" if j: "j < length (pcs s')" "inside (pcs s' ! j)" for j
  proof (cases "j = i")
    case True
    then show ?thesis using c j N(4) i by simp
  next
    case False
    then have k: "j < length (pcs s)" "inside (pcs s ! j)" "pcs s' ! j = pcs s ! j" using j N(4) by simp_all
    have ni: "\<not> inside (pcs s ! i)" using binvD(10) [OF I i k(1) _ k(2)] False by blast
    have "num inside (pcs s) \<noteq> 0" using num_pos [of j "pcs s" inside, OF k(1,2)] by simp
    then have np: "\<not> inside p" using n0 ni by auto
    then show ?thesis using same [OF np ni] o [OF np ni] binvD(8) [OF I k(1,2)] k(3) by simp
  qed
  have rest: "ins s' = outs s' @ contents s' (unat (bn s'))" if z: "num inside (pcs s') = 0"
  proof (cases "inside (pcs s ! i)")
    case True
    have "\<not> inside p" using z i N(4) by (simp add: num_zero) (metis nth_list_update_eq)
    then show ?thesis using d True by blast
  next
    case False
    have np: "\<not> inside p" using z i N(4) by (simp add: num_zero) (metis nth_list_update_eq)
    have "num inside (pcs s) = 0" using U [of inside] z np False N(4) by simp
    then show ?thesis using binvD(9) [OF I] o [OF np False] N(1) by (simp add: ring_def)
  qed
  have "block s' + num inside (pcs s') = 1" using U [of inside] b b1 N(4) by simp
  moreover have "nEmpty s' + num filling (pcs s') + unat (bn s') + num emptied (pcs s') = unat (bN s')"
    using U [of filling] U [of emptied] e e1 N(1,4) by simp
  moreover have "nFull s' + num taking (pcs s') + num filled (pcs s') = unat (bn s')"
    using U [of taking] U [of filled] f f1 N(4) by simp
  moreover have "0 < bN s'" "bN s' \<le> 0x80000000" "length (bdata s') = unat (bN s')"
    using I N(1,2) by (simp_all add: binv_def)
  ultimately show ?thesis unfolding binv_def using log rest N(3) by (intro conjI allI impI) blast+
qed

lemma new_buffer_binv:
  assumes "0 < capacity" "capacity \<le> 0x80000000" "length store = unat capacity"
  shows "binv (new_buffer capacity store threads)"
  using assms by (simp add: binv_def new_buffer_def num_def ring_def)

lemma un_suc: "unat (n :: u32) < unat (m :: u32) \<Longrightarrow> unat (n + 1) = unat n + 1"
proof -
  assume "unat n < unat m"
  moreover have "unat m < 2 ^ LENGTH(32)" by (rule unsigned_less)
  ultimately show "unat (n + 1) = unat n + 1" by (simp add: unat_word_ariths)
qed

lemma un_pred: "0 < unat (n :: u32) \<Longrightarrow> unat (n - 1) = unat n - 1"
  by (metis unat_minus_one unat_eq_0 less_numeral_extra(3) unat_0)

lemma bmove_binv:
  assumes I: "binv s" and i: "i < length (pcs s)" and m: "bmove i s = Some s'"
  shows "binv s'"
proof -
  note B = binvD(1-7) [OF I]
  note L = binvD(8) [OF I i]
  show ?thesis
  proof (cases "pcs s ! i")
    case (P_store v)
    have lt: "unat (bn s) < unat (bN s)" using B(6) [OF i] P_store by simp
    show ?thesis
      by (rule binv_goes [OF I i, of s' "P_inc v"])
        (use m P_store B L lt put_index [OF B(4,2)] ring_store [OF lt B(3)] in \<open>auto simp: bmove_def pending_def goes_def\<close>)
  next
    case (P_inc v)
    have lt: "unat (bn s) < unat (bN s)" using B(6) [OF i] P_inc by simp
    show ?thesis
      by (rule binv_goes [OF I i, of s' P_unlock])
        (use m P_inc B L un_suc [OF lt] in \<open>auto simp: bmove_def pending_def\<close>)
  next
    case G_load
    have lt: "0 < unat (bn s)" using B(7) [OF i] G_load by simp
    show ?thesis
      by (rule binv_goes [OF I i, of s' "G_head (bdata s ! unat (bhead s))"])
        (use m G_load B L ring_hd [OF B(4) lt, of "bdata s"] in \<open>auto simp: bmove_def pending_def Let_def\<close>)
  next
    case (G_head v)
    have lt: "0 < unat (bn s)" using B(7) [OF i] G_head by simp
    show ?thesis
      by (rule binv_goes [OF I i, of s' "G_dec v"])
        (use m G_head B L ring_head [OF B(4,2) lt, of "bdata s"] word_mod_less_divisor [of "bN s" "bhead s + 1"] in \<open>auto simp: bmove_def pending_def word_less_nat_alt [of 0]\<close>)
  next
    case (G_dec v)
    have lt: "0 < unat (bn s)" using B(7) [OF i] G_dec by simp
    show ?thesis
      by (rule binv_goes [OF I i, of s' "G_unlock v"])
        (use m G_dec B L un_pred [OF lt] lt in \<open>auto simp: bmove_def pending_def\<close>)
  next
    case (P_down v)
    show ?thesis by (rule binv_goes [OF I i, of s' "P_lock v"]) (use m P_down B in \<open>auto simp: bmove_def split: if_splits\<close>)
  next
    case (P_lock v)
    have "num inside (pcs s) = 0" using m P_lock I by (auto simp: bmove_def binv_def split: if_splits)
    note binvD(9) [OF I this]
    then show ?thesis
      by (intro binv_goes [OF I i, of s' "P_store v"]) (use m P_lock B in \<open>auto simp: bmove_def pending_def split: if_splits\<close>)
  next
    case G_lock
    have "num inside (pcs s) = 0" using m G_lock I by (auto simp: bmove_def binv_def split: if_splits)
    note binvD(9) [OF I this]
    then show ?thesis
      by (intro binv_goes [OF I i, of s' G_load]) (use m G_lock B in \<open>auto simp: bmove_def pending_def split: if_splits\<close>)
  next
    case P_unlock
    show ?thesis by (rule binv_goes [OF I i, of s' P_up]) (use m P_unlock B L in \<open>auto simp: bmove_def pending_def\<close>)
  next
    case (G_unlock v)
    show ?thesis by (rule binv_goes [OF I i, of s' "G_up v"]) (use m G_unlock B L in \<open>auto simp: bmove_def pending_def\<close>)
  next
    case P_up
    show ?thesis by (rule binv_goes [OF I i, of s' Idle]) (use m P_up B in \<open>auto simp: bmove_def\<close>)
  next
    case (G_up v)
    show ?thesis by (rule binv_goes [OF I i, of s' Idle]) (use m G_up B in \<open>auto simp: bmove_def\<close>)
  next
    case G_down
    show ?thesis by (rule binv_goes [OF I i, of s' G_lock]) (use m G_down B in \<open>auto simp: bmove_def split: if_splits\<close>)
  next
    case Idle
    then show ?thesis using m by (simp add: bmove_def)
  qed
qed

lemma bstep_binv: "bstep s s' \<Longrightarrow> binv s \<Longrightarrow> binv s'"
proof (induction rule: bstep.induct)
  case (put i s v)
  show ?case by (rule binv_goes [OF put(3,1), of _ "P_down v"]) (use put in \<open>simp_all add: binvD(4)\<close>)
next
  case (get i s)
  show ?case by (rule binv_goes [OF get(3,1), of _ G_down]) (use get in \<open>simp_all add: binvD(4)\<close>)
next
  case (move i s s')
  then show ?case by (blast intro: bmove_binv)
qed

lemma bmove_same: "bmove i s = Some s' \<Longrightarrow> bN s' = bN s \<and> length (pcs s') = length (pcs s)"
  by (cases "pcs s ! i") (auto simp: bmove_def Let_def split: if_splits)

lemma bstep_same: "bstep s s' \<Longrightarrow> bN s' = bN s \<and> length (pcs s') = length (pcs s)"
  by (induction rule: bstep.induct) (simp_all add: bmove_same)

lemma bsteps_binv:
  assumes "0 < capacity" "capacity \<le> 0x80000000" "length store = unat capacity"
    "bstep\<^sup>*\<^sup>* (new_buffer capacity store threads) s"
  shows "binv s \<and> bN s = capacity \<and> length (pcs s) = threads"
  using assms(4)
proof (induction rule: rtranclp_induct)
  case base
  show ?case using new_buffer_binv [OF assms(1-3)] by (simp add: new_buffer_def)
next
  case (step s s')
  then show ?case using bstep_binv bstep_same by metis
qed

section \<open>What the buffer promises\<close>

lemma inside_cases: "num inside (pcs s) = 0 \<or> (\<exists>i < length (pcs s). inside (pcs s ! i))"
  using num_zero [of inside "pcs s"] by blast

lemma pending_length:
  assumes "binv s" "i < length (pcs s)"
  shows "length (pending s (pcs s ! i)) \<le> unat (bN s)"
  using binvD(5) [OF assms(1)] binvD(6) [OF assms] by (auto simp: pending_def ring_def split: bpc.splits)

lemma binv_log:
  assumes "binv s"
  shows "\<exists>rest. ins s = outs s @ rest \<and> length rest \<le> unat (bN s)"
  using inside_cases [of s]
proof (elim disjE exE conjE)
  assume "num inside (pcs s) = 0"
  then have "ins s = outs s @ contents s (unat (bn s))" by (rule binvD(9) [OF assms])
  moreover have "length (contents s (unat (bn s))) \<le> unat (bN s)" using binvD(5) [OF assms] by (simp add: ring_def)
  ultimately show ?thesis by blast
next
  fix i
  assume "i < length (pcs s)" "inside (pcs s ! i)"
  then show ?thesis using binvD(8) [OF assms] pending_length [OF assms] by blast
qed

text \<open>A thread inside the lock can always go on, and one that has its place can when nobody is inside.\<close>

lemma inside_moves: "inside (pcs s ! i) \<Longrightarrow> bmove i s \<noteq> None"
  by (cases "pcs s ! i") (auto simp: bmove_def Let_def)

lemma stuck_pc:
  assumes I: "binv s" and st: "\<forall>i < length (pcs s). bmove i s = None" and i: "i < length (pcs s)"
  shows "pcs s ! i = Idle \<or> (\<exists>v. pcs s ! i = P_down v) \<and> nEmpty s = 0 \<or> pcs s ! i = G_down \<and> nFull s = 0"
proof -
  have "num inside (pcs s) = 0" using inside_cases [of s] inside_moves [of s] st by blast
  then have "block s = 1" using I by (simp add: binv_def)
  then show ?thesis using st i by (cases "pcs s ! i") (auto simp: bmove_def Let_def split: if_splits)
qed

lemma stuck_spec:
  assumes I: "binv s" and st: "\<forall>i < length (pcs s). bmove i s = None" and i: "i < length (pcs s)"
  shows "pcs s ! i = Idle \<or> (\<exists>v. pcs s ! i = P_down v) \<and> bn s = bN s \<or> pcs s ! i = G_down \<and> bn s = 0"
proof -
  have "num P (pcs s) = 0" if "\<forall>v. \<not> P (P_down v)" "\<not> P Idle" "\<not> P G_down" for P
    unfolding num_zero using stuck_pc [OF I st] that by metis
  then have "num filling (pcs s) = 0" "num emptied (pcs s) = 0" "num taking (pcs s) = 0" "num filled (pcs s) = 0"
    by simp_all
  then have "nEmpty s + unat (bn s) = unat (bN s)" "nFull s = unat (bn s)" using I by (simp_all add: binv_def)
  then show ?thesis using stuck_pc [OF I st i] by (auto simp: unat_eq_0 unsigned_word_eqI)
qed

section \<open>Schedules\<close>

text \<open>A schedule that can be run: who starts what, and who moves.\<close>

datatype 'v order = Put nat 'v | Get nat | Run nat

fun follow :: "'v order \<Rightarrow> 'v bbuf \<Rightarrow> 'v bbuf option" where
  "follow (Put i v) s = (if i < length (pcs s) \<and> (case pcs s ! i of Idle \<Rightarrow> True | _ \<Rightarrow> False) then Some (goes i (P_down v) s) else None)"
| "follow (Get i) s = (if i < length (pcs s) \<and> (case pcs s ! i of Idle \<Rightarrow> True | _ \<Rightarrow> False) then Some (goes i G_down s) else None)"
| "follow (Run i) s = (if i < length (pcs s) then bmove i s else None)"

fun follows :: "'v order list \<Rightarrow> 'v bbuf \<Rightarrow> 'v bbuf option" where
  "follows [] s = Some s"
| "follows (x # xs) s = Option.bind (follow x s) (follows xs)"

lemma follow_step: "follow x s = Some s' \<Longrightarrow> bstep s s'"
  by (cases x) (auto intro: bstep.intros split: if_splits bpc.splits)

lemma follows_steps: "follows xs s = Some s' \<Longrightarrow> bstep\<^sup>*\<^sup>* s s'"
proof (induction xs arbitrary: s)
  case (Cons x xs)
  then obtain t where "follow x s = Some t" "follows xs t = Some s'" by (auto simp: bind_eq_Some_conv)
  then show ?case using Cons.IH follow_step converse_rtranclp_into_rtranclp by metis
qed simp

text \<open>C13: Whatever the interleaving of any number of threads that call \<^verbatim>\<open>put\<close> and \<^verbatim>\<open>get\<close> on a buffer of
  1 to 2^31 places, the values taken out are the values put in, in the same order, none lost, doubled or invented:
  at every moment those taken are a prefix of those put and at most the capacity are between; and at most one
  thread at a time is between the lock's \<^verbatim>\<open>down\<close> and \<^verbatim>\<open>up\<close>.\<close>

theorem bounded_buffer_fifo:
  assumes "0 < capacity" "capacity \<le> 0x80000000" "length store = unat capacity"
    and "bstep\<^sup>*\<^sup>* (new_buffer capacity store threads) s"
  shows "(\<exists>rest. ins s = outs s @ rest \<and> length rest \<le> unat capacity) \<and>
    (\<forall>i j. i < threads \<and> j < threads \<and> inside (pcs s ! i) \<and> inside (pcs s ! j) \<longrightarrow> i = j)"
proof -
  have I: "binv s" "bN s = capacity" "length (pcs s) = threads" using bsteps_binv [OF assms] by blast+
  have "i = j" if "i < threads" "j < threads" "inside (pcs s ! i)" "inside (pcs s ! j)" for i j
    using binvD(10) [OF I(1), of j i] that I(3) by simp
  then show ?thesis using binv_log [OF I(1)] I(2) by blast
qed

text \<open>Two threads fill the two places and a third takes the first value; then the first waits for a place.\<close>

definition demo_orders :: "nat order list" where
  "demo_orders = [Put 0 7, Run 0, Put 1 8, Run 1, Run 1, Get 2, Run 1, Run 1, Run 1, Run 1, Run 0, Run 0, Run 0, Run 2]"

definition demo_full :: "nat order list" where
  "demo_full = [Put 0 7, Run 0, Run 0, Run 0, Run 0, Run 0, Run 0, Put 1 8]"

lemma demo_orders_run:
  "follows demo_orders (new_buffer 2 [0, 0] 3) =
     Some \<lparr>bhead = 0, bn = 2, bN = 2, bdata = [8, 7], nEmpty = 0, nFull = 0, block = 0, pcs = [P_unlock, Idle, G_lock],
       ins = [8, 7], outs = []\<rparr>"
  by code_simp

lemma demo_full_run:
  "follows demo_full (new_buffer 1 [0] 2) =
     Some \<lparr>bhead = 0, bn = 1, bN = 1, bdata = [7], nEmpty = 0, nFull = 1, block = 1, pcs = [Idle, P_down 8],
       ins = [7], outs = []\<rparr>"
  by code_simp

theorem bounded_buffer_fifo_witness:
  "\<exists>rest. (let s = the (follows demo_orders (new_buffer 2 [0, 0] 3)) in ins s = outs s @ rest \<and> length rest \<le> 2)"
  using bounded_buffer_fifo [OF _ _ _ follows_steps [OF demo_orders_run]] demo_orders_run by simp

text \<open>C21: Threads block only when they must: in a reachable state where no thread in \<^verbatim>\<open>put\<close> or \<^verbatim>\<open>get\<close> can move,
  each of them is a \<^verbatim>\<open>put\<close> at its first \<^verbatim>\<open>down\<close> and the buffer is full, or a \<^verbatim>\<open>get\<close> at its first \<^verbatim>\<open>down\<close> and
  it is empty; so a \<^verbatim>\<open>put\<close> and a \<^verbatim>\<open>get\<close> never wait for each other.\<close>

theorem bounded_buffer_waits:
  assumes "0 < capacity" "capacity \<le> 0x80000000" "length store = unat capacity"
    and "bstep\<^sup>*\<^sup>* (new_buffer capacity store threads) s" "\<forall>i < threads. bmove i s = None" "i < threads"
  shows "pcs s ! i = Idle \<or> (\<exists>v. pcs s ! i = P_down v) \<and> bn s = capacity \<or> pcs s ! i = G_down \<and> bn s = 0"
proof -
  have I: "binv s" "bN s = capacity" "length (pcs s) = threads" using bsteps_binv [OF assms(1-4)] by blast+
  show ?thesis using stuck_spec [OF I(1), of i] assms(5,6) I(2,3) by simp
qed

theorem bounded_buffer_waits_witness:
  "let s = the (follows demo_full (new_buffer 1 [0] 2)) in \<exists>v. pcs s ! 1 = P_down v \<and> bn s = 1"
proof -
  have "\<forall>i < 2. bmove i \<lparr>bhead = 0, bn = 1, bN = 1, bdata = [7 :: nat], nEmpty = 0, nFull = 1, block = 1,
      pcs = [Idle, P_down 8], ins = [7], outs = []\<rparr> = None"
    by (simp add: bmove_def less_2_cases_iff all_conj_distrib)
  then show ?thesis
    using bounded_buffer_waits [OF _ _ _ follows_steps [OF demo_full_run], of 1] demo_full_run by simp
qed

end
