(* ===== verification/Barriers.thy ===== *)
theory Barriers
  imports Counting OS_Prelude
begin

text \<open>
  Condition variables and barriers, \<^verbatim>\<open>kernel/condition.h\<close> and \<^verbatim>\<open>kernel/barrier.h\<close>, under every interleaving of the
  threads that use them.  The lock of the condition variable is its flag \<^verbatim>\<open>taken\<close> and its field \<^verbatim>\<open>was\<close> (the
  interleavings inside \<^verbatim>\<open>lock\<close> and \<^verbatim>\<open>unlock\<close> are the subject of the theory of locks), every thread has its
  interrupt flag, the queue is a list, and a thread that is scheduled can go on.  Epochs and counts
  have the width of the code and wrap around.
\<close>

section \<open>Condition variables\<close>

record cond =
  cepoch :: u64
  cqueue :: "nat list"

definition new_cond :: cond where
  "new_cond = \<lparr>cepoch = 0, cqueue = []\<rparr>"

text \<open>\<^verbatim>\<open>notify\<close> gives the threads it schedules.  \<open>taken\<close> is what \<^verbatim>\<open>isMine\<close> reads: \<^verbatim>\<open>notify\<close> itself leaves
  the lock alone, so both assertions read the same flag.\<close>

fun notify_loop :: "nat \<Rightarrow> nat list \<Rightarrow> nat list \<times> nat list" where
  "notify_loop 0 q = ([], q)"
| "notify_loop (Suc k) [] = ([], [])"
| "notify_loop (Suc k) (t # q) = (case notify_loop k q of (ts, q1) \<Rightarrow> (t # ts, q1))"

definition notify :: "bool \<Rightarrow> u64 \<Rightarrow> cond \<Rightarrow> (nat list \<times> cond) res" where
  "notify taken limit c =
     assertR ''the_lock->isMine()'' taken
       (let c1 = c\<lparr>cepoch := cepoch c + 1\<rparr>
        in case notify_loop (unat limit) (cqueue c1) of (ts, q) \<Rightarrow>
             assertR ''the_lock->isMine()'' taken (Inr (ts, c1\<lparr>cqueue := q\<rparr>)))"

definition notifyOne :: "bool \<Rightarrow> cond \<Rightarrow> (nat list \<times> cond) res" where
  "notifyOne taken c = notify taken 1 c"

definition notifyAll :: "bool \<Rightarrow> cond \<Rightarrow> (nat list \<times> cond) res" where
  "notifyAll taken c = notify taken (NOT 0) c"

lemma notify_loop_eq: "notify_loop k q = (take k q, drop k q)"
  by (induction k q rule: notify_loop.induct) auto

section \<open>The reusable barrier\<close>

text \<open>Where a thread is in \<^verbatim>\<open>sync\<close> and, inside it, in \<^verbatim>\<open>wait\<close>; \<open>t\<close> is the local variable \<^verbatim>\<open>t\<close>, \<open>e\<close> is
  \<^verbatim>\<open>old_epoch\<close>.  \<open>Wait\<close> is the entry of \<^verbatim>\<open>wait\<close>, \<open>Closure\<close> runs on the stack of the next thread with
  interrupts disabled, \<open>Ready\<close> is behind the call of \<^verbatim>\<open>block\<close>, \<open>Relock\<close> at the last call of \<^verbatim>\<open>lock\<close> and
  \<open>Relocked\<close> behind it.\<close>

datatype rpc = Idle | Want | Enter | Check u64 | Wait u64 | Unlock u64 u64 | Block u64 u64 | Closure u64 u64 | Asleep u64 | Ready u64
  | Relock u64 | Relocked u64 | Leave

text \<open>\<open>rdis\<close> is, for each thread, whether its interrupt flag is clear (\<^verbatim>\<open>isDisabled\<close> when it runs; the
  context switch saves and restores the flag).  \<open>arrived\<close> and \<open>passed\<close> count, for each thread, the calls
  of \<^verbatim>\<open>sync\<close> it has been counted in and has left; they are no part of the program.\<close>

record rbarrier =
  initial_count :: u32
  rcount :: u32
  repoch :: u64
  rcond :: cond
  rlocked :: bool
  rwas :: bool
  rdis :: "bool list"
  rpcs :: "rpc list"
  arrived :: "nat list"
  passed :: "nat list"

text \<open>A barrier for \<open>n\<close> and the \<open>n\<close> threads that use it, which run with interrupts enabled.\<close>

definition new_rbarrier :: "nat \<Rightarrow> rbarrier" where
  "new_rbarrier n = \<lparr>initial_count = of_nat n, rcount = of_nat n, repoch = 0, rcond = new_cond, rlocked = False, rwas = False,
     rdis = replicate n False, rpcs = replicate n Idle, arrived = replicate n 0, passed = replicate n 0\<rparr>"

definition rgoes :: "nat \<Rightarrow> rpc \<Rightarrow> rbarrier \<Rightarrow> rbarrier" where
  "rgoes i p s = s\<lparr>rpcs := (rpcs s)[i := p]\<rparr>"

text \<open>\<^verbatim>\<open>lock\<close> when it gets the lock, and \<^verbatim>\<open>unlock\<close>, called by the thread \<open>i\<close> in its own code.\<close>

definition bar_lock :: "nat \<Rightarrow> rbarrier \<Rightarrow> rbarrier" where
  "bar_lock i s = s\<lparr>rlocked := True, rwas := rdis s ! i, rdis := (rdis s)[i := True]\<rparr>"

definition bar_unlock :: "nat \<Rightarrow> rbarrier \<Rightarrow> rbarrier" where
  "bar_unlock i s = s\<lparr>rlocked := False, rdis := (rdis s)[i := (if rwas s then rdis s ! i else False)]\<rparr>"

text \<open>The same on the stack of the next thread, where interrupts are disabled before and after.\<close>

definition cl_lock :: "rbarrier \<Rightarrow> rbarrier" where
  "cl_lock s = s\<lparr>rlocked := True, rwas := True\<rparr>"

definition cl_unlock :: "rbarrier \<Rightarrow> rbarrier" where
  "cl_unlock s = s\<lparr>rlocked := False\<rparr>"

text \<open>Scheduling the threads of a list: each goes on behind its \<^verbatim>\<open>block\<close>.\<close>

definition wake :: "rpc \<Rightarrow> rpc" where
  "wake p = (case p of Asleep t \<Rightarrow> Ready t | _ \<Rightarrow> p)"

definition wake_all :: "nat list \<Rightarrow> rpc list \<Rightarrow> rpc list" where
  "wake_all ts ps = map (\<lambda>i. if i \<in> set ts then wake (ps ! i) else ps ! i) [0..<length ps]"

definition sync_enter :: "nat \<Rightarrow> rbarrier \<Rightarrow> rbarrier res" where
  "sync_enter i s =
     assertR ''count != 0'' (rcount s \<noteq> 0)
       (let t = repoch s; s1 = s\<lparr>rcount := rcount s - 1, arrived := (arrived s)[i := arrived s ! i + 1]\<rparr>
        in if rcount s1 = 0 then
             rbind (notifyAll (rlocked s1) (rcond s1)) (\<lambda>(ts, c).
               Inr (rgoes i Leave (s1\<lparr>repoch := repoch s1 + 1, rcount := initial_count s1, rcond := c, rpcs := wake_all ts (rpcs s1)\<rparr>)))
           else Inr (rgoes i (Check t) s1))"

definition rmove :: "nat \<Rightarrow> rbarrier \<Rightarrow> rbarrier res option" where
  "rmove i s =
     (case rpcs s ! i of
        Idle \<Rightarrow> None
      | Want \<Rightarrow> if rlocked s then None else Some (Inr (rgoes i Enter (bar_lock i s)))
      | Enter \<Rightarrow> Some (sync_enter i s)
      | Check t \<Rightarrow> Some (Inr (rgoes i (if repoch s \<le> t then Wait t else Leave) s))
      | Wait t \<Rightarrow>
          Some (assertR ''the_lock->isMine()'' (rlocked s)
            (assertR ''Interrupts::isDisabled()'' (rdis s ! i) (Inr (rgoes i (Unlock t (cepoch (rcond s))) s))))
      | Unlock t e \<Rightarrow> Some (Inr (rgoes i (Block t e) (bar_unlock i s)))
      | Block t e \<Rightarrow> if rlocked s then None else Some (Inr (rgoes i (Closure t e) (cl_lock s)))
      | Closure t e \<Rightarrow>
          if cepoch (rcond s) = e then
            Some (Inr (rgoes i (Asleep t) (cl_unlock (s\<lparr>rcond := (rcond s)\<lparr>cqueue := cqueue (rcond s) @ [i]\<rparr>\<rparr>))))
          else Some (assertR ''epoch > old_epoch'' (e < cepoch (rcond s)) (Inr (rgoes i (Ready t) (cl_unlock s))))
      | Asleep t \<Rightarrow> None
      | Ready t \<Rightarrow> Some (assertR ''!Interrupts::isDisabled()'' (\<not> rdis s ! i) (Inr (rgoes i (Relock t) s)))
      | Relock t \<Rightarrow> if rlocked s then None else Some (Inr (rgoes i (Relocked t) (bar_lock i s)))
      | Relocked t \<Rightarrow> Some (assertR ''the_lock->isMine()'' (rlocked s) (Inr (rgoes i (Check t) s)))
      | Leave \<Rightarrow> Some (Inr (rgoes i Idle ((bar_unlock i s)\<lparr>passed := (passed s)[i := passed s ! i + 1]\<rparr>))))"

inductive rstep :: "rbarrier \<Rightarrow> rbarrier \<Rightarrow> bool" where
  sync: "i < length (rpcs s) \<Longrightarrow> rpcs s ! i = Idle \<Longrightarrow> rstep s (rgoes i Want s)"
| move: "i < length (rpcs s) \<Longrightarrow> rmove i s = Some (Inr s') \<Longrightarrow> rstep s s'"

section \<open>The invariant\<close>

text \<open>Holding the lock in the thread's own code, and holding it at all.\<close>

fun in_lock :: "rpc \<Rightarrow> bool" where
  "in_lock Enter = True" | "in_lock (Check t) = True" | "in_lock (Wait t) = True" | "in_lock (Unlock t e) = True"
| "in_lock (Relocked t) = True" | "in_lock Leave = True" | "in_lock _ = False"

fun holds_lock :: "rpc \<Rightarrow> bool" where
  "holds_lock (Closure t e) = True" | "holds_lock p = in_lock p"

fun asleep :: "rpc \<Rightarrow> bool" where
  "asleep (Asleep t) = True" | "asleep _ = False"

text \<open>Counted in the round \<open>k\<close> and not let go yet.\<close>

fun waits :: "u64 \<Rightarrow> rpc \<Rightarrow> bool" where
  "waits k (Check t) = (t = k)" | "waits k (Wait t) = (t = k)" | "waits k (Unlock t e) = (t = k)" | "waits k (Block t e) = (t = k)"
| "waits k (Closure t e) = (t = k)" | "waits k (Asleep t) = (t = k)" | "waits k (Ready t) = (t = k)" | "waits k (Relock t) = (t = k)"
| "waits k (Relocked t) = (t = k)" | "waits k _ = False"

definition in_round :: "nat \<Rightarrow> u64 \<Rightarrow> nat \<Rightarrow> nat \<Rightarrow> bool" where
  "in_round k t a d \<longleftrightarrow> (unat t = k \<and> a = k + 1 \<and> d = k) \<or> (unat t + 1 = k \<and> a = k \<and> d + 1 = k)"

fun thread_ok :: "nat \<Rightarrow> nat \<Rightarrow> nat \<Rightarrow> rpc \<Rightarrow> bool" where
  "thread_ok k a d Idle = (a = k \<and> d = k)"
| "thread_ok k a d Want = (a = k \<and> d = k)"
| "thread_ok k a d Enter = (a = k \<and> d = k)"
| "thread_ok k a d (Check t) = in_round k t a d"
| "thread_ok k a d (Wait t) = (in_round k t a d \<and> unat t = k)"
| "thread_ok k a d (Unlock t e) = (in_round k t a d \<and> e = t \<and> unat t = k)"
| "thread_ok k a d (Block t e) = (in_round k t a d \<and> e = t)"
| "thread_ok k a d (Closure t e) = (in_round k t a d \<and> e = t)"
| "thread_ok k a d (Asleep t) = (unat t = k \<and> a = k + 1 \<and> d = k)"
| "thread_ok k a d (Ready t) = in_round k t a d"
| "thread_ok k a d (Relock t) = in_round k t a d"
| "thread_ok k a d (Relocked t) = in_round k t a d"
| "thread_ok k a d Leave = (a = k \<and> d + 1 = k)"

definition rinv :: "nat \<Rightarrow> rbarrier \<Rightarrow> bool" where
  "rinv n s \<longleftrightarrow>
     n < 2 ^ 32 \<and> initial_count s = of_nat n \<and> length (rpcs s) = n \<and> length (arrived s) = n \<and> length (passed s) = n \<and>
     cepoch (rcond s) = repoch s \<and> (n \<noteq> 0 \<longrightarrow> rcount s \<noteq> 0) \<and> unat (rcount s) + num (waits (repoch s)) (rpcs s) = n \<and>
     num holds_lock (rpcs s) = (if rlocked s then 1 else 0) \<and>
     (\<forall>i < n. thread_ok (unat (repoch s)) (arrived s ! i) (passed s ! i) (rpcs s ! i)) \<and>
     set (cqueue (rcond s)) = {i. i < n \<and> asleep (rpcs s ! i)} \<and> distinct (cqueue (rcond s))"

text \<open>A thread's interrupts are disabled exactly while it holds the lock in its own code, and then the
  lock remembers that they were enabled.\<close>

definition bar_flags_ok :: "rbarrier \<Rightarrow> bool" where
  "bar_flags_ok s \<longleftrightarrow> length (rdis s) = length (rpcs s) \<and>
     (\<forall>i < length (rpcs s). rdis s ! i = in_lock (rpcs s ! i) \<and> (in_lock (rpcs s ! i) \<longrightarrow> \<not> rwas s))"

lemma rgoes_simps [simp]:
  "initial_count (rgoes i p s) = initial_count s" "rcount (rgoes i p s) = rcount s" "repoch (rgoes i p s) = repoch s"
  "rcond (rgoes i p s) = rcond s" "rlocked (rgoes i p s) = rlocked s" "rpcs (rgoes i p s) = (rpcs s)[i := p]"
  "arrived (rgoes i p s) = arrived s" "passed (rgoes i p s) = passed s" "rwas (rgoes i p s) = rwas s" "rdis (rgoes i p s) = rdis s"
  by (simp_all add: rgoes_def)

lemmas lock_defs = bar_lock_def bar_unlock_def cl_lock_def cl_unlock_def

lemma in_lock_holds: "in_lock p \<Longrightarrow> holds_lock p"
  by (cases p) auto

lemma new_rbarrier_inv: "n < 2 ^ 32 \<Longrightarrow> rinv n (new_rbarrier n) \<and> bar_flags_ok (new_rbarrier n)"
  by (simp add: rinv_def bar_flags_ok_def new_rbarrier_def new_cond_def num_def unat_of_nat of_nat_eq_0_iff
      take_bit_nat_eq_self unat_eq_0 word_of_nat_eq_0_iff nat_dvd_not_less)

lemma rinvD:
  assumes "rinv n s"
  shows "initial_count s = of_nat n" "length (rpcs s) = n" "length (arrived s) = n" "length (passed s) = n"
    "cepoch (rcond s) = repoch s" "n \<noteq> 0 \<Longrightarrow> rcount s \<noteq> 0" "unat (rcount s) + num (waits (repoch s)) (rpcs s) = n"
    "num holds_lock (rpcs s) = (if rlocked s then 1 else 0)"
    "i < n \<Longrightarrow> thread_ok (unat (repoch s)) (arrived s ! i) (passed s ! i) (rpcs s ! i)"
    "set (cqueue (rcond s)) = {i. i < n \<and> asleep (rpcs s ! i)}" "distinct (cqueue (rcond s))" "n < 2 ^ 32"
  using assms by (simp_all add: rinv_def)

text \<open>A move of one thread that leaves the epochs and, but for that thread, the queue.\<close>

lemma rinv_goes:
  assumes I: "rinv n s" and i: "i < n"
    and s': "initial_count s' = initial_count s" "repoch s' = repoch s" "cepoch (rcond s') = cepoch (rcond s)"
      "rpcs s' = (rpcs s)[i := p]" "arrived s' = (arrived s)[i := a]" "passed s' = (passed s)[i := d]"
    and ok: "thread_ok (unat (repoch s)) a d p"
    and c: "rcount s' \<noteq> 0"
      "unat (rcount s') + (if waits (repoch s) p then 1 else 0) = unat (rcount s) + (if waits (repoch s) (rpcs s ! i) then 1 else 0)"
    and l: "(if holds_lock p then 1 else 0) + (if rlocked s then 1 else (0 :: nat)) =
      (if holds_lock (rpcs s ! i) then 1 else 0) + (if rlocked s' then 1 else 0)"
    and q: "\<not> asleep (rpcs s ! i)" "cqueue (rcond s') = cqueue (rcond s) @ (if asleep p then [i] else [])"
  shows "rinv n s'"
proof -
  note D = rinvD [OF I]
  have il: "i < length (rpcs s)" using i D(2) by simp
  note U = num_update [OF il, where y = p]
  have "num (waits (repoch s)) (rpcs s') + unat (rcount s') = n" using U [of "waits (repoch s)"] c(2) D(7) s'(4) by simp
  moreover have "num holds_lock (rpcs s') = (if rlocked s' then 1 else 0)"
    using U [of holds_lock] l D(8) s'(4) by (auto split: if_splits)
  moreover have "thread_ok (unat (repoch s)) (arrived s' ! j) (passed s' ! j) (rpcs s' ! j)" if "j < n" for j
    using D(9) [OF that] ok that D(2-4) s'(4-6) by (cases "j = i") simp_all
  moreover have "set (cqueue (rcond s')) = {j. j < n \<and> asleep (rpcs s' ! j)}" "distinct (cqueue (rcond s'))"
  proof -
    have "i \<notin> set (cqueue (rcond s))" using D(10) q(1) by simp
    then show "distinct (cqueue (rcond s'))" using D(11) q(2) by simp
    have al: "asleep (rpcs s' ! j) \<longleftrightarrow> (if j = i then asleep p else asleep (rpcs s ! j))" if "j < n" for j
      using that s'(4) D(2) by simp
    have "j \<in> set (cqueue (rcond s')) \<longleftrightarrow> j < n \<and> asleep (rpcs s' ! j)" for j
      unfolding q(2) set_append Un_iff D(10) mem_Collect_eq using al [of j] q(1) i by (cases "j = i") auto
    then show "set (cqueue (rcond s')) = {j. j < n \<and> asleep (rpcs s' ! j)}" by blast
  qed
  ultimately show ?thesis using s' c(1) D(1-5) D(12) by (simp add: rinv_def add.commute)
qed

text \<open>The same when the thread's counts stay.\<close>

lemma rinv_stay:
  assumes "rinv n s" "i < n"
    "initial_count s' = initial_count s" "repoch s' = repoch s" "cepoch (rcond s') = cepoch (rcond s)"
    "rpcs s' = (rpcs s)[i := p]" "arrived s' = arrived s" "passed s' = passed s"
    "thread_ok (unat (repoch s)) (arrived s ! i) (passed s ! i) p" "rcount s' \<noteq> 0"
    "unat (rcount s') + (if waits (repoch s) p then 1 else 0) = unat (rcount s) + (if waits (repoch s) (rpcs s ! i) then 1 else 0)"
    "(if holds_lock p then 1 else 0) + (if rlocked s then 1 else (0 :: nat)) =
      (if holds_lock (rpcs s ! i) then 1 else 0) + (if rlocked s' then 1 else 0)"
    "\<not> asleep (rpcs s ! i)" "cqueue (rcond s') = cqueue (rcond s) @ (if asleep p then [i] else [])"
  shows "rinv n s'"
  by (rule rinv_goes [OF assms(1-6) _ _ assms(9-14)]) (simp_all add: assms(7,8))

text \<open>The last thread to arrive opens the next round.\<close>

lemma unat_max [simp]: "unat (- 1 :: u64) = 2 ^ 64 - 1"
  by (simp add: unsigned_minus_1_eq_mask mask_eq_exp_minus_1)

lemma wake_simps [simp]:
  "waits k (wake p) = waits k p" "holds_lock (wake p) = holds_lock p" "in_lock (wake p) = in_lock p"
  by (cases p; simp add: wake_def)+

lemma all_woken:
  assumes "rinv n s" "rlocked s"
  shows "notifyAll (rlocked s) (rcond s) = Inr (cqueue (rcond s), \<lparr>cepoch = repoch s + 1, cqueue = []\<rparr>)"
proof -
  note D = rinvD [OF assms(1)]
  have "length (cqueue (rcond s)) = card (set (cqueue (rcond s)))" using D(11) distinct_card by metis
  also have "\<dots> \<le> card {..<n}" unfolding D(10) by (rule card_mono) auto
  also have "\<dots> \<le> unat (NOT 0 :: u64)" using D(12) by simp
  finally have "length (cqueue (rcond s)) \<le> unat (NOT 0 :: u64)" .
  then show ?thesis using D(5) assms(2) by (simp add: notifyAll_def notify_def notify_loop_eq Let_def)
qed

lemma num_all: "num P xs = length xs \<longleftrightarrow> (\<forall>i < length xs. P (xs ! i))"
  by (metis num_def filter_id_conv length_filter_less all_set_conv_all_nth less_irrefl)

lemma open_round_run:
  assumes I: "rinv n s" and c: "rcount s = 1" and l: "rlocked s"
  shows "sync_enter i s = Inr (rgoes i Leave (s\<lparr>rcount := of_nat n, arrived := (arrived s)[i := arrived s ! i + 1],
    repoch := repoch s + 1, rcond := \<lparr>cepoch = repoch s + 1, cqueue = []\<rparr>,
    rpcs := wake_all (cqueue (rcond s)) (rpcs s)\<rparr>))"
  using c rinvD(1) [OF I] all_woken [OF I l] l by (simp add: sync_enter_def Let_def)

lemma open_round:
  assumes I: "rinv n s" and i: "i < n" "rpcs s ! i = Enter" and c: "rcount s = 1" and l: "rlocked s"
    and k: "unat (repoch s) + 1 < 2 ^ 64" and m: "sync_enter i s = Inr s'"
  shows "rinv n s'"
proof -
  note D = rinvD [OF I]
  let ?k = "repoch s"
  let ?ps = "(wake_all (cqueue (rcond s)) (rpcs s))[i := Leave]"
  have s': "s' = rgoes i Leave (s\<lparr>rcount := of_nat n, arrived := (arrived s)[i := arrived s ! i + 1], repoch := ?k + 1,
    rcond := \<lparr>cepoch = ?k + 1, cqueue = []\<rparr>, rpcs := wake_all (cqueue (rcond s)) (rpcs s)\<rparr>)"
    using m open_round_run [OF I c l, of i] by simp
  have uk: "unat (?k + 1) = unat ?k + 1" using k by (simp add: unatSuc unat_word_ariths)
  have kk: "?k \<noteq> ?k + 1" by simp
  have others: "waits ?k (rpcs s ! j)" if "j < n" "j \<noteq> i" for j
  proof -
    have il: "i < length (rpcs s)" using i D(2) by simp
    have "num (waits ?k) ((rpcs s)[i := Check ?k]) = length ((rpcs s)[i := Check ?k])"
      using num_update [OF il, of "waits ?k" "Check ?k"] i(2) c D(2,7) by simp
    then have "\<forall>k < length ((rpcs s)[i := Check ?k]). waits ?k ((rpcs s)[i := Check ?k] ! k)" by (simp only: num_all)
    then show ?thesis using that D(2) by auto
  qed
  have w: "wake_all (cqueue (rcond s)) (rpcs s) ! j = wake (rpcs s ! j)" if "j < n" for j
    using that D(2,10) by (auto simp: wake_all_def wake_def split: rpc.splits)
  have len: "length (wake_all (cqueue (rcond s)) (rpcs s)) = n" using D(2) by (simp add: wake_all_def)
  have one: "\<not> holds_lock (rpcs s ! j)" if "j < n" "j \<noteq> i" for j
    using num_unique [of holds_lock "rpcs s" i j] D(2,8) i that by (auto split: if_splits)
  have ok: "thread_ok (unat ?k + 1) (arrived s' ! j) (passed s' ! j) (?ps ! j) \<and> \<not> waits (?k + 1) (?ps ! j) \<and> \<not> asleep (?ps ! j) \<and>
      (holds_lock (?ps ! j) \<longleftrightarrow> j = i)" if j: "j < n" for j
  proof (cases "j = i")
    case True
    then show ?thesis using D(9) [OF i(1)] i D(3) len s' by simp
  next
    case False
    have "waits ?k (rpcs s ! j)" "thread_ok (unat ?k) (arrived s ! j) (passed s ! j) (rpcs s ! j)" "\<not> holds_lock (rpcs s ! j)"
      using others [OF j False] D(9) [OF j] one [OF j False] by blast+
    then show ?thesis using False w [OF j] len j s' kk
      by (cases "rpcs s ! j") (auto simp: wake_def in_round_def)
  qed
  have z: "num (waits (?k + 1)) ?ps = 0" using ok len by (simp add: num_zero)
  have "num holds_lock ?ps = 1"
  proof -
    have "\<not> holds_lock (?ps[i := Idle] ! j)" if "j < n" for j
      using ok [OF that] len that by (cases "j = i") simp_all
    then have "num holds_lock (?ps[i := Idle]) = 0" using len by (simp add: num_zero)
    then show ?thesis using num_update [of i ?ps holds_lock Idle] len i ok [OF i(1)] by simp
  qed
  moreover have "length ?ps = n" using len by simp
  moreover have "unat (of_nat n :: u32) = n" using D(12) by (simp add: unat_of_nat take_bit_nat_eq_self)
  moreover then have "(of_nat n :: u32) \<noteq> 0" using i(1) by auto
  ultimately show "rinv n s'" using D(1,3,4,12) z ok i l uk s' unfolding rinv_def by (auto simp: rgoes_def)
qed

text \<open>No move fails an assertion.\<close>

lemma rmove_ok:
  assumes I: "rinv n s" and F: "bar_flags_ok s" and i: "i < n"
  shows "rmove i s \<noteq> Some (Inl f)"
proof -
  note D = rinvD [OF I]
  have il: "i < length (rpcs s)" using i D(2) by simp
  have lk: "rlocked s" if "holds_lock (rpcs s ! i)"
    using D(8) num_pos [of i "rpcs s" holds_lock] il that by (auto split: if_splits)
  have fl: "rdis s ! i = in_lock (rpcs s ! i)" using F il by (simp add: bar_flags_ok_def)
  have nz: "rcount s \<noteq> 0" using D(6) i by simp
  show ?thesis
  proof (cases "rpcs s ! i")
    case Enter
    then have "rlocked s" using lk by simp
    then show ?thesis using Enter nz open_round_run [OF I, of i]
      by (cases "rcount s = 1") (auto simp: rmove_def sync_enter_def Let_def)
  next
    case (Closure t e)
    then show ?thesis using D(9) [OF i] D(5)
      by (auto simp: rmove_def in_round_def word_less_nat_alt word_unat_eq_iff)
  qed (use lk fl in \<open>auto simp: rmove_def\<close>)
qed

lemma rmove_inv:
  assumes I: "rinv n s" and F: "bar_flags_ok s" and i: "i < n" and m: "rmove i s = Some (Inr s')"
    and k: "\<forall>j < n. arrived s' ! j < 2 ^ 64"
  shows "rinv n s'"
proof -
  note D = rinvD [OF I]
  note ok = D(9) [OF i]
  have il: "i < length (rpcs s)" using i D(2) by simp
  have nz: "rcount s \<noteq> 0" using D(6) i by simp
  have lk: "rlocked s" if "holds_lock (rpcs s ! i)"
    using D(8) num_pos [of i "rpcs s" holds_lock] il that by (auto split: if_splits)
  note go = rinv_stay [OF I i]
  show ?thesis
  proof (cases "rpcs s ! i")
    case Enter
    then have l: "rlocked s" using lk by simp
    show ?thesis
    proof (cases "rcount s = 1")
      case True
      have m': "sync_enter i s = Inr s'" using m Enter by (simp add: rmove_def)
      then have "arrived s' ! i = unat (repoch s) + 1"
        using open_round_run [OF I True l, of i] ok Enter i D(3) by auto
      then have "unat (repoch s) + 1 < 2 ^ 64" using k i by metis
      then show ?thesis using open_round [OF I i Enter True l _ m'] by simp
    next
      case False
      let ?s = "rgoes i (Check (repoch s)) (s\<lparr>rcount := rcount s - 1, arrived := (arrived s)[i := arrived s ! i + 1]\<rparr>)"
      have s': "s' = ?s" using m Enter False nz by (simp add: rmove_def sync_enter_def Let_def)
      have u: "unat (rcount s - 1) + 1 = unat (rcount s)" using nz by (simp add: unat_minus_one unat_gt_0)
      have "rinv n ?s"
        by (rule rinv_goes [OF I i, where a = "arrived s ! i + 1" and d = "passed s ! i" and p = "Check (repoch s)"])
          ((simp; fail) | (use Enter False nz ok u D in \<open>auto simp: in_round_def\<close>))+
      then show ?thesis using s' by simp
    qed
  next
    case Want
    then have "s' = rgoes i Enter (bar_lock i s) \<and> \<not> rlocked s" using m by (auto simp: rmove_def split: if_splits)
    moreover then have "rinv n (rgoes i Enter (bar_lock i s))"
      by (intro go [where p = Enter]) (use Want ok nz in \<open>auto simp: lock_defs\<close>)
    ultimately show ?thesis by blast
  next
    case (Check t)
    let ?p = "if repoch s \<le> t then Wait t else Leave"
    have "rinv n (rgoes i ?p s)"
      by (rule go [where p = ?p])
        (use Check ok nz D(5) in \<open>auto simp: in_round_def word_le_nat_alt word_unat_eq_iff\<close>)
    then show ?thesis using m Check by (auto simp: rmove_def)
  next
    case (Wait t)
    let ?p = "Unlock t (cepoch (rcond s))"
    have "rinv n (rgoes i ?p s)"
      by (rule go [where p = ?p]) (use Wait ok nz D(5) in \<open>auto simp: in_round_def word_unat_eq_iff\<close>)
    then show ?thesis using m Wait by (auto simp: rmove_def)
  next
    case (Unlock t e)
    have "rinv n (rgoes i (Block t e) (bar_unlock i s))"
      by (rule go [where p = "Block t e"]) (use Unlock ok nz lk in \<open>auto simp: lock_defs\<close>)
    then show ?thesis using m Unlock by (auto simp: rmove_def)
  next
    case (Block t e)
    then have "s' = rgoes i (Closure t e) (cl_lock s) \<and> \<not> rlocked s" using m by (auto simp: rmove_def split: if_splits)
    moreover then have "rinv n (rgoes i (Closure t e) (cl_lock s))"
      by (intro go [where p = "Closure t e"]) (use Block ok nz in \<open>auto simp: lock_defs\<close>)
    ultimately show ?thesis by blast
  next
    case (Closure t e)
    show ?thesis
    proof (cases "repoch s = e")
      case True
      let ?s = "rgoes i (Asleep t) (cl_unlock (s\<lparr>rcond := (rcond s)\<lparr>cqueue := cqueue (rcond s) @ [i]\<rparr>\<rparr>))"
      have "rinv n ?s"
        by (rule go [where p = "Asleep t"]) (use Closure ok nz lk True in \<open>auto simp: in_round_def lock_defs\<close>)
      then show ?thesis using m Closure True D(5) by (auto simp: rmove_def)
    next
      case False
      have "rinv n (rgoes i (Ready t) (cl_unlock s))"
        by (rule go [where p = "Ready t"]) (use Closure ok nz lk in \<open>auto simp: lock_defs\<close>)
      then show ?thesis using m Closure False D(5) by (auto simp: rmove_def)
    qed
  next
    case (Ready t)
    have "rinv n (rgoes i (Relock t) s)" by (rule go [where p = "Relock t"]) (use Ready ok nz in auto)
    then show ?thesis using m Ready by (auto simp: rmove_def)
  next
    case (Relock t)
    then have "s' = rgoes i (Relocked t) (bar_lock i s) \<and> \<not> rlocked s" using m by (auto simp: rmove_def split: if_splits)
    moreover then have "rinv n (rgoes i (Relocked t) (bar_lock i s))"
      by (intro go [where p = "Relocked t"]) (use Relock ok nz in \<open>auto simp: lock_defs\<close>)
    ultimately show ?thesis by blast
  next
    case (Relocked t)
    have "rinv n (rgoes i (Check t) s)" by (rule go [where p = "Check t"]) (use Relocked ok nz in auto)
    then show ?thesis using m Relocked by (auto simp: rmove_def)
  next
    case Leave
    have "rinv n (rgoes i Idle ((bar_unlock i s)\<lparr>passed := (passed s)[i := passed s ! i + 1]\<rparr>))"
      by (rule rinv_goes [OF I i, where a = "arrived s ! i" and d = "passed s ! i + 1" and p = Idle])
        ((simp add: lock_defs; fail) | (use Leave ok nz lk in \<open>auto simp: lock_defs\<close>))+
    then show ?thesis using m Leave by (auto simp: rmove_def)
  qed (use m in \<open>auto simp: rmove_def\<close>)
qed

text \<open>The flags follow the program points.\<close>

lemma flags_goes:
  assumes "bar_flags_ok s" and "i < length (rpcs s)" and "rpcs s' = (rpcs s)[i := p]" and "rdis s' = (rdis s)[i := in_lock p]"
    and "in_lock p \<Longrightarrow> \<not> rwas s'" and "\<And>j. j < length (rpcs s) \<Longrightarrow> j \<noteq> i \<Longrightarrow> in_lock (rpcs s ! j) \<Longrightarrow> \<not> rwas s'"
  shows "bar_flags_ok s'"
  using assms by (auto simp: bar_flags_ok_def nth_list_update)

lemma flags_inv:
  assumes I: "rinv n s" and F: "bar_flags_ok s" and i: "i < n" and m: "rmove i s = Some (Inr s')"
  shows "bar_flags_ok s'"
proof -
  note D = rinvD [OF I]
  have il: "i < length (rpcs s)" using i D(2) by simp
  have lk: "rlocked s" if "j < n" "in_lock (rpcs s ! j)" for j
    using D(2,8) num_pos [of j "rpcs s" holds_lock] that in_lock_holds by (auto split: if_splits)
  have fl: "rdis s ! i = in_lock (rpcs s ! i)" "in_lock (rpcs s ! i) \<Longrightarrow> \<not> rwas s" "length (rdis s) = n"
    using F il D(2) by (auto simp: bar_flags_ok_def)
  have st: "(rdis s)[i := in_lock (rpcs s ! i)] = rdis s" using list_update_id [of "rdis s" i] by (simp only: fl(1))
  have ol: "\<not> rwas s" if "j < length (rpcs s)" "in_lock (rpcs s ! j)" for j using F that by (simp add: bar_flags_ok_def)
  note go = flags_goes [OF F il]
  show ?thesis
  proof (cases "rpcs s ! i")
    case Enter
    have l: "rlocked s" using lk [OF i] Enter by simp
    show ?thesis
    proof (cases "rcount s = 1")
      case True
      have s': "s' = rgoes i Leave (s\<lparr>rcount := of_nat n, arrived := (arrived s)[i := arrived s ! i + 1],
        repoch := repoch s + 1, rcond := \<lparr>cepoch = repoch s + 1, cqueue = []\<rparr>,
        rpcs := wake_all (cqueue (rcond s)) (rpcs s)\<rparr>)"
        using m Enter open_round_run [OF I True l, of i] by (simp add: rmove_def)
      then show ?thesis using F Enter il by (auto simp: bar_flags_ok_def wake_all_def nth_list_update)
    next
      case False
      then show ?thesis using m Enter st D(6) i fl ol
        by (intro go [where p = "Check (repoch s)"]) (auto simp: rmove_def sync_enter_def Let_def)
    qed
  next
    case Want
    then show ?thesis using m fl lk ol D(2)
      by (intro go [where p = Enter]) (auto simp: rmove_def lock_defs split: if_splits)
  next
    case (Check t)
    then show ?thesis using m st fl ol
      by (intro go [where p = "if repoch s \<le> t then Wait t else Leave"]) (auto simp: rmove_def)
  next
    case (Wait t)
    then show ?thesis using m st fl ol
      by (intro go [where p = "Unlock t (cepoch (rcond s))"]) (auto simp: rmove_def)
  next
    case (Unlock t e)
    then show ?thesis using m fl ol
      by (intro go [where p = "Block t e"]) (auto simp: rmove_def lock_defs)
  next
    case (Block t e)
    then show ?thesis using m st lk D(2)
      by (intro go [where p = "Closure t e"]) (auto simp: rmove_def lock_defs split: if_splits)
  next
    case (Closure t e)
    then show ?thesis using m st ol
      by (intro go [where p = "if cepoch (rcond s) = e then Asleep t else Ready t"]) (auto simp: rmove_def lock_defs split: if_splits)
  next
    case (Ready t)
    then show ?thesis using m st ol by (intro go [where p = "Relock t"]) (auto simp: rmove_def)
  next
    case (Relock t)
    then show ?thesis using m fl lk ol D(2)
      by (intro go [where p = "Relocked t"]) (auto simp: rmove_def lock_defs split: if_splits)
  next
    case (Relocked t)
    then show ?thesis using m st fl ol by (intro go [where p = "Check t"]) (auto simp: rmove_def)
  next
    case Leave
    then show ?thesis using m fl ol
      by (intro go [where p = Idle]) (auto simp: rmove_def lock_defs)
  qed (use m in \<open>auto simp: rmove_def\<close>)
qed

text \<open>The counts of arrivals only grow, so a bound on the last ones bounds all of them.\<close>

lemma nth_bump: "j < length xs \<Longrightarrow> xs ! j \<le> xs[i := Suc (xs ! i)] ! j"
  by (cases "i = j") auto

lemma rstep_arrived:
  assumes "rstep s s'"
  shows "length (arrived s') = length (arrived s) \<and> (\<forall>j < length (arrived s). arrived s ! j \<le> arrived s' ! j)"
  using assms
proof (induction rule: rstep.induct)
  case (move i s s')
  then show ?case
    by (cases "rpcs s ! i")
      (auto simp: rmove_def sync_enter_def Let_def lock_defs nth_bump split: if_splits)
qed simp

lemma rstep_inv:
  assumes "rstep s s'" "rinv n s" "bar_flags_ok s" "\<forall>j < n. arrived s' ! j < 2 ^ 64"
  shows "rinv n s' \<and> bar_flags_ok s'"
  using assms
proof (induction rule: rstep.induct)
  case (sync i s)
  note D = rinvD [OF sync(3)]
  have i: "i < n" using sync(1) D(2) by simp
  have "rinv n (rgoes i Want s)"
    by (rule rinv_stay [OF sync(3) i, where p = Want]) (use sync D(6) D(9) [OF i] i in auto)
  moreover have "bar_flags_ok (rgoes i Want s)" using sync by (auto simp: bar_flags_ok_def nth_list_update)
  ultimately show ?case by simp
next
  case (move i s s')
  then show ?case using rmove_inv flags_inv rinvD(2) [of n s] by metis
qed

lemma rsteps_inv:
  assumes "rstep\<^sup>*\<^sup>* (new_rbarrier n) s" "n < 2 ^ 32" "\<forall>j < n. arrived s ! j < 2 ^ 64"
  shows "rinv n s \<and> bar_flags_ok s"
  using assms
proof (induction rule: rtranclp_induct)
  case base
  then show ?case using new_rbarrier_inv by simp
next
  case (step s s')
  have "length (arrived s) = n" using step(1)
    by (induction rule: rtranclp_induct) (auto simp: new_rbarrier_def dest: rstep_arrived)
  then have "\<forall>j < n. arrived s ! j < 2 ^ 64" using rstep_arrived [OF step(2)] step(5) by (meson le_less_trans)
  then show ?case using rstep_inv [OF step(2)] step by blast
qed

section \<open>What the barrier promises\<close>

lemma thread_counts: "thread_ok k a d p \<Longrightarrow> d \<le> k \<and> k \<le> a \<and> a \<le> k + 1 \<and> k \<le> d + 1"
  by (cases p) (auto simp: in_round_def)

text \<open>C22: A \<^verbatim>\<open>ReusableBarrier\<close> for n threads that run with interrupts enabled, used by them fewer than 2^64 times under
  every interleaving, is a barrier: no thread has left its k-th \<^verbatim>\<open>sync\<close> before every thread has been counted in its own
  k-th one.  No assertion of \<^verbatim>\<open>sync\<close>, \<^verbatim>\<open>wait\<close> and \<^verbatim>\<open>notify\<close> fails: the lock is taken where \<^verbatim>\<open>isMine\<close> is asked,
  interrupts are disabled at the entry of \<^verbatim>\<open>wait\<close> and enabled behind its \<^verbatim>\<open>block\<close>, an epoch that changed has grown,
  and the count is not zero.  No wake-up is lost either: when no thread can move, some thread is not in \<^verbatim>\<open>sync\<close> at all.\<close>

theorem barrier_spec:
  assumes "rstep\<^sup>*\<^sup>* (new_rbarrier n) s" "n < 2 ^ 32" "\<forall>i < n. arrived s ! i < 2 ^ 64"
  shows "(\<forall>i < n. \<forall>j < n. passed s ! i \<le> arrived s ! j) \<and> (\<forall>i < n. \<forall>f. rmove i s \<noteq> Some (Inl f)) \<and>
    (0 < n \<and> (\<forall>i < n. rmove i s = None) \<longrightarrow> (\<exists>i < n. rpcs s ! i = Idle))"
proof (intro conjI allI impI)
  have I: "rinv n s" and F: "bar_flags_ok s" using rsteps_inv [OF assms] by simp_all
  note D = rinvD [OF I]
  show "passed s ! i \<le> arrived s ! j" if "i < n" "j < n" for i j
    using thread_counts [OF D(9) [OF that(1)]] thread_counts [OF D(9) [OF that(2)]] by linarith
  show "rmove i s \<noteq> Some (Inl f)" if "i < n" for i f by (rule rmove_ok [OF I F that])
  assume st: "0 < n \<and> (\<forall>i < n. rmove i s = None)"
  show "\<exists>i < n. rpcs s ! i = Idle"
  proof (rule ccontr)
    assume ni: "\<not> (\<exists>i < n. rpcs s ! i = Idle)"
    have "\<not> holds_lock (rpcs s ! i)" if "i < n" for i
      using st that by (cases "rpcs s ! i") (auto simp: rmove_def split: if_splits)
    then have "num holds_lock (rpcs s) = 0" using D(2) by (simp add: num_zero)
    then have "\<not> rlocked s" using D(8) by (auto split: if_splits)
    then have "\<exists>t. rpcs s ! i = Asleep t" if "i < n" for i
      using st ni that by (cases "rpcs s ! i") (auto simp: rmove_def split: if_splits)
    then have "waits (repoch s) (rpcs s ! i)" if "i < n" for i
      using D(9) [OF that] that by (fastforce simp: word_unat_eq_iff)
    then have "num (waits (repoch s)) (rpcs s) = n" using D(2) num_all [of "waits (repoch s)" "rpcs s"] by simp
    then show False using D(6,7) st by (simp add: unat_eq_0)
  qed
qed

text \<open>Two threads: the first arrives and sleeps, the second wakes it, leaves, and starts again.\<close>

fun rfollows :: "(nat + nat) list \<Rightarrow> rbarrier \<Rightarrow> rbarrier option" where
  "rfollows [] s = Some s"
| "rfollows (Inl i # xs) s = (if i < length (rpcs s) \<and> rpcs s ! i = Idle then rfollows xs (rgoes i Want s) else None)"
| "rfollows (Inr i # xs) s =
     (if i < length (rpcs s) then (case rmove i s of Some (Inr s1) \<Rightarrow> rfollows xs s1 | _ \<Rightarrow> None) else None)"

lemma rfollows_steps: "rfollows xs s = Some s' \<Longrightarrow> rstep\<^sup>*\<^sup>* s s'"
  by (induction xs s rule: rfollows.induct)
    (auto split: if_splits option.splits sum.splits intro: rstep.intros converse_rtranclp_into_rtranclp)

definition demo_round :: "(nat + nat) list" where
  "demo_round = [Inl 0, Inr 0, Inr 0, Inr 0, Inr 0, Inr 0, Inr 0, Inr 0, Inl 1, Inr 1, Inr 1, Inr 1, Inl 1]"

lemma replicate_2: "replicate 2 x = [x, x]"
  by (simp add: numeral_2_eq_2)

lemma demo_round_run:
  "rfollows demo_round (new_rbarrier 2) =
     Some \<lparr>initial_count = 2, rcount = 2, repoch = 1, rcond = \<lparr>cepoch = 1, cqueue = []\<rparr>, rlocked = False, rwas = False,
       rdis = [False, False], rpcs = [Ready 0, Want], arrived = [1, 1], passed = [0, 1]\<rparr>"
  by (simp add: demo_round_def new_rbarrier_def new_cond_def rmove_def rgoes_def sync_enter_def notifyAll_def notify_def
      notify_loop_eq wake_all_def wake_def Let_def replicate_2 lock_defs)

theorem barrier_spec_witness:
  "let s = the (rfollows demo_round (new_rbarrier 2)) in
     (\<forall>i < 2. \<forall>j < 2. passed s ! i \<le> arrived s ! j) \<and> (\<forall>i < 2. \<forall>f. rmove i s \<noteq> Some (Inl f))"
  using barrier_spec [OF rfollows_steps [OF demo_round_run]] demo_round_run
  by (simp add: less_2_cases_iff)

text \<open>The interrupts matter: a thread that calls \<^verbatim>\<open>sync\<close> with interrupts disabled and is woken fails the
  assertion behind \<^verbatim>\<open>block\<close>.\<close>

lemma sync_disabled_fails:
  "\<exists>s. rfollows demo_round ((new_rbarrier 2)\<lparr>rdis := [True, False]\<rparr>) = Some s \<and>
     rmove 0 s = Some (Inl (AssertFailed ''!Interrupts::isDisabled()''))"
  by (simp add: demo_round_def new_rbarrier_def new_cond_def rmove_def rgoes_def sync_enter_def notifyAll_def notify_def
      notify_loop_eq wake_all_def wake_def Let_def replicate_2 lock_defs assertR_def)

section \<open>The simple barrier\<close>

text \<open>\<^verbatim>\<open>Barrier::sync\<close> over a 32-bit signed count and a semaphore (its count of permits), once by each thread.\<close>

datatype spc = Start | Raise | Lower | Through

record sbarrier =
  scount :: u32
  ssem :: nat
  spcs :: "spc list"

definition new_sbarrier :: "nat \<Rightarrow> sbarrier" where
  "new_sbarrier n = \<lparr>scount = of_nat n, ssem = 0, spcs = replicate n Start\<rparr>"

definition smove :: "nat \<Rightarrow> sbarrier \<Rightarrow> sbarrier res option" where
  "smove i s =
     (case spcs s ! i of
        Start \<Rightarrow>
          (let x = scount s - 1
           in Some (if sint x < 0 then Inl (Panic ''count went negative in barrier'')
                    else Inr (s\<lparr>scount := x, spcs := (spcs s)[i := if x = 0 then Raise else Lower]\<rparr>)))
      | Lower \<Rightarrow> if ssem s = 0 then None else Some (Inr (s\<lparr>ssem := ssem s - 1, spcs := (spcs s)[i := Raise]\<rparr>))
      | Raise \<Rightarrow> Some (Inr (s\<lparr>ssem := ssem s + 1, spcs := (spcs s)[i := Through]\<rparr>))
      | Through \<Rightarrow> None)"

inductive sstep :: "sbarrier \<Rightarrow> sbarrier \<Rightarrow> bool" where
  "i < length (spcs s) \<Longrightarrow> smove i s = Some (Inr s') \<Longrightarrow> sstep s s'"

definition sinv :: "nat \<Rightarrow> sbarrier \<Rightarrow> bool" where
  "sinv n s \<longleftrightarrow> length (spcs s) = n \<and> n < 2 ^ 31 \<and> sint (scount s) = int (num (\<lambda>p. p = Start) (spcs s)) \<and>
     ssem s + num (\<lambda>p. p = Raise) (spcs s) = (if scount s = 0 \<and> n \<noteq> 0 then 1 else 0) \<and>
     (0 < sint (scount s) \<longrightarrow> num (\<lambda>p. p = Through) (spcs s) = 0)"

lemma sint_down:
  fixes x :: u32
  assumes "0 < sint x"
  shows "sint (x - 1) = sint x - 1"
proof -
  have "- (2 ^ 31) \<le> sint x - 1 \<and> sint x - 1 < 2 ^ 31" using assms sint_lt [of x] by simp
  then show ?thesis by (simp add: sint_word_ariths(2) signed_take_bit_int_eq_self)
qed

lemma sint_nat: "n < 2 ^ 31 \<Longrightarrow> sint (of_nat n :: u32) = int n"
  by (simp add: signed_of_nat signed_take_bit_int_eq_self)

lemma sstep_inv: "sstep s s' \<Longrightarrow> sinv n s \<Longrightarrow> sinv n s'"
proof (induction rule: sstep.induct)
  case (1 i s s')
  note U = num_update [OF 1(1)]
  have n: "n \<noteq> 0" "length (spcs s) = n" using 1 by (auto simp: sinv_def)
  note st = U [of "\<lambda>p. p = Start"] and ra = U [of "\<lambda>p. p = Raise"] and th = U [of "\<lambda>p. p = Through"]
  show ?case
  proof (cases "spcs s ! i")
    case Start
    have "0 < num (\<lambda>p. p = Start) (spcs s)" using num_pos [of i "spcs s" "\<lambda>p. p = Start"] 1(1) Start by simp
    then have pos: "0 < sint (scount s)" using 1(3) by (simp add: sinv_def)
    then have one: "sint (scount s - 1) = sint (scount s) - 1" "scount s \<noteq> 0" by (auto intro: sint_down)
    let ?p = "if scount s - 1 = 0 then Raise else Lower"
    have "s' = s\<lparr>scount := scount s - 1, spcs := (spcs s)[i := ?p]\<rparr>" using 1(2) Start pos one by (auto simp: smove_def Let_def)
    then show ?thesis using 1(3) Start n pos one st [of ?p] ra [of ?p] th [of ?p] by (auto simp: sinv_def)
  next
    case Lower
    have "s' = s\<lparr>ssem := ssem s - 1, spcs := (spcs s)[i := Raise]\<rparr> \<and> ssem s \<noteq> 0" using 1(2) Lower by (auto simp: smove_def split: if_splits)
    then show ?thesis using 1(3) Lower n st [of Raise] ra [of Raise] th [of Raise] by (auto simp: sinv_def split: if_splits)
  next
    case Raise
    have "0 < num (\<lambda>p. p = Raise) (spcs s)" using num_pos [of i "spcs s" "\<lambda>p. p = Raise"] 1(1) Raise by simp
    then have "scount s = 0" using 1(3) by (auto simp: sinv_def split: if_splits)
    moreover have "s' = s\<lparr>ssem := ssem s + 1, spcs := (spcs s)[i := Through]\<rparr>" using 1(2) Raise by (auto simp: smove_def)
    ultimately show ?thesis using 1(3) Raise n st [of Through] ra [of Through] by (auto simp: sinv_def)
  qed (use 1(2) in \<open>simp add: smove_def\<close>)
qed

text \<open>The same for a barrier that is used once: nobody is through before everybody has started, the count never
  turns negative, and when nobody can move everybody is through.\<close>

lemma simple_barrier:
  assumes "sstep\<^sup>*\<^sup>* (new_sbarrier n) s" "n < 2 ^ 31"
  shows "(\<exists>i < n. spcs s ! i = Through) \<longrightarrow> (\<forall>j < n. spcs s ! j \<noteq> Start)"
    "i < n \<Longrightarrow> smove i s \<noteq> Some (Inl f)"
    "\<forall>i < n. smove i s = None \<Longrightarrow> \<forall>i < n. spcs s ! i = Through"
proof -
  have I: "sinv n s" using assms(1)
  proof (induction rule: rtranclp_induct)
    case base
    show ?case using assms(2) sint_nat [OF assms(2)] by (auto simp: sinv_def new_sbarrier_def num_def)
  qed (rule sstep_inv)
  have L: "length (spcs s) = n" "sint (scount s) = int (num (\<lambda>p. p = Start) (spcs s))"
    "ssem s + num (\<lambda>p. p = Raise) (spcs s) = (if scount s = 0 \<and> n \<noteq> 0 then 1 else 0)" using I by (auto simp: sinv_def)
  show "(\<exists>i < n. spcs s ! i = Through) \<longrightarrow> (\<forall>j < n. spcs s ! j \<noteq> Start)"
    using I num_pos [of _ "spcs s" "\<lambda>p. p = Start"] num_pos [of _ "spcs s" "\<lambda>p. p = Through"]
    by (fastforce simp: sinv_def)
  show "smove i s \<noteq> Some (Inl f)" if "i < n"
    using L num_pos [of i "spcs s" "\<lambda>p. p = Start"] that by (cases "spcs s ! i") (auto simp: smove_def Let_def sint_down)
  assume st: "\<forall>i < n. smove i s = None"
  have a: "spcs s ! i = Through \<or> spcs s ! i = Lower \<and> ssem s = 0" if "i < n" for i
    using st that by (cases "spcs s ! i") (auto simp: smove_def Let_def split: if_splits)
  then have "spcs s ! i \<noteq> Start \<and> spcs s ! i \<noteq> Raise" if "i < n" for i using that by fastforce
  then have "num (\<lambda>p. p = Start) (spcs s) = 0" "num (\<lambda>p. p = Raise) (spcs s) = 0" using L(1) by (simp_all add: num_zero)
  moreover then have "scount s = 0" using L(2) by (simp add: signed_eq_0_iff)
  ultimately have "n \<noteq> 0 \<longrightarrow> ssem s = 1" using L(3) by simp
  then show "\<forall>i < n. spcs s ! i = Through" using a by auto
qed

end
