(* ===== verification/Process.thy ===== *)
theory Process
  imports Sync User_Memory Ext2
begin

text \<open>
  Processes: the process control block and file descriptors of \<^verbatim>\<open>kernel/process.h\<close>, thread
  control blocks and their creation and destruction (\<^verbatim>\<open>kernel/threads.h\<close>, \<^verbatim>\<open>kernel/threads.cc\<close>,
  \<^verbatim>\<open>kernel/future.h\<close>), the keyboard line of \<^verbatim>\<open>kernel/keyboard.cc\<close>, and the state of the whole
  kernel, which the system calls change.
\<close>

section \<open>Objects on the kernel heap\<close>

text \<open>
  A \<^verbatim>\<open>Shared\<close> pointer is a reference to an object of one of four kinds; 0 is the null pointer.
  Each kind is a store from references to objects (a \<^verbatim>\<open>Shared\<close> that is not null keeps its object), because descriptors and semaphores are shared
  by a process and its children.  References are given out in order and never again: the heap
  gives an address out again only after the last pointer to it is gone.
\<close>

type_synonym ref = nat

record filedesc =
  fd_node :: "node option"
  offset :: u32
  valid :: bool

record pcb =
  future :: ref
  fd :: "ref list"
  cp :: "ref list"
  sp :: "ref list"

record thread =
  process :: ref
  tpd :: u32
  user_start :: "u32 \<times> u32"

record keyboard =
  kbuf :: "u8 list"
  bufSize :: u32
  kdone :: bool

record 's kernel =
  pcbs :: "ref \<rightharpoonup> pcb"
  descs :: "ref \<rightharpoonup> filedesc"
  sems :: "ref \<rightharpoonup> semaphore"
  futures :: "ref \<rightharpoonup> u32 fut"
  tcbs :: "tcb \<rightharpoonup> thread"
  next_ref :: ref
  ths :: threads
  cur :: tcb
  pm :: phys
  fs :: ext2
  disk :: 's
  kb :: keyboard
  out :: "u8 list"

text \<open>
  What the kernel runs on: the disk, the configuration, the directory every address space starts
  from, where the heap puts the object of a reference, the core's idle thread, the keyboard line's address,
  and which words around the tables of a process (which are memory like any other) happen to be zero.
\<close>

record 's machine =
  dev :: "'s blockio"
  kConfig :: config
  shared :: u32
  addr_of :: "ref \<Rightarrow> u32"
  idle_thread :: tcb
  kbuf_addr :: u32
  stray_null :: "'s kernel \<Rightarrow> int \<Rightarrow> bool"

definition alloc_ref :: "'s kernel \<Rightarrow> ref \<times> 's kernel" where
  "alloc_ref k = (next_ref k, k\<lparr>next_ref := next_ref k + 1\<rparr>)"

text \<open>The object of a reference.\<close>

definition pcb_at :: "'s kernel \<Rightarrow> ref \<Rightarrow> pcb" where
  "pcb_at k r = the (pcbs k r)"

definition desc_at :: "'s kernel \<Rightarrow> ref \<Rightarrow> filedesc" where
  "desc_at k r = the (descs k r)"

definition sem_at :: "'s kernel \<Rightarrow> ref \<Rightarrow> semaphore" where
  "sem_at k r = the (sems k r)"

definition fut_at :: "'s kernel \<Rightarrow> ref \<Rightarrow> u32 fut" where
  "fut_at k r = the (futures k r)"

definition tcb_at :: "'s kernel \<Rightarrow> tcb \<Rightarrow> thread" where
  "tcb_at k t = the (tcbs k t)"

definition nonnull :: "ref \<Rightarrow> string \<Rightarrow> 'a res \<Rightarrow> 'a res" where
  "nonnull r what m = (if r = 0 then Inl (NullDeref what) else m)"

lemma nonnull_simps [simp]:
  "nonnull 0 what m = Inl (NullDeref what)"
  "r \<noteq> 0 \<Longrightarrow> nonnull r what m = m"
  by (simp_all add: nonnull_def)

section \<open>Threads and processes\<close>

definition cur_thread :: "'s kernel \<Rightarrow> thread" where
  "cur_thread k = tcb_at k (cur k)"

definition cur_process :: "'s kernel \<Rightarrow> pcb" where
  "cur_process k = pcb_at k (process (cur_thread k))"

definition set_process :: "pcb \<Rightarrow> 's kernel \<Rightarrow> 's kernel" where
  "set_process p k = k\<lparr>pcbs := (pcbs k)(process (cur_thread k) \<mapsto> p)\<rparr>"

text \<open>A computation on the memory, as a computation on the kernel.\<close>

definition in_mem :: "(phys \<Rightarrow> ('a \<times> phys) res) \<Rightarrow> 's kernel \<Rightarrow> ('a \<times> 's kernel) res" where
  "in_mem f k = rbind (f (pm k)) (\<lambda>(x, p). Inr (x, k\<lparr>pm := p\<rparr>))"

definition upd_mem :: "(phys \<Rightarrow> phys res) \<Rightarrow> 's kernel \<Rightarrow> 's kernel res" where
  "upd_mem f k = rbind (f (pm k)) (\<lambda>p. Inr (k\<lparr>pm := p\<rparr>))"

text \<open>\<^verbatim>\<open>FileDescriptor\<close> and \<^verbatim>\<open>PCB\<close>: the constructor of a descriptor does not set the offset; the
  three standard descriptors are never read through it.\<close>

definition new_FileDescriptor :: "node option \<Rightarrow> filedesc" where
  "new_FileDescriptor n = \<lparr>fd_node = n, offset = 0, valid = False\<rparr>"

definition new_PCB :: "'s kernel \<Rightarrow> ref \<times> 's kernel" where
  "new_PCB k =
     (case alloc_ref k of (p, k0) \<Rightarrow>
      case alloc_ref k0 of (d0, k1) \<Rightarrow>
      case alloc_ref k1 of (d1, k2) \<Rightarrow>
      case alloc_ref k2 of (d2, k3) \<Rightarrow>
      case alloc_ref k3 of (f, k4) \<Rightarrow>
      let std = (new_FileDescriptor None)\<lparr>valid := True\<rparr>
      in (p, k4\<lparr>descs := (descs k4)(d0 \<mapsto> std, d1 \<mapsto> std, d2 \<mapsto> std),
           futures := (futures k4)(f \<mapsto> new_future 0),
           pcbs := (pcbs k4)(p \<mapsto> \<lparr>future = f, fd = [d0, d1, d2] @ replicate 7 0,
             cp = replicate 10 0, sp = replicate 10 0\<rparr>)\<rparr>))"

text \<open>\<^verbatim>\<open>TCB::TCB\<close> makes an address space and a process, \<^verbatim>\<open>TCB::~TCB\<close> gives the address space back.\<close>

definition new_TCB :: "'s machine \<Rightarrow> u32 \<times> u32 \<Rightarrow> 's kernel \<Rightarrow> (tcb \<times> 's kernel) res" where
  "new_TCB e work k =
     (case alloc_ref k of (r, k0) \<Rightarrow>
      rbind (in_mem (make_pd (kConfig e) (shared e)) k0) (\<lambda>(pd, k1).
        case new_PCB k1 of (p, k2) \<Rightarrow>
        let t = addr_of e r
        in Inr (t, k2\<lparr>tcbs := (tcbs k2)(t \<mapsto> \<lparr>process = p, tpd = pd, user_start = work\<rparr>),
             ths := (ths k2)\<lparr>isIdle := (isIdle (ths k2))(t := False)\<rparr>\<rparr>)))"

definition delete_TCB :: "tcb \<Rightarrow> 's kernel \<Rightarrow> 's kernel res" where
  "delete_TCB t k = upd_mem (delete_pd (tpd (tcb_at k t))) k"

definition zombie_remove :: "'s kernel \<Rightarrow> tcb option \<times> 's kernel" where
  "zombie_remove k =
     (case q_remove (tlinks (ths k), zombies (ths k)) of (r, l, q) \<Rightarrow>
        (r, k\<lparr>ths := (ths k)\<lparr>tlinks := l, zombies := q\<rparr>\<rparr>))"

partial_function (option) delete_zombies_loop :: "'s kernel \<Rightarrow> 's kernel res option" where
  "delete_zombies_loop k =
     (case zombie_remove k of
        (None, k1) \<Rightarrow> Some (Inr k1)
      | (Some t, k1) \<Rightarrow>
          (case delete_TCB t k1 of Inl e \<Rightarrow> Some (Inl e) | Inr k2 \<Rightarrow> delete_zombies_loop k2))"

definition delete_zombies :: "'s kernel \<Rightarrow> 's kernel res" where
  "delete_zombies k = returned (delete_zombies_loop k)"

definition makeThread :: "'s machine \<Rightarrow> u32 \<times> u32 \<Rightarrow> 's kernel \<Rightarrow> (tcb \<times> 's kernel) res" where
  "makeThread e work k = rbind (delete_zombies k) (new_TCB e work)"

definition schedule_k :: "tcb \<Rightarrow> 's kernel \<Rightarrow> 's kernel" where
  "schedule_k t k = k\<lparr>ths := schedule t (ths k)\<rparr>"

text \<open>\<^verbatim>\<open>stop\<close>: once another thread runs on the core, the stopped one is a zombie.\<close>

definition stop :: "'s kernel \<Rightarrow> 's kernel" where
  "stop k =
     (if \<not> isIdle (ths k) (cur k) then
        (case q_add (cur k) (tlinks (ths k), zombies (ths k)) of (l, q) \<Rightarrow>
           k\<lparr>ths := (ths k)\<lparr>tlinks := l, zombies := q\<rparr>\<rparr>)
      else k)"

text \<open>\<^verbatim>\<open>block\<close>, the choice of the thread that runs next on the core: the first ready one, else the
  idle thread, which itself waits until there is one.\<close>

definition next_thread :: "'s machine \<Rightarrow> 's kernel \<Rightarrow> 's kernel" where
  "next_thread e k =
     (case ready_remove (ths k) of
        (None, t) \<Rightarrow> if isIdle (ths k) (cur k) then k else k\<lparr>ths := t, cur := idle_thread e\<rparr>
      | (Some n, t) \<Rightarrow> k\<lparr>ths := t, cur := n\<rparr>)"

section \<open>Output\<close>

text \<open>\<^verbatim>\<open>Debug::printf\<close> of a string and of a character, on the console.\<close>

definition put_out :: "u8 list \<Rightarrow> 's kernel \<Rightarrow> 's kernel" where
  "put_out bs k = k\<lparr>out := out k @ bs\<rparr>"

text \<open>A line of text, as in \<^verbatim>\<open>printf("no child!\n")\<close>.\<close>

definition put_text :: "string \<Rightarrow> 's kernel \<Rightarrow> 's kernel" where
  "put_text s = put_out (map of_char s @ [10])"

end
