(* ===== verification/Elf.thy ===== *)
theory Elf
  imports Process
begin

text \<open>
  Loading a program, \<^verbatim>\<open>kernel/elf.cc\<close> and \<^verbatim>\<open>kernel/elf.h\<close>: the headers are read from the file
  into buffers, and every loadable segment is read straight to its virtual address.
\<close>

record elf_header =
  maigc0 :: u8
  magic1 :: u8
  magic2 :: u8
  magic3 :: u8
  cls :: u8
  encoding :: u8
  header_version :: u8
  abi :: u8
  abi_version :: u8
  padding :: "u8 list"
  elf_type :: u16
  elf_machine :: u16
  elf_version :: u32
  elf_entry :: u32
  phoff :: u32
  shoff :: u32
  elf_flags :: u32
  ehsize :: u16
  phentsize :: u16
  phnum :: u16
  shentsize :: u16
  shnum :: u16
  shstrndx :: u16

definition sizeof_elf :: u32 where
  "sizeof_elf = 52"

definition decode_elf :: "u8 list \<Rightarrow> elf_header" where
  "decode_elf b =
     \<lparr>maigc0 = b ! 0, magic1 = b ! 1, magic2 = b ! 2, magic3 = b ! 3, cls = b ! 4, encoding = b ! 5,
      header_version = b ! 6, abi = b ! 7, abi_version = b ! 8, padding = take 7 (drop 9 b),
      elf_type = le16 b 16, elf_machine = le16 b 18, elf_version = le32 b 20, elf_entry = le32 b 24,
      phoff = le32 b 28, shoff = le32 b 32, elf_flags = le32 b 36, ehsize = le16 b 40,
      phentsize = le16 b 42, phnum = le16 b 44, shentsize = le16 b 46, shnum = le16 b 48,
      shstrndx = le16 b 50\<rparr>"

record program_header =
  ph_type :: u32
  ph_offset :: u32
  vaddr :: u32
  paddr :: u32
  filesz :: u32
  memsz :: u32
  ph_flags :: u32
  ph_align :: u32

definition sizeof_ph :: nat where
  "sizeof_ph = 32"

definition decode_ph :: "u8 list \<Rightarrow> nat \<Rightarrow> program_header" where
  "decode_ph b i =
     \<lparr>ph_type = le32 b i, ph_offset = le32 b (i + 4), vaddr = le32 b (i + 8), paddr = le32 b (i + 12),
      filesz = le32 b (i + 16), memsz = le32 b (i + 20), ph_flags = le32 b (i + 24), ph_align = le32 b (i + 28)\<rparr>"

text \<open>
  A buffer holds what the file gave; what it did not fill, and what lies behind it, is not
  defined, and reading it fails in the model.  The counts that \<^verbatim>\<open>read_all\<close> returns are not
  looked at.  \<^verbatim>\<open>read_all\<close> to a virtual address stores the bytes through the page directory.
\<close>

definition read_to :: "'s machine \<Rightarrow> node \<Rightarrow> u32 \<Rightarrow> u32 \<Rightarrow> u32 \<Rightarrow> 's kernel \<Rightarrow> (int \<times> 's kernel) res" where
  "read_to e nd off n va k =
     rbind (read_all (node_dev (dev e) nd) off n (disk k)) (\<lambda>(cnt, bytes, d).
       rbind (upd_mem (store_range (store8 (tpd (cur_thread k))) va bytes) (k\<lparr>disk := d\<rparr>)) (\<lambda>k1. Inr (cnt, k1)))"

fun load_segments :: "'s machine \<Rightarrow> node \<Rightarrow> u8 list \<Rightarrow> nat \<Rightarrow> nat \<Rightarrow> 's kernel \<Rightarrow> 's kernel res" where
  "load_segments e nd buf i 0 k = Inr k"
| "load_segments e nd buf i (Suc n) k =
     (if length buf < (i + 1) * sizeof_ph then Inl (OutOfBounds ''progh[i]'')
      else
        (let c = decode_ph buf (i * sizeof_ph)
         in rbind (if ph_type c = 1 then rbind (read_to e nd (ph_offset c) (filesz c) (vaddr c) k) (\<lambda>(cnt, k1). Inr k1)
                   else Inr k)
              (load_segments e nd buf (i + 1) n)))"

definition elf_load :: "'s machine \<Rightarrow> node \<Rightarrow> 's kernel \<Rightarrow> (u32 \<times> 's kernel) res" where
  "elf_load e nd k =
     rbind (read_all (node_dev (dev e) nd) 0 sizeof_elf (disk k)) (\<lambda>(cnt, buffer, d).
       if length buffer < unat sizeof_elf then Inl (OutOfBounds ''*elf'')
       else
         (let elf = decode_elf buffer
          in if maigc0 elf \<noteq> 0x7F \<or> magic1 elf \<noteq> 69 \<or> magic2 elf \<noteq> 76 \<or> magic3 elf \<noteq> 70 then Inl (Panic ''error'')
             else rbind (read_all (node_dev (dev e) nd) (phoff elf) (ucast (phnum elf) * ucast (phentsize elf)) d)
               (\<lambda>(cnt2, second_buffer, d2).
                 rbind (load_segments e nd second_buffer 0 (unat (phnum elf)) (k\<lparr>disk := d2\<rparr>)) (\<lambda>k1.
                   Inr (elf_entry elf, k1)))))"

end
