(* ===== verification/Sys.thy ===== *)
theory Sys
  imports Elf LibK
begin

text \<open>
  The system calls, \<^verbatim>\<open>kernel/sys.cc\<close>: one definition per handler and \<open>sysHandler\<close>, which reads
  the arguments from the user's stack and calls one of them.  A handler is a function on the state
  of the kernel with the calling thread as \<open>cur\<close>; how it ends is a value of \<open>outcome\<close>.
  Strings of the user are read up to their terminator when the call needs them.
\<close>

section \<open>How a system call ends\<close>

text \<open>It returns to the caller, puts the thread to sleep (with what is left to do once it runs
  again), starts a program in user mode, or never returns because the thread stopped or the
  machine was shut down.\<close>

datatype rest = AfterDown | AfterGet ref u32 u32

datatype outcome = Ret u32 | Sleep rest | ToUser u32 u32 | Stopped | PowerOff

definition ret :: "u32 \<Rightarrow> 's kernel \<Rightarrow> (outcome \<times> 's kernel) res" where
  "ret v k = Inr (Ret v, k)"

section \<open>User memory and kernel tables\<close>

definition ld8 :: "u32 \<Rightarrow> 's kernel \<Rightarrow> (u8 \<times> 's kernel) res" where
  "ld8 a k = in_mem (load8 (tpd (cur_thread k)) a) k"

definition st8 :: "u32 \<Rightarrow> u8 \<Rightarrow> 's kernel \<Rightarrow> 's kernel res" where
  "st8 a b k = upd_mem (store8 (tpd (cur_thread k)) a b) k"

definition esp_arg :: "u32 \<Rightarrow> nat \<Rightarrow> 's kernel \<Rightarrow> (u32 \<times> 's kernel) res" where
  "esp_arg esp i k = load_word ld8 (esp + 4 * of_nat i) k"

text \<open>The test of \<^verbatim>\<open>read\<close> and \<^verbatim>\<open>write\<close> on a pointer, which is also the test on each byte written.\<close>

definition bad_ptr :: "config \<Rightarrow> u32 \<Rightarrow> bool" where
  "bad_ptr cfg p \<longleftrightarrow> p < 0x80000000 \<or> (localAPIC cfg \<le> p \<and> p < localAPIC cfg + 4096) \<or>
     (ioAPIC cfg \<le> p \<and> p < ioAPIC cfg + 4096)"

text \<open>The search for a free slot in \<^verbatim>\<open>open\<close> and \<^verbatim>\<open>sem\<close>: it stops at the last slot, free or not.\<close>

function scan_slot :: "ref list \<Rightarrow> nat \<Rightarrow> nat" where
  "scan_slot xs i = (if xs ! i \<noteq> 0 \<and> i < 9 then scan_slot xs (i + 1) else i)"
  by pat_completeness auto
termination by (relation "measure (\<lambda>(xs, i). 9 - i)") auto

declare scan_slot.simps [simp del]

text \<open>The search of \<^verbatim>\<open>fork\<close>, which goes one past the last slot.\<close>

function scan_child :: "ref list \<Rightarrow> nat \<Rightarrow> nat" where
  "scan_child xs i = (if i < 10 \<and> xs ! i \<noteq> 0 then scan_child xs (i + 1) else i)"
  by pat_completeness auto
termination by (relation "measure (\<lambda>(xs, i). 10 - i)") auto

declare scan_child.simps [simp del]

text \<open>
  The tables \<^verbatim>\<open>fd\<close>, \<^verbatim>\<open>cp\<close> and \<^verbatim>\<open>sp\<close> of a process stand behind each other, ten words each, and
  some calls do not check their index.  \<open>table_null\<close>: is the word at an index counted from
  \<^verbatim>\<open>fd[0]\<close> a null pointer?  Outside the three tables it is a word of memory that is no pointer.
\<close>

definition table_null :: "'s machine \<Rightarrow> 's kernel \<Rightarrow> int \<Rightarrow> bool" where
  "table_null e k i =
     (let p = cur_process k
      in if 0 \<le> i \<and> i < 10 then fd p ! nat i = 0
         else if 10 \<le> i \<and> i < 20 then cp p ! nat (i - 10) = 0
         else if 20 \<le> i \<and> i < 30 then sp p ! nat (i - 20) = 0
         else stray_null e k i)"

text \<open>
  A null word behaves as an empty slot does.  Another word is taken for a pointer to an object of the
  wrong kind, whose count of references is then looked for where another kind of object has it (or
  nothing): what follows is undefined, and a fault of the model.
\<close>

section \<open>close, sem, up, down\<close>

definition close_sys :: "u32 \<Rightarrow> 's kernel \<Rightarrow> (outcome \<times> 's kernel) res" where
  "close_sys n k =
     (if 30 < n then ret (- 1) k
      else
        (let p = cur_process k
         in if n < 10 then ret 0 (set_process (p\<lparr>fd := (fd p)[unat n := 0]\<rparr>) k)
            else if n < 20 then ret 0 (set_process (p\<lparr>sp := (sp p)[unat (n - 10) := 0]\<rparr>) k)
            else if unat (n - 20) < 10 then ret 0 (set_process (p\<lparr>cp := (cp p)[unat (n - 20) := 0]\<rparr>) k)
            else if sp p ! 0 = 0 then ret 0 k
            else Inl (OutOfBounds ''cp[fd - 20]'')))"

definition sem_sys :: "u32 \<Rightarrow> 's kernel \<Rightarrow> (outcome \<times> 's kernel) res" where
  "sem_sys initial k =
     (let p = cur_process k; i = scan_slot (sp p) 0
      in if sp p ! i \<noteq> 0 then ret (- 1) k
         else (case alloc_ref k of (r, k1) \<Rightarrow>
           ret (of_nat i + 10) (set_process (p\<lparr>sp := (sp p)[i := r]\<rparr>)
             (k1\<lparr>sems := (sems k1)(r \<mapsto> new_semaphore initial)\<rparr>))))"

definition up_sys :: "int \<Rightarrow> 's kernel \<Rightarrow> (outcome \<times> 's kernel) res" where
  "up_sys i k =
     (if i < 10 \<or> 19 < i then ret (- 1) k
      else
        (let r = sp (cur_process k) ! nat (i - 10)
         in nonnull r ''sp[id - 10]->up()''
              (case sem_up (ths k, sem_at k r) of (th, s) \<Rightarrow> ret 0 (k\<lparr>ths := th, sems := (sems k)(r \<mapsto> s)\<rparr>))))"

definition down_sys :: "int \<Rightarrow> 's kernel \<Rightarrow> (outcome \<times> 's kernel) res" where
  "down_sys i k =
     (if i < 10 \<or> 19 < i then ret (- 1) k
      else
        (let r = sp (cur_process k) ! nat (i - 10)
         in nonnull r ''sp[id - 10]->down()''
              (rbind (sem_down (cur k) (ths k, sem_at k r)) (\<lambda>(d, th, s).
                 let k1 = k\<lparr>ths := th, sems := (sems k)(r \<mapsto> s)\<rparr>
                 in case d of Granted \<Rightarrow> ret 0 k1 | Blocked \<Rightarrow> Inr (Sleep AfterDown, k1)))))"

section \<open>wait and exit\<close>

text \<open>The index is not checked.\<close>

definition wait_finish :: "u32 \<Rightarrow> u32 \<Rightarrow> u32 \<Rightarrow> 's kernel \<Rightarrow> (outcome \<times> 's kernel) res" where
  "wait_finish i status v k =
     rbind (store_word st8 status v k) (\<lambda>k1.
       let p = cur_process k1
       in ret 0 (set_process (p\<lparr>cp := (cp p)[unat (i - 20) := 0]\<rparr>) k1))"

definition wait_sys :: "'s machine \<Rightarrow> u32 \<Rightarrow> u32 \<Rightarrow> 's kernel \<Rightarrow> (outcome \<times> 's kernel) res" where
  "wait_sys e i status k =
     (if 10 \<le> unat (i - 20) then
        (if table_null e k (sint (i - 20) + 10) then ret (- 1) (put_text ''no child!'' k)
         else Inl (OutOfBounds ''cp[id - 20]''))
      else
        (let c = cp (cur_process k) ! unat (i - 20)
         in if c = 0 then ret (- 1) (put_text ''no child!'' k)
            else
              (let f = future (pcb_at k c)
               in if f = 0 then ret (- 1) (put_text ''no future in child!'' k)
                  else rbind (fut_get_start (cur k) (ths k, fut_at k f)) (\<lambda>(r, th, g).
                    let k1 = k\<lparr>ths := th, futures := (futures k)(f \<mapsto> g)\<rparr>
                    in case r of None \<Rightarrow> Inr (Sleep (AfterGet f i status), k1)
                       | Some v \<Rightarrow> wait_finish i status v k1))))"

text \<open>What a thread that slept in \<^verbatim>\<open>down\<close> or \<^verbatim>\<open>wait\<close> does when it runs again.\<close>

definition resume :: "rest \<Rightarrow> 's kernel \<Rightarrow> (outcome \<times> 's kernel) res" where
  "resume r k =
     (case r of
        AfterDown \<Rightarrow> ret 0 k
      | AfterGet f i status \<Rightarrow>
          (case fut_get_resume (ths k, fut_at k f) of (v, th, g) \<Rightarrow>
             wait_finish i status v (k\<lparr>ths := th, futures := (futures k)(f \<mapsto> g)\<rparr>)))"

definition exit_sys :: "u32 \<Rightarrow> 's kernel \<Rightarrow> (outcome \<times> 's kernel) res" where
  "exit_sys rc k =
     (let f = future (cur_process k)
      in nonnull f ''future->set(rc)''
           (rbind (fut_set rc (ths k, fut_at k f)) (\<lambda>(th, g).
              Inr (Stopped, stop (k\<lparr>ths := th, futures := (futures k)(f \<mapsto> g)\<rparr>)))))"

section \<open>Files\<close>

definition fs_find :: "'s machine \<Rightarrow> node option \<Rightarrow> cstring \<Rightarrow> 's kernel \<Rightarrow> (node option \<times> 's kernel) res" where
  "fs_find e from path k =
     rbind (ext2_find (dev e) (fs k) from path (disk k)) (\<lambda>(n, d). Inr (n, k\<lparr>disk := d\<rparr>))"

definition open_sys :: "'s machine \<Rightarrow> u32 \<Rightarrow> 's kernel \<Rightarrow> (outcome \<times> 's kernel) res" where
  "open_sys e fn k =
     (let p = cur_process k; i = scan_slot (fd p) 0
      in if fd p ! i \<noteq> 0 then ret (- 1) k
         else rbind (load_string ld8 fn k) (\<lambda>(path, k1).
           rbind (fs_find e (current (fs k1)) path k1) (\<lambda>(n, k2).
             case n of
               None \<Rightarrow> ret (- 1) k2
             | Some nd \<Rightarrow>
                 (case alloc_ref k2 of (r, k3) \<Rightarrow>
                   ret (of_nat i) (set_process (p\<lparr>fd := (fd p)[i := r]\<rparr>)
                     (k3\<lparr>descs := (descs k3)(r \<mapsto> (new_FileDescriptor (Some nd))\<lparr>offset := 0\<rparr>)\<rparr>))))))"

text \<open>\<^verbatim>\<open>marker->node->...\<close> with a null node.\<close>

definition with_node :: "filedesc \<Rightarrow> (node \<Rightarrow> 'a res) \<Rightarrow> 'a res" where
  "with_node d f = (case fd_node d of None \<Rightarrow> Inl (NullDeref ''node'') | Some nd \<Rightarrow> f nd)"

definition read_file :: "'s machine \<Rightarrow> ref \<Rightarrow> u32 \<Rightarrow> u32 \<Rightarrow> 's kernel \<Rightarrow> (outcome \<times> 's kernel) res" where
  "read_file e r buf nbyte k =
     with_node (desc_at k r) (\<lambda>nd.
       let off = offset (desc_at k r);
           n = (if node_size_in_bytes nd < off + nbyte then node_size_in_bytes nd - off else nbyte)
       in rbind (read_to e nd off n buf k) (\<lambda>(cnt, k1).
            let v = word_of_int cnt
            in ret v (k1\<lparr>descs := (descs k1)(r \<mapsto> (desc_at k1 r)\<lparr>offset := off + v\<rparr>)\<rparr>)))"

definition read_sys :: "'s machine \<Rightarrow> int \<Rightarrow> u32 \<Rightarrow> u32 \<Rightarrow> 's kernel \<Rightarrow> (outcome \<times> 's kernel) res" where
  "read_sys e n buf nbyte k =
     (let fds = fd (cur_process k);
          go = (let r = fds ! nat n in if r = 0 then ret (- 1) k else read_file e r buf nbyte k)
      in if bad_ptr (kConfig e) buf then ret (- 1) k
         else if n < 3 \<or> 9 < n then
           (if n < 3 \<and> 0 \<le> n then
              nonnull (fds ! nat n) ''fd[fd]->valid''
                (if \<not> valid (desc_at k (fds ! nat n)) then go else ret (- 1) k)
            else ret (- 1) k)
         else go)"

fun write_loop :: "config \<Rightarrow> u32 \<Rightarrow> u32 \<Rightarrow> nat \<Rightarrow> 's kernel \<Rightarrow> (outcome \<times> 's kernel) res" where
  "write_loop cfg buf i 0 k = ret i k"
| "write_loop cfg buf i (Suc n) k =
     (if bad_ptr cfg (buf + i) then ret i k
      else rbind (ld8 (buf + i) k) (\<lambda>(c, k1). write_loop cfg buf (i + 1) n (put_out [c] k1)))"

definition write_sys :: "'s machine \<Rightarrow> int \<Rightarrow> u32 \<Rightarrow> u32 \<Rightarrow> 's kernel \<Rightarrow> (outcome \<times> 's kernel) res" where
  "write_sys e n buf nbyte k =
     (if bad_ptr (kConfig e) buf \<or> (n \<noteq> 0 \<and> n \<noteq> 1 \<and> n \<noteq> 2) then ret (- 1) k
      else
        (let r = fd (cur_process k) ! nat n
         in if r = 0 \<or> \<not> valid (desc_at k r) then ret (- 1) k
            else write_loop (kConfig e) buf 0 (unat nbyte) k))"

definition len_sys :: "'s machine \<Rightarrow> int \<Rightarrow> 's kernel \<Rightarrow> (outcome \<times> 's kernel) res" where
  "len_sys e n k =
     (if n < 0 \<or> 9 < n then (if table_null e k n then ret (- 1) k else Inl (OutOfBounds ''fd[fd]''))
      else
        (let r = fd (cur_process k) ! nat n
         in if r = 0 then ret (- 1) k
            else if (n = 0 \<or> n = 1 \<or> n = 2) \<and> valid (desc_at k r) then ret 0 k
            else with_node (desc_at k r) (\<lambda>nd. ret (node_size_in_bytes nd) k)))"

definition seek_sys :: "u32 \<Rightarrow> u32 \<Rightarrow> 's kernel \<Rightarrow> (outcome \<times> 's kernel) res" where
  "seek_sys n off k =
     (if 9 < n then ret (- 1) k
      else
        (let r = fd (cur_process k) ! unat n
         in if n < 3 \<and> (r = 0 \<or> fd_node (desc_at k r) = None) then ret (- 1) k
            else nonnull r ''fd[fd]->offset''
                   (ret off (k\<lparr>descs := (descs k)(r \<mapsto> (desc_at k r)\<lparr>offset := off\<rparr>)\<rparr>))))"

section \<open>Directories\<close>

definition with_current :: "'s kernel \<Rightarrow> (node \<Rightarrow> 'a res) \<Rightarrow> 'a res" where
  "with_current k f = (case current (fs k) of None \<Rightarrow> Inl (NullDeref ''fs->current'') | Some nd \<Rightarrow> f nd)"

definition ls_sys :: "'s machine \<Rightarrow> u32 \<Rightarrow> 's kernel \<Rightarrow> (outcome \<times> 's kernel) res" where
  "ls_sys e buffer k =
     with_current k (\<lambda>nd.
       rbind (get_length_of_dir_entries (dev e) nd (disk k)) (\<lambda>(len, d).
         rbind (get_dir_entries (dev e) nd d) (\<lambda>(dir_entries, d2).
           rbind (store_range st8 buffer (take (nat (sint len)) dir_entries) (k\<lparr>disk := d2\<rparr>)) (ret 0))))"

definition getDirEntriesLength_sys :: "'s machine \<Rightarrow> int \<Rightarrow> 's kernel \<Rightarrow> (outcome \<times> 's kernel) res" where
  "getDirEntriesLength_sys e n k =
     (if n < 0 \<or> 9 < n then ret (- 1) k
      else
        (let r = fd (cur_process k) ! nat n
         in if r = 0 \<or> fd_node (desc_at k r) = None then ret (- 1) k
            else with_node (desc_at k r) (\<lambda>nd.
              if \<not> is_dir (data nd) then ret (- 1) k
              else rbind (get_length_of_dir_entries (dev e) nd (disk k)) (\<lambda>(v, d). ret v (k\<lparr>disk := d\<rparr>)))))"

text \<open>The loops of \<^verbatim>\<open>changeDir\<close> over the text of the current path: to its end, noting the last slash,
  and appending.\<close>

function cwd_scan :: "u8 list \<Rightarrow> nat \<Rightarrow> nat \<Rightarrow> (nat \<times> nat) res" where
  "cwd_scan c i lastBackSlash =
     (if length c \<le> i then Inl (OutOfBounds ''cwd[i]'')
      else if c ! i \<noteq> 0 then cwd_scan c (i + 1) (if c ! i = 47 then i else lastBackSlash)
      else Inr (i, lastBackSlash))"
  by pat_completeness auto
termination by (relation "measure (\<lambda>(c, i, l). length c - i)") auto

declare cwd_scan.simps [simp del]

definition zero_from :: "nat \<Rightarrow> u8 list \<Rightarrow> u8 list" where
  "zero_from n c = fold (\<lambda>i c. c[i := 0]) [n..<100] c"

function cwd_append :: "u32 \<Rightarrow> nat \<Rightarrow> nat \<Rightarrow> u8 list \<Rightarrow> 's kernel \<Rightarrow> (nat \<times> u8 list \<times> 's kernel) res" where
  "cwd_append path j i c k =
     rbind (ld8 (path + of_nat j) k) (\<lambda>(b, k1).
       if b = 0 then Inr (i, c, k1)
       else if length c \<le> i then Inl (OutOfBounds ''cwd[i]'')
       else cwd_append path (j + 1) (i + 1) (c[i := b]) k1)"
  by pat_completeness auto
termination by (relation "measure (\<lambda>(p, j, i, c, k). length c - i)") auto

declare cwd_append.simps [simp del]

definition set_cwd :: "u8 list \<Rightarrow> node option \<Rightarrow> 's kernel \<Rightarrow> 's kernel" where
  "set_cwd c n k = k\<lparr>fs := (fs k)\<lparr>cwd := c, current := n\<rparr>\<rparr>"

definition changeDir_up :: "'s machine \<Rightarrow> 's kernel \<Rightarrow> (outcome \<times> 's kernel) res" where
  "changeDir_up e k =
     rbind (fs_find e (current (fs k)) [46, 46] k) (\<lambda>(n, k1).
       rbind (cwd_scan (cwd (fs k1)) 0 0) (\<lambda>(i, lastBackSlash).
         let c = cwd (fs k1); c1 = (if lastBackSlash = 0 then c[0 := 47] else c)
         in ret 0 (set_cwd (zero_from (lastBackSlash + 1) c1) n k1)))"

definition changeDir_append :: "'s machine \<Rightarrow> u32 \<Rightarrow> 's kernel \<Rightarrow> (outcome \<times> 's kernel) res" where
  "changeDir_append e path k =
     rbind (cwd_scan (cwd (fs k)) 0 0) (\<lambda>(i, _).
     rbind (ld8 (path + (of_nat i - 1)) k) (\<lambda>(b, k1).
     let c = (if b \<noteq> 47 then (cwd (fs k1))[i := 47] else cwd (fs k1))
     in rbind (cwd_append path 0 i c k1) (\<lambda>(i2, c2, k2).
        if length c2 \<le> i2 then Inl (OutOfBounds ''cwd[i]'')
        else
          (let c3 = c2[i2 := 0]
           in rbind (fs_find e (current (fs k2)) c3 k2) (\<lambda>(n, k3). ret 0 (set_cwd c3 n k3))))))"

definition changeDir_sys :: "'s machine \<Rightarrow> u32 \<Rightarrow> 's kernel \<Rightarrow> (outcome \<times> 's kernel) res" where
  "changeDir_sys e path k =
     rbind (ld8 path k) (\<lambda>(p0, k1).
       if p0 = 47 then ret 0 (set_cwd (zero_from 1 ((cwd (fs k1))[0 := 47])) (Some (root (fs k1))) k1)
       else if p0 = 46 then
         rbind (ld8 (path + 1) k1) (\<lambda>(p1, k2). if p1 = 46 then changeDir_up e k2 else ret 0 k2)
       else changeDir_append e path k1)"

definition pwd_sys :: "'s kernel \<Rightarrow> (outcome \<times> 's kernel) res" where
  "pwd_sys k = ret 0 (put_out (cstr (cwd (fs k)) @ [10]) k)"

section \<open>fork\<close>

text \<open>\<^verbatim>\<open>sys.cc\<close> has its own copies of \<^verbatim>\<open>map\<close> and \<^verbatim>\<open>unmap\<close>.\<close>

definition sys_map :: "u32 \<Rightarrow> u32 \<Rightarrow> u32 \<Rightarrow> phys \<Rightarrow> phys res" where
  "sys_map pd va pa s =
     (let pde = ld32 (pmem s) (pd + 4 * pdi va)
      in rbind (if \<not> present pde then
                  rbind (alloc_frame s) (\<lambda>(f, s1). Inr (f OR 7, s1\<lparr>pmem := st32 (pd + 4 * pdi va) (f OR 7) (pmem s1)\<rparr>))
                else Inr (pde, s))
           (\<lambda>(pde2, s2). Inr (s2\<lparr>pmem := st32 (frame_of pde2 + 4 * pti va) (pa OR 7) (pmem s2)\<rparr>)))"

definition sys_unmap :: "u32 \<Rightarrow> u32 \<Rightarrow> phys \<Rightarrow> phys res" where
  "sys_unmap pd va s =
     (let pde = ld32 (pmem s) (pd + 4 * pdi va); pt = frame_of pde; pte = ld32 (pmem s) (pt + 4 * pti va)
      in if \<not> present pde then Inr s
         else if \<not> present pte then Inr s
         else rbind (dealloc_frame (frame_of pte) (s\<lparr>pmem := st32 (pt + 4 * pti va) 0 (pmem s)\<rparr>))
                (\<lambda>s2. Inr (s2\<lparr>flushed := flushed s2 @ [va]\<rparr>)))"

lemma sys_map_eq: "sys_map = map_page"
  by (rule ext)+ (simp add: sys_map_def map_page_def pd_entry_def Let_def)

lemma sys_unmap_eq: "sys_unmap = unmap_page"
  by (rule ext)+ (simp add: sys_unmap_def unmap_page_def Let_def)

definition page_va :: "nat \<Rightarrow> nat \<Rightarrow> u32" where
  "page_va i j = push_bit 22 (of_nat i) + of_nat j * 4096"

definition user_page :: "config \<Rightarrow> u32 \<Rightarrow> u32 \<Rightarrow> bool" where
  "user_page cfg pte va \<longleftrightarrow> present pte \<and> va \<noteq> ioAPIC cfg \<and> va \<noteq> localAPIC cfg"

definition fork_page :: "u32 \<Rightarrow> u32 \<Rightarrow> u32 \<Rightarrow> phys \<Rightarrow> phys res" where
  "fork_page pd newpd va s =
     rbind (alloc_frame s) (\<lambda>(pa, s1).
     rbind (sys_map newpd va pa s1) (\<lambda>s2.
     rbind (resolve pd va s2) (\<lambda>(src, s3).
       Inr (s3\<lparr>pmem := memcpy pa src 4096 (pmem s3)\<rparr>))))"

fun fork_table :: "config \<Rightarrow> u32 \<Rightarrow> u32 \<Rightarrow> nat \<Rightarrow> u32 \<Rightarrow> nat \<Rightarrow> nat \<Rightarrow> phys \<Rightarrow> phys res" where
  "fork_table cfg pd newpd i pt j 0 s = Inr s"
| "fork_table cfg pd newpd i pt j (Suc n) s =
     rbind (if user_page cfg (ld32 (pmem s) (pt + 4 * of_nat j)) (page_va i j) then fork_page pd newpd (page_va i j) s
            else Inr s)
       (fork_table cfg pd newpd i pt (j + 1) n)"

fun fork_dirs :: "config \<Rightarrow> u32 \<Rightarrow> u32 \<Rightarrow> nat \<Rightarrow> nat \<Rightarrow> phys \<Rightarrow> phys res" where
  "fork_dirs cfg pd newpd i 0 s = Inr s"
| "fork_dirs cfg pd newpd i (Suc n) s =
     (let pde = ld32 (pmem s) (pd + 4 * of_nat i)
      in rbind (if present pde then fork_table cfg pd newpd i (frame_of pde) 0 1024 s else Inr s)
           (fork_dirs cfg pd newpd (i + 1) n))"

definition fork_sys :: "'s machine \<Rightarrow> u32 \<Rightarrow> u32 \<Rightarrow> 's kernel \<Rightarrow> (outcome \<times> 's kernel) res" where
  "fork_sys e user_eip user_esp k =
     rbind (makeThread e (user_eip, user_esp) k) (\<lambda>(t, k1).
       let p = cur_process k1; i = scan_child (cp p) 0; q = process (tcb_at k1 t)
       in if i = 10 then ret (- 1) k1
          else
            (let k2 = set_process (p\<lparr>cp := (cp p)[i := q]\<rparr>) k1;
                 k3 = k2\<lparr>pcbs := (pcbs k2)(q \<mapsto> (pcb_at k2 q)\<lparr>
                   fd := map (\<lambda>i. fd p ! i) [0..<10], sp := map (\<lambda>i. sp p ! i) [0..<10]\<rparr>)\<rparr>
             in rbind (upd_mem (fork_dirs (kConfig e) (tpd (cur_thread k3)) (tpd (tcb_at k3 t)) 512 512) k3)
                  (\<lambda>k4. ret (of_nat i + 20) (schedule_k t k4))))"

section \<open>execl\<close>

fun unmap_table :: "config \<Rightarrow> u32 \<Rightarrow> nat \<Rightarrow> u32 \<Rightarrow> nat \<Rightarrow> nat \<Rightarrow> phys \<Rightarrow> phys res" where
  "unmap_table cfg pd i pt j 0 s = Inr s"
| "unmap_table cfg pd i pt j (Suc n) s =
     rbind (if user_page cfg (ld32 (pmem s) (pt + 4 * of_nat j)) (page_va i j) then sys_unmap pd (page_va i j) s
            else Inr s)
       (unmap_table cfg pd i pt (j + 1) n)"

fun unmap_dirs :: "config \<Rightarrow> u32 \<Rightarrow> nat \<Rightarrow> nat \<Rightarrow> phys \<Rightarrow> phys res" where
  "unmap_dirs cfg pd i 0 s = Inr s"
| "unmap_dirs cfg pd i (Suc n) s =
     (let pde = ld32 (pmem s) (pd + 4 * of_nat i)
      in rbind (if present pde then unmap_table cfg pd i (frame_of pde) 0 1024 s else Inr s)
           (unmap_dirs cfg pd (i + 1) n))"

text \<open>\<^verbatim>\<open>memcpy\<close> between virtual addresses.\<close>

fun copy_bytes :: "nat \<Rightarrow> u32 \<Rightarrow> u32 \<Rightarrow> 's kernel \<Rightarrow> 's kernel res" where
  "copy_bytes 0 dest src k = Inr k"
| "copy_bytes (Suc n) dest src k =
     rbind (ld8 src k) (\<lambda>(b, k1). rbind (st8 dest b k1) (copy_bytes n (dest + 1) (src + 1)))"

lemma unat_mod4_next: "unat (n + 1 :: u32) mod 4 = (unat n + 1) mod 4"
proof -
  have "unat (n + 1) = (unat n + 1) mod 2 ^ 32" by (simp add: unat_word_ariths)
  then show ?thesis by (simp add: mod_mod_cancel)
qed

function round4 :: "u32 \<Rightarrow> u32" where
  "round4 n = (if n mod 4 \<noteq> 0 then round4 (n + 1) else n)"
  by pat_completeness auto
termination
proof (relation "measure (\<lambda>n. (4 - unat n mod 4) mod 4)", simp)
  fix n :: u32 assume "n mod 4 \<noteq> 0"
  then have "unat (n mod 4) \<noteq> 0" by (simp only: unat_eq_zero simp_thms)
  then have "unat n mod 4 \<noteq> 0" by (simp add: unat_mod)
  moreover have "unat n mod 4 < 4" by simp
  ultimately have "unat n mod 4 = 1 \<or> unat n mod 4 = 2 \<or> unat n mod 4 = 3" by linarith
  moreover have "unat (n + 1) mod 4 = (unat n mod 4 + 1) mod 4" using unat_mod4_next [of n] by (simp add: mod_simps)
  ultimately show "(n + 1, n) \<in> measure (\<lambda>n. (4 - unat n mod 4) mod 4)" by auto
qed

declare round4.simps [simp del]

fun copy_args :: "u32 list \<Rightarrow> u32 \<Rightarrow> 's kernel \<Rightarrow> (u32 \<times> 's kernel) res" where
  "copy_args [] userEsp k = Inr (userEsp, k)"
| "copy_args (a # as) userEsp k =
     rbind (load_string ld8 a k) (\<lambda>(s, k1).
       let cur_len = round4 (of_nat (length s) + 1)
       in rbind (copy_bytes (nat (sint cur_len)) userEsp a k1) (\<lambda>k2. copy_args as (userEsp - 4 * (cur_len div 4)) k2))"

fun push_words :: "u32 list \<Rightarrow> u32 \<Rightarrow> 's kernel \<Rightarrow> (u32 \<times> 's kernel) res" where
  "push_words [] userEsp k = Inr (userEsp, k)"
| "push_words (w # ws) userEsp k = rbind (store_word st8 userEsp w k) (\<lambda>k1. push_words ws (userEsp - 4) k1)"

definition user_stack :: "u32 list \<Rightarrow> 's kernel \<Rightarrow> (u32 \<times> 's kernel) res" where
  "user_stack argv k =
     rbind (copy_args argv 0xefffe000 k) (\<lambda>(e1, k1).
     rbind (push_words (0 # rev argv) e1 k1) (\<lambda>(e2, k2).
     rbind (push_words [e2 + 4] e2 k2) (\<lambda>(e3, k3).
     rbind (store_word st8 e3 (of_nat (length argv)) k3) (\<lambda>k4. Inr (e3, k4)))))"

definition execl_sys :: "'s machine \<Rightarrow> cstring \<Rightarrow> u32 list \<Rightarrow> 's kernel \<Rightarrow> (outcome \<times> 's kernel) res" where
  "execl_sys e path argv k =
     (let k1 = set_process ((cur_process k)\<lparr>sp := replicate 10 0, cp := replicate 10 0\<rparr>) k
      in rbind (upd_mem (unmap_dirs (kConfig e) (tpd (cur_thread k1)) 512 512) k1) (\<lambda>k2.
         rbind (user_stack argv k2) (\<lambda>(userEsp, k3).
         rbind (fs_find e (Some (root (fs k3))) path k3) (\<lambda>(n, k4).
           case n of
             None \<Rightarrow> Inl (Panic ''*** node is nullptr'')
           | Some nd \<Rightarrow> rbind (elf_load e nd k4) (\<lambda>(entry, k5). Inr (ToUser entry userEsp, k5))))))"

section \<open>The dispatcher\<close>

partial_function (option) count_args :: "u32 \<Rightarrow> nat \<Rightarrow> 's kernel \<Rightarrow> (nat \<times> 's kernel) res option" where
  "count_args esp n k =
     (case esp_arg esp (n + 2) k of
        Inl e \<Rightarrow> Some (Inl e)
      | Inr r \<Rightarrow> if fst r \<noteq> 0 then count_args esp (n + 1) (snd r) else Some (Inr (n, snd r)))"

fun copy_argv :: "'s machine \<Rightarrow> u32 \<Rightarrow> nat \<Rightarrow> nat \<Rightarrow> 's kernel \<Rightarrow> (u32 list \<times> 's kernel) res" where
  "copy_argv e esp i 0 k = Inr ([], k)"
| "copy_argv e esp i (Suc n) k =
     rbind (esp_arg esp (i + 2) k) (\<lambda>(c, k1).
     rbind (load_string ld8 c k1) (\<lambda>(s, k2).
     case alloc_ref k2 of (r, k3) \<Rightarrow>
     rbind (copy_bytes (nat (sint (round4 (of_nat (length s) + 1)))) (addr_of e r) c k3) (\<lambda>k4.
     rbind (copy_argv e esp (i + 1) n k4) (\<lambda>(as, k5). Inr (addr_of e r # as, k5)))))"

definition execl_args :: "'s machine \<Rightarrow> u32 \<Rightarrow> 's kernel \<Rightarrow> (outcome \<times> 's kernel) res" where
  "execl_args e esp k =
     rbind (esp_arg esp 1 k) (\<lambda>(a, k1).
     rbind (load_string ld8 a k1) (\<lambda>(path, k2).
     rbind (returned (count_args esp 0 k2)) (\<lambda>(n, k3).
     rbind (copy_argv e esp 0 n k3) (\<lambda>(argv, k4). execl_sys e path argv k4))))"

definition arg1 :: "u32 \<Rightarrow> (u32 \<Rightarrow> 's kernel \<Rightarrow> (outcome \<times> 's kernel) res) \<Rightarrow> 's kernel \<Rightarrow> (outcome \<times> 's kernel) res" where
  "arg1 esp f k = rbind (esp_arg esp 1 k) (\<lambda>(a, k1). f a k1)"

definition arg2 :: "u32 \<Rightarrow> (u32 \<Rightarrow> u32 \<Rightarrow> 's kernel \<Rightarrow> (outcome \<times> 's kernel) res) \<Rightarrow> 's kernel \<Rightarrow> (outcome \<times> 's kernel) res" where
  "arg2 esp f k = rbind (esp_arg esp 1 k) (\<lambda>(a, k1). rbind (esp_arg esp 2 k1) (\<lambda>(b, k2). f a b k2))"

definition arg3 :: "u32 \<Rightarrow> (u32 \<Rightarrow> u32 \<Rightarrow> u32 \<Rightarrow> 's kernel \<Rightarrow> (outcome \<times> 's kernel) res) \<Rightarrow> 's kernel \<Rightarrow>
    (outcome \<times> 's kernel) res" where
  "arg3 esp f k = rbind (esp_arg esp 1 k) (\<lambda>(a, k1). rbind (esp_arg esp 2 k1) (\<lambda>(b, k2).
     rbind (esp_arg esp 3 k2) (\<lambda>(c, k3). f a b c k3)))"

text \<open>The keyboard line is given back: its characters are cleared.\<close>

definition clear_line :: "'s kernel \<Rightarrow> (outcome \<times> 's kernel) res" where
  "clear_line k =
     (if length (kbuf (kb k)) < unat (bufSize (kb k)) then Inl (OutOfBounds ''buf[i]'')
      else ret 0 (k\<lparr>kb := (kb k)\<lparr>kbuf := fold (\<lambda>i b. b[i := 0]) [0..<unat (bufSize (kb k))] (kbuf (kb k)),
        bufSize := 0, kdone := False\<rparr>\<rparr>))"

definition sysHandler :: "'s machine \<Rightarrow> u32 \<Rightarrow> u32 \<Rightarrow> u32 \<Rightarrow> 's kernel \<Rightarrow> (outcome \<times> 's kernel) res" where
  "sysHandler e eax user_eip esp k =
     (if eax = 0 then arg1 esp exit_sys k
      else if eax = 1 then arg3 esp (\<lambda>n. write_sys e (sint n)) k
      else if eax = 2 then fork_sys e user_eip esp k
      else if eax = 3 then arg1 esp sem_sys k
      else if eax = 4 then arg1 esp (\<lambda>i. up_sys (sint i)) k
      else if eax = 5 then arg1 esp (\<lambda>i. down_sys (sint i)) k
      else if eax = 6 then arg1 esp close_sys k
      else if eax = 7 then Inr (PowerOff, k)
      else if eax = 8 then arg2 esp (wait_sys e) k
      else if eax = 9 then execl_args e esp k
      else if eax = 10 then arg2 esp (\<lambda>fn flags. open_sys e fn) k
      else if eax = 11 then arg1 esp (\<lambda>n. len_sys e (sint n)) k
      else if eax = 12 then arg3 esp (\<lambda>n. read_sys e (sint n)) k
      else if eax = 13 then arg2 esp seek_sys k
      else if eax = 14 then arg1 esp (ls_sys e) k
      else if eax = 15 then arg1 esp (\<lambda>n. getDirEntriesLength_sys e (sint n)) k
      else if eax = 16 then arg1 esp (changeDir_sys e) k
      else if eax = 17 then pwd_sys k
      else if eax = 18 then ret (kbuf_addr e) k
      else if eax = 19 then ret (if kdone (kb k) then 1 else 0) k
      else if eax = 20 then clear_line k
      else Inl (Panic ''*** NOT IMPLEMENTED''))"

end
