(* ===== verification/Sys_Inv.thy ===== *)
theory Sys_Inv
  imports Sys
begin

text \<open>
  The kernel's objects are in order: every reference in a process's tables and in a thread points
  to an object of its kind, and every system call keeps it that way, as does every history of
  calls, wake-ups and switches between threads.
\<close>

section \<open>References and tables\<close>

text \<open>
  The kernel's objects in order: every table has ten entries, every reference in a table or a
  thread is null or points to an object of its kind, and references from \<open>next_ref\<close> on are free.
  A descriptor is valid exactly when it has no node (one of the three standard ones), and only
  the first three entries hold such descriptors.
\<close>

definition refs_in :: "ref list \<Rightarrow> (ref \<rightharpoonup> 'a) \<Rightarrow> bool" where
  "refs_in xs m \<longleftrightarrow> length xs = 10 \<and> (\<forall>r \<in> set xs. r = 0 \<or> r \<in> dom m)"

definition pcb_ok :: "'s kernel \<Rightarrow> pcb \<Rightarrow> bool" where
  "pcb_ok k p \<longleftrightarrow> refs_in (fd p) (descs k) \<and> refs_in (cp p) (pcbs k) \<and> refs_in (sp p) (sems k) \<and>
     future p \<in> dom (futures k) \<and>
     (\<forall>i. 3 \<le> i \<longrightarrow> i < 10 \<longrightarrow> fd p ! i \<noteq> 0 \<longrightarrow> \<not> valid (desc_at k (fd p ! i)))"

definition kernel_ok :: "'s kernel \<Rightarrow> bool" where
  "kernel_ok k \<longleftrightarrow>
     (\<forall>p \<in> ran (pcbs k). pcb_ok k p) \<and>
     (\<forall>t \<in> ran (tcbs k). process t \<in> dom (pcbs k)) \<and> cur k \<in> dom (tcbs k) \<and>
     (\<forall>d \<in> ran (descs k). valid d \<longleftrightarrow> fd_node d = None) \<and>
     dom (pcbs k) \<union> dom (descs k) \<union> dom (sems k) \<union> dom (futures k) \<subseteq> {0<..<next_ref k} \<and> 0 < next_ref k"

definition same_objects :: "'s kernel \<Rightarrow> 's kernel \<Rightarrow> bool" where
  "same_objects k k' \<longleftrightarrow> pcbs k' = pcbs k \<and> descs k' = descs k \<and> sems k' = sems k \<and> futures k' = futures k \<and>
     tcbs k' = tcbs k \<and> cur k' = cur k \<and> next_ref k' = next_ref k"

lemma same_objects_refl [simp]: "same_objects k k"
  by (simp add: same_objects_def)

lemma same_objects_trans: "same_objects k k1 \<Longrightarrow> same_objects k1 k2 \<Longrightarrow> same_objects k k2"
  by (simp add: same_objects_def)

lemma same_objects_ok: "same_objects k k' \<Longrightarrow> kernel_ok k' = kernel_ok k"
  by (simp add: same_objects_def kernel_ok_def pcb_ok_def desc_at_def)

lemma same_objects_process:
  "same_objects k k' \<Longrightarrow> cur_process k' = cur_process k \<and> cur_thread k' = cur_thread k"
  by (simp add: same_objects_def cur_process_def cur_thread_def pcb_at_def tcb_at_def)

text \<open>The parts of a system call that only touch memory, the disk or the console.\<close>

lemma in_mem_objects: "in_mem f k = Inr (x, k') \<Longrightarrow> same_objects k k'"
  by (auto simp: in_mem_def same_objects_def)

lemma upd_mem_objects: "upd_mem f k = Inr k' \<Longrightarrow> same_objects k k'"
  by (auto simp: upd_mem_def same_objects_def)

lemma ld8_objects: "ld8 a k = Inr (b, k') \<Longrightarrow> same_objects k k'"
  unfolding ld8_def by (rule in_mem_objects)

lemma st8_objects: "st8 a b k = Inr k' \<Longrightarrow> same_objects k k'"
  unfolding st8_def by (rule upd_mem_objects)

lemma load_range_objects: "load_range ld8 a n k = Inr (bs, k') \<Longrightarrow> same_objects k k'"
  by (induction n arbitrary: a k bs) (auto dest!: ld8_objects intro: same_objects_trans)

lemma load_word_objects: "load_word ld8 a k = Inr (v, k') \<Longrightarrow> same_objects k k'"
  by (auto simp: load_word_def dest: load_range_objects)

lemma esp_arg_objects: "esp_arg esp i k = Inr (v, k') \<Longrightarrow> same_objects k k'"
  unfolding esp_arg_def by (rule load_word_objects)

lemma store_range_objects: "store_range st8 a bs k = Inr k' \<Longrightarrow> same_objects k k'"
  by (induction bs arbitrary: a k) (auto dest!: st8_objects intro: same_objects_trans)

lemma store_word_objects: "store_word st8 a v k = Inr k' \<Longrightarrow> same_objects k k'"
  unfolding store_word_def by (rule store_range_objects)

lemma load_text_objects: "load_text ld a acc k = Some r \<Longrightarrow> ld = ld8 \<Longrightarrow> r = Inr (t, k') \<Longrightarrow> same_objects k k'"
proof (induction ld a acc k r arbitrary: t k' rule: load_text.raw_induct [rotated, consumes 1])
  case (1 g ld a acc k r)
  from 1(2-4) show ?case
    by (auto split: sum.splits if_splits intro: same_objects_trans [OF ld8_objects 1(1)] ld8_objects)
qed

lemma load_string_objects: "load_string ld8 a k = Inr (t, k') \<Longrightarrow> same_objects k k'"
  by (auto simp: load_string_def returned_def split: option.splits dest: load_text_objects [OF _ refl refl])

lemma copy_bytes_objects: "copy_bytes n d s k = Inr k' \<Longrightarrow> same_objects k k'"
  by (induction n arbitrary: d s k) (auto dest!: ld8_objects st8_objects intro: same_objects_trans)

lemma fs_find_objects: "fs_find e from path k = Inr (n, k') \<Longrightarrow> same_objects k k'"
  by (auto simp: fs_find_def same_objects_def)

lemma read_to_objects: "read_to e nd off n va k = Inr (c, k') \<Longrightarrow> same_objects k k'"
  by (auto simp: read_to_def upd_mem_def same_objects_def)

lemma load_segments_objects: "load_segments e nd buf i n k = Inr k' \<Longrightarrow> same_objects k k'"
  by (induction n arbitrary: i k) (auto simp: Let_def split: if_splits dest!: read_to_objects intro: same_objects_trans)

lemma elf_load_objects: "elf_load e nd k = Inr (v, k') \<Longrightarrow> same_objects k k'"
  by (auto simp: elf_load_def Let_def split: if_splits dest!: load_segments_objects)
    (auto simp: same_objects_def)

lemma copy_args_objects: "copy_args as u k = Inr (v, k') \<Longrightarrow> same_objects k k'"
  by (induction as arbitrary: u k)
    (auto simp: Let_def dest!: load_string_objects copy_bytes_objects intro: same_objects_trans)

lemma push_words_objects: "push_words ws u k = Inr (v, k') \<Longrightarrow> same_objects k k'"
  by (induction ws arbitrary: u k) (auto dest!: store_word_objects intro: same_objects_trans)

lemma user_stack_objects: "user_stack argv k = Inr (v, k') \<Longrightarrow> same_objects k k'"
proof -
  assume "user_stack argv k = Inr (v, k')"
  then obtain e1 k1 e2 k2 e3 k3 where s: "copy_args argv 0xefffe000 k = Inr (e1, k1)"
    "push_words (0 # rev argv) e1 k1 = Inr (e2, k2)" "push_words [e2 + 4] e2 k2 = Inr (e3, k3)"
    "store_word st8 e3 (of_nat (length argv)) k3 = Inr k'"
    by (auto simp: user_stack_def simp del: push_words.simps)
  show ?thesis
    by (rule same_objects_trans [OF copy_args_objects [OF s(1)] same_objects_trans [OF push_words_objects [OF s(2)]
      same_objects_trans [OF push_words_objects [OF s(3)] store_word_objects [OF s(4)]]]])
qed

lemma put_out_objects: "same_objects k (put_out bs k)"
  by (simp add: same_objects_def put_out_def)

lemma write_loop_objects: "write_loop cfg buf i n k = Inr (v, k') \<Longrightarrow> same_objects k k'"
proof (induction n arbitrary: i k)
  case (Suc n)
  show ?case
  proof (cases "bad_ptr cfg (buf + i)")
    case False
    then obtain c k1 where s: "ld8 (buf + i) k = Inr (c, k1)" "write_loop cfg buf (i + 1) n (put_out [c] k1) = Inr (v, k')"
      using Suc.prems by auto
    show ?thesis
      by (rule same_objects_trans [OF ld8_objects [OF s(1)] same_objects_trans [OF put_out_objects Suc.IH [OF s(2)]]])
  qed (use Suc.prems in \<open>simp add: ret_def\<close>)
qed (simp add: ret_def)

lemma cwd_append_objects: "cwd_append path j i c k = Inr (a, b, k') \<Longrightarrow> same_objects k k'"
proof (induction path j i c k rule: cwd_append.induct)
  case (1 path j i c k)
  show ?case using 1(2) by (subst (asm) cwd_append.simps)
    (auto split: if_splits intro: same_objects_trans [OF ld8_objects 1(1)] ld8_objects)
qed

lemma count_args_objects: "count_args esp n k = Some r \<Longrightarrow> r = Inr (m, k') \<Longrightarrow> same_objects k k'"
proof (induction esp n k r arbitrary: m k' rule: count_args.raw_induct [rotated, consumes 1])
  case (1 g esp n k r)
  from 1(2-3) show ?case
    by (auto split: sum.splits if_splits intro: same_objects_trans [OF esp_arg_objects 1(1)] esp_arg_objects)
qed

text \<open>Objects that stay, with more of them.\<close>

definition grows :: "'s kernel \<Rightarrow> 's kernel \<Rightarrow> bool" where
  "grows k k' \<longleftrightarrow> dom (pcbs k) \<subseteq> dom (pcbs k') \<and> dom (descs k) \<subseteq> dom (descs k') \<and> dom (sems k) \<subseteq> dom (sems k') \<and>
     dom (futures k) \<subseteq> dom (futures k') \<and> (\<forall>r \<in> dom (descs k). valid (desc_at k' r) = valid (desc_at k r))"

lemma refs_in_mono: "refs_in xs m \<Longrightarrow> dom m \<subseteq> dom m' \<Longrightarrow> refs_in xs m'"
  unfolding refs_in_def by blast

lemma refs_in_nth: "refs_in xs m \<Longrightarrow> i < 10 \<Longrightarrow> xs ! i \<noteq> 0 \<Longrightarrow> xs ! i \<in> dom m"
  unfolding refs_in_def by (metis nth_mem)

lemma refs_in_update: "refs_in xs m \<Longrightarrow> r = 0 \<or> r \<in> dom m \<Longrightarrow> refs_in (xs[i := r]) m"
  unfolding refs_in_def using set_update_subset_insert [of xs i r] by auto

lemma refs_in_zero: "refs_in (replicate 10 0) m"
  by (simp add: refs_in_def)

lemma pcb_ok_grows: "pcb_ok k p \<Longrightarrow> grows k k' \<Longrightarrow> pcb_ok k' p"
  unfolding pcb_ok_def grows_def using refs_in_mono refs_in_nth [of "fd p" "descs k"] by (metis subsetD)

lemma kernel_okD:
  assumes "kernel_ok k"
  shows "pcbs k r = Some p \<Longrightarrow> pcb_ok k p" "cur k \<in> dom (tcbs k)" "process (cur_thread k) \<in> dom (pcbs k)"
    "pcb_ok k (cur_process k)" "r \<in> dom (pcbs k) \<Longrightarrow> pcb_ok k (pcb_at k r)" "0 < next_ref k"
    "next_ref k \<notin> dom (pcbs k) \<union> dom (descs k) \<union> dom (sems k) \<union> dom (futures k)"
    "r \<in> dom (descs k) \<Longrightarrow> valid (desc_at k r) \<longleftrightarrow> fd_node (desc_at k r) = None"
    "r \<in> dom (pcbs k) \<union> dom (descs k) \<union> dom (sems k) \<union> dom (futures k) \<Longrightarrow> 0 < r \<and> r < next_ref k"
proof -
  show p: "pcb_ok k p" if "pcbs k r = Some p" for p r using assms that by (auto simp: kernel_ok_def ran_def)
  show c: "cur k \<in> dom (tcbs k)" using assms by (simp add: kernel_ok_def)
  then show d: "process (cur_thread k) \<in> dom (pcbs k)"
    using assms by (auto simp: kernel_ok_def ran_def cur_thread_def tcb_at_def)
  show at: "pcb_ok k (pcb_at k r)" if "r \<in> dom (pcbs k)" for r using p that by (auto simp: pcb_at_def)
  show "pcb_ok k (cur_process k)" using at [OF d] by (simp add: cur_process_def)
  show "valid (desc_at k r) \<longleftrightarrow> fd_node (desc_at k r) = None" if "r \<in> dom (descs k)"
    using assms that by (auto simp: kernel_ok_def ran_def desc_at_def)
  show "0 < r \<and> r < next_ref k" if "r \<in> dom (pcbs k) \<union> dom (descs k) \<union> dom (sems k) \<union> dom (futures k)"
    using assms that unfolding kernel_ok_def by (meson greaterThanLessThan_iff subsetD)
  show "0 < next_ref k" "next_ref k \<notin> dom (pcbs k) \<union> dom (descs k) \<union> dom (sems k) \<union> dom (futures k)"
    using assms unfolding kernel_ok_def by auto
qed

lemma pcb_okD:
  assumes "pcb_ok k p"
  shows "refs_in (fd p) (descs k)" "refs_in (cp p) (pcbs k)" "refs_in (sp p) (sems k)" "future p \<in> dom (futures k)"
    "3 \<le> i \<Longrightarrow> i < 10 \<Longrightarrow> fd p ! i \<noteq> 0 \<Longrightarrow> \<not> valid (desc_at k (fd p ! i))"
    "length (fd p) = 10" "length (cp p) = 10" "length (sp p) = 10"
  using assms by (auto simp: pcb_ok_def refs_in_def)

text \<open>The kernel stays in order when objects are added or changed within their kind.\<close>

lemma kernel_ok_grows:
  assumes K: "kernel_ok k" and g: "grows k k'"
    and p: "\<And>r p. pcbs k' r = Some p \<Longrightarrow> pcbs k r \<noteq> Some p \<Longrightarrow> pcb_ok k' p"
    and t: "\<And>t. t \<in> ran (tcbs k') \<Longrightarrow> t \<in> ran (tcbs k) \<or> process t \<in> dom (pcbs k')"
    and c: "cur k' = cur k" "dom (tcbs k) \<subseteq> dom (tcbs k')"
    and d: "\<And>r d. descs k' r = Some d \<Longrightarrow> descs k r \<noteq> Some d \<Longrightarrow> valid d \<longleftrightarrow> fd_node d = None"
    and n: "dom (pcbs k') \<union> dom (descs k') \<union> dom (sems k') \<union> dom (futures k') \<subseteq> {0<..<next_ref k'}"
  shows "kernel_ok k'"
  unfolding kernel_ok_def
proof (intro conjI ballI)
  fix q assume "q \<in> ran (pcbs k')"
  then obtain r where "pcbs k' r = Some q" by (auto simp: ran_def)
  then show "pcb_ok k' q" using p [of r q] kernel_okD(1) [OF K, of r q] pcb_ok_grows [OF _ g] by blast
next
  fix x assume x: "x \<in> ran (tcbs k')"
  have "\<forall>y\<in>ran (tcbs k). process y \<in> dom (pcbs k)" using K unfolding kernel_ok_def by (elim conjE)
  moreover have "dom (pcbs k) \<subseteq> dom (pcbs k')" using g unfolding grows_def by (elim conjE)
  ultimately show "process x \<in> dom (pcbs k')" using t [OF x] by blast
next
  fix x assume "x \<in> ran (descs k')"
  then obtain r where r: "descs k' r = Some x" by (auto simp: ran_def)
  show "valid x \<longleftrightarrow> fd_node x = None"
  proof (cases "descs k r = Some x")
    case True
    then show ?thesis using K by (auto simp: kernel_ok_def ran_def)
  qed (use d [OF r] in blast)
next
  show "cur k' \<in> dom (tcbs k')" using K c unfolding kernel_ok_def by auto
  have "process (cur_thread k) \<in> dom (pcbs k')" using kernel_okD(3) [OF K] g unfolding grows_def by blast
  then show "0 < next_ref k'" using n by auto
  show "dom (pcbs k') \<union> dom (descs k') \<union> dom (sems k') \<union> dom (futures k') \<subseteq> {0<..<next_ref k'}" by (rule n)
qed

lemma range_next: "kernel_ok k \<Longrightarrow> dom (pcbs k) \<union> dom (descs k) \<union> dom (sems k) \<union> dom (futures k) \<subseteq> {0<..<next_ref k}"
  by (simp add: kernel_ok_def)

lemma pcbs_update_ok:
  assumes K: "kernel_ok k" and p: "pcb_ok k p" and r: "r \<in> dom (pcbs k)"
  shows "kernel_ok (k\<lparr>pcbs := (pcbs k)(r \<mapsto> p)\<rparr>)" (is "kernel_ok ?k")
proof -
  have g: "grows k ?k" by (auto simp: grows_def desc_at_def)
  have dom: "dom (pcbs ?k) = dom (pcbs k)" using r by auto
  show ?thesis
  proof (rule kernel_ok_grows [OF K g])
    show "pcb_ok ?k q" if "pcbs ?k x = Some q" "pcbs k x \<noteq> Some q" for x q
      using that pcb_ok_grows [OF p g] by (auto split: if_splits)
    show "dom (pcbs ?k) \<union> dom (descs ?k) \<union> dom (sems ?k) \<union> dom (futures ?k) \<subseteq> {0<..<next_ref ?k}"
      using range_next [OF K] unfolding dom by simp
  qed auto
qed

lemma set_process_ok: "kernel_ok k \<Longrightarrow> pcb_ok k p \<Longrightarrow> kernel_ok (set_process p k)"
  unfolding set_process_def by (rule pcbs_update_ok) (simp_all add: kernel_okD(3))

lemma sems_update_ok:
  assumes K: "kernel_ok k" and r: "r \<in> dom (sems k)"
  shows "kernel_ok (k\<lparr>ths := th, sems := (sems k)(r \<mapsto> s)\<rparr>)"
proof (rule kernel_ok_grows [OF K])
  have "insert r (dom (sems k)) = dom (sems k)" using r by auto
  then show "dom (pcbs (k\<lparr>ths := th, sems := (sems k)(r \<mapsto> s)\<rparr>)) \<union> dom (descs (k\<lparr>ths := th, sems := (sems k)(r \<mapsto> s)\<rparr>)) \<union>
      dom (sems (k\<lparr>ths := th, sems := (sems k)(r \<mapsto> s)\<rparr>)) \<union> dom (futures (k\<lparr>ths := th, sems := (sems k)(r \<mapsto> s)\<rparr>))
      \<subseteq> {0<..<next_ref (k\<lparr>ths := th, sems := (sems k)(r \<mapsto> s)\<rparr>)}"
    using range_next [OF K] by simp
qed (auto simp: grows_def desc_at_def)

lemma futures_update_ok:
  assumes K: "kernel_ok k" and r: "r \<in> dom (futures k)"
  shows "kernel_ok (k\<lparr>ths := th, futures := (futures k)(r \<mapsto> s)\<rparr>)"
proof (rule kernel_ok_grows [OF K])
  have "insert r (dom (futures k)) = dom (futures k)" using r by auto
  then show "dom (pcbs (k\<lparr>ths := th, futures := (futures k)(r \<mapsto> s)\<rparr>)) \<union> dom (descs (k\<lparr>ths := th, futures := (futures k)(r \<mapsto> s)\<rparr>)) \<union>
      dom (sems (k\<lparr>ths := th, futures := (futures k)(r \<mapsto> s)\<rparr>)) \<union> dom (futures (k\<lparr>ths := th, futures := (futures k)(r \<mapsto> s)\<rparr>))
      \<subseteq> {0<..<next_ref (k\<lparr>ths := th, futures := (futures k)(r \<mapsto> s)\<rparr>)}"
    using range_next [OF K] by simp
qed (auto simp: grows_def desc_at_def)

lemma offset_update_ok:
  assumes K: "kernel_ok k" and r: "r \<in> dom (descs k)"
  shows "kernel_ok (k\<lparr>descs := (descs k)(r \<mapsto> (desc_at k r)\<lparr>offset := v\<rparr>)\<rparr>)"
proof (rule kernel_ok_grows [OF K])
  have "insert r (dom (descs k)) = dom (descs k)" using r by auto
  then show "dom (pcbs (k\<lparr>descs := (descs k)(r \<mapsto> (desc_at k r)\<lparr>offset := v\<rparr>)\<rparr>)) \<union>
      dom (descs (k\<lparr>descs := (descs k)(r \<mapsto> (desc_at k r)\<lparr>offset := v\<rparr>)\<rparr>)) \<union>
      dom (sems (k\<lparr>descs := (descs k)(r \<mapsto> (desc_at k r)\<lparr>offset := v\<rparr>)\<rparr>)) \<union>
      dom (futures (k\<lparr>descs := (descs k)(r \<mapsto> (desc_at k r)\<lparr>offset := v\<rparr>)\<rparr>))
      \<subseteq> {0<..<next_ref (k\<lparr>descs := (descs k)(r \<mapsto> (desc_at k r)\<lparr>offset := v\<rparr>)\<rparr>)}"
    using range_next [OF K] by simp
  show "\<And>ra d. descs (k\<lparr>descs := (descs k)(r \<mapsto> (desc_at k r)\<lparr>offset := v\<rparr>)\<rparr>) ra = Some d \<Longrightarrow>
      descs k ra \<noteq> Some d \<Longrightarrow> valid d = (fd_node d = None)"
    using kernel_okD(8) [OF K r] by (auto split: if_splits)
qed (auto simp: grows_def desc_at_def)

section \<open>Every system call keeps the objects in order\<close>

lemma ret_eq [simp]: "ret v k = Inr (x, k') \<longleftrightarrow> x = Ret v \<and> k' = k"
  by (auto simp: ret_def)

lemma scan_slot_bound: "i \<le> 9 \<Longrightarrow> scan_slot xs i \<le> 9"
proof (induction xs i rule: scan_slot.induct)
  case (1 xs i)
  then show ?case by (subst scan_slot.simps) auto
qed

lemma scan_child_bound: "i \<le> 10 \<Longrightarrow> scan_child xs i \<le> 10"
proof (induction xs i rule: scan_child.induct)
  case (1 xs i)
  then show ?case by (subst scan_child.simps) auto
qed

lemma pcb_ok_fd:
  assumes p: "pcb_ok k p" and r: "r = 0 \<or> r \<in> dom (descs k) \<and> \<not> valid (desc_at k r)"
  shows "pcb_ok k (p\<lparr>fd := (fd p)[i := r]\<rparr>)"
proof -
  have n: "(fd p)[i := r] ! j = (if i = j then r else fd p ! j)" if "j < 10" for j
    using that pcb_okD(6) [OF p] by (auto simp: nth_list_update)
  have "refs_in ((fd p)[i := r]) (descs k)" by (rule refs_in_update [OF pcb_okD(1) [OF p]]) (use r in blast)
  then show ?thesis using p r n unfolding pcb_ok_def by auto
qed

lemma pcb_ok_sp: "pcb_ok k p \<Longrightarrow> r = 0 \<or> r \<in> dom (sems k) \<Longrightarrow> pcb_ok k (p\<lparr>sp := (sp p)[i := r]\<rparr>)"
  unfolding pcb_ok_def by (auto simp: refs_in_update)

lemma pcb_ok_cp: "pcb_ok k p \<Longrightarrow> r = 0 \<or> r \<in> dom (pcbs k) \<Longrightarrow> pcb_ok k (p\<lparr>cp := (cp p)[i := r]\<rparr>)"
  unfolding pcb_ok_def by (auto simp: refs_in_update)

lemma close_ok: "kernel_ok k \<Longrightarrow> close_sys n k = Inr (v, k') \<Longrightarrow> kernel_ok k'"
  using kernel_okD(4) [of k]
  by (auto simp: close_sys_def Let_def split: if_splits intro!: set_process_ok pcb_ok_fd pcb_ok_sp pcb_ok_cp)

text \<open>A new object.\<close>

lemma ref_bounds:
  assumes "kernel_ok k"
  shows "pcbs k x = Some p \<Longrightarrow> 0 < x" "descs k x = Some d \<Longrightarrow> 0 < x" "sems k x = Some s \<Longrightarrow> 0 < x"
    "futures k x = Some f \<Longrightarrow> 0 < x" "pcbs k x = Some p \<Longrightarrow> x < Suc (next_ref k)" "descs k x = Some d \<Longrightarrow> x < Suc (next_ref k)"
    "sems k x = Some s \<Longrightarrow> x < Suc (next_ref k)" "futures k x = Some f \<Longrightarrow> x < Suc (next_ref k)"
  using kernel_okD(9) [OF assms, of x] by (auto intro: less_SucI)

lemma new_desc_ok:
  assumes K: "kernel_ok k" and v: "valid d \<longleftrightarrow> fd_node d = None"
  defines "k' \<equiv> k\<lparr>next_ref := next_ref k + 1, descs := (descs k)(next_ref k \<mapsto> d)\<rparr>"
  shows "kernel_ok k'" "grows k k'"
proof -
  show g: "grows k k'" using kernel_okD(7) [OF K] by (auto simp: grows_def desc_at_def k'_def)
  show "kernel_ok k'"
    by (rule kernel_ok_grows [OF K g])
      (use v kernel_okD(6) [OF K] in \<open>auto simp: k'_def ref_bounds [OF K] split: if_splits\<close>)
qed

lemma new_sem_ok:
  fixes s :: semaphore
  assumes K: "kernel_ok k"
  defines "k' \<equiv> k\<lparr>next_ref := next_ref k + 1, sems := (sems k)(next_ref k \<mapsto> s)\<rparr>"
  shows "kernel_ok k'" "grows k k'"
proof -
  show g: "grows k k'" by (auto simp: grows_def desc_at_def k'_def)
  show "kernel_ok k'"
    by (rule kernel_ok_grows [OF K g])
      (use kernel_okD(6) [OF K] in \<open>auto simp: k'_def ref_bounds [OF K]\<close>)
qed

lemma sem_ok:
  assumes K: "kernel_ok k" and s: "sem_sys initial k = Inr (v, k')"
  shows "kernel_ok k'"
proof -
  let ?i = "scan_slot (sp (cur_process k)) 0"
  let ?k = "k\<lparr>next_ref := next_ref k + 1, sems := (sems k)(next_ref k \<mapsto> new_semaphore initial)\<rparr>"
  note N = new_sem_ok [OF K, of "new_semaphore initial"]
  have "kernel_ok (set_process ((cur_process k)\<lparr>sp := (sp (cur_process k))[?i := next_ref k]\<rparr>) ?k)"
    by (rule set_process_ok [OF N(1) pcb_ok_sp [OF pcb_ok_grows [OF kernel_okD(4) [OF K] N(2)]]]) simp
  then show ?thesis using s K by (auto simp: sem_sys_def Let_def alloc_ref_def split: if_splits)
qed

lemma slot_dom:
  assumes "kernel_ok k" "i < 10"
  shows "fd (cur_process k) ! i \<noteq> 0 \<Longrightarrow> fd (cur_process k) ! i \<in> dom (descs k)"
    "sp (cur_process k) ! i \<noteq> 0 \<Longrightarrow> sp (cur_process k) ! i \<in> dom (sems k)"
    "cp (cur_process k) ! i \<noteq> 0 \<Longrightarrow> cp (cur_process k) ! i \<in> dom (pcbs k)"
  using refs_in_nth [OF _ assms(2)] pcb_okD [OF kernel_okD(4) [OF assms(1)]] by blast+

lemma sem_slot:
  assumes "kernel_ok k" "\<not> (i < 10 \<or> 19 < i)" "sp (cur_process k) ! nat (i - 10) \<noteq> 0"
  shows "sp (cur_process k) ! nat (i - 10) \<in> dom (sems k)"
proof -
  have "nat (i - 10) < 10" using assms(2) by auto
  from slot_dom(2) [OF assms(1) this assms(3)] show ?thesis .
qed

lemma up_ok:
  assumes K: "kernel_ok k" and w: "up_sys i k = Inr (x, k')"
  shows "kernel_ok k'"
  using w K sems_update_ok [OF K sem_slot [OF K]]
  by (auto simp: up_sys_def Let_def nonnull_def split: if_splits prod.splits)

lemma down_ok:
  assumes K: "kernel_ok k" and w: "down_sys i k = Inr (x, k')"
  shows "kernel_ok k'"
proof (cases "i < 10 \<or> 19 < i")
  case False
  let ?r = "sp (cur_process k) ! nat (i - 10)"
  from w False obtain d th s where r: "?r \<noteq> 0" and "sem_down (cur k) (ths k, sem_at k ?r) = Inr (d, th, s)"
    and "(let k1 = k\<lparr>ths := th, sems := (sems k)(?r \<mapsto> s)\<rparr>
       in case d of Granted \<Rightarrow> ret 0 k1 | Blocked \<Rightarrow> Inr (Sleep AfterDown, k1)) = Inr (x, k')"
    by (auto simp: down_sys_def Let_def nonnull_def split: if_splits)
  then have "k' = k\<lparr>ths := th, sems := (sems k)(?r \<mapsto> s)\<rparr>" by (cases d) (auto simp: Let_def)
  then show ?thesis using sems_update_ok [OF K sem_slot [OF K False r]] by simp
qed (use w K in \<open>simp add: down_sys_def\<close>)

lemma wait_finish_ok:
  assumes K: "kernel_ok k" and w: "wait_finish i status v k = Inr (x, k')"
  shows "kernel_ok k'"
proof -
  obtain k1 where s: "store_word st8 status v k = Inr k1"
    and k': "k' = set_process ((cur_process k1)\<lparr>cp := (cp (cur_process k1))[unat (i - 20) := 0]\<rparr>) k1"
    using w by (auto simp: wait_finish_def Let_def)
  have K1: "kernel_ok k1" using same_objects_ok [OF store_word_objects [OF s]] K by simp
  show ?thesis unfolding k' by (rule set_process_ok [OF K1 pcb_ok_cp [OF kernel_okD(4) [OF K1]]]) simp
qed

lemma put_text_ok: "kernel_ok k \<Longrightarrow> kernel_ok (put_text s k)"
  unfolding put_text_def using same_objects_ok [OF put_out_objects] by blast

lemma wait_ok:
  assumes K: "kernel_ok k" and w: "wait_sys e i status k = Inr (x, k')"
  shows "kernel_ok k'"
proof (cases "10 \<le> unat (i - 20) \<or> cp (cur_process k) ! unat (i - 20) = 0")
  case True
  then show ?thesis using w K by (auto simp: wait_sys_def Let_def put_text_ok split: if_splits)
next
  case False
  let ?c = "cp (cur_process k) ! unat (i - 20)"
  have "pcb_ok k (pcb_at k ?c)" using False slot_dom(3) [OF K, of "unat (i - 20)"] kernel_okD(5) [OF K] by auto
  then have f: "future (pcb_at k ?c) \<in> dom (futures k)" by (simp add: pcb_ok_def)
  show ?thesis using w False futures_update_ok [OF K f] put_text_ok [OF K]
    by (auto simp: wait_sys_def Let_def split: if_splits option.splits
      dest: wait_finish_ok [OF futures_update_ok [OF K f]])
qed

lemma resume_ok:
  assumes K: "kernel_ok k" and f: "\<And>f i s. r = AfterGet f i s \<Longrightarrow> f \<in> dom (futures k)" and w: "resume r k = Inr (x, k')"
  shows "kernel_ok k'"
proof (cases r)
  case (AfterGet f i status)
  obtain v th g where g: "fut_get_resume (ths k, fut_at k f) = (v, th, g)" by (rule prod_cases3)
  show ?thesis
    by (rule wait_finish_ok [OF futures_update_ok [OF K \<open>\<And>f i s. r = AfterGet f i s \<Longrightarrow> f \<in> dom (futures k)\<close> [OF AfterGet]]])
      (use w AfterGet g in \<open>simp add: resume_def\<close>)
qed (use w K in \<open>simp add: resume_def\<close>)

lemma stop_objects: "same_objects k (stop k)"
  by (simp add: stop_def same_objects_def split: prod.splits)

lemma exit_ok:
  assumes K: "kernel_ok k" and w: "exit_sys rc k = Inr (x, k')"
  shows "kernel_ok k'"
proof -
  have f: "future (cur_process k) \<in> dom (futures k)" using kernel_okD(4) [OF K] by (simp add: pcb_ok_def)
  show ?thesis using w futures_update_ok [OF K f] same_objects_ok [OF stop_objects]
    by (auto simp: exit_sys_def Let_def nonnull_def split: if_splits)
qed

lemma open_ok:
  assumes K: "kernel_ok k" and w: "open_sys e fn k = Inr (x, k')"
  shows "kernel_ok k'"
proof (cases "fd (cur_process k) ! scan_slot (fd (cur_process k)) 0 \<noteq> 0")
  case True
  then show ?thesis using w K by (simp add: open_sys_def Let_def)
next
  case False
  let ?i = "scan_slot (fd (cur_process k)) 0"
  obtain path k1 n k2 where s: "load_string ld8 fn k = Inr (path, k1)" "fs_find e (current (fs k1)) path k1 = Inr (n, k2)"
    and r: "(case n of None \<Rightarrow> ret (- 1) k2 | Some nd \<Rightarrow> (case alloc_ref k2 of (r, k3) \<Rightarrow>
         ret (of_nat ?i) (set_process ((cur_process k)\<lparr>fd := (fd (cur_process k))[?i := r]\<rparr>)
           (k3\<lparr>descs := (descs k3)(r \<mapsto> (new_FileDescriptor (Some nd))\<lparr>offset := 0\<rparr>)\<rparr>)))) = Inr (x, k')"
    using w False by (auto simp: open_sys_def Let_def)
  have o: "same_objects k k2" by (rule same_objects_trans [OF load_string_objects [OF s(1)] fs_find_objects [OF s(2)]])
  have K2: "kernel_ok k2" using same_objects_ok [OF o] K by simp
  have c: "cur_process k = cur_process k2" using same_objects_process [OF o] by simp
  show ?thesis
  proof (cases n)
    case (Some nd)
    let ?d = "(new_FileDescriptor (Some nd))\<lparr>offset := 0\<rparr>"
    have v: "valid ?d \<longleftrightarrow> fd_node ?d = None" by (simp add: new_FileDescriptor_def)
    note N = new_desc_ok [OF K2 v]
    show ?thesis using r Some pcb_ok_fd [OF pcb_ok_grows [OF kernel_okD(4) [OF K2] N(2)], of "next_ref k2" ?i]
      set_process_ok [OF N(1)] unfolding c by (simp add: alloc_ref_def desc_at_def new_FileDescriptor_def)
  qed (use r K2 in simp)
qed

lemma read_file_ok:
  assumes K: "kernel_ok k" and r: "r \<in> dom (descs k)" and w: "read_file e r buf n k = Inr (x, k')"
  shows "kernel_ok k'"
proof -
  obtain nd where nd: "fd_node (desc_at k r) = Some nd" using w by (auto simp: read_file_def with_node_def split: option.splits)
  then obtain m cnt k1 where s: "read_to e nd (offset (desc_at k r)) m buf k = Inr (cnt, k1)"
    and k': "k' = k1\<lparr>descs := (descs k1)(r \<mapsto> (desc_at k1 r)\<lparr>offset := offset (desc_at k r) + word_of_int cnt\<rparr>)\<rparr>"
    using w unfolding read_file_def with_node_def nd option.case Let_def by fastforce
  note o = read_to_objects [OF s]
  have K1: "kernel_ok k1" using same_objects_ok [OF o] K by simp
  show ?thesis unfolding k' by (rule offset_update_ok [OF K1]) (use o r in \<open>simp add: same_objects_def\<close>)
qed

lemma read_ok:
  assumes K: "kernel_ok k" and w: "read_sys e n buf m k = Inr (x, k')"
  shows "kernel_ok k'"
proof -
  let ?r = "fd (cur_process k) ! nat n"
  have "kernel_ok k'" if "n \<le> 9" "(if ?r = 0 then ret (- 1) k else read_file e ?r buf m k) = Inr (x, k')"
    using that K read_file_ok [OF K slot_dom(1) [OF K, of "nat n"]] by (auto split: if_splits)
  then show ?thesis using w K by (auto simp: read_sys_def Let_def nonnull_def split: if_splits)
qed

lemma write_ok: "kernel_ok k \<Longrightarrow> write_sys e n buf m k = Inr (x, k') \<Longrightarrow> kernel_ok k'"
  by (auto simp: write_sys_def Let_def same_objects_ok dest!: write_loop_objects split: if_splits)

lemma len_ok: "kernel_ok k \<Longrightarrow> len_sys e n k = Inr (x, k') \<Longrightarrow> kernel_ok k'"
  by (auto simp: len_sys_def Let_def with_node_def split: if_splits option.splits)

lemma seek_ok:
  assumes K: "kernel_ok k" and w: "seek_sys n off k = Inr (x, k')"
  shows "kernel_ok k'"
proof -
  have "unat n < 10" if "\<not> 9 < n" using that by (simp add: word_less_nat_alt not_less)
  then show ?thesis using w K slot_dom(1) [OF K, of "unat n"] offset_update_ok [OF K]
    by (auto simp: seek_sys_def Let_def nonnull_def split: if_splits)
qed

lemma disk_objects [simp]: "same_objects k (k\<lparr>disk := d\<rparr>)"
  by (simp add: same_objects_def)

lemma set_cwd_objects [simp]: "same_objects k (set_cwd c n k)"
  by (simp add: same_objects_def set_cwd_def)

lemma ls_objects: "ls_sys e b k = Inr (x, k') \<Longrightarrow> same_objects k k'"
  by (auto simp: ls_sys_def with_current_def split: option.splits
    intro: same_objects_trans [OF disk_objects store_range_objects])

lemma dir_length_objects: "getDirEntriesLength_sys e n k = Inr (x, k') \<Longrightarrow> same_objects k k'"
  by (auto simp: getDirEntriesLength_sys_def Let_def with_node_def split: if_splits option.splits)

lemma changeDir_objects:
  assumes "changeDir_sys e path k = Inr (x, k')"
  shows "same_objects k k'"
proof -
  have up: "same_objects k1 k'" if "changeDir_up e k1 = Inr (x, k')" for k1
    using that by (auto simp: changeDir_up_def Let_def intro: same_objects_trans [OF fs_find_objects set_cwd_objects])
  have app: "same_objects k1 k'" if a: "changeDir_append e path k1 = Inr (x, k')" for k1
  proof -
    obtain i b k2 c i2 c2 k3 c3 n k4 where s: "ld8 (path + (of_nat i - 1)) k1 = Inr (b, k2)"
      "cwd_append path 0 i c k2 = Inr (i2, c2, k3)" "fs_find e (current (fs k3)) c3 k3 = Inr (n, k4)"
      "k' = set_cwd c3 n k4"
      using a by (auto simp: changeDir_append_def Let_def split: if_splits)
    show ?thesis unfolding s(4)
      by (rule same_objects_trans [OF ld8_objects [OF s(1)] same_objects_trans [OF cwd_append_objects [OF s(2)]
        same_objects_trans [OF fs_find_objects [OF s(3)] set_cwd_objects]]])
  qed
  show ?thesis using assms up app
    by (auto simp: changeDir_sys_def split: if_splits dest!: ld8_objects intro: same_objects_trans)
qed

lemma zombie_objects: "zombie_remove k = (t, k') \<Longrightarrow> same_objects k k'"
  by (auto simp: zombie_remove_def same_objects_def split: prod.splits)

lemma delete_TCB_objects: "delete_TCB t k = Inr k' \<Longrightarrow> same_objects k k'"
  unfolding delete_TCB_def by (rule upd_mem_objects)

lemma delete_zombies_loop_objects: "delete_zombies_loop k = Some r \<Longrightarrow> r = Inr k' \<Longrightarrow> same_objects k k'"
proof (induction k r arbitrary: k' rule: delete_zombies_loop.raw_induct [rotated, consumes 1])
  case (1 g k r)
  obtain t k1 where z: "zombie_remove k = (t, k1)" by fastforce
  show ?case
  proof (cases t)
    case (Some a)
    then obtain k2 where "delete_TCB a k1 = Inr k2" "g k2 = Some r" using 1(2,3) z by (auto split: sum.splits)
    then show ?thesis
      using same_objects_trans [OF zombie_objects [OF z] same_objects_trans [OF delete_TCB_objects 1(1)]] 1(3) by blast
  qed (use 1(2,3) zombie_objects [OF z] z in auto)
qed

lemma delete_zombies_objects: "delete_zombies k = Inr k' \<Longrightarrow> same_objects k k'"
  by (auto simp: delete_zombies_def returned_def split: option.splits dest: delete_zombies_loop_objects [OF _ refl])

lemma new_PCB_ok:
  assumes K: "kernel_ok k" and n: "new_PCB k = (p, k')"
  shows "kernel_ok k'" "p \<in> dom (pcbs k')" "same_objects k k' \<or> tcbs k' = tcbs k"
proof -
  let ?n = "next_ref k" and ?std = "(new_FileDescriptor None)\<lparr>valid := True\<rparr>"
  have p: "p = ?n" and k': "k' = k\<lparr>next_ref := ?n + 5, descs := (descs k)(?n + 1 \<mapsto> ?std, ?n + 2 \<mapsto> ?std, ?n + 3 \<mapsto> ?std),
      futures := (futures k)(?n + 4 \<mapsto> new_future 0),
      pcbs := (pcbs k)(?n \<mapsto> \<lparr>future = ?n + 4, fd = [?n + 1, ?n + 2, ?n + 3] @ replicate 7 0,
        cp = replicate 10 0, sp = replicate 10 0\<rparr>)\<rparr>"
    using n by (auto simp: new_PCB_def alloc_ref_def Let_def eval_nat_numeral)
  have fresh: "?n \<le> r \<Longrightarrow> pcbs k r = None \<and> descs k r = None \<and> futures k r = None" for r
    using kernel_okD(9) [OF K, of r] by force
  have old: "descs k r = Some d \<Longrightarrow> r \<noteq> ?n + 1 \<and> r \<noteq> ?n + 2 \<and> r \<noteq> ?n + 3" for r d
    using fresh [of r] by auto
  have g: "grows k k'" using old by (auto simp: grows_def k' desc_at_def)
  have b: "dom (pcbs k) \<subseteq> {0<..<?n + 5}" "dom (descs k) \<subseteq> {0<..<?n + 5}" "dom (sems k) \<subseteq> {0<..<?n + 5}"
    "dom (futures k) \<subseteq> {0<..<?n + 5}"
    using range_next [OF K] by force+
  show "p \<in> dom (pcbs k')" by (simp add: p k')
  show "same_objects k k' \<or> tcbs k' = tcbs k" by (simp add: k')
  show "kernel_ok k'"
  proof (rule kernel_ok_grows [OF K g])
    fix r q assume "pcbs k' r = Some q" "pcbs k r \<noteq> Some q"
    then have q: "q = \<lparr>future = ?n + 4, fd = [?n + 1, ?n + 2, ?n + 3] @ replicate 7 0, cp = replicate 10 0,
        sp = replicate 10 0\<rparr>" by (auto simp: k' split: if_splits)
    have "fd q ! i = 0" if "3 \<le> i" "i < 10" for i using that by (auto simp: q nth_append nth_Cons')
    then show "pcb_ok k' q" by (auto simp: pcb_ok_def q k' refs_in_def)
  next
    show "dom (pcbs k') \<union> dom (descs k') \<union> dom (sems k') \<union> dom (futures k') \<subseteq> {0<..<next_ref k'}"
      using kernel_okD(6) [OF K] b unfolding k' by simp
  qed (auto simp: k' new_FileDescriptor_def split: if_splits)
qed

lemma makeThread_ok:
  assumes K: "kernel_ok k" and m: "makeThread e w k = Inr (t, k')"
  shows "kernel_ok k'" "process (tcb_at k' t) \<in> dom (pcbs k')"
proof -
  obtain k0 where z: "delete_zombies k = Inr k0" and n: "new_TCB e w k0 = Inr (t, k')"
    using m by (auto simp: makeThread_def)
  have K0: "kernel_ok k0" using same_objects_ok [OF delete_zombies_objects [OF z]] K by simp
  have K1: "kernel_ok (k0\<lparr>next_ref := next_ref k0 + 1\<rparr>)"
    by (rule kernel_ok_grows [OF K0]) (use kernel_okD(6) [OF K0] in \<open>auto simp: grows_def desc_at_def ref_bounds [OF K0]\<close>)
  obtain pd k2 where im: "in_mem (make_pd (kConfig e) (shared e)) (k0\<lparr>next_ref := next_ref k0 + 1\<rparr>) = Inr (pd, k2)"
    using n by (auto simp: new_TCB_def alloc_ref_def)
  have K2: "kernel_ok k2" using same_objects_ok [OF in_mem_objects [OF im]] K1 by simp
  obtain p k3 where P: "new_PCB k2 = (p, k3)" by fastforce
  note N = new_PCB_ok [OF K2 P]
  have k': "k' = k3\<lparr>tcbs := (tcbs k3)(t \<mapsto> \<lparr>process = p, tpd = pd, user_start = w\<rparr>),
         ths := (ths k3)\<lparr>isIdle := (isIdle (ths k3))(t := False)\<rparr>\<rparr>"
    using n im P by (auto simp: new_TCB_def alloc_ref_def Let_def)
  show "process (tcb_at k' t) \<in> dom (pcbs k')" using N(2) by (simp add: k' tcb_at_def)
  show "kernel_ok k'" unfolding k'
    by (rule kernel_ok_grows [OF N(1)])
      (use N(2) range_next [OF N(1)] in \<open>auto simp: grows_def desc_at_def ran_def split: if_splits\<close>)
qed

lemma fork_ok:
  assumes K: "kernel_ok k" and f: "fork_sys e eip esp k = Inr (x, k')"
  shows "kernel_ok k'"
proof -
  obtain t k1 where m: "makeThread e (eip, esp) k = Inr (t, k1)" using f by (auto simp: fork_sys_def)
  note T = makeThread_ok [OF K m]
  let ?p = "cur_process k1" and ?q = "process (tcb_at k1 t)"
  let ?i = "scan_child (cp ?p) 0"
  let ?k2 = "set_process (?p\<lparr>cp := (cp ?p)[?i := ?q]\<rparr>) k1"
  let ?c = "(pcb_at ?k2 ?q)\<lparr>fd := map (\<lambda>i. fd ?p ! i) [0..<10], sp := map (\<lambda>i. sp ?p ! i) [0..<10]\<rparr>"
  have K2: "kernel_ok ?k2" by (rule set_process_ok [OF T(1) pcb_ok_cp [OF kernel_okD(4) [OF T(1)]]]) (use T(2) in blast)
  have q: "?q \<in> dom (pcbs ?k2)" using T(2) by (auto simp: set_process_def)
  note P = pcb_okD [OF kernel_okD(4) [OF T(1)]]
  have eq: "map (\<lambda>i. fd ?p ! i) [0..<10] = fd ?p" "map (\<lambda>i. sp ?p ! i) [0..<10] = sp ?p"
    using P(6,8) map_nth [of "fd ?p"] map_nth [of "sp ?p"] by simp_all
  have same: "descs ?k2 = descs k1" "sems ?k2 = sems k1" "desc_at ?k2 r = desc_at k1 r" for r
    by (simp_all add: set_process_def desc_at_def)
  have c: "pcb_ok ?k2 ?c"
    using kernel_okD(5) [OF K2 q] P(1,3,5) unfolding eq by (auto simp: pcb_ok_def same)
  have K3: "kernel_ok (?k2\<lparr>pcbs := (pcbs ?k2)(?q \<mapsto> ?c)\<rparr>)" by (rule pcbs_update_ok [OF K2 c q])
  show ?thesis
  proof (cases "?i = 10")
    case True
    then show ?thesis using f m T(1) by (simp add: fork_sys_def Let_def)
  next
    case False
    then obtain g k4 where u: "upd_mem g (?k2\<lparr>pcbs := (pcbs ?k2)(?q \<mapsto> ?c)\<rparr>) = Inr k4" and k': "k' = schedule_k t k4"
      using f m by (auto simp: fork_sys_def Let_def)
    have "kernel_ok k4" using same_objects_ok [OF upd_mem_objects [OF u]] K3 by simp
    moreover have "same_objects k4 k'" by (simp add: k' schedule_k_def same_objects_def)
    ultimately show ?thesis using same_objects_ok by blast
  qed
qed

lemma execl_ok:
  assumes K: "kernel_ok k" and f: "execl_sys e path argv k = Inr (x, k')"
  shows "kernel_ok k'"
proof -
  let ?k1 = "set_process ((cur_process k)\<lparr>sp := replicate 10 0, cp := replicate 10 0\<rparr>) k"
  have "pcb_ok k ((cur_process k)\<lparr>sp := replicate 10 0, cp := replicate 10 0\<rparr>)"
    using kernel_okD(4) [OF K] unfolding pcb_ok_def by (auto simp: refs_in_zero)
  then have K1: "kernel_ok ?k1" by (rule set_process_ok [OF K])
  obtain g k2 u k3 n k4 nd v k5 where s: "upd_mem g ?k1 = Inr k2" "user_stack argv k2 = Inr (u, k3)"
    "fs_find e (Some (root (fs k3))) path k3 = Inr (n, k4)" "elf_load e nd k4 = Inr (v, k')"
    using f by (auto simp: execl_sys_def Let_def split: option.splits)
  have "same_objects ?k1 k'"
    by (rule same_objects_trans [OF upd_mem_objects [OF s(1)] same_objects_trans [OF user_stack_objects [OF s(2)]
      same_objects_trans [OF fs_find_objects [OF s(3)] elf_load_objects [OF s(4)]]]])
  then show ?thesis using K1 same_objects_ok by blast
qed

lemma copy_argv_ok: "kernel_ok k \<Longrightarrow> copy_argv e esp i n k = Inr (as, k') \<Longrightarrow> kernel_ok k'"
proof (induction n arbitrary: i k as)
  case (Suc n)
  obtain c k1 s k2 k4 bs where r: "esp_arg esp (i + 2) k = Inr (c, k1)" "load_string ld8 c k1 = Inr (s, k2)"
    "copy_bytes (nat (sint (round4 (of_nat (length s) + 1)))) (addr_of e (next_ref k2)) c (k2\<lparr>next_ref := next_ref k2 + 1\<rparr>) = Inr k4"
    "copy_argv e esp (i + 1) n k4 = Inr (bs, k')"
    using Suc.prems(2) by (auto simp: alloc_ref_def)
  have K2: "kernel_ok k2"
    using same_objects_ok [OF same_objects_trans [OF esp_arg_objects [OF r(1)] load_string_objects [OF r(2)]]] Suc.prems(1) by simp
  have K3: "kernel_ok (k2\<lparr>next_ref := next_ref k2 + 1\<rparr>)"
    by (rule kernel_ok_grows [OF K2]) (use kernel_okD(6) [OF K2] in \<open>auto simp: grows_def desc_at_def ref_bounds [OF K2]\<close>)
  show ?case by (rule Suc.IH [OF _ r(4)]) (use same_objects_ok [OF copy_bytes_objects [OF r(3)]] K3 in simp)
qed simp

lemma execl_args_ok:
  assumes K: "kernel_ok k" and f: "execl_args e esp k = Inr (x, k')"
  shows "kernel_ok k'"
proof -
  obtain a k1 path k2 n k3 argv k4 where s: "esp_arg esp 1 k = Inr (a, k1)" "load_string ld8 a k1 = Inr (path, k2)"
    "returned (count_args esp 0 k2) = Inr (n, k3)" "copy_argv e esp 0 n k3 = Inr (argv, k4)"
    "execl_sys e path argv k4 = Inr (x, k')"
    using f by (auto simp: execl_args_def)
  have "same_objects k2 k3"
    using s(3) count_args_objects [OF _ refl] by (auto simp: returned_def split: option.splits)
  then have "same_objects k k3"
    using same_objects_trans [OF esp_arg_objects [OF s(1)] same_objects_trans [OF load_string_objects [OF s(2)]]] by blast
  then have "kernel_ok k3" using same_objects_ok K by blast
  then show ?thesis using copy_argv_ok [OF _ s(4)] execl_ok [OF _ s(5)] by blast
qed

lemma arg_ok:
  assumes "kernel_ok k"
  shows "arg1 esp f k = Inr (x, k') \<Longrightarrow> (\<And>a k1. kernel_ok k1 \<Longrightarrow> f a k1 = Inr (x, k') \<Longrightarrow> kernel_ok k') \<Longrightarrow> kernel_ok k'"
    "arg2 esp g k = Inr (x, k') \<Longrightarrow> (\<And>a b k1. kernel_ok k1 \<Longrightarrow> g a b k1 = Inr (x, k') \<Longrightarrow> kernel_ok k') \<Longrightarrow> kernel_ok k'"
    "arg3 esp h k = Inr (x, k') \<Longrightarrow> (\<And>a b c k1. kernel_ok k1 \<Longrightarrow> h a b c k1 = Inr (x, k') \<Longrightarrow> kernel_ok k') \<Longrightarrow> kernel_ok k'"
  using assms by (auto simp: arg1_def arg2_def arg3_def dest!: esp_arg_objects same_objects_ok)

lemma kernel_ok_preserved:
  assumes K: "kernel_ok k" and h: "sysHandler e eax eip esp k = Inr (x, k')"
  shows "kernel_ok k'"
proof -
  have c: "kernel_ok k' " if "same_objects k k'" using same_objects_ok [OF that] K by simp
  have objs: "clear_line k = Inr (x, k') \<Longrightarrow> same_objects k k'" "pwd_sys k = Inr (x, k') \<Longrightarrow> same_objects k k'"
    by (auto simp: clear_line_def pwd_sys_def put_out_def same_objects_def split: if_splits)
  note A = arg_ok [OF K]
  from h show ?thesis unfolding sysHandler_def
    by (elim if_branchE)
      (erule A(1), erule (1) exit_ok | erule A(3), erule (1) write_ok | erule fork_ok [OF K] | erule A(1), erule (1) sem_ok
      | erule A(1), erule (1) up_ok | erule A(1), erule (1) down_ok | erule A(1), erule (1) close_ok
      | erule A(2), erule (1) wait_ok | erule execl_args_ok [OF K] | erule A(2), erule (1) open_ok
      | erule A(1), erule (1) len_ok | erule A(3), erule (1) read_ok | erule A(2), erule (1) seek_ok
      | erule A(1), drule ls_objects, simp add: same_objects_ok
      | erule A(1), drule dir_length_objects, simp add: same_objects_ok
      | erule A(1), drule changeDir_objects, simp add: same_objects_ok
      | rule c, erule objs | use K in simp)+
qed

section \<open>Histories\<close>

text \<open>A future stays for as long as a thread may wait for it.\<close>

definition futures_stay :: "'s kernel \<Rightarrow> 's kernel \<Rightarrow> bool" where
  "futures_stay k k' \<longleftrightarrow> dom (futures k) \<subseteq> dom (futures k') \<and> dom (tcbs k) \<subseteq> dom (tcbs k') \<and> cur k' = cur k"

lemma futures_stay_same: "same_objects k k' \<Longrightarrow> futures_stay k k'"
  by (simp add: futures_stay_def same_objects_def)

lemma futures_stay_trans: "futures_stay k k1 \<Longrightarrow> futures_stay k1 k2 \<Longrightarrow> futures_stay k k2"
  unfolding futures_stay_def by (metis subset_trans)

lemma set_process_stay [simp]: "futures_stay k (set_process p k)"
  by (simp add: futures_stay_def set_process_def)

lemma wait_finish_stay: "wait_finish i status v k = Inr (x, k') \<Longrightarrow> futures_stay k k'"
  by (auto simp: wait_finish_def Let_def dest!: store_word_objects futures_stay_same
    intro: futures_stay_trans [OF _ set_process_stay])

lemma wait_stay:
  assumes "wait_sys e i status k = Inr (x, k')"
  shows "futures_stay k k'"
proof -
  have f: "futures_stay k (k\<lparr>ths := th, futures := (futures k)(f \<mapsto> g)\<rparr>)" for th f g
    by (auto simp: futures_stay_def)
  show ?thesis using assms futures_stay_same [OF put_out_objects] f
    by (auto simp: wait_sys_def Let_def put_text_def split: if_splits option.splits
      intro: futures_stay_trans [OF f wait_finish_stay])
qed

lemma exit_stay: "exit_sys rc k = Inr (x, k') \<Longrightarrow> futures_stay k k'"
  by (auto simp: exit_sys_def Let_def nonnull_def split: if_splits
    intro!: futures_stay_trans [OF _ futures_stay_same [OF stop_objects]]) (auto simp: futures_stay_def)

lemma slot_calls_stay:
  "close_sys n k = Inr (x, k') \<Longrightarrow> futures_stay k k'"
  "sem_sys m k = Inr (x, k') \<Longrightarrow> futures_stay k k'"
  "up_sys i k = Inr (x, k') \<Longrightarrow> futures_stay k k'"
  "len_sys e i k = Inr (x, k') \<Longrightarrow> futures_stay k k'"
  "seek_sys n off k = Inr (x, k') \<Longrightarrow> futures_stay k k'"
  by (auto simp: futures_stay_def close_sys_def sem_sys_def up_sys_def len_sys_def seek_sys_def set_process_def
      alloc_ref_def nonnull_def with_node_def Let_def split: if_splits prod.splits option.splits)

lemma down_stay:
  assumes "down_sys i k = Inr (x, k')"
  shows "futures_stay k k'"
proof (cases "i < 10 \<or> 19 < i")
  case False
  let ?r = "sp (cur_process k) ! nat (i - 10)"
  from assms False obtain d th s where "sem_down (cur k) (ths k, sem_at k ?r) = Inr (d, th, s)"
    "(let k1 = k\<lparr>ths := th, sems := (sems k)(?r \<mapsto> s)\<rparr>
       in case d of Granted \<Rightarrow> ret 0 k1 | Blocked \<Rightarrow> Inr (Sleep AfterDown, k1)) = Inr (x, k')"
    by (auto simp: down_sys_def Let_def nonnull_def split: if_splits)
  then show ?thesis by (cases d) (auto simp: Let_def futures_stay_def)
qed (use assms in \<open>simp add: down_sys_def futures_stay_def\<close>)

lemma open_stay:
  assumes "open_sys e fn k = Inr (x, k')"
  shows "futures_stay k k'"
proof (cases "fd (cur_process k) ! scan_slot (fd (cur_process k)) 0 \<noteq> 0")
  case False
  then obtain path k1 n k2 where s: "load_string ld8 fn k = Inr (path, k1)" "fs_find e (current (fs k1)) path k1 = Inr (n, k2)"
    "futures_stay k2 k'"
    using assms by (auto simp: open_sys_def Let_def alloc_ref_def futures_stay_def set_process_def split: option.splits)
  show ?thesis
    by (rule futures_stay_trans [OF futures_stay_same [OF same_objects_trans [OF load_string_objects [OF s(1)] fs_find_objects [OF s(2)]]] s(3)])
qed (use assms in \<open>simp add: open_sys_def Let_def futures_stay_def\<close>)

lemma read_file_stay:
  assumes w: "read_file e r buf m k = Inr (x, k')"
  shows "futures_stay k k'"
proof -
  obtain nd where nd: "fd_node (desc_at k r) = Some nd" using w by (auto simp: read_file_def with_node_def split: option.splits)
  obtain l cnt k1 where s: "read_to e nd (offset (desc_at k r)) l buf k = Inr (cnt, k1)" "futures_stay k1 k'"
    using w unfolding read_file_def with_node_def nd option.case Let_def by (fastforce simp: futures_stay_def)
  show ?thesis by (rule futures_stay_trans [OF futures_stay_same [OF read_to_objects [OF s(1)]] s(2)])
qed

lemma read_stay: "read_sys e n buf m k = Inr (x, k') \<Longrightarrow> futures_stay k k'"
  by (auto simp: read_sys_def Let_def nonnull_def futures_stay_def [of k k] dest: read_file_stay split: if_splits)

lemma write_stay: "write_sys e n buf m k = Inr (x, k') \<Longrightarrow> futures_stay k k'"
  by (auto simp: write_sys_def Let_def futures_stay_def [of k k] futures_stay_same dest!: write_loop_objects split: if_splits)

lemma new_PCB_stay: "new_PCB k = (p, k') \<Longrightarrow> futures_stay k k'"
  by (auto simp: new_PCB_def alloc_ref_def Let_def futures_stay_def)

lemma makeThread_stay:
  assumes m: "makeThread e w k = Inr (t, k')"
  shows "futures_stay k k'"
proof -
  obtain k0 where z: "delete_zombies k = Inr k0" and n: "new_TCB e w k0 = Inr (t, k')"
    using m by (auto simp: makeThread_def)
  obtain pd k2 where im: "in_mem (make_pd (kConfig e) (shared e)) (k0\<lparr>next_ref := next_ref k0 + 1\<rparr>) = Inr (pd, k2)"
    using n by (auto simp: new_TCB_def alloc_ref_def)
  obtain p k3 where P: "new_PCB k2 = (p, k3)" by fastforce
  have k': "k' = k3\<lparr>tcbs := (tcbs k3)(t \<mapsto> \<lparr>process = p, tpd = pd, user_start = w\<rparr>),
         ths := (ths k3)\<lparr>isIdle := (isIdle (ths k3))(t := False)\<rparr>\<rparr>"
    using n im P by (auto simp: new_TCB_def alloc_ref_def Let_def)
  have a: "futures_stay k0 k2" using in_mem_objects [OF im] by (simp add: futures_stay_def same_objects_def)
  have b: "futures_stay k3 k'" unfolding k' futures_stay_def by auto
  show ?thesis
    by (rule futures_stay_trans [OF futures_stay_same [OF delete_zombies_objects [OF z]] futures_stay_trans [OF a
      futures_stay_trans [OF new_PCB_stay [OF P] b]]])
qed

lemma fork_stay:
  assumes f: "fork_sys e eip esp k = Inr (x, k')"
  shows "futures_stay k k'"
proof -
  obtain t k1 where m: "makeThread e (eip, esp) k = Inr (t, k1)" using f by (auto simp: fork_sys_def)
  have "futures k' = futures k1 \<and> tcbs k' = tcbs k1 \<and> cur k' = cur k1"
    using f m by (auto simp: fork_sys_def Let_def schedule_k_def upd_mem_def set_process_def split: if_splits)
  then have "futures_stay k1 k'" by (simp add: futures_stay_def)
  then show ?thesis by (rule futures_stay_trans [OF makeThread_stay [OF m]])
qed

lemma execl_stay:
  assumes f: "execl_sys e path argv k = Inr (x, k')"
  shows "futures_stay k k'"
proof -
  let ?k1 = "set_process ((cur_process k)\<lparr>sp := replicate 10 0, cp := replicate 10 0\<rparr>) k"
  obtain g k2 u k3 n k4 nd v k5 where s: "upd_mem g ?k1 = Inr k2" "user_stack argv k2 = Inr (u, k3)"
    "fs_find e (Some (root (fs k3))) path k3 = Inr (n, k4)" "elf_load e nd k4 = Inr (v, k')"
    using f by (auto simp: execl_sys_def Let_def split: option.splits)
  show ?thesis
    by (rule futures_stay_trans [OF set_process_stay futures_stay_same [OF same_objects_trans [OF upd_mem_objects [OF s(1)]
      same_objects_trans [OF user_stack_objects [OF s(2)] same_objects_trans [OF fs_find_objects [OF s(3)] elf_load_objects [OF s(4)]]]]]])
qed

lemma copy_argv_stay: "copy_argv e esp i n k = Inr (as, k') \<Longrightarrow> futures_stay k k'"
proof (induction n arbitrary: i k as)
  case (Suc n)
  obtain c k1 s k2 k4 bs where r: "esp_arg esp (i + 2) k = Inr (c, k1)" "load_string ld8 c k1 = Inr (s, k2)"
    "copy_bytes (nat (sint (round4 (of_nat (length s) + 1)))) (addr_of e (next_ref k2)) c (k2\<lparr>next_ref := next_ref k2 + 1\<rparr>) = Inr k4"
    "copy_argv e esp (i + 1) n k4 = Inr (bs, k')"
    using Suc.prems by (auto simp: alloc_ref_def)
  have "futures_stay k2 k4" using copy_bytes_objects [OF r(3)] by (simp add: same_objects_def futures_stay_def)
  then show ?case
    using futures_stay_trans [OF futures_stay_same [OF same_objects_trans [OF esp_arg_objects [OF r(1)] load_string_objects [OF r(2)]]]
      futures_stay_trans [OF _ Suc.IH [OF r(4)]]] by blast
qed (simp add: futures_stay_def)

lemma execl_args_stay:
  assumes f: "execl_args e esp k = Inr (x, k')"
  shows "futures_stay k k'"
proof -
  obtain a k1 path k2 n k3 argv k4 where s: "esp_arg esp 1 k = Inr (a, k1)" "load_string ld8 a k1 = Inr (path, k2)"
    "returned (count_args esp 0 k2) = Inr (n, k3)" "copy_argv e esp 0 n k3 = Inr (argv, k4)"
    "execl_sys e path argv k4 = Inr (x, k')"
    using f by (auto simp: execl_args_def)
  have "same_objects k2 k3"
    using s(3) count_args_objects [OF _ refl] by (auto simp: returned_def split: option.splits)
  then have "futures_stay k k3"
    using same_objects_trans [OF esp_arg_objects [OF s(1)] same_objects_trans [OF load_string_objects [OF s(2)]]] futures_stay_same by blast
  then show ?thesis using futures_stay_trans copy_argv_stay [OF s(4)] execl_stay [OF s(5)] by blast
qed

lemma arg_stay:
  "arg1 esp f k = Inr (x, k') \<Longrightarrow> (\<And>a k1. f a k1 = Inr (x, k') \<Longrightarrow> futures_stay k1 k') \<Longrightarrow> futures_stay k k'"
  "arg2 esp g k = Inr (x, k') \<Longrightarrow> (\<And>a b k1. g a b k1 = Inr (x, k') \<Longrightarrow> futures_stay k1 k') \<Longrightarrow> futures_stay k k'"
  "arg3 esp h k = Inr (x, k') \<Longrightarrow> (\<And>a b c k1. h a b c k1 = Inr (x, k') \<Longrightarrow> futures_stay k1 k') \<Longrightarrow> futures_stay k k'"
proof -
  note E = futures_stay_trans [OF futures_stay_same [OF esp_arg_objects]]
  show "arg1 esp f k = Inr (x, k') \<Longrightarrow> (\<And>a k1. f a k1 = Inr (x, k') \<Longrightarrow> futures_stay k1 k') \<Longrightarrow> futures_stay k k'"
    unfolding arg1_def by (clarsimp, erule E) blast
  show "arg2 esp g k = Inr (x, k') \<Longrightarrow> (\<And>a b k1. g a b k1 = Inr (x, k') \<Longrightarrow> futures_stay k1 k') \<Longrightarrow> futures_stay k k'"
    unfolding arg2_def by (clarsimp, erule E, erule E) blast
  show "arg3 esp h k = Inr (x, k') \<Longrightarrow> (\<And>a b c k1. h a b c k1 = Inr (x, k') \<Longrightarrow> futures_stay k1 k') \<Longrightarrow> futures_stay k k'"
    unfolding arg3_def by (clarsimp, erule E, erule E, erule E) blast
qed

lemma sysHandler_stay:
  assumes h: "sysHandler e eax eip esp k = Inr (x, k')"
  shows "futures_stay k k'"
proof -
  have objs: "clear_line k = Inr (x, k') \<Longrightarrow> same_objects k k'" "pwd_sys k = Inr (x, k') \<Longrightarrow> same_objects k k'"
    by (auto simp: clear_line_def pwd_sys_def put_out_def same_objects_def split: if_splits)
  note A = arg_stay
  from h show ?thesis unfolding sysHandler_def
    by (elim if_branchE)
      (erule A(1), erule exit_stay | erule A(3), erule write_stay | erule fork_stay | erule A(1), erule slot_calls_stay
      | erule A(1), erule down_stay
      | erule A(2), erule wait_stay | erule execl_args_stay | erule A(2), erule open_stay
      | erule A(3), erule read_stay | erule A(2), erule slot_calls_stay
      | erule A(1), drule ls_objects, erule futures_stay_same
      | erule A(1), drule dir_length_objects, erule futures_stay_same
      | erule A(1), drule changeDir_objects, erule futures_stay_same
      | rule futures_stay_same, erule objs | simp add: futures_stay_def)+
qed


text \<open>
  A history: the thread on the core makes a system call or changes its memory, a thread that
  slept in \<^verbatim>\<open>down\<close> or \<^verbatim>\<open>wait\<close> goes on, and any thread is put on the core.  \<open>pending\<close> holds what the
  sleeping threads have left to do.  The scheduler's choice is left open: these histories contain
  all that it produces.  And at any time an object may go to which no pointer is left and in which no
  thread waits: a \<^verbatim>\<open>Shared\<close> that is cleared or assigned deletes its object when the count of references
  drops to 0, which is when it was the last one (the theory of shared pointers).
\<close>

type_synonym 's system = "'s kernel \<times> (tcb \<rightharpoonup> rest)"

definition goes_to_sleep :: "tcb \<Rightarrow> outcome \<Rightarrow> (tcb \<rightharpoonup> rest) \<Rightarrow> tcb \<rightharpoonup> rest" where
  "goes_to_sleep t x w = (case x of Sleep r \<Rightarrow> w(t \<mapsto> r) | _ \<Rightarrow> w(t := None))"

definition on_core :: "tcb \<Rightarrow> 's kernel \<Rightarrow> 's kernel" where
  "on_core t k = k\<lparr>cur := t\<rparr>"

definition unreferenced :: "ref \<Rightarrow> 's system \<Rightarrow> bool" where
  "unreferenced r = (\<lambda>(k, w).
     (\<forall>p \<in> ran (pcbs k). r \<notin> set (fd p) \<union> set (cp p) \<union> set (sp p) \<union> {future p}) \<and>
     (\<forall>t \<in> ran (tcbs k). process t \<noteq> r) \<and> (\<forall>t f i s. w t = Some (AfterGet f i s) \<longrightarrow> f \<noteq> r))"

definition drop_object :: "ref \<Rightarrow> 's kernel \<Rightarrow> 's kernel" where
  "drop_object r k = k\<lparr>pcbs := (pcbs k)(r := None), descs := (descs k)(r := None), sems := (sems k)(r := None),
     futures := (futures k)(r := None)\<rparr>"

inductive kstep :: "'s machine \<Rightarrow> 's system \<Rightarrow> 's system \<Rightarrow> bool" for e where
  call: "sysHandler e eax eip esp k = Inr (x, k') \<Longrightarrow> w (cur k) = None \<Longrightarrow>
    kstep e (k, w) (k', goes_to_sleep (cur k) x w)"
| wake: "w (cur k) = Some r \<Longrightarrow> resume r k = Inr (x, k') \<Longrightarrow> kstep e (k, w) (k', goes_to_sleep (cur k) x w)"
| user: "st8 a b k = Inr k' \<Longrightarrow> kstep e (k, w) (k', w)"
| switch: "t \<in> dom (tcbs k) \<Longrightarrow> kstep e (k, w) (on_core t k, w)"
| free: "unreferenced r (k, w) \<Longrightarrow> kstep e (k, w) (drop_object r k, w)"

inductive_cases kstep_cases: "kstep e (k, w) (k', w')"

definition system_ok :: "'s system \<Rightarrow> bool" where
  "system_ok = (\<lambda>(k, w). kernel_ok k \<and> (\<forall>t f i s. w t = Some (AfterGet f i s) \<longrightarrow> f \<in> dom (futures k)))"

lemma on_core_ok: "kernel_ok k \<Longrightarrow> t \<in> dom (tcbs k) \<Longrightarrow> kernel_ok (on_core t k)"
  by (auto simp: on_core_def kernel_ok_def pcb_ok_def desc_at_def)

text \<open>Only \<^verbatim>\<open>wait\<close> goes to sleep on a future, which is the child's.\<close>

lemma no_sleep:
  "close_sys n k = Inr (x, k') \<Longrightarrow> x \<noteq> Sleep r" "sem_sys m k = Inr (x, k') \<Longrightarrow> x \<noteq> Sleep r"
  "up_sys i k = Inr (x, k') \<Longrightarrow> x \<noteq> Sleep r" "len_sys e i k = Inr (x, k') \<Longrightarrow> x \<noteq> Sleep r"
  "seek_sys n off k = Inr (x, k') \<Longrightarrow> x \<noteq> Sleep r" "exit_sys rc k = Inr (x, k') \<Longrightarrow> x \<noteq> Sleep r"
  "open_sys e fn k = Inr (x, k') \<Longrightarrow> x \<noteq> Sleep r" "ls_sys e b k = Inr (x, k') \<Longrightarrow> x \<noteq> Sleep r"
  "getDirEntriesLength_sys e i k = Inr (x, k') \<Longrightarrow> x \<noteq> Sleep r"
  "pwd_sys k = Inr (x, k') \<Longrightarrow> x \<noteq> Sleep r" "clear_line k = Inr (x, k') \<Longrightarrow> x \<noteq> Sleep r"
  "fork_sys e eip esp k = Inr (x, k') \<Longrightarrow> x \<noteq> Sleep r" "execl_sys e path argv k = Inr (x, k') \<Longrightarrow> x \<noteq> Sleep r"
  "wait_finish j status v k = Inr (x, k') \<Longrightarrow> x \<noteq> Sleep r"
  "changeDir_up e k = Inr (x, k') \<Longrightarrow> x \<noteq> Sleep r"
  by (auto simp: close_sys_def sem_sys_def up_sys_def len_sys_def seek_sys_def exit_sys_def open_sys_def ls_sys_def
      getDirEntriesLength_sys_def pwd_sys_def clear_line_def fork_sys_def execl_sys_def wait_finish_def with_current_def
      changeDir_up_def alloc_ref_def nonnull_def with_node_def Let_def split: if_splits prod.splits option.splits)

lemma no_sleep_read: "read_sys e i buf m k = Inr (x, k') \<Longrightarrow> x \<noteq> Sleep r"
proof -
  have "x \<noteq> Sleep r" if r: "read_file e f buf m k = Inr (x, k')" for f
    using r by (auto simp: read_file_def with_node_def Let_def split: option.splits)
  then show "read_sys e i buf m k = Inr (x, k') \<Longrightarrow> x \<noteq> Sleep r"
    by (auto simp: read_sys_def Let_def nonnull_def split: if_splits)
qed

lemma no_sleep_write: "write_sys e i buf m k = Inr (x, k') \<Longrightarrow> x \<noteq> Sleep r"
proof -
  have "write_loop cfg buf j n k = Inr (x, k') \<Longrightarrow> x \<noteq> Sleep r" for cfg j n k
    by (induction n arbitrary: j k) (auto split: if_splits)
  then show "write_sys e i buf m k = Inr (x, k') \<Longrightarrow> x \<noteq> Sleep r"
    by (auto simp: write_sys_def Let_def split: if_splits)
qed

lemma no_sleep_cd: "changeDir_sys e path k = Inr (x, k') \<Longrightarrow> x \<noteq> Sleep r"
  by (auto simp: changeDir_sys_def changeDir_append_def Let_def dest: no_sleep split: if_splits)

lemma no_sleep_execl: "execl_args e esp k = Inr (x, k') \<Longrightarrow> x \<noteq> Sleep r"
  by (auto simp: execl_args_def dest: no_sleep)

lemma down_sleep:
  assumes "down_sys i k = Inr (Sleep r, k')"
  shows "r = AfterDown"
proof -
  let ?r = "sp (cur_process k) ! nat (i - 10)"
  from assms obtain d th s where "sem_down (cur k) (ths k, sem_at k ?r) = Inr (d, th, s)"
    "(let k1 = k\<lparr>ths := th, sems := (sems k)(?r \<mapsto> s)\<rparr>
       in case d of Granted \<Rightarrow> ret 0 k1 | Blocked \<Rightarrow> Inr (Sleep AfterDown, k1)) = Inr (Sleep r, k')"
    by (auto simp: down_sys_def Let_def nonnull_def split: if_splits)
  then show ?thesis by (cases d) (auto simp: Let_def)
qed

lemma wait_sleep: "wait_sys e i status k = Inr (Sleep (AfterGet f j s), k') \<Longrightarrow> f \<in> dom (futures k')"
  using no_sleep(14) by (fastforce simp: wait_sys_def Let_def split: if_splits option.splits)

lemma args_sleep:
  "arg1 esp f1 k = Inr (Sleep r, k') \<Longrightarrow> (\<And>a k1. f1 a k1 = Inr (Sleep r, k') \<Longrightarrow> P) \<Longrightarrow> P"
  "arg2 esp f2 k = Inr (Sleep r, k') \<Longrightarrow> (\<And>a b k1. f2 a b k1 = Inr (Sleep r, k') \<Longrightarrow> P) \<Longrightarrow> P"
  "arg3 esp f3 k = Inr (Sleep r, k') \<Longrightarrow> (\<And>a b c k1. f3 a b c k1 = Inr (Sleep r, k') \<Longrightarrow> P) \<Longrightarrow> P"
  by (auto simp: arg1_def arg2_def arg3_def)

lemma sysHandler_sleep:
  assumes "sysHandler e eax eip esp k = Inr (Sleep (AfterGet f j s), k')"
  shows "f \<in> dom (futures k')"
  using assms unfolding sysHandler_def
  by (elim if_branchE args_sleep)
    (auto dest: no_sleep no_sleep_read no_sleep_write no_sleep_cd no_sleep_execl down_sleep wait_sleep)

lemma goes_to_sleep_ok:
  assumes w: "system_ok (k, w)" and K: "kernel_ok k'" and f: "futures_stay k k'"
    and s: "\<And>f j s. x = Sleep (AfterGet f j s) \<Longrightarrow> f \<in> dom (futures k')"
  shows "system_ok (k', goes_to_sleep t x w)"
proof -
  have d: "dom (futures k) \<subseteq> dom (futures k')" using f by (simp add: futures_stay_def)
  have "f \<in> dom (futures k')" if "goes_to_sleep t x w u = Some (AfterGet f i r)" for u f i r
  proof (cases "w u = Some (AfterGet f i r)")
    case True
    then have "f \<in> dom (futures k)" using w unfolding system_ok_def by blast
    then show ?thesis using d by blast
  qed (use that s in \<open>auto simp: goes_to_sleep_def split: outcome.splits if_splits\<close>)
  then show ?thesis using K unfolding system_ok_def prod.case by blast
qed

lemma resume_sleep: "resume r k = Inr (Sleep r', k') \<Longrightarrow> False"
  by (auto simp: resume_def dest: no_sleep split: rest.splits prod.splits)

lemma resume_stay: "resume r k = Inr (x, k') \<Longrightarrow> futures_stay k k'"
proof (cases r)
  case (AfterGet f i status)
  obtain v th g where g: "fut_get_resume (ths k, fut_at k f) = (v, th, g)" by (rule prod_cases3)
  have "futures_stay k (k\<lparr>ths := th, futures := (futures k)(f \<mapsto> g)\<rparr>)" by (auto simp: futures_stay_def)
  then show "resume r k = Inr (x, k') \<Longrightarrow> futures_stay k k'"
    using AfterGet g by (auto simp: resume_def intro: futures_stay_trans [OF _ wait_finish_stay])
qed (simp add: resume_def futures_stay_def)

lemma refs_in_delete: "refs_in xs m \<Longrightarrow> r \<notin> set xs \<Longrightarrow> refs_in xs (m(r := None))"
  by (auto simp: refs_in_def)

lemma delete_ok:
  assumes K: "kernel_ok k" and u: "unreferenced r (k, w)"
  shows "kernel_ok (drop_object r k)"
proof -
  let ?k = "drop_object r k"
  have "pcb_ok ?k p" if "p \<in> ran (pcbs ?k)" for p
  proof -
    have p: "p \<in> ran (pcbs k)" using that by (auto simp: drop_object_def ran_def split: if_splits)
    then have n: "r \<notin> set (fd p) \<union> set (cp p) \<union> set (sp p) \<union> {future p}" using u by (simp add: unreferenced_def)
    have ok: "pcb_ok k p" using K p by (simp add: kernel_ok_def)
    have "desc_at ?k (fd p ! i) = desc_at k (fd p ! i)" if "i < 10" for i
      using n pcb_okD(6) [OF ok] that by (auto simp: desc_at_def drop_object_def)
    then show ?thesis using ok n by (auto simp: pcb_ok_def drop_object_def intro: refs_in_delete)
  qed
  moreover have "process t \<in> dom (pcbs ?k)" if "t \<in> ran (tcbs k)" for t
    using K u that by (auto simp: kernel_ok_def unreferenced_def drop_object_def)
  moreover have "valid d \<longleftrightarrow> fd_node d = None" if "d \<in> ran (descs ?k)" for d
    using K that by (auto simp: kernel_ok_def drop_object_def ran_def split: if_splits)
  ultimately show ?thesis using K unfolding kernel_ok_def by (auto simp: drop_object_def)
qed

lemma kstep_ok:
  assumes S: "system_ok (k, w)" and s: "kstep e (k, w) (k', w')"
  shows "system_ok (k', w')"
proof -
  have K: "kernel_ok k" using S by (simp add: system_ok_def)
  from s show ?thesis
  proof (cases rule: kstep_cases [consumes 1, case_names call wake user switch free])
    case (call eax eip esp x)
    show ?thesis unfolding call(1)
      by (rule goes_to_sleep_ok [OF S kernel_ok_preserved [OF K call(2)] sysHandler_stay [OF call(2)]])
        (use sysHandler_sleep call(2) in blast)
  next
    case (wake r x)
    have "f \<in> dom (futures k)" if "r = AfterGet f i s" for f i s
      using S wake(2) unfolding that system_ok_def prod.case by blast
    then have "kernel_ok k'" by (rule resume_ok [OF K _ wake(3)])
    then show ?thesis unfolding wake(1)
      by (rule goes_to_sleep_ok [OF S _ resume_stay [OF wake(3)]]) (use resume_sleep wake(3) in blast)
  next
    case (user a b)
    then show ?thesis using S st8_objects [OF user(2)] same_objects_ok [OF st8_objects [OF user(2)]]
      by (auto simp: system_ok_def same_objects_def)
  next
    case (switch t)
    then show ?thesis using S on_core_ok [of k t] by (auto simp: system_ok_def on_core_def)
  next
    case (free r)
    have "f \<in> dom (futures (drop_object r k))" if "w t = Some (AfterGet f i s)" for t f i s
    proof -
      have "f \<in> dom (futures k)" "f \<noteq> r"
        using S free that unfolding system_ok_def unreferenced_def prod.case by blast+
      then show ?thesis by (auto simp: drop_object_def)
    qed
    then show ?thesis using delete_ok [OF K, of r w] free unfolding system_ok_def prod.case by blast
  qed
qed

lemma history_ok: "(kstep e)\<^sup>*\<^sup>* s s' \<Longrightarrow> system_ok s \<Longrightarrow> system_ok s'"
proof (induction rule: rtranclp_induct)
  case (step y z)
  then show ?case by (cases y, cases z) (auto intro: kstep_ok)
qed

end
