(* ===== verification/Sys_Spec.thy ===== *)
theory Sys_Spec
  imports Sys_Inv
begin

text \<open>
  What the system calls do: user memory as the kernel's handlers see it, the arguments that make
  a call fail or halt the kernel, reading files, exit codes, and changing directories.
\<close>

section \<open>User memory in the kernel's state\<close>

text \<open>The states that differ from \<open>k0\<close> in memory only, with the caller's address space in order.\<close>

definition mem_of :: "config \<Rightarrow> u32 \<Rightarrow> 's kernel \<Rightarrow> 's kernel \<Rightarrow> bool" where
  "mem_of cfg start k0 k \<longleftrightarrow> (\<exists>p. k = k0\<lparr>pm := p\<rparr> \<and> space_inv cfg start (tpd (cur_thread k0)) p)"

definition user_byte :: "'s kernel \<Rightarrow> u32 \<Rightarrow> u8" where
  "user_byte k = ubyte (tpd (cur_thread k)) (pm k)"

lemma cur_pm [simp]: "cur_thread (k\<lparr>pm := p\<rparr>) = cur_thread k" "cur_process (k\<lparr>pm := p\<rparr>) = cur_process k"
  by (simp_all add: cur_thread_def tcb_at_def cur_process_def pcb_at_def)

lemma mem_of_refl: "space_inv cfg start (tpd (cur_thread k)) (pm k) \<Longrightarrow> mem_of cfg start k k"
  unfolding mem_of_def by (rule exI [of _ "pm k"]) simp

interpretation km: byte_memory ld8 st8 "mem_of cfg start k0" "user_area cfg" user_byte out_of_frames
proof unfold_locales
  fix k a b assume "mem_of cfg start k0 k" and a: "a \<in> user_area cfg"
  then obtain p where k: "k = k0\<lparr>pm := p\<rparr>" and S: "space_inv cfg start (tpd (cur_thread k0)) p"
    by (auto simp: mem_of_def)
  have "succeeds out_of_frames (load8 (tpd (cur_thread k0)) a p) (\<lambda>(b, p'). space_inv cfg start (tpd (cur_thread k0)) p' \<and>
      b = ubyte (tpd (cur_thread k0)) p a \<and> (\<forall>x\<in>user_area cfg. ubyte (tpd (cur_thread k0)) p' x = ubyte (tpd (cur_thread k0)) p x))"
    by (rule load8_ok [OF S a])
  then show "succeeds out_of_frames (ld8 a k) (\<lambda>(b, k'). mem_of cfg start k0 k' \<and> b = user_byte k a \<and>
      (\<forall>x\<in>user_area cfg. user_byte k' x = user_byte k x))"
    unfolding ld8_def in_mem_def k
    by (cases "load8 (tpd (cur_thread k0)) a p") (auto simp: mem_of_def user_byte_def)
  have "succeeds out_of_frames (store8 (tpd (cur_thread k0)) a b p) (\<lambda>p'. space_inv cfg start (tpd (cur_thread k0)) p' \<and>
      (\<forall>x\<in>user_area cfg. ubyte (tpd (cur_thread k0)) p' x = (if x = a then b else ubyte (tpd (cur_thread k0)) p x)))"
    by (rule store8_ok [OF S a])
  then show "succeeds out_of_frames (st8 a b k) (\<lambda>k'. mem_of cfg start k0 k' \<and>
      (\<forall>x\<in>user_area cfg. user_byte k' x = (if x = a then b else user_byte k x)))"
    unfolding st8_def upd_mem_def k
    by (cases "store8 (tpd (cur_thread k0)) a b p") (auto simp: mem_of_def user_byte_def)
qed

section \<open>Arguments that halt the kernel\<close>

lemma ret_Inl [simp]: "ret v k = Inl f \<longleftrightarrow> False"
  by (simp add: ret_def)








section \<open>The tables of a process\<close>

text \<open>The three tables of the calling process, as they stand in memory.\<close>

definition table :: "'s kernel \<Rightarrow> ref list" where
  "table k = fd (cur_process k) @ cp (cur_process k) @ sp (cur_process k)"

text \<open>What a call that changes a table leaves alone besides the objects: the other processes, the future
  of this one, and the rest of the kernel but for its memory and the disk.\<close>

definition only_tables :: "'s kernel \<Rightarrow> 's kernel \<Rightarrow> bool" where
  "only_tables k k' \<longleftrightarrow>
     (\<forall>q. q \<noteq> process (cur_thread k) \<longrightarrow> pcbs k' q = pcbs k q) \<and> future (cur_process k') = future (cur_process k) \<and>
     futures k' = futures k \<and> tcbs k' = tcbs k \<and> cur k' = cur k"

text \<open>The first free slot of a table.\<close>

definition first_free :: "ref list \<Rightarrow> nat \<Rightarrow> bool" where
  "first_free xs i \<longleftrightarrow> i < 10 \<and> xs ! i = 0 \<and> (\<forall>j < i. xs ! j \<noteq> 0)"

lemma scan_slot_free:
  assumes "first_free xs i" "j \<le> i"
  shows "scan_slot xs j = i"
  using assms(2)
proof (induction "i - j" arbitrary: j)
  case 0
  then show ?case using assms(1) by (subst scan_slot.simps) (simp add: first_free_def)
next
  case (Suc n)
  then have "j < i" "xs ! j \<noteq> 0" "j < 9" using assms(1) by (auto simp: first_free_def)
  then show ?case using Suc(1) [of "j + 1"] Suc(2) by (subst scan_slot.simps) simp
qed

lemma scan_slot_full:
  assumes "0 \<notin> set xs" "length xs = 10" "j \<le> 9"
  shows "xs ! scan_slot xs j \<noteq> 0"
proof -
  have "xs ! scan_slot xs j \<in> set xs" using scan_slot_bound [OF assms(3), of xs] assms(2) by (intro nth_mem) simp
  then show ?thesis using assms(1) by metis
qed

lemma set_process_table:
  "cur_process (set_process p k) = p" "table (set_process p k) = fd p @ cp p @ sp p"
proof -
  have c: "cur_thread (set_process p k) = cur_thread k" by (simp add: cur_thread_def tcb_at_def set_process_def)
  show d: "cur_process (set_process p k) = p"
    unfolding cur_process_def c by (simp add: pcb_at_def set_process_def)
  then show "table (set_process p k) = fd p @ cp p @ sp p" by (simp add: table_def)
qed

lemma set_process_only:
  assumes "tcbs k1 = tcbs k" "cur k1 = cur k" "pcbs k1 = pcbs k" "futures k1 = futures k"
    and "future p = future (cur_process k)"
  shows "only_tables k (set_process p k1)"
proof -
  have "cur_thread k1 = cur_thread k" using assms(1,2) by (simp add: cur_thread_def tcb_at_def)
  then show ?thesis unfolding only_tables_def set_process_table using assms by (simp add: set_process_def)
qed

text \<open>The slot of \<^verbatim>\<open>close\<close>'s argument among the thirty.\<close>

definition close_slot :: "nat \<Rightarrow> nat" where
  "close_slot n = (if n < 10 then n else if n < 20 then n + 10 else n - 10)"

lemma close_effect:
  assumes K: "kernel_ok k" and n: "unat n < 30"
  shows "\<exists>k'. close_sys n k = Inr (Ret 0, k') \<and> table k' = (table k)[close_slot (unat n) := 0] \<and> only_tables k k' \<and>
    descs k' = descs k \<and> sems k' = sems k"
proof -
  note L = pcb_okD(6-8) [OF kernel_okD(4) [OF K]]
  have nn: "\<not> 30 < n" "n < 10 \<longleftrightarrow> unat n < 10" "n < 20 \<longleftrightarrow> unat n < 20"
    using n by (simp_all add: word_less_nat_alt)
  have u: "10 \<le> unat n \<Longrightarrow> unat (n - 10) = unat n - 10" "20 \<le> unat n \<Longrightarrow> unat (n - 20) = unat n - 20"
    by (simp_all add: unat_sub word_le_nat_alt)
  have s: "descs (set_process p k) = descs k" "sems (set_process p k) = sems k" for p by (simp_all add: set_process_def)
  consider "unat n < 10" | "10 \<le> unat n" "unat n < 20" | "20 \<le> unat n" by linarith
  then show ?thesis
  proof cases
    case 1
    then show ?thesis using nn L
      by (simp add: close_sys_def Let_def ret_def set_process_table set_process_only s close_slot_def) (simp add: table_def list_update_append)
  next
    case 2
    then show ?thesis using nn L u
      by (simp add: close_sys_def Let_def ret_def set_process_table set_process_only s close_slot_def) (simp add: table_def list_update_append)
  next
    case 3
    then have "unat n - 20 < 10" "\<not> unat n - 10 < 10" "unat n - 10 - 10 = unat n - 20" using n by linarith+
    then show ?thesis using 3 nn L u
      by (simp add: close_sys_def Let_def ret_def set_process_table set_process_only s close_slot_def)
        (simp add: table_def list_update_append)
  qed
qed

lemma sem_effect:
  assumes K: "kernel_ok k" and i: "first_free (sp (cur_process k)) i"
  shows "\<exists>r k'. sem_sys m k = Inr (Ret (of_nat i + 10), k') \<and> r \<notin> {0} \<union> dom (sems k) \<and>
    table k' = (table k)[20 + i := r] \<and> only_tables k k' \<and> descs k' = descs k \<and> sems k' = (sems k)(r \<mapsto> new_semaphore m)"
proof -
  note L = pcb_okD(6-8) [OF kernel_okD(4) [OF K]]
  let ?p = "cur_process k" and ?r = "next_ref k"
  let ?k1 = "k\<lparr>next_ref := ?r + 1, sems := (sems k)(?r \<mapsto> new_semaphore m)\<rparr>"
  let ?k' = "set_process (?p\<lparr>sp := (sp ?p)[i := ?r]\<rparr>) ?k1"
  have "sem_sys m k = Inr (Ret (of_nat i + 10), ?k')"
    using i scan_slot_free [OF i, of 0] by (simp add: sem_sys_def Let_def alloc_ref_def ret_def first_free_def)
  moreover have "table ?k' = (table k)[20 + i := ?r]"
    using L by (simp add: set_process_table) (simp add: table_def list_update_append)
  moreover have "only_tables k ?k'" by (rule set_process_only) simp_all
  moreover have "?r \<notin> {0} \<union> dom (sems k)" using kernel_okD(6,7) [OF K] by auto
  moreover have "descs ?k' = descs k" "sems ?k' = (sems k)(?r \<mapsto> new_semaphore m)" by (simp_all add: set_process_def)
  ultimately show ?thesis by blast
qed

lemma open_effect:
  assumes K: "kernel_ok k" and i: "first_free (fd (cur_process k)) i"
    and p: "load_string ld8 fn k = Inr (path, k1)" "fs_find e (current (fs k1)) path k1 = Inr (n, k2)"
  shows "case n of None \<Rightarrow> open_sys e fn k = Inr (Ret (- 1), k2) \<and> table k2 = table k \<and> only_tables k k2
    | Some nd \<Rightarrow> (\<exists>r k'. open_sys e fn k = Inr (Ret (of_nat i), k') \<and> r \<notin> {0} \<union> dom (descs k) \<and>
       table k' = (table k)[i := r] \<and> only_tables k k' \<and> sems k' = sems k \<and>
       descs k' = (descs k)(r \<mapsto> \<lparr>fd_node = Some nd, offset = 0, valid = False\<rparr>))"
proof -
  note L = pcb_okD(6-8) [OF kernel_okD(4) [OF K]]
  have o: "same_objects k k2" by (rule same_objects_trans [OF load_string_objects [OF p(1)] fs_find_objects [OF p(2)]])
  have c: "cur_process k2 = cur_process k" "cur_thread k2 = cur_thread k" using same_objects_process [OF o] by simp_all
  show ?thesis
  proof (cases n)
    case None
    have "only_tables k k2" using o c by (simp add: only_tables_def same_objects_def)
    then show ?thesis using None i scan_slot_free [OF i, of 0] p c
      by (simp add: open_sys_def Let_def ret_def first_free_def table_def)
  next
    case (Some nd)
    let ?p = "cur_process k" and ?r = "next_ref k" and ?d = "\<lparr>fd_node = Some nd, offset = 0, valid = False\<rparr>"
    let ?k3 = "k2\<lparr>next_ref := next_ref k2 + 1, descs := (descs k2)(next_ref k2 \<mapsto> ?d)\<rparr>"
    let ?k' = "set_process (?p\<lparr>fd := (fd ?p)[i := next_ref k2]\<rparr>) ?k3"
    have "open_sys e fn k = Inr (Ret (of_nat i), ?k')"
      using i scan_slot_free [OF i, of 0] p Some
      by (simp add: open_sys_def Let_def alloc_ref_def ret_def first_free_def new_FileDescriptor_def)
    moreover have "table ?k' = (table k)[i := next_ref k2]"
      using L i by (simp add: set_process_table first_free_def) (simp add: table_def list_update_append)
    moreover have "only_tables k ?k'" by (rule set_process_only) (use o in \<open>simp_all add: same_objects_def\<close>)
    moreover have "next_ref k2 \<notin> {0} \<union> dom (descs k)" using kernel_okD(6,7) [OF K] o by (auto simp: same_objects_def)
    moreover have "sems ?k' = sems k" "descs ?k' = (descs k)(next_ref k2 \<mapsto> ?d)"
      using o by (simp_all add: set_process_def same_objects_def)
    ultimately show ?thesis using Some by auto
  qed
qed

text \<open>C15: the tables of a process, from its calls \<^verbatim>\<open>open\<close>, \<^verbatim>\<open>sem\<close> and \<^verbatim>\<open>close\<close>.  \<^verbatim>\<open>close(n)\<close> empties exactly
  the slot of n among the thirty, descriptors from 0, semaphores from 10 and children from 20 on, and leaves
  every other slot, the other processes and all objects (an object to which no pointer is left is deleted in a
  step of its own); for a larger number but 30 it returns -1 and changes nothing.  \<^verbatim>\<open>open\<close> of a path that the file system finds and \<^verbatim>\<open>sem\<close> put a new
  object into the first free slot of their table and return its number; the new descriptor stands at offset 0 of
  the node found, the new semaphore has the count asked for and nobody waits in it.  If all ten slots are taken
  they return -1 and change nothing, as does \<^verbatim>\<open>open\<close> of a path that is not found.  So a slot that was closed is
  the next one to be given out when all before it are taken.\<close>

theorem tables_spec:
  assumes "kernel_ok k"
  shows "(unat n < 30 \<longrightarrow> (\<exists>k'. close_sys n k = Inr (Ret 0, k') \<and> table k' = (table k)[close_slot (unat n) := 0] \<and>
      only_tables k k' \<and> descs k' = descs k \<and> sems k' = sems k)) \<and>
    (30 < n \<longrightarrow> close_sys n k = Inr (Ret (- 1), k)) \<and>
    (first_free (sp (cur_process k)) i \<longrightarrow> (\<exists>r k'. sem_sys m k = Inr (Ret (of_nat i + 10), k') \<and> r \<notin> {0} \<union> dom (sems k) \<and>
      table k' = (table k)[20 + i := r] \<and> only_tables k k' \<and> descs k' = descs k \<and>
      sems k' = (sems k)(r \<mapsto> new_semaphore m))) \<and>
    (0 \<notin> set (sp (cur_process k)) \<longrightarrow> sem_sys m k = Inr (Ret (- 1), k)) \<and>
    (first_free (fd (cur_process k)) i \<and> load_string ld8 fn k = Inr (path, k1) \<and>
     fs_find e (current (fs k1)) path k1 = Inr (Some nd, k2) \<longrightarrow>
      (\<exists>r k'. open_sys e fn k = Inr (Ret (of_nat i), k') \<and> r \<notin> {0} \<union> dom (descs k) \<and>
       table k' = (table k)[i := r] \<and> only_tables k k' \<and> sems k' = sems k \<and>
       descs k' = (descs k)(r \<mapsto> \<lparr>fd_node = Some nd, offset = 0, valid = False\<rparr>))) \<and>
    (first_free (fd (cur_process k)) i \<and> load_string ld8 fn k = Inr (path, k1) \<and>
     fs_find e (current (fs k1)) path k1 = Inr (None, k2) \<longrightarrow>
      open_sys e fn k = Inr (Ret (- 1), k2) \<and> table k2 = table k \<and> only_tables k k2) \<and>
    (0 \<notin> set (fd (cur_process k)) \<longrightarrow> open_sys e fn k = Inr (Ret (- 1), k))"
proof -
  note L = pcb_okD(6-8) [OF kernel_okD(4) [OF assms]]
  have "0 \<notin> set (sp (cur_process k)) \<longrightarrow> sem_sys m k = Inr (Ret (- 1), k)"
    "0 \<notin> set (fd (cur_process k)) \<longrightarrow> open_sys e fn k = Inr (Ret (- 1), k)"
    using scan_slot_full [of "sp (cur_process k)" 0] scan_slot_full [of "fd (cur_process k)" 0] L
    by (simp_all add: sem_sys_def open_sys_def Let_def ret_def)
  moreover have "30 < n \<longrightarrow> close_sys n k = Inr (Ret (- 1), k)" by (simp add: close_sys_def ret_def)
  moreover have "first_free (fd (cur_process k)) i \<and> load_string ld8 fn k = Inr (path, k1) \<and>
     fs_find e (current (fs k1)) path k1 = Inr (Some nd, k2) \<longrightarrow>
      (\<exists>r k'. open_sys e fn k = Inr (Ret (of_nat i), k') \<and> r \<notin> {0} \<union> dom (descs k) \<and>
       table k' = (table k)[i := r] \<and> only_tables k k' \<and> sems k' = sems k \<and>
       descs k' = (descs k)(r \<mapsto> \<lparr>fd_node = Some nd, offset = 0, valid = False\<rparr>))"
    using open_effect [OF assms, of i fn path k1 e "Some nd" k2] by auto
  moreover have "first_free (fd (cur_process k)) i \<and> load_string ld8 fn k = Inr (path, k1) \<and>
     fs_find e (current (fs k1)) path k1 = Inr (None, k2) \<longrightarrow>
      open_sys e fn k = Inr (Ret (- 1), k2) \<and> table k2 = table k \<and> only_tables k k2"
    using open_effect [OF assms, of i fn path k1 e None k2] by auto
  ultimately show ?thesis
    using close_effect [OF assms, of n] sem_effect [OF assms, of i m] by (intro conjI) blast+
qed

section \<open>Reading files\<close>

text \<open>The descriptor in a slot of the calling process.\<close>

definition slot :: "'s kernel \<Rightarrow> nat \<Rightarrow> ref" where
  "slot k i = fd (cur_process k) ! i"

text \<open>What a read leaves alone: all objects but the offset of one descriptor.\<close>

definition only_offset :: "ref \<Rightarrow> u32 \<Rightarrow> 's kernel \<Rightarrow> 's kernel \<Rightarrow> bool" where
  "only_offset r off k k' \<longleftrightarrow>
     pcbs k' = pcbs k \<and> sems k' = sems k \<and> futures k' = futures k \<and> tcbs k' = tcbs k \<and> cur k' = cur k \<and>
     ths k' = ths k \<and> fs k' = fs k \<and> out k' = out k \<and>
     descs k' = (descs k)(r \<mapsto> (desc_at k r)\<lparr>offset := off\<rparr>)"

lemma read_to_ok:
  assumes S: "space_inv cfg start (tpd (cur_thread k)) (pm k)" and d: "disk_is (dev e) W C c D (disk k)"
    and nd: "node_fits c D nd" "unat off \<le> unat (size_low (data nd))"
    and m: "m = min (unat n) (unat (size_low (data nd)) - unat off)" and b: "span buf m \<subseteq> user_area cfg"
  shows "succeeds out_of_frames (read_to e nd off n buf k) (\<lambda>(cnt, k'). cnt = int m \<and>
    (\<exists>p d'. k' = k\<lparr>disk := d', pm := p\<rparr> \<and> space_inv cfg start (tpd (cur_thread k)) p \<and> disk_is (dev e) W C c D d' \<and>
      (\<forall>x\<in>user_area cfg. ubyte (tpd (cur_thread k)) p x =
        (if x \<in> span buf m then node_byte c nd (unat off + unat (x - buf)) else user_byte k x))))"
proof -
  obtain d' where R: "read_all (node_dev (dev e) nd) off n (disk k) = Inr (int m, bytes_at (node_byte c nd) (unat off) m, d')"
    "disk_is (dev e) W C c D d'"
    by (rule node_read_all [OF d nd, of n]) (use m in blast)
  have l: "length (bytes_at (node_byte c nd) (unat off) m) < 2 ^ 32"
    using m unsigned_less [where ?'a = nat, of n] by simp
  have b': "span buf (length (bytes_at (node_byte c nd) (unat off) m)) \<subseteq> user_area cfg" using b by simp
  from um.store_range_ok [OF S l b'] show ?thesis
    unfolding read_to_def R(1) upd_mem_def
    by (cases "store_range (store8 (tpd (cur_thread k))) buf (bytes_at (node_byte c nd) (unat off) m) (pm k)")
      (use R(2) in \<open>auto simp: cur_thread_def tcb_at_def user_byte_def span_def intro!: exI [of _ d']\<close>)
qed

lemma read_file_spec:
  assumes K: "kernel_ok k" and S: "space_inv cfg start (tpd (cur_thread k)) (pm k)"
    and d: "disk_is (dev e) W C c D (disk k)"
    and i: "3 \<le> i" "i \<le> 9" "slot k (nat i) \<noteq> 0" and p: "\<not> bad_ptr (kConfig e) buf"
    and nd: "fd_node (desc_at k (slot k (nat i))) = Some nd" "node_fits c D nd"
    and off: "off = offset (desc_at k (slot k (nat i)))" "unat off \<le> unat (size_low (data nd))"
    and m: "m = min (unat n) (unat (size_low (data nd)) - unat off)" and b: "span buf m \<subseteq> user_area cfg"
  shows "succeeds out_of_frames (read_sys e i buf n k) (\<lambda>(x, k'). x = Ret (of_nat m) \<and>
    only_offset (slot k (nat i)) (off + of_nat m) k k' \<and>
    space_inv cfg start (tpd (cur_thread k')) (pm k') \<and> disk_is (dev e) W C c D (disk k') \<and>
    (\<forall>x\<in>user_area cfg. user_byte k' x =
      (if x \<in> span buf m then node_byte c nd (unat off + unat (x - buf)) else user_byte k x)))"
proof -
  let ?r = "slot k (nat i)" and ?sz = "size_low (data nd)"
  let ?n = "if ?sz < off + n then ?sz - off else n"
  have sub: "unat (?sz - off) = unat ?sz - unat off" using off(2) by (simp add: unat_sub word_le_nat_alt)
  have "m = min (unat ?n) (unat ?sz - unat off)"
  proof (cases "?sz < off + n")
    case True
    have "unat ?sz - unat off \<le> unat n"
    proof (cases "unat off + unat n < 2 ^ 32")
      case True
      then show ?thesis using \<open>?sz < off + n\<close> unat_plus_small [OF True] by (simp add: word_less_nat_alt)
    next
      case False
      then show ?thesis using unsigned_less [where ?'a = nat, of ?sz] by simp
    qed
    then show ?thesis using True sub m by simp
  qed (use m in simp)
  note R = read_to_ok [OF S d nd(2) off(2) this b]
  have run: "read_sys e i buf n k = read_file e ?r buf n k"
    using i p by (auto simp: read_sys_def Let_def slot_def)
  have rd: "read_file e ?r buf n k = rbind (read_to e nd off ?n buf k) (\<lambda>(cnt, k1).
      ret (word_of_int cnt) (k1\<lparr>descs := (descs k1)(?r \<mapsto> (desc_at k1 ?r)\<lparr>offset := off + word_of_int cnt\<rparr>)\<rparr>))"
    by (simp add: read_file_def with_node_def nd(1) Let_def off(1) node_size_in_bytes_def)
  show ?thesis unfolding run rd
    by (rule succeeds_rbind [OF R])
      (auto simp: ret_def only_offset_def desc_at_def cur_thread_def tcb_at_def user_byte_def)
qed

section \<open>Exit codes\<close>

lemma stop_fields [simp]:
  "pcbs (stop k) = pcbs k" "tcbs (stop k) = tcbs k" "futures (stop k) = futures k" "pm (stop k) = pm k"
  by (simp_all add: stop_def split: prod.splits)

lemma exit_effect:
  assumes K: "kernel_ok k" and n: "\<not> isReady (fut_at k (future (cur_process k)))"
  obtains k1 where "exit_sys rc k = Inr (Stopped, k1)" "pcbs k1 = pcbs k" "tcbs k1 = tcbs k" "pm k1 = pm k"
    "fut_t (fut_at k1 (future (cur_process k))) = rc" "isReady (fut_at k1 (future (cur_process k)))"
proof -
  let ?f = "future (cur_process k)"
  have f: "?f \<noteq> 0" using pcb_okD(4) [OF kernel_okD(4) [OF K]] kernel_okD(9) [OF K, of ?f] by auto
  obtain th g where g: "sem_up (ths k, go (fut_at k ?f)) = (th, g)" by fastforce
  let ?g = "(fut_at k ?f)\<lparr>fut_t := rc, isReady := True, go := g\<rparr>"
  let ?k = "k\<lparr>ths := th, futures := (futures k)(?f \<mapsto> ?g)\<rparr>"
  have "exit_sys rc k = Inr (Stopped, stop ?k)" using f n g by (simp add: exit_sys_def Let_def fut_set_def)
  then show thesis by (rule that) (simp_all add: fut_at_def)
qed

lemma wait_finish_effect:
  assumes K: "kernel_ok k" and S: "space_inv cfg start (tpd (cur_thread k)) (pm k)" and i: "i < 10"
    and b: "span status 4 \<subseteq> user_area cfg"
  shows "succeeds out_of_frames (wait_finish (of_nat i + 20) status v k) (\<lambda>(x, k'). x = Ret 0 \<and>
    cp (cur_process k') = (cp (cur_process k))[i := 0] \<and>
    (\<forall>x\<in>user_area cfg. user_byte k' x =
      (if x \<in> span status 4 then bytes_of_word v ! unat (x - status) else user_byte k x)))"
proof -
  have u: "unat (of_nat i :: u32) = i" using i(1) by (simp add: unsigned_of_nat take_bit_nat_eq_self)
  have M: "mem_of cfg start k k" by (rule mem_of_refl [OF S])
  show ?thesis unfolding wait_finish_def
    by (rule succeeds_rbind [OF km.store_word_ok [OF M b]])
      (use u in \<open>auto simp: mem_of_def ret_def Let_def set_process_def cur_process_def cur_thread_def
        tcb_at_def pcb_at_def user_byte_def\<close>)
qed

lemma wait_ready:
  assumes K: "kernel_ok k" and i: "i < 10" "cp (cur_process k) ! i \<noteq> 0"
    and r: "isReady (fut_at k (future (pcb_at k (cp (cur_process k) ! i))))" (is "isReady (fut_at k ?f)")
  shows "wait_sys e (of_nat i + 20) status k =
    wait_finish (of_nat i + 20) status (fut_t (fut_at k ?f)) (k\<lparr>futures := (futures k)(?f \<mapsto> fut_at k ?f)\<rparr>)"
proof -
  have u: "unat (of_nat i :: u32) = i" using i(1) by (simp add: unsigned_of_nat take_bit_nat_eq_self)
  have f: "?f \<noteq> 0"
    using pcb_okD(4) [OF kernel_okD(5) [OF K slot_dom(3) [OF K i]]] kernel_okD(9) [OF K, of ?f] by auto
  have "k\<lparr>ths := ths k, futures := x\<rparr> = k\<lparr>futures := x\<rparr>" for x by simp
  then show ?thesis using i u f r by (simp add: wait_sys_def Let_def fut_get_start_def)
qed

lemma wait_blocks:
  assumes K: "kernel_ok k" and i: "i < 10" "cp (cur_process k) ! i \<noteq> 0" and nI: "\<not> isIdle (ths k) (cur k)"
    and f: "f = future (pcb_at k (cp (cur_process k) ! i))" and r: "\<not> isReady (fut_at k f)"
    and c: "count (go (fut_at k f)) = 0"
  obtains th g where "wait_sys e (of_nat i + 20) status k = Inr (Sleep (AfterGet f (of_nat i + 20) status),
      k\<lparr>ths := th, futures := (futures k)(f \<mapsto> g)\<rparr>)" "isReady g = False"
proof -
  have u: "unat (of_nat i :: u32) = i" using i(1) by (simp add: unsigned_of_nat take_bit_nat_eq_self)
  have f0: "f \<noteq> 0"
    using pcb_okD(4) [OF kernel_okD(5) [OF K slot_dom(3) [OF K i]]] kernel_okD(9) [OF K, of f] f by auto
  obtain l q where "q_add (cur k) (tlinks (ths k), waiting (go (fut_at k f))) = (l, q)" by fastforce
  then have "fut_get_start (cur k) (ths k, fut_at k f) =
      Inr (None, (ths k)\<lparr>tlinks := l\<rparr>, (fut_at k f)\<lparr>go := (go (fut_at k f))\<lparr>waiting := q\<rparr>\<rparr>)"
    using r c nI by (simp add: fut_get_start_def sem_down_def)
  then show thesis using i u f f0 r
    by (intro that [of "(fut_at k f)\<lparr>go := (go (fut_at k f))\<lparr>waiting := q\<rparr>\<rparr>" "(ths k)\<lparr>tlinks := l\<rparr>"])
      (simp_all add: wait_sys_def Let_def)
qed

lemma stored_word:
  assumes "\<forall>x\<in>A. g x = (if x \<in> span a 4 then bytes_of_word v ! unat (x - a) else h x)" "span a 4 \<subseteq> A"
  shows "word_of_bytes (map (\<lambda>j. g (a + of_nat j)) [0..<4]) = v"
proof -
  have "map (\<lambda>j. g (a + of_nat j)) [0..<4] = bytes_of_word v"
  proof (rule nth_equalityI)
    fix j assume "j < length (map (\<lambda>j. g (a + of_nat j)) [0..<4])"
    then have j: "j < 4" by simp
    then have "unat (of_nat j :: u32) = j" by (simp add: unsigned_of_nat take_bit_nat_eq_self)
    then have "a + of_nat j \<in> span a 4" "unat (a + of_nat j - a) = j" using j by (simp_all add: span_def)
    then have "g (a + of_nat j) = bytes_of_word v ! j" using assms by (metis subsetD)
    then show "map (\<lambda>j. g (a + of_nat j)) [0..<4] ! j = bytes_of_word v ! j" using j by simp
  qed simp
  then show ?thesis by simp
qed

lemma on_core_simps [simp]:
  "cur_thread (on_core t k) = tcb_at k t" "cur (on_core t k) = t" "pm (on_core t k) = pm k"
  "pcbs (on_core t k) = pcbs k" "tcbs (on_core t k) = tcbs k" "futures (on_core t k) = futures k" "ths (on_core t k) = ths k"
  "fut_at (on_core t k) f = fut_at k f" "pcb_at (on_core t k) r = pcb_at k r"
  "cur_process (on_core t k) = pcb_at k (process (tcb_at k t))"
  by (simp_all add: on_core_def cur_thread_def tcb_at_def pcb_at_def cur_process_def fut_at_def)

lemma futures_only_ok:
  assumes "kernel_ok k" "r \<in> dom (futures k)"
  shows "kernel_ok (k\<lparr>futures := (futures k)(r \<mapsto> s)\<rparr>)"
proof -
  have "k\<lparr>ths := ths k, futures := (futures k)(r \<mapsto> s)\<rparr> = k\<lparr>futures := (futures k)(r \<mapsto> s)\<rparr>" by simp
  then show ?thesis using futures_update_ok [OF assms, where th = "ths k" and s = s] by simp
qed

text \<open>The result of a wait by thread \<open>t\<close> on child \<open>i\<close>.\<close>

definition waited :: "config \<Rightarrow> nat \<Rightarrow> u32 \<Rightarrow> u32 \<Rightarrow> (outcome \<times> 's kernel) \<Rightarrow> bool" where
  "waited cfg i status rc = (\<lambda>(x, k). x = Ret 0 \<and> cp (cur_process k) ! i = 0 \<and>
     word_of_bytes (map (\<lambda>j. user_byte k (status + of_nat j)) [0..<4]) = rc)"

lemma wait_finish_waited:
  assumes K: "kernel_ok k" and S: "space_inv cfg start (tpd (cur_thread k)) (pm k)" and i: "i < 10"
    and b: "span status 4 \<subseteq> user_area cfg"
  shows "succeeds out_of_frames (wait_finish (of_nat i + 20) status v k) (waited cfg i status v)"
  by (rule succeeds_mono [OF wait_finish_effect [OF K S i b]])
    (use stored_word [OF _ b] pcb_okD(7) [OF kernel_okD(4) [OF K]] i in \<open>auto simp: waited_def\<close>)

lemma exit_then_wait:
  assumes K: "kernel_ok k" and n: "\<not> isReady (fut_at k (future (cur_process k)))"
    and t: "t \<in> dom (tcbs k)" and i: "i < 10" "cp (pcb_at k (process (tcb_at k t))) ! i = process (cur_thread k)"
    and S: "space_inv cfg start (tpd (tcb_at k t)) (pm k)" and b: "span status 4 \<subseteq> user_area cfg"
  shows "\<exists>k1. exit_sys rc k = Inr (Stopped, k1) \<and>
    succeeds out_of_frames (wait_sys e (of_nat i + 20) status (on_core t k1)) (waited cfg i status rc)"
proof -
  obtain k1 where X: "exit_sys rc k = Inr (Stopped, k1)" "pcbs k1 = pcbs k" "tcbs k1 = tcbs k" "pm k1 = pm k"
    "fut_t (fut_at k1 (future (cur_process k))) = rc" "isReady (fut_at k1 (future (cur_process k)))"
    by (rule exit_effect [OF K n])
  let ?k = "on_core t k1" and ?f = "future (cur_process k)"
  have K1: "kernel_ok k1" by (rule exit_ok [OF K X(1)])
  have K2: "kernel_ok ?k" by (rule on_core_ok [OF K1]) (use t X(3) in simp)
  have c: "cp (cur_process ?k) ! i = process (cur_thread k)" using i(2) X(2,3) by (simp add: pcb_at_def tcb_at_def)
  have nz: "process (cur_thread k) \<noteq> 0" using kernel_okD(3) [OF K] kernel_okD(9) [OF K, of "process (cur_thread k)"] by auto
  have f: "future (pcb_at ?k (cp (cur_process ?k) ! i)) = ?f"
    unfolding c using X(2) by (simp add: pcb_at_def cur_process_def)
  have F: "?f \<in> dom (futures ?k)"
    using pcb_okD(4) [OF kernel_okD(5) [OF K2 slot_dom(3) [OF K2 i(1)]]] c nz f by simp
  have K3: "kernel_ok (?k\<lparr>futures := (futures ?k)(?f \<mapsto> fut_at ?k ?f)\<rparr>)" by (rule futures_only_ok [OF K2 F])
  have W: "wait_sys e (of_nat i + 20) status ?k =
    wait_finish (of_nat i + 20) status rc (?k\<lparr>futures := (futures ?k)(?f \<mapsto> fut_at ?k ?f)\<rparr>)"
    using wait_ready [OF K2 i(1)] c nz f X(5,6) by simp
  have "tpd (cur_thread (?k\<lparr>futures := (futures ?k)(?f \<mapsto> fut_at ?k ?f)\<rparr>)) = tpd (tcb_at k t)"
    using X(3) by (simp add: cur_thread_def tcb_at_def on_core_def)
  then have "succeeds out_of_frames (wait_sys e (of_nat i + 20) status ?k) (waited cfg i status rc)"
    unfolding W by (intro wait_finish_waited [OF K3 _ i(1) b]) (use S X(4) in simp)
  then show ?thesis using X(1) by blast
qed

lemma wait_then_exit:
  assumes K: "kernel_ok k" and nI: "\<not> isIdle (ths k) (cur k)" and i: "i < 10" and t: "t \<in> dom (tcbs k)"
    and c: "cp (cur_process k) ! i = process (tcb_at k t)" "process (tcb_at k t) \<noteq> process (cur_thread k)"
    and f: "f = future (pcb_at k (process (tcb_at k t)))" and n: "\<not> isReady (fut_at k f)"
    and z: "count (go (fut_at k f)) = 0"
    and S: "space_inv cfg start (tpd (cur_thread k)) (pm k)" and b: "span status 4 \<subseteq> user_area cfg"
  shows "\<exists>k1 k2 r. wait_sys e (of_nat i + 20) status k = Inr (Sleep r, k1) \<and>
    exit_sys rc (on_core t k1) = Inr (Stopped, k2) \<and>
    succeeds out_of_frames (resume r (on_core (cur k) k2)) (waited cfg i status rc)"
proof -
  have p: "process (tcb_at k t) \<in> dom (pcbs k)" using K t by (auto simp: kernel_ok_def ran_def tcb_at_def)
  then have nz: "process (tcb_at k t) \<noteq> 0" using kernel_okD(9) [OF K, of "process (tcb_at k t)"] by auto
  obtain th g where W: "wait_sys e (of_nat i + 20) status k = Inr (Sleep (AfterGet f (of_nat i + 20) status),
      k\<lparr>ths := th, futures := (futures k)(f \<mapsto> g)\<rparr>)" (is "_ = Inr (_, ?k1)") "isReady g = False"
    by (rule wait_blocks [OF K i _ nI, where f = f and status = status]) (use nz c(1) f n z in auto)
  have F: "f \<in> dom (futures k)" unfolding f by (rule pcb_okD(4) [OF kernel_okD(5) [OF K p]])
  have K1: "kernel_ok (on_core t ?k1)" by (rule on_core_ok [OF futures_update_ok [OF K F]]) (use t in simp)
  have cp1: "future (cur_process (on_core t ?k1)) = f" by (simp add: f pcb_at_def tcb_at_def)
  have nr: "\<not> isReady (fut_at (on_core t ?k1) (future (cur_process (on_core t ?k1))))"
    using W(2) unfolding cp1 by (simp add: fut_at_def)
  obtain k2 where X: "exit_sys rc (on_core t ?k1) = Inr (Stopped, k2)" "pcbs k2 = pcbs k" "tcbs k2 = tcbs k" "pm k2 = pm k"
    "fut_t (fut_at k2 f) = rc"
    by (rule exit_effect [OF K1 nr, of rc]) (unfold cp1, simp)
  let ?k = "on_core (cur k) k2"
  have K2: "kernel_ok ?k" by (rule on_core_ok [OF exit_ok [OF K1 X(1)]]) (use kernel_okD(2) [OF K] X(3) in simp)
  have F2: "f \<in> dom (futures ?k)"
  proof -
    have "pcb_at ?k (process (tcb_at k t)) = pcb_at k (process (tcb_at k t))" using X(2) by (simp add: pcb_at_def)
    then show ?thesis using pcb_okD(4) [OF kernel_okD(5) [OF K2, of "process (tcb_at k t)"]] p X(2) f by simp
  qed
  obtain th3 s3 where s: "sem_up (ths ?k, go (fut_at ?k f)) = (th3, s3)" by fastforce
  let ?g = "(fut_at ?k f)\<lparr>go := s3\<rparr>"
  have R: "fut_get_resume (ths ?k, fut_at ?k f) = (rc, th3, ?g)"
    using X(5) s by (simp add: fut_get_resume_def)
  have K3: "kernel_ok (?k\<lparr>ths := th3, futures := (futures ?k)(f \<mapsto> ?g)\<rparr>)" by (rule futures_update_ok [OF K2 F2])
  have "tpd (cur_thread (?k\<lparr>ths := th3, futures := (futures ?k)(f \<mapsto> ?g)\<rparr>)) = tpd (cur_thread k)"
    using X(3) by (simp add: cur_thread_def tcb_at_def on_core_def)
  then have "succeeds out_of_frames (resume (AfterGet f (of_nat i + 20) status) ?k) (waited cfg i status rc)"
    unfolding resume_def rest.case R prod.case
    by (intro wait_finish_waited [OF K3 _ i b]) (use S X(4) in simp)
  then show ?thesis using W(1) X(1) by blast
qed

section \<open>A kernel with two processes\<close>

text \<open>A parent (thread \<open>0x100\<close>, process 1) with the file of the small disk in slot 3, at offset 1, and a child (thread
  \<open>0x200\<close>, process 7) in its first child slot.\<close>

definition two_fd :: "ref list" where
  "two_fd = [2, 3, 4, 6] @ replicate 6 0"

definition two_pcbs :: "ref \<rightharpoonup> pcb" where
  "two_pcbs = [1 \<mapsto> \<lparr>future = 5, fd = two_fd, cp = 7 # replicate 9 0,
      sp = replicate 10 0\<rparr>,
    7 \<mapsto> \<lparr>future = 8, fd = two_fd, cp = replicate 10 0, sp = replicate 10 0\<rparr>]"

definition two_descs :: "ref \<rightharpoonup> filedesc" where
  "two_descs = (let std = \<lparr>fd_node = None, offset = 0, valid = True\<rparr>
     in [2 \<mapsto> std, 3 \<mapsto> std, 4 \<mapsto> std, 6 \<mapsto> \<lparr>fd_node = Some small_file, offset = 1, valid = False\<rparr>])"

definition idle_threads :: threads where
  "idle_threads = \<lparr>tlinks = (\<lambda>_. 0), readyQ = empty_queue, zombies = empty_queue, isIdle = (\<lambda>_. False)\<rparr>"

definition demo_fs :: ext2 where
  "demo_fs = geometry.extend (disk_geometry small_disk)
     \<lparr>root = small_root, current = Some small_root, cwd = 47 # replicate 99 0\<rparr>"

definition two_processes :: "u32 \<Rightarrow> phys \<Rightarrow> unit kernel" where
  "two_processes pd p =
     \<lparr>pcbs = two_pcbs, descs = two_descs, sems = Map.empty, futures = [5 \<mapsto> new_future 0, 8 \<mapsto> new_future 0],
      tcbs = [0x100 \<mapsto> \<lparr>process = 1, tpd = pd, user_start = (0, 0)\<rparr>, 0x200 \<mapsto> \<lparr>process = 7, tpd = pd, user_start = (0, 0)\<rparr>],
      next_ref = 9, ths = idle_threads, cur = 0x100, pm = p, fs = demo_fs, disk = (),
      kb = \<lparr>kbuf = replicate 50 0, bufSize = 0, kdone = False\<rparr>, out = []\<rparr>"

definition demo_machine :: "unit machine" where
  "demo_machine = \<lparr>dev = img_dev small_disk 6144, kConfig = config_zero, shared = 0x1000, addr_of = of_nat,
     idle_thread = 0x300, kbuf_addr = 0, stray_null = \<lambda>k i. True\<rparr>"

lemma two_processes_fields:
  "pcbs (two_processes pd p) = two_pcbs" "descs (two_processes pd p) = two_descs" "sems (two_processes pd p) = Map.empty"
  "futures (two_processes pd p) = [5 \<mapsto> new_future 0, 8 \<mapsto> new_future 0]" "next_ref (two_processes pd p) = 9"
  by (simp_all add: two_processes_def)

lemma two_doms: "dom two_pcbs = {1, 7}" "dom two_descs = {2, 3, 4, 6}"
  by (auto simp: two_pcbs_def two_descs_def Let_def)

lemma two_processes_ok: "kernel_ok (two_processes pd p)"
proof -
  let ?k = "two_processes pd p"
  have fd: "set two_fd = {0, 2, 3, 4, 6}" "length two_fd = 10" by (auto simp: two_fd_def)
  have nth: "two_fd ! i = 0 \<or> two_fd ! i = 6" if "3 \<le> i" "i < 10" for i
    using that by (simp add: two_fd_def nth_append nth_Cons')
  have "\<not> valid (desc_at ?k 6)" by (simp add: two_processes_def two_descs_def desc_at_def Let_def)
  then have v: "\<not> valid (desc_at ?k (two_fd ! i))" if "3 \<le> i" "i < 10" "two_fd ! i \<noteq> 0" for i
    using nth [OF that(1,2)] that(3) by metis
  have r: "refs_in two_fd two_descs" "refs_in (7 # replicate 9 0) two_pcbs" "refs_in (replicate 10 0) two_pcbs"
    "refs_in (replicate 10 0) (Map.empty :: ref \<rightharpoonup> semaphore)"
    by (simp_all add: refs_in_def fd two_doms)
  have "pcb_ok ?k q" if "q \<in> ran two_pcbs" for q
  proof -
    have "fd q = two_fd" "sp q = replicate 10 0" "cp q = 7 # replicate 9 0 \<or> cp q = replicate 10 0" "future q = 5 \<or> future q = 8"
      using that by (auto simp: two_pcbs_def split: if_splits)
    then show ?thesis using v r unfolding pcb_ok_def two_processes_fields by auto
  qed
  moreover have "valid d \<longleftrightarrow> fd_node d = None" if "d \<in> ran two_descs" for d
    using that by (auto simp: two_descs_def Let_def ran_def split: if_splits)
  moreover have "process t \<in> dom two_pcbs" if "t \<in> ran (tcbs ?k)" for t
    using that unfolding two_doms by (auto simp: two_processes_def ran_def split: if_splits)
  ultimately show ?thesis unfolding kernel_ok_def two_processes_fields two_doms by (simp add: two_processes_def)
qed

lemma four_bytes: "span 0x80000FFE 4 \<subseteq> user_area config_zero"
proof -
  have "length [1, 2, 3, 4 :: u8] = 4" by simp
  then show ?thesis using area_example [of 1 2 3 4] by metis
qed

lemma two_processes_simps [simp]:
  "cur (two_processes pd p) = 0x100" "cur_thread (two_processes pd p) = \<lparr>process = 1, tpd = pd, user_start = (0, 0)\<rparr>"
  "pm (two_processes pd p) = p" "disk (two_processes pd p) = ()" "isIdle (ths (two_processes pd p)) t = False"
  by (simp_all add: two_processes_def cur_thread_def tcb_at_def idle_threads_def)

text \<open>The kernel's objects stay in order.  In every history of system calls that return or sleep,
  of threads that go on, of stores by the user's programs, of switches to any thread and of deletions of objects
  to which no pointer is left, every entry of a process's tables is empty or refers to an object of its kind, every thread has a
  process, every process a future, no object is given out twice, and what a sleeping thread waits
  for is still there.\<close>

theorem syscalls_keep_objects:
  assumes "kernel_ok k0" "(kstep e)\<^sup>*\<^sup>* (k0, Map.empty) (k, w)"
  shows "kernel_ok k \<and> (\<forall>t f i s. w t = Some (AfterGet f i s) \<longrightarrow> f \<in> dom (futures k))"
  using history_ok [OF assms(2)] assms(1) by (simp add: system_ok_def)

lemma syscalls_keep_objects_witness:
  "\<exists>k w. (kstep demo_machine)\<^sup>*\<^sup>* (two_processes 0x2000 phys_zero, Map.empty) (k, w) \<and> out k = [47, 10] \<and> cur k = 0x200 \<and>
     kernel_ok k"
proof -
  let ?k = "two_processes 0x2000 phys_zero"
  have "sysHandler demo_machine 17 0 0 ?k = Inr (Ret 0, put_out [47, 10] ?k)"
    by (simp add: sysHandler_def pwd_sys_def two_processes_def demo_fs_def geometry.defs cstr_def ret_def)
  then have "kstep demo_machine (?k, Map.empty) (put_out [47, 10] ?k, goes_to_sleep (cur ?k) (Ret 0) Map.empty)"
    by (rule kstep.call) simp
  moreover have "kstep demo_machine (put_out [47, 10] ?k, goes_to_sleep (cur ?k) (Ret 0) Map.empty)
      (on_core 0x200 (put_out [47, 10] ?k), goes_to_sleep (cur ?k) (Ret 0) Map.empty)"
    by (rule kstep.switch) (simp add: two_processes_def put_out_def)
  ultimately have h: "(kstep demo_machine)\<^sup>*\<^sup>* (?k, Map.empty)
      (on_core 0x200 (put_out [47, 10] ?k), goes_to_sleep (cur ?k) (Ret 0) Map.empty)"
    by (meson converse_rtranclp_into_rtranclp rtranclp.rtrancl_refl)
  have "out (on_core 0x200 (put_out [47, 10] ?k)) = [47, 10]" "cur (on_core 0x200 (put_out [47, 10] ?k)) = 0x200"
    by (simp_all add: on_core_def put_out_def two_processes_def)
  then show ?thesis using h syscalls_keep_objects [OF two_processes_ok h] by blast
qed

text \<open>C19: \<^verbatim>\<open>read\<close> of an open file.  With a buffer in user memory and an offset inside the file, the
  call returns the number of bytes asked for or left in the file, whichever is less; those bytes
  of the file, through direct and indirect blocks, are in the buffer (whose pages may not have been
  there before), no other byte of the process changed, and the offset of the descriptor, which the
  process shares with the children it forked, moved on by as much.  Nothing else in the kernel
  changed.  The only failure is the panic of a machine that is out of frames.\<close>

theorem sys_read_spec:
  assumes "kernel_ok k" "space_inv cfg start (tpd (cur_thread k)) (pm k)" "disk_is (dev e) W C c D (disk k)"
    "3 \<le> i" "i \<le> 9" "slot k (nat i) \<noteq> 0" "\<not> bad_ptr (kConfig e) buf"
    "fd_node (desc_at k (slot k (nat i))) = Some nd" "node_fits c D nd"
    "off = offset (desc_at k (slot k (nat i)))" "unat off \<le> unat (size_low (data nd))"
    "m = min (unat n) (unat (size_low (data nd)) - unat off)" "span buf m \<subseteq> user_area cfg"
  shows "succeeds out_of_frames (read_sys e i buf n k) (\<lambda>(x, k'). x = Ret (of_nat m) \<and>
    only_offset (slot k (nat i)) (off + of_nat m) k k' \<and>
    space_inv cfg start (tpd (cur_thread k')) (pm k') \<and> disk_is (dev e) W C c D (disk k') \<and>
    (\<forall>x\<in>user_area cfg. user_byte k' x =
      (if x \<in> span buf m then node_byte c nd (unat off + unat (x - buf)) else user_byte k x)))"
  by (rule read_file_spec [OF assms])

lemma sys_read_spec_witness:
  "\<exists>pd p. succeeds out_of_frames (read_sys demo_machine 3 0x80000FFE 100 (two_processes pd p)) (\<lambda>(x, k').
     x = Ret 4 \<and> offset (desc_at k' 6) = 5 \<and> map (user_byte k') [0x80000FFE, 0x80000FFF, 0x80001000, 0x80001001] =
       [101, 108, 108, 111])"
proof -
  obtain s pd where S: "space_inv config_zero 0x1000 pd s" by (rule space_example)
  let ?k = "two_processes pd s"
  have sl: "slot ?k (nat 3) = 6"
    by (simp add: slot_def cur_process_def pcb_at_def two_processes_fields two_pcbs_def two_fd_def)
  have d: "desc_at ?k 6 = \<lparr>fd_node = Some small_file, offset = 1, valid = False\<rparr>"
    by (simp add: desc_at_def two_processes_fields two_descs_def Let_def)
  note sp = four_bytes
  have b: "node_byte small_disk small_file 1 = 101" "node_byte small_disk small_file 2 = 108"
    "node_byte small_disk small_file 3 = 108" "node_byte small_disk small_file 4 = 111"
    by (simp_all add: one_block_byte small_file_fields small_disk_def)
  have a: "{0x80000FFE, 0x80000FFF, 0x80001000, 0x80001001} \<subseteq> span 0x80000FFE 4" by (simp add: span_def)
  have "succeeds out_of_frames (read_sys demo_machine 3 0x80000FFE 100 ?k) (\<lambda>(x, k'). x = Ret (of_nat 4) \<and>
    only_offset (slot ?k (nat 3)) (1 + of_nat 4) ?k k' \<and>
    space_inv config_zero 0x1000 (tpd (cur_thread k')) (pm k') \<and>
    disk_is (dev demo_machine) (\<lambda>s. True) (\<lambda>s. small_disk) small_disk 6144 (disk k') \<and>
    (\<forall>x\<in>user_area config_zero. user_byte k' x =
      (if x \<in> span 0x80000FFE 4 then node_byte small_disk small_file (unat (1 :: u32) + unat (x - 0x80000FFE)) else user_byte ?k x)))"
    by (rule sys_read_spec [OF two_processes_ok])
      (use S sp small_is small_fits(2) in \<open>simp_all add: sl sl [simplified] d demo_machine_def bad_ptr_def config_zero_def small_file_fields\<close>)
  then have "succeeds out_of_frames (read_sys demo_machine 3 0x80000FFE 100 ?k) (\<lambda>(x, k').
     x = Ret 4 \<and> offset (desc_at k' 6) = 5 \<and> map (user_byte k') [0x80000FFE, 0x80000FFF, 0x80001000, 0x80001001] =
       [101, 108, 108, 111])"
  proof (rule succeeds_mono, clarify)
    fix x k' assume o: "only_offset (slot ?k (nat 3)) (1 + of_nat 4) ?k k'" and
      m: "\<forall>x\<in>user_area config_zero. user_byte k' x = (if x \<in> span 0x80000FFE 4
        then node_byte small_disk small_file (unat (1 :: u32) + unat (x - 0x80000FFE)) else user_byte ?k x)"
    have M: "user_byte k' x = node_byte small_disk small_file (1 + unat (x - 0x80000FFE))" if "x \<in> span 0x80000FFE 4" for x
      using m sp that by auto
    have "user_byte k' 0x80000FFE = 101" "user_byte k' 0x80000FFF = 108" "user_byte k' 0x80001000 = 108"
      "user_byte k' 0x80001001 = 111"
      by (subst M, use a in simp, simp add: b b [unfolded One_nat_def numeral_eq_Suc pred_numeral_simps BitM.simps eval_nat_numeral])+
    moreover have "offset (desc_at k' 6) = 5" using o unfolding only_offset_def sl by (simp add: desc_at_def)
    ultimately show "Ret (of_nat 4) = Ret 4 \<and> offset (desc_at k' 6) = 5 \<and>
      map (user_byte k') [0x80000FFE, 0x80000FFF, 0x80001000, 0x80001001] = [101, 108, 108, 111]" by simp
  qed
  then show ?thesis by blast
qed


text \<open>The path \<^verbatim>\<open>/\<close> in the memory of the first process, whose descriptor 3 is open: \<^verbatim>\<open>open\<close> gives 4 and \<^verbatim>\<open>sem\<close> 10;
  after \<^verbatim>\<open>close(3)\<close> slot 3 is empty.\<close>

definition demo_pages :: phys where
  "demo_pages = phys_zero\<lparr>pmem := (\<lambda>_. 0)(0x2800 := 7, 0x2801 := 0x30, 0x3000 := 7, 0x3001 := 0x40, 0x4000 := 47)\<rparr>"

lemma demo_path: "load_string ld8 0x80000000 (two_processes 0x2000 demo_pages) = Inr ([47], two_processes 0x2000 demo_pages)"
proof -
  let ?k = "two_processes 0x2000 demo_pages"
  have p: "two_processes 0x2000 demo_pages\<lparr>pm := demo_pages\<rparr> = ?k" by (simp add: two_processes_def)
  have "translate (pmem demo_pages) 0x2000 0x80000000 = Some 0x4000" "translate (pmem demo_pages) 0x2000 0x80000001 = Some 0x4001"
    by (simp_all add: translate_def demo_pages_def phys_zero_def ld32_def pdi_def pti_def present_def frame_of_def frame_offset_def Let_def)
  then have "ld8 0x80000000 ?k = Inr (47, ?k)" "ld8 0x80000001 ?k = Inr (0, ?k)"
    by (simp_all add: ld8_def in_mem_def load8_def resolve_def p) (simp_all add: demo_pages_def phys_zero_def)
  then show ?thesis by (simp add: load_string_def load_text.simps [of ld8])
qed

lemma tables_spec_witness:
  "let k = two_processes 0x2000 demo_pages
   in (\<exists>k'. close_sys 3 k = Inr (Ret 0, k') \<and> table k' = (table k)[3 := 0]) \<and>
      (\<exists>r k'. sem_sys 5 k = Inr (Ret 10, k') \<and> table k' = (table k)[20 := r] \<and> sems k' r = Some (new_semaphore 5)) \<and>
      (\<exists>r k'. open_sys demo_machine 0x80000000 k = Inr (Ret 4, k') \<and> table k' = (table k)[4 := r] \<and>
         descs k' r = Some \<lparr>fd_node = Some small_root, offset = 0, valid = False\<rparr>)"
proof -
  let ?k = "two_processes 0x2000 demo_pages"
  have c: "cur_process ?k = \<lparr>future = 5, fd = two_fd, cp = 7 # replicate 9 0, sp = replicate 10 0\<rparr>"
    by (simp add: cur_process_def pcb_at_def two_processes_fields two_pcbs_def)
  have f: "first_free (sp (cur_process ?k)) 0" "first_free (fd (cur_process ?k)) 4"
    by (auto simp: first_free_def c two_fd_def nth_Cons' less_Suc_eq numeral_eq_Suc)
  have n: "fs_find demo_machine (current (fs ?k)) [47] ?k = Inr (Some small_root, ?k)"
    by (simp add: fs_find_def two_processes_def demo_fs_def geometry.defs) (subst ext2_find.simps, simp)
  note T = tables_spec [OF two_processes_ok [of "0x2000" demo_pages], where e = demo_machine and fn = "0x80000000"
      and path = "[47]" and ?k1.0 = ?k and nd = small_root and ?k2.0 = ?k and n = 3 and m = 5]
  have u: "unat (3 :: u32) = 3" by simp
  have "\<exists>k'. close_sys 3 ?k = Inr (Ret 0, k') \<and> table k' = (table ?k)[close_slot 3 := 0]"
    using T [of 0] unfolding u by auto
  moreover have "\<exists>r k'. sem_sys 5 ?k = Inr (Ret (of_nat 0 + 10), k') \<and> table k' = (table ?k)[20 + 0 := r] \<and>
      sems k' = (sems ?k)(r \<mapsto> new_semaphore 5)"
    using T [of 0] f(1) by blast
  moreover have "\<exists>r k'. open_sys demo_machine 0x80000000 ?k = Inr (Ret (of_nat 4), k') \<and> table k' = (table ?k)[4 := r] \<and>
      descs k' = (descs ?k)(r \<mapsto> \<lparr>fd_node = Some small_root, offset = 0, valid = False\<rparr>)"
    using T [of 4] f(2) demo_path n by blast
  ultimately show ?thesis by (fastforce simp: Let_def close_slot_def)
qed

text \<open>C20: exit codes.  A child calls \<^verbatim>\<open>exit(rc)\<close> and its parent \<^verbatim>\<open>wait(id, status)\<close>, in either
  order: when the child was first, \<^verbatim>\<open>wait\<close> does not sleep; when the parent was first, it sleeps, and
  goes on after the child's exit.  Both times \<^verbatim>\<open>wait\<close> returns 0, the word at \<^verbatim>\<open>status\<close> in the parent's
  memory is \<^verbatim>\<open>rc\<close>, and the child's slot is free again; the only failure is a machine out of frames
  for the page of \<^verbatim>\<open>status\<close>.\<close>

theorem exit_wait:
  assumes "kernel_ok k" "t \<in> dom (tcbs k)" "u \<in> dom (tcbs k)" "\<not> isIdle (ths k) t"
    "i < 10" "cp (pcb_at k (process (tcb_at k t))) ! i = process (tcb_at k u)" "process (tcb_at k u) \<noteq> process (tcb_at k t)"
    "f = future (pcb_at k (process (tcb_at k u)))" "\<not> isReady (fut_at k f)" "count (go (fut_at k f)) = 0"
    "space_inv cfg start (tpd (tcb_at k t)) (pm k)" "span status 4 \<subseteq> user_area cfg"
  shows "(\<exists>k1. exit_sys rc (on_core u k) = Inr (Stopped, k1) \<and>
      succeeds out_of_frames (wait_sys e (of_nat i + 20) status (on_core t k1)) (waited cfg i status rc)) \<and>
    (\<exists>k1 k2 r. wait_sys e (of_nat i + 20) status (on_core t k) = Inr (Sleep r, k1) \<and>
      exit_sys rc (on_core u k1) = Inr (Stopped, k2) \<and>
      succeeds out_of_frames (resume r (on_core t k2)) (waited cfg i status rc))"
proof -
  have T: "kernel_ok (on_core t k)" and U: "kernel_ok (on_core u k)"
    by (rule on_core_ok [OF assms(1)], rule assms)+
  have at: "tcb_at (on_core x k) y = tcb_at k y" for x y by (simp add: tcb_at_def)
  show ?thesis
    using exit_then_wait [OF U, where i = i and cfg = cfg and start = start and status = status and rc = rc and e = e] wait_then_exit [OF T, where i = i and f = f and cfg = cfg and start = start and status = status and rc = rc and e = e] assms
    by (simp add: at)
qed

lemma exit_wait_witness:
  "\<exists>pd p k1. exit_sys 42 (on_core 0x200 (two_processes pd p)) = Inr (Stopped, k1) \<and>
     succeeds out_of_frames (wait_sys demo_machine 20 0x80000FFE (on_core 0x100 k1)) (waited config_zero 0 0x80000FFE 42)"
proof -
  obtain s pd where S: "space_inv config_zero 0x1000 pd s" by (rule space_example)
  note sp = four_bytes
  have t: "tcb_at (two_processes pd s) 0x100 = \<lparr>process = 1, tpd = pd, user_start = (0, 0)\<rparr>"
    "tcb_at (two_processes pd s) 0x200 = \<lparr>process = 7, tpd = pd, user_start = (0, 0)\<rparr>"
    "0x100 \<in> dom (tcbs (two_processes pd s))" "0x200 \<in> dom (tcbs (two_processes pd s))"
    by (simp_all add: tcb_at_def two_processes_def)
  have p: "pcb_at (two_processes pd s) 1 = \<lparr>future = 5, fd = two_fd, cp = 7 # replicate 9 0, sp = replicate 10 0\<rparr>"
    "pcb_at (two_processes pd s) 7 = \<lparr>future = 8, fd = two_fd, cp = replicate 10 0, sp = replicate 10 0\<rparr>"
    by (simp_all add: pcb_at_def two_processes_fields two_pcbs_def)
  have f: "fut_at (two_processes pd s) 8 = new_future 0" by (simp add: fut_at_def two_processes_fields)
  have "\<exists>k1. exit_sys 42 (on_core 0x200 (two_processes pd s)) = Inr (Stopped, k1) \<and>
     succeeds out_of_frames (wait_sys demo_machine (of_nat 0 + 20) 0x80000FFE (on_core 0x100 k1)) (waited config_zero 0 0x80000FFE 42)"
    by (rule conjunct1 [OF exit_wait [OF two_processes_ok t(3,4), of 0 8]])
      (use S sp in \<open>simp_all add: t p p(1) [simplified] f new_future_def new_semaphore_def\<close>)
  then show ?thesis by auto
qed

end
