(* ===== verification/Fork.thy ===== *)
theory Fork
  imports Sys_Spec
begin

text \<open>
  What \<^verbatim>\<open>fork\<close> does: the child's memory is a copy of the parent's, in frames of its own, and the
  child shares the parent's open files and semaphores.
\<close>

section \<open>Copying a page\<close>

lemma apart_sym: "apart cfg start pd pd2 s \<Longrightarrow> apart cfg start pd2 pd s"
  unfolding apart_def by blast

text \<open>Inside a page, addresses and their translations move together.\<close>

lemma page_uint:
  assumes "frame_offset va = 0" "d < 4096"
  shows "uint (va + of_nat d) = uint va + int d" "framedown (va + of_nat d) = va" "frame_offset (va + of_nat d) = of_nat d"
proof -
  obtain k where k: "uint va = 4096 * k" using assms(1) by (auto simp: frame_offset_0 elim: alignedE)
  have d: "uint (of_nat d :: u32) = int d" using assms(2) by (simp add: unsigned_of_nat take_bit_nat_eq_self)
  have "uint va + int d < 2 ^ 32" using k assms(2) uint_lt2p [of va] by simp
  then show u: "uint (va + of_nat d) = uint va + int d" using d uint_add_small [of va "of_nat d"] by simp
  show "framedown (va + of_nat d) = va"
    using u k assms(2) by (simp add: word_uint_eq_iff uint_framedown)
  show "frame_offset (va + of_nat d) = of_nat d"
    using u k assms(2) d by (simp add: word_uint_eq_iff uint_frame_offset)
qed

lemma page_translate:
  assumes "translate m pd va = Some p" "frame_offset va = 0" "d < 4096"
  shows "translate m pd (va + of_nat d) = Some (p + of_nat d)"
proof -
  let ?x = "va + of_nat d"
  note P = page_uint [OF assms(2,3)]
  have "framedown va = va" using assms(2) by (simp add: frame_offset_0 framedown_aligned)
  then have sp: "pdi ?x = pdi va" "pti ?x = pti va" using P(2) same_page_iff [of ?x va] by (simp_all add: same_page_def)
  obtain e where e: "p = frame_of e OR frame_offset va" "translate m pd ?x = Some (frame_of e OR frame_offset ?x)"
    using assms(1) unfolding translate_entry sp by (auto split: if_splits)
  have "uint ?x mod 4096 = int d"
    using P(3) uint_frame_offset [of ?x] assms(3) by (simp add: unsigned_of_nat take_bit_nat_eq_self)
  then have u: "uint (frame_of e OR frame_offset ?x) = uint (frame_of e) + int d" by (simp add: uint_join)
  have p: "p = frame_of e" using e(1) assms(2) by simp
  have "uint (frame_of e + of_nat d) = uint (frame_of e) + int d"
    by (rule page_uint(1)) (use assms(3) in \<open>simp_all add: frame_offset_0\<close>)
  then have "frame_of e OR frame_offset ?x = p + of_nat d" unfolding p using u by (simp only: word_uint_eq_iff)
  then show ?thesis using e(2) by simp
qed

lemma page_area: "va \<in> user_area cfg \<Longrightarrow> frame_offset va = 0 \<Longrightarrow> d < 4096 \<Longrightarrow> va + of_nat d \<in> user_area cfg"
  using area_page [of va "va + of_nat d"] page_uint(2) by (simp add: frame_offset_0 framedown_aligned)

text \<open>\<^verbatim>\<open>memcpy\<close> of the rest of a page from the parent's frame to the child's.\<close>

lemma copy_page:
  assumes va: "va \<in> user_area cfg" "frame_offset va = 0" and tr: "translate (pmem s) pd va = Some src"
    "translate (pmem s) newpd va = Some pa" and A: "apart cfg start newpd pd s" and n: "d + n \<le> 4096"
  defines "s' \<equiv> s\<lparr>pmem := memcpy_bytes n (pa + of_nat d) (src + of_nat d) (pmem s)\<rparr>"
  shows "apart cfg start newpd pd s' \<and> kept cfg pd s s' \<and>
    (\<forall>x. translate (pmem s') newpd x = translate (pmem s) newpd x) \<and>
    (\<forall>x\<in>user_area cfg. ubyte newpd s' x =
      (if \<exists>j. d \<le> j \<and> j < d + n \<and> x = va + of_nat j then ubyte pd s x else ubyte newpd s x))"
  unfolding s'_def using tr A n
proof (induction n arbitrary: s d)
  case (Suc n)
  let ?x = "va + of_nat d" and ?b = "pmem s (src + of_nat d)"
  let ?s1 = "put_byte (pa + of_nat d) ?b s"
  have d: "d < 4096" using Suc.prems(4) by simp
  have x: "?x \<in> user_area cfg" by (rule page_area [OF va d])
  note T = page_translate [OF Suc.prems(1) va(2) d] page_translate [OF Suc.prems(2) va(2) d]
  note P = put_byte_apart [OF Suc.prems(3) x T(2), where b = ?b] put_byte_space [OF apartD(1) [OF Suc.prems(3)] x T(2), where b = ?b]
  have b: "?b = ubyte pd s ?x" by (simp add: ubyte_def T(1))
  have t1: "translate (pmem ?s1) pd va = Some src" "translate (pmem ?s1) newpd va = Some pa"
    using keptD(1) [OF P(2)] P(3) Suc.prems by simp_all
  let ?s2 = "?s1\<lparr>pmem := memcpy_bytes n (pa + of_nat (Suc d)) (src + of_nat (Suc d)) (pmem ?s1)\<rparr>"
  have step: "s\<lparr>pmem := memcpy_bytes (Suc n) (pa + of_nat d) (src + of_nat d) (pmem s)\<rparr> = ?s2"
    by (simp add: put_byte_def algebra_simps)
  have I: "apart cfg start newpd pd ?s2" "kept cfg pd ?s1 ?s2" "translate (pmem ?s2) newpd y = translate (pmem ?s1) newpd y"
    "y \<in> user_area cfg \<Longrightarrow> ubyte newpd ?s2 y =
      (if \<exists>j. Suc d \<le> j \<and> j < Suc d + n \<and> y = va + of_nat j then ubyte pd ?s1 y else ubyte newpd ?s1 y)" for y
    using Suc.IH [OF t1 P(1), of "Suc d"] Suc.prems(4) by (simp, blast?)+
  have "ubyte newpd ?s2 y = (if \<exists>j. d \<le> j \<and> j < d + Suc n \<and> y = va + of_nat j then ubyte pd s y else ubyte newpd s y)"
    if y: "y \<in> user_area cfg" for y
  proof (cases "\<exists>j. Suc d \<le> j \<and> j < Suc d + n \<and> y = va + of_nat j")
    case True
    then have "\<exists>j. d \<le> j \<and> j < d + Suc n \<and> y = va + of_nat j" by (metis Suc_leD add_Suc_shift)
    then have e: "(\<exists>j. d \<le> j \<and> j < d + Suc n \<and> y = va + of_nat j) = True" by blast
    have "ubyte newpd ?s2 y = ubyte pd ?s1 y" unfolding I(4) [OF y] by (rule if_P [OF True])
    then show ?thesis unfolding e using keptD(5) [OF P(2) y] by simp
  next
    case False
    have "j = d" if "d \<le> j" "j < d + Suc n" "y = va + of_nat j" for j
      using False that by (cases "j = d") auto
    then have e: "(\<exists>j. d \<le> j \<and> j < d + Suc n \<and> y = va + of_nat j) \<longleftrightarrow> y = ?x" by auto
    have "ubyte newpd ?s2 y = ubyte newpd ?s1 y" unfolding I(4) [OF y] by (rule if_not_P [OF False])
    also have "\<dots> = (if y = ?x then ?b else ubyte newpd s y)" by (rule P(5) [OF y])
    also have "\<dots> = (if y = ?x then ubyte pd s y else ubyte newpd s y)" using b by simp
    finally show ?thesis unfolding e .
  qed
  then show ?case unfolding step using I(1,3) kept_trans [OF P(2) I(2)] P(3) by simp
qed auto

lemma page_members:
  assumes "frame_offset va = 0"
  shows "(\<exists>j. 0 \<le> j \<and> j < 0 + 4096 \<and> x = va + of_nat j) \<longleftrightarrow> framedown x = va"
proof
  assume f: "framedown x = va"
  let ?j = "nat (uint x mod 4096)"
  have j: "?j < 4096" by (simp add: nat_less_iff)
  have "uint va = uint x div 4096 * 4096" unfolding f [symmetric] by (rule uint_framedown)
  moreover have "int ?j = uint x mod 4096" by simp
  ultimately have "uint (va + of_nat ?j) = uint x" using page_uint(1) [OF assms j] by simp
  then have "x = va + of_nat ?j" by (simp add: word_uint_eq_iff)
  then show "\<exists>j. 0 \<le> j \<and> j < 0 + 4096 \<and> x = va + of_nat j" using j by (intro exI [of _ ?j]) simp
qed (use page_uint(2) [OF assms] in auto)

text \<open>One page of \<^verbatim>\<open>fork\<close>: a page fault in the child, then the copy.\<close>

lemma fork_page_ok:
  assumes A: "apart cfg start newpd pd s" and va: "va \<in> user_area cfg" "frame_offset va = 0"
    and tr: "translate (pmem s) newpd va = None" "translate (pmem s) pd va = Some src"
  shows "succeeds out_of_frames (fork_page pd newpd va s) (\<lambda>s'. apart cfg start newpd pd s' \<and> kept cfg pd s s' \<and>
    (\<forall>x. framedown x \<noteq> va \<longrightarrow> translate (pmem s') newpd x = translate (pmem s) newpd x) \<and>
    (\<forall>x\<in>user_area cfg. ubyte newpd s' x = (if framedown x = va then ubyte pd s x else ubyte newpd s x)))"
proof -
  have fd: "framedown va = va" using va(2) by (simp add: frame_offset_0 framedown_aligned)
  have hi: "0x80000000 \<le> va" by (rule area_high [OF va(1)])
  note D = space_invD(1) [OF apartD(1) [OF A]]
  show ?thesis
  proof (rule alloc_frame_total [OF as_invD(1) [OF D]])
    fix pa s1 assume al: "alloc_frame s = Inr (pa, s1)"
    note N = new_frame_inv [OF D al]
    show ?thesis
    proof (rule map_page_total [OF N(1), of va pa])
      fix s2 assume m: "map_page newpd va pa s1 = Inr s2"
      have run: "vmm_pageFault newpd newpd newpd va s = Inr s2" using al m fd hi by (simp add: vmm_pageFault_def)
      obtain t where M: "\<forall>x. translate (pmem s2) newpd x =
        (if same_page va x then Some (pa OR frame_offset x) else translate (pmem s1) newpd x)"
        by (rule map_page_ok [OF N(1) N(5) m])
      have t2: "translate (pmem s2) newpd va = Some pa" using M va(2) by (simp add: same_page_def)
      have t2': "translate (pmem s2) newpd x = translate (pmem s) newpd x" if "framedown x \<noteq> va" for x
        using M that fd N(2) by (auto simp: same_page_def)
      note F = fault_apart [OF A va(1) tr(1) run]
      have src: "translate (pmem s2) pd va = Some src" using keptD(1) [OF F(2)] tr(2) by simp
      let ?s3 = "s2\<lparr>pmem := memcpy pa src 4096 (pmem s2)\<rparr>"
      have mc: "?s3 = s2\<lparr>pmem := memcpy_bytes 4096 (pa + of_nat 0) (src + of_nat 0) (pmem s2)\<rparr>" by (simp add: memcpy_def)
      have C: "apart cfg start newpd pd ?s3 \<and> kept cfg pd s2 ?s3 \<and>
        (\<forall>x. translate (pmem ?s3) newpd x = translate (pmem s2) newpd x) \<and>
        (\<forall>x\<in>user_area cfg. ubyte newpd ?s3 x =
          (if \<exists>j. 0 \<le> j \<and> j < 0 + 4096 \<and> x = va + of_nat j then ubyte pd s2 x else ubyte newpd s2 x))"
        unfolding mc by (rule copy_page [OF va src t2 F(1)]) simp
      have "ubyte newpd s2 x = ubyte newpd s x" "ubyte pd s2 x = ubyte pd s x" if "x \<in> user_area cfg" for x
        using fault_space(3) [OF apartD(1) [OF A] va(1) tr(1) run that] keptD(5) [OF F(2) that] by simp_all
      then have "apart cfg start newpd pd ?s3 \<and> kept cfg pd s ?s3 \<and>
        (\<forall>x. framedown x \<noteq> va \<longrightarrow> translate (pmem ?s3) newpd x = translate (pmem s) newpd x) \<and>
        (\<forall>x\<in>user_area cfg. ubyte newpd ?s3 x = (if framedown x = va then ubyte pd s x else ubyte newpd s x))"
        using C t2' kept_trans [OF F(2)] unfolding page_members [OF va(2)] by simp
      then show ?thesis by (simp add: fork_page_def al sys_map_eq m resolve_def src)
    qed (simp add: fork_page_def al sys_map_eq)
  qed (simp add: fork_page_def)
qed

section \<open>The loops over the page tables\<close>

text \<open>The pages below number \<open>n\<close> have been copied from the parent as it was at the start, the child
  has no others, and the parent is untouched.\<close>

definition page_no :: "u32 \<Rightarrow> nat" where
  "page_no x = unat x div 4096"

definition forked :: "config \<Rightarrow> u32 \<Rightarrow> u32 \<Rightarrow> u32 \<Rightarrow> phys \<Rightarrow> nat \<Rightarrow> phys \<Rightarrow> bool" where
  "forked cfg start pd newpd s0 n s \<longleftrightarrow>
     apart cfg start newpd pd s \<and> kept cfg pd s0 s \<and>
     (\<forall>x\<in>user_area cfg. ubyte newpd s x = (if page_no x < n then ubyte pd s0 x else 0)) \<and>
     (\<forall>x\<in>user_area cfg. n \<le> page_no x \<longrightarrow> translate (pmem s) newpd x = None)"

lemma forkedD:
  assumes "forked cfg start pd newpd s0 n s"
  shows "apart cfg start newpd pd s" "kept cfg pd s0 s"
    "x \<in> user_area cfg \<Longrightarrow> ubyte newpd s x = (if page_no x < n then ubyte pd s0 x else 0)"
    "x \<in> user_area cfg \<Longrightarrow> n \<le> page_no x \<Longrightarrow> translate (pmem s) newpd x = None"
  using assms by (simp_all add: forked_def)

lemma forked_skip:
  assumes F: "forked cfg start pd newpd s0 n s" and m: "n \<le> m"
    and t: "\<And>x. x \<in> user_area cfg \<Longrightarrow> n \<le> page_no x \<Longrightarrow> page_no x < m \<Longrightarrow> translate (pmem s0) pd x = None"
  shows "forked cfg start pd newpd s0 m s"
proof -
  have "ubyte newpd s x = (if page_no x < m then ubyte pd s0 x else 0)" if "x \<in> user_area cfg" for x
    using forkedD(3) [OF F that] t [OF that] m by (auto simp: ubyte_def)
  then show ?thesis using F m by (simp add: forked_def)
qed

lemma page_va_facts:
  assumes "i < 1024" "j < 1024"
  shows "unat (page_va i j) = (i * 1024 + j) * 4096" "frame_offset (page_va i j) = 0"
    "framedown x = page_va i j \<longleftrightarrow> page_no x = i * 1024 + j"
    "framedown x = page_va i j \<Longrightarrow> pdi x = of_nat i \<and> pti x = of_nat j"
proof -
  have i: "unat (of_nat i :: u32) = i" "unat (of_nat j :: u32) = j" using assms by (simp_all add: unsigned_of_nat take_bit_nat_eq_self)
  have "unat (push_bit 22 (of_nat i) :: u32) = i * 4194304"
    using assms i by (simp add: push_bit_eq_mult unat_word_ariths)
  moreover have "unat (of_nat j * 4096 :: u32) = j * 4096" using assms i by (simp add: unat_word_ariths)
  ultimately show u: "unat (page_va i j) = (i * 1024 + j) * 4096"
    unfolding page_va_def using assms by (subst unat_plus_small) (simp_all add: algebra_simps)
  have "uint (page_va i j) = int ((i * 1024 + j) * 4096)" unfolding u [symmetric] by simp
  then have v: "uint (page_va i j) = (int i * 1024 + int j) * 4096" by simp
  show "frame_offset (page_va i j) = 0" by (simp add: frame_offset_0 aligned_def v)
  show p: "framedown x = page_va i j \<longleftrightarrow> page_no x = i * 1024 + j" for x
  proof -
    have "framedown x = page_va i j \<longleftrightarrow> uint x div 4096 * 4096 = (int i * 1024 + int j) * 4096"
      by (simp add: word_uint_eq_iff uint_framedown v)
    also have "\<dots> \<longleftrightarrow> uint x div 4096 = int i * 1024 + int j" by (subst mult_cancel_right) simp
    also have "int i * 1024 + int j = int (i * 1024 + j)" by simp
    also have "uint x div 4096 = int (page_no x)" by (simp add: page_no_def zdiv_int)
    also have "(int (page_no x) = int (i * 1024 + j)) = (page_no x = i * 1024 + j)" by (simp only: of_nat_eq_iff)
    finally show ?thesis .
  qed
  show "pdi x = of_nat i \<and> pti x = of_nat j" if "framedown x = page_va i j" for x
  proof -
    have d: "uint x div 4194304 = uint x div 4096 div 1024" by (simp add: zdiv_zmult2_eq [symmetric])
    have "uint x div 4096 * 4096 = (int i * 1024 + int j) * 4096" using that v by (simp add: uint_framedown [symmetric])
    then have "uint x div 4096 = int i * 1024 + int j" by simp
    then have "uint x div 4096 mod 1024 = int j" "uint x div 4096 div 1024 = int i" using assms by simp_all
    moreover have "uint (of_nat i :: u32) = int i" "uint (of_nat j :: u32) = int j"
      using assms by (simp_all add: unsigned_of_nat take_bit_nat_eq_self)
    ultimately show ?thesis unfolding word_uint_eq_iff uint_pdi uint_pti d by simp
  qed
qed

text \<open>One directory entry.\<close>

lemma forked_entries:
  assumes F: "forked cfg start pd newpd s0 n s" and S: "space_inv cfg start pd s0" and i: "uint i < 1024"
  shows "entry (pmem s) pd i = entry (pmem s0) pd i"
    "present (entry (pmem s0) pd i) \<Longrightarrow> uint j < 1024 \<Longrightarrow>
      entry (pmem s) (frame_of (entry (pmem s0) pd i)) j = entry (pmem s0) (frame_of (entry (pmem s0) pd i)) j"
proof -
  note k = keptD(4) [OF forkedD(2) [OF F]]
  show "entry (pmem s) pd i = entry (pmem s0) pd i"
    by (rule entry_cong [OF as_invD(3) [OF space_invD(1) [OF S]] i]) (use k in blast)
  assume p: "present (entry (pmem s0) pd i)" and j: "uint j < 1024"
  have "frame_of (entry (pmem s0) pd i) \<in> tables (pmem s0) pd" using p i unfolding tables_def by blast
  then show "entry (pmem s) (frame_of (entry (pmem s0) pd i)) j = entry (pmem s0) (frame_of (entry (pmem s0) pd i)) j"
    by (intro entry_cong [OF aligned_frame_of j]) (use k in blast)
qed

lemma forked_page:
  assumes F: "forked cfg start pd newpd s0 (i * 1024 + j) s" and ij: "i < 1024" "j < 1024"
    and va: "page_va i j \<in> user_area cfg" and tr: "translate (pmem s0) pd (page_va i j) = Some src"
  shows "succeeds out_of_frames (fork_page pd newpd (page_va i j) s) (forked cfg start pd newpd s0 (i * 1024 + j + 1))"
proof -
  note V = page_va_facts [OF ij] and D = forkedD [OF F]
  have fd: "framedown (page_va i j) = page_va i j" using V(2) by (simp add: frame_offset_0 framedown_aligned)
  have n: "page_no (page_va i j) = i * 1024 + j" using V(3) fd by blast
  have t: "translate (pmem s) pd (page_va i j) = Some src" using keptD(1) [OF D(2)] tr by simp
  show ?thesis
  proof (rule succeeds_mono [OF fork_page_ok [OF D(1) va V(2) D(4) [OF va] t]])
    show "i * 1024 + j \<le> page_no (page_va i j)" by (simp add: n)
    fix s' assume s': "apart cfg start newpd pd s' \<and> kept cfg pd s s' \<and>
      (\<forall>x. framedown x \<noteq> page_va i j \<longrightarrow> translate (pmem s') newpd x = translate (pmem s) newpd x) \<and>
      (\<forall>x\<in>user_area cfg. ubyte newpd s' x = (if framedown x = page_va i j then ubyte pd s x else ubyte newpd s x))"
    have "ubyte newpd s' x = (if page_no x < i * 1024 + j + 1 then ubyte pd s0 x else 0)" if "x \<in> user_area cfg" for x
      using s' that D(3) [OF that] keptD(5) [OF D(2) that] V(3) [of x] by auto
    moreover have "translate (pmem s') newpd x = None" if "x \<in> user_area cfg" "i * 1024 + j + 1 \<le> page_no x" for x
      using s' that D(4) [OF that(1)] V(3) [of x] by auto
    ultimately show "forked cfg start pd newpd s0 (i * 1024 + j + 1) s'"
      using s' kept_trans [OF D(2)] unfolding forked_def by blast
  qed
qed

lemma fork_table_ok:
  assumes S: "space_inv cfg start pd s0" and io: "frame_offset (ioAPIC cfg) = 0" "frame_offset (localAPIC cfg) = 0"
    and i: "512 \<le> i" "i < 1024" and e: "e = entry (pmem s0) pd (of_nat i)" "present e" and F: "forked cfg start pd newpd s0 (i * 1024 + j) s"
    and n: "j + n \<le> 1024"
  shows "succeeds out_of_frames (fork_table cfg pd newpd i (frame_of e) j n s) (forked cfg start pd newpd s0 (i * 1024 + j + n))"
  using F n
proof (induction n arbitrary: j s)
  case (Suc n)
  have j: "j < 1024" using Suc.prems by simp
  let ?va = "page_va i j" and ?pte = "entry (pmem s0) (frame_of e) (of_nat j)"
  note V = page_va_facts [OF i(2) j]
  have u: "uint (of_nat i :: u32) < 1024" "uint (of_nat j :: u32) < 1024"
    using i j by (simp_all add: unsigned_of_nat take_bit_nat_eq_self)
  have pte: "ld32 (pmem s) (frame_of e + 4 * of_nat j) = ?pte"
    using forked_entries(2) [OF Suc.prems(1) S u(1) _ u(2)] e by (simp add: entry_def)
  have tr: "translate (pmem s0) pd x = (if present ?pte then Some (frame_of ?pte OR frame_offset x) else None)"
    if "framedown x = ?va" for x
    using V(4) [OF that] e by (simp add: translate_entry)
  have "uint (page_va i j) = int (unat (page_va i j))" by simp
  then have hi: "0x80000000 \<le> ?va" using V(1) i by (simp add: word_le_nat_alt)
  have fd: "framedown ?va = ?va" "framedown (ioAPIC cfg) = ioAPIC cfg" "framedown (localAPIC cfg) = localAPIC cfg"
    using V(2) io by (simp_all add: frame_offset_0 framedown_aligned)
  have ua: "?va \<in> user_area cfg \<longleftrightarrow> ?va \<noteq> ioAPIC cfg \<and> ?va \<noteq> localAPIC cfg" using hi fd by (simp add: user_area_def)
  have one: "succeeds out_of_frames (if user_page cfg ?pte ?va then fork_page pd newpd ?va s else Inr s)
      (forked cfg start pd newpd s0 (i * 1024 + Suc j))"
  proof (cases "user_page cfg ?pte ?va")
    case True
    have "translate (pmem s0) pd ?va = Some (frame_of ?pte OR frame_offset ?va)" using True tr [OF fd(1)] by (simp add: user_page_def)
    then show ?thesis using True forked_page [OF Suc.prems(1) i(2) j] ua by (simp add: user_page_def)
  next
    case False
    have "forked cfg start pd newpd s0 (i * 1024 + Suc j) s"
    proof (rule forked_skip [OF Suc.prems(1)])
      fix x assume x: "x \<in> user_area cfg" "i * 1024 + j \<le> page_no x" "page_no x < i * 1024 + Suc j"
      then have f: "framedown x = ?va" using V(3) by simp
      then have "?va \<in> user_area cfg" using area_page [of x ?va] fd(1) x(1) by simp
      then show "translate (pmem s0) pd x = None" using False tr [OF f] ua by (simp add: user_page_def)
    qed simp
    then show ?thesis using False by simp
  qed
  show ?case unfolding fork_table.simps pte
    by (rule succeeds_rbind [OF one]) (use Suc.IH [of "Suc j"] Suc.prems(2) in simp)
qed simp

lemma fork_dirs_ok:
  assumes S: "space_inv cfg start pd s0" and io: "frame_offset (ioAPIC cfg) = 0" "frame_offset (localAPIC cfg) = 0"
    and i: "512 \<le> i" "i + n \<le> 1024" and F: "forked cfg start pd newpd s0 (i * 1024) s"
  shows "succeeds out_of_frames (fork_dirs cfg pd newpd i n s) (forked cfg start pd newpd s0 ((i + n) * 1024))"
  using i F
proof (induction n arbitrary: i s)
  case (Suc n)
  have i: "512 \<le> i" "i < 1024" using Suc.prems by simp_all
  let ?e = "entry (pmem s0) pd (of_nat i)"
  have u: "uint (of_nat i :: u32) < 1024" using i by (simp add: unsigned_of_nat take_bit_nat_eq_self)
  have pde: "ld32 (pmem s) (pd + 4 * of_nat i) = ?e" using forked_entries(1) [OF Suc.prems(3) S u] by (simp add: entry_def)
  have one: "succeeds out_of_frames (if present ?e then fork_table cfg pd newpd i (frame_of ?e) 0 1024 s else Inr s)
      (forked cfg start pd newpd s0 (Suc i * 1024))"
  proof (cases "present ?e")
    case True
    have "i * 1024 + 0 = i * 1024" by simp
    then show ?thesis using True fork_table_ok [OF S io i refl True, of newpd 0 s 1024] Suc.prems(3)
      by (simp add: add.commute)
  next
    case False
    have "forked cfg start pd newpd s0 (Suc i * 1024) s"
    proof (rule forked_skip [OF Suc.prems(3)])
      fix x assume x: "x \<in> user_area cfg" "i * 1024 \<le> page_no x" "page_no x < Suc i * 1024"
      define j where "j = page_no x - i * 1024"
      have "j < 1024" "page_no x = i * 1024 + j" using x by (simp_all add: j_def)
      then have "pdi x = of_nat i" using page_va_facts(3,4) [OF i(2)] by blast
      then show "translate (pmem s0) pd x = None" using False by (simp add: translate_entry)
    qed simp
    then show ?thesis using False by simp
  qed
  show ?case unfolding fork_dirs.simps Let_def pde
    by (rule succeeds_rbind [OF one]) (use Suc.IH [of "Suc i"] Suc.prems in simp)
qed simp

text \<open>The child's user memory is the parent's.\<close>

lemma fork_copies:
  assumes A: "apart cfg start newpd pd s" and io: "frame_offset (ioAPIC cfg) = 0" "frame_offset (localAPIC cfg) = 0"
    and none: "\<And>x. x \<in> user_area cfg \<Longrightarrow> translate (pmem s) newpd x = None"
  shows "succeeds out_of_frames (fork_dirs cfg pd newpd 512 512 s) (\<lambda>s'. apart cfg start newpd pd s' \<and>
    (\<forall>x\<in>user_area cfg. ubyte newpd s' x = ubyte pd s x \<and> ubyte pd s' x = ubyte pd s x))"
proof -
  have low: "512 * 1024 \<le> page_no x" if "x \<in> user_area cfg" for x
  proof -
    have "2147483648 \<le> unat x" using area_high [OF that] by (simp add: word_le_nat_alt)
    then show ?thesis by (simp add: page_no_def)
  qed
  have "forked cfg start pd newpd s (512 * 1024) s"
    unfolding forked_def using A none low by (auto simp: ubyte_def not_less) (metis leD)
  then have "succeeds out_of_frames (fork_dirs cfg pd newpd 512 512 s) (forked cfg start pd newpd s ((512 + 512) * 1024))"
    by (intro fork_dirs_ok [OF apartD(2) [OF A] io]) simp_all
  moreover have "page_no x < (512 + 512) * 1024" for x
  proof -
    have "unat x < 1048576 * 4096" using unsigned_less [where ?'a = nat, of x] by simp
    then show ?thesis unfolding page_no_def by (subst div_less_iff_less_mult) simp_all
  qed
  ultimately show ?thesis
    by (elim succeeds_mono) (use forkedD keptD(5) in \<open>fastforce\<close>)
qed

section \<open>The new address space\<close>

lemma make_pd_effect:
  assumes a: "as_inv start s sh" and mem: "memSize cfg \<le> 0x80000000"
    and dev: "frame_offset (ioAPIC cfg) = 0" "frame_offset (localAPIC cfg) = 0" "0x80000000 \<le> ioAPIC cfg" "0x80000000 \<le> localAPIC cfg"
    and run: "make_pd cfg sh s = Inr (pd, s')"
  shows "as_inv start s' pd" "pd \<notin> pm_live start s" "pm_live start s \<subseteq> pm_live start s'"
    "f \<in> pm_live start s \<Longrightarrow> b \<in> frame_span f \<Longrightarrow> pmem s' b = pmem s b"
    "tables (pmem s') pd \<inter> pm_live start s \<subseteq> tables (pmem s) sh"
    "512 \<le> uint i \<Longrightarrow> uint i < 1024 \<Longrightarrow> present (entry (pmem s') pd i) \<Longrightarrow> frame_of (entry (pmem s') pd i) \<notin> pm_live start s"
    "x \<in> user_area cfg \<Longrightarrow> translate (pmem s') pd x = None"
proof -
  obtain s1 s3 where al: "alloc_frame s = Inr (pd, s1)"
    and m3: "map_page pd (ioAPIC cfg) (ioAPIC cfg) (s1\<lparr>pmem := memcpy pd sh (shared_size cfg) (pmem s1)\<rparr>) = Inr s3"
    and m4: "map_page pd (localAPIC cfg) (localAPIC cfg) s3 = Inr s'"
    using run by (auto simp: make_pd_def)
  let ?s2 = "s1\<lparr>pmem := memcpy pd sh (shared_size cfg) (pmem s1)\<rparr>"
  note C = make_pd_copy [OF a al mem]
  have io: "aligned (ioAPIC cfg)" and lo: "aligned (localAPIC cfg)" using dev by (simp_all add: frame_offset_0)
  obtain t where M: "as_inv start s3 pd" "pm_live start s3 = insert t (pm_live start ?s2)"
    "tables (pmem s3) pd = insert t (tables (pmem ?s2) pd)"
    "\<forall>va'. translate (pmem s3) pd va' =
      (if same_page (ioAPIC cfg) va' then Some (ioAPIC cfg OR frame_offset va') else translate (pmem ?s2) pd va')"
    "\<forall>b. b \<notin> frame_span pd \<longrightarrow> b \<notin> frame_span t \<longrightarrow> pmem s3 b = pmem ?s2 b"
    "if present (entry (pmem ?s2) pd (pdi (ioAPIC cfg))) then t = frame_of (entry (pmem ?s2) pd (pdi (ioAPIC cfg)))
     else t \<notin> pm_live start ?s2"
    "\<forall>i. uint i < 1024 \<longrightarrow> i \<noteq> pdi (ioAPIC cfg) \<longrightarrow> entry (pmem s3) pd i = entry (pmem ?s2) pd i"
    by (rule map_page_ok [OF C(1) io m3])
  obtain t' where N: "as_inv start s' pd" "pm_live start s' = insert t' (pm_live start s3)"
    "tables (pmem s') pd = insert t' (tables (pmem s3) pd)"
    "\<forall>va'. translate (pmem s') pd va' =
      (if same_page (localAPIC cfg) va' then Some (localAPIC cfg OR frame_offset va') else translate (pmem s3) pd va')"
    "\<forall>b. b \<notin> frame_span pd \<longrightarrow> b \<notin> frame_span t' \<longrightarrow> pmem s' b = pmem s3 b"
    "if present (entry (pmem s3) pd (pdi (localAPIC cfg))) then t' = frame_of (entry (pmem s3) pd (pdi (localAPIC cfg)))
     else t' \<notin> pm_live start s3"
    "\<forall>i. uint i < 1024 \<longrightarrow> i \<noteq> pdi (localAPIC cfg) \<longrightarrow> entry (pmem s') pd i = entry (pmem s3) pd i"
    by (rule map_page_ok [OF M(1) lo m4])
  have k: "shared_entries cfg \<le> 512" using uint_shared_size(2) [OF mem] by (simp add: shared_entries_def)
  have e2: "\<not> present (entry (pmem ?s2) pd i)" if "512 \<le> uint i" "uint i < 1024" for i
    using C(9) [OF that(2)] k that(1) by simp
  have t: "t \<notin> pm_live start ?s2" using M(6) e2 [OF high_index [OF dev(3)] index_bounds(1)] by simp
  then have tl: "t \<notin> pm_live start s" using C(2) by blast
  have e3: "frame_of (entry (pmem s3) pd i) = t" if "512 \<le> uint i" "uint i < 1024" "present (entry (pmem s3) pd i)" for i
    using fault_tables [OF M(1,6,3,7) that(2,3)] e2 [OF that(1,2)] by blast
  have t'l: "t' \<notin> pm_live start s"
  proof (cases "present (entry (pmem s3) pd (pdi (localAPIC cfg)))")
    case True
    then show ?thesis using N(6) e3 [OF high_index [OF dev(4)] index_bounds(1) True] tl by simp
  next
    case False
    then show ?thesis using N(6) M(2) C(2) by auto
  qed
  show "as_inv start s' pd" by (rule N(1))
  show pdl: "pd \<notin> pm_live start s" by (rule C(3))
  show "pm_live start s \<subseteq> pm_live start s'" using N(2) M(2) C(2) by blast
  show "frame_of (entry (pmem s') pd i) \<notin> pm_live start s" if "512 \<le> uint i" "uint i < 1024" "present (entry (pmem s') pd i)" for i
    using fault_tables [OF N(1,6,3,7) that(2,3)] e3 [OF that(1,2)] tl t'l by metis
  show "tables (pmem s') pd \<inter> pm_live start s \<subseteq> tables (pmem s) sh" unfolding N(3) M(3) using C(8) tl t'l by auto
  show "translate (pmem s') pd x = None" if "x \<in> user_area cfg" for x
  proof -
    have "\<not> uint (pdi x) < shared_entries cfg" using high_index [OF area_high [OF that]] k by simp
    then show ?thesis using N(4) M(4) C(4) that by (simp add: same_page_def user_area_def eq_commute)
  qed
  have al': "aligned t" "aligned t'" "aligned pd"
    using pm_live_aligned [of t start s3] pm_live_aligned [of t' start s'] pm_live_aligned [of pd start ?s2] M(2) N(2) C(2) by blast+
  show "pmem s' b = pmem s b" if f: "f \<in> pm_live start s" "b \<in> frame_span f" for f b
  proof -
    have "b \<notin> frame_span pd" "b \<notin> frame_span t" "b \<notin> frame_span t'"
      using f pdl tl t'l frame_span_disjoint [OF pm_live_aligned [OF f(1)]] al' by blast+
    then show ?thesis using N(5) M(5) C(5) by simp
  qed
qed

text \<open>What a process owns is none of the kernel's shared tables.\<close>

definition unshared :: "config \<Rightarrow> u32 \<Rightarrow> u32 \<Rightarrow> phys \<Rightarrow> bool" where
  "unshared cfg sh pd s \<longleftrightarrow> owned cfg (pmem s) pd \<inter> tables (pmem s) sh = {}"

lemma make_pd_apart:
  assumes S: "space_inv cfg start pd s" and pr: "unshared cfg sh pd s" and a: "as_inv start s sh" and mem: "memSize cfg \<le> 0x80000000"
    and dev: "frame_offset (ioAPIC cfg) = 0" "frame_offset (localAPIC cfg) = 0" "0x80000000 \<le> ioAPIC cfg" "0x80000000 \<le> localAPIC cfg"
    and run: "make_pd cfg sh s = Inr (newpd, s')"
  shows "apart cfg start newpd pd s'" "kept cfg pd s s'"
proof -
  note M = make_pd_effect [OF a mem dev run]
  let ?use = "insert pd (tables (pmem s) pd) \<union> user_frames cfg (pmem s) pd"
  have live: "f \<in> pm_live start s" if "f \<in> ?use" for f
    using that space_invD(1,2) [OF S] as_invD(2,4) [OF space_invD(1) [OF S]] by (auto simp: user_frames_def)
  have m: "pmem s' b = pmem s b" if "f \<in> ?use" "b \<in> frame_span f" for f b by (rule M(4) [OF live [OF that(1)] that(2)])
  have O: "space_inv cfg start pd s'" "translate (pmem s') pd y = translate (pmem s) pd y"
    "tables (pmem s') pd = tables (pmem s) pd" "uint i < 1024 \<Longrightarrow> entry (pmem s') pd i = entry (pmem s) pd i" for y i
    by (rule other_space [OF S as_invD(1) [OF M(1)] M(3)]; (rule m)?; assumption)+
  show "kept cfg pd s s'" unfolding kept_def using O(2,3) m by blast
  have u: "user_frames cfg (pmem s') pd = user_frames cfg (pmem s) pd" unfolding user_frames_def O(2) ..
  have w: "owned cfg (pmem s') pd = owned cfg (pmem s) pd" by (rule owned_cong [OF O(4) u])
  have own: "owned cfg (pmem s) pd \<subseteq> ?use" unfolding owned_def tables_def by auto
  note E = empty_space [OF M(1,7)]
  have new: "f \<notin> pm_live start s" if "f \<in> owned cfg (pmem s') newpd" for f
    using that M(2,6) E(2) unfolding owned_def by auto
  have "owned cfg (pmem s) pd \<inter> (insert newpd (tables (pmem s') newpd) \<union> user_frames cfg (pmem s') newpd) = {}"
    using M(2,5) own live pr E(2) unfolding unshared_def by blast
  moreover have "owned cfg (pmem s') newpd \<inter> ?use = {}" using new live by blast
  ultimately show "apart cfg start newpd pd s'" unfolding apart_def w O(3) u using E(1) O(1) by blast
qed

lemma make_pd_total:
  assumes a: "as_inv start s sh" and mem: "memSize cfg \<le> 0x80000000"
    and dev: "frame_offset (ioAPIC cfg) = 0"
  shows "succeeds out_of_frames (make_pd cfg sh s) (\<lambda>(pd, s'). make_pd cfg sh s = Inr (pd, s'))"
proof (rule alloc_frame_total [OF as_invD(1) [OF a]])
  fix pd s1 assume al: "alloc_frame s = Inr (pd, s1)"
  let ?s2 = "s1\<lparr>pmem := memcpy pd sh (shared_size cfg) (pmem s1)\<rparr>"
  note C = make_pd_copy [OF a al mem]
  have io: "aligned (ioAPIC cfg)" using dev by (simp add: frame_offset_0)
  show ?thesis
  proof (rule map_page_total [OF C(1), of "ioAPIC cfg" "ioAPIC cfg"])
    fix s3 assume m3: "map_page pd (ioAPIC cfg) (ioAPIC cfg) ?s2 = Inr s3"
    have "as_inv start s3 pd" by (rule map_page_ok [OF C(1) io m3])
    then show ?thesis
      by (rule map_page_total [of _ _ _ "localAPIC cfg" "localAPIC cfg"]) (auto simp: make_pd_def al m3)
  qed (simp add: make_pd_def al)
qed (simp add: make_pd_def)

section \<open>The system call\<close>

lemma no_zombies:
  assumes "first (zombies (ths k)) = 0"
  shows "delete_zombies k = Inr k"
  using assms by (simp add: delete_zombies_def delete_zombies_loop.simps zombie_remove_def q_remove_def returned_def)

lemma scan_child_first:
  assumes "i < 10" "xs ! i = 0" "\<And>j. n \<le> j \<Longrightarrow> j < i \<Longrightarrow> xs ! j \<noteq> 0" "n \<le> i"
  shows "scan_child xs n = i"
  using assms
proof (induction xs n rule: scan_child.induct)
  case (1 xs n)
  show ?case
  proof (cases "n = i")
    case True
    then show ?thesis using 1(3) by (simp add: scan_child.simps)
  next
    case False
    then have "n < 10 \<and> xs ! n \<noteq> 0" using 1(2,4,5) by simp
    then show ?thesis using 1 False by (subst scan_child.simps) simp
  qed
qed

text \<open>The thread \<^verbatim>\<open>makeThread\<close> makes, in the kernel it leaves.\<close>

definition thread_made :: "'s machine \<Rightarrow> config \<Rightarrow> u32 \<Rightarrow> u32 \<times> u32 \<Rightarrow> 's kernel \<Rightarrow> tcb \<Rightarrow> 's kernel \<Rightarrow> bool" where
  "thread_made e cfg start w k t k' \<longleftrightarrow>
     t = addr_of e (next_ref k) \<and> cur_thread k' = cur_thread k \<and> cur_process k' = cur_process k \<and> cur k' = cur k \<and>
     ths k' = (ths k)\<lparr>isIdle := (isIdle (ths k))(t := False)\<rparr> \<and>
     (\<exists>q pd. tcb_at k' t = \<lparr>process = q, tpd = pd, user_start = w\<rparr> \<and> q \<notin> dom (pcbs k) \<and> q \<noteq> process (cur_thread k) \<and>
        cp (pcb_at k' q) = replicate 10 0 \<and> \<not> isReady (fut_at k' (future (pcb_at k' q))) \<and>
        apart cfg start pd (tpd (cur_thread k)) (pm k') \<and> kept cfg (tpd (cur_thread k)) (pm k) (pm k') \<and>
        (\<forall>x\<in>user_area cfg. translate (pmem (pm k')) pd x = None))"

lemma makeThread_effect:
  assumes K: "kernel_ok k" and z: "first (zombies (ths k)) = 0" and fresh: "addr_of e (next_ref k) \<notin> dom (tcbs k)"
    and S: "space_inv (kConfig e) start (tpd (cur_thread k)) (pm k)" and pr: "unshared (kConfig e) (shared e) (tpd (cur_thread k)) (pm k)"
    and a: "as_inv start (pm k) (shared e)" and mem: "memSize (kConfig e) \<le> 0x80000000"
    and dev: "frame_offset (ioAPIC (kConfig e)) = 0" "frame_offset (localAPIC (kConfig e)) = 0"
      "0x80000000 \<le> ioAPIC (kConfig e)" "0x80000000 \<le> localAPIC (kConfig e)"
  shows "succeeds out_of_frames (makeThread e w k) (\<lambda>(t, k'). thread_made e (kConfig e) start w k t k')"
proof -
  let ?cfg = "kConfig e" and ?t = "addr_of e (next_ref k)" and ?pd = "tpd (cur_thread k)" and ?n = "next_ref k"
  have M: "succeeds out_of_frames (make_pd ?cfg (shared e) (pm k)) (\<lambda>(pd, s'). make_pd ?cfg (shared e) (pm k) = Inr (pd, s'))"
    by (rule make_pd_total [OF a mem dev(1)])
  show ?thesis
  proof (cases "make_pd ?cfg (shared e) (pm k)")
    case (Inl f)
    then show ?thesis using M by (simp add: makeThread_def no_zombies [OF z] new_TCB_def alloc_ref_def in_mem_def)
  next
    case (Inr r)
    obtain pd p where r: "r = (pd, p)" by fastforce
    note run = Inr [unfolded r]
    note A = make_pd_apart [OF S pr a mem dev run] and E = make_pd_effect(7) [OF a mem dev run]
    let ?k2 = "k\<lparr>next_ref := ?n + 1, pm := p\<rparr>"
    obtain q k3 where P: "new_PCB ?k2 = (q, k3)" by fastforce
    let ?std = "(new_FileDescriptor None)\<lparr>valid := True\<rparr>"
    have q: "q = ?n + 1" and k3: "k3 = ?k2\<lparr>next_ref := ?n + 6, descs := (descs k)(?n + 2 \<mapsto> ?std, ?n + 3 \<mapsto> ?std, ?n + 4 \<mapsto> ?std),
        futures := (futures k)(?n + 5 \<mapsto> new_future 0),
        pcbs := (pcbs k)(?n + 1 \<mapsto> \<lparr>future = ?n + 5, fd = [?n + 2, ?n + 3, ?n + 4] @ replicate 7 0,
          cp = replicate 10 0, sp = replicate 10 0\<rparr>)\<rparr>"
      using P by (auto simp: new_PCB_def alloc_ref_def Let_def eval_nat_numeral)
    let ?k' = "k3\<lparr>tcbs := (tcbs k3)(?t \<mapsto> \<lparr>process = q, tpd = pd, user_start = w\<rparr>),
         ths := (ths k3)\<lparr>isIdle := (isIdle (ths k3))(?t := False)\<rparr>\<rparr>"
    have mk: "makeThread e w k = Inr (?t, ?k')"
      using run P by (simp add: makeThread_def no_zombies [OF z] new_TCB_def alloc_ref_def in_mem_def Let_def)
    have c: "cur k \<noteq> ?t" using kernel_okD(2) [OF K] fresh by auto
    have pl: "process (cur_thread k) < ?n" using kernel_okD(3) [OF K] kernel_okD(9) [OF K, of "process (cur_thread k)"] by blast
    have ct: "cur_thread ?k' = cur_thread k" using c by (simp add: cur_thread_def tcb_at_def k3)
    have cpr: "cur_process ?k' = cur_process k" unfolding cur_process_def ct using pl by (simp add: pcb_at_def k3)
    have fr: "?n + 1 \<notin> dom (pcbs k)" using kernel_okD(9) [OF K, of "?n + 1"] by auto
    have "thread_made e ?cfg start w k ?t ?k'" unfolding thread_made_def ct cpr
      using A E fr pl by (simp add: tcb_at_def pcb_at_def fut_at_def k3 q new_future_def)
    then show ?thesis by (simp add: mk)
  qed
qed

text \<open>The state \<^verbatim>\<open>fork\<close> leaves: a child with a copy of the memory, ready to start at the parent's
  place with the parent's open files and semaphores.\<close>

definition forked_child :: "'s machine \<Rightarrow> config \<Rightarrow> u32 \<Rightarrow> u32 \<times> u32 \<Rightarrow> nat \<Rightarrow> 's kernel \<Rightarrow> 's kernel \<Rightarrow> bool" where
  "forked_child e cfg start w i k k' \<longleftrightarrow>
     (let t = addr_of e (next_ref k); q = process (tcb_at k' t); pd = tpd (cur_thread k); child = pcb_at k' q
      in cur_thread k' = cur_thread k \<and> q \<notin> dom (pcbs k) \<and>
         cur_process k' = (cur_process k)\<lparr>cp := (cp (cur_process k))[i := q]\<rparr> \<and>
         fd child = fd (cur_process k) \<and> sp child = sp (cur_process k) \<and> cp child = replicate 10 0 \<and>
         \<not> isReady (fut_at k' (future child)) \<and> user_start (tcb_at k' t) = w \<and>
         ths k' = schedule t ((ths k)\<lparr>isIdle := (isIdle (ths k))(t := False)\<rparr>) \<and>
         apart cfg start (tpd (tcb_at k' t)) pd (pm k') \<and>
         (\<forall>x\<in>user_area cfg. ubyte (tpd (tcb_at k' t)) (pm k') x = ubyte pd (pm k) x \<and>
            ubyte pd (pm k') x = ubyte pd (pm k) x))"

lemma fork_effect:
  assumes K: "kernel_ok k" and z: "first (zombies (ths k)) = 0" and fresh: "addr_of e (next_ref k) \<notin> dom (tcbs k)"
    and S: "space_inv (kConfig e) start (tpd (cur_thread k)) (pm k)" and pr: "unshared (kConfig e) (shared e) (tpd (cur_thread k)) (pm k)"
    and a: "as_inv start (pm k) (shared e)" and mem: "memSize (kConfig e) \<le> 0x80000000"
    and dev: "frame_offset (ioAPIC (kConfig e)) = 0" "frame_offset (localAPIC (kConfig e)) = 0"
      "0x80000000 \<le> ioAPIC (kConfig e)" "0x80000000 \<le> localAPIC (kConfig e)"
    and i: "i < 10" "cp (cur_process k) ! i = 0" "\<forall>j<i. cp (cur_process k) ! j \<noteq> 0"
  shows "succeeds out_of_frames (fork_sys e eip esp k) (\<lambda>(x, k'). x = Ret (of_nat i + 20) \<and>
    forked_child e (kConfig e) start (eip, esp) i k k')"
proof (cases "makeThread e (eip, esp) k")
  case (Inl f)
  then show ?thesis using makeThread_effect [OF K z fresh S pr a mem dev, of "(eip, esp)"] by (simp add: fork_sys_def)
next
  case (Inr r)
  obtain t k1 where mk: "makeThread e (eip, esp) k = Inr (t, k1)" using Inr by (cases r) auto
  have "thread_made e (kConfig e) start (eip, esp) k t k1"
    using makeThread_effect [OF K z fresh S pr a mem dev, of "(eip, esp)"] by (simp add: mk)
  then obtain q pd where t: "t = addr_of e (next_ref k)" "cur_thread k1 = cur_thread k" "cur_process k1 = cur_process k" "cur k1 = cur k"
    "ths k1 = (ths k)\<lparr>isIdle := (isIdle (ths k))(t := False)\<rparr>"
    and q: "tcb_at k1 t = \<lparr>process = q, tpd = pd, user_start = (eip, esp)\<rparr>" "q \<notin> dom (pcbs k)" "q \<noteq> process (cur_thread k)"
    "cp (pcb_at k1 q) = replicate 10 0" "\<not> isReady (fut_at k1 (future (pcb_at k1 q)))"
    and A: "apart (kConfig e) start pd (tpd (cur_thread k)) (pm k1)" "kept (kConfig e) (tpd (cur_thread k)) (pm k) (pm k1)"
    "\<And>x. x\<in>user_area (kConfig e) \<Longrightarrow> translate (pmem (pm k1)) pd x = None"
    unfolding thread_made_def by blast
  note P = pcb_okD [OF kernel_okD(4) [OF K]]
  have sc: "scan_child (cp (cur_process k)) 0 = i" by (rule scan_child_first [OF i(1,2)]) (use i(3) in auto)
  have eq: "map (\<lambda>i. fd (cur_process k) ! i) [0..<10] = fd (cur_process k)" "map (\<lambda>i. sp (cur_process k) ! i) [0..<10] = sp (cur_process k)"
    using P(6,8) map_nth [of "fd (cur_process k)"] map_nth [of "sp (cur_process k)"] by simp_all
  let ?c = "(pcb_at k1 q)\<lparr>fd := fd (cur_process k), sp := sp (cur_process k)\<rparr>"
  let ?k3 = "k1\<lparr>pcbs := (pcbs k1)(process (cur_thread k) \<mapsto> (cur_process k)\<lparr>cp := (cp (cur_process k))[i := q]\<rparr>, q \<mapsto> ?c)\<rparr>"
  have G: "succeeds out_of_frames (fork_dirs (kConfig e) (tpd (cur_thread k)) pd 512 512 (pm k1)) (\<lambda>s'.
      apart (kConfig e) start pd (tpd (cur_thread k)) s' \<and>
      (\<forall>x\<in>user_area (kConfig e). ubyte pd s' x = ubyte (tpd (cur_thread k)) (pm k) x \<and>
         ubyte (tpd (cur_thread k)) s' x = ubyte (tpd (cur_thread k)) (pm k) x))"
    by (rule succeeds_mono [OF fork_copies [OF A(1) dev(1,2) A(3)]]) (use keptD(5) [OF A(2)] in auto)
  have ct: "cur_thread ?k3 = cur_thread k" "tcb_at ?k3 t = tcb_at k1 t"
    using t(2) by (simp_all add: cur_thread_def tcb_at_def)
  have k3: "(set_process ((cur_process k)\<lparr>cp := (cp (cur_process k))[i := q]\<rparr>) k1)\<lparr>pcbs :=
        (pcbs (set_process ((cur_process k)\<lparr>cp := (cp (cur_process k))[i := q]\<rparr>) k1))(q \<mapsto>
          (pcb_at (set_process ((cur_process k)\<lparr>cp := (cp (cur_process k))[i := q]\<rparr>) k1) q)\<lparr>fd := fd (cur_process k), sp := sp (cur_process k)\<rparr>)\<rparr> = ?k3"
    using q(3) t(2) by (simp add: set_process_def pcb_at_def)
  have i10: "i \<noteq> 10" using i(1) by simp
  have pq: "process (tcb_at k1 t) = q" "tpd (tcb_at k1 t) = pd" "user_start (tcb_at k1 t) = (eip, esp)" by (simp_all add: q(1))
  have run: "fork_sys e eip esp k = rbind (upd_mem (fork_dirs (kConfig e) (tpd (cur_thread k)) pd 512 512) ?k3)
      (\<lambda>k4. ret (of_nat i + 20) (schedule_k t k4))"
    unfolding fork_sys_def mk rbind_simps prod.case t(3) Let_def sc pq(1) eq k3 ct pq(2) if_not_P [OF i10] ..
  have "forked_child e (kConfig e) start (eip, esp) i k (schedule_k t (?k3\<lparr>pm := s'\<rparr>))"
    if "apart (kConfig e) start pd (tpd (cur_thread k)) s'"
      "\<forall>x\<in>user_area (kConfig e). ubyte pd s' x = ubyte (tpd (cur_thread k)) (pm k) x \<and>
         ubyte (tpd (cur_thread k)) s' x = ubyte (tpd (cur_thread k)) (pm k) x" for s'
  proof -
    let ?k4 = "schedule_k t (?k3\<lparr>pm := s'\<rparr>)"
    have k4: "cur_thread ?k4 = cur_thread k" "tcb_at ?k4 t = tcb_at k1 t" "pm ?k4 = s'" "pcb_at ?k4 q = ?c"
      "cur_process ?k4 = (cur_process k)\<lparr>cp := (cp (cur_process k))[i := q]\<rparr>" "ths ?k4 = schedule t (ths k1)"
      "fut_at ?k4 f = fut_at k1 f" for f
      using t(2) q(3) by (simp_all add: schedule_k_def cur_thread_def tcb_at_def pcb_at_def cur_process_def fut_at_def)
    show ?thesis unfolding forked_child_def Let_def t(1) [symmetric] k4 pq using that q t(5) by simp
  qed
  then show ?thesis unfolding run upd_mem_def
    using G by (cases "fork_dirs (kConfig e) (tpd (cur_thread k)) pd 512 512 (pm k1)") (auto simp: ret_def)
qed

text \<open>C16: \<^verbatim>\<open>fork\<close>.  With a free child slot, no zombies waiting and an address space in order, the call
  fails only when the machine runs out of frames.  Otherwise the parent gets the number of the
  first free slot, which now holds the child; the child is a new process with the parent's open
  files and semaphores (the same objects), no children and an exit code not yet set, whose thread
  is in the ready queue and starts where the parent called; every byte of its user memory is the
  parent's at the call, the parent's memory is as it was, and from here on the two address spaces
  share no frame either of them writes to.\<close>

theorem fork_spec:
  assumes "kernel_ok k" "first (zombies (ths k)) = 0" "addr_of e (next_ref k) \<notin> dom (tcbs k)"
    "space_inv (kConfig e) start (tpd (cur_thread k)) (pm k)" "unshared (kConfig e) (shared e) (tpd (cur_thread k)) (pm k)"
    "as_inv start (pm k) (shared e)" "memSize (kConfig e) \<le> 0x80000000"
    "frame_offset (ioAPIC (kConfig e)) = 0" "frame_offset (localAPIC (kConfig e)) = 0"
    "0x80000000 \<le> ioAPIC (kConfig e)" "0x80000000 \<le> localAPIC (kConfig e)"
    "i < 10" "cp (cur_process k) ! i = 0" "\<forall>j<i. cp (cur_process k) ! j \<noteq> 0"
  shows "succeeds out_of_frames (fork_sys e eip esp k) (\<lambda>(x, k'). x = Ret (of_nat i + 20) \<and>
    forked_child e (kConfig e) start (eip, esp) i k k')"
  by (rule fork_effect [OF assms])

lemma fork_spec_witness:
  "\<exists>sh pd s. succeeds out_of_frames (fork_sys (demo_machine\<lparr>shared := sh\<rparr>) 0x80000000 0xEFFFE000 (two_processes pd s)) (\<lambda>(x, k').
     x = Ret 21 \<and> (\<exists>q. cp (cur_process k') = 7 # q # replicate 8 0 \<and> q \<noteq> 7 \<and> fd (pcb_at k' q) = two_fd))"
proof -
  obtain s pd sh where a: "as_inv 0x1000 s pd" "as_inv 0x1000 s sh" "tables (pmem s) pd = {}" "tables (pmem s) sh = {}"
    by (rule vm_example2)
  let ?e = "demo_machine\<lparr>shared := sh\<rparr>" and ?k = "two_processes pd s"
  have S: "space_inv config_zero 0x1000 pd s" by (rule empty_space(1) [OF a(1)]) (rule no_tables [OF a(3)])
  have u: "unshared config_zero sh pd s" by (simp add: unshared_def a(4))
  have c: "cur_process ?k = \<lparr>future = 5, fd = two_fd, cp = 7 # replicate 9 0, sp = replicate 10 0\<rparr>"
    by (simp add: cur_process_def pcb_at_def two_processes_fields two_pcbs_def)
  have f: "frame_offset 0xFEC00000 = 0" "frame_offset 0xFEE00000 = 0" by (simp_all add: frame_offset_0 aligned_def)
  have "succeeds out_of_frames (fork_sys ?e 0x80000000 0xEFFFE000 ?k) (\<lambda>(x, k'). x = Ret (of_nat 1 + 20) \<and>
    forked_child ?e (kConfig ?e) 0x1000 (0x80000000, 0xEFFFE000) 1 ?k k')"
    by (rule fork_spec [OF two_processes_ok])
      (use S u a(2) in \<open>simp_all add: demo_machine_def two_processes_fields c f config_zero_def, simp_all add: two_processes_def idle_threads_def empty_queue_def\<close>)
  then have "succeeds out_of_frames (fork_sys ?e 0x80000000 0xEFFFE000 ?k) (\<lambda>(x, k').
     x = Ret 21 \<and> (\<exists>q. cp (cur_process k') = 7 # q # replicate 8 0 \<and> q \<noteq> 7 \<and> fd (pcb_at k' q) = two_fd))"
    by (rule succeeds_mono)
      (auto simp: forked_child_def Let_def c two_processes_fields two_doms demo_machine_def numeral_eq_Suc)
  then show ?thesis by blast
qed

end
