(* ===== verification/Devices.thy ===== *)
theory Devices
  imports Kernel_Config OS_Prelude
begin

text \<open>
  The devices that the kernel drives by polling and by stores to their registers: the interrupt descriptor
  table (\<^verbatim>\<open>kernel/idt.cc\<close>), the local interrupt controller (\<^verbatim>\<open>kernel/smp.h\<close>, \<^verbatim>\<open>kernel/smp.cc\<close>), the timers
  (\<^verbatim>\<open>kernel/pit.cc\<close>).
  What a device answers is an argument: \<open>port n\<close> is what the \<open>n\<close>th read of a port or register gives.  What the
  code writes is a list of writes in their order.
\<close>

section \<open>Registers and ports\<close>

datatype dev_write =
    Outb u16 u8
  | Store u32 u32
  | Wrmsr u32 u64

text \<open>A loop that reads until the value is as it should be: the number of reads made so far.\<close>

partial_function (option) poll :: "('v \<Rightarrow> bool) \<Rightarrow> (nat \<Rightarrow> 'v) \<Rightarrow> nat \<Rightarrow> nat option" where
  "poll good port i = (if good (port i) then Some (Suc i) else poll good port (Suc i))"

lemma poll_least:
  assumes "i \<le> j" and "good (port j)" and "\<forall>k. i \<le> k \<and> k < j \<longrightarrow> \<not> good (port k)"
  shows "poll good port i = Some (Suc j)"
  using assms
proof (induction "j - i" arbitrary: i)
  case 0
  then show ?case by (subst poll.simps) simp
next
  case (Suc d)
  then have "\<not> good (port i)" "d = j - Suc i" "Suc i \<le> j" by auto
  then show ?case using Suc by (subst poll.simps) auto
qed

lemma poll_raw: "poll good port i = Some n \<Longrightarrow> \<exists>j. n = Suc j \<and> i \<le> j \<and> good (port j) \<and> (\<forall>k. i \<le> k \<and> k < j \<longrightarrow> \<not> good (port k))"
proof (induction good port i n rule: poll.raw_induct [rotated, consumes 1])
  case (1 g good port i n)
  show ?case
  proof (cases "good (port i)")
    case True
    then show ?thesis using 1(2) by auto
  next
    case False
    then obtain j where j: "n = Suc j" "Suc i \<le> j" "good (port j)" "\<forall>k. Suc i \<le> k \<and> k < j \<longrightarrow> \<not> good (port k)"
      using 1(1) [of good port "Suc i" n] 1(2) by auto
    have "\<not> good (port k)" if "i \<le> k" "k < j" for k using j(4) False that by (cases "k = i") auto
    then show ?thesis using j by auto
  qed
qed

lemma poll_never: "poll good port i = None \<longleftrightarrow> (\<forall>j \<ge> i. \<not> good (port j))"
proof
  assume n: "poll good port i = None"
  show "\<forall>j \<ge> i. \<not> good (port j)"
  proof (intro allI impI notI)
    fix j assume "i \<le> j" "good (port j)"
    then have j: "\<exists>j. i \<le> j \<and> good (port j)" by blast
    define m where "m = (LEAST j. i \<le> j \<and> good (port j))"
    have "i \<le> m" "good (port m)" using LeastI_ex [OF j] by (simp_all add: m_def)
    moreover have "\<forall>k. i \<le> k \<and> k < m \<longrightarrow> \<not> good (port k)" using not_less_Least unfolding m_def by blast
    ultimately have "poll good port i = Some (Suc m)" by (rule poll_least)
    then show False using n by simp
  qed
next
  assume "\<forall>j \<ge> i. \<not> good (port j)"
  then show "poll good port i = None" using poll_raw [of good port i] by (cases "poll good port i") auto
qed

section \<open>The interrupt descriptor table\<close>

text \<open>The table has 256 entries of two words.  A store to an element that it does not have fails.\<close>

definition set_word :: "int \<Rightarrow> u32 \<Rightarrow> u32 list \<Rightarrow> u32 list res" where
  "set_word i v idt = (if 0 \<le> i \<and> nat i < length idt then Inr (idt[nat i := v]) else Inl (OutOfBounds ''idt''))"

function idt_end :: "u32 list \<Rightarrow> nat \<Rightarrow> nat res" where
  "idt_end idt i =
     (if length idt \<le> i then Inl (OutOfBounds ''idt'') else if idt ! i \<noteq> 0 then idt_end idt (i + 1) else Inr i)"
  by pat_completeness auto
termination by (relation "measure (\<lambda>(idt, i). length idt - i)") auto

declare idt_end.simps [simp del]

definition IDT_interrupt :: "u32 \<Rightarrow> int \<Rightarrow> u32 \<Rightarrow> u32 list \<Rightarrow> u32 list res" where
  "IDT_interrupt kernelCS index handler idt =
     rbind (idt_end idt 0) (\<lambda>i.
       let i0 = 2 * index; i1 = i0 + 1
       in rbind (set_word i0 (push_bit 16 kernelCS + (handler AND 0xffff)) idt)
            (set_word i1 ((handler AND 0xffff0000) OR 0x8e00)))"

definition IDT_trap :: "u32 \<Rightarrow> int \<Rightarrow> u32 \<Rightarrow> u32 \<Rightarrow> u32 list \<Rightarrow> u32 list res" where
  "IDT_trap kernelCS index handler dpl idt =
     (let i0 = 2 * index; i1 = i0 + 1
      in rbind (set_word i0 (push_bit 16 kernelCS + (handler AND 0xffff)) idt)
           (set_word i1 ((handler AND 0xffff0000) OR 0x8f00 OR push_bit 13 dpl)))"

text \<open>How the processor reads a gate of the table.\<close>

record gate =
  g_offset :: u32
  g_selector :: u32
  g_type :: u32
  g_dpl :: u32
  g_present :: bool

definition decode_gate :: "u32 list \<Rightarrow> nat \<Rightarrow> gate" where
  "decode_gate idt v =
     (let lo = idt ! (2 * v); hi = idt ! (2 * v + 1)
      in \<lparr>g_offset = (hi AND 0xffff0000) OR (lo AND 0xffff), g_selector = drop_bit 16 lo,
          g_type = drop_bit 8 hi AND 0xf, g_dpl = drop_bit 13 hi AND 3, g_present = bit hi 15\<rparr>)"

text \<open>What a store of 16 bits over a half word gives, by its bits.\<close>

lemma low_half:
  fixes cs h :: u32
  assumes "cs < 0x10000"
  shows "drop_bit 16 (push_bit 16 cs + (h AND 0xffff)) = cs" and "(push_bit 16 cs + (h AND 0xffff)) AND 0xffff = h AND 0xffff"
proof -
  have m: "(0xffff :: u32) = mask 16" by (simp add: mask_eq_exp_minus_1)
  have "push_bit 16 cs AND (h AND 0xffff) = 0"
    by (rule bit_word_eqI) (auto simp: m bit_simps)
  then have o: "push_bit 16 cs + (h AND 0xffff) = push_bit 16 cs OR (h AND 0xffff)" by (rule disjunctive_add_eq_or)
  have "push_bit 16 cs = cs * 65536" by (simp add: push_bit_eq_mult)
  moreover have "unat cs < 65536" using assms by (simp add: word_less_nat_alt)
  ultimately have "drop_bit 16 (push_bit 16 cs) = cs"
    by (simp add: drop_bit_eq_div word_unat_eq_iff unat_div unat_word_ariths)
  moreover have "drop_bit 16 (h AND 0xffff) = 0" by (rule bit_word_eqI) (auto simp: m bit_simps)
  ultimately show "drop_bit 16 (push_bit 16 cs + (h AND 0xffff)) = cs" unfolding o by simp
  show "(push_bit 16 cs + (h AND 0xffff)) AND 0xffff = h AND 0xffff"
    unfolding o by (rule bit_word_eqI) (auto simp: m bit_simps)
qed

lemma high_half:
  fixes h dpl :: u32
  assumes "dpl < 4"
  defines "w \<equiv> (h AND 0xffff0000) OR 0x8f00 OR push_bit 13 dpl"
  shows "((h AND 0xffff0000) OR 0x8e00) AND 0xffff0000 = h AND 0xffff0000" and "w AND 0xffff0000 = h AND 0xffff0000"
    and "drop_bit 8 ((h AND 0xffff0000) OR 0x8e00) AND 0xf = 14" and "drop_bit 8 w AND 0xf = 15"
    and "drop_bit 13 ((h AND 0xffff0000) OR 0x8e00) AND 3 = 0" and "drop_bit 13 w AND 3 = dpl"
    and "bit ((h AND 0xffff0000) OR 0x8e00) 15" and "bit w 15"
    and "(h AND 0xffff0000) OR (h AND 0xffff) = h"
proof -
  have "dpl = 0 \<or> dpl = 1 \<or> dpl = 2 \<or> dpl = 3"
    using assms(1) by (auto simp: word_less_nat_alt word_unat_eq_iff)
  then consider "dpl = 0" | "dpl = 1" | "dpl = 2" | "dpl = 3" by blast
  note d = this
  note S = w_def and.assoc bit.conj_disj_distrib2 drop_bit_and drop_bit_or bit_or_iff
  show "((h AND 0xffff0000) OR 0x8e00) AND 0xffff0000 = h AND 0xffff0000" "drop_bit 8 ((h AND 0xffff0000) OR 0x8e00) AND 0xf = 14"
    "drop_bit 13 ((h AND 0xffff0000) OR 0x8e00) AND 3 = 0" "bit ((h AND 0xffff0000) OR 0x8e00) 15"
    by (simp_all add: S)
  show "w AND 0xffff0000 = h AND 0xffff0000" using d by cases (simp_all add: S)
  show "drop_bit 8 w AND 0xf = 15" using d by cases (simp_all add: S)
  show "drop_bit 13 w AND 3 = dpl" using d by cases (simp_all add: S)
  show "bit w 15" by (simp add: S)
  have "(h AND 0xffff0000) OR (h AND 0xffff) = h AND (0xffff0000 OR 0xffff)" by (simp only: bit.conj_disj_distrib)
  also have "(0xffff0000 OR 0xffff :: u32) = - 1" by simp
  finally show "(h AND 0xffff0000) OR (h AND 0xffff) = h" by simp
qed

lemma decode_two: "decode_gate [lo, hi] 0 =
    \<lparr>g_offset = (hi AND 0xffff0000) OR (lo AND 0xffff), g_selector = drop_bit 16 lo,
      g_type = drop_bit 8 hi AND 0xf, g_dpl = drop_bit 13 hi AND 3, g_present = bit hi 15\<rparr>"
  by (simp add: decode_gate_def)

lemma new_gates:
  assumes "cs < 0x10000" and "dpl < 4"
  shows "decode_gate [push_bit 16 cs + (h AND 0xffff), (h AND 0xffff0000) OR 0x8e00] 0 =
      \<lparr>g_offset = h, g_selector = cs, g_type = 14, g_dpl = 0, g_present = True\<rparr>"
    and "decode_gate [push_bit 16 cs + (h AND 0xffff), (h AND 0xffff0000) OR 0x8f00 OR push_bit 13 dpl] 0 =
      \<lparr>g_offset = h, g_selector = cs, g_type = 15, g_dpl = dpl, g_present = True\<rparr>"
  unfolding decode_two low_half [OF assms(1)] high_half(1-6,9) [OF assms(2)]
  using high_half(7,8) [OF assms(2), of h] by blast+

lemma idt_end_stops:
  assumes "z < length idt" and "idt ! z = 0" and "i \<le> z"
  shows "\<exists>k. idt_end idt i = Inr k"
  using assms
proof (induction idt i rule: idt_end.induct)
  case (1 idt i)
  then show ?case by (subst idt_end.simps) (cases "i = z"; auto)
qed

text \<open>Gates of the interrupt descriptor table.  For a vector below 256 and a table with a free word,
  \<^verbatim>\<open>IDT::interrupt\<close> and \<^verbatim>\<open>IDT::trap\<close> change the entry of that vector only, and the
  processor reads back from it the address of the handler, the kernel's code segment, the privilege level that may call it, and an interrupt gate (type 14)
  or a trap gate (type 15) that is present.  With any other vector the store is outside the table.\<close>

theorem idt_gates:
  assumes "length idt = 512" and "z < 512" and "idt ! z = 0" and "cs < 0x10000" and "dpl < 4"
  shows "if 0 \<le> v \<and> v < 256 then
      (\<exists>idt'. IDT_interrupt cs v handler idt = Inr idt' \<and>
         decode_gate idt' (nat v) = \<lparr>g_offset = handler, g_selector = cs, g_type = 14, g_dpl = 0, g_present = True\<rparr> \<and>
         (\<forall>w < 256. w \<noteq> nat v \<longrightarrow> decode_gate idt' w = decode_gate idt w)) \<and>
      (\<exists>idt'. IDT_trap cs v handler dpl idt = Inr idt' \<and>
         decode_gate idt' (nat v) = \<lparr>g_offset = handler, g_selector = cs, g_type = 15, g_dpl = dpl, g_present = True\<rparr> \<and>
         (\<forall>w < 256. w \<noteq> nat v \<longrightarrow> decode_gate idt' w = decode_gate idt w))
    else IDT_interrupt cs v handler idt = Inl (OutOfBounds ''idt'') \<and> IDT_trap cs v handler dpl idt = Inl (OutOfBounds ''idt'')"
proof -
  obtain k where k: "idt_end idt 0 = Inr k" using idt_end_stops [of z idt 0] assms(1-3) by auto
  show ?thesis
  proof (cases "0 \<le> v \<and> v < 256")
    case True
    then obtain n where n: "v = int n" "n < 256" by (metis nat_less_iff nat_0_le of_nat_numeral zle_int)
    have i: "nat (2 * int n) = 2 * n" "nat (2 * int n + 1) = 2 * n + 1" by simp_all
    have D: "decode_gate (idt[2 * n := lo, 2 * n + 1 := hi]) w =
        (if w = n then decode_gate [lo, hi] 0 else decode_gate idt w)" if "w < 256" for lo hi w
      using that n(2) assms(1) by (auto simp: decode_gate_def nth_list_update)
    show ?thesis
      using True n(2) assms(1) D new_gates [OF assms(4,5)]
      by (simp add: IDT_interrupt_def IDT_trap_def set_word_def k n(1) i Let_def)
  next
    case False
    then have "\<not> (0 \<le> 2 * v \<and> nat (2 * v) < 512)" by auto
    then show ?thesis using False assms(1) by (simp add: IDT_interrupt_def IDT_trap_def set_word_def k Let_def)
  qed
qed

lemma idt_gates_witness:
  "\<exists>idt'. IDT_trap 8 48 0x12345678 3 (replicate 512 0) = Inr idt' \<and>
     decode_gate idt' 48 = \<lparr>g_offset = 0x12345678, g_selector = 8, g_type = 15, g_dpl = 3, g_present = True\<rparr>"
  using idt_gates [of "replicate 512 0" 0 8 3 48 "0x12345678"] by auto

section \<open>The local interrupt controller\<close>

definition icr_low :: "config \<Rightarrow> u32" where "icr_low cfg = localAPIC cfg + 0x300"
definition icr_high :: "config \<Rightarrow> u32" where "icr_high cfg = localAPIC cfg + 0x310"
definition spurious :: "config \<Rightarrow> u32" where "spurious cfg = localAPIC cfg + 0xf0"
definition apit_lvt_timer :: "config \<Rightarrow> u32" where "apit_lvt_timer cfg = localAPIC cfg + 0x320"
definition apit_initial_count :: "config \<Rightarrow> u32" where "apit_initial_count cfg = localAPIC cfg + 0x380"
definition apit_divide :: "config \<Rightarrow> u32" where "apit_divide cfg = localAPIC cfg + 0x3e0"

text \<open>\<^verbatim>\<open>SMP::me\<close>, from the value of the register \<^verbatim>\<open>id\<close>.\<close>

definition SMP_me :: "u32 \<Rightarrow> u32" where "SMP_me v = drop_bit 24 v"

definition SMP_init :: "config \<Rightarrow> bool \<Rightarrow> u32 \<Rightarrow> u32 \<Rightarrow> u64 \<Rightarrow> u32 list \<Rightarrow> (dev_write list \<times> u32 list) res" where
  "SMP_init cfg isFirst kernelCS handler msr idt =
     rbind (if isFirst then IDT_interrupt kernelCS 0xff handler idt else Inr idt) (\<lambda>idt'.
       Inr ([Outb 0x21 0xff, Outb 0xa1 0xff, Wrmsr 0x1B (msr OR push_bit 11 1), Store (spurious cfg) 0x1ff], idt'))"

text \<open>\<^verbatim>\<open>SMP::ipi\<close>: \<open>icr n\<close> is the \<open>n\<close>th value that is read from the low half of the command register.\<close>

definition ipi :: "config \<Rightarrow> (nat \<Rightarrow> u32) \<Rightarrow> u32 \<Rightarrow> u32 \<Rightarrow> nat \<Rightarrow> (dev_write list \<times> nat) option" where
  "ipi cfg icr to num i =
     map_option (\<lambda>j. ([Store (icr_high cfg) (push_bit 24 to), Store (icr_low cfg) num], j))
       (poll (\<lambda>v. v AND push_bit 12 1 = 0) icr i)"

text \<open>The two messages with which \<^verbatim>\<open>kernelInit\<close> starts another processor.\<close>

definition wake_core :: "config \<Rightarrow> (nat \<Rightarrow> u32) \<Rightarrow> u32 \<Rightarrow> u32 \<Rightarrow> nat \<Rightarrow> (dev_write list \<times> nat) option" where
  "wake_core cfg icr resetEIP to i =
     Option.bind (ipi cfg icr to 0x4500 i) (\<lambda>(ws, j).
     Option.bind (ipi cfg icr to (0x4600 OR drop_bit 12 resetEIP) j) (\<lambda>(ws', k). Some (ws @ ws', k)))"

text \<open>The last store of the sequence is a start-up message, and the page that it names is that of the entry point.\<close>

lemma start_message:
  fixes resetEIP :: u32
  assumes "resetEIP AND 0xfff = 0" and "resetEIP < 0x100000"
  shows "push_bit 12 ((0x4600 OR drop_bit 12 resetEIP) AND 0xff) = resetEIP"
    and "drop_bit 8 (0x4600 OR drop_bit 12 resetEIP) AND 7 = 6"
proof -
  have m: "(0xff :: u32) = mask 8" "(0xfff :: u32) = mask 12" by (simp_all add: mask_eq_exp_minus_1)
  have "unat resetEIP < 2 ^ 20" using assms(2) by (simp add: word_less_nat_alt)
  then have "drop_bit 20 resetEIP = 0" by (simp add: drop_bit_eq_div word_unat_eq_iff unat_div)
  then have hi: "\<not> bit resetEIP k" if "20 \<le> k" for k
  proof -
    have "bit resetEIP k = bit (drop_bit 20 resetEIP) (k - 20)" using that by (simp add: bit_drop_bit_eq)
    then show ?thesis using \<open>drop_bit 20 resetEIP = 0\<close> by simp
  qed
  have lo: "\<not> bit resetEIP k" if "k < 12" for k
  proof -
    have "\<not> bit (resetEIP AND 0xfff) k" using assms(1) by simp
    then show ?thesis using that by (simp only: m bit_and_iff bit_mask_iff) simp
  qed
  have A: "drop_bit 12 resetEIP AND 0xff = drop_bit 12 resetEIP"
  proof (rule bit_word_eqI)
    fix n
    show "bit (drop_bit 12 resetEIP AND 0xff) n \<longleftrightarrow> bit (drop_bit 12 resetEIP) n"
      using hi [of "12 + n"] by (cases "n < 8") (auto simp: m bit_simps)
  qed
  have "(0x4600 OR drop_bit 12 resetEIP) AND 0xff = drop_bit 12 resetEIP"
    by (simp add: bit.conj_disj_distrib2 A)
  moreover have "push_bit 12 (drop_bit 12 resetEIP) = resetEIP"
  proof (rule bit_word_eqI)
    fix n assume "n < LENGTH(32)"
    then show "bit (push_bit 12 (drop_bit 12 resetEIP)) n \<longleftrightarrow> bit resetEIP n"
      using lo [of n] by (cases "n < 12") (auto simp: bit_simps)
  qed
  ultimately show "push_bit 12 ((0x4600 OR drop_bit 12 resetEIP) AND 0xff) = resetEIP" by simp
  have "drop_bit 8 (drop_bit 12 resetEIP) = 0" by (rule bit_word_eqI) (use hi in \<open>auto simp: bit_simps\<close>)
  then show "drop_bit 8 (0x4600 OR drop_bit 12 resetEIP) AND 7 = 6" by (simp add: drop_bit_or)
qed

section \<open>The timers\<close>

record pit =
  jiffiesPerSecond :: u32
  apitCounter :: u32

definition PIT_FREQ :: u32 where "PIT_FREQ = 1193182"
definition APIT_vector :: u32 where "APIT_vector = 40"

text \<open>The loop that counts 40 changes of bit 5 of port \<^verbatim>\<open>0x61\<close>.\<close>

partial_function (option) pit_wait :: "(nat \<Rightarrow> u8) \<Rightarrow> nat \<Rightarrow> u8 \<Rightarrow> u32 \<Rightarrow> nat option" where
  "pit_wait port i prev changes =
     (if changes < 40 then
        let t = port i AND 0x20
        in if t \<noteq> prev then pit_wait port (Suc i) t (changes + 1) else pit_wait port (Suc i) prev changes
      else Some i)"

text \<open>\<^verbatim>\<open>Pit::calibrate\<close>: \<open>count n\<close> is the value of the counter of the local timer after \<open>n\<close> reads of the port.  \<open>None\<close>
  is a loop that never ends.  The messages and the allocation of an empty object are left out.\<close>

definition Pit_calibrate :: "config \<Rightarrow> u32 \<Rightarrow> u32 \<Rightarrow> u32 \<Rightarrow> (nat \<Rightarrow> u8) \<Rightarrow> (nat \<Rightarrow> u32) \<Rightarrow> u32 list \<Rightarrow>
    (pit \<times> dev_write list \<times> u32 list) res option" where
  "Pit_calibrate cfg kernelCS handler hz port count idt =
     (let d = PIT_FREQ div 20; d = (if d AND 0xffff \<noteq> d then 0xffff else d);
          initial = 0xffffffff;
          ws = [Store (apit_lvt_timer cfg) 0x00010000, Store (apit_divide cfg) 0x0000000B,
            Store (apit_initial_count cfg) initial, Outb 0x61 1, Outb 0x43 0b10110110,
            Outb 0x42 (ucast d), Outb 0x42 (ucast (drop_bit 8 d))];
          prev = port 0 AND 0x20
      in map_option (\<lambda>n.
           let diff = initial - count n
           in if hz = 0 then Inl DivideByZero
              else rbind (IDT_interrupt kernelCS (uint APIT_vector) handler idt) (\<lambda>idt'.
                Inr (\<lparr>jiffiesPerSecond = hz, apitCounter = diff div hz\<rparr>, ws @ [Outb 0x61 0], idt')))
         (pit_wait port 1 prev 0))"

definition Pit_init :: "config \<Rightarrow> pit \<Rightarrow> dev_write list res" where
  "Pit_init cfg p =
     (if apitCounter p = 0 then Inl (Panic ''apiCounter == 0, did you call Pit::calibrate?'')
      else Inr [Store (apit_divide cfg) 0x0000000B,
        Store (apit_lvt_timer cfg) (push_bit 17 1 OR push_bit 16 0 OR APIT_vector),
        Store (apit_initial_count cfg) (apitCounter p)])"

definition secondsToJiffies :: "pit \<Rightarrow> u32 \<Rightarrow> u32" where
  "secondsToJiffies p secs = jiffiesPerSecond p * secs"

definition Pit_seconds :: "pit \<Rightarrow> u32 \<Rightarrow> u32 res" where
  "Pit_seconds p jiffies = (if jiffiesPerSecond p = 0 then Inl DivideByZero else Inr (jiffies div jiffiesPerSecond p))"

text \<open>How often the bit changed within the first \<open>n\<close> reads.\<close>

definition toggles :: "(nat \<Rightarrow> u8) \<Rightarrow> nat \<Rightarrow> nat" where
  "toggles port n = length (filter (\<lambda>j. port j AND 0x20 \<noteq> port (j - 1) AND 0x20) [1..<n])"

lemma toggles_Suc:
  "1 \<le> n \<Longrightarrow> toggles port (Suc n) = toggles port n + (if port n AND 0x20 \<noteq> port (n - 1) AND 0x20 then 1 else 0)"
  by (simp add: toggles_def)

lemma toggles_mono: "m \<le> n \<Longrightarrow> toggles port m \<le> toggles port n"
proof (induction n rule: dec_induct)
  case (step n)
  then show ?case by (cases n) (auto simp: toggles_Suc toggles_def)
qed simp

lemma pit_wait_at:
  assumes "toggles port n = 40" and "toggles port (n - 1) = 39" and "1 \<le> i" and "i \<le> n"
  shows "pit_wait port i (port (i - 1) AND 0x20) (of_nat (toggles port i)) = Some n"
  using assms(3,4)
proof (induction "n - i" arbitrary: i)
  case 0
  then show ?case using assms(1) by (subst pit_wait.simps) simp
next
  case (Suc d)
  have "toggles port i \<le> 39" using toggles_mono [of i "n - 1" port] assms(2) Suc.hyps(2) by simp
  then have "(of_nat (toggles port i) :: u32) < 40"
    by (simp add: word_less_nat_alt unsigned_of_nat take_bit_nat_eq_self)
  moreover have "pit_wait port (Suc i) (port i AND 0x20) (of_nat (toggles port (Suc i))) = Some n"
    using Suc.hyps(1) [of "Suc i"] Suc.hyps(2) Suc.prems by simp
  ultimately show ?case
    by (subst pit_wait.simps) (use Suc.prems toggles_Suc [of i port] in \<open>auto simp: Let_def add.commute\<close>)
qed

lemma pit_wait_ends:
  "pit_wait port i prev changes = Some n \<Longrightarrow> 1 \<le> i \<Longrightarrow> prev = port (i - 1) AND 0x20 \<Longrightarrow>
     changes = of_nat (toggles port i) \<Longrightarrow> toggles port i \<le> 40 \<Longrightarrow> 40 \<le> toggles port n"
proof (induction port i prev changes n rule: pit_wait.raw_induct [rotated, consumes 1])
  case (1 g port i prev changes n)
  show ?case
  proof (cases "toggles port i = 40")
    case True
    then show ?thesis using 1 by (auto split: if_splits)
  next
    case False
    then have "toggles port i < 40" using 1 by simp
    then have "(of_nat (toggles port i) :: u32) < 40"
      by (simp add: word_less_nat_alt unsigned_of_nat take_bit_nat_eq_self)
    then show ?thesis using 1(2-) 1(1) [of port "Suc i" _ _ n] toggles_Suc [of i port] \<open>toggles port i < 40\<close>
      by (auto simp: Let_def add.commute split: if_splits)
  qed
qed

lemma word_div_eq_0: "hz \<noteq> 0 \<Longrightarrow> x div hz = 0 \<longleftrightarrow> x < hz" for x hz :: u32
  by (simp add: word_unat_eq_iff unat_div word_less_nat_alt div_eq_0_iff)

text \<open>C32: The timer's frequency.  \<^verbatim>\<open>Pit::calibrate\<close> programs the old timer with the divider 59659 and
  returns after the read with which bit 5 of the port changed for the 40th time; the ticks of the local timer in between, divided by
  the frequency asked for, are the count that \<^verbatim>\<open>Pit::init\<close> gives to the local timer, in periodic mode with vector 40.
  If the ticks are fewer than the frequency, \<^verbatim>\<open>Pit::init\<close> panics; a frequency of 0 is a division
  by zero; if the bit does not change 40 times, \<^verbatim>\<open>calibrate\<close> does not return.\<close>

theorem timer_calibrated:
  assumes "length idt = 512" and "z < 512" and "idt ! z = 0"
  shows "((\<forall>n. toggles port n < 40) \<longrightarrow> Pit_calibrate cfg cs handler hz port count idt = None) \<and>
    (\<forall>n. toggles port n = 39 \<and> toggles port (n + 1) = 40 \<longrightarrow>
      (let ticks = 0xffffffff - count (n + 1)
       in if hz = 0 then Pit_calibrate cfg cs handler hz port count idt = Some (Inl DivideByZero)
          else (\<exists>idt'. IDT_interrupt cs 40 handler idt = Inr idt' \<and>
            Pit_calibrate cfg cs handler hz port count idt = Some (Inr (\<lparr>jiffiesPerSecond = hz, apitCounter = ticks div hz\<rparr>,
              [Store (localAPIC cfg + 0x320) 0x10000, Store (localAPIC cfg + 0x3e0) 0xB, Store (localAPIC cfg + 0x380) 0xffffffff,
               Outb 0x61 1, Outb 0x43 0xB6, Outb 0x42 0x0B, Outb 0x42 0xE9, Outb 0x61 0], idt')) \<and>
            Pit_init cfg \<lparr>jiffiesPerSecond = hz, apitCounter = ticks div hz\<rparr> =
              (if ticks < hz then Inl (Panic ''apiCounter == 0, did you call Pit::calibrate?'')
               else Inr [Store (localAPIC cfg + 0x3e0) 0xB, Store (localAPIC cfg + 0x320) 0x20028,
                 Store (localAPIC cfg + 0x380) (ticks div hz)]))))"
proof -
  obtain k where k: "idt_end idt 0 = Inr k" using idt_end_stops [of z idt 0] assms by auto
  then obtain idt' where i: "IDT_interrupt cs 40 handler idt = Inr idt'"
    using assms(1) by (simp add: IDT_interrupt_def set_word_def Let_def)
  have t1: "toggles port 1 = 0" by (simp add: toggles_def)
  have "pit_wait port 1 (port 0 AND 0x20) 0 = None" if n: "\<forall>n. toggles port n < 40"
  proof (cases "pit_wait port 1 (port 0 AND 0x20) 0")
    case (Some m)
    have "40 \<le> toggles port m" by (rule pit_wait_ends [OF Some]) (simp_all add: t1 [unfolded One_nat_def])
    then show ?thesis using n [rule_format, of m] by simp
  qed simp
  then have never: "(\<forall>n. toggles port n < 40) \<longrightarrow> Pit_calibrate cfg cs handler hz port count idt = None"
    by (auto simp: Pit_calibrate_def Let_def)
  have w: "pit_wait port 1 (port 0 AND 0x20) 0 = Some (n + 1)" if "toggles port n = 39" "toggles port (n + 1) = 40" for n
    using pit_wait_at [of port "n + 1" 1] that by (simp add: t1 [unfolded One_nat_def])
  show ?thesis
    by (intro conjI never allI impI)
      (auto simp: Pit_calibrate_def Pit_init_def PIT_FREQ_def APIT_vector_def Let_def w [simplified] i word_div_eq_0
        apit_lvt_timer_def apit_divide_def apit_initial_count_def)
qed

definition apic_config :: config where
  "apic_config = \<lparr>memSize = 0x8000000, nOtherProcs = 0, totalProcs = 1, localAPIC = 0xFEE00000, madtFlags = 0,
     ioAPIC = 0xFEC00000, apicInfo = [], oemid = []\<rparr>"

lemma timer_calibrated_witness:
  "\<exists>p ws idt'. Pit_calibrate apic_config 8 0x1234 1000 (\<lambda>i. if even i then 0x20 else 0) (\<lambda>n. 0xffffffff - 1000 * of_nat n)
     (replicate 512 0) = Some (Inr (p, ws, idt')) \<and> apitCounter p = 41"
proof -
  let ?port = "\<lambda>i. if even i then 0x20 else 0 :: u8"
  have "?port j AND 0x20 \<noteq> ?port (j - 1) AND 0x20" if "j \<in> set [1..<n]" for j n
    using that by auto
  then have "toggles ?port n = n - 1" for n unfolding toggles_def by (subst filter_True) auto
  then show ?thesis
    using timer_calibrated [of "replicate 512 0" 0 ?port apic_config 8 "0x1234" 1000 "\<lambda>n. 0xffffffff - 1000 * of_nat n"]
    by (auto dest!: spec [of _ 40])
qed

end
