(* ===== verification/Keyboard.thy ===== *)
theory Keyboard
  imports Sys_Spec Devices
begin

text \<open>
  The keyboard, \<^verbatim>\<open>kernel/keyboard.cc\<close>: the interrupt handler turns scan codes into letters, echoes
  them and collects a line in \<^verbatim>\<open>buf\<close>, which the shell reads in place and gives back with the system
  call that clears it.
\<close>

section \<open>Scan codes\<close>

definition scanCodeToLetter :: "u32 \<Rightarrow> u8" where
  "scanCodeToLetter code =
     (if code = 0x1e then of_char CHR ''a''
      else if code = 0x30 then of_char CHR ''b''
      else if code = 0x2e then of_char CHR ''c''
      else if code = 0x20 then of_char CHR ''d''
      else if code = 0x12 then of_char CHR ''e''
      else if code = 0x21 then of_char CHR ''f''
      else if code = 0x22 then of_char CHR ''g''
      else if code = 0x23 then of_char CHR ''h''
      else if code = 0x17 then of_char CHR ''i''
      else if code = 0x24 then of_char CHR ''j''
      else if code = 0x25 then of_char CHR ''k''
      else if code = 0x26 then of_char CHR ''l''
      else if code = 0x32 then of_char CHR ''m''
      else if code = 0x31 then of_char CHR ''n''
      else if code = 0x18 then of_char CHR ''o''
      else if code = 0x19 then of_char CHR ''p''
      else if code = 0x10 then of_char CHR ''q''
      else if code = 0x13 then of_char CHR ''r''
      else if code = 0x1f then of_char CHR ''s''
      else if code = 0x14 then of_char CHR ''t''
      else if code = 0x16 then of_char CHR ''u''
      else if code = 0x2f then of_char CHR ''v''
      else if code = 0x11 then of_char CHR ''w''
      else if code = 0x2d then of_char CHR ''x''
      else if code = 0x15 then of_char CHR ''y''
      else if code = 0x2c then of_char CHR ''z''
      else if code = 0x1c then 10
      else if code = 0x39 then of_char CHR '' ''
      else if code = 0x35 then of_char CHR ''/''
      else if code = 0x34 then of_char CHR ''.''
      else if code = 0x2b then of_char CHR ''|''
      else 0)"

section \<open>The interrupt handler\<close>

text \<open>
  \<open>status\<close> and \<open>code\<close> are what the ports \<open>0x64\<close> and \<open>0x60\<close> give; the result names the ports
  written.  (The status is stored and never looked at.)  A store behind the end of \<^verbatim>\<open>buf\<close> is a fault.
\<close>

type_synonym port_write = "u32 \<times> u32"

text \<open>Start-up: no line is ready, only the keyboard's line of the interrupt controller is open, and vector 9 gets
  the entry point \<open>handler\<close>, which the linker places.\<close>

definition kbd_init :: "u32 \<Rightarrow> u32 \<Rightarrow> u32 list \<Rightarrow> 's kernel \<Rightarrow> ('s kernel \<times> port_write list \<times> u32 list) res" where
  "kbd_init kernelCS handler idt k =
     (let k1 = k\<lparr>kb := (kb k)\<lparr>kdone := False\<rparr>\<rparr>
      in rbind (IDT_interrupt kernelCS 9 handler idt) (\<lambda>idt1. Inr (k1, [(0x21, 0xfd)], idt1)))"

definition put_letter :: "u8 \<Rightarrow> keyboard \<Rightarrow> keyboard res" where
  "put_letter c b =
     (if length (kbuf b) \<le> unat (bufSize b) then Inl (OutOfBounds ''buf[bufSize]'')
      else Inr (b\<lparr>kbuf := (kbuf b)[unat (bufSize b) := c]\<rparr>))"

definition keyBoardHandler :: "u8 \<Rightarrow> u8 \<Rightarrow> 's kernel \<Rightarrow> ('s kernel \<times> port_write list) res" where
  "keyBoardHandler status code k =
     (let letter = scanCodeToLetter (ucast code)
      in rbind
           (if letter \<noteq> 0 then
              (let k1 = put_out [letter] k
               in if letter \<noteq> 10 then
                    rbind (put_letter letter (kb k1)) (\<lambda>b. Inr (k1\<lparr>kb := b\<lparr>bufSize := bufSize b + 1\<rparr>\<rparr>))
                  else rbind (put_letter 0 (kb k1)) (\<lambda>b. Inr (k1\<lparr>kb := b\<lparr>kdone := True\<rparr>\<rparr>)))
            else Inr k)
           (\<lambda>k2. Inr (k2, [(0x20, 0x20)])))"

text \<open>The interrupts of a series of keys, with the scan code of each.\<close>

fun keys :: "u8 list \<Rightarrow> 's kernel \<Rightarrow> 's kernel res" where
  "keys [] k = Inr k"
| "keys (c # cs) k = rbind (keyBoardHandler 0 c k) (\<lambda>(k1, w). keys cs k1)"

section \<open>A line\<close>

definition empty_line :: keyboard where
  "empty_line = \<lparr>kbuf = replicate 50 0, bufSize = 0, kdone = False\<rparr>"

text \<open>What a series of scan codes types, and the part of it that goes into the line.\<close>

definition typed :: "u8 list \<Rightarrow> u8 list" where
  "typed cs = filter (\<lambda>c. c \<noteq> 0) (map (\<lambda>c. scanCodeToLetter (ucast c)) cs)"

definition line_of :: "u8 list \<Rightarrow> u8 list" where
  "line_of cs = filter (\<lambda>c. c \<noteq> 10) (typed cs)"

lemma typed_simps [simp]:
  "typed [] = []" "line_of [] = []"
  "typed (cs @ [c]) = typed cs @ (if scanCodeToLetter (ucast c) = 0 then [] else [scanCodeToLetter (ucast c)])"
  "line_of (cs @ [c]) = line_of cs @ (if scanCodeToLetter (ucast c) = 0 \<or> scanCodeToLetter (ucast c) = 10 then []
     else [scanCodeToLetter (ucast c)])"
  by (simp_all add: typed_def line_of_def)

definition line_state :: "u8 list \<Rightarrow> keyboard" where
  "line_state cs = \<lparr>kbuf = line_of cs @ replicate (50 - length (line_of cs)) 0, bufSize = of_nat (length (line_of cs)),
     kdone = (10 \<in> set (typed cs))\<rparr>"

lemma keys_append: "keys (cs @ ds) k = rbind (keys cs k) (keys ds)"
proof (induction cs arbitrary: k)
  case (Cons c cs)
  then show ?case by (cases "keyBoardHandler 0 c k") (auto split: prod.splits)
qed simp

lemma handler_step:
  assumes n: "length (line_of cs) \<le> 50" and k: "kb k = line_state cs"
    and r: "length (line_of cs) < 50 \<or> scanCodeToLetter (ucast c) = 0"
  shows "keyBoardHandler 0 c k = Inr (k\<lparr>kb := line_state (cs @ [c]), out := out k @
     (if scanCodeToLetter (ucast c) = 0 then [] else [scanCodeToLetter (ucast c)])\<rparr>, [(0x20, 0x20)])"
proof -
  let ?l = "line_of cs" and ?c = "scanCodeToLetter (ucast c)"
  have u: "unat (of_nat (length ?l) :: u32) = length ?l" using n by (simp add: unsigned_of_nat take_bit_nat_eq_self)
  have z: "(?l @ replicate (50 - length ?l) 0)[length ?l := x] = ?l @ x # replicate (50 - Suc (length ?l)) 0"
    if "length ?l < 50" for x :: u8
  proof -
    have "replicate (50 - length ?l) (0 :: u8) = 0 # replicate (50 - Suc (length ?l)) 0"
      using that by (simp flip: replicate_Suc add: Suc_diff_Suc)
    then show ?thesis by (simp add: list_update_append)
  qed
  have z0: "0 # replicate (50 - Suc (length ?l)) 0 = replicate (50 - length ?l) (0 :: u8)" if "length ?l < 50"
    using that by (simp flip: replicate_Suc add: Suc_diff_Suc)
  consider "?c = 0" | "?c = 10" "length ?l < 50" | "?c \<noteq> 0" "?c \<noteq> 10" "length ?l < 50" using r by blast
  then show ?thesis
  proof cases
    case 1
    then show ?thesis using k by (simp add: keyBoardHandler_def line_state_def)
  next
    case 2
    then show ?thesis using k z [of 0] z0
      by (simp add: keyBoardHandler_def put_letter_def put_out_def line_state_def u)
  next
    case 3
    then show ?thesis using k z [of ?c]
      by (simp add: keyBoardHandler_def put_letter_def put_out_def line_state_def u Let_def add.commute)
  qed
qed

text \<open>Once 50 letters are in, the next one, or the end of the line, is written behind the buffer.\<close>

lemma keys_cases:
  assumes "kb k = empty_line"
  shows "length (line_of cs) \<le> 50 \<and> keys cs k = Inr (k\<lparr>kb := line_state cs, out := out k @ typed cs\<rparr>) \<or>
    keys cs k = Inl (OutOfBounds ''buf[bufSize]'')"
proof (induction cs rule: rev_induct)
  case Nil
  then show ?case using assms by (simp add: line_state_def empty_line_def)
next
  case (snoc c cs)
  let ?k = "k\<lparr>kb := line_state cs, out := out k @ typed cs\<rparr>" and ?c = "scanCodeToLetter (ucast c)"
  consider "keys cs k = Inl (OutOfBounds ''buf[bufSize]'')"
    | "length (line_of cs) \<le> 50" "keys cs k = Inr ?k" "length (line_of cs) < 50 \<or> ?c = 0"
    | "length (line_of cs) = 50" "keys cs k = Inr ?k" "?c \<noteq> 0" using snoc.IH by linarith
  then show ?case
  proof cases
    case 1
    then show ?thesis by (simp add: keys_append)
  next
    case 2
    then show ?thesis using handler_step [of cs ?k c] by (auto simp: keys_append)
  next
    case 3
    then show ?thesis
      by (simp add: keys_append keyBoardHandler_def put_letter_def put_out_def line_state_def Let_def)
  qed
qed

lemma line_nonzero: "c \<in> set (line_of cs) \<Longrightarrow> c \<noteq> 0"
  by (auto simp: line_of_def typed_def)

lemma keys_line:
  assumes K: "kb k = empty_line" and l: "length (line_of cs) < 50"
  shows "keys cs k = Inr (k\<lparr>kb := line_state cs, out := out k @ typed cs\<rparr>)"
  using l
proof (induction cs rule: rev_induct)
  case Nil
  then show ?case using K by (simp add: line_state_def empty_line_def)
next
  case (snoc c cs)
  have l: "length (line_of cs) < 50" using snoc.prems by (auto split: if_splits)
  show ?case using snoc.IH [OF l] handler_step [of cs "k\<lparr>kb := line_state cs, out := out k @ typed cs\<rparr>" c] l
    by (simp add: keys_append)
qed

lemma cstr_line: "length (line_of cs) < 50 \<Longrightarrow> cstr (kbuf (line_state cs)) = line_of cs"
proof -
  assume "length (line_of cs) < 50"
  then have "replicate (50 - length (line_of cs)) (0 :: u8) = 0 # replicate (49 - length (line_of cs)) 0"
    by (simp flip: replicate_Suc add: Suc_diff_le)
  then show ?thesis using line_nonzero by (simp add: line_state_def cstr_def takeWhile_append2)
qed

lemma zero_prefix: "n \<le> length b \<Longrightarrow> fold (\<lambda>i b. b[i := 0]) [0..<n] b = replicate n 0 @ drop n b"
proof (induction n)
  case (Suc n)
  then have "drop n b = b ! n # drop (Suc n) b" by (simp add: Cons_nth_drop_Suc)
  then show ?case using Suc by (simp add: list_update_append replicate_append_same)
qed simp

lemma clear_line_state:
  assumes l: "length (line_of cs) < 50" and k: "kb k = line_state cs"
  shows "clear_line k = Inr (Ret 0, k\<lparr>kb := empty_line\<rparr>)"
proof -
  have u: "unat (of_nat (length (line_of cs)) :: u32) = length (line_of cs)"
    using l by (simp add: unsigned_of_nat take_bit_nat_eq_self)
  have "replicate (length (line_of cs)) 0 @ replicate (50 - length (line_of cs)) (0 :: u8) = replicate 50 0"
    using l by (simp flip: replicate_add)
  then show ?thesis using l k zero_prefix [of "length (line_of cs)" "kbuf (line_state cs)"]
    by (simp add: clear_line_def line_state_def u empty_line_def ret_def)
qed

text \<open>C36: a line of input.  After the line was cleared, any scan codes with fewer than 50 letters
  among them leave exactly these letters, terminated, in the buffer, in the order typed; the
  console has shown them with the ends of line, and the line is done just when an end of line was
  among them.  The call that clears the line brings the first state back.  With more than 50
  letters the handler writes behind the buffer.\<close>

theorem keyboard_line:
  assumes "kb k = empty_line"
  shows "(length (line_of cs) < 50 \<longrightarrow>
      (\<exists>k'. keys cs k = Inr k' \<and> cstr (kbuf (kb k')) = line_of cs \<and> (kdone (kb k') \<longleftrightarrow> 10 \<in> set (typed cs)) \<and>
         out k' = out k @ typed cs \<and> clear_line k' = Inr (Ret 0, k'\<lparr>kb := empty_line\<rparr>))) \<and>
    (50 < length (line_of cs) \<longrightarrow> keys cs k = Inl (OutOfBounds ''buf[bufSize]''))"
  using keys_line [OF assms] keys_cases [OF assms, of cs] cstr_line [of cs]
    clear_line_state [of cs "k\<lparr>kb := line_state cs, out := out k @ typed cs\<rparr>"]
  by (auto simp: line_state_def)

lemma keyboard_line_witness:
  "\<exists>k'. keys [0x26, 0xA6, 0x1F, 0x9F, 0x1C] (two_processes 0x2000 phys_zero) = Inr k' \<and>
     cstr (kbuf (kb k')) = [108, 115] \<and> kdone (kb k') \<and> out k' = [108, 115, 10] \<and>
     clear_line k' = Inr (Ret 0, k'\<lparr>kb := empty_line\<rparr>)"
proof -
  let ?k = "two_processes 0x2000 phys_zero" and ?cs = "[0x26, 0xA6, 0x1F, 0x9F, 0x1C] :: u8 list"
  have e: "kb ?k = empty_line" "out ?k = []" by (simp_all add: two_processes_def empty_line_def)
  have t: "typed ?cs = [108, 115, 10]" by (simp add: typed_def scanCodeToLetter_def)
  have l: "line_of ?cs = [108, 115]" unfolding line_of_def t by simp
  show ?thesis using keyboard_line [OF e(1), of ?cs] unfolding l t e(2) by auto
qed

end
