(* ===== verification/User_Progs.thy ===== *)
theory User_Progs
  imports User_Printf "HOL-Library.Sublist"
begin

text \<open>
  The user programs, \<^verbatim>\<open>t0.dir/sbin/*.c\<close>: each \<^verbatim>\<open>main\<close> over a record of the system calls.  A program is
  followed as one process: \<^verbatim>\<open>fork\<close> answers 0 in the child and the child's number in the parent, and
  \<^verbatim>\<open>execl\<close> ends the program (a failing \<^verbatim>\<open>execl\<close> halts the kernel).  Strings are byte lists that end
  with their terminator; a buffer is a function, with arbitrary bytes where nothing was stored.
\<close>

section \<open>The machine of a user program\<close>

definition ascii :: "string \<Rightarrow> cstring" where
  "ascii s = map of_char s"

definition char_at :: "cstring \<Rightarrow> nat \<Rightarrow> u8" where
  "char_at s i = (if i < length s then s ! i else 0)"

text \<open>\<^verbatim>\<open>p + n\<close> for a string.\<close>

definition skip :: "nat \<Rightarrow> cstring \<Rightarrow> cstring" where
  "skip n s = drop n s"

datatype uend = Returned int | Exec cstring "cstring list"

record 's umach =
  calls :: "'s usys"
  printf_sem :: int
  junk :: "nat \<Rightarrow> u8"
  u_open :: "cstring \<Rightarrow> 's \<Rightarrow> int \<times> 's"
  u_len :: "int \<Rightarrow> 's \<Rightarrow> int \<times> 's"
  u_close :: "int \<Rightarrow> 's \<Rightarrow> int \<times> 's"
  u_fork :: "'s \<Rightarrow> int \<times> 's"
  u_wait :: "int \<Rightarrow> 's \<Rightarrow> int \<times> 's"
  u_cd :: "cstring \<Rightarrow> 's \<Rightarrow> int \<times> 's"
  u_pwd :: "'s \<Rightarrow> int \<times> 's"
  u_ls :: "'s \<Rightarrow> cstring \<times> 's"
  u_getCommand :: "'s \<Rightarrow> cstring \<times> 's"
  u_done :: "'s \<Rightarrow> int \<times> 's"
  u_setDone :: "'s \<Rightarrow> int \<times> 's"

text \<open>No format of these programs has a floating-point conversion, so the arithmetic does not matter.\<close>

definition say :: "'s umach \<Rightarrow> (u32 \<Rightarrow> cstring) \<Rightarrow> cstring \<Rightarrow> u32 list \<Rightarrow> 's \<Rightarrow> 's res" where
  "say m str_at fmt args s = rbind (u_printf (calls m) u_whole_fpu str_at (printf_sem m) fmt args s) (\<lambda>(r, s1). Inr s1)"

definition write_1 :: "'s umach \<Rightarrow> u8 list \<Rightarrow> 's \<Rightarrow> 's" where
  "write_1 m bs s = snd (sys_write (calls m) 1 bs s)"

definition arg_1 :: "cstring list \<Rightarrow> cstring res" where
  "arg_1 argv = (if length argv \<le> 1 then Inl (NullDeref ''argv[1]'') else Inr (argv ! 1))"

section \<open>libc\<close>

text \<open>The loop of \<^verbatim>\<open>puts\<close>: the count, or the error of \<^verbatim>\<open>putchar\<close>.\<close>

fun puts_loop :: "'s usys \<Rightarrow> cstring \<Rightarrow> int \<Rightarrow> 's \<Rightarrow> (int + int) \<times> 's" where
  "puts_loop sys [] count s = (Inr count, s)"
| "puts_loop sys (c # cs) count s =
     (if c = 0 then (Inr count, s)
      else (case putchar sys c s of (n, s1) \<Rightarrow> if n < 0 then (Inl n, s1) else puts_loop sys cs (count + 1) s1))"

definition puts :: "'s usys \<Rightarrow> cstring \<Rightarrow> 's \<Rightarrow> int \<times> 's" where
  "puts sys p s =
     (case puts_loop sys p 0 s of
        (Inl n, s1) \<Rightarrow> (n, s1)
      | (Inr count, s1) \<Rightarrow> (count + 1, u_putchar sys 10 s1))"

text \<open>The inner loop of \<^verbatim>\<open>cp\<close>; a write may take fewer bytes than it is given.\<close>

partial_function (option) cp_write :: "'s umach \<Rightarrow> int \<Rightarrow> u8 list \<Rightarrow> 's \<Rightarrow> 's res option" where
  "cp_write m to bs s =
     (if bs = [] then Some (Inr s)
      else (case sys_write (calls m) to bs s of
        (n, s1) \<Rightarrow>
          if n < 0 then
            Some (say m (\<lambda>_. ascii ''libc.c'') (ascii ''*** %s:%d write error, fd = %d'' @ [10]) [1, 34, word_of_int to] s1)
          else cp_write m to (drop (nat n) bs) s1))"

partial_function (option) cp :: "'s umach \<Rightarrow> int \<Rightarrow> int \<Rightarrow> 's \<Rightarrow> 's res option" where
  "cp m from to s =
     (case sys_read (calls m) from 100 s of
        ((n, bs), s1) \<Rightarrow>
          if n = 0 then Some (Inr s1)
          else if n < 0 then
            Some (say m (\<lambda>_. ascii ''libc.c'') (ascii ''*** %s:%d read error, fd = %d'' @ [10]) [1, 27, word_of_int from] s1)
          else
            (case cp_write m to bs s1 of
               None \<Rightarrow> None
             | Some (Inl e) \<Rightarrow> Some (Inl e)
             | Some (Inr s2) \<Rightarrow> cp m from to s2))"

section \<open>Reading a whole file\<close>

text \<open>What \<^verbatim>\<open>cat\<close>, \<^verbatim>\<open>grep\<close> and \<^verbatim>\<open>wc\<close> do first: the length and the buffer.  With a negative length \<^verbatim>\<open>malloc\<close>
  gives the null pointer, which \<^verbatim>\<open>read\<close> refuses.\<close>

definition slurp :: "'s umach \<Rightarrow> cstring \<Rightarrow> 's \<Rightarrow> int \<times> (nat \<Rightarrow> u8) \<times> 's" where
  "slurp m name s =
     (case u_open m name s of (fd, s1) \<Rightarrow>
      case u_len m fd s1 of (file_length, s2) \<Rightarrow>
      case sys_read (calls m) fd (nat file_length) s2 of ((n, bs), s3) \<Rightarrow>
        (file_length, (\<lambda>i. if i < length bs then bs ! i else junk m i), snd (u_close m fd s3)))"

definition bytes_of :: "(nat \<Rightarrow> u8) \<Rightarrow> nat \<Rightarrow> nat \<Rightarrow> u8 list" where
  "bytes_of buf i n = map (\<lambda>k. buf (i + k)) [0..<n]"

text \<open>The length of the word at \<open>i\<close> of a buffer of \<open>n\<close> bytes.\<close>

function word_len :: "(nat \<Rightarrow> u8) \<Rightarrow> nat \<Rightarrow> nat \<Rightarrow> nat \<Rightarrow> nat" where
  "word_len buf n i j = (if i + j < n \<and> buf (i + j) \<noteq> 32 \<and> buf (i + j) \<noteq> 10 then word_len buf n i (j + 1) else j)"
  by pat_completeness auto
termination by (relation "measure (\<lambda>(buf, n, i, j). n - (i + j))") auto

declare word_len.simps [simp del]

text \<open>The length of the word at \<open>i\<close> of a string, which ends at a space or at the terminator.\<close>

function arg_len :: "cstring \<Rightarrow> nat \<Rightarrow> nat \<Rightarrow> nat" where
  "arg_len s i j = (if char_at s (i + j) \<noteq> 32 \<and> char_at s (i + j) \<noteq> 0 then arg_len s i (j + 1) else j)"
  by pat_completeness auto
termination by (relation "measure (\<lambda>(s, i, j). length s - (i + j))") (auto simp: char_at_def split: if_splits)

declare arg_len.simps [simp del]

lemma arg_len_ge: "j \<le> arg_len s i j"
  by (induction s i j rule: arg_len.induct) (subst arg_len.simps, auto)

lemma arg_len_pos: "char_at s i \<noteq> 32 \<Longrightarrow> char_at s i \<noteq> 0 \<Longrightarrow> 0 < arg_len s i 0"
  using arg_len_ge [of 1 s i] by (simp add: arg_len.simps [of s i 0])

definition sub_chars :: "cstring \<Rightarrow> nat \<Rightarrow> nat \<Rightarrow> cstring" where
  "sub_chars s i n = map (\<lambda>k. char_at s (i + k)) [0..<n]"

section \<open>wc\<close>

record counts =
  line_count :: nat
  word_count :: nat
  char_count :: nat

function wc_loop :: "(nat \<Rightarrow> u8) \<Rightarrow> nat \<Rightarrow> nat \<Rightarrow> counts \<Rightarrow> counts" where
  "wc_loop buf n i c =
     (if i < n then
        (let j = word_len buf n i 0;
             c1 = (if buf (i + j) = 10 then c\<lparr>line_count := line_count c + 1, word_count := word_count c + 1\<rparr>
                   else if buf (i + j) = 32 then c\<lparr>word_count := word_count c + 1\<rparr> else c)
         in wc_loop buf n (i + (j + 1)) (c1\<lparr>char_count := char_count c1 + j\<rparr>))
      else c)"
  by pat_completeness auto
termination by (relation "measure (\<lambda>(buf, n, i, c). n - i)") auto

declare wc_loop.simps [simp del]

definition wc_main :: "'s umach \<Rightarrow> cstring list \<Rightarrow> 's \<Rightarrow> (uend \<times> 's) res" where
  "wc_main m argv s =
     rbind (say m (\<lambda>_. []) (ascii ''*** wc implementation'' @ [10]) [] s) (\<lambda>s1.
     rbind (arg_1 argv) (\<lambda>file_name.
     case slurp m file_name s1 of (file_length, buf, s2) \<Rightarrow>
       let c = wc_loop buf (nat file_length) 0 \<lparr>line_count = 0, word_count = 0, char_count = 0\<rparr>
       in rbind (say m (\<lambda>_. file_name) (ascii ''%d %d %d %s'' @ [10])
              [of_nat (line_count c), of_nat (word_count c), of_nat (char_count c), 1] s2)
            (\<lambda>s3. Inr (Returned 0, s3))))"

section \<open>grep\<close>

text \<open>The inner loop of \<^verbatim>\<open>isSubstring\<close>: where it stops.\<close>

function match_len :: "cstring \<Rightarrow> (nat \<Rightarrow> u8) \<Rightarrow> nat \<Rightarrow> nat \<Rightarrow> nat \<Rightarrow> nat" where
  "match_len sub str i len j =
     (if j < len then (if char_at sub j \<noteq> str (i + j) then j else match_len sub str i len (j + 1)) else j)"
  by pat_completeness auto
termination by (relation "measure (\<lambda>(sub, str, i, len, j). len - j)") auto

declare match_len.simps [simp del]

function substring_loop :: "cstring \<Rightarrow> (nat \<Rightarrow> u8) \<Rightarrow> nat \<Rightarrow> nat \<Rightarrow> bool" where
  "substring_loop sub str len i =
     (if i < len then (if match_len sub str i len 0 = nat (strlen sub) then True else substring_loop sub str len (i + 1))
      else False)"
  by pat_completeness auto
termination by (relation "measure (\<lambda>(sub, str, len, i). len - i)") auto

declare substring_loop.simps [simp del]

definition isSubstring :: "cstring \<Rightarrow> (nat \<Rightarrow> u8) \<Rightarrow> nat \<Rightarrow> bool" where
  "isSubstring sub str len = substring_loop sub str len 0"

function grep_loop :: "'s umach \<Rightarrow> cstring \<Rightarrow> (nat \<Rightarrow> u8) \<Rightarrow> nat \<Rightarrow> nat \<Rightarrow> 's \<Rightarrow> 's" where
  "grep_loop m first_word buf len n s =
     (if n < len then
        (let w = word_len buf len n 0;
             s1 = (if isSubstring first_word (\<lambda>i. buf (n + i)) w then write_1 m [10] (write_1 m (bytes_of buf n w) s) else s)
         in grep_loop m first_word buf len (n + (w + 1)) s1)
      else s)"
  by pat_completeness auto
termination by (relation "measure (\<lambda>(m, f, buf, len, n, s). len - n)") auto

declare grep_loop.simps [simp del]

definition grep_main :: "'s umach \<Rightarrow> cstring list \<Rightarrow> 's \<Rightarrow> (uend \<times> 's) res" where
  "grep_main m argv s =
     rbind (arg_1 argv) (\<lambda>input.
       let i = arg_len input 0 0; first_word = sub_chars input 0 i;
           k = arg_len input (i + 1) 0; second_word = sub_chars input (i + 1) k
       in if char_at input i = 0 then Inl (OutOfBounds ''input[i + k]'')
          else (case slurp m second_word s of (file_length, buf, s1) \<Rightarrow>
            Inr (Returned 0, grep_loop m first_word buf (nat file_length) 0 s1)))"

section \<open>cat\<close>

fun strcmp :: "cstring \<Rightarrow> cstring \<Rightarrow> int" where
  "strcmp [] [] = 0"
| "strcmp [] (y # b) = - sint y"
| "strcmp (x # a) [] = sint x"
| "strcmp (x # a) (y # b) = (if x = y then (if x = 0 then 0 else strcmp a b) else sint x - sint y)"

definition skipped :: "cstring \<Rightarrow> bool" where
  "skipped f \<longleftrightarrow> strcmp f (ascii ''.'') = 0 \<or> strcmp f (ascii ''..'') = 0 \<or> strcmp f (ascii ''lost+found'') = 0"

definition cat_file :: "'s umach \<Rightarrow> cstring \<Rightarrow> 's \<Rightarrow> 's" where
  "cat_file m f s =
     (if skipped f then s
      else (case slurp m f s of (file_length, buf, s1) \<Rightarrow> write_1 m (bytes_of buf 0 (nat file_length)) s1))"

function cat_loop :: "'s umach \<Rightarrow> cstring \<Rightarrow> nat \<Rightarrow> 's \<Rightarrow> 's" where
  "cat_loop m file_names i s =
     (if char_at file_names i \<noteq> 0 then
        (let j = arg_len file_names i 0; s1 = cat_file m (sub_chars file_names i j) s
         in cat_loop m file_names (if char_at file_names (i + j) = 32 then i + (j + 1) else i + j) s1)
      else s)"
  by pat_completeness auto
termination
proof (relation "measure (\<lambda>(m, f, i, s). length f - i)", simp)
  fix m :: "'s umach" and f i s x xa
  assume "char_at f i \<noteq> 0" "x = arg_len f i 0"
  moreover then have "i < length f" by (simp add: char_at_def split: if_splits)
  ultimately show "((m, f, if char_at f (i + x) = 32 then i + (x + 1) else i + x, xa), m, f, i, s) \<in>
      measure (\<lambda>(m, f, i, s). length f - i)"
    using arg_len_pos [of f i] by (cases "char_at f i = 32") (auto simp: arg_len.simps [of f i 0])
qed

declare cat_loop.simps [simp del]

definition cat_main :: "'s umach \<Rightarrow> cstring list \<Rightarrow> 's \<Rightarrow> (uend \<times> 's) res" where
  "cat_main m argv s = rbind (arg_1 argv) (\<lambda>file_names. Inr (Returned 0, cat_loop m file_names 0 s))"

section \<open>echo, cd, pwd, ls\<close>

definition echo_main :: "'s umach \<Rightarrow> cstring list \<Rightarrow> 's \<Rightarrow> (uend \<times> 's) res" where
  "echo_main m argv s =
     rbind (if length argv \<le> 1 then say m (\<lambda>_. []) (ascii ''%s'' @ [10]) [0] s
            else say m (\<lambda>_. argv ! 1) (ascii ''%s'' @ [10]) [1] s)
       (\<lambda>s1. Inr (Returned 0, s1))"

definition cd_main :: "'s umach \<Rightarrow> cstring list \<Rightarrow> 's \<Rightarrow> (uend \<times> 's) res" where
  "cd_main m argv s = rbind (arg_1 argv) (\<lambda>new_dir_name. Inr (Returned 0, snd (u_cd m new_dir_name s)))"

definition pwd_main :: "'s umach \<Rightarrow> cstring list \<Rightarrow> 's \<Rightarrow> (uend \<times> 's) res" where
  "pwd_main m argv s = Inr (Returned 0, snd (u_pwd m s))"

text \<open>The listing goes into a block of 250 bytes, terminator included.  With an argument, \<^verbatim>\<open>ls\<close> hands it to that
  command: both are copied behind each other into a block of 300 bytes.\<close>

definition ls_main :: "'s umach \<Rightarrow> cstring list \<Rightarrow> 's \<Rightarrow> (uend \<times> 's) res" where
  "ls_main m argv s =
     (case u_ls m s of (buff, s1) \<Rightarrow>
        if 250 \<le> length (cstr buff) then Inl (OutOfBounds ''buff'')
        else if 1 < length argv then
          (let output = cstr (argv ! 1) @ [32] @ cstr buff
           in if 300 \<le> length output then Inl (OutOfBounds ''output[i]'')
              else Inr (Exec (ascii ''/sbin/shellHandler'') [ascii ''shellHandler'', output], s1))
        else rbind (say m (\<lambda>_. buff) (ascii ''%s'' @ [10]) [1] s1) (\<lambda>s2. Inr (Returned 0, s2)))"

section \<open>exec\<close>

text \<open>The path and the command are blocks of 100 bytes.\<close>

definition exec_main :: "'s umach \<Rightarrow> cstring list \<Rightarrow> 's \<Rightarrow> (uend \<times> 's) res" where
  "exec_main m argv s =
     rbind (arg_1 argv) (\<lambda>arg.
       let argNum = arg_len arg 0 0; path = ascii ''/sbin/'' @ sub_chars arg 0 argNum; command = sub_chars arg 0 argNum
       in if 100 \<le> length path then Inl (OutOfBounds ''path[input]'')
          else if char_at arg argNum = 0 then Inr (Exec path [command], s)
          else Inr (Exec path [command, skip (argNum + 1) arg], s))"

section \<open>The shell\<close>

text \<open>The comparisons with the first letters of the line, in the order of the code.  The line stands in the
  keyboard's buffer, which is 0 behind it, so an argument behind the end of the line is empty.\<close>

definition starts :: "cstring \<Rightarrow> string \<Rightarrow> bool" where
  "starts input name \<longleftrightarrow> list_all (\<lambda>i. char_at input i = of_char (name ! i)) [0..<length name]"

definition run_as :: "string \<Rightarrow> nat \<Rightarrow> cstring \<Rightarrow> uend" where
  "run_as name n input = Exec (ascii ''/sbin/'' @ ascii name) [ascii name, skip n input]"

definition shell_child :: "'s umach \<Rightarrow> cstring \<Rightarrow> 's \<Rightarrow> (uend \<times> 's) res" where
  "shell_child m input s =
     (if starts input ''cd'' then Inr (run_as ''cd'' 3 input, s)
      else if starts input ''cat'' then Inr (run_as ''cat'' 4 input, s)
      else if starts input ''grep'' then Inr (run_as ''grep'' 5 input, s)
      else if starts input ''wc'' then Inr (run_as ''wc'' 3 input, s)
      else if starts input ''ls'' then
        (if char_at input 3 = 124 then
           rbind (say m (\<lambda>_. skip 5 input) (ascii ''ls pipe with command: %s'' @ [10]) [1] s)
             (\<lambda>s1. Inr (run_as ''ls'' 5 input, s1))
         else Inr (Exec (ascii ''/sbin/ls'') [ascii ''ls''], s))
      else if starts input ''pwd'' then Inr (run_as ''pwd'' 4 input, s)
      else if starts input ''echo'' then Inr (run_as ''echo'' 5 input, s)
      else if starts input ''exec'' then Inr (run_as ''exec'' 5 input, s)
      else rbind (say m (\<lambda>_. []) (ascii ''*** invalid command'' @ [10]) [] s) (\<lambda>s1. Inr (Returned 0, s1)))"

text \<open>Both handlers: fork, and the child does its part while the parent waits.\<close>

definition forked_run :: "'s umach \<Rightarrow> ('s \<Rightarrow> (uend \<times> 's) res) \<Rightarrow> 's \<Rightarrow> (uend \<times> 's) res" where
  "forked_run m child s =
     (case u_fork m s of (i, s1) \<Rightarrow>
        if i < 0 then rbind (say m (\<lambda>_. []) (ascii ''fork failed'' @ [10]) [] s1) (\<lambda>s2. Inr (Returned (- 1), s2))
        else if i = 0 then child s1
        else Inr (Returned 0, snd (u_wait m i s1)))"

definition demo_inputs :: "cstring list" where
  "demo_inputs = map ascii [''pwd'', ''echo /etc/data.txt'', ''cat /etc/data.txt'', ''ls'', ''cd etc'', ''pwd'', ''echo data.txt'',
     ''cat data.txt'', ''ls'', ''cd ..'', ''pwd'', ''grep is /etc/data.txt'', ''wc /etc/data.txt'', ''exec ls'', ''exec cd etc'',
     ''ls | cat'', ''ls | echo'']"

text \<open>The handler calls itself for the lines of the demonstration; none of them asks for it again.\<close>

fun demo_loop :: "('s \<Rightarrow> cstring \<Rightarrow> (uend \<times> 's) res) \<Rightarrow> cstring list \<Rightarrow> 's \<Rightarrow> (uend \<times> 's) res" where
  "demo_loop handle [] s = Inr (Returned 0, s)"
| "demo_loop handle (x # xs) s =
     rbind (handle s x) (\<lambda>(e, s1). case e of Exec p as \<Rightarrow> Inr (Exec p as, s1) | Returned _ \<Rightarrow> demo_loop handle xs s1)"

definition mainShellHandler :: "'s umach \<Rightarrow> cstring \<Rightarrow> 's \<Rightarrow> (uend \<times> 's) res" where
  "mainShellHandler m input =
     forked_run m (\<lambda>s. if starts input ''demo'' then demo_loop (\<lambda>s x. forked_run m (shell_child m x) s) demo_inputs s
                       else shell_child m input s)"

lemma no_demo_inside: "list_all (\<lambda>x. \<not> starts x ''demo'') demo_inputs"
  by code_simp

lemma demo_no_demo: "x \<in> set demo_inputs \<Longrightarrow> mainShellHandler m x = forked_run m (shell_child m x)"
  using no_demo_inside by (simp add: list_all_iff mainShellHandler_def)

text \<open>One round of the shell: wait for a line, run it, give the line back.\<close>

partial_function (option) shell_poll :: "'s umach \<Rightarrow> 's \<Rightarrow> 's option" where
  "shell_poll m s =
     (case u_done m s of (d, s1) \<Rightarrow> if d \<noteq> 0 then Some s1 else shell_poll m (snd (u_getCommand m s1)))"

definition shell_round :: "'s umach \<Rightarrow> 's \<Rightarrow> (uend \<times> 's) res option" where
  "shell_round m s =
     (case shell_poll m s of
        None \<Rightarrow> None
      | Some s1 \<Rightarrow>
          (case u_getCommand m s1 of (input, s2) \<Rightarrow>
             Some (rbind (mainShellHandler m input s2) (\<lambda>(e, s3).
               case e of Exec p as \<Rightarrow> Inr (Exec p as, s3) | Returned _ \<Rightarrow> Inr (Returned 0, snd (u_setDone m s3))))))"

definition shell_start :: "'s umach \<Rightarrow> 's \<Rightarrow> 's res" where
  "shell_start m s =
     rbind (say m (\<lambda>_. []) (ascii ''*** - - - Welcome to our shell'' @ [10]) [] s)
       (say m (\<lambda>_. []) (ascii ''*** - - - Good Luck'' @ [10]) [])"

section \<open>shellHandler\<close>

definition handler_child :: "'s umach \<Rightarrow> cstring \<Rightarrow> 's \<Rightarrow> (uend \<times> 's) res" where
  "handler_child m input s =
     (if starts input ''cd'' then Inr (run_as ''cd'' 3 input, s)
      else if starts input ''cat'' then Inr (run_as ''cat'' 4 input, s)
      else if starts input ''grep'' then Inr (run_as ''grep'' 5 input, s)
      else if starts input ''wc'' then Inr (run_as ''wc'' 3 input, s)
      else if starts input ''ls'' then
        (if char_at input 2 = 32 then Inr (run_as ''ls'' 3 input, s) else Inr (Exec (ascii ''/sbin/ls'') [ascii ''ls''], s))
      else if starts input ''pwd'' then Inr (run_as ''pwd'' 4 input, s)
      else if starts input ''echo'' then Inr (run_as ''echo'' 5 input, s)
      else if starts input ''exec'' then Inr (run_as ''exec'' 5 input, s)
      else rbind (say m (\<lambda>_. []) (ascii ''*** invalid command'' @ [10]) [] s) (\<lambda>s1. Inr (Returned 0, s1)))"

definition shellHandler_main :: "'s umach \<Rightarrow> cstring list \<Rightarrow> 's \<Rightarrow> (uend \<times> 's) res" where
  "shellHandler_main m argv s = rbind (arg_1 argv) (\<lambda>input. forked_run m (handler_child m input) s)"

end
