(* ===== verification/User_Specs.thy ===== *)
theory User_Specs
  imports User_Progs
begin

text \<open>
  What the user programs do, over the system calls as \<^verbatim>\<open>sbin/sys.h\<close> describes them: \<^verbatim>\<open>cat\<close>, \<^verbatim>\<open>grep\<close> and
  \<^verbatim>\<open>wc\<close> on files, and which program with which argument the shell runs for a line.
\<close>

section \<open>Files and output\<close>

record fworld =
  files :: "cstring \<rightharpoonup> u8 list"
  fds :: "int \<rightharpoonup> u8 list \<times> nat"
  shown :: "u8 list"

definition free_fd :: "fworld \<Rightarrow> int option" where
  "free_fd w = List.find (\<lambda>i. fds w i = None) [3, 4, 5, 6, 7, 8, 9]"

definition show_bytes :: "u8 list \<Rightarrow> fworld \<Rightarrow> fworld" where
  "show_bytes bs w = w\<lparr>shown := shown w @ bs\<rparr>"

definition file_calls :: "fworld usys" where
  "file_calls = \<lparr>
     sys_read = (\<lambda>fd n w. case fds w fd of None \<Rightarrow> ((- 1, []), w)
       | Some (c, off) \<Rightarrow> let bs = take n (drop off c) in ((int (length bs), bs), w\<lparr>fds := (fds w)(fd \<mapsto> (c, off + length bs))\<rparr>)),
     sys_write = (\<lambda>fd bs w. if 0 \<le> fd \<and> fd \<le> 2 then (int (length bs), show_bytes bs w) else (- 1, w)),
     sys_sem = (\<lambda>n w. (10, w)), sys_up = (\<lambda>i w. (0, w)), sys_down = (\<lambda>i w. (0, w))\<rparr>"

definition file_sys :: "(nat \<Rightarrow> u8) \<Rightarrow> fworld umach" where
  "file_sys heap = \<lparr>calls = file_calls, printf_sem = 10, junk = heap,
     u_open = (\<lambda>name w. case (files w (cstr name), free_fd w) of
         (Some c, Some i) \<Rightarrow> (i, w\<lparr>fds := (fds w)(i \<mapsto> (c, 0))\<rparr>) | _ \<Rightarrow> (- 1, w)),
     u_len = (\<lambda>fd w. case fds w fd of None \<Rightarrow> (- 1, w) | Some (c, off) \<Rightarrow> (int (length c), w)),
     u_close = (\<lambda>fd w. (0, w\<lparr>fds := (fds w)(fd := None)\<rparr>)),
     u_fork = (\<lambda>w. (0, w)), u_wait = (\<lambda>i w. (0, w)), u_cd = (\<lambda>p w. (0, w)), u_pwd = (\<lambda>w. (0, w)),
     u_ls = (\<lambda>w. ([], w)), u_getCommand = (\<lambda>w. ([], w)), u_done = (\<lambda>w. (1, w)), u_setDone = (\<lambda>w. (0, w))\<rparr>"

lemma file_sys_simps [simp]: 
  "calls (file_sys heap) = file_calls" "junk (file_sys heap) = heap" "printf_sem (file_sys heap) = 10"
  "u_open (file_sys heap) = (\<lambda>name w. case (files w (cstr name), free_fd w) of
     (Some c, Some i) \<Rightarrow> (i, w\<lparr>fds := (fds w)(i \<mapsto> (c, 0))\<rparr>) | _ \<Rightarrow> (- 1, w))"
  "u_len (file_sys heap) = (\<lambda>fd w. case fds w fd of None \<Rightarrow> (- 1, w) | Some (c, off) \<Rightarrow> (int (length c), w))"
  "u_close (file_sys heap) = (\<lambda>fd w. (0, w\<lparr>fds := (fds w)(fd := None)\<rparr>))"
  by (simp_all add: file_sys_def)

lemma show_simps [simp]:
  "files (show_bytes bs w) = files w" "fds (show_bytes bs w) = fds w" "shown (show_bytes bs w) = shown w @ bs"
  "free_fd (show_bytes bs w) = free_fd w" "show_bytes b (show_bytes a w) = show_bytes (a @ b) w" "show_bytes [] w = w"
  by (simp_all add: show_bytes_def free_fd_def)

lemma write_1_file [simp]: "write_1 (file_sys heap) bs w = show_bytes bs w"
  by (simp add: write_1_def file_calls_def)

lemma free_fd_None: "free_fd w = Some i \<Longrightarrow> fds w i = None"
  by (auto simp: free_fd_def split: if_splits)

lemma slurp_file:
  assumes "files w (cstr name) = Some c" "free_fd w \<noteq> None"
  obtains buf where "slurp (file_sys heap) name w = (int (length c), buf, w)" "\<And>i. i < length c \<Longrightarrow> buf i = c ! i"
    "\<And>i. length c \<le> i \<Longrightarrow> buf i = heap i"
proof -
  obtain i where i: "free_fd w = Some i" using assms(2) by auto
  have "w\<lparr>fds := (fds w)(i := None)\<rparr> = w" using free_fd_None [OF i] by (simp add: fun_upd_idem)
  then have "slurp (file_sys heap) name w = (int (length c), (\<lambda>k. if k < length c then c ! k else junk (file_sys heap) k), w)"
    using assms(1) i by (simp add: slurp_def file_calls_def Let_def)
  then show thesis using that [of "\<lambda>k. if k < length c then c ! k else junk (file_sys heap) k"] by simp
qed

section \<open>Words\<close>

definition nonsep :: "u8 \<Rightarrow> bool" where
  "nonsep c \<longleftrightarrow> c \<noteq> 32 \<and> c \<noteq> 10"

text \<open>The words of a text: what stands before each space or line end, and what is left at the end.\<close>

function pieces :: "u8 list \<Rightarrow> u8 list list" where
  "pieces [] = []"
| "pieces (c # t) = takeWhile nonsep (c # t) # pieces (tl (dropWhile nonsep (c # t)))"
  by pat_completeness auto
termination
proof (relation "measure length", simp)
  fix c :: u8 and t
  have "length (dropWhile nonsep (c # t)) \<le> length (c # t)" by (rule length_dropWhile_le)
  then show "(tl (dropWhile nonsep (c # t)), c # t) \<in> measure length" by simp
qed

definition holds_text :: "(nat \<Rightarrow> u8) \<Rightarrow> u8 list \<Rightarrow> bool" where
  "holds_text buf t \<longleftrightarrow> (\<forall>i < length t. buf i = t ! i)"

lemma word_len_eq: "holds_text buf t \<Longrightarrow> word_len buf (length t) i j = j + length (takeWhile nonsep (drop (i + j) t))"
proof (induction "length t - (i + j)" arbitrary: j)
  case 0
  then show ?case by (simp add: word_len.simps [of buf _ i j])
next
  case (Suc n)
  then have lt: "i + j < length t" by simp
  have d: "drop (i + j) t = t ! (i + j) # drop (Suc (i + j)) t" using lt by (simp add: Cons_nth_drop_Suc)
  have IH: "word_len buf (length t) i (j + 1) = j + 1 + length (takeWhile nonsep (drop (i + (j + 1)) t))"
    using Suc by simp
  show ?case using lt Suc.prems IH unfolding d
    by (simp add: word_len.simps [of buf _ i j] holds_text_def nonsep_def)
qed

lemma next_piece: "drop (n + (length (takeWhile nonsep (drop n t)) + 1)) t = tl (dropWhile nonsep (drop n t))"
  by (simp add: dropWhile_eq_drop tl_drop [symmetric] drop_Suc add.commute)

lemma pieces_rest:
  "n < length t \<Longrightarrow> pieces (drop n t) = takeWhile nonsep (drop n t) # pieces (tl (dropWhile nonsep (drop n t)))"
  by (cases "drop n t") auto

text \<open>The byte behind a word, inside the text when the text ends with a separator.\<close>

lemma after_piece:
  assumes "n < length t" "\<not> nonsep (last t)"
  shows "n + length (takeWhile nonsep (drop n t)) < length t" "\<not> nonsep (t ! (n + length (takeWhile nonsep (drop n t))))"
proof -
  let ?r = "drop n t"
  have "last ?r = last t" "?r \<noteq> []" using assms(1) by simp_all
  then have "\<not> (\<forall>x \<in> set ?r. nonsep x)" using assms(2) last_in_set by metis
  then have l: "length (takeWhile nonsep ?r) < length ?r"
    by (metis length_takeWhile_le nat_less_le takeWhile_eq_all_conv takeWhile_eq_take take_all_iff order_refl)
  then show "n + length (takeWhile nonsep ?r) < length t" by simp
  show "\<not> nonsep (t ! (n + length (takeWhile nonsep ?r)))" using nth_length_takeWhile [OF l] l by simp
qed

section \<open>grep\<close>

definition matches_at :: "cstring \<Rightarrow> (nat \<Rightarrow> u8) \<Rightarrow> nat \<Rightarrow> nat \<Rightarrow> bool" where
  "matches_at p str n i \<longleftrightarrow> (\<forall>k < n. p ! k = str (i + k))"

lemma match_len_stop:
  "j \<le> len \<Longrightarrow> j \<le> match_len p str i len j \<and> match_len p str i len j \<le> len \<and>
    (\<forall>k. j \<le> k \<and> k < match_len p str i len j \<longrightarrow> char_at p k = str (i + k)) \<and>
    (match_len p str i len j < len \<longrightarrow> char_at p (match_len p str i len j) \<noteq> str (i + match_len p str i len j))"
proof (induction "len - j" arbitrary: j)
  case 0
  then have "match_len p str i len j = j" by (subst match_len.simps) simp
  then show ?case using 0 by auto
next
  case (Suc n)
  then have lt: "j < len" by simp
  show ?case
  proof (cases "char_at p j = str (i + j)")
    case True
    let ?r = "match_len p str i len (j + 1)"
    have e: "match_len p str i len j = ?r" using lt True by (simp add: match_len.simps [of p str i len j])
    have "n = len - (j + 1)" "j + 1 \<le> len" using Suc.hyps(2) lt by simp_all
    then have IH: "j + 1 \<le> ?r" "?r \<le> len" "\<forall>k. j + 1 \<le> k \<and> k < ?r \<longrightarrow> char_at p k = str (i + k)"
      "?r < len \<longrightarrow> char_at p ?r \<noteq> str (i + ?r)" using Suc.hyps(1) [of "j + 1"] by blast+
    have "char_at p k = str (i + k)" if "j \<le> k" "k < ?r" for k
      using IH(3) True that by (cases "k = j") auto
    then show ?thesis unfolding e using IH by auto
  qed (use lt in \<open>auto simp: match_len.simps [of p str i len j]\<close>)
qed

lemma match_found:
  assumes p: "\<forall>c \<in> set p. c \<noteq> 0 \<and> nonsep c" and i: "i < len"
    and str: "\<forall>k \<le> len. str k \<noteq> 0" "\<not> nonsep (str len)"
  shows "match_len p str i len 0 = length p \<longleftrightarrow> i + length p \<le> len \<and> matches_at p str (length p) i"
proof -
  let ?r = "match_len p str i len 0"
  note r = match_len_stop [of 0 len p str i, simplified]
  show ?thesis
  proof (intro iffI conjI)
    assume e: "?r = length p"
    then have m: "p ! k = str (i + k)" if "k < length p" for k using r that by (auto simp: char_at_def)
    then show "matches_at p str (length p) i" by (simp add: matches_at_def)
    show "i + length p \<le> len"
    proof (rule ccontr)
      assume "\<not> i + length p \<le> len"
      then have "p ! (len - i) = str len" "len - i < length p" using m [of "len - i"] i by auto
      then show False using p str(2) nth_mem by metis
    qed
  next
    assume a: "i + length p \<le> len \<and> matches_at p str (length p) i"
    have "\<not> ?r < length p" using r a by (auto simp: char_at_def matches_at_def)
    moreover have "\<not> length p < ?r"
    proof
      assume "length p < ?r"
      then have "str (i + length p) = 0" using r by (auto simp: char_at_def)
      then show False using str(1) a by blast
    qed
    ultimately show "?r = length p" by simp
  qed
qed

lemma substring_loop_iff:
  "substring_loop p str len i \<longleftrightarrow> (\<exists>k. i \<le> k \<and> k < len \<and> match_len p str k len 0 = nat (strlen p))"
proof (induction "len - i" arbitrary: i)
  case 0
  then show ?case by (simp add: substring_loop.simps [of p str len i])
next
  case (Suc n)
  have "i = k \<or> i + 1 \<le> k" if "i \<le> k" for k using that by linarith
  then show ?case using Suc.hyps(1) [of "i + 1"] Suc.hyps(2)
    by (subst substring_loop.simps) (auto simp: Suc_le_eq intro: less_imp_le)
qed

lemma sublist_nth: "sublist p w \<longleftrightarrow> (\<exists>i. i + length p \<le> length w \<and> (\<forall>k < length p. p ! k = w ! (i + k)))"
proof
  assume "sublist p w"
  then obtain a b where "w = a @ p @ b" by (auto simp: sublist_def)
  then show "\<exists>i. i + length p \<le> length w \<and> (\<forall>k < length p. p ! k = w ! (i + k))"
    by (intro exI [of _ "length a"]) (auto simp: nth_append)
next
  assume "\<exists>i. i + length p \<le> length w \<and> (\<forall>k < length p. p ! k = w ! (i + k))"
  then obtain i where i: "i + length p \<le> length w" "\<forall>k < length p. p ! k = w ! (i + k)" by blast
  have "p = take (length p) (drop i w)" by (rule nth_equalityI) (use i in auto)
  then have "w = take i w @ p @ drop (length p) (drop i w)" by (metis append_take_drop_id)
  then show "sublist p w" unfolding sublist_def by blast
qed

lemma isSubstring_word:
  assumes p: "\<forall>c \<in> set p. c \<noteq> 0 \<and> nonsep c" and t: "0 \<notin> set t" "\<not> nonsep (last t)" and b: "holds_text buf t" "n < length t"
  shows "isSubstring p (\<lambda>i. buf (n + i)) (length (takeWhile nonsep (drop n t))) \<longleftrightarrow>
    takeWhile nonsep (drop n t) \<noteq> [] \<and> sublist p (takeWhile nonsep (drop n t))"
proof -
  let ?w = "takeWhile nonsep (drop n t)" and ?str = "\<lambda>i. buf (n + i)"
  let ?len = "length ?w"
  note a = after_piece [OF b(2) t(2)]
  have bt: "buf (n + k) = t ! (n + k)" if "k \<le> ?len" for k using b(1) a(1) that by (simp add: holds_text_def)
  have nz: "\<forall>k \<le> ?len. ?str k \<noteq> 0" using bt a(1) t(1) by (metis add_le_cancel_left le_less_trans nth_mem)
  have sep: "\<not> nonsep (?str ?len)" using bt [of ?len] a(2) by simp
  have wk: "?w ! k = ?str k" if "k < ?len" for k using bt [of k] that a(1) by (simp add: takeWhile_nth)
  have p0: "nat (strlen p) = length p"
    using p by (simp add: strlen_eq) (metis cstr_id)
  have "isSubstring p ?str ?len \<longleftrightarrow> (\<exists>i < ?len. i + length p \<le> ?len \<and> matches_at p ?str (length p) i)"
    unfolding isSubstring_def substring_loop_iff p0 using match_found [OF p _ nz sep] by auto
  also have "\<dots> \<longleftrightarrow> (\<exists>i < ?len. i + length p \<le> ?len \<and> (\<forall>k < length p. p ! k = ?w ! (i + k)))"
    using wk by (auto simp: matches_at_def)
  also have "\<dots> \<longleftrightarrow> ?w \<noteq> [] \<and> sublist p ?w"
  proof (cases "p = []")
    case False
    then have "i < ?len" if "i + length p \<le> ?len" for i using that by (cases p) auto
    moreover from this have "?w \<noteq> []" if "i + length p \<le> ?len" for i using that by fastforce
    ultimately show ?thesis unfolding sublist_nth by blast
  qed auto
  finally show ?thesis .
qed

text \<open>What \<^verbatim>\<open>grep\<close> shows of a text.\<close>

definition grep_text :: "cstring \<Rightarrow> u8 list \<Rightarrow> u8 list" where
  "grep_text p t = concat (map (\<lambda>w. w @ [10]) (filter (\<lambda>w. w \<noteq> [] \<and> sublist p w) (pieces t)))"

lemma bytes_of_word:
  assumes "holds_text buf t" "n + k \<le> length t"
  shows "bytes_of buf n k = take k (drop n t)"
  by (rule nth_equalityI) (use assms in \<open>auto simp: bytes_of_def holds_text_def\<close>)

lemma grep_loop_text:
  assumes p: "\<forall>c \<in> set p. c \<noteq> 0 \<and> nonsep c" and t: "0 \<notin> set t" "\<not> nonsep (last t)" and b: "holds_text buf t"
  shows "grep_loop (file_sys heap) p buf (length t) n w = show_bytes (grep_text p (drop n t)) w"
proof (induction "length t - n" arbitrary: n w rule: less_induct)
  case less
  show ?case
  proof (cases "n < length t")
    case False
    then show ?thesis by (simp add: grep_loop.simps [of _ p buf "length t" n] grep_text_def)
  next
    case lt: True
    let ?w = "takeWhile nonsep (drop n t)"
    have wl: "word_len buf (length t) n 0 = length ?w" using word_len_eq [OF b, of n 0] by simp
    have bw: "bytes_of buf n (length ?w) = ?w"
      using bytes_of_word [OF b, of n "length ?w"] after_piece(1) [OF lt t(2)] by (simp add: takeWhile_eq_take [symmetric])
    have IH: "grep_loop (file_sys heap) p buf (length t) (n + (length ?w + 1)) w' =
        show_bytes (grep_text p (tl (dropWhile nonsep (drop n t)))) w'" for w'
      using less [of "n + (length ?w + 1)" w'] lt next_piece [of n t] by simp
    show ?thesis using lt isSubstring_word [OF p t b lt] IH
      by (subst grep_loop.simps) (simp add: Let_def wl bw grep_text_def pieces_rest)
  qed
qed

lemma arg_len_word: "\<forall>c \<in> set a. c \<noteq> 32 \<and> c \<noteq> 0 \<Longrightarrow> r = [] \<or> hd r = 32 \<Longrightarrow> k \<le> length a \<Longrightarrow> arg_len (b @ a @ r) (length b) k = length a"
proof (induction "length a - k" arbitrary: k)
  case 0
  then have "char_at (b @ a @ r) (length b + k) = 32 \<or> char_at (b @ a @ r) (length b + k) = 0"
    by (cases r) (auto simp: char_at_def nth_append)
  then show ?case using 0 by (subst arg_len.simps) auto
next
  case (Suc n)
  then have lt: "k < length a" by simp
  then have "char_at (b @ a @ r) (length b + k) = a ! k" by (simp add: char_at_def nth_append)
  then have "char_at (b @ a @ r) (length b + k) \<noteq> 32 \<and> char_at (b @ a @ r) (length b + k) \<noteq> 0" using Suc.prems(1) lt nth_mem by metis
  then show ?case using Suc.hyps(1) [of "k + 1"] Suc.hyps(2) Suc.prems lt by (subst arg_len.simps) simp
qed

lemma sub_chars_word: "sub_chars (b @ a @ r) (length b) (length a) = a"
  by (rule nth_equalityI) (auto simp: sub_chars_def char_at_def nth_append)

lemma grep_text_main:
  assumes a: "\<forall>c \<in> set p. c \<noteq> 32 \<and> c \<noteq> 0" "\<forall>c \<in> set name. c \<noteq> 32 \<and> c \<noteq> 0" "10 \<notin> set p"
    and f: "files w name = Some t" "free_fd w \<noteq> None" and t: "0 \<notin> set t" "t \<noteq> [] \<Longrightarrow> \<not> nonsep (last t)"
  shows "grep_main (file_sys heap) [ascii ''grep'', p @ 32 # name] w = Inr (Returned 0, show_bytes (grep_text p t) w)"
proof -
  let ?i = "p @ 32 # name"
  have c: "cstr name = name" using a(2) by auto
  have l: "arg_len ?i 0 0 = length p" "arg_len ?i (length p + 1) 0 = length name"
    using arg_len_word [OF a(1), of "32 # name" 0 "[]"] arg_len_word [OF a(2), of "[]" 0 "p @ [32]"] by simp_all
  have s: "sub_chars ?i 0 (length p) = p" "sub_chars ?i (length p + 1) (length name) = name"
    using sub_chars_word [of "[]" p "32 # name"] sub_chars_word [of "p @ [32]" name "[]"] by simp_all
  obtain buf where b: "slurp (file_sys heap) name w = (int (length t), buf, w)" "\<And>i. i < length t \<Longrightarrow> buf i = t ! i"
    using slurp_file [of w name t heap] f c by metis
  have p: "\<forall>c \<in> set p. c \<noteq> 0 \<and> nonsep c" using a by (auto simp: nonsep_def)
  have "grep_loop (file_sys heap) p buf (length t) 0 w = show_bytes (grep_text p t) w"
  proof (cases "t = []")
    case True
    then show ?thesis by (simp add: grep_loop.simps grep_text_def)
  next
    case False
    then show ?thesis using grep_loop_text [OF p t(1) t(2) [OF False], of buf heap 0 w] b(2) by (simp add: holds_text_def)
  qed
  moreover have "char_at ?i (length p) = 32" by (simp add: char_at_def nth_append)
  ultimately show ?thesis using b(1) l s by (simp add: grep_main_def arg_1_def Let_def)
qed

section \<open>wc\<close>

definition add_counts :: "u8 list \<Rightarrow> counts \<Rightarrow> counts" where
  "add_counts t c = \<lparr>line_count = line_count c + count_list t 10, word_count = word_count c + count_list t 10 + count_list t 32,
     char_count = char_count c + length (filter nonsep t)\<rparr>"

lemma counts_word: "count_list (takeWhile nonsep t) 10 = 0" "count_list (takeWhile nonsep t) 32 = 0"
  "filter nonsep (takeWhile nonsep t) = takeWhile nonsep t"
  by (induction t) (auto simp: nonsep_def)

lemma add_counts_split:
  assumes "t = a @ d # r" "\<forall>c \<in> set a. nonsep c" "\<not> nonsep d"
  shows "add_counts t c = add_counts r (case d = 10 of
      True \<Rightarrow> c\<lparr>line_count := line_count c + 1, word_count := word_count c + 1, char_count := char_count c + length a\<rparr>
    | False \<Rightarrow> c\<lparr>word_count := word_count c + 1, char_count := char_count c + length a\<rparr>)"
proof -
  have "count_list a 10 = 0" "count_list a 32 = 0" "filter nonsep a = a"
    using assms(2) by (auto simp: nonsep_def count_list_0_iff filter_id_conv)
  then show ?thesis using assms(1,3) by (cases "d = 10") (auto simp: add_counts_def nonsep_def)
qed

lemma wc_loop_text:
  assumes b: "holds_text buf t" and e: "nonsep (buf (length t)) \<or> t \<noteq> [] \<and> \<not> nonsep (last t)"
  shows "wc_loop buf (length t) n c = add_counts (drop n t) c"
proof (induction "length t - n" arbitrary: n c rule: less_induct)
  case less
  show ?case
  proof (cases "n < length t")
    case False
    then show ?thesis by (simp add: wc_loop.simps [of _ "length t" n] add_counts_def)
  next
    case lt: True
    let ?r = "drop n t"
    let ?w = "takeWhile nonsep ?r"
    have wl: "word_len buf (length t) n 0 = length ?w" using word_len_eq [OF b, of n 0] by simp
    have IH: "wc_loop buf (length t) (n + (length ?w + 1)) c' = add_counts (tl (dropWhile nonsep ?r)) c'" for c'
      using less [of "n + (length ?w + 1)" c'] lt next_piece [of n t] by simp
    show ?thesis
    proof (cases "dropWhile nonsep ?r")
      case Nil
      then have w: "?w = ?r" by (metis append.right_neutral takeWhile_dropWhile_id)
      have "nonsep (last ?r)" using Nil lt last_in_set [of ?r] by (auto simp: dropWhile_eq_Nil_conv)
      then have "nonsep (buf (length t))" using e lt by simp
      moreover have "word_len buf (length t) n 0 = length t - n" using wl by (simp only: w length_drop)
      moreover have "wc_loop buf (length t) (Suc (length t)) c' = c'" for c' by (subst wc_loop.simps) simp
      moreover have "count_list ?r 10 = 0" "count_list ?r 32 = 0" "filter nonsep ?r = ?r" using counts_word [of ?r] unfolding w by simp_all
      ultimately show ?thesis using lt by (subst wc_loop.simps) (auto simp: Let_def add_counts_def nonsep_def)
    next
      case (Cons d r)
      have d: "\<not> nonsep d" using Cons by (metis hd_dropWhile list.distinct(1) list.sel(1))
      have split: "?r = ?w @ d # r" using Cons by (metis takeWhile_dropWhile_id)
      have l: "n + length ?w < length t" using arg_cong [OF split, of length] by simp
      have "buf (n + length ?w) = ?r ! length ?w" using b l by (simp add: holds_text_def)
      also have "\<dots> = d" by (subst split) simp
      finally have "buf (n + length ?w) = d" .
      then show ?thesis using lt IH Cons d add_counts_split [OF split _ d, of c] set_takeWhileD [of _ nonsep ?r]
        by (subst wc_loop.simps) (auto simp: Let_def wl nonsep_def)
    qed
  qed
qed

section \<open>cat\<close>

text \<open>A list of names on the command line.\<close>

fun spaced :: "cstring list \<Rightarrow> cstring" where
  "spaced [] = []"
| "spaced [a] = a"
| "spaced (a # as) = a @ 32 # spaced as"

definition file_name :: "cstring \<Rightarrow> bool" where
  "file_name a \<longleftrightarrow> a \<noteq> [] \<and> (\<forall>c \<in> set a. c \<noteq> 32 \<and> c \<noteq> 0)"

definition cat_text :: "fworld \<Rightarrow> cstring list \<Rightarrow> u8 list" where
  "cat_text w as = concat (map (\<lambda>a. the (files w a)) (filter (\<lambda>a. \<not> skipped a) as))"

lemma cat_file_text:
  assumes "file_name a" "skipped a \<or> files w a \<noteq> None" "free_fd w \<noteq> None"
  shows "cat_file (file_sys heap) a w = show_bytes (if skipped a then [] else the (files w a)) w"
proof (cases "skipped a")
  case False
  have c: "cstr a = a" using assms(1) by (auto simp: file_name_def)
  obtain t where t: "files w a = Some t" using assms(2) False by auto
  obtain buf where b: "slurp (file_sys heap) a w = (int (length t), buf, w)" "\<And>i. i < length t \<Longrightarrow> buf i = t ! i"
    using slurp_file [of w a t heap] t c assms(3) by metis
  have "bytes_of buf 0 (length t) = t" using bytes_of_word [of buf t 0 "length t"] b(2) by (simp add: holds_text_def)
  then show ?thesis using False b(1) t by (simp add: cat_file_def)
qed (simp add: cat_file_def)

lemma cat_loop_text:
  assumes "list_all file_name as" "\<forall>a \<in> set as. skipped a \<or> files w a \<noteq> None" "free_fd w \<noteq> None"
  shows "cat_loop (file_sys heap) (b @ spaced as) (length b) w = show_bytes (cat_text w as) w"
  using assms
proof (induction as arbitrary: b w rule: spaced.induct)
  case 1
  then show ?case by (subst cat_loop.simps) (simp add: char_at_def cat_text_def)
next
  case (2 a)
  then have f: "file_name a" by simp
  have z: "char_at (b @ a) (length b) \<noteq> 0" using f by (cases a) (auto simp: char_at_def nth_append file_name_def)
  have l: "arg_len (b @ a) (length b) 0 = length a" "sub_chars (b @ a) (length b) (length a) = a"
    using arg_len_word [of a "[]" 0 b] sub_chars_word [of b a "[]"] f by (simp_all add: file_name_def)
  have e: "char_at (b @ a) (length b + length a) = 0" by (simp add: char_at_def)
  have "cat_loop (file_sys heap) (b @ a) (length b + length a) w' = w'" for w' by (subst cat_loop.simps) (simp add: e)
  then show ?case using 2 z l e cat_file_text [OF f, of w heap]
    by (subst cat_loop.simps) (simp add: Let_def cat_text_def)
next
  case (3 a a2 as)
  let ?s = "b @ spaced (a # a2 # as)"
  have f: "file_name a" using 3 by simp
  have s: "?s = b @ a @ 32 # spaced (a2 # as)" "?s = (b @ a @ [32]) @ spaced (a2 # as)" by simp_all
  have z: "char_at ?s (length b) \<noteq> 0" using f by (cases a) (auto simp: char_at_def nth_append file_name_def)
  have l: "arg_len ?s (length b) 0 = length a" "sub_chars ?s (length b) (length a) = a"
    unfolding s(1) using arg_len_word [of a "32 # spaced (a2 # as)" 0 b] sub_chars_word [of b a "32 # spaced (a2 # as)"] f
    by (simp_all add: file_name_def)
  have e: "char_at ?s (length b + length a) = 32" unfolding s(1) by (simp add: char_at_def nth_append)
  let ?w = "show_bytes (if skipped a then [] else the (files w a)) w"
  have IH: "cat_loop (file_sys heap) ?s (length b + (length a + 1)) ?w = show_bytes (cat_text ?w (a2 # as)) ?w"
    using 3(1) [of ?w "b @ a @ [32]"] 3(2-4) unfolding s(2) by simp
  have cf: "cat_file (file_sys heap) a w = ?w" using cat_file_text [OF f, of w heap] 3(3,4) by simp
  have t: "cat_text w (a # a2 # as) = (if skipped a then [] else the (files w a)) @ cat_text ?w (a2 # as)"
    by (simp add: cat_text_def)
  have "cat_loop (file_sys heap) ?s (length b) w = cat_loop (file_sys heap) ?s (length b + (length a + 1)) ?w"
    by (subst cat_loop.simps) (use z l e cf in \<open>simp add: Let_def del: spaced.simps\<close>)
  then show ?case using IH unfolding t by simp
qed

section \<open>The programs\<close>

text \<open>\<^verbatim>\<open>cat\<close> with any number of names shows the contents of the files one after the other, each exactly
  once and in the order of the names, leaves out \<^verbatim>\<open>.\<close>, \<^verbatim>\<open>..\<close> and \<^verbatim>\<open>lost+found\<close>, and closes every descriptor it
  opens.\<close>

theorem cat_spec:
  assumes "list_all file_name as" "\<forall>a \<in> set as. skipped a \<or> files w a \<noteq> None" "free_fd w \<noteq> None"
  shows "cat_main (file_sys heap) [ascii ''cat'', spaced as] w = Inr (Returned 0, show_bytes (cat_text w as) w)"
  using cat_loop_text [OF assms, of heap "[]"] by (simp add: cat_main_def arg_1_def)

definition demo_files :: fworld where
  "demo_files = \<lparr>files = [ascii ''f'' \<mapsto> ascii ''is it'' @ [10] @ ascii ''this'' @ [10], ascii ''g'' \<mapsto> ascii ''end'' @ [10]],
     fds = Map.empty, shown = []\<rparr>"

lemma demo_free: "free_fd demo_files \<noteq> None"
  by (simp add: free_fd_def demo_files_def)

theorem cat_spec_witness:
  "cat_main (file_sys (\<lambda>_. 0)) [ascii ''cat'', ascii ''g .. f''] demo_files =
    Inr (Returned 0, show_bytes (ascii ''end'' @ [10] @ ascii ''is it'' @ [10] @ ascii ''this'' @ [10]) demo_files)"
proof -
  let ?as = "map ascii [''g'', ''..'', ''f'']"
  have "list_all file_name ?as" by (simp add: file_name_def ascii_def)
  moreover have "spaced ?as = ascii ''g .. f''" by (simp add: ascii_def)
  moreover have "cat_text demo_files ?as = ascii ''end'' @ [10] @ ascii ''is it'' @ [10] @ ascii ''this'' @ [10]"
    by (simp add: cat_text_def demo_files_def skipped_def ascii_def)
  moreover have "\<forall>a \<in> set ?as. skipped a \<or> files demo_files a \<noteq> None" by (simp add: demo_files_def skipped_def ascii_def)
  ultimately show ?thesis using cat_spec [of ?as demo_files "\<lambda>_. 0"] demo_free by simp
qed

text \<open>C27: \<^verbatim>\<open>grep\<close> with a pattern and a file that ends with a space or line end shows, each on a line of its own and
  in order, exactly the words of the file that contain the pattern (words, not lines), and nothing else.\<close>

theorem grep_spec:
  assumes "\<forall>c \<in> set p. c \<noteq> 32 \<and> c \<noteq> 0" "\<forall>c \<in> set name. c \<noteq> 32 \<and> c \<noteq> 0" "10 \<notin> set p"
    and "files w name = Some t" "free_fd w \<noteq> None" and "0 \<notin> set t" "t \<noteq> [] \<Longrightarrow> \<not> nonsep (last t)"
  shows "grep_main (file_sys heap) [ascii ''grep'', p @ 32 # name] w =
    Inr (Returned 0, show_bytes (concat (map (\<lambda>w. w @ [10]) (filter (\<lambda>w. w \<noteq> [] \<and> sublist p w) (pieces t)))) w)"
  using grep_text_main [OF assms] by (simp add: grep_text_def)

theorem grep_spec_witness:
  "grep_main (file_sys (\<lambda>_. 0)) [ascii ''grep'', ascii ''is f''] demo_files =
    Inr (Returned 0, show_bytes (ascii ''is'' @ [10] @ ascii ''this'' @ [10]) demo_files)"
proof -
  let ?t = "ascii ''is it'' @ [10] @ ascii ''this'' @ [10]"
  have "concat (map (\<lambda>w. w @ [10]) (filter (\<lambda>w. w \<noteq> [] \<and> sublist (ascii ''is'') w) (pieces ?t))) = ascii ''is'' @ [10] @ ascii ''this'' @ [10]"
    by (simp add: ascii_def nonsep_def sublist_Cons_right)
  then show ?thesis
    using grep_spec [of "ascii ''is''" "ascii ''f''" demo_files ?t "\<lambda>_. 0"] demo_free
    by (simp add: demo_files_def ascii_def nonsep_def)
qed

text \<open>What \<^verbatim>\<open>wc\<close> prints.\<close>

definition wc_pieces :: "u8 list \<Rightarrow> piece list" where
  "wc_pieces t = [Conv [] [] None [] CDec (of_nat (count_list t 10)), Lit 32,
     Conv [] [] None [] CDec (of_nat (count_list t 10 + count_list t 32)), Lit 32,
     Conv [] [] None [] CDec (of_nat (length (filter nonsep t))), Lit 32, Conv [] [] None [] CStr 1, Lit 10]"

definition wc_text :: "cstring \<Rightarrow> u8 list \<Rightarrow> u8 list" where
  "wc_text name t = concat (map (piece_text (\<lambda>_. name) 1000) (wc_pieces t))"

lemma say_file:
  assumes "list_all piece_ok qs" "length (concat (map (piece_text str_at 1000) qs)) < 1000"
  shows "say (file_sys heap) str_at (concat (map encode_piece qs)) (concat (map piece_args qs)) w =
    Inr (show_bytes (concat (map (piece_text str_at 1000) qs)) w)"
proof -
  have "fold (\<lambda>c s. snd (sys_write file_calls 1 [c] s)) xs w = show_bytes xs w" for xs
    by (induction xs arbitrary: w) (simp_all add: file_calls_def)
  then show ?thesis unfolding say_def file_sys_simps printf_spec [OF assms] by (simp add: file_calls_def)
qed

lemma say_plain:
  assumes "list_all (\<lambda>c. c \<noteq> 0 \<and> c \<noteq> 37) xs" "length xs < 1000"
  shows "say (file_sys heap) str_at xs [] w = Inr (show_bytes xs w)"
proof -
  have e: "concat (map encode_piece (map Lit xs)) = xs" "concat (map piece_args (map Lit xs)) = []"
    "concat (map (piece_text str_at 1000) (map Lit xs)) = xs" by (induction xs) simp_all
  have "list_all piece_ok (map Lit xs)" using assms(1) by (induction xs) auto
  then show ?thesis using say_file [of "map Lit xs" str_at heap w] assms(2) unfolding e by simp
qed

text \<open>\<^verbatim>\<open>wc\<close> of a file prints the number of its line ends, the number of its spaces and line ends (which it
  calls words), the number of its other bytes and its name.  Where the file does not end with a space or line
  end, the byte behind the buffer is read too, and must not be one.\<close>

theorem wc_spec:
  assumes "files w (cstr name) = Some t" "free_fd w \<noteq> None" "nonsep (heap (length t)) \<or> t \<noteq> [] \<and> \<not> nonsep (last t)"
    and "length (wc_text name t) < 1000"
  shows "wc_main (file_sys heap) [ascii ''wc'', name] w =
    Inr (Returned 0, show_bytes (ascii ''*** wc implementation'' @ [10] @ wc_text name t) w)"
proof -
  let ?h = "ascii ''*** wc implementation'' @ [10]"
  have h: "say (file_sys heap) str_at ?h [] w = Inr (show_bytes ?h w)" for str_at
    by (rule say_plain) (simp_all add: ascii_def)
  obtain buf where b: "slurp (file_sys heap) name (show_bytes ?h w) = (int (length t), buf, show_bytes ?h w)"
    "\<And>i. i < length t \<Longrightarrow> buf i = t ! i" "\<And>i. length t \<le> i \<Longrightarrow> buf i = heap i"
    using slurp_file [of "show_bytes ?h w" name t heap] assms(1,2) by auto
  have c: "wc_loop buf (length t) 0 \<lparr>line_count = 0, word_count = 0, char_count = 0\<rparr> =
      \<lparr>line_count = count_list t 10, word_count = count_list t 10 + count_list t 32, char_count = length (filter nonsep t)\<rparr>"
    using wc_loop_text [of buf t 0] b(2,3) assms(3) by (simp add: holds_text_def add_counts_def)
  have e: "concat (map encode_piece (wc_pieces t)) = ascii ''%d %d %d %s'' @ [10]"
    "concat (map piece_args (wc_pieces t)) = [of_nat (count_list t 10), of_nat (count_list t 10 + count_list t 32),
      of_nat (length (filter nonsep t)), 1]"
    by (simp_all add: wc_pieces_def ascii_def)
  have "list_all piece_ok (wc_pieces t)" by (simp add: wc_pieces_def)
  then have s: "say (file_sys heap) (\<lambda>_. name) (ascii ''%d %d %d %s'' @ [10]) [of_nat (count_list t 10),
      of_nat (count_list t 10 + count_list t 32), of_nat (length (filter nonsep t)), 1] (show_bytes ?h w) =
      Inr (show_bytes (wc_text name t) (show_bytes ?h w))"
    using say_file [of "wc_pieces t" "\<lambda>_. name" heap "show_bytes ?h w"] assms(4) unfolding e wc_text_def by simp
  show ?thesis unfolding wc_main_def h rbind_simps using b(1) c s by (simp add: arg_1_def)
qed

lemma demo_wc_text: "wc_text (ascii ''g'') (ascii ''end'' @ [10]) = ascii ''1 1 3 g'' @ [10]"
  by code_simp

theorem wc_spec_witness:
  "wc_main (file_sys (\<lambda>_. 0)) [ascii ''wc'', ascii ''g''] demo_files =
    Inr (Returned 0, show_bytes (ascii ''*** wc implementation'' @ [10] @ ascii ''1 1 3 g'' @ [10]) demo_files)"
  using wc_spec [of demo_files "ascii ''g''" "ascii ''end'' @ [10]" "\<lambda>_. 0"] demo_free
  unfolding demo_wc_text by (simp add: demo_files_def ascii_def nonsep_def)

section \<open>The shell\<close>

definition commands :: "string list" where
  "commands = [''cd'', ''cat'', ''grep'', ''wc'', ''pwd'', ''echo'', ''exec'']"

lemma starts_simps [simp]:
  "starts x []"
  "starts [] (c # n) \<longleftrightarrow> of_char c = (0 :: u8) \<and> starts [] n"
  "starts (y # x) (c # n) \<longleftrightarrow> y = of_char c \<and> starts x n"
proof -
  have all: "list_all P [0..<Suc k] \<longleftrightarrow> P 0 \<and> list_all (\<lambda>i. P (Suc i)) [0..<k]" for P k
    by (simp add: upt_conv_Cons map_Suc_upt [symmetric] list.pred_map comp_def del: upt_Suc)
  show "starts x []" by (simp add: starts_def)
  show "starts [] (c # n) \<longleftrightarrow> of_char c = (0 :: u8) \<and> starts [] n"
    unfolding starts_def list.size add_Suc_right add_0_right all by (auto simp: char_at_def)
  show "starts (y # x) (c # n) \<longleftrightarrow> y = of_char c \<and> starts x n"
    unfolding starts_def list.size add_Suc_right add_0_right all by (simp add: char_at_def)
qed

lemma shell_child_command:
  assumes "name \<in> set commands"
  shows "shell_child m (ascii name @ 32 # rest) s = Inr (Exec (ascii ''/sbin/'' @ ascii name) [ascii name, rest], s)"
    "handler_child m (ascii name @ 32 # rest) s = Inr (Exec (ascii ''/sbin/'' @ ascii name) [ascii name, rest], s)"
    "\<not> starts (ascii name @ 32 # rest) ''demo''"
proof -
  show "\<not> starts (ascii name @ 32 # rest) ''demo''" using assms by (simp add: commands_def) (elim disjE; simp add: ascii_def)
  show "shell_child m (ascii name @ 32 # rest) s = Inr (Exec (ascii ''/sbin/'' @ ascii name) [ascii name, rest], s)"
    using assms unfolding commands_def list.set insert_iff empty_iff
    by (elim disjE; simp add: shell_child_def ascii_def run_as_def skip_def)
  show "handler_child m (ascii name @ 32 # rest) s = Inr (Exec (ascii ''/sbin/'' @ ascii name) [ascii name, rest], s)"
    using assms unfolding commands_def list.set insert_iff empty_iff
    by (elim disjE; simp add: handler_child_def ascii_def run_as_def skip_def)
qed

text \<open>A line that asks for none of the programs.\<close>

definition unknown :: "cstring \<Rightarrow> bool" where
  "unknown x \<longleftrightarrow> list_all (\<lambda>c. \<not> starts x c) (''demo'' # ''ls'' # commands)"

lemma handler_command:
  assumes "name \<in> set commands" "tail = [] \<or> hd tail = 32"
  shows "handler_child m (ascii name @ tail @ 32 # rest) s =
    Inr (Exec (ascii ''/sbin/'' @ ascii name) [ascii name, tl (tail @ 32 # rest)], s)"
proof (cases tail)
  case (Cons c t)
  then show ?thesis using shell_child_command(2) [OF assms(1), of m "t @ 32 # rest"] assms(2) by simp
qed (use shell_child_command(2) [OF assms(1)] in simp)

lemma shell_pipe:
  "\<not> starts (ascii ''ls | '' @ cmd) ''demo''"
  "shell_child m (ascii ''ls | '' @ cmd) s =
    rbind (say m (\<lambda>_. cmd) (ascii ''ls pipe with command: %s'' @ [10]) [1] s)
      (\<lambda>s1. Inr (Exec (ascii ''/sbin/ls'') [ascii ''ls'', cmd], s1))"
  by (simp_all add: shell_child_def run_as_def skip_def char_at_def ascii_def)

text \<open>C28: The shell's child runs the program that the line names, with the rest of the line as its one argument;
  \<^verbatim>\<open>ls\<close> alone runs without an argument.  The line \<^verbatim>\<open>ls | command\<close> is announced, runs \<^verbatim>\<open>ls\<close> with the command as its
  argument, which runs \<^verbatim>\<open>shellHandler\<close> with the command and the listing behind it, and ends as the program the
  command names with the rest of the command and the listing as its one argument, as long as the listing has
  fewer than 250 letters and with the command fits into 300 bytes; a longer listing overflows the buffer of \<^verbatim>\<open>ls\<close>.
  The parent waits for its child and goes on, a failing \<^verbatim>\<open>fork\<close> is reported, and after a line that names no
  program the child is not ended: it returns into the shell's loop like its parent.\<close>

theorem shell_spec:
  assumes "name \<in> set commands"
  shows "(u_fork m s = (0, s1) \<longrightarrow>
      mainShellHandler m (ascii name @ 32 # rest) s = Inr (Exec (ascii ''/sbin/'' @ ascii name) [ascii name, rest], s1) \<and>
      mainShellHandler m (ascii ''ls'') s = Inr (Exec (ascii ''/sbin/ls'') [ascii ''ls''], s1) \<and>
      (unknown x \<longrightarrow> mainShellHandler m x s =
        rbind (say m (\<lambda>_. []) (ascii ''*** invalid command'' @ [10]) [] s1) (\<lambda>s2. Inr (Returned 0, s2)))) \<and>
    (u_fork m s = (i, s1) \<and> 0 < i \<longrightarrow> mainShellHandler m x s = Inr (Returned 0, snd (u_wait m i s1))) \<and>
    (u_fork m s = (i, s1) \<and> i < 0 \<longrightarrow> mainShellHandler m x s =
      rbind (say m (\<lambda>_. []) (ascii ''fork failed'' @ [10]) [] s1) (\<lambda>s2. Inr (Returned (- 1), s2))) \<and>
    (u_fork m s = (0, s1) \<and> cmd = ascii name @ tail \<and> (tail = [] \<or> hd tail = 32) \<and> 0 \<notin> set tail \<and>
     say m (\<lambda>_. cmd) (ascii ''ls pipe with command: %s'' @ [10]) [1] s1 = Inr s2 \<and>
     u_ls m s2 = (listing, s3) \<and> length (cstr listing) < 250 \<and> length cmd + length (cstr listing) < 299 \<and>
     u_fork m s3 = (0, s4) \<longrightarrow>
      mainShellHandler m (ascii ''ls | '' @ cmd) s = Inr (Exec (ascii ''/sbin/ls'') [ascii ''ls'', cmd], s2) \<and>
      ls_main m [ascii ''ls'', cmd] s2 =
        Inr (Exec (ascii ''/sbin/shellHandler'') [ascii ''shellHandler'', cmd @ 32 # cstr listing], s3) \<and>
      shellHandler_main m [ascii ''shellHandler'', cmd @ 32 # cstr listing] s3 =
        Inr (Exec (ascii ''/sbin/'' @ ascii name) [ascii name, tl (tail @ 32 # cstr listing)], s4)) \<and>
    (u_ls m s = (listing, s1) \<and> 250 \<le> length (cstr listing) \<longrightarrow> ls_main m argv s = Inl (OutOfBounds ''buff''))"
proof (intro conjI impI)
  assume f: "u_fork m s = (0, s1)"
  show "mainShellHandler m (ascii name @ 32 # rest) s = Inr (Exec (ascii ''/sbin/'' @ ascii name) [ascii name, rest], s1)"
    using f shell_child_command [OF assms] by (simp add: mainShellHandler_def forked_run_def)
  have "\<not> starts (ascii ''ls'') ''demo'' \<and> shell_child m (ascii ''ls'') s1 = Inr (Exec (ascii ''/sbin/ls'') [ascii ''ls''], s1)"
    by (simp add: shell_child_def char_at_def ascii_def)
  then show "mainShellHandler m (ascii ''ls'') s = Inr (Exec (ascii ''/sbin/ls'') [ascii ''ls''], s1)"
    using f by (simp add: mainShellHandler_def forked_run_def)
  assume "unknown x"
  then show "mainShellHandler m x s =
      rbind (say m (\<lambda>_. []) (ascii ''*** invalid command'' @ [10]) [] s1) (\<lambda>s2. Inr (Returned 0, s2))"
    using f by (simp add: mainShellHandler_def forked_run_def shell_child_def unknown_def commands_def)
next
  assume "u_fork m s = (i, s1) \<and> 0 < i"
  then show "mainShellHandler m x s = Inr (Returned 0, snd (u_wait m i s1))" by (simp add: mainShellHandler_def forked_run_def)
next
  assume "u_fork m s = (i, s1) \<and> i < 0"
  then show "mainShellHandler m x s =
      rbind (say m (\<lambda>_. []) (ascii ''fork failed'' @ [10]) [] s1) (\<lambda>s2. Inr (Returned (- 1), s2))"
    by (simp add: mainShellHandler_def forked_run_def)
next
  assume a: "u_fork m s = (0, s1) \<and> cmd = ascii name @ tail \<and> (tail = [] \<or> hd tail = 32) \<and> 0 \<notin> set tail \<and>
     say m (\<lambda>_. cmd) (ascii ''ls pipe with command: %s'' @ [10]) [1] s1 = Inr s2 \<and>
     u_ls m s2 = (listing, s3) \<and> length (cstr listing) < 250 \<and> length cmd + length (cstr listing) < 299 \<and>
     u_fork m s3 = (0, s4)"
  then show "mainShellHandler m (ascii ''ls | '' @ cmd) s = Inr (Exec (ascii ''/sbin/ls'') [ascii ''ls'', cmd], s2)"
    by (elim conjE) (simp add: shell_pipe mainShellHandler_def forked_run_def)
  have "0 \<notin> set cmd" using a assms by (auto simp: commands_def ascii_def)
  then have c: "cstr cmd = cmd" by (rule cstr_id)
  show "ls_main m [ascii ''ls'', cmd] s2 =
      Inr (Exec (ascii ''/sbin/shellHandler'') [ascii ''shellHandler'', cmd @ 32 # cstr listing], s3)"
    using a c by (elim conjE) (simp add: ls_main_def Let_def del: cstr_id)
  show "shellHandler_main m [ascii ''shellHandler'', cmd @ 32 # cstr listing] s3 =
      Inr (Exec (ascii ''/sbin/'' @ ascii name) [ascii name, tl (tail @ 32 # cstr listing)], s4)"
    using a handler_command [OF assms, of tail m "cstr listing" s4]
    by (elim conjE) (simp add: shellHandler_main_def arg_1_def forked_run_def)
next
  assume "u_ls m s = (listing, s1) \<and> 250 \<le> length (cstr listing)"
  then show "ls_main m argv s = Inl (OutOfBounds ''buff'')" by (simp add: ls_main_def)
qed

text \<open>In a directory with the files f and g: \<^verbatim>\<open>cat f g\<close>, and \<^verbatim>\<open>ls | grep f\<close> from the line to the last program.\<close>

definition demo_dir :: "fworld umach" where
  "demo_dir = (file_sys (\<lambda>_. 0))\<lparr>u_ls := \<lambda>w. (ascii ''f g'', w)\<rparr>"

lemma demo_dir_say:
  "say demo_dir (\<lambda>_. ascii ''grep f'') (ascii ''ls pipe with command: %s'' @ [10]) [1] w =
    Inr (show_bytes (ascii ''ls pipe with command: grep f'' @ [10]) w)"
proof -
  let ?qs = "map Lit (ascii ''ls pipe with command: '') @ [Conv [] [] None [] CStr 1, Lit 10]"
  have "say demo_dir = say (file_sys (\<lambda>_. 0))" by (simp add: fun_eq_iff say_def demo_dir_def)
  moreover have "list_all piece_ok ?qs" by (simp add: ascii_def)
  moreover have "concat (map encode_piece ?qs) = ascii ''ls pipe with command: %s'' @ [10]"
    "concat (map piece_args ?qs) = [1]" by (simp_all add: ascii_def)
  moreover have "concat (map (piece_text (\<lambda>_. ascii ''grep f'') 1000) ?qs) = ascii ''ls pipe with command: grep f'' @ [10]"
    by code_simp
  moreover have "length (ascii ''ls pipe with command: grep f'' @ [10]) < 1000" by (simp add: ascii_def)
  ultimately show ?thesis using say_file [of ?qs "\<lambda>_. ascii ''grep f''" "\<lambda>_. 0" w] by metis
qed

theorem shell_spec_witness:
  "let w = show_bytes (ascii ''ls pipe with command: grep f'' @ [10]) demo_files
   in mainShellHandler demo_dir (ascii ''cat f g'') demo_files =
        Inr (Exec (ascii ''/sbin/cat'') [ascii ''cat'', ascii ''f g''], demo_files) \<and>
      mainShellHandler demo_dir (ascii ''ls | grep f'') demo_files =
        Inr (Exec (ascii ''/sbin/ls'') [ascii ''ls'', ascii ''grep f''], w) \<and>
      ls_main demo_dir [ascii ''ls'', ascii ''grep f''] w =
        Inr (Exec (ascii ''/sbin/shellHandler'') [ascii ''shellHandler'', ascii ''grep f f g''], w) \<and>
      shellHandler_main demo_dir [ascii ''shellHandler'', ascii ''grep f f g''] w =
        Inr (Exec (ascii ''/sbin/grep'') [ascii ''grep'', ascii ''f f g''], w)"
proof -
  have f: "u_fork demo_dir w = (0, w)" "u_ls demo_dir w = (ascii ''f g'', w)" for w
    by (simp_all add: demo_dir_def file_sys_def)
  have c: "''cat'' \<in> set commands" "''grep'' \<in> set commands" by (simp_all add: commands_def)
  let ?w = "show_bytes (ascii ''ls pipe with command: grep f'' @ [10]) demo_files"
  have "cstr (ascii ''f g'') = ascii ''f g''" by (simp add: ascii_def)
  then show ?thesis
    using shell_spec [OF c(1), of demo_dir demo_files demo_files "ascii ''f g''"] f(1)
      shell_spec [OF c(2), of demo_dir demo_files demo_files "[]" "[]" 0 "ascii ''grep f''" "ascii '' f''" ?w
        "ascii ''f g''" ?w ?w "[]"] f demo_dir_say [of demo_files]
    unfolding Let_def by (simp add: ascii_def)
qed

section \<open>libc\<close>

text \<open>\<^verbatim>\<open>cp\<close> ends, and has copied what was left of the file.\<close>

lemma cp_file:
  assumes "fds w from = Some (c, off)" "0 \<le> to" "to \<le> 2"
  shows "\<exists>off'. cp (file_sys heap) from to w = Some (Inr (show_bytes (drop off c) (w\<lparr>fds := (fds w)(from \<mapsto> (c, off'))\<rparr>)))"
  using assms(1)
proof (induction "length c - off" arbitrary: off w rule: less_induct)
  case less
  let ?bs = "take 100 (drop off c)"
  let ?w = "w\<lparr>fds := (fds w)(from \<mapsto> (c, off + length ?bs))\<rparr>"
  have rd: "sys_read file_calls from 100 w = ((int (length ?bs), ?bs), ?w)" using less.prems by (simp add: file_calls_def Let_def)
  show ?case
  proof (cases "off < length c")
    case False
    then show ?thesis using rd less.prems by (subst cp.simps) (auto intro: exI [of _ off] simp: show_bytes_def fun_upd_idem)
  next
    case True
    have wr: "cp_write (file_sys heap) to ?bs ?w = Some (Inr (show_bytes ?bs ?w))"
    proof -
      have "sys_write file_calls to ?bs ?w = (int (length ?bs), show_bytes ?bs ?w)" using assms(2,3) by (simp add: file_calls_def)
      moreover have "cp_write (file_sys heap) to [] w' = Some (Inr w')" for w' by (subst cp_write.simps) simp
      ultimately show ?thesis using True by (subst cp_write.simps) simp
    qed
    have dec: "length c - (off + length ?bs) < length c - off" using True by simp
    have pr: "fds (show_bytes ?bs ?w) from = Some (c, off + length ?bs)" by simp
    obtain off' where "cp (file_sys heap) from to (show_bytes ?bs ?w) =
        Some (Inr (show_bytes (drop (off + length ?bs) c) ((show_bytes ?bs ?w)\<lparr>fds := (fds (show_bytes ?bs ?w))(from \<mapsto> (c, off'))\<rparr>)))"
      using less.hyps [OF dec pr] by blast
    moreover have "drop (off + length ?bs) c = drop 100 (drop off c)"
      by (cases "length c - off \<le> 100") (auto simp: add.commute)
    then have "?bs @ drop (off + length ?bs) c = drop off c" by (simp only: append_take_drop_id)
    ultimately show ?thesis using rd wr True
      by (subst cp.simps) (auto simp: show_bytes_def intro!: exI [of _ off'])
  qed
qed

lemma puts_shows: "puts file_calls p w = (int (length (cstr p)) + 1, show_bytes (cstr p @ [10]) w)"
proof -
  have "puts_loop file_calls p k w = (Inr (k + int (length (cstr p))), show_bytes (cstr p) w)" for k
    by (induction p arbitrary: k w) (simp_all add: putchar_def file_calls_def)
  then show ?thesis by (simp add: puts_def u_putchar_def putchar_def file_calls_def)
qed

end
