(* ===== verification/User_Init.thy ===== *)
theory User_Init
  imports User_Progs
begin

text \<open>
  The first user program, \<^verbatim>\<open>t0.dir/sbin/init.c\<close>: a test of the file calls that starts the shell.  It needs three more
  system calls than the other programs; \<^verbatim>\<open>wait\<close> gets the word for the status and gives what the word is afterwards.
\<close>

record 's imach =
  um :: "'s umach"
  u_seek :: "int \<Rightarrow> u32 \<Rightarrow> 's \<Rightarrow> int \<times> 's"
  u_wait_status :: "int \<Rightarrow> u32 \<Rightarrow> 's \<Rightarrow> u32 \<times> 's"
  u_shutdown :: "'s \<Rightarrow> 's"

text \<open>Sequencing of what may not end, then may fail.\<close>

definition andthen :: "'s res option \<Rightarrow> ('s \<Rightarrow> 'b res option) \<Rightarrow> 'b res option" where
  "andthen r f = (case r of None \<Rightarrow> None | Some (Inl e) \<Rightarrow> Some (Inl e) | Some (Inr s) \<Rightarrow> f s)"

lemma andthen_simps [simp]:
  "andthen None f = None" "andthen (Some (Inl e)) f = Some (Inl e)" "andthen (Some (Inr s)) f = f s"
  by (simp_all add: andthen_def)

lemma andthen_eq_Inr: "andthen r f = Some (Inr x) \<longleftrightarrow> (\<exists>s. r = Some (Inr s) \<and> f s = Some (Inr x))"
  by (cases r; cases "the r") (auto simp: andthen_def)

definition show_num :: "'s imach \<Rightarrow> string \<Rightarrow> int \<Rightarrow> 's \<Rightarrow> 's res option" where
  "show_num m fmt n s = Some (say (um m) (\<lambda>_. []) (ascii fmt @ [10]) [word_of_int n] s)"

definition init_one :: "'s imach \<Rightarrow> int \<Rightarrow> 's \<Rightarrow> 's res option" where
  "init_one m fd s =
     andthen (show_num m ''*** fd = %d'' fd s) (\<lambda>s1.
     case u_len (um m) fd s1 of (n, s2) \<Rightarrow>
     andthen (show_num m ''*** len = %d'' n s2) (cp (um m) fd 2))"

fun show_args :: "'s imach \<Rightarrow> cstring list \<Rightarrow> 's \<Rightarrow> 's res option" where
  "show_args m [] s = Some (Inr s)"
| "show_args m (a # as) s = andthen (Some (say (um m) (\<lambda>_. a) (ascii ''*** %s'' @ [10]) [1] s)) (show_args m as)"

text \<open>The file part of \<^verbatim>\<open>main\<close>, the parent's part, and the whole.\<close>

definition init_files :: "'s imach \<Rightarrow> 's \<Rightarrow> 's res option" where
  "init_files m s =
     (case u_open (um m) (ascii ''/etc/data.txt'') s of (fd, s1) \<Rightarrow>
      andthen (init_one m fd s1) (\<lambda>s2.
      case u_close (um m) fd s2 of (c, s3) \<Rightarrow>
      andthen (show_num m ''*** close = %d'' c s3) (\<lambda>s4.
      andthen (init_one m fd s4) (\<lambda>s5.
      andthen (init_one m 100 s5) (\<lambda>s6.
      case u_open (um m) (ascii ''/etc/data.txt'') s6 of (o1, s7) \<Rightarrow>
      andthen (show_num m ''*** open again %d'' o1 s7) (\<lambda>s8.
      case u_seek m 3 17 s8 of (o2, s9) \<Rightarrow> show_num m ''*** seek %ld'' o2 s9))))))"

definition init_parent :: "'s imach \<Rightarrow> int \<Rightarrow> 's \<Rightarrow> 's res option" where
  "init_parent m i s =
     (case u_wait_status m i 42 s of (status, s1) \<Rightarrow>
      andthen (show_num m ''*** back from wait %ld'' (uint status) s1) (\<lambda>s2.
      case u_open (um m) (ascii ''/etc/panic.txt'') s2 of (fd, s3) \<Rightarrow> cp (um m) fd 1 s3))"

definition init_main :: "'s imach \<Rightarrow> cstring list \<Rightarrow> 's \<Rightarrow> (uend \<times> 's) res option" where
  "init_main m argv s =
     andthen (show_num m ''*** %d'' (int (length argv)) s) (\<lambda>s1.
     andthen (show_args m argv s1) (\<lambda>s2.
     andthen (init_files m s2) (\<lambda>s3.
     case u_fork (um m) s3 of (i, s4) \<Rightarrow>
       if i = 0 then
         map_option (map_sum id (\<lambda>s5. (Exec (ascii ''/sbin/shell'') (map ascii [''shell'', ''a'', ''b'', ''c'']), s5)))
           (Some (say (um m) (\<lambda>_. []) (ascii ''*** in child'' @ [10]) [] s4))
       else
         andthen (if i < 0 then Some (say (um m) (\<lambda>_. []) (ascii ''fork failed'') [] s4) else init_parent m i s4)
           (\<lambda>s5. Some (Inr (Returned 0, u_shutdown m s5))))))"

text \<open>When \<^verbatim>\<open>main\<close> ends, it is as the child that becomes the shell, or as the process that shut the machine down.\<close>

lemma init_main_ends:
  assumes "init_main m argv s = Some (Inr (e, s'))"
  shows "e = Exec (ascii ''/sbin/shell'') (map ascii [''shell'', ''a'', ''b'', ''c'']) \<or>
    e = Returned 0 \<and> (\<exists>s5. s' = u_shutdown m s5)"
proof -
  obtain s3 where "(case u_fork (um m) s3 of (i, s4) \<Rightarrow>
       if i = 0 then
         map_option (map_sum id (\<lambda>s5. (Exec (ascii ''/sbin/shell'') (map ascii [''shell'', ''a'', ''b'', ''c'']), s5)))
           (Some (say (um m) (\<lambda>_. []) (ascii ''*** in child'' @ [10]) [] s4))
       else
         andthen (if i < 0 then Some (say (um m) (\<lambda>_. []) (ascii ''fork failed'') [] s4) else init_parent m i s4)
           (\<lambda>s5. Some (Inr (Returned 0, u_shutdown m s5)))) = Some (Inr (e, s'))"
    using assms unfolding init_main_def andthen_eq_Inr by blast
  then show ?thesis
    by (cases "u_fork (um m) s3"; cases "say (um m) (\<lambda>_. []) (ascii ''*** in child'' @ [10]) [] (snd (u_fork (um m) s3))")
      (auto simp: andthen_eq_Inr split: if_splits)
qed

end
