(* ===== verification/Console.thy ===== *)
theory Console
  imports Devices Printf
begin

text \<open>
  The serial port, \<^verbatim>\<open>kernel/u8250.cc\<close>, and the messages, checks and panics of \<^verbatim>\<open>kernel/debug.h\<close> and
  \<^verbatim>\<open>kernel/debug.cc\<close> that go to it.  \<open>lsr n\<close> is the \<open>n\<close>th value read from the status register of the line.
\<close>

section \<open>The serial port\<close>

text \<open>The writes and the number of reads so far; \<open>None\<close> when a loop never ended.\<close>

type_synonym line = "(dev_write list \<times> nat) option"

definition U8250_put :: "(nat \<Rightarrow> u8) \<Rightarrow> u8 \<Rightarrow> line \<Rightarrow> line" where
  "U8250_put lsr c l =
     Option.bind l (\<lambda>(ws, i). map_option (\<lambda>j. (ws @ [Outb 0x3F8 c], j)) (poll (\<lambda>s. s AND 0x20 \<noteq> 0) lsr i))"

definition U8250_get :: "(nat \<Rightarrow> u8) \<Rightarrow> u8 \<Rightarrow> line \<Rightarrow> (u8 \<times> line) option" where
  "U8250_get lsr x l =
     Option.bind l (\<lambda>(ws, i). map_option (\<lambda>j. (x, Some (ws, j))) (poll (\<lambda>s. s AND 0x01 \<noteq> 0) lsr i))"

lemma puts_all:
  assumes "\<And>i. \<exists>j\<ge>i. lsr j AND 0x20 \<noteq> 0"
  shows "\<exists>j. fold (U8250_put lsr) cs (Some (ws, i)) = Some (ws @ map (Outb 0x3F8) cs, j)"
proof (induction cs arbitrary: ws i)
  case (Cons c cs)
  obtain j where "poll (\<lambda>s. s AND 0x20 \<noteq> 0) lsr i = Some j"
    using poll_never [of "\<lambda>s. s AND 0x20 \<noteq> 0" lsr i] assms by blast
  then show ?case using Cons [of "ws @ [Outb 0x3F8 c]" j] by (simp add: U8250_put_def)
qed simp

section \<open>Messages\<close>

text \<open>The lock of the messages is \<open>taken\<close> or free; a call that finds it taken waits, which is \<open>None\<close> here.\<close>

record debug =
  taken :: bool
  has_sink :: bool
  debugAll :: bool
  shutdown_called :: bool
  checks :: u32
  uart :: "dev_write list \<times> nat"

text \<open>What the code gets from the machine: the answers of the line, the bytes of strings, the processor's number.\<close>

record 'f console =
  lsr :: "nat \<Rightarrow> u8"
  fpu_of :: "'f fpu"
  strings :: "u32 \<Rightarrow> cstring"
  cpu_me :: u32

definition Debug_init :: "bool \<Rightarrow> debug \<Rightarrow> debug" where
  "Debug_init s d = d\<lparr>has_sink := s\<rparr>"

definition Debug_vprintf :: "'f console \<Rightarrow> cstring \<Rightarrow> u32 list \<Rightarrow> debug \<Rightarrow> debug res option" where
  "Debug_vprintf m fmt ap d =
     (if has_sink d then
        if taken d then None
        else case vsnprintf (U8250_put (lsr m)) (fpu_of m) (strings m) 1000 fmt ap (Some (uart d)) of
            Inl f \<Rightarrow> Some (Inl f)
          | Inr p \<Rightarrow> map_option (\<lambda>u. Inr (d\<lparr>uart := u, taken := False\<rparr>)) (sink p)
      else Some (Inr d))"

definition then_print :: "'f console \<Rightarrow> cstring \<Rightarrow> u32 list \<Rightarrow> debug res option \<Rightarrow> debug res option" where
  "then_print m fmt ap r = Option.bind r (\<lambda>r. case r of Inl f \<Rightarrow> Some (Inl f) | Inr d \<Rightarrow> Debug_vprintf m fmt ap d)"

definition set_shutdown :: "debug res option \<Rightarrow> debug res option" where
  "set_shutdown = map_option (map_sum id (\<lambda>d. d\<lparr>shutdown_called := True\<rparr>))"

text \<open>\<^verbatim>\<open>Debug::vpanic\<close> and \<^verbatim>\<open>Debug::shutdown\<close> up to the loop with which they end, which asks the emulator to exit for ever.\<close>

definition msg :: "string \<Rightarrow> cstring" where "msg s = map of_char s @ [10]"

definition Debug_vpanic :: "'f console \<Rightarrow> cstring \<Rightarrow> u32 list \<Rightarrow> debug \<Rightarrow> debug res option" where
  "Debug_vpanic m fmt ap d =
     set_shutdown (then_print m (msg ''| processor %d halting'') [cpu_me m] (Debug_vprintf m fmt ap (d\<lparr>taken := False\<rparr>)))"

definition Debug_shutdown :: "'f console \<Rightarrow> debug \<Rightarrow> debug res option" where
  "Debug_shutdown m d =
     set_shutdown (then_print m (msg ''core %d requested shutdown'') [cpu_me m]
       (if 0 < checks d then Debug_vprintf m (msg ''*** passed %d checkes'') [checks d] d else Some (Inr d)))"

text \<open>A failed check or assertion does not return: \<open>Inr\<close> of the state in which the processor halts.\<close>

definition Debug_assert :: "'f console \<Rightarrow> bool \<Rightarrow> u32 \<Rightarrow> u32 \<Rightarrow> u32 \<Rightarrow> debug \<Rightarrow> debug + debug res option" where
  "Debug_assert m invariant text file line d =
     (if \<not> invariant then Inr (Debug_vpanic m (msg ''*** Assertion [%s] failed at %s:%d'') [text, file, line] d) else Inl d)"

definition Debug_check :: "'f console \<Rightarrow> bool \<Rightarrow> u32 \<Rightarrow> u32 \<Rightarrow> u32 \<Rightarrow> debug \<Rightarrow> debug + debug res option" where
  "Debug_check m invariant text file line d =
     (let d1 = d\<lparr>checks := checks d + 1\<rparr>
      in if \<not> invariant then Inr (Debug_vpanic m (msg ''*** Check [%s] failed at %s:%d'') [text, file, line] d1) else Inl d1)"

definition Debug_missing :: "'f console \<Rightarrow> u32 \<Rightarrow> u32 \<Rightarrow> debug \<Rightarrow> debug res option" where
  "Debug_missing m file line d = Debug_vpanic m (msg ''*** Missing code at %s:%d'') [file, line] d"

definition Debug_vdebug :: "'f console \<Rightarrow> bool \<Rightarrow> u32 \<Rightarrow> cstring \<Rightarrow> u32 list \<Rightarrow> debug \<Rightarrow> debug res option" where
  "Debug_vdebug m on what fmt ap d =
     (if debugAll d \<or> on then
        then_print m [10] [] (then_print m fmt ap (Debug_vprintf m (map of_char ''[%s] '') [what] d))
      else Some (Inr d))"

definition Debug_debug :: "'f console \<Rightarrow> bool \<Rightarrow> u32 \<Rightarrow> cstring \<Rightarrow> u32 list \<Rightarrow> debug \<Rightarrow> debug res option" where
  "Debug_debug m on what fmt ap d = (if debugAll d \<or> on then Debug_vdebug m on what fmt ap d else Some (Inr d))"

lemma vprintf_text:
  assumes "has_sink d" and "\<not> taken d" and "\<And>i. \<exists>j\<ge>i. lsr m j AND 0x20 \<noteq> 0" and "list_all piece_ok qs"
    and "int (length (concat (map (piece_text (strings m) 1000) qs))) < 1000"
  shows "\<exists>j. Debug_vprintf m (concat (map encode_piece qs)) (concat (map piece_args qs)) d =
    Some (Inr (d\<lparr>uart := (fst (uart d) @ map (Outb 0x3F8) (concat (map (piece_text (strings m) 1000) qs)), j), taken := False\<rparr>))"
proof -
  let ?t = "concat (map (piece_text (strings m) 1000) qs)"
  obtain j where "fold (U8250_put (lsr m)) ?t (Some (uart d)) = Some (fst (uart d) @ map (Outb 0x3F8) ?t, j)"
    using puts_all [of "lsr m" ?t "fst (uart d)" "snd (uart d)"] assms(3) by auto
  then show ?thesis
    using assms(1,2) dopr_text [OF assms(4,5), of "U8250_put (lsr m)" "fpu_of m" "Some (uart d)"]
    by (auto simp: Debug_vprintf_def vsnprintf_def)
qed

text \<open>The line that a panic ends with.\<close>

definition halting :: "u32 \<Rightarrow> piece list" where
  "halting n = map (\<lambda>c. Lit (of_char c)) ''| processor '' @ [Conv [] [] None [] CDec n] @
     map (\<lambda>c. Lit (of_char c)) '' halting'' @ [Lit 10]"

lemma halting_ok: "list_all piece_ok (halting n)" "concat (map encode_piece (halting n)) = msg ''| processor %d halting''"
  "concat (map piece_args (halting n)) = [n]"
  by (simp_all add: halting_def msg_def digit_def)

lemma dec_text:
  assumes "n < 0x80000000"
  shows "piece_text str_at ml (Conv [] [] None [] CDec n) = number_text False 10 n"
proof -
  have "uint n < 0x80000000" using assms by (simp add: word_less_def)
  then have "signed_take_bit 31 (uint n) = uint n"
    using order_trans [OF _ uint_ge_0 [of n], of "- 0x80000000"] by (intro signed_take_bit_int_eq_self) simp_all
  then have "0 \<le> sint n" by (simp add: sint_uint)
  then show ?thesis
    by (simp add: int_text_def Let_def magnitude_def sign_text_def flag_def flag_bits_def digits_value_def precision_def)
qed

lemma halting_text:
  assumes "n < 16"
  shows "concat (map (piece_text str_at ml) (halting n)) =
    map of_char ''| processor '' @ number_text False 10 n @ map of_char '' halting'' @ [10]"
proof -
  have "n < 0x80000000" using assms by (simp add: word_less_nat_alt)
  note D = dec_text [OF this, of str_at ml]
  show ?thesis by (simp only: halting_def map_append concat_append list.map concat.simps D) simp
qed

text \<open>C35: Panics.  On a line that is ready again and again, \<^verbatim>\<open>Debug::vpanic\<close> of any message below
  1000 characters (in every combination of conversions) gets to its last loop, after having sent to the port, in order, the
  characters of the message and of the line that names the halting processor, and nothing else; it does so whoever holds the lock of the messages, which it
  breaks.  A plain message, by contrast, waits as long as the lock is taken.\<close>

theorem panic_prints:
  assumes "has_sink d" and "\<And>i. \<exists>j\<ge>i. lsr m j AND 0x20 \<noteq> 0" and "list_all piece_ok qs"
    and "int (length (concat (map (piece_text (strings m) 1000) qs))) < 1000" and "cpu_me m < 16"
  shows "(\<exists>j. Debug_vpanic m (concat (map encode_piece qs)) (concat (map piece_args qs)) d =
      Some (Inr (d\<lparr>uart := (fst (uart d) @ map (Outb 0x3F8)
        (concat (map (piece_text (strings m) 1000) qs) @
         map of_char ''| processor '' @ number_text False 10 (cpu_me m) @ map of_char '' halting'' @ [10]), j),
        taken := False, shutdown_called := True\<rparr>))) \<and>
    (taken d \<longrightarrow> Debug_vprintf m fmt ap d = None)"
proof -
  let ?h = "halting (cpu_me m)"
  note H = halting_text [OF assms(5), of "strings m" 1000]
  have len: "int (length (concat (map (piece_text (strings m) 1000) ?h))) < 1000"
    using number_text_value(3) [of 10 False "cpu_me m"] unfolding H by (simp add: good_base_def)
  let ?d0 = "d\<lparr>taken := False\<rparr>"
  obtain j where j: "Debug_vprintf m (concat (map encode_piece qs)) (concat (map piece_args qs)) ?d0 =
      Some (Inr (?d0\<lparr>uart := (fst (uart ?d0) @ map (Outb 0x3F8) (concat (map (piece_text (strings m) 1000) qs)), j), taken := False\<rparr>))"
    using vprintf_text [OF _ _ assms(2-4), of ?d0] assms(1) by auto
  let ?d1 = "?d0\<lparr>uart := (fst (uart ?d0) @ map (Outb 0x3F8) (concat (map (piece_text (strings m) 1000) qs)), j), taken := False\<rparr>"
  obtain k where k: "Debug_vprintf m (msg ''| processor %d halting'') [cpu_me m] ?d1 =
      Some (Inr (?d1\<lparr>uart := (fst (uart ?d1) @ map (Outb 0x3F8) (concat (map (piece_text (strings m) 1000) ?h)), k), taken := False\<rparr>))"
    using vprintf_text [OF _ _ assms(2) halting_ok(1) len, of ?d1] assms(1) unfolding halting_ok by auto
  have u: "d\<lparr>taken := False, uart := v, taken := False, uart := u, taken := False, shutdown_called := True\<rparr> =
      d\<lparr>uart := u, taken := False, shutdown_called := True\<rparr>" for u v
    by (cases d) simp
  show ?thesis
    using k [unfolded H] assms(1) by (auto simp: Debug_vpanic_def set_shutdown_def then_print_def j Debug_vprintf_def [of _ fmt] u)
qed

lemma panic_prints_witness:
  "\<exists>j. Debug_vpanic \<lparr>lsr = (\<lambda>n. if even n then 0x60 else 0), fpu_of = whole_fpu, strings = (\<lambda>a. [104, 105, 0]), cpu_me = 2\<rparr>
      (map of_char ''%s!'') [4096] \<lparr>taken = True, has_sink = True, debugAll = False, shutdown_called = False, checks = 0, uart = ([], 0)\<rparr> =
    Some (Inr \<lparr>taken = False, has_sink = True, debugAll = False, shutdown_called = True, checks = 0,
      uart = (map (Outb 0x3F8) (map of_char ''hi!| processor 2 halting'' @ [10]), j)\<rparr>)"
proof -
  let ?m = "\<lparr>lsr = (\<lambda>n. if even n then 0x60 else 0), fpu_of = whole_fpu, strings = (\<lambda>a. [104, 105, 0]), cpu_me = 2\<rparr>"
  let ?d = "\<lparr>taken = True, has_sink = True, debugAll = False, shutdown_called = False, checks = 0, uart = ([], 0)\<rparr>"
  let ?qs = "[Conv [] [] None [] CStr 4096, Lit 33]"
  have "\<exists>j\<ge>i. lsr ?m j AND 0x20 \<noteq> 0" for i by (rule exI [of _ "2 * i"]) simp
  moreover have t: "concat (map (piece_text (strings ?m) 1000) ?qs) = map of_char ''hi!''"
    by (simp add: str_text_def Let_def flag_def flag_bits_def digits_value_def precision_def)
  moreover have "number_text False 10 2 = [50]"
    by (simp add: number_text_def conv_loop.simps [of False 10 2] digit_char_def)
  moreover have "list_all piece_ok ?qs" by (simp add: digit_def isdigit_def)
  ultimately show ?thesis
    using panic_prints [of ?d ?m ?qs] by simp
qed

end
