(* ===== verification/Rng.thy ===== *)
theory Rng
  imports OS_Prelude
begin

text \<open>
  The pseudo-random numbers of \<^verbatim>\<open>kernel/random.h\<close>: two multiply-with-carry generators and the states
  in which they would stand still.
\<close>

record rng =
  rng_w :: u32
  rng_z :: u32

definition Random :: "u32 \<Rightarrow> rng" where
  "Random seed =
     (let w = seed; z = NOT seed;
          w = (if w = 0 \<or> w = 0x464fffff then w + 1 else w);
          z = (if z = 0 \<or> z = 0x9068ffff then z + 1 else z)
      in \<lparr>rng_w = w, rng_z = z\<rparr>)"

definition next_random :: "rng \<Rightarrow> u32 \<times> rng" where
  "next_random r =
     (let z = 36969 * (rng_z r AND 65535) + drop_bit 16 (rng_z r);
          w = 18000 * (rng_w r AND 65535) + drop_bit 16 (rng_w r);
          res = push_bit 16 z + w
      in (res, \<lparr>rng_w = w, rng_z = z\<rparr>))"

definition after :: "nat \<Rightarrow> u32 \<Rightarrow> rng" where
  "after n seed = ((snd \<circ> next_random) ^^ n) (Random seed)"

lemma after_simps [simp]: "after 0 seed = Random seed" "after (Suc n) seed = snd (next_random (after n seed))"
  by (simp_all add: after_def)

text \<open>One generator, over the integers.\<close>

definition mwc :: "int \<Rightarrow> int \<Rightarrow> int" where
  "mwc a x = a * (x mod 65536) + x div 65536"

lemma mwc_word:
  fixes x a :: u32
  assumes "uint a < 65535"
  shows "uint (a * (x AND 65535) + drop_bit 16 x) = mwc (uint a) (uint x)"
proof -
  define h l where "h = uint x div 65536" and "l = uint x mod 65536"
  have x: "0 \<le> uint x" "uint x < 65536 * 65536" using uint_lt2p [of x] by simp_all
  have b: "0 \<le> l" "l \<le> 65535" "0 \<le> h" "h \<le> 65535" using x by (simp_all add: h_def l_def pos_imp_zdiv_nonneg_iff)
  have "x AND 65535 = take_bit 16 x" by (simp add: take_bit_eq_mask mask_eq_exp_minus_1)
  then have "uint (x AND 65535) = take_bit 16 (uint x)" by (simp only: unsigned_take_bit_eq)
  then have 1: "uint (x AND 65535) = l" by (simp add: take_bit_eq_mod l_def)
  have 2: "uint (drop_bit 16 x) = h" by (simp add: drop_bit_eq_div uint_div h_def)
  have "uint a * l \<le> 65534 * 65535" using assms b uint_ge_0 [of a] by (intro mult_mono) simp_all
  moreover have "0 \<le> uint a * l" using b uint_ge_0 [of a] by simp
  ultimately show ?thesis
    using b by (simp add: uint_word_ariths 1 2 mwc_def flip: h_def l_def)
qed

lemma mwc_parts:
  assumes "0 \<le> x" and "x < 2 ^ 32"
  obtains h l where "x = 65536 * h + l" "0 \<le> l" "l \<le> 65535" "0 \<le> h" "h \<le> 65535" "mwc a x = a * l + h"
proof
  show "x = 65536 * (x div 65536) + x mod 65536" by simp
  show "0 \<le> x mod 65536" "x mod 65536 \<le> 65535" by simp_all
  show "0 \<le> x div 65536" using assms by simp
  show "x div 65536 \<le> 65535" using assms by simp
  show "mwc a x = a * (x mod 65536) + x div 65536" by (simp add: mwc_def)
qed

text \<open>The states that a generator leaves unchanged, and those that it takes to them.\<close>

lemma mwc_fixed:
  assumes "0 \<le> x" "x < 2 ^ 32" "0 < a" "coprime (a - 1) 65535"
  shows "mwc a x = x \<Longrightarrow> x = 0 \<or> x = 65536 * a - 1"
proof -
  assume m: "mwc a x = x"
  obtain h l where x: "x = 65536 * h + l" "0 \<le> l" "l \<le> 65535" "0 \<le> h" "h \<le> 65535" "mwc a x = a * l + h"
    by (rule mwc_parts [OF assms(1,2)])
  have e: "(a - 1) * l = 65535 * h" using m x by (simp add: algebra_simps)
  then have "65535 dvd (a - 1) * l" by simp
  then have "65535 dvd l" using assms(4) by (simp add: coprime_dvd_mult_right_iff coprime_commute)
  then obtain k where "l = 65535 * k" ..
  then have "l = 0 \<or> l = 65535" using x(2,3) by auto
  then show ?thesis using e x(1) by auto
qed

lemma mwc_to_fixed:
  assumes "0 \<le> x" "x < 2 ^ 32" "0 < a" "mwc a x = 65536 * a - 1"
  obtains k where "1 \<le> k" "a * k \<le> 65536" "x = 65536 * (a * k - 1) + (65536 - k)"
proof -
  obtain h l where x: "x = 65536 * h + l" "0 \<le> l" "l \<le> 65535" "0 \<le> h" "h \<le> 65535" "mwc a x = a * l + h"
    by (rule mwc_parts [OF assms(1,2)])
  have "h = a * (65536 - l) - 1" using assms(4) x(6) by (simp add: algebra_simps)
  then show thesis using that [of "65536 - l"] x by simp
qed

lemma mwc_zero: "0 \<le> x \<Longrightarrow> x < 2 ^ 32 \<Longrightarrow> 0 < a \<Longrightarrow> mwc a x = 0 \<Longrightarrow> x = 0"
  by (rule mwc_parts [of x a]) (auto simp: add_nonneg_eq_0_iff)

lemma coprimes: "coprime (18000 - 1) (65535 :: int)" "coprime (36969 - 1) (65535 :: int)"
  by (simp_all add: coprime_iff_gcd_eq_1 gcd_non_0_int)

text \<open>The states from which each generator always moves on.\<close>

definition z_moves :: "int \<Rightarrow> bool" where
  "z_moves x \<longleftrightarrow> 0 \<le> x \<and> x < 2 ^ 32 \<and> x \<noteq> 0 \<and> x \<noteq> 0x9068ffff"

definition w_moves :: "int \<Rightarrow> bool" where
  "w_moves x \<longleftrightarrow> 0 \<le> x \<and> x < 2 ^ 32 \<and> x \<notin> {0, 0x464fffff, 0x8C9FFFFE, 0xD2EFFFFD}"

lemma z_moves_on:
  assumes "z_moves x" and "mwc 36969 x < 2 ^ 32"
  shows "z_moves (mwc 36969 x)" and "mwc 36969 x \<noteq> x"
proof -
  have x: "0 \<le> x" "x < 2 ^ 32" "x \<noteq> 0" "x \<noteq> 0x9068ffff" using assms(1) by (simp_all add: z_moves_def)
  have "mwc 36969 x \<noteq> 0" using mwc_zero [OF x(1,2), of 36969] x(3) by auto
  moreover have "mwc 36969 x \<noteq> 0x9068ffff"
  proof
    assume "mwc 36969 x = 0x9068ffff"
    then have e: "mwc 36969 x = 65536 * 36969 - 1" by simp
    show False
    proof (rule mwc_to_fixed [OF x(1,2) _ e])
      fix k :: int assume k: "1 \<le> k" "36969 * k \<le> 65536" "x = 65536 * (36969 * k - 1) + (65536 - k)"
      then have "k = 1" by auto
      then show False using k(3) x(4) by auto
    qed simp
  qed
  moreover have "0 \<le> mwc 36969 x" using x(1) by (simp add: mwc_def pos_imp_zdiv_nonneg_iff)
  ultimately show "z_moves (mwc 36969 x)" using assms(2) by (simp add: z_moves_def)
  show "mwc 36969 x \<noteq> x" using mwc_fixed [OF x(1,2) _ coprimes(2)] x(3,4) by auto
qed

lemma w_moves_on:
  assumes "w_moves x" and "mwc 18000 x < 2 ^ 32"
  shows "w_moves (mwc 18000 x)" and "mwc 18000 x \<noteq> x"
proof -
  have x: "0 \<le> x" "x < 2 ^ 32" "x \<noteq> 0" "x \<noteq> 0x464fffff" "x \<noteq> 0x8C9FFFFE" "x \<noteq> 0xD2EFFFFD"
    using assms(1) by (simp_all add: w_moves_def)
  have "mwc 18000 x \<noteq> 0" using mwc_zero [OF x(1,2), of 18000] x(3) by auto
  moreover have "mwc 18000 x \<noteq> 0x464fffff"
  proof
    assume "mwc 18000 x = 0x464fffff"
    then have e: "mwc 18000 x = 65536 * 18000 - 1" by simp
    show False
    proof (rule mwc_to_fixed [OF x(1,2) _ e])
      fix k :: int assume k: "1 \<le> k" "18000 * k \<le> 65536" "x = 65536 * (18000 * k - 1) + (65536 - k)"
      then have "k = 1 \<or> k = 2 \<or> k = 3" by auto
      then show False using k(3) x(4-6) by auto
    qed simp
  qed
  moreover have "0 \<le> mwc 18000 x" "mwc 18000 x \<le> 18000 * 65535 + 65535"
    by (rule mwc_parts [OF x(1,2), of 18000], simp)+
  ultimately show "w_moves (mwc 18000 x)" using assms(2) by (simp add: w_moves_def)
  show "mwc 18000 x \<noteq> x" using mwc_fixed [OF x(1,2) _ coprimes(1)] x(3,4) by auto
qed

lemma next_parts:
  "uint (rng_w (snd (next_random r))) = mwc 18000 (uint (rng_w r))"
  "uint (rng_z (snd (next_random r))) = mwc 36969 (uint (rng_z r))"
  using mwc_word [of 18000 "rng_w r"] mwc_word [of 36969 "rng_z r"] by (simp_all add: next_random_def Let_def)

lemma uint_bounds: "0 \<le> uint x" "uint x < 2 ^ 32" "uint x < 4294967296" for x :: u32
  using uint_lt2p [of x] by simp_all

lemma z_after: "z_moves (uint (rng_z (after n seed)))"
proof (induction n)
  case 0
  have "z_moves (uint z)" if "z \<noteq> 0" "z \<noteq> 0x9068ffff" for z :: u32
    using that by (simp add: z_moves_def uint_bounds word_uint_eq_iff)
  then show ?case by (simp add: Random_def Let_def)
next
  case (Suc n)
  show ?case using z_moves_on(1) [OF Suc] uint_bounds(2) by (simp add: flip: next_parts(2))
qed

lemma w_after:
  assumes "seed \<noteq> 0x8C9FFFFE" and "seed \<noteq> 0xD2EFFFFD"
  shows "w_moves (uint (rng_w (after n seed)))"
proof (induction n)
  case 0
  have "w_moves (uint w)" if "w \<noteq> 0" "w \<noteq> 0x464fffff" "w \<noteq> 0x8C9FFFFE" "w \<noteq> 0xD2EFFFFD" for w :: u32
    using that by (simp add: w_moves_def uint_bounds word_uint_eq_iff)
  then show ?case using assms by (simp add: Random_def Let_def)
next
  case (Suc n)
  show ?case using w_moves_on(1) [OF Suc] uint_bounds(2) by (simp add: flip: next_parts(1))
qed

lemma w_stuck:
  assumes "seed = 0x8C9FFFFE \<or> seed = 0xD2EFFFFD"
  shows "rng_w (after (Suc n) seed) = 0x464FFFFF"
proof (induction n)
  case 0
  have "rng_w (Random seed) = seed" using assms by (auto simp: Random_def Let_def)
  then show ?case using assms by (auto simp: word_uint_eq_iff next_parts mwc_def)
next
  case (Suc n)
  then show ?case by (subst after_simps(2)) (simp only: word_uint_eq_iff next_parts, simp add: mwc_def)
qed

text \<open>Where the generators stand still.  For the two seeds \<open>0x8C9FFFFE\<close> and \<open>0xD2EFFFFD\<close>, which the
  constructor does not treat, the half \<open>w\<close> of the state is the same after every call of \<^verbatim>\<open>next\<close>; for every other seed each
  call changes it, and the half \<open>z\<close> changes with each call for every seed.\<close>

theorem random_stuck:
  "(if seed = 0x8C9FFFFE \<or> seed = 0xD2EFFFFD then rng_w (after (n + 1) seed) = 0x464FFFFF
    else rng_w (after (n + 1) seed) \<noteq> rng_w (after n seed)) \<and>
   rng_z (after (n + 1) seed) \<noteq> rng_z (after n seed)"
proof -
  have z: "rng_z (after (n + 1) seed) \<noteq> rng_z (after n seed)"
    using z_moves_on(2) [OF z_after [of n seed]] uint_bounds(2) by (simp add: word_uint_eq_iff flip: next_parts(2))
  have "rng_w (after (n + 1) seed) \<noteq> rng_w (after n seed)" if "\<not> (seed = 0x8C9FFFFE \<or> seed = 0xD2EFFFFD)"
    using w_moves_on(2) [OF w_after [of seed n]] that uint_bounds(2) by (simp add: word_uint_eq_iff flip: next_parts(1))
  then show ?thesis using z w_stuck [of seed n] by simp
qed

end
