(* ===== verification/Startup.thy ===== *)
theory Startup
  imports OS_Prelude
begin

text \<open>
  How the processors start, \<^verbatim>\<open>kernelInit\<close> of \<^verbatim>\<open>kernel/init.cc\<close>: the first one initialises what they share, wakes the
  others one after the other, and the last one to get through its own initialisation creates the thread that runs
  \<^verbatim>\<open>kernelMain\<close>.  Every processor takes its steps in its own time.  The shared part up to the first counter is one
  step, since no other processor is awake then; its initialisers are in the theories of their components, and so are those
  that each processor runs for itself.
\<close>

section \<open>The steps\<close>

text \<open>Where a processor is: switched off, at the entry, at the counter after the shared part, at the head of the loop over the
  others, in the loop that waits for one, in \<^verbatim>\<open>SMP::init(false)\<close>, in its own initialisation, at the counter
  of arrivals, at the comparison with the number it got, and in \<^verbatim>\<open>stop\<close>.\<close>

datatype boot_pc = Off | Enter | FirstAdd | ForId u32 | WaitFor u32 | JoinInit | PerCore | Arrives | Checks u32 | Stops

record boot =
  smpInitDone :: bool
  running :: u32
  howManyAreHere :: u32
  shared_inits :: nat
  main_threads :: nat
  pcs :: "boot_pc list"

definition boot_start :: "u32 \<Rightarrow> boot" where
  "boot_start totalProcs = \<lparr>smpInitDone = False, running = 0, howManyAreHere = 0, shared_inits = 0, main_threads = 0,
     pcs = Enter # replicate (unat totalProcs - 1) Off\<rparr>"

text \<open>The stack that a processor gets, by the number of its owner.\<close>

definition pickKernelStack :: "boot \<Rightarrow> nat \<Rightarrow> nat" where
  "pickKernelStack s me = (if smpInitDone s then me else 0)"

definition goto :: "nat \<Rightarrow> boot_pc \<Rightarrow> boot \<Rightarrow> boot" where
  "goto c pc s = s\<lparr>pcs := (pcs s)[c := pc]\<rparr>"

text \<open>The message that starts a processor; one that is already running is not affected.\<close>

definition start_core :: "nat \<Rightarrow> boot \<Rightarrow> boot" where
  "start_core i s = (if i < length (pcs s) \<and> pcs s ! i = Off then goto i Enter s else s)"

text \<open>The next step of processor \<open>c\<close>; none when it is off, stopped, or spinning.\<close>

definition boot_step :: "u32 \<Rightarrow> nat \<Rightarrow> boot \<Rightarrow> boot option" where
  "boot_step totalProcs c s =
     (if length (pcs s) \<le> c then None
      else case pcs s ! c of
          Off \<Rightarrow> None
        | Enter \<Rightarrow>
            Some (if \<not> smpInitDone s then goto c FirstAdd (s\<lparr>shared_inits := shared_inits s + 1, smpInitDone := True\<rparr>)
                  else goto c JoinInit (s\<lparr>running := running s + 1\<rparr>))
        | FirstAdd \<Rightarrow> Some (goto c (ForId 1) (s\<lparr>running := running s + 1\<rparr>))
        | ForId i \<Rightarrow>
            Some (if i < totalProcs then goto c (WaitFor i) (start_core (unat i) s) else goto c PerCore s)
        | WaitFor i \<Rightarrow> if running s \<le> i then None else Some (goto c (ForId (i + 1)) s)
        | JoinInit \<Rightarrow> Some (goto c PerCore s)
        | PerCore \<Rightarrow> Some (goto c Arrives s)
        | Arrives \<Rightarrow>
            Some (goto c (Checks (howManyAreHere s + 1)) (s\<lparr>howManyAreHere := howManyAreHere s + 1\<rparr>))
        | Checks myOrder \<Rightarrow>
            Some (goto c Stops (if myOrder = totalProcs then s\<lparr>main_threads := main_threads s + 1\<rparr> else s))
        | Stops \<Rightarrow> None)"

fun boot_run :: "u32 \<Rightarrow> nat list \<Rightarrow> boot \<Rightarrow> boot option" where
  "boot_run totalProcs [] s = Some s"
| "boot_run totalProcs (c # cs) s = Option.bind (boot_step totalProcs c s) (boot_run totalProcs cs)"

section \<open>The invariant\<close>

definition cnt :: "('a \<Rightarrow> bool) \<Rightarrow> 'a list \<Rightarrow> nat" where
  "cnt P xs = length (filter P xs)"

lemma cnt_update:
  "i < length xs \<Longrightarrow> cnt P (xs[i := v]) + (if P (xs ! i) then 1 else 0) = cnt P xs + (if P v then 1 else 0)"
proof (induction xs arbitrary: i)
  case (Cons x xs)
  then show ?case by (cases i) (auto simp: cnt_def)
qed simp

lemma cnt_le: "cnt P xs \<le> length xs"
  by (simp add: cnt_def)

lemma cnt_all: "cnt P xs = length xs \<longleftrightarrow> (\<forall>i < length xs. P (xs ! i))"
proof -
  have "cnt P xs = length xs \<longleftrightarrow> (\<forall>x \<in> set xs. P x)"
    using length_filter_less [of _ xs P] by (metis cnt_def filter_True nat_neq_iff)
  then show ?thesis by (simp add: all_set_conv_all_nth)
qed

text \<open>The processors that counted themselves in, and those past the counter of arrivals.\<close>

definition joined :: "boot_pc \<Rightarrow> bool" where
  "joined p \<longleftrightarrow> p \<noteq> Off \<and> p \<noteq> Enter \<and> p \<noteq> FirstAdd"

definition arrived :: "boot_pc \<Rightarrow> bool" where
  "arrived p \<longleftrightarrow> (case p of Checks m \<Rightarrow> True | Stops \<Rightarrow> True | _ \<Rightarrow> False)"

definition first_only :: "boot_pc \<Rightarrow> bool" where
  "first_only p \<longleftrightarrow> (case p of FirstAdd \<Rightarrow> True | ForId i \<Rightarrow> True | WaitFor i \<Rightarrow> True | _ \<Rightarrow> False)"

text \<open>The others, as far as the first processor has come.\<close>

fun place_ok :: "boot_pc \<Rightarrow> nat \<Rightarrow> boot_pc \<Rightarrow> bool" where
  "place_ok Enter i p \<longleftrightarrow> p = Off"
| "place_ok FirstAdd i p \<longleftrightarrow> p = Off"
| "place_ok (ForId k) i p \<longleftrightarrow> (if i < unat k then joined p else p = Off)"
| "place_ok (WaitFor k) i p \<longleftrightarrow> (if i < unat k then joined p else if i = unat k then p \<noteq> Off else p = Off)"
| "place_ok first i p \<longleftrightarrow> joined p"

definition others :: "boot_pc list \<Rightarrow> bool" where
  "others ps \<longleftrightarrow> (\<forall>i. 1 \<le> i \<and> i < length ps \<longrightarrow> place_ok (ps ! 0) i (ps ! i))"

lemma place_joined: "place_ok first i q \<Longrightarrow> q \<noteq> Off \<Longrightarrow> joined p \<Longrightarrow> place_ok first i p"
  by (cases first) (auto simp: joined_def split: if_splits)

definition first_ok :: "boot \<Rightarrow> bool" where
  "first_ok s \<longleftrightarrow> (let n = length (pcs s); p = pcs s ! 0
     in p \<noteq> Off \<and> p \<noteq> JoinInit \<and>
        (smpInitDone s \<longleftrightarrow> p \<noteq> Enter) \<and> shared_inits s = (if p = Enter then 0 else 1) \<and>
        (\<forall>k. p = ForId k \<longrightarrow> 1 \<le> unat k \<and> unat k \<le> n) \<and> (\<forall>k. p = WaitFor k \<longrightarrow> 1 \<le> unat k \<and> unat k < n) \<and>
        (\<forall>i. 1 \<le> i \<and> i < n \<longrightarrow> \<not> first_only (pcs s ! i)))"

definition tickets_ok :: "u32 \<Rightarrow> boot \<Rightarrow> bool" where
  "tickets_ok totalProcs s \<longleftrightarrow>
     (\<forall>i m. i < length (pcs s) \<and> pcs s ! i = Checks m \<longrightarrow> unat m \<le> cnt arrived (pcs s)) \<and>
     (\<forall>i j m. i < length (pcs s) \<and> j < length (pcs s) \<and> pcs s ! i = Checks m \<and> pcs s ! j = Checks m \<longrightarrow> i = j) \<and>
     main_threads s = (if cnt arrived (pcs s) = length (pcs s) \<and> Checks totalProcs \<notin> set (pcs s) then 1 else 0)"

definition boot_inv :: "u32 \<Rightarrow> boot \<Rightarrow> bool" where
  "boot_inv totalProcs s \<longleftrightarrow>
     length (pcs s) = unat totalProcs \<and> 1 \<le> unat totalProcs \<and> unat totalProcs \<le> 16 \<and>
     running s = of_nat (cnt joined (pcs s)) \<and> howManyAreHere s = of_nat (cnt arrived (pcs s)) \<and>
     first_ok s \<and> others (pcs s) \<and> tickets_ok totalProcs s"

lemma boot_inv_start:
  assumes "1 \<le> unat totalProcs" and "unat totalProcs \<le> 16"
  shows "boot_inv totalProcs (boot_start totalProcs)"
proof -
  have "(Enter # replicate (unat totalProcs - 1) Off) ! i = Off" if "1 \<le> i" "i < unat totalProcs" for i
    using that by (cases i) auto
  moreover have "(Enter # replicate (unat totalProcs - 1) Off) ! i \<noteq> Checks m" if "i < unat totalProcs" for i m
    using that by (cases i) auto
  moreover have "cnt joined (Enter # replicate m Off) = 0" "cnt arrived (Enter # replicate m Off) = 0" for m
    by (auto simp: cnt_def joined_def arrived_def)
  ultimately show ?thesis
    using assms by (auto simp: boot_inv_def boot_start_def first_ok_def others_def tickets_ok_def first_only_def Let_def)
qed

lemma tickets_okI:
  assumes "\<And>i m. i < length (pcs s) \<Longrightarrow> pcs s ! i = Checks m \<Longrightarrow> unat m \<le> cnt arrived (pcs s)"
    and "\<And>i j m. i < length (pcs s) \<Longrightarrow> j < length (pcs s) \<Longrightarrow> pcs s ! i = Checks m \<Longrightarrow> pcs s ! j = Checks m \<Longrightarrow> i = j"
    and "main_threads s = (if cnt arrived (pcs s) = length (pcs s) \<and> Checks t \<notin> set (pcs s) then 1 else 0)"
  shows "tickets_ok t s"
  using assms unfolding tickets_ok_def by blast

lemma tickets_okD:
  assumes "tickets_ok t s"
  shows "i < length (pcs s) \<Longrightarrow> pcs s ! i = Checks m \<Longrightarrow> unat m \<le> cnt arrived (pcs s)"
    and "i < length (pcs s) \<Longrightarrow> j < length (pcs s) \<Longrightarrow> pcs s ! i = Checks m \<Longrightarrow> pcs s ! j = Checks m \<Longrightarrow> i = j"
    and "main_threads s = (if cnt arrived (pcs s) = length (pcs s) \<and> Checks t \<notin> set (pcs s) then 1 else 0)"
  using assms unfolding tickets_ok_def by blast+

lemma tickets_move:
  assumes "tickets_ok t s" and "c < length (pcs s)" and "\<not> arrived (pcs s ! c)" and "\<not> arrived p"
    and "pcs s' = (pcs s)[c := p]" and "main_threads s' = main_threads s"
  shows "tickets_ok t s'" and "cnt arrived (pcs s') = cnt arrived (pcs s)"
proof -
  show A: "cnt arrived (pcs s') = cnt arrived (pcs s)"
    using cnt_update [OF assms(2), of arrived p] assms(3-5) by simp
  have ne: "p \<noteq> Checks m" "pcs s ! c \<noteq> Checks m" for m using assms(3,4) by (auto simp: arrived_def)
  then have n: "(pcs s)[c := p] ! i = Checks m \<longleftrightarrow> pcs s ! i = Checks m" if "i < length (pcs s)" for i m
    using assms(2) that by (cases "i = c") auto
  then have "Checks t \<in> set ((pcs s)[c := p]) \<longleftrightarrow> Checks t \<in> set (pcs s)"
    by (auto simp: in_set_conv_nth n)
  then have 3: "main_threads s' = (if cnt arrived (pcs s') = length (pcs s') \<and> Checks t \<notin> set (pcs s') then 1 else 0)"
    using tickets_okD(3) [OF assms(1)] A assms(5,6) by simp
  show "tickets_ok t s'"
    by (rule tickets_okI [OF _ _ 3]) (use tickets_okD(1,2) [OF assms(1)] n assms(5) A in auto)
qed

lemma ticket_new:
  assumes "tickets_ok t s" and "c < length (pcs s)" and "\<not> arrived (pcs s ! c)" and "m = of_nat (cnt arrived (pcs s) + 1)"
    and "length (pcs s) = unat t" and "unat t \<le> 16"
    and "pcs s' = (pcs s)[c := Checks m]" and "main_threads s' = main_threads s"
  shows "tickets_ok t s'" and "cnt arrived (pcs s') = cnt arrived (pcs s) + 1"
proof -
  let ?a = "cnt arrived (pcs s)"
  show A: "cnt arrived (pcs s') = ?a + 1"
    using cnt_update [OF assms(2), of arrived "Checks m"] assms(3,7) by (simp add: arrived_def)
  have a: "?a + 1 \<le> unat t" using A cnt_le [of arrived "pcs s'"] assms(5,7) by simp
  then have m: "unat m = ?a + 1" using assms(4,6) by (simp add: unsigned_of_nat take_bit_nat_eq_self del: of_nat_add of_nat_Suc)
  have n: "(pcs s)[c := Checks m] ! i = Checks k \<longleftrightarrow> (if i = c then k = m else pcs s ! i = Checks k)" if "i < length (pcs s)" for i k
    using that by (auto simp: nth_list_update)
  have old: "unat k \<le> ?a" if "i < length (pcs s)" "pcs s ! i = Checks k" for i k
    by (rule tickets_okD(1) [OF assms(1) that])
  have new: "k \<noteq> m" if "i < length (pcs s)" "pcs s ! i = Checks k" for i k
    using old [OF that] m by auto
  have 0: "main_threads s = 0" using tickets_okD(3) [OF assms(1)] a assms(5) by simp
  have 1: "Checks t \<in> set ((pcs s)[c := Checks m])" if "?a + 1 = unat t"
  proof -
    have "m = t" using that m by (simp add: word_unat_eq_iff)
    then show ?thesis using assms(2) by (simp add: set_update_memI)
  qed
  have 3: "main_threads s' = (if cnt arrived (pcs s') = length (pcs s') \<and> Checks t \<notin> set (pcs s') then 1 else 0)"
    using 0 1 A assms(5,7,8) by auto
  show "tickets_ok t s'"
  proof (rule tickets_okI [OF _ _ 3])
    fix i k assume i: "i < length (pcs s')" "pcs s' ! i = Checks k"
    then show "unat k \<le> cnt arrived (pcs s')" using n [of i k] old [of i k] m A assms(7) by (auto split: if_splits)
  next
    fix i j k assume i: "i < length (pcs s')" "j < length (pcs s')" "pcs s' ! i = Checks k" "pcs s' ! j = Checks k"
    then show "i = j"
      using n [of i k] n [of j k] new [of i k] new [of j k] tickets_okD(2) [OF assms(1), of i j k] assms(7)
      by (auto split: if_splits)
  qed
qed

lemma ticket_used:
  assumes "tickets_ok t s" and "c < length (pcs s)" and "pcs s ! c = Checks m" and "length (pcs s) = unat t"
    and "pcs s' = (pcs s)[c := Stops]" and "main_threads s' = main_threads s + (if m = t then 1 else 0)"
  shows "tickets_ok t s'" and "cnt arrived (pcs s') = cnt arrived (pcs s)"
proof -
  show A: "cnt arrived (pcs s') = cnt arrived (pcs s)"
    using cnt_update [OF assms(2), of arrived Stops] assms(3,5) by (simp add: arrived_def)
  have n: "(pcs s)[c := Stops] ! i = Checks k \<longleftrightarrow> i \<noteq> c \<and> pcs s ! i = Checks k" if "i < length (pcs s)" for i k
    using that assms(2) by (cases "i = c") auto
  have one: "i = c" if "i < length (pcs s)" "pcs s ! i = Checks m" for i
    by (rule tickets_okD(2) [OF assms(1) that(1) assms(2) that(2) assms(3)])
  have le: "unat m \<le> cnt arrived (pcs s)" by (rule tickets_okD(1) [OF assms(1-3)])
  have S: "Checks t \<in> set ((pcs s)[c := Stops]) \<longleftrightarrow> m \<noteq> t \<and> Checks t \<in> set (pcs s)"
  proof -
    have "Checks t \<in> set ((pcs s)[c := Stops]) \<longleftrightarrow> (\<exists>i < length (pcs s). i \<noteq> c \<and> pcs s ! i = Checks t)"
      using n by (auto simp: in_set_conv_nth)
    also have "\<dots> \<longleftrightarrow> m \<noteq> t \<and> Checks t \<in> set (pcs s)"
    proof (cases "m = t")
      case True
      then show ?thesis using one by blast
    next
      case False
      then have "i \<noteq> c" if "pcs s ! i = Checks t" for i using that assms(3) by auto
      then show ?thesis using False unfolding in_set_conv_nth by blast
    qed
    finally show ?thesis .
  qed
  have full: "cnt arrived (pcs s) = length (pcs s)" "Checks t \<in> set (pcs s)" if "m = t"
    using le cnt_le [of arrived "pcs s"] that assms(2-4) nth_mem [OF assms(2)] by auto
  have 3: "main_threads s' = (if cnt arrived (pcs s') = length (pcs s') \<and> Checks t \<notin> set (pcs s') then 1 else 0)"
    using tickets_okD(3) [OF assms(1)] assms(5,6) S full A by auto
  show "tickets_ok t s'"
    by (rule tickets_okI [OF _ _ 3]) (use tickets_okD(1,2) [OF assms(1)] n assms(5) A in auto)
qed

lemma others_move:
  assumes "others ps" and "1 \<le> c" and "c < length ps" and "ps ! c \<noteq> Off" and "joined p"
  shows "others (ps[c := p])"
  unfolding others_def
proof (intro allI impI)
  fix i assume i: "1 \<le> i \<and> i < length (ps[c := p])"
  have z: "ps[c := p] ! 0 = ps ! 0" using assms(2) by simp
  have "place_ok (ps ! 0) i (ps ! i)" using assms(1) i by (simp add: others_def)
  then show "place_ok (ps[c := p] ! 0) i (ps[c := p] ! i)"
    unfolding z using place_joined [OF _ assms(4,5)] assms(3) by (cases "i = c") auto
qed

lemma first_move:
  assumes "first_ok s" and "1 \<le> c" and "\<not> first_only p" and "pcs s' = (pcs s)[c := p]"
    and "smpInitDone s' = smpInitDone s" and "shared_inits s' = shared_inits s"
  shows "first_ok s'"
proof -
  have z: "(pcs s)[c := p] ! 0 = pcs s ! 0" using assms(2) by simp
  have "\<not> first_only ((pcs s)[c := p] ! i)" if "1 \<le> i" "i < length (pcs s)" for i
    using assms(1,3) that by (cases "i = c") (auto simp: first_ok_def Let_def)
  then show ?thesis using assms(1) unfolding first_ok_def Let_def assms(4-6) z length_list_update by blast
qed

lemma cnt_prefix:
  assumes "\<And>i. i < length xs \<Longrightarrow> P (xs ! i) \<longleftrightarrow> i < k" and "k \<le> length xs"
  shows "cnt P xs = k"
proof -
  have "{i. i < length xs \<and> P (xs ! i)} = {..<k}" using assms by auto
  then show ?thesis by (simp add: cnt_def length_filter_conv_card)
qed

text \<open>A step of another processor than the first.\<close>

lemma boot_invD:
  assumes "boot_inv t s"
  shows "length (pcs s) = unat t" and "1 \<le> unat t" and "unat t \<le> 16" and "running s = of_nat (cnt joined (pcs s))"
    and "howManyAreHere s = of_nat (cnt arrived (pcs s))" and "first_ok s" and "others (pcs s)" and "tickets_ok t s"
  using assms by (simp_all add: boot_inv_def)

lemma others_step:
  assumes I: "boot_inv t s" and c: "1 \<le> c" and st: "boot_step t c s = Some s'"
  shows "boot_inv t s'"
proof -
  note D = boot_invD [OF I]
  have l: "c < length (pcs s)" using st by (auto simp: boot_step_def split: if_splits)
  have nf: "\<not> first_only (pcs s ! c)" using D(6) c l by (simp add: first_ok_def Let_def)
  have nO: "pcs s ! c \<noteq> Off" using st l by (auto simp: boot_step_def)
  have make: "boot_inv t s'"
    if "pcs s' = (pcs s)[c := p]" "joined p" "\<not> first_only p" "smpInitDone s' = smpInitDone s" "shared_inits s' = shared_inits s"
      "running s' = running s + (if joined (pcs s ! c) then 0 else 1)" "tickets_ok t s'"
      "howManyAreHere s' = of_nat (cnt arrived (pcs s'))" for p
  proof -
    have "cnt joined (pcs s') = cnt joined (pcs s) + (if joined (pcs s ! c) then 0 else 1)"
      using cnt_update [OF l, of joined p] that(1,2) by (auto split: if_splits)
    then show ?thesis
      using that D first_move [OF D(6) c that(3,1,4,5)] others_move [OF D(7) c l nO that(2)] by (simp add: boot_inv_def)
  qed
  show ?thesis
  proof (cases "pcs s ! c")
    case Enter
    then have "pcs s ! 0 \<noteq> Enter" using D(7) c l nO by (auto simp: others_def)
    then have dn: "smpInitDone s" using D(6) by (simp add: first_ok_def Let_def)
    show ?thesis
      by (rule make [of JoinInit]) (use st l Enter dn tickets_move [OF D(8) l, of JoinInit s'] D(5) in
        \<open>auto simp: boot_step_def goto_def joined_def first_only_def arrived_def\<close>)
  next
    case JoinInit
    show ?thesis
      by (rule make [of PerCore]) (use st l JoinInit tickets_move [OF D(8) l, of PerCore s'] D(5) in
        \<open>auto simp: boot_step_def goto_def joined_def first_only_def arrived_def\<close>)
  next
    case PerCore
    show ?thesis
      by (rule make [of Arrives]) (use st l PerCore tickets_move [OF D(8) l, of Arrives s'] D(5) in
        \<open>auto simp: boot_step_def goto_def joined_def first_only_def arrived_def\<close>)
  next
    case Arrives
    show ?thesis
      by (rule make [of "Checks (howManyAreHere s + 1)"]) (use st l Arrives D(5) ticket_new [OF D(8) l _ _ D(1,3), of "howManyAreHere s + 1" s'] in
        \<open>auto simp: boot_step_def goto_def joined_def first_only_def arrived_def\<close>)
  next
    case (Checks m)
    show ?thesis
      by (rule make [of Stops]) (use st l Checks D(5) ticket_used [OF D(8) l Checks D(1), of s'] in
        \<open>auto simp: boot_step_def goto_def joined_def first_only_def arrived_def split: if_splits\<close>)
  qed (use st l nf in \<open>auto simp: boot_step_def first_only_def\<close>)
qed

text \<open>A step of the first processor; the list \<open>ps\<close> is that of the places before its own changes.\<close>

lemma first_place:
  assumes I: "boot_inv t s" and s': "pcs s' = (pcs s)[0 := p]" and pl: "\<And>i. 1 \<le> i \<Longrightarrow> i < length (pcs s) \<Longrightarrow> place_ok p i (pcs s ! i)"
    and p: "p \<noteq> Off" "p \<noteq> JoinInit" "p \<noteq> Enter" "smpInitDone s'" "shared_inits s' = 1"
    and k: "\<And>k. p = ForId k \<Longrightarrow> 1 \<le> unat k \<and> unat k \<le> length (pcs s)" "\<And>k. p = WaitFor k \<Longrightarrow> 1 \<le> unat k \<and> unat k < length (pcs s)"
    and r: "joined (pcs s ! 0) \<Longrightarrow> joined p" "running s' = running s + (if joined p \<and> \<not> joined (pcs s ! 0) then 1 else 0)"
    and t: "tickets_ok t s'" "howManyAreHere s' = of_nat (cnt arrived (pcs s'))"
  shows "boot_inv t s'"
proof -
  note D = boot_invD [OF I]
  have l: "0 < length (pcs s)" using D(1,2) by simp
  have z: "(pcs s)[0 := p] ! 0 = p" "(pcs s)[0 := p] ! i = pcs s ! i" if "1 \<le> i" for i using l that by auto
  have "cnt joined (pcs s') = cnt joined (pcs s) + (if joined p \<and> \<not> joined (pcs s ! 0) then 1 else 0)"
    using cnt_update [OF l, of joined p] s' r(1) by (auto split: if_splits)
  then have "running s' = of_nat (cnt joined (pcs s'))" using D(4) r(2) by simp
  moreover have "others (pcs s')" using pl z l unfolding s' others_def by simp
  moreover have "first_ok s'"
    using D(6) p k l z unfolding s' first_ok_def Let_def by auto
  ultimately show ?thesis using D t s' by (simp add: boot_inv_def)
qed

lemma first_step:
  assumes I: "boot_inv t s" and st: "boot_step t 0 s = Some s'"
  shows "boot_inv t s'"
proof -
  note D = boot_invD [OF I]
  have l: "0 < length (pcs s)" using D(1,2) by simp
  have pl: "place_ok (pcs s ! 0) i (pcs s ! i)" if "1 \<le> i" "i < length (pcs s)" for i
    using D(7) that by (simp add: others_def)
  have F: "pcs s ! 0 \<noteq> Off" "pcs s ! 0 \<noteq> JoinInit" "smpInitDone s \<longleftrightarrow> pcs s ! 0 \<noteq> Enter"
    "shared_inits s = (if pcs s ! 0 = Enter then 0 else 1)"
    "pcs s ! 0 = ForId k \<longrightarrow> 1 \<le> unat k \<and> unat k \<le> length (pcs s)" "pcs s ! 0 = WaitFor k \<longrightarrow> 1 \<le> unat k \<and> unat k < length (pcs s)" for k
    using D(6) by (auto simp: first_ok_def Let_def)
  show ?thesis
  proof (cases "pcs s ! 0")
    case Enter
    show ?thesis
      by (rule first_place [OF I, of _ FirstAdd]) (use st l F Enter pl tickets_move [OF D(8) l, of FirstAdd s'] D(5) in
        \<open>auto simp: boot_step_def goto_def joined_def arrived_def\<close>)
  next
    case FirstAdd
    show ?thesis
      by (rule first_place [OF I, of _ "ForId 1"]) (use st l F FirstAdd pl tickets_move [OF D(8) l, of "ForId 1" s'] D(5) in
        \<open>auto simp: boot_step_def goto_def joined_def arrived_def Suc_le_eq\<close>)
  next
    case PerCore
    show ?thesis
      by (rule first_place [OF I, of _ Arrives]) (use st l F PerCore pl tickets_move [OF D(8) l, of Arrives s'] D(5) in
        \<open>auto simp: boot_step_def goto_def joined_def arrived_def\<close>)
  next
    case Arrives
    show ?thesis
      by (rule first_place [OF I, of _ "Checks (howManyAreHere s + 1)"])
        (use st l F Arrives pl D(5) ticket_new [OF D(8) l _ _ D(1,3), of "howManyAreHere s + 1" s'] in
        \<open>auto simp: boot_step_def goto_def joined_def arrived_def\<close>)
  next
    case (Checks m)
    show ?thesis
      by (rule first_place [OF I, of _ Stops]) (use st l F Checks pl D(5) ticket_used [OF D(8) l Checks D(1), of s'] in
        \<open>auto simp: boot_step_def goto_def joined_def arrived_def split: if_splits\<close>)
  next
    case (WaitFor k)
    then have k: "1 \<le> unat k" "unat k < length (pcs s)" using F(6) by auto
    have run: "k < running s" using st l WaitFor by (auto simp: boot_step_def split: if_splits)
    have "joined (pcs s ! unat k)"
    proof (rule ccontr)
      assume nj: "\<not> joined (pcs s ! unat k)"
      have "joined (pcs s ! i) \<longleftrightarrow> i < unat k" if "i < length (pcs s)" for i
        using pl [of i] that nj WaitFor by (cases "i = 0") (use k in \<open>auto simp: joined_def split: if_splits\<close>)
      then have "cnt joined (pcs s) = unat k" using k(2) by (intro cnt_prefix) auto
      then have "running s = k" using D(4) by simp
      then show False using run by simp
    qed
    moreover have k1: "unat (k + 1) = unat k + 1" using k D(1,3) by (simp add: unat_plus_if')
    ultimately have PL: "place_ok (ForId (k + 1)) i (pcs s ! i)" if "1 \<le> i" "i < length (pcs s)" for i
      using pl [OF that] WaitFor by (auto split: if_splits)
    have s': "s' = goto 0 (ForId (k + 1)) s" using st l WaitFor by (auto simp: boot_step_def split: if_splits)
    have T: "tickets_ok t s'" "cnt arrived (pcs s') = cnt arrived (pcs s)"
      by (rule tickets_move [OF D(8) l, where p = "ForId (k + 1)"]; simp add: WaitFor s' goto_def arrived_def)+
    show ?thesis
      by (rule first_place [OF I _ PL]) (use F(3,4) T D(5) k k1 WaitFor in \<open>simp_all add: s' goto_def joined_def\<close>)
  next
    case (ForId k)
    then have k: "1 \<le> unat k" "unat k \<le> length (pcs s)" using F(5) [of k] ForId by auto
    show ?thesis
    proof (cases "k < t")
      case False
      then have "unat k = length (pcs s)" using k D(1) by (simp add: word_less_nat_alt)
      then have "place_ok PerCore i (pcs s ! i)" if "1 \<le> i" "i < length (pcs s)" for i
        using pl [OF that] that ForId by auto
      then show ?thesis
        by (intro first_place [OF I, of _ PerCore]) (use False st l F ForId tickets_move [OF D(8) l, of PerCore s'] D(5) in
          \<open>auto simp: boot_step_def goto_def joined_def arrived_def\<close>)
    next
      case True
      then have kl: "unat k < length (pcs s)" using D(1) by (simp add: word_less_nat_alt)
      have off: "pcs s ! unat k = Off" using pl [OF k(1) kl] ForId by simp
      let ?s1 = "goto (unat k) Enter s"
      have s1: "pcs ?s1 = (pcs s)[unat k := Enter]" "main_threads ?s1 = main_threads s" "running ?s1 = running s"
        "howManyAreHere ?s1 = howManyAreHere s" "smpInitDone ?s1 = smpInitDone s" "shared_inits ?s1 = shared_inits s"
        by (simp_all add: goto_def)
      have T1: "tickets_ok t ?s1" "cnt arrived (pcs ?s1) = cnt arrived (pcs s)"
        by (rule tickets_move [OF D(8) kl, where p = Enter]; simp add: off s1 arrived_def)+
      have l1: "0 < length (pcs ?s1)" "pcs ?s1 ! 0 = ForId k" using l k(1) ForId by (simp_all add: s1)
      have s': "s' = goto 0 (WaitFor k) ?s1" using st l ForId True kl off by (simp add: boot_step_def start_core_def)
      have na: "\<not> arrived (pcs ?s1 ! 0)" "\<not> arrived (WaitFor k)" unfolding l1(2) by (simp_all add: arrived_def)
      have ss: "pcs s' = (pcs ?s1)[0 := WaitFor k]" "main_threads s' = main_threads ?s1" unfolding s' by (simp_all add: goto_def)
      note T2 = tickets_move [OF T1(1) l1(1) na ss]
      have J: "cnt joined (pcs s') = cnt joined (pcs s)"
        using cnt_update [OF kl, of joined Enter] cnt_update [OF l1(1), of joined "WaitFor k"] off l1(2)
        by (simp add: s' s1 goto_def joined_def)
      have ps: "pcs s' = (pcs s)[unat k := Enter, 0 := WaitFor k]" by (simp add: s' goto_def)
      have at0: "(pcs s)[unat k := Enter, 0 := WaitFor k] ! 0 = WaitFor k" using l by simp
      have ati: "(pcs s)[unat k := Enter, 0 := WaitFor k] ! i = (if i = unat k then Enter else pcs s ! i)" if "1 \<le> i" for i
        using that kl by (auto simp: nth_list_update)
      have "others (pcs s')"
        using pl ForId unfolding ps others_def at0 by (auto simp: ati)
      moreover have "first_ok s'"
      proof -
        have "\<not> first_only ((pcs s)[unat k := Enter, 0 := WaitFor k] ! i)" if "1 \<le> i" "i < length (pcs s)" for i
          using D(6) that unfolding ati [OF that(1)] by (auto simp: first_ok_def Let_def first_only_def)
        then show ?thesis using F ForId k(1) kl unfolding first_ok_def Let_def ps at0 by (simp add: s' goto_def)
      qed
      moreover have "running s' = running s" "howManyAreHere s' = howManyAreHere s" by (simp_all add: s' goto_def)
      ultimately show ?thesis using D T1(2) T2 J by (simp add: boot_inv_def ps)
    qed
  qed (use st l F in \<open>auto simp: boot_step_def\<close>)
qed

lemma boot_inv_step: "boot_inv t s \<Longrightarrow> boot_step t c s = Some s' \<Longrightarrow> boot_inv t s'"
  using first_step [of t s s'] others_step [of t s c s'] by (cases "c = 0") auto

lemma boot_inv_run: "boot_inv t s \<Longrightarrow> boot_run t cs s = Some s' \<Longrightarrow> boot_inv t s'"
proof (induction cs arbitrary: s)
  case (Cons c cs)
  then show ?case by (cases "boot_step t c s") (auto dest: boot_inv_step)
qed simp

section \<open>It comes to an end\<close>

text \<open>What a processor still has to do.\<close>

fun left :: "nat \<Rightarrow> boot_pc \<Rightarrow> nat" where
  "left n Off = 2 * n + 9"
| "left n Enter = 2 * n + 8"
| "left n FirstAdd = 2 * n + 7"
| "left n (ForId k) = 2 * (n - unat k) + 5"
| "left n (WaitFor k) = 2 * (n - unat k) + 4"
| "left n JoinInit = 5"
| "left n PerCore = 4"
| "left n Arrives = 3"
| "left n (Checks m) = 2"
| "left n Stops = 1"

definition work :: "boot \<Rightarrow> nat" where
  "work s = sum_list (map (left (length (pcs s))) (pcs s))"

lemma work_goto:
  assumes "c < length (pcs s)" and "left (length (pcs s)) p < left (length (pcs s)) (pcs s ! c)" and "pcs s' = pcs s"
  shows "work (goto c p s') < work s"
proof -
  have "sum_list ((map f xs)[c := v]) + map f xs ! c = sum_list (map f xs) + v" if "c < length xs" for f :: "boot_pc \<Rightarrow> nat" and xs v
    using that by (induction xs arbitrary: c) (auto split: nat.splits)
  from this [OF assms(1), of "left (length (pcs s))" "left (length (pcs s)) p"] show ?thesis
    using assms by (simp add: work_def goto_def map_update)
qed

lemma work_step:
  assumes I: "boot_inv t s" and st: "boot_step t c s = Some s'"
  shows "work s' < work s"
proof -
  note D = boot_invD [OF I]
  let ?n = "length (pcs s)"
  have l: "c < ?n" using st by (auto simp: boot_step_def split: if_splits)
  note G = work_goto [OF l]
  have F: "pcs s ! c = ForId k \<Longrightarrow> c = 0" "pcs s ! c = WaitFor k \<Longrightarrow> c = 0 \<and> unat k < ?n" for k
  proof -
    have "c = 0" if "first_only (pcs s ! c)" using D(6) l that by (cases "c = 0") (simp_all add: first_ok_def Let_def)
    then show "pcs s ! c = ForId k \<Longrightarrow> c = 0" "pcs s ! c = WaitFor k \<Longrightarrow> c = 0 \<and> unat k < ?n"
      using D(6) by (auto simp: first_ok_def Let_def first_only_def)
  qed
  show ?thesis
  proof (cases "pcs s ! c")
    case (ForId k)
    show ?thesis
    proof (cases "k < t")
      case False
      then show ?thesis using st l ForId G [of PerCore s] by (auto simp: boot_step_def)
    next
      case True
      then have kl: "unat k < ?n" using D(1) by (simp add: word_less_nat_alt)
      let ?s1 = "start_core (unat k) s"
      have 1: "work ?s1 \<le> work s" using work_goto [OF kl, of Enter s] by (auto simp: start_core_def)
      have c0: "c = 0" "pcs s ! 0 = ForId k" using F(1) ForId by auto
      then have "1 \<le> unat k" using D(6) by (simp add: first_ok_def Let_def)
      then have "pcs ?s1 ! c = ForId k" "c < length (pcs ?s1)"
        using c0 l by (auto simp: start_core_def goto_def)
      then have "work (goto c (WaitFor k) ?s1) < work ?s1" by (intro work_goto) simp_all
      then show ?thesis using st l ForId True 1 by (simp add: boot_step_def)
    qed
  next
    case (WaitFor k)
    then have "c = 0" "unat k < ?n" using F(2) by auto
    moreover from this have "unat (k + 1) = unat k + 1" using D(1,3) by (simp add: unat_plus_if')
    ultimately show ?thesis using st l WaitFor G [of "ForId (k + 1)" s] by (auto simp: boot_step_def split: if_splits)
  qed (use st l G in \<open>auto simp: boot_step_def split: if_splits\<close>)
qed

lemma work_run: "boot_inv t s \<Longrightarrow> boot_run t cs s = Some s' \<Longrightarrow> work s' + length cs \<le> work s"
proof (induction cs arbitrary: s)
  case (Cons c cs)
  then obtain s1 where s1: "boot_step t c s = Some s1" "boot_run t cs s1 = Some s'"
    by (cases "boot_step t c s") auto
  have "work s' + length cs \<le> work s1" by (rule Cons.IH [OF boot_inv_step [OF Cons.prems(1) s1(1)] s1(2)])
  then show ?case using work_step [OF Cons.prems(1) s1(1)] by simp
qed simp

text \<open>As long as a processor has not stopped, one of them can go on.\<close>

lemma boot_progress:
  assumes I: "boot_inv t s" and stuck: "\<And>c. boot_step t c s = None"
  shows "pcs s ! i = Stops \<or> unat t \<le> i"
proof -
  note D = boot_invD [OF I]
  have l: "0 < length (pcs s)" using D(1,2) by simp
  have P: "pcs s ! c = Stops \<or> pcs s ! c = Off \<or> (\<exists>k. pcs s ! c = WaitFor k \<and> running s \<le> k)" if "c < length (pcs s)" for c
    using stuck [of c] that by (cases "pcs s ! c") (auto simp: boot_step_def split: if_splits)
  have pl: "place_ok (pcs s ! 0) i (pcs s ! i)" if "1 \<le> i" "i < length (pcs s)" for i
    using D(7) that by (simp add: others_def)
  have F: "pcs s ! 0 \<noteq> Off" using D(6) by (simp add: first_ok_def Let_def)
  have S: "pcs s ! 0 = Stops"
  proof (rule ccontr)
    assume "pcs s ! 0 \<noteq> Stops"
    then obtain k where k: "pcs s ! 0 = WaitFor k" "running s \<le> k" using P [OF l] F by auto
    then have kl: "1 \<le> unat k" "unat k < length (pcs s)" using D(6) by (auto simp: first_ok_def Let_def)
    have st: "pcs s ! i = Stops" if "1 \<le> i" "i < length (pcs s)" "i \<le> unat k" for i
    proof -
      have "pcs s ! i \<noteq> Off" using pl [OF that(1,2)] that(3) k(1) by (auto simp: joined_def split: if_splits)
      moreover have "\<not> first_only (pcs s ! i)" using D(6) that by (simp add: first_ok_def Let_def)
      ultimately show ?thesis using P [OF that(2)] by (auto simp: first_only_def)
    qed
    have "joined (pcs s ! i) \<longleftrightarrow> i < Suc (unat k)" if "i < length (pcs s)" for i
      using pl [of i] that k(1) st [of i] by (cases "i = 0") (auto simp: joined_def split: if_splits)
    then have "cnt joined (pcs s) = Suc (unat k)" using kl(2) by (intro cnt_prefix) auto
    then have "running s = of_nat (Suc (unat k))" using D(4) by (simp only:)
    then have "unat (running s) = Suc (unat k)" using kl D(1,3)
      by (simp add: unsigned_of_nat take_bit_nat_eq_self del: of_nat_Suc)
    then show False using k(2) by (simp add: word_le_nat_alt)
  qed
  show ?thesis
  proof (cases "1 \<le> i \<and> i < length (pcs s)")
    case True
    then have "joined (pcs s ! i)" "\<not> first_only (pcs s ! i)" using pl [of i] S D(6) by (auto simp: first_ok_def Let_def)
    then show ?thesis using P [of i] True by (auto simp: joined_def first_only_def)
  next
    case False
    then show ?thesis using S D(1) by (cases "i = 0") auto
  qed
qed

section \<open>What start-up guarantees\<close>

text \<open>C9: Start-up of the processors.  However the steps of up to 16 processors are interleaved, the shared
  part of \<^verbatim>\<open>kernelInit\<close> runs once, and before any other processor is awake; no two processors are between
  their start and the first counter at the same time, when they use the temporary stack, and the kernel stack that one is
  given is its own; and the thread for \<^verbatim>\<open>kernelMain\<close> is created at most once, after every
  processor has finished its own initialisation.\<close>

theorem startup_safe:
  assumes "1 \<le> unat totalProcs" and "unat totalProcs \<le> 16" and "boot_run totalProcs cs (boot_start totalProcs) = Some s"
  shows "shared_inits s \<le> 1 \<and> main_threads s \<le> 1 \<and>
    (\<forall>c < unat totalProcs. 1 \<le> c \<and> pcs s ! c \<noteq> Off \<longrightarrow> smpInitDone s \<and> shared_inits s = 1) \<and>
    (\<forall>c < unat totalProcs. pcs s ! c = Enter \<longrightarrow>
       pickKernelStack s c = c \<and> (\<forall>d < unat totalProcs. pcs s ! d = Enter \<longrightarrow> d = c)) \<and>
    (main_threads s = 1 \<longrightarrow> (\<forall>c < unat totalProcs. arrived (pcs s ! c)))"
proof -
  have I: "boot_inv totalProcs s" by (rule boot_inv_run [OF boot_inv_start [OF assms(1,2)] assms(3)])
  note D = boot_invD [OF I]
  have pl: "place_ok (pcs s ! 0) c (pcs s ! c)" if "1 \<le> c" "c < unat totalProcs" for c
    using D(1,7) that by (simp add: others_def)
  have F: "pcs s ! 0 \<noteq> Off" "smpInitDone s \<longleftrightarrow> pcs s ! 0 \<noteq> Enter" "shared_inits s = (if pcs s ! 0 = Enter then 0 else 1)"
    using D(6) by (auto simp: first_ok_def Let_def)
  have awake: "smpInitDone s \<and> shared_inits s = 1" if "c < unat totalProcs" "1 \<le> c" "pcs s ! c \<noteq> Off" for c
    using pl [OF that(2,1)] that(3) F(2,3) by auto
  have at: "c = 0 \<and> pcs s ! 0 = Enter \<or> pcs s ! 0 = WaitFor (of_nat c)" if "c < unat totalProcs" "pcs s ! c = Enter" for c
    using pl [of c] that by (cases "c = 0"; cases "pcs s ! 0") (auto simp: joined_def split: if_splits)
  have "pickKernelStack s c = c" if "c < unat totalProcs" "pcs s ! c = Enter" for c
    using at [OF that] awake [of c] that F(2) by (cases "c = 0") (auto simp: pickKernelStack_def)
  moreover have "d = c" if "c < unat totalProcs" "pcs s ! c = Enter" "d < unat totalProcs" "pcs s ! d = Enter" for c d
  proof -
    have small: "unat (of_nat x :: u32) = x" if "x < unat totalProcs" for x
      using that assms(2) by (simp add: unsigned_of_nat take_bit_nat_eq_self)
    show ?thesis using at [OF that(1,2)] at [OF that(3,4)] small [OF that(1)] small [OF that(3)] by auto
  qed
  moreover have "arrived (pcs s ! c)" if "main_threads s = 1" "c < unat totalProcs" for c
  proof -
    have "cnt arrived (pcs s) = length (pcs s)" using tickets_okD(3) [OF D(8)] that(1) by (metis zero_neq_one)
    then show ?thesis using that(2) D(1) unfolding cnt_all by simp
  qed
  moreover have "shared_inits s \<le> 1" "main_threads s \<le> 1"
    using F(3) tickets_okD(3) [OF D(8)] by simp_all
  ultimately show ?thesis using awake by blast
qed

text \<open>An order of the steps of three processors, the second of which runs ahead.\<close>

definition three_cores :: "nat list" where
  "three_cores = [0, 0, 0, 1, 1, 1, 1, 0, 0, 2, 1, 2, 0, 0, 2, 2, 2]"

lemma three_cores_run:
  "map_option pcs (boot_run 3 (take 8 three_cores) (boot_start 3)) = Some [ForId 2, Checks 1, Off]"
  "map_option pcs (boot_run 3 (three_cores @ [0, 0, 0]) (boot_start 3)) = Some [Stops, Stops, Stops]"
  by code_simp+

lemma startup_safe_witness:
  "\<exists>s. boot_run 3 (take 8 three_cores) (boot_start 3) = Some s \<and> pcs s = [ForId 2, Checks 1, Off] \<and> smpInitDone s \<and> main_threads s \<le> 1"
proof -
  obtain s where s: "boot_run 3 (take 8 three_cores) (boot_start 3) = Some s" "pcs s = [ForId 2, Checks 1, Off]"
    using three_cores_run(1) by auto
  then show ?thesis using startup_safe [OF _ _ s(1)] by (auto dest!: spec [of _ 1])
qed

text \<open>C10: Start-up ends.  Every run of start-up on up to 16 processors is finite, of at most
  \<open>n (2 n + 9)\<close> steps, and when no processor can take a step, each of them is in \<^verbatim>\<open>stop\<close>, all were
  counted by both counters, and the thread for \<^verbatim>\<open>kernelMain\<close> was created exactly once: no processor waits for ever for another.\<close>

theorem startup_ends:
  assumes "1 \<le> unat totalProcs" and "unat totalProcs \<le> 16" and "boot_run totalProcs cs (boot_start totalProcs) = Some s"
  shows "length cs \<le> unat totalProcs * (2 * unat totalProcs + 9) \<and>
    ((\<forall>c. boot_step totalProcs c s = None) \<longrightarrow>
      (\<forall>c < unat totalProcs. pcs s ! c = Stops) \<and> main_threads s = 1 \<and> shared_inits s = 1 \<and>
      running s = totalProcs \<and> howManyAreHere s = totalProcs)"
proof -
  note I0 = boot_inv_start [OF assms(1,2)]
  have I: "boot_inv totalProcs s" by (rule boot_inv_run [OF I0 assms(3)])
  note D = boot_invD [OF I]
  let ?n = "unat totalProcs"
  have "work (boot_start totalProcs) \<le> ?n * (2 * ?n + 9)"
  proof -
    have "pcs (boot_start totalProcs) = Enter # replicate (?n - 1) Off" "?n = Suc (?n - 1)"
      using assms(1) by (auto simp: boot_start_def)
    then have "work (boot_start totalProcs) = 2 * ?n + 8 + (?n - 1) * (2 * ?n + 9)"
      by (simp add: work_def sum_list_replicate)
    moreover have "m * k = k + (m - 1) * k" if "1 \<le> m" for m k :: nat
      using that by (cases m) simp_all
    from this [OF assms(1), of "2 * ?n + 9"] have "?n * (2 * ?n + 9) = (2 * ?n + 9) + (?n - 1) * (2 * ?n + 9)" .
    ultimately show ?thesis by simp
  qed
  then have 1: "length cs \<le> ?n * (2 * ?n + 9)" using work_run [OF I0 assms(3)] by simp
  have 2: "(\<forall>c < ?n. pcs s ! c = Stops) \<and> main_threads s = 1 \<and> shared_inits s = 1 \<and>
      running s = totalProcs \<and> howManyAreHere s = totalProcs" if stuck: "\<forall>c. boot_step totalProcs c s = None"
  proof -
    have S: "pcs s ! c = Stops" if "c < ?n" for c using boot_progress [OF I] stuck that by (metis not_le)
    have c: "cnt joined (pcs s) = ?n" "cnt arrived (pcs s) = ?n"
      using cnt_all [of joined "pcs s"] cnt_all [of arrived "pcs s"] S D(1) by (simp_all add: joined_def arrived_def)
    have "Checks totalProcs \<notin> set (pcs s)" using S D(1) by (auto simp: in_set_conv_nth)
    then have "main_threads s = 1" using tickets_okD(3) [OF D(8)] c D(1) by simp
    moreover have "shared_inits s = 1" using D(6) S [of 0] assms(1) by (simp add: first_ok_def Let_def)
    ultimately show ?thesis using S D(4,5) c by simp
  qed
  show ?thesis using 1 2 by blast
qed

lemma startup_ends_witness:
  "\<exists>s. boot_run 3 (three_cores @ [0, 0, 0]) (boot_start 3) = Some s \<and> main_threads s = 1 \<and> running s = 3 \<and> howManyAreHere s = 3"
proof -
  obtain s where s: "boot_run 3 (three_cores @ [0, 0, 0]) (boot_start 3) = Some s" "pcs s = [Stops, Stops, Stops]"
    using three_cores_run(2) by auto
  have "boot_step 3 c s = None" for c
    using s(2) by (auto simp: boot_step_def nth_Cons split: nat.splits)
  then show ?thesis using s startup_ends [OF _ _ s(1)] by simp
qed

end
