(* ===== verification/Boot.thy ===== *)
theory Boot
  imports KHeap VMM Sys_Spec
begin

text \<open>
  Start-up: how \<^verbatim>\<open>kernelInit\<close> of \<^verbatim>\<open>kernel/init.cc\<close> divides the memory between the heap and the frames, and
  \<^verbatim>\<open>kernelMain\<close> of \<^verbatim>\<open>kernel/kernel.cc\<close>, which starts the first program.
\<close>

section \<open>The first program\<close>

text \<open>\<^verbatim>\<open>getDir\<close> and \<^verbatim>\<open>getFile\<close>: a look-up whose result is not checked (the checks are commented out).\<close>

definition find_in :: "'s machine \<Rightarrow> ext2 \<Rightarrow> node option \<Rightarrow> string \<Rightarrow> 's kernel \<Rightarrow> (node option \<times> 's kernel) res" where
  "find_in e f nd name k = rbind (ext2_find (dev e) f nd (map of_char name) (disk k)) (\<lambda>(n, d). Inr (n, k\<lparr>disk := d\<rparr>))"

definition find_shell :: "'s machine \<Rightarrow> u8 list \<Rightarrow> 's kernel \<Rightarrow> (node option \<times> 's kernel) res" where
  "find_shell e fresh k =
     rbind (mount (dev e) fresh (disk k)) (\<lambda>(f, d).
     rbind (find_in e f (Some (root f)) ''sbin'' (k\<lparr>disk := d\<rparr>)) (\<lambda>(sbin, k1).
     find_in e f sbin ''shell'' k1))"

text \<open>The user stack: the string \<^verbatim>\<open>init\<close>, \<^verbatim>\<open>argv\<close> with its terminator, and the arguments of \<^verbatim>\<open>main\<close>.\<close>

definition init_stack :: "'s kernel \<Rightarrow> (u32 \<times> 's kernel) res" where
  "init_stack k =
     (let userEsp = 0xefffe000 in
      rbind (store_word st8 userEsp 0 k) (\<lambda>k1.
      let userEsp = userEsp - 4; pointer = userEsp in
      rbind (store_range st8 userEsp (map of_char ''init'') k1) (\<lambda>k2.
      let userEsp = userEsp - 4 in
      rbind (store_word st8 userEsp 0 k2) (\<lambda>k3.
      let userEsp = userEsp - 4 in
      rbind (store_word st8 userEsp pointer k3) (\<lambda>k4.
      let userEsp = userEsp - 4 in
      rbind (store_word st8 userEsp (userEsp + 4) k4) (\<lambda>k5.
      let userEsp = userEsp - 4 in
      rbind (store_word st8 userEsp 1 k5) (\<lambda>k6. Inr (userEsp, k6))))))))"

definition kernelMain :: "'s machine \<Rightarrow> u8 list \<Rightarrow> 's kernel \<Rightarrow> (outcome \<times> 's kernel) res" where
  "kernelMain e fresh k =
     rbind (find_shell e fresh k) (\<lambda>(shell, k1).
       case shell of
         None \<Rightarrow> Inl (NullDeref ''file->read_all'')
       | Some nd \<Rightarrow>
           rbind (elf_load e nd k1) (\<lambda>(entry, k2).
           rbind (init_stack k2) (\<lambda>(userEsp, k3). Inr (ToUser entry userEsp, k3))))"

text \<open>The memory \<open>v'\<close> is \<open>v\<close> with the bytes \<open>bs\<close> from \<open>a\<close> on, as far as \<open>area\<close> goes; bytes below join.\<close>

definition image_at :: "u32 set \<Rightarrow> u32 \<Rightarrow> u8 list \<Rightarrow> (u32 \<Rightarrow> u8) \<Rightarrow> (u32 \<Rightarrow> u8) \<Rightarrow> bool" where
  "image_at area a bs v v' \<longleftrightarrow> (\<forall>x \<in> area. v' x = (if x \<in> span a (length bs) then bs ! unat (x - a) else v x))"

lemma image_at_join:
  assumes "image_at area (a + of_nat (length bs)) cs v v1" and "image_at area a bs v1 v2" and "length bs + length cs < 2 ^ 32"
  shows "image_at area a (bs @ cs) v v2"
proof -
  let ?m = "length bs"
  have m: "unat (of_nat ?m :: u32) = ?m" using assms(3) by (simp add: unsigned_of_nat take_bit_nat_eq_self)
  have d: "unat (x - (a + of_nat ?m)) = unat (x - a) - ?m" if "?m \<le> unat (x - a)" for x
  proof -
    have "of_nat ?m \<le> x - a" using that m by (simp add: word_le_nat_alt)
    then show ?thesis using m by (simp add: unat_sub diff_diff_add [symmetric] del: diff_diff_add)
  qed
  have "v2 x = (if x \<in> span a (length (bs @ cs)) then (bs @ cs) ! unat (x - a) else v x)" if "x \<in> area" for x
    using assms(1,2) that d [of x] by (cases "unat (x - a) < ?m") (auto simp: image_at_def span_def nth_append)
  then show ?thesis by (simp add: image_at_def)
qed

definition stack_image :: "u8 list" where
  "stack_image = bytes_of_word 1 @ bytes_of_word 0xefffdff4 @ bytes_of_word 0xefffdffc @ bytes_of_word 0 @ map of_char ''init'' @ bytes_of_word 0"

lemma span_inside:
  fixes b :: u32
  assumes "n + m \<le> l" and "l < 2 ^ 32"
  shows "span (b + of_nat n) m \<subseteq> span b l"
proof
  fix x assume "x \<in> span (b + of_nat n) m"
  then have m: "unat (x - (b + of_nat n)) < m" by (simp add: span_def)
  have n: "unat (of_nat n :: u32) = n" using assms by (simp add: unsigned_of_nat take_bit_nat_eq_self)
  have "x - b = (x - (b + of_nat n)) + of_nat n" by simp
  also have "unat ... = unat (x - (b + of_nat n)) + n"
    by (subst unat_plus_if') (use m n assms in simp)
  finally show "x \<in> span b l" using m assms(1) by (simp add: span_def)
qed

lemma init_stack_ok:
  assumes M: "mem_of cfg start k0 k" and area: "span 0xefffdfec 24 \<subseteq> user_area cfg"
  shows "succeeds out_of_frames (init_stack k) (\<lambda>(esp, k'). esp = 0xefffdfec \<and> mem_of cfg start k0 k' \<and>
    image_at (user_area cfg) esp stack_image (user_byte k) (user_byte k'))"
proof -
  have st: "succeeds out_of_frames (store_range st8 a bs k1) (\<lambda>k2. mem_of cfg start k0 k2 \<and> image_at (user_area cfg) a (bs @ cs) (user_byte k) (user_byte k2))"
    if "mem_of cfg start k0 k1 \<and> image_at (user_area cfg) (a + 4) cs (user_byte k) (user_byte k1)"
      "a = 0xefffdfec + of_nat n" "n \<le> 20" "length bs = 4" "length cs \<le> 100" for a bs cs k1 n
  proof -
    have "span a (length bs) \<subseteq> user_area cfg"
      using span_inside [of n 4 24 "0xefffdfec"] area that(2-4) by auto
    then have "succeeds out_of_frames (store_range st8 a bs k1) (\<lambda>k2. mem_of cfg start k0 k2 \<and> image_at (user_area cfg) a bs (user_byte k1) (user_byte k2))"
      using km.store_range_ok [of cfg start k0 k1 bs a] that(1,4) by (simp add: image_at_def)
    then show ?thesis
      by (rule succeeds_mono) (use image_at_join [of "user_area cfg" a bs cs] that(1,4,5) in auto)
  qed
  have none: "image_at (user_area cfg) (0xefffe000 + 4) [] (user_byte k) (user_byte k)" by (simp add: image_at_def)
  have w: "store_word st8 a v = store_range st8 a (bytes_of_word v)" for a v by (rule ext) (simp add: store_word_def)
  define P where "P a cs k1 \<longleftrightarrow> mem_of cfg start k0 k1 \<and> image_at (user_area cfg) a cs (user_byte k) (user_byte k1)" for a cs k1
  have step: "succeeds out_of_frames (rbind (store_range st8 a bs k1) f) Q"
    if "P (a + 4) cs k1" "a = 0xefffdfec + of_nat n" "n \<le> 20" "length bs = 4" "length cs \<le> 100"
      "\<And>k2. P a (bs @ cs) k2 \<Longrightarrow> succeeds out_of_frames (f k2) Q" for a bs cs k1 n f Q
    by (rule succeeds_rbind [OF st [OF that(1) [unfolded P_def] that(2-5)]]) (use that(6) P_def in auto)
  have P0: "P (0xefffe000 + 4) [] k" using M none by (simp add: P_def)
  show ?thesis
    unfolding init_stack_def Let_def w
    apply (rule step [of _ _ _ 20, OF P0], simp, simp, simp, simp)
    apply (rule step [of _ "bytes_of_word 0 @ []" _ 16], simp, simp, simp, simp, simp)
    apply (rule step [of _ "map of_char ''init'' @ bytes_of_word 0 @ []" _ 12], simp, simp, simp, simp, simp)
    apply (rule step [of _ "bytes_of_word 0 @ map of_char ''init'' @ bytes_of_word 0 @ []" _ 8], simp, simp, simp, simp, simp)
    apply (rule step [of _ "bytes_of_word 0xefffdffc @ bytes_of_word 0 @ map of_char ''init'' @ bytes_of_word 0 @ []" _ 4], simp, simp, simp, simp, simp)
    apply (rule step [of _ "bytes_of_word 0xefffdff4 @ bytes_of_word 0xefffdffc @ bytes_of_word 0 @ map of_char ''init'' @ bytes_of_word 0 @ []" _ 0],
        simp, simp, simp, simp, simp)
    apply (simp add: P_def stack_image_def)
    done
qed

lemma find_extend:
  fixes g :: geometry
  shows "ext2_find d (geometry.extend g m) from path s = ext2_find d g from path s"
proof (induction d g "from" path s rule: ext2_find.induct)
  case (1 d g nd path s)
  have n: "get_node d (geometry.extend g m) n s = get_node d g n s" for n s
    by (simp add: get_node_def geometry.defs cong del: if_weak_cong)
  show ?case
    by (subst (1 2) ext2_find.simps) (use 1 in \<open>auto simp: Let_def n split: option.splits intro!: rbind_cong\<close>)
qed

text \<open>The look-up follows the tree of directories on the disk.\<close>

lemma find_shell_ok:
  assumes disk: "disk_is (dev e) W C c D (disk k)" and m: "disk_mountable c D"
    and T: "tree_ok c D (disk_geometry c) T" "in_tree c D (disk_geometry c) T 2"
    and w: "walk T 2 [map of_char ''sbin''] = Inr sbin" "sbin \<noteq> 0" "walk T sbin [map of_char ''shell''] = Inr shell"
  obtains d where "find_shell e fresh k =
      Inr (if shell = 0 then None else Some (the_node c (disk_geometry c) shell), k\<lparr>disk := d\<rparr>)" "disk_is (dev e) W C c D d"
proof -
  let ?g = "disk_geometry c"
  obtain d0 f where f: "mount (dev e) fresh (disk k) = Inr (f, d0)" "disk_is (dev e) W C c D d0"
    "f = geometry.extend ?g (ext2.fields (the_node c ?g 2) (Some (the_node c ?g 2)) (fresh[0 := 47]))"
    using mount_ok [OF disk m, of fresh] by metis
  have r: "root f = the_node c ?g 2" by (simp add: f(3) geometry.defs ext2.defs)
  have same: "ext2_find (dev e) f from path s = ext2_find (dev e) ?g from path s" for "from" path s
    by (simp add: f(3) find_extend)
  have pp: "path_parts (map of_char ''sbin'') = [map of_char ''sbin'']" "path_parts (map of_char ''shell'') = [map of_char ''shell'']"
    by (simp_all add: path_parts_def)
  obtain d1 where d1: "ext2_find (dev e) ?g (Some (the_node c ?g 2)) (map of_char ''sbin'') d0 = Inr (Some (the_node c ?g sbin), d1)"
    "disk_is (dev e) W C c D d1" "in_tree c D ?g T sbin"
    using ext2_find_ok [OF T(1) f(2) T(2), of "map of_char ''sbin''"] w(1,2) unfolding pp by auto
  obtain d2 where "ext2_find (dev e) ?g (Some (the_node c ?g sbin)) (map of_char ''shell'') d1 =
      Inr (if shell = 0 then None else Some (the_node c ?g shell), d2)" "disk_is (dev e) W C c D d2"
    using ext2_find_ok [OF T(1) d1(2,3), of "map of_char ''shell''"] w(3) unfolding pp by auto
  then show thesis using that [of d2] f(1) r d1(1) by (simp add: find_shell_def find_in_def same)
qed

text \<open>C25: The first program.  On a disk whose tree of directories leads from the root over \<^verbatim>\<open>sbin\<close> to
  \<^verbatim>\<open>shell\<close>, \<^verbatim>\<open>kernelMain\<close> loads that file and enters user mode at its entry point, with the stack pointer at
  the count 1, the argument vector with its null pointer behind it and the string \<^verbatim>\<open>init\<close> with its end, each word of them pointing
  where it should; no other byte of the user's memory differs from what the loader left.  When \<^verbatim>\<open>sbin\<close> has no \<^verbatim>\<open>shell\<close>, a null pointer
  is dereferenced, since the checks are commented out; otherwise the only failures are those of the loader and of a machine
  that is out of frames.\<close>

theorem kernelMain_spec:
  assumes "disk_is (dev e) W C c D (disk k)" and "disk_mountable c D"
    and "tree_ok c D (disk_geometry c) T" and "in_tree c D (disk_geometry c) T 2"
    and "walk T 2 [map of_char ''sbin''] = Inr sbin" and "sbin \<noteq> 0" and "walk T sbin [map of_char ''shell''] = Inr shell"
    and "span 0xefffdfec 24 \<subseteq> user_area cfg"
  shows "if shell = 0 then kernelMain e fresh k = Inl (NullDeref ''file->read_all'')
    else \<exists>d. disk_is (dev e) W C c D d \<and>
      (case elf_load e (the_node c (disk_geometry c) shell) (k\<lparr>disk := d\<rparr>) of
         Inl f \<Rightarrow> kernelMain e fresh k = Inl f
       | Inr (ep, k2) \<Rightarrow> space_inv cfg start (tpd (cur_thread k2)) (pm k2) \<longrightarrow>
           succeeds out_of_frames (kernelMain e fresh k) (\<lambda>(o1, k3). o1 = ToUser ep 0xefffdfec \<and>
             (\<exists>p. k3 = k2\<lparr>pm := p\<rparr> \<and> space_inv cfg start (tpd (cur_thread k2)) p) \<and>
             (\<forall>x \<in> user_area cfg. user_byte k3 x = (if x \<in> span 0xefffdfec 24
                then (bytes_of_word 1 @ bytes_of_word 0xefffdff4 @ bytes_of_word 0xefffdffc @ bytes_of_word 0 @
                  map of_char ''init'' @ bytes_of_word 0) ! unat (x - 0xefffdfec)
                else user_byte k2 x))))"
proof -
  let ?nd = "the_node c (disk_geometry c) shell"
  obtain d where d: "find_shell e fresh k = Inr (if shell = 0 then None else Some ?nd, k\<lparr>disk := d\<rparr>)" "disk_is (dev e) W C c D d"
    by (rule find_shell_ok [OF assms(1-7), of fresh])
  have started: "succeeds out_of_frames (kernelMain e fresh k) (\<lambda>(o1, k3). o1 = ToUser ep 0xefffdfec \<and>
      mem_of cfg start k2 k3 \<and> image_at (user_area cfg) 0xefffdfec stack_image (user_byte k2) (user_byte k3))"
    if "shell \<noteq> 0" "elf_load e ?nd (k\<lparr>disk := d\<rparr>) = Inr (ep, k2)" "space_inv cfg start (tpd (cur_thread k2)) (pm k2)" for ep k2
    using init_stack_ok [OF mem_of_refl [OF that(3)] assms(8)] that(1,2) d(1)
    by (cases "init_stack k2") (auto simp: kernelMain_def)
  have len: "length stack_image = 24" by (simp add: stack_image_def)
  show ?thesis
  proof (cases "shell = 0")
    case True
    then show ?thesis using d(1) by (simp add: kernelMain_def)
  next
    case False
    have "kernelMain e fresh k = Inl f" if "elf_load e ?nd (k\<lparr>disk := d\<rparr>) = Inl f" for f
      using that d(1) False by (simp add: kernelMain_def)
    moreover note started [OF False, unfolded image_at_def len mem_of_def]
    ultimately show ?thesis
      using False d(2) unfolding stack_image_def [symmetric] by (auto split: sum.splits split del: if_split intro!: exI [of _ d])
  qed
qed

text \<open>A disk with one directory, its own \<^verbatim>\<open>sbin\<close>, and in it a program without segments.\<close>

definition boot_disk :: "nat \<Rightarrow> u8" where
  "boot_disk i = (case map_of
     [(3332, 52), (4102, 4), (4104, 115), (4105, 98), (4106, 105), (4107, 110),
      (4114, 5), (4116, 115), (4117, 104), (4118, 101), (4119, 108), (4120, 108),
      (5120, 0x7F), (5121, 69), (5122, 76), (5123, 70), (5124, 0), (5147, 0x80)] i of
     None \<Rightarrow> small_disk i | Some b \<Rightarrow> b)"

lemma boot_low: "i < 3332 \<Longrightarrow> boot_disk i = small_disk i"
  by (simp add: boot_disk_def)

lemma boot_geometry: "disk_super boot_disk = disk_super small_disk" "disk_geometry boot_disk = disk_geometry small_disk"
proof -
  have b: "bytes_at boot_disk i n = bytes_at small_disk i n" if "i + n \<le> 3332" for i n
    using that by (simp add: bytes_at_def boot_low)
  show s: "disk_super boot_disk = disk_super small_disk" by (simp add: disk_super_def b)
  show "disk_geometry boot_disk = disk_geometry small_disk"
    by (simp add: disk_geometry_def disk_block_size_def disk_groups_def disk_table_def s small_fields b)
qed

definition boot_root :: node where "boot_root = the_node boot_disk (disk_geometry boot_disk) 2"
definition boot_shell :: node where "boot_shell = the_node boot_disk (disk_geometry boot_disk) 3"

lemma boot_fields:
  "node_bs boot_root = 1024" "size_low (data boot_root) = 1024" "n_sectors (data boot_root) = 2"
  "direct (data boot_root) ! 0 = 4" "mode (data boot_root) = 0x4000"
  "node_bs boot_shell = 1024" "size_low (data boot_shell) = 52" "n_sectors (data boot_shell) = 2"
  "direct (data boot_shell) ! 0 = 5" "mode (data boot_shell) = 0x8000"
  by (simp_all add: boot_root_def boot_shell_def the_node_def inode_slot_def boot_geometry small_geometry)
    (simp_all add: small_decode boot_disk_def)

lemma boot_fits: "node_fits boot_disk 6144 boot_root" "node_fits boot_disk 6144 boot_shell"
  by (rule one_block_fits; simp add: boot_fields)+

definition boot_entries :: "dirent list" where
  "boot_entries = [(2, 12, map of_char ''sbin''), (3, 1012, map of_char ''shell'')]"

lemma boot_tree: "tree_ok boot_disk 6144 (disk_geometry boot_disk) [2 \<mapsto> boot_entries]"
  "in_tree boot_disk 6144 (disk_geometry boot_disk) [2 \<mapsto> boot_entries] 2"
proof -
  let ?c = "node_byte boot_disk boot_root"
  have c: "?c i = boot_disk (4096 + i)" if "i < 1024" for i
    using that by (simp add: one_block_byte boot_fields)
  have "entry_at ?c 1024 0 (2, 12, map of_char ''sbin'')" "entry_at ?c 1024 12 (3, 1012, map of_char ''shell'')"
    by (simp_all add: entry_at_def le32_def le16_def c bytes_at_def upt_rec boot_disk_def small_disk_def)
  then have d: "dir_ok boot_disk 6144 boot_root boot_entries"
    by (simp add: dir_ok_def boot_fits is_dir_def get_type_def boot_fields boot_entries_def)
  have "\<not> is_dir (data boot_shell)" by (simp add: is_dir_def get_type_def boot_fields)
  then have i: "in_tree boot_disk 6144 (disk_geometry boot_disk) [2 \<mapsto> boot_entries] n" if "n = 2 \<or> n = 3" for n
    using that small_slots by (auto simp: in_tree_def boot_shell_def boot_geometry)
  then show "tree_ok boot_disk 6144 (disk_geometry boot_disk) [2 \<mapsto> boot_entries]"
    using d by (auto simp: tree_ok_def boot_entries_def boot_root_def split: if_splits)
  show "in_tree boot_disk 6144 (disk_geometry boot_disk) [2 \<mapsto> boot_entries] 2" using i by simp
qed

lemma boot_mountable: "disk_mountable boot_disk 6144"
  using small_mountable unfolding disk_mountable_def boot_geometry disk_groups_def disk_table_def disk_block_size_def by simp

definition boot_machine :: "unit machine" where
  "boot_machine = demo_machine\<lparr>dev := img_dev boot_disk 6144\<rparr>"

lemma boot_is: "disk_is (dev boot_machine) (\<lambda>s. True) (\<lambda>s. boot_disk) boot_disk 6144 ()"
  using img_disk [of boot_disk 6144] by (simp add: boot_machine_def)

lemma boot_elf:
  assumes "disk k = ()"
  shows "elf_load boot_machine boot_shell k = Inr (0x80000000, k)"
proof -
  let ?d = "node_dev (dev boot_machine) boot_shell"
  have sz: "size_in_bytes ?d () = 52" by (simp add: node_dev_def node_size_in_bytes_def boot_fields)
  have R: "read_all ?d 0 n () = Inr (min (int (unat n)) 52, bytes_at (node_byte boot_disk boot_shell) 0 (min (unat n) 52), ())" for n
  proof -
    obtain j s' where "read_all ?d 0 n () = Inr (int j, bytes_at (node_byte boot_disk boot_shell) (unat (0 :: u32)) j, s')"
      "j = min (unat n) (unat (size_in_bytes ?d ()) - unat (0 :: u32))"
      by (rule nd.read_all_ok [of "dev boot_machine" "\<lambda>s. True" "\<lambda>s. boot_disk" boot_disk 6144 "()" boot_shell 0 n])
        (use boot_is boot_fits(2) in simp_all)
    then show ?thesis by (simp add: sz of_nat_min)
  qed
  have "node_byte boot_disk boot_shell i = boot_disk (5120 + i)" if "i < 1024" for i
    using that by (simp add: one_block_byte boot_fields)
  then have b: "bytes_at (node_byte boot_disk boot_shell) 0 52 = map (\<lambda>i. boot_disk (5120 + i)) [0..<52]"
    by (simp add: bytes_at_def)
  have "maigc0 (decode_elf (map (\<lambda>i. boot_disk (5120 + i)) [0..<52])) = 0x7F" "magic1 (decode_elf (map (\<lambda>i. boot_disk (5120 + i)) [0..<52])) = 69"
    "magic2 (decode_elf (map (\<lambda>i. boot_disk (5120 + i)) [0..<52])) = 76" "magic3 (decode_elf (map (\<lambda>i. boot_disk (5120 + i)) [0..<52])) = 70"
    "phoff (decode_elf (map (\<lambda>i. boot_disk (5120 + i)) [0..<52])) = 0" "phnum (decode_elf (map (\<lambda>i. boot_disk (5120 + i)) [0..<52])) = 0"
    "elf_entry (decode_elf (map (\<lambda>i. boot_disk (5120 + i)) [0..<52])) = 0x80000000"
    by (simp_all add: decode_elf_def le32_def le16_def boot_disk_def small_disk_def)
  then show ?thesis
    using assms R [of 52] R [of 0] by (simp add: elf_load_def sizeof_elf_def b Let_def)
qed

lemma kernelMain_spec_witness:
  "\<exists>pd p. succeeds out_of_frames (kernelMain boot_machine (replicate 100 0) (two_processes pd p)) (\<lambda>(o1, k3).
     o1 = ToUser 0x80000000 0xefffdfec \<and> map (user_byte k3) [0xefffdff8, 0xefffdffc, 0xefffdffd, 0xefffe000] = [0, 105, 110, 0])"
proof -
  obtain s pd where S: "space_inv config_zero 0x1000 pd s" by (rule space_example)
  let ?k = "two_processes pd s" and ?T = "[2 \<mapsto> boot_entries]"
  have w: "walk ?T 2 [map of_char ''sbin''] = Inr 2" "walk ?T 2 [map of_char ''shell''] = Inr 3"
    by (simp_all add: boot_entries_def lookup_def cstr_def)
  have a: "span 0xefffdfec 24 \<subseteq> user_area config_zero"
  proof
    fix x :: u32 assume "x \<in> span 0xefffdfec 24"
    then have "x - 0xefffdfec < 24" by (simp add: span_def word_less_nat_alt)
    then have "uint (x - 0xefffdfec) < 24" unfolding word_less_def by simp
    moreover have "uint x = uint ((x - 0xefffdfec) + 0xefffdfec)" by simp
    ultimately have x: "0xefffdfec \<le> uint x" "uint x < 0xf0000000" unfolding uint_word_ariths by simp_all
    have "uint x div 4096 * 4096 \<le> uint x" by simp
    then have "uint (framedown x) < 0xf0000000" using x(2) by (simp add: uint_framedown)
    moreover have "uint (framedown 0xFEC00000) = 0xFEC00000" "uint (framedown 0xFEE00000) = 0xFEE00000"
      by (simp_all add: uint_framedown)
    ultimately have "framedown x \<noteq> framedown 0xFEC00000" "framedown x \<noteq> framedown 0xFEE00000" by auto
    moreover have "0x80000000 \<le> x" using x(1) by (simp add: word_le_def)
    ultimately show "x \<in> user_area config_zero" by (simp add: user_area_def config_zero_def)
  qed
  have e: "elf_load boot_machine (the_node boot_disk (disk_geometry boot_disk) 3) (?k\<lparr>disk := d\<rparr>) = Inr (0x80000000, ?k)" for d
    using boot_elf [of "?k\<lparr>disk := d\<rparr>"] by (simp add: boot_shell_def)
  have "succeeds out_of_frames (kernelMain boot_machine (replicate 100 0) ?k) (\<lambda>(o1, k3). o1 = ToUser 0x80000000 0xefffdfec \<and>
     (\<forall>x \<in> user_area config_zero. user_byte k3 x = (if x \<in> span 0xefffdfec 24
                then (bytes_of_word 1 @ bytes_of_word 0xefffdff4 @ bytes_of_word 0xefffdffc @ bytes_of_word 0 @
                  map of_char ''init'' @ bytes_of_word 0) ! unat (x - 0xefffdfec)
                else user_byte ?k x)))"
    using kernelMain_spec [OF _ boot_mountable boot_tree w(1) _ w(2) a, where e = boot_machine and W = "\<lambda>s. True"
        and C = "\<lambda>s. boot_disk" and k = ?k and fresh = "replicate 100 0" and start = "0x1000"]
      boot_is S
    by (auto simp: e elim!: succeeds_mono)
  then have "succeeds out_of_frames (kernelMain boot_machine (replicate 100 0) ?k) (\<lambda>(o1, k3). o1 = ToUser 0x80000000 0xefffdfec \<and>
     map (user_byte k3) [0xefffdff8, 0xefffdffc, 0xefffdffd, 0xefffe000] = [0, 105, 110, 0])"
  proof (rule succeeds_mono, clarify, intro conjI refl)
    fix k3
    assume m: "\<forall>x \<in> user_area config_zero. user_byte k3 x = (if x \<in> span 0xefffdfec 24
                then (bytes_of_word 1 @ bytes_of_word 0xefffdff4 @ bytes_of_word 0xefffdffc @ bytes_of_word 0 @
                  map of_char ''init'' @ bytes_of_word 0) ! unat (x - 0xefffdfec)
                else user_byte ?k x)"
    have v: "user_byte k3 x = (bytes_of_word 1 @ bytes_of_word 0xefffdff4 @ bytes_of_word 0xefffdffc @ bytes_of_word 0 @
        map of_char ''init'' @ bytes_of_word 0) ! unat (x - 0xefffdfec)" if "x \<in> span 0xefffdfec 24" for x
      using m a that by auto
    have "user_byte k3 0xefffdff8 = 0" "user_byte k3 0xefffdffc = 105" "user_byte k3 0xefffdffd = 110" "user_byte k3 0xefffe000 = 0"
      by (subst v; simp add: span_def bytes_of_word_def)+
    then show "map (user_byte k3) [0xefffdff8, 0xefffdffc, 0xefffdffd, 0xefffe000] = [0, 105, 110, 0]" by simp
  qed
  then show ?thesis by blast
qed

section \<open>Dividing the memory\<close>

definition HEAP_START :: u32 where "HEAP_START = 1 * 1024 * 1024"
definition HEAP_SIZE :: u32 where "HEAP_SIZE = 5 * 1024 * 1024"
definition VMM_FRAMES :: u32 where "VMM_FRAMES = HEAP_START + HEAP_SIZE"

text \<open>How \<^verbatim>\<open>kernelInit\<close> sets up the heap, whose lock takes \<open>lockBytes\<close>, and later the frames and the
  shared directory; in between it only allocates.\<close>

definition init_heap :: "u32 \<Rightarrow> heap \<Rightarrow> (u32 \<times> heap) res" where
  "init_heap lockBytes h = heapInit lockBytes HEAP_START HEAP_SIZE h"

definition init_frames :: "config \<Rightarrow> phys \<Rightarrow> (u32 \<times> phys) res" where
  "init_frames cfg s = rbind (pm_init VMM_FRAMES (memSize cfg - VMM_FRAMES) s) (\<lambda>s1. global_init cfg s1)"

lemma boundaries: "uint HEAP_START = 0x100000" "uint HEAP_SIZE = 0x500000" "uint VMM_FRAMES = 0x600000"
  by (simp_all add: HEAP_START_def HEAP_SIZE_def VMM_FRAMES_def)

text \<open>No byte of a heap object is in a frame.\<close>

lemma heap_frames_apart:
  assumes h: "heap_inv h" "hbase h = HEAP_START" "hlen h = uint HEAP_SIZE div 4" "p \<in> live_ptrs h" "k \<in> payload h p"
    and s: "f \<in> pm_live VMM_FRAMES s" and b: "b < 4"
  shows "KHeap.addr_of h k + b \<notin> frame_span f"
proof -
  obtain ms ps where r: "hrel h ms ps" using h(1) by (auto simp: heap_inv_def)
  obtain i n where i: "(i, n) \<in> set (live_blocks h)" "i + 1 \<le> k" "k < i + n - 1"
    using h(5) by (auto simp: payload_def split: if_splits)
  note B = live_bounds [OF r i(1)]
  have k: "0 \<le> k" "4 * k + 4 \<le> 0x500000" using B i h(3) by (simp_all add: boundaries)
  have "uint (KHeap.addr_of h k) = 0x100000 + 4 * k"
    using k h(2) boundaries by (simp add: KHeap.addr_of_def uint_word_ariths uint_word_of_int)
  moreover have "uint b \<le> 3" using b by (simp add: word_less_def)
  ultimately have "uint (KHeap.addr_of h k + b) < 0x600000" using k by (simp add: uint_word_ariths)
  moreover have "0x600000 \<le> uint f" using s by (simp add: pm_live_def boundaries)
  ultimately show ?thesis by (simp add: frame_span_def)
qed

lemma malloc_k_base:
  assumes h: "hrel h ms ps" and b: "bytes \<noteq> 0" and m: "malloc_k bytes h = Inr (p, h')"
  shows "hbase h' = hbase h \<and> hlen h' = hlen h"
proof (cases rule: malloc_k_ok [OF h b])
  case (2 us v ws)
  have "hrel h (us @ v # ws) ps" using h 2(1) by simp
  from take_at_live [OF this 2(3,2)] show ?thesis using m 2(4) by auto
qed (use m in simp)

lemma heapInit_ok:
  assumes "avail h = 0" and "lockBytes \<noteq> 0" and "lockBytes < 0x10000"
  obtains p h' where "heapInit lockBytes HEAP_START HEAP_SIZE h = Inr (p, h')" "heap_inv h'" "live_ptrs h' = {p}"
    "hbase h' = HEAP_START" "hlen h' = uint HEAP_SIZE div 4"
proof -
  have b: "uint lockBytes < 0x10000" using assms(3) by (simp add: word_less_def)
  define n where "n = (uint lockBytes + 3) div 4 + 2"
  have n: "2 \<le> n" "n \<le> 0x5000" using b uint_ge_0 [of lockBytes] unfolding n_def by arith+
  have "uint ((lockBytes + 3) div 4 + 2) = n mod 2 ^ 32"
    using b uint_ge_0 [of lockBytes] by (simp add: uint_word_ariths uint_div n_def)
  then have "uint ((lockBytes + 3) div 4 + 2) = n" using n by simp
  moreover have "signed_take_bit 31 n = n" by (rule signed_take_bit_int_eq_self) (use n in simp_all)
  ultimately have "ints_for lockBytes \<le> 0x5000" using n by (simp add: ints_for_def Let_def sint_uint)
  then have i: "4 * ints_for lockBytes + 16 \<le> 4 * (uint HEAP_SIZE div 4)" by (simp add: boundaries)
  obtain p h' where r: "heapInit lockBytes HEAP_START HEAP_SIZE h = Inr (p, h')" "heap_inv h'" "live_ptrs h' = {p}"
    using heapInit_establishes [OF assms(1) _ _ assms(2) i, of HEAP_START] boundaries by auto
  have H: "hrel (heap_layout HEAP_START HEAP_SIZE h) [uint HEAP_SIZE div 4 - 4] [2]"
    by (rule heap_layout_hrel) (use assms(1) boundaries in simp_all)
  have "hbase (heap_layout HEAP_START HEAP_SIZE h) = HEAP_START" "hlen (heap_layout HEAP_START HEAP_SIZE h) = uint HEAP_SIZE div 4"
    by (simp_all add: heap_layout_def Let_def makeTaken_def makeAvail_def setNext_def setPrev_def HEAP_SIZE_def)
  moreover have "malloc_k lockBytes (heap_layout HEAP_START HEAP_SIZE h) = Inr (p, h')"
    using r(1) by (auto simp: heapInit_def operator_new_def split: if_splits)
  ultimately show thesis using that r malloc_k_base [OF H assms(2)] by metis
qed

text \<open>C24: The memory is divided.  On a machine whose memory is a whole number of pages and has room for the page
  tables, \<^verbatim>\<open>kernelInit\<close> returns with a heap in order whose only object is its lock, a frame allocator in order, and a shared
  directory that maps the memory from page 1 on to itself and nothing else; and in whatever later states
  of the two allocators, no byte of a heap object is in a frame that was handed out.  When the memory is not a
  whole number of pages, the assertion of \<^verbatim>\<open>PhysMem::init\<close> fails.\<close>

theorem kernelInit_memory:
  assumes "avail h = 0" and "ffree s = 0" and "lockBytes \<noteq> 0" and "lockBytes < 0x10000"
    and "0x600000 + 4096 * (uint (pdi (memSize cfg - 1)) + 2) \<le> uint (memSize cfg)" and "uint (memSize cfg) \<le> 0xFFFFF000"
  shows "(\<exists>lock h'. init_heap lockBytes h = Inr (lock, h') \<and> heap_inv h' \<and> live_ptrs h' = {lock} \<and>
      hbase h' = HEAP_START \<and> hlen h' = uint HEAP_SIZE div 4) \<and>
    (if aligned (memSize cfg) then
      \<exists>shared s'. init_frames cfg s = Inr (shared, s') \<and> as_inv VMM_FRAMES s' shared \<and>
        (\<forall>va. translate (pmem s') shared va = (if 0x1000 \<le> uint va \<and> framedown va < memSize cfg then Some va else None)) \<and>
        (\<forall>h s p k f b. heap_inv h \<and> hbase h = HEAP_START \<and> hlen h = uint HEAP_SIZE div 4 \<and> p \<in> live_ptrs h \<and> k \<in> payload h p \<and>
           f \<in> pm_live VMM_FRAMES s \<and> b < 4 \<longrightarrow> KHeap.addr_of h k + b \<notin> frame_span f)
    else init_frames cfg s = Inl (AssertFailed ''offset(size) == 0''))"
proof -
  obtain lock h' where h: "heapInit lockBytes HEAP_START HEAP_SIZE h = Inr (lock, h')" "heap_inv h'" "live_ptrs h' = {lock}"
    "hbase h' = HEAP_START" "hlen h' = uint HEAP_SIZE div 4"
    using heapInit_ok [OF assms(1,3,4)] by blast
  have H: "\<exists>lock h'. init_heap lockBytes h = Inr (lock, h') \<and> heap_inv h' \<and> live_ptrs h' = {lock} \<and>
      hbase h' = HEAP_START \<and> hlen h' = uint HEAP_SIZE div 4" using h by (simp add: init_heap_def)
  have room: "0 \<le> uint (pdi (memSize cfg - 1))" by (rule uint_ge_0)
  have le: "0x602000 \<le> uint (memSize cfg)"
  proof -
    define q where "q = uint (pdi (memSize cfg - 1))"
    have "0 \<le> q" "0x600000 + 4096 * (q + 2) \<le> uint (memSize cfg)" using room assms(5) unfolding q_def by simp_all
    then show ?thesis by simp
  qed
  then have sz: "uint (memSize cfg - VMM_FRAMES) = uint (memSize cfg) - 0x600000"
    using boundaries(3) by (simp add: uint_sub_if')
  have al: "aligned (memSize cfg - VMM_FRAMES) \<longleftrightarrow> aligned (memSize cfg)" "aligned VMM_FRAMES"
    using mod_diff_eq [of "uint (memSize cfg)" 4096 "0x600000", symmetric] by (simp_all add: aligned_def sz boundaries)
  show ?thesis
  proof (cases "aligned (memSize cfg)")
    case False
    then show ?thesis using H al by (simp add: init_frames_def pm_init_def frame_offset_0)
  next
    case True
    have "uint VMM_FRAMES + uint (memSize cfg - VMM_FRAMES) < 2 ^ 32" using sz boundaries(3) uint_lt2p [of "memSize cfg"] by simp
    then obtain s1 where s1: "pm_init VMM_FRAMES (memSize cfg - VMM_FRAMES) s = Inr s1" "pm_rel VMM_FRAMES s1 []"
      "plimit s1 = VMM_FRAMES + (memSize cfg - VMM_FRAMES)" "pavail s1 = VMM_FRAMES"
      using pm_init_ok [OF al(2) _ _ _ assms(2), of "memSize cfg - VMM_FRAMES"] True al(1) boundaries(3) by auto
    have "0x1000 < memSize cfg" using le by (simp add: word_less_def)
    moreover have "uint (pavail s1) + 4096 * (uint (pdi (memSize cfg - 1)) + 2) \<le> uint (plimit s1)"
      using assms(5) s1(3,4) boundaries(3) by simp
    ultimately obtain shared s' where g: "global_init cfg s1 = Inr (shared, s')" "as_inv VMM_FRAMES s' shared"
      "\<forall>va. translate (pmem s') shared va = (if 0x1000 \<le> uint va \<and> framedown va < memSize cfg then Some va else None)"
      using global_init_spec [of VMM_FRAMES s1 cfg] s1(2) assms(6) unfolding pm_inv_def by blast
    have "init_frames cfg s = Inr (shared, s')"
      using s1(1) g(1) by (simp add: init_frames_def)
    moreover note g(2,3) heap_frames_apart
    ultimately show ?thesis using True H by simp blast
  qed
qed

lemma kernelInit_memory_witness:
  "(\<exists>lock h'. init_heap 32 heap_zero = Inr (lock, h') \<and> live_ptrs h' = {lock}) \<and>
   (\<exists>shared s'. init_frames (config_zero\<lparr>memSize := 0x8000000\<rparr>) phys_zero = Inr (shared, s') \<and>
     translate (pmem s') shared 0xB8000 = Some 0xB8000 \<and> translate (pmem s') shared 0x80000000 = None)"
proof -
  let ?c = "config_zero\<lparr>memSize := 0x8000000\<rparr>"
  have "0x600000 + 4096 * (uint (pdi (memSize ?c - 1)) + 2) \<le> uint (memSize ?c)" by (simp add: pdi_def)
  moreover have "aligned (memSize ?c)" by (simp add: aligned_def)
  ultimately show ?thesis
    using kernelInit_memory [of heap_zero phys_zero 32 ?c] by (auto simp: heap_zero_def phys_zero_def framedown_def FRAME_SIZE_eq)
qed

end
