(* ===== verification/Spec2Isabelle.thy ===== *)
theory Spec2Isabelle
  imports OS_Prelude Heap_Blocks Heap_Spec KHeap UHeap Machine_Memory PhysMem Kernel_Config Config_Tables VMM User_Memory Block_IO Ide LibK Ext2 Printf User_Lib User_Printf Queue Counting Locks Shared_Refs Sync Scheduler Sched_Inv Sched_Flags Sched_Safe Sched_Spec Bounded_Buffer Barriers Process Elf Sys Sys_Inv Sys_Spec Fork Keyboard User_Progs User_Specs User_Init Devices Console Rng Startup Boot
begin

text \<open>
  A verification library of a teaching operating system: the kernel in \<^verbatim>\<open>kernel/\<close> and the user programs
  in \<^verbatim>\<open>t0.dir/sbin/\<close>.

  \<^bold>\<open>The program.\<close>  The boot code leaves \<^verbatim>\<open>kernelInit\<close> with the memory sizes; it discovers the machine
  (\<^verbatim>\<open>config.cc\<close>), sets up the heap (\<^verbatim>\<open>heap.cc\<close>), the frames (\<^verbatim>\<open>physmem.cc\<close>) and paging (\<^verbatim>\<open>vmm.cc\<close>), and starts
  threads on every core (\<^verbatim>\<open>threads.cc\<close>).  The first thread mounts the ext2 file system (\<^verbatim>\<open>ext2.cc\<close>) of the disk
  (\<^verbatim>\<open>ide.cc\<close>), loads a program (\<^verbatim>\<open>elf.cc\<close>) and enters user mode; user programs come back through the system
  calls (\<^verbatim>\<open>sys.cc\<close>) and page faults.  Threads wait for each other on semaphores and what is built on them.

  \<^bold>\<open>Theories, in the order of their imports.\<close>
  \<^item> \<open>OS_Prelude\<close>: the integer types, the ways in which code fails to return (\<open>fault\<close>, the left summand of
    \<open>res\<close>), sequencing; \<open>Counting\<close>: counting list elements.
  \<^item> \<open>Heap_Blocks\<close>: the block layout both heaps share; \<open>Heap_Spec\<close>: the contract of an allocator, a locale
    that the kernel heap, the user heap and the frame allocator interpret; \<open>KHeap\<close> (\<^verbatim>\<open>kernel/heap.cc\<close>) and
    \<open>UHeap\<close> (\<^verbatim>\<open>sbin/heap.c\<close>): one definition per function, the invariant of the blocks and free lists, what each
    operation does, and that no history of operations lets two live objects overlap or changes one that was not
    written.
  \<^item> \<open>Machine_Memory\<close> (\<^verbatim>\<open>machine.S\<close>): memory as bytes, words, \<^verbatim>\<open>memcpy\<close> and \<^verbatim>\<open>bzero\<close>; \<open>Kernel_Config\<close> and
    \<open>Config_Tables\<close> (\<^verbatim>\<open>config.h\<close>, \<^verbatim>\<open>config.cc\<close>): the firmware's tables; \<open>PhysMem\<close> (\<^verbatim>\<open>physmem.cc\<close>): the free list
    through the frames; \<open>VMM\<close> (\<^verbatim>\<open>vmm.cc\<close>): page directories against the processor's page walk; \<open>User_Memory\<close>:
    the user half of an address space is a flat array of bytes, whatever is paged in, stated as the locale
    \<open>byte_memory\<close>.
  \<^item> \<open>Block_IO\<close> (\<^verbatim>\<open>block_io.h\<close>, \<^verbatim>\<open>block_io.cc\<close>): the locale \<open>block_device\<close>, what reading promises; \<open>Ide\<close>
    (\<^verbatim>\<open>ide.cc\<close>): the driver over the ports, a block device but for its panics on the status of a busy drive; \<open>Ext2\<close> (\<^verbatim>\<open>ext2.h\<close>, \<^verbatim>\<open>ext2.cc\<close>): every node is a block
    device too, directories, and path lookup against an abstract tree.
  \<^item> \<open>LibK\<close>, \<open>Printf\<close> (\<^verbatim>\<open>libk.cc\<close>, \<^verbatim>\<open>snprintf.cc\<close>), \<open>User_Lib\<close>, \<open>User_Printf\<close> (\<^verbatim>\<open>libc.c\<close>, \<^verbatim>\<open>printf.c\<close>): strings
    and formatted output against a grammar of formats; the two output libraries are proved to be the same.
  \<^item> \<open>Locks\<close> (\<^verbatim>\<open>atomic.h\<close>): the interrupt-safe locks, instruction by instruction, on any number of cores that
    are interrupted anywhere (the comment above \<^verbatim>\<open>InterruptSafeLock\<close> asks whether it is correct: it is);
    \<open>Shared_Refs\<close> (\<^verbatim>\<open>shared.h\<close>): reference counts; \<open>Queue\<close> (\<^verbatim>\<open>queue.h\<close>): a list through the \<^verbatim>\<open>next\<close> fields;
    \<open>Sync\<close> (\<^verbatim>\<open>semaphore.h\<close>, \<^verbatim>\<open>blocking_lock.h\<close>, \<^verbatim>\<open>future.h\<close>, the ready queue of \<^verbatim>\<open>threads.cc\<close>); \<open>Bounded_Buffer\<close>
    (\<^verbatim>\<open>bb.h\<close>); \<open>Scheduler\<close>, \<open>Sched_Inv\<close>, \<open>Sched_Flags\<close>, \<open>Sched_Safe\<close>, \<open>Sched_Spec\<close> (\<^verbatim>\<open>threads.h\<close>, \<^verbatim>\<open>threads.cc\<close>, \<^verbatim>\<open>context.s\<close>, the timer
    handler of \<^verbatim>\<open>pit.cc\<close>): blocking and switching threads on several cores, its invariant (with what a thread's stack
    says about the interrupt flag), the steps that keep it, and what follows; \<open>Barriers\<close> (\<^verbatim>\<open>condition.h\<close>, \<^verbatim>\<open>barrier.h\<close>) with all their
    assertions.  Locks, buffers and barriers are step relations over all interleavings, with invariants proved by rule
    induction.
  \<^item> \<open>Process\<close> (\<^verbatim>\<open>process.h\<close>, \<^verbatim>\<open>threads.h\<close>), \<open>Elf\<close> (\<^verbatim>\<open>elf.cc\<close>), \<open>Sys\<close> (\<^verbatim>\<open>sys.cc\<close>): the kernel's objects in
    stores, and one definition per system call; \<open>Sys_Inv\<close>: the objects stay in order through every history of
    calls, wake-ups, switches of threads and deletions of objects without references; \<open>Sys_Spec\<close>, \<open>Fork\<close>: what the calls do; \<open>Keyboard\<close>
    (\<^verbatim>\<open>keyboard.cc\<close>): the line that the shell reads.
  \<^item> \<open>User_Progs\<close>, \<open>User_Specs\<close>, \<open>User_Init\<close> (\<^verbatim>\<open>sbin/*.c\<close>): the shell, its commands and the test program
    \<^verbatim>\<open>init.c\<close> over the system calls.
  \<^item> \<open>Devices\<close> (\<^verbatim>\<open>idt.cc\<close>, \<^verbatim>\<open>smp.h\<close>, \<^verbatim>\<open>smp.cc\<close>, \<^verbatim>\<open>pit.cc\<close>): gates, messages between processors and the
    calibration of the timer; \<open>Console\<close> (\<^verbatim>\<open>u8250.cc\<close>, \<^verbatim>\<open>debug.h\<close>, \<^verbatim>\<open>debug.cc\<close>): messages and panics down to the
    serial port; \<open>Rng\<close> (\<^verbatim>\<open>random.h\<close>): the seeds for which the generator works.  What a device answers is a
    function of the number of reads, what the code writes is a list.
  \<^item> \<open>Startup\<close> (\<^verbatim>\<open>init.cc\<close>): the processors start one another, as steps in any order, with an invariant and a measure
    that show what start-up guarantees and that it ends; \<open>Boot\<close> (\<^verbatim>\<open>init.cc\<close>, \<^verbatim>\<open>kernel.cc\<close>): how the memory is
    divided between the heap and the frames, and the first program, composed of the file system, the loader and the
    user memory.

  \<^bold>\<open>How state and failure are modelled.\<close>  State is passed explicitly, as a record per component.  A failed
  assertion, a panic, a null or foreign access, a division by zero and an endless loop are values of \<open>fault\<close>.
  Integers keep their width (\<open>u8\<close> to \<open>u64\<close>) where the code computes with them; indices into the heap array
  are \<open>int\<close>.  A loop that may not end is a \<^theory_text>\<open>partial_function (option)\<close>, so that not returning is a value and
  every property that says a call returns proves it; the other loops are recursive functions with their
  termination proofs, or count a number of rounds that the code fixes (1024 entries of a page table, 512 of the
  user half of a directory, 100 bytes of the path), so no fuel is chosen anywhere.

  Where the C++ is undefined (a store behind a buffer such as the 250 bytes of \<^verbatim>\<open>ls.c\<close>, an index outside the
  tables of a process that finds an object of the wrong kind) the model stops with a fault \<open>OutOfBounds\<close>.  The
  widths and precisions of \<^verbatim>\<open>snprintf.cc\<close> and \<^verbatim>\<open>printf.c\<close> are \<^verbatim>\<open>int\<close> there and unbounded integers here, so
  formats whose numbers overflow are outside the model.

  \<^bold>\<open>Parameters.\<close>  The ports of the disk controller with its documented behaviour (\<open>ata_laws\<close>: while it is
  busy, its other status bits may be anything), the words of memory around the tables of a process
  (\<open>stray_null\<close>), what the serial
  port, the timers and the interrupt controller answer, the floating-point
  unit, the strings at the addresses passed to \<^verbatim>\<open>%s\<close>, the addresses the heap gives to kernel objects, and the
  bytes of uninitialised memory.

  \<^bold>\<open>Not modelled.\<close>  Assembly that leaves real mode, or saves registers on the way into interrupt handlers
  (\<^verbatim>\<open>mbr.S\<close>, the stubs of \<^verbatim>\<open>machine.S\<close>, \<^verbatim>\<open>sys.S\<close>, \<^verbatim>\<open>crt0.S\<close>): its effect on the state the C++ code sees is part of
  the models above.  The call of the global constructors (\<^verbatim>\<open>crti.cc\<close>), the messages of \<^verbatim>\<open>kernelInit\<close> about the
  processor, and the count of timer ticks.  Outside \<open>Console\<close>, the text that the kernel prints about itself.  Caches and memory ordering: the code's atomic accesses are sequentially
  consistent.
\<close>

end
